(* ===== verification/Prelude.thy ===== *)
theory Prelude
  imports Main "HOL-Library.Word" "HOL-Library.Multiset"
begin

text \<open>
  Shared vocabulary of the development: the machine types of the C sources, the conversion
  between C characters and bytes, first-match search in an array, the swap-with-last removal
  the code uses on unordered arrays, and the generic list lemmas the component theories rest on.
  The collection \<open>c_defs\<close> holds the small wrappers that are always unfolded.
\<close>

named_theorems c_defs

type_synonym byte = "8 word"
type_synonym u16 = "16 word"
type_synonym u32 = "32 word"
type_synonym u64 = "64 word"

section \<open>Characters and bytes\<close>

text \<open>A C character string is a \<^typ>\<open>string\<close> without its terminator; a buffer is a list of bytes.\<close>

definition ascii :: "char \<Rightarrow> nat" where
  "ascii c = of_char c"

definition byte_of_char :: "char \<Rightarrow> byte" where
  "byte_of_char c = of_nat (of_char c)"

definition char_of_byte :: "byte \<Rightarrow> char" where
  "char_of_byte b = char_of (unat b)"

abbreviation bytes_of :: "string \<Rightarrow> byte list" where
  "bytes_of s \<equiv> map byte_of_char s"

abbreviation chars_of :: "byte list \<Rightarrow> string" where
  "chars_of bs \<equiv> map char_of_byte bs"

lemma unat_byte_of_char [simp]: "unat (byte_of_char c) = of_char c"
proof -
  have "(of_char c :: nat) < 2 ^ 8" using nat_of_char_less_256 [of c] by simp
  then show ?thesis unfolding byte_of_char_def by (simp add: unat_of_nat)
qed

lemma char_of_byte_of_char [simp]: "char_of_byte (byte_of_char c) = c"
  by (simp add: char_of_byte_def)

lemma byte_of_char_of_byte [simp]: "byte_of_char (char_of_byte b) = b"
proof -
  have "unat b < 256" using unsigned_less [of b] by simp
  then show ?thesis by (simp add: byte_of_char_def char_of_byte_def)
qed

lemma chars_of_bytes_of [simp]: "chars_of (bytes_of s) = s"
  by (simp add: map_idI)

lemma bytes_of_chars_of [simp]: "bytes_of (chars_of bs) = bs"
  by (simp add: map_idI)

lemma char_byte_comp [simp]: "char_of_byte \<circ> byte_of_char = id" "byte_of_char \<circ> char_of_byte = id"
  by (simp_all add: fun_eq_iff)

lemma byte_of_char_eq_iff [simp]: "byte_of_char c = byte_of_char d \<longleftrightarrow> c = d"
  by (metis char_of_byte_of_char)

section \<open>First match in an array\<close>

fun find_idx :: "('a \<Rightarrow> bool) \<Rightarrow> 'a list \<Rightarrow> nat option" where
  "find_idx P [] = None"
| "find_idx P (x # xs) = (if P x then Some 0 else map_option Suc (find_idx P xs))"

lemma find_idx_None_iff: "find_idx P xs = None \<longleftrightarrow> (\<forall>x\<in>set xs. \<not> P x)"
  by (induction xs) auto

lemma find_idx_SomeD:
  "find_idx P xs = Some i \<Longrightarrow> i < length xs \<and> P (xs ! i) \<and> (\<forall>j<i. \<not> P (xs ! j))"
proof (induction xs arbitrary: i)
  case Nil
  then show ?case by simp
next
  case (Cons x xs)
  then show ?case
    by (auto split: if_splits simp: nth_Cons split: nat.splits)
qed

lemma find_idx_append1:
  "find_idx P xs = Some i \<Longrightarrow> find_idx P (xs @ ys) = Some i"
  by (induction xs arbitrary: i) (auto split: if_splits)

lemma find_idx_append2:
  "\<forall>x\<in>set xs. \<not> P x \<Longrightarrow> find_idx P (xs @ ys) = map_option (\<lambda>i. length xs + i) (find_idx P ys)"
  by (cases "find_idx P ys"; induction xs) auto

lemma find_idx_Some_iff_distinct:
  assumes "distinct (map f xs)"
  shows "find_idx (\<lambda>x. f x = k) xs = Some i \<longleftrightarrow> i < length xs \<and> f (xs ! i) = k"
proof
  assume "find_idx (\<lambda>x. f x = k) xs = Some i"
  then show "i < length xs \<and> f (xs ! i) = k" by (auto dest: find_idx_SomeD)
next
  assume R: "i < length xs \<and> f (xs ! i) = k"
  then obtain j where j: "find_idx (\<lambda>x. f x = k) xs = Some j"
    using find_idx_None_iff [of "\<lambda>x. f x = k" xs] nth_mem by blast
  from find_idx_SomeD [OF j] R assms have "j = i"
    by (metis length_map nth_eq_iff_index_eq nth_map)
  with j show "find_idx (\<lambda>x. f x = k) xs = Some i" by simp
qed

section \<open>Swap-with-last removal\<close>

definition swap_remove :: "nat \<Rightarrow> 'a list \<Rightarrow> 'a list" where
  "swap_remove i xs = (if i < length xs - 1 then butlast (xs[i := last xs]) else butlast xs)"

lemma length_swap_remove [simp]: "length (swap_remove i xs) = length xs - 1"
  by (simp add: swap_remove_def)

lemma mset_swap_remove:
  assumes "i < length xs"
  shows "mset (swap_remove i xs) = mset xs - {#xs ! i#}"
proof -
  from assms obtain ys y where xs: "xs = ys @ [y]"
    by (cases xs rule: rev_cases) auto
  show ?thesis
  proof (cases "i < length ys")
    case True
    then show ?thesis
      by (simp add: swap_remove_def xs list_update_append nth_append mset_update)
  next
    case False
    with assms have "i = length ys" by (simp add: xs)
    then show ?thesis by (simp add: swap_remove_def xs)
  qed
qed

lemma nth_swap_remove:
  assumes "i < length xs" "j < length xs - 1"
  shows "swap_remove i xs ! j = (if j = i then last xs else xs ! j)"
  using assms by (auto simp: swap_remove_def nth_butlast)

lemma set_swap_remove_distinct:
  assumes "i < length xs" "distinct xs"
  shows "set (swap_remove i xs) = set xs - {xs ! i}"
proof -
  have "set_mset (mset (swap_remove i xs)) = set_mset (mset xs - {#xs ! i#})"
    using assms(1) by (simp add: mset_swap_remove)
  also have "\<dots> = set xs - {xs ! i}"
    using assms by (auto simp: in_diff_count distinct_count_atmost_1 split: if_splits)
  finally show ?thesis by simp
qed

lemma distinct_map_swap_remove:
  assumes "i < length xs" "distinct (map f xs)"
  shows "distinct (map f (swap_remove i xs))"
proof -
  let ?ys = "take i xs @ drop (Suc i) xs"
  have split: "xs = take i xs @ xs ! i # drop (Suc i) xs"
    using assms(1) by (rule id_take_nth_drop)
  then have "mset xs = mset (take i xs @ xs ! i # drop (Suc i) xs)" by metis
  then have "mset (swap_remove i xs) = mset ?ys"
    using assms(1) by (simp add: mset_swap_remove)
  then have "mset (map f (swap_remove i xs)) = mset (map f ?ys)" by simp
  moreover have "distinct (map f (take i xs @ xs ! i # drop (Suc i) xs))"
    using assms(2) split by metis
  then have "distinct (map f ?ys)" by simp
  ultimately show ?thesis using mset_eq_imp_distinct_iff by blast
qed

end
