(* ===== verification/VfsPath.thy ===== *)
theory VfsPath
  imports Prelude
begin

text \<open>
  The path utilities of \<open>vfs.c\<close>: the error codes of \<open>vfs.h\<close>, \<open>vfs_normalize\<close>,
  \<open>vfs_resolve\<close>, \<open>path_parent\<close> and \<open>validate_path_components\<close>, together with the
  abstract view of a path as a list of components. The lemmas show that normalisation computes
  the component-wise resolution of \<open>.\<close> and \<open>..\<close>, that its result is canonical, and that the
  fixed-size arrays of the C function are never overrun.

  A C string is its characters without the terminator, so the test for the terminator is the
  test for the empty list. The functions that take a path treat a null pointer and the empty
  string alike; where they do not (the working directory of \<open>vfs_resolve\<close>) the argument is an
  option.
\<close>

section \<open>Error codes\<close>

datatype vfs_rc =
    VFS_OK | VFS_ERR | VFS_ENOTFOUND | VFS_EEXIST | VFS_EPERM | VFS_EQUOTA
  | VFS_ENOTDIR | VFS_EISDIR | VFS_ENOTEMPTY | VFS_EBADPATH | VFS_ENOMEM

fun rc_code :: "vfs_rc \<Rightarrow> int" where
  "rc_code VFS_OK = 0"
| "rc_code VFS_ERR = -1"
| "rc_code VFS_ENOTFOUND = -2"
| "rc_code VFS_EEXIST = -3"
| "rc_code VFS_EPERM = -4"
| "rc_code VFS_EQUOTA = -5"
| "rc_code VFS_ENOTDIR = -6"
| "rc_code VFS_EISDIR = -7"
| "rc_code VFS_ENOTEMPTY = -8"
| "rc_code VFS_EBADPATH = -9"
| "rc_code VFS_ENOMEM = -10"

definition vfs_strerror :: "int \<Rightarrow> string" where
  "vfs_strerror err =
     (if err = rc_code VFS_OK then ''success''
      else if err = rc_code VFS_ERR then ''generic error''
      else if err = rc_code VFS_ENOTFOUND then ''not found''
      else if err = rc_code VFS_EEXIST then ''already exists''
      else if err = rc_code VFS_EPERM then ''permission denied''
      else if err = rc_code VFS_EQUOTA then ''quota exceeded''
      else if err = rc_code VFS_ENOTDIR then ''not a directory''
      else if err = rc_code VFS_EISDIR then ''is a directory''
      else if err = rc_code VFS_ENOTEMPTY then ''directory not empty''
      else if err = rc_code VFS_EBADPATH then ''invalid path''
      else if err = rc_code VFS_ENOMEM then ''out of memory''
      else ''unknown error'')"

definition VFS_PATH_MAX :: nat where
  "VFS_PATH_MAX = 4096"

abbreviation slash :: char where
  "slash \<equiv> CHR ''/''"

abbreviation root_path :: string where
  "root_path \<equiv> ''/''"

definition illegal_chars :: string where
  "illegal_chars = [CHR 0x3A, CHR 0x2F, CHR 0x5C, CHR 0x2A, CHR 0x3F, CHR 0x22,
     CHR 0x3C, CHR 0x3E, CHR 0x7C]"

section \<open>Normalisation\<close>

text \<open>
  One pass of the tokenizer: what a component does to the \<open>parts\<close> array, whose first
  \<open>depth\<close> slots are the list.
\<close>

definition push_part :: "string \<Rightarrow> string list \<Rightarrow> string list" where
  "push_part tok parts =
     (if tok = ''.'' then parts
      else if tok = ''..'' then (if 0 < length parts then butlast parts else parts)
      else parts @ [tok])"

function normalize_loop :: "string \<Rightarrow> string list \<Rightarrow> string list" where
  "normalize_loop tok parts =
     (if tok = [] then parts
      else let tok1 = dropWhile ((=) slash) tok in
        if tok1 = [] then parts
        else let part = takeWhile ((\<noteq>) slash) tok1;
                 rest = dropWhile ((\<noteq>) slash) tok1;
                 parts' = push_part part parts
             in if rest = [] then parts' else normalize_loop (tl rest) parts')"
  by pat_completeness auto
termination
proof (relation "measure (\<lambda>(tok, parts). length tok)", goal_cases)
  case 1
  show ?case by simp
next
  case (2 tok parts tok1 part rest parts')
  have "length rest \<le> length tok1" using 2 by (simp add: length_dropWhile_le)
  moreover have "length tok1 \<le> length tok" using 2 by (simp add: length_dropWhile_le)
  moreover have "rest \<noteq> []" using 2 by simp
  ultimately show ?case by (cases rest) auto
qed

declare normalize_loop.simps [simp del]

text \<open>The rebuilding loop: \<open>pos\<close> is the number of characters already in the buffer.\<close>

fun rebuild_loop :: "nat \<Rightarrow> string \<Rightarrow> string list \<Rightarrow> vfs_rc + string" where
  "rebuild_loop bufsz buf [] = Inr buf"
| "rebuild_loop bufsz buf (part # parts) =
     (if length buf + 1 + length part + 1 > bufsz then Inl VFS_EBADPATH
      else rebuild_loop bufsz (buf @ slash # part) parts)"

definition vfs_normalize :: "nat \<Rightarrow> string \<Rightarrow> vfs_rc + string" where
  "vfs_normalize bufsz path =
     (if path = [] \<or> hd path \<noteq> slash then Inl VFS_EBADPATH
      else if length path \<ge> VFS_PATH_MAX then Inl VFS_EBADPATH
      else let parts = normalize_loop (tl path) [] in
        if length parts = 0 then (if bufsz < 2 then Inl VFS_EBADPATH else Inr root_path)
        else rebuild_loop bufsz [] parts)"

definition vfs_resolve :: "nat \<Rightarrow> string \<Rightarrow> string option \<Rightarrow> vfs_rc + string" where
  "vfs_resolve bufsz path cwd =
     (if path = [] then Inl VFS_EBADPATH
      else if hd path = slash then vfs_normalize bufsz path
      else let cwdlen = (case cwd of None \<Rightarrow> 1 | Some c \<Rightarrow> length c) in
        if cwdlen + 1 + length path + 1 > VFS_PATH_MAX then Inl VFS_EBADPATH
        else let tmp = (case cwd of
               Some (c # cs) \<Rightarrow> if c = slash then c # cs else [slash]
             | _ \<Rightarrow> [slash])
             in vfs_normalize bufsz (tmp @ slash # path))"

section \<open>Parent and component checks\<close>

definition path_parent :: "nat \<Rightarrow> string \<Rightarrow> vfs_rc + string" where
  "path_parent bufsz path =
     (if path = root_path then Inl VFS_ENOTFOUND
      else let pre = rev (tl (dropWhile ((\<noteq>) slash) (rev path))) in
        if pre = [] then (if bufsz < 2 then Inl VFS_EBADPATH else Inr root_path)
        else if length pre + 1 > bufsz then Inl VFS_EBADPATH
        else Inr pre)"

fun validate_loop :: "string \<Rightarrow> nat \<Rightarrow> bool \<Rightarrow> vfs_rc" where
  "validate_loop [] clen dots =
     (if clen = 0 then VFS_OK
      else if dots \<and> clen \<le> 2 then VFS_EBADPATH
      else VFS_OK)"
| "validate_loop (c # cs) clen dots =
     (if c \<noteq> slash then
        (if ascii c < 0x20 \<or> c \<in> set illegal_chars then VFS_EBADPATH
         else validate_loop cs (clen + 1) (dots \<and> c = CHR ''.''))
      else if clen = 0 then VFS_EBADPATH
      else if dots \<and> clen \<le> 2 then VFS_EBADPATH
      else validate_loop cs 0 True)"

definition validate_path_components :: "string \<Rightarrow> vfs_rc" where
  "validate_path_components path =
     (if path = root_path then VFS_OK
      else if length path \<ge> VFS_PATH_MAX then VFS_EBADPATH
      else validate_loop (tl path) 0 True)"

section \<open>Abstract paths\<close>

text \<open>
  The specification side: a path denotes its list of non-empty components, \<open>resolve_parts\<close>
  interprets the dots, and \<open>join_path\<close> prints the canonical form.
\<close>

fun split_slash :: "string \<Rightarrow> string list" where
  "split_slash [] = [[]]"
| "split_slash (c # cs) =
     (if c = slash then [] # split_slash cs
      else (c # hd (split_slash cs)) # tl (split_slash cs))"

definition components :: "string \<Rightarrow> string list" where
  "components p = filter (\<lambda>c. c \<noteq> []) (split_slash p)"

definition resolve_parts :: "string list \<Rightarrow> string list" where
  "resolve_parts cs = foldl (\<lambda>ps c. push_part c ps) [] cs"

definition join_path :: "string list \<Rightarrow> string" where
  "join_path cs = (if cs = [] then root_path else concat (map ((#) slash) cs))"

definition comp_normal :: "string \<Rightarrow> bool" where
  "comp_normal c \<longleftrightarrow> c \<noteq> [] \<and> slash \<notin> set c \<and> c \<noteq> ''.'' \<and> c \<noteq> ''..''"

definition normal_path :: "string \<Rightarrow> bool" where
  "normal_path p \<longleftrightarrow> (\<exists>cs. list_all comp_normal cs \<and> p = join_path cs)"

text \<open>A component made of characters the VFS accepts.\<close>

definition comp_legal :: "string \<Rightarrow> bool" where
  "comp_legal c \<longleftrightarrow> list_all (\<lambda>x. \<not> ascii x < 0x20 \<and> x \<notin> set illegal_chars) c"

subsection \<open>Splitting\<close>

lemma split_slash_nonempty [simp]: "split_slash p \<noteq> []"
  by (cases p) auto

lemma split_slash_no_slash: "slash \<notin> set c \<Longrightarrow> split_slash c = [c]"
  by (induction c) auto

lemma split_slash_append: "slash \<notin> set c \<Longrightarrow> split_slash (c @ slash # p) = c # split_slash p"
  by (induction c) auto

lemma components_Nil [simp]: "components [] = []"
  by (simp add: components_def)

lemma components_slash [simp]: "components (slash # p) = components p"
  by (simp add: components_def)

lemma components_dropWhile [simp]: "components (dropWhile ((=) slash) p) = components p"
  by (induction p) auto

lemma components_append:
  "slash \<notin> set c \<Longrightarrow> components (c @ slash # p) = (if c = [] then components p else c # components p)"
  by (simp add: components_def split_slash_append)

lemma components_single: "slash \<notin> set c \<Longrightarrow> c \<noteq> [] \<Longrightarrow> components c = [c]"
  by (simp add: components_def split_slash_no_slash)

lemma components_no_slash: "c \<in> set (components p) \<Longrightarrow> c \<noteq> [] \<and> slash \<notin> set c"
proof -
  have "slash \<notin> set c" if "c \<in> set (split_slash p)" for c
    using that
  proof (induction p arbitrary: c)
    case (Cons x p)
    obtain d ds where "split_slash p = d # ds" by (cases "split_slash p") auto
    with Cons show ?case by (auto split: if_splits)
  qed simp
  then show "c \<in> set (components p) \<Longrightarrow> c \<noteq> [] \<and> slash \<notin> set c"
    by (auto simp: components_def)
qed

lemma split_first:
  assumes "p \<noteq> []" "hd p \<noteq> slash"
  defines "c \<equiv> takeWhile ((\<noteq>) slash) p" and "r \<equiv> dropWhile ((\<noteq>) slash) p"
  shows "c \<noteq> [] \<and> slash \<notin> set c \<and> p = c @ r \<and> (r \<noteq> [] \<longrightarrow> r = slash # tl r)"
proof -
  have "r \<noteq> [] \<longrightarrow> hd r = slash" unfolding r_def using hd_dropWhile [of "(\<noteq>) slash" p] by auto
  then have "r \<noteq> [] \<longrightarrow> r = slash # tl r" by (cases r) auto
  moreover have "c \<noteq> []" using assms(1,2) unfolding c_def by (cases p) auto
  moreover have "slash \<notin> set c" unfolding c_def using set_takeWhileD by fastforce
  ultimately show ?thesis unfolding c_def r_def by simp
qed

lemma dropWhile_slash_hd: "dropWhile ((=) slash) p \<noteq> [] \<Longrightarrow> hd (dropWhile ((=) slash) p) \<noteq> slash"
  using hd_dropWhile [of "(=) slash" p] by metis

text \<open>The tokenizer loop folds \<open>push_part\<close> over the components.\<close>

lemma normalize_loop_eq:
  "normalize_loop tok parts = foldl (\<lambda>ps c. push_part c ps) parts (components tok)"
proof (induction tok parts rule: normalize_loop.induct)
  case (1 tok parts)
  define t where "t = dropWhile ((=) slash) tok"
  define c where "c = takeWhile ((\<noteq>) slash) t"
  define r where "r = dropWhile ((\<noteq>) slash) t"
  have ct: "components tok = components t" by (simp add: t_def)
  show ?case
  proof (cases "t = []")
    case True
    then show ?thesis
      by (subst normalize_loop.simps) (simp add: t_def [symmetric] ct)
  next
    case False
    then have tok: "tok \<noteq> []" by (auto simp: t_def)
    have sf: "c \<noteq> [] \<and> slash \<notin> set c \<and> t = c @ r \<and> (r \<noteq> [] \<longrightarrow> r = slash # tl r)"
      unfolding c_def r_def using False dropWhile_slash_hd by (intro split_first) (auto simp: t_def)
    have unfold: "normalize_loop tok parts =
        (if r = [] then push_part c parts else normalize_loop (tl r) (push_part c parts))"
      using tok False by (subst normalize_loop.simps) (auto simp: Let_def t_def [symmetric] c_def r_def)
    show ?thesis
    proof (cases "r = []")
      case True
      with sf have "components t = [c]" by (simp add: components_single)
      with True show ?thesis by (simp add: unfold ct)
    next
      case r: False
      from sf r have "t = c @ slash # tl r" by metis
      with sf have "components t = c # components (tl r)" by (metis components_append)
      moreover have "normalize_loop (tl r) (push_part c parts)
          = foldl (\<lambda>ps c. push_part c ps) (push_part c parts) (components (tl r))"
        using 1 tok False r by (simp add: t_def c_def r_def)
      ultimately show ?thesis using r by (simp add: unfold ct)
    qed
  qed
qed


subsection \<open>Canonical forms\<close>

lemma push_part_normal:
  "list_all comp_normal ps \<Longrightarrow> c \<noteq> [] \<Longrightarrow> slash \<notin> set c \<Longrightarrow> list_all comp_normal (push_part c ps)"
  by (auto simp: push_part_def comp_normal_def list_all_iff dest: in_set_butlastD)

lemma foldl_push_normal:
  "list_all comp_normal ps \<Longrightarrow> \<forall>c\<in>set cs. c \<noteq> [] \<and> slash \<notin> set c \<Longrightarrow>
   list_all comp_normal (foldl (\<lambda>ps c. push_part c ps) ps cs)"
  by (induction cs arbitrary: ps) (auto simp: push_part_normal)

lemma resolve_parts_normal: "list_all comp_normal (resolve_parts (components p))"
  unfolding resolve_parts_def by (rule foldl_push_normal) (auto dest: components_no_slash)

lemma foldl_push_id:
  "list_all comp_normal cs \<Longrightarrow> foldl (\<lambda>ps c. push_part c ps) ps cs = ps @ cs"
  by (induction cs arbitrary: ps) (auto simp: push_part_def comp_normal_def)

lemma resolve_parts_id [simp]: "list_all comp_normal cs \<Longrightarrow> resolve_parts cs = cs"
  by (simp add: resolve_parts_def foldl_push_id)

lemma components_join_append:
  "list_all comp_normal cs \<Longrightarrow>
   components (concat (map ((#) slash) cs) @ slash # r) = cs @ components r"
proof (induction cs)
  case (Cons c cs)
  have "\<exists>q. concat (map ((#) slash) cs) @ slash # r = slash # q \<and> components q = cs @ components r"
    using Cons by (cases cs) auto
  then obtain q where q: "concat (map ((#) slash) cs) @ slash # r = slash # q"
      "components q = cs @ components r" by blast
  then have "concat (map ((#) slash) (c # cs)) @ slash # r = slash # c @ slash # q" by simp
  moreover have "components (c @ slash # q) = c # components q"
    using Cons.prems by (simp add: components_append comp_normal_def)
  ultimately show ?case using q by simp
qed simp

lemma components_join [simp]: "list_all comp_normal cs \<Longrightarrow> components (join_path cs) = cs"
proof (cases cs rule: rev_cases)
  case Nil
  then show ?thesis by (simp add: join_path_def)
next
  case (snoc ds d)
  assume "list_all comp_normal cs"
  with snoc have "components (concat (map ((#) slash) ds) @ slash # d) = ds @ [d]"
    by (subst components_join_append) (auto simp: comp_normal_def components_single)
  with snoc show ?thesis by (simp add: join_path_def)
qed

lemma join_path_inj:
  "list_all comp_normal cs \<Longrightarrow> list_all comp_normal ds \<Longrightarrow> join_path cs = join_path ds \<longleftrightarrow> cs = ds"
  by (metis components_join)

lemma join_path_nonempty [simp]: "join_path cs \<noteq> []" "hd (join_path cs) = slash"
  by (cases cs; simp add: join_path_def)+

lemma join_path_root_iff [simp]: "list_all comp_normal cs \<Longrightarrow> join_path cs = root_path \<longleftrightarrow> cs = []"
proof -
  have "root_path = join_path []" by (simp add: join_path_def)
  then show "list_all comp_normal cs \<Longrightarrow> ?thesis" by (metis join_path_inj list.pred_inject(1))
qed

lemma join_path_snoc: "cs \<noteq> [] \<Longrightarrow> join_path (cs @ [c]) = join_path cs @ slash # c"
  by (simp add: join_path_def)

lemma join_path_append: "cs \<noteq> [] \<Longrightarrow> ds \<noteq> [] \<Longrightarrow> join_path (cs @ ds) = join_path cs @ join_path ds"
  by (simp add: join_path_def)

subsection \<open>Lengths\<close>

definition plen :: "string list \<Rightarrow> nat" where
  "plen cs = sum_list (map (\<lambda>c. Suc (length c)) cs)"

lemma plen_simps [simp]: "plen [] = 0" "plen (c # cs) = Suc (length c) + plen cs"
    "plen (as @ bs) = plen as + plen bs"
  by (simp_all add: plen_def)

lemma length_concat_slash [simp]: "length (concat (map ((#) slash) cs)) = plen cs"
  by (induction cs) auto

lemma length_join_path: "length (join_path cs) = (if cs = [] then 1 else plen cs)"
  by (induction cs) (auto simp: join_path_def split: if_splits)

lemma plen_butlast: "plen (butlast cs) \<le> plen cs"
  by (cases cs rule: rev_cases) auto

lemma plen_push: "plen (push_part c ps) \<le> plen ps + plen [c]"
  using plen_butlast [of ps] by (auto simp: push_part_def)

lemma plen_foldl: "plen (foldl (\<lambda>ps c. push_part c ps) ps cs) \<le> plen ps + plen cs"
proof (induction cs arbitrary: ps)
  case (Cons c cs)
  from Cons [of "push_part c ps"] plen_push [of c ps] show ?case by simp
qed simp

lemma plen_filter: "plen (filter P cs) \<le> plen cs"
  by (induction cs) auto

lemma plen_split_slash: "plen (split_slash p) = length p + 1"
proof (induction p)
  case (Cons x p)
  then show ?case by (cases "split_slash p") auto
qed simp

lemma plen_components: "plen (components p) \<le> length p + 1"
  using plen_filter plen_split_slash unfolding components_def by metis

lemma count_le_plen: "\<forall>c\<in>set cs. c \<noteq> [] \<Longrightarrow> 2 * length cs \<le> plen cs"
  by (induction cs) (auto simp: Suc_le_eq neq_Nil_conv)

lemma length_resolve_le:
  assumes "p \<noteq> []" "hd p = slash"
  shows "length (join_path (resolve_parts (components p))) \<le> length p"
proof -
  from assms obtain t where p: "p = slash # t" by (cases p) auto
  have "plen (resolve_parts (components t)) \<le> length t + 1"
    unfolding resolve_parts_def using plen_foldl [of "[]" "components t"] plen_components [of t] by simp
  then show ?thesis by (simp add: p length_join_path)
qed

lemma normalize_loop_depth: "length (normalize_loop t []) \<le> (length t + 1) div 2"
proof -
  let ?ps = "normalize_loop t []"
  have "?ps = resolve_parts (components t)" by (simp add: normalize_loop_eq resolve_parts_def)
  then have "\<forall>c\<in>set ?ps. c \<noteq> []" "plen ?ps \<le> length t + 1"
    using resolve_parts_normal [of t] plen_foldl [of "[]" "components t"] plen_components [of t]
    by (auto simp: list_all_iff comp_normal_def resolve_parts_def)
  then show ?thesis using count_le_plen [of ?ps] by simp
qed

subsection \<open>What the operations compute\<close>

lemma rebuild_loop_eq:
  "rebuild_loop bufsz buf ps =
     (if ps = [] \<or> length buf + plen ps + 1 \<le> bufsz then Inr (buf @ concat (map ((#) slash) ps))
      else Inl VFS_EBADPATH)"
  by (induction ps arbitrary: buf) (auto simp: not_le)

lemma vfs_normalize_eq:
  "vfs_normalize bufsz path =
     (let q = join_path (resolve_parts (components path)) in
      if path \<noteq> [] \<and> hd path = slash \<and> length path < VFS_PATH_MAX \<and> length q + 1 \<le> bufsz
      then Inr q else Inl VFS_EBADPATH)"
proof (cases "path \<noteq> [] \<and> hd path = slash \<and> length path < VFS_PATH_MAX")
  case False
  then show ?thesis by (auto simp: vfs_normalize_def Let_def)
next
  case True
  then obtain t where p: "path = slash # t" by (cases path) auto
  have "normalize_loop t [] = resolve_parts (components t)"
    by (simp add: normalize_loop_eq resolve_parts_def)
  with True show ?thesis
    by (auto simp: vfs_normalize_def p Let_def rebuild_loop_eq length_join_path join_path_def)
qed

lemma vfs_normalize_max:
  "vfs_normalize VFS_PATH_MAX path =
     (if path \<noteq> [] \<and> hd path = slash \<and> length path < VFS_PATH_MAX
      then Inr (join_path (resolve_parts (components path))) else Inl VFS_EBADPATH)"
  using length_resolve_le [of path] by (auto simp: vfs_normalize_eq Let_def)

lemma vfs_normalizeD:
  assumes "vfs_normalize VFS_PATH_MAX path = Inr q"
  obtains cs where "list_all comp_normal cs" "q = join_path cs" "length q < VFS_PATH_MAX"
proof
  let ?cs = "resolve_parts (components path)"
  show "list_all comp_normal ?cs" by (rule resolve_parts_normal)
  show "q = join_path ?cs" using assms by (auto simp: vfs_normalize_max split: if_splits)
  then show "length q < VFS_PATH_MAX"
    using assms length_resolve_le [of path] by (auto simp: vfs_normalize_max split: if_splits)
qed

lemma vfs_normalize_join:
  "list_all comp_normal cs \<Longrightarrow> length (join_path cs) < VFS_PATH_MAX \<Longrightarrow>
   vfs_normalize VFS_PATH_MAX (join_path cs) = Inr (join_path cs)"
  by (simp add: vfs_normalize_max)

lemma path_parent_root [simp]: "path_parent bufsz root_path = Inl VFS_ENOTFOUND"
  by (simp add: path_parent_def)

lemma path_parent_join:
  assumes "list_all comp_normal (cs @ [c])"
  shows "path_parent bufsz (join_path (cs @ [c])) =
    (if length (join_path cs) + 1 \<le> bufsz then Inr (join_path cs) else Inl VFS_EBADPATH)"
proof -
  let ?j = "concat (map ((#) slash) cs)"
  have c: "slash \<notin> set c" using assms by (simp add: comp_normal_def)
  have "dropWhile ((\<noteq>) slash) (rev c @ slash # rev ?j) = slash # rev ?j"
    using c by (subst dropWhile_append2) auto
  then have "dropWhile ((\<noteq>) slash) (rev (join_path (cs @ [c]))) = slash # rev ?j"
    by (simp add: join_path_def)
  moreover have "join_path (cs @ [c]) \<noteq> root_path" using assms by simp
  ultimately show ?thesis
    by (auto simp: path_parent_def Let_def join_path_def not_le)
qed

lemma all_dots_small: "set c \<subseteq> {CHR ''.''} \<Longrightarrow> length c \<le> 2 \<Longrightarrow> c \<in> {[], ''.'', ''..''}"
  by (cases c; cases "tl c"; cases "tl (tl c)") auto

lemma validate_loop_append:
  "slash \<notin> set c \<Longrightarrow> validate_loop (c @ r) n d =
     (if comp_legal c then validate_loop r (n + length c) (d \<and> set c \<subseteq> {CHR ''.''})
      else VFS_EBADPATH)"
  by (induction c arbitrary: n d) (auto simp: comp_legal_def)

lemma validate_loop_comps:
  "list_all comp_normal (c # cs) \<Longrightarrow>
   validate_loop (tl (join_path (c # cs))) 0 True =
     (if list_all comp_legal (c # cs) then VFS_OK else VFS_EBADPATH)"
proof (induction cs arbitrary: c)
  case Nil
  then have "\<not> (set c \<subseteq> {CHR ''.''} \<and> length c \<le> 2)" "slash \<notin> set c"
    using all_dots_small by (auto simp: comp_normal_def)
  then show ?case
    using validate_loop_append [of c "[]" 0 True] by (auto simp: join_path_def)
next
  case (Cons d ds)
  from Cons.prems have c: "\<not> (set c \<subseteq> {CHR ''.''} \<and> length c \<le> 2)" "slash \<notin> set c" "c \<noteq> []"
    using all_dots_small by (auto simp: comp_normal_def)
  have "tl (join_path (c # d # ds)) = c @ slash # tl (join_path (d # ds))"
    by (simp add: join_path_def)
  moreover have "validate_loop (tl (join_path (d # ds))) 0 True =
      (if list_all comp_legal (d # ds) then VFS_OK else VFS_EBADPATH)"
    using Cons by simp
  ultimately show ?case
    using c validate_loop_append [of c "slash # tl (join_path (d # ds))" 0 True] by auto
qed

lemma validate_path_components_join:
  assumes "list_all comp_normal cs" "length (join_path cs) < VFS_PATH_MAX"
  shows "validate_path_components (join_path cs) =
    (if list_all comp_legal cs then VFS_OK else VFS_EBADPATH)"
proof (cases cs)
  case Nil
  then show ?thesis by (simp add: validate_path_components_def join_path_def)
next
  case (Cons d ds)
  with assms validate_loop_comps [of d ds] show ?thesis
    by (auto simp: validate_path_components_def)
qed

subsection \<open>Prefix tests\<close>

text \<open>
  The descendant test of the C code, \<open>strncmp(p, dir, strlen(dir)) == 0 && p[strlen(dir)] == '/'\<close>.
\<close>

definition under :: "string \<Rightarrow> string \<Rightarrow> bool" where
  "under d p \<longleftrightarrow> take (length d) p = d \<and> length d < length p \<and> p ! length d = slash"

lemma under_iff: "under d p \<longleftrightarrow> (\<exists>r. p = d @ slash # r)"
proof
  assume u: "under d p"
  then have "drop (length d) p = slash # drop (Suc (length d)) p"
    by (metis under_def Cons_nth_drop_Suc)
  with u have "p = d @ slash # drop (Suc (length d)) p"
    by (metis append_take_drop_id under_def)
  then show "\<exists>r. p = d @ slash # r" ..
qed (auto simp: under_def)

lemma under_join:
  assumes "list_all comp_normal cs" "list_all comp_normal ds" "cs \<noteq> []"
  shows "under (join_path cs) (join_path ds) \<longleftrightarrow> (\<exists>es. es \<noteq> [] \<and> ds = cs @ es)"
proof
  assume "under (join_path cs) (join_path ds)"
  then obtain r where r: "join_path ds = join_path cs @ slash # r" by (auto simp: under_iff)
  then have "components (join_path ds) = components (concat (map ((#) slash) cs) @ slash # r)"
    using assms(3) by (simp add: join_path_def)
  with assms have "ds = cs @ components r" by (simp add: components_join_append)
  moreover from this r have "components r \<noteq> []" by auto
  ultimately show "\<exists>es. es \<noteq> [] \<and> ds = cs @ es" by blast
next
  assume "\<exists>es. es \<noteq> [] \<and> ds = cs @ es"
  then obtain e es where "ds = cs @ e # es" by (metis list.exhaust)
  with assms(3) show "under (join_path cs) (join_path ds)"
    by (auto simp: under_iff join_path_def)
qed

lemma under_irrefl [simp]: "\<not> under p p"
  by (simp add: under_def)

end
