(* ===== verification/Vfs.thy ===== *)
theory Vfs
  imports VfsPath
begin

unbundle bit_operations_syntax

text \<open>
  The in-memory filesystem of \<open>vfs.c\<close>: its node array, permission check and every operation,
  in the order of the source. Operations take the state and return it updated with the result
  code; out-parameters are returned under \<open>Inr\<close>.

  Three inputs of the C code are arguments of the model: the reading of \<open>time(NULL)\<close> during a
  call (\<open>now\<close>), the outcome of each allocation, and the callback of \<open>vfs_list\<close>. The outcomes of
  the coming allocations are the list \<open>v_mem\<close> of the state; an exhausted list means that
  allocation succeeds. \<open>v_nodes\<close> is the used prefix of the node array, so \<open>count\<close> is its length,
  and a node pointer is an index into it.
\<close>

section \<open>Data\<close>

datatype vfs_type = VFS_FILE | VFS_DIR

record vfs_node =
  n_path :: string
  n_type :: vfs_type
  n_mode :: u32
  n_owner :: int
  n_size :: u64
  n_ctime :: int
  n_mtime :: int
  n_data :: "byte list"

record vfs =
  v_nodes :: "vfs_node list"
  v_cap :: nat
  v_usage :: u64
  v_quota :: u64
  v_umask :: u32
  v_mem :: "bool list"

record vfs_cred =
  uid :: int
  is_admin :: bool
  is_group :: bool

record vfs_stat =
  st_path :: string
  st_type :: vfs_type
  st_mode :: u32
  st_owner :: int
  st_size :: u64
  st_ctime :: int
  st_mtime :: int

record vfs_opts =
  o_quota :: u64
  o_umask :: u32

definition VFS_INITIAL_CAP :: nat where
  "VFS_INITIAL_CAP = 64"

definition VFS_MODE_FILE_DEFAULT :: u32 where
  "VFS_MODE_FILE_DEFAULT = 0x1B6"

definition VFS_MODE_DIR_DEFAULT :: u32 where
  "VFS_MODE_DIR_DEFAULT = 0x1FF"

text \<open>The mask \<open>0777\<close>.\<close>

definition MODE_MASK :: u32 where
  "MODE_MASK = 0x1FF"

definition PERM_R :: u32 where "PERM_R = 4"
definition PERM_W :: u32 where "PERM_W = 2"

section \<open>Node storage\<close>

definition vfs_alloc :: "vfs \<Rightarrow> bool \<times> vfs" where
  "vfs_alloc fs = (case v_mem fs of [] \<Rightarrow> (True, fs) | b # bs \<Rightarrow> (b, fs\<lparr>v_mem := bs\<rparr>))"

definition find_node :: "vfs \<Rightarrow> string \<Rightarrow> nat option" where
  "find_node fs path = find_idx (\<lambda>n. n_path n = path) (v_nodes fs)"

definition grow_nodes :: "vfs \<Rightarrow> vfs_rc \<times> vfs" where
  "grow_nodes fs =
     (let newcap = v_cap fs * 2; (ok, fs1) = vfs_alloc fs in
      if \<not> ok then (VFS_ENOMEM, fs1) else (VFS_OK, fs1\<lparr>v_cap := newcap\<rparr>))"

definition new_node :: "string \<Rightarrow> vfs_type \<Rightarrow> u32 \<Rightarrow> int \<Rightarrow> int \<Rightarrow> vfs_node" where
  "new_node path ty mode owner now =
     \<lparr>n_path = path, n_type = ty, n_mode = mode AND MODE_MASK, n_owner = owner, n_size = 0,
      n_ctime = now, n_mtime = now, n_data = []\<rparr>"

definition add_node ::
    "vfs \<Rightarrow> string \<Rightarrow> vfs_type \<Rightarrow> u32 \<Rightarrow> int \<Rightarrow> int \<Rightarrow> nat option \<times> vfs" where
  "add_node fs path ty mode owner now =
     (let (rc, fs1) = (if length (v_nodes fs) \<ge> v_cap fs then grow_nodes fs else (VFS_OK, fs)) in
      if rc \<noteq> VFS_OK then (None, fs1)
      else let (ok, fs2) = vfs_alloc fs1 in
        if \<not> ok then (None, fs2)
        else (Some (length (v_nodes fs2)),
              fs2\<lparr>v_nodes := v_nodes fs2 @ [new_node path ty mode owner now]\<rparr>))"

definition remove_node :: "vfs \<Rightarrow> nat \<Rightarrow> vfs" where
  "remove_node fs i =
     (let n = v_nodes fs ! i;
          fs1 = (if n_type n = VFS_FILE then fs\<lparr>v_usage := v_usage fs - n_size n\<rparr> else fs)
      in fs1\<lparr>v_nodes := swap_remove i (v_nodes fs1)\<rparr>)"

definition fill_stat :: "vfs_node \<Rightarrow> vfs_stat" where
  "fill_stat n =
     \<lparr>st_path = n_path n, st_type = n_type n, st_mode = n_mode n, st_owner = n_owner n,
      st_size = n_size n, st_ctime = n_ctime n, st_mtime = n_mtime n\<rparr>"

section \<open>Permission checks\<close>

definition check_perm :: "vfs_node \<Rightarrow> vfs_cred \<Rightarrow> u32 \<Rightarrow> bool" where
  "check_perm n cred perm =
     (if is_admin cred then True
      else if uid cred = n_owner n \<and> n_mode n AND push_bit 6 perm \<noteq> 0 then True
      else if is_group cred \<and> n_mode n AND push_bit 3 perm \<noteq> 0 then True
      else if n_mode n AND perm \<noteq> 0 then True
      else False)"

section \<open>Lifecycle\<close>

definition vfs_new :: "vfs_opts option \<Rightarrow> bool list \<Rightarrow> vfs option" where
  "vfs_new opts mem =
     (let fs = \<lparr>v_nodes = [], v_cap = 0, v_usage = 0, v_quota = 0, v_umask = 0, v_mem = mem\<rparr>;
          (ok, fs1) = vfs_alloc fs in
      if \<not> ok then None
      else let (ok2, fs2) = vfs_alloc (fs1\<lparr>v_cap := VFS_INITIAL_CAP\<rparr>) in
        if \<not> ok2 then None
        else Some (case opts of None \<Rightarrow> fs2
             | Some op \<Rightarrow> fs2\<lparr>v_quota := o_quota op, v_umask := o_umask op AND MODE_MASK\<rparr>))"

section \<open>Stat and list\<close>

definition root_stat :: vfs_stat where
  "root_stat =
     \<lparr>st_path = root_path, st_type = VFS_DIR, st_mode = VFS_MODE_DIR_DEFAULT, st_owner = 0,
      st_size = 0, st_ctime = 0, st_mtime = 0\<rparr>"

definition vfs_stat :: "vfs \<Rightarrow> vfs_cred \<Rightarrow> string \<Rightarrow> vfs_rc + vfs_stat" where
  "vfs_stat fs cred path =
     (case vfs_normalize VFS_PATH_MAX path of
        Inl rc \<Rightarrow> Inl rc
      | Inr norm \<Rightarrow>
          if norm = root_path then Inr root_stat
          else case find_node fs norm of
            None \<Rightarrow> Inl VFS_ENOTFOUND
          | Some i \<Rightarrow>
              if \<not> check_perm (v_nodes fs ! i) cred PERM_R then Inl VFS_EPERM
              else Inr (fill_stat (v_nodes fs ! i)))"

text \<open>The filter of the listing loop: a direct child of \<open>norm\<close>.\<close>

definition is_child :: "string \<Rightarrow> string \<Rightarrow> bool" where
  "is_child norm p =
     (if norm = root_path then
        (if p = [] \<or> hd p \<noteq> slash \<or> length p < 2 then False
         else if slash \<in> set (tl p) then False else True)
      else if take (length norm) p \<noteq> norm then False
      else if length p \<le> length norm \<or> p ! length norm \<noteq> slash then False
      else if slash \<in> set (drop (length norm + 1) p) then False
      else True)"

fun list_loop ::
    "(vfs_stat \<Rightarrow> 'c \<Rightarrow> int \<times> 'c) \<Rightarrow> string \<Rightarrow> vfs_node list \<Rightarrow> 'c \<Rightarrow> int \<times> 'c" where
  "list_loop fn norm [] ctx = (rc_code VFS_OK, ctx)"
| "list_loop fn norm (n # ns) ctx =
     (if \<not> is_child norm (n_path n) then list_loop fn norm ns ctx
      else let (rc, ctx1) = fn (fill_stat n) ctx in
        if rc \<noteq> 0 then (rc, ctx1) else list_loop fn norm ns ctx1)"

definition vfs_list ::
    "vfs \<Rightarrow> vfs_cred \<Rightarrow> string \<Rightarrow> (vfs_stat \<Rightarrow> 'c \<Rightarrow> int \<times> 'c) \<Rightarrow> 'c \<Rightarrow> int \<times> 'c" where
  "vfs_list fs cred dirpath fn ctx =
     (case vfs_normalize VFS_PATH_MAX dirpath of
        Inl rc \<Rightarrow> (rc_code rc, ctx)
      | Inr norm \<Rightarrow>
          let bad = (if norm = root_path then VFS_OK
                     else case find_node fs norm of
                       None \<Rightarrow> VFS_ENOTFOUND
                     | Some i \<Rightarrow>
                         if n_type (v_nodes fs ! i) \<noteq> VFS_DIR then VFS_ENOTDIR
                         else if \<not> check_perm (v_nodes fs ! i) cred PERM_R then VFS_EPERM
                         else VFS_OK)
          in if bad \<noteq> VFS_OK then (rc_code bad, ctx)
             else list_loop fn norm (v_nodes fs) ctx)"

section \<open>Read\<close>

definition vfs_read :: "vfs \<Rightarrow> vfs_cred \<Rightarrow> string \<Rightarrow> vfs_rc + (byte list \<times> u64)" where
  "vfs_read fs cred path =
     (case vfs_normalize VFS_PATH_MAX path of
        Inl rc \<Rightarrow> Inl rc
      | Inr norm \<Rightarrow>
          (case find_node fs norm of
             None \<Rightarrow> Inl VFS_ENOTFOUND
           | Some i \<Rightarrow>
               let n = v_nodes fs ! i in
               if n_type n = VFS_DIR then Inl VFS_EISDIR
               else if \<not> check_perm n cred PERM_R then Inl VFS_EPERM
               else Inr (n_data n, n_size n)))"

section \<open>Parents\<close>

lemma path_parent_shorter:
  assumes "path_parent bufsz p = Inr q" "q \<noteq> root_path"
  shows "length q < length p"
proof -
  let ?d = "dropWhile ((\<noteq>) slash) (rev p)"
  have q: "q = rev (tl ?d)" "q \<noteq> []"
    using assms by (auto simp: path_parent_def Let_def split: if_splits)
  then have "tl ?d \<noteq> []" by simp
  then have "length (tl ?d) < length ?d" by (cases ?d) auto
  also have "\<dots> \<le> length p" using length_dropWhile_le [of "(\<noteq>) slash" "rev p"] by simp
  finally show ?thesis using q by simp
qed

function ensure_parents :: "vfs \<Rightarrow> vfs_cred \<Rightarrow> int \<Rightarrow> string \<Rightarrow> vfs_rc \<times> vfs" where
  "ensure_parents fs cred now path =
     (case path_parent VFS_PATH_MAX path of
        Inl rc \<Rightarrow> (VFS_OK, fs)
      | Inr parent \<Rightarrow>
          if parent = root_path then (VFS_OK, fs)
          else (case find_node fs parent of
             Some i \<Rightarrow>
               if n_type (v_nodes fs ! i) \<noteq> VFS_DIR then (VFS_ENOTDIR, fs) else (VFS_OK, fs)
           | None \<Rightarrow>
               let (rc, fs1) = ensure_parents fs cred now parent in
               if rc \<noteq> VFS_OK then (rc, fs1)
               else let mode = VFS_MODE_DIR_DEFAULT AND NOT (v_umask fs1);
                        (n, fs2) = add_node fs1 parent VFS_DIR mode (uid cred) now
                    in if n = None then (VFS_ENOMEM, fs2) else (VFS_OK, fs2)))"
  by pat_completeness auto
termination
  by (relation "measure (\<lambda>(fs, cred, now, path). length path)")
    (auto dest: path_parent_shorter)

declare ensure_parents.simps [simp del]

text \<open>The check made instead when \<open>create_parents\<close> is not set.\<close>

definition require_parent :: "vfs \<Rightarrow> string \<Rightarrow> vfs_rc" where
  "require_parent fs norm =
     (case path_parent VFS_PATH_MAX norm of
        Inl rc \<Rightarrow> VFS_OK
      | Inr parent \<Rightarrow>
          if parent = root_path then VFS_OK
          else (case find_node fs parent of
             None \<Rightarrow> VFS_ENOTFOUND
           | Some i \<Rightarrow> if n_type (v_nodes fs ! i) \<noteq> VFS_DIR then VFS_ENOTDIR else VFS_OK))"

section \<open>Write\<close>

text \<open>The end of \<open>vfs_write\<close>: allocate the copy, then overwrite or create the node.\<close>

definition write_commit ::
    "vfs \<Rightarrow> vfs_cred \<Rightarrow> int \<Rightarrow> string \<Rightarrow> byte list \<Rightarrow> nat option \<Rightarrow> u64 \<Rightarrow> vfs_rc \<times> vfs" where
  "write_commit fs cred now norm data existing old_size =
     (let len = of_nat (length data) :: u64;
          (ok, fs2) = (if len > 0 then vfs_alloc fs else (True, fs))
      in if \<not> ok then (VFS_ENOMEM, fs2)
      else (case existing of
        Some i \<Rightarrow>
          (VFS_OK, fs2\<lparr>v_nodes := (v_nodes fs2)[i := (v_nodes fs2 ! i)
                         \<lparr>n_data := data, n_size := len, n_mtime := now\<rparr>],
                       v_usage := v_usage fs2 - old_size + len\<rparr>)
      | None \<Rightarrow>
          let mode = VFS_MODE_FILE_DEFAULT AND NOT (v_umask fs2);
              (n, fs3) = add_node fs2 norm VFS_FILE mode (uid cred) now
          in (case n of
                None \<Rightarrow> (VFS_ENOMEM, fs3)
              | Some i \<Rightarrow>
                  (VFS_OK, fs3\<lparr>v_nodes := (v_nodes fs3)[i := (v_nodes fs3 ! i)
                                 \<lparr>n_data := data, n_size := len\<rparr>],
                               v_usage := v_usage fs3 + len\<rparr>))))"

definition vfs_write ::
    "vfs \<Rightarrow> vfs_cred \<Rightarrow> int \<Rightarrow> string \<Rightarrow> byte list \<Rightarrow> bool \<Rightarrow> vfs_rc \<times> vfs" where
  "vfs_write fs cred now path data create_parents =
     (case vfs_normalize VFS_PATH_MAX path of
        Inl rc \<Rightarrow> (rc, fs)
      | Inr norm \<Rightarrow>
        if norm = root_path then (VFS_EISDIR, fs)
        else if validate_path_components norm \<noteq> VFS_OK then (validate_path_components norm, fs)
        else
          let len = of_nat (length data) :: u64;
              existing = find_node fs norm;
              bad = (case existing of
                 None \<Rightarrow> VFS_OK
               | Some i \<Rightarrow>
                   if n_type (v_nodes fs ! i) = VFS_DIR then VFS_EISDIR
                   else if \<not> check_perm (v_nodes fs ! i) cred PERM_W then VFS_EPERM
                   else VFS_OK);
              old_size = (case existing of None \<Rightarrow> 0 | Some i \<Rightarrow> n_size (v_nodes fs ! i))
          in if bad \<noteq> VFS_OK then (bad, fs)
          else if v_quota fs > 0 \<and> (v_usage fs - old_size) + len > v_quota fs then (VFS_EQUOTA, fs)
          else
            let (rc, fs1) = (if create_parents then ensure_parents fs cred now norm
                             else (require_parent fs norm, fs))
            in if rc \<noteq> VFS_OK then (rc, fs1)
            else write_commit fs1 cred now norm data existing old_size)"

section \<open>Mkdir\<close>

definition vfs_mkdir :: "vfs \<Rightarrow> vfs_cred \<Rightarrow> int \<Rightarrow> string \<Rightarrow> bool \<Rightarrow> vfs_rc \<times> vfs" where
  "vfs_mkdir fs cred now path create_parents =
     (case vfs_normalize VFS_PATH_MAX path of
        Inl rc \<Rightarrow> (rc, fs)
      | Inr norm \<Rightarrow>
        if norm = root_path then (VFS_OK, fs)
        else if validate_path_components norm \<noteq> VFS_OK then (validate_path_components norm, fs)
        else (case find_node fs norm of
          Some i \<Rightarrow>
            if n_type (v_nodes fs ! i) = VFS_DIR \<and> create_parents then (VFS_OK, fs)
            else (VFS_EEXIST, fs)
        | None \<Rightarrow>
            let (rc, fs1) = (if create_parents then ensure_parents fs cred now norm
                             else (require_parent fs norm, fs))
            in if rc \<noteq> VFS_OK then (rc, fs1)
            else let mode = VFS_MODE_DIR_DEFAULT AND NOT (v_umask fs1);
                     (n, fs2) = add_node fs1 norm VFS_DIR mode (uid cred) now
                 in if n = None then (VFS_ENOMEM, fs2) else (VFS_OK, fs2)))"

section \<open>Delete\<close>

definition count_children :: "vfs \<Rightarrow> string \<Rightarrow> nat" where
  "count_children fs dirpath =
     length (filter (\<lambda>n. if dirpath = root_path
         then n_path n \<noteq> [] \<and> hd (n_path n) = slash \<and> length (n_path n) > 1 \<and> slash \<notin> set (tl (n_path n))
         else under dirpath (n_path n)) (v_nodes fs))"

definition vfs_delete :: "vfs \<Rightarrow> vfs_cred \<Rightarrow> string \<Rightarrow> vfs_rc \<times> vfs" where
  "vfs_delete fs cred path =
     (case vfs_normalize VFS_PATH_MAX path of
        Inl rc \<Rightarrow> (rc, fs)
      | Inr norm \<Rightarrow>
        if norm = root_path then (VFS_EPERM, fs)
        else (case find_node fs norm of
          None \<Rightarrow> (VFS_ENOTFOUND, fs)
        | Some i \<Rightarrow>
            if \<not> check_perm (v_nodes fs ! i) cred PERM_W then (VFS_EPERM, fs)
            else if n_type (v_nodes fs ! i) = VFS_DIR \<and> count_children fs norm > 0
              then (VFS_ENOTEMPTY, fs)
            else (VFS_OK, remove_node fs i)))"

text \<open>The backward loop: \<open>k\<close> is the loop index plus one.\<close>

fun delete_loop :: "string \<Rightarrow> nat \<Rightarrow> vfs \<Rightarrow> vfs" where
  "delete_loop norm 0 fs = fs"
| "delete_loop norm (Suc i) fs =
     (if under norm (n_path (v_nodes fs ! i)) then delete_loop norm i (remove_node fs i)
      else delete_loop norm i fs)"

definition vfs_delete_recursive :: "vfs \<Rightarrow> vfs_cred \<Rightarrow> string \<Rightarrow> vfs_rc \<times> vfs" where
  "vfs_delete_recursive fs cred path =
     (case vfs_normalize VFS_PATH_MAX path of
        Inl rc \<Rightarrow> (rc, fs)
      | Inr norm \<Rightarrow>
        if norm = root_path then (VFS_EPERM, fs)
        else (case find_node fs norm of
          None \<Rightarrow> (VFS_ENOTFOUND, fs)
        | Some i \<Rightarrow>
            if \<not> check_perm (v_nodes fs ! i) cred PERM_W then (VFS_EPERM, fs)
            else if n_type (v_nodes fs ! i) \<noteq> VFS_DIR then (VFS_OK, remove_node fs i)
            else let fs1 = delete_loop norm (length (v_nodes fs)) fs in
              (case find_node fs1 norm of
                 None \<Rightarrow> (VFS_OK, fs1)
               | Some j \<Rightarrow> (VFS_OK, remove_node fs1 j))))"

section \<open>Rename\<close>

text \<open>
  The loop over the array that moves the descendants: it stops at the first failed allocation,
  leaving the nodes it has not reached as they were.
\<close>

fun rename_loop ::
    "string \<Rightarrow> string \<Rightarrow> int \<Rightarrow> vfs_node list \<Rightarrow> bool list \<Rightarrow> bool \<times> vfs_node list \<times> bool list" where
  "rename_loop onorm nnorm now [] mem = (True, [], mem)"
| "rename_loop onorm nnorm now (c # cs) mem =
     (if \<not> under onorm (n_path c) then
        (let (ok, cs', mem') = rename_loop onorm nnorm now cs mem in (ok, c # cs', mem'))
      else
        (let (ok, mem1) = (case mem of [] \<Rightarrow> (True, []) | b # bs \<Rightarrow> (b, bs)) in
         if \<not> ok then (False, c # cs, mem1)
         else let newp = nnorm @ drop (length onorm) (n_path c);
                  (ok', cs', mem') = rename_loop onorm nnorm now cs mem1
              in (ok', c\<lparr>n_path := newp, n_mtime := now\<rparr> # cs', mem')))"

text \<open>The part of \<open>vfs_rename\<close> after the destination has been cleared; \<open>s\<close> is the source node.\<close>

definition rename_move :: "vfs \<Rightarrow> int \<Rightarrow> string \<Rightarrow> string \<Rightarrow> nat \<Rightarrow> vfs_rc \<times> vfs" where
  "rename_move fs now onorm nnorm s =
     (if require_parent fs nnorm \<noteq> VFS_OK then (require_parent fs nnorm, fs)
      else
        let (ok, ns, mem) = (if n_type (v_nodes fs ! s) = VFS_DIR
              then rename_loop onorm nnorm now (v_nodes fs) (v_mem fs)
              else (True, v_nodes fs, v_mem fs));
            fs1 = fs\<lparr>v_nodes := ns, v_mem := mem\<rparr>
        in if \<not> ok then (VFS_ENOMEM, fs1)
        else let (ok2, fs2) = vfs_alloc fs1 in
          if \<not> ok2 then (VFS_ENOMEM, fs2)
          else (VFS_OK, fs2\<lparr>v_nodes := (v_nodes fs2)[s := (v_nodes fs2 ! s)
                               \<lparr>n_path := nnorm, n_mtime := now\<rparr>]\<rparr>))"

definition vfs_rename :: "vfs \<Rightarrow> vfs_cred \<Rightarrow> int \<Rightarrow> string \<Rightarrow> string \<Rightarrow> vfs_rc \<times> vfs" where
  "vfs_rename fs cred now old_path new_path =
     (case vfs_normalize VFS_PATH_MAX old_path of
        Inl rc \<Rightarrow> (rc, fs)
      | Inr onorm \<Rightarrow>
     (case vfs_normalize VFS_PATH_MAX new_path of
        Inl rc \<Rightarrow> (rc, fs)
      | Inr nnorm \<Rightarrow>
        if onorm = root_path \<or> nnorm = root_path then (VFS_EPERM, fs)
        else if validate_path_components nnorm \<noteq> VFS_OK then (validate_path_components nnorm, fs)
        else if onorm = nnorm then (VFS_OK, fs)
        else if under onorm nnorm then (VFS_EBADPATH, fs)
        else (case find_node fs onorm of
          None \<Rightarrow> (VFS_ENOTFOUND, fs)
        | Some s \<Rightarrow>
            if \<not> check_perm (v_nodes fs ! s) cred PERM_W then (VFS_EPERM, fs)
            else (case find_node fs nnorm of
              None \<Rightarrow> rename_move fs now onorm nnorm s
            | Some d \<Rightarrow>
                if n_type (v_nodes fs ! d) = VFS_DIR \<and> count_children fs nnorm > 0
                then (VFS_ENOTEMPTY, fs)
                else let fs1 = remove_node fs d in
                  (case find_node fs1 onorm of
                     None \<Rightarrow> (VFS_ERR, fs1)
                   | Some s' \<Rightarrow> rename_move fs1 now onorm nnorm s')))))"

section \<open>Copy, chmod, quota\<close>

definition vfs_copy ::
    "vfs \<Rightarrow> vfs_cred \<Rightarrow> int \<Rightarrow> string \<Rightarrow> string \<Rightarrow> bool \<Rightarrow> vfs_rc \<times> vfs" where
  "vfs_copy fs cred now src_path dst_path create_parents =
     (case vfs_normalize VFS_PATH_MAX src_path of
        Inl rc \<Rightarrow> (rc, fs)
      | Inr snorm \<Rightarrow>
        (case find_node fs snorm of
          None \<Rightarrow> (VFS_ENOTFOUND, fs)
        | Some s \<Rightarrow>
            let src = v_nodes fs ! s in
            if n_type src = VFS_DIR then (VFS_EISDIR, fs)
            else if \<not> check_perm src cred PERM_R then (VFS_EPERM, fs)
            else let (ok, fs1) = (if n_size src > 0 then vfs_alloc fs else (True, fs)) in
              if \<not> ok then (VFS_ENOMEM, fs1)
              else vfs_write fs1 cred now dst_path (take (unat (n_size src)) (n_data src)) create_parents))"

definition vfs_chmod :: "vfs \<Rightarrow> vfs_cred \<Rightarrow> int \<Rightarrow> string \<Rightarrow> u32 \<Rightarrow> vfs_rc \<times> vfs" where
  "vfs_chmod fs cred now path mode =
     (if \<not> is_admin cred then (VFS_EPERM, fs)
      else case vfs_normalize VFS_PATH_MAX path of
        Inl rc \<Rightarrow> (rc, fs)
      | Inr norm \<Rightarrow>
        (case find_node fs norm of
          None \<Rightarrow> (VFS_ENOTFOUND, fs)
        | Some i \<Rightarrow>
            (VFS_OK, fs\<lparr>v_nodes := (v_nodes fs)[i := (v_nodes fs ! i)
                           \<lparr>n_mode := mode AND MODE_MASK, n_mtime := now\<rparr>]\<rparr>)))"

definition vfs_usage :: "vfs \<Rightarrow> u64" where
  "vfs_usage fs = v_usage fs"

definition vfs_quota :: "vfs \<Rightarrow> u64" where
  "vfs_quota fs = v_quota fs"

end
