(* ===== verification/VfsTable.thy ===== *)
theory VfsTable
  imports Vfs
begin

unbundle bit_operations_syntax

text \<open>
  The node array seen as a table from paths to nodes. The locale \<open>node_table\<close> states what the
  operations of \<open>vfs.c\<close> rely on: what a lookup returns after a node is appended, removed by
  swapping the last node into its slot, or updated in place, and how the accounted bytes change.
  Inside it the invariant of the filesystem tree is shown to survive these three changes. The
  interpretation at the end discharges the laws for the array of the C code.
\<close>

section \<open>The filesystem tree\<close>

definition parent_of :: "string \<Rightarrow> string" where
  "parent_of p = join_path (butlast (components p))"

definition path_ok :: "string \<Rightarrow> bool" where
  "path_ok p \<longleftrightarrow> (\<exists>cs. cs \<noteq> [] \<and> list_all comp_normal cs \<and> list_all comp_legal cs \<and> p = join_path cs)"

definition node_ok :: "vfs_node \<Rightarrow> bool" where
  "node_ok n \<longleftrightarrow> n_mode n AND NOT MODE_MASK = 0 \<and>
     length (n_data n) < 2 ^ 64 \<and> n_size n = of_nat (length (n_data n)) \<and>
     (n_type n = VFS_DIR \<longrightarrow> n_data n = [])"

definition dir_at :: "(string \<Rightarrow> vfs_node option) \<Rightarrow> string \<Rightarrow> bool" where
  "dir_at M p \<longleftrightarrow> p = root_path \<or> (\<exists>n. M p = Some n \<and> n_type n = VFS_DIR)"

definition tree_ok :: "(string \<Rightarrow> vfs_node option) \<Rightarrow> bool" where
  "tree_ok M \<longleftrightarrow> (\<forall>p n. M p = Some n \<longrightarrow> path_ok p \<and> node_ok n \<and> dir_at M (parent_of p))"

text \<open>The bytes a node counts towards the usage.\<close>

definition file_size :: "vfs_node \<Rightarrow> u64" where
  "file_size n = (if n_type n = VFS_FILE then n_size n else 0)"

definition opt_size :: "vfs_node option \<Rightarrow> u64" where
  "opt_size m = (case m of None \<Rightarrow> 0 | Some n \<Rightarrow> file_size n)"

lemma opt_size_simps [simp]: "opt_size None = 0" "opt_size (Some n) = file_size n"
  by (simp_all add: opt_size_def)

lemma parent_of_join:
  "list_all comp_normal (cs @ [c]) \<Longrightarrow> parent_of (join_path (cs @ [c])) = join_path cs"
  by (simp add: parent_of_def del: list_all_append)

lemma path_ok_join:
  "list_all comp_normal cs \<Longrightarrow> path_ok (join_path cs) \<longleftrightarrow> cs \<noteq> [] \<and> list_all comp_legal cs"
  by (metis path_ok_def join_path_inj)

lemma path_okE:
  assumes "path_ok p"
  obtains cs c where "list_all comp_normal (cs @ [c])" "list_all comp_legal (cs @ [c])"
    "p = join_path (cs @ [c])" "parent_of p = join_path cs"
proof -
  from assms obtain ds where ds: "ds \<noteq> []" "list_all comp_normal ds" "list_all comp_legal ds"
      "p = join_path ds" by (auto simp: path_ok_def)
  then obtain cs c where "ds = cs @ [c]" by (metis append_butlast_last_id)
  with ds that show thesis by (metis parent_of_join)
qed

lemma path_ok_not_root [simp]: "\<not> path_ok root_path"
  by (metis path_ok_def join_path_root_iff)

lemma tree_okD:
  "tree_ok M \<Longrightarrow> M p = Some n \<Longrightarrow> path_ok p \<and> node_ok n \<and> dir_at M (parent_of p)"
  by (simp add: tree_ok_def)

lemma dir_at_root [simp]: "dir_at M root_path"
  by (simp add: dir_at_def)

lemma tree_ok_root: "tree_ok M \<Longrightarrow> M root_path = None"
  by (cases "M root_path") (auto dest: tree_okD)

text \<open>Every ancestor of a node is a directory.\<close>

lemma tree_ok_ancestor:
  assumes "tree_ok M" "list_all comp_normal (cs @ ds)" "ds \<noteq> []"
    and "M (join_path (cs @ ds)) = Some n"
  shows "dir_at M (join_path cs)"
  using assms(2-4)
proof (induction ds arbitrary: n rule: rev_induct)
  case (snoc d ds)
  have p: "parent_of (join_path (cs @ ds @ [d])) = join_path (cs @ ds)"
    using snoc.prems(1) parent_of_join [of "cs @ ds" d] by simp
  have da: "dir_at M (join_path (cs @ ds))"
    using tree_okD [OF assms(1) snoc.prems(3)] p by simp
  show ?case
  proof (cases "ds = []")
    case False
    then have "join_path (cs @ ds) \<noteq> root_path" using snoc.prems(1) by simp
    with da obtain m where "M (join_path (cs @ ds)) = Some m" by (auto simp: dir_at_def)
    with snoc False show ?thesis by simp
  qed (use da in simp)
qed simp

lemma tree_ok_empty: "tree_ok (\<lambda>_. None)"
  by (simp add: tree_ok_def)

lemma tree_ok_insert:
  assumes "tree_ok M" "M p = None" "path_ok p" "node_ok n" "dir_at M (parent_of p)"
  shows "tree_ok (M(p \<mapsto> n))"
proof -
  have "dir_at (M(p \<mapsto> n)) q" if "dir_at M q" for q
    using that assms(2) by (auto simp: dir_at_def)
  then show ?thesis using assms by (auto simp: tree_ok_def)
qed

lemma tree_ok_remove:
  assumes "tree_ok M" "\<And>q m. M q = Some m \<Longrightarrow> parent_of q \<noteq> p"
  shows "tree_ok (M(p := None))"
  using assms by (fastforce simp: tree_ok_def dir_at_def)

lemma tree_ok_update:
  assumes "tree_ok M" "M p = Some m" "n_type n = n_type m" "node_ok n"
  shows "tree_ok (M(p \<mapsto> n))"
  using assms by (fastforce simp: tree_ok_def dir_at_def)

section \<open>The table interface\<close>

locale node_table =
  fixes lookup :: "'t \<Rightarrow> string \<Rightarrow> vfs_node option"
    and add :: "'t \<Rightarrow> vfs_node \<Rightarrow> 't"
    and del :: "'t \<Rightarrow> string \<Rightarrow> 't"
    and upd :: "'t \<Rightarrow> string \<Rightarrow> (vfs_node \<Rightarrow> vfs_node) \<Rightarrow> 't"
    and total :: "'t \<Rightarrow> u64"
    and invar :: "'t \<Rightarrow> bool"
  assumes lookup_path: "invar t \<Longrightarrow> lookup t p = Some n \<Longrightarrow> n_path n = p"
    and add_invar: "invar t \<Longrightarrow> lookup t (n_path n) = None \<Longrightarrow> invar (add t n)"
    and add_lookup: "invar t \<Longrightarrow> lookup t (n_path n) = None \<Longrightarrow>
      lookup (add t n) = (lookup t)(n_path n \<mapsto> n)"
    and add_total: "total (add t n) = total t + file_size n"
    and del_invar: "invar t \<Longrightarrow> invar (del t p)"
    and del_lookup: "invar t \<Longrightarrow> lookup (del t p) = (lookup t)(p := None)"
    and del_total: "invar t \<Longrightarrow> total (del t p) = total t - opt_size (lookup t p)"
    and upd_invar: "invar t \<Longrightarrow> (\<And>n. n_path (f n) = n_path n) \<Longrightarrow> invar (upd t p f)"
    and upd_lookup: "invar t \<Longrightarrow> (\<And>n. n_path (f n) = n_path n) \<Longrightarrow>
      lookup (upd t p f) = (lookup t)(p := map_option f (lookup t p))"
    and upd_total: "invar t \<Longrightarrow> (\<And>n. n_path (f n) = n_path n) \<Longrightarrow>
      total (upd t p f) = total t - opt_size (lookup t p) + opt_size (map_option f (lookup t p))"
begin

text \<open>A table with its accounted usage is consistent.\<close>

definition consistent :: "'t \<Rightarrow> u64 \<Rightarrow> bool" where
  "consistent t u \<longleftrightarrow> invar t \<and> tree_ok (lookup t) \<and> u = total t"

lemma consistent_add:
  assumes "consistent t u" "lookup t (n_path n) = None" "path_ok (n_path n)" "node_ok n"
    "dir_at (lookup t) (parent_of (n_path n))"
  shows "consistent (add t n) (u + file_size n)"
  using assms tree_ok_insert [of "lookup t" "n_path n" n]
  by (simp add: consistent_def add_invar add_lookup add_total)

lemma consistent_del:
  assumes "consistent t u" "\<And>q m. lookup t q = Some m \<Longrightarrow> parent_of q \<noteq> p"
  shows "consistent (del t p) (u - opt_size (lookup t p))"
  using assms tree_ok_remove [of "lookup t" p]
  by (simp add: consistent_def del_invar del_lookup del_total)

lemma consistent_upd:
  assumes "consistent t u" "lookup t p = Some m" "\<And>n. n_path (f n) = n_path n"
    "n_type (f m) = n_type m" "node_ok (f m)"
  shows "consistent (upd t p f) (u - file_size m + file_size (f m))"
  using assms tree_ok_update [of "lookup t" p m "f m"]
  by (simp add: consistent_def upd_invar upd_lookup upd_total)

lemma consistent_parent:
  assumes "consistent t u" "lookup t p = Some n"
  shows "n_path n = p" "path_ok p" "node_ok n" "dir_at (lookup t) (parent_of p)"
  using assms tree_okD [of "lookup t" p n] lookup_path by (auto simp: consistent_def)

end

section \<open>The array provides the table\<close>

definition nodes_lookup :: "vfs_node list \<Rightarrow> string \<Rightarrow> vfs_node option" where
  "nodes_lookup ns p = map_option ((!) ns) (find_idx (\<lambda>n. n_path n = p) ns)"

definition nodes_add :: "vfs_node list \<Rightarrow> vfs_node \<Rightarrow> vfs_node list" where
  "nodes_add ns n = ns @ [n]"

definition nodes_del :: "vfs_node list \<Rightarrow> string \<Rightarrow> vfs_node list" where
  "nodes_del ns p = (case find_idx (\<lambda>n. n_path n = p) ns of None \<Rightarrow> ns | Some i \<Rightarrow> swap_remove i ns)"

definition nodes_upd :: "vfs_node list \<Rightarrow> string \<Rightarrow> (vfs_node \<Rightarrow> vfs_node) \<Rightarrow> vfs_node list" where
  "nodes_upd ns p f =
     (case find_idx (\<lambda>n. n_path n = p) ns of None \<Rightarrow> ns | Some i \<Rightarrow> ns[i := f (ns ! i)])"

definition nodes_total :: "vfs_node list \<Rightarrow> u64" where
  "nodes_total ns = sum_list (map file_size ns)"

definition nodes_distinct :: "vfs_node list \<Rightarrow> bool" where
  "nodes_distinct ns \<longleftrightarrow> distinct (map n_path ns)"

lemma nodes_lookup_iff:
  assumes "nodes_distinct ns"
  shows "nodes_lookup ns p = Some n \<longleftrightarrow> n \<in> set ns \<and> n_path n = p"
proof -
  have "find_idx (\<lambda>n. n_path n = p) ns = Some i \<longleftrightarrow> i < length ns \<and> n_path (ns ! i) = p" for i
    using assms find_idx_Some_iff_distinct [of n_path ns p i] by (simp add: nodes_distinct_def)
  then show ?thesis by (auto simp: nodes_lookup_def in_set_conv_nth)
qed

lemma nodes_lookup_None: "nodes_lookup ns p = None \<longleftrightarrow> p \<notin> n_path ` set ns"
  by (auto simp: nodes_lookup_def find_idx_None_iff)

lemma nodes_lookup_eqI:
  assumes "nodes_distinct ns" "\<And>p n. M p = Some n \<longleftrightarrow> n \<in> set ns \<and> n_path n = p"
  shows "nodes_lookup ns = M"
proof
  fix p
  show "nodes_lookup ns p = M p"
    using nodes_lookup_iff [OF assms(1), of p] assms(2) [of p]
    by (cases "nodes_lookup ns p"; cases "M p") auto
qed

lemma nodes_total_mset: "mset ms = mset ns \<Longrightarrow> nodes_total ms = nodes_total ns"
  by (metis nodes_total_def mset_map sum_mset_sum_list)

lemma nodes_total_remove:
  assumes "mset ms = mset ns - {#n#}" "n \<in> set ns"
  shows "nodes_total ms = nodes_total ns - file_size n"
proof -
  have "mset (n # ms) = mset ns" using assms by simp
  then have "nodes_total (n # ms) = nodes_total ns" by (rule nodes_total_mset)
  then show ?thesis by (simp add: nodes_total_def algebra_simps)
qed

lemma nodes_total_upd:
  assumes "i < length ns"
  shows "nodes_total (ns[i := n]) = nodes_total ns - file_size (ns ! i) + file_size n"
proof -
  have "mset (ns[i := n]) = add_mset n (mset ns - {#ns ! i#})" using assms by (rule mset_update)
  then have "mset (ns[i := n]) = mset (n # swap_remove i ns)" using assms by (simp add: mset_swap_remove)
  then have "nodes_total (ns[i := n]) = nodes_total (n # swap_remove i ns)" by (rule nodes_total_mset)
  moreover have "nodes_total (swap_remove i ns) = nodes_total ns - file_size (ns ! i)"
    using assms by (intro nodes_total_remove) (simp_all add: mset_swap_remove)
  ultimately show ?thesis by (simp add: nodes_total_def)
qed

lemma nodes_lookup_del:
  assumes "nodes_distinct ns"
  shows "nodes_lookup (nodes_del ns p) = (nodes_lookup ns)(p := None)"
    and "nodes_distinct (nodes_del ns p)"
proof -
  have "nodes_distinct (nodes_del ns p) \<and>
      set (nodes_del ns p) = {n \<in> set ns. n_path n \<noteq> p}"
  proof (cases "find_idx (\<lambda>n. n_path n = p) ns")
    case None
    then have "\<forall>n\<in>set ns. n_path n \<noteq> p" by (simp add: find_idx_None_iff)
    with None assms show ?thesis by (auto simp: nodes_del_def)
  next
    case (Some i)
    then have i: "i < length ns" "n_path (ns ! i) = p" by (auto dest: find_idx_SomeD)
    have d: "distinct ns" using assms by (simp add: nodes_distinct_def distinct_map)
    have "set (swap_remove i ns) = set ns - {ns ! i}" using set_swap_remove_distinct [OF i(1) d] .
    moreover have "n \<in> set ns \<Longrightarrow> n_path n = p \<Longrightarrow> n = ns ! i" for n
      using assms i by (auto simp: nodes_distinct_def distinct_map inj_on_def)
    ultimately show ?thesis
      using Some i assms distinct_map_swap_remove [of i ns n_path]
      by (auto simp: nodes_del_def nodes_distinct_def)
  qed
  then show "nodes_distinct (nodes_del ns p)"
    and "nodes_lookup (nodes_del ns p) = (nodes_lookup ns)(p := None)"
    using nodes_lookup_iff [OF assms] by (auto intro!: nodes_lookup_eqI split: if_splits)
qed

lemma nodes_upd_path:
  assumes "\<And>n. n_path (f n) = n_path n"
  shows "map n_path (nodes_upd ns p f) = map n_path ns"
  using assms
  by (auto simp: nodes_upd_def map_update list_update_same_conv nth_map
      dest!: find_idx_SomeD split: option.splits)

lemma nodes_lookup_upd:
  assumes "nodes_distinct ns" "\<And>n. n_path (f n) = n_path n"
  shows "nodes_lookup (nodes_upd ns p f) = (nodes_lookup ns)(p := map_option f (nodes_lookup ns p))"
proof (cases "find_idx (\<lambda>n. n_path n = p) ns")
  case None
  then show ?thesis by (auto simp: nodes_upd_def nodes_lookup_def fun_eq_iff)
next
  case (Some i)
  then have i: "i < length ns" "n_path (ns ! i) = p" by (auto dest: find_idx_SomeD)
  have d: "nodes_distinct (nodes_upd ns p f)"
    using assms by (simp add: nodes_distinct_def nodes_upd_path)
  have d': "distinct ns" "inj_on n_path (set ns)"
    using assms(1) by (simp_all add: nodes_distinct_def distinct_map)
  have "n \<in> set (ns[i := f (ns ! i)]) \<longleftrightarrow> n = f (ns ! i) \<or> (n \<in> set ns \<and> n \<noteq> ns ! i)" for n
    using i d'(1) by (simp add: set_update_distinct)
  moreover have "n \<in> set ns \<Longrightarrow> n_path n = p \<Longrightarrow> n = ns ! i" for n
    using d'(2) i by (auto simp: inj_on_def)
  ultimately show ?thesis
    using Some i assms d nodes_lookup_iff [OF assms(1)]
    by (intro nodes_lookup_eqI) (auto simp: nodes_upd_def nodes_lookup_def)
qed

interpretation nt: node_table nodes_lookup nodes_add nodes_del nodes_upd nodes_total nodes_distinct
proof (unfold_locales, goal_cases)
  case (1 t p n)
  then show ?case by (simp add: nodes_lookup_iff)
next
  case (2 t n)
  then show ?case by (auto simp: nodes_distinct_def nodes_add_def nodes_lookup_None)
next
  case (3 t n)
  have "nodes_distinct (nodes_add t n)"
    using 3 by (auto simp: nodes_distinct_def nodes_add_def nodes_lookup_None)
  moreover have "n_path m \<noteq> n_path n" if "m \<in> set t" for m
    using 3 that by (metis image_eqI nodes_lookup_None)
  ultimately show ?case
    using 3 by (intro nodes_lookup_eqI) (auto simp: nodes_lookup_iff nodes_add_def)
next
  case (4 t n)
  show ?case by (simp add: nodes_total_def nodes_add_def)
next
  case (5 t p)
  then show ?case by (rule nodes_lookup_del)
next
  case (6 t p)
  then show ?case by (rule nodes_lookup_del)
next
  case (7 t p)
  show ?case
  proof (cases "find_idx (\<lambda>n. n_path n = p) t")
    case (Some i)
    then have i: "i < length t" by (auto dest: find_idx_SomeD)
    then have "nodes_total (swap_remove i t) = nodes_total t - file_size (t ! i)"
      by (intro nodes_total_remove) (simp_all add: mset_swap_remove)
    with Some show ?thesis by (simp add: nodes_del_def nodes_lookup_def)
  qed (simp add: nodes_del_def nodes_lookup_def)
next
  case (8 t f p)
  then show ?case by (simp add: nodes_distinct_def nodes_upd_path)
next
  case (9 t f p)
  then show ?case by (rule nodes_lookup_upd)
next
  case (10 t f p)
  show ?case
  proof (cases "find_idx (\<lambda>n. n_path n = p) t")
    case (Some i)
    then have "i < length t" by (auto dest: find_idx_SomeD)
    with Some show ?thesis by (simp add: nodes_upd_def nodes_lookup_def nodes_total_upd)
  qed (simp add: nodes_upd_def nodes_lookup_def)
qed

end
