(* ===== verification/VfsInv.thy ===== *)
theory VfsInv
  imports VfsTable
begin

unbundle bit_operations_syntax

text \<open>
  The invariant of the filesystem state and its preservation by every operation of \<open>vfs.c\<close>: no
  two nodes share a path, every stored path is canonical and made of legal components, the parent
  of every node is the root or a directory, permission bits stay inside \<open>0777\<close>, the recorded
  size is the length of the contents, and \<open>usage\<close> is the sum of the sizes of all files.
  The proofs go through the table interface of \<open>VfsTable\<close>.
\<close>

abbreviation fs_lookup :: "vfs \<Rightarrow> string \<Rightarrow> vfs_node option" where
  "fs_lookup fs \<equiv> nodes_lookup (v_nodes fs)"

definition vfs_inv :: "vfs \<Rightarrow> bool" where
  "vfs_inv fs \<longleftrightarrow> nodes_distinct (v_nodes fs) \<and> tree_ok (fs_lookup fs) \<and>
     v_usage fs = nodes_total (v_nodes fs)"

text \<open>The fields no operation changes.\<close>

definition same_limits :: "vfs \<Rightarrow> vfs \<Rightarrow> bool" where
  "same_limits fs fs' \<longleftrightarrow> v_quota fs' = v_quota fs \<and> v_umask fs' = v_umask fs"

lemma same_limits_refl [simp]: "same_limits fs fs"
  by (simp add: same_limits_def)

lemma same_limits_trans: "same_limits a b \<Longrightarrow> same_limits b c \<Longrightarrow> same_limits a c"
  by (simp add: same_limits_def)

lemma vfs_inv_iff: "vfs_inv fs \<longleftrightarrow> nt.consistent (v_nodes fs) (v_usage fs)"
  by (simp add: vfs_inv_def nt.consistent_def)

lemma vfs_invD:
  assumes "vfs_inv fs"
  shows "nodes_distinct (v_nodes fs)" "tree_ok (fs_lookup fs)"
  using assms by (simp_all add: vfs_inv_def)

lemma vfs_inv_nodeD:
  assumes "vfs_inv fs" "fs_lookup fs p = Some n"
  shows "n_path n = p" "path_ok p" "node_ok n" "dir_at (fs_lookup fs) (parent_of p)"
  using assms nt.consistent_parent by (auto simp: vfs_inv_iff)

lemma vfs_inv_mem [simp]: "vfs_inv (fs\<lparr>v_mem := m\<rparr>) = vfs_inv fs"
  by (simp add: vfs_inv_def)

lemma vfs_inv_cap [simp]: "vfs_inv (fs\<lparr>v_cap := c\<rparr>) = vfs_inv fs"
  by (simp add: vfs_inv_def)

section \<open>Array operations as table operations\<close>

lemma find_node_None: "find_node fs p = None \<longleftrightarrow> fs_lookup fs p = None"
  by (simp add: find_node_def nodes_lookup_def)

lemma find_node_SomeD:
  "find_node fs p = Some i \<Longrightarrow>
   i < length (v_nodes fs) \<and> n_path (v_nodes fs ! i) = p \<and> fs_lookup fs p = Some (v_nodes fs ! i)"
  by (auto simp: find_node_def nodes_lookup_def dest: find_idx_SomeD)

lemma remove_node_eq:
  assumes "find_node fs p = Some i"
  shows "remove_node fs i = fs\<lparr>v_nodes := nodes_del (v_nodes fs) p,
           v_usage := v_usage fs - opt_size (fs_lookup fs p)\<rparr>"
  using assms find_node_SomeD [OF assms]
  by (auto simp: remove_node_def Let_def nodes_del_def find_node_def file_size_def split: if_splits)

lemma node_update_eq:
  assumes "find_node fs p = Some i"
  shows "(v_nodes fs)[i := f (v_nodes fs ! i)] = nodes_upd (v_nodes fs) p f"
  using assms by (simp add: nodes_upd_def find_node_def)

lemma vfs_alloc_cases:
  assumes "vfs_alloc fs = (ok, fs')"
  shows "v_nodes fs' = v_nodes fs" "v_usage fs' = v_usage fs" "same_limits fs fs'"
    "vfs_inv fs' = vfs_inv fs" "v_cap fs' = v_cap fs"
  using assms by (auto simp: vfs_alloc_def same_limits_def split: list.splits)

lemma grow_nodes_frame:
  assumes "grow_nodes fs = (rc, fs')"
  shows "v_nodes fs' = v_nodes fs" "v_usage fs' = v_usage fs" "same_limits fs fs'"
  using assms vfs_alloc_cases [of fs]
  by (auto simp: grow_nodes_def Let_def same_limits_def split: prod.splits if_splits)

lemma add_node_cases:
  assumes "add_node fs p ty mode owner now = (r, fs')"
  shows "v_usage fs' = v_usage fs \<and> same_limits fs fs' \<and>
    (r = None \<and> v_nodes fs' = v_nodes fs \<or>
     r = Some (length (v_nodes fs)) \<and>
     v_nodes fs' = nodes_add (v_nodes fs) (new_node p ty mode owner now))"
proof -
  obtain rc fs1 where 1: "(if length (v_nodes fs) \<ge> v_cap fs then grow_nodes fs else (VFS_OK, fs)) = (rc, fs1)"
    by fastforce
  then have f1: "v_nodes fs1 = v_nodes fs" "v_usage fs1 = v_usage fs" "same_limits fs fs1"
    using grow_nodes_frame [of fs rc fs1] by (auto split: if_splits)
  obtain ok fs2 where 2: "vfs_alloc fs1 = (ok, fs2)" by fastforce
  note f2 = vfs_alloc_cases [OF 2]
  show ?thesis
    using assms f1 f2 same_limits_trans [of fs fs1 fs2]
    by (auto simp: add_node_def 1 2 nodes_add_def same_limits_def split: if_splits)
qed

lemma mode_mask_idem: "(m AND MODE_MASK) AND NOT MODE_MASK = 0"
  by (rule bit_eqI) (auto simp: bit_simps)

lemma new_node_simps [simp]:
  "n_path (new_node p ty m ow now) = p" "n_type (new_node p ty m ow now) = ty"
  "n_data (new_node p ty m ow now) = []" "n_size (new_node p ty m ow now) = 0"
  "file_size (new_node p ty m ow now) = 0" "node_ok (new_node p ty m ow now)"
  by (simp_all add: new_node_def file_size_def node_ok_def mode_mask_idem)

lemma add_node_inv:
  assumes "vfs_inv fs" "fs_lookup fs p = None" "path_ok p" "dir_at (fs_lookup fs) (parent_of p)"
    and "add_node fs p ty mode owner now = (r, fs')"
  shows "vfs_inv fs'"
    and "r \<noteq> None \<Longrightarrow> fs_lookup fs' = (fs_lookup fs)(p \<mapsto> new_node p ty mode owner now)"
  using add_node_cases [OF assms(5)] assms(1-4) nt.consistent_add [of "v_nodes fs" "v_usage fs"
      "new_node p ty mode owner now"] nt.add_lookup [of "v_nodes fs" "new_node p ty mode owner now"]
  by (auto simp: vfs_inv_iff nt.consistent_def)

lemma remove_node_inv:
  assumes "vfs_inv fs" "find_node fs p = Some i"
    and "\<And>q m. fs_lookup fs q = Some m \<Longrightarrow> parent_of q \<noteq> p"
  shows "vfs_inv (remove_node fs i)"
    and "fs_lookup (remove_node fs i) = (fs_lookup fs)(p := None)"
  using assms nt.consistent_del [of "v_nodes fs" "v_usage fs" p] nt.del_lookup
  by (auto simp: vfs_inv_iff remove_node_eq nt.consistent_def)

lemma remove_node_limits [simp]: "same_limits fs (remove_node fs i)"
  by (auto simp: remove_node_def same_limits_def Let_def)

section \<open>Descendants\<close>

lemma count_children_0:
  assumes "vfs_inv fs" "path_ok p" "count_children fs p = 0" "fs_lookup fs q = Some m"
  shows "parent_of q \<noteq> p"
proof
  assume par: "parent_of q = p"
  from vfs_inv_nodeD [OF assms(1,4)] obtain cs c
    where q: "list_all comp_normal (cs @ [c])" "q = join_path (cs @ [c])" "parent_of q = join_path cs"
    and m: "n_path m = q" by (auto elim: path_okE)
  have cs: "cs \<noteq> []" "p = join_path cs" using q par assms(2) by (auto simp: path_ok_def join_path_inj)
  have "under p q" using q cs under_join [of cs "cs @ [c]"] by auto
  moreover have "m \<in> set (v_nodes fs)"
    using assms(1,4) by (simp add: vfs_inv_def nodes_lookup_iff)
  ultimately have "m \<in> set (filter (\<lambda>n. under p (n_path n)) (v_nodes fs))" using m by simp
  moreover have "p \<noteq> root_path" using assms(2) by auto
  ultimately show False using assms(3) by (auto simp: count_children_def filter_empty_conv)
qed

text \<open>In a consistent tree a file has no descendants.\<close>

lemma file_no_children:
  assumes "vfs_inv fs" "fs_lookup fs p = Some n" "n_type n \<noteq> VFS_DIR" "fs_lookup fs q = Some m"
  shows "parent_of q \<noteq> p"
  using vfs_inv_nodeD [OF assms(1,4)] vfs_inv_nodeD(2) [OF assms(1,2)] assms(2,3)
  by (auto simp: dir_at_def)

section \<open>Creating parents\<close>

lemma normalized_parent:
  assumes "list_all comp_normal (cs @ [c])" "length (join_path (cs @ [c])) < VFS_PATH_MAX"
  shows "path_parent VFS_PATH_MAX (join_path (cs @ [c])) = Inr (join_path cs)"
    and "length (join_path cs) < VFS_PATH_MAX"
proof -
  have "length (join_path cs) \<le> length (join_path (cs @ [c]))" by (simp add: length_join_path)
  with assms show "path_parent VFS_PATH_MAX (join_path (cs @ [c])) = Inr (join_path cs)"
    and "length (join_path cs) < VFS_PATH_MAX" by (simp_all add: path_parent_join)
qed

lemma require_parent_join:
  assumes "list_all comp_normal (cs @ [c])" "length (join_path (cs @ [c])) < VFS_PATH_MAX"
  shows "require_parent fs (join_path (cs @ [c])) = VFS_OK \<longleftrightarrow> dir_at (fs_lookup fs) (join_path cs)"
proof (cases "join_path cs = root_path")
  case True
  then show ?thesis using normalized_parent [OF assms] by (simp add: require_parent_def)
next
  case False
  show ?thesis
  proof (cases "find_node fs (join_path cs)")
    case None
    with False normalized_parent [OF assms] find_node_None [of fs "join_path cs"] show ?thesis
      by (simp add: require_parent_def dir_at_def)
  next
    case (Some i)
    with False normalized_parent [OF assms] find_node_SomeD [OF Some] show ?thesis
      by (simp add: require_parent_def dir_at_def)
  qed
qed

text \<open>
  What a run of \<open>ensure_parents\<close> may add: directories, with the creator's identity and the
  default mode, at proper ancestors of the path that were missing.
\<close>

definition parents_added :: "vfs_cred \<Rightarrow> int \<Rightarrow> string list \<Rightarrow> vfs \<Rightarrow> vfs \<Rightarrow> bool" where
  "parents_added cred now cs fs fs' \<longleftrightarrow> (\<forall>q. fs_lookup fs' q = fs_lookup fs q \<or>
     (fs_lookup fs q = None \<and> (\<exists>ds es. ds \<noteq> [] \<and> es \<noteq> [] \<and> cs = ds @ es \<and> q = join_path ds) \<and>
      fs_lookup fs' q = Some (new_node q VFS_DIR
         (VFS_MODE_DIR_DEFAULT AND NOT (v_umask fs)) (uid cred) now)))"

lemma parents_added_refl [simp]: "parents_added cred now cs fs fs"
  by (simp add: parents_added_def)

lemma parents_added_lookup:
  assumes "parents_added cred now cs fs fs'" "fs_lookup fs q = Some n"
  shows "fs_lookup fs' q = Some n"
  using assms by (auto simp: parents_added_def dest: spec [of _ q])

lemma parents_added_self:
  assumes "parents_added cred now cs fs fs'" "list_all comp_normal cs"
  shows "fs_lookup fs' (join_path cs) = fs_lookup fs (join_path cs)"
proof -
  have "join_path ds \<noteq> join_path cs" if "cs = ds @ es" "es \<noteq> []" for ds es
    using that assms(2) join_path_inj [of ds cs] by auto
  with assms(1) show ?thesis unfolding parents_added_def by metis
qed

lemma ensure_parents_spec:
  assumes "vfs_inv fs" "list_all comp_normal cs" "list_all comp_legal cs" "cs \<noteq> []"
    and "length (join_path cs) < VFS_PATH_MAX"
    and "ensure_parents fs cred now (join_path cs) = (rc, fs')"
  shows "vfs_inv fs' \<and> same_limits fs fs' \<and> v_usage fs' = v_usage fs \<and>
    parents_added cred now cs fs fs' \<and>
    (rc = VFS_OK \<longrightarrow> dir_at (fs_lookup fs') (parent_of (join_path cs))) \<and>
    rc \<in> {VFS_OK, VFS_ENOTDIR, VFS_ENOMEM}"
  using assms(2-6)
proof (induction cs arbitrary: rc fs' rule: rev_induct)
  case Nil
  then show ?case by simp
next
  case (snoc c cs)
  note par = normalized_parent [OF snoc.prems(1,4)]
  note po = parent_of_join [OF snoc.prems(1)]
  note unf = ensure_parents.simps [of fs cred now "join_path (cs @ [c])"]
  show ?case
  proof (cases "cs = []")
    case True
    then have "join_path cs = root_path" by (simp add: join_path_def)
    with snoc.prems(5) par po assms(1) show ?thesis by (simp add: unf)
  next
    case False
    then have nr: "join_path cs \<noteq> root_path" using snoc.prems(1) by simp
    show ?thesis
    proof (cases "find_node fs (join_path cs)")
      case (Some i)
      with find_node_SomeD [OF Some] snoc.prems(5) par po assms(1) nr show ?thesis
        by (auto simp: unf dir_at_def split: if_splits)
    next
      case None
      obtain rc1 fs1 where e1: "ensure_parents fs cred now (join_path cs) = (rc1, fs1)" by fastforce
      have IH: "vfs_inv fs1" "same_limits fs fs1" "v_usage fs1 = v_usage fs"
        "parents_added cred now cs fs fs1" "rc1 \<in> {VFS_OK, VFS_ENOTDIR, VFS_ENOMEM}"
        "rc1 = VFS_OK \<Longrightarrow> dir_at (fs_lookup fs1) (parent_of (join_path cs))"
        using snoc.IH [OF _ _ False par(2) e1] snoc.prems(1,2) by auto
      have grow: "parents_added cred now (cs @ [c]) fs fs1"
        using IH(4) unfolding parents_added_def by (metis append.assoc append_is_Nil_conv)
      show ?thesis
      proof (cases "rc1 = VFS_OK")
        case False
        with snoc.prems(5) par nr None e1 IH grow show ?thesis by (auto simp: unf)
      next
        case True
        let ?m = "VFS_MODE_DIR_DEFAULT AND NOT (v_umask fs1)"
        obtain n fs2 where a: "add_node fs1 (join_path cs) VFS_DIR ?m (uid cred) now = (n, fs2)"
          by fastforce
        have l1: "fs_lookup fs1 (join_path cs) = None"
          using parents_added_self [OF IH(4)] snoc.prems(1) None by (simp add: find_node_None)
        have po1: "path_ok (join_path cs)" using snoc.prems(1,2) False by (auto simp: path_ok_def)
        note ac = add_node_cases [OF a] and ai = add_node_inv [OF IH(1) l1 po1 IH(6) [OF True] a]
        have res: "(rc, fs') = (if n = None then VFS_ENOMEM else VFS_OK, fs2)"
          using snoc.prems(5) par nr None e1 True a by (auto simp: unf split: if_splits)
        have um: "v_umask fs1 = v_umask fs" using IH(2) by (simp add: same_limits_def)
        have "parents_added cred now (cs @ [c]) fs fs2"
        proof (cases n)
          case None
          with ac grow show ?thesis by (simp add: parents_added_def)
        next
          case (Some i)
          then have "fs_lookup fs2 = (fs_lookup fs1)(join_path cs \<mapsto>
              new_node (join_path cs) VFS_DIR ?m (uid cred) now)" using ai(2) by simp
          moreover have "fs_lookup fs (join_path cs) = None" using None by (simp add: find_node_None)
          ultimately show ?thesis using grow False um unfolding parents_added_def by auto
        qed
        with res ai ac IH True same_limits_trans [of fs fs1 fs2] po show ?thesis
          by (auto simp: dir_at_def split: if_splits)
      qed
    qed
  qed
qed

text \<open>
  When the path itself exists its parent does too, so nothing is added: a node pointer taken
  before the call stays valid, as \<open>vfs_write\<close> needs.
\<close>

lemma ensure_parents_existing:
  assumes "vfs_inv fs" "fs_lookup fs p = Some n" "length p < VFS_PATH_MAX"
  shows "ensure_parents fs cred now p = (VFS_OK, fs)"
proof -
  from vfs_inv_nodeD [OF assms(1,2)] obtain cs c where
    p: "list_all comp_normal (cs @ [c])" "p = join_path (cs @ [c])" "parent_of p = join_path cs"
    and d: "dir_at (fs_lookup fs) (parent_of p)" by (auto elim: path_okE)
  have par: "path_parent VFS_PATH_MAX p = Inr (join_path cs)"
    using normalized_parent [OF p(1)] p(2) assms(3) by simp
  show ?thesis
  proof (cases "join_path cs = root_path")
    case True
    then show ?thesis by (subst ensure_parents.simps) (simp add: par)
  next
    case False
    with d p obtain m where m: "fs_lookup fs (join_path cs) = Some m" "n_type m = VFS_DIR"
      by (auto simp: dir_at_def)
    then obtain i where "find_node fs (join_path cs) = Some i"
      using find_node_None [of fs "join_path cs"] by fastforce
    with m False find_node_SomeD show ?thesis
      by (subst ensure_parents.simps) (auto simp: par)
  qed
qed

end
