(* ===== verification/VfsOps.thy ===== *)
theory VfsOps
  imports VfsInv
begin

unbundle bit_operations_syntax

text \<open>
  What each operation of \<open>vfs.c\<close> does to the table of nodes, on every branch, and that it keeps
  the invariant: write, mkdir, delete, recursive delete, rename, copy and chmod.
\<close>

section \<open>Shared steps\<close>

lemma parents_step:
  assumes "vfs_inv fs" "list_all comp_normal cs" "list_all comp_legal cs" "cs \<noteq> []"
    and "length (join_path cs) < VFS_PATH_MAX"
    and "(if cp then ensure_parents fs cred now (join_path cs)
          else (require_parent fs (join_path cs), fs)) = (rc, fs1)"
  shows "vfs_inv fs1 \<and> same_limits fs fs1 \<and> v_usage fs1 = v_usage fs \<and>
    parents_added cred now cs fs fs1 \<and>
    (rc = VFS_OK \<longrightarrow> dir_at (fs_lookup fs1) (parent_of (join_path cs))) \<and>
    (\<not> cp \<longrightarrow> fs1 = fs) \<and>
    (fs_lookup fs (join_path cs) \<noteq> None \<longrightarrow> fs1 = fs)"
proof (cases cp)
  case True
  with ensure_parents_spec [OF assms(1-5)] ensure_parents_existing [OF assms(1) _ assms(5)] assms(6)
  show ?thesis by (auto split: if_splits)
next
  case False
  obtain ds d where "cs = ds @ [d]" using assms(4) by (metis append_butlast_last_id)
  with False assms require_parent_join [of ds d fs] parent_of_join [of ds d] show ?thesis
    by (auto split: if_splits)
qed

lemma normalized_okE:
  assumes "vfs_normalize VFS_PATH_MAX path = Inr norm" "norm \<noteq> root_path"
    and "validate_path_components norm = VFS_OK"
  obtains cs where "list_all comp_normal cs" "list_all comp_legal cs" "cs \<noteq> []"
    "norm = join_path cs" "length (join_path cs) < VFS_PATH_MAX"
proof -
  from vfs_normalizeD [OF assms(1)] obtain cs where
    cs: "list_all comp_normal cs" "norm = join_path cs" "length norm < VFS_PATH_MAX" by metis
  moreover have "cs \<noteq> []" using cs assms(2) by auto
  moreover have "list_all comp_legal cs"
    using validate_path_components_join [of cs] cs assms(3) by (metis vfs_rc.distinct(17))
  ultimately show thesis using that by simp
qed

section \<open>Write\<close>

definition write_result :: "vfs \<Rightarrow> vfs_cred \<Rightarrow> int \<Rightarrow> string \<Rightarrow> byte list \<Rightarrow> vfs_node" where
  "write_result fs cred now norm data =
     (case fs_lookup fs norm of
        Some m \<Rightarrow> m\<lparr>n_data := data, n_size := of_nat (length data), n_mtime := now\<rparr>
      | None \<Rightarrow> (new_node norm VFS_FILE (VFS_MODE_FILE_DEFAULT AND NOT (v_umask fs)) (uid cred) now)
                  \<lparr>n_data := data, n_size := of_nat (length data)\<rparr>)"

lemma overwrite_inv:
  assumes "vfs_inv fs" "fs_lookup fs p = Some m" "n_type m = VFS_FILE" "length data < 2 ^ 64"
    and "find_node fs p = Some i"
    and "fs' = fs\<lparr>v_nodes := (v_nodes fs)[i := (v_nodes fs ! i)
               \<lparr>n_data := data, n_size := of_nat (length data), n_mtime := now\<rparr>],
             v_usage := v_usage fs - n_size m + of_nat (length data)\<rparr>"
  shows "vfs_inv fs'"
    and "fs_lookup fs' = (fs_lookup fs)(p \<mapsto>
           m\<lparr>n_data := data, n_size := of_nat (length data), n_mtime := now\<rparr>)"
proof -
  let ?f = "\<lambda>n. n\<lparr>n_data := data, n_size := of_nat (length data), n_mtime := now\<rparr>"
  have nodes: "v_nodes fs' = nodes_upd (v_nodes fs) p ?f"
    using node_update_eq [OF assms(5), of ?f] assms(6) by simp
  have "node_ok (?f m)" using vfs_inv_nodeD(3) [OF assms(1,2)] assms(3,4) by (simp add: node_ok_def)
  then have "nt.consistent (nodes_upd (v_nodes fs) p ?f) (v_usage fs - file_size m + file_size (?f m))"
    using assms(1,2) by (intro nt.consistent_upd) (auto simp: vfs_inv_iff)
  then show "vfs_inv fs'" using nodes assms(3,6) by (simp add: vfs_inv_iff file_size_def)
  show "fs_lookup fs' = (fs_lookup fs)(p \<mapsto> ?f m)"
    using nodes nt.upd_lookup [of "v_nodes fs" ?f p] vfs_invD(1) [OF assms(1)] assms(2) by simp
qed

lemma create_inv:
  assumes "vfs_inv fs" "fs_lookup fs p = None" "path_ok p" "dir_at (fs_lookup fs) (parent_of p)"
    and "length data < 2 ^ 64" "add_node fs p VFS_FILE mode ow now = (Some i, fs1)"
    and "fs' = fs1\<lparr>v_nodes := (v_nodes fs1)[i := (v_nodes fs1 ! i)
               \<lparr>n_data := data, n_size := of_nat (length data)\<rparr>],
             v_usage := v_usage fs1 + of_nat (length data)\<rparr>"
  shows "vfs_inv fs'" "same_limits fs fs'"
    and "fs_lookup fs' = (fs_lookup fs)(p \<mapsto> (new_node p VFS_FILE mode ow now)
           \<lparr>n_data := data, n_size := of_nat (length data)\<rparr>)"
proof -
  let ?n = "(new_node p VFS_FILE mode ow now)\<lparr>n_data := data, n_size := of_nat (length data)\<rparr>"
  note ac = add_node_cases [OF assms(6)]
  then have nodes: "v_nodes fs' = nodes_add (v_nodes fs) ?n" and us: "v_usage fs1 = v_usage fs"
    using assms(7) by (auto simp: nodes_add_def)
  have fsz: "file_size ?n = of_nat (length data)" by (simp add: file_size_def)
  have "node_ok ?n" using new_node_simps(6) [of p VFS_FILE mode ow now] assms(5)
    by (simp add: node_ok_def)
  then have "nt.consistent (nodes_add (v_nodes fs) ?n) (v_usage fs + file_size ?n)"
    using assms(1-4) by (intro nt.consistent_add) (auto simp: vfs_inv_iff)
  then show "vfs_inv fs'" using nodes us fsz assms(7) by (simp add: vfs_inv_iff)
  show "same_limits fs fs'" using ac assms(7) by (simp add: same_limits_def)
  show "fs_lookup fs' = (fs_lookup fs)(p \<mapsto> ?n)"
    using nodes nt.add_lookup [of "v_nodes fs" ?n] vfs_invD(1) [OF assms(1)] assms(2) by simp
qed

lemma write_commit_spec:
  assumes inv: "vfs_inv fs" and len: "length data < 2 ^ 64" and po: "path_ok p"
    and da: "dir_at (fs_lookup fs) (parent_of p)"
    and isf: "\<And>i. find_node fs p = Some i \<Longrightarrow> n_type (v_nodes fs ! i) \<noteq> VFS_DIR"
    and old: "old = (case find_node fs p of None \<Rightarrow> 0 | Some i \<Rightarrow> n_size (v_nodes fs ! i))"
    and run: "write_commit fs cred now p data (find_node fs p) old = (rc, fs')"
  shows "vfs_inv fs' \<and> same_limits fs fs' \<and>
    (rc = VFS_OK \<longrightarrow> fs_lookup fs' = (fs_lookup fs)(p \<mapsto> write_result fs cred now p data)) \<and>
    (rc \<noteq> VFS_OK \<longrightarrow> rc = VFS_ENOMEM \<and> fs_lookup fs' = fs_lookup fs \<and> v_usage fs' = v_usage fs)"
proof -
  obtain ok fs2 where a: "(if (of_nat (length data) :: u64) > 0 then vfs_alloc fs else (True, fs)) = (ok, fs2)"
    by fastforce
  then have f2: "v_nodes fs2 = v_nodes fs" "v_usage fs2 = v_usage fs" "same_limits fs fs2"
    "vfs_inv fs2" "find_node fs2 p = find_node fs p"
    using vfs_alloc_cases [of fs ok fs2] inv by (auto simp: find_node_def split: if_splits)
  note wc = run [unfolded write_commit_def Let_def a prod.case]
  have um: "v_umask fs2 = v_umask fs" using f2 by (simp add: same_limits_def)
  show ?thesis
  proof (cases ok)
    case False
    with wc f2 show ?thesis by auto
  next
    case ok: True
    show ?thesis
    proof (cases "find_node fs p")
      case (Some i)
      define m where "m = v_nodes fs ! i"
      have m: "fs_lookup fs p = Some m" "n_type m = VFS_FILE" "old = n_size m"
        using find_node_SomeD [OF Some] isf [OF Some] old Some
        by (auto simp: m_def intro: vfs_type.exhaust)
      from wc ok Some have "rc = VFS_OK" and fs': "fs' = fs2\<lparr>v_nodes := (v_nodes fs2)[i := (v_nodes fs2 ! i)
          \<lparr>n_data := data, n_size := of_nat (length data), n_mtime := now\<rparr>],
          v_usage := v_usage fs2 - n_size m + of_nat (length data)\<rparr>" by (auto simp: m)
      with overwrite_inv [OF f2(4) _ m(2) len _ fs', of p] f2 m(1) Some show ?thesis
        by (auto simp: write_result_def same_limits_def)
    next
      case None
      obtain n fs3 where an: "add_node fs2 p VFS_FILE (VFS_MODE_FILE_DEFAULT AND NOT (v_umask fs2))
          (uid cred) now = (n, fs3)" by fastforce
      have l2: "fs_lookup fs2 p = None" using None f2 find_node_None [of fs p] by simp
      have d2: "dir_at (fs_lookup fs2) (parent_of p)" using da f2 by simp
      show ?thesis
      proof (cases n)
        case n: None
        with wc ok None an add_node_cases [OF an] add_node_inv(1) [OF f2(4) l2 po d2 an] f2
        show ?thesis by (auto simp: same_limits_def)
      next
        case n: (Some i)
        with wc ok None an have "rc = VFS_OK" and fs': "fs' = fs3\<lparr>v_nodes := (v_nodes fs3)[i := (v_nodes fs3 ! i)
            \<lparr>n_data := data, n_size := of_nat (length data)\<rparr>],
            v_usage := v_usage fs3 + of_nat (length data)\<rparr>" by auto
        with create_inv [OF f2(4) l2 po d2 len an [unfolded n] fs'] f2 l2 um same_limits_trans [of fs fs2 fs']
        show ?thesis by (simp add: write_result_def)
      qed
    qed
  qed
qed


lemma vfs_write_spec:
  assumes inv: "vfs_inv fs" and len: "length data < 2 ^ 64"
    and run: "vfs_write fs cred now path data cp = (rc, fs')"
  shows "vfs_inv fs' \<and> same_limits fs fs' \<and>
    (rc = VFS_OK \<longrightarrow> (\<exists>cs fs1. vfs_normalize VFS_PATH_MAX path = Inr (join_path cs) \<and>
       list_all comp_normal cs \<and> cs \<noteq> [] \<and> parents_added cred now cs fs fs1 \<and>
       (\<not> cp \<longrightarrow> fs_lookup fs1 = fs_lookup fs) \<and>
       fs_lookup fs' = (fs_lookup fs1)(join_path cs \<mapsto> write_result fs cred now (join_path cs) data))) \<and>
    (rc \<noteq> VFS_OK \<longrightarrow> (\<exists>cs. parents_added cred now cs fs fs') \<and> v_usage fs' = v_usage fs)"
proof (cases "vfs_normalize VFS_PATH_MAX path")
  case (Inl e)
  then have "e = VFS_EBADPATH" by (auto simp: vfs_normalize_max split: if_splits)
  with run Inl inv show ?thesis by (auto simp: vfs_write_def intro: parents_added_refl)
next
  case (Inr norm)
  let ?bad = "case find_node fs norm of None \<Rightarrow> VFS_OK
     | Some i \<Rightarrow> if n_type (v_nodes fs ! i) = VFS_DIR then VFS_EISDIR
                else if \<not> check_perm (v_nodes fs ! i) cred PERM_W then VFS_EPERM else VFS_OK"
  let ?old = "case find_node fs norm of None \<Rightarrow> 0 | Some i \<Rightarrow> n_size (v_nodes fs ! i)"
  let ?quota = "v_quota fs > 0 \<and> (v_usage fs - ?old) + of_nat (length data) > v_quota fs"
  show ?thesis
  proof (cases "norm = root_path \<or> validate_path_components norm \<noteq> VFS_OK \<or> ?bad \<noteq> VFS_OK \<or> ?quota")
    case True
    then have "rc \<noteq> VFS_OK \<and> fs' = fs"
      using run Inr by (auto simp: vfs_write_def Let_def split: if_splits)
    with inv show ?thesis by (auto intro: parents_added_refl)
  next
    case False
    then have nf: "norm \<noteq> root_path" "validate_path_components norm = VFS_OK" "?bad = VFS_OK" "\<not> ?quota"
      by simp_all
    from normalized_okE [OF Inr nf(1,2)] obtain cs where
      cs: "list_all comp_normal cs" "list_all comp_legal cs" "cs \<noteq> []" "norm = join_path cs"
        "length (join_path cs) < VFS_PATH_MAX" by metis
    obtain rc1 fs1 where p1: "(if cp then ensure_parents fs cred now (join_path cs)
        else (require_parent fs (join_path cs), fs)) = (rc1, fs1)" by fastforce
    note ps = parents_step [OF inv cs(1-3,5) p1]
    have run1: "(if rc1 \<noteq> VFS_OK then (rc1, fs1)
        else write_commit fs1 cred now norm data (find_node fs norm) ?old) = (rc, fs')"
    proof -
      have "(v_quota fs > 0 \<and> v_usage fs - ?old + of_nat (length data) > v_quota fs) = False"
        using nf(4) by simp
      from run [unfolded vfs_write_def Inr sum.case Let_def this] nf(1-3) p1 cs(4)
      show ?thesis by (simp only: if_False not_True_eq_False prod.case simp_thms)
    qed
    show ?thesis
    proof (cases "rc1 = VFS_OK")
      case False
      with run1 ps show ?thesis by auto
    next
      case True
      have self: "fs_lookup fs1 norm = fs_lookup fs norm"
        using ps parents_added_self [of cred now cs fs fs1] cs by simp
      have fn: "find_node fs1 norm = find_node fs norm"
      proof (cases "fs_lookup fs norm")
        case None
        with self show ?thesis using find_node_None by metis
      qed (use ps cs(4) in simp)
      have f1: "fs1 = fs" if "find_node fs norm = Some i" for i
        using that ps cs(4) find_node_None [of fs norm] by auto
      have isf: "n_type (v_nodes fs1 ! i) \<noteq> VFS_DIR" if "find_node fs1 norm = Some i" for i
        using that nf(3) fn f1 by (auto split: if_splits)
      have old: "?old = (case find_node fs1 norm of None \<Rightarrow> 0 | Some i \<Rightarrow> n_size (v_nodes fs1 ! i))"
        using fn f1 by (auto split: option.splits)
      have run2: "write_commit fs1 cred now norm data (find_node fs1 norm) ?old = (rc, fs')"
        using run1 True fn by simp
      have po: "path_ok norm" using cs by (auto simp: path_ok_def)
      have wr: "write_result fs1 cred now norm data = write_result fs cred now norm data"
      proof -
        have "v_umask fs1 = v_umask fs" using ps by (simp add: same_limits_def)
        with self show ?thesis by (simp only: write_result_def)
      qed
      have "vfs_inv fs1" and da: "dir_at (fs_lookup fs1) (parent_of norm)" using ps True cs(4) by auto
      note wc = write_commit_spec [OF \<open>vfs_inv fs1\<close> len po da isf old run2, unfolded wr]
      have fail: "rc \<noteq> VFS_OK \<Longrightarrow> parents_added cred now cs fs fs'"
        using wc ps unfolding parents_added_def by auto
      have "rc = VFS_OK \<Longrightarrow> fs_lookup fs' = (fs_lookup fs1)(join_path cs \<mapsto>
          write_result fs cred now (join_path cs) data)" using wc cs(4) by simp
      moreover have "same_limits fs fs'" using wc ps same_limits_trans by blast
      ultimately show ?thesis using wc ps fail Inr cs by auto
    qed
  qed
qed

section \<open>Mkdir\<close>

lemma vfs_mkdir_spec:
  assumes inv: "vfs_inv fs" and run: "vfs_mkdir fs cred now path cp = (rc, fs')"
  shows "vfs_inv fs' \<and> same_limits fs fs' \<and> v_usage fs' = v_usage fs \<and>
    (rc = VFS_OK \<longrightarrow> (\<exists>norm. vfs_normalize VFS_PATH_MAX path = Inr norm \<and> dir_at (fs_lookup fs') norm)) \<and>
    (\<forall>q n. fs_lookup fs q = Some n \<longrightarrow> fs_lookup fs' q = Some n) \<and>
    (\<forall>q n. fs_lookup fs q = None \<longrightarrow> fs_lookup fs' q = Some n \<longrightarrow> n = new_node q VFS_DIR
         (VFS_MODE_DIR_DEFAULT AND NOT (v_umask fs)) (uid cred) now)"
proof (cases "vfs_normalize VFS_PATH_MAX path")
  case (Inl e)
  then have "e = VFS_EBADPATH" by (auto simp: vfs_normalize_max split: if_splits)
  with run Inl inv show ?thesis by (auto simp: vfs_mkdir_def)
next
  case (Inr norm)
  show ?thesis
  proof (cases "norm = root_path \<or> validate_path_components norm \<noteq> VFS_OK \<or> find_node fs norm \<noteq> None")
    case True
    then have "fs' = fs" "rc = VFS_OK \<Longrightarrow> dir_at (fs_lookup fs) norm"
      using run Inr find_node_SomeD [of fs norm]
      by (auto simp: vfs_mkdir_def dir_at_def split: if_splits)
    with inv Inr show ?thesis by auto
  next
    case False
    then have nf: "norm \<noteq> root_path" "validate_path_components norm = VFS_OK" "find_node fs norm = None"
      by simp_all
    from normalized_okE [OF Inr nf(1,2)] obtain cs where
      cs: "list_all comp_normal cs" "list_all comp_legal cs" "cs \<noteq> []" "norm = join_path cs"
        "length (join_path cs) < VFS_PATH_MAX" by metis
    obtain rc1 fs1 where p1: "(if cp then ensure_parents fs cred now (join_path cs)
        else (require_parent fs (join_path cs), fs)) = (rc1, fs1)" by fastforce
    note ps = parents_step [OF inv cs(1-3,5) p1]
    have pa: "parents_added cred now cs fs fs1" and sl: "same_limits fs fs1" using ps by simp_all
    let ?new = "\<lambda>q. new_node q VFS_DIR (VFS_MODE_DIR_DEFAULT AND NOT (v_umask fs)) (uid cred) now"
    have new1: "n = ?new q" if "fs_lookup fs q = None" "fs_lookup fs1 q = Some n" for q n
      using pa that unfolding parents_added_def by (metis option.distinct(1) option.inject)
    show ?thesis
    proof (cases "rc1 = VFS_OK")
      case False
      then have "(rc, fs') = (rc1, fs1)" using run Inr nf p1 cs(4) by (simp add: vfs_mkdir_def)
      with ps new1 False parents_added_lookup [OF pa] show ?thesis by auto
    next
      case True
      obtain n fs2 where a: "add_node fs1 norm VFS_DIR (VFS_MODE_DIR_DEFAULT AND NOT (v_umask fs1))
          (uid cred) now = (n, fs2)" by fastforce
      have res: "(rc, fs') = (if n = None then VFS_ENOMEM else VFS_OK, fs2)"
        using run Inr nf p1 cs(4) True a by (auto simp: vfs_mkdir_def split: if_splits)
      have l1: "fs_lookup fs1 norm = None"
        using parents_added_self [OF pa cs(1)] cs(4) nf(3) by (simp add: find_node_None)
      have po: "path_ok norm" using cs by (auto simp: path_ok_def)
      have i1: "vfs_inv fs1" and da: "dir_at (fs_lookup fs1) (parent_of norm)"
        using ps True cs(4) by auto
      note ac = add_node_cases [OF a] and ai = add_node_inv [OF i1 l1 po da a]
      have um: "v_umask fs1 = v_umask fs" using sl by (simp add: same_limits_def)
      have l0: "fs_lookup fs norm = None" using nf(3) by (simp add: find_node_None)
      have lk: "fs_lookup fs2 = (if n = None then fs_lookup fs1 else (fs_lookup fs1)(norm \<mapsto> ?new norm))"
        using ac ai(2) um by auto
      have "fs_lookup fs q = Some m \<longrightarrow> fs_lookup fs2 q = Some m" for q m
        using parents_added_lookup [OF pa] l0 lk by auto
      moreover have "fs_lookup fs q = None \<longrightarrow> fs_lookup fs2 q = Some m \<longrightarrow> m = ?new q" for q m
        using new1 lk by (auto split: if_splits)
      moreover have "same_limits fs fs2" using ac sl same_limits_trans by blast
      ultimately show ?thesis using res ai(1) ac ps Inr lk by (auto simp: dir_at_def)
    qed
  qed
qed

section \<open>Delete\<close>

lemma remove_leaf:
  assumes "vfs_inv fs" "find_node fs p = Some i"
    and "\<not> (n_type (v_nodes fs ! i) = VFS_DIR \<and> count_children fs p > 0)"
  shows "vfs_inv (remove_node fs i)"
    and "fs_lookup (remove_node fs i) = (fs_lookup fs)(p := None)"
proof -
  have l: "fs_lookup fs p = Some (v_nodes fs ! i)" using find_node_SomeD [OF assms(2)] by simp
  have "parent_of q \<noteq> p" if "fs_lookup fs q = Some m" for q m
  proof (cases "n_type (v_nodes fs ! i) = VFS_DIR")
    case True
    with assms(3) have "count_children fs p = 0" by simp
    with count_children_0 [OF assms(1) vfs_inv_nodeD(2) [OF assms(1) l] _ that] show ?thesis by simp
  next
    case False
    with file_no_children [OF assms(1) l _ that] show ?thesis by simp
  qed
  with remove_node_inv [OF assms(1,2)] show "vfs_inv (remove_node fs i)"
    and "fs_lookup (remove_node fs i) = (fs_lookup fs)(p := None)" by auto
qed

lemma vfs_delete_spec:
  assumes inv: "vfs_inv fs" and run: "vfs_delete fs cred path = (rc, fs')"
  shows "vfs_inv fs' \<and> same_limits fs fs' \<and>
    (rc = VFS_OK \<longrightarrow> (\<exists>p. vfs_normalize VFS_PATH_MAX path = Inr p \<and>
       fs_lookup fs' = (fs_lookup fs)(p := None))) \<and> (rc \<noteq> VFS_OK \<longrightarrow> fs' = fs)"
proof (cases "vfs_normalize VFS_PATH_MAX path")
  case (Inl e)
  then have "e = VFS_EBADPATH" by (auto simp: vfs_normalize_max split: if_splits)
  with run Inl inv show ?thesis by (auto simp: vfs_delete_def)
next
  case (Inr norm)
  with run inv remove_leaf [OF inv, of norm] show ?thesis
    by (auto simp: vfs_delete_def split: if_splits option.splits)
qed


section \<open>Recursive delete\<close>

lemma delete_loop_spec:
  assumes "k \<le> length (v_nodes fs)"
    and "\<forall>j. k \<le> j \<longrightarrow> j < length (v_nodes fs) \<longrightarrow> \<not> under norm (n_path (v_nodes fs ! j))"
  shows "mset (v_nodes (delete_loop norm k fs)) =
      filter_mset (\<lambda>n. \<not> under norm (n_path n)) (mset (v_nodes fs)) \<and>
    (v_usage fs = nodes_total (v_nodes fs) \<longrightarrow>
     v_usage (delete_loop norm k fs) = nodes_total (v_nodes (delete_loop norm k fs))) \<and>
    same_limits fs (delete_loop norm k fs)"
  using assms
proof (induction k arbitrary: fs)
  case 0
  then have "\<not> under norm (n_path n)" if "n \<in> set (v_nodes fs)" for n
    using that by (metis in_set_conv_nth le0)
  then have "filter_mset (\<lambda>n. \<not> under norm (n_path n)) (mset (v_nodes fs)) = mset (v_nodes fs)"
    by (intro filter_mset_eq_conv [THEN iffD2]) auto
  then show ?case by simp
next
  case (Suc i)
  let ?n = "v_nodes fs ! i" and ?ns = "v_nodes fs"
  show ?case
  proof (cases "under norm (n_path ?n)")
    case False
    have "\<forall>j. i \<le> j \<longrightarrow> j < length ?ns \<longrightarrow> \<not> under norm (n_path (?ns ! j))"
      using Suc.prems(2) False by (metis Suc_leI le_neq_implies_less)
    with Suc False show ?thesis by simp
  next
    case True
    let ?fs1 = "remove_node fs i"
    have i: "i < length ?ns" using Suc.prems(1) by simp
    have ns1: "v_nodes ?fs1 = swap_remove i ?ns" by (simp add: remove_node_def Let_def)
    have us1: "v_usage ?fs1 = v_usage fs - file_size ?n"
      by (simp add: remove_node_def Let_def file_size_def)
    have m1: "mset (v_nodes ?fs1) = mset ?ns - {#?n#}" using i by (simp add: ns1 mset_swap_remove)
    have "\<not> under norm (n_path (v_nodes ?fs1 ! j))" if "i \<le> j" "j < length (v_nodes ?fs1)" for j
    proof (cases "j = i")
      case True
      have "last ?ns = ?ns ! (length ?ns - 1)" using i by (intro last_conv_nth) auto
      moreover have "Suc i \<le> length ?ns - 1" using that ns1 True by simp
      moreover have "length ?ns - 1 < length ?ns" using i by simp
      ultimately have "\<not> under norm (n_path (last ?ns))" using Suc.prems(2) by metis
      with True that i show ?thesis by (simp add: ns1 nth_swap_remove)
    next
      case False
      with that i Suc.prems(2) show ?thesis by (simp add: ns1 nth_swap_remove)
    qed
    moreover have "i \<le> length (v_nodes ?fs1)" using Suc.prems(1) by (simp add: ns1)
    moreover have "v_usage ?fs1 = nodes_total (v_nodes ?fs1)" if "v_usage fs = nodes_total ?ns"
      using that us1 nodes_total_remove [OF m1] i by simp
    moreover have "filter_mset (\<lambda>n. \<not> under norm (n_path n)) (mset (v_nodes ?fs1))
        = filter_mset (\<lambda>n. \<not> under norm (n_path n)) (mset ?ns)"
      using True by (simp add: m1 filter_diff_mset)
    ultimately show ?thesis
      using Suc.IH [of ?fs1] True same_limits_trans [OF remove_node_limits] by auto
  qed
qed

definition subtree :: "string \<Rightarrow> string \<Rightarrow> bool" where
  "subtree p q \<longleftrightarrow> q = p \<or> under p q"

lemma subtree_join:
  assumes "list_all comp_normal cs" "list_all comp_normal ds" "cs \<noteq> []"
  shows "subtree (join_path cs) (join_path ds) \<longleftrightarrow> (\<exists>es. ds = cs @ es)"
  using under_join [OF assms] join_path_inj [OF assms(2,1)] by (auto simp: subtree_def)

lemma subtree_parent:
  assumes "path_ok p" "path_ok q" "subtree p (parent_of q)"
  shows "under p q"
proof -
  from assms(1) obtain cs where cs: "cs \<noteq> []" "list_all comp_normal cs" "p = join_path cs"
    by (auto simp: path_ok_def)
  from assms(2) obtain ds d where ds: "list_all comp_normal (ds @ [d])" "q = join_path (ds @ [d])"
    "parent_of q = join_path ds" by (auto elim: path_okE)
  with assms(3) cs subtree_join [of cs ds] obtain es where "ds = cs @ es" by auto
  with cs ds under_join [of cs "ds @ [d]"] show ?thesis by auto
qed

lemma tree_ok_prune:
  assumes "tree_ok M" "path_ok p"
  shows "tree_ok (\<lambda>q. if subtree p q then None else M q)"
proof -
  have "dir_at (\<lambda>q. if subtree p q then None else M q) (parent_of q)"
    if "M q = Some n" "\<not> subtree p q" for q n
  proof -
    have "path_ok q" "dir_at M (parent_of q)" using tree_okD [OF assms(1) that(1)] by simp_all
    moreover from this subtree_parent [OF assms(2)] that(2) have "\<not> subtree p (parent_of q)"
      by (auto simp: subtree_def)
    ultimately show ?thesis by (auto simp: dir_at_def)
  qed
  with assms(1) show ?thesis by (auto simp: tree_ok_def)
qed

lemma distinct_filter_mset_list:
  assumes "mset ms = filter_mset P (mset ns)" "nodes_distinct ns"
  shows "nodes_distinct ms" "set ms = {n \<in> set ns. P n}"
proof -
  have m: "mset ms = mset (filter P ns)" using assms(1) by simp
  then have "mset (map n_path ms) = mset (map n_path (filter P ns))" by simp
  moreover have "distinct (map n_path (filter P ns))"
    using assms(2) by (simp add: nodes_distinct_def distinct_map_filter)
  ultimately show "nodes_distinct ms"
    unfolding nodes_distinct_def using mset_eq_imp_distinct_iff by blast
  show "set ms = {n \<in> set ns. P n}" using m by (metis mset_eq_setD set_filter)
qed

lemma delete_subtree:
  assumes inv: "vfs_inv fs" and fn: "find_node fs norm = Some i"
    and fs1: "fs1 = delete_loop norm (length (v_nodes fs)) fs" and fn1: "find_node fs1 norm = Some j"
  shows "vfs_inv (remove_node fs1 j)" "same_limits fs (remove_node fs1 j)"
    and "fs_lookup (remove_node fs1 j) = (\<lambda>q. if subtree norm q then None else fs_lookup fs q)"
proof -
  let ?M = "\<lambda>q. if subtree norm q then None else fs_lookup fs q"
  have d: "nodes_distinct (v_nodes fs)" and t: "tree_ok (fs_lookup fs)" using vfs_invD [OF inv] .
  have ds: "mset (v_nodes fs1) = filter_mset (\<lambda>n. \<not> under norm (n_path n)) (mset (v_nodes fs))"
    "v_usage fs1 = nodes_total (v_nodes fs1)" "same_limits fs fs1"
    using delete_loop_spec [of "length (v_nodes fs)" fs norm] fs1 inv by (auto simp: vfs_inv_def)
  note df = distinct_filter_mset_list [OF ds(1) d]
  have "fs_lookup fs1 = (\<lambda>q. if under norm q then None else fs_lookup fs q)"
    using df nodes_lookup_iff [OF d] by (intro nodes_lookup_eqI) (auto split: if_splits)
  then have lk: "fs_lookup (remove_node fs1 j) = ?M"
    using remove_node_eq [OF fn1] nt.del_lookup [OF df(1)] by (auto simp: subtree_def fun_eq_iff)
  have po: "path_ok norm" using vfs_inv_nodeD(2) [OF inv] find_node_SomeD [OF fn] by blast
  have "v_usage (remove_node fs1 j) = nodes_total (v_nodes (remove_node fs1 j))"
    using remove_node_eq [OF fn1] nt.del_total [OF df(1)] ds(2) by simp
  moreover have "nodes_distinct (v_nodes (remove_node fs1 j))"
    using remove_node_eq [OF fn1] nt.del_invar [OF df(1)] by simp
  ultimately show "vfs_inv (remove_node fs1 j)"
    using lk tree_ok_prune [OF t po] by (simp add: vfs_inv_def)
  show "same_limits fs (remove_node fs1 j)" using same_limits_trans [OF ds(3)] by simp
  show "fs_lookup (remove_node fs1 j) = ?M" by (rule lk)
qed

lemma vfs_delete_recursive_spec:
  assumes inv: "vfs_inv fs" and run: "vfs_delete_recursive fs cred path = (rc, fs')"
  shows "vfs_inv fs' \<and> same_limits fs fs' \<and>
    (rc = VFS_OK \<longrightarrow> (\<exists>p. vfs_normalize VFS_PATH_MAX path = Inr p \<and>
       fs_lookup fs' = (\<lambda>q. if subtree p q then None else fs_lookup fs q))) \<and>
    (rc \<noteq> VFS_OK \<longrightarrow> fs' = fs)"
proof (cases "vfs_normalize VFS_PATH_MAX path")
  case (Inl e)
  then have "e = VFS_EBADPATH" by (auto simp: vfs_normalize_max split: if_splits)
  with run Inl inv show ?thesis by (auto simp: vfs_delete_recursive_def)
next
  case (Inr norm)
  show ?thesis
  proof (cases "\<exists>i. norm \<noteq> root_path \<and> find_node fs norm = Some i \<and> check_perm (v_nodes fs ! i) cred PERM_W")
    case False
    then have "fs' = fs \<and> rc \<noteq> VFS_OK"
      using run Inr by (auto simp: vfs_delete_recursive_def split: if_splits option.splits)
    with inv show ?thesis by auto
  next
    case True
    then obtain i where i: "norm \<noteq> root_path" "find_node fs norm = Some i"
      "check_perm (v_nodes fs ! i) cred PERM_W" by blast
    have l: "fs_lookup fs norm = Some (v_nodes fs ! i)" using find_node_SomeD [OF i(2)] by simp
    show ?thesis
    proof (cases "n_type (v_nodes fs ! i) = VFS_DIR")
      case False
      have nd: "fs_lookup fs q = None" if "under norm q" for q
      proof (rule ccontr)
        assume "fs_lookup fs q \<noteq> None"
        then obtain m where m: "fs_lookup fs q = Some m" by blast
        from vfs_inv_nodeD(2) [OF inv l] obtain cs where cs: "cs \<noteq> []" "list_all comp_normal cs"
          "norm = join_path cs" by (auto simp: path_ok_def)
        from vfs_inv_nodeD(2) [OF inv m] obtain ds where ds: "list_all comp_normal ds" "q = join_path ds"
          by (auto simp: path_ok_def)
        with that cs under_join obtain es where "es \<noteq> []" "ds = cs @ es" by blast
        with tree_ok_ancestor [OF vfs_invD(2) [OF inv], of cs es m] ds m cs have "dir_at (fs_lookup fs) norm"
          by auto
        with i(1) l False show False by (simp add: dir_at_def)
      qed
      have "(rc, fs') = (VFS_OK, remove_node fs i)"
        using run Inr i False by (simp add: vfs_delete_recursive_def)
      moreover have "fs_lookup (remove_node fs i) = (\<lambda>q. if subtree norm q then None else fs_lookup fs q)"
        using remove_leaf(2) [OF inv i(2)] False nd by (auto simp: subtree_def fun_eq_iff)
      ultimately show ?thesis using remove_leaf(1) [OF inv i(2)] False Inr by auto
    next
      case True
      define fs1 where "fs1 = delete_loop norm (length (v_nodes fs)) fs"
      have "mset (v_nodes fs1) = filter_mset (\<lambda>n. \<not> under norm (n_path n)) (mset (v_nodes fs))"
        using delete_loop_spec [of "length (v_nodes fs)" fs norm] by (simp add: fs1_def)
      then have "set (v_nodes fs1) = {n \<in> set (v_nodes fs). \<not> under norm (n_path n)}"
        using distinct_filter_mset_list(2) vfs_invD(1) [OF inv] by blast
      moreover have "v_nodes fs ! i \<in> set (v_nodes fs)" "n_path (v_nodes fs ! i) = norm"
        using find_node_SomeD [OF i(2)] by auto
      ultimately have "norm \<in> n_path ` set (v_nodes fs1)" by force
      then obtain j where j: "find_node fs1 norm = Some j"
        using find_node_None [of fs1 norm] nodes_lookup_None [of "v_nodes fs1" norm] by auto
      have "(rc, fs') = (VFS_OK, remove_node fs1 j)"
        using run Inr i True j by (simp add: vfs_delete_recursive_def fs1_def [symmetric])
      with delete_subtree [OF inv i(2) fs1_def j] Inr show ?thesis by auto
    qed
  qed
qed

end
