(* ===== verification/VfsRename.thy ===== *)
theory VfsRename
  imports VfsOps
begin

unbundle bit_operations_syntax

text \<open>
  Rename, copy and chmod. A rename that succeeds relocates the whole subtree of the source: every
  path at or below the old one has the old prefix replaced by the new one, and nothing else moves.
\<close>

section \<open>Relocation of paths\<close>

definition reloc :: "string \<Rightarrow> string \<Rightarrow> string \<Rightarrow> string" where
  "reloc onorm nnorm p = (if subtree onorm p then nnorm @ drop (length onorm) p else p)"

definition move_node :: "string \<Rightarrow> string \<Rightarrow> int \<Rightarrow> vfs_node \<Rightarrow> vfs_node" where
  "move_node onorm nnorm now n =
     (if subtree onorm (n_path n)
      then n\<lparr>n_path := nnorm @ drop (length onorm) (n_path n), n_mtime := now\<rparr> else n)"

lemma move_node_simps [simp]:
  "n_path (move_node onorm nnorm now n) = reloc onorm nnorm (n_path n)"
  "n_type (move_node onorm nnorm now n) = n_type n"
  "n_data (move_node onorm nnorm now n) = n_data n"
  "n_size (move_node onorm nnorm now n) = n_size n"
  "n_mode (move_node onorm nnorm now n) = n_mode n"
  "n_owner (move_node onorm nnorm now n) = n_owner n"
  "file_size (move_node onorm nnorm now n) = file_size n"
  "node_ok (move_node onorm nnorm now n) = node_ok n"
  by (simp_all add: move_node_def reloc_def file_size_def node_ok_def)

lemma reloc_self [simp]: "reloc p q p = q"
  by (simp add: reloc_def subtree_def)

lemma subtree_drop:
  "subtree p q \<Longrightarrow> q = p @ drop (length p) q \<and> (drop (length p) q = [] \<or> (\<exists>r. drop (length p) q = slash # r))"
  by (auto simp: subtree_def under_iff)

lemma subtree_reloc: "subtree onorm p \<Longrightarrow> subtree nnorm (reloc onorm nnorm p)"
  using subtree_drop [of onorm p] by (auto simp: reloc_def subtree_def under_iff)

lemma reloc_join:
  assumes "ocs \<noteq> []" "ncs \<noteq> []" "list_all comp_normal ocs" "list_all comp_normal (ocs @ es)"
  shows "reloc (join_path ocs) (join_path ncs) (join_path (ocs @ es)) = join_path (ncs @ es)"
proof -
  have "subtree (join_path ocs) (join_path (ocs @ es))"
    using assms subtree_join [of ocs "ocs @ es"] by auto
  moreover have "join_path (ocs @ es) = join_path ocs @ concat (map ((#) slash) es)"
    "join_path (ncs @ es) = join_path ncs @ concat (map ((#) slash) es)"
    using assms(1,2) by (simp_all add: join_path_def)
  ultimately show ?thesis by (simp add: reloc_def)
qed

text \<open>
  The situation after the destination has been cleared: the source exists, the destination and
  everything below it does not, and the destination is outside the source.
\<close>

definition rename_ready :: "(string \<Rightarrow> vfs_node option) \<Rightarrow> string \<Rightarrow> string \<Rightarrow> bool" where
  "rename_ready M onorm nnorm \<longleftrightarrow> tree_ok M \<and> M onorm \<noteq> None \<and> M nnorm = None \<and> path_ok nnorm \<and>
     \<not> subtree onorm nnorm \<and> dir_at M (parent_of nnorm)"

lemma missing_subtree:
  assumes "tree_ok M" "M p = None" "path_ok p" "subtree p q"
  shows "M q = None"
proof (rule ccontr)
  assume "M q \<noteq> None"
  then obtain m where m: "M q = Some m" by blast
  from assms(3) obtain cs where cs: "cs \<noteq> []" "list_all comp_normal cs" "p = join_path cs"
    by (auto simp: path_ok_def)
  from tree_okD [OF assms(1) m] obtain ds where ds: "list_all comp_normal ds" "q = join_path ds"
    by (auto simp: path_ok_def)
  with assms(4) cs subtree_join [of cs ds] obtain es where es: "ds = cs @ es" by auto
  show False
  proof (cases "es = []")
    case False
    then have "dir_at M p" using tree_ok_ancestor [OF assms(1), of cs es m] ds cs es m by auto
    with assms(2,3) show False by (auto simp: dir_at_def)
  qed (use es ds cs m assms(2) in simp)
qed

lemma reloc_inj:
  assumes "rename_ready M onorm nnorm" "M p = Some n" "M q = Some m"
    and "reloc onorm nnorm p = reloc onorm nnorm q"
  shows "p = q"
proof -
  have out: "\<not> subtree nnorm r" if "M r = Some k" for r k
    using that assms(1) missing_subtree [of M nnorm r] by (auto simp: rename_ready_def)
  consider "subtree onorm p" "subtree onorm q" | "\<not> subtree onorm p" "\<not> subtree onorm q"
    | "subtree onorm p" "\<not> subtree onorm q" | "\<not> subtree onorm p" "subtree onorm q" by blast
  then show ?thesis
  proof cases
    case 1
    then have "drop (length onorm) p = drop (length onorm) q" using assms(4) by (simp add: reloc_def)
    with 1 show ?thesis by (metis subtree_drop)
  next
    case 2
    with assms(4) show ?thesis by (simp add: reloc_def)
  next
    case 3
    with assms(4) subtree_reloc [of onorm p nnorm] out [OF assms(3)] show ?thesis
      by (simp add: reloc_def)
  next
    case 4
    with assms(4) subtree_reloc [of onorm q nnorm] out [OF assms(2)] show ?thesis
      by (simp add: reloc_def)
  qed
qed

text \<open>The relocated table and that it is a tree again.\<close>

definition moved :: "(string \<Rightarrow> vfs_node option) \<Rightarrow> (string \<Rightarrow> vfs_node option) \<Rightarrow>
    string \<Rightarrow> string \<Rightarrow> int \<Rightarrow> bool" where
  "moved M M' onorm nnorm now \<longleftrightarrow> (\<forall>q n'. M' q = Some n' \<longleftrightarrow>
     (\<exists>p n. M p = Some n \<and> q = reloc onorm nnorm p \<and> n' = move_node onorm nnorm now n))"

lemma moved_dir:
  assumes "moved M M' onorm nnorm now" "M p = Some n" "n_type n = VFS_DIR"
  shows "dir_at M' (reloc onorm nnorm p)"
  using assms unfolding moved_def dir_at_def by (metis move_node_simps(2))

lemma moved_tree_ok:
  assumes ready: "rename_ready M onorm nnorm" and mv: "moved M M' onorm nnorm now"
  shows "tree_ok M'"
  unfolding tree_ok_def
proof (intro allI impI)
  fix q n'
  assume "M' q = Some n'"
  with mv obtain p n where p: "M p = Some n" "q = reloc onorm nnorm p" "n' = move_node onorm nnorm now n"
    unfolding moved_def by blast
  have t: "tree_ok M" and pn: "path_ok nnorm" and out: "\<not> subtree onorm nnorm"
    and dn: "dir_at M (parent_of nnorm)" using ready by (simp_all add: rename_ready_def)
  have po: "path_ok onorm" using ready tree_okD [OF t] by (auto simp: rename_ready_def)
  have pp: "path_ok p" "node_ok n" "dir_at M (parent_of p)" using tree_okD [OF t p(1)] by simp_all
  have stay: "dir_at M' (parent_of r)"
    if "path_ok r" "\<not> under onorm r" "dir_at M (parent_of r)" for r
  proof -
    have ns: "\<not> subtree onorm (parent_of r)" using subtree_parent [OF po that(1)] that(2) by blast
    then have "reloc onorm nnorm (parent_of r) = parent_of r" by (simp add: reloc_def)
    with that(3) moved_dir [OF mv, of "parent_of r"] show ?thesis
      by (auto simp: dir_at_def [of M])
  qed
  from po obtain ocs where ocs: "ocs \<noteq> []" "list_all comp_normal ocs" "onorm = join_path ocs"
    by (auto simp: path_ok_def)
  from pn obtain ncs where ncs: "ncs \<noteq> []" "list_all comp_normal ncs" "list_all comp_legal ncs"
    "nnorm = join_path ncs" by (auto simp: path_ok_def)
  show "path_ok q \<and> node_ok n' \<and> dir_at M' (parent_of q)"
  proof (cases "under onorm p")
    case False
    show ?thesis
    proof (cases "p = onorm")
      case True
      have "\<not> under onorm nnorm" using out by (simp add: subtree_def)
      with stay [OF pn _ dn] p pp pn True show ?thesis by simp
    next
      case np: False
      with False have "reloc onorm nnorm p = p" by (simp add: reloc_def subtree_def)
      with stay [OF pp(1) False pp(3)] p pp show ?thesis by simp
    qed
  next
    case True
    from pp(1) obtain ds where ds: "list_all comp_normal ds" "list_all comp_legal ds" "p = join_path ds"
      by (auto simp: path_ok_def)
    with True ocs under_join [of ocs ds] obtain es where es: "es \<noteq> []" "ds = ocs @ es" by auto
    then obtain fs f where f: "es = fs @ [f]" by (metis append_butlast_last_id)
    have q: "q = join_path (ncs @ es)"
      using reloc_join [of ocs ncs es] p(2) ds es ocs ncs by simp
    have nq: "list_all comp_normal (ncs @ es)" "list_all comp_legal (ncs @ es)"
      using ncs ds es by auto
    have par: "parent_of p = join_path (ocs @ fs)" "parent_of q = join_path (ncs @ fs)"
      using parent_of_join [of "ocs @ fs" f] parent_of_join [of "ncs @ fs" f] ds es f q nq by auto
    have "join_path (ocs @ fs) \<noteq> root_path" using ds es f ocs by simp
    then obtain k where "M (parent_of p) = Some k" "n_type k = VFS_DIR"
      using pp(3) par by (auto simp: dir_at_def)
    moreover have "reloc onorm nnorm (parent_of p) = parent_of q"
      using reloc_join [of ocs ncs fs] par ocs ncs ds es f by simp
    ultimately have "dir_at M' (parent_of q)" using moved_dir [OF mv] by metis
    moreover have "path_ok q" using nq ncs q by (auto simp: path_ok_def)
    ultimately show ?thesis using p pp by simp
  qed
qed

section \<open>The loop and the move\<close>

lemma rename_loop_True:
  "rename_loop onorm nnorm now ns mem = (True, ns', mem') \<Longrightarrow>
   ns' = map (\<lambda>c. if under onorm (n_path c)
       then c\<lparr>n_path := nnorm @ drop (length onorm) (n_path c), n_mtime := now\<rparr> else c) ns"
proof (induction ns arbitrary: mem ns' mem')
  case (Cons c cs)
  obtain b m where bm: "(case mem of [] \<Rightarrow> (True, []) | b # bs \<Rightarrow> (b, bs)) = (b, m)" by fastforce
  obtain ok cs' m' where r: "rename_loop onorm nnorm now cs (if under onorm (n_path c) then m else mem)
      = (ok, cs', m')" using prod_cases3 by blast
  with Cons bm show ?case by (auto split: if_splits)
qed simp

lemma nodes_move:
  assumes inv: "vfs_inv fs" and ready: "rename_ready (fs_lookup fs) onorm nnorm"
    and ns: "ns = map (move_node onorm nnorm now) (v_nodes fs)"
  shows "nodes_distinct ns" "moved (fs_lookup fs) (nodes_lookup ns) onorm nnorm now"
    "nodes_total ns = nodes_total (v_nodes fs)"
proof -
  have d: "nodes_distinct (v_nodes fs)" using vfs_invD(1) [OF inv] .
  have lk: "fs_lookup fs (n_path n) = Some n" if "n \<in> set (v_nodes fs)" for n
    using that nodes_lookup_iff [OF d] by simp
  have "inj_on (reloc onorm nnorm) (n_path ` set (v_nodes fs))"
    using reloc_inj [OF ready] lk by (auto intro!: inj_onI)
  then have "distinct (map (reloc onorm nnorm) (map n_path (v_nodes fs)))"
    using d by (simp add: nodes_distinct_def distinct_map comp_inj_on)
  then show dn: "nodes_distinct ns" by (simp add: nodes_distinct_def ns comp_def)
  show "moved (fs_lookup fs) (nodes_lookup ns) onorm nnorm now"
    using nodes_lookup_iff [OF dn] nodes_lookup_iff [OF d] by (auto simp: moved_def ns)
  show "nodes_total ns = nodes_total (v_nodes fs)" by (simp add: nodes_total_def ns comp_def)
qed

lemma rename_move_nodes:
  assumes inv: "vfs_inv fs" and fn: "find_node fs onorm = Some s"
    and run: "rename_move fs now onorm nnorm s = (VFS_OK, fs')"
  shows "v_nodes fs' = map (move_node onorm nnorm now) (v_nodes fs)" "v_usage fs' = v_usage fs"
    "same_limits fs fs'" "require_parent fs nnorm = VFS_OK"
proof -
  let ?f = "\<lambda>c. if under onorm (n_path c)
      then c\<lparr>n_path := nnorm @ drop (length onorm) (n_path c), n_mtime := now\<rparr> else c"
  have s: "s < length (v_nodes fs)" "n_path (v_nodes fs ! s) = onorm"
    "fs_lookup fs onorm = Some (v_nodes fs ! s)" using find_node_SomeD [OF fn] by simp_all
  obtain ok ns mem where l: "(if n_type (v_nodes fs ! s) = VFS_DIR
      then rename_loop onorm nnorm now (v_nodes fs) (v_mem fs)
      else (True, v_nodes fs, v_mem fs)) = (ok, ns, mem)" using prod_cases3 by blast
  obtain ok2 fs2 where a: "vfs_alloc (fs\<lparr>v_nodes := ns, v_mem := mem\<rparr>) = (ok2, fs2)" by fastforce
  from run l a have ok: "ok" "ok2" "require_parent fs nnorm = VFS_OK"
    and fs': "fs' = fs2\<lparr>v_nodes := (v_nodes fs2)[s := (v_nodes fs2 ! s)\<lparr>n_path := nnorm, n_mtime := now\<rparr>]\<rparr>"
    by (auto simp: rename_move_def Let_def split: if_splits)
  have no_under: "\<not> under onorm (n_path c)" if "n_type (v_nodes fs ! s) \<noteq> VFS_DIR" "c \<in> set (v_nodes fs)" for c
  proof
    assume u: "under onorm (n_path c)"
    have c: "fs_lookup fs (n_path c) = Some c"
      using that(2) nodes_lookup_iff [OF vfs_invD(1) [OF inv]] by simp
    from vfs_inv_nodeD(2) [OF inv c] vfs_inv_nodeD(2) [OF inv s(3)] obtain cs ds where
      "cs \<noteq> []" "list_all comp_normal cs" "onorm = join_path cs" "list_all comp_normal ds" "n_path c = join_path ds"
      by (auto simp: path_ok_def)
    moreover from this u under_join [of cs ds] obtain es where "es \<noteq> []" "ds = cs @ es" by auto
    ultimately have "dir_at (fs_lookup fs) onorm"
      using tree_ok_ancestor [OF vfs_invD(2) [OF inv], of cs es c] c by auto
    with s(3) that(1) vfs_inv_nodeD(2) [OF inv s(3)] show False by (auto simp: dir_at_def)
  qed
  have ns: "ns = map ?f (v_nodes fs)"
  proof (cases "n_type (v_nodes fs ! s) = VFS_DIR")
    case True
    with l ok rename_loop_True show ?thesis by simp
  next
    case False
    with l no_under have "ns = v_nodes fs" "map ?f (v_nodes fs) = v_nodes fs"
      by (auto intro!: map_idI)
    then show ?thesis by simp
  qed
  have only: "j = s" if "j < length (v_nodes fs)" "n_path (v_nodes fs ! j) = onorm" for j
    using that s vfs_invD(1) [OF inv] by (simp add: nodes_distinct_def distinct_conv_nth)
      (metis)
  note af = vfs_alloc_cases [OF a]
  show "v_nodes fs' = map (move_node onorm nnorm now) (v_nodes fs)"
  proof (rule nth_equalityI)
    show "length (v_nodes fs') = length (map (move_node onorm nnorm now) (v_nodes fs))"
      by (simp add: fs' af(1) ns)
  next
    fix j
    assume "j < length (v_nodes fs')"
    then have j: "j < length (v_nodes fs)" by (simp add: fs' af(1) ns)
    show "v_nodes fs' ! j = map (move_node onorm nnorm now) (v_nodes fs) ! j"
    proof (cases "j = s")
      case True
      then show ?thesis using s by (simp add: fs' af(1) ns move_node_def subtree_def)
    next
      case False
      with only [OF j] j show ?thesis
        by (auto simp: fs' af(1) ns move_node_def subtree_def nth_list_update)
    qed
  qed
  show "v_usage fs' = v_usage fs" "same_limits fs fs'" "require_parent fs nnorm = VFS_OK"
    using af ok by (simp_all add: fs' same_limits_def)
qed

text \<open>A failing move: without a memory failure nothing has changed.\<close>

lemma rename_move_fail:
  assumes "rename_move fs now onorm nnorm s = (rc, fs')" "rc \<noteq> VFS_OK" "rc \<noteq> VFS_ENOMEM"
  shows "fs' = fs \<and> rc = require_parent fs nnorm"
  using assms by (auto simp: rename_move_def Let_def split: if_splits prod.splits)


lemma rename_move_limits:
  assumes "rename_move fs now onorm nnorm s = (rc, fs')"
  shows "same_limits fs fs'"
proof -
  obtain ok ns mem where l: "(if n_type (v_nodes fs ! s) = VFS_DIR
      then rename_loop onorm nnorm now (v_nodes fs) (v_mem fs)
      else (True, v_nodes fs, v_mem fs)) = (ok, ns, mem)" using prod_cases3 by blast
  obtain ok2 fs2 where a: "vfs_alloc (fs\<lparr>v_nodes := ns, v_mem := mem\<rparr>) = (ok2, fs2)" by fastforce
  from assms l a vfs_alloc_cases(3) [OF a] show ?thesis
    by (auto simp: rename_move_def Let_def same_limits_def split: if_splits)
qed

text \<open>One rename step from a state in which the destination is free.\<close>

lemma rename_move_spec:
  assumes inv: "vfs_inv fs" and fn: "find_node fs onorm = Some s"
    and free: "fs_lookup fs nnorm = None" and out: "\<not> subtree onorm nnorm"
    and ncs: "list_all comp_normal ncs" "list_all comp_legal ncs" "ncs \<noteq> []"
      "nnorm = join_path ncs" "length nnorm < VFS_PATH_MAX"
    and run: "rename_move fs now onorm nnorm s = (VFS_OK, fs')"
  shows "vfs_inv fs' \<and> moved (fs_lookup fs) (fs_lookup fs') onorm nnorm now"
proof -
  note rm = rename_move_nodes [OF inv fn run]
  obtain ds d where ds: "ncs = ds @ [d]" using ncs(3) by (metis append_butlast_last_id)
  then have "dir_at (fs_lookup fs) (parent_of nnorm)"
    using rm(4) require_parent_join [of ds d fs] parent_of_join [of ds d] ncs by simp
  moreover have "path_ok nnorm" using ncs by (auto simp: path_ok_def)
  moreover have "fs_lookup fs onorm \<noteq> None" using find_node_SomeD [OF fn] by simp
  ultimately have ready: "rename_ready (fs_lookup fs) onorm nnorm"
    using free out vfs_invD(2) [OF inv] by (simp add: rename_ready_def)
  note nm = nodes_move [OF inv ready rm(1)]
  from nm rm(2) inv moved_tree_ok [OF ready nm(2)] show ?thesis by (simp add: vfs_inv_def)
qed

lemma require_parent_kept:
  assumes inv: "vfs_inv fs" and l: "fs_lookup fs p = Some n"
    and "length p < VFS_PATH_MAX" "fs_lookup fs1 = (fs_lookup fs)(p := None)"
  shows "require_parent fs1 p = VFS_OK"
proof -
  from vfs_inv_nodeD [OF inv l] obtain cs c where
    p: "list_all comp_normal (cs @ [c])" "p = join_path (cs @ [c])" "parent_of p = join_path cs"
    and d: "dir_at (fs_lookup fs) (parent_of p)" by (auto elim: path_okE)
  have "join_path cs \<noteq> p" using p join_path_inj [of cs "cs @ [c]"] by simp
  with d p assms(4) have "dir_at (fs_lookup fs1) (join_path cs)" by (auto simp: dir_at_def)
  with require_parent_join [OF p(1)] p(2) assms(3) show ?thesis by simp
qed

lemma vfs_rename_spec:
  assumes inv: "vfs_inv fs" and run: "vfs_rename fs cred now old new = (rc, fs')"
  shows "same_limits fs fs' \<and> (rc \<noteq> VFS_ENOMEM \<longrightarrow> vfs_inv fs') \<and>
    (rc \<noteq> VFS_OK \<longrightarrow> rc \<noteq> VFS_ENOMEM \<longrightarrow> fs' = fs) \<and>
    (rc = VFS_OK \<longrightarrow> (\<exists>p q. vfs_normalize VFS_PATH_MAX old = Inr p \<and>
        vfs_normalize VFS_PATH_MAX new = Inr q \<and>
        (p = q \<and> fs' = fs \<or>
         p \<noteq> q \<and> moved ((fs_lookup fs)(q := None)) (fs_lookup fs') p q now)))"
proof (cases "vfs_normalize VFS_PATH_MAX old")
  case (Inl e)
  then have "e = VFS_EBADPATH" by (auto simp: vfs_normalize_max split: if_splits)
  with run Inl inv show ?thesis by (auto simp: vfs_rename_def)
next
  case p: (Inr p)
  show ?thesis
  proof (cases "vfs_normalize VFS_PATH_MAX new")
    case (Inl e)
    then have "e = VFS_EBADPATH" by (auto simp: vfs_normalize_max split: if_splits)
    with run p Inl inv show ?thesis by (auto simp: vfs_rename_def)
  next
    case q: (Inr q)
    show ?thesis
    proof (cases "p = root_path \<or> q = root_path \<or> validate_path_components q \<noteq> VFS_OK \<or> p = q
        \<or> under p q \<or> find_node fs p = None \<or> (\<exists>s. find_node fs p = Some s \<and> \<not> check_perm (v_nodes fs ! s) cred PERM_W)")
      case True
      then have "fs' = fs \<and> (rc = VFS_OK \<longrightarrow> p = q)"
        using run p q by (auto simp: vfs_rename_def split: if_splits)
      with inv p q show ?thesis by auto
    next
      case False
      then obtain s where s: "find_node fs p = Some s" and nf: "p \<noteq> root_path" "q \<noteq> root_path"
        "validate_path_components q = VFS_OK" "p \<noteq> q" "\<not> under p q" "check_perm (v_nodes fs ! s) cred PERM_W"
        by auto
      have out: "\<not> subtree p q" using nf by (auto simp: subtree_def)
      from normalized_okE [OF q nf(2,3)] obtain ncs where
        ncs: "list_all comp_normal ncs" "list_all comp_legal ncs" "ncs \<noteq> []" "q = join_path ncs"
          "length q < VFS_PATH_MAX" by metis
      show ?thesis
      proof (cases "find_node fs q")
        case None
        then have run1: "rename_move fs now p q s = (rc, fs')" using run p q nf s
          by (simp add: vfs_rename_def)
        have free: "fs_lookup fs q = None" using None by (simp add: find_node_None)
        then have "(fs_lookup fs)(q := None) = fs_lookup fs" by (simp add: fun_upd_idem)
        with rename_move_limits [OF run1] rename_move_fail [OF run1] inv p q nf(4)
          rename_move_spec [OF inv s free out ncs] run1 show ?thesis by auto
      next
        case (Some d)
        show ?thesis
        proof (cases "n_type (v_nodes fs ! d) = VFS_DIR \<and> count_children fs q > 0")
          case True
          then have "rc = VFS_ENOTEMPTY \<and> fs' = fs" using run p q nf s Some by (simp add: vfs_rename_def)
          with inv show ?thesis by auto
        next
          case False
          define fs1 where "fs1 = remove_node fs d"
          have i1: "vfs_inv fs1" and l1: "fs_lookup fs1 = (fs_lookup fs)(q := None)"
            using remove_leaf [OF inv Some False] by (simp_all add: fs1_def)
          have "fs_lookup fs1 p \<noteq> None" using l1 nf(4) find_node_SomeD [OF s] by simp
          then obtain s' where s': "find_node fs1 p = Some s'"
            using find_node_None [of fs1 p] by auto
          have run1: "rename_move fs1 now p q s' = (rc, fs')"
            using run p q nf s Some False s'
            by (simp add: vfs_rename_def fs1_def [symmetric] del: not_gr_zero)
          have free: "fs_lookup fs1 q = None" using l1 by simp
          have rp: "require_parent fs1 q = VFS_OK"
            using require_parent_kept [OF inv _ ncs(5) l1] find_node_SomeD [OF Some] by blast
          have sl: "same_limits fs fs'"
            using rename_move_limits [OF run1] same_limits_trans [OF remove_node_limits] by (simp add: fs1_def)
          have "rc = VFS_OK \<or> rc = VFS_ENOMEM" using rename_move_fail [OF run1] rp by auto
          with sl rename_move_spec [OF i1 s' free out ncs] run1 l1 p q nf(4) show ?thesis by auto
        qed
      qed
    qed
  qed
qed

section \<open>Copy and chmod\<close>

lemma vfs_chmod_spec:
  assumes inv: "vfs_inv fs" and run: "vfs_chmod fs cred now path mode = (rc, fs')"
  shows "vfs_inv fs' \<and> same_limits fs fs' \<and> v_usage fs' = v_usage fs \<and>
    (rc = VFS_OK \<longrightarrow> (\<exists>p n. vfs_normalize VFS_PATH_MAX path = Inr p \<and> fs_lookup fs p = Some n \<and>
       fs_lookup fs' = (fs_lookup fs)(p \<mapsto> n\<lparr>n_mode := mode AND MODE_MASK, n_mtime := now\<rparr>))) \<and>
    (rc \<noteq> VFS_OK \<longrightarrow> fs' = fs)"
proof (cases "\<exists>p i. is_admin cred \<and> vfs_normalize VFS_PATH_MAX path = Inr p \<and> find_node fs p = Some i")
  case False
  then have "fs' = fs \<and> rc \<noteq> VFS_OK"
    using run by (auto simp: vfs_chmod_def vfs_normalize_max split: if_splits option.splits)
  with inv show ?thesis by auto
next
  case True
  then obtain p i where pi: "is_admin cred" "vfs_normalize VFS_PATH_MAX path = Inr p" "find_node fs p = Some i"
    by blast
  let ?f = "\<lambda>n. n\<lparr>n_mode := mode AND MODE_MASK, n_mtime := now\<rparr>" and ?n = "v_nodes fs ! i"
  have l: "fs_lookup fs p = Some ?n" using find_node_SomeD [OF pi(3)] by simp
  have res: "rc = VFS_OK" "fs' = fs\<lparr>v_nodes := nodes_upd (v_nodes fs) p ?f\<rparr>"
    using run pi node_update_eq [OF pi(3), of ?f] by (auto simp: vfs_chmod_def)
  have ok: "node_ok (?f ?n)" using vfs_inv_nodeD(3) [OF inv l] by (simp add: node_ok_def mode_mask_idem)
  have "nt.consistent (nodes_upd (v_nodes fs) p ?f) (v_usage fs - file_size ?n + file_size (?f ?n))"
    using inv l ok by (intro nt.consistent_upd) (auto simp: vfs_inv_iff)
  moreover have "file_size (?f ?n) = file_size ?n" by (simp add: file_size_def)
  ultimately have "vfs_inv fs'" using res by (simp add: vfs_inv_iff)
  moreover have "fs_lookup fs' = (fs_lookup fs)(p \<mapsto> ?f ?n)"
    using res l nt.upd_lookup [OF vfs_invD(1) [OF inv], of ?f p] by simp
  ultimately show ?thesis using res l pi by (auto simp: same_limits_def)
qed

text \<open>A copy is a write of the source's contents, or fails without reaching the write.\<close>

lemma vfs_copy_cases:
  assumes inv: "vfs_inv fs" and run: "vfs_copy fs cred now src dst cp = (rc, fs')"
  shows "(\<exists>p n fs1. vfs_normalize VFS_PATH_MAX src = Inr p \<and> fs_lookup fs p = Some n \<and>
      n_type n = VFS_FILE \<and> check_perm n cred PERM_R \<and> v_nodes fs1 = v_nodes fs \<and>
      v_usage fs1 = v_usage fs \<and> same_limits fs fs1 \<and>
      vfs_write fs1 cred now dst (n_data n) cp = (rc, fs')) \<or>
    (rc \<noteq> VFS_OK \<and> v_nodes fs' = v_nodes fs \<and> v_usage fs' = v_usage fs \<and> same_limits fs fs')"
proof (cases "\<exists>p i. vfs_normalize VFS_PATH_MAX src = Inr p \<and> find_node fs p = Some i \<and>
    n_type (v_nodes fs ! i) = VFS_FILE \<and> check_perm (v_nodes fs ! i) cred PERM_R")
  case False
  then have "rc \<noteq> VFS_OK \<and> fs' = fs"
    using run vfs_type.exhaust
    by (auto simp: vfs_copy_def vfs_normalize_max Let_def split: if_splits option.splits)
  then show ?thesis by simp
next
  case True
  then obtain p i where pi: "vfs_normalize VFS_PATH_MAX src = Inr p" "find_node fs p = Some i"
    "n_type (v_nodes fs ! i) = VFS_FILE" "check_perm (v_nodes fs ! i) cred PERM_R" by blast
  let ?n = "v_nodes fs ! i"
  have l: "fs_lookup fs p = Some ?n" using find_node_SomeD [OF pi(2)] by simp
  have sz: "unat (n_size ?n) = length (n_data ?n)"
    using vfs_inv_nodeD(3) [OF inv l] by (simp add: node_ok_def unat_of_nat)
  obtain ok fs1 where a: "(if n_size ?n > 0 then vfs_alloc fs else (True, fs)) = (ok, fs1)" by fastforce
  then have f1: "v_nodes fs1 = v_nodes fs" "v_usage fs1 = v_usage fs" "same_limits fs fs1"
    using vfs_alloc_cases [of fs ok fs1] by (auto split: if_splits)
  have "(rc, fs') = (if \<not> ok then (VFS_ENOMEM, fs1) else vfs_write fs1 cred now dst (n_data ?n) cp)"
    using run pi a sz by (auto simp: vfs_copy_def Let_def)
  with pi l f1 show ?thesis by (auto split: if_splits)
qed

lemma vfs_copy_inv:
  assumes inv: "vfs_inv fs" and run: "vfs_copy fs cred now src dst cp = (rc, fs')"
  shows "vfs_inv fs' \<and> same_limits fs fs'"
  using vfs_copy_cases [OF assms]
proof (elim disjE exE conjE)
  fix p n fs1
  assume n: "fs_lookup fs p = Some n" and f1: "v_nodes fs1 = v_nodes fs" "v_usage fs1 = v_usage fs"
    "same_limits fs fs1" and w: "vfs_write fs1 cred now dst (n_data n) cp = (rc, fs')"
  have "vfs_inv fs1" using inv f1 by (simp add: vfs_inv_def)
  moreover have "length (n_data n) < 2 ^ 64" using vfs_inv_nodeD(3) [OF inv n] by (simp add: node_ok_def)
  ultimately show ?thesis using vfs_write_spec [OF _ _ w] f1(3) same_limits_trans by blast
qed (use inv in \<open>simp add: vfs_inv_def\<close>)

end
