(* ===== verification/VfsState.thy ===== *)
theory VfsState
  imports VfsRename
begin

text \<open>
  The filesystem as a state machine. A request is one call of the mutating interface of
  \<open>vfs.h\<close>; \<open>vfs_exec\<close> runs it and \<open>vfs_reach\<close> collects the states that sequences of requests
  reach from \<open>vfs_new\<close>, whatever the credentials, clocks and allocation outcomes, as long as
  no rename answers \<open>VFS_ENOMEM\<close>: a rename that runs out of memory half way is a transition of the
  code that \<open>vfs_reach\<close> leaves out, because it can leave a broken tree (\<open>rename_torn\<close>).
  \<open>vfs_run\<close> runs a list of requests, such renames included, and gives the answer of each.
  The bytes stored are measured apart from the counter the code keeps.
\<close>

section \<open>Requests\<close>

datatype vfs_req =
    Write vfs_cred int string "byte list" bool
  | Mkdir vfs_cred int string bool
  | Delete vfs_cred string
  | DeleteRec vfs_cred string
  | Rename vfs_cred int string string
  | Copy vfs_cred int string string bool
  | Chmod vfs_cred int string u32

primrec vfs_exec :: "vfs \<Rightarrow> vfs_req \<Rightarrow> vfs_rc \<times> vfs" where
  "vfs_exec fs (Write cred now path data cp) = vfs_write fs cred now path data cp"
| "vfs_exec fs (Mkdir cred now path cp) = vfs_mkdir fs cred now path cp"
| "vfs_exec fs (Delete cred path) = vfs_delete fs cred path"
| "vfs_exec fs (DeleteRec cred path) = vfs_delete_recursive fs cred path"
| "vfs_exec fs (Rename cred now old new) = vfs_rename fs cred now old new"
| "vfs_exec fs (Copy cred now src dst cp) = vfs_copy fs cred now src dst cp"
| "vfs_exec fs (Chmod cred now path mode) = vfs_chmod fs cred now path mode"

text \<open>A buffer of \<open>lim\<close> bytes or more does not occur.\<close>

fun req_fits :: "nat \<Rightarrow> vfs_req \<Rightarrow> bool" where
  "req_fits lim (Write cred now path data cp) \<longleftrightarrow> length data < lim"
| "req_fits lim _ \<longleftrightarrow> True"

fun torn :: "vfs_req \<Rightarrow> vfs_rc \<Rightarrow> bool" where
  "torn (Rename cred now old new) rc \<longleftrightarrow> rc = VFS_ENOMEM"
| "torn _ rc \<longleftrightarrow> False"

inductive vfs_reach :: "vfs_opts option \<Rightarrow> nat \<Rightarrow> vfs \<Rightarrow> bool" for opts lim where
  reach_new: "vfs_new opts mem = Some fs \<Longrightarrow> vfs_reach opts lim fs"
| reach_step: "vfs_reach opts lim fs \<Longrightarrow> req_fits lim r \<Longrightarrow> vfs_exec fs r = (rc, fs') \<Longrightarrow>
    \<not> torn r rc \<Longrightarrow> vfs_reach opts lim fs'"

inductive_cases vfs_reach_cases: "vfs_reach opts lim fs"

text \<open>A list of requests, one after the other, with the answers.\<close>

fun vfs_run :: "vfs \<Rightarrow> vfs_req list \<Rightarrow> vfs_rc list \<times> vfs" where
  "vfs_run fs [] = ([], fs)"
| "vfs_run fs (r # rs) = (case vfs_exec fs r of (rc, fs') \<Rightarrow> case vfs_run fs' rs of (rcs, fs'') \<Rightarrow> (rc # rcs, fs''))"

lemma run_reach:
  assumes "vfs_reach opts lim fs0" "vfs_run fs0 rs = (rcs, fs)" "\<forall>r\<in>set rs. req_fits lim r"
    "\<forall>cred now old new. (Rename cred now old new, VFS_ENOMEM) \<notin> set (zip rs rcs)"
  shows "vfs_reach opts lim fs"
  using assms
proof (induction rs arbitrary: fs0 rcs)
  case (Cons r rs)
  obtain rc fs1 rcs' where st: "vfs_exec fs0 r = (rc, fs1)" "vfs_run fs1 rs = (rcs', fs)" "rcs = rc # rcs'"
    using Cons.prems(2) by (auto split: prod.splits)
  have "\<not> torn r rc" using Cons.prems(4) st(3) by (cases r) auto
  then have "vfs_reach opts lim fs1" using reach_step [OF Cons.prems(1) _ st(1)] Cons.prems(3) by simp
  from Cons.IH [OF this st(2)] Cons.prems(3,4) st(3) show ?case by simp
qed simp

section \<open>The invariant\<close>

lemma vfs_new_fields:
  assumes "vfs_new opts mem = Some fs"
  shows "v_nodes fs = [] \<and> v_usage fs = 0 \<and>
    v_quota fs = (case opts of None \<Rightarrow> 0 | Some op \<Rightarrow> o_quota op)"
proof -
  have "\<And>f ok f'. vfs_alloc f = (ok, f') \<Longrightarrow> v_nodes f' = v_nodes f \<and> v_usage f' = v_usage f \<and> v_quota f' = v_quota f"
    using vfs_alloc_cases by (fastforce simp: same_limits_def)
  then show ?thesis
    using assms by (fastforce simp: vfs_new_def Let_def split: prod.splits if_splits option.splits)
qed

lemma vfs_new_inv: "vfs_new opts mem = Some fs \<Longrightarrow> vfs_inv fs"
  using vfs_new_fields [of opts mem fs]
  by (auto simp: vfs_inv_def nodes_distinct_def nodes_total_def tree_ok_def nodes_lookup_def)

lemma vfs_exec_inv:
  assumes "vfs_inv fs" "req_fits (2 ^ 64) r" "vfs_exec fs r = (rc, fs')" "\<not> torn r rc"
  shows "vfs_inv fs' \<and> same_limits fs fs'"
proof (cases r)
  case (Write cred now path data cp)
  with assms vfs_write_spec [OF assms(1)] show ?thesis by auto
next
  case (Mkdir cred now path cp)
  with assms vfs_mkdir_spec [OF assms(1)] show ?thesis by auto
next
  case (Delete cred path)
  with assms vfs_delete_spec [OF assms(1)] show ?thesis by auto
next
  case (DeleteRec cred path)
  with assms vfs_delete_recursive_spec [OF assms(1)] show ?thesis by auto
next
  case (Rename cred now old new)
  with assms vfs_rename_spec [OF assms(1)] show ?thesis by auto
next
  case (Copy cred now src dst cp)
  with assms vfs_copy_inv [OF assms(1)] show ?thesis by auto
next
  case (Chmod cred now path mode)
  with assms vfs_chmod_spec [OF assms(1)] show ?thesis by auto
qed

lemma reach_inv:
  assumes "vfs_reach opts lim fs" "lim \<le> 2 ^ 64"
  shows "vfs_inv fs \<and> v_quota fs = (case opts of None \<Rightarrow> 0 | Some op \<Rightarrow> o_quota op)"
  using assms(1)
proof induction
  case (reach_new mem fs)
  then show ?case using vfs_new_inv vfs_new_fields by blast
next
  case (reach_step fs r rc fs')
  have "req_fits (2 ^ 64) r" using reach_step.hyps(2) assms(2) by (cases r) auto
  with reach_step vfs_exec_inv [of fs r rc fs'] show ?case by (simp add: same_limits_def)
qed

section \<open>Stored bytes\<close>

definition node_bytes :: "vfs_node \<Rightarrow> nat" where
  "node_bytes n = (if n_type n = VFS_FILE then length (n_data n) else 0)"

definition opt_bytes :: "vfs_node option \<Rightarrow> nat" where
  "opt_bytes m = (case m of None \<Rightarrow> 0 | Some n \<Rightarrow> node_bytes n)"

definition stored_bytes :: "vfs \<Rightarrow> nat" where
  "stored_bytes fs = sum_list (map node_bytes (v_nodes fs))"

text \<open>The same sum over the table of paths.\<close>

definition table_bytes :: "(string \<Rightarrow> vfs_node option) \<Rightarrow> nat" where
  "table_bytes M = (\<Sum>p\<in>dom M. opt_bytes (M p))"

lemma opt_bytes_simps [simp]: "opt_bytes None = 0" "opt_bytes (Some n) = node_bytes n"
  by (simp_all add: opt_bytes_def)

lemma dom_lookup: "dom (fs_lookup fs) = n_path ` set (v_nodes fs)"
  by (rule set_eqI) (simp add: domIff nodes_lookup_None del: image_iff)

lemma finite_dom_lookup [simp]: "finite (dom (fs_lookup fs))"
  by (simp add: dom_lookup)

lemma stored_table:
  assumes "vfs_inv fs"
  shows "stored_bytes fs = table_bytes (fs_lookup fs)"
proof -
  have d: "distinct (map n_path (v_nodes fs))" using assms by (simp add: vfs_inv_def nodes_distinct_def)
  have "opt_bytes (fs_lookup fs (n_path n)) = node_bytes n" if "n \<in> set (v_nodes fs)" for n
    using that nodes_lookup_iff [of "v_nodes fs" "n_path n" n] assms by (simp add: vfs_inv_def)
  then have "map node_bytes (v_nodes fs) = map (\<lambda>p. opt_bytes (fs_lookup fs p)) (map n_path (v_nodes fs))"
    by simp
  then have "stored_bytes fs = sum_list (map (\<lambda>p. opt_bytes (fs_lookup fs p)) (map n_path (v_nodes fs)))"
    by (simp only: stored_bytes_def)
  also have "\<dots> = (\<Sum>p\<in>set (map n_path (v_nodes fs)). opt_bytes (fs_lookup fs p))"
    using d by (rule sum_list_distinct_conv_sum_set)
  finally show ?thesis by (simp add: table_bytes_def dom_lookup)
qed

text \<open>The sum may be taken over any finite set that covers the table.\<close>

lemma table_bytes_cover: "finite A \<Longrightarrow> dom M \<subseteq> A \<Longrightarrow> table_bytes M = (\<Sum>p\<in>A. opt_bytes (M p))"
  unfolding table_bytes_def by (rule sum.mono_neutral_left) (auto simp: opt_bytes_def split: option.splits)

lemma table_bytes_upd:
  assumes "finite (dom M)"
  shows "table_bytes (M(p := m)) + opt_bytes (M p) = table_bytes M + opt_bytes m"
proof -
  let ?A = "insert p (dom M)"
  have "table_bytes (M(p := m)) = (\<Sum>q\<in>?A. opt_bytes ((M(p := m)) q))"
    using assms by (intro table_bytes_cover) auto
  also have "\<dots> = opt_bytes m + (\<Sum>q\<in>dom M - {p}. opt_bytes (M q))"
    using assms by (subst sum.insert_remove) auto
  finally have "table_bytes (M(p := m)) = opt_bytes m + (\<Sum>q\<in>dom M - {p}. opt_bytes (M q))" .
  moreover have "table_bytes M = (\<Sum>q\<in>?A. opt_bytes (M q))"
    using assms by (intro table_bytes_cover) auto
  then have "table_bytes M = opt_bytes (M p) + (\<Sum>q\<in>dom M - {p}. opt_bytes (M q))"
    using assms by (subst (asm) sum.insert_remove) auto
  ultimately show ?thesis by simp
qed

lemma table_bytes_mono:
  assumes "finite (dom M)" "\<And>p. opt_bytes (M' p) \<le> opt_bytes (M p)" "finite (dom M')"
  shows "table_bytes M' \<le> table_bytes M"
proof -
  have "table_bytes N = (\<Sum>p\<in>dom M \<union> dom M'. opt_bytes (N p))" if "N \<in> {M, M'}" for N
    using that assms by (intro table_bytes_cover) auto
  then show ?thesis using assms(2) by (simp add: sum_mono)
qed

lemma parents_added_bytes:
  assumes "parents_added cred now cs fs fs'"
  shows "table_bytes (fs_lookup fs') = table_bytes (fs_lookup fs)"
proof -
  have same: "opt_bytes (fs_lookup fs' q) = opt_bytes (fs_lookup fs q)" for q
    using assms by (auto simp: parents_added_def node_bytes_def dest: spec [of _ q])
  have "table_bytes (fs_lookup fs') \<le> table_bytes (fs_lookup fs)"
    by (rule table_bytes_mono) (simp_all add: same)
  moreover have "table_bytes (fs_lookup fs) \<le> table_bytes (fs_lookup fs')"
    by (rule table_bytes_mono) (simp_all add: same)
  ultimately show ?thesis by simp
qed

lemma moved_bytes:
  assumes mv: "moved M M' onorm nnorm now" and fin: "finite (dom M)" "finite (dom M')"
  shows "table_bytes M' \<le> table_bytes M"
proof -
  let ?r = "reloc onorm nnorm"
  have ex: "\<exists>p\<in>dom M. ?r p = q \<and> opt_bytes (M' q) = opt_bytes (M p)" if q: "q \<in> dom M'" for q
  proof -
    from q obtain n' where n': "M' q = Some n'" by blast
    then obtain p n where "M p = Some n" "q = ?r p" "n' = move_node onorm nnorm now n"
      using mv by (auto simp: moved_def)
    with n' show ?thesis by (intro bexI [of _ p]) (auto simp: node_bytes_def)
  qed
  then obtain g where g: "\<And>q. q \<in> dom M' \<Longrightarrow> g q \<in> dom M \<and> ?r (g q) = q \<and> opt_bytes (M' q) = opt_bytes (M (g q))"
    by metis
  have "inj_on g (dom M')" by (rule inj_onI) (metis g)
  then have "table_bytes M' = (\<Sum>p\<in>g ` dom M'. opt_bytes (M p))"
    unfolding table_bytes_def by (subst sum.reindex) (auto simp: g)
  also have "\<dots> \<le> table_bytes M"
    unfolding table_bytes_def by (rule sum_mono2) (use fin g in auto)
  finally show ?thesis .
qed

lemma sum_list_of_nat: "sum_list (map (of_nat \<circ> f) xs) = of_nat (sum_list (map f xs))"
  by (induction xs) auto

text \<open>The counter is exact while the stored bytes fit in it.\<close>

lemma usage_exact:
  assumes "vfs_inv fs"
  shows "v_usage fs = of_nat (stored_bytes fs)"
proof -
  have "file_size n = of_nat (node_bytes n)" if "n \<in> set (v_nodes fs)" for n
  proof -
    have "fs_lookup fs (n_path n) = Some n" using that assms by (simp add: vfs_inv_def nodes_lookup_iff)
    then have "node_ok n" using vfs_inv_nodeD(3) [OF assms] by blast
    then show ?thesis by (simp add: node_ok_def file_size_def node_bytes_def)
  qed
  then have m: "map file_size (v_nodes fs) = map (of_nat \<circ> node_bytes) (v_nodes fs)" by simp
  have "nodes_total (v_nodes fs) = of_nat (stored_bytes fs)"
    unfolding nodes_total_def stored_bytes_def m by (rule sum_list_of_nat)
  with assms show ?thesis by (simp add: vfs_inv_def)
qed

text \<open>What the quota check of a write has established when the write succeeds.\<close>

lemma vfs_write_checked:
  assumes "vfs_inv fs" "vfs_write fs cred now path data cp = (VFS_OK, fs')"
  shows "\<exists>p. vfs_normalize VFS_PATH_MAX path = Inr p \<and>
    (v_quota fs > 0 \<longrightarrow> v_usage fs - of_nat (opt_bytes (fs_lookup fs p)) + of_nat (length data) \<le> v_quota fs)"
proof (cases "vfs_normalize VFS_PATH_MAX path")
  case (Inl e)
  then have "e = VFS_EBADPATH" by (auto simp: vfs_normalize_max split: if_splits)
  with Inl assms(2) show ?thesis by (simp add: vfs_write_def)
next
  case (Inr p)
  let ?old = "case find_node fs p of None \<Rightarrow> 0 | Some i \<Rightarrow> n_size (v_nodes fs ! i)"
  have q: "\<not> (v_quota fs > 0 \<and> v_usage fs - ?old + of_nat (length data) > v_quota fs)"
    and f: "\<And>i. find_node fs p = Some i \<Longrightarrow> n_type (v_nodes fs ! i) \<noteq> VFS_DIR"
    using assms(2) Inr by (auto simp: vfs_write_def Let_def split: if_splits)
  have "?old = of_nat (opt_bytes (fs_lookup fs p))"
  proof (cases "find_node fs p")
    case None
    then have "fs_lookup fs p = None" by (simp add: find_node_None)
    with None show ?thesis by simp
  next
    case (Some i)
    have l: "fs_lookup fs p = Some (v_nodes fs ! i)" using find_node_SomeD [OF Some] by simp
    have "n_type (v_nodes fs ! i) = VFS_FILE" using f [OF Some] by (auto intro: vfs_type.exhaust)
    with vfs_inv_nodeD(3) [OF assms(1) l] l Some show ?thesis by (simp add: node_ok_def node_bytes_def)
  qed
  with q Inr show ?thesis by (auto simp: not_less)
qed

lemma opt_bytes_le_table: "finite (dom M) \<Longrightarrow> opt_bytes (M p) \<le> table_bytes M"
  using table_bytes_upd [of M p None] by simp

lemma vfs_write_bytes:
  assumes inv: "vfs_inv fs" and len: "unat (v_quota fs) + length data < 2 ^ 64"
    and run: "vfs_write fs cred now path data cp = (rc, fs')"
    and le: "0 < v_quota fs" "stored_bytes fs \<le> unat (v_quota fs)"
  shows "stored_bytes fs' \<le> unat (v_quota fs)"
proof -
  have "length data < 2 ^ 64" using len by simp
  note spec = vfs_write_spec [OF inv this run]
  then have inv': "vfs_inv fs'" by blast
  note st = stored_table [OF inv] stored_table [OF inv']
  show ?thesis
  proof (cases "rc = VFS_OK")
    case False
    with spec parents_added_bytes st le show ?thesis by metis
  next
    case True
    with spec obtain cs fs1 where cs: "vfs_normalize VFS_PATH_MAX path = Inr (join_path cs)"
      "list_all comp_normal cs" "parents_added cred now cs fs fs1"
      and l': "fs_lookup fs' = (fs_lookup fs1)(join_path cs \<mapsto> write_result fs cred now (join_path cs) data)"
      by blast
    let ?p = "join_path cs"
    define old where "old = opt_bytes (fs_lookup fs ?p)"
    have o1: "opt_bytes (fs_lookup fs1 ?p) = old"
      using parents_added_self [OF cs(3,2)] by (simp add: old_def)
    have w: "node_bytes (write_result fs cred now ?p data) \<le> length data"
      by (simp add: node_bytes_def write_result_def split: option.splits)
    have sum: "stored_bytes fs' + old \<le> stored_bytes fs + length data"
      using table_bytes_upd [of "fs_lookup fs1" ?p "Some (write_result fs cred now ?p data)"]
        parents_added_bytes [OF cs(3)] st l' o1 w by simp
    have oldle: "old \<le> stored_bytes fs" unfolding st(1) old_def by (rule opt_bytes_le_table) simp
    have "v_usage fs - of_nat old + of_nat (length data) \<le> v_quota fs"
      using vfs_write_checked [OF inv, of cred now path data cp fs'] run True cs(1) le(1)
      by (auto simp: old_def)
    moreover have "of_nat (stored_bytes fs - old + length data)
        = v_usage fs - of_nat old + of_nat (length data)"
      using oldle by (simp add: usage_exact [OF inv] of_nat_diff algebra_simps)
    ultimately have "unat (of_nat (stored_bytes fs - old + length data) :: u64) \<le> unat (v_quota fs)"
      by (simp add: word_le_nat_alt)
    moreover have "stored_bytes fs - old + length data < 2 ^ LENGTH(64)" using len le(2) by simp
    ultimately have "stored_bytes fs - old + length data \<le> unat (v_quota fs)"
      by (simp only: unat_of_nat mod_less)
    with sum oldle show ?thesis by linarith
  qed
qed

lemma vfs_exec_bytes:
  assumes inv: "vfs_inv fs" and fits: "req_fits (2 ^ 63) r" and run: "vfs_exec fs r = (rc, fs')"
    and ok: "\<not> torn r rc" and q: "0 < v_quota fs" "unat (v_quota fs) < 2 ^ 63"
    and le: "stored_bytes fs \<le> unat (v_quota fs)"
  shows "stored_bytes fs' \<le> unat (v_quota fs)"
proof -
  have "req_fits (2 ^ 64) r" using fits by (cases r) auto
  then have inv': "vfs_inv fs'" using vfs_exec_inv [OF inv _ run ok] by blast
  note st = stored_table [OF inv] stored_table [OF inv']
  have shrink: ?thesis if "table_bytes (fs_lookup fs') \<le> table_bytes (fs_lookup fs)"
    using that st le by simp
  note fin = finite_dom_lookup [of fs] finite_dom_lookup [of fs']
  show ?thesis
  proof (cases r)
    case (Write cred now path data cp)
    then have "vfs_write fs cred now path data cp = (rc, fs')" using run by simp
    moreover have "unat (v_quota fs) + length data < 2 ^ 64" using fits q Write by simp
    ultimately show ?thesis using vfs_write_bytes [OF inv] q le by blast
  next
    case (Mkdir cred now path cp)
    then have "opt_bytes (fs_lookup fs' p) \<le> opt_bytes (fs_lookup fs p)" for p
      using vfs_mkdir_spec [OF inv, of cred now path cp rc fs'] run
      by (cases "fs_lookup fs p"; cases "fs_lookup fs' p") (force simp: node_bytes_def new_node_simps(2))+
    then show ?thesis by (intro shrink table_bytes_mono fin)
  next
    case (Delete cred path)
    with vfs_delete_spec [OF inv, of cred path rc fs'] run
    have "opt_bytes (fs_lookup fs' p) \<le> opt_bytes (fs_lookup fs p)" for p
      by (cases "rc = VFS_OK") auto
    then show ?thesis by (intro shrink table_bytes_mono fin)
  next
    case (DeleteRec cred path)
    with vfs_delete_recursive_spec [OF inv, of cred path rc fs'] run
    have "opt_bytes (fs_lookup fs' p) \<le> opt_bytes (fs_lookup fs p)" for p
      by (cases "rc = VFS_OK") auto
    then show ?thesis by (intro shrink table_bytes_mono fin)
  next
    case (Rename cred now old new)
    show ?thesis
    proof (cases "fs' = fs")
      case False
      then obtain p q where mv: "moved ((fs_lookup fs)(q := None)) (fs_lookup fs') p q now"
        using vfs_rename_spec [OF inv, of cred now old new rc fs'] run ok Rename
        by (cases "rc = VFS_OK") auto
      have "table_bytes (fs_lookup fs') \<le> table_bytes ((fs_lookup fs)(q := None))"
        by (rule moved_bytes [OF mv]) simp_all
      also have "\<dots> \<le> table_bytes (fs_lookup fs)" by (rule table_bytes_mono) auto
      finally show ?thesis by (rule shrink)
    qed (use le in simp)
  next
    case (Copy cred now src dst cp)
    with run have "vfs_copy fs cred now src dst cp = (rc, fs')" by simp
    from vfs_copy_cases [OF inv this] show ?thesis
    proof (elim disjE exE conjE)
      fix p n fs1
      assume n: "fs_lookup fs p = Some n" "n_type n = VFS_FILE"
        and f1: "v_nodes fs1 = v_nodes fs" "v_usage fs1 = v_usage fs" "same_limits fs fs1"
        and w: "vfs_write fs1 cred now dst (n_data n) cp = (rc, fs')"
      have "length (n_data n) \<le> stored_bytes fs"
        using opt_bytes_le_table [of "fs_lookup fs" p] n st by (simp add: node_bytes_def)
      with q le f1 have "unat (v_quota fs1) + length (n_data n) < 2 ^ 64" by (simp add: same_limits_def)
      moreover have "vfs_inv fs1" "v_quota fs1 = v_quota fs" "stored_bytes fs1 = stored_bytes fs"
        using f1 inv by (simp_all add: vfs_inv_def same_limits_def stored_bytes_def)
      ultimately show ?thesis using vfs_write_bytes [OF _ _ w] q le by simp
    qed (use le in \<open>simp add: stored_bytes_def\<close>)
  next
    case (Chmod cred now path mode)
    with vfs_chmod_spec [OF inv, of cred now path mode rc fs'] run
    have "opt_bytes (fs_lookup fs' p) \<le> opt_bytes (fs_lookup fs p)" for p
      by (cases "rc = VFS_OK") (auto simp: node_bytes_def)
    then show ?thesis by (intro shrink table_bytes_mono fin)
  qed
qed

lemma reach_bytes:
  assumes "vfs_reach (Some op) (2 ^ 63) fs" "0 < o_quota op" "unat (o_quota op) < 2 ^ 63"
  shows "stored_bytes fs \<le> unat (o_quota op)"
  using assms(1)
proof induction
  case (reach_new mem fs)
  then show ?case using vfs_new_fields [of "Some op" mem fs] by (simp add: stored_bytes_def)
next
  case (reach_step fs r rc fs')
  have "vfs_inv fs" "v_quota fs = o_quota op" using reach_inv [OF reach_step.hyps(1)] by auto
  with reach_step assms(2,3) vfs_exec_bytes [of fs r rc fs'] show ?case by simp
qed

end
