(* ===== verification/VfsMatch.thy ===== *)
theory VfsMatch
  imports VfsPath
begin

text \<open>
  \<open>vfs_fnmatch\<close>, the glob matcher of \<open>vfs.c\<close>. The C function walks two terminated strings; a
  step past the terminator of the name is undefined behaviour, which the model returns as
  \<open>None\<close>. The specification side parses the pattern into tokens and says which names they match.
  Plain \<open>char\<close> is signed, as on the platforms the Makefile targets.
\<close>

definition to_lower :: "char \<Rightarrow> char" where
  "to_lower c = (if 65 \<le> ascii c \<and> ascii c \<le> 90 then char_of (ascii c + 32) else c)"

text \<open>The value of a plain \<open>char\<close>; the terminator of a string is 0.\<close>

definition schar :: "char \<Rightarrow> int" where
  "schar c = (let v = int (ascii c) in if v < 128 then v else v - 256)"

definition low_at :: "string \<Rightarrow> int" where
  "low_at s = (case s of [] \<Rightarrow> 0 | c # _ \<Rightarrow> schar (to_lower c))"

text \<open>
  The bracket loop: it returns whether some item matched and what is left of the pattern, which
  is empty or starts with the closing bracket.
\<close>

function class_loop :: "int \<Rightarrow> string \<Rightarrow> bool \<Rightarrow> bool \<times> string" where
  "class_loop c pat matched =
     (if pat = [] \<or> hd pat = CHR '']'' then (matched, pat)
      else let lo = schar (to_lower (hd pat)); pat1 = tl pat in
        if length pat1 \<ge> 2 \<and> hd pat1 = CHR ''-'' \<and> pat1 ! 1 \<noteq> CHR '']'' then
          let hi = schar (to_lower (pat1 ! 1))
          in class_loop c (drop 2 pat1) (if lo \<le> c \<and> c \<le> hi then True else matched)
        else class_loop c pat1 (if c = lo then True else matched))"
  by pat_completeness auto
termination
  by (relation "measure (\<lambda>(c, pat, m). length pat)") auto

declare class_loop.simps [simp del]

lemma class_loop_stop: "pat = [] \<or> hd pat = CHR '']'' \<Longrightarrow> class_loop c pat m = (m, pat)"
  by (subst class_loop.simps) simp

lemma class_loop_range:
  assumes "x \<noteq> CHR '']''" "y \<noteq> CHR '']''"
  shows "class_loop c (x # CHR ''-'' # y # p) m =
    class_loop c p (if schar (to_lower x) \<le> c \<and> c \<le> schar (to_lower y) then True else m)"
  using assms by (subst class_loop.simps) (simp add: Let_def)

lemma class_loop_single:
  assumes "x \<noteq> CHR '']''" "\<not> (length p \<ge> 2 \<and> hd p = CHR ''-'' \<and> p ! 1 \<noteq> CHR '']'')"
  shows "class_loop c (x # p) m = class_loop c p (if c = schar (to_lower x) then True else m)"
  using assms by (subst class_loop.simps) (auto simp: Let_def)

text \<open>How a bracket expression is read: it ends, or it opens with a range or a single character.\<close>

lemma class_pat_cases:
  obtains (stop) "pat = [] \<or> hd pat = CHR '']''"
  | (rng) x y p where "pat = x # CHR ''-'' # y # p" "x \<noteq> CHR '']''" "y \<noteq> CHR '']''"
  | (single) x p where "pat = x # p" "x \<noteq> CHR '']''"
      "\<not> (length p \<ge> 2 \<and> hd p = CHR ''-'' \<and> p ! 1 \<noteq> CHR '']'')"
proof (cases "pat = [] \<or> hd pat = CHR '']''")
  case False
  then obtain x p where p: "pat = x # p" "x \<noteq> CHR '']''" by (cases pat) auto
  show ?thesis
  proof (cases "length p \<ge> 2 \<and> hd p = CHR ''-'' \<and> p ! 1 \<noteq> CHR '']''")
    case True
    then obtain y q where "p = CHR ''-'' # y # q" "y \<noteq> CHR '']''"
      by (cases p; cases "tl p") auto
    then show ?thesis using p rng by blast
  qed (use p single in blast)
qed (use stop in blast)

lemma class_loop_rest: "snd (class_loop c pat m) = snd (class_loop d pat k)"
proof (induction "length pat" arbitrary: pat m k rule: less_induct)
  case less
  show ?case
  proof (cases pat rule: class_pat_cases)
    case stop
    then show ?thesis by (simp add: class_loop_stop)
  next
    case (rng x y p)
    then show ?thesis by (simp add: class_loop_range less del: if_split)
  next
    case (single x p)
    then show ?thesis by (simp add: class_loop_single less del: if_split)
  qed
qed

lemma class_loop_shorter: "length (snd (class_loop c pat m)) \<le> length pat"
proof (induction "length pat" arbitrary: pat m rule: less_induct)
  case less
  show ?case
  proof (cases pat rule: class_pat_cases)
    case stop
    then show ?thesis by (simp add: class_loop_stop)
  next
    case (rng x y p)
    then show ?thesis
      using less [of p] by (simp add: class_loop_range le_SucI del: if_split)
  next
    case (single x p)
    then show ?thesis
      using less [of p] by (simp add: class_loop_single le_SucI del: if_split)
  qed
qed

lemma drop_stars_shorter: "length (dropWhile ((=) CHR ''*'') p) \<le> length p"
  by (rule length_dropWhile_le)

text \<open>
  \<open>any_suffix f t\<close> is the loop \<open>for (t = name; *t; t++) if (f(t)) return 1; return 0\<close> for a test
  that may run past the end.
\<close>

fun any_suffix :: "(string \<Rightarrow> bool option) \<Rightarrow> string \<Rightarrow> bool option" where
  "any_suffix f [] = Some False"
| "any_suffix f (c # t) =
     (case f (c # t) of None \<Rightarrow> None | Some True \<Rightarrow> Some True | Some False \<Rightarrow> any_suffix f t)"

lemma any_suffix_cong [fundef_cong]:
  assumes "s = t" "\<And>x. length x \<le> length t \<Longrightarrow> f x = g x"
  shows "any_suffix f s = any_suffix g t"
proof -
  have "\<forall>x. length x \<le> length t \<longrightarrow> f x = g x \<Longrightarrow> any_suffix f t = any_suffix g t"
    by (induction t) (auto split: option.splits bool.splits)
  with assms show ?thesis by auto
qed

text \<open>The bracket clause up to \<open>name++\<close>: whether the class accepts, and the rest of the pattern.\<close>

definition class_step :: "string \<Rightarrow> string \<Rightarrow> bool \<times> string" where
  "class_step pat name =
     (let (negate, pat1) = (case pat of
             x # p \<Rightarrow> if x = CHR ''!'' \<or> x = CHR ''^'' then (True, p) else (False, pat)
           | [] \<Rightarrow> (False, pat));
          (matched, pat2) = class_loop (low_at name) pat1 False;
          pat3 = (case pat2 of x # p \<Rightarrow> if x = CHR '']'' then p else pat2 | [] \<Rightarrow> [])
      in (if negate then \<not> matched else matched, pat3))"

lemma class_step_shorter: "length (snd (class_step pat name)) \<le> length pat"
proof -
  obtain ng pat1 where p1: "(case pat of
             x # p \<Rightarrow> if x = CHR ''!'' \<or> x = CHR ''^'' then (True, p) else (False, pat)
           | [] \<Rightarrow> (False, pat)) = (ng, pat1)" by fastforce
  obtain m pat2 where p2: "class_loop (low_at name) pat1 False = (m, pat2)" by fastforce
  have "length pat1 \<le> length pat" using p1 by (auto split: list.splits if_splits)
  moreover have "length pat2 \<le> length pat1"
    using class_loop_shorter [of "low_at name" pat1 False] p2 by simp
  moreover have "length (snd (class_step pat name)) \<le> length pat2"
    by (simp add: class_step_def p1 p2 split: list.splits)
  ultimately show ?thesis by linarith
qed

text \<open>
  The whole matcher. A pattern character is never the terminator, so a literal does not match
  at the end of the name.
\<close>

function vfs_fnmatch :: "string \<Rightarrow> string \<Rightarrow> bool option" where
  "vfs_fnmatch [] name = Some (name = [])"
| "vfs_fnmatch (x # pat) name =
     (if x = CHR ''*'' then
        (let pat1 = dropWhile ((=) CHR ''*'') pat in
         if pat1 = [] then Some True
         else any_suffix (\<lambda>t. vfs_fnmatch pat1 t) name)
      else if x = CHR ''?'' then
        (if name = [] \<or> hd name = slash then Some False else vfs_fnmatch pat (tl name))
      else if x = CHR ''['' then
        (let (ok, pat3) = class_step pat name in
         if \<not> ok then Some False
         else if name = [] then None
         else vfs_fnmatch pat3 (tl name))
      else if name = [] \<or> to_lower x \<noteq> to_lower (hd name) then Some False
      else vfs_fnmatch pat (tl name))"
  by pat_completeness auto
termination
proof (relation "measure (\<lambda>(pat, name). length pat)", goal_cases)
  case (2 x pat name pat1 t)
  then show ?case using drop_stars_shorter [of pat] by simp
next
  case (4 x pat name p ok pat3)
  then have "snd (class_step pat name) = pat3" by (metis snd_conv)
  then show ?case using class_step_shorter [of pat name] by simp
qed auto

section \<open>Specification\<close>

datatype glob = Star | AnyChar | Class "int \<Rightarrow> bool" | Lit char

text \<open>The names a token list matches; a class or a literal consumes one character.\<close>

fun matches :: "glob list \<Rightarrow> string \<Rightarrow> bool" where
  "matches [] name \<longleftrightarrow> name = []"
| "matches (Star # g) name \<longleftrightarrow> (\<exists>i\<le>length name. matches g (drop i name))"
| "matches (AnyChar # g) (c # name) \<longleftrightarrow> c \<noteq> slash \<and> matches g name"
| "matches (Class P # g) (c # name) \<longleftrightarrow> P (schar (to_lower c)) \<and> matches g name"
| "matches (Lit x # g) (c # name) \<longleftrightarrow> to_lower x = to_lower c \<and> matches g name"
| "matches _ [] \<longleftrightarrow> False"

text \<open>The items of a bracket expression, as ranges of character values, and what follows them.\<close>

function class_items :: "string \<Rightarrow> (int \<times> int) list \<times> string" where
  "class_items [] = ([], [])"
| "class_items (x # p) =
     (if x = CHR '']'' then ([], p)
      else case p of
        d # y # q \<Rightarrow> (if d = CHR ''-'' \<and> y \<noteq> CHR '']''
          then apfst (Cons (schar (to_lower x), schar (to_lower y))) (class_items q)
          else apfst (Cons (schar (to_lower x), schar (to_lower x))) (class_items p))
      | _ \<Rightarrow> apfst (Cons (schar (to_lower x), schar (to_lower x))) (class_items p))"
  by pat_completeness auto
termination
  by (relation "measure length") auto

definition in_items :: "(int \<times> int) list \<Rightarrow> int \<Rightarrow> bool" where
  "in_items its c \<longleftrightarrow> (\<exists>(lo, hi) \<in> set its. lo \<le> c \<and> c \<le> hi)"

definition class_accepts :: "string \<Rightarrow> int \<Rightarrow> bool" where
  "class_accepts pat c =
     (if pat \<noteq> [] \<and> hd pat \<in> {CHR ''!'', CHR ''^''}
      then \<not> in_items (fst (class_items (tl pat))) c
      else in_items (fst (class_items pat)) c)"

definition class_rest :: "string \<Rightarrow> string" where
  "class_rest pat =
     (if pat \<noteq> [] \<and> hd pat \<in> {CHR ''!'', CHR ''^''} then snd (class_items (tl pat))
      else snd (class_items pat))"

definition skip_bracket :: "string \<Rightarrow> string" where
  "skip_bracket p = (case p of x # q \<Rightarrow> if x = CHR '']'' then q else p | [] \<Rightarrow> [])"

declare class_items.simps(2) [simp del]

lemma class_items_range:
  "x \<noteq> CHR '']'' \<Longrightarrow> y \<noteq> CHR '']'' \<Longrightarrow> class_items (x # CHR ''-'' # y # p) =
     apfst (Cons (schar (to_lower x), schar (to_lower y))) (class_items p)"
  by (simp add: class_items.simps(2))

lemma class_items_single:
  assumes "x \<noteq> CHR '']''" "\<not> (length p \<ge> 2 \<and> hd p = CHR ''-'' \<and> p ! 1 \<noteq> CHR '']'')"
  shows "class_items (x # p) =
     apfst (Cons (schar (to_lower x), schar (to_lower x))) (class_items p)"
  using assms by (subst class_items.simps(2)) (auto split: list.splits)

lemma in_items_simps [simp]:
  "in_items [] c = False"
  "in_items ((lo, hi) # its) c = (lo \<le> c \<and> c \<le> hi \<or> in_items its c)"
  by (auto simp: in_items_def)

lemma class_loop_items:
  "fst (class_loop c pat m) = (m \<or> in_items (fst (class_items pat)) c) \<and>
   skip_bracket (snd (class_loop c pat m)) = snd (class_items pat)"
proof (induction "length pat" arbitrary: pat m rule: less_induct)
  case less
  show ?case
  proof (cases pat rule: class_pat_cases)
    case stop
    then show ?thesis
      by (cases pat) (auto simp: class_loop_stop skip_bracket_def class_items.simps(2))
  next
    case (rng x y p)
    let ?k = "schar (to_lower x) \<le> c \<and> c \<le> schar (to_lower y) \<or> m"
    have "class_loop c pat m = class_loop c p ?k"
      using class_loop_range [OF rng(2,3), of c p m] rng(1)
      by (cases "schar (to_lower x) \<le> c"; cases "c \<le> schar (to_lower y)") simp_all
    then show ?thesis using less [of p ?k] rng by (auto simp: class_items_range)
  next
    case (single x p)
    let ?k = "c = schar (to_lower x) \<or> m"
    have "class_loop c pat m = class_loop c p ?k" using single by (simp add: class_loop_single)
    then show ?thesis using less [of p ?k] single by (auto simp: class_items_single)
  qed
qed

lemma class_finish:
  "(case class_loop c p False of (matched, pat2) \<Rightarrow>
      (if ng then \<not> matched else matched,
       case pat2 of [] \<Rightarrow> [] | x # p \<Rightarrow> if x = CHR '']'' then p else pat2)) =
    (in_items (fst (class_items p)) c \<noteq> ng, snd (class_items p))"
  using class_loop_items [of c p False]
  by (cases "class_loop c p False") (auto simp: skip_bracket_def)

lemma class_step_eq: "class_step pat name = (class_accepts pat (low_at name), class_rest pat)"
  by (cases pat)
    (auto simp: class_step_def class_accepts_def class_rest_def Let_def
      class_finish [where ng = True, simplified] class_finish [where ng = False, simplified])

lemma class_rest_shorter: "length (class_rest pat) \<le> length pat"
  using class_step_shorter [of pat "[]"] by (simp add: class_step_eq)

function tokens :: "string \<Rightarrow> glob list" where
  "tokens [] = []"
| "tokens (x # pat) =
     (if x = CHR ''*'' then Star # tokens pat
      else if x = CHR ''?'' then AnyChar # tokens pat
      else if x = CHR ''['' then Class (class_accepts pat) # tokens (class_rest pat)
      else Lit x # tokens pat)"
  by pat_completeness auto
termination
  by (relation "measure length") (auto simp: le_imp_less_Suc class_rest_shorter)

lemma matches_Star_Star: "matches (Star # Star # g) name = matches (Star # g) name"
proof
  assume "matches (Star # Star # g) name"
  then obtain i j where "i \<le> length name" "j \<le> length (drop i name)"
    "matches g (drop j (drop i name))" by auto
  then show "matches (Star # g) name" by (auto intro!: exI [of _ "j + i"])
next
  assume "matches (Star # g) name"
  then show "matches (Star # Star # g) name" unfolding matches.simps(2) [of "Star # g"]
    by (intro exI [of _ 0]) (simp del: matches.simps)
qed

lemma matches_stars:
  "matches (Star # tokens p) name = matches (Star # tokens (dropWhile ((=) CHR ''*'') p)) name"
  by (induction p) (auto simp: matches_Star_Star simp del: matches.simps)

lemma matches_Star_Cons:
  "matches (Star # g) (c # name) \<longleftrightarrow> matches g (c # name) \<or> matches (Star # g) name"
proof
  assume "matches (Star # g) (c # name)"
  then obtain i where "i \<le> length (c # name)" "matches g (drop i (c # name))" by auto
  then show "matches g (c # name) \<or> matches (Star # g) name"
    by (cases i) auto
next
  assume "matches g (c # name) \<or> matches (Star # g) name"
  then show "matches (Star # g) (c # name)"
  proof
    assume "matches g (c # name)"
    then show ?thesis by (auto intro: exI [of _ 0])
  next
    assume "matches (Star # g) name"
    then obtain i where "i \<le> length name" "matches g (drop i name)" by auto
    then show ?thesis by (auto intro: exI [of _ "Suc i"])
  qed
qed

lemma tokens_no_empty_match:
  "p \<noteq> [] \<Longrightarrow> hd p \<noteq> CHR ''*'' \<Longrightarrow> \<not> matches (tokens p) []"
  by (cases p) auto

text \<open>A class is unsafe when it accepts the terminator of the name.\<close>

fun safe_token :: "glob \<Rightarrow> bool" where
  "safe_token (Class P) \<longleftrightarrow> \<not> P 0"
| "safe_token _ \<longleftrightarrow> True"

lemma any_suffix_Some:
  assumes "any_suffix f name = Some b" "\<not> matches g []"
    "\<And>t b. length t \<le> length name \<Longrightarrow> f t = Some b \<Longrightarrow> b = matches g t"
  shows "b = matches (Star # g) name"
  using assms
proof (induction name)
  case Nil
  then show ?case by simp
next
  case (Cons c name)
  note step = matches_Star_Cons [of g c name] Cons.prems(3) [of "c # name"]
  show ?case
  proof (cases "f (c # name)")
    case None
    then show ?thesis using Cons.prems(1) by simp
  next
    case (Some r)
    then show ?thesis using Cons step
      by (cases r) (auto simp del: matches.simps(2))
  qed
qed

lemma any_suffix_total:
  "(\<And>t. length t \<le> length name \<Longrightarrow> f t \<noteq> None) \<Longrightarrow> any_suffix f name \<noteq> None"
  by (induction name) (auto split: option.splits bool.splits)

lemma schar_inj: "schar c = schar d \<longleftrightarrow> c = d"
proof
  have b: "int (ascii e) < 256" for e :: char using nat_of_char_less_256 [of e] by (simp add: ascii_def)
  assume "schar c = schar d"
  then have "int (ascii c) = int (ascii d)"
    using b [of c] b [of d] by (simp add: schar_def Let_def split: if_splits)
  then show "c = d" by (simp add: ascii_def)
qed simp

lemma fnmatch_sound: "vfs_fnmatch p n = Some b \<Longrightarrow> b = matches (tokens p) n"
proof (induction p n arbitrary: b rule: vfs_fnmatch.induct)
  case (1 name)
  then show ?case by simp
next
  case (2 x pat name)
  let ?p1 = "dropWhile ((=) CHR ''*'') pat"
  consider "x = CHR ''*''" | "x = CHR ''?''" | "x = CHR ''[''"
    | "x \<notin> {CHR ''*'', CHR ''?'', CHR ''[''}" by blast
  then show ?case
  proof cases
    case 1
    show ?thesis
    proof (cases "?p1 = []")
      case True
      then have "matches (Star # tokens pat) name"
        unfolding matches_stars [of pat name] True by (auto intro: exI [of _ "length name"])
      with 1 2 True show ?thesis by simp
    next
      case False
      then have "hd ?p1 \<noteq> CHR ''*''" using hd_dropWhile [of "(=) CHR ''*''" pat] by auto
      then have "b = matches (Star # tokens ?p1) name"
        using 1 2 False tokens_no_empty_match [of ?p1]
        by (intro any_suffix_Some [of "vfs_fnmatch ?p1"]) (auto simp: Let_def split: if_splits)
      with 1 show ?thesis using matches_stars [of pat name] by simp
    qed
  next
    case 2
    then show ?thesis using "2.prems" "2.IH"(2) by (cases name) (auto split: if_splits)
  next
    case 3
    then show ?thesis using "2.prems" "2.IH"(3) [OF _ _ _ refl, of "class_accepts pat (low_at name)" "class_rest pat"]
      by (cases name) (auto simp: class_step_eq low_at_def split: if_splits)
  next
    case 4
    then show ?thesis using "2.prems" "2.IH"(4)
      by (cases name) (auto simp: low_at_def schar_inj split: if_splits)
  qed
qed

lemma safe_tokens_stars:
  "\<forall>g \<in> set (tokens p). safe_token g \<Longrightarrow> \<forall>g \<in> set (tokens (dropWhile ((=) CHR ''*'') p)). safe_token g"
  by (induction p) (auto split: if_splits)

lemma fnmatch_total:
  "\<forall>g \<in> set (tokens p). safe_token g \<Longrightarrow> vfs_fnmatch p n \<noteq> None"
proof (induction p n rule: vfs_fnmatch.induct)
  case (1 name)
  then show ?case by simp
next
  case (2 x pat name)
  let ?p1 = "dropWhile ((=) CHR ''*'') pat"
  consider "x = CHR ''*''" | "x = CHR ''?''" | "x = CHR ''[''"
    | "x \<notin> {CHR ''*'', CHR ''?'', CHR ''[''}" by blast
  then show ?case
  proof cases
    case 1
    then have safe: "\<forall>g \<in> set (tokens ?p1). safe_token g"
      using "2.prems" by (intro safe_tokens_stars) simp
    have "?p1 \<noteq> [] \<Longrightarrow> any_suffix (vfs_fnmatch ?p1) name \<noteq> None"
      using "2.IH"(1) [OF 1 refl _ _ safe] by (intro any_suffix_total) auto
    with 1 show ?thesis by (auto simp: Let_def)
  next
    case 2
    then show ?thesis using "2.prems" "2.IH"(2) by auto
  next
    case 3
    then show ?thesis using "2.prems" "2.IH"(3) [OF _ _ _ refl, of "class_accepts pat (low_at name)" "class_rest pat"]
      by (cases name) (auto simp: class_step_eq low_at_def)
  next
    case 4
    then show ?thesis using "2.prems" "2.IH"(4) by auto
  qed
qed

end
