(* ===== verification/VfsProps.thy ===== *)
theory VfsProps
  imports VfsState VfsMatch
begin

unbundle bit_operations_syntax

text \<open>
  The properties of the filesystem of \<open>vfs.c\<close>: path normalisation, the invariant and the quota
  over all reachable states, the functional behaviour of every operation seen through lookups
  and reads, the glob matcher, and the two defects the model exposes.
\<close>

section \<open>Reading through the table\<close>

lemma vfs_read_lookup:
  "vfs_read fs cred path =
     (case vfs_normalize VFS_PATH_MAX path of Inl rc \<Rightarrow> Inl rc
      | Inr p \<Rightarrow> (case fs_lookup fs p of None \<Rightarrow> Inl VFS_ENOTFOUND
          | Some n \<Rightarrow> if n_type n = VFS_DIR then Inl VFS_EISDIR
              else if \<not> check_perm n cred PERM_R then Inl VFS_EPERM else Inr (n_data n, n_size n)))"
proof (cases "vfs_normalize VFS_PATH_MAX path")
  case (Inr p)
  then show ?thesis
    using find_node_None [of fs p] find_node_SomeD [of fs p]
    by (cases "find_node fs p") (auto simp: vfs_read_def Let_def)
qed (simp add: vfs_read_def)

text \<open>Collecting the entries a listing reports.\<close>

definition collect :: "vfs_stat \<Rightarrow> vfs_stat list \<Rightarrow> int \<times> vfs_stat list" where
  "collect st acc = (0, acc @ [st])"

lemma list_loop_collect:
  "list_loop collect norm ns acc =
     (0, acc @ map fill_stat (filter (\<lambda>n. is_child norm (n_path n)) ns))"
  by (induction ns arbitrary: acc) (auto simp: collect_def)

lemma is_child_parent:
  assumes "path_ok p" "normal_path d"
  shows "is_child d p \<longleftrightarrow> parent_of p = d"
proof -
  from assms(2) obtain ds where ds: "list_all comp_normal ds" "d = join_path ds"
    by (auto simp: normal_path_def)
  from assms(1) obtain cs c where cs: "list_all comp_normal (cs @ [c])" "p = join_path (cs @ [c])"
    "parent_of p = join_path cs" by (auto elim: path_okE)
  have c: "c \<noteq> []" "slash \<notin> set c" using cs(1) by (auto simp: comp_normal_def)
  have par: "parent_of p = d \<longleftrightarrow> cs = ds"
    using cs ds join_path_inj [of cs ds] by auto
  show ?thesis
  proof (cases "ds = []")
    case True
    then have d: "d = root_path" using ds by (simp add: join_path_def)
    have p: "p = concat (map ((#) slash) cs) @ slash # c" using cs(2) by (simp add: join_path_def)
    show ?thesis
    proof (cases cs)
      case Nil
      then show ?thesis using p c True par by (cases c) (simp_all add: is_child_def d)
    next
      case (Cons e es)
      then have "slash \<in> set (tl p)" using p by simp
      with Cons True par show ?thesis by (simp add: is_child_def d)
    qed
  next
    case False
    have "d \<noteq> root_path" using False ds by simp
    then have "is_child d p \<longleftrightarrow> (\<exists>r. p = d @ slash # r \<and> slash \<notin> set r)"
      using under_iff [of d p] by (auto simp: is_child_def under_def split: if_splits)
    also have "\<dots> \<longleftrightarrow> cs = ds"
    proof
      assume "\<exists>r. p = d @ slash # r \<and> slash \<notin> set r"
      then obtain r where r: "p = d @ slash # r" "slash \<notin> set r" by blast
      have "under d p" using r under_iff by blast
      then obtain es where es: "es \<noteq> []" "cs @ [c] = ds @ es"
        using under_join [OF ds(1) cs(1) False] ds(2) cs(2) by auto
      have "p = d @ concat (map ((#) slash) es)" using es cs(2) ds(2) False by (simp add: join_path_def)
      then have "slash # r = concat (map ((#) slash) es)" using r by simp
      then have "length es = 1" using r(2) es(1) by (cases es; cases "tl es") auto
      then obtain e where "es = [e]" by (auto simp: length_Suc_conv)
      with es show "cs = ds" by simp
    next
      assume "cs = ds"
      then have "p = d @ slash # c" using cs(2) ds(2) False by (simp add: join_path_def)
      with c show "\<exists>r. p = d @ slash # r \<and> slash \<notin> set r" by blast
    qed
    finally show ?thesis using par by simp
  qed
qed

section \<open>Paths\<close>

lemma hd_join_path [simp]: "hd (join_path cs) = slash"
  by (cases cs) (simp_all add: join_path_def)

text \<open>
  C1. \<open>vfs_normalize\<close> accepts exactly the absolute paths shorter than \<open>VFS_PATH_MAX\<close> whose
  canonical form fits the buffer, and returns that form: the components of the path with empty and
  \<open>.\<close> components dropped and \<open>..\<close> removing the component before it (or nothing at the root),
  joined by single slashes. Everything else is \<open>VFS_EBADPATH\<close>.
\<close>

theorem normalize_correct:
  "vfs_normalize bufsz path =
     (let q = join_path (resolve_parts (components path)) in
      if path \<noteq> [] \<and> hd path = slash \<and> length path < VFS_PATH_MAX \<and> length q < bufsz
      then Inr q else Inl VFS_EBADPATH)
   \<and> list_all comp_normal (resolve_parts (components path))"
  using resolve_parts_normal [of path] by (auto simp: vfs_normalize_eq Let_def)

text \<open>
  A normalised path is a fixed point of normalisation and fits the buffer it was written to.
\<close>

theorem normalize_idempotent:
  assumes "vfs_normalize bufsz path = Inr q"
  shows "vfs_normalize bufsz q = Inr q \<and> length q < bufsz \<and> length q \<le> length path"
proof -
  let ?cs = "resolve_parts (components path)"
  have q: "q = join_path ?cs" "path \<noteq> []" "hd path = slash" "length path < VFS_PATH_MAX" "length q < bufsz"
    using assms by (auto simp: vfs_normalize_eq Let_def split: if_splits)
  have "length q \<le> length path" using length_resolve_le [of path] q by (cases path) auto
  with q resolve_parts_normal [of path] show ?thesis by (simp add: vfs_normalize_eq Let_def)
qed

theorem normalize_idempotent_witness:
  "vfs_normalize 64 ''/a/./b//../c'' = Inr ''/a/c'' \<and> vfs_normalize 64 ''/a/c'' = Inr ''/a/c''"
proof -
  have "vfs_normalize 64 ''/a/./b//../c'' = Inr ''/a/c''"
    by code_simp
  with normalize_idempotent [OF this] show ?thesis by simp
qed

text \<open>
  The \<open>parts\<close> array of \<open>vfs_normalize\<close> never overflows: after any prefix of the path has been
  read it holds at most \<open>VFS_PATH_MAX / 2\<close> components, the size it is declared with.
\<close>

theorem normalize_parts_bound:
  assumes "length path < VFS_PATH_MAX"
  shows "length (normalize_loop (take k (tl path)) []) \<le> VFS_PATH_MAX div 2"
  using assms normalize_loop_depth [of "take k (tl path)"] by (auto simp: VFS_PATH_MAX_def)

theorem normalize_parts_bound_witness:
  "length (normalize_loop (take 3 (tl ''/a/b/c'')) []) \<le> VFS_PATH_MAX div 2"
  by (rule normalize_parts_bound) (simp add: VFS_PATH_MAX_def)

section \<open>Reachable states\<close>

text \<open>
  C4. A sequence of calls of the mutating interface, started from \<open>vfs_new\<close>, in which no rename answers
  \<open>VFS_ENOMEM\<close> leaves the node array a filesystem tree: no path occurs twice, every path is
  canonical with legal components, every parent is the root or a directory, the mode bits are
  within \<open>0777\<close>, each size is the length of the contents, directories have none, and \<open>usage\<close> is
  the sum of the file sizes. The other calls may fail in any way, with \<open>VFS_ENOMEM\<close> too. A rename
  that runs out of memory has to be excluded, because it may stop half way (\<open>rename_torn\<close>). A buffer that is
  written is shorter than \<open>2^64\<close>, which any \<open>size_t\<close> is.
\<close>

theorem reachable_invariant:
  assumes "vfs_new opts mem = Some fs0" "vfs_run fs0 rs = (rcs, fs)" "\<forall>r\<in>set rs. req_fits (2 ^ 64) r"
    and "\<forall>cred now old new. (Rename cred now old new, VFS_ENOMEM) \<notin> set (zip rs rcs)"
  shows "nodes_distinct (v_nodes fs) \<and> v_usage fs = nodes_total (v_nodes fs) \<and>
    (\<forall>n\<in>set (v_nodes fs). path_ok (n_path n) \<and> node_ok n \<and> dir_at (fs_lookup fs) (parent_of (n_path n)))"
proof -
  have inv: "vfs_inv fs" using reach_inv [OF run_reach [OF reach_new [OF assms(1)] assms(2-4)]] by simp
  have "fs_lookup fs (n_path n) = Some n" if "n \<in> set (v_nodes fs)" for n
    using that inv by (simp add: vfs_inv_def nodes_lookup_iff)
  then have "path_ok (n_path n) \<and> node_ok n \<and> dir_at (fs_lookup fs) (parent_of (n_path n))"
    if "n \<in> set (v_nodes fs)" for n using that vfs_inv_nodeD [OF inv] by blast
  with inv show ?thesis by (simp add: vfs_inv_def)
qed

text \<open>A small filesystem for the examples: a directory with one file.\<close>

definition root_cred :: vfs_cred where
  "root_cred = \<lparr>uid = 0, is_admin = True, is_group = True\<rparr>"

definition demo_opts :: vfs_opts where
  "demo_opts = \<lparr>o_quota = 16, o_umask = 0\<rparr>"

definition demo0 :: vfs where
  "demo0 = \<lparr>v_nodes = [], v_cap = 64, v_usage = 0, v_quota = 16, v_umask = 0, v_mem = []\<rparr>"

definition demo1 :: vfs where
  "demo1 = snd (vfs_write demo0 root_cred 7 ''/d/f'' [1, 2, 3] True)"

lemma demo0_new: "vfs_new (Some demo_opts) [] = Some demo0"
  by code_simp

lemma demo1_run: "vfs_write demo0 root_cred 7 ''/d/f'' [1, 2, 3] True = (VFS_OK, demo1)"
proof (rule prod_eqI)
  show "fst (vfs_write demo0 root_cred 7 ''/d/f'' [1, 2, 3] True) = fst (VFS_OK, demo1)"
    by (simp only: fst_conv) code_simp
qed (simp add: demo1_def)

lemma demo1_reach:
  assumes "3 < lim"
  shows "vfs_reach (Some demo_opts) lim demo1"
proof (rule reach_step [OF reach_new [OF demo0_new]])
  show "vfs_exec demo0 (Write root_cred 7 ''/d/f'' [1, 2, 3] True) = (VFS_OK, demo1)"
    using demo1_run by simp
qed (use assms in simp_all)

lemma demo_inv: "vfs_inv demo0" "vfs_inv demo1"
  using reach_inv [OF reach_new [OF demo0_new], of "2 ^ 64"] reach_inv [OF demo1_reach, of "2 ^ 64"] by simp_all

definition demo_requests :: "vfs_req list" where
  "demo_requests = [Write root_cred 7 ''/d/f'' [1, 2, 3] True, Rename root_cred 8 ''/d'' ''/e'', Rename root_cred 9 ''/e'' ''/e/g'']"

theorem reachable_invariant_witness:
  "case vfs_run demo0 demo_requests of (rcs, fs) \<Rightarrow> rcs = [VFS_OK, VFS_OK, VFS_EBADPATH] \<and>
     map n_path (v_nodes fs) = [''/e'', ''/e/f''] \<and> nodes_distinct (v_nodes fs) \<and> v_usage fs = nodes_total (v_nodes fs)"
proof -
  obtain rcs fs where run: "vfs_run demo0 demo_requests = (rcs, fs)" by fastforce
  have "fst (vfs_run demo0 demo_requests) = [VFS_OK, VFS_OK, VFS_EBADPATH]"
    "map n_path (v_nodes (snd (vfs_run demo0 demo_requests))) = [''/e'', ''/e/f'']" by code_simp+
  then have v: "rcs = [VFS_OK, VFS_OK, VFS_EBADPATH]" "map n_path (v_nodes fs) = [''/e'', ''/e/f'']" using run by simp_all
  have "\<forall>r\<in>set demo_requests. req_fits (2 ^ 64) r"
    "\<forall>cred now old new. (Rename cred now old new, VFS_ENOMEM) \<notin> set (zip demo_requests rcs)"
    by (simp_all add: demo_requests_def v)
  from reachable_invariant [OF demo0_new run this] v show ?thesis unfolding run by simp
qed

text \<open>
  C5. A filesystem made with a quota never stores more bytes than the quota, and its usage
  counter is the number of bytes stored, as long as the quota and every buffer written are smaller
  than \<open>2^63\<close>, so that the sums of the check do not wrap.
\<close>

theorem quota_respected:
  assumes "vfs_reach (Some op) (2 ^ 63) fs" "0 < o_quota op" "unat (o_quota op) < 2 ^ 63"
  shows "stored_bytes fs \<le> unat (o_quota op) \<and> unat (vfs_usage fs) = stored_bytes fs"
proof -
  have le: "stored_bytes fs \<le> unat (o_quota op)" using assms by (rule reach_bytes)
  have "vfs_inv fs" using reach_inv [OF assms(1)] by simp
  then have "unat (vfs_usage fs) = stored_bytes fs mod 2 ^ 64"
    by (simp add: vfs_usage_def usage_exact unat_of_nat)
  with le assms(3) show ?thesis by simp
qed

theorem quota_respected_witness:
  "stored_bytes demo1 = 3 \<and> stored_bytes demo1 \<le> unat (o_quota demo_opts)"
proof -
  have "stored_bytes demo1 = 3" by code_simp
  with quota_respected [OF demo1_reach] show ?thesis by (simp add: demo_opts_def)
qed

section \<open>Operations\<close>

text \<open>The node a successful write leaves is a file with the data written.\<close>

lemma write_result_file:
  assumes "vfs_write fs cred now path data cp = (VFS_OK, fs')" "vfs_normalize VFS_PATH_MAX path = Inr p"
  shows "n_type (write_result fs cred now p data) \<noteq> VFS_DIR"
proof -
  have "n_type (v_nodes fs ! i) \<noteq> VFS_DIR" if "find_node fs p = Some i" for i
    using assms that by (auto simp: vfs_write_def Let_def split: if_splits)
  then show ?thesis
    using find_node_None [of fs p] find_node_SomeD [of fs p]
    by (cases "find_node fs p") (auto simp: write_result_def)
qed

lemma write_result_data [simp]:
  "n_data (write_result fs cred now p data) = data"
  "n_size (write_result fs cred now p data) = of_nat (length data)"
  by (simp_all add: write_result_def split: option.splits)

text \<open>
  C6. What is written is what is read: after a successful \<open>vfs_write\<close> an administrator reads back
  exactly the data and its length, under any spelling of the path.
\<close>

theorem write_read_roundtrip:
  assumes "vfs_inv fs" "length data < 2 ^ 64" "vfs_write fs cred now path data cp = (VFS_OK, fs')"
    and "is_admin reader" "vfs_normalize VFS_PATH_MAX alias = vfs_normalize VFS_PATH_MAX path"
  shows "vfs_read fs' reader alias = Inr (data, of_nat (length data))"
proof -
  from vfs_write_spec [OF assms(1-3)] obtain cs fs1 where
    cs: "vfs_normalize VFS_PATH_MAX path = Inr (join_path cs)"
    and l: "fs_lookup fs' (join_path cs) = Some (write_result fs cred now (join_path cs) data)"
    by (metis fun_upd_same)
  with cs write_result_file [OF assms(3) cs] assms(4,5) show ?thesis
    by (simp add: vfs_read_lookup check_perm_def)
qed

theorem write_read_roundtrip_witness:
  "vfs_read demo1 root_cred ''/d/../d/f'' = Inr ([1, 2, 3], 3)"
proof -
  have "vfs_normalize VFS_PATH_MAX ''/d/../d/f'' = vfs_normalize VFS_PATH_MAX ''/d/f''" by code_simp
  with write_read_roundtrip [OF demo_inv(1) _ demo1_run, of root_cred "''/d/../d/f''"] show ?thesis
    by (simp add: root_cred_def)
qed

text \<open>
  C7. A write touches only its own path: whether it succeeds or fails, every other node that
  existed keeps its contents and attributes, so reads of it are unchanged; a failed write also
  leaves the node at the path and the usage as they were.
\<close>

theorem write_frame:
  assumes "vfs_inv fs" "length data < 2 ^ 64" "vfs_write fs cred now path data cp = (rc, fs')"
    and "fs_lookup fs q = Some n" "vfs_normalize VFS_PATH_MAX path \<noteq> Inr q \<or> rc \<noteq> VFS_OK"
  shows "fs_lookup fs' q = Some n \<and> (rc \<noteq> VFS_OK \<longrightarrow> vfs_usage fs' = vfs_usage fs)"
proof (cases "rc = VFS_OK")
  case True
  with vfs_write_spec [OF assms(1-3)] obtain cs fs1 where
    cs: "vfs_normalize VFS_PATH_MAX path = Inr (join_path cs)" "parents_added cred now cs fs fs1"
    and l: "fs_lookup fs' = (fs_lookup fs1)(join_path cs \<mapsto> write_result fs cred now (join_path cs) data)"
    by blast
  with parents_added_lookup [OF cs(2) assms(4)] assms(5) True show ?thesis by auto
next
  case False
  with vfs_write_spec [OF assms(1-3)] parents_added_lookup [OF _ assms(4)] show ?thesis
    by (auto simp: vfs_usage_def)
qed

theorem write_frame_witness:
  "\<exists>n fs'. fs_lookup demo1 ''/d/f'' = Some n \<and>
    vfs_write demo1 root_cred 8 ''/g'' [4] False = (VFS_OK, fs') \<and> fs_lookup fs' ''/d/f'' = Some n"
proof -
  define fs' where "fs' = snd (vfs_write demo1 root_cred 8 ''/g'' [4] False)"
  have "fst (vfs_write demo1 root_cred 8 ''/g'' [4] False) = VFS_OK" by code_simp
  then have run: "vfs_write demo1 root_cred 8 ''/g'' [4] False = (VFS_OK, fs')"
    by (simp add: fs'_def prod_eq_iff)
  have "fs_lookup demo1 ''/d/f'' \<noteq> None" by code_simp
  then obtain n where n: "fs_lookup demo1 ''/d/f'' = Some n" by blast
  have "vfs_normalize VFS_PATH_MAX ''/g'' \<noteq> Inr ''/d/f''" by code_simp
  with write_frame [OF demo_inv(2) _ run n] n run show ?thesis by simp
qed

text \<open>
  \<open>vfs_mkdir\<close> leaves a directory at the path when it succeeds; on every branch the existing
  nodes and the usage stay as they were, and what appears is only empty directories owned by the
  caller.
\<close>

theorem mkdir_correct:
  assumes "vfs_inv fs" "vfs_mkdir fs cred now path cp = (rc, fs')"
  shows "(rc = VFS_OK \<longrightarrow> (\<exists>p. vfs_normalize VFS_PATH_MAX path = Inr p \<and> dir_at (fs_lookup fs') p)) \<and>
    vfs_usage fs' = vfs_usage fs \<and> (\<forall>q n. fs_lookup fs q = Some n \<longrightarrow> fs_lookup fs' q = Some n) \<and>
    (\<forall>q n. fs_lookup fs q = None \<longrightarrow> fs_lookup fs' q = Some n \<longrightarrow>
       n_type n = VFS_DIR \<and> n_data n = [] \<and> n_owner n = uid cred)"
proof -
  note spec = vfs_mkdir_spec [OF assms]
  have "n_type n = VFS_DIR \<and> n_data n = [] \<and> n_owner n = uid cred"
    if "fs_lookup fs q = None" "fs_lookup fs' q = Some n" for q n
  proof -
    have "n = new_node q VFS_DIR (VFS_MODE_DIR_DEFAULT AND NOT (v_umask fs)) (uid cred) now"
      using spec that by blast
    then show ?thesis by (simp add: new_node_def)
  qed
  with spec show ?thesis unfolding vfs_usage_def by blast
qed

theorem mkdir_correct_witness:
  "\<exists>fs'. vfs_mkdir demo1 root_cred 8 ''/a/b'' True = (VFS_OK, fs') \<and> dir_at (fs_lookup fs') ''/a/b''"
proof -
  define fs' where "fs' = snd (vfs_mkdir demo1 root_cred 8 ''/a/b'' True)"
  have "fst (vfs_mkdir demo1 root_cred 8 ''/a/b'' True) = VFS_OK" by code_simp
  then have run: "vfs_mkdir demo1 root_cred 8 ''/a/b'' True = (VFS_OK, fs')"
    by (simp add: fs'_def prod_eq_iff)
  have "vfs_normalize VFS_PATH_MAX ''/a/b'' = Inr ''/a/b''" by code_simp
  with mkdir_correct [OF demo_inv(2) run] run show ?thesis by auto
qed

text \<open>
  C9. \<open>vfs_delete_recursive\<close> removes exactly the subtree of its path when it succeeds, whatever
  order the swap with the last node leaves the array in, and changes nothing when it fails. The
  result is again a consistent tree.
\<close>

theorem delete_recursive_correct:
  assumes "vfs_inv fs" "vfs_delete_recursive fs cred path = (rc, fs')"
  shows "vfs_inv fs' \<and> (rc \<noteq> VFS_OK \<longrightarrow> fs' = fs) \<and>
    (rc = VFS_OK \<longrightarrow> (\<exists>p. vfs_normalize VFS_PATH_MAX path = Inr p \<and>
       fs_lookup fs' = (\<lambda>q. if q = p \<or> under p q then None else fs_lookup fs q)))"
  using vfs_delete_recursive_spec [OF assms] unfolding subtree_def by blast

theorem delete_recursive_correct_witness:
  "\<exists>fs'. vfs_delete_recursive demo1 root_cred ''/d'' = (VFS_OK, fs') \<and>
    fs_lookup demo1 ''/d/f'' \<noteq> None \<and> fs_lookup fs' ''/d/f'' = None"
proof -
  define fs' where "fs' = snd (vfs_delete_recursive demo1 root_cred ''/d'')"
  have "fst (vfs_delete_recursive demo1 root_cred ''/d'') = VFS_OK" by code_simp
  then have run: "vfs_delete_recursive demo1 root_cred ''/d'' = (VFS_OK, fs')"
    by (simp add: fs'_def prod_eq_iff)
  have "vfs_normalize VFS_PATH_MAX ''/d'' = Inr ''/d''" by code_simp
  moreover have "under ''/d'' ''/d/f''" by (simp add: under_def)
  moreover have "fs_lookup demo1 ''/d/f'' \<noteq> None" by code_simp
  ultimately show ?thesis using delete_recursive_correct [OF demo_inv(2) run] run by auto
qed

text \<open>
  C10. \<open>vfs_rename\<close> moves whole subtrees. When it succeeds the result is a consistent tree in
  which every node at or below the source sits at the path with the source prefix replaced by the
  destination, with its contents, type, mode and owner kept; a destination node that could be
  replaced is gone and every other node is where it was. It fails without effect unless memory
  runs out.
\<close>

theorem rename_correct:
  assumes "vfs_inv fs" "vfs_rename fs cred now old new = (rc, fs')" "rc \<noteq> VFS_ENOMEM"
  shows "vfs_inv fs' \<and> vfs_quota fs' = vfs_quota fs \<and> (rc \<noteq> VFS_OK \<longrightarrow> fs' = fs) \<and>
    (rc = VFS_OK \<longrightarrow> (\<exists>p q. vfs_normalize VFS_PATH_MAX old = Inr p \<and>
       vfs_normalize VFS_PATH_MAX new = Inr q \<and>
       (p = q \<and> fs' = fs \<or> p \<noteq> q \<and>
        moved ((fs_lookup fs)(q := None)) (fs_lookup fs') p q now)))"
  using vfs_rename_spec [OF assms(1,2)] assms(3) by (auto simp: same_limits_def vfs_quota_def)

theorem rename_correct_witness:
  "\<exists>fs' n. vfs_rename demo1 root_cred 9 ''/d'' ''/e'' = (VFS_OK, fs') \<and>
    fs_lookup fs' ''/e/f'' = Some n \<and> n_data n = [1, 2, 3] \<and> vfs_inv fs'"
proof -
  define fs' where "fs' = snd (vfs_rename demo1 root_cred 9 ''/d'' ''/e'')"
  have "fst (vfs_rename demo1 root_cred 9 ''/d'' ''/e'') = VFS_OK" by code_simp
  then have run: "vfs_rename demo1 root_cred 9 ''/d'' ''/e'' = (VFS_OK, fs')"
    by (simp add: fs'_def prod_eq_iff)
  have "map_option n_data (fs_lookup fs' ''/e/f'') = Some [1, 2, 3]" unfolding fs'_def by code_simp
  with rename_correct [OF demo_inv(2) run] run show ?thesis by auto
qed

text \<open>
  \<open>vfs_list\<close> on a directory the caller may read reports every child of the directory exactly
  once and nothing else: the entries are those nodes whose parent is the listed path.
\<close>

theorem list_correct:
  assumes "vfs_inv fs" "vfs_list fs cred path collect [] = (0, out)"
  shows "\<exists>p. vfs_normalize VFS_PATH_MAX path = Inr p \<and> dir_at (fs_lookup fs) p \<and>
    distinct (map st_path out) \<and>
    set out = {fill_stat n |n q. fs_lookup fs q = Some n \<and> parent_of q = p}"
proof (cases "vfs_normalize VFS_PATH_MAX path")
  case (Inl e)
  then have "e = VFS_EBADPATH" by (auto simp: vfs_normalize_max split: if_splits)
  with Inl assms(2) show ?thesis by (simp add: vfs_list_def)
next
  case (Inr p)
  have np: "normal_path p" using vfs_normalizeD [OF Inr] by (metis normal_path_def)
  have dp: "dir_at (fs_lookup fs) p"
    and out: "out = map fill_stat (filter (\<lambda>n. is_child p (n_path n)) (v_nodes fs))"
    using assms(2) Inr find_node_SomeD [of fs p]
    by (auto simp: vfs_list_def Let_def list_loop_collect dir_at_def split: if_splits option.splits)
  have sp: "map st_path (map fill_stat ns) = map n_path ns" for ns
    by (simp add: fill_stat_def comp_def)
  have "distinct (map n_path (filter P (v_nodes fs)))" for P
    using vfs_invD(1) [OF assms(1)] by (simp add: nodes_distinct_def distinct_map_filter)
  then have "distinct (map st_path out)" unfolding out sp .
  moreover have "n \<in> set (v_nodes fs) \<and> is_child p (n_path n) \<longleftrightarrow>
      (\<exists>q. fs_lookup fs q = Some n \<and> parent_of q = p)" for n
    using nodes_lookup_iff [OF vfs_invD(1) [OF assms(1)]] is_child_parent [OF _ np]
      vfs_inv_nodeD(2) [OF assms(1)] by (metis (no_types, lifting))
  then have "set out = {fill_stat n |n q. fs_lookup fs q = Some n \<and> parent_of q = p}"
    unfolding out by auto
  ultimately show ?thesis using Inr dp by blast
qed

theorem list_correct_witness:
  "\<exists>out. vfs_list demo1 root_cred ''/d'' collect [] = (0, out) \<and> map st_path out = [''/d/f''] \<and>
    distinct (map st_path out)"
proof -
  define out where "out = snd (vfs_list demo1 root_cred ''/d'' collect [])"
  have "fst (vfs_list demo1 root_cred ''/d'' collect []) = 0" by code_simp
  then have run: "vfs_list demo1 root_cred ''/d'' collect [] = (0, out)"
    by (simp add: out_def prod_eq_iff)
  have "map st_path out = [''/d/f'']" unfolding out_def by code_simp
  with list_correct [OF demo_inv(2) run] run show ?thesis by auto
qed

text \<open>
  After a successful \<open>vfs_copy\<close> an administrator reads at the destination what was stored at
  the source before the call.
\<close>

theorem copy_correct:
  assumes "vfs_inv fs" "vfs_copy fs cred now src dst cp = (VFS_OK, fs')" "is_admin reader"
  shows "vfs_read fs' reader dst = vfs_read fs reader src"
  using vfs_copy_cases [OF assms(1,2)]
proof (elim disjE exE conjE)
  fix p n fs1
  assume s: "vfs_normalize VFS_PATH_MAX src = Inr p" and n: "fs_lookup fs p = Some n" "n_type n = VFS_FILE"
    and f1: "v_nodes fs1 = v_nodes fs" "v_usage fs1 = v_usage fs"
    and w: "vfs_write fs1 cred now dst (n_data n) cp = (VFS_OK, fs')"
  have i1: "vfs_inv fs1" using assms(1) f1 by (simp add: vfs_inv_def)
  have ok: "length (n_data n) < 2 ^ 64" "n_size n = of_nat (length (n_data n))"
    using vfs_inv_nodeD(3) [OF assms(1) n(1)] by (simp_all add: node_ok_def)
  from vfs_write_spec [OF i1 ok(1) w] obtain cs fs2 where
    cs: "vfs_normalize VFS_PATH_MAX dst = Inr (join_path cs)"
    and l: "fs_lookup fs' (join_path cs) = Some (write_result fs1 cred now (join_path cs) (n_data n))"
    by (metis fun_upd_same)
  have "n_type (write_result fs1 cred now (join_path cs) (n_data n)) \<noteq> VFS_DIR"
    by (rule write_result_file [OF w cs])
  then show ?thesis using s n cs l ok assms(3)
    by (simp add: vfs_read_lookup check_perm_def write_result_data)
qed auto

theorem copy_correct_witness:
  "\<exists>fs'. vfs_copy demo1 root_cred 9 ''/d/f'' ''/g'' False = (VFS_OK, fs') \<and>
    vfs_read fs' root_cred ''/g'' = vfs_read demo1 root_cred ''/d/f''"
proof -
  define fs' where "fs' = snd (vfs_copy demo1 root_cred 9 ''/d/f'' ''/g'' False)"
  have "fst (vfs_copy demo1 root_cred 9 ''/d/f'' ''/g'' False) = VFS_OK" by code_simp
  then have run: "vfs_copy demo1 root_cred 9 ''/d/f'' ''/g'' False = (VFS_OK, fs')"
    by (simp add: fs'_def prod_eq_iff)
  have "is_admin root_cred" by (simp add: root_cred_def)
  with copy_correct [OF demo_inv(2) run] run show ?thesis by blast
qed

section \<open>Glob matching\<close>

text \<open>
  C13. \<open>vfs_fnmatch\<close> decides the glob language of its pattern: \<open>*\<close> is any string, \<open>?\<close> any
  character but the slash, a bracket class its characters and ranges or their complement, all
  else itself, letters without case. It answers for every pattern whose classes do not accept
  the terminator, and whenever it answers, the answer is right.
\<close>

theorem fnmatch_correct:
  "(vfs_fnmatch p n = Some b \<longrightarrow> b = matches (tokens p) n) \<and>
   ((\<forall>g\<in>set (tokens p). safe_token g) \<longrightarrow> vfs_fnmatch p n = Some (matches (tokens p) n))"
  using fnmatch_sound [of p n] fnmatch_total [of p n] by auto

theorem fnmatch_correct_witness:
  "vfs_fnmatch ''*.[CH]'' ''vfs.c'' = Some True \<and> matches (tokens ''*.[CH]'') ''vfs.c''"
proof -
  have "vfs_fnmatch ''*.[CH]'' ''vfs.c'' = Some True" by code_simp
  with fnmatch_correct [of "''*.[CH]''" "''vfs.c''" True] show ?thesis by simp
qed

text \<open>
  A negated class reads past the end of the name: the pattern \<open>[!a]\<close> accepts the terminator
  of an empty name and the matcher steps over it.
\<close>

theorem fnmatch_overrun: "vfs_fnmatch ''[!a]'' [] = None \<and> vfs_fnmatch ''b[^a]*'' ''b'' = None"
  by code_simp

section \<open>Rename without memory\<close>

text \<open>The tree of the next example: a directory with two files, and memory for one more path.\<close>

definition demo2 :: vfs where
  "demo2 = (snd (vfs_write demo1 root_cred 8 ''/d/g'' [] False))\<lparr>v_mem := [True, False]\<rparr>"

text \<open>
  A rename of a directory that runs out of memory half way has already moved some of the
  descendants: the tree is left with a file whose parent directory does not exist.
\<close>

theorem rename_torn:
  "case vfs_rename demo2 root_cred 9 ''/d'' ''/e'' of (rc, fs') \<Rightarrow>
     rc = VFS_ENOMEM \<and> map n_path (v_nodes fs') = [''/d'', ''/e/f'', ''/d/g''] \<and>
     \<not> dir_at (fs_lookup fs') (parent_of ''/e/f'')"
proof -
  let ?r = "vfs_rename demo2 root_cred 9 ''/d'' ''/e''"
  have 1: "fst ?r = VFS_ENOMEM" by code_simp
  have 2: "map n_path (v_nodes (snd ?r)) = [''/d'', ''/e/f'', ''/d/g'']" by code_simp
  have 3: "parent_of ''/e/f'' = ''/e''" by code_simp
  have "fs_lookup (snd ?r) ''/e'' = None"
  proof -
    have "n_path ` set (v_nodes (snd ?r)) = {''/d'', ''/e/f'', ''/d/g''}"
      using arg_cong [OF 2, of set] by simp
    then show ?thesis by (simp add: nodes_lookup_None)
  qed
  with 1 2 3 show ?thesis by (cases ?r) (simp add: dir_at_def)
qed

end
