(* ===== verification/Bytes.thy ===== *)
theory Bytes
  imports Prelude
begin

unbundle bit_operations_syntax

text \<open>
  Little-endian fields, as every on-disk format of the repository stores them: the helpers
  \<open>store_le16\<close>, \<open>store_le32\<close>, \<open>store_le64\<close> and their loads, which \<open>cas-tree.c\<close>, \<open>cas-omap.c\<close>,
  \<open>cas-pack.c\<close> and \<open>cas-sign.c\<close> each define. A store returns the bytes it writes; a load reads from
  the front of a byte list. Both directions are inverse to each other.
\<close>

section \<open>Definitions\<close>

definition store_le16 :: "u16 \<Rightarrow> byte list" where
  "store_le16 v = [ucast v, ucast (drop_bit 8 v)]"

definition load_le16 :: "byte list \<Rightarrow> u16" where
  "load_le16 p = ucast (p ! 0) OR push_bit 8 (ucast (p ! 1))"

definition store_le32 :: "u32 \<Rightarrow> byte list" where
  "store_le32 v = [ucast v, ucast (drop_bit 8 v), ucast (drop_bit 16 v), ucast (drop_bit 24 v)]"

definition load_le32 :: "byte list \<Rightarrow> u32" where
  "load_le32 p = ucast (p ! 0) OR push_bit 8 (ucast (p ! 1)) OR push_bit 16 (ucast (p ! 2))
     OR push_bit 24 (ucast (p ! 3))"

definition store_le64 :: "u64 \<Rightarrow> byte list" where
  "store_le64 v = map (\<lambda>i. ucast (drop_bit (i * 8) v)) [0..<8]"

definition load_le64 :: "byte list \<Rightarrow> u64" where
  "load_le64 p = foldl (\<lambda>v i. v OR push_bit (i * 8) (ucast (p ! i))) 0 [0..<8]"

section \<open>Round trips\<close>

lemma length_store_le [simp]:
  "length (store_le16 a) = 2" "length (store_le32 b) = 4" "length (store_le64 c) = 8"
  by (simp_all add: store_le16_def store_le32_def store_le64_def)

text \<open>
  Every load is a fold over its bytes, and its bits are the bits of the bytes in order. The three
  widths share this description.
\<close>

definition le_load :: "nat \<Rightarrow> byte list \<Rightarrow> 'a::len word" where
  "le_load k p = foldl (\<lambda>v i. v OR push_bit (i * 8) (ucast (p ! i))) 0 [0..<k]"

lemma bit_le_load:
  assumes "8 * k \<le> LENGTH('a)"
  shows "bit (le_load k p :: 'a::len word) n \<longleftrightarrow> n < 8 * k \<and> bit (p ! (n div 8)) (n mod 8)"
  using assms
proof (induction k)
  case 0
  then show ?case by (simp add: le_load_def)
next
  case (Suc k)
  have step: "le_load (Suc k) p = (le_load k p :: 'a word) OR push_bit (k * 8) (ucast (p ! k))"
    by (simp add: le_load_def)
  have byte: "bit (p ! k) m \<Longrightarrow> m < 8" for m
    using bit_imp_le_length [of "p ! k" m] by simp
  have last: "bit (push_bit (k * 8) (ucast (p ! k)) :: 'a word) n \<longleftrightarrow>
      8 * k \<le> n \<and> n < 8 * Suc k \<and> bit (p ! k) (n - 8 * k)"
    using Suc.prems by (auto simp: bit_simps mult.commute dest: byte)
  have pos: "n div 8 = k \<and> n mod 8 = n - 8 * k" if "8 * k \<le> n" "n < 8 * Suc k"
  proof -
    have "n div 8 = k" by (rule div_nat_eqI) (use that in simp_all)
    moreover have "n mod 8 = n - 8 * (n div 8)" by (simp add: minus_mult_div_eq_mod)
    ultimately show ?thesis by simp
  qed
  show ?case
  proof (cases "n < 8 * k")
    case True
    with Suc.IH Suc.prems last show ?thesis by (simp add: step bit_or_iff)
  next
    case False
    with Suc.IH Suc.prems last pos show ?thesis by (auto simp: step bit_or_iff)
  qed
qed

definition le_store :: "nat \<Rightarrow> 'a::len word \<Rightarrow> byte list" where
  "le_store k v = map (\<lambda>i. ucast (drop_bit (i * 8) v)) [0..<k]"

lemma length_le_store [simp]: "length (le_store k v) = k"
  by (simp add: le_store_def)

lemma le_load_store:
  assumes "8 * k = LENGTH('a)"
  shows "le_load k (le_store k (v :: 'a::len word) @ r) = v"
proof (rule bit_eqI)
  fix n
  assume "possible_bit TYPE('a word) n"
  then have n: "n < LENGTH('a)" by simp
  then have k: "n div 8 < k" using assms by (simp add: less_mult_imp_div_less mult.commute)
  then have "(le_store k v @ r) ! (n div 8) = ucast (drop_bit (n div 8 * 8) v)"
    by (simp add: nth_append le_store_def)
  with n assms show "bit (le_load k (le_store k v @ r) :: 'a word) n = bit v n"
    by (simp add: bit_le_load bit_simps)
qed

lemma le_store_load:
  assumes "8 * k = LENGTH('a)" "length p = k"
  shows "le_store k (le_load k p :: 'a::len word) = p"
proof (rule nth_equalityI)
  fix i
  assume i: "i < length (le_store k (le_load k p :: 'a word))"
  then have ik: "i < k" by simp
  show "le_store k (le_load k p :: 'a word) ! i = p ! i"
  proof (rule bit_eqI)
    fix n
    assume "possible_bit TYPE(byte) n"
    then have n8: "n < 8" by simp
    then have "n + i * 8 < 8 * k" using ik by simp
    moreover have "(n + i * 8) div 8 = i" "(n + i * 8) mod 8 = n" using n8 by simp_all
    ultimately show "bit (le_store k (le_load k p :: 'a word) ! i) n = bit (p ! i) n"
      using ik n8 assms by (simp add: le_store_def bit_le_load bit_simps add.commute)
  qed
qed (use assms in simp)

lemma upt8: "[0..<8] = [0, 1, 2, 3, 4, 5, 6, 7 :: nat]"
  by code_simp

lemma le_fields:
  "store_le16 = le_store 2" "store_le32 = le_store 4" "store_le64 = le_store 8"
  "load_le16 = le_load 2" "load_le32 = le_load 4" "load_le64 = le_load 8"
  by (auto simp: fun_eq_iff store_le16_def store_le32_def store_le64_def load_le16_def load_le32_def
      load_le64_def le_load_def le_store_def numeral_2_eq_2 numeral_eq_Suc or.assoc)

lemma load_store_le [simp]:
  "load_le16 (store_le16 a @ r) = a" "load_le32 (store_le32 b @ r) = b"
  "load_le64 (store_le64 c @ r) = c"
  by (simp_all add: le_fields le_load_store)

lemma load_store_le_whole [simp]:
  "load_le16 (store_le16 a) = a" "load_le32 (store_le32 b) = b" "load_le64 (store_le64 c) = c"
  using load_store_le [where r = "[]"] by simp_all

lemma store_load_le:
  "length p = 2 \<Longrightarrow> store_le16 (load_le16 p) = p" "length p = 4 \<Longrightarrow> store_le32 (load_le32 p) = p"
  "length p = 8 \<Longrightarrow> store_le64 (load_le64 p) = p"
  by (simp_all add: le_fields le_store_load)

section \<open>Segments of a buffer\<close>

text \<open>\<open>seg_at buf off s\<close>: the bytes \<open>s\<close> stand in \<open>buf\<close> from \<open>off\<close> on.\<close>

definition seg_at :: "'a list \<Rightarrow> nat \<Rightarrow> 'a list \<Rightarrow> bool" where
  "seg_at buf off s \<longleftrightarrow> off + length s \<le> length buf \<and> take (length s) (drop off buf) = s"

lemma seg_at_whole: "off = length a \<Longrightarrow> seg_at (a @ s @ b) off s"
  by (simp add: seg_at_def)

lemma seg_at_append:
  "seg_at buf off (a @ b) \<longleftrightarrow> seg_at buf off a \<and> seg_at buf (off + length a) b"
proof -
  have "take (length a + length b) (drop off buf) =
      take (length a) (drop off buf) @ take (length b) (drop (off + length a) buf)"
    by (simp add: take_add add.commute)
  moreover have "off + length a + length b \<le> length buf \<Longrightarrow> length (take (length a) (drop off buf)) = length a" by simp
  ultimately show ?thesis by (auto simp: seg_at_def append_eq_append_conv)
qed

lemma seg_at_concat:
  assumes "seg_at buf off (concat ss)" "i < length ss"
  shows "seg_at buf (off + sum_list (map length (take i ss))) (ss ! i)"
proof -
  have "concat ss = concat (take i ss) @ ss ! i @ concat (drop (Suc i) ss)"
    using assms(2) by (metis append_take_drop_id concat.simps(2) concat_append Cons_nth_drop_Suc)
  with assms(1) show ?thesis by (simp add: seg_at_append length_concat)
qed

lemma seg_at_concat_fixed:
  assumes "seg_at buf off (concat (map f xs))" "i < length xs" "\<And>x. x \<in> set xs \<Longrightarrow> length (f x) = k"
  shows "seg_at buf (off + k * i) (f (xs ! i))"
proof -
  have "map length (take i (map f xs)) = replicate i k"
    using assms(2,3) by (intro nth_equalityI) (auto simp: take_map)
  then have "sum_list (map length (take i (map f xs))) = k * i" by (simp add: sum_list_replicate)
  with seg_at_concat [OF assms(1), of i] assms(2) show ?thesis by simp
qed

end
