(* ===== verification/Blake2b.thy ===== *)
theory Blake2b
  imports Bytes
begin

unbundle bit_operations_syntax

text \<open>
  The BLAKE2b implementation of \<open>cas.c\<close>: its state with the block buffer, and \<open>blake2b_init\<close>,
  \<open>blake2b_update\<close> and \<open>blake2b_final\<close>. The specification side hashes a message given at once; the
  refinement says that feeding it in pieces gives the same digest, whatever the stale bytes of the
  buffer are.
\<close>

section \<open>The state and the constants\<close>

definition BLAKE2B_BLOCKLEN :: nat where
  "BLAKE2B_BLOCKLEN = 128"

record blake2b =
  b_h :: "u64 list"
  b_t :: "u64 \<times> u64"
  b_f :: "u64 \<times> u64"
  b_buf :: "byte list"
  b_buflen :: nat
  b_outlen :: nat

definition blake2b_iv :: "u64 list" where
  "blake2b_iv = [
     0x6a09e667f3bcc908, 0xbb67ae8584caa73b, 0x3c6ef372fe94f82b, 0xa54ff53a5f1d36f1,
     0x510e527fade682d1, 0x9b05688c2b3e6c1f, 0x1f83d9abfb41bd6b, 0x5be0cd19137e2179]"

definition blake2b_sigma :: "nat list list" where
  "blake2b_sigma = [
     [ 0,  1,  2,  3,  4,  5,  6,  7,  8,  9, 10, 11, 12, 13, 14, 15],
     [14, 10,  4,  8,  9, 15, 13,  6,  1, 12,  0,  2, 11,  7,  5,  3],
     [11,  8, 12,  0,  5,  2, 15, 13, 10, 14,  3,  6,  7,  1,  9,  4],
     [ 7,  9,  3,  1, 13, 12, 11, 14,  2,  6,  5, 10,  4,  0, 15,  8],
     [ 9,  0,  5,  7,  2,  4, 10, 15, 14,  1, 11, 12,  6,  8,  3, 13],
     [ 2, 12,  6, 10,  0, 11,  8,  3,  4, 13,  7,  5, 15, 14,  1,  9],
     [12,  5,  1, 15, 14, 13,  4, 10,  0,  7,  6,  3,  9,  2,  8, 11],
     [13, 11,  7, 14, 12,  1,  3,  9,  5,  0, 15,  4,  8,  6,  2, 10],
     [ 6, 15, 14,  9, 11,  3,  0,  8, 12,  2, 13,  7,  1,  4, 10,  5],
     [10,  2,  8,  4,  7,  6,  1,  5, 15, 11,  9, 14,  3, 12, 13,  0],
     [ 0,  1,  2,  3,  4,  5,  6,  7,  8,  9, 10, 11, 12, 13, 14, 15],
     [14, 10,  4,  8,  9, 15, 13,  6,  1, 12,  0,  2, 11,  7,  5,  3]]"

definition load64 :: "byte list \<Rightarrow> u64" where
  "load64 p = ucast (p ! 0) OR push_bit 8 (ucast (p ! 1)) OR push_bit 16 (ucast (p ! 2))
     OR push_bit 24 (ucast (p ! 3)) OR push_bit 32 (ucast (p ! 4)) OR push_bit 40 (ucast (p ! 5))
     OR push_bit 48 (ucast (p ! 6)) OR push_bit 56 (ucast (p ! 7))"

definition store64 :: "u64 \<Rightarrow> byte list" where
  "store64 w = [ucast w, ucast (drop_bit 8 w), ucast (drop_bit 16 w), ucast (drop_bit 24 w),
     ucast (drop_bit 32 w), ucast (drop_bit 40 w), ucast (drop_bit 48 w), ucast (drop_bit 56 w)]"

definition ROTR64 :: "u64 \<Rightarrow> nat \<Rightarrow> u64" where
  "ROTR64 x n = drop_bit n x OR push_bit (64 - n) x"

section \<open>Compression\<close>

definition blake2b_g :: "u64 list \<Rightarrow> nat \<Rightarrow> nat \<Rightarrow> nat \<Rightarrow> nat \<Rightarrow> u64 \<Rightarrow> u64 \<Rightarrow> u64 list" where
  "blake2b_g v0 a b c d x y =
     (let v1 = v0[a := v0 ! a + v0 ! b + x];
          v2 = v1[d := ROTR64 (v1 ! d XOR v1 ! a) 32];
          v3 = v2[c := v2 ! c + v2 ! d];
          v4 = v3[b := ROTR64 (v3 ! b XOR v3 ! c) 24];
          v5 = v4[a := v4 ! a + v4 ! b + y];
          v6 = v5[d := ROTR64 (v5 ! d XOR v5 ! a) 16];
          v7 = v6[c := v6 ! c + v6 ! d];
          v8 = v7[b := ROTR64 (v7 ! b XOR v7 ! c) 63]
      in v8)"

definition blake2b_round :: "u64 list \<Rightarrow> u64 list \<Rightarrow> nat list \<Rightarrow> u64 list" where
  "blake2b_round m v s =
     (let v = blake2b_g v 0 4 8 12 (m ! (s ! 0)) (m ! (s ! 1));
          v = blake2b_g v 1 5 9 13 (m ! (s ! 2)) (m ! (s ! 3));
          v = blake2b_g v 2 6 10 14 (m ! (s ! 4)) (m ! (s ! 5));
          v = blake2b_g v 3 7 11 15 (m ! (s ! 6)) (m ! (s ! 7));
          v = blake2b_g v 0 5 10 15 (m ! (s ! 8)) (m ! (s ! 9));
          v = blake2b_g v 1 6 11 12 (m ! (s ! 10)) (m ! (s ! 11));
          v = blake2b_g v 2 7 8 13 (m ! (s ! 12)) (m ! (s ! 13));
          v = blake2b_g v 3 4 9 14 (m ! (s ! 14)) (m ! (s ! 15))
      in v)"

definition blake2b_compress :: "blake2b \<Rightarrow> byte list \<Rightarrow> blake2b" where
  "blake2b_compress S block =
     (let m = map (\<lambda>i. load64 (drop (i * 8) block)) [0..<16];
          v0 = b_h S @ blake2b_iv;
          v1 = v0[12 := v0 ! 12 XOR fst (b_t S)];
          v2 = v1[13 := v1 ! 13 XOR snd (b_t S)];
          v3 = v2[14 := v2 ! 14 XOR fst (b_f S)];
          v4 = v3[15 := v3 ! 15 XOR snd (b_f S)];
          v = foldl (blake2b_round m) v4 blake2b_sigma
      in S\<lparr>b_h := map (\<lambda>i. b_h S ! i XOR (v ! i XOR v ! (i + 8))) [0..<8]\<rparr>)"

section \<open>Init, update, final\<close>

definition blake2b_init :: "nat \<Rightarrow> blake2b" where
  "blake2b_init outlen =
     \<lparr>b_h = blake2b_iv[0 := blake2b_iv ! 0 XOR (0x01010000 XOR of_nat outlen)], b_t = (0, 0),
      b_f = (0, 0), b_buf = replicate BLAKE2B_BLOCKLEN 0, b_buflen = 0, b_outlen = outlen\<rparr>"

text \<open>\<open>S->t[0] += n; S->t[1] += (S->t[0] < n)\<close>\<close>

definition count_bytes :: "blake2b \<Rightarrow> u64 \<Rightarrow> blake2b" where
  "count_bytes S n =
     (let t0 = fst (b_t S) + n in S\<lparr>b_t := (t0, snd (b_t S) + (if t0 < n then 1 else 0))\<rparr>)"

text \<open>\<open>memcpy(buf + off, src, len)\<close>\<close>

definition buf_copy :: "byte list \<Rightarrow> nat \<Rightarrow> byte list \<Rightarrow> byte list" where
  "buf_copy buf off src = take off buf @ src @ drop (off + length src) buf"

function update_blocks :: "blake2b \<Rightarrow> byte list \<Rightarrow> blake2b \<times> byte list" where
  "update_blocks S p =
     (if length p > BLAKE2B_BLOCKLEN
      then update_blocks (blake2b_compress (count_bytes S (of_nat BLAKE2B_BLOCKLEN)) (take BLAKE2B_BLOCKLEN p))
             (drop BLAKE2B_BLOCKLEN p)
      else (S, p))"
  by pat_completeness auto
termination
  by (relation "measure (\<lambda>(S, p). length p)") (auto simp: BLAKE2B_BLOCKLEN_def)

declare update_blocks.simps [simp del]

definition blake2b_update :: "blake2b \<Rightarrow> byte list \<Rightarrow> blake2b" where
  "blake2b_update S p =
     (if length p = 0 then S
      else
        let left = b_buflen S;
            fill = BLAKE2B_BLOCKLEN - left;
            (S3, p3) =
              (if length p > fill then
                 let S1 = S\<lparr>b_buf := buf_copy (b_buf S) left (take fill p)\<rparr>;
                     S1' = count_bytes S1 (of_nat BLAKE2B_BLOCKLEN);
                     S2 = blake2b_compress S1' (b_buf S1')
                 in update_blocks (S2\<lparr>b_buflen := 0\<rparr>) (drop fill p)
               else (S, p))
        in S3\<lparr>b_buf := buf_copy (b_buf S3) (b_buflen S3) p3, b_buflen := b_buflen S3 + length p3\<rparr>)"

definition blake2b_final :: "blake2b \<Rightarrow> byte list" where
  "blake2b_final S =
     (let S1 = count_bytes S (of_nat (b_buflen S));
          S2 = S1\<lparr>b_f := (NOT 0, snd (b_f S1))\<rparr>;
          S3 = S2\<lparr>b_buf := buf_copy (b_buf S2) (b_buflen S2)
                     (replicate (BLAKE2B_BLOCKLEN - b_buflen S2) 0)\<rparr>;
          S4 = blake2b_compress S3 (b_buf S3);
          tmp = concat (map (\<lambda>i. store64 (b_h S4 ! i)) [0..<8])
      in take (b_outlen S4) tmp)"

section \<open>Hashing a message at once\<close>

text \<open>
  The specification: all blocks but the last are absorbed in order; the last one, which is full
  when the length is a positive multiple of the block size, is padded and closes the hash.
\<close>

definition blake2b_block :: "byte list \<Rightarrow> blake2b \<Rightarrow> nat \<Rightarrow> blake2b" where
  "blake2b_block msg S i =
     blake2b_compress (count_bytes S (of_nat BLAKE2B_BLOCKLEN))
       (take BLAKE2B_BLOCKLEN (drop (i * BLAKE2B_BLOCKLEN) msg))"

definition blake2b_close :: "blake2b \<Rightarrow> byte list \<Rightarrow> byte list" where
  "blake2b_close S rest =
     (let S1 = count_bytes S (of_nat (length rest));
          S2 = blake2b_compress (S1\<lparr>b_f := (NOT 0, snd (b_f S1))\<rparr>)
                 (rest @ replicate (BLAKE2B_BLOCKLEN - length rest) 0)
      in take (b_outlen S2) (concat (map (\<lambda>i. store64 (b_h S2 ! i)) [0..<8])))"

definition blake2b_hash :: "nat \<Rightarrow> byte list \<Rightarrow> byte list" where
  "blake2b_hash outlen msg =
     (let n = (length msg - 1) div BLAKE2B_BLOCKLEN
      in blake2b_close (foldl (blake2b_block msg) (blake2b_init outlen) [0..<n])
           (drop (n * BLAKE2B_BLOCKLEN) msg))"

section \<open>The buffer is only a buffer\<close>

text \<open>The chaining state without the buffer, and the bytes waiting in it.\<close>

definition bare :: "blake2b \<Rightarrow> blake2b" where
  "bare S = S\<lparr>b_buf := [], b_buflen := 0\<rparr>"

definition pending :: "blake2b \<Rightarrow> byte list" where
  "pending S = take (b_buflen S) (b_buf S)"

definition blake2b_wf :: "blake2b \<Rightarrow> bool" where
  "blake2b_wf S \<longleftrightarrow> length (b_buf S) = BLAKE2B_BLOCKLEN \<and> b_buflen S \<le> BLAKE2B_BLOCKLEN"

lemma compress_fields [simp]:
  "b_buf (blake2b_compress S b) = b_buf S" "b_buflen (blake2b_compress S b) = b_buflen S"
  "b_outlen (blake2b_compress S b) = b_outlen S" "b_t (blake2b_compress S b) = b_t S"
  "b_f (blake2b_compress S b) = b_f S"
  "b_buf (count_bytes S n) = b_buf S" "b_buflen (count_bytes S n) = b_buflen S"
  "b_outlen (count_bytes S n) = b_outlen S"
  by (simp_all add: blake2b_compress_def count_bytes_def Let_def)

lemma bare_compress:
  "bare (blake2b_compress S b) = blake2b_compress (bare S) b"
  "bare (count_bytes S n) = count_bytes (bare S) n"
  "bare (S\<lparr>b_buf := x\<rparr>) = bare S" "bare (S\<lparr>b_buflen := k\<rparr>) = bare S"
  by (simp_all add: bare_def blake2b_compress_def count_bytes_def Let_def)

lemma compress_h_bare: "b_h (blake2b_compress S b) = b_h (blake2b_compress (bare S) b)"
  by (simp add: bare_def blake2b_compress_def Let_def)

lemma update_blocks_bare:
  "update_blocks S p = (S', r) \<Longrightarrow> update_blocks (bare S) p = (bare S', r) \<and>
     b_buf S' = b_buf S \<and> b_buflen S' = b_buflen S \<and> length r \<le> BLAKE2B_BLOCKLEN"
proof (induction S p rule: update_blocks.induct)
  case (1 S p)
  then show ?case
    using update_blocks.simps [of S p] update_blocks.simps [of "bare S" p]
    by (cases "length p > BLAKE2B_BLOCKLEN") (simp_all add: bare_compress)
qed

lemma update_blocks_append:
  "update_blocks S p = (S', r) \<Longrightarrow> update_blocks S (p @ q) = update_blocks S' (r @ q)"
proof (induction S p rule: update_blocks.induct)
  case (1 S p)
  then show ?case
    using update_blocks.simps [of S p] update_blocks.simps [of S "p @ q"]
    by (cases "length p > BLAKE2B_BLOCKLEN") auto
qed

text \<open>An update appends to the pending bytes and absorbs the blocks that are complete and not last.\<close>

lemma update_refines:
  assumes "blake2b_wf S"
  shows "blake2b_wf (blake2b_update S p) \<and>
    (bare (blake2b_update S p), pending (blake2b_update S p)) = update_blocks (bare S) (pending S @ p)"
proof -
  let ?fill = "BLAKE2B_BLOCKLEN - b_buflen S"
  have len: "length (pending S) = b_buflen S" "b_buflen S \<le> BLAKE2B_BLOCKLEN"
    using assms by (simp_all add: blake2b_wf_def pending_def)
  show ?thesis
  proof (cases "length p > ?fill")
    case False
    then have "\<not> b_buflen S + length p > BLAKE2B_BLOCKLEN" using len(2) by linarith
    then have "update_blocks (bare S) (pending S @ p) = (bare S, pending S @ p)"
      using len by (subst update_blocks.simps) simp
    with False assms show ?thesis
      by (auto simp: blake2b_update_def bare_def pending_def blake2b_wf_def buf_copy_def Let_def)
  next
    case True
    define B where "B = pending S @ take ?fill p"
    define S2 where "S2 = blake2b_compress (count_bytes (S\<lparr>b_buf := B\<rparr>) (of_nat BLAKE2B_BLOCKLEN)) B"
    have B: "buf_copy (b_buf S) (b_buflen S) (take ?fill p) = B" "length B = BLAKE2B_BLOCKLEN"
      using True assms len by (simp_all add: B_def buf_copy_def pending_def blake2b_wf_def)
    obtain S3 r where ub: "update_blocks (S2\<lparr>b_buflen := 0\<rparr>) (drop ?fill p) = (S3, r)" by fastforce
    note f = update_blocks_bare [OF ub]
    have "b_buflen S + length p > BLAKE2B_BLOCKLEN" using True len(2) by linarith
    then have "update_blocks (bare S) (pending S @ p) = update_blocks (bare S2) (drop ?fill p)"
      using len by (subst update_blocks.simps) (simp add: S2_def bare_compress B_def)
    also have "\<dots> = (bare S3, r)" using f by (simp add: bare_compress)
    finally have spec: "update_blocks (bare S) (pending S @ p) = (bare S3, r)" .
    have "blake2b_update S p = S3\<lparr>b_buf := buf_copy B 0 r, b_buflen := length r\<rparr>"
      using True ub B f by (auto simp: blake2b_update_def Let_def S2_def)
    with spec f B(2) show ?thesis
      by (simp add: bare_compress pending_def blake2b_wf_def buf_copy_def)
  qed
qed

lemma final_close:
  assumes "blake2b_wf S"
  shows "blake2b_final S = blake2b_close (bare S) (pending S)"
proof -
  have "buf_copy (b_buf S) (b_buflen S) (replicate (BLAKE2B_BLOCKLEN - b_buflen S) 0)
      = pending S @ replicate (BLAKE2B_BLOCKLEN - b_buflen S) 0"
    using assms by (simp add: blake2b_wf_def buf_copy_def pending_def)
  moreover have "length (pending S) = b_buflen S" using assms by (simp add: blake2b_wf_def pending_def)
  ultimately show ?thesis
    by (simp add: blake2b_final_def blake2b_close_def blake2b_compress_def count_bytes_def bare_def Let_def)
qed

text \<open>The block loop is the fold of the specification.\<close>

lemma update_blocks_fold:
  "update_blocks S p = (let n = (length p - 1) div BLAKE2B_BLOCKLEN in
     (foldl (blake2b_block p) S [0..<n], drop (n * BLAKE2B_BLOCKLEN) p))"
proof (induction S p rule: update_blocks.induct)
  case (1 S p)
  show ?case
  proof (cases "length p > BLAKE2B_BLOCKLEN")
    case False
    then have "(length p - 1) div BLAKE2B_BLOCKLEN = 0"
      by (cases "length p") (auto simp: BLAKE2B_BLOCKLEN_def)
    with False show ?thesis by (subst update_blocks.simps) (simp add: Let_def)
  next
    case True
    let ?q = "drop BLAKE2B_BLOCKLEN p"
    define n where "n = (length ?q - 1) div BLAKE2B_BLOCKLEN"
    have "length p - 1 = (length ?q - 1) + BLAKE2B_BLOCKLEN" using True by simp
    then have sn: "(length p - 1) div BLAKE2B_BLOCKLEN = Suc n"
      unfolding n_def by (simp add: BLAKE2B_BLOCKLEN_def del: length_drop)
    have shift: "blake2b_block p T (Suc i) = blake2b_block ?q T i" for T i
      by (simp add: blake2b_block_def add.commute)
    have "foldl (blake2b_block p) T (map Suc is) = foldl (blake2b_block ?q) T is" for T "is"
      by (induction "is" arbitrary: T) (simp_all add: shift)
    then have "foldl (blake2b_block p) S [0..<Suc n] = foldl (blake2b_block ?q) (blake2b_block p S 0) [0..<n]"
      by (simp add: upt_conv_Cons map_Suc_upt [symmetric] del: upt_Suc)
    moreover have b0: "blake2b_compress (count_bytes S (of_nat BLAKE2B_BLOCKLEN)) (take BLAKE2B_BLOCKLEN p)
        = blake2b_block p S 0" by (simp add: blake2b_block_def)
    moreover have "update_blocks S p = update_blocks (blake2b_block p S 0) ?q"
      using True by (subst update_blocks.simps) (simp add: b0)
    moreover have "drop (n * BLAKE2B_BLOCKLEN) ?q = drop (Suc n * BLAKE2B_BLOCKLEN) p"
      by (simp add: add.commute)
    ultimately show ?thesis
      using 1 [OF True] unfolding sn n_def [symmetric] b0 Let_def by simp
  qed
qed

lemma init_wf: "blake2b_wf (blake2b_init n) \<and> pending (blake2b_init n) = []"
  by (simp add: blake2b_wf_def pending_def blake2b_init_def)

lemma foldl_block_bare:
  "bare (foldl (blake2b_block p) S is) = foldl (blake2b_block p) (bare S) is"
  by (induction "is" arbitrary: S) (simp_all add: blake2b_block_def bare_compress)

lemma close_bare: "blake2b_close (bare S) r = blake2b_close S r"
  by (simp add: blake2b_close_def blake2b_compress_def count_bytes_def bare_def Let_def)

text \<open>Feeding a message in pieces hashes their concatenation.\<close>

lemma blake2b_pieces:
  "blake2b_final (foldl blake2b_update (blake2b_init outlen) ps) = blake2b_hash outlen (concat ps)"
proof -
  have "blake2b_wf (foldl blake2b_update S ps) \<and>
      (bare (foldl blake2b_update S ps), pending (foldl blake2b_update S ps))
        = update_blocks (bare S) (pending S @ concat ps)" if "blake2b_wf S" for S
    using that
  proof (induction ps rule: rev_induct)
    case Nil
    then have "length (pending S) \<le> BLAKE2B_BLOCKLEN" by (simp add: pending_def blake2b_wf_def)
    then show ?case using Nil by (subst update_blocks.simps) simp
  next
    case (snoc p ps)
    let ?T = "foldl blake2b_update S ps"
    have "update_blocks (bare S) ((pending S @ concat ps) @ p) = update_blocks (bare ?T) (pending ?T @ p)"
      using snoc by (intro update_blocks_append) simp
    with snoc update_refines [of ?T p] show ?case by simp
  qed
  note this [OF conjunct1 [OF init_wf], of outlen]
  moreover have "update_blocks (bare (blake2b_init outlen)) (concat ps) =
      (let n = (length (concat ps) - 1) div BLAKE2B_BLOCKLEN in
       (bare (foldl (blake2b_block (concat ps)) (blake2b_init outlen) [0..<n]), drop (n * BLAKE2B_BLOCKLEN) (concat ps)))"
    by (simp add: update_blocks_fold foldl_block_bare)
  ultimately show ?thesis
    using final_close
      close_bare [of "foldl (blake2b_block (concat ps)) (blake2b_init outlen)
        [0..<(length (concat ps) - 1) div BLAKE2B_BLOCKLEN]", symmetric]
    by (simp add: init_wf blake2b_hash_def Let_def)
qed

lemma length_concat_store: "length (concat (map (\<lambda>i. store64 (f i)) xs)) = 8 * length xs"
  by (induction xs) (simp_all add: store64_def)

lemma length_blake2b_close: "length (blake2b_close S r) = min (b_outlen S) 64"
  by (simp add: blake2b_close_def Let_def length_concat_store min.commute)

lemma foldl_block_outlen [simp]: "b_outlen (foldl (blake2b_block p) S is) = b_outlen S"
  by (induction "is" arbitrary: S) (simp_all add: blake2b_block_def)

lemma length_blake2b_hash: "length (blake2b_hash outlen msg) = min outlen 64"
  by (simp add: blake2b_hash_def length_blake2b_close blake2b_init_def Let_def)

section \<open>The byte counter\<close>

text \<open>The two words of the counter as one number; the comparison in the code carries into the second.\<close>

definition counter :: "blake2b \<Rightarrow> nat" where
  "counter S = unat (fst (b_t S)) + 2 ^ 64 * unat (snd (b_t S))"

lemma counter_count_bytes: "counter (count_bytes S n) = (counter S + unat n) mod 2 ^ 128"
proof -
  obtain a b where t: "b_t S = (a, b)" by fastforce
  have bounds: "unat a < 2 ^ 64" "unat b < 2 ^ 64" "unat n < 2 ^ 64"
    using unsigned_less [of a] unsigned_less [of b] unsigned_less [of n] by simp_all
  have sum: "unat (a + n) = (unat a + unat n) mod 2 ^ 64" by (simp add: unat_word_ariths)
  show ?thesis
  proof (cases "unat a + unat n < 2 ^ 64")
    case True
    then have "\<not> a + n < n" using sum by (simp add: word_less_nat_alt)
    with True sum t bounds show ?thesis by (simp add: counter_def count_bytes_def Let_def)
  next
    case False
    then have s: "unat (a + n) = unat a + unat n - 2 ^ 64"
      using sum bounds by (simp add: mod_if)
    then have c: "a + n < n" using False bounds by (simp add: word_less_nat_alt)
    have v: "counter (count_bytes S n) = unat a + unat n - 2 ^ 64 + 2 ^ 64 * unat (b + 1)"
      using s t c by (simp add: counter_def count_bytes_def Let_def)
    have w: "unat (b + 1) = (unat b + 1) mod 2 ^ 64" by (simp add: unat_word_ariths)
    show ?thesis
    proof (cases "unat b + 1 = 2 ^ 64")
      case True
      then have "counter S + unat n = (unat a + unat n - 2 ^ 64) + 2 ^ 128"
        using False t by (simp add: counter_def)
      then have "(counter S + unat n) mod 2 ^ 128 = unat a + unat n - 2 ^ 64"
        using bounds by simp
      then show ?thesis using v w True by simp
    next
      case False
      then have "unat (b + 1) = unat b + 1" using w bounds by simp
      then show ?thesis using v t bounds \<open>\<not> unat a + unat n < 2 ^ 64\<close> False by (simp add: counter_def)
    qed
  qed
qed

lemma counter_bare [simp]: "counter (bare S) = counter S"
  by (simp add: counter_def bare_def)

lemma counter_update_blocks:
  assumes "counter S + length p < 2 ^ 128" "update_blocks S p = (S', r)"
  shows "counter S' + length r = counter S + length p"
  using assms
proof (induction S p rule: update_blocks.induct)
  case (1 S p)
  show ?case
  proof (cases "length p > BLAKE2B_BLOCKLEN")
    case False
    then show ?thesis using 1 update_blocks.simps [of S p] by simp
  next
    case True
    let ?S1 = "blake2b_compress (count_bytes S (of_nat BLAKE2B_BLOCKLEN)) (take BLAKE2B_BLOCKLEN p)"
    have "counter ?S1 = (counter S + 128) mod 2 ^ 128"
      using counter_count_bytes [of S "of_nat BLAKE2B_BLOCKLEN"]
      by (simp add: BLAKE2B_BLOCKLEN_def counter_def)
    then have "counter ?S1 = counter S + 128"
      using 1 True by (simp add: BLAKE2B_BLOCKLEN_def)
    then show ?thesis using 1 True update_blocks.simps [of S p] by (simp add: BLAKE2B_BLOCKLEN_def)
  qed
qed

end
