(* ===== verification/Hex.thy ===== *)
theory Hex
  imports Blake2b
begin

unbundle bit_operations_syntax

text \<open>
  Hash names: \<open>to_hex\<close>, \<open>cas_hex_decode\<close> and the two validity checks, with the round trips between
  a digest and its name. The digits of the C code are compared as characters.
\<close>

section \<open>Definitions\<close>

definition CAS_HASH_LEN :: nat where "CAS_HASH_LEN = 32"
definition CAS_HASH_HEX :: nat where "CAS_HASH_HEX = 64"

definition hex_chars :: string where
  "hex_chars = ''0123456789abcdef''"

definition hex_byte :: "byte \<Rightarrow> string" where
  "hex_byte b = [hex_chars ! unat (drop_bit 4 b), hex_chars ! unat (b AND 0x0f)]"

definition to_hex :: "byte list \<Rightarrow> string" where
  "to_hex bin = concat (map hex_byte bin)"

definition cas_hex_encode :: "byte list \<Rightarrow> string" where
  "cas_hex_encode bin = to_hex bin"

text \<open>\<open>c >= lo && c <= hi\<close>\<close>

definition between :: "char \<Rightarrow> char \<Rightarrow> char \<Rightarrow> bool" where
  "between lo hi c \<longleftrightarrow> ascii lo \<le> ascii c \<and> ascii c \<le> ascii hi"

definition hex_val :: "char \<Rightarrow> nat option" where
  "hex_val c =
     (if between CHR ''0'' CHR ''9'' c then Some (ascii c - ascii CHR ''0'')
      else if between CHR ''a'' CHR ''f'' c then Some (ascii c - ascii CHR ''a'' + 10)
      else if between CHR ''A'' CHR ''F'' c then Some (ascii c - ascii CHR ''A'' + 10)
      else None)"

fun hex_loop :: "string \<Rightarrow> byte list option" where
  "hex_loop (c # d # r) =
     (case hex_val c of None \<Rightarrow> None
      | Some hi \<Rightarrow> (case hex_val d of None \<Rightarrow> None
          | Some lo \<Rightarrow> (case hex_loop r of None \<Rightarrow> None
              | Some bs \<Rightarrow> Some (of_nat (push_bit 4 hi OR lo) # bs))))"
| "hex_loop _ = Some []"

text \<open>The bytes that the loop has stored when it returns, whether it succeeds or fails.\<close>

fun hex_prefix :: "string \<Rightarrow> byte list" where
  "hex_prefix (c # d # r) =
     (case hex_val c of None \<Rightarrow> []
      | Some hi \<Rightarrow> (case hex_val d of None \<Rightarrow> []
          | Some lo \<Rightarrow> of_nat (push_bit 4 hi OR lo) # hex_prefix r))"
| "hex_prefix _ = []"

definition cas_hex_decode :: "string \<Rightarrow> nat \<Rightarrow> byte list option" where
  "cas_hex_decode hex outsz =
     (if length hex mod 2 \<noteq> 0 \<or> length hex div 2 > outsz then None else hex_loop hex)"

definition valid_hash :: "string \<Rightarrow> bool" where
  "valid_hash hash \<longleftrightarrow> length hash = CAS_HASH_HEX \<and>
     list_all (\<lambda>c. between CHR ''0'' CHR ''9'' c \<or> between CHR ''a'' CHR ''f'' c \<or>
       between CHR ''A'' CHR ''F'' c) hash"

definition cas_valid_hash :: "string \<Rightarrow> bool" where
  "cas_valid_hash hash = valid_hash hash"

section \<open>Hashing\<close>

definition cas_digest :: "byte list \<Rightarrow> byte list" where
  "cas_digest data = blake2b_final (blake2b_update (blake2b_init CAS_HASH_LEN) data)"

definition cas_hash :: "byte list \<Rightarrow> string" where
  "cas_hash data =
     (let digest = blake2b_final (blake2b_update (blake2b_init CAS_HASH_LEN) data) in to_hex digest)"

section \<open>Lemmas\<close>

lemma hex_val_digit: "n < 16 \<Longrightarrow> hex_val (hex_chars ! n) = Some n"
proof -
  have "\<forall>n \<in> set [0..<16]. hex_val (hex_chars ! n) = Some n" by code_simp
  then show "n < 16 \<Longrightarrow> hex_val (hex_chars ! n) = Some n" by simp
qed

lemma nibbles:
  fixes b :: byte
  shows "unat (drop_bit 4 b) < 16" "unat (b AND 0x0f) < 16"
    "of_nat (push_bit 4 (unat (drop_bit 4 b)) OR unat (b AND 0x0f)) = b"
proof -
  have hi: "unat (drop_bit 4 b) = unat b div 16" by (simp add: drop_bit_eq_div unat_div)
  have "b AND 0x0f = take_bit 4 b" by (simp add: take_bit_eq_mask mask_eq_exp_minus_1)
  then have lo: "unat (b AND 0x0f) = unat b mod 16" by (simp add: unat_mod take_bit_eq_mod)
  have lt: "unat b < 256" using unsigned_less [of b] by simp
  show "unat (drop_bit 4 b) < 16" "unat (b AND 0x0f) < 16" using hi lo lt by simp_all
  have "push_bit 4 (unat b div 16) OR (unat b mod 16) = push_bit 4 (unat b div 16) + unat b mod 16"
  proof (rule disjunctive_add [symmetric])
    fix n
    show "\<not> bit (push_bit 4 (unat b div 16)) n \<or> \<not> bit (unat b mod 16) n"
      using bit_take_bit_iff [of 4 "unat b" n] by (simp add: bit_push_bit_iff take_bit_eq_mod)
  qed
  then show "of_nat (push_bit 4 (unat (drop_bit 4 b)) OR unat (b AND 0x0f)) = b"
    unfolding hi lo by (simp add: push_bit_eq_mult)
qed

lemma hex_loop_prefix: "hex_loop s = Some b \<Longrightarrow> hex_prefix s = b"
  by (induction s arbitrary: b rule: hex_loop.induct) (auto split: option.splits)

lemma hex_decode_prefix: "cas_hex_decode h n = Some b \<Longrightarrow> hex_prefix h = b"
  by (auto simp: cas_hex_decode_def hex_loop_prefix split: if_splits)

lemma hex_loop_to_hex: "hex_loop (to_hex bs) = Some bs"
  by (induction bs) (simp_all add: to_hex_def hex_byte_def hex_val_digit nibbles)

lemma length_to_hex [simp]: "length (to_hex bs) = 2 * length bs"
  by (induction bs) (simp_all add: to_hex_def hex_byte_def)

lemma hex_decode_encode:
  "length bs \<le> outsz \<Longrightarrow> cas_hex_decode (cas_hex_encode bs) outsz = Some bs"
  by (simp add: cas_hex_decode_def cas_hex_encode_def hex_loop_to_hex)

lemma to_hex_inj: "to_hex a = to_hex b \<Longrightarrow> a = b"
  by (metis hex_loop_to_hex option.inject)

lemma hex_digit_chars: "n < 16 \<Longrightarrow> between CHR ''0'' CHR ''9'' (hex_chars ! n) \<or> between CHR ''a'' CHR ''f'' (hex_chars ! n)"
proof -
  have "\<forall>n \<in> set [0..<16]. between CHR ''0'' CHR ''9'' (hex_chars ! n) \<or> between CHR ''a'' CHR ''f'' (hex_chars ! n)"
    by code_simp
  then show "n < 16 \<Longrightarrow> between CHR ''0'' CHR ''9'' (hex_chars ! n) \<or> between CHR ''a'' CHR ''f'' (hex_chars ! n)"
    by simp
qed

lemma to_hex_chars:
  "c \<in> set (to_hex bs) \<Longrightarrow> between CHR ''0'' CHR ''9'' c \<or> between CHR ''a'' CHR ''f'' c"
  using hex_digit_chars nibbles(1,2) by (auto simp: to_hex_def hex_byte_def)

lemma valid_to_hex: "length bs = CAS_HASH_LEN \<Longrightarrow> valid_hash (to_hex bs)"
  using to_hex_chars by (fastforce simp: valid_hash_def list_all_iff CAS_HASH_HEX_def CAS_HASH_LEN_def)

lemma hex_loop_total:
  "list_all (\<lambda>c. hex_val c \<noteq> None) s \<Longrightarrow> \<exists>bs. hex_loop s = Some bs \<and> length bs = length s div 2"
  by (induction s rule: hex_loop.induct) fastforce+

lemma valid_hash_decodes:
  assumes "valid_hash h"
  shows "\<exists>bs. cas_hex_decode h CAS_HASH_LEN = Some bs \<and> length bs = CAS_HASH_LEN"
proof -
  have "list_all (\<lambda>c. hex_val c \<noteq> None) h"
    using assms by (auto simp: valid_hash_def hex_val_def list_all_iff)
  with hex_loop_total [of h] assms show ?thesis
    by (auto simp: cas_hex_decode_def valid_hash_def CAS_HASH_HEX_def CAS_HASH_LEN_def)
qed

lemma cas_digest_hash: "cas_digest data = blake2b_hash CAS_HASH_LEN data"
  using blake2b_pieces [of CAS_HASH_LEN "[data]"] by (simp add: cas_digest_def)

lemma length_cas_digest [simp]: "length (cas_digest data) = CAS_HASH_LEN"
  by (simp add: cas_digest_hash length_blake2b_hash CAS_HASH_LEN_def)

lemma cas_hash_digest: "cas_hash data = to_hex (cas_digest data)"
  by (simp add: cas_hash_def cas_digest_def)

lemma valid_cas_hash [simp]: "valid_hash (cas_hash data)"
  by (simp add: cas_hash_digest valid_to_hex)

text \<open>A name as the code writes it, in lower case digits.\<close>

definition canonical :: "string \<Rightarrow> string" where
  "canonical h = (case cas_hex_decode h CAS_HASH_LEN of Some bin \<Rightarrow> cas_hex_encode bin | None \<Rightarrow> h)"

lemma canonical_to_hex [simp]: "length bs \<le> CAS_HASH_LEN \<Longrightarrow> canonical (to_hex bs) = to_hex bs"
  using hex_decode_encode [of bs CAS_HASH_LEN] by (simp add: canonical_def cas_hex_encode_def)

lemma canonical_cas_hash [simp]: "canonical (cas_hash data) = cas_hash data"
  by (simp add: cas_hash_digest)

end
