(* ===== verification/Header.thy ===== *)
theory Header
  imports Hex
begin

unbundle bit_operations_syntax

text \<open>
  Object headers: \<open>format_header\<close> and \<open>parse_header\<close> of \<open>cas.c\<close>, the parser \<open>cas-pack.c\<close> has of its
  own, and the object names derived from a header. A header is the text \<open>type len\<close> followed by a zero
  byte; \<open>size_t\<close> is 64 bits wide. The error codes of the store are here too.
\<close>

section \<open>Error codes\<close>

datatype cas_rc = CAS_OK | CAS_ERR | CAS_ENOTFOUND | CAS_ENOMEM | CAS_EIO | CAS_ETYPE

fun cas_code :: "cas_rc \<Rightarrow> int" where
  "cas_code CAS_OK = 0"
| "cas_code CAS_ERR = -1"
| "cas_code CAS_ENOTFOUND = -2"
| "cas_code CAS_ENOMEM = -3"
| "cas_code CAS_EIO = -4"
| "cas_code CAS_ETYPE = -5"

definition cas_strerror :: "int \<Rightarrow> string" where
  "cas_strerror err =
     (if err = cas_code CAS_OK then ''success''
      else if err = cas_code CAS_ERR then ''generic error''
      else if err = cas_code CAS_ENOTFOUND then ''not found''
      else if err = cas_code CAS_ENOMEM then ''out of memory''
      else if err = cas_code CAS_EIO then ''I/O error''
      else if err = cas_code CAS_ETYPE then ''type mismatch''
      else ''unknown error'')"

section \<open>Formatting\<close>

definition CAS_TYPE_MAX :: nat where "CAS_TYPE_MAX = 16"
definition CAS_HEADER_MAX :: nat where "CAS_HEADER_MAX = 32"

text \<open>The conversions \<open>%zu\<close> and \<open>%d\<close> of \<open>snprintf\<close>.\<close>

definition digit :: "nat \<Rightarrow> char" where
  "digit n = char_of (48 + n)"

fun decimal :: "nat \<Rightarrow> string" where
  "decimal n = (if n < 10 then [digit n] else decimal (n div 10) @ [digit (n mod 10)])"

declare decimal.simps [simp del]

definition header_text :: "string \<Rightarrow> nat \<Rightarrow> byte list" where
  "header_text type len = bytes_of (type @ '' '' @ decimal len)"

definition format_header :: "nat \<Rightarrow> string \<Rightarrow> nat \<Rightarrow> byte list option" where
  "format_header bufsz type len =
     (if type = [] then None
      else if length type > CAS_TYPE_MAX then None
      else let txt = header_text type len in
        if length txt + 1 > bufsz then None else Some (txt @ [0]))"

section \<open>Parsing\<close>

text \<open>The position of the first occurrence, as \<open>memchr\<close> finds it.\<close>

definition memchr :: "byte list \<Rightarrow> byte \<Rightarrow> nat \<Rightarrow> nat option" where
  "memchr buf c n = find_idx ((=) c) (take n buf)"

fun length_loop :: "byte list \<Rightarrow> u64 \<Rightarrow> u64 option" where
  "length_loop [] len = Some len"
| "length_loop (d # ds) len =
     (if d < byte_of_char CHR ''0'' \<or> d > byte_of_char CHR ''9'' then None
      else let len' = len * 10 + (ucast d - ucast (byte_of_char CHR ''0'')) in
        if len' < len \<or> len' > push_bit 30 1 then None
        else length_loop ds len')"

definition parse_header :: "byte list \<Rightarrow> nat \<Rightarrow> (string \<times> u64) option" where
  "parse_header hdr type_bufsz =
     (let limit = (if length hdr < CAS_HEADER_MAX then length hdr else CAS_HEADER_MAX) in
      case memchr hdr 0 limit of
        None \<Rightarrow> None
      | Some nul \<Rightarrow>
          (case memchr hdr (byte_of_char CHR '' '') nul of
             None \<Rightarrow> None
           | Some typelen \<Rightarrow>
               if typelen = 0 \<or> typelen > CAS_TYPE_MAX \<or> typelen + 1 > type_bufsz then None
               else if typelen + 1 \<ge> nul then None
               else (case length_loop (take (nul - (typelen + 1)) (drop (typelen + 1) hdr)) 0 of
                       None \<Rightarrow> None
                     | Some len \<Rightarrow> Some (chars_of (take typelen hdr), len))))"

text \<open>The copy of the parser in \<open>cas-pack.c\<close> has only the first half of the overflow check.\<close>

fun pack_length_loop :: "byte list \<Rightarrow> u64 \<Rightarrow> u64 option" where
  "pack_length_loop [] len = Some len"
| "pack_length_loop (d # ds) len =
     (if d < byte_of_char CHR ''0'' \<or> d > byte_of_char CHR ''9'' then None
      else let len' = len * 10 + (ucast d - ucast (byte_of_char CHR ''0'')) in
        if len' < len then None else pack_length_loop ds len')"

definition pack_parse_header :: "byte list \<Rightarrow> nat \<Rightarrow> (string \<times> u64) option" where
  "pack_parse_header hdr type_bufsz =
     (let limit = (if length hdr < 32 then length hdr else 32) in
      case memchr hdr 0 limit of
        None \<Rightarrow> None
      | Some nul \<Rightarrow>
          (case memchr hdr (byte_of_char CHR '' '') nul of
             None \<Rightarrow> None
           | Some typelen \<Rightarrow>
               if typelen = 0 \<or> typelen > CAS_TYPE_MAX \<or> typelen + 1 > type_bufsz then None
               else if typelen + 1 \<ge> nul then None
               else (case pack_length_loop (take (nul - (typelen + 1)) (drop (typelen + 1) hdr)) 0 of
                       None \<Rightarrow> None
                     | Some len \<Rightarrow> Some (chars_of (take typelen hdr), len))))"

section \<open>Object names\<close>

definition cas_hash_object :: "string \<Rightarrow> byte list \<Rightarrow> string option" where
  "cas_hash_object type data =
     (case format_header CAS_HEADER_MAX type (length data) of
        None \<Rightarrow> None
      | Some hdr \<Rightarrow>
          let S0 = blake2b_init CAS_HASH_LEN;
              S1 = blake2b_update S0 hdr;
              S2 = blake2b_update S1 data;
              digest = blake2b_final S2
          in Some (to_hex digest))"

definition cas_digest_object :: "string \<Rightarrow> byte list \<Rightarrow> byte list option" where
  "cas_digest_object type data =
     (let txt = header_text type (length data) in
      if length txt \<ge> CAS_HEADER_MAX then None
      else let S0 = blake2b_init CAS_HASH_LEN;
               S1 = blake2b_update S0 (txt @ [0]);
               S2 = blake2b_update S1 data
           in Some (blake2b_final S2))"

section \<open>Decimal numbers\<close>

lemma byte_of_digit: "n < 10 \<Longrightarrow> byte_of_char (digit n) = of_nat (48 + n)"
proof -
  assume "n < 10"
  then have "(48 + n) mod 256 = 48 + n" by simp
  then show ?thesis by (simp add: digit_def byte_of_char_def)
qed

lemma unat_digit: "n < 10 \<Longrightarrow> unat (of_nat (48 + n) :: byte) = 48 + n"
  by (subst unat_of_nat) simp

lemma zero_nine: "byte_of_char CHR ''0'' = 48" "byte_of_char CHR ''9'' = 57"
  by (simp_all add: byte_of_char_def)

text \<open>A byte written by \<open>digit\<close> passes the range test and contributes its value.\<close>

lemma digit_byte:
  assumes "n < 10"
  shows "\<not> (byte_of_char (digit n) < byte_of_char CHR ''0'' \<or> byte_of_char (digit n) > byte_of_char CHR ''9'')"
    and "ucast (byte_of_char (digit n)) - ucast (byte_of_char CHR ''0'') = (of_nat n :: u64)"
proof -
  have d: "byte_of_char (digit n) = of_nat (48 + n)" using assms by (rule byte_of_digit)
  show "\<not> (byte_of_char (digit n) < byte_of_char CHR ''0'' \<or> byte_of_char (digit n) > byte_of_char CHR ''9'')"
    using assms unat_digit [OF assms] by (simp add: d zero_nine word_less_nat_alt del: of_nat_add)
  have "ucast (of_nat (48 + n) :: byte) = (of_nat (48 + n) :: u64)"
    using unat_digit [OF assms] of_nat_unat [of "of_nat (48 + n) :: byte", where ?'a = u64] by simp
  then show "ucast (byte_of_char (digit n)) - ucast (byte_of_char CHR ''0'') = (of_nat n :: u64)"
    by (simp add: d zero_nine)
qed

lemma length_loop_decimal:
  assumes "n \<le> 2 ^ 30"
  shows "length_loop (bytes_of (decimal n) @ r) 0 = length_loop r (of_nat n)"
  using assms
proof (induction n arbitrary: r rule: decimal.induct)
  case (1 n)
  have bnd: "\<not> of_nat m > (push_bit 30 1 :: u64)" if "m \<le> n" for m
    using that 1(2) by (simp add: word_less_nat_alt unat_of_nat push_bit_eq_mult)
  have le: "\<not> (of_nat n :: u64) < of_nat (n div 10)"
    using 1(2) by (simp add: word_less_nat_alt unat_of_nat)
  show ?case
  proof (cases "n < 10")
    case True
    with bnd [of n] show ?thesis
      by (simp add: decimal.simps [of n] digit_byte Let_def del: push_bit_of_1)
  next
    case False
    have "(of_nat n :: u64) = of_nat (n div 10) * 10 + of_nat (n mod 10)"
      by (metis div_mult_mod_eq of_nat_add of_nat_mult of_nat_numeral)
    then have v: "of_nat (n div 10) * 10 + (of_nat (n mod 10) :: u64) = of_nat n" by simp
    have "length_loop (bytes_of (decimal n) @ r) 0
        = length_loop (byte_of_char (digit (n mod 10)) # r) (of_nat (n div 10))"
      using 1(1) [OF False] 1(2) False by (simp add: decimal.simps [of n])
    with bnd [of n] le v show ?thesis by (simp add: digit_byte Let_def del: push_bit_of_1)
  qed
qed

lemma length_loop_bound: "length_loop ds len = Some v \<Longrightarrow> len \<le> 2 ^ 30 \<Longrightarrow> v \<le> 2 ^ 30"
  by (induction ds len rule: length_loop.induct) (auto simp: Let_def not_less split: if_splits)

lemma length_loop_pack: "length_loop ds len = Some v \<Longrightarrow> pack_length_loop ds len = Some v"
  by (induction ds len rule: length_loop.induct) (auto simp: Let_def split: if_splits)

lemma decimal_digits: "c \<in> set (decimal n) \<Longrightarrow> \<exists>k<10. c = digit k"
  by (induction n rule: decimal.induct) (subst (asm) decimal.simps, auto split: if_splits intro: exI [of _ "_ mod 10"])

lemma decimal_nonempty [simp]: "decimal n \<noteq> []"
  by (subst decimal.simps) simp

lemma decimal_length: "n < 10 ^ k \<Longrightarrow> 0 < k \<Longrightarrow> length (decimal n) \<le> k"
proof (induction k arbitrary: n)
  case (Suc k)
  show ?case
  proof (cases "n < 10")
    case True
    then show ?thesis by (simp add: decimal.simps [of n])
  next
    case False
    then have "k \<noteq> 0" using Suc.prems by (cases k) auto
    moreover have "n div 10 < 10 ^ k" using Suc.prems by (simp add: less_mult_imp_div_less mult.commute)
    ultimately show ?thesis using Suc.IH [of "n div 10"] False by (simp add: decimal.simps [of n])
  qed
qed simp

lemma decimal_no_zero: "0 \<notin> set (bytes_of (decimal n))"
proof
  assume "0 \<in> set (bytes_of (decimal n))"
  then obtain k where k: "k < 10" "0 = byte_of_char (digit k)" using decimal_digits by fastforce
  then have "unat (of_nat (48 + k) :: byte) = 0" by (simp add: byte_of_digit del: of_nat_add)
  with unat_digit [OF k(1)] show False by simp
qed

section \<open>Round trip\<close>

text \<open>A type name the format can carry.\<close>

definition type_ok :: "string \<Rightarrow> bool" where
  "type_ok t \<longleftrightarrow> t \<noteq> [] \<and> length t \<le> CAS_TYPE_MAX \<and> CHR '' '' \<notin> set t \<and> CHR 0x00 \<notin> set t"

lemma memchr_append:
  assumes "c \<notin> set a" "length a < n"
  shows "memchr (a @ c # r) c n = Some (length a)"
proof -
  obtain k where "n - length a = Suc k" using assms(2) by (metis Suc_diff_Suc)
  then have "take n (a @ c # r) = a @ c # take k r" using assms(2) by simp
  moreover have "find_idx ((=) c) (a @ c # take k r) = Some (length a)"
    using assms(1) by (induction a) auto
  ultimately show ?thesis by (simp add: memchr_def)
qed

lemma byte_zero_char: "byte_of_char c = 0 \<longleftrightarrow> c = CHR 0x00"
proof -
  have "byte_of_char CHR 0x00 = 0" by (simp add: byte_of_char_def)
  then show ?thesis by (metis byte_of_char_eq_iff)
qed

lemma header_no_zero: "type_ok t \<Longrightarrow> 0 \<notin> set (header_text t n)"
  using decimal_no_zero [of n] by (auto simp: header_text_def type_ok_def byte_zero_char image_iff)

lemma format_header_fits:
  assumes "type_ok t" "n \<le> 2 ^ 30"
  shows "format_header CAS_HEADER_MAX t n = Some (header_text t n @ [0])"
    and "length (header_text t n) < 30"
proof -
  have "length (decimal n) \<le> 10" using assms(2) by (intro decimal_length) simp_all
  then show "length (header_text t n) < 30"
    using assms(1) by (simp add: header_text_def type_ok_def CAS_TYPE_MAX_def)
  then show "format_header CAS_HEADER_MAX t n = Some (header_text t n @ [0])"
    using assms(1) by (simp add: format_header_def type_ok_def CAS_HEADER_MAX_def Let_def)
qed

lemma parse_header_text:
  assumes "type_ok t" "n \<le> 2 ^ 30" "length t < type_bufsz"
  shows "parse_header (header_text t n @ 0 # r) type_bufsz = Some (t, of_nat n)"
proof -
  let ?h = "header_text t n" and ?sp = "byte_of_char CHR '' ''"
  have len: "length ?h < 30" using format_header_fits(2) [OF assms(1,2)] .
  have h: "?h = bytes_of t @ ?sp # bytes_of (decimal n)" by (simp add: header_text_def)
  have nul: "memchr (?h @ 0 # r) 0 (if length (?h @ 0 # r) < CAS_HEADER_MAX then length (?h @ 0 # r)
      else CAS_HEADER_MAX) = Some (length ?h)"
    using header_no_zero [OF assms(1)] len by (intro memchr_append) (auto simp: CAS_HEADER_MAX_def)
  have "?sp \<notin> set (bytes_of t)" using assms(1) by (auto simp: type_ok_def)
  then have sp: "memchr (?h @ 0 # r) ?sp (length ?h) = Some (length t)"
    using memchr_append [of ?sp "bytes_of t" "length ?h" "bytes_of (decimal n) @ 0 # r"] by (simp add: h)
  have t: "\<not> (length t = 0 \<or> length t > CAS_TYPE_MAX \<or> length t + 1 > type_bufsz)"
    using assms by (auto simp: type_ok_def)
  have d: "\<not> length t + 1 \<ge> length ?h"
    using decimal_nonempty [of n] by (cases "decimal n") (simp_all add: h del: decimal_nonempty)
  have body: "take (length ?h - (length t + 1)) (drop (length t + 1) (?h @ 0 # r)) = bytes_of (decimal n)"
    by (simp add: h)
  have num: "length_loop (bytes_of (decimal n)) 0 = Some (of_nat n)"
    using length_loop_decimal [OF assms(2), of "[]"] by simp
  have ty: "chars_of (take (length t) (?h @ 0 # r)) = t" by (simp add: h map_idI)
  show ?thesis
    by (simp only: parse_header_def nul Let_def option.case sp if_not_P [OF t] if_not_P [OF d] body num ty)
qed

lemma parse_headerE:
  assumes "parse_header hdr k = Some r"
  obtains nul tl len where
    "memchr hdr 0 (if length hdr < CAS_HEADER_MAX then length hdr else CAS_HEADER_MAX) = Some nul"
    "memchr hdr (byte_of_char CHR '' '') nul = Some tl"
    "\<not> (tl = 0 \<or> tl > CAS_TYPE_MAX \<or> tl + 1 > k)" "\<not> tl + 1 \<ge> nul"
    "length_loop (take (nul - (tl + 1)) (drop (tl + 1) hdr)) 0 = Some len"
    "r = (chars_of (take tl hdr), len)"
proof (cases "memchr hdr 0 (if length hdr < CAS_HEADER_MAX then length hdr else CAS_HEADER_MAX)")
  case None
  then show ?thesis using assms by (simp add: parse_header_def)
next
  case nul: (Some nul)
  note s1 = assms [unfolded parse_header_def Let_def nul option.case]
  show ?thesis
  proof (cases "memchr hdr (byte_of_char CHR '' '') nul")
    case None
    then show ?thesis using s1 by simp
  next
    case tl: (Some tl)
    note s2 = s1 [unfolded tl option.case]
    show ?thesis
    proof (cases "length_loop (take (nul - (tl + 1)) (drop (tl + 1) hdr)) 0")
      case None
      then show ?thesis using s2 by (metis (no_types, lifting) option.case(1) option.distinct(1))
    next
      case (Some len)
      have ok: "\<not> (tl = 0 \<or> tl > CAS_TYPE_MAX \<or> tl + 1 > k)" "\<not> tl + 1 \<ge> nul"
        using s2 by (metis (no_types, lifting) option.distinct(1))+
      then have "r = (chars_of (take tl hdr), len)" using s2 Some by simp
      with nul tl ok Some show ?thesis by (rule that)
    qed
  qed
qed

lemma parse_header_bound: "parse_header hdr k = Some (t, len) \<Longrightarrow> len \<le> 2 ^ 30 \<and> length t \<le> CAS_TYPE_MAX"
  by (erule parse_headerE) (auto dest: length_loop_bound)

text \<open>Whatever the strict parser accepts, the one of the pack code accepts with the same result.\<close>

lemma parse_header_pack:
  assumes "parse_header hdr k = Some r"
  shows "pack_parse_header hdr k = Some r"
  using assms
proof (rule parse_headerE)
  fix nul tl len
  assume *: "memchr hdr 0 (if length hdr < CAS_HEADER_MAX then length hdr else CAS_HEADER_MAX) = Some nul"
    "memchr hdr (byte_of_char CHR '' '') nul = Some tl"
    and ok: "\<not> (tl = 0 \<or> tl > CAS_TYPE_MAX \<or> tl + 1 > k)" "\<not> tl + 1 \<ge> nul"
    and len: "length_loop (take (nul - (tl + 1)) (drop (tl + 1) hdr)) 0 = Some len"
    and r: "r = (chars_of (take tl hdr), len)"
  show ?thesis
    by (simp only: pack_parse_header_def Let_def * [unfolded CAS_HEADER_MAX_def] option.case
        if_not_P [OF ok(1)] if_not_P [OF ok(2)] length_loop_pack [OF len] r)
qed

section \<open>Names\<close>

lemma hash_object_eq:
  "cas_hash_object type data = (case format_header CAS_HEADER_MAX type (length data) of
     None \<Rightarrow> None | Some hdr \<Rightarrow> Some (cas_hash (hdr @ data)))"
proof -
  have "blake2b_final (blake2b_update (blake2b_update (blake2b_init CAS_HASH_LEN) hdr) data)
      = cas_digest (hdr @ data)" for hdr
    using blake2b_pieces [of CAS_HASH_LEN "[hdr, data]"] by (simp add: cas_digest_hash)
  then show ?thesis by (simp add: cas_hash_object_def cas_hash_digest Let_def split: option.splits)
qed

lemma digest_object_eq:
  assumes "type_ok t"
  shows "cas_hash_object t data = map_option to_hex (cas_digest_object t data)"
proof -
  have d: "blake2b_final (blake2b_update (blake2b_update (blake2b_init CAS_HASH_LEN) hdr) data)
      = cas_digest (hdr @ data)" for hdr
    using blake2b_pieces [of CAS_HASH_LEN "[hdr, data]"] by (simp add: cas_digest_hash)
  have "format_header CAS_HEADER_MAX t (length data) =
      (if length (header_text t (length data)) \<ge> CAS_HEADER_MAX then None
       else Some (header_text t (length data) @ [0]))"
    using assms by (auto simp: format_header_def type_ok_def Let_def)
  then show ?thesis
    by (simp add: hash_object_eq cas_digest_object_def d cas_hash_digest Let_def)
qed

lemma hash_object_canonical: "cas_hash_object t d = Some h \<Longrightarrow> canonical h = h"
  by (auto simp: hash_object_eq split: option.splits)

end
