(* ===== verification/Codec.thy ===== *)
theory Codec
  imports Header
begin

unbundle bit_operations_syntax

text \<open>
  The codec layer, \<open>cas-codec.c\<close>. Which codecs exist is decided when the program is built: the table
  is an argument of the model. The bundled DEFLATE codec calls a third-party library, so a codec
  is a pair of functions, and \<open>codec_ok\<close> states what \<open>cas-codec.h\<close> documents about them: an encoder
  fits its output in the buffer, a decoder produces exactly the requested number of bytes or fails
  with \<open>CAS_ERR\<close>, and decoding undoes encoding. Allocation outcomes are arguments.
\<close>

section \<open>The table\<close>

text \<open>The tags \<open>'%'\<close> and \<open>'Z'\<close>.\<close>

definition CAS_CODEC_NONE :: int where "CAS_CODEC_NONE = int (ascii CHR ''%'')"
definition CAS_CODEC_DEFLATE :: int where "CAS_CODEC_DEFLATE = int (ascii CHR ''Z'')"

record cas_codec =
  c_tag :: int
  c_decode :: "(byte list \<Rightarrow> nat \<Rightarrow> cas_rc + byte list) option"
  c_encode :: "(byte list \<Rightarrow> nat \<Rightarrow> cas_rc + byte list) option"
  c_name :: string

definition codec_table :: "cas_codec list \<Rightarrow> cas_codec list" where
  "codec_table configured =
     \<lparr>c_tag = CAS_CODEC_NONE, c_decode = None, c_encode = None, c_name = ''none''\<rparr> # configured"

definition codec_find :: "cas_codec list \<Rightarrow> int \<Rightarrow> cas_codec option" where
  "codec_find table tag = find (\<lambda>c. c_tag c = tag) table"

section \<open>Compression policy\<close>

datatype compress_policy = CAS_COMPRESS_NEVER | CAS_COMPRESS_ALWAYS | CAS_COMPRESS_GUESS

definition CAS_TEXT_SNIFF :: nat where "CAS_TEXT_SNIFF = 512"
definition CAS_TEXT_MAX_NONTEXT_PCT :: nat where "CAS_TEXT_MAX_NONTEXT_PCT = 10"

definition looks_text :: "byte list \<Rightarrow> bool" where
  "looks_text data =
     (if length data = 0 then False
      else let n = (if length data < CAS_TEXT_SNIFF then length data else CAS_TEXT_SNIFF);
               nontext = length (filter (\<lambda>c. c \<le> 0x08 \<or> (c \<ge> 0x0e \<and> c \<le> 0x1f) \<or> c = 0x7f) (take n data))
           in nontext * 100 \<le> n * CAS_TEXT_MAX_NONTEXT_PCT)"

fun cas_codec_policy :: "compress_policy \<Rightarrow> int \<Rightarrow> byte list \<Rightarrow> int" where
  "cas_codec_policy CAS_COMPRESS_ALWAYS codec data = codec"
| "cas_codec_policy CAS_COMPRESS_GUESS codec data = (if looks_text data then codec else CAS_CODEC_NONE)"
| "cas_codec_policy CAS_COMPRESS_NEVER codec data = CAS_CODEC_NONE"

section \<open>Wrappers\<close>

definition cas_codec_supported :: "cas_codec list \<Rightarrow> int \<Rightarrow> bool" where
  "cas_codec_supported table codec =
     (if codec = CAS_CODEC_NONE then True
      else case codec_find table codec of None \<Rightarrow> False | Some c \<Rightarrow> c_decode c \<noteq> None)"

definition cas_codec_can_encode :: "cas_codec list \<Rightarrow> int \<Rightarrow> bool" where
  "cas_codec_can_encode table codec =
     (if codec = CAS_CODEC_NONE then True
      else case codec_find table codec of None \<Rightarrow> False | Some c \<Rightarrow> c_encode c \<noteq> None)"

definition cas_codec_decode :: "cas_codec list \<Rightarrow> int \<Rightarrow> byte list \<Rightarrow> nat \<Rightarrow> cas_rc + byte list" where
  "cas_codec_decode table codec inp outlen =
     (if codec = CAS_CODEC_NONE then (if length inp \<noteq> outlen then Inl CAS_ERR else Inr inp)
      else case codec_find table codec of
        None \<Rightarrow> Inl CAS_ETYPE
      | Some c \<Rightarrow> (case c_decode c of None \<Rightarrow> Inl CAS_ETYPE | Some dec \<Rightarrow> dec inp outlen))"

definition cas_codec_encode :: "cas_codec list \<Rightarrow> int \<Rightarrow> byte list \<Rightarrow> nat \<Rightarrow> cas_rc + byte list" where
  "cas_codec_encode table codec inp cap =
     (if codec = CAS_CODEC_NONE then (if cap < length inp then Inl CAS_ERR else Inr inp)
      else case codec_find table codec of
        None \<Rightarrow> Inl CAS_ETYPE
      | Some c \<Rightarrow> (case c_encode c of None \<Rightarrow> Inl CAS_ETYPE | Some enc \<Rightarrow> enc inp cap))"

section \<open>Decoding a region\<close>

definition CAS_CODEC_MAX_PLAINTEXT :: nat where "CAS_CODEC_MAX_PLAINTEXT = 100 * 2 ^ 20"
definition CAS_CODEC_MAX_RATIO :: nat where "CAS_CODEC_MAX_RATIO = 256"

text \<open>\<open>mem\<close> is the outcome of the one allocation the function makes.\<close>

definition cas_codec_region_decode ::
    "cas_codec list \<Rightarrow> bool \<Rightarrow> byte list \<Rightarrow> bool \<Rightarrow> nat \<Rightarrow> cas_rc + byte list" where
  "cas_codec_region_decode table mem region framed plaintext_len =
     (if \<not> framed then
        (if length region \<noteq> plaintext_len then Inl CAS_ERR else Inr region)
      else if length region < 1 then Inl CAS_ERR
      else let codec = uint (region ! 0); payload = drop 1 region; payload_len = length region - 1 in
        if codec = CAS_CODEC_NONE then
          (if payload_len \<noteq> plaintext_len then Inl CAS_ERR else Inr payload)
        else if plaintext_len = 0 then Inr []
        else if payload_len = 0 \<or> plaintext_len > CAS_CODEC_MAX_PLAINTEXT \<or>
            plaintext_len div payload_len > CAS_CODEC_MAX_RATIO then Inl CAS_ERR
        else if \<not> mem then Inl CAS_ENOMEM
        else cas_codec_decode table codec payload plaintext_len)"

section \<open>What is assumed of the codecs\<close>

text \<open>Decoders return the requested length; what an encoder produced decodes to what it was given.\<close>

definition codec_ok :: "cas_codec list \<Rightarrow> bool" where
  "codec_ok table \<longleftrightarrow> (\<forall>tag c. codec_find table tag = Some c \<longrightarrow>
     (\<forall>dec. c_decode c = Some dec \<longrightarrow> (\<forall>inp n. (\<forall>out. dec inp n = Inr out \<longrightarrow> length out = n) \<and>
        (\<forall>rc. dec inp n = Inl rc \<longrightarrow> rc = CAS_ERR))) \<and>
     (\<forall>enc. c_encode c = Some enc \<longrightarrow> (\<exists>dec. c_decode c = Some dec \<and>
        (\<forall>inp cap out. enc inp cap = Inr out \<longrightarrow>
           length out \<le> cap \<and> dec out (length inp) = Inr inp))))"

lemma codec_none_ok: "codec_ok (codec_table [])"
  by (auto simp: codec_ok_def codec_find_def codec_table_def split: if_splits)

lemma codec_decode_length:
  assumes "codec_ok table" "cas_codec_decode table codec inp n = Inr out"
  shows "length out = n"
  using assms by (auto simp: cas_codec_decode_def codec_ok_def split: if_splits option.splits)

lemma codec_roundtrip:
  assumes "codec_ok table" "cas_codec_encode table codec inp cap = Inr out"
  shows "cas_codec_decode table codec out (length inp) = Inr inp \<and> length out \<le> cap"
proof (cases "codec = CAS_CODEC_NONE")
  case True
  then show ?thesis using assms(2) by (auto simp: cas_codec_decode_def cas_codec_encode_def split: if_splits)
next
  case False
  then obtain c enc where c: "codec_find table codec = Some c" "c_encode c = Some enc" "enc inp cap = Inr out"
    using assms(2) by (auto simp: cas_codec_encode_def split: option.splits)
  then obtain dec where "c_decode c = Some dec" "length out \<le> cap" "dec out (length inp) = Inr inp"
    using assms(1) unfolding codec_ok_def by metis
  with c False show ?thesis by (simp add: cas_codec_decode_def)
qed

lemma region_decode_length:
  assumes "codec_ok table" "cas_codec_region_decode table mem region framed n = Inr out"
  shows "length out = n"
proof -
  have "cas_codec_decode table (uint (region ! 0)) (drop 1 region) n = Inr out \<Longrightarrow> length out = n"
    by (rule codec_decode_length [OF assms(1)])
  with assms(2) show ?thesis
    by (auto simp: cas_codec_region_decode_def Let_def split: if_splits)
qed

lemma region_decode_errors:
  assumes "codec_ok table" "cas_codec_region_decode table mem region framed n = Inl rc"
  shows "rc \<noteq> CAS_ENOTFOUND \<and> rc \<noteq> CAS_OK"
proof -
  have "rc \<in> {CAS_ERR, CAS_ETYPE}" if "cas_codec_decode table codec inp n = Inl rc" for codec inp
    using that assms(1) by (auto simp: cas_codec_decode_def codec_ok_def split: if_splits option.splits)
  then have "cas_codec_decode table (uint (region ! 0)) (drop 1 region) n = Inl rc \<Longrightarrow> rc \<in> {CAS_ERR, CAS_ETYPE}"
    by blast
  with assms(2) show ?thesis
    by (auto simp: cas_codec_region_decode_def Let_def split: if_splits)
qed

end
