(* ===== verification/Pack.thy ===== *)
theory Pack
  imports Codec
begin

unbundle bit_operations_syntax

text \<open>
  Reading packfiles, \<open>cas-pack.c\<close>: opening, binary search in the index, lookup, iteration. A pack
  is mapped memory, so every read goes through \<open>peek\<close>, which is \<open>None\<close> outside the mapping: a
  result \<open>None\<close> of an operation is a read out of bounds. Sizes and offsets are 64-bit words and
  wrap as in the code.
\<close>

section \<open>Memory\<close>

definition peek :: "byte list \<Rightarrow> nat \<Rightarrow> nat \<Rightarrow> byte list option" where
  "peek buf off n = (if off + n \<le> length buf then Some (take n (drop off buf)) else None)"

text \<open>The sign of \<open>memcmp\<close> on two regions of the same length.\<close>

fun memcmp :: "byte list \<Rightarrow> byte list \<Rightarrow> int" where
  "memcmp (a # as) (b # bs) = (if a < b then -1 else if a > b then 1 else memcmp as bs)"
| "memcmp _ _ = 0"

section \<open>Format\<close>

definition CAS_PACK_BLOCK :: nat where "CAS_PACK_BLOCK = 64"
definition CAS_PACK_MAGIC_LEN :: nat where "CAS_PACK_MAGIC_LEN = 8"
definition CAS_PACK_HEADER_LEN :: nat where "CAS_PACK_HEADER_LEN = 56"

definition CAS_PACK_TRAILER_MAGIC :: "byte list" where
  "CAS_PACK_TRAILER_MAGIC = [0xCB, 0x4F, 0x42, 0x4A, 0xAA, 0x01, 0x00, 0x00]"

definition CAS_PACK_TRAILER_MAGIC_V2 :: "byte list" where
  "CAS_PACK_TRAILER_MAGIC_V2 = [0xCB, 0x4F, 0x42, 0x4A, 0xAA, 0x02, 0x00, 0x00]"

definition CAS_PACK_FOOTER_MAGIC_V1 :: "byte list" where
  "CAS_PACK_FOOTER_MAGIC_V1 = [0xCB, 0x50, 0x4B, 0x46, 0xAA, 0x01, 0x00, 0x00]"

definition PACK_IDX_HASH :: nat where "PACK_IDX_HASH = 0"
definition PACK_IDX_OFFSET :: nat where "PACK_IDX_OFFSET = CAS_HASH_LEN"
definition PACK_IDX_STORED :: nat where "PACK_IDX_STORED = CAS_HASH_LEN + 8"
definition PACK_FT_COUNT :: nat where "PACK_FT_COUNT = CAS_PACK_MAGIC_LEN"
definition PACK_FT_CKSUM :: nat where "PACK_FT_CKSUM = CAS_PACK_MAGIC_LEN + 8"

lemmas pack_consts = CAS_PACK_BLOCK_def CAS_PACK_MAGIC_LEN_def CAS_PACK_HEADER_LEN_def
  PACK_IDX_HASH_def PACK_IDX_OFFSET_def PACK_IDX_STORED_def PACK_FT_COUNT_def PACK_FT_CKSUM_def
  CAS_HASH_LEN_def

record cas_pack =
  p_map :: "byte list"
  p_count :: u64
  p_index :: nat

abbreviation p_maplen :: "cas_pack \<Rightarrow> u64" where
  "p_maplen p \<equiv> of_nat (length (p_map p))"

section \<open>Opening\<close>

text \<open>
  The argument is the file, if it can be opened; \<open>sys\<close> tells whether the system calls and the
  allocation succeed.
\<close>

definition cas_pack_open :: "bool \<Rightarrow> byte list option \<Rightarrow> cas_pack option option" where
  "cas_pack_open sys file_opt =
     (case file_opt of
        None \<Rightarrow> Some None
      | Some mp \<Rightarrow>
          let filesz = of_nat (length mp) :: u64 in
          if \<not> sys then Some None
          else if length mp < CAS_PACK_BLOCK then Some None
          else let ft = length mp - CAS_PACK_BLOCK in
            if take CAS_PACK_MAGIC_LEN (drop ft mp) \<noteq> CAS_PACK_FOOTER_MAGIC_V1 then Some None
            else let count = load_le64 (drop (ft + PACK_FT_COUNT) mp);
                     index_size = count * of_nat CAS_PACK_BLOCK;
                     tail_size = index_size + of_nat CAS_PACK_BLOCK
                 in
              if tail_size > filesz then Some None
              else let index = unat (filesz - tail_size);
                       check_len = index_size + 16
                   in
                (case peek mp index (unat check_len) of
                   None \<Rightarrow> None
                 | Some region \<Rightarrow>
                     if cas_digest region \<noteq> take CAS_HASH_LEN (drop (ft + PACK_FT_CKSUM) mp) then Some None
                     else Some (Some \<lparr>p_map = mp, p_count = count, p_index = index\<rparr>)))"

section \<open>Lookup\<close>

lemma mid_bounds:
  fixes lo hi :: u64
  assumes "lo < hi"
  shows "unat (lo + (hi - lo) div 2) = unat lo + (unat hi - unat lo) div 2"
    "unat lo \<le> unat (lo + (hi - lo) div 2)" "unat (lo + (hi - lo) div 2) < unat hi"
proof -
  have lt: "unat lo < unat hi" using assms by (simp add: word_less_nat_alt)
  have d: "unat ((hi - lo) div 2) = (unat hi - unat lo) div 2"
    using lt by (simp add: unat_div unat_sub word_le_nat_alt)
  have "unat lo + (unat hi - unat lo) div 2 < unat hi" using lt by linarith
  moreover have "unat hi < 2 ^ 64" using unsigned_less [of hi] by simp
  ultimately show s: "unat (lo + (hi - lo) div 2) = unat lo + (unat hi - unat lo) div 2"
    using d by (simp add: unat_word_ariths)
  show "unat lo \<le> unat (lo + (hi - lo) div 2)" "unat (lo + (hi - lo) div 2) < unat hi"
    unfolding s using lt by linarith+
qed

lemma unat_Suc_less:
  fixes w v :: u64
  assumes "unat w < unat v"
  shows "unat (w + 1) = Suc (unat w)"
proof -
  have "unat v < 2 ^ 64" using unsigned_less [of v] by simp
  with assms have "Suc (unat w) < 2 ^ 64" by linarith
  then show ?thesis by (simp add: unat_word_ariths)
qed

function find_loop :: "cas_pack \<Rightarrow> byte list \<Rightarrow> u64 \<Rightarrow> u64 \<Rightarrow> nat option option" where
  "find_loop pack bin lo hi =
     (if lo < hi then
        let mid = lo + (hi - lo) div 2;
            e = p_index pack + unat (mid * of_nat CAS_PACK_BLOCK) in
        (case peek (p_map pack) (e + PACK_IDX_HASH) CAS_HASH_LEN of
           None \<Rightarrow> None
         | Some h \<Rightarrow>
             let cmp = memcmp h bin in
             if cmp < 0 then find_loop pack bin (mid + 1) hi
             else if cmp > 0 then find_loop pack bin lo mid
             else Some (Some e))
      else Some None)"
  by pat_completeness auto
termination
proof (relation "measure (\<lambda>(pack, bin, lo, hi). unat hi - unat lo)", goal_cases)
  case 1
  then show ?case by simp
next
  case (2 pack bin lo hi mid e h cmp)
  then have m: "unat lo \<le> unat mid" "unat mid < unat hi" using mid_bounds [of lo hi] by auto
  with unat_Suc_less [of mid hi] show ?case by auto
next
  case (3 pack bin lo hi mid e h cmp)
  then have "unat lo \<le> unat mid" "unat mid < unat hi" using mid_bounds [of lo hi] by auto
  moreover have "unat lo < unat hi" using 3 by (simp add: word_less_nat_alt)
  ultimately show ?case by auto
qed

declare find_loop.simps [simp del]

definition find_entry :: "cas_pack \<Rightarrow> byte list \<Rightarrow> nat option option" where
  "find_entry pack bin = find_loop pack bin 0 (p_count pack)"

text \<open>The fields of an index entry.\<close>

definition entry_offset :: "cas_pack \<Rightarrow> nat \<Rightarrow> u64" where
  "entry_offset pack e = load_le64 (drop (e + PACK_IDX_OFFSET) (p_map pack))"

definition entry_stored :: "cas_pack \<Rightarrow> nat \<Rightarrow> u64" where
  "entry_stored pack e = load_le64 (drop (e + PACK_IDX_STORED) (p_map pack))"

definition pack_raw_region ::
    "cas_pack \<Rightarrow> byte list \<Rightarrow> (cas_rc + (byte list \<times> byte list)) option" where
  "pack_raw_region pack bin =
     (case find_entry pack bin of
        None \<Rightarrow> None
      | Some None \<Rightarrow> Some (Inl CAS_ENOTFOUND)
      | Some (Some e) \<Rightarrow>
          let trailer_off = entry_offset pack e in
          if trailer_off + of_nat CAS_PACK_BLOCK > p_maplen pack then Some (Inl CAS_ERR)
          else (case peek (p_map pack) (unat trailer_off) CAS_PACK_BLOCK of
            None \<Rightarrow> None
          | Some tr \<Rightarrow>
            (case pack_parse_header (drop CAS_PACK_MAGIC_LEN tr) (CAS_TYPE_MAX + 1) of
               None \<Rightarrow> Some (Inl CAS_ERR)
             | Some (type, content_len) \<Rightarrow>
                 let stored = entry_stored pack e;
                     rsize = (if stored \<noteq> 0 then stored else content_len)
                 in if rsize > trailer_off then Some (Inl CAS_ERR)
                 else (case peek (p_map pack) (unat (trailer_off - rsize)) (unat rsize) of
                         None \<Rightarrow> None
                       | Some region \<Rightarrow> Some (Inr (region, tr))))))"

text \<open>
  \<open>cas_hex_decode(hash, CAS_HASH_HEX, bin, sizeof(bin))\<close>: in a shorter string the terminator is
  met, which is not a digit.
\<close>

definition decode_name :: "string \<Rightarrow> byte list option" where
  "decode_name hash =
     (if length hash < CAS_HASH_HEX then None else cas_hex_decode (take CAS_HASH_HEX hash) CAS_HASH_LEN)"

text \<open>
  \<open>type_bufsz\<close> is the size of the buffer for the type, if the caller wants it; \<open>mem\<close> the outcome
  of the allocation a decode makes.
\<close>

definition cas_pack_lookup ::
    "cas_codec list \<Rightarrow> bool \<Rightarrow> cas_pack \<Rightarrow> string \<Rightarrow> nat option \<Rightarrow> (cas_rc + (string \<times> byte list)) option" where
  "cas_pack_lookup table mem pack hash type_bufsz =
     (case decode_name hash of
        None \<Rightarrow> Some (Inl CAS_ERR)
      | Some bin \<Rightarrow>
     (case find_entry pack bin of
        None \<Rightarrow> None
      | Some None \<Rightarrow> Some (Inl CAS_ENOTFOUND)
      | Some (Some e) \<Rightarrow>
          let trailer_off = entry_offset pack e in
          if trailer_off + of_nat CAS_PACK_BLOCK > p_maplen pack then Some (Inl CAS_ERR)
          else (case peek (p_map pack) (unat trailer_off) CAS_PACK_BLOCK of
            None \<Rightarrow> None
          | Some tr \<Rightarrow>
            let magic = take CAS_PACK_MAGIC_LEN tr in
            if magic \<noteq> CAS_PACK_TRAILER_MAGIC \<and> magic \<noteq> CAS_PACK_TRAILER_MAGIC_V2 then Some (Inl CAS_ERR)
            else let framed = (magic \<noteq> CAS_PACK_TRAILER_MAGIC) in
            (case pack_parse_header (drop CAS_PACK_MAGIC_LEN tr) (CAS_TYPE_MAX + 1) of
               None \<Rightarrow> Some (Inl CAS_ERR)
             | Some (type, content_len) \<Rightarrow>
                 let stored = entry_stored pack e;
                     region_size = (if stored \<noteq> 0 then stored else content_len)
                 in if region_size > trailer_off then Some (Inl CAS_ERR)
                 else if (case type_bufsz of None \<Rightarrow> False | Some n \<Rightarrow> length type \<ge> n) then Some (Inl CAS_ERR)
                 else (case peek (p_map pack) (unat (trailer_off - region_size)) (unat region_size) of
                         None \<Rightarrow> None
                       | Some region \<Rightarrow>
                           (case cas_codec_region_decode table mem region framed (unat content_len) of
                              Inl rc \<Rightarrow> Some (Inl rc)
                            | Inr data \<Rightarrow> Some (Inr (type, data))))))))"

definition cas_pack_exists :: "cas_pack \<Rightarrow> string \<Rightarrow> bool option" where
  "cas_pack_exists pack hash =
     (case decode_name hash of
        None \<Rightarrow> Some False
      | Some bin \<Rightarrow> map_option (\<lambda>e. e \<noteq> None) (find_entry pack bin))"

definition cas_pack_count :: "cas_pack \<Rightarrow> u64" where
  "cas_pack_count pack = p_count pack"

section \<open>The order of names\<close>

lemma memcmp_0_iff: "length a = length b \<Longrightarrow> memcmp a b = 0 \<longleftrightarrow> a = b"
  by (induction a b rule: memcmp.induct) auto

lemma memcmp_swap: "length a = length b \<Longrightarrow> memcmp b a = - memcmp a b"
  by (induction a b rule: memcmp.induct) auto

lemma memcmp_less_Cons: "memcmp (a # as) (b # bs) < 0 \<longleftrightarrow> a < b \<or> a = b \<and> memcmp as bs < 0"
  by auto

lemma memcmp_trans:
  "length a = length b \<Longrightarrow> length b = length c \<Longrightarrow> memcmp a b < 0 \<Longrightarrow> memcmp b c < 0 \<Longrightarrow> memcmp a c < 0"
proof (induction a arbitrary: b c)
  case (Cons x a)
  from Cons.prems(1,2) obtain y b' z c' where bc: "b = y # b'" "c = z # c'"
    by (cases b; cases c) simp_all
  have l: "length a = length b'" "length b' = length c'" using Cons.prems(1,2) bc by simp_all
  have "x < y \<or> x = y \<and> memcmp a b' < 0" "y < z \<or> y = z \<and> memcmp b' c' < 0"
    using Cons.prems(3,4) unfolding bc memcmp_less_Cons .
  then have "x < z \<or> x = z \<and> memcmp a c' < 0"
    using Cons.IH [OF l] by (elim disjE conjE) (simp_all add: order.strict_trans [of x y z])
  then show ?case unfolding bc memcmp_less_Cons .
qed simp

lemma hex_loop_length: "hex_loop s = Some bs \<Longrightarrow> length bs = length s div 2"
  by (induction s arbitrary: bs rule: hex_loop.induct) (auto split: option.splits)

lemma decode_name_length: "decode_name h = Some bin \<Longrightarrow> length bin = CAS_HASH_LEN"
  by (auto simp: decode_name_def cas_hex_decode_def CAS_HASH_HEX_def CAS_HASH_LEN_def
      split: if_splits dest: hex_loop_length)

section \<open>Binary search\<close>

text \<open>The index lies inside the mapping, and its entries.\<close>

definition index_fits :: "cas_pack \<Rightarrow> bool" where
  "index_fits p \<longleftrightarrow> p_index p + CAS_PACK_BLOCK * unat (p_count p) \<le> length (p_map p) \<and>
     length (p_map p) < 2 ^ 64"

definition entry_at :: "cas_pack \<Rightarrow> nat \<Rightarrow> nat" where
  "entry_at p i = p_index p + CAS_PACK_BLOCK * i"

definition entry_hash :: "cas_pack \<Rightarrow> nat \<Rightarrow> byte list" where
  "entry_hash p i = take CAS_HASH_LEN (drop (entry_at p i) (p_map p))"

definition index_sorted :: "cas_pack \<Rightarrow> bool" where
  "index_sorted p \<longleftrightarrow> (\<forall>i j. i < j \<longrightarrow> j < unat (p_count p) \<longrightarrow> memcmp (entry_hash p i) (entry_hash p j) < 0)"

lemma entry_offset_word:
  fixes mid :: u64
  assumes "index_fits p" "unat mid < unat (p_count p)"
  shows "p_index p + unat (mid * of_nat CAS_PACK_BLOCK) = entry_at p (unat mid)"
    "peek (p_map p) (entry_at p (unat mid) + PACK_IDX_HASH) CAS_HASH_LEN = Some (entry_hash p (unat mid))"
    "length (entry_hash p (unat mid)) = CAS_HASH_LEN"
proof -
  have le: "entry_at p (unat mid) + CAS_PACK_BLOCK \<le> length (p_map p)"
    using assms by (simp add: index_fits_def entry_at_def CAS_PACK_BLOCK_def)
  then have "64 * unat mid < 2 ^ 64"
    using assms(1) by (simp add: index_fits_def entry_at_def CAS_PACK_BLOCK_def)
  then show "p_index p + unat (mid * of_nat CAS_PACK_BLOCK) = entry_at p (unat mid)"
    by (simp add: entry_at_def CAS_PACK_BLOCK_def unat_word_ariths mult.commute)
  show "peek (p_map p) (entry_at p (unat mid) + PACK_IDX_HASH) CAS_HASH_LEN = Some (entry_hash p (unat mid))"
    "length (entry_hash p (unat mid)) = CAS_HASH_LEN"
    using le by (simp_all add: peek_def entry_hash_def pack_consts)
qed

lemma find_loop_correct:
  assumes "index_fits p" "length bin = CAS_HASH_LEN" "unat hi \<le> unat (p_count p)"
  shows "\<exists>r. find_loop p bin lo hi = Some r \<and>
    (\<forall>e. r = Some e \<longrightarrow> (\<exists>i. unat lo \<le> i \<and> i < unat hi \<and> e = entry_at p i \<and> entry_hash p i = bin)) \<and>
    (index_sorted p \<longrightarrow> r = None \<longrightarrow> (\<forall>i. unat lo \<le> i \<longrightarrow> i < unat hi \<longrightarrow> entry_hash p i \<noteq> bin))"
  using assms(3)
proof (induction "unat hi - unat lo" arbitrary: lo hi rule: less_induct)
  case less
  show ?case
  proof (cases "lo < hi")
    case False
    then show ?thesis by (subst find_loop.simps) (simp add: word_less_nat_alt)
  next
    case True
    define mid where "mid = lo + (hi - lo) div 2"
    have m: "unat lo \<le> unat mid" "unat mid < unat hi" using mid_bounds [OF True] by (simp_all add: mid_def)
    then have mc: "unat mid < unat (p_count p)" using less.prems by simp
    note e = entry_offset_word [OF assms(1) mc]
    let ?h = "entry_hash p (unat mid)"
    have len: "length ?h = length bin" using e(3) assms(2) by simp
    have s: "unat (mid + 1) = Suc (unat mid)" using m(2) by (rule unat_Suc_less)
    have unf: "find_loop p bin lo hi = (let cmp = memcmp ?h bin in
        if cmp < 0 then find_loop p bin (mid + 1) hi
        else if cmp > 0 then find_loop p bin lo mid else Some (Some (entry_at p (unat mid))))"
      using True e(1,2) by (subst find_loop.simps) (simp add: Let_def mid_def [symmetric])
    consider "memcmp ?h bin < 0" | "memcmp ?h bin > 0" | "memcmp ?h bin = 0" by linarith
    then show ?thesis
    proof cases
      case 1
      have low: "entry_hash p i \<noteq> bin" if "index_sorted p" "i \<le> unat mid" for i
      proof (cases "i = unat mid")
        case True
        then show ?thesis using 1 memcmp_0_iff [OF len] by auto
      next
        case False
        with that mc have "memcmp (entry_hash p i) ?h < 0" by (simp add: index_sorted_def)
        then show ?thesis using 1 memcmp_swap [OF len] by auto
      qed
      obtain r where r: "find_loop p bin (mid + 1) hi = Some r"
        "\<forall>e. r = Some e \<longrightarrow> (\<exists>i. unat (mid + 1) \<le> i \<and> i < unat hi \<and> e = entry_at p i \<and> entry_hash p i = bin)"
        "index_sorted p \<longrightarrow> r = None \<longrightarrow> (\<forall>i. unat (mid + 1) \<le> i \<longrightarrow> i < unat hi \<longrightarrow> entry_hash p i \<noteq> bin)"
      proof -
        have "unat hi - unat (mid + 1) < unat hi - unat lo" using m s by linarith
        with less.hyps [of hi "mid + 1"] less.prems that show thesis by blast
      qed
      have "\<forall>i. unat lo \<le> i \<longrightarrow> i < unat hi \<longrightarrow> entry_hash p i \<noteq> bin" if "index_sorted p" "r = None"
        using that r(3) low s by (metis not_less_eq_eq)
      moreover have "\<exists>i. unat lo \<le> i \<and> i < unat hi \<and> e = entry_at p i \<and> entry_hash p i = bin" if re: "r = Some e" for e
      proof -
        from r(2) re obtain i where "unat (mid + 1) \<le> i" "i < unat hi" "e = entry_at p i" "entry_hash p i = bin" by blast
        with m s show ?thesis by (intro exI [of _ i]) simp
      qed
      moreover have "find_loop p bin lo hi = Some r" using r(1) 1 by (simp add: unf)
      ultimately show ?thesis by blast
    next
      case 2
      have high: "entry_hash p i \<noteq> bin" if "index_sorted p" "unat mid \<le> i" "i < unat (p_count p)" for i
      proof (cases "i = unat mid")
        case True
        then show ?thesis using 2 memcmp_0_iff [OF len] by auto
      next
        case False
        with that have "memcmp ?h (entry_hash p i) < 0" by (simp add: index_sorted_def)
        then show ?thesis using 2 by auto
      qed
      obtain r where r: "find_loop p bin lo mid = Some r"
        "\<forall>e. r = Some e \<longrightarrow> (\<exists>i. unat lo \<le> i \<and> i < unat mid \<and> e = entry_at p i \<and> entry_hash p i = bin)"
        "index_sorted p \<longrightarrow> r = None \<longrightarrow> (\<forall>i. unat lo \<le> i \<longrightarrow> i < unat mid \<longrightarrow> entry_hash p i \<noteq> bin)"
      proof -
        have "unat mid - unat lo < unat hi - unat lo" "unat mid \<le> unat (p_count p)" using m mc by linarith+
        with less.hyps [of mid lo] that show thesis by blast
      qed
      have "\<forall>i. unat lo \<le> i \<longrightarrow> i < unat hi \<longrightarrow> entry_hash p i \<noteq> bin" if "index_sorted p" "r = None"
        using that r(3) high less.prems by (metis le_less_linear less_le_trans)
      moreover have "\<exists>i. unat lo \<le> i \<and> i < unat hi \<and> e = entry_at p i \<and> entry_hash p i = bin" if re: "r = Some e" for e
      proof -
        from r(2) re obtain i where "unat lo \<le> i" "i < unat mid" "e = entry_at p i" "entry_hash p i = bin" by blast
        with m show ?thesis by (intro exI [of _ i]) simp
      qed
      moreover have "find_loop p bin lo hi = Some r" using r(1) 2 by (simp add: unf)
      ultimately show ?thesis by blast
    next
      case 3
      then have "?h = bin" using memcmp_0_iff [OF len] by simp
      with 3 m show ?thesis by (auto simp: unf)
    qed
  qed
qed

lemma find_entry_correct:
  assumes "index_fits p" "length bin = CAS_HASH_LEN"
  shows "\<exists>r. find_entry p bin = Some r \<and>
    (\<forall>e. r = Some e \<longrightarrow> (\<exists>i<unat (p_count p). e = entry_at p i \<and> entry_hash p i = bin)) \<and>
    (index_sorted p \<longrightarrow> r = None \<longrightarrow> (\<forall>i<unat (p_count p). entry_hash p i \<noteq> bin))"
  using find_loop_correct [OF assms, of "p_count p" 0] by (auto simp: find_entry_def)

section \<open>Reads stay inside the mapping\<close>

text \<open>The trailer offsets of all entries, as the format promises them.\<close>

definition offsets_fit :: "cas_pack \<Rightarrow> bool" where
  "offsets_fit p \<longleftrightarrow> (\<forall>i<unat (p_count p). unat (entry_offset p (entry_at p i)) + CAS_PACK_BLOCK < 2 ^ 64)"

lemma peek_trailer:
  assumes "unat off + CAS_PACK_BLOCK < 2 ^ 64" "length m < 2 ^ 64"
    and "\<not> (off :: u64) + of_nat CAS_PACK_BLOCK > of_nat (length m)"
  shows "peek m (unat off) CAS_PACK_BLOCK = Some (take CAS_PACK_BLOCK (drop (unat off) m))"
    and "r \<le> off \<Longrightarrow> peek m (unat (off - r)) (unat r) = Some (take (unat r) (drop (unat off - unat r) m))"
proof -
  have "unat (off + of_nat CAS_PACK_BLOCK) = unat off + CAS_PACK_BLOCK"
    using assms(1) by (simp add: unat_word_ariths CAS_PACK_BLOCK_def)
  then have le: "unat off + CAS_PACK_BLOCK \<le> length m"
    using assms(2,3) by (simp add: word_less_nat_alt unat_of_nat not_less)
  then show "peek m (unat off) CAS_PACK_BLOCK = Some (take CAS_PACK_BLOCK (drop (unat off) m))"
    by (simp add: peek_def)
  assume "r \<le> off"
  then have "unat (off - r) = unat off - unat r" "unat r \<le> unat off"
    by (simp_all add: unat_sub word_le_nat_alt)
  with le show "peek m (unat (off - r)) (unat r) = Some (take (unat r) (drop (unat off - unat r) m))"
    by (simp add: peek_def)
qed

lemma pack_lookup_no_fault:
  assumes "index_fits p" "offsets_fit p"
  shows "cas_pack_lookup table mem p hash bufsz \<noteq> None"
proof (cases "decode_name hash")
  case None
  then show ?thesis by (simp add: cas_pack_lookup_def)
next
  case (Some bin)
  from find_entry_correct [OF assms(1) decode_name_length [OF Some]] obtain r where
    r: "find_entry p bin = Some r" "\<And>e. r = Some e \<Longrightarrow> \<exists>i<unat (p_count p). e = entry_at p i" by blast
  show ?thesis
  proof (cases r)
    case None
    with r Some show ?thesis by (simp add: cas_pack_lookup_def)
  next
    case e: (Some e)
    then have fit: "unat (entry_offset p e) + CAS_PACK_BLOCK < 2 ^ 64"
      using r(2) assms(2) by (auto simp: offsets_fit_def)
    have lm: "length (p_map p) < 2 ^ 64" using assms(1) by (simp add: index_fits_def)
    show ?thesis
      using peek_trailer [OF fit lm] r(1) e Some
      by (auto simp: cas_pack_lookup_def Let_def not_less split: option.splits sum.splits)
  qed
qed

text \<open>A lookup reports a missing object exactly when the index has no entry for its name.\<close>

lemma pack_lookup_missing:
  assumes "codec_ok table"
  shows "cas_pack_lookup table mem p h bufsz = Some (Inl CAS_ENOTFOUND) \<longleftrightarrow>
    decode_name h \<noteq> None \<and> cas_pack_exists p h = Some False"
proof (cases "decode_name h")
  case None
  then show ?thesis by (simp add: cas_pack_lookup_def)
next
  case (Some bin)
  note dec = region_decode_errors [OF assms]
  show ?thesis
  proof (cases "find_entry p bin")
    case None
    with Some show ?thesis by (simp add: cas_pack_lookup_def cas_pack_exists_def)
  next
    case r: (Some r)
    show ?thesis
    proof (cases r)
      case None
      with Some r show ?thesis by (simp add: cas_pack_lookup_def cas_pack_exists_def)
    next
      case e: (Some e)
      have "cas_pack_lookup table mem p h bufsz \<noteq> Some (Inl CAS_ENOTFOUND)"
        unfolding cas_pack_lookup_def Some r e option.case Let_def
        by (auto split: option.splits if_splits sum.splits dest: dec)
      with Some r e show ?thesis by (simp add: cas_pack_exists_def)
    qed
  qed
qed

end
