(* ===== verification/Store.thy ===== *)
theory Store
  imports Pack
begin

unbundle bit_operations_syntax

text \<open>
  The object store, \<open>cas.c\<close>: loose objects as files under the depot directory and an optional
  pack. The disk is the map \<open>s_files\<close> from paths to contents. \<open>s_sys\<close> lists the outcomes of the
  coming system calls and allocations; an exhausted list means success. A temporary file is
  written, synced and renamed over its final path, or removed, before another call of the
  library can see it, so only the rename shows in the model. A result \<open>None\<close> is a read outside
  the pack mapping.
\<close>

section \<open>State\<close>

record cas =
  s_basedir :: string
  s_pack :: "cas_pack option"
  s_files :: "string \<Rightarrow> byte list option"
  s_sys :: "bool list"

definition CAS_PATH_MAX :: nat where "CAS_PATH_MAX = 512"

definition sys_call :: "cas \<Rightarrow> bool \<times> cas" where
  "sys_call s = (case s_sys s of [] \<Rightarrow> (True, s) | b # bs \<Rightarrow> (b, s\<lparr>s_sys := bs\<rparr>))"

section \<open>Compression settings\<close>

record cas_compress_config =
  enabled :: bool
  min_size :: nat
  min_savings_pct :: int

definition default_compress_cfg :: cas_compress_config where
  "default_compress_cfg = \<lparr>enabled = True, min_size = 512, min_savings_pct = 12\<rparr>"

text \<open>\<open>cas_compression_config\<close> on the current settings; the argument may be absent.\<close>

definition cas_compression_config ::
    "cas_compress_config \<Rightarrow> cas_compress_config option \<Rightarrow> cas_rc \<times> cas_compress_config" where
  "cas_compression_config cur cfg_opt =
     (case cfg_opt of
        None \<Rightarrow> (CAS_ERR, cur)
      | Some cfg \<Rightarrow>
          if min_savings_pct cfg < 1 \<or> min_savings_pct cfg > 99 then (CAS_ERR, cur)
          else (CAS_OK, cfg))"

definition cas_compression_reset :: "cas_compress_config \<Rightarrow> cas_compress_config" where
  "cas_compression_reset cur = \<lparr>enabled = True, min_size = 512, min_savings_pct = 12\<rparr>"

section \<open>Paths\<close>

fun has_dotdot :: "string \<Rightarrow> bool" where
  "has_dotdot [] = False"
| "has_dotdot (c # p) =
     (if c = CHR ''.'' \<and> p \<noteq> [] \<and> hd p = CHR ''.'' \<and> (tl p = [] \<or> hd (tl p) = CHR ''/'') then True
      else has_dotdot p)"

text \<open>\<open>resolves\<close> is the outcome of \<open>realpath\<close> if the path exists.\<close>

definition validate_basedir :: "bool \<Rightarrow> bool \<Rightarrow> string \<Rightarrow> bool" where
  "validate_basedir exists resolves basedir =
     (if basedir = [] then False
      else if has_dotdot basedir then False
      else if exists \<and> \<not> resolves then False
      else True)"

definition build_path :: "cas \<Rightarrow> string \<Rightarrow> nat \<Rightarrow> string option" where
  "build_path s hash bufsz =
     (let buf = s_basedir s @ ''/'' @ take 2 hash @ ''/'' @ hash in
      if length buf \<ge> bufsz then None else Some buf)"

definition build_dir :: "cas \<Rightarrow> string \<Rightarrow> nat \<Rightarrow> string option" where
  "build_dir s hash bufsz =
     (let buf = s_basedir s @ ''/'' @ take 2 hash in
      if length buf \<ge> bufsz then None else Some buf)"

section \<open>Reading\<close>

text \<open>
  Open, \<open>fstat\<close>, size check and mapping of a loose object: its data region and its trailer.
\<close>

definition MAX_FILE :: nat where "MAX_FILE = 2 ^ 30"

definition map_loose :: "cas \<Rightarrow> string \<Rightarrow> (cas_rc + (byte list \<times> byte list)) \<times> cas" where
  "map_loose s hash =
     (case build_path s hash CAS_PATH_MAX of
        None \<Rightarrow> (Inl CAS_ERR, s)
      | Some path \<Rightarrow>
          let (opened, s1) = sys_call s in
          (case (if opened then s_files s1 path else None) of
             None \<Rightarrow> (Inl CAS_ENOTFOUND, s1)
           | Some file_data \<Rightarrow>
               let (stat_ok, s2) = sys_call s1 in
               if \<not> stat_ok then (Inl CAS_EIO, s2)
               else if length file_data < CAS_PACK_BLOCK \<or> length file_data > MAX_FILE then (Inl CAS_ERR, s2)
               else let (map_ok, s3) = sys_call s2 in
                 if \<not> map_ok then (Inl CAS_EIO, s3)
                 else let n = length file_data - CAS_PACK_BLOCK in
                   (Inr (take n file_data, drop n file_data), s3)))"

definition cas_open_loose_raw :: "cas \<Rightarrow> string \<Rightarrow> (cas_rc + (byte list \<times> byte list)) \<times> cas" where
  "cas_open_loose_raw s hash =
     (if \<not> valid_hash hash then (Inl CAS_ERR, s)
      else (case map_loose s hash of
        (Inl rc, s1) \<Rightarrow> (Inl rc, s1)
      | (Inr (region, tr), s1) \<Rightarrow>
          let magic = take CAS_PACK_MAGIC_LEN tr in
          if magic \<noteq> CAS_PACK_TRAILER_MAGIC \<and> magic \<noteq> CAS_PACK_TRAILER_MAGIC_V2 then (Inl CAS_ERR, s1)
          else (Inr (region, tr), s1)))"

text \<open>The part of \<open>cas_open_object\<close> after the pack has been consulted.\<close>

definition open_loose ::
    "cas_codec list \<Rightarrow> cas \<Rightarrow> string \<Rightarrow> nat option \<Rightarrow> (cas_rc + (string \<times> byte list)) \<times> cas" where
  "open_loose table s hash type_bufsz =
     (case map_loose s hash of
        (Inl rc, s1) \<Rightarrow> (Inl rc, s1)
      | (Inr (region, tr), s1) \<Rightarrow>
          let magic = take CAS_PACK_MAGIC_LEN tr in
          if magic \<noteq> CAS_PACK_TRAILER_MAGIC \<and> magic \<noteq> CAS_PACK_TRAILER_MAGIC_V2 then (Inl CAS_ERR, s1)
          else let framed = (magic \<noteq> CAS_PACK_TRAILER_MAGIC) in
            (case parse_header (drop CAS_PACK_MAGIC_LEN tr) (CAS_TYPE_MAX + 1) of
               None \<Rightarrow> (Inl CAS_ERR, s1)
             | Some (type, content_len) \<Rightarrow>
                 if (case type_bufsz of None \<Rightarrow> False | Some n \<Rightarrow> length type \<ge> n) then (Inl CAS_ERR, s1)
                 else let (mem, s2) = sys_call s1 in
                   (case cas_codec_region_decode table mem region framed (unat content_len) of
                      Inl rc \<Rightarrow> (Inl rc, s2)
                    | Inr data \<Rightarrow> (Inr (type, data), s2))))"

definition cas_open_object ::
    "cas_codec list \<Rightarrow> cas \<Rightarrow> string \<Rightarrow> nat option \<Rightarrow> (cas_rc + (string \<times> byte list)) option \<times> cas" where
  "cas_open_object table s hash type_bufsz =
     (if \<not> valid_hash hash then (Some (Inl CAS_ERR), s)
      else case s_pack s of
        None \<Rightarrow> (let (r, s1) = open_loose table s hash type_bufsz in (Some r, s1))
      | Some pack \<Rightarrow>
          let (mem, s1) = sys_call s in
          (case cas_pack_lookup table mem pack hash type_bufsz of
             None \<Rightarrow> (None, s1)
           | Some r \<Rightarrow>
               if r \<noteq> Inl CAS_ENOTFOUND then (Some r, s1)
               else (let (r', s2) = open_loose table s1 hash type_bufsz in (Some r', s2))))"

definition cas_open :: "cas_codec list \<Rightarrow> cas \<Rightarrow> string \<Rightarrow> (cas_rc + byte list) option \<times> cas" where
  "cas_open table s hash =
     (case cas_open_object table s hash (Some (CAS_TYPE_MAX + 1)) of
        (None, s1) \<Rightarrow> (None, s1)
      | (Some (Inl rc), s1) \<Rightarrow> (Some (Inl rc), s1)
      | (Some (Inr (type, data)), s1) \<Rightarrow>
          if type \<noteq> ''blob'' then (Some (Inl CAS_ETYPE), s1) else (Some (Inr data), s1))"

section \<open>Writing\<close>

definition mk_trailer :: "byte list \<Rightarrow> byte list \<Rightarrow> byte list" where
  "mk_trailer magic hdr = magic @ hdr @ replicate (CAS_PACK_HEADER_LEN - length hdr) 0"

text \<open>\<open>access(path) == 0 || (store->pack && cas_pack_exists(...))\<close>\<close>

definition already_stored :: "cas \<Rightarrow> string \<Rightarrow> string \<Rightarrow> bool option" where
  "already_stored s path hash =
     (if s_files s path \<noteq> None then Some True
      else case s_pack s of None \<Rightarrow> Some False | Some pack \<Rightarrow> cas_pack_exists pack hash)"

text \<open>The writes of a temporary file, in order, until one fails.\<close>

fun write_chunks :: "cas \<Rightarrow> byte list list \<Rightarrow> cas_rc \<times> cas" where
  "write_chunks s [] = (CAS_OK, s)"
| "write_chunks s (c # cs) =
     (let (ok, s1) = sys_call s in if \<not> ok then (CAS_EIO, s1) else write_chunks s1 cs)"

text \<open>From \<open>mkstemp\<close> to the rename and the sync of the directory.\<close>

definition commit_file :: "cas \<Rightarrow> string \<Rightarrow> string \<Rightarrow> byte list list \<Rightarrow> cas_rc \<times> cas" where
  "commit_file s dir path chunks =
     (if length (dir @ ''/.cas.XXXXXX'') \<ge> CAS_PATH_MAX then (CAS_ERR, s)
      else let (made, s1) = sys_call s in
        if \<not> made then (CAS_EIO, s1)
        else let (rc, s2) = write_chunks s1 chunks in
          if rc \<noteq> CAS_OK then (rc, s2)
          else let (synced, s3) = sys_call s2 in
            if \<not> synced then (CAS_EIO, s3)
            else let (renamed, s4) = sys_call s3 in
              if \<not> renamed then (if s_files s4 path = None then (CAS_EIO, s4) else (CAS_OK, s4))
              else (CAS_OK, s4\<lparr>s_files := (s_files s4)(path \<mapsto> concat chunks)\<rparr>))"

definition data_chunk :: "byte list \<Rightarrow> byte list list" where
  "data_chunk data = (if length data > 0 then [data] else [])"

definition cas_put_object :: "cas \<Rightarrow> string \<Rightarrow> byte list \<Rightarrow> (cas_rc + string) option \<times> cas" where
  "cas_put_object s type data =
     (case format_header CAS_HEADER_MAX type (length data) of
        None \<Rightarrow> (Some (Inl CAS_ERR), s)
      | Some hdr \<Rightarrow>
        if length hdr > CAS_PACK_HEADER_LEN then (Some (Inl CAS_ERR), s)
        else
          let digest = blake2b_final (blake2b_update (blake2b_update (blake2b_init CAS_HASH_LEN) hdr) data);
              hash = to_hex digest
          in (case build_path s hash CAS_PATH_MAX of
                None \<Rightarrow> (Some (Inl CAS_ERR), s)
              | Some path \<Rightarrow>
             (case build_dir s hash CAS_PATH_MAX of
                None \<Rightarrow> (Some (Inl CAS_ERR), s)
              | Some dir \<Rightarrow>
             (case already_stored s path hash of
                None \<Rightarrow> (None, s)
              | Some True \<Rightarrow> (Some (Inr hash), s)
              | Some False \<Rightarrow>
                  let (rc, s1) = commit_file s dir path (data_chunk data @ [mk_trailer CAS_PACK_TRAILER_MAGIC hdr])
                  in if rc \<noteq> CAS_OK then (Some (Inl rc), s1) else (Some (Inr hash), s1)))))"

definition cas_put_object_at :: "cas \<Rightarrow> string \<Rightarrow> byte list \<Rightarrow> string \<Rightarrow> cas_rc option \<times> cas" where
  "cas_put_object_at s type data hash =
     (if \<not> valid_hash hash then (Some CAS_ERR, s)
      else case format_header CAS_HEADER_MAX type (length data) of
        None \<Rightarrow> (Some CAS_ERR, s)
      | Some hdr \<Rightarrow>
        if length hdr > CAS_PACK_HEADER_LEN then (Some CAS_ERR, s)
        else (case build_path s hash CAS_PATH_MAX of
                None \<Rightarrow> (Some CAS_ERR, s)
              | Some path \<Rightarrow>
             (case build_dir s hash CAS_PATH_MAX of
                None \<Rightarrow> (Some CAS_ERR, s)
              | Some dir \<Rightarrow>
             (case already_stored s path hash of
                None \<Rightarrow> (None, s)
              | Some True \<Rightarrow> (Some CAS_OK, s)
              | Some False \<Rightarrow>
                  let (rc, s1) = commit_file s dir path (data_chunk data @ [mk_trailer CAS_PACK_TRAILER_MAGIC hdr])
                  in (Some rc, s1)))))"

definition cas_put_precompressed ::
    "cas \<Rightarrow> string \<Rightarrow> int \<Rightarrow> byte list \<Rightarrow> nat \<Rightarrow> string \<Rightarrow> cas_rc option \<times> cas" where
  "cas_put_precompressed s type codec payload plaintext_len hash =
     (if \<not> valid_hash hash \<or> codec < 0 \<or> codec > 255 then (Some CAS_ERR, s)
      else if codec = CAS_CODEC_NONE \<and> length payload \<noteq> plaintext_len then (Some CAS_ERR, s)
      else case format_header CAS_HEADER_MAX type plaintext_len of
        None \<Rightarrow> (Some CAS_ERR, s)
      | Some hdr \<Rightarrow>
        if length hdr > CAS_PACK_HEADER_LEN then (Some CAS_ERR, s)
        else (case build_path s hash CAS_PATH_MAX of
                None \<Rightarrow> (Some CAS_ERR, s)
              | Some path \<Rightarrow>
             (case build_dir s hash CAS_PATH_MAX of
                None \<Rightarrow> (Some CAS_ERR, s)
              | Some dir \<Rightarrow>
             (case already_stored s path hash of
                None \<Rightarrow> (None, s)
              | Some True \<Rightarrow> (Some CAS_OK, s)
              | Some False \<Rightarrow>
                  let (rc, s1) = commit_file s dir path
                        ([[word_of_int codec]] @ data_chunk payload @ [mk_trailer CAS_PACK_TRAILER_MAGIC_V2 hdr])
                  in (Some rc, s1)))))"

definition cas_exists :: "cas \<Rightarrow> string \<Rightarrow> bool option" where
  "cas_exists s hash =
     (if \<not> valid_hash hash then Some False
      else (case (case s_pack s of None \<Rightarrow> Some False | Some pack \<Rightarrow> cas_pack_exists pack hash) of
        None \<Rightarrow> None
      | Some True \<Rightarrow> Some True
      | Some False \<Rightarrow>
          (case build_path s hash CAS_PATH_MAX of
             None \<Rightarrow> Some False
           | Some path \<Rightarrow> Some (s_files s path \<noteq> None))))"

text \<open>The attempt to compress: the payload, if it is worth keeping.\<close>

definition try_compress ::
    "cas_codec list \<Rightarrow> cas_compress_config \<Rightarrow> cas \<Rightarrow> int \<Rightarrow> byte list \<Rightarrow> byte list option \<times> cas" where
  "try_compress table cfg s codec data =
     (if enabled cfg \<and> codec \<noteq> CAS_CODEC_NONE \<and> length data \<ge> min_size cfg \<and> cas_codec_can_encode table codec
      then let (mem, s1) = sys_call s in
        if \<not> mem then (None, s1)
        else (case cas_codec_encode table codec data (length data) of
                Inl rc \<Rightarrow> (None, s1)
              | Inr payload \<Rightarrow>
                  let len = length data;
                      min_savings = len * nat (min_savings_pct cfg) div 100
                  in if length payload + 1 < len - min_savings then (Some payload, s1) else (None, s1))
      else (None, s))"

definition cas_put_object_z ::
    "cas_codec list \<Rightarrow> cas_compress_config \<Rightarrow> cas \<Rightarrow> string \<Rightarrow> int \<Rightarrow> byte list \<Rightarrow> (cas_rc + string) option \<times> cas" where
  "cas_put_object_z table cfg s type codec data =
     (case cas_hash_object type data of
        None \<Rightarrow> (Some (Inl CAS_ERR), s)
      | Some hash \<Rightarrow>
        (case cas_exists s hash of
           None \<Rightarrow> (None, s)
         | Some True \<Rightarrow> (Some (Inr hash), s)
         | Some False \<Rightarrow>
             (case try_compress table cfg s codec data of
                (Some payload, s1) \<Rightarrow>
                  (case cas_put_precompressed s1 type codec payload (length data) hash of
                     (None, s2) \<Rightarrow> (None, s2)
                   | (Some rc, s2) \<Rightarrow> (Some (if rc = CAS_OK then Inr hash else Inl rc), s2))
              | (None, s1) \<Rightarrow>
                  (case cas_put_object_at s1 type data hash of
                     (None, s2) \<Rightarrow> (None, s2)
                   | (Some rc, s2) \<Rightarrow> (Some (if rc = CAS_OK then Inr hash else Inl rc), s2)))))"

definition cas_put :: "cas \<Rightarrow> byte list \<Rightarrow> (cas_rc + string) option \<times> cas" where
  "cas_put s data = cas_put_object s ''blob'' data"

section \<open>Removal\<close>

definition cas_remove :: "cas \<Rightarrow> string \<Rightarrow> cas_rc \<times> cas" where
  "cas_remove s hash =
     (if \<not> valid_hash hash then (CAS_ERR, s)
      else case build_path s hash CAS_PATH_MAX of
        None \<Rightarrow> (CAS_ERR, s)
      | Some path \<Rightarrow>
          if s_files s path = None then (CAS_ENOTFOUND, s)
          else let (ok, s1) = sys_call s in
            if \<not> ok then (CAS_EIO, s1) else (CAS_OK, s1\<lparr>s_files := (s_files s1)(path := None)\<rparr>))"

end
