(* ===== verification/StoreInv.thy ===== *)
theory StoreInv
  imports Store
begin

unbundle bit_operations_syntax

text \<open>
  What the store keeps: the effect of a commit, the round trip of an object through its file, and
  the integrity of the store, that an object which opens under a name hashes to that name.
\<close>

section \<open>System calls and commits\<close>

lemma sys_call_frame:
  "sys_call s = (b, s') \<Longrightarrow> s_files s' = s_files s \<and> s_basedir s' = s_basedir s \<and> s_pack s' = s_pack s"
  by (auto simp: sys_call_def split: list.splits)

lemma sys_call_ok [simp]: "s_sys s = [] \<Longrightarrow> sys_call s = (True, s)"
  by (simp add: sys_call_def)

text \<open>Two states that differ only in the outcomes to come.\<close>

definition same_disk :: "cas \<Rightarrow> cas \<Rightarrow> bool" where
  "same_disk s s' \<longleftrightarrow> s_files s' = s_files s \<and> s_basedir s' = s_basedir s \<and> s_pack s' = s_pack s"

lemma same_disk_refl [simp]: "same_disk s s"
  by (simp add: same_disk_def)

lemma same_disk_trans: "same_disk a b \<Longrightarrow> same_disk b c \<Longrightarrow> same_disk a c"
  by (simp add: same_disk_def)

lemma sys_call_same: "sys_call s = (b, s') \<Longrightarrow> same_disk s s'"
  by (simp add: same_disk_def sys_call_frame)

lemma write_chunks_frame: "write_chunks s cs = (rc, s') \<Longrightarrow> same_disk s s' \<and> rc \<in> {CAS_OK, CAS_EIO}"
proof (induction cs arbitrary: s)
  case (Cons c cs)
  obtain ok s1 where c: "sys_call s = (ok, s1)" by fastforce
  with Cons sys_call_same [OF c] same_disk_trans show ?case by (fastforce split: if_splits)
qed simp

lemma commit_file_spec:
  assumes "commit_file s dir path chunks = (rc, s')"
  shows "s_basedir s' = s_basedir s \<and> s_pack s' = s_pack s \<and>
    (rc \<noteq> CAS_OK \<longrightarrow> s_files s' = s_files s) \<and>
    (rc = CAS_OK \<longrightarrow> s_files s' = (s_files s)(path \<mapsto> concat chunks) \<or>
       s_files s path \<noteq> None \<and> s_files s' = s_files s)"
proof -
  obtain b1 s1 where c1: "sys_call s = (b1, s1)" by fastforce
  obtain r2 s2 where c2: "write_chunks s1 chunks = (r2, s2)" by fastforce
  obtain b3 s3 where c3: "sys_call s2 = (b3, s3)" by fastforce
  obtain b4 s4 where c4: "sys_call s3 = (b4, s4)" by fastforce
  have "same_disk s s1" "same_disk s s2" "same_disk s s3" "same_disk s s4"
    using sys_call_same [OF c1] write_chunks_frame [OF c2] sys_call_same [OF c3] sys_call_same [OF c4]
      same_disk_trans by blast+
  with assms c1 c2 c3 c4 show ?thesis
    by (auto simp: commit_file_def same_disk_def split: if_splits)
qed

lemma write_chunks_ok: "s_sys s = [] \<Longrightarrow> write_chunks s cs = (CAS_OK, s)"
  by (induction cs) simp_all

lemma commit_file_ok:
  assumes "s_sys s = []" "length (dir @ ''/.cas.XXXXXX'') < CAS_PATH_MAX"
  shows "commit_file s dir path chunks = (CAS_OK, s\<lparr>s_files := (s_files s)(path \<mapsto> concat chunks)\<rparr>)"
  using assms by (simp add: commit_file_def write_chunks_ok)

section \<open>Object files\<close>

text \<open>The trailer of an object and what a reader finds in it.\<close>

definition object_trailer :: "byte list \<Rightarrow> string \<Rightarrow> nat \<Rightarrow> byte list" where
  "object_trailer magic type n = mk_trailer magic (header_text type n @ [0])"

lemma trailer_read:
  assumes "type_ok t" "n \<le> 2 ^ 30" "length magic = CAS_PACK_MAGIC_LEN"
  shows "length (object_trailer magic t n) = CAS_PACK_BLOCK"
    "take CAS_PACK_MAGIC_LEN (object_trailer magic t n) = magic"
    "parse_header (drop CAS_PACK_MAGIC_LEN (object_trailer magic t n)) (CAS_TYPE_MAX + 1) = Some (t, of_nat n)"
proof -
  have l: "length (header_text t n) < 30" using format_header_fits(2) [OF assms(1,2)] .
  then show "length (object_trailer magic t n) = CAS_PACK_BLOCK"
    using assms(3) by (simp add: object_trailer_def mk_trailer_def pack_consts)
  show "take CAS_PACK_MAGIC_LEN (object_trailer magic t n) = magic"
    using assms(3) by (simp add: object_trailer_def mk_trailer_def)
  have "drop CAS_PACK_MAGIC_LEN (object_trailer magic t n)
      = header_text t n @ 0 # replicate (CAS_PACK_HEADER_LEN - (length (header_text t n) + 1)) 0"
    using assms(3) by (simp add: object_trailer_def mk_trailer_def)
  then show "parse_header (drop CAS_PACK_MAGIC_LEN (object_trailer magic t n)) (CAS_TYPE_MAX + 1) = Some (t, of_nat n)"
    using parse_header_text [OF assms(1,2)] assms(1) by (simp add: type_ok_def)
qed

lemma magic_lengths [simp]:
  "length CAS_PACK_TRAILER_MAGIC = CAS_PACK_MAGIC_LEN" "length CAS_PACK_TRAILER_MAGIC_V2 = CAS_PACK_MAGIC_LEN"
  by (simp_all add: CAS_PACK_TRAILER_MAGIC_def CAS_PACK_TRAILER_MAGIC_V2_def CAS_PACK_MAGIC_LEN_def)

lemma magic_distinct [simp]: "CAS_PACK_TRAILER_MAGIC_V2 \<noteq> CAS_PACK_TRAILER_MAGIC"
  by (simp add: CAS_PACK_TRAILER_MAGIC_def CAS_PACK_TRAILER_MAGIC_V2_def)

text \<open>The bytes of a loose object: a data region and the trailer with one of the two magics.\<close>

definition loose_bytes :: "bool \<Rightarrow> byte list \<Rightarrow> string \<Rightarrow> nat \<Rightarrow> byte list" where
  "loose_bytes framed region type n = region @
     object_trailer (if framed then CAS_PACK_TRAILER_MAGIC_V2 else CAS_PACK_TRAILER_MAGIC) type n"

text \<open>What opening such a file gives when no system call fails.\<close>

lemma open_loose_bytes:
  assumes "s_sys s = []" "build_path s h CAS_PATH_MAX = Some path"
    and "s_files s path = Some (loose_bytes framed region t n)"
    and "type_ok t" "n \<le> 2 ^ 30" "length region + CAS_PACK_BLOCK \<le> MAX_FILE"
    and "case bufsz of None \<Rightarrow> True | Some k \<Rightarrow> length t < k"
  shows "open_loose table s h bufsz =
    (map_sum id (Pair t) (cas_codec_region_decode table True region framed n), s)"
proof -
  let ?magic = "if framed then CAS_PACK_TRAILER_MAGIC_V2 else CAS_PACK_TRAILER_MAGIC"
  have m: "length ?magic = CAS_PACK_MAGIC_LEN" by simp
  note tr = trailer_read [OF assms(4,5) m]
  have ml: "map_loose s h = (Inr (region, object_trailer ?magic t n), s)"
    using assms(1-3,6) tr(1) by (simp add: map_loose_def loose_bytes_def Let_def)
  have un: "unat (of_nat n :: u64) = n" using assms(5) by (simp add: unat_of_nat)
  have bz: "\<not> (case bufsz of None \<Rightarrow> False | Some k \<Rightarrow> k \<le> length t)"
    using assms(7) by (simp split: option.splits)
  show ?thesis
  proof (cases framed)
    case True
    with ml tr un bz assms(1) show ?thesis
      by (simp add: open_loose_def Let_def split: sum.splits)
  next
    case False
    with ml tr un bz assms(1) show ?thesis
      by (simp add: open_loose_def Let_def split: sum.splits)
  qed
qed

section \<open>The three ways to store an object\<close>

lemma build_path_inj:
  assumes "build_path s h b = Some p" "build_path s h' b = Some p" "length h = length h'"
  shows "h = h'"
proof -
  have "take 2 h @ CHR ''/'' # h = take 2 h' @ CHR ''/'' # h'"
    using assms(1,2) by (auto simp: build_path_def Let_def split: if_splits)
  moreover have "length (take 2 h) = length (take 2 h')" using assms(3) by simp
  ultimately show ?thesis by (metis append_eq_append_conv list.inject)
qed

lemma build_path_frame:
  "s_basedir s' = s_basedir s \<Longrightarrow> build_path s' h b = build_path s h b"
  by (simp add: build_path_def)

lemma format_headerD:
  "format_header CAS_HEADER_MAX t n = Some hdr \<Longrightarrow> hdr = header_text t n @ [0] \<and> length hdr \<le> CAS_HEADER_MAX"
  by (auto simp: format_header_def Let_def split: if_splits)

lemma header_len_ok: "format_header CAS_HEADER_MAX t n = Some hdr \<Longrightarrow> \<not> length hdr > CAS_PACK_HEADER_LEN"
proof -
  assume "format_header CAS_HEADER_MAX t n = Some hdr"
  then have "length hdr \<le> CAS_HEADER_MAX" using format_headerD by blast
  then show ?thesis by (simp add: CAS_HEADER_MAX_def CAS_PACK_HEADER_LEN_def)
qed

text \<open>\<open>cas_put_object\<close> stores at the address it computes.\<close>

lemma put_object_at_hash:
  "cas_put_object s t d = (case cas_hash_object t d of None \<Rightarrow> (Some (Inl CAS_ERR), s)
     | Some h \<Rightarrow> (case cas_put_object_at s t d h of
          (r, s') \<Rightarrow> (map_option (\<lambda>rc. if rc = CAS_OK then Inr h else Inl rc) r, s')))"
proof (cases "format_header CAS_HEADER_MAX t (length d)")
  case None
  then show ?thesis by (simp add: cas_put_object_def cas_hash_object_def)
next
  case (Some hdr)
  define h where "h = to_hex (blake2b_final (blake2b_update (blake2b_update (blake2b_init CAS_HASH_LEN) hdr) d))"
  have v: "valid_hash h"
    unfolding h_def using blake2b_pieces [of CAS_HASH_LEN "[hdr, d]"]
    by (intro valid_to_hex) (simp add: length_blake2b_hash CAS_HASH_LEN_def)
  have ho: "cas_hash_object t d = Some h" using Some by (simp add: cas_hash_object_def h_def Let_def)
  show ?thesis
    using Some header_len_ok [OF Some] v
    by (simp add: cas_put_object_def cas_put_object_at_def ho h_def [symmetric] Let_def
        split: option.splits bool.splits prod.splits)
qed

text \<open>The outcome of storing one file at the path of a name.\<close>

definition stored_as :: "cas \<Rightarrow> cas \<Rightarrow> string \<Rightarrow> byte list \<Rightarrow> cas_rc \<Rightarrow> bool" where
  "stored_as s s' h content rc \<longleftrightarrow> s_basedir s' = s_basedir s \<and> s_pack s' = s_pack s \<and>
     (rc \<noteq> CAS_OK \<longrightarrow> s_files s' = s_files s) \<and>
     (rc = CAS_OK \<longrightarrow> (\<exists>path. build_path s h CAS_PATH_MAX = Some path \<and>
        (already_stored s path h = Some True \<and> s_files s' = s_files s \<or>
         already_stored s path h = Some False \<and> s_files s' = (s_files s)(path \<mapsto> content))))"

lemma stored_as_commit:
  assumes "build_path s h CAS_PATH_MAX = Some path" "already_stored s path h = Some False"
    and "commit_file s dir path chunks = (rc, s')" "concat chunks = content"
  shows "stored_as s s' h content rc"
proof -
  have "s_files s path = None" using assms(2) by (auto simp: already_stored_def split: if_splits)
  with commit_file_spec [OF assms(3)] assms show ?thesis by (auto simp: stored_as_def)
qed

lemma concat_data_chunk [simp]: "concat (data_chunk d) = d"
  by (simp add: data_chunk_def)

lemma put_object_at_spec:
  assumes "cas_put_object_at s t d h = (Some rc, s')"
  shows "stored_as s s' h (loose_bytes False d t (length d)) rc"
proof (cases "\<exists>hdr path dir. valid_hash h \<and> format_header CAS_HEADER_MAX t (length d) = Some hdr \<and>
    build_path s h CAS_PATH_MAX = Some path \<and> build_dir s h CAS_PATH_MAX = Some dir")
  case False
  then have "rc = CAS_ERR \<and> s' = s"
    using assms by (auto simp: cas_put_object_at_def split: if_splits option.splits)
  then show ?thesis by (simp add: stored_as_def)
next
  case True
  then obtain hdr path dir where *: "valid_hash h" "format_header CAS_HEADER_MAX t (length d) = Some hdr"
    "build_path s h CAS_PATH_MAX = Some path" "build_dir s h CAS_PATH_MAX = Some dir" by blast
  let ?chunks = "data_chunk d @ [mk_trailer CAS_PACK_TRAILER_MAGIC hdr]"
  have cc: "concat ?chunks = loose_bytes False d t (length d)"
    using format_headerD [OF *(2)] by (simp add: loose_bytes_def object_trailer_def)
  consider "already_stored s path h = None" | "already_stored s path h = Some True"
    | "already_stored s path h = Some False" by (cases "already_stored s path h") auto
  then show ?thesis
  proof cases
    case 3
    then have "commit_file s dir path ?chunks = (rc, s')"
      using assms * header_len_ok [OF *(2)] by (simp add: cas_put_object_at_def split: prod.splits)
    then show ?thesis using stored_as_commit [OF *(3) 3 _ cc] by blast
  qed (use assms * header_len_ok [OF *(2)] in \<open>auto simp: cas_put_object_at_def stored_as_def\<close>)
qed

lemma put_precompressed_spec:
  assumes "cas_put_precompressed s t codec payload n h = (Some rc, s')"
  shows "stored_as s s' h (loose_bytes True (word_of_int codec # payload) t n) rc"
proof (cases "\<exists>hdr path dir. valid_hash h \<and> \<not> (codec < 0 \<or> codec > 255) \<and>
    \<not> (codec = CAS_CODEC_NONE \<and> length payload \<noteq> n) \<and> format_header CAS_HEADER_MAX t n = Some hdr \<and>
    build_path s h CAS_PATH_MAX = Some path \<and> build_dir s h CAS_PATH_MAX = Some dir")
  case False
  then have "rc = CAS_ERR \<and> s' = s"
    using assms by (auto simp: cas_put_precompressed_def split: if_splits option.splits)
  then show ?thesis by (simp add: stored_as_def)
next
  case True
  then obtain hdr path dir where *: "valid_hash h" "\<not> (codec < 0 \<or> codec > 255)"
    "\<not> (codec = CAS_CODEC_NONE \<and> length payload \<noteq> n)" "format_header CAS_HEADER_MAX t n = Some hdr"
    "build_path s h CAS_PATH_MAX = Some path" "build_dir s h CAS_PATH_MAX = Some dir" by blast
  let ?chunks = "[[word_of_int codec]] @ data_chunk payload @ [mk_trailer CAS_PACK_TRAILER_MAGIC_V2 hdr]"
  have cc: "concat ?chunks = loose_bytes True (word_of_int codec # payload) t n"
    using format_headerD [OF *(4)] by (simp add: loose_bytes_def object_trailer_def)
  have guards: "\<not> (\<not> valid_hash h \<or> codec < 0 \<or> codec > 255)" using *(1,2) by simp
  note unf = assms [unfolded cas_put_precompressed_def if_not_P [OF guards] if_not_P [OF *(3)] *(4-6) option.case
      if_not_P [OF header_len_ok [OF *(4)]]]
  consider "already_stored s path h = None" | "already_stored s path h = Some True"
    | "already_stored s path h = Some False" by (cases "already_stored s path h") auto
  then show ?thesis
  proof cases
    case 3
    then have "commit_file s dir path ?chunks = (rc, s')"
      using unf by (simp split: prod.splits)
    then show ?thesis using stored_as_commit [OF *(5) 3 _ cc] by blast
  qed (use unf * in \<open>auto simp: stored_as_def\<close>)
qed

section \<open>What a reader gets\<close>

text \<open>The object under a name, for a reader whose system calls succeed.\<close>

definition get_object :: "cas_codec list \<Rightarrow> cas \<Rightarrow> string \<Rightarrow> (string \<times> byte list) option" where
  "get_object table s h =
     (case fst (cas_open_object table (s\<lparr>s_sys := []\<rparr>) h None) of Some (Inr x) \<Rightarrow> Some x | _ \<Rightarrow> None)"

definition pack_ok :: "cas \<Rightarrow> bool" where
  "pack_ok s \<longleftrightarrow> (case s_pack s of None \<Rightarrow> True | Some p \<Rightarrow> index_fits p \<and> offsets_fit p)"

text \<open>
  Integrity: every object present can be read, and its contents hash to its name (a pack is searched
  by the value of a name, so that digits in upper case find an object too); directories in the \<open>htree\<close> format
  are the exception, they live under the name of their text form.
\<close>

definition store_inv :: "cas_codec list \<Rightarrow> cas \<Rightarrow> bool" where
  "store_inv table s \<longleftrightarrow> pack_ok s \<and> (\<forall>h. cas_exists s h = Some True \<longrightarrow>
     (\<exists>t d. get_object table s h = Some (t, d) \<and> (t = ''htree'' \<or> cas_hash_object t d = Some (canonical h))))"

text \<open>An object the store can give back: a type the header can carry and a file it agrees to map.\<close>

definition storable :: "string \<Rightarrow> byte list \<Rightarrow> bool" where
  "storable t d \<longleftrightarrow> type_ok t \<and> length d + CAS_PACK_BLOCK \<le> MAX_FILE"

lemma valid_decode_name: "valid_hash h \<Longrightarrow> decode_name h \<noteq> None"
  using valid_hash_decodes [of h] by (auto simp: decode_name_def valid_hash_def)

lemma pack_exists_total: "pack_ok s \<Longrightarrow> s_pack s = Some p \<Longrightarrow> cas_pack_exists p h \<noteq> None"
proof (cases "decode_name h")
  case (Some bin)
  assume "pack_ok s" "s_pack s = Some p"
  with find_entry_correct [OF _ decode_name_length [OF Some]] Some show ?thesis
    by (fastforce simp: pack_ok_def cas_pack_exists_def)
qed (simp add: cas_pack_exists_def)

text \<open>Reading depends on the pack and on the one file of the name.\<close>

lemma open_loose_cong:
  assumes "s_basedir s' = s_basedir s" "s_sys s = []" "s_sys s' = []"
    and "\<And>path. build_path s h CAS_PATH_MAX = Some path \<Longrightarrow> s_files s' path = s_files s path"
  shows "fst (open_loose table s' h b) = fst (open_loose table s h b)"
proof -
  have bp: "build_path s' h CAS_PATH_MAX = build_path s h CAS_PATH_MAX" using assms(1) by (rule build_path_frame)
  have "fst (map_loose s' h) = fst (map_loose s h) \<and> snd (map_loose s' h) = s' \<and> snd (map_loose s h) = s"
    using assms by (auto simp: map_loose_def bp Let_def split: option.splits)
  then obtain r where "map_loose s' h = (r, s')" "map_loose s h = (r, s)" by (metis prod.collapse)
  with assms(2,3) show ?thesis
    by (auto simp: open_loose_def Let_def split: sum.splits option.splits)
qed

lemma get_object_cong:
  assumes "s_basedir s' = s_basedir s" "s_pack s' = s_pack s"
    and "\<And>path. build_path s h CAS_PATH_MAX = Some path \<Longrightarrow> s_files s' path = s_files s path"
  shows "get_object table s' h = get_object table s h"
proof -
  let ?a = "s\<lparr>s_sys := []\<rparr>" and ?b = "s'\<lparr>s_sys := []\<rparr>"
  have "fst (open_loose table ?b h None) = fst (open_loose table ?a h None)"
    using assms by (intro open_loose_cong) (simp_all add: build_path_def)
  then have "fst (cas_open_object table ?b h None) = fst (cas_open_object table ?a h None)"
    using assms(2) by (auto simp: cas_open_object_def split: option.splits prod.splits)
  then show ?thesis by (simp add: get_object_def)
qed

lemma exists_already_stored:
  assumes "valid_hash h" "build_path s h CAS_PATH_MAX = Some path" "pack_ok s"
  shows "cas_exists s h = already_stored s path h"
proof (cases "s_pack s")
  case None
  with assms show ?thesis by (simp add: cas_exists_def already_stored_def)
next
  case (Some p)
  with pack_exists_total [OF assms(3) Some, of h] obtain b where "cas_pack_exists p h = Some b" by blast
  with Some assms show ?thesis by (cases b) (simp_all add: cas_exists_def already_stored_def)
qed

text \<open>A name not stored before gives back the bytes just committed.\<close>

lemma get_object_new:
  assumes "codec_ok table" "valid_hash h" "build_path s h CAS_PATH_MAX = Some path"
    and "already_stored s path h = Some False" "type_ok t" "n \<le> 2 ^ 30"
    and "length region + CAS_PACK_BLOCK \<le> MAX_FILE"
    and "s_basedir s' = s_basedir s" "s_pack s' = s_pack s"
    and "s_files s' path = Some (loose_bytes framed region t n)"
  shows "get_object table s' h =
    (case cas_codec_region_decode table True region framed n of Inl rc \<Rightarrow> None | Inr d \<Rightarrow> Some (t, d))"
proof -
  let ?s = "s'\<lparr>s_sys := []\<rparr>"
  have ol: "open_loose table ?s h None =
      (map_sum id (Pair t) (cas_codec_region_decode table True region framed n), ?s)"
    using assms by (intro open_loose_bytes) (simp_all add: build_path_def)
  have miss: "cas_pack_lookup table True p h None = Some (Inl CAS_ENOTFOUND)" if "s_pack s' = Some p" for p
    using that assms(4,9) pack_lookup_missing [OF assms(1), of True p h None] valid_decode_name [OF assms(2)]
    by (auto simp: already_stored_def split: if_splits)
  show ?thesis
    using assms(2) ol miss
    by (cases "s_pack s'") (auto simp: get_object_def cas_open_object_def split: sum.splits)
qed

end
