(* ===== verification/ObjectStore.thy ===== *)
theory ObjectStore
  imports StoreInv
begin

text \<open>
  The contract between the store and its clients. The locale \<open>object_store\<close> states what the tree,
  map and snapshot layers rely on: an object stored under a name is the one read from it unless the
  name was taken, other names are not touched, and names tell contents. From it follow
  the facts the clients use: a store only grows, and objects stored in sequence are all there
  in the end. The loose and packed store of \<open>cas.c\<close> is shown to provide it.
\<close>

section \<open>The interface\<close>

locale object_store =
  fixes get :: "'s \<Rightarrow> string \<Rightarrow> (string \<times> byte list) option"
    and put_at :: "'s \<Rightarrow> string \<Rightarrow> byte list \<Rightarrow> string \<Rightarrow> bool \<times> 's"
    and nm :: "string \<Rightarrow> byte list \<Rightarrow> string option"
    and fits :: "string \<Rightarrow> byte list \<Rightarrow> bool"
    and inv :: "'s \<Rightarrow> bool"
  assumes put_inv: "inv s \<Longrightarrow> fits t d \<Longrightarrow> t = ''htree'' \<or> nm t d = Some h \<Longrightarrow>
      put_at s t d h = (r, s') \<Longrightarrow> inv s'"
    and put_get: "inv s \<Longrightarrow> fits t d \<Longrightarrow> put_at s t d h = (True, s') \<Longrightarrow>
      get s' h = (case get s h of None \<Rightarrow> Some (t, d) | Some x \<Rightarrow> Some x)"
    and put_other: "inv s \<Longrightarrow> put_at s t d h = (r, s') \<Longrightarrow> h' \<noteq> h \<Longrightarrow> get s' h' = get s h'"
    and put_fail: "inv s \<Longrightarrow> put_at s t d h = (False, s') \<Longrightarrow> get s' = get s"
    and get_name: "inv s \<Longrightarrow> nm u e = Some h \<Longrightarrow> get s h = Some (t, d) \<Longrightarrow> t = ''htree'' \<or> nm t d = Some h"
begin

definition extends :: "'s \<Rightarrow> 's \<Rightarrow> bool" where
  "extends s s' \<longleftrightarrow> (\<forall>h x. get s h = Some x \<longrightarrow> get s' h = Some x)"

lemma extends_refl: "extends s s"
  by (simp add: extends_def)

lemma extends_trans: "extends a b \<Longrightarrow> extends b c \<Longrightarrow> extends a c"
  by (simp add: extends_def)

lemma put_extends:
  assumes "inv s" "fits t d" "put_at s t d h = (r, s')"
  shows "extends s s'"
  unfolding extends_def
proof (intro allI impI)
  fix k x
  assume k: "get s k = Some x"
  show "get s' k = Some x"
  proof (cases "k = h")
    case True
    with k assms put_get put_fail show ?thesis by (cases r) auto
  next
    case False
    with k put_other [OF assms(1,3)] show ?thesis by simp
  qed
qed

text \<open>No two different contents that matter share a name.\<close>

definition collision_free :: "(string \<times> byte list) set \<Rightarrow> bool" where
  "collision_free A \<longleftrightarrow> (\<forall>(t, d) \<in> A. \<forall>(u, e) \<in> A. nm t d = nm u e \<longrightarrow> t = u \<and> d = e)"

lemma put_there:
  assumes "inv s" "fits t d" "nm t d = Some h" "put_at s t d h = (True, s')"
    and "\<And>u e. get s h = Some (u, e) \<Longrightarrow> u \<noteq> ''htree'' \<and> (nm u e = nm t d \<longrightarrow> (u, e) = (t, d))"
  shows "get s' h = Some (t, d)"
proof (cases "get s h")
  case None
  with put_get [OF assms(1,2,4)] show ?thesis by simp
next
  case (Some x)
  obtain u e where x: "x = (u, e)" by fastforce
  from get_name [OF assms(1,3), of u e] Some x assms(3,5) have "(u, e) = (t, d)" by auto
  with put_get [OF assms(1,2,4)] Some x show ?thesis by simp
qed

text \<open>Storing objects one after the other, stopping at the first failure.\<close>

fun put_all :: "'s \<Rightarrow> (string \<times> byte list \<times> string) list \<Rightarrow> bool \<times> 's" where
  "put_all s [] = (True, s)"
| "put_all s ((t, d, h) # os) =
     (case put_at s t d h of (True, s1) \<Rightarrow> put_all s1 os | (False, s1) \<Rightarrow> (False, s1))"

lemma put_all_spec:
  assumes "inv s" "\<forall>(t, d, h) \<in> set os. fits t d \<and> (t = ''htree'' \<or> nm t d = Some h)"
    and "put_all s os = (r, s')"
  shows "inv s' \<and> extends s s' \<and> (r \<longrightarrow> (\<forall>(t, d, h) \<in> set os. get s' h \<noteq> None))"
  using assms
proof (induction os arbitrary: s)
  case Nil
  then show ?case by (auto simp: extends_refl)
next
  case (Cons o1 os)
  obtain t d h where o: "o1 = (t, d, h)" by (cases o1) auto
  have f: "fits t d" "t = ''htree'' \<or> nm t d = Some h" using Cons.prems(2) o by auto
  obtain b s1 where p: "put_at s t d h = (b, s1)" by fastforce
  have i1: "inv s1" using put_inv [OF Cons.prems(1) f p] .
  have e1: "extends s s1" using put_extends [OF Cons.prems(1) f(1) p] .
  show ?case
  proof (cases b)
    case False
    then show ?thesis using Cons.prems(3) o p i1 e1 by auto
  next
    case True
    have run: "put_all s1 os = (r, s')" using Cons.prems(3) o p True by simp
    have ih: "inv s' \<and> extends s1 s' \<and> (r \<longrightarrow> (\<forall>(t, d, h) \<in> set os. get s' h \<noteq> None))"
      using Cons.IH [OF i1 _ run] Cons.prems(2) by simp
    have "get s1 h \<noteq> None"
      using put_get [OF Cons.prems(1) f(1)] p True by (auto split: option.splits)
    then have "get s' h \<noteq> None" using ih by (fastforce simp: extends_def)
    with ih e1 extends_trans o show ?thesis by auto
  qed
qed

end

section \<open>The store provides it\<close>

locale codec_store =
  fixes table :: "cas_codec list"
  assumes codecs: "codec_ok table"

definition store_at :: "cas \<Rightarrow> string \<Rightarrow> byte list \<Rightarrow> string \<Rightarrow> bool \<times> cas" where
  "store_at s t d h = (case cas_put_object_at s t d h of (r, s') \<Rightarrow> (r = Some CAS_OK, s'))"

lemma put_object_at_fault:
  "cas_put_object_at s t d h = (None, s') \<Longrightarrow> s' = s"
  by (auto simp: cas_put_object_at_def split: if_splits option.splits bool.splits prod.splits)

lemma get_object_invalid: "\<not> valid_hash h \<Longrightarrow> get_object table s h = None"
  by (simp add: get_object_def cas_open_object_def)

lemma stored_as_get:
  assumes "stored_as s s' h content rc" "rc = CAS_OK \<longrightarrow> valid_hash h" "h' \<noteq> h \<or> rc \<noteq> CAS_OK"
  shows "get_object table s' h' = get_object table s h'"
proof (cases "valid_hash h'")
  case False
  then show ?thesis by (simp add: get_object_invalid)
next
  case True
  show ?thesis
  proof (rule get_object_cong)
    fix path
    assume b: "build_path s h' CAS_PATH_MAX = Some path"
    show "s_files s' path = s_files s path"
    proof (cases "rc = CAS_OK")
      case ok: True
      then have "length h' = length h" using True assms(2) by (simp add: valid_hash_def)
      with b build_path_inj [of s h' CAS_PATH_MAX path h] assms(1,3) ok show ?thesis
        by (auto simp: stored_as_def)
    qed (use assms(1) in \<open>simp add: stored_as_def\<close>)
  qed (use assms(1) in \<open>simp_all add: stored_as_def\<close>)
qed

text \<open>The file of a name after it has been stored, in a store that was in order.\<close>

lemma stored_as_same:
  assumes cod: "codec_ok table" and inv: "store_inv table s" and v: "valid_hash h"
    and st: "stored_as s s' h (loose_bytes framed region t n) CAS_OK"
    and fit: "type_ok t" "n \<le> 2 ^ 30" "length region + CAS_PACK_BLOCK \<le> MAX_FILE"
  shows "get_object table s' h = (case get_object table s h of Some x \<Rightarrow> Some x
     | None \<Rightarrow> (case cas_codec_region_decode table True region framed n of Inl rc \<Rightarrow> None | Inr d \<Rightarrow> Some (t, d)))"
proof -
  from st obtain path where p: "build_path s h CAS_PATH_MAX = Some path"
    and f: "already_stored s path h = Some True \<and> s_files s' = s_files s \<or>
      already_stored s path h = Some False \<and> s_files s' = (s_files s)(path \<mapsto> loose_bytes framed region t n)"
    and fr: "s_basedir s' = s_basedir s" "s_pack s' = s_pack s" by (auto simp: stored_as_def)
  have ex: "cas_exists s h = already_stored s path h"
    using exists_already_stored [OF v p] inv by (simp add: store_inv_def)
  from f show ?thesis
  proof (elim disjE conjE)
    assume a: "already_stored s path h = Some True" and "s_files s' = s_files s"
    then have "get_object table s' h = get_object table s h" using fr by (intro get_object_cong) simp_all
    moreover have "get_object table s h \<noteq> None" using inv ex a by (fastforce simp: store_inv_def)
    ultimately show ?thesis by auto
  next
    assume a: "already_stored s path h = Some False"
      and w: "s_files s' = (s_files s)(path \<mapsto> loose_bytes framed region t n)"
    have "get_object table s h = None"
    proof -
      have fn: "s_files s path = None" using a by (auto simp: already_stored_def split: if_splits)
      let ?s = "s\<lparr>s_sys := []\<rparr>"
      have "open_loose table ?s h None = (Inl CAS_ENOTFOUND, ?s)"
        using p fn by (simp add: open_loose_def map_loose_def build_path_def)
      moreover have "cas_pack_lookup table True pk h None = Some (Inl CAS_ENOTFOUND)" if "s_pack s = Some pk" for pk
        using that a fn pack_lookup_missing [OF cod, of True pk h None] valid_decode_name [OF v]
        by (auto simp: already_stored_def)
      ultimately show ?thesis
        by (cases "s_pack s") (auto simp: get_object_def cas_open_object_def)
    qed
    moreover have "s_files s' path = Some (loose_bytes framed region t n)" using w by simp
    ultimately show ?thesis
      using get_object_new [OF cod v p a fit fr] by simp
  qed
qed

lemma stored_as_pack: "stored_as s s' h c rc \<Longrightarrow> pack_ok s' = pack_ok s"
  by (simp add: stored_as_def pack_ok_def)

lemma stored_as_exists:
  assumes "stored_as s s' h c rc" "rc = CAS_OK \<longrightarrow> valid_hash h" "h' \<noteq> h \<or> rc \<noteq> CAS_OK"
  shows "cas_exists s' h' = cas_exists s h'"
proof (cases "valid_hash h'")
  case True
  have bp: "build_path s' k b = build_path s k b" for k b
    using assms(1) by (intro build_path_frame) (simp add: stored_as_def)
  have "s_files s' path = s_files s path" if b: "build_path s h' CAS_PATH_MAX = Some path" for path
  proof (cases "rc = CAS_OK")
    case ok: True
    then have "length h' = length h" using True assms(2) by (simp add: valid_hash_def)
    with b build_path_inj [of s h' CAS_PATH_MAX path h] assms(1,3) ok show ?thesis
      by (auto simp: stored_as_def)
  qed (use assms(1) in \<open>simp add: stored_as_def\<close>)
  with bp assms(1) show ?thesis
    by (auto simp: cas_exists_def stored_as_def split: option.splits bool.splits)
qed (simp add: cas_exists_def)

lemma open_loose_file:
  assumes "open_loose table s h b = (Inr x, s')"
  shows "\<exists>path. build_path s h CAS_PATH_MAX = Some path \<and> s_files s path \<noteq> None"
proof (rule ccontr)
  assume no: "\<nexists>path. build_path s h CAS_PATH_MAX = Some path \<and> s_files s path \<noteq> None"
  obtain b1 s1 where c: "sys_call s = (b1, s1)" by fastforce
  have "\<exists>rc t. map_loose s h = (Inl rc, t)"
  proof (cases "build_path s h CAS_PATH_MAX")
    case (Some path)
    then have "(if b1 then s_files s1 path else None) = None" using no sys_call_frame [OF c] by auto
    with Some c show ?thesis by (simp add: map_loose_def)
  qed (simp add: map_loose_def)
  with assms show False by (auto simp: open_loose_def)
qed

lemma get_object_exists:
  assumes "codec_ok table" "pack_ok s" "get_object table s h = Some x"
  shows "cas_exists s h = Some True"
proof -
  let ?s = "s\<lparr>s_sys := []\<rparr>"
  have v: "valid_hash h" using assms(3) get_object_invalid by fastforce
  have file_case: "cas_exists s h = Some True"
    if "open_loose table ?s h None = (Inr x, t)" "\<And>p. s_pack s = Some p \<Longrightarrow> cas_pack_exists p h = Some False" for t
    using open_loose_file [OF that(1)] that(2) v by (auto simp: cas_exists_def build_path_def split: option.splits)
  show ?thesis
  proof (cases "s_pack s")
    case None
    obtain r t where o: "open_loose table ?s h None = (r, t)" by fastforce
    then have "r = Inr x"
      using assms(3) None v by (auto simp: get_object_def cas_open_object_def split: sum.splits)
    with o None file_case show ?thesis by simp
  next
    case (Some p)
    show ?thesis
    proof (cases "cas_pack_exists p h")
      case None
      then show ?thesis using pack_exists_total [OF assms(2) Some] by simp
    next
      case e: (Some b)
      show ?thesis
      proof (cases b)
        case True
        then show ?thesis using e Some v by (simp add: cas_exists_def)
      next
        case False
        then have miss: "cas_pack_lookup table True p h None = Some (Inl CAS_ENOTFOUND)"
          using e pack_lookup_missing [OF assms(1)] valid_decode_name [OF v] by simp
        obtain r t where o: "open_loose table ?s h None = (r, t)" by fastforce
        then have "r = Inr x"
          using assms(3) Some v miss by (auto simp: get_object_def cas_open_object_def split: sum.splits)
        with o Some e False file_case show ?thesis by simp
      qed
    qed
  qed
qed

lemma get_object_name:
  assumes "codec_ok table" "store_inv table s" "get_object table s h = Some (t, d)"
  shows "t = ''htree'' \<or> cas_hash_object t d = Some (canonical h)"
  using get_object_exists [OF assms(1) _ assms(3)] assms(2,3) by (fastforce simp: store_inv_def)

text \<open>Integrity survives when what is stored reads back as an object of its name.\<close>

lemma stored_as_inv:
  assumes cod: "codec_ok table" and inv: "store_inv table s" and v: "rc = CAS_OK \<longrightarrow> valid_hash h"
    and st: "stored_as s s' h (loose_bytes framed region t n) rc"
    and fit: "type_ok t" "n \<le> 2 ^ 30" "length region + CAS_PACK_BLOCK \<le> MAX_FILE"
    and dec: "cas_codec_region_decode table True region framed n = Inr d"
    and nm: "t = ''htree'' \<or> cas_hash_object t d = Some h"
  shows "store_inv table s'"
  unfolding store_inv_def
proof (intro conjI allI impI)
  show "pack_ok s'" using stored_as_pack [OF st] inv by (simp add: store_inv_def)
  fix k
  assume ex: "cas_exists s' k = Some True"
  show "\<exists>t d. get_object table s' k = Some (t, d) \<and> (t = ''htree'' \<or> cas_hash_object t d = Some (canonical k))"
  proof (cases "k = h \<and> rc = CAS_OK")
    case False
    then have "cas_exists s k = Some True" "get_object table s' k = get_object table s k"
      using stored_as_exists [OF st v] stored_as_get [OF st v] ex by auto
    with inv show ?thesis by (auto simp: store_inv_def)
  next
    case True
    then have g: "get_object table s' h = (case get_object table s h of Some x \<Rightarrow> Some x | None \<Rightarrow> Some (t, d))"
      using stored_as_same [OF cod inv _ _ fit, of h s' framed] v st dec by (simp split: option.splits)
    show ?thesis
    proof (cases "get_object table s h")
      case None
      with g nm True hash_object_canonical show ?thesis by fastforce
    next
      case (Some x)
      obtain u e where x: "x = (u, e)" by fastforce
      have "u = ''htree'' \<or> cas_hash_object u e = Some (canonical h)"
        using get_object_name [OF cod inv] Some x by blast
      with g Some x True show ?thesis by auto
    qed
  qed
qed

lemma put_at_valid: "cas_put_object_at s t d h = (Some CAS_OK, s') \<Longrightarrow> valid_hash h"
  by (auto simp: cas_put_object_at_def split: if_splits)

lemma raw_region_decode: "cas_codec_region_decode table mem d False (length d) = Inr d"
  by (simp add: cas_codec_region_decode_def)

lemma storable_fit:
  "storable t d \<Longrightarrow> type_ok t \<and> length d \<le> 2 ^ 30 \<and> length d + CAS_PACK_BLOCK \<le> MAX_FILE"
  by (simp add: storable_def MAX_FILE_def)

lemma store_at_spec:
  assumes "store_at s t d h = (r, s')"
  obtains rc where "stored_as s s' h (loose_bytes False d t (length d)) rc" "rc = CAS_OK \<longrightarrow> valid_hash h"
    "r \<longleftrightarrow> rc = CAS_OK"
proof -
  obtain ro where p: "cas_put_object_at s t d h = (ro, s')" and r: "r \<longleftrightarrow> ro = Some CAS_OK"
    using assms by (auto simp: store_at_def split: prod.splits)
  show thesis
  proof (cases ro)
    case None
    then have "s' = s" using put_object_at_fault p by blast
    then have "stored_as s s' h (loose_bytes False d t (length d)) CAS_ERR" by (simp add: stored_as_def)
    with None r that show thesis by auto
  next
    case (Some rc)
    with p put_object_at_spec put_at_valid r that show thesis by blast
  qed
qed

sublocale codec_store \<subseteq> object_store "get_object table" store_at cas_hash_object storable "store_inv table"
proof
  fix s t d h r s'
  assume inv: "store_inv table s" and f: "storable t d"
    and nm: "t = ''htree'' \<or> cas_hash_object t d = Some h" and run: "store_at s t d h = (r, s')"
  from run obtain rc where rc: "stored_as s s' h (loose_bytes False d t (length d)) rc"
    "rc = CAS_OK \<longrightarrow> valid_hash h" by (rule store_at_spec)
  show "store_inv table s'"
    using stored_as_inv [OF codecs inv rc(2,1) _ _ _ raw_region_decode nm] storable_fit [OF f] by simp
next
  fix s t d h s'
  assume inv: "store_inv table s" and f: "storable t d" and run: "store_at s t d h = (True, s')"
  from run obtain rc where rc: "stored_as s s' h (loose_bytes False d t (length d)) rc"
    "rc = CAS_OK \<longrightarrow> valid_hash h" "True \<longleftrightarrow> rc = CAS_OK" by (rule store_at_spec)
  then show "get_object table s' h = (case get_object table s h of None \<Rightarrow> Some (t, d) | Some x \<Rightarrow> Some x)"
    using stored_as_same [OF codecs inv, of h s' False d t "length d"] storable_fit [OF f]
    by (simp add: raw_region_decode split: option.splits)
next
  fix s t d h r s' h'
  assume run: "store_at s t d h = (r, s')" and ne: "h' \<noteq> h"
  from run obtain rc where rc: "stored_as s s' h (loose_bytes False d t (length d)) rc"
    "rc = CAS_OK \<longrightarrow> valid_hash h" by (rule store_at_spec)
  with ne show "get_object table s' h' = get_object table s h'" by (intro stored_as_get) auto
next
  fix s t d h s'
  assume run: "store_at s t d h = (False, s')"
  from run obtain rc where rc: "stored_as s s' h (loose_bytes False d t (length d)) rc"
    "rc = CAS_OK \<longrightarrow> valid_hash h" "False \<longleftrightarrow> rc = CAS_OK" by (rule store_at_spec)
  then show "get_object table s' = get_object table s" using stored_as_get [OF rc(1,2)] by auto
next
  fix s u e h t d
  assume "store_inv table s" "cas_hash_object u e = Some h" "get_object table s h = Some (t, d)"
  then show "t = ''htree'' \<or> cas_hash_object t d = Some h"
    using get_object_name [OF codecs] hash_object_canonical by metis
qed

text \<open>The contract, spelled out over the definitions of the store for any set of codecs.\<close>

context codec_store
begin

lemma stored_object:
  assumes "store_inv table s" "storable t d" "cas_hash_object t d = Some h" "store_at s t d h = (True, s')"
  shows "store_inv table s' \<and>
    get_object table s' h = (case get_object table s h of None \<Rightarrow> Some (t, d) | Some x \<Rightarrow> Some x) \<and>
    (\<forall>k. k \<noteq> h \<longrightarrow> get_object table s' k = get_object table s k)"
  using put_inv [OF assms(1,2) _ assms(4)] put_get [OF assms(1,2,4)] put_other [OF assms(1,4)] assms(3)
  by blast

lemma stored_directory:
  assumes "store_inv table s" "storable t d" "t = ''htree'' \<or> cas_hash_object t d = Some h" "store_at s t d h = (True, s')"
  shows "store_inv table s' \<and>
    get_object table s' h = (case get_object table s h of None \<Rightarrow> Some (t, d) | Some x \<Rightarrow> Some x) \<and>
    (\<forall>k x. get_object table s k = Some x \<longrightarrow> get_object table s' k = Some x)"
  using put_inv [OF assms(1,2,3,4)] put_get [OF assms(1,2,4)] put_extends [OF assms(1,2,4)] unfolding extends_def
  by blast

end

text \<open>The store built without compression codecs.\<close>

interpretation plain: codec_store "codec_table []"
  by unfold_locales (rule codec_none_ok)

end
