(* ===== verification/StoreProgress.thy ===== *)
theory StoreProgress
  imports ObjectStore
begin

unbundle bit_operations_syntax

text \<open>
  Outcomes of the operations that store objects: when they succeed, what a compressed store leaves behind,
  and the small depots the examples of the properties run on.
\<close>


section \<open>Compressed objects\<close>

text \<open>An encoder's output that the bounds of \<open>cas_codec_region_decode\<close> let back in.\<close>

definition inflatable :: "byte list \<Rightarrow> nat \<Rightarrow> bool" where
  "inflatable payload n \<longleftrightarrow> payload \<noteq> [] \<and> n \<le> CAS_CODEC_MAX_PLAINTEXT \<and>
     n div length payload \<le> CAS_CODEC_MAX_RATIO"

lemma compressed_region_decode:
  assumes "codec_ok table" "cas_codec_encode table codec d cap = Inr payload" "0 \<le> codec" "codec \<le> 255"
    and "codec \<noteq> CAS_CODEC_NONE" "inflatable payload (length d)"
  shows "cas_codec_region_decode table True (word_of_int codec # payload) True (length d) = Inr d"
proof -
  have u: "uint (word_of_int codec :: byte) = codec"
    using assms(3,4) by (simp add: uint_word_of_int take_bit_eq_mod)
  have "cas_codec_decode table codec payload (length d) = Inr d"
    using codec_roundtrip [OF assms(1,2)] by simp
  with u assms(5,6) show ?thesis
    by (auto simp: cas_codec_region_decode_def Let_def inflatable_def)
qed

lemma try_compress_same: "try_compress table cfg s codec d = (r, s') \<Longrightarrow> same_disk s s'"
  by (auto simp: try_compress_def Let_def split: if_splits prod.splits sum.splits dest: sys_call_same)

lemma try_compressD:
  assumes "try_compress table cfg s codec d = (Some payload, s')"
  shows "cas_codec_encode table codec d (length d) = Inr payload \<and> codec \<noteq> CAS_CODEC_NONE \<and>
    length payload + 1 < length d"
  using assms by (auto simp: try_compress_def Let_def split: if_splits prod.splits sum.splits)

lemma put_precompressed_valid:
  "cas_put_precompressed s t codec payload n h = (Some CAS_OK, s') \<Longrightarrow> valid_hash h \<and> 0 \<le> codec \<and> codec \<le> 255"
  by (auto simp: cas_put_precompressed_def split: if_splits)

lemma same_disk_inv:
  "same_disk s s' \<Longrightarrow> store_inv table s' = store_inv table s \<and> get_object table s' = get_object table s"
proof -
  assume sd: "same_disk s s'"
  then have g: "get_object table s' h = get_object table s h" for h
    by (intro get_object_cong) (simp_all add: same_disk_def)
  have eqs: "s_files s' = s_files s" "s_pack s' = s_pack s" "build_path s' h b = build_path s h b" for h b
    using sd build_path_frame [of s' s h b] by (simp_all add: same_disk_def)
  have "cas_exists s' h = cas_exists s h" "pack_ok s' = pack_ok s" for h
    by (simp_all only: cas_exists_def pack_ok_def eqs)
  with g show ?thesis by (auto simp: store_inv_def)
qed

text \<open>The outcome of \<open>cas_put_object_z\<close>: the object was there, or it is stored raw or compressed.\<close>

lemma put_object_z_cases:
  assumes "cas_put_object_z table cfg s t codec d = (Some (Inr h), s')"
  obtains (hit) "cas_hash_object t d = Some h" "cas_exists s h = Some True" "s' = s"
  | (raw) s1 where "cas_hash_object t d = Some h" "same_disk s s1"
      "cas_put_object_at s1 t d h = (Some CAS_OK, s')"
  | (packed) s1 payload where "cas_hash_object t d = Some h" "same_disk s s1"
      "cas_codec_encode table codec d (length d) = Inr payload" "codec \<noteq> CAS_CODEC_NONE"
      "length payload + 1 < length d"
      "cas_put_precompressed s1 t codec payload (length d) h = (Some CAS_OK, s')"
proof (cases "cas_hash_object t d")
  case None
  then show thesis using assms by (simp add: cas_put_object_z_def)
next
  case (Some k)
  note run = assms [unfolded cas_put_object_z_def Some option.case]
  consider "cas_exists s k = None" | "cas_exists s k = Some True" | "cas_exists s k = Some False"
    by (cases "cas_exists s k") auto
  then show thesis
  proof cases
    case 1
    then show thesis using run by simp
  next
    case 2
    then have "k = h \<and> s' = s" using run by simp
    with Some 2 show thesis using hit by blast
  next
    case 3
    obtain po s1 where tc: "try_compress table cfg s codec d = (po, s1)" by fastforce
    note sd = try_compress_same [OF tc]
    show thesis
    proof (cases po)
      case None
      obtain ro s2 where p: "cas_put_object_at s1 t d k = (ro, s2)" by fastforce
      then have "ro = Some CAS_OK \<and> k = h \<and> s2 = s'"
        using run 3 tc None by (cases ro) (simp_all split: if_splits)
      with Some sd p show thesis using raw by blast
    next
      case pl: (Some payload)
      obtain ro s2 where p: "cas_put_precompressed s1 t codec payload (length d) k = (ro, s2)" by fastforce
      then have "ro = Some CAS_OK \<and> k = h \<and> s2 = s'"
        using run 3 tc pl by (cases ro) (simp_all split: if_splits)
      with Some sd p tc pl show thesis using packed try_compressD by blast
    qed
  qed
qed

section \<open>Progress\<close>

lemma hash_object_valid: "cas_hash_object t d = Some h \<Longrightarrow> valid_hash h"
  by (auto simp: hash_object_eq split: option.splits)

lemma put_at_progress:
  assumes "s_sys s = []" "length (s_basedir s) \<le> 400" "storable t d" "pack_ok s" "valid_hash h"
  shows "\<exists>s'. cas_put_object_at s t d h = (Some CAS_OK, s') \<and> s_sys s' = []"
proof -
  have st: "type_ok t" "length d \<le> 2 ^ 30" using storable_fit [OF assms(3)] by simp_all
  have fh: "format_header CAS_HEADER_MAX t (length d) = Some (header_text t (length d) @ [0])"
    using format_header_fits(1) [OF st] .
  have hl: "\<not> length (header_text t (length d) @ [0]) > CAS_PACK_HEADER_LEN" using header_len_ok [OF fh] .
  have "length h = 64" using assms(5) by (simp add: valid_hash_def CAS_HASH_HEX_def)
  then obtain path dir where p: "build_path s h CAS_PATH_MAX = Some path" and
    dir: "build_dir s h CAS_PATH_MAX = Some dir" "length (dir @ ''/.cas.XXXXXX'') < CAS_PATH_MAX"
    using assms(2) by (auto simp: build_path_def build_dir_def CAS_PATH_MAX_def)
  have "already_stored s path h \<noteq> None"
    using pack_exists_total [OF assms(4)] by (auto simp: already_stored_def split: option.splits)
  then obtain b where b: "already_stored s path h = Some b" by blast
  show ?thesis
    using assms(1,5) fh hl p dir b
    by (cases b) (simp_all add: cas_put_object_at_def commit_file_ok)
qed

lemma put_progress:
  assumes "s_sys s = []" "length (s_basedir s) \<le> 400" "storable t d" "pack_ok s"
  shows "\<exists>h s'. cas_put_object s t d = (Some (Inr h), s') \<and> s_sys s' = [] \<and> cas_hash_object t d = Some h"
proof -
  have "format_header CAS_HEADER_MAX t (length d) \<noteq> None"
    using format_header_fits(1) storable_fit [OF assms(3)] by auto
  then obtain h where h: "cas_hash_object t d = Some h" by (auto simp: hash_object_eq)
  from put_at_progress [OF assms hash_object_valid [OF h]] h show ?thesis
    by (auto simp: put_object_at_hash)
qed

lemma put_object_store_at:
  assumes "cas_put_object s t d = (Some (Inr h), s')"
  shows "cas_hash_object t d = Some h \<and> store_at s t d h = (True, s')"
proof (cases "cas_hash_object t d")
  case None
  with assms show ?thesis by (simp add: put_object_at_hash)
next
  case (Some k)
  obtain ro s2 where p: "cas_put_object_at s t d k = (ro, s2)" by fastforce
  with assms Some have "ro = Some CAS_OK \<and> k = h \<and> s2 = s'"
    by (cases ro) (auto simp: put_object_at_hash split: if_splits)
  with p Some show ?thesis by (simp add: store_at_def)
qed

lemma put_object_fail:
  assumes "cas_put_object s t d = (Some (Inl rc), s')"
  shows "s_files s' = s_files s \<and> s_pack s' = s_pack s"
proof (cases "cas_hash_object t d")
  case None
  with assms show ?thesis by (simp add: put_object_at_hash)
next
  case (Some k)
  obtain ro s2 where p: "cas_put_object_at s t d k = (ro, s2)" by fastforce
  with assms Some obtain rc1 where "ro = Some rc1" "rc1 \<noteq> CAS_OK" "s2 = s'"
    by (cases ro) (auto simp: put_object_at_hash split: if_splits)
  with put_object_at_spec [of s t d k rc1 s2] p show ?thesis by (simp add: stored_as_def)
qed

text \<open>An empty depot for the examples.\<close>

definition demo_store :: cas where
  "demo_store = \<lparr>s_basedir = ''depot'', s_pack = None, s_files = (\<lambda>_. None), s_sys = []\<rparr>"

lemma demo_store_facts:
  "s_sys demo_store = []" "length (s_basedir demo_store) \<le> 400" "pack_ok demo_store"
  "get_object table demo_store h = None" "store_inv table demo_store"
proof -
  show "s_sys demo_store = []" "length (s_basedir demo_store) \<le> 400" "pack_ok demo_store"
    by (simp_all add: demo_store_def pack_ok_def)
  show "get_object table demo_store h = None"
    by (simp add: get_object_def cas_open_object_def open_loose_def map_loose_def demo_store_def
        split: option.splits)
  have "cas_exists demo_store k \<noteq> Some True" for k
    by (simp add: cas_exists_def demo_store_def split: option.splits)
  then show "store_inv table demo_store" by (simp add: store_inv_def pack_ok_def demo_store_def)
qed

lemma demo_storable: "length d \<le> 1000 \<Longrightarrow> storable ''blob'' d"
  by (simp add: storable_def type_ok_def CAS_TYPE_MAX_def CAS_PACK_BLOCK_def MAX_FILE_def)

text \<open>Progress of the compressed path.\<close>

lemma put_precompressed_progress:
  assumes "s_sys s = []" "length (s_basedir s) \<le> 400" "type_ok t" "n \<le> 2 ^ 30" "valid_hash h"
    and "0 \<le> codec" "codec \<le> 255" "codec \<noteq> CAS_CODEC_NONE" "s_pack s = None"
  shows "\<exists>s'. cas_put_precompressed s t codec payload n h = (Some CAS_OK, s') \<and> s_sys s' = []"
proof -
  have fh: "format_header CAS_HEADER_MAX t n = Some (header_text t n @ [0])"
    using format_header_fits(1) [OF assms(3,4)] .
  have hl: "\<not> length (header_text t n @ [0]) > CAS_PACK_HEADER_LEN" using header_len_ok [OF fh] .
  have "length h = 64" using assms(5) by (simp add: valid_hash_def CAS_HASH_HEX_def)
  then obtain path dir where p: "build_path s h CAS_PATH_MAX = Some path" and
    dir: "build_dir s h CAS_PATH_MAX = Some dir" "length (dir @ ''/.cas.XXXXXX'') < CAS_PATH_MAX"
    using assms(2) by (auto simp: build_path_def build_dir_def CAS_PATH_MAX_def)
  have "already_stored s path h \<noteq> None" using assms(9) by (auto simp: already_stored_def)
  then obtain b where b: "already_stored s path h = Some b" by blast
  show ?thesis
    using assms(1,5-8) fh hl p dir b
    by (cases b) (simp_all add: cas_put_precompressed_def commit_file_ok)
qed

text \<open>
  A codec for the examples: it encodes a run of one byte as \<open>k\<close> copies of the byte and refuses
  everything else.
\<close>

definition run_codec :: "nat \<Rightarrow> cas_codec" where
  "run_codec k = \<lparr>c_tag = CAS_CODEC_DEFLATE,
     c_decode = Some (\<lambda>p n. if p \<noteq> [] then Inr (replicate n (hd p)) else Inl CAS_ERR),
     c_encode = Some (\<lambda>d cap. if d \<noteq> [] \<and> d = replicate (length d) (hd d) \<and> 0 < k \<and> k \<le> cap
        then Inr (replicate k (hd d)) else Inl CAS_ERR),
     c_name = ''run''\<rparr>"

lemma run_codec_ok: "codec_ok (codec_table [run_codec k])"
  by (auto simp: codec_ok_def codec_find_def codec_table_def run_codec_def hd_replicate split: if_splits)

lemma run_codec_encode:
  assumes "0 < k" "k \<le> n" "0 < n"
  shows "cas_codec_encode (codec_table [run_codec k]) CAS_CODEC_DEFLATE (replicate n b) n = Inr (replicate k b)"
  using assms
  by (auto simp: cas_codec_encode_def codec_find_def codec_table_def run_codec_def CAS_CODEC_NONE_def
      CAS_CODEC_DEFLATE_def ascii_def)

lemma codec_tags: "CAS_CODEC_DEFLATE \<noteq> CAS_CODEC_NONE" "0 \<le> CAS_CODEC_DEFLATE" "CAS_CODEC_DEFLATE \<le> 255"
  by (simp_all add: CAS_CODEC_NONE_def CAS_CODEC_DEFLATE_def ascii_def)

text \<open>A run of 600 bytes is kept compressed under the default settings.\<close>

lemma run_compressed:
  assumes "0 < k" "k \<le> 500"
  shows "try_compress (codec_table [run_codec k]) default_compress_cfg demo_store CAS_CODEC_DEFLATE (replicate 600 b)
    = (Some (replicate k b), demo_store)"
proof -
  have "cas_codec_can_encode (codec_table [run_codec k]) CAS_CODEC_DEFLATE"
    using codec_tags(1) by (simp add: cas_codec_can_encode_def codec_find_def codec_table_def run_codec_def)
  with run_codec_encode [of k 600 b] assms codec_tags(1) show ?thesis
    by (simp add: try_compress_def default_compress_cfg_def demo_store_facts(1))
qed

lemma run_stored:
  assumes "0 < k" "k \<le> 500"
  obtains h s' path where
    "cas_put_object_z (codec_table [run_codec k]) default_compress_cfg demo_store ''blob'' CAS_CODEC_DEFLATE
       (replicate 600 b) = (Some (Inr h), s')"
    "valid_hash h" "s_sys s' = []" "s_pack s' = None" "build_path s' h CAS_PATH_MAX = Some path"
    "s_files s' path = Some (loose_bytes True (word_of_int CAS_CODEC_DEFLATE # replicate k b) ''blob'' 600)"
proof -
  let ?d = "replicate 600 b" and ?t = "''blob''"
  have st: "storable ?t ?d" by (rule demo_storable) simp
  note f = storable_fit [OF st]
  have "format_header CAS_HEADER_MAX ?t (length ?d) \<noteq> None" using format_header_fits(1) f by auto
  then obtain h where h: "cas_hash_object ?t ?d = Some h" by (auto simp: hash_object_eq)
  have v: "valid_hash h" using hash_object_valid [OF h] .
  have "cas_exists demo_store h = Some False" using v by (simp add: cas_exists_def demo_store_def split: option.splits)
  moreover from put_precompressed_progress [OF demo_store_facts(1,2) _ _ v codec_tags(2,3,1), of ?t 600 "replicate k b"] f
  obtain s' where p: "cas_put_precompressed demo_store ?t CAS_CODEC_DEFLATE (replicate k b) 600 h = (Some CAS_OK, s')"
    "s_sys s' = []" by (auto simp: demo_store_def)
  ultimately have run: "cas_put_object_z (codec_table [run_codec k]) default_compress_cfg demo_store ?t
      CAS_CODEC_DEFLATE ?d = (Some (Inr h), s')"
    using h run_compressed [OF assms, of b] by (simp add: cas_put_object_z_def)
  from put_precompressed_spec [OF p(1)] obtain path where "build_path demo_store h CAS_PATH_MAX = Some path"
    "s_files s' path = Some (loose_bytes True (word_of_int CAS_CODEC_DEFLATE # replicate k b) ?t 600)"
    "s_basedir s' = s_basedir demo_store" "s_pack s' = None"
    by (auto simp: stored_as_def already_stored_def demo_store_def)
  then show thesis using that [OF run v p(2)] build_path_frame [of s' demo_store h] by metis
qed


end
