(* ===== verification/CasProps.thy ===== *)
theory CasProps
  imports StoreProgress
begin

unbundle bit_operations_syntax

text \<open>
  The properties of the object store: hashing, names, headers, storing and opening objects with and
  without compression, and reading packs.
\<close>

text \<open>
  C16. The streaming BLAKE2b of \<open>cas.c\<close> computes the hash of the message: whatever pieces it is fed
  in, and whatever stale bytes the block buffer holds, the digest is that of their concatenation
  absorbed block by block, and its length is the one asked for.
\<close>

theorem blake2b_streaming:
  "blake2b_final (foldl blake2b_update (blake2b_init outlen) pieces) = blake2b_hash outlen (concat pieces)
   \<and> length (blake2b_hash outlen (concat pieces)) = min outlen 64"
  using blake2b_pieces length_blake2b_hash by blast

text \<open>
  A digest survives its hexadecimal name: decoding what \<open>cas_hex_encode\<close> wrote gives the bytes
  back when they fit, the name of every object is accepted by \<open>cas_valid_hash\<close>, and every accepted
  name decodes to a digest of \<open>CAS_HASH_LEN\<close> bytes.
\<close>

theorem hash_names:
  "(length bs \<le> outsz \<longrightarrow> cas_hex_decode (cas_hex_encode bs) outsz = Some bs) \<and>
   (cas_hash_object t d = Some h \<longrightarrow> cas_valid_hash h) \<and>
   (cas_valid_hash k \<longrightarrow> (\<exists>bin. cas_hex_decode k CAS_HASH_LEN = Some bin \<and> length bin = CAS_HASH_LEN))"
  using hex_decode_encode hash_object_valid valid_hash_decodes by (simp add: cas_valid_hash_def)

theorem hash_names_witness:
  "cas_hex_decode (cas_hex_encode [0xCB, 0x0F]) 2 = Some [0xCB, 0x0F]"
  using hash_names [of "[0xCB, 0x0F]" 2] by simp

section \<open>Headers\<close>

text \<open>
  A header that \<open>format_header\<close> writes is read back by both parsers, with the same type and
  length, when the type has no space in it and the length is at most 1 GiB.
\<close>

theorem header_roundtrip:
  assumes "type_ok t" "n \<le> 2 ^ 30"
  shows "\<exists>hdr. format_header CAS_HEADER_MAX t n = Some hdr \<and>
    parse_header (hdr @ pad) (CAS_TYPE_MAX + 1) = Some (t, of_nat n) \<and>
    pack_parse_header (hdr @ pad) (CAS_TYPE_MAX + 1) = Some (t, of_nat n)"
proof -
  have "length t < CAS_TYPE_MAX + 1" using assms(1) by (simp add: type_ok_def)
  then have "parse_header (header_text t n @ 0 # pad) (CAS_TYPE_MAX + 1) = Some (t, of_nat n)"
    by (rule parse_header_text [OF assms])
  with parse_header_pack [OF this] format_header_fits(1) [OF assms] show ?thesis by simp
qed

theorem header_roundtrip_witness:
  "\<exists>hdr. format_header CAS_HEADER_MAX ''blob'' 42 = Some hdr \<and>
    parse_header (hdr @ []) (CAS_TYPE_MAX + 1) = Some (''blob'', 42)"
proof -
  have "type_ok ''blob''" by (simp add: type_ok_def CAS_TYPE_MAX_def)
  from header_roundtrip [OF this, of 42 "[]"] show ?thesis by auto
qed

text \<open>
  The formatter accepts more than the parser: a header for an object of more than 1 GiB and one
  for a type that contains a space are written, and neither can be read back.
\<close>

theorem header_gap:
  "format_header CAS_HEADER_MAX ''blob'' 1073741825 = Some (bytes_of ''blob 1073741825'' @ [0]) \<and>
   parse_header (bytes_of ''blob 1073741825'' @ [0]) (CAS_TYPE_MAX + 1) = None \<and>
   format_header CAS_HEADER_MAX ''a b'' 7 = Some (bytes_of ''a b 7'' @ [0]) \<and>
   parse_header (bytes_of ''a b 7'' @ [0]) (CAS_TYPE_MAX + 1) = None"
proof (intro conjI)
  have "decimal 1073741825 = ''1073741825''" by (simp add: decimal.simps digit_def, code_simp)
  then show "format_header CAS_HEADER_MAX ''blob'' 1073741825 = Some (bytes_of ''blob 1073741825'' @ [0])"
    by (simp add: format_header_def header_text_def CAS_TYPE_MAX_def CAS_HEADER_MAX_def)
  have "decimal 7 = ''7''" by (simp add: decimal.simps digit_def, code_simp)
  then show "format_header CAS_HEADER_MAX ''a b'' 7 = Some (bytes_of ''a b 7'' @ [0])"
    by (simp add: format_header_def header_text_def CAS_TYPE_MAX_def CAS_HEADER_MAX_def)
  show "parse_header (bytes_of ''blob 1073741825'' @ [0]) (CAS_TYPE_MAX + 1) = None" by code_simp
  show "parse_header (bytes_of ''a b 7'' @ [0]) (CAS_TYPE_MAX + 1) = None" by code_simp
qed

text \<open>
  The parser of the pack code lets a length wrap: a header that says 3 * 10 ^ 19 bytes is read
  as a smaller number, while the parser of the loose objects rejects it.
\<close>

theorem pack_header_wraps:
  "pack_parse_header (bytes_of ''blob 30000000000000000000'' @ [0]) (CAS_TYPE_MAX + 1)
     = Some (''blob'', 11553255926290448384) \<and>
   parse_header (bytes_of ''blob 30000000000000000000'' @ [0]) (CAS_TYPE_MAX + 1) = None"
proof (intro conjI)
  show "pack_parse_header (bytes_of ''blob 30000000000000000000'' @ [0]) (CAS_TYPE_MAX + 1)
     = Some (''blob'', 11553255926290448384)" by code_simp
  show "parse_header (bytes_of ''blob 30000000000000000000'' @ [0]) (CAS_TYPE_MAX + 1) = None" by code_simp
qed

section \<open>Storing and opening\<close>

text \<open>
  C21. Storing an object returns its content address and makes it readable: afterwards an open of
  that name gives the type and the bytes stored, or what the name already held. Every other
  name reads as before, and the integrity of the store, that whatever opens hashes to its name, is
  kept. An object is storable when its type fits a header and its file is at most 1 GiB.
\<close>

theorem put_open_roundtrip:
  assumes "codec_ok table" "store_inv table s" "storable t d" "cas_put_object s t d = (Some (Inr h), s')"
  shows "cas_hash_object t d = Some h \<and> store_inv table s' \<and>
    get_object table s' h = (case get_object table s h of None \<Rightarrow> Some (t, d) | Some x \<Rightarrow> Some x) \<and>
    (\<forall>k. k \<noteq> h \<longrightarrow> get_object table s' k = get_object table s k)"
proof -
  have cs: "codec_store table" using assms(1) by (rule codec_store.intro)
  have p: "cas_hash_object t d = Some h" "store_at s t d h = (True, s')"
    using put_object_store_at [OF assms(4)] by simp_all
  show ?thesis
    using p codec_store.stored_object [OF cs assms(2,3) p] by blast
qed

theorem put_open_roundtrip_witness:
  "\<exists>h s'. cas_put_object demo_store ''blob'' [1, 2, 3] = (Some (Inr h), s') \<and>
    get_object (codec_table []) s' h = Some (''blob'', [1, 2, 3])"
proof -
  have st: "storable ''blob'' [1, 2, 3]" by (rule demo_storable) simp
  from put_progress [OF demo_store_facts(1,2) st demo_store_facts(3)] obtain h s' where
    run: "cas_put_object demo_store ''blob'' [1, 2, 3] = (Some (Inr h), s')" by blast
  from put_open_roundtrip [OF codec_none_ok demo_store_facts(5) st run] run show ?thesis
    by (auto simp: demo_store_facts(4))
qed

text \<open>
  C22. Storing succeeds: when no system call fails, the depot path is not too long and the pack is
  in order, \<open>cas_put_object\<close> of a storable object returns its address. A put that fails, whatever
  failed, changes no file.
\<close>

theorem put_succeeds:
  assumes "storable t d" "pack_ok s"
  shows "(s_sys s = [] \<and> length (s_basedir s) \<le> 400 \<longrightarrow>
      (\<exists>h s'. cas_put_object s t d = (Some (Inr h), s') \<and> cas_hash_object t d = Some h)) \<and>
    (\<forall>rc s'. cas_put_object s t d = (Some (Inl rc), s') \<longrightarrow> s_files s' = s_files s \<and> s_pack s' = s_pack s)"
proof (intro conjI allI impI)
  assume "s_sys s = [] \<and> length (s_basedir s) \<le> 400"
  then show "\<exists>h s'. cas_put_object s t d = (Some (Inr h), s') \<and> cas_hash_object t d = Some h"
    using put_progress [OF _ _ assms] by blast
next
  fix rc s'
  assume run: "cas_put_object s t d = (Some (Inl rc), s')"
  show "s_files s' = s_files s" "s_pack s' = s_pack s"
    using put_object_fail [OF run] by simp_all
qed

theorem put_succeeds_witness:
  "\<exists>h s'. cas_put_object demo_store ''blob'' [7] = (Some (Inr h), s')"
proof -
  have st: "storable ''blob'' [7]" by (rule demo_storable) simp
  from put_succeeds [OF st demo_store_facts(3)] show ?thesis using demo_store_facts(1,2) by blast
qed

text \<open>
  C23. Compression is transparent: an object stored with \<open>cas_put_object_z\<close> is read back
  uncompressed under the address of its plaintext, provided the codecs keep their contract and
  the payload, if one was kept, is within the bounds the reader enforces.
\<close>

theorem put_z_open_roundtrip:
  assumes "codec_ok table" "store_inv table s" "storable t d"
    and "cas_put_object_z table cfg s t codec d = (Some (Inr h), s')"
    and "\<And>payload. cas_codec_encode table codec d (length d) = Inr payload \<Longrightarrow> inflatable payload (length d)"
  shows "cas_hash_object t d = Some h \<and> store_inv table s' \<and>
    get_object table s' h = (case get_object table s h of None \<Rightarrow> Some (t, d) | Some x \<Rightarrow> Some x)"
  using assms(4)
proof (cases rule: put_object_z_cases)
  case hit
  then obtain x where "get_object table s h = Some x" using assms(2) by (fastforce simp: store_inv_def)
  with hit assms(2) show ?thesis by simp
next
  case (raw s1)
  have f: "type_ok t" "length d \<le> 2 ^ 30" "length d + CAS_PACK_BLOCK \<le> MAX_FILE"
    using storable_fit [OF assms(3)] by simp_all
  have i1: "store_inv table s1" "get_object table s1 = get_object table s"
    using same_disk_inv [OF raw(2)] assms(2) by simp_all
  note st = put_object_at_spec [OF raw(3)] and v = put_at_valid [OF raw(3)]
  from stored_as_same [OF assms(1) i1(1) v st f] stored_as_inv [OF assms(1) i1(1) _ st f raw_region_decode]
    v raw(1) i1(2) show ?thesis by (simp add: raw_region_decode split: option.splits)
next
  case (packed s1 payload)
  let ?region = "word_of_int codec # payload"
  have f: "type_ok t" "length d \<le> 2 ^ 30" "length ?region + CAS_PACK_BLOCK \<le> MAX_FILE"
    using storable_fit [OF assms(3)] packed(5) by simp_all
  have i1: "store_inv table s1" "get_object table s1 = get_object table s"
    using same_disk_inv [OF packed(2)] assms(2) by simp_all
  note st = put_precompressed_spec [OF packed(6)] and v = put_precompressed_valid [OF packed(6)]
  have dec: "cas_codec_region_decode table True ?region True (length d) = Inr d"
    using compressed_region_decode [OF assms(1) packed(3) _ _ packed(4)] v assms(5) packed(3) by blast
  from stored_as_same [OF assms(1) i1(1) _ st f] stored_as_inv [OF assms(1) i1(1) _ st f dec]
    v packed(1) i1(2) dec show ?thesis by (simp split: option.splits)
qed

theorem put_z_open_roundtrip_witness:
  "\<exists>h s'. cas_put_object_z (codec_table [run_codec 3]) default_compress_cfg demo_store ''blob'' CAS_CODEC_DEFLATE
      (replicate 600 7) = (Some (Inr h), s') \<and>
    get_object (codec_table [run_codec 3]) s' h = Some (''blob'', replicate 600 7)"
proof -
  let ?tab = "codec_table [run_codec 3]" and ?d = "replicate 600 7 :: byte list"
  have k: "0 < (3 :: nat)" "3 \<le> (500 :: nat)" by simp_all
  from run_stored [OF k, of 7] obtain h s' where
    run: "cas_put_object_z ?tab default_compress_cfg demo_store ''blob'' CAS_CODEC_DEFLATE ?d = (Some (Inr h), s')"
    by metis
  have st: "storable ''blob'' ?d" by (rule demo_storable) simp
  have "inflatable payload (length ?d)" if "cas_codec_encode ?tab CAS_CODEC_DEFLATE ?d (length ?d) = Inr payload" for payload
    using that run_codec_encode [of 3 600 7]
    by (auto simp: inflatable_def CAS_CODEC_MAX_PLAINTEXT_def CAS_CODEC_MAX_RATIO_def)
  from put_z_open_roundtrip [OF run_codec_ok demo_store_facts(5) st run this] run show ?thesis
    by (auto simp: demo_store_facts(4))
qed

text \<open>
  Compression can lose an object. The writer keeps any payload that saves enough, the reader
  refuses one that expands more than 256 times: with a codec that keeps its contract, a run of 600
  bytes that encodes to one byte is stored with success and then fails to open.
\<close>

theorem put_z_unreadable:
  "\<exists>h s'. codec_ok (codec_table [run_codec 1]) \<and>
    cas_put_object_z (codec_table [run_codec 1]) default_compress_cfg demo_store ''blob'' CAS_CODEC_DEFLATE
      (replicate 600 7) = (Some (Inr h), s') \<and>
    fst (cas_open_object (codec_table [run_codec 1]) s' h None) = Some (Inl CAS_ERR)"
proof -
  let ?tab = "codec_table [run_codec 1]"
  let ?region = "word_of_int CAS_CODEC_DEFLATE # replicate 1 7 :: byte list"
  have k: "0 < (1 :: nat)" "1 \<le> (500 :: nat)" by simp_all
  from run_stored [OF k, of 7] obtain h s' path where
    run: "cas_put_object_z ?tab default_compress_cfg demo_store ''blob'' CAS_CODEC_DEFLATE (replicate 600 7)
      = (Some (Inr h), s')" and v: "valid_hash h" and s': "s_sys s' = []" "s_pack s' = None"
    "build_path s' h CAS_PATH_MAX = Some path" "s_files s' path = Some (loose_bytes True ?region ''blob'' 600)"
    by metis
  have "uint (word_of_int CAS_CODEC_DEFLATE :: byte) \<noteq> CAS_CODEC_NONE"
    by (simp add: CAS_CODEC_DEFLATE_def CAS_CODEC_NONE_def ascii_def)
  then have dec: "cas_codec_region_decode ?tab True ?region True 600 = Inl CAS_ERR"
    by (simp add: cas_codec_region_decode_def Let_def CAS_CODEC_MAX_RATIO_def)
  have "type_ok ''blob''" "length ?region + CAS_PACK_BLOCK \<le> MAX_FILE"
    by (simp_all add: type_ok_def CAS_TYPE_MAX_def CAS_PACK_BLOCK_def MAX_FILE_def)
  with open_loose_bytes [OF s'(1,3,4), of None ?tab] dec have
    "open_loose ?tab s' h None = (Inl CAS_ERR, s')" by simp
  then have "fst (cas_open_object ?tab s' h None) = Some (Inl CAS_ERR)"
    using v s'(2) by (simp add: cas_open_object_def)
  with run run_codec_ok show ?thesis by blast
qed

text \<open>
  The store accepts objects that it cannot open: with its trailer the file of an object of
  more than 1 GiB less 64 bytes exceeds the limit the reader puts on files.
\<close>

theorem put_oversize_unreadable:
  assumes "type_ok t" "2 ^ 30 - 64 < length d" "length d \<le> 2 ^ 30"
  shows "\<exists>h s'. cas_put_object demo_store t d = (Some (Inr h), s') \<and>
    fst (cas_open_object table s' h None) = Some (Inl CAS_ERR)"
proof -
  have fh: "format_header CAS_HEADER_MAX t (length d) = Some (header_text t (length d) @ [0])"
    using format_header_fits(1) [OF assms(1,3)] .
  then obtain h where h: "cas_hash_object t d = Some h" by (auto simp: hash_object_eq)
  have v: "valid_hash h" using hash_object_valid [OF h] .
  then have "length h = 64" by (simp add: valid_hash_def CAS_HASH_HEX_def)
  then obtain path dir where p: "build_path demo_store h CAS_PATH_MAX = Some path" and
    dir: "build_dir demo_store h CAS_PATH_MAX = Some dir" "length (dir @ ''/.cas.XXXXXX'') < CAS_PATH_MAX"
    by (auto simp: build_path_def build_dir_def CAS_PATH_MAX_def demo_store_def)
  have a: "already_stored demo_store path h = Some False" by (simp add: already_stored_def demo_store_def)
  obtain s' where run: "cas_put_object_at demo_store t d h = (Some CAS_OK, s')" and sys: "s_sys s' = []"
    using fh header_len_ok [OF fh] v p dir a
    by (simp add: cas_put_object_at_def commit_file_ok demo_store_facts(1))
  from put_object_at_spec [OF run] p a have
    f: "s_files s' path = Some (loose_bytes False d t (length d))" "s_basedir s' = s_basedir demo_store" "s_pack s' = None"
    by (auto simp: stored_as_def demo_store_def)
  have len: "length (loose_bytes False d t (length d)) > MAX_FILE"
    using trailer_read(1) [OF assms(1,3)] assms(2) by (simp add: loose_bytes_def MAX_FILE_def CAS_PACK_BLOCK_def)
  have "build_path s' h CAS_PATH_MAX = Some path" using p build_path_frame [OF f(2)] by simp
  then have "open_loose table s' h None = (Inl CAS_ERR, s')"
    using sys f(1) len by (simp add: open_loose_def map_loose_def)
  then have "fst (cas_open_object table s' h None) = Some (Inl CAS_ERR)"
    using v f(3) by (simp add: cas_open_object_def)
  moreover have "cas_put_object demo_store t d = (Some (Inr h), s')" using run h by (simp add: put_object_at_hash)
  ultimately show ?thesis by blast
qed

theorem put_oversize_unreadable_witness:
  "\<exists>h s'. cas_put_object demo_store ''blob'' (replicate (2 ^ 30) 0) = (Some (Inr h), s') \<and>
    fst (cas_open_object (codec_table []) s' h None) = Some (Inl CAS_ERR)"
proof -
  have "type_ok ''blob''" by (simp add: type_ok_def CAS_TYPE_MAX_def)
  then show ?thesis by (rule put_oversize_unreadable) (simp_all only: length_replicate, simp_all)
qed

section \<open>Packs\<close>

lemma pack_open_index:
  assumes "cas_pack_open sys (Some m) = Some (Some p)" "length m < 2 ^ 64" "unat (p_count p) < 2 ^ 58 - 1"
  shows "index_fits p"
proof -
  define count :: u64 where "count = load_le64 (drop (length m - CAS_PACK_BLOCK + PACK_FT_COUNT) m)"
  let ?tail = "count * of_nat CAS_PACK_BLOCK + of_nat CAS_PACK_BLOCK"
  have p: "p_map p = m" "p_count p = count" "p_index p = unat (of_nat (length m) - ?tail)"
    and t: "\<not> ?tail > of_nat (length m)"
    using assms(1)
    by (auto simp: cas_pack_open_def Let_def count_def split: if_splits option.splits)
  have c: "unat count < 2 ^ 58 - 1" using assms(3) p by simp
  then have tail: "unat ?tail = unat count * 64 + 64"
    by (simp add: CAS_PACK_BLOCK_def unat_word_ariths)
  have m: "unat (of_nat (length m) :: u64) = length m" using assms(2) by (simp add: unat_of_nat)
  have le: "unat count * 64 + 64 \<le> length m" using t tail m by (simp add: word_less_nat_alt not_less)
  have "unat (of_nat (length m) - ?tail) = length m - (unat count * 64 + 64)"
    using le tail m by (simp add: unat_sub word_le_nat_alt)
  then show ?thesis using p le assms(2) by (simp add: index_fits_def CAS_PACK_BLOCK_def)
qed

text \<open>
  C26. The binary search of the index is a membership test: over a sorted index it finds an entry
  exactly when one has the name asked for, and the entry it returns has that name. It reads only
  inside the mapping.
\<close>

theorem find_entry_membership:
  assumes "index_fits p" "index_sorted p" "length bin = CAS_HASH_LEN"
  shows "\<exists>r. find_entry p bin = Some r \<and> (r \<noteq> None \<longleftrightarrow> (\<exists>i<unat (p_count p). entry_hash p i = bin)) \<and>
    (\<forall>e. r = Some e \<longrightarrow> take CAS_HASH_LEN (drop e (p_map p)) = bin)"
proof -
  from find_entry_correct [OF assms(1,3)] obtain r where r: "find_entry p bin = Some r"
    "\<forall>e. r = Some e \<longrightarrow> (\<exists>i<unat (p_count p). e = entry_at p i \<and> entry_hash p i = bin)"
    "r = None \<longrightarrow> (\<forall>i<unat (p_count p). entry_hash p i \<noteq> bin)" using assms(2) by blast
  have "r \<noteq> None \<longleftrightarrow> (\<exists>i<unat (p_count p). entry_hash p i = bin)" using r(2,3) by blast
  moreover have "\<forall>e. r = Some e \<longrightarrow> take CAS_HASH_LEN (drop e (p_map p)) = bin"
    using r(2) by (auto simp: entry_hash_def)
  ultimately show ?thesis using r(1) by blast
qed

text \<open>A pack index with two entries, without objects, for the example.\<close>

definition demo_pack :: cas_pack where
  "demo_pack = \<lparr>p_map = replicate 64 1 @ replicate 64 2, p_count = 2, p_index = 0\<rparr>"

theorem find_entry_membership_witness:
  "\<exists>r. find_entry demo_pack (replicate CAS_HASH_LEN 2) = Some r \<and> r \<noteq> None"
proof -
  have h: "entry_hash demo_pack 0 = replicate 32 1" "entry_hash demo_pack 1 = replicate 32 2"
    by (simp_all add: entry_hash_def entry_at_def demo_pack_def pack_consts)
  have "memcmp (replicate 32 1) (replicate 32 2) < 0" by code_simp
  then have "memcmp (entry_hash demo_pack i) (entry_hash demo_pack j) < 0" if "i < j" "j < 2" for i j
  proof -
    have "i = 0" "j = 1" using that by auto
    with h \<open>memcmp (replicate 32 1) (replicate 32 2) < 0\<close> show ?thesis by simp
  qed
  then have s: "index_sorted demo_pack" by (simp add: index_sorted_def demo_pack_def)
  have f: "index_fits demo_pack" by (simp add: index_fits_def demo_pack_def CAS_PACK_BLOCK_def)
  have "\<exists>i<unat (p_count demo_pack). entry_hash demo_pack i = replicate CAS_HASH_LEN 2"
    using h by (intro exI [of _ 1]) (simp add: demo_pack_def CAS_HASH_LEN_def)
  with find_entry_membership [OF f s, of "replicate CAS_HASH_LEN 2"] show ?thesis by auto
qed

text \<open>
  Looking up a name in an opened pack reads only inside the mapping, and answers, provided the
  entry count and the trailer offsets of the index are small enough not to wrap.
\<close>

theorem pack_lookup_safe:
  assumes "cas_pack_open sys (Some m) = Some (Some p)" "length m < 2 ^ 64" "unat (p_count p) < 2 ^ 58 - 1"
    and "offsets_fit p"
  shows "cas_pack_lookup table mem p hash bufsz \<noteq> None \<and> cas_pack_exists p hash \<noteq> None"
proof -
  have fits: "index_fits p" using pack_open_index [OF assms(1-3)] .
  let ?s = "demo_store\<lparr>s_pack := Some p\<rparr>"
  have "pack_ok ?s" using fits assms(4) by (simp add: pack_ok_def)
  then have "cas_pack_exists p hash \<noteq> None" by (rule pack_exists_total) simp
  with pack_lookup_no_fault [OF fits assms(4)] show ?thesis by blast
qed

text \<open>The footer of a pack that declares \<open>n\<close> entries and has none.\<close>

definition bare_footer :: "u64 \<Rightarrow> byte list" where
  "bare_footer n = (let pre = CAS_PACK_FOOTER_MAGIC_V1 @ store_le64 n in pre @ cas_digest pre @ replicate 16 0)"

lemma bare_footer_open:
  assumes "n * 64 = 0"
  shows "cas_pack_open True (Some (bare_footer n)) = Some (Some \<lparr>p_map = bare_footer n, p_count = n, p_index = 0\<rparr>)"
proof -
  let ?pre = "CAS_PACK_FOOTER_MAGIC_V1 @ store_le64 n" and ?m = "bare_footer n"
  have mg: "length CAS_PACK_FOOTER_MAGIC_V1 = 8" by (simp add: CAS_PACK_FOOTER_MAGIC_V1_def)
  then have pre: "length ?pre = 16" by simp
  have len: "length ?m = 64" using pre by (simp add: bare_footer_def Let_def CAS_HASH_LEN_def)
  have 1: "take 8 ?m = CAS_PACK_FOOTER_MAGIC_V1" using mg by (simp add: bare_footer_def Let_def)
  have 2: "load_le64 (drop 8 ?m) = n" using mg by (simp add: bare_footer_def Let_def)
  have 3: "peek ?m 0 16 = Some ?pre" using len pre by (simp add: peek_def bare_footer_def Let_def)
  have 4: "take 32 (drop 16 ?m) = cas_digest ?pre"
    using pre by (simp add: bare_footer_def Let_def CAS_HASH_LEN_def)
  show ?thesis
    using assms len 1 2 3 4 by (simp add: cas_pack_open_def Let_def pack_consts)
qed

theorem pack_lookup_safe_witness:
  "\<exists>p. cas_pack_open True (Some (bare_footer 0)) = Some (Some p) \<and> cas_pack_exists p (cas_hash []) \<noteq> None"
proof -
  let ?p = "\<lparr>p_map = bare_footer 0, p_count = 0, p_index = 0\<rparr>"
  have o: "cas_pack_open True (Some (bare_footer 0)) = Some (Some ?p)" by (rule bare_footer_open) simp
  have "length (bare_footer 0) < 2 ^ 64"
    by (simp add: bare_footer_def Let_def CAS_HASH_LEN_def CAS_PACK_FOOTER_MAGIC_V1_def)
  from pack_lookup_safe [OF o this] o show ?thesis by (auto simp: offsets_fit_def)
qed

text \<open>
  The size check of \<open>cas_pack_open\<close> wraps: a file of 64 bytes that declares \<open>2^58\<close> entries, with
  the matching checksum, is accepted, and the first lookup in it reads outside the mapping.
\<close>

theorem pack_open_wraps:
  "\<exists>p. length (bare_footer (2 ^ 58)) = 64 \<and>
    cas_pack_open True (Some (bare_footer (2 ^ 58))) = Some (Some p) \<and> p_count p = 2 ^ 58 \<and>
    (\<forall>hash. valid_hash hash \<longrightarrow> cas_pack_exists p hash = None)"
proof -
  let ?p = "\<lparr>p_map = bare_footer (2 ^ 58), p_count = 2 ^ 58, p_index = 0\<rparr>"
  have o: "cas_pack_open True (Some (bare_footer (2 ^ 58))) = Some (Some ?p)" by (rule bare_footer_open) simp
  have len: "length (bare_footer (2 ^ 58)) = 64"
    by (simp add: bare_footer_def Let_def CAS_HASH_LEN_def CAS_PACK_FOOTER_MAGIC_V1_def)
  have "find_entry ?p bin = None" for bin
  proof -
    have mid: "(0 :: u64) + (2 ^ 58 - 0) div 2 = 2 ^ 57" by simp
    have "peek (bare_footer (2 ^ 58)) (0 + unat ((2 ^ 57 :: u64) * of_nat CAS_PACK_BLOCK) + PACK_IDX_HASH) CAS_HASH_LEN = None"
      using len by (simp add: peek_def CAS_PACK_BLOCK_def)
    then show ?thesis
      unfolding find_entry_def by (subst find_loop.simps) (simp add: mid [simplified] Let_def)
  qed
  then have "cas_pack_exists ?p hash = None" if "valid_hash hash" for hash
    using valid_decode_name [OF that] by (auto simp: cas_pack_exists_def)
  with o len show ?thesis by (intro exI [of _ ?p]) simp
qed

theorem pack_open_wraps_witness:
  "\<exists>p. cas_pack_open True (Some (bare_footer (2 ^ 58))) = Some (Some p) \<and> cas_pack_exists p (cas_hash []) = None"
  using pack_open_wraps valid_cas_hash by blast

section \<open>Settings\<close>

text \<open>
  \<open>cas_compression_config\<close> keeps the settings in range: it takes over settings whose savings
  are between 1 and 99 percent and refuses all others without effect. In particular the absent
  argument and the value 0, which the header file documents as a request for the defaults, are
  errors.
\<close>

theorem compression_config_range:
  "cas_compression_config cur None = (CAS_ERR, cur) \<and>
   cas_compression_config cur (Some cfg) =
     (if min_savings_pct cfg \<in> {1..99} then (CAS_OK, cfg) else (CAS_ERR, cur)) \<and>
   cas_compression_reset cur = default_compress_cfg"
  by (auto simp: cas_compression_config_def cas_compression_reset_def default_compress_cfg_def)

end
