(* ===== verification/TreeText.thy ===== *)
theory TreeText
  imports TreeName
begin

text \<open>
  The text form of a directory in \<open>cas-tree.c\<close>: \<open>tree_serialize\<close>, \<open>parse_entry\<close> with the
  conversions of \<open>sscanf\<close> it uses, \<open>tree_text_load\<close> and \<open>tree_text_lookup\<close>. A scan that runs past the
  end of the object, or a number its type cannot hold, has no defined outcome in C: the value is then
  \<^const>\<open>None\<close>. The main lemmas are that printing and parsing an entry are inverse, that loading a
  serialized directory gives its entries back, and that a lookup in it agrees with the listing.
\<close>

section \<open>Printing\<close>

fun octal :: "nat \<Rightarrow> string" where
  "octal n = (if n < 8 then [digit n] else octal (n div 8) @ [digit (n mod 8)])"

declare octal.simps [simp del]

text \<open>\<open>%06o\<close> and \<open>%d\<close>\<close>

definition octal06 :: "nat \<Rightarrow> string" where
  "octal06 n = replicate (6 - length (octal n)) CHR ''0'' @ octal n"

definition int_dec :: "int \<Rightarrow> string" where
  "int_dec i = (if i < 0 then CHR ''-'' # decimal (nat (- i)) else decimal (nat i))"

definition entry_line :: "cas_tree_entry \<Rightarrow> string" where
  "entry_line e = octal06 (unat (e_mode e)) @ '' '' @ int_dec (sint (e_uid e)) @ '' '' @
     int_dec (sint (e_gid e)) @ '' '' @ int_dec (sint (e_mtime_s e)) @ '' '' @
     int_dec (sint (e_mtime_ns e)) @ '' '' @ e_hash e @ '' '' @ e_name e @ [CHR 0x0A]"

fun serialize_loop :: "nat \<Rightarrow> string \<Rightarrow> cas_tree_entry list \<Rightarrow> string option" where
  "serialize_loop bodylen body [] = Some body"
| "serialize_loop bodylen body (e # es) =
     (let n = length (entry_line e) in
      if n \<ge> bodylen + 1 - length body then None
      else serialize_loop bodylen (body @ entry_line e) es)"

definition tree_serialize :: "bool \<Rightarrow> cas_tree_entry list \<Rightarrow> string option" where
  "tree_serialize mem entries =
     (let bodylen = 1 + sum_list (map (\<lambda>e. length (entry_line e)) entries) in
      if \<not> mem then None
      else serialize_loop bodylen ''%'' entries)"

section \<open>Scanning\<close>

definition is_space :: "char \<Rightarrow> bool" where
  "is_space c \<longleftrightarrow> ascii c = 32 \<or> 9 \<le> ascii c \<and> ascii c \<le> 13"

text \<open>White space up to the next other character; \<^const>\<open>None\<close> when the text ends first.\<close>

fun skip_space :: "string \<Rightarrow> string option" where
  "skip_space [] = None"
| "skip_space (c # s) = (if is_space c then skip_space s else Some (c # s))"

definition digit_in :: "nat \<Rightarrow> char \<Rightarrow> bool" where
  "digit_in base c \<longleftrightarrow> 48 \<le> ascii c \<and> ascii c < 48 + base"

fun scan_digits :: "nat \<Rightarrow> nat \<Rightarrow> string \<Rightarrow> (nat \<times> string) option" where
  "scan_digits base v [] = None"
| "scan_digits base v (c # s) =
     (if digit_in base c then scan_digits base (v * base + (ascii c - 48)) s else Some (v, c # s))"

text \<open>
  One integer conversion: white space, an optional sign, at least one digit. The result is undefined
  (\<^const>\<open>None\<close>), a matching failure (\<open>Some None\<close>), or the value with the rest of the text.
\<close>

definition scan_int :: "nat \<Rightarrow> int \<Rightarrow> int \<Rightarrow> string \<Rightarrow> (int \<times> string) option option" where
  "scan_int base lo hi s =
     (case skip_space s of
        None \<Rightarrow> None
      | Some t \<Rightarrow>
          let neg = (hd t = CHR ''-'');
              u = (if hd t = CHR ''-'' \<or> hd t = CHR ''+'' then tl t else t)
          in (case u of
                [] \<Rightarrow> None
              | c # _ \<Rightarrow>
                  if \<not> digit_in base c then Some None
                  else (case scan_digits base 0 u of
                          None \<Rightarrow> None
                        | Some (v, r) \<Rightarrow>
                            let i = (if neg then - int v else int v) in
                            if lo \<le> i \<and> i \<le> hi then Some (Some (i, r)) else None)))"

text \<open>The bytes copied into a fixed buffer and terminated, read back as a string.\<close>

definition c_str :: "string \<Rightarrow> string" where
  "c_str s = takeWhile (\<lambda>c. c \<noteq> CHR 0x00) s"

text \<open>\<open>"%o %d %d %lld %d %n"\<close>: the five values and the text after the white space that follows.\<close>

fun scan_fields :: "(nat \<times> int \<times> int) list \<Rightarrow> string \<Rightarrow> (int list \<times> string) option option" where
  "scan_fields [] s = map_option (\<lambda>t. Some ([], t)) (skip_space s)"
| "scan_fields ((base, lo, hi) # fs) s =
     (case scan_int base lo hi s of
        None \<Rightarrow> None
      | Some None \<Rightarrow> Some None
      | Some (Some (v, r)) \<Rightarrow>
          (case scan_fields fs r of
             None \<Rightarrow> None
           | Some None \<Rightarrow> Some None
           | Some (Some (vs, t)) \<Rightarrow> Some (Some (v # vs, t))))"

definition entry_fields :: "(nat \<times> int \<times> int) list" where
  "entry_fields = [(8, 0, 2 ^ 32 - 1), (10, - (2 ^ 31), 2 ^ 31 - 1), (10, - (2 ^ 31), 2 ^ 31 - 1),
     (10, - (2 ^ 63), 2 ^ 63 - 1), (10, - (2 ^ 31), 2 ^ 31 - 1)]"

text \<open>The argument \<open>line\<close> is the text from the start of the line to the end of the object.\<close>

definition parse_entry :: "string \<Rightarrow> nat \<Rightarrow> (cas_rc + cas_tree_entry) option" where
  "parse_entry line linelen =
     (case scan_fields entry_fields line of
        None \<Rightarrow> None
      | Some None \<Rightarrow> Some (Inl CAS_ERR)
      | Some (Some (vs, rest)) \<Rightarrow>
          let n = length line - length rest in
          if n + CAS_HASH_HEX + 2 > linelen then Some (Inl CAS_ERR)
          else
            let hash = c_str (take CAS_HASH_HEX (drop n line)) in
            if line ! (n + CAS_HASH_HEX) \<noteq> CHR '' '' then Some (Inl CAS_ERR)
            else
              let namelen = linelen - (n + CAS_HASH_HEX + 1) in
              if namelen = 0 \<or> namelen > CAS_TREE_NAME_MAX then Some (Inl CAS_ERR)
              else Some (Inr
                \<lparr>e_mode = word_of_int (vs ! 0), e_uid = word_of_int (vs ! 1), e_gid = word_of_int (vs ! 2),
                 e_mtime_s = word_of_int (vs ! 3), e_mtime_ns = word_of_int (vs ! 4), e_hash = hash,
                 e_name = c_str (take namelen (drop (n + CAS_HASH_HEX + 1) line))\<rparr>))"

section \<open>Loading and lookup\<close>

lemma drop_Suc_shorter: "s \<noteq> [] \<Longrightarrow> length (drop (Suc n) s) < length s"
  by (cases s) auto

function load_loop :: "cas_tree_dir \<Rightarrow> string \<Rightarrow> (cas_rc \<times> cas_tree_dir) option" where
  "load_loop dir p =
     (if p = [] then Some (CAS_OK, dir)
      else (case find_idx ((=) (CHR 0x0A)) p of
              None \<Rightarrow> Some (CAS_ERR, cas_tree_dir_free dir)
            | Some linelen \<Rightarrow>
                (case parse_entry p linelen of
                   None \<Rightarrow> None
                 | Some (Inl rc) \<Rightarrow> Some (CAS_ERR, cas_tree_dir_free dir)
                 | Some (Inr e) \<Rightarrow>
                     if d_entries dir \<noteq> [] \<and> name_cmp (e_name (last (d_entries dir))) (e_name e) \<ge> 0
                     then Some (CAS_ERR, cas_tree_dir_free dir)
                     else (case cas_tree_dir_add dir e of (rc, dir1) \<Rightarrow>
                            if rc \<noteq> CAS_OK then Some (CAS_ERR, cas_tree_dir_free dir1)
                            else load_loop dir1 (drop (Suc linelen) p)))))"
  by pat_completeness auto
termination by (relation "measure (\<lambda>(dir, p). length p)") (auto intro: drop_Suc_shorter)

declare load_loop.simps [simp del]

definition tree_text_load :: "cas_tree_dir \<Rightarrow> byte list \<Rightarrow> (cas_rc \<times> cas_tree_dir) option" where
  "tree_text_load dir0 data =
     (let dir = cas_tree_dir_init dir0 in
      if length data < 1 \<or> data ! 0 \<noteq> byte_of_char CHR ''%'' then Some (CAS_ERR, dir)
      else load_loop dir (chars_of (drop 1 data)))"

function lookup_loop :: "string \<Rightarrow> cas_tree_entry option \<Rightarrow> string \<Rightarrow> (cas_rc + cas_tree_entry) option" where
  "lookup_loop name prev p =
     (if p = [] then Some (Inl CAS_ENOTFOUND)
      else (case find_idx ((=) (CHR 0x0A)) p of
              None \<Rightarrow> Some (Inl CAS_ERR)
            | Some linelen \<Rightarrow>
                (case parse_entry p linelen of
                   None \<Rightarrow> None
                 | Some (Inl rc) \<Rightarrow> Some (Inl CAS_ERR)
                 | Some (Inr e) \<Rightarrow>
                     if (case prev of None \<Rightarrow> False | Some q \<Rightarrow> name_cmp (e_name q) (e_name e) \<ge> 0)
                     then Some (Inl CAS_ERR)
                     else
                       let cmp = name_cmp (e_name e) name in
                       if cmp = 0 then Some (Inr e)
                       else if cmp > 0 then Some (Inl CAS_ENOTFOUND)
                       else lookup_loop name (Some e) (drop (Suc linelen) p))))"
  by pat_completeness auto
termination by (relation "measure (\<lambda>(name, prev, p). length p)") (auto intro: drop_Suc_shorter)

declare lookup_loop.simps [simp del]

definition tree_text_lookup :: "byte list \<Rightarrow> string \<Rightarrow> (cas_rc + cas_tree_entry) option" where
  "tree_text_lookup data name =
     (if length data < 1 \<or> data ! 0 \<noteq> byte_of_char CHR ''%'' then Some (Inl CAS_ERR)
      else lookup_loop name None (chars_of (drop 1 data)))"

section \<open>Numbers\<close>

lemma ascii_digit: "n < 10 \<Longrightarrow> ascii (digit n) = 48 + n"
  by (simp add: ascii_def digit_def of_char_of)

lemma scan_decimal: "scan_digits 10 v (decimal n @ s) = scan_digits 10 (v * 10 ^ length (decimal n) + n) s"
proof (induction n arbitrary: v s rule: decimal.induct)
  case (1 n)
  show ?case
  proof (cases "n < 10")
    case True
    then show ?thesis by (simp add: decimal.simps [of n] digit_in_def ascii_digit)
  next
    case False
    have "n mod 10 < 10" by simp
    with False 1 [OF False] show ?thesis
      by (simp add: decimal.simps [of n] digit_in_def ascii_digit algebra_simps)
  qed
qed

lemma scan_octal: "scan_digits 8 v (octal n @ s) = scan_digits 8 (v * 8 ^ length (octal n) + n) s"
proof (induction n arbitrary: v s rule: octal.induct)
  case (1 n)
  show ?case
  proof (cases "n < 8")
    case True
    then show ?thesis by (simp add: octal.simps [of n] digit_in_def ascii_digit)
  next
    case False
    have "n mod 8 < 8" by simp
    then have "n mod 8 < 10" by linarith
    with False 1 [OF False] show ?thesis
      by (simp add: octal.simps [of n] digit_in_def ascii_digit algebra_simps)
  qed
qed

lemma scan_zeros: "scan_digits 8 0 (replicate k (CHR ''0'') @ s) = scan_digits 8 0 s"
  by (induction k) (simp_all add: digit_in_def ascii_def)

lemma octal_digits: "c \<in> set (octal n) \<Longrightarrow> digit_in 8 c"
proof (induction n rule: octal.induct)
  case (1 n)
  have "n mod 8 < 8" by simp
  then have "n mod 8 < 10" "n mod 8 < 8" by linarith+
  with 1 show ?case
    by (cases "n < 8") (auto simp: octal.simps [of n] digit_in_def ascii_digit)
qed

lemma octal_nonempty [simp]: "octal n \<noteq> []"
  by (simp add: octal.simps [of n])

lemma octal06_digits: "c \<in> set (octal06 n) \<Longrightarrow> digit_in 8 c"
  by (auto simp: octal06_def digit_in_def ascii_def dest: octal_digits)

lemma octal06_nonempty [simp]: "octal06 n \<noteq> []"
  by (simp add: octal06_def)

lemma decimal_digit_in: "c \<in> set (decimal n) \<Longrightarrow> digit_in 10 c"
  by (auto dest!: decimal_digits simp: digit_in_def ascii_digit)

lemma digit_in_simps:
  "digit_in b c \<Longrightarrow> b \<le> 10 \<Longrightarrow> \<not> is_space c \<and> c \<noteq> CHR ''-'' \<and> c \<noteq> CHR ''+'' \<and> c \<noteq> CHR 0x0A"
  by (auto simp: digit_in_def is_space_def ascii_def)

lemma skip_space_hd: "s \<noteq> [] \<Longrightarrow> \<not> is_space (hd s) \<Longrightarrow> skip_space s = Some s"
  by (cases s) simp_all

lemma scan_int_octal06:
  assumes "\<not> digit_in 8 c" "lo \<le> int n" "int n \<le> hi"
  shows "scan_int 8 lo hi (octal06 n @ c # s) = Some (Some (int n, c # s))"
proof -
  obtain d ds where o: "octal06 n = d # ds" by (cases "octal06 n") auto
  have d: "digit_in 8 d" using octal06_digits [of d n] o by simp
  have v: "scan_digits 8 0 (octal06 n @ c # s) = Some (n, c # s)"
    using assms(1) scan_octal [of 0 n "c # s"] by (simp add: octal06_def scan_zeros)
  show ?thesis using v d digit_in_simps [OF d] assms(2,3) by (simp add: scan_int_def o)
qed

lemma scan_int_dec:
  assumes "skip_space s0 = Some (int_dec i @ c # s)" "\<not> digit_in 10 c" "lo \<le> i" "i \<le> hi"
  shows "scan_int 10 lo hi s0 = Some (Some (i, c # s))"
proof -
  let ?n = "nat \<bar>i\<bar>"
  obtain d ds where o: "decimal ?n = d # ds" by (cases "decimal ?n") auto
  have d: "digit_in 10 d" using decimal_digit_in [of d ?n] o by simp
  have v: "scan_digits 10 0 (decimal ?n @ c # s) = Some (?n, c # s)"
    using assms(2) scan_decimal [of 0 ?n "c # s"] by simp
  have t: "int_dec i = (if i < 0 then [CHR ''-''] else []) @ d # ds"
    using o by (auto simp: int_dec_def)
  have "skip_space s0 = Some ((if i < 0 then [CHR ''-''] else []) @ d # ds @ c # s)" using assms(1) t by simp
  then show ?thesis
    using v o d digit_in_simps [OF d] assms(3,4) by (cases "i < 0") (simp_all add: scan_int_def)
qed

lemma int_dec_hd: "int_dec i \<noteq> []" "\<not> is_space (hd (int_dec i))"
proof -
  obtain d ds where o: "decimal (nat i) = d # ds" by (cases "decimal (nat i)") auto
  with decimal_digit_in [of d "nat i"] digit_in_simps [of 10 d]
  show "int_dec i \<noteq> []" "\<not> is_space (hd (int_dec i))"
    by (auto simp: int_dec_def is_space_def ascii_def)
qed

lemma skip_one: "skip_space (CHR '' '' # int_dec i @ s) = Some (int_dec i @ s)"
  using int_dec_hd [of i] by (simp add: skip_space_hd is_space_def ascii_def)

lemma int_dec_no_nl: "CHR 0x0A \<notin> set (int_dec i)"
  by (auto simp: int_dec_def dest!: decimal_digit_in digit_in_simps)

section \<open>Entries\<close>

definition name_ok :: "string \<Rightarrow> bool" where
  "name_ok n \<longleftrightarrow> n \<noteq> [] \<and> length n \<le> CAS_TREE_NAME_MAX \<and> CHR ''/'' \<notin> set n \<and> CHR 0x0A \<notin> set n \<and>
     CHR 0x00 \<notin> set n \<and> valid_utf8 n"

text \<open>What the text form needs of a hash field; every valid hash has it, and so have others.\<close>

definition hash_shape :: "string \<Rightarrow> bool" where
  "hash_shape h \<longleftrightarrow> length h = CAS_HASH_HEX \<and> \<not> is_space (hd h) \<and> CHR 0x0A \<notin> set h \<and> CHR 0x00 \<notin> set h"

definition entry_ok :: "cas_tree_entry \<Rightarrow> bool" where
  "entry_ok e \<longleftrightarrow> name_ok (e_name e) \<and> hash_shape (e_hash e)"

definition line_prefix :: "cas_tree_entry \<Rightarrow> string" where
  "line_prefix e = octal06 (unat (e_mode e)) @ '' '' @ int_dec (sint (e_uid e)) @ '' '' @
     int_dec (sint (e_gid e)) @ '' '' @ int_dec (sint (e_mtime_s e)) @ '' '' @
     int_dec (sint (e_mtime_ns e)) @ '' ''"

lemma entry_line_prefix: "entry_line e = line_prefix e @ e_hash e @ CHR '' '' # e_name e @ [CHR 0x0A]"
  by (simp add: entry_line_def line_prefix_def)

lemma sint_bounds:
  "- (2 ^ 31) \<le> sint (w :: u32)" "sint w \<le> 2 ^ 31 - 1"
  "- (2 ^ 63) \<le> sint (v :: u64)" "sint v \<le> 2 ^ 63 - 1"
  using sint_ge [of w] sint_lt [of w] sint_ge [of v] sint_lt [of v] by simp_all

lemma u32_int_bound: "int (unat (w :: u32)) \<le> 2 ^ 32 - 1"
  using unsigned_less [of w, where ?'a = int] by (simp add: uint_nat [symmetric])

lemma hash_hd:
  assumes "valid_hash h"
  shows "h \<noteq> []" "\<not> is_space (hd h)" "CHR 0x0A \<notin> set h" "CHR 0x00 \<notin> set h"
proof -
  have c: "between CHR ''0'' CHR ''9'' c \<or> between CHR ''a'' CHR ''f'' c \<or> between CHR ''A'' CHR ''F'' c"
    if "c \<in> set h" for c using assms that by (auto simp: valid_hash_def list_all_iff)
  show n: "h \<noteq> []" using assms by (auto simp: valid_hash_def CAS_HASH_HEX_def)
  show "\<not> is_space (hd h)" using c [OF hd_in_set [OF n]] by (auto simp: is_space_def between_def ascii_def)
  show "CHR 0x0A \<notin> set h" "CHR 0x00 \<notin> set h" using c by (fastforce simp: between_def ascii_def)+
qed

lemma valid_hash_shape: "valid_hash h \<Longrightarrow> hash_shape h"
  using hash_hd [of h] by (simp add: hash_shape_def valid_hash_def)

lemma hash_shapeD:
  assumes "hash_shape h"
  shows "h \<noteq> []" "\<not> is_space (hd h)" "CHR 0x0A \<notin> set h" "CHR 0x00 \<notin> set h"
  using assms by (auto simp: hash_shape_def CAS_HASH_HEX_def)

lemma scan_entry_fields:
  assumes "h \<noteq> []" "\<not> is_space (hd h)"
  shows "scan_fields entry_fields (line_prefix e @ h) =
    Some (Some ([int (unat (e_mode e)), sint (e_uid e), sint (e_gid e), sint (e_mtime_s e), sint (e_mtime_ns e)], h))"
proof -
  have sp: "\<not> digit_in 8 (CHR '' '')" "\<not> digit_in 10 (CHR '' '')" by (simp_all add: digit_in_def ascii_def)
  have h: "skip_space (CHR '' '' # h) = Some h" using assms by (simp add: skip_space_hd is_space_def ascii_def)
  note d = scan_int_dec [OF skip_one sp(2)]
  show ?thesis
    using scan_int_octal06 [OF sp(1), of 0 "unat (e_mode e)" "2 ^ 32 - 1"] u32_int_bound [of "e_mode e"]
      d [OF sint_bounds(1,2)] d [OF sint_bounds(3,4)] h
    by (simp add: entry_fields_def line_prefix_def)
qed

lemma c_str_id: "CHR 0x00 \<notin> set s \<Longrightarrow> c_str s = s"
  unfolding c_str_def by (subst takeWhile_eq_all_conv) auto

lemma parse_entry_line:
  assumes "entry_ok e"
  shows "parse_entry (entry_line e @ rest) (length (entry_line e) - 1) = Some (Inr e)"
proof -
  have h: "length (e_hash e) = CAS_HASH_HEX" and n: "name_ok (e_name e)"
    using assms by (auto simp: entry_ok_def hash_shape_def)
  note hh = hash_shapeD [of "e_hash e"]
  have f: "scan_fields entry_fields (entry_line e @ rest) = Some (Some (
      [int (unat (e_mode e)), sint (e_uid e), sint (e_gid e), sint (e_mtime_s e), sint (e_mtime_ns e)],
      e_hash e @ CHR '' '' # e_name e @ CHR 0x0A # rest))"
    using scan_entry_fields [of "e_hash e @ CHR '' '' # e_name e @ CHR 0x0A # rest" e] hh assms
    by (simp add: entry_line_prefix entry_ok_def)
  show ?thesis
    using assms h n hh f
    by (simp add: parse_entry_def entry_line_prefix Let_def name_ok_def entry_ok_def c_str_id nth_append)
qed

section \<open>Whole directories\<close>

definition names_sorted :: "cas_tree_entry list \<Rightarrow> bool" where
  "names_sorted es \<longleftrightarrow> sorted_wrt (\<lambda>a b. nkey (e_name a) < nkey (e_name b)) es"

lemma name_cmp_sign:
  "name_cmp a b \<ge> 0 \<longleftrightarrow> \<not> nkey a < nkey b" "name_cmp a b = 0 \<longleftrightarrow> a = b" "name_cmp a b > 0 \<longleftrightarrow> nkey b < nkey a"
  using linorder_less_linear [of "nkey a" "nkey b"] by (auto simp: name_cmp_key)

lemma entry_line_break:
  assumes "entry_ok e"
  shows "find_idx ((=) (CHR 0x0A)) (entry_line e @ rest) = Some (length (entry_line e) - 1)"
    "drop (Suc (length (entry_line e) - 1)) (entry_line e @ rest) = rest" "entry_line e \<noteq> []"
proof -
  let ?b = "line_prefix e @ e_hash e @ CHR '' '' # e_name e"
  have "CHR 0x0A \<notin> set (octal06 (unat (e_mode e)))" by (auto dest!: octal06_digits digit_in_simps)
  then have "CHR 0x0A \<notin> set ?b"
    using assms hash_shapeD(3) [of "e_hash e"]
    by (auto simp: line_prefix_def int_dec_no_nl entry_ok_def name_ok_def)
  then have "\<forall>x\<in>set ?b. CHR 0x0A \<noteq> x" by auto
  then have "find_idx ((=) (CHR 0x0A)) (?b @ CHR 0x0A # rest) = Some (length ?b)"
    using find_idx_append2 [of ?b "(=) (CHR 0x0A)" "CHR 0x0A # rest"] by (simp del: set_append)
  moreover have "entry_line e = ?b @ [CHR 0x0A]" by (simp add: entry_line_prefix)
  ultimately show "find_idx ((=) (CHR 0x0A)) (entry_line e @ rest) = Some (length (entry_line e) - 1)"
    "drop (Suc (length (entry_line e) - 1)) (entry_line e @ rest) = rest" "entry_line e \<noteq> []" by simp_all
qed

lemma dir_add_ok:
  assumes "name_ok (e_name e)" "d_mem dir = []"
  shows "\<exists>dir'. cas_tree_dir_add dir e = (CAS_OK, dir') \<and> d_entries dir' = d_entries dir @ [e] \<and> d_mem dir' = []"
  using assms by (auto simp: cas_tree_dir_add_def name_ok_def Let_def)

lemma load_loop_line:
  assumes "entry_ok e" "d_mem dir = []" "d_entries dir = [] \<or> nkey (e_name (last (d_entries dir))) < nkey (e_name e)"
  shows "\<exists>dir'. load_loop dir (entry_line e @ rest) = load_loop dir' rest \<and>
    d_entries dir' = d_entries dir @ [e] \<and> d_mem dir' = []"
proof -
  from assms obtain dir' where "cas_tree_dir_add dir e = (CAS_OK, dir')" "d_entries dir' = d_entries dir @ [e]" "d_mem dir' = []"
    using dir_add_ok [of e dir] by (auto simp: entry_ok_def)
  with entry_line_break(1,2) [OF assms(1), of rest] entry_line_break(3) [OF assms(1)] parse_entry_line [OF assms(1), of rest] assms(3) show ?thesis
    by (subst load_loop.simps) (auto simp: name_cmp_sign)
qed

lemma load_loop_lines:
  assumes "list_all entry_ok es" "names_sorted (d_entries dir @ es)" "d_mem dir = []"
  shows "\<exists>dir'. load_loop dir (concat (map entry_line es)) = Some (CAS_OK, dir') \<and>
    d_entries dir' = d_entries dir @ es \<and> d_mem dir' = []"
  using assms
proof (induction es arbitrary: dir)
  case Nil
  then show ?case by (simp add: load_loop.simps)
next
  case (Cons e es)
  have "d_entries dir = [] \<or> nkey (e_name (last (d_entries dir))) < nkey (e_name e)"
  proof (cases "d_entries dir = []")
    case False
    from Cons.prems(2) have "\<forall>x\<in>set (d_entries dir). nkey (e_name x) < nkey (e_name e)"
      by (simp add: names_sorted_def sorted_wrt_append)
    with last_in_set [OF False] show ?thesis by blast
  qed simp
  from load_loop_line [OF _ Cons.prems(3) this, of "concat (map entry_line es)"] Cons.prems(1)
  obtain dir1 where d: "load_loop dir (concat (map entry_line (e # es))) = load_loop dir1 (concat (map entry_line es))"
    "d_entries dir1 = d_entries dir @ [e]" "d_mem dir1 = []" by auto
  with Cons.IH [of dir1] Cons.prems show ?case by simp
qed

lemma serialize_loop_text:
  "bodylen = length body + sum_list (map (\<lambda>e. length (entry_line e)) es) \<Longrightarrow>
   serialize_loop bodylen body es = Some (body @ concat (map entry_line es))"
  by (induction es arbitrary: body) (simp_all add: Let_def)

lemma tree_serialize_text: "tree_serialize True es = Some (CHR ''%'' # concat (map entry_line es))"
  by (simp add: tree_serialize_def serialize_loop_text)

definition find_entry_named :: "cas_tree_entry list \<Rightarrow> string \<Rightarrow> cas_tree_entry option" where
  "find_entry_named es name = find (\<lambda>e. e_name e = name) es"

lemma lookup_loop_lines:
  assumes "list_all entry_ok es" "names_sorted es"
    and "\<And>q. prev = Some q \<Longrightarrow> names_sorted (q # es)"
  shows "lookup_loop name prev (concat (map entry_line es)) =
    Some (case find_entry_named es name of None \<Rightarrow> Inl CAS_ENOTFOUND | Some e \<Rightarrow> Inr e)"
  using assms
proof (induction es arbitrary: prev)
  case Nil
  then show ?case by (simp add: lookup_loop.simps find_entry_named_def)
next
  case (Cons e es)
  let ?t = "concat (map entry_line es)"
  have ok: "entry_ok e" "list_all entry_ok es" "names_sorted es" using Cons.prems by (auto simp: names_sorted_def)
  have p: "\<not> (case prev of None \<Rightarrow> False | Some q \<Rightarrow> name_cmp (e_name q) (e_name e) \<ge> 0)"
    using Cons.prems(3) by (auto simp: name_cmp_sign names_sorted_def split: option.splits)
  have later: "nkey name < nkey (e_name e) \<Longrightarrow> find (\<lambda>e. e_name e = name) es = None"
    using Cons.prems(2) by (auto simp: names_sorted_def find_None_iff)
  have ih: "lookup_loop name (Some e) ?t =
      Some (case find_entry_named es name of None \<Rightarrow> Inl CAS_ENOTFOUND | Some e \<Rightarrow> Inr e)"
    using Cons.prems(2) by (intro Cons.IH [OF ok(2,3)]) simp
  have "lookup_loop name prev (entry_line e @ ?t) =
      (if e_name e = name then Some (Inr e) else if nkey name < nkey (e_name e) then Some (Inl CAS_ENOTFOUND)
       else lookup_loop name (Some e) ?t)"
    using entry_line_break(1,2) [OF ok(1), of ?t] entry_line_break(3) [OF ok(1)] parse_entry_line [OF ok(1), of ?t] p
    by (subst lookup_loop.simps) (simp add: Let_def name_cmp_sign)
  with ih later show ?case by (simp add: find_entry_named_def)
qed

text \<open>Whatever bytes it is given, a load that succeeds leaves a sorted listing of admissible names.\<close>

lemma c_str_no_nul: "CHR 0x00 \<notin> set (c_str s)"
  by (auto simp: c_str_def dest: set_takeWhileD)

lemma parse_entry_name: "parse_entry p n = Some (Inr e) \<Longrightarrow> CHR 0x00 \<notin> set (e_name e)"
  by (auto simp: parse_entry_def Let_def c_str_no_nul split: option.splits if_splits)

lemma dir_add_name:
  "cas_tree_dir_add dir e = (CAS_OK, dir') \<Longrightarrow> CHR 0x00 \<notin> set (e_name e) \<Longrightarrow>
   name_ok (e_name e) \<and> d_entries dir' = d_entries dir @ [e]"
  by (auto simp: cas_tree_dir_add_def name_ok_def Let_def split: if_splits prod.splits)

definition listing_ok :: "cas_tree_entry list \<Rightarrow> bool" where
  "listing_ok es \<longleftrightarrow> list_all (\<lambda>e. name_ok (e_name e)) es \<and> names_sorted es"

lemma listing_ok_snoc:
  assumes "listing_ok es" "es \<noteq> [] \<Longrightarrow> \<not> name_cmp (e_name (last es)) (e_name e) \<ge> 0" "name_ok (e_name e)"
  shows "listing_ok (es @ [e])"
proof -
  have s: "sorted_wrt (\<lambda>a b. nkey (e_name a) < nkey (e_name b)) es" using assms(1) by (simp add: listing_ok_def names_sorted_def)
  have "nkey (e_name x) < nkey (e_name e)" if x: "x \<in> set es" for x
  proof -
    from x obtain i where i: "i < length es" "x = es ! i" by (auto simp: in_set_conv_nth)
    then have "es \<noteq> []" by auto
    then have l: "nkey (e_name (last es)) < nkey (e_name e)" "last es = es ! (length es - 1)"
      using assms(2) by (auto simp: name_cmp_sign last_conv_nth)
    show ?thesis
    proof (cases "i = length es - 1")
      case False
      then have "nkey (e_name x) < nkey (e_name (last es))"
        using i l(2) sorted_wrt_nth_less [OF s, of i "length es - 1"] by simp
      then show ?thesis using l(1) by (rule less_trans)
    qed (use i l in simp)
  qed
  with assms show ?thesis by (simp add: listing_ok_def names_sorted_def sorted_wrt_append)
qed

lemma load_loop_listing:
  "load_loop dir p = Some (CAS_OK, dir') \<Longrightarrow> listing_ok (d_entries dir) \<Longrightarrow> listing_ok (d_entries dir')"
proof (induction dir p rule: load_loop.induct)
  case (1 dir p)
  show ?case
  proof (cases "p = []")
    case True
    then show ?thesis using 1 by (simp add: load_loop.simps)
  next
    case False
    from 1(2) False obtain n e dir1 where n: "find_idx ((=) (CHR 0x0A)) p = Some n" "parse_entry p n = Some (Inr e)"
      and c: "\<not> (d_entries dir \<noteq> [] \<and> name_cmp (e_name (last (d_entries dir))) (e_name e) \<ge> 0)"
      and a: "cas_tree_dir_add dir e = (CAS_OK, dir1)" and l: "load_loop dir1 (drop (Suc n) p) = Some (CAS_OK, dir')"
      by (subst (asm) load_loop.simps) (auto split: option.splits sum.splits if_splits prod.splits)
    from dir_add_name [OF a parse_entry_name [OF n(2)]] have ok: "name_ok (e_name e)" and d: "d_entries dir1 = d_entries dir @ [e]" by auto
    have "listing_ok (d_entries dir1)" unfolding d using c ok by (intro listing_ok_snoc [OF 1(3)]) auto
    with 1(1) [OF False n refl c a [symmetric] _ l] show ?thesis by simp
  qed
qed

text \<open>On any text that loads, a lookup agrees with the listing.\<close>

lemma load_lookup_agree:
  "load_loop dir p = Some (CAS_OK, dir') \<Longrightarrow> listing_ok (d_entries dir) \<Longrightarrow>
   \<exists>es. d_entries dir' = d_entries dir @ es \<and>
     lookup_loop name (if d_entries dir = [] then None else Some (last (d_entries dir))) p =
     Some (case find_entry_named es name of None \<Rightarrow> Inl CAS_ENOTFOUND | Some e \<Rightarrow> Inr e)"
proof (induction dir p rule: load_loop.induct)
  case (1 dir p)
  let ?prev = "if d_entries dir = [] then None else Some (last (d_entries dir))"
  show ?case
  proof (cases "p = []")
    case True
    then show ?thesis using 1 by (simp add: load_loop.simps lookup_loop.simps find_entry_named_def)
  next
    case False
    from 1(2) False obtain n e dir1 where n: "find_idx ((=) (CHR 0x0A)) p = Some n" "parse_entry p n = Some (Inr e)"
      and c: "\<not> (d_entries dir \<noteq> [] \<and> name_cmp (e_name (last (d_entries dir))) (e_name e) \<ge> 0)"
      and a: "cas_tree_dir_add dir e = (CAS_OK, dir1)" and l: "load_loop dir1 (drop (Suc n) p) = Some (CAS_OK, dir')"
      by (subst (asm) load_loop.simps) (auto split: option.splits sum.splits if_splits prod.splits)
    from dir_add_name [OF a parse_entry_name [OF n(2)]] have ok: "name_ok (e_name e)" and d: "d_entries dir1 = d_entries dir @ [e]" by auto
    have lo: "listing_ok (d_entries dir1)" unfolding d using c ok by (intro listing_ok_snoc [OF 1(3)]) auto
    from 1(1) [OF False n refl c a [symmetric] _ l lo] d obtain es where es: "d_entries dir' = d_entries dir @ e # es"
      "lookup_loop name (Some e) (drop (Suc n) p) = Some (case find_entry_named es name of None \<Rightarrow> Inl CAS_ENOTFOUND | Some e \<Rightarrow> Inr e)"
      by auto
    have "names_sorted (d_entries dir')" using load_loop_listing [OF l lo] by (simp add: listing_ok_def)
    then have later: "nkey name < nkey (e_name e) \<Longrightarrow> find (\<lambda>e. e_name e = name) es = None"
      using es(1) by (auto simp: names_sorted_def sorted_wrt_append find_None_iff)
    have "lookup_loop name ?prev p =
      (if e_name e = name then Some (Inr e) else if nkey name < nkey (e_name e) then Some (Inl CAS_ENOTFOUND)
       else lookup_loop name (Some e) (drop (Suc n) p))"
      using False n c by (subst lookup_loop.simps) (auto simp: Let_def name_cmp_sign)
    with es later show ?thesis by (intro exI [of _ "e # es"]) (simp add: find_entry_named_def)
  qed
qed

end
