(* ===== verification/Htree.thy ===== *)
theory Htree
  imports TreeText "HOL-Library.Monad_Syntax"
begin

unbundle bit_operations_syntax

text \<open>
  The binary directory format of \<open>cas-tree.c\<close>: checksums, \<open>htree_build\<close>, \<open>htree_parse_dir\<close> and
  \<open>htree_lookup_entry\<close>. The object is a header of 256 bucket descriptors, the records in name order, one
  open-addressed hash table per bucket, and a footer. The builder writes each region in one pass, and the
  model builds the regions in the same order with the offsets the code computes. A read outside the
  object is \<^const>\<open>None\<close>.
\<close>

section \<open>Constants and checksums\<close>

definition HTREE_MAGIC :: "byte list" where "HTREE_MAGIC = bytes_of ''HTv1''"
definition HTREE_MAGIC_LEN :: nat where "HTREE_MAGIC_LEN = 4"
definition HTREE_FOOTER_LEN :: nat where "HTREE_FOOTER_LEN = 8"
definition HTREE_NBUCKETS :: nat where "HTREE_NBUCKETS = 256"
definition HTREE_HEADER_LEN :: nat where "HTREE_HEADER_LEN = HTREE_NBUCKETS * 8"
definition HTREE_ENTRY_DATA_LEN :: nat where "HTREE_ENTRY_DATA_LEN = 56"

lemmas htree_consts = HTREE_MAGIC_LEN_def HTREE_FOOTER_LEN_def HTREE_NBUCKETS_def HTREE_HEADER_LEN_def
  HTREE_ENTRY_DATA_LEN_def CAS_TREE_NAME_MAX_def

definition adler32 :: "byte list \<Rightarrow> u32" where
  "adler32 data =
     (let (a, b) = foldl (\<lambda>(a, b) d. let a' = (a + ucast d) mod 65521 in (a', (b + a') mod 65521)) (1, 0) data
      in push_bit 16 b OR a)"

definition djb_hash :: "string \<Rightarrow> u32" where
  "djb_hash key = foldl (\<lambda>h c. (h * 33) XOR ucast (byte_of_char c)) 5381 key"

section \<open>Building\<close>

text \<open>
  \<open>junk\<close> is what the uninitialised buffer \<open>hash_bin\<close> holds. The result of \<open>cas_hex_decode\<close> is not
  checked, and a failing call has stored the bytes before the first pair that does not decode (the
  terminator of a name that is too short is such a pair).
\<close>

definition hash_bin :: "byte list \<Rightarrow> cas_tree_entry \<Rightarrow> byte list" where
  "hash_bin junk e =
     (let out = hex_prefix (take CAS_HASH_HEX (e_hash e)) in out @ take (CAS_HASH_LEN - length out) (drop (length out) junk))"

definition entry_data :: "byte list \<Rightarrow> cas_tree_entry \<Rightarrow> byte list" where
  "entry_data junk e = store_le32 (e_mode e) @ store_le32 (e_uid e) @ store_le32 (e_gid e) @
     store_le64 (e_mtime_s e) @ store_le32 (e_mtime_ns e) @ hash_bin junk e"

definition htree_record :: "byte list \<Rightarrow> cas_tree_entry \<Rightarrow> byte list" where
  "htree_record junk e = store_le32 (of_nat (length (e_name e))) @ store_le32 (of_nat HTREE_ENTRY_DATA_LEN) @
     bytes_of (e_name e) @ entry_data junk e"

definition record_len :: "cas_tree_entry \<Rightarrow> nat" where
  "record_len e = 8 + length (e_name e) + HTREE_ENTRY_DATA_LEN"

fun rec_offsets :: "nat \<Rightarrow> cas_tree_entry list \<Rightarrow> u32 list" where
  "rec_offsets pos [] = []"
| "rec_offsets pos (e # es) = of_nat pos # rec_offsets (pos + record_len e) es"

type_synonym slot = "u32 \<times> u32"

text \<open>The probe loop of the builder runs once round the table; a full table would keep it going forever.\<close>

fun insert_slot :: "nat \<Rightarrow> slot list \<Rightarrow> slot \<Rightarrow> nat \<Rightarrow> slot list option" where
  "insert_slot 0 slots x i = None"
| "insert_slot (Suc k) slots x i =
     (if snd (slots ! i) = 0 then Some (slots[i := x])
      else insert_slot k slots x ((i + 1) mod length slots))"

fun fill_table :: "nat \<Rightarrow> slot list \<Rightarrow> slot list \<Rightarrow> slot list option" where
  "fill_table b slots [] = Some slots"
| "fill_table b slots ((h, r) # xs) =
     (if unat (h mod 256) \<noteq> b then fill_table b slots xs
      else do {
        slots' \<leftarrow> insert_slot (length slots) slots (h, r) (unat (h div 256) mod length slots);
        fill_table b slots' xs })"

definition bucket_count :: "slot list \<Rightarrow> nat \<Rightarrow> nat" where
  "bucket_count xs b = length (filter (\<lambda>x. unat (fst x mod 256) = b) xs)"

definition table_nslots :: "slot list \<Rightarrow> nat \<Rightarrow> nat" where
  "table_nslots xs b = bucket_count xs b * 2"

definition slot_bytes :: "slot \<Rightarrow> byte list" where
  "slot_bytes x = store_le32 (fst x) @ store_le32 (snd x)"

text \<open>The header descriptors and the tables of the buckets from \<open>b\<close> on.\<close>

fun build_tables :: "slot list \<Rightarrow> nat \<Rightarrow> nat list \<Rightarrow> (byte list \<times> byte list) option" where
  "build_tables xs table_pos [] = Some ([], [])"
| "build_tables xs table_pos (b # bs) =
     do {
       slots \<leftarrow> fill_table b (replicate (table_nslots xs b) (0, 0)) xs;
       (hs, ts) \<leftarrow> build_tables xs (table_pos + table_nslots xs b * 8) bs;
       Some (store_le32 (of_nat table_pos) @ store_le32 (of_nat (table_nslots xs b)) @ hs,
             concat (map slot_bytes slots) @ ts) }"

text \<open>The outer value is \<^const>\<open>None\<close> if the builder does not return, the inner one if memory runs out.\<close>

definition htree_build :: "bool \<Rightarrow> byte list \<Rightarrow> cas_tree_entry list \<Rightarrow> byte list option option" where
  "htree_build mem junk es =
     (if \<not> mem then Some None
      else
        let records = concat (map (htree_record junk) es);
            pos = HTREE_HEADER_LEN + sum_list (map record_len es);
            xs = zip (map (\<lambda>e. djb_hash (e_name e)) es) (rec_offsets HTREE_HEADER_LEN es)
        in do {
          (hs, ts) \<leftarrow> build_tables xs pos [0..<HTREE_NBUCKETS];
          let cdb = hs @ records @ ts;
          Some (Some (cdb @ store_le32 (adler32 cdb) @ HTREE_MAGIC)) })"

section \<open>Reading\<close>

definition rd32 :: "byte list \<Rightarrow> nat \<Rightarrow> u32 option" where
  "rd32 data off = map_option load_le32 (peek data off 4)"

text \<open>\<open>data\<close> holds the 56 bytes of the entry, \<open>key\<close> the bytes copied to the name.\<close>

definition htree_unpack_entry :: "byte list \<Rightarrow> byte list \<Rightarrow> cas_tree_entry" where
  "htree_unpack_entry data key =
     \<lparr>e_mode = load_le32 data, e_uid = load_le32 (drop 4 data), e_gid = load_le32 (drop 8 data),
      e_mtime_s = load_le64 (drop 12 data), e_mtime_ns = load_le32 (drop 20 data),
      e_hash = cas_hex_encode (take CAS_HASH_LEN (drop 24 data)), e_name = c_str (chars_of key)\<rparr>"

text \<open>The lowest table position bounds the records; an empty table has none.\<close>

fun records_end :: "byte list \<Rightarrow> u32 \<Rightarrow> nat list \<Rightarrow> u32 option" where
  "records_end data rec_end [] = Some rec_end"
| "records_end data rec_end (b # bs) =
     do {
       tpos \<leftarrow> rd32 data (b * 8);
       tslots \<leftarrow> rd32 data (b * 8 + 4);
       records_end data (if tslots > 0 \<and> tpos < rec_end then tpos else rec_end) bs }"

function records_loop :: "byte list \<Rightarrow> nat \<Rightarrow> cas_tree_dir \<Rightarrow> nat \<Rightarrow> (cas_rc \<times> cas_tree_dir) option" where
  "records_loop data rec_end dir pos =
     (if pos + 8 \<le> rec_end then
        do {
          keylen \<leftarrow> rd32 data pos;
          datalen \<leftarrow> rd32 data (pos + 4);
          let pos1 = pos + 8;
          (if unat datalen \<noteq> HTREE_ENTRY_DATA_LEN \<or> keylen = 0 \<or> unat keylen > CAS_TREE_NAME_MAX \<or>
              pos1 + unat keylen + unat datalen > rec_end
           then Some (CAS_ERR, cas_tree_dir_free dir)
           else do {
             key \<leftarrow> peek data pos1 (unat keylen);
             body \<leftarrow> peek data (pos1 + unat keylen) (unat datalen);
             let e = htree_unpack_entry body key;
             (if d_entries dir \<noteq> [] \<and> name_cmp (e_name (last (d_entries dir))) (e_name e) \<ge> 0
              then Some (CAS_ERR, cas_tree_dir_free dir)
              else (case cas_tree_dir_add dir e of (rc, dir1) \<Rightarrow>
                     if rc \<noteq> CAS_OK then Some (CAS_ERR, cas_tree_dir_free dir1)
                     else records_loop data rec_end dir1 (pos1 + (unat keylen + unat datalen)))) }) }
      else Some (CAS_OK, dir))"
  by pat_completeness auto
termination by (relation "measure (\<lambda>(data, rec_end, dir, pos). rec_end - pos)") auto

declare records_loop.simps [simp del]

definition htree_parse_dir :: "cas_tree_dir \<Rightarrow> byte list \<Rightarrow> (cas_rc \<times> cas_tree_dir) option" where
  "htree_parse_dir dir data =
     (let len = length data in
      if len < HTREE_HEADER_LEN + HTREE_FOOTER_LEN then Some (CAS_ERR, dir)
      else do {
        magic \<leftarrow> peek data (len - HTREE_MAGIC_LEN) HTREE_MAGIC_LEN;
        (if magic \<noteq> HTREE_MAGIC then Some (CAS_ERR, dir)
         else do {
           let cdb_len = len - HTREE_FOOTER_LEN;
           stored \<leftarrow> rd32 data cdb_len;
           (if stored \<noteq> adler32 (take cdb_len data) then Some (CAS_ERR, dir)
            else do {
              rec_end \<leftarrow> records_end data (of_nat cdb_len) [0..<HTREE_NBUCKETS];
              records_loop data (unat rec_end) (cas_tree_dir_init dir) HTREE_HEADER_LEN }) }) })"

text \<open>The probe loop of a lookup; \<open>k\<close> counts the slots left, so that \<open>i = nslots - k\<close>.\<close>

fun probe_loop ::
    "byte list \<Rightarrow> nat \<Rightarrow> string \<Rightarrow> u32 \<Rightarrow> u32 \<Rightarrow> u32 \<Rightarrow> u32 \<Rightarrow> nat \<Rightarrow> (cas_rc + cas_tree_entry) option" where
  "probe_loop data cdb_len name h tpos nslots slot 0 = Some (Inl CAS_ENOTFOUND)"
| "probe_loop data cdb_len name h tpos nslots slot (Suc k) =
     (let i = nslots - of_nat (Suc k);
          spos = unat tpos + unat ((slot + i) mod nslots) * 8
      in if spos + 8 > cdb_len then Some (Inl CAS_ERR)
      else do {
        sh \<leftarrow> rd32 data spos;
        rpos \<leftarrow> rd32 data (spos + 4);
        (if rpos = 0 then Some (Inl CAS_ENOTFOUND)
         else if sh \<noteq> h then probe_loop data cdb_len name h tpos nslots slot k
         else if unat rpos + 8 > cdb_len then Some (Inl CAS_ERR)
         else do {
           rkeylen \<leftarrow> rd32 data (unat rpos);
           rdatalen \<leftarrow> rd32 data (unat rpos + 4);
           (if rkeylen \<noteq> of_nat (length name) then probe_loop data cdb_len name h tpos nslots slot k
            else if unat rdatalen \<noteq> HTREE_ENTRY_DATA_LEN then Some (Inl CAS_ERR)
            else if unat rpos + 8 + unat rkeylen + unat rdatalen > cdb_len then Some (Inl CAS_ERR)
            else do {
              key \<leftarrow> peek data (unat rpos + 8) (length name);
              (if key \<noteq> bytes_of name then probe_loop data cdb_len name h tpos nslots slot k
               else do {
                 body \<leftarrow> peek data (unat rpos + 8 + unat rkeylen) HTREE_ENTRY_DATA_LEN;
                 Some (Inr (htree_unpack_entry body (bytes_of name))) }) }) }) })"

definition htree_lookup_entry :: "byte list \<Rightarrow> string \<Rightarrow> (cas_rc + cas_tree_entry) option" where
  "htree_lookup_entry data name =
     (let len = length data in
      if len < HTREE_HEADER_LEN + HTREE_FOOTER_LEN then Some (Inl CAS_ERR)
      else do {
        magic \<leftarrow> peek data (len - HTREE_MAGIC_LEN) HTREE_MAGIC_LEN;
        (if magic \<noteq> HTREE_MAGIC then Some (Inl CAS_ERR)
         else
           let cdb_len = len - HTREE_FOOTER_LEN; keylen = length name in
           if keylen > CAS_TREE_NAME_MAX then Some (Inl CAS_ENOTFOUND)
           else do {
             let h = djb_hash name;
             let b = unat (h mod 256);
             tpos \<leftarrow> rd32 data (b * 8);
             nslots \<leftarrow> rd32 data (b * 8 + 4);
             (if nslots = 0 then Some (Inl CAS_ENOTFOUND)
              else
                let slot = (h div 256) mod nslots in
                probe_loop data cdb_len name h tpos nslots slot (unat nslots)) }) })"

end
