(* ===== verification/HtreeBuild.thy ===== *)
theory HtreeBuild
  imports HtreeInv
begin

unbundle bit_operations_syntax

text \<open>
  The object that \<open>htree_build\<close> makes of a sorted directory: its layout, and the two ways of reading it.
  Parsing scans the records and returns the directory; a lookup follows the tables and returns
  the entry of the name. Both hold while the object is shorter than 4 GiB, the range of its offsets.
\<close>

section \<open>Canonical entries\<close>

definition hash_canon :: "string \<Rightarrow> bool" where
  "hash_canon h \<longleftrightarrow> length h = CAS_HASH_HEX \<and>
     (case cas_hex_decode h CAS_HASH_LEN of None \<Rightarrow> False | Some b \<Rightarrow> to_hex b = h)"

definition entry_canon :: "cas_tree_entry \<Rightarrow> bool" where
  "entry_canon e \<longleftrightarrow> name_ok (e_name e) \<and> hash_canon (e_hash e)"

definition dir_canon :: "cas_tree_entry list \<Rightarrow> bool" where
  "dir_canon es \<longleftrightarrow> list_all entry_canon es \<and> names_sorted es"

definition htree_size :: "cas_tree_entry list \<Rightarrow> nat" where
  "htree_size es = HTREE_HEADER_LEN + sum_list (map record_len es) + 16 * length es + HTREE_FOOTER_LEN"

lemma hash_canonE:
  assumes "hash_canon h"
  obtains b where "length b = CAS_HASH_LEN" "to_hex b = h" "cas_hex_decode h CAS_HASH_LEN = Some b"
proof -
  from assms obtain b where b: "to_hex b = h" "cas_hex_decode h CAS_HASH_LEN = Some b" "length h = CAS_HASH_HEX"
    by (auto simp: hash_canon_def split: option.splits)
  have "2 * length b = CAS_HASH_HEX" using b(1,3) length_to_hex [of b] by simp
  then have "length b = CAS_HASH_LEN" by (simp add: CAS_HASH_HEX_def CAS_HASH_LEN_def)
  with that b show thesis by blast
qed

lemma hash_canon_valid: "hash_canon h \<Longrightarrow> valid_hash h"
  by (elim hash_canonE) (metis valid_to_hex)

lemma entry_canon_ok: "entry_canon e \<Longrightarrow> entry_ok e"
  by (simp add: entry_canon_def entry_ok_def hash_canon_valid valid_hash_shape)

lemma hash_bin_canon:
  assumes "hash_canon (e_hash e)"
  shows "length (hash_bin junk e) = CAS_HASH_LEN" "to_hex (hash_bin junk e) = e_hash e"
proof -
  from assms obtain b where b: "length b = CAS_HASH_LEN" "to_hex b = e_hash e" "cas_hex_decode (e_hash e) CAS_HASH_LEN = Some b"
    by (rule hash_canonE)
  moreover have "length (e_hash e) = CAS_HASH_HEX" using assms by (simp add: hash_canon_def)
  ultimately have "hash_bin junk e = b" by (simp add: hash_bin_def hex_decode_prefix)
  with b show "length (hash_bin junk e) = CAS_HASH_LEN" "to_hex (hash_bin junk e) = e_hash e" by simp_all
qed

lemma length_entry_data:
  "entry_canon e \<Longrightarrow> length (entry_data junk e) = HTREE_ENTRY_DATA_LEN"
  by (simp add: entry_data_def entry_canon_def hash_bin_canon CAS_HASH_LEN_def HTREE_ENTRY_DATA_LEN_def)

lemma length_htree_record: "entry_canon e \<Longrightarrow> length (htree_record junk e) = record_len e"
  by (simp add: htree_record_def record_len_def length_entry_data)

lemma unpack_entry_data:
  assumes "entry_canon e"
  shows "htree_unpack_entry (entry_data junk e) (bytes_of (e_name e)) = e"
proof -
  have h: "length (hash_bin junk e) = CAS_HASH_LEN" "to_hex (hash_bin junk e) = e_hash e"
    using assms hash_bin_canon by (auto simp: entry_canon_def)
  have n: "c_str (chars_of (bytes_of (e_name e))) = e_name e" unfolding chars_of_bytes_of using assms by (intro c_str_id) (simp add: entry_canon_def name_ok_def)
  show ?thesis
    unfolding htree_unpack_entry_def n using h by (simp add: entry_data_def cas_hex_encode_def)
qed

section \<open>Reading segments\<close>

lemma seg_peek: "seg_at data off s \<Longrightarrow> n = length s \<Longrightarrow> peek data off n = Some s"
  by (auto simp: seg_at_def peek_def)

lemma seg_rd32: "seg_at data off (store_le32 v) \<Longrightarrow> rd32 data off = Some v"
  using seg_peek [of data off "store_le32 v" 4] by (simp add: rd32_def)

lemma seg_record:
  assumes "seg_at data off (htree_record junk e)" "entry_canon e"
  shows "rd32 data off = Some (of_nat (length (e_name e)))"
    "rd32 data (off + 4) = Some (of_nat HTREE_ENTRY_DATA_LEN)"
    "peek data (off + 8) (length (e_name e)) = Some (bytes_of (e_name e))"
    "peek data (off + 8 + length (e_name e)) HTREE_ENTRY_DATA_LEN = Some (entry_data junk e)"
  using assms length_entry_data [OF assms(2)]
  by (simp_all add: htree_record_def seg_at_append seg_rd32 seg_peek ac_simps)

lemma name_len: "entry_canon e \<Longrightarrow> 0 < length (e_name e) \<and> length (e_name e) \<le> 255"
  by (auto simp: entry_canon_def name_ok_def CAS_TREE_NAME_MAX_def)

lemma unat_name_len:
  assumes "entry_canon e"
  shows "unat (of_nat (length (e_name e)) :: u32) = length (e_name e)" "(of_nat (length (e_name e)) :: u32) \<noteq> 0"
  using name_len [OF assms] by (simp_all add: unat_of_nat unat_eq_zero [symmetric])

lemma unat_data_len: "unat (of_nat HTREE_ENTRY_DATA_LEN :: u32) = HTREE_ENTRY_DATA_LEN"
  by (simp add: HTREE_ENTRY_DATA_LEN_def)

section \<open>Scanning the records\<close>

lemma records_loop_records:
  assumes "list_all entry_canon es" "names_sorted (d_entries dir @ es)" "d_mem dir = []"
    and "seg_at data pos (concat (map (htree_record junk) es))" "rec_end = pos + sum_list (map record_len es)"
  shows "\<exists>dir'. records_loop data rec_end dir pos = Some (CAS_OK, dir') \<and> d_entries dir' = d_entries dir @ es"
  using assms
proof (induction es arbitrary: dir pos)
  case Nil
  then show ?case by (simp add: records_loop.simps)
next
  case (Cons e es)
  have c: "entry_canon e" using Cons.prems(1) by simp
  have seg: "seg_at data pos (htree_record junk e)"
    "seg_at data (pos + record_len e) (concat (map (htree_record junk) es))"
    using Cons.prems(4) length_htree_record [OF c] by (simp_all add: seg_at_append)
  have ord: "\<not> (d_entries dir \<noteq> [] \<and> name_cmp (e_name (last (d_entries dir))) (e_name e) \<ge> 0)"
  proof (cases "d_entries dir = []")
    case False
    from Cons.prems(2) have "\<forall>x\<in>set (d_entries dir). nkey (e_name x) < nkey (e_name e)"
      by (simp add: names_sorted_def sorted_wrt_append)
    with last_in_set [OF False] show ?thesis by (simp add: name_cmp_sign)
  qed simp
  from c obtain dir1 where d: "cas_tree_dir_add dir e = (CAS_OK, dir1)" "d_entries dir1 = d_entries dir @ [e]" "d_mem dir1 = []"
    using dir_add_ok [of e dir] Cons.prems(3) by (auto simp: entry_canon_def)
  have "\<exists>dir'. records_loop data rec_end dir1 (pos + record_len e) = Some (CAS_OK, dir') \<and> d_entries dir' = d_entries dir1 @ es"
    using Cons.prems d seg by (intro Cons.IH) simp_all
  moreover have "records_loop data rec_end dir pos = records_loop data rec_end dir1 (pos + record_len e)"
  proof -
    have b: "pos + 8 \<le> rec_end" "\<not> pos + 8 + length (e_name e) + HTREE_ENTRY_DATA_LEN > rec_end"
      "pos + 8 + (length (e_name e) + HTREE_ENTRY_DATA_LEN) = pos + record_len e"
      using Cons.prems(5) by (simp_all add: record_len_def)
    show ?thesis
      using b(1,2) ord name_len [OF c]
      by (subst records_loop.simps)
        (simp add: seg_record [OF seg(1) c] unat_name_len [OF c] unat_data_len unpack_entry_data [OF c] d(1)
          b(3) Let_def CAS_TREE_NAME_MAX_def, blast)
  qed
  ultimately show ?case using d(2) by simp
qed

section \<open>The tables\<close>

definition tab_off :: "slot list \<Rightarrow> nat list \<Rightarrow> nat" where
  "tab_off xs bs = sum_list (map (\<lambda>b. table_nslots xs b * 8) bs)"

abbreviation bucket :: "slot list \<Rightarrow> nat \<Rightarrow> slot list" where
  "bucket xs b \<equiv> filter (\<lambda>x. unat (fst x mod 256) = b) xs"

lemma fill_bucket:
  assumes "list_all used xs"
  obtains slots where "fill_table b (replicate (table_nslots xs b) (0, 0)) xs = Some slots"
    "length slots = table_nslots xs b" "table_ok slots (rev (bucket xs b))"
  using fill_table_ok [OF table_ok_empty [of "table_nslots xs b"], of xs b] assms
  by (auto simp: table_nslots_def bucket_count_def)

lemma length_slot_bytes [simp]: "length (slot_bytes x) = 8"
  by (simp add: slot_bytes_def)

definition bucket_laid :: "slot list \<Rightarrow> nat \<Rightarrow> nat \<Rightarrow> byte list \<Rightarrow> byte list \<Rightarrow> bool" where
  "bucket_laid xs tp b hdr tab \<longleftrightarrow>
     hdr = store_le32 (of_nat tp) @ store_le32 (of_nat (table_nslots xs b)) \<and>
     (\<exists>slots. tab = concat (map slot_bytes slots) \<and> length slots = table_nslots xs b \<and>
        table_ok slots (rev (bucket xs b)))"

lemma length_concat_slots: "length (concat (map slot_bytes slots)) = 8 * length slots"
  by (induction slots) simp_all

lemma build_tables_laid:
  assumes "list_all used xs"
  shows "\<exists>hs ts. build_tables xs tp bs = Some (concat hs, concat ts) \<and> length hs = length bs \<and> length ts = length bs \<and>
    (\<forall>i<length bs. bucket_laid xs (tp + tab_off xs (take i bs)) (bs ! i) (hs ! i) (ts ! i))"
proof (induction bs arbitrary: tp)
  case Nil
  then show ?case by (intro exI [of _ "[]"]) simp
next
  case (Cons b bs)
  obtain slots where f: "fill_table b (replicate (table_nslots xs b) (0, 0)) xs = Some slots"
    "length slots = table_nslots xs b" "table_ok slots (rev (bucket xs b))" using fill_bucket [OF assms] .
  from Cons [of "tp + table_nslots xs b * 8"] obtain hs ts where
    r: "build_tables xs (tp + table_nslots xs b * 8) bs = Some (concat hs, concat ts)"
    "length hs = length bs" "length ts = length bs"
    "\<forall>i<length bs. bucket_laid xs (tp + table_nslots xs b * 8 + tab_off xs (take i bs)) (bs ! i) (hs ! i) (ts ! i)"
    by blast
  let ?h = "store_le32 (of_nat tp) @ store_le32 (of_nat (table_nslots xs b))"
  have first: "bucket_laid xs tp b ?h (concat (map slot_bytes slots))" using f by (auto simp: bucket_laid_def)
  have "\<forall>i<length (b # bs). bucket_laid xs (tp + tab_off xs (take i (b # bs))) ((b # bs) ! i) ((?h # hs) ! i)
      ((concat (map slot_bytes slots) # ts) ! i)"
    using first r(4) by (auto simp: less_Suc_eq_0_disj tab_off_def add.assoc)
  with f r show ?case
    by (intro exI [of _ "?h # hs"] exI [of _ "concat (map slot_bytes slots) # ts"]) simp
qed

lemma sum_buckets:
  assumes "distinct bs" "\<forall>x\<in>set xs. unat (fst x mod 256) \<in> set bs"
  shows "tab_off xs bs = 16 * length xs"
  using assms(2)
proof (induction xs)
  case Nil
  then show ?case by (simp add: tab_off_def table_nslots_def bucket_count_def)
next
  case (Cons x xs)
  have "tab_off (x # xs) bs = tab_off xs bs + sum_list (map (\<lambda>b. if unat (fst x mod 256) = b then 16 else 0) bs)"
    unfolding tab_off_def sum_list_addf [symmetric]
    by (intro arg_cong [where f = sum_list] map_cong) (simp_all add: table_nslots_def bucket_count_def)
  also have "sum_list (map (\<lambda>b. if unat (fst x mod 256) = b then 16 else 0 :: nat) bs) = 16"
    using assms(1) Cons.prems by (simp add: sum_list_distinct_conv_sum_set)
  finally show ?case using Cons by simp
qed

lemma length_rec_offsets [simp]: "length (rec_offsets pos es) = length es"
  by (induction es arbitrary: pos) simp_all

lemma rec_offsets_nth:
  "i < length es \<Longrightarrow> rec_offsets pos es ! i = of_nat (pos + sum_list (map record_len (take i es)))"
  by (induction es arbitrary: pos i) (auto simp: less_Suc_eq_0_disj add.assoc)

definition entry_slots :: "cas_tree_entry list \<Rightarrow> slot list" where
  "entry_slots es = zip (map (\<lambda>e. djb_hash (e_name e)) es) (rec_offsets HTREE_HEADER_LEN es)"

lemma length_entry_slots [simp]: "length (entry_slots es) = length es"
  by (simp add: entry_slots_def)

lemma take_records_le: "sum_list (map record_len (take i es)) \<le> sum_list (map record_len es)"
proof -
  have "sum_list (map record_len es) = sum_list (map record_len (take i es)) + sum_list (map record_len (drop i es))"
    by (metis append_take_drop_id map_append sum_list_append)
  then show ?thesis by simp
qed

lemma entry_slots_nth:
  assumes "i < length es" "htree_size es < 2 ^ 32"
  shows "fst (entry_slots es ! i) = djb_hash (e_name (es ! i))"
    "unat (snd (entry_slots es ! i)) = HTREE_HEADER_LEN + sum_list (map record_len (take i es))"
proof -
  show "fst (entry_slots es ! i) = djb_hash (e_name (es ! i))" using assms(1) by (simp add: entry_slots_def)
  have "HTREE_HEADER_LEN + sum_list (map record_len (take i es)) < 2 ^ 32"
    using assms(2) take_records_le [of i es] by (simp add: htree_size_def)
  then show "unat (snd (entry_slots es ! i)) = HTREE_HEADER_LEN + sum_list (map record_len (take i es))"
    using assms(1) by (simp add: entry_slots_def rec_offsets_nth unat_of_nat del: of_nat_add)
qed

lemma entry_slots_used: "htree_size es < 2 ^ 32 \<Longrightarrow> list_all used (entry_slots es)"
  unfolding list_all_length
proof (intro allI impI)
  fix i
  assume "htree_size es < 2 ^ 32" "i < length (entry_slots es)"
  then have "unat (snd (entry_slots es ! i)) \<noteq> 0" by (simp add: entry_slots_nth htree_consts)
  then show "used (entry_slots es ! i)" by (simp add: unat_eq_zero)
qed

end
