(* ===== verification/HtreeLookup.thy ===== *)
theory HtreeLookup
  imports HtreeBuild
begin

unbundle bit_operations_syntax

text \<open>
  Reading back what \<open>htree_build\<close> wrote: the layout of the whole object, the scan of its records and
  the search through its tables.
\<close>

section \<open>The layout of a built object\<close>

definition records_stop :: "cas_tree_entry list \<Rightarrow> nat" where
  "records_stop es = HTREE_HEADER_LEN + sum_list (map record_len es)"

definition table_at :: "cas_tree_entry list \<Rightarrow> nat \<Rightarrow> nat" where
  "table_at es b = records_stop es + tab_off (entry_slots es) [0..<b]"

definition htree_laid :: "byte list \<Rightarrow> byte list \<Rightarrow> cas_tree_entry list \<Rightarrow> bool" where
  "htree_laid data junk es \<longleftrightarrow>
     length data = htree_size es \<and>
     seg_at data HTREE_HEADER_LEN (concat (map (htree_record junk) es)) \<and>
     (\<forall>b<256. \<exists>hd tab. bucket_laid (entry_slots es) (table_at es b) b hd tab \<and>
        seg_at data (8 * b) hd \<and> seg_at data (table_at es b) tab) \<and>
     seg_at data (htree_size es - 8) (store_le32 (adler32 (take (htree_size es - 8) data)) @ HTREE_MAGIC)"

lemma upt_split: "b < 256 \<Longrightarrow> [0..<256] = [0..<b] @ b # [Suc b..<256 :: nat]"
  using upt_add_eq_append [of 0 b "256 - b"] upt_conv_Cons [of b 256] by simp

lemma tab_off_append: "tab_off xs (bs @ cs) = tab_off xs bs + tab_off xs cs"
  by (simp add: tab_off_def)

lemma tab_off_all: "tab_off (entry_slots es) [0..<256] = 16 * length es"
  using sum_buckets [of "[0..<256]" "entry_slots es"] by (simp add: unat_mod)

lemma table_at_bound:
  assumes "b < 256"
  shows "table_at es b + 8 * table_nslots (entry_slots es) b + 8 \<le> htree_size es"
  using tab_off_all [of es] upt_split [OF assms] tab_off_append [of "entry_slots es" "[0..<b]" "b # [Suc b..<256]"]
  by (simp add: table_at_def records_stop_def htree_size_def tab_off_def htree_consts)

lemma bucket_laid_length:
  "bucket_laid xs tp b hdr tab \<Longrightarrow> length hdr = 8 \<and> length tab = table_nslots xs b * 8"
  by (auto simp: bucket_laid_def length_concat_slots)

lemma build_laid:
  assumes c: "list_all entry_canon es" and n: "htree_size es < 2 ^ 32"
  shows "\<exists>data. htree_build True junk es = Some (Some data) \<and> htree_laid data junk es"
proof -
  let ?xs = "entry_slots es" and ?recs = "concat (map (htree_record junk) es)"
  obtain hs ts where b: "build_tables ?xs (records_stop es) [0..<256] = Some (concat hs, concat ts)"
    and l: "length hs = 256" "length ts = 256"
    and laid: "\<forall>i<256. bucket_laid ?xs (table_at es i) i (hs ! i) (ts ! i)"
    using build_tables_laid [OF entry_slots_used [OF n], of "records_stop es" "[0..<256]"]
    by (auto simp: table_at_def take_upt)
  have lh: "map length hs = replicate 256 8" and lt: "map length ts = map (\<lambda>b. table_nslots ?xs b * 8) [0..<256]"
    using laid l bucket_laid_length by (auto intro!: nth_equalityI)
  have H: "length (concat hs) = HTREE_HEADER_LEN"
    unfolding length_concat lh by (simp add: sum_list_replicate htree_consts)
  have T: "length (concat ts) = 16 * length es"
    unfolding length_concat lt using tab_off_all [of es] by (simp add: tab_off_def)
  have R: "length ?recs = sum_list (map record_len es)"
    using c by (simp add: length_concat comp_def list_all_iff length_htree_record cong: map_cong)
  let ?cdb = "concat hs @ ?recs @ concat ts"
  let ?data = "?cdb @ store_le32 (adler32 ?cdb) @ HTREE_MAGIC"
  have C: "length ?cdb = htree_size es - 8" using H R T by (simp add: htree_size_def htree_consts)
  have "htree_build True junk es = Some (Some ?data)"
    using b by (simp add: htree_build_def Let_def entry_slots_def records_stop_def HTREE_NBUCKETS_def)
  moreover have "htree_laid ?data junk es"
    unfolding htree_laid_def
  proof (intro conjI allI impI)
    show "length ?data = htree_size es"
      using C by (simp add: HTREE_MAGIC_def htree_size_def htree_consts)
    show "seg_at ?data HTREE_HEADER_LEN ?recs" using seg_at_whole [of HTREE_HEADER_LEN "concat hs" ?recs] H by simp
    show "seg_at ?data (htree_size es - 8) (store_le32 (adler32 (take (htree_size es - 8) ?data)) @ HTREE_MAGIC)"
      using seg_at_whole [of "htree_size es - 8" ?cdb "store_le32 (adler32 ?cdb) @ HTREE_MAGIC" "[]"] C by simp
    fix b :: nat
    assume i: "b < 256"
    have "seg_at ?data 0 (concat hs)" by (simp add: seg_at_def)
    from seg_at_concat [OF this, of b] i l have h: "seg_at ?data (8 * b) (hs ! b)"
      by (simp add: take_map [symmetric] lh sum_list_replicate mult.commute [of b 8])
    have "seg_at ?data (records_stop es) (concat ts)"
      using seg_at_whole [of "records_stop es" "concat hs @ ?recs" "concat ts"] H R by (simp add: records_stop_def)
    moreover have "sum_list (map length (take b ts)) = tab_off ?xs [0..<b]"
      unfolding take_map [symmetric] lt using i by (simp add: take_map take_upt tab_off_def)
    ultimately have t: "seg_at ?data (table_at es b) (ts ! b)"
      using seg_at_concat [of ?data "records_stop es" ts b] i l by (simp add: table_at_def)
    from laid i h t show "\<exists>hd tab. bucket_laid ?xs (table_at es b) b hd tab \<and> seg_at ?data (8 * b) hd \<and>
      seg_at ?data (table_at es b) tab" by blast
  qed
  ultimately show ?thesis by blast
qed

section \<open>Parsing a built object\<close>

lemma laid_bucket:
  assumes "htree_laid data junk es" "b < 256" "htree_size es < 2 ^ 32"
  obtains slots where "rd32 data (b * 8) = Some (of_nat (table_at es b))"
    "rd32 data (b * 8 + 4) = Some (of_nat (length slots))" "length slots = table_nslots (entry_slots es) b"
    "seg_at data (table_at es b) (concat (map slot_bytes slots))" "table_ok slots (rev (bucket (entry_slots es) b))"
    "unat (of_nat (table_at es b) :: u32) = table_at es b" "unat (of_nat (length slots) :: u32) = length slots"
proof -
  from assms(1,2) obtain slots where s: "seg_at data (8 * b) (store_le32 (of_nat (table_at es b)) @
      store_le32 (of_nat (table_nslots (entry_slots es) b)))"
    "seg_at data (table_at es b) (concat (map slot_bytes slots))"
    "length slots = table_nslots (entry_slots es) b" "table_ok slots (rev (bucket (entry_slots es) b))"
    by (auto simp: htree_laid_def bucket_laid_def)
  moreover have "table_at es b < 2 ^ 32" "length slots < 2 ^ 32"
    using table_at_bound [OF assms(2), of es] assms(3) s(3) by linarith+
  ultimately show thesis
    using that [of slots] by (simp add: seg_at_append seg_rd32 mult.commute unat_of_nat)
qed

lemma records_end_value:
  fixes low :: u32
  assumes "\<And>b. b \<in> set bs \<Longrightarrow> rd32 data (b * 8) = Some (T b) \<and> rd32 data (b * 8 + 4) = Some (N b)"
    and "\<And>b. b \<in> set bs \<Longrightarrow> low \<le> T b" "low \<le> re"
    and "re = low \<or> (\<exists>b\<in>set bs. N b > 0 \<and> T b = low)"
  shows "records_end data re bs = Some low"
  using assms
proof (induction bs arbitrary: re)
  case (Cons b bs)
  let ?re = "if N b > 0 \<and> T b < re then T b else re"
  have "records_end data ?re bs = Some low"
    using Cons.prems by (intro Cons.IH) (auto simp: not_less [symmetric])
  with Cons.prems(1) [of b] show ?case by simp
qed simp

lemma first_bucket:
  assumes "es \<noteq> []"
  shows "\<exists>b<256. table_nslots (entry_slots es) b > 0 \<and> table_at es b = records_stop es"
proof -
  let ?Q = "\<lambda>b. b < 256 \<and> table_nslots (entry_slots es) b > 0"
  obtain x xs where "entry_slots es = x # xs" using assms length_entry_slots [of es] by (cases "entry_slots es") auto
  then have "?Q (unat (fst x mod 256))" by (simp add: table_nslots_def bucket_count_def unat_mod)
  then obtain b where q: "?Q b" and least: "\<And>c. c < b \<Longrightarrow> \<not> ?Q c"
    using exists_least_iff [of ?Q] by blast
  have "table_nslots (entry_slots es) c = 0" if "c < b" for c
    using least [OF that] q that by simp
  then have "map (\<lambda>b. table_nslots (entry_slots es) b * 8) [0..<b] = replicate b 0"
    by (intro nth_equalityI) auto
  then have "tab_off (entry_slots es) [0..<b] = 0" by (simp add: tab_off_def sum_list_replicate)
  with q show ?thesis by (auto simp: table_at_def)
qed

lemma htree_parse_laid:
  assumes laid: "htree_laid data junk es" and c: "dir_canon es" and n: "htree_size es < 2 ^ 32" and mem: "d_mem dir = []"
  shows "\<exists>dir'. htree_parse_dir dir data = Some (CAS_OK, dir') \<and> d_entries dir' = es"
proof -
  let ?C = "htree_size es - 8"
  have len: "length data = htree_size es" "2056 \<le> htree_size es" using laid by (simp_all add: htree_laid_def htree_size_def htree_consts)
  have foot: "seg_at data ?C (store_le32 (adler32 (take ?C data)))" "seg_at data (?C + 4) HTREE_MAGIC"
    using laid by (simp_all add: htree_laid_def seg_at_append)
  have stop: "records_stop es \<le> ?C" "records_stop es < 2 ^ 32"
    using n by (simp_all add: records_stop_def htree_size_def htree_consts)
  have tabs: "rd32 data (b * 8) = Some (of_nat (table_at es b)) \<and>
      rd32 data (b * 8 + 4) = Some (of_nat (table_nslots (entry_slots es) b)) \<and> unat (of_nat (table_at es b) :: u32) = table_at es b
      \<and> unat (of_nat (table_nslots (entry_slots es) b) :: u32) = table_nslots (entry_slots es) b"
    if "b < 256" for b using laid_bucket [OF laid that n] by metis
  have us: "unat (of_nat (records_stop es) :: u32) = records_stop es" "unat (of_nat ?C :: u32) = ?C"
    using stop n by (simp_all add: unat_of_nat)
  have "records_end data (of_nat ?C) [0..<256] = Some (of_nat (records_stop es))"
  proof (rule records_end_value [where T = "\<lambda>b. of_nat (table_at es b)" and N = "\<lambda>b. of_nat (table_nslots (entry_slots es) b)"])
    show "of_nat (records_stop es) \<le> (of_nat ?C :: u32)" using us stop by (simp add: word_le_nat_alt)
    show "of_nat (records_stop es) \<le> (of_nat (table_at es b) :: u32)" if "b \<in> set [0..<256]" for b
      using tabs [of b] that us by (simp add: word_le_nat_alt table_at_def)
    show "of_nat ?C = (of_nat (records_stop es) :: u32) \<or>
      (\<exists>b\<in>set [0..<256]. (of_nat (table_nslots (entry_slots es) b) :: u32) > 0 \<and> of_nat (table_at es b) = (of_nat (records_stop es) :: u32))"
    proof (cases "es = []")
      case True
      then show ?thesis by (simp add: records_stop_def htree_size_def htree_consts)
    next
      case False
      from first_bucket [OF this] obtain b where "b < 256" "table_nslots (entry_slots es) b > 0" "table_at es b = records_stop es" by blast
      with tabs [of b] show ?thesis by (intro disjI2 bexI [of _ b]) (auto simp: word_less_nat_alt)
    qed
  qed (use tabs in auto)
  moreover have "\<exists>dir'. records_loop data (records_stop es) (cas_tree_dir_init dir) HTREE_HEADER_LEN = Some (CAS_OK, dir') \<and>
      d_entries dir' = d_entries (cas_tree_dir_init dir) @ es"
    using c laid mem
    by (intro records_loop_records [where junk = junk]) (simp_all add: dir_canon_def cas_tree_dir_init_def htree_laid_def records_stop_def)
  moreover have "length data - HTREE_MAGIC_LEN = ?C + 4" "length data - HTREE_FOOTER_LEN = ?C"
    "\<not> length data < HTREE_HEADER_LEN + HTREE_FOOTER_LEN" "length HTREE_MAGIC = HTREE_MAGIC_LEN"
    using len by (simp_all add: htree_consts HTREE_MAGIC_def)
  ultimately show ?thesis
    using foot us(1) by (auto simp: htree_parse_dir_def Let_def seg_peek seg_rd32 HTREE_NBUCKETS_def cas_tree_dir_init_def)
qed

section \<open>Searching a built object\<close>

lemma slot_record:
  assumes laid: "htree_laid data junk es" and c: "list_all entry_canon es" and n: "htree_size es < 2 ^ 32" and i: "i < length es"
  shows "seg_at data (unat (snd (entry_slots es ! i))) (htree_record junk (es ! i))"
    "unat (snd (entry_slots es ! i)) + record_len (es ! i) + 8 \<le> htree_size es"
proof -
  have len: "map length (take i (map (htree_record junk) es)) = map record_len (take i es)"
    using c i by (intro nth_equalityI) (auto simp: take_map list_all_length length_htree_record)
  have "seg_at data HTREE_HEADER_LEN (concat (map (htree_record junk) es))" using laid by (simp add: htree_laid_def)
  from seg_at_concat [OF this, of i] show "seg_at data (unat (snd (entry_slots es ! i))) (htree_record junk (es ! i))"
    using i by (simp only: len length_map entry_slots_nth [OF i n] nth_map)
  have "sum_list (map record_len es) = sum_list (map record_len (take i es @ es ! i # drop (Suc i) es))"
    by (simp only: id_take_nth_drop [OF i, symmetric])
  then show "unat (snd (entry_slots es ! i)) + record_len (es ! i) + 8 \<le> htree_size es"
    by (simp add: entry_slots_nth [OF i n] htree_size_def htree_consts)
qed

lemma seg_slot:
  assumes "seg_at data tp (concat (map slot_bytes slots))" "j < length slots"
  shows "rd32 data (tp + j * 8) = Some (fst (slots ! j))" "rd32 data (tp + j * 8 + 4) = Some (snd (slots ! j))"
  using seg_at_concat_fixed [OF assms, of 8] by (simp_all add: slot_bytes_def seg_at_append seg_rd32 mult.commute)

lemma probe_index:
  assumes "k < N" "N < 2 ^ 31"
  shows "unat ((h div 256 mod of_nat N + (of_nat N - of_nat (Suc k))) mod of_nat N :: u32) = (home h N + (N - Suc k)) mod N"
proof -
  have N: "unat (of_nat N :: u32) = N" using assms(2) by (simp add: unat_of_nat)
  have hm: "home h N < N" using assms(1) by (simp add: home_def)
  have "h div 256 mod of_nat N = (of_nat (home h N) :: u32)"
  proof (rule unsigned_word_eqI [where ?'a = nat])
    have "unat (of_nat (home h N) :: u32) = home h N" using hm assms(2) by (simp add: unat_of_nat)
    moreover have "unat (h div 256 mod of_nat N) = home h N" by (simp only: unat_mod N home_def)
    ultimately show "unat (h div 256 mod of_nat N) = unat (of_nat (home h N) :: u32)" by simp
  qed
  moreover have "(of_nat N - of_nat (Suc k) :: u32) = of_nat (N - Suc k)" using assms(1) by (simp only: of_nat_diff Suc_leI)
  ultimately have "h div 256 mod of_nat N + (of_nat N - of_nat (Suc k)) = (of_nat (home h N + (N - Suc k)) :: u32)"
    by (simp only: of_nat_add)
  moreover have "home h N + (N - Suc k) < 2 ^ 32" using hm assms by simp
  then have "unat (of_nat (home h N + (N - Suc k)) :: u32) = home h N + (N - Suc k)" by (simp only: unat_of_nat) simp
  ultimately show ?thesis by (simp only: unat_mod N)
qed

lemma probe_step:
  assumes n: "htree_size es < 2 ^ 32" and name: "length name \<le> 255"
    and slots: "seg_at data tp (concat (map slot_bytes slots))" "tp + 8 * length slots \<le> cdb" "length data = htree_size es"
      "cdb = htree_size es - 8" "unat (of_nat tp :: u32) = tp"
    and k: "k < length slots" and x: "x = slots ! ((home h (length slots) + (length slots - Suc k)) mod length slots)"
    and h: "h = djb_hash name"
  defines "go \<equiv> probe_loop data cdb name h (of_nat tp) (of_nat (length slots)) (h div 256 mod of_nat (length slots))"
  shows "\<not> used x \<Longrightarrow> go (Suc k) = Some (Inl CAS_ENOTFOUND)"
    and "used x \<Longrightarrow> entry_canon e \<Longrightarrow> fst x = djb_hash (e_name e) \<Longrightarrow> seg_at data (unat (snd x)) (htree_record junk e) \<Longrightarrow>
      unat (snd x) + record_len e + 8 \<le> htree_size es \<Longrightarrow>
      go (Suc k) = (if e_name e = name then Some (Inr e) else go k)"
proof -
  let ?N = "length slots" and ?j = "(home h (length slots) + (length slots - Suc k)) mod length slots"
  have N: "?N < 2 ^ 31" using slots(2,4) n by simp
  have "0 < ?N" using k by linarith
  then have j: "?j < ?N" by (rule mod_less_divisor)
  note idx = probe_index [OF k N, of h]
  have r: "rd32 data (tp + ?j * 8) = Some (fst x)" "rd32 data (tp + ?j * 8 + 4) = Some (snd x)"
    using seg_slot [OF slots(1) j] x by simp_all
  have b: "\<not> tp + ?j * 8 + 8 > cdb" using slots(2) j by linarith
  have step: "go (Suc k) = (if snd x = 0 then Some (Inl CAS_ENOTFOUND)
      else if fst x \<noteq> h then go k
      else if unat (snd x) + 8 > cdb then Some (Inl CAS_ERR)
      else do {
        rkeylen \<leftarrow> rd32 data (unat (snd x));
        rdatalen \<leftarrow> rd32 data (unat (snd x) + 4);
        (if rkeylen \<noteq> of_nat (length name) then go k
         else if unat rdatalen \<noteq> HTREE_ENTRY_DATA_LEN then Some (Inl CAS_ERR)
         else if unat (snd x) + 8 + unat rkeylen + unat rdatalen > cdb then Some (Inl CAS_ERR)
         else do {
           key \<leftarrow> peek data (unat (snd x) + 8) (length name);
           (if key \<noteq> bytes_of name then go k
            else do {
              body \<leftarrow> peek data (unat (snd x) + 8 + unat rkeylen) HTREE_ENTRY_DATA_LEN;
              Some (Inr (htree_unpack_entry body (bytes_of name))) }) }) })"
    unfolding go_def by (simp only: probe_loop.simps Let_def idx slots(5) b r if_False bind.bind_lunit)
  show "\<not> used x \<Longrightarrow> go (Suc k) = Some (Inl CAS_ENOTFOUND)" using step by simp
  assume u: "used x" and c: "entry_canon e" and f: "fst x = djb_hash (e_name e)"
    and seg: "seg_at data (unat (snd x)) (htree_record junk e)" and le: "unat (snd x) + record_len e + 8 \<le> htree_size es"
  have bnd: "\<not> unat (snd x) + 8 > cdb" "\<not> unat (snd x) + 8 + length (e_name e) + HTREE_ENTRY_DATA_LEN > cdb"
    using le slots(4) by (simp_all add: record_len_def)
  have same: "(of_nat (length (e_name e)) :: u32) = of_nat (length name) \<longleftrightarrow> length (e_name e) = length name"
  proof
    assume "(of_nat (length (e_name e)) :: u32) = of_nat (length name)"
    then have "unat (of_nat (length (e_name e)) :: u32) = unat (of_nat (length name) :: u32)" by simp
    then show "length (e_name e) = length name" using unat_name_len [OF c] name by (simp add: unat_of_nat)
  qed simp
  show "go (Suc k) = (if e_name e = name then Some (Inr e) else go k)"
  proof (cases "e_name e = name")
    case True
    then show ?thesis
      using step u f h bnd seg_record [OF seg c] unat_name_len [OF c] unpack_entry_data [OF c, of junk] unat_data_len by simp
  next
    case False
    then have "bytes_of (e_name e) \<noteq> bytes_of name" by (metis chars_of_bytes_of)
    then show ?thesis
      using False step u f bnd seg_record [OF seg c] unat_name_len [OF c] same unat_data_len by auto
  qed
qed

lemma bucket_hash:
  "i < length es \<Longrightarrow> htree_size es < 2 ^ 32 \<Longrightarrow> entry_slots es ! i \<in> set (bucket (entry_slots es) (unat (djb_hash (e_name (es ! i)) mod 256)))"
  using entry_slots_nth(1) [of i es] by (simp add: in_set_conv_nth) blast

lemma names_distinct: "names_sorted es \<Longrightarrow> a \<in> set es \<Longrightarrow> b \<in> set es \<Longrightarrow> e_name a = e_name b \<Longrightarrow> a = b"
  by (induction es) (auto simp: names_sorted_def)

lemma find_entry_named_Some:
  "names_sorted es \<Longrightarrow> e \<in> set es \<Longrightarrow> find_entry_named es (e_name e) = Some e"
  by (induction es) (auto simp: find_entry_named_def names_sorted_def)

lemma htree_lookup_laid:
  assumes laid: "htree_laid data junk es" and dc: "dir_canon es" and n: "htree_size es < 2 ^ 32"
  shows "htree_lookup_entry data name =
    Some (case find_entry_named es name of None \<Rightarrow> Inl CAS_ENOTFOUND | Some e \<Rightarrow> Inr e)"
proof -
  let ?C = "htree_size es - 8" and ?h = "djb_hash name" and ?b = "unat (djb_hash name mod 256)"
  have c: "list_all entry_canon es" and srt: "names_sorted es" using dc by (simp_all add: dir_canon_def)
  have len: "length data = htree_size es" "2056 \<le> htree_size es" using laid by (simp_all add: htree_laid_def htree_size_def htree_consts)
  have foot: "seg_at data (?C + 4) HTREE_MAGIC" using laid by (simp add: htree_laid_def seg_at_append)
  have b: "?b < 256" by (simp add: unat_mod)
  obtain slots where s: "rd32 data (?b * 8) = Some (of_nat (table_at es ?b))"
    "rd32 data (?b * 8 + 4) = Some (of_nat (length slots))" "length slots = table_nslots (entry_slots es) ?b"
    "seg_at data (table_at es ?b) (concat (map slot_bytes slots))" "table_ok slots (rev (bucket (entry_slots es) ?b))"
    "unat (of_nat (table_at es ?b) :: u32) = table_at es ?b" "unat (of_nat (length slots) :: u32) = length slots"
    using laid_bucket [OF laid b n] .
  let ?N = "length slots" and ?tp = "table_at es ?b"
  let ?go = "probe_loop data ?C name ?h (of_nat ?tp) (of_nat ?N) (?h div 256 mod of_nat ?N)"
  let ?at = "\<lambda>i. slots ! ((home ?h ?N + i) mod ?N)"
  have tb: "?tp + 8 * ?N \<le> ?C" using table_at_bound [OF b, of es] s(3) by simp
  have start: "htree_lookup_entry data name = (if length name > CAS_TREE_NAME_MAX \<or> ?N = 0 then Some (Inl CAS_ENOTFOUND) else ?go ?N)"
  proof -
    have "length data - HTREE_MAGIC_LEN = ?C + 4" "length data - HTREE_FOOTER_LEN = ?C"
      "\<not> length data < HTREE_HEADER_LEN + HTREE_FOOTER_LEN" "length HTREE_MAGIC = HTREE_MAGIC_LEN"
      using len by (simp_all add: htree_consts HTREE_MAGIC_def)
    moreover have "(of_nat ?N :: u32) = 0 \<longleftrightarrow> ?N = 0" using s(7) by (metis unat_0 unat_eq_zero of_nat_0)
    ultimately show ?thesis
      using foot s(1,2,7) by (simp add: htree_lookup_entry_def Let_def seg_peek)
  qed
  have missing_long: "find_entry_named es name = None" if "length name > CAS_TREE_NAME_MAX"
    using that c by (auto simp: find_entry_named_def find_None_iff list_all_iff entry_canon_def name_ok_def)
  show ?thesis
  proof (cases "length name > CAS_TREE_NAME_MAX")
    case True
    then show ?thesis using start missing_long by simp
  next
    case False
    then have nm: "length name \<le> 255" by (simp add: CAS_TREE_NAME_MAX_def)
    note step = probe_step [OF n nm s(4) tb len(1) refl s(6) _ refl refl]
    have rec: "\<exists>e\<in>set es. entry_canon e \<and> fst x = djb_hash (e_name e) \<and> seg_at data (unat (snd x)) (htree_record junk e) \<and>
        unat (snd x) + record_len e + 8 \<le> htree_size es" if "x \<in> set slots" "used x" for x
    proof -
      from s(5) that have "x \<in> set (entry_slots es)" by (auto simp: table_ok_def)
      then obtain i where i: "i < length es" "x = entry_slots es ! i" by (auto simp: in_set_conv_nth)
      with c slot_record [OF laid c n i(1)] entry_slots_nth(1) [OF i(1) n] show ?thesis
        by (intro bexI [of _ "es ! i"]) (auto simp: list_all_length)
    qed
    have inslots: "0 < ?N \<Longrightarrow> ?at i \<in> set slots" for i by simp
    show ?thesis
    proof (cases "find_entry_named es name")
      case None
      have "?go k = Some (Inl CAS_ENOTFOUND)" if "k \<le> ?N" for k
        using that
      proof (induction k)
        case (Suc k)
        then have k: "k < ?N" by simp
        show ?case
        proof (cases "used (?at (?N - Suc k))")
          case True
          have "0 < ?N" using k by linarith
          then have "?at (?N - Suc k) \<in> set slots" by (rule inslots)
          from rec [OF this True] obtain e where e: "e \<in> set es" "entry_canon e" "fst (?at (?N - Suc k)) = djb_hash (e_name e)"
            "seg_at data (unat (snd (?at (?N - Suc k)))) (htree_record junk e)"
            "unat (snd (?at (?N - Suc k))) + record_len e + 8 \<le> htree_size es" by blast
          have "e_name e \<noteq> name" using None e(1) find_entry_named_Some [OF srt] by auto
          with step(2) [OF k True e(2-5)] Suc k show ?thesis by simp
        qed (use step(1) [OF k] in simp)
      qed simp
      with start None show ?thesis by simp
    next
      case (Some e)
      then have e: "e \<in> set es" "e_name e = name" by (auto simp: find_entry_named_def find_Some_iff)
      then obtain i where i: "i < length es" "e = es ! i" by (auto simp: in_set_conv_nth)
      let ?x = "entry_slots es ! i"
      have xb: "?x \<in> set (rev (bucket (entry_slots es) ?b))" using bucket_hash [OF i(1) n] i e(2) by simp
      from table_okD [OF s(5) xb] obtain m where m: "m < ?N" "?at m = ?x" "\<forall>j<m. used (?at j)"
        unfolding entry_slots_nth(1) [OF i(1) n] i(2) [symmetric] e(2) by blast
      have ec: "entry_canon e" using c e(1) by (simp add: list_all_iff)
      have last: "?go (?N - m) = Some (Inr e)"
      proof -
        have k: "?N - Suc m < ?N" "Suc (?N - Suc m) = ?N - m" "?N - Suc (?N - Suc m) = m" using m(1) by simp_all
        have "used ?x" using entry_slots_used [OF n] i(1) by (simp add: list_all_length)
        with step(2) [OF k(1), of e junk] k m(2) ec slot_record [OF laid c n i(1)] entry_slots_nth(1) [OF i(1) n] i e(2)
        show ?thesis by simp
      qed
      have "?go (?N - j) = Some (Inr e)" if "j \<le> m" for j
        using that
      proof (induction rule: inc_induct)
        case (step j)
        have k: "?N - Suc j < ?N" "Suc (?N - Suc j) = ?N - j" "?N - Suc (?N - Suc j) = j" using m(1) step.hyps by simp_all
        have u: "used (?at j)" using m(3) step.hyps by simp
        have "0 < ?N" using m(1) by linarith
        then have "?at j \<in> set slots" by (rule inslots)
        from rec [OF this u] obtain e' where e': "e' \<in> set es" "entry_canon e'" "fst (?at j) = djb_hash (e_name e')"
          "seg_at data (unat (snd (?at j))) (htree_record junk e')"
          "unat (snd (?at j)) + record_len e' + 8 \<le> htree_size es" by blast
        have "e_name e' = name \<Longrightarrow> e' = e" using names_distinct [OF srt e'(1) e(1)] e(2) by simp
        with probe_step(2) [OF n nm s(4) tb len(1) refl s(6) k(1) refl refl, of e' junk] k u e' step.IH show ?case by auto
      qed (rule last)
      from this [of 0] start False m(1) Some show ?thesis by auto
    qed
  qed
qed

end
