(* ===== verification/Utf8.thy ===== *)
theory Utf8
  imports TreeName
begin

unbundle bit_operations_syntax

text \<open>
  The UTF-8 check against the encoding it is meant to recognise: a reference encoder of Unicode scalar
  values, and the proof that \<open>valid_utf8\<close> accepts exactly its outputs. Overlong forms, surrogates and
  values past the last code point are thereby excluded.
\<close>

section \<open>Reference encoding\<close>

definition scalar :: "nat \<Rightarrow> bool" where
  "scalar n \<longleftrightarrow> n < 0xd800 \<or> 0xdfff < n \<and> n \<le> 0x10ffff"

definition utf8_enc :: "nat \<Rightarrow> byte list" where
  "utf8_enc n = map of_nat
     (if n < 0x80 then [n]
      else if n < 0x800 then [0xc0 + n div 64, 0x80 + n mod 64]
      else if n < 0x10000 then [0xe0 + n div 4096, 0x80 + n div 64 mod 64, 0x80 + n mod 64]
      else [0xf0 + n div 262144, 0x80 + n div 4096 mod 64, 0x80 + n div 64 mod 64, 0x80 + n mod 64])"

section \<open>Bytes as numbers\<close>

lemma unat_high_bits:
  fixes c :: byte
  shows "unat (c AND NOT (mask k)) = unat c div 2 ^ k * 2 ^ k"
proof -
  have c8: "unat c < 2 ^ 8" using unsigned_less [of c] by simp
  have "c AND NOT (mask k) = push_bit k (drop_bit k c)" by (simp add: bit_eq_iff bit_simps) auto
  moreover have "unat (push_bit k (drop_bit k c)) = unat c div 2 ^ k * 2 ^ k"
  proof -
    have "unat c div 2 ^ k * 2 ^ k \<le> unat c" by simp
    also note c8
    finally have le8: "unat c div 2 ^ k * 2 ^ k < 2 ^ 8" .
    have "unat (push_bit k (drop_bit k c)) = take_bit 8 (push_bit k (drop_bit k (unat c)))"
      using take_bit_nat_eq_self [of "unat c" 8] c8
      by (simp add: unsigned_push_bit_eq unsigned_drop_bit_eq)
    also have "\<dots> = unat c div 2 ^ k * 2 ^ k"
      unfolding push_bit_eq_mult drop_bit_eq_div using le8 by (rule take_bit_nat_eq_self)
    finally show ?thesis .
  qed
  ultimately show ?thesis by simp
qed

lemma lead_masks:
  "(0xe0 :: byte) = NOT (mask 5)" "(0xf0 :: byte) = NOT (mask 4)" "(0xf8 :: byte) = NOT (mask 3)"
  "(0xc0 :: byte) = NOT (mask 6)"
  by (simp_all add: mask_eq_exp_minus_1)

lemma block_iff:
  fixes n m q :: nat
  assumes "0 < m"
  shows "n div m * m = q * m \<longleftrightarrow> q * m \<le> n \<and> n < q * m + m"
  using assms by (simp, metis div_nat_eqI dividend_less_div_times div_times_less_eq_dividend mult.commute mult_Suc_right add.commute)

lemma lead_class:
  fixes c :: byte
  shows "c AND 0xe0 = 0xc0 \<longleftrightarrow> 192 \<le> unat c \<and> unat c < 224"
    "c AND 0xf0 = 0xe0 \<longleftrightarrow> 224 \<le> unat c \<and> unat c < 240"
    "c AND 0xf8 = 0xf0 \<longleftrightarrow> 240 \<le> unat c \<and> unat c < 248"
    "c AND 0xc0 = 0x80 \<longleftrightarrow> 128 \<le> unat c \<and> unat c < 192"
proof -
  have eq: "c AND m = v \<longleftrightarrow> unat c div 2 ^ k * 2 ^ k = q * 2 ^ k" if "m = NOT (mask k)" "unat v = q * 2 ^ k" for m v k q
  proof -
    have "c AND NOT (mask k) = v \<longleftrightarrow> unat (c AND NOT (mask k)) = unat v" by (rule word_eq_iff_unsigned)
    with that show ?thesis by (simp only: unat_high_bits)
  qed
  show "c AND 0xe0 = 0xc0 \<longleftrightarrow> 192 \<le> unat c \<and> unat c < 224"
    using eq [where v = "0xc0" and q = 6, OF lead_masks(1)] block_iff [of 32 "unat c" 6] by simp
  show "c AND 0xf0 = 0xe0 \<longleftrightarrow> 224 \<le> unat c \<and> unat c < 240"
    using eq [where v = "0xe0" and q = 14, OF lead_masks(2)] block_iff [of 16 "unat c" 14] by simp
  show "c AND 0xf8 = 0xf0 \<longleftrightarrow> 240 \<le> unat c \<and> unat c < 248"
    using eq [where v = "0xf0" and q = 30, OF lead_masks(3)] block_iff [of 8 "unat c" 30] by simp
  show "c AND 0xc0 = 0x80 \<longleftrightarrow> 128 \<le> unat c \<and> unat c < 192"
    using eq [where v = "0x80" and q = 2, OF lead_masks(4)] block_iff [of 64 "unat c" 2] by simp
qed

lemma payload_bits:
  fixes c :: byte
  shows "unat (ucast (c AND 0x1f) :: u32) = unat c mod 32"
    "unat (ucast (c AND 0x0f) :: u32) = unat c mod 16"
    "unat (ucast (c AND 0x07) :: u32) = unat c mod 8"
    "unat (ucast (c AND 0x3f) :: u32) = unat c mod 64"
proof -
  have low: "unat (ucast (c AND m) :: u32) = unat c mod 2 ^ k" if "m = mask k" for m k
  proof -
    have "c AND m = take_bit k c" using that by (simp add: take_bit_eq_mask)
    then have "unat (c AND m) = take_bit k (unat c)" by (simp add: unsigned_take_bit_eq)
    then have "unat (c AND m) = unat c mod 2 ^ k" unfolding take_bit_eq_mod .
    moreover have "unat (c AND m) < 2 ^ 32" by (rule order_less_trans [OF unsigned_less]) simp
    ultimately show ?thesis by (simp add: unsigned_ucast_eq take_bit_nat_eq_self)
  qed
  show "unat (ucast (c AND 0x1f) :: u32) = unat c mod 32" using low [of _ 5] by (simp add: mask_eq_exp_minus_1)
  show "unat (ucast (c AND 0x0f) :: u32) = unat c mod 16" using low [of _ 4] by (simp add: mask_eq_exp_minus_1)
  show "unat (ucast (c AND 0x07) :: u32) = unat c mod 8" using low [of _ 3] by (simp add: mask_eq_exp_minus_1)
  show "unat (ucast (c AND 0x3f) :: u32) = unat c mod 64" using low [of _ 6] by (simp add: mask_eq_exp_minus_1)
qed

lemma join_bits:
  fixes v w :: u32
  assumes "unat v < 2 ^ 26" "unat w < 64"
  shows "unat (push_bit 6 v OR w) = unat v * 64 + unat w"
proof -
  have w: "w = take_bit 6 w" using assms(2) by (intro unsigned_word_eqI [where ?'a = nat]) (simp add: unsigned_take_bit_eq take_bit_nat_eq_self)
  have "push_bit 6 v + w = push_bit 6 v OR w"
    by (subst (1 2) w, rule disjunctive_add_eq_or) (simp add: bit_eq_iff bit_simps)
  moreover have "unat (push_bit 6 v + w) = unat v * 64 + unat w"
    using assms by (simp add: push_bit_eq_mult unat_word_ariths unat_mult_lem)
  ultimately show ?thesis by simp
qed

section \<open>One step of the check\<close>

abbreviation contb :: "byte \<Rightarrow> bool" where
  "contb c \<equiv> 128 \<le> unat c \<and> unat c < 192"

definition cont_val :: "nat \<Rightarrow> byte list \<Rightarrow> nat" where
  "cont_val v cs = foldl (\<lambda>v c. v * 64 + unat c mod 64) v cs"

lemma utf8_cont_val:
  "(unat v + 1) * 64 ^ length cs \<le> 2 ^ 32 \<Longrightarrow>
   (if list_all contb cs then \<exists>w. utf8_cont cs v = Some w \<and> unat w = cont_val (unat v) cs
    else utf8_cont cs v = None)"
proof (induction cs arbitrary: v)
  case Nil
  then show ?case by (simp add: cont_val_def)
next
  case (Cons c cs)
  let ?v = "push_bit 6 v OR ucast (c AND 0x3f) :: u32"
  have "(unat v + 1) * 64 \<le> (unat v + 1) * 64 ^ length (c # cs)"
    by (rule mult_le_mono2) simp
  with Cons.prems have "(unat v + 1) * 64 \<le> 2 ^ 32" by (rule order_trans [rotated])
  then have v: "unat ?v = unat v * 64 + unat c mod 64"
    using join_bits [of v "ucast (c AND 0x3f)"] by (simp add: payload_bits)
  then have "(unat ?v + 1) * 64 ^ length cs \<le> ((unat v + 1) * 64) * 64 ^ length cs"
    using mod_less_divisor [of 64 "unat c"] by (intro mult_le_mono1) simp
  also have "\<dots> \<le> 2 ^ 32" using Cons.prems by (simp add: algebra_simps)
  finally have "(unat ?v + 1) * 64 ^ length cs \<le> 2 ^ 32" .
  from Cons.IH [OF this] v show ?case by (auto simp: lead_class cont_val_def split: if_splits)
qed

lemma loop_multi:
  assumes l: "utf8_lead c = Some (cp, k, mn)" "\<not> c < 0x80" and b: "(unat cp + 1) * 64 ^ k \<le> 2 ^ 32"
  shows "utf8_loop (c # r) \<longleftrightarrow> k \<le> length r \<and> list_all contb (take k r) \<and>
     unat mn \<le> cont_val (unat cp) (take k r) \<and> scalar (cont_val (unat cp) (take k r)) \<and> utf8_loop (drop k r)"
proof (cases "k \<le> length r \<and> list_all contb (take k r)")
  case True
  then obtain w where w: "utf8_cont (take k r) cp = Some w" "unat w = cont_val (unat cp) (take k r)"
    using utf8_cont_val [of cp "take k r"] b by auto
  show ?thesis
    using True l w by (auto simp: w(2) [symmetric] word_less_nat_alt word_le_nat_alt scalar_def)
next
  case False
  then show ?thesis using l utf8_cont_val [of cp "take k r"] b by (auto simp: min_def)
qed

lemma lead_some:
  "utf8_lead c = Some (cp, k, mn) \<longleftrightarrow>
     (192 \<le> unat c \<and> unat c < 224 \<and> cp = ucast (c AND 0x1f) \<and> k = 1 \<and> mn = 0x80) \<or>
     (224 \<le> unat c \<and> unat c < 240 \<and> cp = ucast (c AND 0x0f) \<and> k = 2 \<and> mn = 0x800) \<or>
     (240 \<le> unat c \<and> unat c < 248 \<and> cp = ucast (c AND 0x07) \<and> k = 3 \<and> mn = 0x10000)"
  by (auto simp: utf8_lead_def lead_class)

lemma lead_bound: "utf8_lead c = Some (cp, k, mn) \<Longrightarrow> (unat cp + 1) * 64 ^ k \<le> 2 ^ 32 \<and> \<not> c < 0x80"
  by (auto simp: lead_some payload_bits word_less_nat_alt)

section \<open>The check and the encoding\<close>

lemma off_mod:
  fixes n m q :: nat
  assumes "m * q \<le> n" "n < m * q + m"
  shows "m * q + n mod m = n"
proof -
  from assms(1) obtain k where k: "n = m * q + k" by (auto simp: le_iff_add)
  with assms(2) show ?thesis by simp
qed

lemma lead_off:
  "192 \<le> n \<Longrightarrow> n < 224 \<Longrightarrow> 192 + n mod (32 :: nat) = n"
  "224 \<le> n \<Longrightarrow> n < 240 \<Longrightarrow> 224 + n mod (16 :: nat) = n"
  "240 \<le> n \<Longrightarrow> n < 248 \<Longrightarrow> 240 + n mod (8 :: nat) = n"
  "128 \<le> n \<Longrightarrow> n < 192 \<Longrightarrow> 128 + n mod (64 :: nat) = n"
  using off_mod [of 32 6 n] off_mod [of 16 14 n] off_mod [of 8 30 n] off_mod [of 64 2 n] by simp_all

lemma base64_digits:
  fixes a b c d :: nat
  assumes "b < 64" "c < 64" "d < 64"
  shows "(a * 64 + b) div 64 = a" "(a * 64 + b) mod 64 = b"
    "((a * 64 + b) * 64 + c) div 4096 = a"
    "(((a * 64 + b) * 64 + c) * 64 + d) div 262144 = a"
    "(((a * 64 + b) * 64 + c) * 64 + d) div 4096 = a * 64 + b"
proof -
  have d: "(x * 64 + y) div 64 = x" if "y < 64" for x y :: nat using that by simp
  show "(a * 64 + b) div 64 = a" "(a * 64 + b) mod 64 = b" using assms by simp_all
  have "n div 4096 = n div 64 div (64 :: nat)" "n div 262144 = n div 64 div 64 div (64 :: nat)" for n
    by (simp_all add: div_mult2_eq [symmetric])
  then show "((a * 64 + b) * 64 + c) div 4096 = a" "(((a * 64 + b) * 64 + c) * 64 + d) div 262144 = a"
    "(((a * 64 + b) * 64 + c) * 64 + d) div 4096 = a * 64 + b"
    using assms d by metis+
qed

lemma multi_enc:
  assumes l: "utf8_lead c = Some (cp, k, mn)" and n: "length cs = k" and a: "list_all contb cs"
    and v: "v = cont_val (unat cp) cs" "unat mn \<le> v"
  shows "utf8_enc v = c # cs"
proof -
  have w: "of_nat x = b" if "x = unat b" for x and b :: byte using that by simp
  have off: "128 + unat b mod 64 = unat b" if "contb b" for b using that lead_off(4) by blast
  have m: "unat b mod 64 < 64" for b :: byte by simp
  from l consider "k = 1" "unat cp < 32" "192 + unat cp = unat c" "unat mn = 128"
    | "k = 2" "unat cp < 16" "224 + unat cp = unat c" "unat mn = 2048"
    | "k = 3" "unat cp < 8" "240 + unat cp = unat c" "unat mn = 65536"
    using lead_off(1,2,3) [of "unat c"] unfolding lead_some by (elim disjE conjE) (simp_all add: payload_bits)
  then show ?thesis
  proof cases
    case 1
    then obtain c1 where cs: "cs = [c1]" using n by (auto simp: length_Suc_conv)
    have ve: "v = unat cp * 64 + unat c1 mod 64" using v(1) cs by (simp add: cont_val_def)
    have "v < 2048" using 1(2) m [of c1] unfolding ve by linarith
    then have "utf8_enc v = map of_nat [192 + v div 64, 128 + v mod 64]"
      using v(2) 1 by (simp add: utf8_enc_def)
    with w off a cs 1(3) show ?thesis unfolding ve base64_digits(1,2) [OF m m m] by simp
  next
    case 2
    then obtain c1 c2 where cs: "cs = [c1, c2]" using n by (auto simp: length_Suc_conv numeral_2_eq_2)
    have ve: "v = (unat cp * 64 + unat c1 mod 64) * 64 + unat c2 mod 64"
      using v(1) cs by (simp add: cont_val_def)
    have lt: "(a * 64 + b) * 64 + d < 65536" if "a < 16" "b < 64" "d < 64" for a b d :: nat using that by simp
    have "v < 65536" unfolding ve by (rule lt [OF 2(2) m m])
    then have "utf8_enc v = map of_nat [224 + v div 4096, 128 + v div 64 mod 64, 128 + v mod 64]"
      using v(2) 2 by (simp add: utf8_enc_def)
    with w off a cs 2(3) show ?thesis unfolding ve base64_digits [OF m m m] by simp
  next
    case 3
    then obtain c1 c2 c3 where cs: "cs = [c1, c2, c3]"
      using n by (auto simp: length_Suc_conv numeral_3_eq_3)
    have ve: "v = ((unat cp * 64 + unat c1 mod 64) * 64 + unat c2 mod 64) * 64 + unat c3 mod 64"
      using v(1) cs by (simp add: cont_val_def)
    have "utf8_enc v = map of_nat [240 + v div 262144, 128 + v div 4096 mod 64, 128 + v div 64 mod 64, 128 + v mod 64]"
      using v(2) 3 by (simp add: utf8_enc_def)
    with w off a cs 3(3) show ?thesis unfolding ve base64_digits [OF m m m] by simp
  qed
qed

lemma loop_enc_multi:
  assumes "scalar v" "utf8_enc v = c # cs" "utf8_lead c = Some (cp, length cs, mn)"
    and "list_all contb cs" "cont_val (unat cp) cs = v" "unat mn \<le> v"
  shows "utf8_loop (utf8_enc v @ r) = utf8_loop r"
  using assms loop_multi [of c cp "length cs" mn "cs @ r"] lead_bound [of c cp "length cs" mn] by simp

lemma unat_byte: "n < 256 \<Longrightarrow> unat (of_nat n :: byte) = n"
  by (simp add: unat_of_nat)

lemma loop_enc:
  assumes "scalar v"
  shows "utf8_loop (utf8_enc v @ r) = utf8_loop r"
proof -
  have m: "128 + n mod 64 < (256 :: nat)" for n by (rule order_less_trans [of _ "128 + 64"]) simp_all
  have mm: "(128 + n mod 64) mod 64 = n mod (64 :: nat)" for n using mod_mult_self3 [of 2 64 "n mod 64"] by simp
  have c: "contb (of_nat (128 + n mod 64))" "unat (of_nat (128 + n mod 64) :: byte) mod 64 = n mod 64" for n
    unfolding unat_byte [OF m] by (simp_all add: mm)
  consider "v < 0x80" | "0x80 \<le> v" "v < 0x800" | "0x800 \<le> v" "v < 0x10000" | "0x10000 \<le> v" by linarith
  then show ?thesis
  proof cases
    case 1
    then show ?thesis by (simp add: utf8_enc_def word_less_nat_alt unat_of_nat)
  next
    case 2
    let ?c = "of_nat (192 + v div 64) :: byte"
    have d: "v div 64 < 32" using 2 by (simp add: less_mult_imp_div_less)
    then have u: "unat ?c = 192 + v div 64" by (intro unat_byte) simp
    show ?thesis
    proof (rule loop_enc_multi [OF assms])
      show "utf8_enc v = ?c # map of_nat [128 + v mod 64]" using 2 by (simp add: utf8_enc_def)
      show "utf8_lead ?c = Some (ucast (?c AND 0x1f), length (map of_nat [128 + v mod 64] :: byte list), 0x80)"
        unfolding lead_some u using d by simp
      show "cont_val (unat (ucast (?c AND 0x1f) :: u32)) (map of_nat [128 + v mod 64]) = v"
        unfolding payload_bits u using d c(2) [of v] lead_off(1) [of "192 + v div 64"] by (simp add: cont_val_def)
    qed (use 2 c(1) [of v] in simp_all)
  next
    case 3
    let ?c = "of_nat (224 + v div 4096) :: byte" and ?cs = "map of_nat [128 + v div 64 mod 64, 128 + v mod 64] :: byte list"
    have d: "v div 4096 < 16" using 3 by (simp add: less_mult_imp_div_less)
    then have u: "unat ?c = 224 + v div 4096" by (intro unat_byte) simp
    have "v div 4096 = v div 64 div 64" by (simp add: div_mult2_eq [symmetric])
    then have e: "(v div 4096 * 64 + v div 64 mod 64) * 64 + v mod 64 = v" by simp
    show ?thesis
    proof (rule loop_enc_multi [OF assms])
      show "utf8_enc v = ?c # ?cs" using 3 by (simp add: utf8_enc_def)
      show "utf8_lead ?c = Some (ucast (?c AND 0x0f), length ?cs, 0x800)"
        unfolding lead_some u using d by simp
      show "cont_val (unat (ucast (?c AND 0x0f) :: u32)) ?cs = v"
        unfolding payload_bits u using d c(2) [of v] c(2) [of "v div 64"] lead_off(2) [of "224 + v div 4096"] e
        by (simp add: cont_val_def)
    qed (use 3 c(1) [of v] c(1) [of "v div 64"] in simp_all)
  next
    case 4
    let ?c = "of_nat (240 + v div 262144) :: byte"
      and ?cs = "map of_nat [128 + v div 4096 mod 64, 128 + v div 64 mod 64, 128 + v mod 64] :: byte list"
    have "v \<le> 0x10ffff" using assms by (auto simp: scalar_def)
    then have d: "v div 262144 < 8" by (simp add: less_mult_imp_div_less)
    then have u: "unat ?c = 240 + v div 262144" by (intro unat_byte) simp
    have "v div 4096 = v div 64 div 64" "v div 262144 = v div 64 div 64 div 64" by (simp_all add: div_mult2_eq [symmetric])
    then have e: "((v div 262144 * 64 + v div 4096 mod 64) * 64 + v div 64 mod 64) * 64 + v mod 64 = v" by simp
    show ?thesis
    proof (rule loop_enc_multi [OF assms])
      show "utf8_enc v = ?c # ?cs" using 4 by (simp add: utf8_enc_def)
      show "utf8_lead ?c = Some (ucast (?c AND 0x07), length ?cs, 0x10000)"
        unfolding lead_some u using d by simp
      show "cont_val (unat (ucast (?c AND 0x07) :: u32)) ?cs = v"
        unfolding payload_bits u using d c(2) [of v] c(2) [of "v div 64"] c(2) [of "v div 4096"]
          lead_off(3) [of "240 + v div 262144"] e
        by (simp add: cont_val_def)
    qed (use 4 c(1) [of v] c(1) [of "v div 64"] c(1) [of "v div 4096"] in simp_all)
  qed
qed

lemma utf8_loop_sound:
  "utf8_loop bs \<Longrightarrow> \<exists>cps. list_all scalar cps \<and> bs = concat (map utf8_enc cps)"
proof (induction bs rule: length_induct)
  case (1 bs)
  show ?case
  proof (cases bs)
    case Nil
    then show ?thesis by (intro exI [of _ "[]"]) simp
  next
    case (Cons c r)
    have step: ?thesis if "c # r = utf8_enc v @ r'" "scalar v" "utf8_loop r'" "length r' < length bs" for v r'
    proof -
      from 1(1) that(3,4) obtain cps where "list_all scalar cps" "r' = concat (map utf8_enc cps)" by blast
      with that Cons show ?thesis by (intro exI [of _ "v # cps"]) simp
    qed
    show ?thesis
    proof (cases "c < 0x80")
      case True
      then have "unat c < 128" by (simp add: word_less_nat_alt)
      with Cons 1(2) True show ?thesis
        by (intro step [of "unat c" r]) (simp_all add: utf8_enc_def scalar_def)
    next
      case False
      with Cons 1(2) obtain cp k mn where l: "utf8_lead c = Some (cp, k, mn)"
        by (auto split: option.splits)
      note m = loop_multi [OF l False, of r] lead_bound [OF l]
      with Cons 1(2) have h: "k \<le> length r" "list_all contb (take k r)" "unat mn \<le> cont_val (unat cp) (take k r)"
        "scalar (cont_val (unat cp) (take k r))" "utf8_loop (drop k r)" by auto
      have "utf8_enc (cont_val (unat cp) (take k r)) = c # take k r"
        using multi_enc [OF l _ h(2) refl h(3)] h(1) by simp
      then show ?thesis using h Cons by (intro step [of "cont_val (unat cp) (take k r)" "drop k r"]) simp_all
    qed
  qed
qed

lemma utf8_loop_concat: "list_all scalar cps \<Longrightarrow> utf8_loop (concat (map utf8_enc cps))"
  by (induction cps) (simp_all add: loop_enc)

end
