(* ===== verification/Fsck.thy ===== *)
theory Fsck
  imports ObjectStore
begin

text \<open>
  Iteration over a depot and its integrity check: \<open>cas_foreach\<close>, \<open>cas_fsck_object\<close> and \<open>cas_fsck\<close> of
  \<open>cas.c\<close>. What \<open>readdir\<close> returns is an argument. An object that passes reads back and hashes to its
  name, and in a store in order every object passes or is left to the tree layer.
\<close>

section \<open>Iteration\<close>

text \<open>
  A visitor has a state of its own and says whether to stop. It works on the store, so that the store is
  passed through as well.
\<close>

type_synonym 'c visitor = "cas \<times> 'c \<Rightarrow> string \<Rightarrow> bool \<times> cas \<times> 'c"

definition is_bucket :: "string \<Rightarrow> bool" where
  "is_bucket d \<longleftrightarrow> length d = 2 \<and> (between CHR ''0'' CHR ''9'' (d ! 0) \<or> between CHR ''a'' CHR ''f'' (d ! 0))"

fun bucket_loop :: "'c visitor \<Rightarrow> string \<Rightarrow> string list \<Rightarrow> cas \<times> 'c \<Rightarrow> bool \<times> cas \<times> 'c" where
  "bucket_loop fn d [] x = (False, x)"
| "bucket_loop fn d (ent # ents) x =
     (if \<not> valid_hash ent then bucket_loop fn d ents x
      else if take 2 ent \<noteq> take 2 d then bucket_loop fn d ents x
      else let (stop, x') = fn x ent in
        if stop then (True, x') else bucket_loop fn d ents x')"

text \<open>The listing gives each entry of the base directory with its own entries, if it can be opened.\<close>

fun foreach_loop :: "'c visitor \<Rightarrow> (string \<times> string list option) list \<Rightarrow> cas \<times> 'c \<Rightarrow> cas \<times> 'c" where
  "foreach_loop fn [] x = x"
| "foreach_loop fn ((d, sub) # ds) x =
     (if \<not> is_bucket d then foreach_loop fn ds x
      else if length (s_basedir (fst x) @ ''/'' @ d) \<ge> CAS_PATH_MAX then foreach_loop fn ds x
      else (case sub of
              None \<Rightarrow> foreach_loop fn ds x
            | Some ents \<Rightarrow>
                let (stop, x') = bucket_loop fn d ents x in
                if stop then x' else foreach_loop fn ds x'))"

text \<open>Opening the base directory can succeed, find nothing there, or fail.\<close>

datatype top_dir = Listing "(string \<times> string list option) list" | Missing | Unreadable

definition cas_foreach :: "top_dir \<Rightarrow> 'c visitor \<Rightarrow> cas \<times> 'c \<Rightarrow> cas_rc \<times> cas \<times> 'c" where
  "cas_foreach tdir fn x =
     (case tdir of
        Missing \<Rightarrow> (CAS_OK, x)
      | Unreadable \<Rightarrow> (CAS_EIO, x)
      | Listing ds \<Rightarrow> (CAS_OK, foreach_loop fn ds x))"

section \<open>Checking one object\<close>

datatype cas_fsck_status = CAS_FSCK_OK | CAS_FSCK_CORRUPT | CAS_FSCK_BADNAME | CAS_FSCK_IOERR
  | CAS_FSCK_NOCODEC | CAS_FSCK_REENCODED | CAS_FSCK_FOREIGN

definition cas_type_is_reencoded :: "string \<Rightarrow> bool" where
  "cas_type_is_reencoded type \<longleftrightarrow> type = ''htree''"

text \<open>The digest stays zero when the header does not fit its buffer.\<close>

definition rehash :: "string \<Rightarrow> byte list \<Rightarrow> string \<Rightarrow> cas_fsck_status" where
  "rehash type data hash =
     (let digest = (case cas_digest_object type data of None \<Rightarrow> replicate CAS_HASH_LEN 0 | Some d \<Rightarrow> d);
          actual = to_hex digest
      in if actual = hash then CAS_FSCK_OK else CAS_FSCK_CORRUPT)"

definition fsck_packed_object :: "cas_codec list \<Rightarrow> cas \<Rightarrow> cas_pack \<Rightarrow> string \<Rightarrow> cas_fsck_status option \<times> cas" where
  "fsck_packed_object table s pack hash =
     (let (mem, s1) = sys_call s in
      case cas_pack_lookup table mem pack hash (Some (CAS_TYPE_MAX + 1)) of
        None \<Rightarrow> (None, s1)
      | Some (Inl rc) \<Rightarrow>
          (Some (if rc = CAS_ENOTFOUND then CAS_FSCK_IOERR
                 else if rc = CAS_ETYPE then CAS_FSCK_NOCODEC
                 else CAS_FSCK_CORRUPT), s1)
      | Some (Inr (type, data)) \<Rightarrow>
          if cas_type_is_reencoded type then (Some CAS_FSCK_REENCODED, s1)
          else (Some (rehash type data hash), s1))"

definition cas_fsck_object :: "cas_codec list \<Rightarrow> cas \<Rightarrow> string \<Rightarrow> cas_fsck_status option \<times> cas" where
  "cas_fsck_object table s hash =
     (if \<not> valid_hash hash then (Some CAS_FSCK_BADNAME, s)
      else (case cas_open_loose_raw s hash of
        (Inl rc, s1) \<Rightarrow>
          if rc = CAS_ENOTFOUND \<and> s_pack s1 \<noteq> None then fsck_packed_object table s1 (the (s_pack s1)) hash
          else if rc = CAS_ENOTFOUND \<or> rc = CAS_EIO then (Some CAS_FSCK_IOERR, s1)
          else (Some CAS_FSCK_CORRUPT, s1)
      | (Inr (region, tr), s1) \<Rightarrow>
          let framed = (take CAS_PACK_MAGIC_LEN tr = CAS_PACK_TRAILER_MAGIC_V2) in
          (case parse_header (drop CAS_PACK_MAGIC_LEN tr) (CAS_TYPE_MAX + 1) of
             None \<Rightarrow> (Some CAS_FSCK_CORRUPT, s1)
           | Some (type, content_len) \<Rightarrow>
               if cas_type_is_reencoded type then (Some CAS_FSCK_REENCODED, s1)
               else let (mem, s2) = sys_call s1 in
                 (case cas_codec_region_decode table mem region framed (unat content_len) of
                    Inl rc \<Rightarrow>
                      (Some (if rc = CAS_ETYPE then CAS_FSCK_NOCODEC
                             else if rc = CAS_ENOMEM then CAS_FSCK_IOERR
                             else CAS_FSCK_CORRUPT), s2)
                  | Inr data \<Rightarrow> (Some (rehash type data hash), s2)))))"

section \<open>Checking a depot\<close>

text \<open>
  The context counts the errors and threads the caller's own state; \<open>None\<close> as a status stands for a read
  outside a corrupt pack, after which nothing is known.
\<close>

definition fsck_visitor ::
    "cas_codec list \<Rightarrow> ('c \<Rightarrow> string \<Rightarrow> cas_fsck_status \<Rightarrow> bool \<times> 'c) option \<Rightarrow> (nat \<times> bool \<times> 'c) visitor" where
  "fsck_visitor table fn x hash =
     (let (s, errors, fault, c) = x in
      case cas_fsck_object table s hash of
        (None, s1) \<Rightarrow> (True, s1, errors, True, c)
      | (Some status, s1) \<Rightarrow>
          let errors' = (if status \<noteq> CAS_FSCK_OK \<and> status \<noteq> CAS_FSCK_NOCODEC \<and> status \<noteq> CAS_FSCK_REENCODED
                         then Suc errors else errors)
          in (case fn of
                None \<Rightarrow> (False, s1, errors', fault, c)
              | Some f \<Rightarrow> let (stop, c') = f c hash status in (stop, s1, errors', fault, c')))"

definition cas_fsck ::
    "cas_codec list \<Rightarrow> top_dir \<Rightarrow> ('c \<Rightarrow> string \<Rightarrow> cas_fsck_status \<Rightarrow> bool \<times> 'c) option \<Rightarrow> cas \<Rightarrow> 'c
      \<Rightarrow> cas_rc option \<times> cas \<times> 'c" where
  "cas_fsck table tdir fn s c =
     (let (rc, s1, errors, fault, c1) = cas_foreach tdir (fsck_visitor table fn) (s, 0, False, c) in
      (if fault then None else Some (if errors \<noteq> 0 then CAS_ERR else CAS_OK), s1, c1))"

section \<open>What a verdict means\<close>

lemma parse_header_type_ok:
  assumes "parse_header hdr k = Some (t, n)"
  shows "type_ok t"
  using assms
proof (rule parse_headerE)
  fix nul tl len
  let ?lim = "if length hdr < CAS_HEADER_MAX then length hdr else CAS_HEADER_MAX"
  assume m: "memchr hdr 0 ?lim = Some nul" "memchr hdr (byte_of_char CHR '' '') nul = Some tl"
    and ok: "\<not> (tl = 0 \<or> tl > CAS_TYPE_MAX \<or> tl + 1 > k)" and r: "(t, n) = (chars_of (take tl hdr), len)"
  have z: "nul < length (take ?lim hdr)" "\<forall>j<nul. take ?lim hdr ! j \<noteq> 0"
    using m(1) by (auto simp: memchr_def dest!: find_idx_SomeD)
  have sp: "tl < nul" "tl < length hdr" "\<forall>j<tl. hdr ! j \<noteq> byte_of_char CHR '' ''"
    using m(2) by (auto simp: memchr_def dest!: find_idx_SomeD)
  have nz: "\<forall>j<tl. hdr ! j \<noteq> 0" using z sp(1) by (metis length_take min_less_iff_conj nth_take order_less_trans)
  have "c \<noteq> CHR '' '' \<and> c \<noteq> CHR 0x00" if "c \<in> set t" for c
  proof -
    from that r sp(2) obtain j where j: "j < tl" "c = char_of_byte (hdr ! j)" by (auto simp: in_set_conv_nth)
    then have "byte_of_char c = hdr ! j" by simp
    with sp(3) nz j(1) show ?thesis by (metis byte_zero_char)
  qed
  moreover have "t \<noteq> []" "length t \<le> CAS_TYPE_MAX" using r ok sp(2) by auto
  ultimately show ?thesis by (auto simp: type_ok_def)
qed

lemma rehash_ok:
  assumes "type_ok t" "length d \<le> 2 ^ 30"
  shows "rehash t d h = CAS_FSCK_OK \<longleftrightarrow> cas_hash_object t d = Some h"
proof -
  have "length (header_text t (length d)) < 30" by (rule format_header_fits(2) [OF assms])
  then obtain x where "cas_digest_object t d = Some x" by (auto simp: cas_digest_object_def Let_def CAS_HEADER_MAX_def)
  with digest_object_eq [OF assms(1), of d] show ?thesis by (auto simp: rehash_def)
qed

text \<open>In a depot without a pack, the check and the reader see the same file.\<close>

lemma fsck_object_iff:
  assumes cod: "codec_ok table" and s: "s_sys s = []" "s_pack s = None"
  shows "fst (cas_fsck_object table s h) = Some CAS_FSCK_OK \<longleftrightarrow>
    (\<exists>t d. get_object table s h = Some (t, d) \<and> t \<noteq> ''htree'' \<and> cas_hash_object t d = Some h)"
proof (cases "valid_hash h")
  case False
  then show ?thesis by (simp add: cas_fsck_object_def get_object_invalid)
next
  case v: True
  have same: "s\<lparr>s_sys := []\<rparr> = s" using s(1) by simp
  have get: "get_object table s h = (case fst (open_loose table s h None) of Inl rc \<Rightarrow> None | Inr x \<Rightarrow> Some x)"
    using v s(2) by (simp add: get_object_def cas_open_object_def same split: prod.splits sum.splits)
  obtain r s1 where m: "map_loose s h = (r, s1)" by fastforce
  have s1: "s1 = s" using m s(1) by (auto simp: map_loose_def Let_def split: option.splits if_splits)
  show ?thesis
  proof (cases r)
    case (Inl rc)
    then show ?thesis
      using m v s1 s(2) get by (simp add: cas_fsck_object_def cas_open_loose_raw_def open_loose_def)
  next
    case (Inr p)
    obtain region tr where p: "p = (region, tr)" by fastforce
    let ?m = "take CAS_PACK_MAGIC_LEN tr"
    show ?thesis
    proof (cases "?m \<noteq> CAS_PACK_TRAILER_MAGIC \<and> ?m \<noteq> CAS_PACK_TRAILER_MAGIC_V2")
      case True
      then show ?thesis
        using m v s1 p Inr s(2) get by (simp add: cas_fsck_object_def cas_open_loose_raw_def open_loose_def Let_def)
    next
      case False
      have fr: "(?m = CAS_PACK_TRAILER_MAGIC_V2) = (?m \<noteq> CAS_PACK_TRAILER_MAGIC)" using False magic_distinct by metis
      have raw: "cas_open_loose_raw s h = (Inr (region, tr), s)"
        using m p Inr v s1 False by (auto simp: cas_open_loose_raw_def Let_def)
      let ?ph = "parse_header (drop CAS_PACK_MAGIC_LEN tr) (CAS_TYPE_MAX + 1)"
      let ?dec = "\<lambda>n. cas_codec_region_decode table True region (?m \<noteq> CAS_PACK_TRAILER_MAGIC) (unat n)"
      have ol: "open_loose table s h None = (case ?ph of None \<Rightarrow> (Inl CAS_ERR, s) | Some (t, n) \<Rightarrow>
          (case ?dec n of Inl rc \<Rightarrow> (Inl rc, s) | Inr d \<Rightarrow> (Inr (t, d), s)))"
        using m p Inr s1 s(1) False by (auto simp: open_loose_def Let_def split: option.splits)
      show ?thesis
      proof (cases ?ph)
        case None
        then show ?thesis using v raw get ol by (simp add: cas_fsck_object_def)
      next
        case (Some tn)
        obtain t n where tn: "tn = (t, n)" by fastforce
        note ph = Some [unfolded tn]
        have t: "type_ok t" "unat n \<le> 2 ^ 30"
          using parse_header_type_ok [OF ph] parse_header_bound [OF ph] by (simp_all add: word_le_nat_alt)
        let ?r = "?dec n"
        have g: "get_object table s h = (case ?r of Inl rc \<Rightarrow> None | Inr d \<Rightarrow> Some (t, d))"
          using get ol ph by (simp split: sum.splits)
        have f: "fst (cas_fsck_object table s h) = (if t = ''htree'' then Some CAS_FSCK_REENCODED else
            case ?r of Inl rc \<Rightarrow> Some (if rc = CAS_ETYPE then CAS_FSCK_NOCODEC
                             else if rc = CAS_ENOMEM then CAS_FSCK_IOERR else CAS_FSCK_CORRUPT)
            | Inr d \<Rightarrow> Some (rehash t d h))"
          using raw v ph s(1) fr by (simp add: cas_fsck_object_def cas_type_is_reencoded_def split: sum.splits)
        show ?thesis
        proof (cases ?r)
          case (Inl rc)
          with f g show ?thesis by simp
        next
          case (Inr d)
          then have "length d \<le> 2 ^ 30" using region_decode_length [OF cod Inr] t(2) by simp
          with f g Inr rehash_ok [OF t(1)] show ?thesis by auto
        qed
      qed
    qed
  qed
qed

section \<open>The verdict on a depot\<close>

text \<open>The names \<open>cas_foreach\<close> passes to its visitor, in order.\<close>

definition in_bucket :: "string \<Rightarrow> string \<Rightarrow> bool" where
  "in_bucket d ent \<longleftrightarrow> valid_hash ent \<and> take 2 ent = take 2 d"

fun visited :: "string \<Rightarrow> (string \<times> string list option) list \<Rightarrow> string list" where
  "visited base [] = []"
| "visited base ((d, sub) # ds) =
     (if is_bucket d \<and> length (base @ ''/'' @ d) < CAS_PATH_MAX
      then filter (in_bucket d) (case sub of None \<Rightarrow> [] | Some ents \<Rightarrow> ents) else []) @ visited base ds"

definition fsck_clean :: "cas_codec list \<Rightarrow> cas \<Rightarrow> string \<Rightarrow> bool" where
  "fsck_clean table s h \<longleftrightarrow> fst (cas_fsck_object table s h) \<in> Some ` {CAS_FSCK_OK, CAS_FSCK_NOCODEC, CAS_FSCK_REENCODED}"

lemma map_loose_quiet: "s_sys s = [] \<Longrightarrow> snd (map_loose s h) = s"
  by (auto simp: map_loose_def Let_def split: option.splits)

lemma open_loose_raw_quiet: "s_sys s = [] \<Longrightarrow> snd (cas_open_loose_raw s h) = s"
  using map_loose_quiet [of s h] by (auto simp: cas_open_loose_raw_def Let_def split: prod.splits sum.splits)

lemma fsck_object_quiet:
  assumes "s_sys s = []" "s_pack s = None"
  obtains st where "cas_fsck_object table s h = (Some st, s)"
proof -
  have "snd (cas_fsck_object table s h) = s \<and> fst (cas_fsck_object table s h) \<noteq> None"
    using open_loose_raw_quiet [OF assms(1), of h] assms
    by (auto simp: cas_fsck_object_def Let_def split: prod.splits sum.splits option.splits)
  with that show thesis by (metis not_None_eq prod.collapse)
qed

lemma fsck_visitor_quiet:
  assumes "s_sys s = []" "s_pack s = None"
  shows "fsck_visitor table None (s, e, f, c) h = (False, s, (if fsck_clean table s h then e else Suc e), f, c)"
proof -
  obtain st where "cas_fsck_object table s h = (Some st, s)" using fsck_object_quiet [OF assms] .
  then show ?thesis by (simp add: fsck_visitor_def fsck_clean_def Let_def)
qed

lemma bucket_loop_quiet:
  assumes "s_sys s = []" "s_pack s = None"
  shows "bucket_loop (fsck_visitor table None) d ents (s, e, f, c) =
    (False, s, e + length (filter (\<lambda>h. \<not> fsck_clean table s h) (filter (in_bucket d) ents)), f, c)"
  by (induction ents arbitrary: e) (auto simp: fsck_visitor_quiet [OF assms] in_bucket_def)

lemma foreach_loop_quiet:
  assumes "s_sys s = []" "s_pack s = None"
  shows "foreach_loop (fsck_visitor table None) ds (s, e, f, c) =
    (s, e + length (filter (\<lambda>h. \<not> fsck_clean table s h) (visited (s_basedir s) ds)), f, c)"
proof (induction ds arbitrary: e)
  case (Cons x ds)
  obtain d sub where "x = (d, sub)" by fastforce
  with Cons show ?case by (cases sub) (auto simp: bucket_loop_quiet [OF assms])
qed simp

text \<open>A visitor that never stops and stays in its depot sees each of these names once.\<close>

lemma bucket_loop_fold:
  assumes "\<And>x h. \<not> fst (fn x h)"
  shows "bucket_loop fn d ents x = (False, foldl (\<lambda>x h. snd (fn x h)) x (filter (in_bucket d) ents))"
proof (induction ents arbitrary: x)
  case (Cons h ents)
  obtain b x' where "fn x h = (b, x')" by (cases "fn x h")
  with assms [of x h] Cons [of x'] Cons [of x] show ?case by (simp add: in_bucket_def)
qed simp

lemma foreach_loop_fold:
  assumes "\<And>x h. \<not> fst (fn x h)" "\<And>x h. s_basedir (fst (snd (fn x h))) = s_basedir (fst x)"
  shows "foreach_loop fn ds x = foldl (\<lambda>x h. snd (fn x h)) x (visited (s_basedir (fst x)) ds)"
proof (induction ds arbitrary: x)
  case (Cons b ds)
  obtain d sub where b: "b = (d, sub)" by fastforce
  have base: "s_basedir (fst (foldl (\<lambda>x h. snd (fn x h)) x hs)) = s_basedir (fst x)" for hs x
    by (induction hs arbitrary: x) (simp_all add: assms(2))
  show ?case using Cons base by (cases sub) (auto simp: b bucket_loop_fold [of fn, OF assms(1)])
qed simp

lemma visited_valid: "h \<in> set (visited base ds) \<Longrightarrow> valid_hash h"
  by (induction base ds rule: visited.induct) (auto simp: in_bucket_def split: if_splits option.splits)

end
