(* ===== verification/TreeLemmas.thy ===== *)
theory TreeLemmas
  imports Tree StoreProgress
begin

unbundle bit_operations_syntax

text \<open>
  Lemmas about directories in the store: what a stored directory is as an object, how it is read back in
  both formats, and what the checks at the trust boundary establish.
\<close>

section \<open>Opening objects\<close>

lemma pack_header_type: "pack_parse_header hdr k = Some (t, n) \<Longrightarrow> length t \<le> CAS_TYPE_MAX"
  by (auto simp: pack_parse_header_def Let_def split: option.splits if_splits)

lemma lookup_type_fits:
  "cas_pack_lookup table mem p h (Some (CAS_TYPE_MAX + 1)) = cas_pack_lookup table mem p h None"
  by (auto simp: cas_pack_lookup_def Let_def split: option.splits dest: pack_header_type)

lemma open_loose_type_fits: "open_loose table s h (Some (CAS_TYPE_MAX + 1)) = open_loose table s h None"
  by (auto simp: open_loose_def Let_def split: prod.splits sum.splits option.splits dest: parse_header_bound)

lemma open_object_type_fits:
  "cas_open_object table s h (Some (CAS_TYPE_MAX + 1)) = cas_open_object table s h None"
  unfolding cas_open_object_def lookup_type_fits open_loose_type_fits by simp

lemma get_object_open:
  assumes "get_object table s h = Some x" "s_sys s = []"
  shows "\<exists>s'. cas_open_object table s h (Some (CAS_TYPE_MAX + 1)) = (Some (Inr x), s')"
proof -
  have "s\<lparr>s_sys := []\<rparr> = s" using assms(2) by simp
  then have "fst (cas_open_object table s h None) = Some (Inr x)"
    using assms(1) by (auto simp: get_object_def split: option.splits sum.splits)
  then show ?thesis unfolding open_object_type_fits by (metis prod.collapse)
qed

lemma open_object_not_ok:
  assumes "codec_ok table" "cas_open_object table s h b = (Some (Inl rc), s')"
  shows "rc \<noteq> CAS_OK"
proof -
  have loose: "r \<noteq> CAS_OK" if "open_loose table s1 h b = (Inl r, s2)" for s1 r s2
    using that region_decode_errors [OF assms(1)]
    by (fastforce simp: open_loose_def map_loose_def Let_def split: option.splits if_splits prod.splits sum.splits)
  have pack: "r \<noteq> CAS_OK" if "cas_pack_lookup table m p h b = Some (Inl r)" for m p r
    using that region_decode_errors [OF assms(1)]
    by (fastforce simp: cas_pack_lookup_def Let_def split: option.splits if_splits prod.splits sum.splits)
  show ?thesis
    using assms(2) loose pack
    by (fastforce simp: cas_open_object_def split: option.splits if_splits prod.splits)
qed

section \<open>Sorting\<close>

lemma sorted_no_dup:
  "sorted (map (\<lambda>e. nkey (e_name e)) es) \<Longrightarrow> \<not> has_dup es \<Longrightarrow> names_sorted es"
proof (induction es rule: has_dup.induct)
  case (1 a b es)
  then have s: "names_sorted (b # es)" and ne: "e_name a \<noteq> e_name b" and le: "nkey (e_name a) \<le> nkey (e_name b)"
    by (simp_all add: name_cmp_sign)
  then have "nkey (e_name a) < nkey (e_name b)" by (simp add: order_le_less)
  with s show ?case by (auto simp: names_sorted_def intro: less_trans)
qed (simp_all add: names_sorted_def)

lemma names_sorted_no_dup: "names_sorted es \<Longrightarrow> \<not> has_dup es"
  by (induction es rule: has_dup.induct) (auto simp: names_sorted_def name_cmp_sign)

definition sorted_entries :: "cas_tree_entry list \<Rightarrow> cas_tree_entry list" where
  "sorted_entries es = (if length es > 1 then sort_entries es else es)"

lemma sorted_entries_sort: "sorted_entries es = sort_entries es"
  by (cases es rule: has_dup.cases) (simp_all add: sorted_entries_def sort_entries_def)

lemma sorted_entries_names: "\<not> has_dup (sorted_entries es) \<Longrightarrow> names_sorted (sorted_entries es)"
  by (intro sorted_no_dup) (simp_all add: sorted_entries_sort sort_entries_def)

lemma set_sorted_entries [simp]: "set (sorted_entries es) = set es" "length (sorted_entries es) = length es"
  by (simp_all add: sorted_entries_sort sort_entries_def)

lemma sorted_entries_id:
  assumes "names_sorted es"
  shows "sorted_entries es = es"
proof -
  have "sorted (map (\<lambda>e. nkey (e_name e)) es)"
    using assms by (induction es) (auto simp: names_sorted_def intro: less_imp_le)
  then show ?thesis by (simp add: sorted_entries_sort sort_entries_def sort_key_id_if_sorted)
qed

section \<open>Directory objects\<close>

definition dir_text :: "cas_tree_entry list \<Rightarrow> byte list" where
  "dir_text es = bytes_of (CHR ''%'' # concat (map entry_line es))"

definition dir_object :: "string \<Rightarrow> byte list \<Rightarrow> cas_tree_entry list \<Rightarrow> bool" where
  "dir_object t d es \<longleftrightarrow> names_sorted es \<and>
     (t = ''tree'' \<and> list_all entry_ok es \<and> d = dir_text es \<or>
      t = ''htree'' \<and> list_all entry_canon es \<and> htree_size es < 2 ^ 32 \<and> (\<exists>junk. htree_build True junk es = Some (Some d)))"

lemma tree_text_load_text:
  assumes "list_all entry_ok es" "names_sorted es" "d_mem dir = []"
  shows "\<exists>dir'. tree_text_load dir (dir_text es) = Some (CAS_OK, dir') \<and> d_entries dir' = es"
  using load_loop_lines [of es "cas_tree_dir_init dir"] assms
  by (auto simp: tree_text_load_def dir_text_def Let_def cas_tree_dir_init_def)

lemma tree_text_lookup_text:
  assumes "list_all entry_ok es" "names_sorted es"
  shows "tree_text_lookup (dir_text es) name = Some (case find_entry_named es name of None \<Rightarrow> Inl CAS_ENOTFOUND | Some e \<Rightarrow> Inr e)"
  using lookup_loop_lines [of es None name] assms by (simp add: tree_text_lookup_def dir_text_def)

lemma htree_built:
  assumes "list_all entry_canon es" "names_sorted es" "htree_size es < 2 ^ 32" "htree_build True junk es = Some (Some d)"
  shows "d_mem dir = [] \<Longrightarrow> \<exists>dir'. htree_parse_dir dir d = Some (CAS_OK, dir') \<and> d_entries dir' = es"
    and "htree_lookup_entry d name = Some (case find_entry_named es name of None \<Rightarrow> Inl CAS_ENOTFOUND | Some e \<Rightarrow> Inr e)"
proof -
  have laid: "htree_laid d junk es" using build_laid [OF assms(1,3), of junk] assms(4) by auto
  have c: "dir_canon es" using assms by (simp add: dir_canon_def)
  show "d_mem dir = [] \<Longrightarrow> \<exists>dir'. htree_parse_dir dir d = Some (CAS_OK, dir') \<and> d_entries dir' = es"
    by (rule htree_parse_laid [OF laid c assms(3)])
  show "htree_lookup_entry d name = Some (case find_entry_named es name of None \<Rightarrow> Inl CAS_ENOTFOUND | Some e \<Rightarrow> Inr e)"
    by (rule htree_lookup_laid [OF laid c assms(3)])
qed

lemma dir_object_load:
  assumes "dir_object t d es" "get_object table (ct_store ct) h = Some (t, d)" "s_sys (ct_store ct) = []" "d_mem dir = []"
  shows "\<exists>dir' ct'. cas_tree_load table ct h dir = (Some (CAS_OK, dir'), ct') \<and> d_entries dir' = es"
proof -
  obtain s' where o: "cas_open_object table (ct_store ct) h (Some (CAS_TYPE_MAX + 1)) = (Some (Inr (t, d)), s')"
    using get_object_open [OF assms(2,3)] by blast
  from assms(1) show ?thesis
    unfolding dir_object_def using o tree_text_load_text [OF _ _ assms(4)] htree_built(1) [OF _ _ _ _ assms(4)]
    by (fastforce simp: cas_tree_load_def)
qed

lemma dir_object_lookup:
  assumes "dir_object t d es" "get_object table (ct_store ct) h = Some (t, d)" "s_sys (ct_store ct) = []"
  shows "fst (cas_tree_lookup table ct h name) = Some (case find_entry_named es name of None \<Rightarrow> Inl CAS_ENOTFOUND | Some e \<Rightarrow> Inr e)"
proof -
  obtain s' where o: "cas_open_object table (ct_store ct) h (Some (CAS_TYPE_MAX + 1)) = (Some (Inr (t, d)), s')"
    using get_object_open [OF assms(2,3)] by blast
  from assms(1) show ?thesis
    unfolding dir_object_def using o tree_text_lookup_text [of es name] htree_built(2) [of es _ d name]
    by (auto simp: cas_tree_lookup_def)
qed

section \<open>What a parsed object contains\<close>

lemma encode_canon: "length b = CAS_HASH_LEN \<Longrightarrow> hash_canon (cas_hex_encode b)"
  using hex_decode_encode [of b CAS_HASH_LEN]
  by (simp add: hash_canon_def cas_hex_encode_def CAS_HASH_LEN_def CAS_HASH_HEX_def)

lemma peek_length: "peek data off n = Some x \<Longrightarrow> length x = n"
  by (auto simp: peek_def split: if_splits)

lemma unpack_facts:
  assumes "peek data off n = Some body" "n = HTREE_ENTRY_DATA_LEN"
  shows "hash_canon (e_hash (htree_unpack_entry body key))" "CHR 0x00 \<notin> set (e_name (htree_unpack_entry body key))"
  using peek_length [OF assms(1)] assms(2)
  by (simp_all add: htree_unpack_entry_def c_str_no_nul encode_canon HTREE_ENTRY_DATA_LEN_def CAS_HASH_LEN_def)

lemma dir_canon_listing: "dir_canon es \<longleftrightarrow> listing_ok es \<and> list_all (\<lambda>e. hash_canon (e_hash e)) es"
  by (auto simp: dir_canon_def listing_ok_def entry_canon_def list_all_iff)

lemma records_loop_canon:
  "records_loop data rec_end dir pos = Some (CAS_OK, dir') \<Longrightarrow> dir_canon (d_entries dir) \<Longrightarrow> dir_canon (d_entries dir')"
proof (induction data rec_end dir pos rule: records_loop.induct)
  case (1 data rec_end dir pos)
  show ?case
  proof (cases "pos + 8 \<le> rec_end")
    case False
    then show ?thesis using 1(2,3) by (simp add: records_loop.simps)
  next
    case True
    note run = 1(2) [unfolded records_loop.simps [of data rec_end dir pos] if_P [OF True]]
    obtain kl where kl: "rd32 data pos = Some kl" using run by (cases "rd32 data pos") auto
    obtain dl where dl: "rd32 data (pos + 4) = Some dl" using run kl by (cases "rd32 data (pos + 4)") auto
    have g: "\<not> (unat dl \<noteq> HTREE_ENTRY_DATA_LEN \<or> kl = 0 \<or> unat kl > CAS_TREE_NAME_MAX \<or> pos + 8 + unat kl + unat dl > rec_end)"
      using run kl dl by (auto simp: Let_def split: if_splits)
    note run1 = run [unfolded kl dl bind.bind_lunit Let_def if_not_P [OF g]]
    obtain key where key: "peek data (pos + 8) (unat kl) = Some key" using run1 by (cases "peek data (pos + 8) (unat kl)") auto
    obtain body where body: "peek data (pos + 8 + unat kl) (unat dl) = Some body"
      using run1 key by (cases "peek data (pos + 8 + unat kl) (unat dl)") auto
    note run2 = run1 [unfolded key body bind.bind_lunit]
    have c: "\<not> (d_entries dir \<noteq> [] \<and> name_cmp (e_name (last (d_entries dir))) (e_name (htree_unpack_entry body key)) \<ge> 0)"
      using run2 by (auto split: if_splits)
    obtain dir1 where a: "cas_tree_dir_add dir (htree_unpack_entry body key) = (CAS_OK, dir1)"
      and l: "records_loop data rec_end dir1 (pos + 8 + (unat kl + unat dl)) = Some (CAS_OK, dir')"
      using run2 [unfolded if_not_P [OF c]] by (auto split: prod.splits if_splits)
    note k = key body
    let ?e = "htree_unpack_entry body key"
    have u: "hash_canon (e_hash ?e)" "CHR 0x00 \<notin> set (e_name ?e)" using unpack_facts [OF k(2)] g by auto
    from dir_add_name [OF a u(2)] have ok: "name_ok (e_name ?e)" and d: "d_entries dir1 = d_entries dir @ [?e]" by auto
    have "listing_ok (d_entries dir1)"
      unfolding d using c ok 1(3) by (intro listing_ok_snoc) (auto simp: dir_canon_listing)
    then have "dir_canon (d_entries dir1)" using 1(3) u(1) d by (simp add: dir_canon_listing)
    with 1(1) [OF True kl dl refl g k refl c a [symmetric] _ l] show ?thesis by simp
  qed
qed

lemma htree_parse_canon:
  assumes "htree_parse_dir dir data = Some (CAS_OK, dir')"
  shows "dir_canon (d_entries dir')"
proof -
  from assms have "\<exists>r :: u32. records_loop data (unat r) (cas_tree_dir_init dir) HTREE_HEADER_LEN = Some (CAS_OK, dir')"
    by (auto simp: htree_parse_dir_def Let_def bind_eq_Some_conv split: if_splits)
  then obtain r :: u32 where "records_loop data (unat r) (cas_tree_dir_init dir) HTREE_HEADER_LEN = Some (CAS_OK, dir')" ..
  from records_loop_canon [OF this] show ?thesis by (simp add: cas_tree_dir_init_def dir_canon_def names_sorted_def)
qed

section \<open>The length of a built object\<close>

lemma insert_slot_length: "insert_slot k slots x i = Some slots' \<Longrightarrow> length slots' = length slots"
  by (induction k arbitrary: i) (auto split: if_splits)

lemma fill_table_length: "fill_table b slots xs = Some slots' \<Longrightarrow> length slots' = length slots"
  by (induction b slots xs rule: fill_table.induct)
    (auto simp: bind_eq_Some_conv split: if_splits dest: insert_slot_length)

lemma build_tables_length:
  "build_tables xs tp bs = Some (hs, ts) \<Longrightarrow> length hs = 8 * length bs \<and> length ts = tab_off xs bs"
  by (induction bs arbitrary: tp hs ts)
    (auto simp: bind_eq_Some_conv tab_off_def length_concat_slots dest!: fill_table_length)

lemma htree_build_length:
  assumes "list_all entry_canon es" "htree_build True junk es = Some (Some d)"
  shows "length d = htree_size es"
proof -
  have R: "length (concat (map (htree_record junk) es)) = sum_list (map record_len es)"
    using assms(1) by (simp add: length_concat comp_def list_all_iff length_htree_record cong: map_cong)
  from assms(2) obtain hs ts where b: "build_tables (entry_slots es) (records_stop es) [0..<256] = Some (hs, ts)"
    and d: "d = hs @ concat (map (htree_record junk) es) @ ts @ store_le32 (adler32 (hs @ concat (map (htree_record junk) es) @ ts)) @ HTREE_MAGIC"
    by (auto simp: htree_build_def Let_def bind_eq_Some_conv entry_slots_def records_stop_def HTREE_NBUCKETS_def)
  from build_tables_length [OF b] show ?thesis
    unfolding d by (simp add: R tab_off_all htree_size_def htree_consts HTREE_MAGIC_def)
qed

section \<open>The checks\<close>

lemma htree_verify_sound:
  assumes "htree_verify mem mem1 mem2 junk data hash = Some CAS_FSCK_OK" "length data < 2 ^ 32"
  shows "\<exists>dir. htree_parse_dir (new_dir mem) data = Some (CAS_OK, dir) \<and> dir_object ''htree'' data (d_entries dir) \<and>
    dir_canon (d_entries dir) \<and> cas_hash_object ''tree'' (dir_text (d_entries dir)) = Some hash"
proof -
  from assms(1) obtain dir tx where p: "htree_parse_dir (new_dir mem) data = Some (CAS_OK, dir)"
    and t: "tree_serialize mem1 (sorted_entries (d_entries dir)) = Some tx"
    and h: "cas_hash_object ''tree'' (bytes_of tx) = Some hash"
    and b: "htree_build mem2 junk (sorted_entries (d_entries dir)) = Some (Some data)"
    by (auto simp: htree_verify_def sorted_entries_def Let_def split: option.splits prod.splits if_splits)
  let ?es = "d_entries dir"
  have c: "dir_canon ?es" by (rule htree_parse_canon [OF p])
  then have s: "sorted_entries ?es = ?es" by (intro sorted_entries_id) (simp add: dir_canon_def)
  have m: "mem1" "mem2" using t b by (auto simp: tree_serialize_def htree_build_def Let_def split: if_splits)
  have "tx = CHR ''%'' # concat (map entry_line ?es)" using t m(1) s by (simp add: tree_serialize_text)
  then have dt: "bytes_of tx = dir_text ?es" by (simp add: dir_text_def)
  have b': "htree_build True junk ?es = Some (Some data)" using b m(2) s by simp
  have "htree_size ?es < 2 ^ 32" using htree_build_length [OF _ b'] c assms(2) by (simp add: dir_canon_def)
  with c b' have "dir_object ''htree'' data ?es" by (auto simp: dir_object_def dir_canon_def)
  with p c h dt show ?thesis by auto
qed

lemma hash_bin_junk: "hash_canon (e_hash e) \<Longrightarrow> hash_bin junk e = hash_bin junk' e"
  using hash_bin_canon(2) [of e junk] hash_bin_canon(2) [of e junk'] to_hex_inj by metis

lemma htree_build_junk: "list_all entry_canon es \<Longrightarrow> htree_build mem junk es = htree_build mem junk' es"
proof -
  assume c: "list_all entry_canon es"
  have "map (htree_record junk) es = map (htree_record junk') es"
    using c hash_bin_junk [of _ junk junk'] by (auto simp: list_all_iff entry_canon_def htree_record_def entry_data_def)
  then show ?thesis unfolding htree_build_def by (simp only:)
qed

lemma htree_verify_complete:
  assumes "dir_object ''htree'' data es" "cas_hash_object ''tree'' (dir_text es) = Some hash"
  shows "htree_verify [] True True junk data hash = Some CAS_FSCK_OK"
proof -
  from assms(1) obtain junk' where c: "list_all entry_canon es" "names_sorted es" "htree_size es < 2 ^ 32"
    and b: "htree_build True junk' es = Some (Some data)" by (auto simp: dir_object_def)
  obtain dir' where p: "htree_parse_dir (new_dir []) data = Some (CAS_OK, dir')" "d_entries dir' = es"
    using htree_built(1) [OF c b, of "new_dir []"] by auto
  have s: "sort_entries es = es" using sorted_entries_id [OF c(2)] by (simp add: sorted_entries_sort)
  have "htree_build True junk es = Some (Some data)" using b htree_build_junk [OF c(1)] by metis
  with p s assms(2) show ?thesis
    unfolding htree_verify_def by (simp add: Let_def tree_serialize_text dir_text_def)
qed

lemma tree_text_verify_sound:
  assumes "tree_text_verify mem mem1 data = Some CAS_FSCK_OK"
  shows "\<exists>dir. tree_text_load (new_dir mem) data = Some (CAS_OK, dir) \<and> listing_ok (d_entries dir) \<and> data = dir_text (d_entries dir)"
proof -
  from assms obtain dir tx where p: "tree_text_load (new_dir mem) data = Some (CAS_OK, dir)"
    and t: "tree_serialize mem1 (d_entries dir) = Some tx" and e: "bytes_of tx = data"
    by (auto simp: tree_text_verify_def split: option.splits prod.splits if_splits)
  have "mem1" using t by (auto simp: tree_serialize_def Let_def split: if_splits)
  then have "data = dir_text (d_entries dir)" using t e by (simp add: tree_serialize_text dir_text_def)
  moreover from p have "load_loop (cas_tree_dir_init (new_dir mem)) (chars_of (drop 1 data)) = Some (CAS_OK, dir)"
    by (auto simp: tree_text_load_def Let_def split: if_splits)
  then have "listing_ok (d_entries dir)"
    by (rule load_loop_listing) (simp add: cas_tree_dir_init_def listing_ok_def names_sorted_def)
  ultimately show ?thesis using p by blast
qed

lemma tree_text_agree:
  assumes "tree_text_load dir0 data = Some (CAS_OK, dir)"
  shows "tree_text_lookup data name = Some (case find_entry_named (d_entries dir) name of None \<Rightarrow> Inl CAS_ENOTFOUND | Some e \<Rightarrow> Inr e)"
proof -
  from assms have g: "\<not> (length data < 1 \<or> data ! 0 \<noteq> byte_of_char CHR ''%'')"
    and l: "load_loop (cas_tree_dir_init dir0) (chars_of (drop 1 data)) = Some (CAS_OK, dir)"
    by (auto simp: tree_text_load_def Let_def split: if_splits)
  have e: "d_entries (cas_tree_dir_init dir0) = []" by (simp add: cas_tree_dir_init_def)
  from load_lookup_agree [OF l, of name] e show ?thesis
    using g by (auto simp: tree_text_lookup_def listing_ok_def names_sorted_def)
qed

lemma tree_text_verify_complete:
  assumes "list_all entry_ok es" "names_sorted es"
  shows "tree_text_verify [] True (dir_text es) = Some CAS_FSCK_OK"
  using tree_text_load_text [OF assms, of "new_dir []"]
  by (auto simp: tree_text_verify_def tree_serialize_text dir_text_def)

section \<open>Storing a directory\<close>

definition use_htree :: "cas_tree \<Rightarrow> bool" where
  "use_htree ct \<longleftrightarrow> ct_flags ct AND CAS_TREE_USE_HTREE \<noteq> 0"

text \<open>A directory whose encodings fit in a file the store reads back.\<close>

definition dir_fits :: "cas_tree_entry list \<Rightarrow> bool" where
  "dir_fits es \<longleftrightarrow> length (dir_text es) + CAS_PACK_BLOCK \<le> MAX_FILE \<and> htree_size es + CAS_PACK_BLOCK \<le> MAX_FILE"

lemma storable_dir:
  "dir_fits es \<Longrightarrow> storable ''tree'' (dir_text es)"
  "dir_fits es \<Longrightarrow> length d = htree_size es \<Longrightarrow> storable ''htree'' d"
  by (simp_all add: storable_def dir_fits_def type_ok_def CAS_TYPE_MAX_def)

lemma dir_fits_size: "dir_fits es \<Longrightarrow> htree_size es < 2 ^ 32"
  by (simp add: dir_fits_def MAX_FILE_def CAS_PACK_BLOCK_def)

lemma tree_store_cases:
  assumes run: "cas_tree_store mem1 mem2 junk ct dir = (Some (Inr h), ct', dir')" and c: "list_all entry_canon (d_entries dir)"
    and fit: "dir_fits (sorted_entries (d_entries dir))"
  obtains es where "es = sorted_entries (d_entries dir)" "d_entries dir' = es" "names_sorted es" "list_all entry_canon es"
    "cas_hash_object ''tree'' (dir_text es) = Some h"
    "(use_htree ct \<and> cas_exists (ct_store ct) h = Some True \<and> ct' = ct) \<or>
     (\<exists>t d. dir_object t d es \<and> store_at (ct_store ct) t d h = (True, ct_store ct') \<and> storable t d \<and> (t = ''htree'' \<longleftrightarrow> use_htree ct))"
proof -
  define es where "es = sorted_entries (d_entries dir)"
  have e: "(if length (d_entries dir) > 1 then sort_entries (d_entries dir) else d_entries dir) = es"
    by (simp add: es_def sorted_entries_def)
  note run = run [unfolded cas_tree_store_def e Let_def, simplified]
  have nd: "\<not> has_dup es" using run by (auto split: if_splits)
  then have srt: "names_sorted es" unfolding es_def by (rule sorted_entries_names)
  have ce: "list_all entry_canon es" using c by (simp add: es_def list_all_iff)
  have m1: "mem1" using run nd by (cases mem1) (auto simp: tree_serialize_def Let_def)
  have ok: "list_all entry_ok es" using ce entry_canon_ok by (auto simp: list_all_iff)
  note run = run [unfolded if_not_P [OF nd]]
  have tx: "tree_serialize mem1 es = Some (CHR ''%'' # concat (map entry_line es))" using m1 by (simp add: tree_serialize_text)
  have dt: "bytes_of (CHR ''%'' # concat (map entry_line es)) = dir_text es" by (simp add: dir_text_def)
  show thesis
  proof (cases "use_htree ct")
    case False
    then obtain s where p: "cas_put_object (ct_store ct) ''tree'' (dir_text es) = (Some (Inr h), s)" "ct_store ct' = s" "d_entries dir' = es"
      using run by (auto simp: use_htree_def tx dt dt [simplified] split: prod.splits if_splits)
    have "dir_object ''tree'' (dir_text es) es" using srt ok by (simp add: dir_object_def)
    with put_object_store_at [OF p(1)] p(2,3) storable_dir(1) fit False show thesis
      by (intro that [OF es_def p(3) srt ce]) (auto simp: es_def)
  next
    case True
    then have f: "ct_flags ct AND CAS_TREE_USE_HTREE \<noteq> 0" by (simp add: use_htree_def)
    have h: "cas_hash_object ''tree'' (dir_text es) = Some h" and dd: "d_entries dir' = es"
      and rest: "cas_exists (ct_store ct) h = Some True \<and> ct' = ct \<or>
        (\<exists>bin. htree_build mem2 junk es = Some (Some bin) \<and>
           cas_put_object_at (ct_store ct) ''htree'' bin h = (Some CAS_OK, ct_store ct'))"
      using run f by (auto simp: tx dt dt [simplified] split: option.splits bool.splits prod.splits if_splits)
    from rest show thesis
    proof
      assume "cas_exists (ct_store ct) h = Some True \<and> ct' = ct"
      with True show thesis by (intro that [OF es_def dd srt ce h]) simp
    next
      assume "\<exists>bin. htree_build mem2 junk es = Some (Some bin) \<and> cas_put_object_at (ct_store ct) ''htree'' bin h = (Some CAS_OK, ct_store ct')"
      then obtain bin where b: "htree_build mem2 junk es = Some (Some bin)"
        "cas_put_object_at (ct_store ct) ''htree'' bin h = (Some CAS_OK, ct_store ct')" by blast
      then have m2: "mem2" by (auto simp: htree_build_def split: if_splits)
      have fit': "dir_fits es" using fit by (simp add: es_def)
      have "dir_object ''htree'' bin es" using srt ce dir_fits_size [OF fit'] b(1) m2 by (auto simp: dir_object_def)
      moreover have "storable ''htree'' bin" using htree_build_length [OF ce, of junk bin] b(1) m2 storable_dir(2) [OF fit', of bin] by simp
      ultimately show thesis using b(2) True
        by (intro that [OF es_def dd srt ce h]) (auto simp: store_at_def)
    qed
  qed
qed

text \<open>After a successful store the address holds the directory, unless something else was stored under it.\<close>

lemma tree_stored:
  assumes cod: "codec_ok table" and inv: "store_inv table (ct_store ct)"
    and run: "cas_tree_store mem1 mem2 junk ct dir = (Some (Inr h), ct', dir')"
    and c: "list_all entry_canon (d_entries dir)" and fit: "dir_fits (sorted_entries (d_entries dir))"
    and alone: "\<And>t d. get_object table (ct_store ct) h = Some (t, d) \<Longrightarrow> dir_object t d (sorted_entries (d_entries dir))"
  shows "store_inv table (ct_store ct') \<and> d_entries dir' = sorted_entries (d_entries dir) \<and>
    (\<exists>t d. get_object table (ct_store ct') h = Some (t, d) \<and> dir_object t d (sorted_entries (d_entries dir))) \<and>
    (\<forall>k x. get_object table (ct_store ct) k = Some x \<longrightarrow> get_object table (ct_store ct') k = Some x)"
proof -
  have cs: "codec_store table" using cod by (rule codec_store.intro)
  let ?es = "sorted_entries (d_entries dir)"
  obtain es where es: "es = ?es" "d_entries dir' = es" "cas_hash_object ''tree'' (dir_text es) = Some h"
    and outcome: "(use_htree ct \<and> cas_exists (ct_store ct) h = Some True \<and> ct' = ct) \<or>
     (\<exists>t d. dir_object t d es \<and> store_at (ct_store ct) t d h = (True, ct_store ct') \<and> storable t d \<and> (t = ''htree'' \<longleftrightarrow> use_htree ct))"
    using tree_store_cases [OF run c fit] by metis
  from outcome show ?thesis
  proof
    assume a: "use_htree ct \<and> cas_exists (ct_store ct) h = Some True \<and> ct' = ct"
    then obtain t d where "get_object table (ct_store ct) h = Some (t, d)" using inv by (fastforce simp: store_inv_def)
    with a es inv alone show ?thesis by blast
  next
    assume "\<exists>t d. dir_object t d es \<and> store_at (ct_store ct) t d h = (True, ct_store ct') \<and> storable t d \<and> (t = ''htree'' \<longleftrightarrow> use_htree ct)"
    then obtain t d where o: "dir_object t d es" "store_at (ct_store ct) t d h = (True, ct_store ct')" "storable t d" by blast
    have nm: "t = ''htree'' \<or> cas_hash_object t d = Some h" using o(1) es(3) by (auto simp: dir_object_def)
    note st = codec_store.stored_directory [OF cs inv o(3) nm o(2)]
    show ?thesis using st es o(1) alone by (auto split: option.splits)
  qed
qed

text \<open>Progress: a directory that fits is stored when no system call fails.\<close>

lemma exists_total: "pack_ok s \<Longrightarrow> cas_exists s h \<noteq> None"
  using pack_exists_total [of s _ h] by (auto simp: cas_exists_def split: option.splits bool.splits)

lemma dir_hash_object: "dir_fits es \<Longrightarrow> \<exists>h. cas_hash_object ''tree'' (dir_text es) = Some h"
  using format_header_fits(1) [of "''tree''" "length (dir_text es)"] storable_fit [OF storable_dir(1)]
  by (auto simp: hash_object_eq)

lemma tree_store_progress:
  assumes c: "list_all entry_canon (d_entries dir)" and d: "\<not> has_dup (sorted_entries (d_entries dir))"
    and fit: "dir_fits (sorted_entries (d_entries dir))"
    and s: "s_sys (ct_store ct) = []" "length (s_basedir (ct_store ct)) \<le> 400" "pack_ok (ct_store ct)"
  shows "\<exists>h ct' dir'. cas_tree_store True True junk ct dir = (Some (Inr h), ct', dir')"
proof -
  define es where "es = sorted_entries (d_entries dir)"
  have fit': "dir_fits es" and ce: "list_all entry_canon es" and nd: "\<not> has_dup es"
    using fit c d by (simp_all add: es_def list_all_iff)
  obtain h where h: "cas_hash_object ''tree'' (dir_text es) = Some h" using dir_hash_object [OF fit'] by blast
  obtain bin where b: "htree_build True junk es = Some (Some bin)" using build_laid [OF ce dir_fits_size [OF fit']] by blast
  have "length bin = htree_size es" by (rule htree_build_length [OF ce b])
  then have st: "storable ''htree'' bin" by (rule storable_dir(2) [OF fit'])
  obtain s1 where p1: "cas_put_object_at (ct_store ct) ''htree'' bin h = (Some CAS_OK, s1)"
    using put_at_progress [OF s(1,2) st s(3) hash_object_valid [OF h]] by blast
  obtain h2 s2 where p2: "cas_put_object (ct_store ct) ''tree'' (dir_text es) = (Some (Inr h2), s2)"
    using put_progress [OF s(1,2) storable_dir(1) [OF fit'] s(3)] by blast
  obtain ex where ex: "cas_exists (ct_store ct) h = Some ex" using exists_total [OF s(3)] by blast
  have dt: "byte_of_char CHR ''%'' # bytes_of (concat (map entry_line es)) = dir_text es" by (simp add: dir_text_def)
  show ?thesis
    unfolding cas_tree_store_def sorted_entries_def [symmetric] es_def [symmetric] Let_def
    using nd h b p1 p2 ex by (cases ex) (simp_all add: tree_serialize_text dt)
qed

section \<open>The example directory\<close>

lemma build_tables_total: "list_all used xs \<Longrightarrow> build_tables xs tp bs \<noteq> None"
  using build_tables_laid [of xs tp bs] by auto

lemma build_junk_differs:
  assumes "htree_build True j1 [e] = Some (Some d1)" "htree_build True j2 [e] = Some (Some d2)"
    and "hash_bin j1 e \<noteq> hash_bin j2 e" "length (hash_bin j1 e) = length (hash_bin j2 e)"
  shows "d1 \<noteq> d2"
proof
  assume "d1 = d2"
  moreover obtain hs ts where "d1 = hs @ htree_record j1 e @ ts @ store_le32 (adler32 (hs @ htree_record j1 e @ ts)) @ HTREE_MAGIC"
    "d2 = hs @ htree_record j2 e @ ts @ store_le32 (adler32 (hs @ htree_record j2 e @ ts)) @ HTREE_MAGIC"
    using assms(1,2) by (auto simp: htree_build_def Let_def bind_eq_Some_conv)
  moreover have "length (htree_record j1 e) = length (htree_record j2 e)"
    using assms(4) by (simp add: htree_record_def entry_data_def)
  ultimately have "htree_record j1 e = htree_record j2 e" by simp
  with assms(3) show False by (simp add: htree_record_def entry_data_def)
qed

end
