(* ===== verification/TreeProps.thy ===== *)
theory TreeProps
  imports TreeLemmas
begin

unbundle bit_operations_syntax

text \<open>
  The properties of the directory layer: names, storing and loading directories in both formats, the
  safety of the readers on arbitrary bytes, the trust boundary, and the integrity check of the depot.
\<close>

text \<open>A directory for the examples.\<close>

definition demo_entry :: cas_tree_entry where
  "demo_entry = \<lparr>e_mode = 33188, e_uid = 0, e_gid = 0, e_mtime_s = 0, e_mtime_ns = 0,
     e_hash = to_hex (replicate CAS_HASH_LEN 26), e_name = ''a''\<rparr>"

lemma demo_entry_canon: "entry_canon demo_entry"
proof -
  have "hash_canon (cas_hex_encode (replicate CAS_HASH_LEN 26))" by (rule encode_canon) simp
  moreover have "utf8_loop [byte_of_char CHR ''a'']"
    by (simp add: word_less_nat_alt)
  ultimately show ?thesis
    by (simp add: entry_canon_def demo_entry_def name_ok_def valid_utf8_def CAS_TREE_NAME_MAX_def cas_hex_encode_def)
qed

lemma demo_dir_fits: "dir_fits [demo_entry]"
proof -
  have "length (octal06 33188) = 6" "length (int_dec 0) = 1"
    by (simp_all add: octal06_def octal.simps int_dec_def decimal.simps)
  then have "length (dir_text [demo_entry]) = 83"
    by (simp add: dir_text_def entry_line_def demo_entry_def CAS_HASH_LEN_def)
  then show ?thesis
    by (simp add: dir_fits_def htree_size_def record_len_def htree_consts MAX_FILE_def CAS_PACK_BLOCK_def demo_entry_def)
qed

definition demo_tree :: "u32 \<Rightarrow> cas_tree" where
  "demo_tree flags = \<lparr>ct_store = demo_store, ct_flags = flags\<rparr>"

definition demo_dir :: cas_tree_dir where
  "demo_dir = \<lparr>d_entries = [demo_entry], d_cap = 8, d_mem = []\<rparr>"

lemma demo_store_dir: "\<exists>h ct' dir'. cas_tree_store True True junk (demo_tree flags) demo_dir = (Some (Inr h), ct', dir')"
  by (rule tree_store_progress)
    (simp_all add: demo_dir_def demo_tree_def demo_entry_canon sorted_entries_def demo_dir_fits demo_store_facts)

section \<open>Names\<close>

text \<open>
  C30. The UTF-8 check accepts exactly the encodings of sequences of Unicode scalar values: no overlong
  form, no surrogate, nothing past the last code point, and no truncated sequence is admitted.
\<close>

theorem utf8_correct:
  "valid_utf8 s \<longleftrightarrow> (\<exists>cps. list_all scalar cps \<and> bytes_of s = concat (map utf8_enc cps))"
proof
  assume "valid_utf8 s"
  then show "\<exists>cps. list_all scalar cps \<and> bytes_of s = concat (map utf8_enc cps)"
    unfolding valid_utf8_def by (rule utf8_loop_sound)
next
  assume "\<exists>cps. list_all scalar cps \<and> bytes_of s = concat (map utf8_enc cps)"
  then obtain cps where "list_all scalar cps" "bytes_of s = concat (map utf8_enc cps)" by blast
  then show "valid_utf8 s" using utf8_loop_concat [of cps] by (simp add: valid_utf8_def)
qed

section \<open>Directories in the store\<close>

text \<open>
  C31. A directory stored in either format is read back: after \<open>cas_tree_store\<close> succeeds, loading the
  address it returned gives the entries in canonical order and a lookup finds exactly the entry of a
  name; the store stays in order and keeps every object it had. The address is the hash of the text
  form whichever format is written. The hypotheses exclude a foreign object already stored there.
\<close>

theorem tree_store_load:
  assumes "codec_ok table" "store_inv table (ct_store ct)"
    and "cas_tree_store mem1 mem2 junk ct dir = (Some (Inr h), ct', dir')"
    and "list_all entry_canon (d_entries dir)" "dir_fits (sorted_entries (d_entries dir))"
    and "\<And>t d. get_object table (ct_store ct) h = Some (t, d) \<Longrightarrow> dir_object t d (sorted_entries (d_entries dir))"
  defines "reader \<equiv> ct'\<lparr>ct_store := (ct_store ct')\<lparr>s_sys := []\<rparr>\<rparr>"
  shows "store_inv table (ct_store ct') \<and>
    (\<forall>k x. get_object table (ct_store ct) k = Some x \<longrightarrow> get_object table (ct_store ct') k = Some x) \<and>
    cas_hash_object ''tree'' (dir_text (sorted_entries (d_entries dir))) = Some h \<and>
    (\<exists>listing. fst (cas_tree_load table reader h (new_dir [])) = Some (CAS_OK, listing) \<and>
       d_entries listing = sorted_entries (d_entries dir)) \<and>
    (\<forall>name. fst (cas_tree_lookup table reader h name) =
       Some (case find_entry_named (sorted_entries (d_entries dir)) name of None \<Rightarrow> Inl CAS_ENOTFOUND | Some e \<Rightarrow> Inr e))"
proof -
  note st = tree_stored [OF assms(1-6)]
  then obtain t d where o: "get_object table (ct_store ct') h = Some (t, d)" "dir_object t d (sorted_entries (d_entries dir))"
    by blast
  have r: "get_object table (ct_store reader) h = Some (t, d)" "s_sys (ct_store reader) = []"
    using o(1) by (simp_all add: reader_def get_object_def)
  have "cas_hash_object ''tree'' (dir_text (sorted_entries (d_entries dir))) = Some h"
    using tree_store_cases [OF assms(3-5)] by metis
  with st dir_object_load [OF o(2) r, of "new_dir []"] dir_object_lookup [OF o(2) r] show ?thesis by auto
qed

theorem tree_store_load_witness:
  "\<exists>h ct' dir'. cas_tree_store True True [] (demo_tree CAS_TREE_USE_HTREE) demo_dir = (Some (Inr h), ct', dir') \<and>
    fst (cas_tree_lookup (codec_table []) (ct'\<lparr>ct_store := (ct_store ct')\<lparr>s_sys := []\<rparr>\<rparr>) h ''a'') = Some (Inr demo_entry)"
proof -
  obtain h ct' dir' where run: "cas_tree_store True True [] (demo_tree CAS_TREE_USE_HTREE) demo_dir = (Some (Inr h), ct', dir')"
    using demo_store_dir by blast
  have "fst (cas_tree_lookup (codec_table []) (ct'\<lparr>ct_store := (ct_store ct')\<lparr>s_sys := []\<rparr>\<rparr>) h ''a'') =
    Some (case find_entry_named (sorted_entries (d_entries demo_dir)) ''a'' of None \<Rightarrow> Inl CAS_ENOTFOUND | Some e \<Rightarrow> Inr e)"
    using tree_store_load [OF codec_none_ok _ run]
    by (simp add: demo_dir_def demo_tree_def demo_entry_canon sorted_entries_def demo_dir_fits demo_store_facts)
  moreover have "find_entry_named (sorted_entries (d_entries demo_dir)) ''a'' = Some demo_entry"
    by (simp add: find_entry_named_def sorted_entries_def demo_dir_def demo_entry_def)
  ultimately show ?thesis using run by auto
qed

text \<open>
  A listing is always well formed: whatever bytes are stored under the address, if
  \<open>cas_tree_load\<close> succeeds the names it delivers are admissible (not empty, at most 255 bytes, valid
  UTF-8, without a slash, a newline or a terminator) and in strictly ascending canonical order.
\<close>

theorem loaded_listing_ok:
  assumes "codec_ok table" "cas_tree_load table ct h dir = (Some (CAS_OK, dir'), ct')"
  shows "listing_ok (d_entries dir')"
proof -
  from assms(2) open_object_not_ok [OF assms(1), of "ct_store ct" h "Some (CAS_TYPE_MAX + 1)"]
  obtain d where "tree_text_load dir d = Some (CAS_OK, dir') \<or> htree_parse_dir dir d = Some (CAS_OK, dir')"
    by (fastforce simp: cas_tree_load_def split: prod.splits option.splits sum.splits if_splits)
  then show ?thesis
  proof
    assume "tree_text_load dir d = Some (CAS_OK, dir')"
    then have "load_loop (cas_tree_dir_init dir) (chars_of (drop 1 d)) = Some (CAS_OK, dir')"
      by (auto simp: tree_text_load_def Let_def split: if_splits)
    then show ?thesis by (rule load_loop_listing) (simp add: cas_tree_dir_init_def listing_ok_def names_sorted_def)
  next
    assume "htree_parse_dir dir d = Some (CAS_OK, dir')"
    then show ?thesis using htree_parse_canon by (simp add: dir_canon_listing)
  qed
qed

theorem loaded_listing_ok_witness:
  "\<exists>ct h dir' ct'. cas_tree_load (codec_table []) ct h (new_dir []) = (Some (CAS_OK, dir'), ct') \<and>
    d_entries dir' = [demo_entry] \<and> listing_ok (d_entries dir')"
proof -
  obtain h ct1 dir1 where run: "cas_tree_store True True [] (demo_tree 0) demo_dir = (Some (Inr h), ct1, dir1)"
    using demo_store_dir by blast
  have "\<exists>t d. get_object (codec_table []) (ct_store ct1) h = Some (t, d) \<and> dir_object t d (sorted_entries (d_entries demo_dir))"
    using tree_stored [OF codec_none_ok _ run]
    by (simp add: demo_dir_def demo_tree_def demo_entry_canon sorted_entries_def demo_dir_fits demo_store_facts)
  then obtain t d where o: "get_object (codec_table []) (ct_store ct1) h = Some (t, d)" "dir_object t d [demo_entry]"
    by (auto simp: demo_dir_def sorted_entries_def)
  let ?ct = "ct1\<lparr>ct_store := (ct_store ct1)\<lparr>s_sys := []\<rparr>\<rparr>"
  from o(1) have g: "get_object (codec_table []) (ct_store ?ct) h = Some (t, d)" by (simp add: get_object_def)
  obtain dir' ct' where l: "cas_tree_load (codec_table []) ?ct h (new_dir []) = (Some (CAS_OK, dir'), ct')" "d_entries dir' = [demo_entry]"
    using dir_object_load [OF o(2) g, of "new_dir []"] by auto
  with loaded_listing_ok [OF codec_none_ok l(1)] show ?thesis by blast
qed

section \<open>The trust boundary\<close>

text \<open>
  C33. What passes \<open>cas_tree_check_object\<close> as a directory answers consistently: the object lists one
  well-formed directory, whose text form hashes to the address it was checked against, and every
  lookup gives what the listing says. In particular the tables of an \<open>htree\<close> cannot name other
  children than its records.
\<close>

theorem checked_directory_agrees:
  assumes "cas_tree_check_object mem mem1 mem2 junk t data hash = Some CAS_OK"
    and "t = ''tree'' \<or> t = ''htree''" "length data < 2 ^ 32"
  shows "\<exists>dir. (if t = ''tree'' then tree_text_load (new_dir mem) data else htree_parse_dir (new_dir mem) data) = Some (CAS_OK, dir) \<and>
    listing_ok (d_entries dir) \<and> cas_hash_object ''tree'' (dir_text (d_entries dir)) = Some hash \<and>
    (\<forall>name. (if t = ''tree'' then tree_text_lookup data name else htree_lookup_entry data name) =
      Some (case find_entry_named (d_entries dir) name of None \<Rightarrow> Inl CAS_ENOTFOUND | Some e \<Rightarrow> Inr e))"
proof (cases "t = ''tree''")
  case True
  from assms(1) True have h: "cas_hash_object ''tree'' data = Some hash" and v: "tree_text_verify mem mem1 data = Some CAS_FSCK_OK"
    by (auto simp: cas_tree_check_object_def split: if_splits)
  from tree_text_verify_sound [OF v] obtain dir where "tree_text_load (new_dir mem) data = Some (CAS_OK, dir)"
    "listing_ok (d_entries dir)" "data = dir_text (d_entries dir)" by blast
  with h True tree_text_agree [of "new_dir mem" data dir] show ?thesis by auto
next
  case False
  with assms have "htree_verify mem mem1 mem2 junk data hash = Some CAS_FSCK_OK"
    by (auto simp: cas_tree_check_object_def split: if_splits)
  from htree_verify_sound [OF this assms(3)] obtain dir where d: "htree_parse_dir (new_dir mem) data = Some (CAS_OK, dir)"
    "dir_object ''htree'' data (d_entries dir)" "dir_canon (d_entries dir)" "cas_hash_object ''tree'' (dir_text (d_entries dir)) = Some hash"
    by blast
  from d(2) have "htree_lookup_entry data name = Some (case find_entry_named (d_entries dir) name of None \<Rightarrow> Inl CAS_ENOTFOUND | Some e \<Rightarrow> Inr e)" for name
    using htree_built(2) by (auto simp: dir_object_def)
  with d False show ?thesis by (auto simp: dir_canon_listing)
qed

theorem checked_directory_agrees_witness:
  "\<exists>data hash dir. cas_tree_check_object [] True True [] ''htree'' data hash = Some CAS_OK \<and>
     htree_parse_dir (new_dir []) data = Some (CAS_OK, dir) \<and> cas_hash_object ''tree'' (dir_text (d_entries dir)) = Some hash"
proof -
  have n: "htree_size [demo_entry] < 2 ^ 32" by (rule dir_fits_size [OF demo_dir_fits])
  obtain data where b: "htree_build True [] [demo_entry] = Some (Some data)"
    using build_laid [of "[demo_entry]" "[]"] n demo_entry_canon by auto
  obtain hash where h: "cas_hash_object ''tree'' (dir_text [demo_entry]) = Some hash" using dir_hash_object [OF demo_dir_fits] by blast
  have o: "dir_object ''htree'' data [demo_entry]"
    using b n demo_entry_canon by (auto simp: dir_object_def names_sorted_def)
  have len: "length data < 2 ^ 32" using htree_build_length [OF _ b] n demo_entry_canon by simp
  have chk: "cas_tree_check_object [] True True [] ''htree'' data hash = Some CAS_OK"
    using htree_verify_complete [OF o h] by (simp add: cas_tree_check_object_def)
  from checked_directory_agrees [OF chk _ len] chk show ?thesis by auto
qed

text \<open>
  The checks do not look at the hash fields of a text directory. One whose fields are 64 letters
  that no hash contains is admitted, and its \<open>htree\<close> form then carries whatever the
  uninitialised buffer of \<open>htree_build\<close> held: two runs build different objects for one address.
\<close>

definition bad_entry :: cas_tree_entry where
  "bad_entry = demo_entry\<lparr>e_hash := replicate CAS_HASH_HEX (CHR ''z'')\<rparr>"

theorem bad_hash_admitted:
  "(\<exists>hash. cas_hash_object ''tree'' (dir_text [bad_entry]) = Some hash \<and>
     cas_tree_check_object [] True True [] ''tree'' (dir_text [bad_entry]) hash = Some CAS_OK) \<and>
   \<not> valid_hash (e_hash bad_entry) \<and>
   htree_build True (replicate CAS_HASH_LEN 0) [bad_entry] \<noteq> htree_build True (replicate CAS_HASH_LEN 1) [bad_entry]"
proof (intro conjI)
  have sp: "\<not> is_space (CHR ''z'')" "\<not> between CHR ''0'' CHR ''9'' (CHR ''z'')" "\<not> between CHR ''a'' CHR ''f'' (CHR ''z'')"
    "\<not> between CHR ''A'' CHR ''F'' (CHR ''z'')"
    by (simp_all add: is_space_def between_def ascii_def)
  have ok: "list_all entry_ok [bad_entry]"
    using demo_entry_canon sp(1) by (simp add: entry_ok_def entry_canon_def bad_entry_def hash_shape_def CAS_HASH_HEX_def)
  have len: "length (dir_text [bad_entry]) = length (dir_text [demo_entry])"
    by (simp add: dir_text_def entry_line_def bad_entry_def demo_entry_def CAS_HASH_HEX_def CAS_HASH_LEN_def)
  then have fit: "dir_fits [bad_entry]"
    using demo_dir_fits by (simp add: dir_fits_def htree_size_def record_len_def bad_entry_def)
  obtain hash where h: "cas_hash_object ''tree'' (dir_text [bad_entry]) = Some hash" using dir_hash_object [OF fit] by blast
  have "tree_text_verify [] True (dir_text [bad_entry]) = Some CAS_FSCK_OK"
    by (rule tree_text_verify_complete [OF ok]) (simp add: names_sorted_def)
  with h show "\<exists>hash. cas_hash_object ''tree'' (dir_text [bad_entry]) = Some hash \<and>
     cas_tree_check_object [] True True [] ''tree'' (dir_text [bad_entry]) hash = Some CAS_OK"
    by (auto simp: cas_tree_check_object_def)
  show "\<not> valid_hash (e_hash bad_entry)" using sp by (simp add: valid_hash_def bad_entry_def CAS_HASH_HEX_def list_all_iff)
  have "replicate 64 (CHR ''z'') = CHR ''z'' # CHR ''z'' # replicate 62 (CHR ''z'')" by (simp add: numeral_eq_Suc)
  moreover have "hex_val (CHR ''z'') = None" using sp by (simp add: hex_val_def)
  ultimately have hb: "hash_bin junk bad_entry = take CAS_HASH_LEN junk" for junk
    by (simp add: hash_bin_def bad_entry_def CAS_HASH_HEX_def)
  have tot: "\<exists>d. htree_build True junk [bad_entry] = Some (Some d)" for junk
    using build_tables_total [OF entry_slots_used [OF dir_fits_size [OF fit]], of "records_stop [bad_entry]" "[0..<HTREE_NBUCKETS]"]
    by (auto simp: htree_build_def Let_def entry_slots_def records_stop_def)
  obtain d1 d2 where d: "htree_build True (replicate CAS_HASH_LEN 0) [bad_entry] = Some (Some d1)"
    "htree_build True (replicate CAS_HASH_LEN 1) [bad_entry] = Some (Some d2)" using tot by blast
  have "d1 \<noteq> d2" by (rule build_junk_differs [OF d]) (simp_all add: hb CAS_HASH_LEN_def)
  with d show "htree_build True (replicate CAS_HASH_LEN 0) [bad_entry] \<noteq> htree_build True (replicate CAS_HASH_LEN 1) [bad_entry]" by simp
qed

section \<open>Building and reading binary directories\<close>

text \<open>
  C35. \<open>htree_build\<close> returns: the probe loop that places a record always meets a free slot, because
  each table has twice as many slots as records. The bound keeps every record offset away from zero,
  the mark of a free slot; beyond it the offsets wrap. The object has exactly the size computed.
\<close>

theorem htree_build_terminates:
  assumes "htree_size es < 2 ^ 32" "list_all entry_canon es"
  shows "\<exists>data. htree_build True junk es = Some (Some data) \<and> length data = htree_size es"
proof -
  from build_laid [OF assms(2,1)] obtain data where b: "htree_build True junk es = Some (Some data)" by blast
  with htree_build_length [OF assms(2) b] show ?thesis by blast
qed

theorem htree_build_terminates_witness:
  "\<exists>data. htree_build True [] [demo_entry] = Some (Some data) \<and> length data = 2137"
  using htree_build_terminates [OF dir_fits_size [OF demo_dir_fits], of "[]"] demo_entry_canon
  by (simp add: htree_size_def htree_consts record_len_def demo_entry_def)

text \<open>
  C36. The readers of the binary format are memory safe on any bytes: neither parsing nor lookup
  reads outside the object, whatever positions and lengths it claims.
\<close>

theorem htree_readers_safe:
  "htree_parse_dir dir data \<noteq> None \<and> htree_lookup_entry data name \<noteq> None"
  using htree_parse_in htree_lookup_in by blast

section \<open>Integrity check\<close>

text \<open>
  C37. The depot check is exact for a depot without a pack whose files can be read: an object passes
  exactly when it reads back as an object of its name that is not an \<open>htree\<close>, and the check of the depot
  returns success exactly when every object it visits passes or is one it leaves to another check.
\<close>

theorem fsck_exact:
  assumes "codec_ok table" "s_sys s = []" "s_pack s = None"
  shows "(fst (cas_fsck_object table s h) = Some CAS_FSCK_OK \<longleftrightarrow>
      (\<exists>t d. get_object table s h = Some (t, d) \<and> t \<noteq> ''htree'' \<and> cas_hash_object t d = Some h)) \<and>
    (fst (cas_fsck table (Listing ds) None s c) = Some CAS_OK \<longleftrightarrow>
      list_all (fsck_clean table s) (visited (s_basedir s) ds))"
proof
  show "fst (cas_fsck_object table s h) = Some CAS_FSCK_OK \<longleftrightarrow>
      (\<exists>t d. get_object table s h = Some (t, d) \<and> t \<noteq> ''htree'' \<and> cas_hash_object t d = Some h)"
    by (rule fsck_object_iff [OF assms])
  show "fst (cas_fsck table (Listing ds) None s c) = Some CAS_OK \<longleftrightarrow> list_all (fsck_clean table s) (visited (s_basedir s) ds)"
    by (auto simp: cas_fsck_def cas_foreach_def foreach_loop_quiet [OF assms(2,3)] filter_empty_conv list_all_iff)
qed

theorem fsck_exact_witness:
  "\<exists>h s. fst (cas_fsck_object (codec_table []) s h) = Some CAS_FSCK_OK"
proof -
  have st: "storable ''blob'' [1, 2, 3]" by (rule demo_storable) simp
  obtain h s where run: "cas_put_object demo_store ''blob'' [1, 2, 3] = (Some (Inr h), s)" "s_sys s = []"
    "cas_hash_object ''blob'' [1, 2, 3] = Some h"
    using put_progress [OF demo_store_facts(1,2) st demo_store_facts(3)] by blast
  have at: "store_at demo_store ''blob'' [1, 2, 3] h = (True, s)" using put_object_store_at [OF run(1)] by simp
  have g: "get_object (codec_table []) s h = Some (''blob'', [1, 2, 3])"
    using plain.stored_object [OF demo_store_facts(5) st run(3) at] by (simp add: demo_store_facts(4))
  obtain rc where "stored_as demo_store s h (loose_bytes False [1, 2, 3] ''blob'' (length [1, 2, 3 :: byte])) rc"
    using store_at_spec [OF at] by blast
  then have "s_pack s = None" by (simp add: stored_as_def demo_store_def)
  note exact = fsck_exact [OF codec_none_ok run(2) this, of h, THEN conjunct1]
  have "fst (cas_fsck_object (codec_table []) s h) = Some CAS_FSCK_OK"
    by (subst exact) (use g run(3) in \<open>simp\<close>)
  then show ?thesis by blast
qed

end
