(* ===== verification/Refs.thy ===== *)
theory Refs
  imports Tree
begin

text \<open>
  Named references and their logs, the part of \<open>cas-tree.c\<close> from \<open>valid_ref_name\<close> to
  \<open>cas_tree_ref_foreach\<close>. A reference \<open>n\<close> is the files \<open>refs/n.root\<close>, \<open>n.log\<close> and \<open>n.prev\<close> under the
  depot, and they live in the same map \<open>s_files\<close> as the objects. Each call that can fail consumes an
  outcome; \<open>torn\<close> is the number of bytes of a record that a failing write leaves in the file. What
  \<open>readdir\<close> returns is an argument. Locks are taken and released within one operation, so that only
  the failure to take one shows.
\<close>

section \<open>Files\<close>

definition put_file :: "string \<Rightarrow> byte list \<Rightarrow> cas \<Rightarrow> cas" where
  "put_file path data s = s\<lparr>s_files := (s_files s)(path \<mapsto> data)\<rparr>"

definition drop_file :: "string \<Rightarrow> cas \<Rightarrow> cas" where
  "drop_file path s = s\<lparr>s_files := (s_files s)(path := None)\<rparr>"

definition sys_unlink :: "string \<Rightarrow> cas \<Rightarrow> cas" where
  "sys_unlink path s = (let (ok, s1) = sys_call s in if ok then drop_file path s1 else s1)"

definition sys_link :: "string \<Rightarrow> string \<Rightarrow> cas \<Rightarrow> bool \<times> cas" where
  "sys_link old new s =
     (let (ok, s1) = sys_call s in
      case s_files s1 old of
        None \<Rightarrow> (False, s1)
      | Some data \<Rightarrow> if ok \<and> s_files s1 new = None then (True, put_file new data s1) else (False, s1))"

definition sys_rename :: "string \<Rightarrow> string \<Rightarrow> cas \<Rightarrow> bool \<times> cas" where
  "sys_rename old new s =
     (let (ok, s1) = sys_call s in
      case s_files s1 old of
        None \<Rightarrow> (False, s1)
      | Some data \<Rightarrow> if ok then (True, put_file new data (drop_file old s1)) else (False, s1))"

text \<open>Opening for appending (or with \<open>O_CREAT\<close>), opening for writing, and writing at the end.\<close>

definition open_append :: "string \<Rightarrow> cas \<Rightarrow> bool \<times> cas" where
  "open_append path s =
     (let (ok, s1) = sys_call s in
      if ok \<and> s_files s1 path = None then (True, put_file path [] s1) else (ok, s1))"

definition open_write :: "string \<Rightarrow> cas \<Rightarrow> bool \<times> cas" where
  "open_write path s = (let (ok, s1) = sys_call s in if ok then (True, put_file path [] s1) else (False, s1))"

definition write_end :: "string \<Rightarrow> byte list \<Rightarrow> nat \<Rightarrow> cas \<Rightarrow> bool \<times> cas" where
  "write_end path data torn s =
     (let (ok, s1) = sys_call s;
          old = (case s_files s1 path of None \<Rightarrow> [] | Some d \<Rightarrow> d)
      in (ok, put_file path (old @ (if ok then data else take torn data)) s1))"

section \<open>Names and paths\<close>

definition REF_PATH_MAX :: nat where "REF_PATH_MAX = 512"

definition valid_ref_name :: "string \<Rightarrow> bool" where
  "valid_ref_name name =
     (let len = length name in
      if len = 0 \<or> len > 255 then False
      else if name = ''.'' \<or> name = ''..'' then False
      else list_all (\<lambda>c. \<not> (ascii c < 0x20 \<or> c = CHR ''/'' \<or> c = CHR 0x5C)) name)"

definition valid_hex_hash :: "string \<Rightarrow> bool" where
  "valid_hex_hash hash =
     (if length hash \<noteq> CAS_HASH_HEX then False
      else list_all (\<lambda>c. between CHR ''0'' CHR ''9'' c \<or> between CHR ''a'' CHR ''f'' c \<or> between CHR ''A'' CHR ''F'' c) hash)"

definition ref_path :: "cas \<Rightarrow> string \<Rightarrow> string \<Rightarrow> nat \<Rightarrow> string option" where
  "ref_path s name ext bufsz =
     (let buf = s_basedir s @ ''/refs/'' @ name @ ext in
      if length buf \<ge> bufsz then None else Some buf)"

text \<open>Directories are not part of the file map; the second \<open>mkdir\<close> fails or leaves the directory there.\<close>

definition ensure_refs_dir :: "cas \<Rightarrow> cas_rc \<times> cas" where
  "ensure_refs_dir s =
     (if length (s_basedir s @ ''/refs'') \<ge> REF_PATH_MAX then (CAS_ERR, s)
      else let (ok, s1) = sys_call s in if ok then (CAS_OK, s1) else (CAS_EIO, s1))"

section \<open>Reading a reference\<close>

text \<open>\<open>fgets\<close> delivers at most \<open>k\<close> characters, up to and including a newline.\<close>

fun line_of :: "nat \<Rightarrow> string \<Rightarrow> string" where
  "line_of 0 p = []"
| "line_of (Suc k) [] = []"
| "line_of (Suc k) (c # p) = (if c = CHR 0x0A then [c] else c # line_of k p)"

definition cas_tree_ref_read :: "cas_tree \<Rightarrow> string \<Rightarrow> (cas_rc + string) \<times> cas_tree" where
  "cas_tree_ref_read ct name =
     (if \<not> valid_ref_name name then (Inl CAS_ERR, ct)
      else case ref_path (ct_store ct) name ''.root'' REF_PATH_MAX of
        None \<Rightarrow> (Inl CAS_ERR, ct)
      | Some path \<Rightarrow>
          let (opened, s1) = sys_call (ct_store ct); ct1 = ct\<lparr>ct_store := s1\<rparr> in
          (case (if opened then s_files s1 path else None) of
             None \<Rightarrow> (Inl CAS_ENOTFOUND, ct1)
           | Some data \<Rightarrow>
               let (ok, s2) = sys_call s1; ct2 = ct\<lparr>ct_store := s2\<rparr> in
               if \<not> ok \<or> data = [] then (Inl CAS_EIO, ct2)
               else
                 let line = c_str (line_of (CAS_HASH_HEX + 1) (chars_of data));
                     line1 = (if line \<noteq> [] \<and> last line = CHR 0x0A then butlast line else line)
                 in if length line1 \<noteq> CAS_HASH_HEX then (Inl CAS_ERR, ct2) else (Inr line1, ct2)))"

section \<open>Committing\<close>

definition lock_ref :: "string \<Rightarrow> cas \<Rightarrow> bool \<times> cas" where
  "lock_ref lockpath s = (let (ok, s1) = open_append lockpath s in if \<not> ok then (False, s1) else sys_call s1)"

definition log_line :: "string \<Rightarrow> u64 \<Rightarrow> u32 \<Rightarrow> string \<Rightarrow> string" where
  "log_line hash sec nsec note =
     hash @ '' '' @ int_dec (sint sec) @ '' '' @ int_dec (sint nsec) @ '' '' @ note @ [CHR 0x0A]"

definition append_log :: "string \<Rightarrow> string \<Rightarrow> nat \<Rightarrow> cas \<Rightarrow> bool \<times> cas" where
  "append_log logpath line torn s =
     (let (ok, s1) = open_append logpath s in
      if \<not> ok then (False, s1) else write_end logpath (bytes_of line) torn s1)"

definition keep_previous :: "string \<Rightarrow> string \<Rightarrow> cas \<Rightarrow> cas" where
  "keep_previous rootpath prevpath s =
     (if s_files s rootpath = None then s
      else
        let prevtmp = prevpath @ ''.tmp'' in
        if length prevtmp < REF_PATH_MAX then
          let (linked, s1) = sys_link rootpath prevtmp (sys_unlink prevtmp s) in
          if linked then snd (sys_rename prevtmp prevpath s1) else s1
        else s)"

definition write_root :: "string \<Rightarrow> string \<Rightarrow> string \<Rightarrow> nat \<Rightarrow> cas \<Rightarrow> cas_rc \<times> cas" where
  "write_root roottmp rootpath root_hash torn s =
     (let (opened, s1) = open_write roottmp s in
      if \<not> opened then (CAS_EIO, s1)
      else
        let (written, s2) = write_end roottmp (bytes_of (root_hash @ [CHR 0x0A])) torn s1 in
        if \<not> written then (CAS_EIO, sys_unlink roottmp s2)
        else
          let (renamed, s3) = sys_rename roottmp rootpath s2 in
          if \<not> renamed then (CAS_EIO, sys_unlink roottmp s3) else (CAS_OK, s3))"

definition ref_paths :: "cas \<Rightarrow> string \<Rightarrow> (string \<times> string \<times> string \<times> string) option" where
  "ref_paths s name =
     do {
       lockpath \<leftarrow> ref_path s name ''.lock'' REF_PATH_MAX;
       logpath \<leftarrow> ref_path s name ''.log'' REF_PATH_MAX;
       rootpath \<leftarrow> ref_path s name ''.root'' REF_PATH_MAX;
       prevpath \<leftarrow> ref_path s name ''.prev'' REF_PATH_MAX;
       Some (lockpath, logpath, rootpath, prevpath) }"

text \<open>The whole commit; \<open>sec\<close> and \<open>nsec\<close> are the reading of the clock.\<close>

definition cas_tree_ref_commit ::
    "nat \<Rightarrow> u64 \<Rightarrow> u32 \<Rightarrow> cas_tree \<Rightarrow> string \<Rightarrow> string \<Rightarrow> string option \<Rightarrow> cas_rc \<times> cas_tree" where
  "cas_tree_ref_commit torn sec nsec ct name root_hash note =
     (if \<not> valid_ref_name name \<or> \<not> valid_hex_hash root_hash then (CAS_ERR, ct)
      else
        let (rc, s) = (case ensure_refs_dir (ct_store ct) of (drc, s1) \<Rightarrow>
          if drc \<noteq> CAS_OK then (CAS_EIO, s1)
          else (case ref_paths s1 name of
             None \<Rightarrow> (CAS_ERR, s1)
           | Some (lockpath, logpath, rootpath, prevpath) \<Rightarrow>
               let roottmp = rootpath @ ''.tmp'' in
               if length roottmp \<ge> REF_PATH_MAX then (CAS_ERR, s1)
               else
                 let (locked, s2) = lock_ref lockpath s1 in
                 if \<not> locked then (CAS_EIO, s2)
                 else
                   let s3 = sys_unlink roottmp s2;
                       line = log_line root_hash sec nsec (case note of None \<Rightarrow> '''' | Some c \<Rightarrow> c);
                       (logged, s4) = append_log logpath line torn s3
                   in if \<not> logged then (CAS_EIO, s4)
                      else write_root roottmp rootpath root_hash torn (keep_previous rootpath prevpath s4)))
        in (rc, ct\<lparr>ct_store := s\<rparr>))"

section \<open>Reading the log\<close>

type_synonym 'c log_visitor = "cas_tree \<times> 'c \<Rightarrow> string \<Rightarrow> u64 \<Rightarrow> u32 \<Rightarrow> string \<Rightarrow> bool \<times> cas_tree \<times> 'c"

definition LOG_LINE_MAX :: nat where "LOG_LINE_MAX = 1024"

text \<open>
  One turn of \<open>fgets\<close>: the line without its newline and the rest of the file, or \<open>Inl\<close> with the way
  the reader leaves its loop. A line that lacks its newline is the torn end of the file, or an error.
\<close>

definition next_line :: "string \<Rightarrow> cas_rc + (string \<times> string)" where
  "next_line p =
     (let raw = line_of (LOG_LINE_MAX - 1) p; line = c_str raw in
      if p = [] then Inl CAS_OK
      else if line \<noteq> [] \<and> last line \<noteq> CHR 0x0A then
        Inl (if length raw < LOG_LINE_MAX - 1 \<and> last raw \<noteq> CHR 0x0A then CAS_OK else CAS_ERR)
      else Inr (if line \<noteq> [] then butlast line else line, drop (length raw) p))"

text \<open>\<open>"%lld %d %n"\<close> on a terminated line: the time and the comment after the white space.\<close>

definition log_fields :: "(nat \<times> int \<times> int) list" where
  "log_fields = [(10, - (2 ^ 63), 2 ^ 63 - 1), (10, - (2 ^ 31), 2 ^ 31 - 1)]"

definition parse_log_line :: "string \<Rightarrow> (cas_rc + (string \<times> u64 \<times> u32 \<times> string)) option" where
  "parse_log_line line =
     (if length line < CAS_HASH_HEX + 1 then Some (Inl CAS_ERR)
      else if line ! CAS_HASH_HEX \<noteq> CHR '' '' then Some (Inl CAS_ERR)
      else (case scan_fields log_fields (drop (CAS_HASH_HEX + 1) line @ [CHR 0x00]) of
              None \<Rightarrow> None
            | Some None \<Rightarrow> Some (Inl CAS_ERR)
            | Some (Some (vs, rest)) \<Rightarrow>
                Some (Inr (take CAS_HASH_HEX line, word_of_int (vs ! 0), word_of_int (vs ! 1), c_str rest))))"

lemma next_line_shorter: "next_line p = Inr (line, r) \<Longrightarrow> length r < length p"
  by (cases p) (auto simp: next_line_def Let_def LOG_LINE_MAX_def numeral_eq_Suc split: if_splits)

text \<open>Each \<open>fgets\<close> may fail, which the loop cannot tell from the end of the file.\<close>

function log_loop :: "'c log_visitor \<Rightarrow> cas_tree \<times> 'c \<Rightarrow> string \<Rightarrow> cas_rc option \<times> cas_tree \<times> 'c" where
  "log_loop fn x p =
     (let (ok, s1) = sys_call (ct_store (fst x)); x1 = ((fst x)\<lparr>ct_store := s1\<rparr>, snd x) in
      if \<not> ok then (Some CAS_OK, x1)
      else (case next_line p of
              Inl rc \<Rightarrow> (Some rc, x1)
            | Inr (line, r) \<Rightarrow>
                (case parse_log_line line of
                   None \<Rightarrow> (None, x1)
                 | Some (Inl rc) \<Rightarrow> (Some rc, x1)
                 | Some (Inr (hash, sec, nsec, note)) \<Rightarrow>
                     let (stop, x2) = fn x1 hash sec nsec note in
                     if stop then (Some CAS_OK, x2) else log_loop fn x2 r)))"
  by pat_completeness auto
termination by (relation "measure (\<lambda>(fn, x, p). length p)") (auto dest: next_line_shorter)

declare log_loop.simps [simp del]

definition cas_tree_log_read ::
    "'c log_visitor \<Rightarrow> cas_tree \<times> 'c \<Rightarrow> string \<Rightarrow> cas_rc option \<times> cas_tree \<times> 'c" where
  "cas_tree_log_read fn x name =
     (let ct = fst x in
      if \<not> valid_ref_name name then (Some CAS_ERR, x)
      else (case ref_path (ct_store ct) name ''.log'' REF_PATH_MAX of
              None \<Rightarrow> (Some CAS_ERR, x)
            | Some path \<Rightarrow>
                let (opened, s1) = sys_call (ct_store ct); x1 = (ct\<lparr>ct_store := s1\<rparr>, snd x) in
                (case (if opened then s_files s1 path else None) of
                   None \<Rightarrow> (Some CAS_ENOTFOUND, x1)
                 | Some data \<Rightarrow> log_loop fn x1 (chars_of data))))"

end
