(* ===== verification/RefLog.thy ===== *)
theory RefLog
  imports Refs
begin

text \<open>
  Pruning the log of a reference, \<open>cas_tree_log_truncate\<close>, and iteration over the references of a depot,
  \<open>cas_tree_ref_foreach\<close>.
\<close>

section \<open>Truncation\<close>

text \<open>\<open>sscanf\<close> with \<open>"%lld"\<close> on the text after the hash.\<close>

definition log_line_time :: "string \<Rightarrow> u64 option option" where
  "log_line_time line =
     (if length line < CAS_HASH_HEX + 1 \<or> line ! CAS_HASH_HEX \<noteq> CHR '' '' then Some None
      else (case scan_int 10 (- (2 ^ 63)) (2 ^ 63 - 1) (drop (CAS_HASH_HEX + 1) line @ [CHR 0x00]) of
              None \<Rightarrow> None
            | Some None \<Rightarrow> Some None
            | Some (Some (v, _)) \<Rightarrow> Some (Some (word_of_int v))))"

text \<open>
  The lines read so far with their times; a full array is grown by two reallocations, and each line is
  duplicated.
\<close>

function slurp_loop ::
    "(string \<times> u64) list \<Rightarrow> nat \<Rightarrow> cas \<Rightarrow> string \<Rightarrow> cas_rc option \<times> (string \<times> u64) list \<times> cas" where
  "slurp_loop lines cap s p =
     (let (ok, s1) = sys_call s in
      if \<not> ok then (Some CAS_OK, lines, s1)
      else (case next_line p of
              Inl rc \<Rightarrow> (Some rc, lines, s1)
            | Inr (line, r) \<Rightarrow>
                (case log_line_time line of
                   None \<Rightarrow> (None, lines, s1)
                 | Some None \<Rightarrow> (Some CAS_ERR, lines, s1)
                 | Some (Some t) \<Rightarrow>
                     let full = (length lines = cap);
                         (ok1, s2) = (if full then sys_call s1 else (True, s1));
                         (ok2, s3) = (if full \<and> ok1 then sys_call s2 else (ok1, s2));
                         cap' = (if full then (if cap \<noteq> 0 then cap * 2 else 64) else cap);
                         (ok3, s4) = (if ok2 then sys_call s3 else (False, s3))
                     in if \<not> ok3 then (Some CAS_ENOMEM, lines, s4)
                        else slurp_loop (lines @ [(line, t)]) cap' s4 r)))"
  by pat_completeness auto
termination by (relation "measure (\<lambda>(lines, cap, s, p). length p)") (auto dest: next_line_shorter)

declare slurp_loop.simps [simp del]

definition first_by_count :: "int \<Rightarrow> nat \<Rightarrow> nat" where
  "first_by_count keep_count n =
     (if keep_count > 0 \<and> keep_count < int n then n - nat keep_count else 0)"

definition log_keeps :: "int \<Rightarrow> int \<Rightarrow> nat \<Rightarrow> nat \<Rightarrow> u64 \<Rightarrow> bool" where
  "log_keeps keep_count keep_since n i time \<longleftrightarrow>
     i + 1 = n \<or> keep_count > 0 \<and> i \<ge> first_by_count keep_count n \<or>
     keep_since > 0 \<and> sint time \<ge> keep_since"

text \<open>The lines that survive, in order.\<close>

definition kept_lines :: "int \<Rightarrow> int \<Rightarrow> (string \<times> u64) list \<Rightarrow> string list" where
  "kept_lines keep_count keep_since lines =
     map (\<lambda>(i, line, t). line)
       (filter (\<lambda>(i, line, t). log_keeps keep_count keep_since (length lines) i t) (enumerate 0 lines))"

fun write_lines :: "string \<Rightarrow> string list \<Rightarrow> cas \<Rightarrow> bool \<times> cas" where
  "write_lines path [] s = (True, s)"
| "write_lines path (line # lines) s =
     (let (ok, s1) = write_end path (bytes_of (line @ [CHR 0x0A])) 0 s in
      if \<not> ok then (False, s1) else write_lines path lines s1)"

definition rewrite_log :: "string \<Rightarrow> string \<Rightarrow> string list \<Rightarrow> cas \<Rightarrow> cas_rc \<times> cas" where
  "rewrite_log logtmp logpath kept s =
     (let (opened, s1) = open_write logtmp (sys_unlink logtmp s) in
      if \<not> opened then (CAS_EIO, s1)
      else
        let (written, s2) = write_lines logtmp kept s1;
            (flushed, s3) = (if written then sys_call s2 else (False, s2))
        in if \<not> flushed then (CAS_EIO, sys_unlink logtmp s3)
           else
             let (renamed, s4) = sys_rename logtmp logpath s3 in
             if \<not> renamed then (CAS_EIO, sys_unlink logtmp s4) else (CAS_OK, s4))"

text \<open>On success the result carries the number of entries removed.\<close>

definition cas_tree_log_truncate :: "cas_tree \<Rightarrow> string \<Rightarrow> int \<Rightarrow> int \<Rightarrow> (cas_rc + nat) option \<times> cas_tree" where
  "cas_tree_log_truncate ct name keep_count keep_since =
     (let s = ct_store ct; leave = (\<lambda>r s'. (r, ct\<lparr>ct_store := s'\<rparr>)) in
      if \<not> valid_ref_name name then (Some (Inl CAS_ERR), ct)
      else if keep_count \<le> 0 \<and> keep_since \<le> 0 then (Some (Inl CAS_ERR), ct)
      else (case (ref_path s name ''.log'' REF_PATH_MAX, ref_path s name ''.lock'' REF_PATH_MAX) of
          (Some logpath, Some lockpath) \<Rightarrow>
            let logtmp = logpath @ ''.tmp'' in
            if length logtmp \<ge> REF_PATH_MAX then (Some (Inl CAS_ERR), ct)
            else
              let (locked, s1) = lock_ref lockpath s in
              if \<not> locked then leave (Some (Inl CAS_EIO)) s1
              else
                let (opened, s2) = sys_call s1 in
                (case (if opened then s_files s2 logpath else None) of
                   None \<Rightarrow> leave (Some (Inl CAS_ENOTFOUND)) s2
                 | Some data \<Rightarrow>
                     (case slurp_loop [] 0 s2 (chars_of data) of
                        (None, lines, s3) \<Rightarrow> leave None s3
                      | (Some rc, lines, s3) \<Rightarrow>
                          if rc \<noteq> CAS_OK then leave (Some (Inl rc)) s3
                          else
                            let kept = kept_lines keep_count keep_since lines;
                                gone = length lines - length kept
                            in if gone = 0 then leave (Some (Inr 0)) s3
                               else (case rewrite_log logtmp logpath kept s3 of
                                       (rc, s4) \<Rightarrow> leave (Some (if rc = CAS_OK then Inr gone else Inl rc)) s4)))
        | _ \<Rightarrow> (Some (Inl CAS_ERR), ct)))"

section \<open>Iteration\<close>

type_synonym 'c ref_visitor = "cas_tree \<times> 'c \<Rightarrow> string \<Rightarrow> bool \<times> cas_tree \<times> 'c"

fun ref_loop :: "'c ref_visitor \<Rightarrow> string list \<Rightarrow> cas_tree \<times> 'c \<Rightarrow> cas_tree \<times> 'c" where
  "ref_loop fn [] x = x"
| "ref_loop fn (ent # ents) x =
     (let len = length ent; slen = length ''.root'' in
      if len \<le> slen then ref_loop fn ents x
      else if drop (len - slen) ent \<noteq> ''.root'' then ref_loop fn ents x
      else if len - slen \<ge> 256 then ref_loop fn ents x
      else
        let (stop, x') = fn x (take (len - slen) ent) in
        if stop then x' else ref_loop fn ents x')"

text \<open>The entries of the directory \<open>refs\<close>, unless it cannot be opened.\<close>

definition cas_tree_ref_foreach :: "string list option \<Rightarrow> 'c ref_visitor \<Rightarrow> cas_tree \<times> 'c \<Rightarrow> cas_rc \<times> cas_tree \<times> 'c" where
  "cas_tree_ref_foreach dirents fn x =
     (if length (s_basedir (ct_store (fst x)) @ ''/refs'') \<ge> REF_PATH_MAX then (CAS_ERR, x)
      else (case dirents of
              None \<Rightarrow> (CAS_OK, x)
            | Some ents \<Rightarrow> (CAS_OK, ref_loop fn ents x)))"

end
