(* ===== verification/RefInv.thy ===== *)
theory RefInv
  imports RefLog
begin

text \<open>
  What the operations on references touch, and what a commit leaves on the disk whatever fails: only the
  files of its own reference, the old root or the new one, and a log that the old log is a prefix of.
\<close>

section \<open>Touched files\<close>

named_theorems touch_intros

definition touches :: "string set \<Rightarrow> cas \<Rightarrow> cas \<Rightarrow> bool" where
  "touches P s s' \<longleftrightarrow> s_basedir s' = s_basedir s \<and> s_pack s' = s_pack s \<and> (\<forall>p. p \<notin> P \<longrightarrow> s_files s' p = s_files s p)"

lemma touches_refl [touch_intros]: "touches P s s"
  by (simp add: touches_def)

lemma touches_trans: "touches P a b \<Longrightarrow> touches P b c \<Longrightarrow> touches P a c"
  by (simp add: touches_def)

lemma touches_sys_call: "sys_call s = (ok, s') \<Longrightarrow> touches P s s' \<and> s_files s' = s_files s"
  by (auto simp: touches_def dest: sys_call_frame)

lemma touches_put [touch_intros]: "p \<in> P \<Longrightarrow> touches P s (put_file p d s)"
  by (auto simp: touches_def put_file_def)

lemma touches_drop [touch_intros]: "p \<in> P \<Longrightarrow> touches P s (drop_file p s)"
  by (auto simp: touches_def drop_file_def)

lemma s_files_put [simp]: "s_files (put_file p d s) q = (if q = p then Some d else s_files s q)"
  by (simp add: put_file_def)

lemma s_files_drop [simp]: "s_files (drop_file p s) q = (if q = p then None else s_files s q)"
  by (simp add: drop_file_def)

lemma s_sys_put [simp]: "s_sys (put_file p d s) = s_sys s" "s_sys (drop_file p s) = s_sys s"
  by (simp_all add: put_file_def drop_file_def)

lemma s_basedir_put [simp]:
  "s_basedir (put_file p d s) = s_basedir s" "s_basedir (drop_file p s) = s_basedir s"
  "s_pack (put_file p d s) = s_pack s" "s_pack (drop_file p s) = s_pack s"
  by (simp_all add: put_file_def drop_file_def)

lemma unlink_spec:
  "touches {p} s (sys_unlink p s) \<and> (\<forall>q. q \<noteq> p \<longrightarrow> s_files (sys_unlink p s) q = s_files s q)"
  by (auto simp: sys_unlink_def touches_def split: prod.splits dest: sys_call_frame)

lemma open_append_spec:
  assumes "open_append p s = (ok, s')"
  shows "touches {p} s s' \<and> (ok \<longrightarrow> s_files s' p = Some (case s_files s p of None \<Rightarrow> [] | Some d \<Rightarrow> d)) \<and>
    (\<not> ok \<longrightarrow> s_files s' = s_files s)"
  using assms by (auto simp: open_append_def touches_def split: prod.splits if_splits option.splits dest: sys_call_frame)

lemma open_write_spec:
  assumes "open_write p s = (ok, s')"
  shows "touches {p} s s' \<and> (ok \<longrightarrow> s_files s' p = Some [])"
  using assms by (auto simp: open_write_def touches_def split: prod.splits if_splits dest: sys_call_frame)

lemma write_end_spec:
  assumes "write_end p data torn s = (ok, s')" "s_files s p = Some old"
  shows "touches {p} s s' \<and> s_files s' p = Some (old @ (if ok then data else take torn data))"
  using assms by (auto simp: write_end_def touches_def Let_def split: prod.splits dest: sys_call_frame)

lemma sys_link_spec:
  assumes "sys_link a b s = (ok, s')" "s_files s a = Some d"
  shows "touches {b} s s' \<and> (ok \<longrightarrow> s_files s' b = Some d)"
  using assms by (auto simp: sys_link_def touches_def split: prod.splits if_splits option.splits dest: sys_call_frame)

lemma sys_rename_spec:
  assumes "sys_rename a b s = (ok, s')" "s_files s a = Some d"
  shows "touches {a, b} s s' \<and> (ok \<longrightarrow> s_files s' b = Some d) \<and> (\<not> ok \<longrightarrow> s_files s' = s_files s)"
  using assms by (auto simp: sys_rename_def touches_def split: prod.splits if_splits option.splits dest: sys_call_frame)

lemma touches_mono: "touches P s s' \<Longrightarrow> P \<subseteq> Q \<Longrightarrow> touches Q s s'"
  by (auto simp: touches_def)

section \<open>Paths\<close>

definition ref_file :: "string \<Rightarrow> string \<Rightarrow> string \<Rightarrow> string" where
  "ref_file base name ext = base @ ''/refs/'' @ name @ ext"

definition ref_exts :: "string set" where
  "ref_exts = {''.root'', ''.log'', ''.prev'', ''.lock'', ''.root.tmp'', ''.prev.tmp'', ''.log.tmp''}"

definition ref_files :: "string \<Rightarrow> string \<Rightarrow> string set" where
  "ref_files base name = ref_file base name ` ref_exts"

lemma ref_path_file: "ref_path s name ext n = (if length (ref_file (s_basedir s) name ext) \<ge> n then None else Some (ref_file (s_basedir s) name ext))"
  by (simp add: ref_path_def ref_file_def)

lemma ref_file_append: "ref_file base name ext @ ext' = ref_file base name (ext @ ext')"
  by (simp add: ref_file_def)

lemma ref_file_inj:
  assumes "ref_file base n e = ref_file base n' e'" "e \<in> ref_exts" "e' \<in> ref_exts"
  shows "n = n' \<and> e = e'"
proof -
  have "rev e @ rev n = rev e' @ rev n'" using arg_cong [OF assms(1), of rev] by (simp add: ref_file_def)
  then show ?thesis using assms(2,3) unfolding ref_exts_def by auto
qed

lemma ref_file_eq [simp]:
  "e \<in> ref_exts \<Longrightarrow> e' \<in> ref_exts \<Longrightarrow> ref_file base n e = ref_file base n' e' \<longleftrightarrow> n = n' \<and> e = e'"
  using ref_file_inj by blast

lemma ref_exts [simp]:
  "''.root'' \<in> ref_exts" "''.log'' \<in> ref_exts" "''.prev'' \<in> ref_exts" "''.lock'' \<in> ref_exts"
  "''.root.tmp'' \<in> ref_exts" "''.prev.tmp'' \<in> ref_exts" "''.log.tmp'' \<in> ref_exts"
  by (simp_all add: ref_exts_def)

lemma ref_files_disjoint: "n \<noteq> n' \<Longrightarrow> ref_files base n \<inter> ref_files base n' = {}"
  by (auto simp: ref_files_def)

lemma ref_file_mem [simp]: "e \<in> ref_exts \<Longrightarrow> ref_file base n e \<in> ref_files base n"
  by (simp add: ref_files_def)

text \<open>No file of a reference is the file of an object.\<close>

lemma object_path_not_ref:
  assumes "build_path s h b = Some p" "length h = CAS_HASH_HEX"
  shows "p \<notin> ref_files (s_basedir s) name"
proof
  assume "p \<in> ref_files (s_basedir s) name"
  then obtain e where "p = ref_file (s_basedir s) name e" by (auto simp: ref_files_def)
  moreover obtain x y zs where "h = x # y # zs"
    using assms(2) by (auto simp: CAS_HASH_HEX_def numeral_eq_Suc length_Suc_conv)
  ultimately show False using assms(1) by (auto simp: build_path_def ref_file_def Let_def split: if_splits)
qed

lemma touches_objects:
  assumes "touches (ref_files (s_basedir s) name) s s'"
  shows "get_object table s' h = get_object table s h"
proof (cases "valid_hash h")
  case True
  then have "length h = CAS_HASH_HEX" by (simp add: valid_hash_def)
  with assms object_path_not_ref show ?thesis by (intro get_object_cong) (auto simp: touches_def)
qed (simp add: get_object_invalid)

section \<open>A commit, whatever fails\<close>

definition log_of :: "cas \<Rightarrow> string \<Rightarrow> byte list" where
  "log_of s name = (case s_files s (ref_file (s_basedir s) name ''.log'') of None \<Rightarrow> [] | Some d \<Rightarrow> d)"

definition root_of :: "cas \<Rightarrow> string \<Rightarrow> byte list option" where
  "root_of s name = s_files s (ref_file (s_basedir s) name ''.root'')"

lemma ref_paths_Some:
  "ref_paths s name = Some (lockpath, logpath, rootpath, prevpath) \<Longrightarrow>
    lockpath = ref_file (s_basedir s) name ''.lock'' \<and> logpath = ref_file (s_basedir s) name ''.log'' \<and>
    rootpath = ref_file (s_basedir s) name ''.root'' \<and> prevpath = ref_file (s_basedir s) name ''.prev''"
  by (auto simp: ref_paths_def ref_path_file bind_eq_Some_conv split: if_splits)

lemma lock_ref_spec:
  assumes "lock_ref p s = (ok, s')"
  shows "touches {p} s s'"
proof -
  obtain ok1 s1 where o: "open_append p s = (ok1, s1)" by fastforce
  with assms open_append_spec [OF o] touches_sys_call [of s1 ok s' "{p}"] touches_trans show ?thesis
    by (auto simp: lock_ref_def touches_refl split: if_splits)
qed

lemma append_log_spec:
  assumes "append_log p line torn s = (ok, s')"
  shows "touches {p} s s' \<and> (s_files s' p = s_files s p \<and> \<not> ok \<or>
    s_files s' p = Some ((case s_files s p of None \<Rightarrow> [] | Some d \<Rightarrow> d) @ (if ok then bytes_of line else take torn (bytes_of line))))"
proof -
  obtain ok1 s1 where o: "open_append p s = (ok1, s1)" by fastforce
  note o = o open_append_spec [OF o]
  show ?thesis
  proof (cases ok1)
    case False
    with assms o show ?thesis by (auto simp: append_log_def)
  next
    case True
    then have "write_end p (bytes_of line) torn s1 = (ok, s')" using assms o(1) by (simp add: append_log_def)
    with write_end_spec [OF this] o True touches_trans show ?thesis by auto
  qed
qed

lemma keep_previous_spec:
  assumes "r \<noteq> v @ ''.tmp''"
  shows "touches {v, v @ ''.tmp''} s (keep_previous r v s)"
proof (cases "s_files s r")
  case None
  then show ?thesis by (simp add: keep_previous_def touches_refl)
next
  case (Some d0)
  let ?t = "v @ ''.tmp''"
  let ?s1 = "sys_unlink ?t s"
  show ?thesis
  proof (cases "r = ?t")
    case False
    then have k: "s_files ?s1 r = Some d0" using unlink_spec [of ?t s] Some by simp
    have u: "touches {v, ?t} s ?s1" using unlink_spec [of ?t s] touches_mono [of "{?t}" s ?s1 "{v, ?t}"] by simp
    obtain ok s2 where l: "sys_link r ?t ?s1 = (ok, s2)" by fastforce
    note ls = sys_link_spec [OF l k]
    have t: "touches {v, ?t} s s2" using ls touches_mono [of "{?t}" ?s1 s2 "{v, ?t}"] touches_trans [OF u] by simp
    obtain ok3 s3 where rn: "sys_rename ?t v s2 = (ok3, s3)" by fastforce
    have "touches {v, ?t} s s3" if "ok"
    proof -
      have "s_files s2 ?t = Some d0" using ls that by simp
      from sys_rename_spec [OF rn this] have "touches {v, ?t} s2 s3" by (simp add: insert_commute)
      with t show ?thesis by (rule touches_trans)
    qed
    with t u Some l rn show ?thesis by (auto simp: keep_previous_def touches_refl Let_def)
  qed (use assms in simp)
qed

lemma write_root_spec:
  assumes "write_root t r h torn s = (rc, s')" "t \<noteq> r"
  shows "touches {t, r} s s' \<and> (rc = CAS_OK \<longrightarrow> s_files s' r = Some (bytes_of (h @ [CHR 0x0A]))) \<and>
    (rc \<noteq> CAS_OK \<longrightarrow> s_files s' r = s_files s r)"
proof -
  have one: "touches {t, r} a b" if "touches {t} a b" for a b using that touches_mono [of "{t}" a b "{t, r}"] by simp
  have keep: "s_files b r = s_files a r" if "touches {t} a b" for a b using that assms(2) by (simp add: touches_def)
  obtain ok1 s1 where o: "open_write t s = (ok1, s1)" by fastforce
  note os = open_write_spec [OF o]
  obtain ok2 s2 where w: "write_end t (bytes_of (h @ [CHR 0x0A])) torn s1 = (ok2, s2)" by fastforce
  obtain ok3 s3 where rn: "sys_rename t r s2 = (ok3, s3)" by fastforce
  note un = unlink_spec [THEN conjunct1, of t]
  have a1: "touches {t, r} s s1" "s_files s1 r = s_files s r" using os one keep by auto
  show ?thesis
  proof (cases ok1)
    case False
    with assms(1) o a1 show ?thesis by (auto simp: write_root_def)
  next
    case True
    then have ws: "touches {t} s1 s2" "s_files s2 t = Some (if ok2 then bytes_of (h @ [CHR 0x0A]) else take torn (bytes_of (h @ [CHR 0x0A])))"
      using write_end_spec [OF w, of "[]"] os by simp_all
    have a2: "touches {t, r} s s2" "s_files s2 r = s_files s r"
      using touches_trans [OF a1(1) one [OF ws(1)]] keep [OF ws(1)] a1(2) by simp_all
    show ?thesis
    proof (cases ok2)
      case False
      with True assms(1) o w have e: "rc = CAS_EIO" "s' = sys_unlink t s2" by (simp_all add: write_root_def)
      show ?thesis using touches_trans [OF a2(1) one [OF un]] keep [OF un] a2(2) unfolding e by simp
    next
      case t2: True
      note rs = sys_rename_spec [OF rn] ws(2)
      show ?thesis
      proof (cases ok3)
        case False
        with True t2 assms(1) o w rn have e: "rc = CAS_EIO" "s' = sys_unlink t s3" by (simp_all add: write_root_def)
        have a3: "touches {t, r} s s3" "s_files s3 r = s_files s r" using rs t2 False a2 touches_trans by auto
        show ?thesis using touches_trans [OF a3(1) one [OF un]] keep [OF un] a3(2) unfolding e by simp
      next
        case t3: True
        with True t2 assms(1) o w rn have e: "rc = CAS_OK" "s' = s3" by (simp_all add: write_root_def)
        with rs t2 t3 a2 touches_trans show ?thesis by auto
      qed
    qed
  qed
qed

lemma ensure_refs_dir_spec: "ensure_refs_dir s = (rc, s') \<Longrightarrow> touches P s s' \<and> s_files s' = s_files s"
  by (auto simp: ensure_refs_dir_def touches_refl split: if_splits prod.splits dest: touches_sys_call)

lemma commit_stage:
  assumes "touches (ref_files base name) s s'" "s_basedir s = base"
    and "touches {ref_file base name e} s' s''" "e \<in> ref_exts"
  shows "touches (ref_files base name) s s'' \<and> (\<forall>e' \<in> ref_exts. e' \<noteq> e \<longrightarrow>
    s_files s'' (ref_file base name e') = s_files s' (ref_file base name e'))"
proof
  have "touches (ref_files base name) s' s''" using assms(3,4) touches_mono [OF assms(3)] by simp
  with assms(1) show "touches (ref_files base name) s s''" by (rule touches_trans)
  show "\<forall>e' \<in> ref_exts. e' \<noteq> e \<longrightarrow> s_files s'' (ref_file base name e') = s_files s' (ref_file base name e')"
    using assms(3,4) by (simp add: touches_def)
qed

text \<open>What a commit does to the root and the log of its reference, as a relation between disks.\<close>

definition commit_effect :: "string \<Rightarrow> byte list \<Rightarrow> byte list \<Rightarrow> cas_rc \<Rightarrow> cas \<Rightarrow> cas \<Rightarrow> bool" where
  "commit_effect name root line rc s s' \<longleftrightarrow> touches (ref_files (s_basedir s) name) s s' \<and>
    (rc = CAS_OK \<longrightarrow> root_of s' name = Some root \<and> log_of s' name = log_of s name @ line) \<and>
    (rc \<noteq> CAS_OK \<longrightarrow> root_of s' name = root_of s name \<and> (\<exists>k. log_of s' name = log_of s name @ take k line))"

lemma commit_effect_quiet:
  assumes "rc \<noteq> CAS_OK" "touches (ref_files (s_basedir s) name) s s'"
    "s_files s' (ref_file (s_basedir s) name ''.root'') = s_files s (ref_file (s_basedir s) name ''.root'')"
    "s_files s' (ref_file (s_basedir s) name ''.log'') = s_files s (ref_file (s_basedir s) name ''.log'')"
  shows "commit_effect name root line rc s s'"
  using assms by (auto simp: commit_effect_def root_of_def log_of_def touches_def intro: exI [of _ 0])

lemma commit_effect_from:
  assumes "commit_effect name root line rc s1 s'" "touches (ref_files (s_basedir s) name) s s1"
    "s_files s1 (ref_file (s_basedir s) name ''.root'') = s_files s (ref_file (s_basedir s) name ''.root'')"
    "s_files s1 (ref_file (s_basedir s) name ''.log'') = s_files s (ref_file (s_basedir s) name ''.log'')"
  shows "commit_effect name root line rc s s'"
proof -
  have b: "s_basedir s1 = s_basedir s" using assms(2) by (simp add: touches_def)
  then have "root_of s1 name = root_of s name" "log_of s1 name = log_of s name"
    using assms(3,4) by (simp_all add: root_of_def log_of_def)
  moreover have "touches (ref_files (s_basedir s) name) s s'"
    using assms(1,2) b touches_trans by (metis commit_effect_def)
  ultimately show ?thesis using assms(1) by (simp add: commit_effect_def)
qed

text \<open>The part of a commit that runs under the lock.\<close>

lemma locked_commit_effect:
  fixes s name h line torn
  defines "f \<equiv> ref_file (s_basedir s) name" and "s1 \<equiv> sys_unlink (ref_file (s_basedir s) name ''.root.tmp'') s"
  assumes "append_log (f ''.log'') line torn s1 = (logged, s2)"
    and "(if \<not> logged then (CAS_EIO, s2)
      else write_root (f ''.root.tmp'') (f ''.root'') h torn (keep_previous (f ''.root'') (f ''.prev'') s2)) = (rc, s')"
  shows "commit_effect name (bytes_of (h @ [CHR 0x0A])) (bytes_of line) rc s s'"
proof -
  let ?F = "ref_files (s_basedir s) name"
  note st = commit_stage [where base = "s_basedir s" and name = name and s = s, OF _ refl, folded f_def]
  have "touches {f ''.root.tmp''} s s1" using unlink_spec unfolding s1_def f_def by blast
  note u = st [OF touches_refl this, simplified]
  note al = append_log_spec [OF assms(3)]
  have tl: "touches ?F s s2" and rt: "s_files s2 (f ''.root'') = s_files s (f ''.root'')"
    using st [OF u [THEN conjunct1] al [THEN conjunct1]] u by simp_all
  have "s_files s1 (f ''.log'') = s_files s (f ''.log'')" using u by simp
  with al have lo: "s_files s2 (f ''.log'') = s_files s (f ''.log'') \<and> \<not> logged \<or>
      s_files s2 (f ''.log'') = Some (log_of s name @ (if logged then bytes_of line else take torn (bytes_of line)))"
    by (simp add: log_of_def f_def)
  have b2: "s_basedir s2 = s_basedir s" using tl by (simp add: touches_def)
  show ?thesis
  proof (cases logged)
    case False
    then have e: "rc = CAS_EIO" "s' = s2" using assms(4) by simp_all
    from lo False have "\<exists>k. log_of s2 name = log_of s name @ take k (bytes_of line)"
      using b2 by (auto simp: log_of_def f_def intro: exI [of _ 0])
    with e rt tl b2 show ?thesis by (simp add: commit_effect_def root_of_def f_def)
  next
    case True
    let ?s3 = "keep_previous (f ''.root'') (f ''.prev'') s2"
    have "f ''.prev'' @ ''.tmp'' = f ''.prev.tmp''" by (simp add: f_def ref_file_def)
    then have kp: "touches {f ''.prev'', f ''.prev.tmp''} s2 ?s3"
      using keep_previous_spec [of "f ''.root''" "f ''.prev''" s2] by (simp add: f_def)
    have t3: "touches ?F s ?s3" using touches_trans [OF tl touches_mono [OF kp]] by (simp add: f_def)
    have f3: "s_files ?s3 (f ''.log'') = Some (log_of s name @ bytes_of line)"
      using kp lo True by (simp add: touches_def f_def)
    have w: "write_root (f ''.root.tmp'') (f ''.root'') h torn ?s3 = (rc, s')" using assms(4) True by simp
    have r3: "s_files ?s3 (f ''.root'') = s_files s (f ''.root'')" using kp rt by (simp add: touches_def f_def)
    have "f ''.root.tmp'' \<noteq> f ''.root''" by (simp add: f_def)
    note ws = write_root_spec [OF w this]
    have t4: "touches ?F s s'" using touches_trans [OF t3 touches_mono [OF ws [THEN conjunct1]]] by (simp add: f_def)
    have "s_files s' (f ''.log'') = Some (log_of s name @ bytes_of line)" using ws f3 by (simp add: touches_def f_def)
    moreover have "s_basedir s' = s_basedir s" using t4 by (simp add: touches_def)
    ultimately show ?thesis using t4 ws r3
      by (auto simp: commit_effect_def root_of_def log_of_def f_def intro: exI [of _ "length line"])
  qed
qed

text \<open>
  The outcome of a commit for every sequence of failures: the root is the old one or the new one, and the
  new one only after its line is in the log; nothing outside the reference changes.
\<close>

lemma ref_commit_outcome:
  assumes run: "cas_tree_ref_commit torn sec nsec ct name h note = (rc, ct')"
  defines "line \<equiv> log_line h sec nsec (case note of None \<Rightarrow> '''' | Some c \<Rightarrow> c)"
  shows "commit_effect name (bytes_of (h @ [CHR 0x0A])) (bytes_of line) rc (ct_store ct) (ct_store ct')"
proof -
  define s where "s = ct_store ct"
  let ?f = "ref_file (s_basedir s) name"
  obtain drc s1 where d: "ensure_refs_dir s = (drc, s1)" by fastforce
  note ds = ensure_refs_dir_spec [OF d]
  have b1: "s_basedir s1 = s_basedir s" using ds by (simp add: touches_def)
  note run = run [unfolded cas_tree_ref_commit_def s_def [symmetric] d prod.case Let_def line_def [symmetric]]
  have quiet: ?thesis if "rc \<noteq> CAS_OK" "ct_store ct' = s \<or> ct_store ct' = s1"
    using that ds unfolding s_def [symmetric] by (auto intro!: commit_effect_quiet simp: touches_refl)
  show ?thesis
  proof (cases "valid_ref_name name \<and> valid_hex_hash h \<and> drc = CAS_OK \<and> (\<exists>p. ref_paths s1 name = Some p) \<and>
      length (?f ''.root.tmp'') < REF_PATH_MAX")
    case False
    moreover have "?f ''.root.tmp'' = ?f ''.root'' @ ''.tmp''" by (simp add: ref_file_def)
    ultimately show ?thesis using run ref_paths_Some [of s1 name] b1
      by (intro quiet) (auto simp: s_def split: if_splits option.splits)
  next
    case True
    then have rp: "ref_paths s1 name = Some (?f ''.lock'', ?f ''.log'', ?f ''.root'', ?f ''.prev'')"
      using ref_paths_Some [of s1 name] b1 by fastforce
    have tmp: "?f ''.root'' @ ''.tmp'' = ?f ''.root.tmp''" by (simp add: ref_file_def)
    have len: "\<not> REF_PATH_MAX \<le> Suc (Suc (Suc (Suc (length (?f ''.root'')))))" using True by (simp add: ref_file_def)
    obtain locked s2 where lk: "lock_ref (?f ''.lock'') s1 = (locked, s2)" by fastforce
    have l2: "touches (ref_files (s_basedir s) name) s s2 \<and> (\<forall>e' \<in> ref_exts. e' \<noteq> ''.lock'' \<longrightarrow> s_files s2 (?f e') = s_files s (?f e'))"
      using commit_stage [where s = s and name = name, OF _ refl lock_ref_spec [OF lk]] ds by simp
    have b2: "s_basedir s2 = s_basedir s" using l2 by (simp add: touches_def)
    obtain logged s4 where lg: "append_log (?f ''.log'') line torn (sys_unlink (?f ''.root.tmp'') s2) = (logged, s4)" by fastforce
    show ?thesis
    proof (cases locked)
      case False
      then have "rc = CAS_EIO \<and> ct_store ct' = s2" using run True rp lk len by (auto simp: tmp)
      with l2 show ?thesis unfolding s_def [symmetric] by (intro commit_effect_quiet) simp_all
    next
      case locked: True
      let ?rest = "if \<not> logged then (CAS_EIO, s4)
        else write_root (?f ''.root.tmp'') (?f ''.root'') h torn (keep_previous (?f ''.root'') (?f ''.prev'') s4)"
      obtain r0 s0 where r0: "?rest = (r0, s0)" by fastforce
      have "(case ?rest of (r, s') \<Rightarrow> (r, ct\<lparr>ct_store := s'\<rparr>)) = (rc, ct')"
        using run True rp lk locked lg len by (cases logged) (simp_all add: tmp)
      then have "?rest = (rc, ct_store ct')" unfolding r0 by auto
      from locked_commit_effect [of s2 name, unfolded b2, OF lg this]
      show ?thesis unfolding s_def [symmetric] by (rule commit_effect_from) (use l2 in simp_all)
    qed
  qed
qed

end
