(* ===== verification/RefHistory.thy ===== *)
theory RefHistory
  imports RefInv
begin

text \<open>
  The log of a reference as the history it stands for: a file written entry by entry is read back entry
  by entry, and pruning keeps the entries it promises to keep, in order, the newest among them.
\<close>

section \<open>Entries\<close>

type_synonym log_entry = "string \<times> u64 \<times> u32 \<times> string"

definition entry_body :: "log_entry \<Rightarrow> string" where
  "entry_body e = (case e of (h, t, n, c) \<Rightarrow> h @ '' '' @ int_dec (sint t) @ '' '' @ int_dec (sint n) @ '' '' @ c)"

definition log_text :: "log_entry list \<Rightarrow> string" where
  "log_text es = concat (map (\<lambda>e. entry_body e @ [CHR 0x0A]) es)"

text \<open>
  An entry the log can hold: a hash, a comment on one line that does not begin with white space, and
  a line that fits the buffer of the readers.
\<close>

definition log_entry_ok :: "log_entry \<Rightarrow> bool" where
  "log_entry_ok e \<longleftrightarrow> (case e of (h, t, n, c) \<Rightarrow> valid_hex_hash h \<and> CHR 0x0A \<notin> set c \<and> CHR 0x00 \<notin> set c \<and>
     (c = [] \<or> \<not> is_space (hd c)) \<and> length (entry_body e) < LOG_LINE_MAX - 1)"

lemma log_line_body: "log_line h t n c = entry_body (h, t, n, c) @ [CHR 0x0A]"
  by (simp add: log_line_def entry_body_def)

lemma log_text_simps [simp]:
  "log_text [] = []" "log_text (e # es) = entry_body e @ CHR 0x0A # log_text es"
  "log_text (es @ fs) = log_text es @ log_text fs"
  by (simp_all add: log_text_def)

lemma hex_hash_valid: "valid_hex_hash h \<longleftrightarrow> valid_hash h"
  by (simp add: valid_hex_hash_def valid_hash_def)

lemma valid_hash_plain: "valid_hash h \<Longrightarrow> c \<in> set h \<Longrightarrow> c \<noteq> CHR 0x0A \<and> c \<noteq> CHR 0x00 \<and> \<not> is_space c"
  by (auto simp: valid_hash_def list_all_iff between_def is_space_def ascii_def)

lemma int_dec_plain: "c \<in> set (int_dec i) \<Longrightarrow> c \<noteq> CHR 0x0A \<and> c \<noteq> CHR 0x00"
  by (auto simp: int_dec_def digit_in_def ascii_def split: if_splits dest!: decimal_digit_in)

lemma entry_body_plain:
  assumes "log_entry_ok e" "c \<in> set (entry_body e)"
  shows "c \<noteq> CHR 0x0A \<and> c \<noteq> CHR 0x00"
  using assms valid_hash_plain int_dec_plain
  by (auto simp: log_entry_ok_def entry_body_def hex_hash_valid split: prod.splits)

lemma line_of_line: "CHR 0x0A \<notin> set l \<Longrightarrow> length l < k \<Longrightarrow> line_of k (l @ CHR 0x0A # r) = l @ [CHR 0x0A]"
proof (induction l arbitrary: k)
  case Nil
  then show ?case by (cases k) auto
next
  case (Cons c l)
  then show ?case by (cases k) auto
qed

lemma next_line_line:
  assumes "CHR 0x0A \<notin> set l" "CHR 0x00 \<notin> set l" "length l < LOG_LINE_MAX - 1"
  shows "next_line (l @ CHR 0x0A # r) = Inr (l, r)"
proof -
  have "line_of (LOG_LINE_MAX - 1) (l @ CHR 0x0A # r) = l @ [CHR 0x0A]" using assms(1,3) by (rule line_of_line)
  moreover have "c_str (l @ [CHR 0x0A]) = l @ [CHR 0x0A]" using assms(2) by (auto simp: c_str_def)
  ultimately show ?thesis by (simp add: next_line_def)
qed

lemma next_line_entry: "log_entry_ok e \<Longrightarrow> next_line (entry_body e @ CHR 0x0A # r) = Inr (entry_body e, r)"
proof (rule next_line_line)
  assume ok: "log_entry_ok e"
  show "CHR 0x0A \<notin> set (entry_body e)" "CHR 0x00 \<notin> set (entry_body e)" using entry_body_plain [OF ok] by blast+
  show "length (entry_body e) < LOG_LINE_MAX - 1" using ok by (auto simp: log_entry_ok_def)
qed

lemma next_line_end [simp]: "next_line [] = Inl CAS_OK"
  by (simp add: next_line_def)

lemma parse_log_entry:
  assumes "log_entry_ok e"
  shows "parse_log_line (entry_body e) = Some (Inr e)" "log_line_time (entry_body e) = Some (Some (fst (snd e)))"
proof -
  obtain h t n c where e: "e = (h, t, n, c)" by (cases e)
  have l: "length h = CAS_HASH_HEX" using assms by (simp add: e log_entry_ok_def valid_hex_hash_def split: if_splits)
  have b: "entry_body e = h @ CHR '' '' # int_dec (sint t) @ CHR '' '' # int_dec (sint n) @ CHR '' '' # c"
    by (simp add: e entry_body_def)
  have sp: "\<not> digit_in 10 (CHR '' '')" by (simp add: digit_in_def ascii_def)
  have rt: "- (2 ^ 63) \<le> sint t" "sint t \<le> 2 ^ 63 - 1" using sint_range_size [of t] by (simp_all add: word_size)
  have rn: "- (2 ^ 31) \<le> sint n" "sint n \<le> 2 ^ 31 - 1" using sint_range_size [of n] by (simp_all add: word_size)
  have st: "scan_int 10 (- (2 ^ 63)) (2 ^ 63 - 1) (int_dec (sint t) @ CHR '' '' # r) = Some (Some (sint t, CHR '' '' # r))" for r
    using int_dec_hd [of "sint t"] by (intro scan_int_dec [OF _ sp rt]) (simp add: skip_space_hd)
  have sn: "scan_int 10 (- (2 ^ 31)) (2 ^ 31 - 1) (CHR '' '' # int_dec (sint n) @ CHR '' '' # r) = Some (Some (sint n, CHR '' '' # r))" for r
    by (rule scan_int_dec [OF skip_one sp rn])
  have sk: "skip_space (CHR '' '' # c @ [CHR 0x00]) = Some (c @ [CHR 0x00])"
    using assms by (cases c) (auto simp: e log_entry_ok_def is_space_def ascii_def)
  have isp: "is_space (CHR '' '')" by (simp add: is_space_def ascii_def)
  then have sk': "skip_space (c @ [CHR 0x00]) = Some (c @ [CHR 0x00])" using sk by simp
  have "c_str (c @ [CHR 0x00]) = c" using assms by (subst c_str_def, subst takeWhile_append2) (auto simp: e log_entry_ok_def)
  moreover have "scan_fields log_fields (int_dec (sint t) @ CHR '' '' # int_dec (sint n) @ CHR '' '' # c @ [CHR 0x00])
      = Some (Some ([sint t, sint n], c @ [CHR 0x00]))"
    by (simp add: log_fields_def st sn isp sk' del: power_numeral)
  ultimately show "parse_log_line (entry_body e) = Some (Inr e)"
    using l by (simp add: parse_log_line_def b nth_append) (simp add: e)
  show "log_line_time (entry_body e) = Some (Some (fst (snd e)))"
    using l by (simp add: log_line_time_def b st nth_append del: power_numeral) (simp add: e)
qed

section \<open>Reading the log\<close>

fun visit_entries :: "'c log_visitor \<Rightarrow> cas_tree \<times> 'c \<Rightarrow> log_entry list \<Rightarrow> cas_tree \<times> 'c" where
  "visit_entries fn x [] = x"
| "visit_entries fn x ((h, t, n, c) # es) =
     (let (stop, x') = fn x h t n c in if stop then x' else visit_entries fn x' es)"

definition quiet :: "cas_tree \<Rightarrow> bool" where
  "quiet ct \<longleftrightarrow> s_sys (ct_store ct) = []"

lemma log_loop_text:
  assumes "quiet (fst x)" "list_all log_entry_ok es"
    and fn: "\<And>x h t n c. quiet (fst x) \<Longrightarrow> quiet (fst (snd (fn x h t n c)))"
  shows "log_loop fn x (log_text es) = (Some CAS_OK, visit_entries fn x es)"
  using assms(1,2)
proof (induction es arbitrary: x)
  case Nil
  then show ?case by (subst log_loop.simps) (simp add: quiet_def)
next
  case (Cons e es)
  obtain h t n c where e: "e = (h, t, n, c)" by (cases e)
  have ok: "log_entry_ok e" using Cons.prems(2) by simp
  obtain stop x' where f: "fn x h t n c = (stop, x')" by (cases "fn x h t n c")
  then have "quiet (fst x')" using fn [OF Cons.prems(1), of h t n c] by simp
  with Cons.IH [of x'] Cons.prems have ih: "log_loop fn x' (log_text es) = (Some CAS_OK, visit_entries fn x' es)" by simp
  show ?case using Cons.prems(1) next_line_entry [OF ok] parse_log_entry(1) [OF ok] f ih
    by (subst log_loop.simps) (simp add: quiet_def e)
qed

section \<open>Pruning\<close>

definition stamped :: "log_entry \<Rightarrow> string \<times> u64" where
  "stamped e = (entry_body e, fst (snd e))"

lemma slurp_text:
  assumes "s_sys s = []" "list_all log_entry_ok es"
  shows "slurp_loop lines cap s (log_text es) = (Some CAS_OK, lines @ map stamped es, s)"
  using assms(2)
proof (induction es arbitrary: lines cap)
  case Nil
  then show ?case using assms(1) by (subst slurp_loop.simps) simp
next
  case (Cons e es)
  then have ok: "log_entry_ok e" by simp
  show ?case using Cons assms(1) next_line_entry [OF ok] parse_log_entry(2) [OF ok]
    by (subst slurp_loop.simps) (simp add: stamped_def Let_def)
qed

definition kept_entries :: "int \<Rightarrow> int \<Rightarrow> log_entry list \<Rightarrow> log_entry list" where
  "kept_entries keep_count keep_since es =
     map snd (filter (\<lambda>(i, e). log_keeps keep_count keep_since (length es) i (fst (snd e))) (enumerate 0 es))"

lemma kept_lines_entries:
  "kept_lines kc ks (map stamped es) = map entry_body (kept_entries kc ks es)"
proof -
  have "enumerate k (map stamped es) = map (\<lambda>(i, e). (i, stamped e)) (enumerate k es)" for k
    by (induction es arbitrary: k) simp_all
  then show ?thesis
    by (simp add: kept_lines_def kept_entries_def filter_map comp_def split_def stamped_def)
qed

lemma kept_entries_length: "length (kept_entries kc ks es) \<le> length es"
  using length_filter_le by (metis (no_types, lifting) kept_entries_def length_enumerate length_map)

lemma kept_entries_all:
  assumes "length (kept_entries kc ks es) = length es"
  shows "kept_entries kc ks es = es"
proof -
  let ?P = "\<lambda>(i, e). log_keeps kc ks (length es) i (fst (snd e))"
  have "filter ?P (enumerate 0 es) = enumerate 0 es"
  proof (rule filter_True, rule ballI, rule ccontr)
    fix x
    assume "x \<in> set (enumerate 0 es)" "\<not> ?P x"
    then have "length (filter ?P (enumerate 0 es)) < length (enumerate 0 es)" by (rule length_filter_less)
    with assms show False by (simp add: kept_entries_def)
  qed
  then show ?thesis by (simp add: kept_entries_def)
qed

text \<open>The kept entries by their positions.\<close>

lemma by_count: "i < n \<Longrightarrow> 0 < kc \<Longrightarrow> first_by_count kc n \<le> i \<longleftrightarrow> int (n - i) \<le> kc"
  by (auto simp: first_by_count_def)

lemma kept_entries_spec:
  "kept_entries kc ks es = map (\<lambda>i. es ! i) (filter (\<lambda>i. Suc i = length es \<or> 0 < kc \<and> int (length es - i) \<le> kc \<or>
     0 < ks \<and> ks \<le> sint (fst (snd (es ! i)))) [0..<length es])"
proof -
  have "enumerate 0 es = map (\<lambda>i. (i, es ! i)) [0..<length es]"
    by (rule nth_equalityI) (simp_all add: nth_enumerate_eq)
  then show ?thesis
    by (auto simp: kept_entries_def filter_map comp_def log_keeps_def by_count intro!: map_cong filter_cong)
qed

lemma last_filtered:
  assumes "es \<noteq> []" "\<And>i. Suc i = length es \<Longrightarrow> P i"
  shows "map (\<lambda>i. es ! i) (filter P [0..<length es]) \<noteq> [] \<and> last (map (\<lambda>i. es ! i) (filter P [0..<length es])) = last es"
proof -
  obtain n where n: "length es = Suc n" using assms(1) by (cases es) auto
  then have "filter P [0..<length es] = filter P [0..<n] @ [n]" using assms(2) [of n] by simp
  then show ?thesis using n assms(1) by (simp add: last_conv_nth)
qed

end
