(* ===== verification/RefProgress.thy ===== *)
theory RefProgress
  imports RefHistory
begin

text \<open>
  The operations on references when nothing fails: a commit succeeds and is read back, the previous root is
  kept, and pruning rewrites the log to exactly the entries it keeps.
\<close>

section \<open>File operations that succeed\<close>

lemma quiet_unlink [simp]: "s_sys s = [] \<Longrightarrow> sys_unlink p s = drop_file p s"
  by (simp add: sys_unlink_def)

lemma quiet_append [simp]:
  "s_sys s = [] \<Longrightarrow> open_append p s = (True, if s_files s p = None then put_file p [] s else s)"
  by (simp add: open_append_def)

lemma quiet_write [simp]: "s_sys s = [] \<Longrightarrow> open_write p s = (True, put_file p [] s)"
  by (simp add: open_write_def)

lemma quiet_write_end [simp]:
  "s_sys s = [] \<Longrightarrow> write_end p data torn s =
    (True, put_file p ((case s_files s p of None \<Rightarrow> [] | Some d \<Rightarrow> d) @ data) s)"
  by (simp add: write_end_def Let_def)

lemma quiet_link [simp]:
  "s_sys s = [] \<Longrightarrow> s_files s a = Some d \<Longrightarrow> s_files s b = None \<Longrightarrow> sys_link a b s = (True, put_file b d s)"
  by (simp add: sys_link_def)

lemma quiet_rename [simp]:
  "s_sys s = [] \<Longrightarrow> s_files s a = Some d \<Longrightarrow> sys_rename a b s = (True, put_file b d (drop_file a s))"
  by (simp add: sys_rename_def)

lemma ref_path_ok:
  assumes "length (s_basedir s) \<le> 200" "valid_ref_name name" "e \<in> ref_exts"
  shows "length (ref_file (s_basedir s) name e) < REF_PATH_MAX" "length (s_basedir s @ ''/refs'') < REF_PATH_MAX"
proof -
  have "length name \<le> 255" using assms(2) by (auto simp: valid_ref_name_def Let_def split: if_splits)
  moreover have "length e \<le> 9" using assms(3) by (auto simp: ref_exts_def)
  ultimately show "length (ref_file (s_basedir s) name e) < REF_PATH_MAX" "length (s_basedir s @ ''/refs'') < REF_PATH_MAX"
    using assms(1) by (simp_all add: ref_file_def REF_PATH_MAX_def)
qed

lemma ref_path_some:
  assumes "length (s_basedir s) \<le> 200" "valid_ref_name name" "e \<in> ref_exts"
  shows "ref_path s name e REF_PATH_MAX = Some (ref_file (s_basedir s) name e)"
  using ref_path_ok(1) [OF assms] by (simp add: ref_path_file)

section \<open>Committing\<close>

lemma lock_ref_ok:
  "s_sys s = [] \<Longrightarrow> \<exists>s'. lock_ref p s = (True, s') \<and> s_sys s' = [] \<and> touches {p} s s'"
  by (auto simp: lock_ref_def touches_def)

lemma append_log_ok:
  "s_sys s = [] \<Longrightarrow> \<exists>s'. append_log p line torn s = (True, s') \<and> s_sys s' = []"
  by (auto simp: append_log_def)

lemma keep_previous_ok:
  assumes "s_sys s = []" "v @ ''.tmp'' \<noteq> r"
  shows "s_sys (keep_previous r v s) = [] \<and>
    (s_files s r = Some d \<longrightarrow> length (v @ ''.tmp'') < REF_PATH_MAX \<longrightarrow> s_files (keep_previous r v s) v = Some d)"
  using assms by (auto simp: keep_previous_def Let_def)

lemma write_root_ok:
  "s_sys s = [] \<Longrightarrow> \<exists>s'. write_root t r h torn s = (CAS_OK, s') \<and> s_sys s' = []"
  by (simp add: write_root_def)

lemma ref_commit_ok:
  assumes "quiet ct" "length (s_basedir (ct_store ct)) \<le> 200" "valid_ref_name name" "valid_hex_hash h"
  shows "\<exists>ct'. cas_tree_ref_commit torn sec nsec ct name h note = (CAS_OK, ct') \<and> quiet ct'"
proof -
  let ?s = "ct_store ct" and ?f = "ref_file (s_basedir (ct_store ct)) name"
  note len = ref_path_ok [OF assms(2,3)]
  have d: "ensure_refs_dir ?s = (CAS_OK, ?s)" using assms(1) len(2) [of "''.root''"] by (simp add: ensure_refs_dir_def quiet_def)
  have rp: "ref_paths ?s name = Some (?f ''.lock'', ?f ''.log'', ?f ''.root'', ?f ''.prev'')"
    using ref_path_some [OF assms(2,3)] by (simp add: ref_paths_def)
  have tmp: "\<not> REF_PATH_MAX \<le> length (?f ''.root'' @ ''.tmp'')"
    using len(1) [of "''.root.tmp''"] by (simp add: ref_file_def)
  obtain s2 where l: "lock_ref (?f ''.lock'') ?s = (True, s2)" "s_sys s2 = []"
    using lock_ref_ok assms(1) unfolding quiet_def by blast
  let ?line = "log_line h sec nsec (case note of None \<Rightarrow> '''' | Some c \<Rightarrow> c)"
  let ?s3 = "sys_unlink (?f ''.root'' @ ''.tmp'') s2"
  obtain s4 where a: "append_log (?f ''.log'') ?line torn ?s3 = (True, s4)" "s_sys s4 = []"
    using append_log_ok [of ?s3 "?f ''.log''" ?line torn] l(2) by auto
  have "?f ''.prev'' @ ''.tmp'' \<noteq> ?f ''.root''" using ref_file_eq [of "''.prev.tmp''" "''.root''"] by (simp add: ref_file_def)
  then have k: "s_sys (keep_previous (?f ''.root'') (?f ''.prev'') s4) = []" using keep_previous_ok [OF a(2)] by blast
  obtain s6 where w: "write_root (?f ''.root'' @ ''.tmp'') (?f ''.root'') h torn (keep_previous (?f ''.root'') (?f ''.prev'') s4) = (CAS_OK, s6)"
    "s_sys s6 = []" using write_root_ok [OF k] by blast
  show ?thesis
    using assms(3,4) d rp l a w tmp by (simp add: cas_tree_ref_commit_def Let_def quiet_def del: length_append)
qed

text \<open>What reading finds after a commit.\<close>

definition has_log :: "cas \<Rightarrow> string \<Rightarrow> log_entry list \<Rightarrow> bool" where
  "has_log s name es \<longleftrightarrow> s_files s (ref_file (s_basedir s) name ''.log'') = Some (bytes_of (log_text es)) \<and>
     list_all log_entry_ok es"

lemma line_of_exact: "CHR 0x0A \<notin> set l \<Longrightarrow> line_of (length l + 1) (l @ [CHR 0x0A]) = l @ [CHR 0x0A]"
  by (rule line_of_line) simp_all

lemma ref_read_root:
  assumes "quiet ct" "length (s_basedir (ct_store ct)) \<le> 200" "valid_ref_name name" "valid_hex_hash h"
    and "root_of (ct_store ct) name = Some (bytes_of (h @ [CHR 0x0A]))"
  shows "cas_tree_ref_read ct name = (Inr h, ct)"
proof -
  have l: "length h = CAS_HASH_HEX" using assms(4) by (simp add: hex_hash_valid valid_hash_def)
  have p: "c \<in> set h \<Longrightarrow> c \<noteq> CHR 0x0A \<and> c \<noteq> CHR 0x00" for c
    using assms(4) valid_hash_plain by (auto simp: hex_hash_valid)
  have "line_of (CAS_HASH_HEX + 1) (h @ [CHR 0x0A]) = h @ [CHR 0x0A]" using line_of_exact [of h] p l by auto
  moreover have "c_str (h @ [CHR 0x0A]) = h @ [CHR 0x0A]" using p by (auto simp: c_str_def)
  ultimately show ?thesis
    using assms ref_path_some [OF assms(2,3), of "''.root''"] l
    by (simp add: cas_tree_ref_read_def quiet_def root_of_def)
qed

lemma log_read_visits:
  assumes "quiet (fst x)" "length (s_basedir (ct_store (fst x))) \<le> 200" "valid_ref_name name"
    and "has_log (ct_store (fst x)) name es"
    and fn: "\<And>x h t n c. quiet (fst x) \<Longrightarrow> quiet (fst (snd (fn x h t n c)))"
  shows "cas_tree_log_read fn x name = (Some CAS_OK, visit_entries fn x es)"
proof -
  have "log_loop fn x (log_text es) = (Some CAS_OK, visit_entries fn x es)"
    using assms by (intro log_loop_text) (simp_all add: has_log_def)
  then show ?thesis
    using assms ref_path_some [OF assms(2,3), of "''.log''"]
    by (cases x) (simp add: cas_tree_log_read_def quiet_def has_log_def)
qed

text \<open>Collecting the entries of a log.\<close>

definition collect :: "log_entry list log_visitor" where
  "collect x h t n c = (False, fst x, snd x @ [(h, t, n, c)])"

lemma visit_collect: "visit_entries collect (ct, acc) es = (ct, acc @ es)"
  by (induction es arbitrary: acc) (auto simp: collect_def)

lemma collect_quiet: "quiet (fst x) \<Longrightarrow> quiet (fst (snd (collect x h t n c)))"
  by (simp add: collect_def)

section \<open>Pruning\<close>

lemma put_put [simp]: "put_file p a (put_file p b s) = put_file p a s"
  by (simp add: put_file_def)

lemma write_lines_ok:
  assumes "s_sys s = []" "s_files s p = Some d"
  shows "\<exists>s'. write_lines p ls s = (True, s') \<and> s_sys s' = [] \<and> touches {p} s s' \<and>
    s_files s' p = Some (d @ bytes_of (concat (map (\<lambda>l. l @ [CHR 0x0A]) ls)))"
  using assms
proof (induction ls arbitrary: s d)
  case Nil
  then show ?case by (simp add: touches_refl)
next
  case (Cons l ls)
  let ?s1 = "put_file p (d @ bytes_of (l @ [CHR 0x0A])) s"
  from Cons.IH [of ?s1 "d @ bytes_of (l @ [CHR 0x0A])"] Cons.prems
  obtain s' where w: "write_lines p ls ?s1 = (True, s')" "s_sys s' = []" "touches {p} ?s1 s'"
    "s_files s' p = Some ((d @ bytes_of (l @ [CHR 0x0A])) @ bytes_of (concat (map (\<lambda>l. l @ [CHR 0x0A]) ls)))" by auto
  have "touches {p} s ?s1" by (rule touches_put) simp
  with w have "touches {p} s s'" using touches_trans by blast
  with w Cons.prems show ?case by simp
qed

lemma rewrite_log_ok:
  assumes "s_sys s = []" "tmp \<noteq> log"
  shows "\<exists>s'. rewrite_log tmp log kept s = (CAS_OK, s') \<and> s_sys s' = [] \<and> touches {tmp, log} s s' \<and>
    s_files s' log = Some (bytes_of (concat (map (\<lambda>l. l @ [CHR 0x0A]) kept)))"
proof -
  let ?s1 = "put_file tmp [] (drop_file tmp s)"
  obtain s2 where w: "write_lines tmp kept ?s1 = (True, s2)" "s_sys s2 = []" "touches {tmp} ?s1 s2"
    "s_files s2 tmp = Some (bytes_of (concat (map (\<lambda>l. l @ [CHR 0x0A]) kept)))"
    using write_lines_ok [of ?s1 tmp "[]" kept] assms(1) by auto
  have "touches {tmp, log} s ?s1" by (auto simp: touches_def)
  moreover have "touches {tmp, log} ?s1 s2" using w(3) touches_mono by (metis insert_iff subsetI singletonD)
  moreover have "touches {tmp, log} s2 (put_file log (bytes_of (concat (map (\<lambda>l. l @ [CHR 0x0A]) kept))) (drop_file tmp s2))"
    by (auto simp: touches_def)
  ultimately have "touches {tmp, log} s (put_file log (bytes_of (concat (map (\<lambda>l. l @ [CHR 0x0A]) kept))) (drop_file tmp s2))"
    using touches_trans by blast
  with w assms show ?thesis by (simp add: rewrite_log_def)
qed

lemma log_truncate_kept:
  assumes "quiet ct" "length (s_basedir (ct_store ct)) \<le> 200" "valid_ref_name name" "has_log (ct_store ct) name es"
    and "keep_count > 0 \<or> keep_since > 0"
  shows "\<exists>ct'. cas_tree_log_truncate ct name keep_count keep_since =
      (Some (Inr (length es - length (kept_entries keep_count keep_since es))), ct') \<and> quiet ct' \<and>
    touches (ref_files (s_basedir (ct_store ct)) name) (ct_store ct) (ct_store ct') \<and>
    has_log (ct_store ct') name (kept_entries keep_count keep_since es)"
proof -
  let ?s = "ct_store ct" and ?f = "ref_file (s_basedir (ct_store ct)) name"
  let ?F = "ref_files (s_basedir ?s) name" and ?kept = "kept_entries keep_count keep_since es"
  note rp = ref_path_some [OF assms(2,3)]
  have tmp: "?f ''.log'' @ ''.tmp'' = ?f ''.log.tmp''" by (simp add: ref_file_def)
  have len: "\<not> REF_PATH_MAX \<le> length (?f ''.log'' @ ''.tmp'')"
    unfolding tmp using ref_path_ok(1) [OF assms(2,3), of "''.log.tmp''"] by simp
  have k: "\<not> (keep_count \<le> 0 \<and> keep_since \<le> 0)" using assms(5) by auto
  obtain s1 where l: "lock_ref (?f ''.lock'') ?s = (True, s1)" "s_sys s1 = []" "touches {?f ''.lock''} ?s s1"
    using lock_ref_ok assms(1) unfolding quiet_def by blast
  have t1: "touches ?F ?s s1" using l(3) touches_mono by (metis empty_subsetI insert_subset ref_exts(4) ref_file_mem)
  have f1: "s_files s1 (?f ''.log'') = Some (bytes_of (log_text es))"
    using l(3) assms(4) by (simp add: touches_def has_log_def)
  have ok: "list_all log_entry_ok es" using assms(4) by (simp add: has_log_def)
  then have okk: "list_all log_entry_ok ?kept"
    by (auto simp: kept_entries_def list_all_iff in_set_enumerate_eq dest: nth_mem)
  have b1: "s_basedir s1 = s_basedir ?s" using t1 by (simp add: touches_def)
  note run = cas_tree_log_truncate_def [of ct name keep_count keep_since, unfolded Let_def]
  have sl: "slurp_loop [] 0 s1 (log_text es) = (Some CAS_OK, map stamped es, s1)" using slurp_text [OF l(2) ok] by simp
  show ?thesis
  proof (cases "length es - length ?kept = 0")
    case True
    then have "?kept = es" using kept_entries_length [of keep_count keep_since es] kept_entries_all by (simp add: le_antisym)
    moreover have "cas_tree_log_truncate ct name keep_count keep_since = (Some (Inr 0), ct\<lparr>ct_store := s1\<rparr>)"
      using True assms(3) k rp len l f1 sl by (simp add: run kept_lines_entries del: length_append)
    ultimately show ?thesis using t1 l(2) f1 b1 ok by (simp add: quiet_def has_log_def)
  next
    case False
    obtain s4 where r: "rewrite_log (?f ''.log'' @ ''.tmp'') (?f ''.log'') (map entry_body ?kept) s1 = (CAS_OK, s4)" "s_sys s4 = []"
      "touches {?f ''.log'' @ ''.tmp'', ?f ''.log''} s1 s4"
      "s_files s4 (?f ''.log'') = Some (bytes_of (concat (map (\<lambda>l. l @ [CHR 0x0A]) (map entry_body ?kept))))"
      using rewrite_log_ok [OF l(2), of "?f ''.log'' @ ''.tmp''" "?f ''.log''" "map entry_body ?kept"] by (simp del: map_map) blast
    have t4: "touches ?F ?s s4" using touches_trans [OF t1 touches_mono [OF r(3)]] tmp by simp
    have "cas_tree_log_truncate ct name keep_count keep_since = (Some (Inr (length es - length ?kept)), ct\<lparr>ct_store := s4\<rparr>)"
      using False assms(3) k rp len l f1 sl r(1) by (simp add: run kept_lines_entries del: length_append)
    moreover have "log_text ?kept = concat (map (\<lambda>l. l @ [CHR 0x0A]) (map entry_body ?kept))" by (simp add: log_text_def comp_def)
    moreover have "s_basedir s4 = s_basedir ?s" using t4 by (simp add: touches_def)
    ultimately show ?thesis using t4 r(2,4) okk by (simp add: quiet_def has_log_def)
  qed
qed

end
