(* ===== verification/OpenObject.thy ===== *)
theory OpenObject
  imports TreeLemmas Fsck
begin

text \<open>
  What a client of the store can rely on when it opens an object while system calls may fail: the disk stays
  as it is, and an object that is delivered is the one the store holds.
\<close>

lemma region_decode_mem:
  "cas_codec_region_decode table mem region framed n = Inr d \<Longrightarrow> cas_codec_region_decode table True region framed n = Inr d"
  by (auto simp: cas_codec_region_decode_def Let_def split: if_splits)

lemma pack_lookup_mem:
  "cas_pack_lookup table mem p h b = Some (Inr x) \<Longrightarrow> cas_pack_lookup table True p h b = Some (Inr x)"
  by (auto simp: cas_pack_lookup_def Let_def
      split: option.split_asm if_split_asm sum.split_asm prod.split_asm dest: region_decode_mem)

lemma map_loose_same: "map_loose s h = (r, s') \<Longrightarrow> same_disk s s'"
  unfolding same_disk_def
  by (auto simp: map_loose_def Let_def split: option.splits if_splits prod.splits dest!: sys_call_frame)

lemma map_loose_sound:
  "map_loose s h = (Inr x, s') \<Longrightarrow> map_loose (s\<lparr>s_sys := []\<rparr>) h = (Inr x, s\<lparr>s_sys := []\<rparr>)"
  by (auto simp: map_loose_def Let_def build_path_def split: option.splits if_splits prod.splits dest!: sys_call_frame)

lemma open_loose_same: "open_loose table s h b = (r, s') \<Longrightarrow> same_disk s s'"
  unfolding same_disk_def
  by (auto simp: open_loose_def Let_def same_disk_def split: option.splits if_splits prod.splits sum.splits
      dest!: sys_call_frame map_loose_same)

lemma open_loose_sound:
  assumes "open_loose table s h b = (Inr x, s')"
  shows "fst (open_loose table (s\<lparr>s_sys := []\<rparr>) h b) = Inr x"
proof -
  obtain region tr s1 where m: "map_loose s h = (Inr (region, tr), s1)"
    using assms by (auto simp: open_loose_def split: prod.splits sum.splits)
  show ?thesis
    using assms m map_loose_sound [OF m] region_decode_mem
    by (fastforce simp: open_loose_def Let_def split: option.splits if_splits prod.splits sum.splits)
qed

lemma open_object_sound:
  assumes "codec_ok table" "pack_ok s" "cas_open_object table s h (Some (CAS_TYPE_MAX + 1)) = (r, s')"
  shows "r \<noteq> None" "same_disk s s'" "r = Some (Inr x) \<Longrightarrow> get_object table s h = Some x"
    "r \<noteq> Some (Inl CAS_OK)"
proof -
  have o: "cas_open_object table s h None = (r, s')" using assms(3) unfolding open_object_type_fits .
  have "r \<noteq> None \<and> same_disk s s' \<and> (r = Some (Inr x) \<longrightarrow> get_object table s h = Some x)"
  proof (cases "valid_hash h")
    case False
    with o show ?thesis by (auto simp: cas_open_object_def)
  next
    case v: True
    show ?thesis
    proof (cases "s_pack s")
      case None
      with o v show ?thesis
        by (auto simp: cas_open_object_def get_object_def split: prod.splits dest: open_loose_same open_loose_sound)
    next
      case (Some p)
      then have "index_fits p" "offsets_fit p" using assms(2) by (simp_all add: pack_ok_def)
      note total = pack_lookup_no_fault [OF this]
      obtain mem s1 where c: "sys_call s = (mem, s1)" by fastforce
      obtain l where l: "cas_pack_lookup table mem p h None = Some l" using total by (meson not_None_eq)
      show ?thesis
      proof (cases "l = Inl CAS_ENOTFOUND")
        case False
        then have "r = Some l" "s' = s1" using o v Some c l by (simp_all add: cas_open_object_def)
        moreover have "l = Inr x \<Longrightarrow> get_object table s h = Some x"
          using pack_lookup_mem [of table mem p h None x] l v Some by (simp add: cas_open_object_def get_object_def)
        ultimately show ?thesis using sys_call_same [OF c] by simp
      next
        case True
        then have miss: "cas_pack_lookup table True p h None = Some (Inl CAS_ENOTFOUND)"
          using l pack_lookup_missing [OF assms(1), of mem p h None] pack_lookup_missing [OF assms(1), of True p h None] by simp
        obtain l' s2 where lo: "open_loose table s1 h None = (l', s2)" by fastforce
        have r: "r = Some l'" "s' = s2" using o v Some c l True lo by (auto simp: cas_open_object_def)
        have same: "same_disk s s2"
          using sys_call_same [OF c] open_loose_same [OF lo] same_disk_trans by blast
        have "s1\<lparr>s_sys := []\<rparr> = s\<lparr>s_sys := []\<rparr>" using sys_call_frame [OF c] by simp
        with open_loose_sound [of table s1 h None x s2] lo miss v Some show ?thesis
          unfolding r using same by (auto simp: get_object_def cas_open_object_def split: prod.splits)
      qed
    qed
  qed
  then show "r \<noteq> None" "same_disk s s'" "r = Some (Inr x) \<Longrightarrow> get_object table s h = Some x" by simp_all
  show "r \<noteq> Some (Inl CAS_OK)" using open_object_not_ok [OF assms(1), of s h None CAS_OK s'] o by auto
qed

lemma open_object_quiet: "s_sys s = [] \<Longrightarrow> snd (cas_open_object table s h n) = s"
proof -
  assume q: "s_sys s = []"
  have "snd (open_loose table s h n) = s"
    using map_loose_quiet [OF q, of h] q
    by (auto simp: open_loose_def Let_def split: prod.splits sum.splits option.splits)
  then show ?thesis using q by (auto simp: cas_open_object_def Let_def split: prod.splits option.splits)
qed

lemma open_object_quiet_get:
  assumes "s_sys s = []" "get_object table s h = Some x"
  shows "cas_open_object table s h (Some (CAS_TYPE_MAX + 1)) = (Some (Inr x), s)"
proof -
  obtain s' where o: "cas_open_object table s h (Some (CAS_TYPE_MAX + 1)) = (Some (Inr x), s')"
    using get_object_open [OF assms(2,1)] by blast
  with open_object_quiet [OF assms(1), of table h "Some (CAS_TYPE_MAX + 1)"] show ?thesis by simp
qed

text \<open>A change of the outcomes to come changes no object.\<close>

lemma same_disk_get: "same_disk s s' \<Longrightarrow> get_object table s' = get_object table s" "same_disk s s' \<Longrightarrow> pack_ok s' = pack_ok s"
  by (simp_all add: same_disk_inv) (simp add: same_disk_def pack_ok_def)

end
