(* ===== verification/GcRun.thy ===== *)
theory GcRun
  imports GcInv
begin

unbundle bit_operations_syntax

text \<open>
  A whole collection: marking from the logs of all references, then sweeping.
\<close>

section \<open>Marking from the references\<close>

lemma hash_set_add_stays_quiet: "quiet (fst x) \<Longrightarrow> quiet (fst (snd (hash_set_add x h)))"
  by (metis hash_set_add_quiet fst_conv snd_conv prod.collapse)

lemma mark_entries_quiet:
  assumes "\<And>x h. quiet (fst x) \<Longrightarrow> quiet (fst (snd (visit x h)))" "quiet (fst x)"
  shows "quiet (fst (snd (mark_entries visit x es)))"
  using assms(2)
proof (induction es arbitrary: x)
  case (Cons e es)
  have "quiet (fst (snd (visit x (e_hash e))))" "quiet (fst (snd (hash_set_add x (e_hash e))))"
    using assms(1) hash_set_add_stays_quiet Cons.prems by blast+
  with Cons.IH show ?case by (auto split: prod.splits)
qed simp

lemma mark_tree_quiet: "quiet (fst x) \<Longrightarrow> quiet (fst (snd (mark_tree k table mem x h)))"
proof (induction k arbitrary: x h)
  case (Suc k)
  obtain rc ct hs where a: "hash_set_add x h = (rc, ct, hs)" by (cases "hash_set_add x h")
  then have q: "quiet ct" using hash_set_add_stays_quiet [OF Suc.prems, of h] by simp
  have "quiet (fst (snd (mark_entries (mark_tree k table mem) (ct, hs) es)))" for es
    using q by (intro mark_entries_quiet Suc.IH) simp_all
  with Suc.prems a q tree_load_node [OF q, of table h mem] show ?case
    by (cases x) (auto split: option.splits prod.splits)
qed simp

lemma mark_log_entry_quiet: "quiet (fst x) \<Longrightarrow> quiet (fst (snd (mark_log_entry fuel table mem x h t n c)))"
  using mark_tree_quiet [of "(fst x, fst (snd x))" fuel table mem h]
  by (cases x) (auto simp: mark_log_entry_def split: prod.splits)

text \<open>What a depot must be like for a collection to run through.\<close>

definition gc_ready :: "nat \<Rightarrow> cas_codec list \<Rightarrow> (string \<Rightarrow> bool list) \<Rightarrow> cas_tree \<Rightarrow> string set \<Rightarrow> bool" where
  "gc_ready fuel table mem ct roots \<longleftrightarrow> quiet ct \<and> length (s_basedir (ct_store ct)) \<le> 200 \<and>
     finite {h. live_dir (dir_children table mem ct) roots h} \<and>
     card {h. live_dir (dir_children table mem ct) roots h} < fuel \<and>
     well_typed (dir_children table mem ct) roots \<and>
     (\<forall>h. live_dir (dir_children table mem ct) roots h \<longrightarrow>
        (\<exists>rc dir. dir_node table mem ct h = Some (rc, dir) \<and> (rc = CAS_OK \<or> rc = CAS_ENOTFOUND)))"

lemma ready_mark:
  assumes "gc_ready fuel table mem ct roots" "h \<in> roots"
  shows "marks_from ct (dir_children table mem ct) roots hs (mark_tree fuel table mem (ct, hs) h) {h}"
proof -
  let ?L = "{h. live_dir (dir_children table mem ct) roots h}"
  have "finite ?L" "card ?L < fuel" using assms(1) by (simp_all add: gc_ready_def)
  then have "card (?L - set (hs_hashes hs)) < fuel" using card_mono [of ?L "?L - set (hs_hashes hs)"] by auto
  then show ?thesis using assms live_root [OF assms(2)] by (intro mark_tree_spec) (auto simp: gc_ready_def)
qed

lemma visit_marks:
  assumes "gc_ready fuel table mem ct roots" "fst ` set es \<subseteq> roots"
  shows "\<exists>hs'. visit_entries (mark_log_entry fuel table mem) (ct, hs, Some CAS_OK) es = (ct, hs', Some CAS_OK) \<and>
    marks (dir_children table mem ct) roots (set (hs_hashes hs)) (set (hs_hashes hs')) \<and> fst ` set es \<subseteq> set (hs_hashes hs')"
  using assms(2)
proof (induction es arbitrary: hs)
  case Nil
  then show ?case by auto
next
  case (Cons e es)
  obtain h t n c where e: "e = (h, t, n, c)" by (cases e)
  with Cons.prems ready_mark [OF assms(1), of h hs] obtain hs1 where
    1: "mark_tree fuel table mem (ct, hs) h = (Some CAS_OK, ct, hs1)"
    "marks (dir_children table mem ct) roots (set (hs_hashes hs)) (set (hs_hashes hs1))" "h \<in> set (hs_hashes hs1)"
    by (auto simp: marks_from_def)
  from Cons obtain hs2 where
    2: "visit_entries (mark_log_entry fuel table mem) (ct, hs1, Some CAS_OK) es = (ct, hs2, Some CAS_OK)"
    "marks (dir_children table mem ct) roots (set (hs_hashes hs1)) (set (hs_hashes hs2))" "fst ` set es \<subseteq> set (hs_hashes hs2)"
    by force
  have "h \<in> set (hs_hashes hs2)" using 1(3) 2(2) by (auto simp: marks_def)
  moreover have "mark_log_entry fuel table mem (ct, hs, Some CAS_OK) h t n c = (False, ct, hs1, Some CAS_OK)"
    using 1(1) by (simp add: mark_log_entry_def)
  ultimately show ?case using 2 marks_trans [OF 1(2) 2(2)] by (simp add: e)
qed

text \<open>The names \<open>cas_tree_ref_foreach\<close> takes from the directory.\<close>

definition ref_name_of :: "string \<Rightarrow> string option" where
  "ref_name_of ent = (let n = length ent - length ''.root'' in
     if length ent > length ''.root'' \<and> drop n ent = ''.root'' \<and> n < 256 then Some (take n ent) else None)"

definition ref_names :: "string list \<Rightarrow> string list" where
  "ref_names ents = List.map_filter ref_name_of ents"

lemma ref_names_simps [simp]:
  "ref_names [] = []"
  "ref_names (ent # ents) = (case ref_name_of ent of None \<Rightarrow> ref_names ents | Some n \<Rightarrow> n # ref_names ents)"
  by (simp_all add: ref_names_def map_filter_simps split: option.splits)

lemma ref_loop_Cons:
  "ref_loop fn (ent # ents) x = (case ref_name_of ent of None \<Rightarrow> ref_loop fn ents x
     | Some n \<Rightarrow> (let (stop, x') = fn x n in if stop then x' else ref_loop fn ents x'))"
  by (simp add: ref_name_of_def Let_def)

lemma ref_loop_marks:
  assumes rdy: "gc_ready fuel table mem ct roots"
    and logs: "\<And>name. name \<in> set (ref_names ents) \<Longrightarrow>
      valid_ref_name name \<and> has_log (ct_store ct) name (hist name) \<and> fst ` set (hist name) \<subseteq> roots"
  shows "\<exists>hs'. ref_loop (mark_ref fuel table mem) ents (ct, hs, Some CAS_OK) = (ct, hs', Some CAS_OK) \<and>
    marks (dir_children table mem ct) roots (set (hs_hashes hs)) (set (hs_hashes hs')) \<and>
    (\<forall>name \<in> set (ref_names ents). fst ` set (hist name) \<subseteq> set (hs_hashes hs'))"
  using logs
proof (induction ents arbitrary: hs)
  case Nil
  then show ?case by auto
next
  case (Cons ent ents)
  show ?case
  proof (cases "ref_name_of ent")
    case None
    with Cons show ?thesis by (simp add: ref_loop_Cons del: ref_loop.simps)
  next
    case (Some name)
    have l: "valid_ref_name name" "has_log (ct_store ct) name (hist name)" "fst ` set (hist name) \<subseteq> roots"
      using Cons.prems [of name] Some by simp_all
    obtain hs1 where 1: "visit_entries (mark_log_entry fuel table mem) (ct, hs, Some CAS_OK) (hist name) = (ct, hs1, Some CAS_OK)"
      "marks (dir_children table mem ct) roots (set (hs_hashes hs)) (set (hs_hashes hs1))" "fst ` set (hist name) \<subseteq> set (hs_hashes hs1)"
      using visit_marks [OF rdy l(3)] by blast
    have "cas_tree_log_read (mark_log_entry fuel table mem) (ct, hs, Some CAS_OK) name = (Some CAS_OK, ct, hs1, Some CAS_OK)"
      using rdy l(1,2) mark_log_entry_quiet 1(1) by (subst log_read_visits) (auto simp: gc_ready_def)
    then have m: "mark_ref fuel table mem (ct, hs, Some CAS_OK) name = (False, ct, hs1, Some CAS_OK)"
      by (simp add: mark_ref_def)
    obtain hs2 where 2: "ref_loop (mark_ref fuel table mem) ents (ct, hs1, Some CAS_OK) = (ct, hs2, Some CAS_OK)"
      "marks (dir_children table mem ct) roots (set (hs_hashes hs1)) (set (hs_hashes hs2))"
      "\<forall>name \<in> set (ref_names ents). fst ` set (hist name) \<subseteq> set (hs_hashes hs2)"
      using Cons.IH [of hs1] Cons.prems Some by auto
    have "fst ` set (hist name) \<subseteq> set (hs_hashes hs2)" using 1(3) 2(2) by (auto simp: marks_def)
    with 2 m Some marks_trans [OF 1(2) 2(2)] show ?thesis by (simp add: ref_loop_Cons del: ref_loop.simps)
  qed
qed

section \<open>Sweeping\<close>

text \<open>The files a sweep may remove.\<close>

definition dead_paths :: "cas \<Rightarrow> string set \<Rightarrow> string set" where
  "dead_paths s R = {p. \<exists>h. valid_hash h \<and> h \<notin> R \<and> build_path s h CAS_PATH_MAX = Some p}"

lemma dead_paths_keep:
  assumes "touches (dead_paths s R) s s'" "h \<in> R"
  shows "get_object table s' h = get_object table s h"
proof (cases "valid_hash h")
  case True
  show ?thesis
  proof (rule get_object_cong)
    fix p
    assume p: "build_path s h CAS_PATH_MAX = Some p"
    have "p \<notin> dead_paths s R"
    proof
      assume "p \<in> dead_paths s R"
      then obtain g where "valid_hash g" "g \<notin> R" "build_path s g CAS_PATH_MAX = Some p" by (auto simp: dead_paths_def)
      with build_path_inj [OF p this(3)] True assms(2) show False by (simp add: valid_hash_def)
    qed
    then show "s_files s' p = s_files s p" using assms(1) by (simp add: touches_def)
  qed (use assms(1) in \<open>simp_all add: touches_def\<close>)
qed (simp add: get_object_invalid)

lemma touches_remove:
  assumes "touches P s0 s" "\<And>p. build_path s0 h CAS_PATH_MAX = Some p \<Longrightarrow> valid_hash h \<Longrightarrow> p \<in> P" "cas_remove s h = (rc, s')"
  shows "touches P s0 s'"
proof -
  have b: "build_path s h CAS_PATH_MAX = build_path s0 h CAS_PATH_MAX"
    using assms(1) by (intro build_path_frame) (simp add: touches_def)
  have "touches P s s'"
    using assms(2,3) b
    by (auto simp: cas_remove_def touches_def split: if_splits option.splits prod.splits dest!: sys_call_frame)
  with assms(1) show ?thesis by (rule touches_trans)
qed

lemma object_mtime_touches: "cas_object_mtime mtime s h = (r, s') \<Longrightarrow> touches P s s'"
  by (auto simp: cas_object_mtime_def touches_refl split: if_splits option.splits prod.splits dest: touches_sys_call)

lemma sweep_touches:
  assumes "touches (dead_paths s0 (set (hs_hashes R))) s0 (fst x)"
  shows "touches (dead_paths s0 (set (hs_hashes R))) s0 (fst (snd (sweep_visitor mtime R cutoff fn x h)))"
proof (cases "hash_set_contains R h")
  case True
  then show ?thesis using assms by (cases x) (simp add: sweep_visitor_def)
next
  case False
  then have p: "p \<in> dead_paths s0 (set (hs_hashes R))" if "build_path s0 h CAS_PATH_MAX = Some p" "valid_hash h" for p
    using that by (auto simp: dead_paths_def hash_set_contains_def list_ex_iff)
  obtain s n c where x: "x = (s, n, c)" by (cases x)
  obtain young s1 where y: "(if cutoff > 0 then
              (case cas_object_mtime mtime s h of
                 (Inl rc, s1) \<Rightarrow> (False, s1)
               | (Inr t, s1) \<Rightarrow> (t \<ge> cutoff, s1))
            else (False, s)) = (young, s1)" by fastforce
  have "touches (dead_paths s0 (set (hs_hashes R))) s s1"
    using y object_mtime_touches by (fastforce simp: touches_refl split: if_splits prod.splits sum.splits)
  with assms x have t1: "touches (dead_paths s0 (set (hs_hashes R))) s0 s1" using touches_trans by (metis fst_conv)
  obtain rc s2 where r: "cas_remove s1 h = (rc, s2)" by fastforce
  have "touches (dead_paths s0 (set (hs_hashes R))) s0 s2" using touches_remove [OF t1 _ r] p by blast
  with t1 False x y r show ?thesis by (auto simp: sweep_visitor_def Let_def split: option.splits prod.splits)
qed

lemma bucket_loop_invariant:
  assumes "\<And>x h. P x \<Longrightarrow> P (snd (fn x h))" "P x"
  shows "P (snd (bucket_loop fn d ents x))"
  using assms(2)
proof (induction ents arbitrary: x)
  case (Cons h ents)
  obtain b x' where f: "fn x h = (b, x')" by (cases "fn x h")
  with assms(1) [OF Cons.prems, of h] Cons.IH Cons.prems show ?case by simp
qed simp

lemma foreach_loop_invariant:
  assumes "\<And>x h. P x \<Longrightarrow> P (snd (fn x h))" "P x"
  shows "P (foreach_loop fn ds x)"
  using assms(2)
proof (induction ds arbitrary: x)
  case (Cons b ds)
  obtain d sub where b: "b = (d, sub)" by fastforce
  have "P (snd (bucket_loop fn d ents x))" for ents using assms(1) Cons.prems by (rule bucket_loop_invariant)
  then show ?case using Cons.IH Cons.prems by (auto simp: b split: option.splits prod.splits) (metis snd_conv)+
qed simp

text \<open>A sweep without a grace period and without a callback, where nothing fails.\<close>

lemma sweep_step:
  assumes "s_sys s = []" "cutoff \<le> 0"
  shows "sweep_visitor mtime R cutoff None (s, n, c) h =
    (if h \<in> set (hs_hashes R) then (False, s, n, c)
     else (case cas_remove s h of (rc, s') \<Rightarrow> (False, s', (if rc = CAS_OK then Suc n else n), c)))"
  using assms by (auto simp: sweep_visitor_def hash_set_contains_def list_ex_iff split: prod.splits)

lemma remove_quiet:
  assumes "s_sys s = []"
  shows "s_sys (snd (cas_remove s h)) = [] \<and>
    (\<forall>p. valid_hash h \<longrightarrow> build_path s h CAS_PATH_MAX = Some p \<longrightarrow> s_files (snd (cas_remove s h)) p = None) \<and>
    (\<forall>p. s_files s p = None \<longrightarrow> s_files (snd (cas_remove s h)) p = None) \<and> s_basedir (snd (cas_remove s h)) = s_basedir s"
  using assms by (auto simp: cas_remove_def split: option.splits)

lemma sweep_goes_on:
  "\<not> fst (sweep_visitor mtime R cutoff None x h)"
  "s_basedir (fst (snd (sweep_visitor mtime R cutoff None x h))) = s_basedir (fst x)"
proof -
  show "\<not> fst (sweep_visitor mtime R cutoff None x h)"
    by (cases x) (simp add: sweep_visitor_def Let_def split: prod.splits)
  show "s_basedir (fst (snd (sweep_visitor mtime R cutoff None x h))) = s_basedir (fst x)"
    using sweep_touches [of "fst x" R x mtime cutoff None h] by (simp add: touches_refl) (simp add: touches_def)
qed

lemma sweep_all:
  assumes "s_sys s = []" "cutoff \<le> 0"
    and "foldl (\<lambda>x h. snd (sweep_visitor mtime R cutoff None x h)) (s, n, c) hs = (s', n', c')"
  shows "(\<forall>p. s_files s p = None \<longrightarrow> s_files s' p = None) \<and>
    (\<forall>h p. h \<in> set hs \<longrightarrow> h \<notin> set (hs_hashes R) \<longrightarrow> valid_hash h \<longrightarrow> build_path s h CAS_PATH_MAX = Some p \<longrightarrow> s_files s' p = None)"
  using assms(1,3)
proof (induction hs arbitrary: s n)
  case (Cons h hs)
  obtain s1 n1 where st: "snd (sweep_visitor mtime R cutoff None (s, n, c) h) = (s1, n1, c)"
    "s1 = (if h \<in> set (hs_hashes R) then s else snd (cas_remove s h))"
    using sweep_step [OF Cons.prems(1) assms(2), of mtime R n c h] by (auto split: if_splits prod.splits)
  have r: "s_sys s1 = []" "s_basedir s1 = s_basedir s" "\<forall>p. s_files s p = None \<longrightarrow> s_files s1 p = None"
    "h \<notin> set (hs_hashes R) \<Longrightarrow> valid_hash h \<Longrightarrow> build_path s h CAS_PATH_MAX = Some p \<Longrightarrow> s_files s1 p = None" for p
    using remove_quiet [OF Cons.prems(1), of h] Cons.prems(1) st(2) by auto
  have "foldl (\<lambda>x h. snd (sweep_visitor mtime R cutoff None x h)) (s1, n1, c) hs = (s', n', c')"
    using Cons.prems(2) st(1) by simp
  from Cons.IH [OF r(1) this] r build_path_frame [OF r(2)] show ?case by auto
qed simp

section \<open>The collection\<close>

text \<open>Marking finds what the logs reach.\<close>

lemma gc_marks:
  assumes rdy: "gc_ready fuel table mem ct roots"
    and logs: "\<And>name. name \<in> set (ref_names ents) \<Longrightarrow> valid_ref_name name \<and> has_log (ct_store ct) name (hist name)"
    and roots: "roots = (\<Union>name \<in> set (ref_names ents). fst ` set (hist name))"
  obtains R frc where "cas_tree_ref_foreach (Some ents) (mark_ref fuel table mem) (ct, hash_set_init, Some CAS_OK) = (frc, ct, R, Some CAS_OK)"
    "\<And>h. h \<in> set (hs_hashes R) \<longleftrightarrow> live (dir_children table mem ct) roots h"
proof -
  have "valid_ref_name name \<and> has_log (ct_store ct) name (hist name) \<and> fst ` set (hist name) \<subseteq> roots"
    if "name \<in> set (ref_names ents)" for name using logs [OF that] that roots by blast
  from ref_loop_marks [OF rdy this, of ents hash_set_init] obtain R where
    R: "ref_loop (mark_ref fuel table mem) ents (ct, hash_set_init, Some CAS_OK) = (ct, R, Some CAS_OK)"
    "marks (dir_children table mem ct) roots {} (set (hs_hashes R))"
    "\<forall>name \<in> set (ref_names ents). fst ` set (hist name) \<subseteq> set (hs_hashes R)"
    by (auto simp: hash_set_init_def)
  have "roots \<subseteq> set (hs_hashes R)" using R(3) roots by blast
  note marked = marks_complete [OF R(2) this]
  have len: "\<not> length (s_basedir (ct_store ct) @ ''/refs'') \<ge> REF_PATH_MAX"
    using rdy by (simp add: gc_ready_def REF_PATH_MAX_def)
  show thesis by (rule that [of CAS_OK R]) (use R(1) len marked in \<open>simp_all add: cas_tree_ref_foreach_def\<close>)
qed

lemma gc_run:
  assumes rdy: "gc_ready fuel table mem ct roots"
    and logs: "\<And>name. name \<in> set (ref_names ents) \<Longrightarrow> valid_ref_name name \<and> has_log (ct_store ct) name (hist name)"
    and roots: "roots = (\<Union>name \<in> set (ref_names ents). fst ` set (hist name))"
  shows "\<exists>n R s' c'. cas_tree_gc fuel table mem mtime now grace (Some ents) (Listing ds) fn ct c = (Some (Inr n), ct\<lparr>ct_store := s'\<rparr>, c') \<and>
    (\<forall>h. h \<in> set (hs_hashes R) \<longleftrightarrow> live (dir_children table mem ct) roots h) \<and>
    foreach_loop (sweep_visitor mtime R (if grace > 0 then now - grace else 0) fn) ds (ct_store ct, 0, c) = (s', n, c')"
proof -
  obtain R frc where R: "cas_tree_ref_foreach (Some ents) (mark_ref fuel table mem) (ct, hash_set_init, Some CAS_OK) = (frc, ct, R, Some CAS_OK)"
    "\<And>h. h \<in> set (hs_hashes R) \<longleftrightarrow> live (dir_children table mem ct) roots h"
    using gc_marks [OF rdy logs roots] by metis
  obtain s' n c' where sw: "foreach_loop (sweep_visitor mtime R (if grace > 0 then now - grace else 0) fn) ds (ct_store ct, 0, c) = (s', n, c')"
    by (metis prod_cases3)
  have "cas_tree_gc fuel table mem mtime now grace (Some ents) (Listing ds) fn ct c = (Some (Inr n), ct\<lparr>ct_store := s'\<rparr>, c')"
    using R(1) sw by (simp add: cas_tree_gc_def cas_foreach_def)
  with R(2) sw show ?thesis by blast
qed

end
