(* ===== verification/TreeFsck.thy ===== *)
theory TreeFsck
  imports GcInv
begin

unbundle bit_operations_syntax

text \<open>
  The check of the trees a depot's references name, \<open>fsck_tree\<close>, \<open>cas_tree_fsck_root\<close> and \<open>cas_tree_fsck\<close>
  of \<open>cas-tree.c\<close>. The walk is given a bound on its depth; \<^const>\<open>None\<close> stands for an exhausted bound or
  an undefined read, never for a verdict. The lemmas show that the verdict is exact.
\<close>

section \<open>The walk\<close>

datatype tree_fsck_code = CAS_TREE_FSCK_OK | CAS_TREE_FSCK_MISSING | CAS_TREE_FSCK_CORRUPT
  | CAS_TREE_FSCK_BAD_TREE | CAS_TREE_FSCK_NOCODEC | CAS_TREE_FSCK_FOREIGN

type_synonym 'c tree_fsck_fn = "('c \<Rightarrow> string \<Rightarrow> string \<Rightarrow> tree_fsck_code \<Rightarrow> bool \<times> 'c) option"

text \<open>The state of the walk: the depot, the errors counted, and the state of the callback.\<close>

type_synonym 'c fsck_walk = "cas_tree \<times> nat \<times> 'c"

text \<open>The outcomes of the allocations made at one path: those of the check and of the load that follows it.\<close>

type_synonym fsck_mem = "string \<Rightarrow> bool list \<times> bool \<times> bool \<times> byte list \<times> bool list"

definition fsck_report :: "'c tree_fsck_fn \<Rightarrow> string \<Rightarrow> string \<Rightarrow> tree_fsck_code \<Rightarrow> bool \<Rightarrow> 'c fsck_walk \<Rightarrow> bool option \<times> 'c fsck_walk" where
  "fsck_report fn path hash code counts x =
     (let (ct, errors, c) = x; errors' = (if counts then Suc errors else errors) in
      case fn of
        None \<Rightarrow> (Some False, ct, errors', c)
      | Some f \<Rightarrow> let (stop, c') = f c path hash code in (Some stop, ct, errors', c'))"

definition FSCK_PATH_MAX :: nat where "FSCK_PATH_MAX = 4096"

definition child_path :: "string \<Rightarrow> string \<Rightarrow> string" where
  "child_path path name =
     take (FSCK_PATH_MAX - 1) (if path = ''/'' then ''/'' @ name else path @ ''/'' @ name)"

text \<open>One entry that is not a directory.\<close>

definition fsck_leaf ::
    "cas_codec list \<Rightarrow> 'c tree_fsck_fn \<Rightarrow> string \<Rightarrow> string \<Rightarrow> 'c fsck_walk \<Rightarrow> bool option \<times> 'c fsck_walk" where
  "fsck_leaf table fn path hash x =
     (let (ct, errors, c) = x in
      case cas_fsck_object table (ct_store ct) hash of
        (None, s) \<Rightarrow> (None, ct\<lparr>ct_store := s\<rparr>, errors, c)
      | (Some status, s) \<Rightarrow>
          let x1 = (ct\<lparr>ct_store := s\<rparr>, errors, c) in
          if status = CAS_FSCK_NOCODEC then fsck_report fn path hash CAS_TREE_FSCK_NOCODEC False x1
          else if status = CAS_FSCK_IOERR then fsck_report fn path hash CAS_TREE_FSCK_MISSING True x1
          else if status \<noteq> CAS_FSCK_OK then fsck_report fn path hash CAS_TREE_FSCK_CORRUPT True x1
          else (Some False, x1))"

fun fsck_entries ::
    "(string \<Rightarrow> string \<Rightarrow> 'c fsck_walk \<Rightarrow> bool option \<times> 'c fsck_walk) \<Rightarrow> cas_codec list \<Rightarrow> 'c tree_fsck_fn \<Rightarrow>
     string \<Rightarrow> cas_tree_entry list \<Rightarrow> 'c fsck_walk \<Rightarrow> bool option \<times> 'c fsck_walk" where
  "fsck_entries visit table fn path [] x = (Some False, x)"
| "fsck_entries visit table fn path (e # es) x =
     (let childpath = child_path path (e_name e) in
      case (if is_dir_entry e then visit childpath (e_hash e) x else fsck_leaf table fn childpath (e_hash e) x) of
        (stop, x') \<Rightarrow> if stop \<noteq> Some False then (stop, x') else fsck_entries visit table fn path es x')"

fun fsck_tree ::
    "nat \<Rightarrow> cas_codec list \<Rightarrow> fsck_mem \<Rightarrow> 'c tree_fsck_fn \<Rightarrow> string \<Rightarrow> string \<Rightarrow> 'c fsck_walk \<Rightarrow> bool option \<times> 'c fsck_walk" where
  "fsck_tree 0 table env fn path tree_hash x = (None, x)"
| "fsck_tree (Suc k) table env fn path tree_hash x =
     (let (ct, errors, c) = x; (mem, mem1, mem2, junk, lmem) = env path in
      case cas_tree_verify table mem mem1 mem2 junk ct tree_hash of
        (None, ct1) \<Rightarrow> (None, ct1, errors, c)
      | (Some status, ct1) \<Rightarrow>
          let x1 = (ct1, errors, c) in
          if status = CAS_FSCK_NOCODEC then fsck_report fn path tree_hash CAS_TREE_FSCK_NOCODEC False x1
          else if status = CAS_FSCK_FOREIGN then fsck_report fn path tree_hash CAS_TREE_FSCK_FOREIGN False x1
          else if status = CAS_FSCK_IOERR then fsck_report fn path tree_hash CAS_TREE_FSCK_MISSING True x1
          else if status \<noteq> CAS_FSCK_OK then fsck_report fn path tree_hash CAS_TREE_FSCK_CORRUPT True x1
          else (case cas_tree_load table ct1 tree_hash (new_dir lmem) of
                  (None, ct2) \<Rightarrow> (None, ct2, errors, c)
                | (Some (rc, dir), ct2) \<Rightarrow>
                    if rc \<noteq> CAS_OK then fsck_report fn path tree_hash CAS_TREE_FSCK_BAD_TREE True (ct2, errors, c)
                    else fsck_entries (fsck_tree k table env fn) table fn path (d_entries dir) (ct2, errors, c)))"

definition cas_tree_fsck_root ::
    "nat \<Rightarrow> cas_codec list \<Rightarrow> fsck_mem \<Rightarrow> 'c tree_fsck_fn \<Rightarrow> cas_tree \<Rightarrow> string \<Rightarrow> 'c \<Rightarrow> cas_rc option \<times> cas_tree \<times> 'c" where
  "cas_tree_fsck_root fuel table env fn ct root_hash c =
     (case fsck_tree fuel table env fn ''/'' root_hash (ct, 0, c) of
        (stop, ct1, errors, c1) \<Rightarrow>
          (if stop = None then None else Some (if errors \<noteq> 0 then CAS_ERR else CAS_OK), ct1, c1))"

text \<open>The visitor of the references: one that cannot be read is passed over.\<close>

definition fsck_ref ::
    "nat \<Rightarrow> cas_codec list \<Rightarrow> fsck_mem \<Rightarrow> 'c tree_fsck_fn \<Rightarrow> (nat \<times> bool \<times> 'c) ref_visitor" where
  "fsck_ref fuel table env fn x name =
     (let (ct, errors, fault, c) = x in
      case cas_tree_ref_read ct name of
        (Inl rc, ct1) \<Rightarrow> (False, ct1, errors, fault, c)
      | (Inr hash, ct1) \<Rightarrow>
          (case fsck_tree fuel table env fn ''/'' hash (ct1, 0, c) of
             (stop, ct2, n, c2) \<Rightarrow> (stop = None, ct2, errors + n, fault \<or> stop = None, c2)))"

definition cas_tree_fsck ::
    "nat \<Rightarrow> cas_codec list \<Rightarrow> fsck_mem \<Rightarrow> 'c tree_fsck_fn \<Rightarrow> string list option \<Rightarrow> cas_tree \<Rightarrow> 'c \<Rightarrow> cas_rc option \<times> cas_tree \<times> 'c" where
  "cas_tree_fsck fuel table env fn dirents ct c =
     (case cas_tree_ref_foreach dirents (fsck_ref fuel table env fn) (ct, 0, False, c) of
        (rc, ct1, errors, fault, c1) \<Rightarrow>
          (if fault then None else Some (if errors \<noteq> 0 then CAS_ERR else CAS_OK), ct1, c1))"

section \<open>What a verdict means\<close>

text \<open>
  A tree is sound at a path if its object passes the check of directories and loads, and what its entries
  name is sound in turn. A directory or object that no decoder or no layer here can check is passed over.
\<close>

definition leaf_sound :: "cas_codec list \<Rightarrow> cas_tree \<Rightarrow> string \<Rightarrow> bool" where
  "leaf_sound table ct h \<longleftrightarrow> fst (cas_fsck_object table (ct_store ct) h) \<in> {Some CAS_FSCK_OK, Some CAS_FSCK_NOCODEC}"

definition verdict :: "cas_codec list \<Rightarrow> fsck_mem \<Rightarrow> cas_tree \<Rightarrow> string \<Rightarrow> string \<Rightarrow> cas_fsck_status option" where
  "verdict table env ct path h =
     (let (mem, mem1, mem2, junk, lmem) = env path in fst (cas_tree_verify table mem mem1 mem2 junk ct h))"

definition listing_at :: "cas_codec list \<Rightarrow> fsck_mem \<Rightarrow> cas_tree \<Rightarrow> string \<Rightarrow> string \<Rightarrow> (cas_rc \<times> cas_tree_dir) option" where
  "listing_at table env ct path h = (let (mem, mem1, mem2, junk, lmem) = env path in fst (cas_tree_load table ct h (new_dir lmem)))"

inductive tree_sound :: "cas_codec list \<Rightarrow> fsck_mem \<Rightarrow> cas_tree \<Rightarrow> string \<Rightarrow> string \<Rightarrow> bool"
  for table :: "cas_codec list" and env :: fsck_mem and ct :: cas_tree where
  passed_over: "verdict table env ct path h \<in> {Some CAS_FSCK_NOCODEC, Some CAS_FSCK_FOREIGN} \<Longrightarrow> tree_sound table env ct path h"
| checked: "verdict table env ct path h = Some CAS_FSCK_OK \<Longrightarrow> listing_at table env ct path h = Some (CAS_OK, dir) \<Longrightarrow>
    (\<And>e. e \<in> set (d_entries dir) \<Longrightarrow> is_dir_entry e \<Longrightarrow> tree_sound table env ct (child_path path (e_name e)) (e_hash e)) \<Longrightarrow>
    (\<And>e. e \<in> set (d_entries dir) \<Longrightarrow> \<not> is_dir_entry e \<Longrightarrow> leaf_sound table ct (e_hash e)) \<Longrightarrow>
    tree_sound table env ct path h"

inductive_cases tree_soundE: "tree_sound table env ct path h"

lemma verify_quiet:
  assumes "quiet ct" "s_pack (ct_store ct) = None"
  shows "snd (cas_tree_verify table mem mem1 mem2 junk ct h) = ct"
proof -
  have q: "s_sys (ct_store ct) = []" using assms(1) by (simp add: quiet_def)
  obtain st where "cas_fsck_object table (ct_store ct) h = (Some st, ct_store ct)" using fsck_object_quiet [OF q assms(2)] .
  with open_object_quiet [OF q, of table h "Some (CAS_TYPE_MAX + 1)"] show ?thesis
    by (auto simp: cas_tree_verify_def split: prod.splits option.splits sum.splits)
qed

text \<open>Without a callback a walk that returns leaves the depot alone and counts an error exactly if the tree is not sound.\<close>

definition walk_exact :: "cas_tree \<Rightarrow> nat \<Rightarrow> bool option \<times> 'c fsck_walk \<Rightarrow> 'c \<Rightarrow> bool \<Rightarrow> bool" where
  "walk_exact ct errors r c sound \<longleftrightarrow> fst r = None \<or>
     (\<exists>n. r = (Some False, ct, n, c) \<and> errors \<le> n \<and> (n = errors \<longleftrightarrow> sound))"

lemma leaf_exact:
  assumes "quiet ct" "s_pack (ct_store ct) = None"
  shows "walk_exact ct errors (fsck_leaf table None path h (ct, errors, c)) c (leaf_sound table ct h)"
proof -
  have q: "s_sys (ct_store ct) = []" using assms(1) by (simp add: quiet_def)
  obtain st where "cas_fsck_object table (ct_store ct) h = (Some st, ct_store ct)" using fsck_object_quiet [OF q assms(2)] .
  then show ?thesis by (auto simp: fsck_leaf_def walk_exact_def leaf_sound_def fsck_report_def Let_def)
qed

lemma entries_exact:
  assumes q: "quiet ct" "s_pack (ct_store ct) = None"
    and visit: "\<And>path h errors. walk_exact ct errors (visit path h (ct, errors, c)) c (good path h)"
  shows "walk_exact ct errors (fsck_entries visit table None path es (ct, errors, c)) c
    (\<forall>e \<in> set es. if is_dir_entry e then good (child_path path (e_name e)) (e_hash e) else leaf_sound table ct (e_hash e))"
proof (induction es arbitrary: errors)
  case Nil
  then show ?case by (simp add: walk_exact_def)
next
  case (Cons e es)
  let ?p = "child_path path (e_name e)"
  define r where "r = (if is_dir_entry e then visit ?p (e_hash e) (ct, errors, c) else fsck_leaf table None ?p (e_hash e) (ct, errors, c))"
  define sound where "sound = (if is_dir_entry e then good ?p (e_hash e) else leaf_sound table ct (e_hash e))"
  have run: "fsck_entries visit table None path (e # es) (ct, errors, c) =
    (case r of (stop, x') \<Rightarrow> if stop \<noteq> Some False then (stop, x') else fsck_entries visit table None path es x')"
    by (simp add: r_def Let_def)
  have "walk_exact ct errors r c sound" using visit leaf_exact [OF q, of errors table ?p "e_hash e" c] by (simp add: r_def sound_def)
  then show ?case unfolding walk_exact_def [of ct errors r]
  proof (elim disjE exE conjE)
    assume "fst r = None"
    then show ?thesis unfolding run by (cases r) (simp add: walk_exact_def)
  next
    fix n
    assume n: "r = (Some False, ct, n, c)" "errors \<le> n" "(n = errors) = sound"
    have "fsck_entries visit table None path (e # es) (ct, errors, c) = fsck_entries visit table None path es (ct, n, c)"
      unfolding run n(1) by simp
    moreover define A where "A \<longleftrightarrow> (\<forall>e \<in> set es. if is_dir_entry e then good (child_path path (e_name e)) (e_hash e)
      else leaf_sound table ct (e_hash e))"
    moreover have "(\<forall>e \<in> set (e # es). if is_dir_entry e then good (child_path path (e_name e)) (e_hash e)
      else leaf_sound table ct (e_hash e)) \<longleftrightarrow> sound \<and> A" unfolding sound_def A_def by simp
    moreover note Cons [of n, folded A_def] n(2,3)
    ultimately show ?thesis unfolding walk_exact_def by (simp only:) auto
  qed
qed

lemma tree_exact:
  assumes q: "quiet ct" "s_pack (ct_store ct) = None"
  shows "walk_exact ct errors (fsck_tree k table env None path h (ct, errors, c)) c (tree_sound table env ct path h)"
proof (induction k arbitrary: path h errors)
  case 0
  then show ?case by (simp add: walk_exact_def)
next
  case (Suc k)
  obtain mem mem1 mem2 junk lmem where env: "env path = (mem, mem1, mem2, junk, lmem)" by (metis prod_cases5)
  have v: "cas_tree_verify table mem mem1 mem2 junk ct h = (verdict table env ct path h, ct)"
    using verify_quiet [OF q] env by (metis (no_types, lifting) case_prod_conv prod.collapse verdict_def)
  have l: "cas_tree_load table ct h (new_dir lmem) = (listing_at table env ct path h, ct)"
    using tree_load_quiet [OF q(1), of table h "new_dir lmem"] env by (simp add: listing_at_def)
  note run = fsck_tree.simps(2) [of k table env None path h "(ct, errors, c)", unfolded env Let_def prod.case v]
  show ?case
  proof (cases "verdict table env ct path h = Some CAS_FSCK_OK")
    case False
    then have "tree_sound table env ct path h \<longleftrightarrow> verdict table env ct path h \<in> {Some CAS_FSCK_NOCODEC, Some CAS_FSCK_FOREIGN}"
      by (auto intro: passed_over elim: tree_soundE)
    with False show ?thesis unfolding run
      by (cases "verdict table env ct path h") (auto simp: walk_exact_def fsck_report_def)
  next
    case True
    then have np: "verdict table env ct path h \<notin> {Some CAS_FSCK_NOCODEC, Some CAS_FSCK_FOREIGN}" by simp
    show ?thesis
    proof (cases "listing_at table env ct path h")
      case None
      then show ?thesis unfolding run by (simp add: True l walk_exact_def)
    next
      case (Some rd)
      obtain rc dir where rd: "rd = (rc, dir)" by fastforce
      show ?thesis
      proof (cases "rc = CAS_OK")
        case False
        then have "\<not> tree_sound table env ct path h" using np Some rd by (auto elim: tree_soundE)
        with False show ?thesis unfolding run by (simp add: True l Some rd walk_exact_def fsck_report_def)
      next
        case ok: True
        have "tree_sound table env ct path h \<longleftrightarrow> (\<forall>e \<in> set (d_entries dir). if is_dir_entry e
            then tree_sound table env ct (child_path path (e_name e)) (e_hash e) else leaf_sound table ct (e_hash e))"
          using np Some rd ok True by (auto intro: checked elim!: tree_soundE)
        with entries_exact [where visit = "fsck_tree k table env None" and good = "tree_sound table env ct", OF q Suc.IH, where errors = errors and table = table and path = path and es = "d_entries dir"] ok show ?thesis
          unfolding run by (simp add: True l Some rd)
      qed
    qed
  qed
qed

section \<open>A sound tree is found sound\<close>

lemma sound_entries:
  assumes q: "quiet ct" "s_pack (ct_store ct) = None"
    and dirs: "\<And>e errors. e \<in> set es \<Longrightarrow> is_dir_entry e \<Longrightarrow>
      visit (child_path path (e_name e)) (e_hash e) (ct, errors, c) = (Some False, ct, errors, c)"
    and leaves: "\<And>e. e \<in> set es \<Longrightarrow> \<not> is_dir_entry e \<Longrightarrow> leaf_sound table ct (e_hash e)"
  shows "fsck_entries visit table None path es (ct, errors, c) = (Some False, ct, errors, c)"
  using dirs leaves
proof (induction es)
  case (Cons e es)
  let ?p = "child_path path (e_name e)"
  have "(if is_dir_entry e then visit ?p (e_hash e) (ct, errors, c) else fsck_leaf table None ?p (e_hash e) (ct, errors, c))
    = (Some False, ct, errors, c)"
  proof (cases "is_dir_entry e")
    case False
    obtain st where "cas_fsck_object table (ct_store ct) (e_hash e) = (Some st, ct_store ct)"
      using fsck_object_quiet [of "ct_store ct"] q unfolding quiet_def by metis
    with Cons.prems(2) [of e] False show ?thesis by (auto simp: fsck_leaf_def leaf_sound_def fsck_report_def Let_def)
  qed (use Cons.prems(1) [of e] in simp)
  with Cons show ?case by (simp add: Let_def)
qed simp

text \<open>A depth that suffices: above it the walk of a sound tree ends without an error.\<close>

lemma sound_returns:
  assumes q: "quiet ct" "s_pack (ct_store ct) = None" and "tree_sound table env ct path h"
  shows "\<exists>k0. \<forall>k \<ge> k0. \<forall>errors. fsck_tree k table env None path h (ct, errors, c) = (Some False, ct, errors, c)"
  using assms(3)
proof induction
  case (passed_over path h)
  obtain mem mem1 mem2 junk lmem where env: "env path = (mem, mem1, mem2, junk, lmem)" by (metis prod_cases5)
  have v: "cas_tree_verify table mem mem1 mem2 junk ct h = (verdict table env ct path h, ct)"
    using verify_quiet [OF q] env by (metis (no_types, lifting) case_prod_conv prod.collapse verdict_def)
  have "fsck_tree k table env None path h (ct, errors, c) = (Some False, ct, errors, c)" if "k \<ge> 1" for k errors
    using that passed_over env v by (cases k) (auto simp: fsck_report_def)
  then show ?case by blast
next
  case (checked path h dir)
  obtain mem mem1 mem2 junk lmem where env: "env path = (mem, mem1, mem2, junk, lmem)" by (metis prod_cases5)
  have v: "cas_tree_verify table mem mem1 mem2 junk ct h = (Some CAS_FSCK_OK, ct)"
    using verify_quiet [OF q] env checked(1) by (metis (no_types, lifting) case_prod_conv prod.collapse verdict_def)
  have l: "cas_tree_load table ct h (new_dir lmem) = (Some (CAS_OK, dir), ct)"
    using tree_load_quiet [OF q(1), of table h "new_dir lmem"] env checked(2) by (simp add: listing_at_def)
  let ?ds = "{e \<in> set (d_entries dir). is_dir_entry e}"
  have "\<forall>e \<in> ?ds. \<exists>k0. \<forall>k \<ge> k0. \<forall>errors.
    fsck_tree k table env None (child_path path (e_name e)) (e_hash e) (ct, errors, c) = (Some False, ct, errors, c)"
    using checked.IH by simp
  from bchoice [OF this] obtain K where K: "\<forall>e \<in> ?ds. \<forall>k \<ge> K e. \<forall>errors.
    fsck_tree k table env None (child_path path (e_name e)) (e_hash e) (ct, errors, c) = (Some False, ct, errors, c)" ..
  have "fsck_tree k table env None path h (ct, errors, c) = (Some False, ct, errors, c)" if k: "k \<ge> Suc (\<Sum>e \<in> ?ds. K e)" for k errors
  proof -
    obtain j where j: "k = Suc j" "j \<ge> (\<Sum>e \<in> ?ds. K e)" using k by (cases k) simp_all
    have "K e \<le> j" if "e \<in> ?ds" for e using member_le_sum [OF that, of K] j(2) by simp
    then have "fsck_entries (fsck_tree j table env None) table None path (d_entries dir) (ct, errors, c) = (Some False, ct, errors, c)"
      by (intro sound_entries [OF q]) (use K checked.hyps(4) in auto)
    then show ?thesis using j(1) env v l by simp
  qed
  then show ?case by blast
qed

end
