(* ===== verification/RefProps.thy ===== *)
theory RefProps
  imports GcRun TreeFsck TreeLemmas
begin

unbundle bit_operations_syntax

text \<open>
  The properties of references, their logs and garbage collection, with the depots their examples run on.
\<close>

section \<open>Example depots\<close>

text \<open>A depot that holds the empty directory and nothing else.\<close>

lemma demo_depot:
  obtains h s p where "s_sys s = []" "s_basedir s = ''depot''" "s_pack s = None" "valid_hash h" "is_bucket (take 2 h)"
    "get_object (codec_table []) s h = Some (''tree'', dir_text [])"
    "build_path s h CAS_PATH_MAX = Some p" "s_files s p \<noteq> None"
    "\<And>n e. e \<in> ref_exts \<Longrightarrow> s_files s (ref_file ''depot'' n e) = None"
    "cas_hash_object ''tree'' (dir_text []) = Some h"
proof -
  have st: "storable ''tree'' (dir_text [])"
    by (simp add: storable_def type_ok_def CAS_TYPE_MAX_def CAS_PACK_BLOCK_def MAX_FILE_def dir_text_def)
  obtain h s where run: "cas_put_object demo_store ''tree'' (dir_text []) = (Some (Inr h), s)" "s_sys s = []"
    "cas_hash_object ''tree'' (dir_text []) = Some h"
    using put_progress [OF demo_store_facts(1,2) st demo_store_facts(3)] by blast
  have at: "store_at demo_store ''tree'' (dir_text []) h = (True, s)" using put_object_store_at [OF run(1)] by simp
  have g: "get_object (codec_table []) s h = Some (''tree'', dir_text [])"
    using plain.stored_object [OF demo_store_facts(5) st run(3) at] by (simp add: demo_store_facts(4))
  have v: "valid_hash h" using hash_object_valid [OF run(3)] .
  obtain rc where sa: "stored_as demo_store s h (loose_bytes False (dir_text []) ''tree'' (length (dir_text []))) rc" "rc = CAS_OK"
    using at by (rule store_at_spec) simp
  then obtain p where p: "build_path demo_store h CAS_PATH_MAX = Some p"
    "s_files s = (s_files demo_store)(p \<mapsto> loose_bytes False (dir_text []) ''tree'' (length (dir_text [])))"
    "s_basedir s = s_basedir demo_store" "s_pack s = s_pack demo_store"
    by (auto simp: stored_as_def already_stored_def demo_store_def)
  have "ref_file ''depot'' n e \<noteq> p" if "e \<in> ref_exts" for n e
    using object_path_not_ref [OF p(1), of n] v that by (auto simp: valid_hash_def demo_store_def)
  then have nr: "s_files s (ref_file ''depot'' n e) = None" if "e \<in> ref_exts" for n e
    using that p(2) by (simp add: demo_store_def)
  have bk: "is_bucket (take 2 h)"
  proof -
    obtain x y zs where h: "h = x # y # zs" using v by (auto simp: valid_hash_def CAS_HASH_HEX_def numeral_eq_Suc length_Suc_conv)
    obtain d where "h = to_hex d" using run(3) by (auto simp: hash_object_eq cas_hash_digest split: option.splits)
    then have "x \<in> set (to_hex d)" using h by (metis list.set_intros(1))
    from to_hex_chars [OF this] show ?thesis using h by (auto simp: is_bucket_def)
  qed
  show thesis
    using that [of s h p] run(2,3) v g bk p nr by (simp add: demo_store_def build_path_def)
qed

text \<open>The same depot with a reference whose log names the directory.\<close>

definition demo_log_entry :: "string \<Rightarrow> log_entry" where
  "demo_log_entry h = (h, 0, 0, '''')"

lemma demo_log_entry_ok: "valid_hash h \<Longrightarrow> log_entry_ok (demo_log_entry h)"
proof -
  assume v: "valid_hash h"
  have "length (int_dec 0) = 1" by (simp add: int_dec_def decimal.simps)
  with v show ?thesis
    by (simp add: log_entry_ok_def demo_log_entry_def entry_body_def hex_hash_valid LOG_LINE_MAX_def) (simp add: valid_hash_def CAS_HASH_HEX_def)
qed

definition with_log :: "log_entry list \<Rightarrow> cas \<Rightarrow> cas_tree" where
  "with_log es s = \<lparr>ct_store = put_file (ref_file (s_basedir s) ''main'' ''.log'') (bytes_of (log_text es)) s, ct_flags = 0\<rparr>"

lemma with_log_facts:
  assumes "s_sys s = []" "list_all log_entry_ok es"
  shows "quiet (with_log es s)" "has_log (ct_store (with_log es s)) ''main'' es" "valid_ref_name ''main''"
    "get_object table (ct_store (with_log es s)) h = get_object table s h" "s_basedir (ct_store (with_log es s)) = s_basedir s"
    "s_pack (ct_store (with_log es s)) = s_pack s"
proof -
  show "quiet (with_log es s)" "has_log (ct_store (with_log es s)) ''main'' es" "s_basedir (ct_store (with_log es s)) = s_basedir s"
    "s_pack (ct_store (with_log es s)) = s_pack s"
    using assms by (simp_all add: with_log_def quiet_def has_log_def)
  show "valid_ref_name ''main''" by (simp add: valid_ref_name_def ascii_def)
  have "touches (ref_files (s_basedir s) ''main'') s (ct_store (with_log es s))" by (simp add: with_log_def touches_put)
  then show "get_object table (ct_store (with_log es s)) h = get_object table s h" by (rule touches_objects)
qed

section \<open>Commits\<close>

text \<open>
  C29. A commit is atomic for readers whatever fails on the way. On success the root is the new one and
  its line is in the log; on failure the root is the old one and the log has gained at most a
  part of the line. No object, and nothing of another reference, changes in either case.
\<close>

theorem ref_commit_atomic:
  assumes "cas_tree_ref_commit torn sec nsec ct name h note = (rc, ct')"
  defines "s \<equiv> ct_store ct" and "s' \<equiv> ct_store ct'"
    and "line \<equiv> bytes_of (log_line h sec nsec (case note of None \<Rightarrow> '''' | Some c \<Rightarrow> c))"
  shows "(\<forall>k. get_object table s' k = get_object table s k) \<and>
    (\<forall>other. other \<noteq> name \<longrightarrow> root_of s' other = root_of s other \<and> log_of s' other = log_of s other) \<and>
    (rc = CAS_OK \<longrightarrow> root_of s' name = Some (bytes_of (h @ [CHR 0x0A])) \<and> log_of s' name = log_of s name @ line) \<and>
    (rc \<noteq> CAS_OK \<longrightarrow> root_of s' name = root_of s name \<and> (\<exists>k. log_of s' name = log_of s name @ take k line))"
proof -
  have e: "commit_effect name (bytes_of (h @ [CHR 0x0A])) line rc s s'"
    using ref_commit_outcome [OF assms(1)] unfolding s_def s'_def line_def .
  then have t: "touches (ref_files (s_basedir s) name) s s'" by (simp add: commit_effect_def)
  then have b: "s_basedir s' = s_basedir s" by (simp add: touches_def)
  have "ref_file (s_basedir s) other x \<notin> ref_files (s_basedir s) name" if "other \<noteq> name" "x \<in> ref_exts" for other x
    using ref_files_disjoint [OF that(1), of "s_basedir s"] that(2) by (auto dest: ref_file_mem)
  then have "root_of s' other = root_of s other \<and> log_of s' other = log_of s other" if "other \<noteq> name" for other
    using that t b by (simp add: root_of_def log_of_def touches_def)
  with e touches_objects [OF t] show ?thesis by (auto simp: commit_effect_def)
qed

theorem ref_commit_atomic_witness:
  "\<exists>ct ct' h. cas_tree_ref_commit 10 0 0 ct ''main'' h None = (CAS_EIO, ct') \<and> root_of (ct_store ct') ''main'' = root_of (ct_store ct) ''main''"
proof (rule demo_depot)
  fix h and s :: cas
  assume d: "s_basedir s = ''depot''" "valid_hash h"
  let ?ct = "\<lparr>ct_store = s\<lparr>s_sys := [False]\<rparr>, ct_flags = 0\<rparr>"
  have "valid_ref_name ''main''" by (simp add: valid_ref_name_def ascii_def)
  then obtain ct' where run: "cas_tree_ref_commit 10 0 0 ?ct ''main'' h None = (CAS_EIO, ct')"
    using d by (simp add: cas_tree_ref_commit_def ensure_refs_dir_def hex_hash_valid sys_call_def REF_PATH_MAX_def)
  have "root_of (ct_store ct') ''main'' = root_of (ct_store ?ct) ''main''"
    using ref_commit_atomic [OF run, of "codec_table []"] by simp
  with run show ?thesis by blast
qed

text \<open>
  C38. What is committed is read back: when nothing fails the commit succeeds, the reference reads as the
  new root, and the log as the old history followed by the new entry.
\<close>

theorem commit_read_roundtrip:
  assumes "quiet ct" "length (s_basedir (ct_store ct)) \<le> 200" "valid_ref_name name" "log_entry_ok (h, sec, nsec, c)"
    and "has_log (ct_store ct) name es \<or> es = [] \<and> log_of (ct_store ct) name = []"
  shows "\<exists>ct'. cas_tree_ref_commit torn sec nsec ct name h (Some c) = (CAS_OK, ct') \<and>
    cas_tree_ref_read ct' name = (Inr h, ct') \<and>
    cas_tree_log_read collect (ct', []) name = (Some CAS_OK, ct', es @ [(h, sec, nsec, c)])"
proof -
  have hv: "valid_hex_hash h" using assms(4) by (simp add: log_entry_ok_def)
  from ref_commit_ok [OF assms(1-3) hv] obtain ct' where
    run: "cas_tree_ref_commit torn sec nsec ct name h (Some c) = (CAS_OK, ct')" "quiet ct'" by blast
  from ref_commit_outcome [OF run(1)] have eff: "root_of (ct_store ct') name = Some (bytes_of (h @ [CHR 0x0A]))"
    "log_of (ct_store ct') name = log_of (ct_store ct) name @ bytes_of (log_line h sec nsec c)"
    "s_basedir (ct_store ct') = s_basedir (ct_store ct)"
    by (simp_all add: commit_effect_def touches_def)
  have old: "log_of (ct_store ct) name = bytes_of (log_text es)" and ok: "list_all log_entry_ok es"
    using assms(5) by (auto simp: log_of_def has_log_def)
  have "log_of (ct_store ct') name = bytes_of (log_text (es @ [(h, sec, nsec, c)]))"
    using eff(2) old by (simp add: log_line_body)
  moreover have "log_text (es @ [(h, sec, nsec, c)]) \<noteq> []" by simp
  ultimately have "has_log (ct_store ct') name (es @ [(h, sec, nsec, c)])"
    using ok assms(4) by (auto simp: has_log_def log_of_def split: option.splits)
  from log_read_visits [of "(ct', [])", OF _ _ assms(3) _ collect_quiet] this run(2) eff(3) assms(2)
  have "cas_tree_log_read collect (ct', []) name = (Some CAS_OK, ct', es @ [(h, sec, nsec, c)])"
    by (simp add: visit_collect)
  with run ref_read_root [OF run(2) _ assms(3) hv eff(1)] eff(3) assms(2) show ?thesis by auto
qed

theorem commit_read_roundtrip_witness:
  "\<exists>h ct ct'. cas_tree_ref_commit 0 0 0 ct ''main'' h (Some '''') = (CAS_OK, ct') \<and> cas_tree_ref_read ct' ''main'' = (Inr h, ct')"
proof (rule demo_depot)
  fix h and s :: cas
  assume d: "s_sys s = []" "s_basedir s = ''depot''" "valid_hash h"
  have ok: "list_all log_entry_ok [demo_log_entry h]" using demo_log_entry_ok d(3) by simp
  note f = with_log_facts [OF d(1) ok]
  have e: "log_entry_ok (h, 0, 0, '''')" using demo_log_entry_ok [OF d(3)] by (simp add: demo_log_entry_def)
  from commit_read_roundtrip [OF f(1) _ f(3) e, of "[demo_log_entry h]" 0] f d(2) show ?thesis by auto
qed

section \<open>Pruning\<close>

text \<open>
  C39. Pruning keeps exactly the entries it documents, in order: the newest, the last \<open>keep_count\<close>, and those
  committed at \<open>keep_since\<close> or later. It reports the number of entries it removed, and changes no
  object. In particular the entry that protects the current root from collection always survives.
\<close>

theorem log_truncate_exact:
  assumes "quiet ct" "length (s_basedir (ct_store ct)) \<le> 200" "valid_ref_name name" "has_log (ct_store ct) name es"
    and "keep_count > 0 \<or> keep_since > 0"
  defines "kept \<equiv> map (\<lambda>i. es ! i) (filter (\<lambda>i. Suc i = length es \<or> 0 < keep_count \<and> int (length es - i) \<le> keep_count \<or>
      0 < keep_since \<and> keep_since \<le> sint (fst (snd (es ! i)))) [0..<length es])"
  shows "\<exists>ct'. cas_tree_log_truncate ct name keep_count keep_since = (Some (Inr (length es - length kept)), ct') \<and>
    cas_tree_log_read collect (ct', []) name = (Some CAS_OK, ct', kept) \<and>
    (es \<noteq> [] \<longrightarrow> kept \<noteq> [] \<and> last kept = last es) \<and>
    (\<forall>k. get_object table (ct_store ct') k = get_object table (ct_store ct) k)"
proof -
  have k: "kept_entries keep_count keep_since es = kept"
    unfolding kept_def by (rule kept_entries_spec)
  obtain ct' where run: "cas_tree_log_truncate ct name keep_count keep_since = (Some (Inr (length es - length kept)), ct')"
    "quiet ct'" "touches (ref_files (s_basedir (ct_store ct)) name) (ct_store ct) (ct_store ct')" "has_log (ct_store ct') name kept"
    using log_truncate_kept [OF assms(1-5)] unfolding k by blast
  have b: "s_basedir (ct_store ct') = s_basedir (ct_store ct)" using run(3) by (simp add: touches_def)
  have "cas_tree_log_read collect (ct', []) name = (Some CAS_OK, ct', kept)"
    using log_read_visits [of "(ct', [])", OF _ _ assms(3) _ collect_quiet] run(2,4) b assms(2) by (simp add: visit_collect)
  moreover have "es \<noteq> [] \<longrightarrow> kept \<noteq> [] \<and> last kept = last es"
    unfolding kept_def by (rule impI, rule last_filtered) simp_all
  ultimately show ?thesis using run(1) touches_objects [OF run(3)] by blast
qed

theorem log_truncate_exact_witness:
  "\<exists>h ct ct'. cas_tree_log_truncate ct ''main'' 1 0 = (Some (Inr 1), ct') \<and>
    cas_tree_log_read collect (ct', []) ''main'' = (Some CAS_OK, ct', [demo_log_entry h])"
proof (rule demo_depot)
  fix h and s :: cas
  assume d: "s_sys s = []" "s_basedir s = ''depot''" "valid_hash h"
  let ?e = "demo_log_entry h"
  have ok: "list_all log_entry_ok [?e, ?e]" using demo_log_entry_ok d(3) by simp
  note f = with_log_facts [OF d(1) ok]
  let ?ct = "with_log [?e, ?e] s"
  have "\<exists>ct'. cas_tree_log_truncate ?ct ''main'' 1 0 = (Some (Inr 1), ct') \<and>
    cas_tree_log_read collect (ct', []) ''main'' = (Some CAS_OK, ct', [?e])"
    using log_truncate_exact [OF f(1) _ f(3,2), of 1 0] f(5) d(2) by auto
  then show ?thesis by blast
qed

text \<open>
  Pruning takes a failing read for the end of the log. When the reading of the last entry fails the log
  is rewritten without it, and the caller is told that the pruning succeeded.
\<close>

lemma lock_ref_outcome:
  "s_sys s = True # True # r \<Longrightarrow> \<exists>s'. lock_ref p s = (True, s') \<and> s_sys s' = r \<and> touches {p} s s'"
  by (auto simp: lock_ref_def open_append_def sys_call_def touches_def put_file_def)

lemma slurp_cut:
  assumes "list_all log_entry_ok [a, b, c]" "s_sys s = [True, True, True, True, True, True, False]"
  shows "slurp_loop [] 0 s (log_text [a, b, c]) = (Some CAS_OK, [stamped a, stamped b], s\<lparr>s_sys := []\<rparr>)"
proof -
  have 3: "slurp_loop lines cap (s\<lparr>s_sys := [False]\<rparr>) p = (Some CAS_OK, lines, s\<lparr>s_sys := []\<rparr>)" for lines cap p
    by (subst slurp_loop.simps) (simp add: sys_call_def)
  have 2: "slurp_loop [x] 64 (s\<lparr>s_sys := [True, True, False]\<rparr>) (log_text [b, c]) = (Some CAS_OK, [x, stamped b], s\<lparr>s_sys := []\<rparr>)" for x
    using assms(1) next_line_entry [of b] parse_log_entry(2) [of b]
    by (subst slurp_loop.simps) (simp add: sys_call_def stamped_def Let_def 3)
  show ?thesis using assms next_line_entry [of a] parse_log_entry(2) [of a] 2 [of "stamped a"]
    by (subst slurp_loop.simps) (simp add: sys_call_def stamped_def Let_def)
qed

theorem truncate_loses_newest:
  assumes "list_all log_entry_ok [a, b, c]" "s_sys s = []" "s_basedir s = ''depot''"
  shows "\<exists>sys ct'. cas_tree_log_truncate ((with_log [a, b, c] s)\<lparr>ct_store := (ct_store (with_log [a, b, c] s))\<lparr>s_sys := sys\<rparr>\<rparr>) ''main'' 1 0
      = (Some (Inr 1), ct') \<and> has_log (ct_store ct') ''main'' [b]"
proof -
  define sys where "sys = [True, True, True, True, True, True, True, True, True, False]"
  define ct where "ct = (with_log [a, b, c] s)\<lparr>ct_store := (ct_store (with_log [a, b, c] s))\<lparr>s_sys := sys\<rparr>\<rparr>"
  let ?s = "ct_store ct" and ?f = "ref_file ''depot'' ''main''"
  note f = with_log_facts [OF assms(2,1)]
  have base: "s_basedir ?s = ''depot''" using f(5) assms(3) by (simp add: ct_def)
  have rp: "ref_path ?s ''main'' e REF_PATH_MAX = Some (?f e)" if "e \<in> ref_exts" for e
    using ref_path_some [of ?s "''main''" e] f(3) that base by simp
  obtain s1 where l: "lock_ref (?f ''.lock'') ?s = (True, s1)" "s_sys s1 = True # [True, True, True, True, True, True, False]"
    "touches {?f ''.lock''} ?s s1"
    using lock_ref_outcome [of ?s "True # [True, True, True, True, True, True, False]" "?f ''.lock''"] by (auto simp: ct_def sys_def)
  let ?s2 = "s1\<lparr>s_sys := [True, True, True, True, True, True, False]\<rparr>"
  have op: "sys_call s1 = (True, ?s2)" using l(2) by (simp add: sys_call_def)
  have logf: "s_files ?s2 (?f ''.log'') = Some (bytes_of (log_text [a, b, c]))"
    using l(3) assms(3) by (simp add: touches_def ct_def with_log_def)
  have sl: "slurp_loop [] 0 ?s2 (log_text [a, b, c]) = (Some CAS_OK, [stamped a, stamped b], s1\<lparr>s_sys := []\<rparr>)"
    using slurp_cut [OF assms(1), of ?s2] by simp
  have kp: "kept_lines 1 0 [stamped a, stamped b] = [entry_body b]"
    using kept_lines_entries [of 1 0 "[a, b]"] by (simp add: kept_entries_spec)
  obtain s4 where r: "rewrite_log (?f ''.log'' @ ''.tmp'') (?f ''.log'') [entry_body b] (s1\<lparr>s_sys := []\<rparr>) = (CAS_OK, s4)"
    "touches {?f ''.log'' @ ''.tmp'', ?f ''.log''} (s1\<lparr>s_sys := []\<rparr>) s4"
    "s_files s4 (?f ''.log'') = Some (bytes_of (entry_body b @ [CHR 0x0A]))"
    using rewrite_log_ok [of "s1\<lparr>s_sys := []\<rparr>" "?f ''.log'' @ ''.tmp''" "?f ''.log''" "[entry_body b]"] by auto
  have len: "\<not> REF_PATH_MAX \<le> length (?f ''.log'' @ ''.tmp'')" by (simp add: ref_file_def REF_PATH_MAX_def)
  have "cas_tree_log_truncate ct ''main'' 1 0 = (Some (Inr 1), ct\<lparr>ct_store := s4\<rparr>)"
    using f(3) rp l op logf sl kp r len by (simp add: cas_tree_log_truncate_def Let_def del: length_append log_text_simps)
  moreover have "s_basedir s4 = ''depot''" using r(2) l(3) base by (simp add: touches_def)
  ultimately show ?thesis unfolding ct_def using r(3) assms(1)
    by (intro exI [of _ sys] exI [of _ "_\<lparr>ct_store := s4\<rparr>"]) (simp add: has_log_def)
qed

section \<open>Collection\<close>

text \<open>
  C3. Garbage collection is exact. In a depot whose logs can be read, whose live directories load or are
  absent, and where no name serves as a directory and as something else, the collection succeeds, every
  object that some log entry of some reference reaches keeps its type and content, and without a
  grace period every other object the iteration visits is removed. The depth needed is bounded by the
  number of live directories.
\<close>

theorem gc_exact:
  assumes "gc_ready fuel table mem ct roots"
    and "\<And>name. name \<in> set (ref_names ents) \<Longrightarrow> valid_ref_name name \<and> has_log (ct_store ct) name (hist name)"
    and "roots = (\<Union>name \<in> set (ref_names ents). fst ` set (hist name))"
  defines "alive \<equiv> live (dir_children table mem ct) roots"
  shows "\<exists>n ct' c'. cas_tree_gc fuel table mem mtime now grace (Some ents) (Listing ds) fn ct c = (Some (Inr n), ct', c') \<and>
    (\<forall>h. alive h \<longrightarrow> get_object table (ct_store ct') h = get_object table (ct_store ct) h) \<and>
    (grace \<le> 0 \<and> fn = None \<longrightarrow> (\<forall>h p. h \<in> set (visited (s_basedir (ct_store ct)) ds) \<and> \<not> alive h \<and>
       build_path (ct_store ct) h CAS_PATH_MAX = Some p \<longrightarrow> s_files (ct_store ct') p = None))"
proof -
  let ?s = "ct_store ct" and ?cut = "if grace > 0 then now - grace else 0"
  obtain n R s' c' where run: "cas_tree_gc fuel table mem mtime now grace (Some ents) (Listing ds) fn ct c = (Some (Inr n), ct\<lparr>ct_store := s'\<rparr>, c')"
    and R: "\<forall>h. h \<in> set (hs_hashes R) \<longleftrightarrow> alive h"
    and sw: "foreach_loop (sweep_visitor mtime R ?cut fn) ds (?s, 0, c) = (s', n, c')"
    using gc_run [OF assms(1,2,3), where mtime = mtime and now = now and grace = grace and ds = ds and fn = fn and c = c]
    unfolding alive_def by metis
  have "touches (dead_paths ?s (set (hs_hashes R))) ?s (fst (foreach_loop (sweep_visitor mtime R ?cut fn) ds (?s, 0, c)))"
    by (rule foreach_loop_invariant [of "\<lambda>x. touches (dead_paths ?s (set (hs_hashes R))) ?s (fst x)"])
      (simp_all add: sweep_touches touches_refl)
  then have t: "touches (dead_paths ?s (set (hs_hashes R))) ?s s'" by (simp add: sw)
  have "s_files s' p = None" if "grace \<le> 0" "fn = None" "h \<in> set (visited (s_basedir ?s) ds)" "\<not> alive h"
    "build_path ?s h CAS_PATH_MAX = Some p" for h p
  proof -
    have q: "s_sys ?s = []" using assms(1) by (simp add: gc_ready_def quiet_def)
    have "foldl (\<lambda>x h. snd (sweep_visitor mtime R ?cut None x h)) (?s, 0, c) (visited (s_basedir ?s) ds) = (s', n, c')"
      using sw that(2) foreach_loop_fold [of "sweep_visitor mtime R ?cut None" ds "(?s, 0, c)", OF sweep_goes_on] by simp
    from sweep_all [OF q _ this] that R visited_valid [OF that(3)] show ?thesis by simp
  qed
  with run R dead_paths_keep [OF t] show ?thesis by auto
qed

lemma load_empty_dir:
  assumes "quiet ct" "get_object (codec_table []) (ct_store ct) h = Some (''tree'', dir_text [])"
  shows "\<exists>dir. dir_node (codec_table []) (\<lambda>_. []) ct h = Some (CAS_OK, dir) \<and> d_entries dir = []"
proof -
  have "dir_object ''tree'' (dir_text []) []" by (simp add: dir_object_def names_sorted_def)
  from dir_object_load [OF this assms(2), of "new_dir []"] assms(1) show ?thesis
    by (auto simp: dir_node_def quiet_def)
qed

lemma demo_ready:
  assumes "quiet ct" "s_basedir (ct_store ct) = ''depot''" "get_object (codec_table []) (ct_store ct) h = Some (''tree'', dir_text [])"
  shows "gc_ready 2 (codec_table []) (\<lambda>_. []) ct {h}" "live (dir_children (codec_table []) (\<lambda>_. []) ct) {h} h"
proof -
  obtain dir where d: "dir_node (codec_table []) (\<lambda>_. []) ct h = Some (CAS_OK, dir)" "d_entries dir = []"
    using load_empty_dir [OF assms(1,3)] by blast
  let ?ch = "dir_children (codec_table []) (\<lambda>_. []) ct"
  have c: "?ch h = []" using d by (simp add: dir_children_def)
  have l: "live_dir ?ch {h} g \<longleftrightarrow> g = h" for g
  proof
    show "g = h" if "live_dir ?ch {h} g" using that by induction (use c in auto)
  qed (simp add: live_root)
  show "gc_ready 2 (codec_table []) (\<lambda>_. []) ct {h}" using assms(1,2) d c by (simp add: gc_ready_def l well_typed_def)
  show "live ?ch {h} h" by (simp add: live_def l)
qed

lemma demo_ref_names: "ref_names [''main.root''] = [''main'']"
  by (simp add: ref_name_of_def)

theorem gc_exact_witness:
  "\<exists>h ct n ct'. cas_tree_gc 2 (codec_table []) (\<lambda>_. []) (\<lambda>_. 0) 0 0 (Some [''main.root'']) (Listing [(take 2 h, Some [h])]) None ct ()
      = (Some (Inr n), ct', ()) \<and>
    get_object (codec_table []) (ct_store ct') h = Some (''tree'', dir_text [])"
proof (rule demo_depot)
  fix h and s :: cas
  assume d: "s_sys s = []" "s_basedir s = ''depot''" "valid_hash h" "get_object (codec_table []) s h = Some (''tree'', dir_text [])"
  let ?ct = "with_log [demo_log_entry h] s"
  have "list_all log_entry_ok [demo_log_entry h]" using demo_log_entry_ok d(3) by simp
  note f = with_log_facts [OF d(1) this]
  note r = demo_ready [of ?ct h]
  have rdy: "gc_ready 2 (codec_table []) (\<lambda>_. []) ?ct {h}" using r(1) f d(2,4) by simp
  have roots: "{h} = (\<Union>name \<in> set (ref_names [''main.root'']). fst ` set ((\<lambda>_. [demo_log_entry h]) name))"
    unfolding demo_ref_names by (simp add: demo_log_entry_def)
  have logs: "valid_ref_name name \<and> has_log (ct_store ?ct) name ((\<lambda>_. [demo_log_entry h]) name)"
    if "name \<in> set (ref_names [''main.root''])" for name using that f unfolding demo_ref_names by simp
  have al: "live (dir_children (codec_table []) (\<lambda>_. []) ?ct) {h} h" using r(2) f d(2,4) by simp
  from gc_exact [OF rdy logs roots, of "\<lambda>_. 0" 0 0 "[(take 2 h, Some [h])]" None "()"] obtain n ct' where
    "cas_tree_gc 2 (codec_table []) (\<lambda>_. []) (\<lambda>_. 0) 0 0 (Some [''main.root'']) (Listing [(take 2 h, Some [h])]) None ?ct () = (Some (Inr n), ct', ())"
    "get_object (codec_table []) (ct_store ct') h = get_object (codec_table []) (ct_store ?ct) h" using al by auto
  with f d(4) show ?thesis by auto
qed

text \<open>A line that does not fit the buffer ends the reading of a log with an error before any entry is seen.\<close>

lemma line_of_long: "CHR 0x0A \<notin> set l \<Longrightarrow> k \<le> length l \<Longrightarrow> line_of k (l @ r) = take k l"
proof (induction k arbitrary: l)
  case (Suc k)
  then show ?case by (cases l) auto
qed simp

lemma long_line_unread:
  assumes "valid_hash h" "CHR 0x0A \<notin> set x" "CHR 0x00 \<notin> set x" "length x \<ge> LOG_LINE_MAX - 64"
  shows "next_line (log_line h t n x) = Inl CAS_ERR"
proof -
  let ?b = "entry_body (h, t, n, x)" and ?k = "LOG_LINE_MAX - 1"
  have "length h = 64" using assms(1) by (simp add: valid_hash_def CAS_HASH_HEX_def)
  then have long: "?k \<le> length ?b" using assms(4) by (simp add: entry_body_def LOG_LINE_MAX_def)
  have plain: "c \<noteq> CHR 0x0A \<and> c \<noteq> CHR 0x00" if "c \<in> set ?b" for c
    using that assms(1-3) valid_hash_plain int_dec_plain by (auto simp: entry_body_def)
  have raw: "line_of ?k (log_line h t n x) = take ?k ?b"
    unfolding log_line_body using plain long by (intro line_of_long) auto
  have "c_str (take ?k ?b) = take ?k ?b" using plain by (auto simp: c_str_def dest: in_set_takeD)
  moreover have "take ?k ?b \<noteq> []" using long by (cases ?b) (simp_all add: LOG_LINE_MAX_def)
  moreover from this have "last (take ?k ?b) \<noteq> CHR 0x0A" using plain by (meson in_set_takeD last_in_set)
  moreover have "length (take ?k ?b) = ?k" using long by simp
  moreover have "log_line h t n x \<noteq> []" by (simp add: log_line_def)
  ultimately show ?thesis unfolding next_line_def Let_def raw by (simp del: length_take)
qed

lemma mark_ref_unread:
  assumes "quiet ct" "s_basedir (ct_store ct) = ''depot''" "valid_ref_name name" "next_line p = Inl CAS_ERR"
    "s_files (ct_store ct) (ref_file ''depot'' name ''.log'') = Some (bytes_of p)"
  shows "mark_ref fuel table mem (ct, hs, mrc) name = (mrc \<noteq> Some CAS_OK, ct, hs, mrc)"
proof -
  have "log_loop fn (ct, hs, mrc) p = (Some CAS_ERR, ct, hs, mrc)" for fn
    using assms(1,4) by (subst log_loop.simps) (simp add: quiet_def)
  then show ?thesis
    using assms ref_path_some [of "ct_store ct" name "''.log''"] by (simp add: mark_ref_def cas_tree_log_read_def quiet_def)
qed

text \<open>
  A log the collector cannot read does not stop it. A commit with a comment that does not fit a line
  of the readers succeeds, and the next collection, which ignores that reading the log failed, removes
  the directory the reference was just set to.
\<close>

theorem unreadable_log_swept:
  "\<exists>h ct ct' ct''. cas_tree_ref_commit 0 0 0 ct ''main'' h (Some (replicate 1000 CHR ''x'')) = (CAS_OK, ct') \<and>
    cas_tree_ref_read ct' ''main'' = (Inr h, ct') \<and>
    get_object (codec_table []) (ct_store ct') h = Some (''tree'', dir_text []) \<and>
    cas_tree_gc 2 (codec_table []) (\<lambda>_. []) (\<lambda>_. 0) 0 0 (Some [''main.root'']) (Listing [(take 2 h, Some [h])]) None ct' ()
      = (Some (Inr 1), ct'', ()) \<and>
    get_object (codec_table []) (ct_store ct'') h = None"
proof (rule demo_depot)
  fix h p and s :: cas
  assume d: "s_sys s = []" "s_basedir s = ''depot''" "s_pack s = None" "valid_hash h" "is_bucket (take 2 h)"
    "get_object (codec_table []) s h = Some (''tree'', dir_text [])"
    "build_path s h CAS_PATH_MAX = Some p" "s_files s p \<noteq> None"
    "\<And>n e. e \<in> ref_exts \<Longrightarrow> s_files s (ref_file ''depot'' n e) = None"
  let ?ct = "\<lparr>ct_store = s, ct_flags = 0\<rparr>" and ?x = "replicate 1000 CHR ''x''"
  let ?line = "log_line h 0 0 ?x"
  have nm: "valid_ref_name ''main''" by (simp add: valid_ref_name_def ascii_def)
  have hv: "valid_hex_hash h" using d(4) by (simp add: hex_hash_valid)
  obtain ct' where run: "cas_tree_ref_commit 0 0 0 ?ct ''main'' h (Some ?x) = (CAS_OK, ct')" "quiet ct'"
    using ref_commit_ok [OF _ _ nm hv, of ?ct 0 0 0 "Some ?x"] d(1,2) by (auto simp: quiet_def)
  note ef = ref_commit_outcome [OF run(1)]
  have t: "touches (ref_files (s_basedir s) ''main'') s (ct_store ct')" using ef by (simp add: commit_effect_def)
  then have b: "s_basedir (ct_store ct') = ''depot''" "s_pack (ct_store ct') = None" using d(2,3) by (simp_all add: touches_def)
  have g: "get_object (codec_table []) (ct_store ct') h = Some (''tree'', dir_text [])" using touches_objects [OF t] d(6) by simp
  have "log_of s ''main'' = []" using d(2,9) by (simp add: log_of_def)
  then have "log_of (ct_store ct') ''main'' = bytes_of ?line" using ef by (simp add: commit_effect_def)
  then have log: "s_files (ct_store ct') (ref_file ''depot'' ''main'' ''.log'') = Some (bytes_of ?line)"
    using b(1) by (auto simp: log_of_def log_line_def split: option.splits)
  have rr: "cas_tree_ref_read ct' ''main'' = (Inr h, ct')"
    using ref_read_root [OF run(2) _ nm hv] ef b(1) by (simp add: commit_effect_def)
  have mk: "mark_ref 2 (codec_table []) (\<lambda>_. []) (ct', hash_set_init, Some CAS_OK) ''main'' = (False, ct', hash_set_init, Some CAS_OK)"
    using mark_ref_unread [OF run(2) b(1) nm _ log] long_line_unread [of h ?x 0 0] d(4)
    by (simp add: LOG_LINE_MAX_def)
  have ps: "build_path (ct_store ct') h CAS_PATH_MAX = Some p" using d(2,7) b(1) by (simp add: build_path_def)
  have "p \<notin> ref_files (s_basedir s) ''main''" using object_path_not_ref [OF d(7)] d(4) by (simp add: valid_hash_def)
  then have pf: "s_files (ct_store ct') p \<noteq> None" using t d(8) by (simp add: touches_def)
  let ?s2 = "(ct_store ct')\<lparr>s_files := (s_files (ct_store ct'))(p := None)\<rparr>"
  have rm: "cas_remove (ct_store ct') h = (CAS_OK, ?s2)" using run(2) d(4) ps pf by (simp add: cas_remove_def quiet_def)
  have "foreach_loop (sweep_visitor (\<lambda>_. 0) hash_set_init 0 None) [(take 2 h, Some [h])] (ct_store ct', 0, ()) = (?s2, 1, ())"
    using d(4,5) b(1) rm by (simp add: sweep_visitor_def hash_set_contains_def hash_set_init_def CAS_PATH_MAX_def)
  moreover have "ref_loop (mark_ref 2 (codec_table []) (\<lambda>_. [])) [''main.root''] (ct', hash_set_init, Some CAS_OK) = (ct', hash_set_init, Some CAS_OK)"
    using mk by simp
  ultimately have gc: "cas_tree_gc 2 (codec_table []) (\<lambda>_. []) (\<lambda>_. 0) 0 0 (Some [''main.root'']) (Listing [(take 2 h, Some [h])]) None ct' ()
      = (Some (Inr 1), ct'\<lparr>ct_store := ?s2\<rparr>, ())"
    using b(1) by (simp add: cas_tree_gc_def cas_tree_ref_foreach_def cas_foreach_def REF_PATH_MAX_def del: ref_loop.simps foreach_loop.simps)
  have "get_object (codec_table []) (ct_store (ct'\<lparr>ct_store := ?s2\<rparr>)) h = None"
    using d(4) b ps by (simp add: get_object_def cas_open_object_def open_loose_def map_loose_def build_path_def)
  with run(1) rr g gc show ?thesis by blast
qed

section \<open>Checking the trees\<close>

text \<open>
  C40. The check of a tree is exact: whatever verdict it gives, it has left the depot alone and the verdict
  is success exactly if the tree is sound, every directory in it passing the check of directories and
  every other object the check of objects. It does give the verdict for every sound tree.
\<close>

theorem tree_fsck_exact:
  assumes "quiet ct" "s_pack (ct_store ct) = None"
  shows "(\<forall>k rc ct' c'. cas_tree_fsck_root k table env None ct root c = (Some rc, ct', c') \<longrightarrow>
      ct' = ct \<and> (rc = CAS_OK \<longleftrightarrow> tree_sound table env ct ''/'' root)) \<and>
    (tree_sound table env ct ''/'' root \<longrightarrow>
      (\<exists>k0. \<forall>k \<ge> k0. cas_tree_fsck_root k table env None ct root c = (Some CAS_OK, ct, c)))"
proof (intro conjI allI impI)
  fix k rc ct' c'
  assume "cas_tree_fsck_root k table env None ct root c = (Some rc, ct', c')"
  then show "ct' = ct" "rc = CAS_OK \<longleftrightarrow> tree_sound table env ct ''/'' root"
    using tree_exact [OF assms, of 0 k table env "''/''" root c]
    by (auto simp: walk_exact_def cas_tree_fsck_root_def split: prod.splits if_splits)
next
  assume "tree_sound table env ct ''/'' root"
  from sound_returns [OF assms this, of c] obtain k0 where
    "\<And>k. k \<ge> k0 \<Longrightarrow> fsck_tree k table env None ''/'' root (ct, 0, c) = (Some False, ct, 0, c)" by blast
  then show "\<exists>k0. \<forall>k \<ge> k0. cas_tree_fsck_root k table env None ct root c = (Some CAS_OK, ct, c)"
    by (intro exI [of _ k0]) (simp add: cas_tree_fsck_root_def)
qed

theorem tree_fsck_exact_witness:
  "\<exists>h ct k. cas_tree_fsck_root k (codec_table []) (\<lambda>_. ([], True, True, [], [])) None ct h () = (Some CAS_OK, ct, ())"
proof (rule demo_depot)
  fix h and s :: cas
  assume d: "s_sys s = []" "s_pack s = None" "valid_hash h" "get_object (codec_table []) s h = Some (''tree'', dir_text [])"
    "cas_hash_object ''tree'' (dir_text []) = Some h"
  let ?t = "codec_table []" and ?env = "\<lambda>_. ([], True, True, [], [])" and ?ct = "\<lparr>ct_store = s, ct_flags = 0\<rparr>"
  have q: "quiet ?ct" using d(1) by (simp add: quiet_def)
  have fo: "fst (cas_fsck_object ?t s h) = Some CAS_FSCK_OK"
    unfolding fsck_object_iff [OF codec_none_ok d(1,2)] using d(4,5) by simp
  have tv: "tree_text_verify [] True (dir_text []) = Some CAS_FSCK_OK"
    by (rule tree_text_verify_complete) (simp_all add: names_sorted_def)
  obtain dir where dir: "dir_node ?t (\<lambda>_. []) ?ct h = Some (CAS_OK, dir)" "d_entries dir = []"
    using load_empty_dir [OF q] d(4) by auto
  have "tree_sound ?t ?env ?ct ''/'' h"
  proof (rule checked)
    obtain s' where "cas_open_object ?t s h (Some (CAS_TYPE_MAX + 1)) = (Some (Inr (''tree'', dir_text [])), s')"
      using get_object_open [OF d(4,1)] by blast
    moreover from this have "s' = s" using open_object_quiet [OF d(1), of ?t h "Some (CAS_TYPE_MAX + 1)"] by simp
    ultimately show "verdict ?t ?env ?ct ''/'' h = Some CAS_FSCK_OK"
      using fo tv by (cases "cas_fsck_object ?t s h") (simp add: verdict_def cas_tree_verify_def)
    show "listing_at ?t ?env ?ct ''/'' h = Some (CAS_OK, dir)" using dir(1) by (simp add: listing_at_def dir_node_def)
  qed (simp_all add: dir)
  with tree_fsck_exact [OF q, of ?t ?env h "()"] d(2)
  obtain k where "cas_tree_fsck_root k ?t ?env None ?ct h () = (Some CAS_OK, ?ct, ())" by auto
  then show ?thesis by blast
qed

end
