(* ===== verification/Omap.thy ===== *)
theory Omap
  imports OpenObject
begin

unbundle bit_operations_syntax

text \<open>
  The sparse map from numbers to object names of \<open>cas-omap.c\<close>: a sorted directory of pages in memory, pages of
  256 slots that are loaded from the store when they are first used, and snapshots of the whole map as
  objects of type \<open>omap\<close> and \<open>opage\<close>. The outcomes of allocations are taken from the store's list of
  outcomes; \<^const>\<open>None\<close> around a result stands for a read outside the mapping of a pack.
\<close>

section \<open>State\<close>

definition CAS_OMAP_PAGE_SLOTS :: nat where "CAS_OMAP_PAGE_SLOTS = 256"
definition CAS_OMAP_PAGE_SIZE :: nat where "CAS_OMAP_PAGE_SIZE = CAS_OMAP_PAGE_SLOTS * CAS_HASH_LEN"
definition OMAP_DIR_MAGIC :: "byte list" where "OMAP_DIR_MAGIC = bytes_of ''OMv1''"
definition OMAP_DIR_MAGIC_LEN :: nat where "OMAP_DIR_MAGIC_LEN = 4"
definition OMAP_DIR_HEADER_LEN :: nat where "OMAP_DIR_HEADER_LEN = 8"
definition OMAP_DIR_ENTRY_LEN :: nat where "OMAP_DIR_ENTRY_LEN = 48"

definition zero_hash :: "byte list" where
  "zero_hash = replicate CAS_HASH_LEN 0"

datatype omap_rc = Omap_rc cas_rc | CAS_OMAP_EFULL

record omap_page =
  pg_slots :: "byte list list"
  pg_pop :: u16
  pg_dirty :: bool

record omap_dir_entry =
  de_page_num :: u64
  de_hash :: "byte list"
  de_pop :: u16
  de_cached :: "omap_page option"

text \<open>The number of entries is the length of the directory; \<open>om_cap\<close> is the size of its allocation.\<close>

record cas_omap =
  om_store :: cas
  om_dir :: "omap_dir_entry list"
  om_cap :: nat

definition om_sys :: "cas_omap \<Rightarrow> bool \<times> cas_omap" where
  "om_sys om = (let (ok, s) = sys_call (om_store om) in (ok, om\<lparr>om_store := s\<rparr>))"

definition cas_omap_new :: "cas \<Rightarrow> cas_omap option" where
  "cas_omap_new s = (let (ok, s') = sys_call s in if ok then Some \<lparr>om_store = s', om_dir = [], om_cap = 0\<rparr> else None)"

definition page_of :: "u64 \<Rightarrow> u64" where
  "page_of oid = oid div of_nat CAS_OMAP_PAGE_SLOTS"

definition slot_of :: "u64 \<Rightarrow> nat" where
  "slot_of oid = unat (oid mod of_nat CAS_OMAP_PAGE_SLOTS)"

section \<open>The directory\<close>

function find_pos :: "omap_dir_entry list \<Rightarrow> u64 \<Rightarrow> nat \<Rightarrow> nat \<Rightarrow> nat" where
  "find_pos dir page_num lo hi =
     (if lo < hi then
        let mid = lo + (hi - lo) div 2 in
        if de_page_num (dir ! mid) < page_num then find_pos dir page_num (mid + 1) hi
        else find_pos dir page_num lo mid
      else lo)"
  by pat_completeness auto
termination by (relation "measure (\<lambda>(dir, n, lo, hi). hi - lo)") auto

declare find_pos.simps [simp del]

definition dir_find :: "cas_omap \<Rightarrow> u64 \<Rightarrow> nat" where
  "dir_find om page_num = find_pos (om_dir om) page_num 0 (length (om_dir om))"

definition dir_has :: "cas_omap \<Rightarrow> u64 \<Rightarrow> nat \<Rightarrow> bool" where
  "dir_has om page_num pos \<longleftrightarrow> pos < length (om_dir om) \<and> de_page_num (om_dir om ! pos) = page_num"

definition empty_entry :: "u64 \<Rightarrow> omap_dir_entry" where
  "empty_entry page_num = \<lparr>de_page_num = page_num, de_hash = zero_hash, de_pop = 0, de_cached = None\<rparr>"

definition dir_insert :: "cas_omap \<Rightarrow> u64 \<Rightarrow> (cas_rc + nat) \<times> cas_omap" where
  "dir_insert om page_num =
     (let pos = dir_find om page_num in
      if dir_has om page_num pos then (Inr pos, om)
      else
        let full = (length (om_dir om) \<ge> om_cap om);
            (ok, om1) = (if full then om_sys om else (True, om));
            cap = (if full then (if om_cap om \<noteq> 0 then om_cap om * 2 else 16) else om_cap om)
        in if \<not> ok then (Inl CAS_ENOMEM, om1)
           else (Inr pos, om1\<lparr>om_cap := cap,
                  om_dir := take pos (om_dir om1) @ [empty_entry page_num] @ drop pos (om_dir om1)\<rparr>))"

section \<open>Pages\<close>

definition cut_slots :: "byte list \<Rightarrow> byte list list" where
  "cut_slots data = map (\<lambda>i. take CAS_HASH_LEN (drop (i * CAS_HASH_LEN) data)) [0..<CAS_OMAP_PAGE_SLOTS]"

definition set_cached :: "cas_omap \<Rightarrow> nat \<Rightarrow> omap_page \<Rightarrow> cas_omap" where
  "set_cached om pos pg = om\<lparr>om_dir := (om_dir om)[pos := (om_dir om ! pos)\<lparr>de_cached := Some pg\<rparr>]\<rparr>"

text \<open>The page of the directory entry at \<open>pos\<close> is brought into memory.\<close>

definition page_load :: "cas_codec list \<Rightarrow> cas_omap \<Rightarrow> nat \<Rightarrow> cas_rc option \<times> cas_omap" where
  "page_load table om pos =
     (let de = om_dir om ! pos in
      if de_cached de \<noteq> None then (Some CAS_OK, om)
      else (case cas_open_object table (om_store om) (cas_hex_encode (de_hash de)) (Some (CAS_TYPE_MAX + 1)) of
              (None, s) \<Rightarrow> (None, om\<lparr>om_store := s\<rparr>)
            | (Some (Inl rc), s) \<Rightarrow> (Some rc, om\<lparr>om_store := s\<rparr>)
            | (Some (Inr (type, data)), s) \<Rightarrow>
                let om1 = om\<lparr>om_store := s\<rparr> in
                if type \<noteq> ''opage'' \<or> length data \<noteq> CAS_OMAP_PAGE_SIZE then (Some CAS_ETYPE, om1)
                else let (ok, om2) = om_sys om1 in
                  if \<not> ok then (Some CAS_ENOMEM, om2)
                  else (Some CAS_OK, set_cached om2 pos \<lparr>pg_slots = cut_slots data, pg_pop = de_pop de, pg_dirty = False\<rparr>)))"

definition empty_page :: omap_page where
  "empty_page = \<lparr>pg_slots = replicate CAS_OMAP_PAGE_SLOTS zero_hash, pg_pop = 0, pg_dirty = False\<rparr>"

definition page_ensure :: "cas_codec list \<Rightarrow> cas_omap \<Rightarrow> u64 \<Rightarrow> (cas_rc + nat) option \<times> cas_omap" where
  "page_ensure table om oid =
     (case dir_insert om (page_of oid) of
        (Inl rc, om1) \<Rightarrow> (Some (Inl rc), om1)
      | (Inr pos, om1) \<Rightarrow>
          if de_cached (om_dir om1 ! pos) \<noteq> None then (Some (Inr pos), om1)
          else if de_hash (om_dir om1 ! pos) \<noteq> zero_hash then
            (case page_load table om1 pos of
               (None, om2) \<Rightarrow> (None, om2)
             | (Some rc, om2) \<Rightarrow> if rc \<noteq> CAS_OK then (Some (Inl rc), om2) else (Some (Inr pos), om2))
          else let (ok, om2) = om_sys om1 in
            if \<not> ok then (Some (Inl CAS_ENOMEM), om2)
            else (Some (Inr pos), set_cached om2 pos empty_page))"

text \<open>The page in memory at \<open>pos\<close>; it is only read after one of the two operations above succeeded.\<close>

definition the_page :: "cas_omap \<Rightarrow> nat \<Rightarrow> omap_page" where
  "the_page om pos = (case de_cached (om_dir om ! pos) of Some pg \<Rightarrow> pg | None \<Rightarrow> empty_page)"

section \<open>Lookup\<close>

definition cas_omap_get :: "cas_codec list \<Rightarrow> cas_omap \<Rightarrow> u64 \<Rightarrow> (cas_rc + string) option \<times> cas_omap" where
  "cas_omap_get table om oid =
     (let pos = dir_find om (page_of oid) in
      if \<not> dir_has om (page_of oid) pos then (Some (Inl CAS_ENOTFOUND), om)
      else (case page_load table om pos of
              (None, om1) \<Rightarrow> (None, om1)
            | (Some rc, om1) \<Rightarrow>
                if rc \<noteq> CAS_OK then (Some (Inl rc), om1)
                else let hash = pg_slots (the_page om1 pos) ! slot_of oid in
                  if hash = zero_hash then (Some (Inl CAS_ENOTFOUND), om1)
                  else (Some (Inr (cas_hex_encode hash)), om1)))"

definition cas_omap_exists :: "cas_codec list \<Rightarrow> cas_omap \<Rightarrow> u64 \<Rightarrow> bool option \<times> cas_omap" where
  "cas_omap_exists table om oid =
     (case cas_omap_get table om oid of (r, om1) \<Rightarrow> (map_option (\<lambda>x. case x of Inr h \<Rightarrow> True | Inl rc \<Rightarrow> rc = CAS_OK) r, om1))"

section \<open>Mutation\<close>

definition write_slot :: "cas_omap \<Rightarrow> nat \<Rightarrow> nat \<Rightarrow> byte list \<Rightarrow> (u16 \<Rightarrow> u16) \<Rightarrow> cas_omap" where
  "write_slot om pos slot bin pop =
     (let de = om_dir om ! pos; pg = the_page om pos;
          pg1 = pg\<lparr>pg_slots := (pg_slots pg)[slot := bin], pg_dirty := True, pg_pop := pop (pg_pop pg)\<rparr>
      in om\<lparr>om_dir := (om_dir om)[pos := de\<lparr>de_cached := Some pg1, de_pop := pop (de_pop de)\<rparr>]\<rparr>)"

definition cas_omap_put :: "cas_codec list \<Rightarrow> cas_omap \<Rightarrow> u64 \<Rightarrow> string \<Rightarrow> cas_rc option \<times> cas_omap" where
  "cas_omap_put table om oid hash =
     (if \<not> cas_valid_hash hash then (Some CAS_ERR, om)
      else (case page_ensure table om oid of
              (None, om1) \<Rightarrow> (None, om1)
            | (Some (Inl rc), om1) \<Rightarrow> (Some rc, om1)
            | (Some (Inr pos), om1) \<Rightarrow>
                let old = pg_slots (the_page om1 pos) ! slot_of oid;
                    bin = (case cas_hex_decode hash CAS_HASH_LEN of Some b \<Rightarrow> b | None \<Rightarrow> hex_prefix hash @ drop (length (hex_prefix hash)) old)
                in (Some CAS_OK, write_slot om1 pos (slot_of oid) bin (if old = zero_hash then (\<lambda>n. n + 1) else (\<lambda>n. n)))))"

definition cas_omap_del :: "cas_codec list \<Rightarrow> cas_omap \<Rightarrow> u64 \<Rightarrow> cas_rc option \<times> cas_omap" where
  "cas_omap_del table om oid =
     (let pos = dir_find om (page_of oid) in
      if \<not> dir_has om (page_of oid) pos then (Some CAS_ENOTFOUND, om)
      else (case page_load table om pos of
              (None, om1) \<Rightarrow> (None, om1)
            | (Some rc, om1) \<Rightarrow>
                if rc \<noteq> CAS_OK then (Some rc, om1)
                else if pg_slots (the_page om1 pos) ! slot_of oid = zero_hash then (Some CAS_ENOTFOUND, om1)
                else (Some CAS_OK, write_slot om1 pos (slot_of oid) zero_hash (\<lambda>n. n - 1))))"

definition cas_omap_clear :: "cas_omap \<Rightarrow> cas_omap" where
  "cas_omap_clear om = om\<lparr>om_dir := [], om_cap := 0\<rparr>"

section \<open>Allocation\<close>

text \<open>The loop over the slots of one page: no room below the end, a free number, or nothing in this page.\<close>

fun scan_slots :: "byte list list \<Rightarrow> u64 \<Rightarrow> u64 \<Rightarrow> nat list \<Rightarrow> (omap_rc + u64) option" where
  "scan_slots slots base bound [] = None"
| "scan_slots slots base bound (s # ss) =
     (let candidate = base + of_nat s in
      if candidate \<ge> bound then Some (Inl CAS_OMAP_EFULL)
      else if slots ! s = zero_hash then Some (Inr candidate)
      else scan_slots slots base bound ss)"

text \<open>The outer loop, for a bounded number of pages; each turn meets a page of the directory or ends.\<close>

fun alloc_loop :: "nat \<Rightarrow> cas_codec list \<Rightarrow> cas_omap \<Rightarrow> u64 \<Rightarrow> u64 \<Rightarrow> (omap_rc + u64) option \<times> cas_omap" where
  "alloc_loop 0 table om bound oid = (None, om)"
| "alloc_loop (Suc k) table om bound oid =
     (if \<not> oid < bound then (Some (Inl CAS_OMAP_EFULL), om)
      else
        let page_num = page_of oid; pos = dir_find om page_num;
            next = (page_num + 1) * of_nat CAS_OMAP_PAGE_SLOTS in
        if \<not> dir_has om page_num pos then (Some (Inr oid), om)
        else if de_pop (om_dir om ! pos) = of_nat CAS_OMAP_PAGE_SLOTS then alloc_loop k table om bound next
        else (case page_load table om pos of
                (None, om1) \<Rightarrow> (None, om1)
              | (Some rc, om1) \<Rightarrow>
                  if rc \<noteq> CAS_OK then (Some (Inl (Omap_rc rc)), om1)
                  else (case scan_slots (pg_slots (the_page om1 pos)) (page_num * of_nat CAS_OMAP_PAGE_SLOTS) bound
                          [slot_of oid..<CAS_OMAP_PAGE_SLOTS] of
                          Some r \<Rightarrow> (Some r, om1)
                        | None \<Rightarrow> alloc_loop k table om1 bound next)))"

definition cas_omap_alloc :: "cas_codec list \<Rightarrow> cas_omap \<Rightarrow> u64 \<Rightarrow> u64 \<Rightarrow> (omap_rc + u64) option \<times> cas_omap" where
  "cas_omap_alloc table om start limit =
     alloc_loop (Suc (length (om_dir om))) table om (if limit > 0 then start + limit else - 1) start"

section \<open>Iteration and statistics\<close>

definition cas_omap_count :: "cas_omap \<Rightarrow> u64" where
  "cas_omap_count om = foldl (\<lambda>total de. total + ucast (de_pop de)) 0 (om_dir om)"

definition cas_omap_page_count :: "cas_omap \<Rightarrow> nat" where
  "cas_omap_page_count om = foldl (\<lambda>n de. if de_pop de > 0 then n + 1 else n) 0 (om_dir om)"

type_synonym 'c omap_fn = "'c \<Rightarrow> u64 \<Rightarrow> string \<Rightarrow> bool \<times> 'c"

fun visit_slots :: "'c omap_fn \<Rightarrow> byte list list \<Rightarrow> u64 \<Rightarrow> nat list \<Rightarrow> 'c \<Rightarrow> bool \<times> 'c" where
  "visit_slots fn slots page_num [] c = (False, c)"
| "visit_slots fn slots page_num (s # ss) c =
     (if slots ! s = zero_hash then visit_slots fn slots page_num ss c
      else let (stop, c') = fn c (page_num * of_nat CAS_OMAP_PAGE_SLOTS + of_nat s) (cas_hex_encode (slots ! s)) in
        if stop then (True, c') else visit_slots fn slots page_num ss c')"

fun visit_pages :: "cas_codec list \<Rightarrow> 'c omap_fn \<Rightarrow> nat list \<Rightarrow> cas_omap \<Rightarrow> 'c \<Rightarrow> cas_rc option \<times> cas_omap \<times> 'c" where
  "visit_pages table fn [] om c = (Some CAS_OK, om, c)"
| "visit_pages table fn (i # is) om c =
     (let de = om_dir om ! i in
      if de_pop de = 0 then visit_pages table fn is om c
      else (case page_load table om i of
              (None, om1) \<Rightarrow> (None, om1, c)
            | (Some rc, om1) \<Rightarrow>
                if rc \<noteq> CAS_OK then (Some rc, om1, c)
                else (case visit_slots fn (pg_slots (the_page om1 i)) (de_page_num de) [0..<CAS_OMAP_PAGE_SLOTS] c of
                        (stop, c') \<Rightarrow> if stop then (Some CAS_OK, om1, c') else visit_pages table fn is om1 c')))"

definition cas_omap_foreach :: "cas_codec list \<Rightarrow> 'c omap_fn \<Rightarrow> cas_omap \<Rightarrow> 'c \<Rightarrow> cas_rc option \<times> cas_omap \<times> 'c" where
  "cas_omap_foreach table fn om c = visit_pages table fn [0..<length (om_dir om)] om c"

section \<open>Snapshots\<close>

definition entry_of :: "byte list \<Rightarrow> omap_dir_entry" where
  "entry_of p = \<lparr>de_page_num = load_le64 p, de_hash = take CAS_HASH_LEN (drop 8 p), de_pop = load_le16 (drop 40 p), de_cached = None\<rparr>"

definition cas_omap_load :: "cas_codec list \<Rightarrow> cas_omap \<Rightarrow> string \<Rightarrow> cas_rc option \<times> cas_omap" where
  "cas_omap_load table om root_hash =
     (case cas_open_object table (om_store om) root_hash (Some (CAS_TYPE_MAX + 1)) of
        (None, s) \<Rightarrow> (None, om\<lparr>om_store := s\<rparr>)
      | (Some (Inl rc), s) \<Rightarrow> (Some rc, om\<lparr>om_store := s\<rparr>)
      | (Some (Inr (type, data)), s) \<Rightarrow>
          let om1 = om\<lparr>om_store := s\<rparr> in
          if type \<noteq> ''omap'' \<or> length data < OMAP_DIR_HEADER_LEN then (Some CAS_ETYPE, om1)
          else if take OMAP_DIR_MAGIC_LEN data \<noteq> OMAP_DIR_MAGIC then (Some CAS_ERR, om1)
          else
            let entry_count = load_le32 (drop 4 data) in
            if length data \<noteq> OMAP_DIR_HEADER_LEN + unat entry_count * OMAP_DIR_ENTRY_LEN then (Some CAS_ERR, om1)
            else
              let om2 = cas_omap_clear om1;
                  (ok, om3) = (if entry_count > 0 then om_sys om2 else (True, om2)) in
              if \<not> ok then (Some CAS_ENOMEM, om3)
              else (Some CAS_OK, om3\<lparr>om_cap := unat entry_count,
                 om_dir := map (\<lambda>i. entry_of (drop (OMAP_DIR_HEADER_LEN + i * OMAP_DIR_ENTRY_LEN) data)) [0..<unat entry_count]\<rparr>))"

text \<open>The first loop of \<open>cas_omap_store\<close> writes the changed pages, until one cannot be written.\<close>

fun store_pages :: "cas \<Rightarrow> omap_dir_entry list \<Rightarrow> cas_rc option \<times> cas \<times> omap_dir_entry list" where
  "store_pages s [] = (Some CAS_OK, s, [])"
| "store_pages s (de # des) =
     (case de_cached de of
        None \<Rightarrow> (case store_pages s des of (rc, s', des') \<Rightarrow> (rc, s', de # des'))
      | Some pg \<Rightarrow>
          if \<not> pg_dirty pg then (case store_pages s des of (rc, s', des') \<Rightarrow> (rc, s', de # des'))
          else (case cas_put_object s ''opage'' (concat (pg_slots pg)) of
                  (None, s1) \<Rightarrow> (None, s1, de # des)
                | (Some (Inl rc), s1) \<Rightarrow> (Some rc, s1, de # des)
                | (Some (Inr h), s1) \<Rightarrow>
                    let bin = (case cas_hex_decode h CAS_HASH_LEN of Some b \<Rightarrow> b
                               | None \<Rightarrow> hex_prefix h @ drop (length (hex_prefix h)) (de_hash de));
                        de1 = de\<lparr>de_hash := bin, de_pop := pg_pop pg, de_cached := Some (pg\<lparr>pg_dirty := False\<rparr>)\<rparr>
                    in (case store_pages s1 des of (rc, s', des') \<Rightarrow> (rc, s', de1 # des'))))"

definition entry_bytes :: "omap_dir_entry \<Rightarrow> byte list" where
  "entry_bytes de = store_le64 (de_page_num de) @ de_hash de @ store_le16 (de_pop de) @ replicate 6 0"

definition live_entries :: "omap_dir_entry list \<Rightarrow> omap_dir_entry list" where
  "live_entries dir = filter (\<lambda>de. de_pop de \<noteq> 0) dir"

definition dir_image :: "omap_dir_entry list \<Rightarrow> byte list" where
  "dir_image dir = OMAP_DIR_MAGIC @ store_le32 (of_nat (length (live_entries dir))) @ concat (map entry_bytes (live_entries dir))"

definition cas_omap_store :: "cas_omap \<Rightarrow> (cas_rc + string) option \<times> cas_omap" where
  "cas_omap_store om =
     (case store_pages (om_store om) (om_dir om) of
        (None, s, dir) \<Rightarrow> (None, om\<lparr>om_store := s, om_dir := dir\<rparr>)
      | (Some rc, s, dir) \<Rightarrow>
          let om1 = om\<lparr>om_store := s, om_dir := dir\<rparr> in
          if rc \<noteq> CAS_OK then (Some (Inl rc), om1)
          else let (ok, om2) = om_sys om1 in
            if \<not> ok then (Some (Inl CAS_ENOMEM), om2)
            else (case cas_put_object (om_store om2) ''omap'' (dir_image dir) of
                    (r, s') \<Rightarrow> (r, om2\<lparr>om_store := s'\<rparr>)))"

end
