(* ===== verification/OmapInv.thy ===== *)
theory OmapInv
  imports Omap
begin

unbundle bit_operations_syntax

text \<open>
  The meaning of a sparse map and its invariant: the map from numbers to names a directory of pages
  stands for, the order of the directory, the population counts, and what the pages in memory and in the store have to do
  with each other. Loading a page changes neither.
\<close>

section \<open>Pages\<close>

definition slots_ok :: "byte list list \<Rightarrow> bool" where
  "slots_ok slots \<longleftrightarrow> length slots = CAS_OMAP_PAGE_SLOTS \<and> (\<forall>h \<in> set slots. length h = CAS_HASH_LEN)"

definition occupied :: "byte list list \<Rightarrow> nat" where
  "occupied slots = length (filter (\<lambda>h. h \<noteq> zero_hash) slots)"

lemma length_zero_hash [simp]: "length zero_hash = CAS_HASH_LEN"
  by (simp add: zero_hash_def)

lemma occupied_le: "slots_ok slots \<Longrightarrow> occupied slots \<le> 256"
  using length_filter_le [of "\<lambda>h. h \<noteq> zero_hash" slots] by (simp add: slots_ok_def occupied_def CAS_OMAP_PAGE_SLOTS_def)

lemma empty_page_ok [simp]: "slots_ok (pg_slots empty_page)" "occupied (pg_slots empty_page) = 0"
  by (simp_all add: empty_page_def slots_ok_def occupied_def)

lemma uniform_cut:
  "\<forall>h \<in> set xs. length h = k \<Longrightarrow> i < length xs \<Longrightarrow> take k (drop (i * k) (concat xs)) = xs ! i"
proof (induction xs arbitrary: i)
  case (Cons x xs)
  then show ?case by (cases i) simp_all
qed simp

lemma uniform_length: "\<forall>h \<in> set xs. length h = k \<Longrightarrow> length (concat xs) = length xs * k"
  by (induction xs) simp_all

lemma cut_concat:
  assumes "slots_ok slots"
  shows "cut_slots (concat slots) = slots" "length (concat slots) = CAS_OMAP_PAGE_SIZE"
proof -
  show "cut_slots (concat slots) = slots"
    by (rule nth_equalityI) (use assms in \<open>simp_all add: cut_slots_def slots_ok_def uniform_cut\<close>)
  show "length (concat slots) = CAS_OMAP_PAGE_SIZE"
    using assms uniform_length [of slots CAS_HASH_LEN] by (simp add: slots_ok_def CAS_OMAP_PAGE_SIZE_def)
qed

text \<open>Setting one slot changes the number of occupied ones by one.\<close>

lemma occupied_update:
  assumes "i < length slots"
  shows "occupied (slots[i := h]) + (if slots ! i = zero_hash then 0 else 1) = occupied slots + (if h = zero_hash then 0 else 1)"
proof -
  have "occupied (take i slots @ slots ! i # drop (Suc i) slots) =
      occupied (take i slots) + (if slots ! i = zero_hash then 0 else 1) + occupied (drop (Suc i) slots)"
    by (simp add: occupied_def)
  then have "occupied slots = occupied (take i slots) + (if slots ! i = zero_hash then 0 else 1) + occupied (drop (Suc i) slots)"
    unfolding id_take_nth_drop [OF assms, symmetric] .
  moreover have "occupied (slots[i := h]) = occupied (take i slots) + (if h = zero_hash then 0 else 1) + occupied (drop (Suc i) slots)"
    using assms by (simp add: occupied_def upd_conv_take_nth_drop)
  ultimately show ?thesis by simp
qed

lemma occupied_pos: "i < length slots \<Longrightarrow> slots ! i \<noteq> zero_hash \<Longrightarrow> occupied slots > 0"
  by (auto simp: occupied_def filter_empty_conv)

section \<open>Directories\<close>

lemma find_pos_spec:
  "sorted_wrt (<) (map de_page_num dir) \<Longrightarrow> lo \<le> hi \<Longrightarrow> hi \<le> length dir \<Longrightarrow> (\<forall>i < lo. de_page_num (dir ! i) < n) \<Longrightarrow>
    (\<forall>i. hi \<le> i \<longrightarrow> i < length dir \<longrightarrow> n \<le> de_page_num (dir ! i)) \<Longrightarrow>
    find_pos dir n lo hi \<le> length dir \<and> (\<forall>i < find_pos dir n lo hi. de_page_num (dir ! i) < n) \<and>
    (\<forall>i. find_pos dir n lo hi \<le> i \<longrightarrow> i < length dir \<longrightarrow> n \<le> de_page_num (dir ! i))"
proof (induction dir n lo hi rule: find_pos.induct)
  case (1 dir n lo hi)
  show ?case
  proof (cases "lo < hi")
    case False
    with 1(3-7) show ?thesis by (subst (1 2 3) find_pos.simps) auto
  next
    case True
    define mid where "mid = lo + (hi - lo) div 2"
    have m: "lo \<le> mid" "mid < hi" using True by (auto simp: mid_def)
    have mono: "de_page_num (dir ! i) \<le> de_page_num (dir ! j)" if "i \<le> j" "j < length dir" for i j
      using sorted_wrt_nth_less [OF 1(3), of i j] that by (cases "i = j") auto
    show ?thesis
    proof (cases "de_page_num (dir ! mid) < n")
      case True
      have "\<forall>i < mid + 1. de_page_num (dir ! i) < n" 
      proof (intro allI impI)
        fix i
        assume "i < mid + 1"
        then have "de_page_num (dir ! i) \<le> de_page_num (dir ! mid)" using mono [of i mid] m 1(5) by simp
        with True show "de_page_num (dir ! i) < n" by simp
      qed
      with 1(1) [OF \<open>lo < hi\<close> mid_def] True m 1(3-7) show ?thesis
        by (subst (1 2 3) find_pos.simps) (simp add: mid_def Let_def)
    next
      case False
      have "\<forall>i. mid \<le> i \<longrightarrow> i < length dir \<longrightarrow> n \<le> de_page_num (dir ! i)" 
      proof (intro allI impI)
        fix i
        assume "mid \<le> i" "i < length dir"
        then have "de_page_num (dir ! mid) \<le> de_page_num (dir ! i)" by (rule mono)
        with False show "n \<le> de_page_num (dir ! i)" by simp
      qed
      with 1(2) [OF \<open>lo < hi\<close> mid_def] False m 1(3-7) show ?thesis
        by (subst (1 2 3) find_pos.simps) (simp add: mid_def Let_def)
    qed
  qed
qed

definition entry_for :: "omap_dir_entry list \<Rightarrow> u64 \<Rightarrow> omap_dir_entry option" where
  "entry_for dir n = find (\<lambda>de. de_page_num de = n) dir"

definition dir_sorted :: "omap_dir_entry list \<Rightarrow> bool" where
  "dir_sorted dir \<longleftrightarrow> sorted_wrt (<) (map de_page_num dir)"

lemma dir_sorted_distinct: "dir_sorted dir \<Longrightarrow> distinct (map de_page_num dir)"
  unfolding dir_sorted_def by (metis strict_sorted_iff)

lemma entry_for_iff:
  assumes "distinct (map de_page_num dir)"
  shows "entry_for dir n = Some de \<longleftrightarrow> de \<in> set dir \<and> de_page_num de = n"
  using assms by (induction dir) (auto simp: entry_for_def)

lemma entry_for_none: "entry_for dir n = None \<longleftrightarrow> n \<notin> de_page_num ` set dir"
  by (induction dir) (auto simp: entry_for_def)

lemma dir_find_spec:
  assumes "dir_sorted (om_dir om)"
  shows "dir_find om n \<le> length (om_dir om)" "i < dir_find om n \<Longrightarrow> de_page_num (om_dir om ! i) < n"
    "dir_find om n \<le> i \<Longrightarrow> i < length (om_dir om) \<Longrightarrow> n \<le> de_page_num (om_dir om ! i)"
  using find_pos_spec [of "om_dir om" 0 "length (om_dir om)" n] assms by (auto simp: dir_find_def dir_sorted_def)

lemma dir_has_entry:
  "dir_sorted (om_dir om) \<Longrightarrow> dir_has om n pos \<Longrightarrow> entry_for (om_dir om) n = Some (om_dir om ! pos)"
  by (simp add: entry_for_iff dir_sorted_distinct dir_has_def)

lemma dir_has_none:
  assumes "dir_sorted (om_dir om)" "\<not> dir_has om n (dir_find om n)"
  shows "entry_for (om_dir om) n = None"
proof (rule ccontr)
  assume "entry_for (om_dir om) n \<noteq> None"
  then obtain i where i: "i < length (om_dir om)" "de_page_num (om_dir om ! i) = n"
    by (auto simp: entry_for_none in_set_conv_nth)
  let ?p = "dir_find om n"
  have "?p \<le> i" using dir_find_spec(2) [OF assms(1), of i n] i(2) by (cases "i < ?p") auto
  moreover have "?p = i"
  proof (rule ccontr)
    assume "?p \<noteq> i"
    then have "?p < i" using \<open>?p \<le> i\<close> by simp
    then have "de_page_num (om_dir om ! ?p) < n"
      using assms(1) i by (auto simp: dir_sorted_def sorted_wrt_iff_nth_less)
    moreover have "n \<le> de_page_num (om_dir om ! ?p)" using dir_find_spec(3) [OF assms(1), of n ?p] \<open>?p < i\<close> i(1) by simp
    ultimately show False by simp
  qed
  ultimately show False using assms(2) i by (simp add: dir_has_def)
qed

text \<open>Replacing an entry and inserting one.\<close>

lemma entry_for_update:
  assumes "distinct (map de_page_num dir)" "i < length dir" "de_page_num de = de_page_num (dir ! i)"
  shows "entry_for (dir[i := de]) m = (if m = de_page_num de then Some de else entry_for dir m)"
  using assms
proof (induction dir arbitrary: i)
  case (Cons x dir)
  then show ?case by (cases i) (auto simp: entry_for_def in_set_conv_nth dest: nth_mem)
qed simp

lemma entry_for_insert:
  assumes "de_page_num de \<notin> de_page_num ` set dir"
  shows "entry_for (take i dir @ [de] @ drop i dir) m = (if m = de_page_num de then Some de else entry_for dir m)"
  using assms
proof (induction i arbitrary: dir)
  case 0
  then show ?case by (auto simp: entry_for_def)
next
  case (Suc i)
  then show ?case by (cases dir) (auto simp: entry_for_def)
qed

lemma dir_sorted_insert:
  assumes "dir_sorted dir" "\<And>j. j < i \<Longrightarrow> de_page_num (dir ! j) < de_page_num de"
    "\<And>j. i \<le> j \<Longrightarrow> j < length dir \<Longrightarrow> de_page_num de < de_page_num (dir ! j)" "i \<le> length dir"
  shows "dir_sorted (take i dir @ [de] @ drop i dir)"
proof -
  have s: "sorted_wrt (<) (map de_page_num (take i dir @ drop i dir))" using assms(1) by (simp add: dir_sorted_def)
  have l: "\<forall>x \<in> set (take i dir). de_page_num x < de_page_num de"
    using assms(2,4) by (auto simp: in_set_conv_nth)
  have r: "\<forall>x \<in> set (drop i dir). de_page_num de < de_page_num x"
    using assms(3) by (auto simp: in_set_conv_nth)
  show ?thesis using s l r unfolding dir_sorted_def map_append sorted_wrt_append by (auto simp: sorted_wrt_append)
qed

section \<open>The map a directory stands for\<close>

definition page_object :: "cas_codec list \<Rightarrow> cas \<Rightarrow> byte list \<Rightarrow> byte list list \<Rightarrow> bool" where
  "page_object table s hash slots \<longleftrightarrow> hash \<noteq> zero_hash \<and> slots_ok slots \<and>
     get_object table s (cas_hex_encode hash) = Some (''opage'', concat slots)"

definition page_slots :: "cas_codec list \<Rightarrow> cas \<Rightarrow> omap_dir_entry \<Rightarrow> byte list list" where
  "page_slots table s de =
     (case de_cached de of
        Some pg \<Rightarrow> pg_slots pg
      | None \<Rightarrow> if de_hash de = zero_hash then pg_slots empty_page
                else (case get_object table s (cas_hex_encode (de_hash de)) of
                        Some (t, d) \<Rightarrow> cut_slots d | None \<Rightarrow> pg_slots empty_page))"

definition slot_name :: "byte list \<Rightarrow> string option" where
  "slot_name h = (if h = zero_hash then None else Some (cas_hex_encode h))"

definition omap_map :: "cas_codec list \<Rightarrow> cas_omap \<Rightarrow> u64 \<Rightarrow> string option" where
  "omap_map table om oid =
     (case entry_for (om_dir om) (page_of oid) of
        None \<Rightarrow> None
      | Some de \<Rightarrow> slot_name (page_slots table (om_store om) de ! slot_of oid))"

text \<open>
  An entry is in order if its count is that of its slots, and its page is in memory with changes, or empty, or
  in the store under its hash. An entry whose page could not be allocated stays behind without a hash.
\<close>

definition page_ok :: "cas_codec list \<Rightarrow> cas \<Rightarrow> omap_dir_entry \<Rightarrow> omap_page \<Rightarrow> bool" where
  "page_ok table s de pg \<longleftrightarrow> slots_ok (pg_slots pg) \<and> pg_pop pg = de_pop de \<and> unat (de_pop de) = occupied (pg_slots pg) \<and>
     (pg_dirty pg \<or> de_pop de = 0 \<or> page_object table s (de_hash de) (pg_slots pg))"

definition entry_ok :: "cas_codec list \<Rightarrow> cas \<Rightarrow> omap_dir_entry \<Rightarrow> bool" where
  "entry_ok table s de \<longleftrightarrow> length (de_hash de) = CAS_HASH_LEN \<and> unat (de_page_num de) < 2 ^ 56 \<and>
     (case de_cached de of
        Some pg \<Rightarrow> page_ok table s de pg
      | None \<Rightarrow> de_hash de = zero_hash \<and> de_pop de = 0 \<or>
          (\<exists>slots. page_object table s (de_hash de) slots \<and> unat (de_pop de) = occupied slots))"

definition omap_ok :: "cas_codec list \<Rightarrow> cas_omap \<Rightarrow> bool" where
  "omap_ok table om \<longleftrightarrow> codec_ok table \<and> pack_ok (om_store om) \<and> dir_sorted (om_dir om) \<and>
     get_object table (om_store om) (cas_hex_encode zero_hash) = None \<and>
     (\<forall>de \<in> set (om_dir om). entry_ok table (om_store om) de)"

lemma omap_okD:
  assumes "omap_ok table om"
  shows "codec_ok table" "pack_ok (om_store om)" "dir_sorted (om_dir om)" "distinct (map de_page_num (om_dir om))"
    "de \<in> set (om_dir om) \<Longrightarrow> entry_ok table (om_store om) de"
    "get_object table (om_store om) (cas_hex_encode zero_hash) = None"
  using assms dir_sorted_distinct by (auto simp: omap_ok_def)

lemma page_object_slots: "page_object table s hash slots \<Longrightarrow> cut_slots (concat slots) = slots"
  by (simp add: page_object_def cut_concat)

lemma entry_ok_slots:
  assumes "entry_ok table s de"
  shows "slots_ok (page_slots table s de)" "occupied (page_slots table s de) = unat (de_pop de)"
  using assms page_object_slots
  by (fastforce simp: entry_ok_def page_ok_def page_slots_def page_object_def split: option.splits)+

lemma slot_of_less [simp]: "slot_of oid < 256"
proof -
  have "oid mod 256 < (256 :: u64)" by (rule word_mod_less_divisor) simp
  then show ?thesis by (simp add: slot_of_def CAS_OMAP_PAGE_SLOTS_def word_less_nat_alt)
qed

lemma page_of_less [simp]: "unat (page_of oid) < 2 ^ 56"
proof -
  have "unat oid < 2 ^ 64" using unsigned_less [of oid] by simp
  then show ?thesis by (simp add: page_of_def CAS_OMAP_PAGE_SLOTS_def unat_div)
qed

lemma slots_ok_slot: "slots_ok slots \<Longrightarrow> slot_of oid < length slots"
  by (simp add: slots_ok_def CAS_OMAP_PAGE_SLOTS_def)

text \<open>A change of the outcomes to come changes nothing; other changes of the store only add objects.\<close>

lemma same_disk_slots:
  assumes "same_disk s s'"
  shows "page_slots table s' de = page_slots table s de" "page_ok table s' de pg = page_ok table s de pg"
  unfolding page_slots_def page_ok_def page_object_def same_disk_get(1) [OF assms] by (rule refl)+

lemma same_disk_entry:
  assumes "same_disk s s'"
  shows "entry_ok table s' de = entry_ok table s de"
  unfolding entry_ok_def page_ok_def page_object_def same_disk_get(1) [OF assms] by (rule refl)

lemma omap_same_disk:
  assumes "same_disk (om_store om) s"
  shows "omap_ok table (om\<lparr>om_store := s\<rparr>) = omap_ok table om" "omap_map table (om\<lparr>om_store := s\<rparr>) = omap_map table om"
  using same_disk_get [OF assms]
  by (simp_all add: omap_ok_def entry_ok_def page_ok_def page_object_def omap_map_def page_slots_def fun_eq_iff split: option.split)

lemma om_sys_same:
  assumes "om_sys om = (ok, om')"
  obtains s where "same_disk (om_store om) s" "om' = om\<lparr>om_store := s\<rparr>"
  using assms sys_call_same [of "om_store om"] by (auto simp: om_sys_def split: prod.splits)

text \<open>Replacing the entry of a page.\<close>

lemma omap_update:
  assumes "omap_ok table om" "pos < length (om_dir om)" "entry_ok table (om_store om) de"
    "de_page_num de = de_page_num (om_dir om ! pos)"
  shows "omap_ok table (om\<lparr>om_dir := (om_dir om)[pos := de]\<rparr>)"
    "omap_map table (om\<lparr>om_dir := (om_dir om)[pos := de]\<rparr>) oid =
      (if page_of oid = de_page_num de then slot_name (page_slots table (om_store om) de ! slot_of oid) else omap_map table om oid)"
proof -
  have "map de_page_num ((om_dir om)[pos := de]) = map de_page_num (om_dir om)"
    using assms(2,4) by (simp add: map_update list_update_same_conv)
  then have "dir_sorted ((om_dir om)[pos := de])" using assms(1) by (simp add: omap_ok_def dir_sorted_def)
  moreover have "\<forall>x \<in> set ((om_dir om)[pos := de]). entry_ok table (om_store om) x"
    using assms(1,3) set_update_subset_insert [of "om_dir om" pos de] by (auto simp: omap_ok_def)
  ultimately show "omap_ok table (om\<lparr>om_dir := (om_dir om)[pos := de]\<rparr>)" using assms(1) by (simp add: omap_ok_def)
  show "omap_map table (om\<lparr>om_dir := (om_dir om)[pos := de]\<rparr>) oid =
      (if page_of oid = de_page_num de then slot_name (page_slots table (om_store om) de ! slot_of oid) else omap_map table om oid)"
    using entry_for_update [OF omap_okD(4) [OF assms(1)] assms(2,4)] by (simp add: omap_map_def split: option.split)
qed

section \<open>Loading a page\<close>

text \<open>
  What an access to a page may change: the outcomes to come, and the page of one entry, which comes into memory.
\<close>

definition access_ok :: "cas_codec list \<Rightarrow> cas_omap \<Rightarrow> cas_omap \<Rightarrow> bool" where
  "access_ok table om om' \<longleftrightarrow> omap_ok table om' \<and> omap_map table om' = omap_map table om \<and> same_disk (om_store om) (om_store om') \<and>
     map de_page_num (om_dir om') = map de_page_num (om_dir om) \<and> map de_pop (om_dir om') = map de_pop (om_dir om)"

lemma access_okD:
  assumes "access_ok table om om'"
  shows "omap_ok table om'" "omap_map table om' = omap_map table om" "same_disk (om_store om) (om_store om')"
    "length (om_dir om') = length (om_dir om)"
    "i < length (om_dir om) \<Longrightarrow> de_page_num (om_dir om' ! i) = de_page_num (om_dir om ! i)"
    "i < length (om_dir om) \<Longrightarrow> de_pop (om_dir om' ! i) = de_pop (om_dir om ! i)"
proof -
  show l: "length (om_dir om') = length (om_dir om)" using assms unfolding access_ok_def by (metis length_map)
  show "omap_ok table om'" "omap_map table om' = omap_map table om" "same_disk (om_store om) (om_store om')"
    using assms by (simp_all add: access_ok_def)
  show "i < length (om_dir om) \<Longrightarrow> de_page_num (om_dir om' ! i) = de_page_num (om_dir om ! i)"
    "i < length (om_dir om) \<Longrightarrow> de_pop (om_dir om' ! i) = de_pop (om_dir om ! i)"
    using assms l unfolding access_ok_def by (metis nth_map)+
qed

lemma access_refl: "omap_ok table om \<Longrightarrow> access_ok table om om"
  by (simp add: access_ok_def)

lemma access_store: "omap_ok table om \<Longrightarrow> same_disk (om_store om) s \<Longrightarrow> access_ok table om (om\<lparr>om_store := s\<rparr>)"
  by (simp add: access_ok_def omap_same_disk)

lemma access_trans: "access_ok table a b \<Longrightarrow> access_ok table b c \<Longrightarrow> access_ok table a c"
  using same_disk_trans by (auto simp: access_ok_def)

lemma access_cached:
  assumes "omap_ok table om" "pos < length (om_dir om)" "pg_slots pg = page_slots table (om_store om) (om_dir om ! pos)"
    "page_ok table (om_store om) (om_dir om ! pos) pg"
  shows "access_ok table om (set_cached om pos pg)"
proof -
  let ?de = "(om_dir om ! pos)\<lparr>de_cached := Some pg\<rparr>"
  have e: "entry_ok table (om_store om) (om_dir om ! pos)" using omap_okD(5) [OF assms(1)] assms(2) by simp
  have "entry_ok table (om_store om) ?de" using e assms(4) by (simp add: entry_ok_def page_ok_def)
  note u = omap_update [OF assms(1,2) this]
  have "omap_map table (set_cached om pos pg) oid = omap_map table om oid" for oid
  proof (cases "page_of oid = de_page_num (om_dir om ! pos)")
    case True
    then have "entry_for (om_dir om) (page_of oid) = Some (om_dir om ! pos)"
      using assms(2) entry_for_iff [OF omap_okD(4) [OF assms(1)]] by simp
    with u(2) [of oid] True assms(3) show ?thesis by (simp add: set_cached_def omap_map_def page_slots_def)
  qed (use u(2) [of oid] in \<open>simp add: set_cached_def\<close>)
  moreover have "map de_page_num ((om_dir om)[pos := ?de]) = map de_page_num (om_dir om)"
    "map de_pop ((om_dir om)[pos := ?de]) = map de_pop (om_dir om)"
    using assms(2) by (simp_all add: map_update list_update_same_conv)
  ultimately show ?thesis using u(1) by (simp add: access_ok_def set_cached_def fun_eq_iff)
qed

lemma page_load_spec:
  assumes ok: "omap_ok table om" and pos: "pos < length (om_dir om)" and run: "page_load table om pos = (r, om')"
  obtains rc where "r = Some rc" "access_ok table om om'"
    "rc = CAS_OK \<Longrightarrow> de_cached (om_dir om' ! pos) \<noteq> None \<and> pg_slots (the_page om' pos) = page_slots table (om_store om) (om_dir om ! pos)"
    "s_sys (om_store om) = [] \<Longrightarrow> s_sys (om_store om') = []"
    "s_sys (om_store om) = [] \<Longrightarrow> de_cached (om_dir om ! pos) \<noteq> None \<or> de_hash (om_dir om ! pos) \<noteq> zero_hash \<Longrightarrow> rc = CAS_OK"
proof -
  let ?de = "om_dir om ! pos" and ?s = "om_store om"
  have e: "entry_ok table ?s ?de" using omap_okD(5) [OF ok] pos by simp
  show thesis
  proof (cases "de_cached ?de")
    case (Some pg)
    then have "r = Some CAS_OK" "om' = om" using run by (simp_all add: page_load_def)
    with Some access_refl [OF ok] show ?thesis by (intro that [of CAS_OK]) (simp_all add: the_page_def page_slots_def)
  next
    case None
    obtain o1 s1 where o: "cas_open_object table ?s (cas_hex_encode (de_hash ?de)) (Some (CAS_TYPE_MAX + 1)) = (o1, s1)" by fastforce
    note snd1 = open_object_sound [OF omap_okD(1,2) [OF ok] o]
    let ?om1 = "om\<lparr>om_store := s1\<rparr>"
    have a1: "access_ok table om ?om1" using access_store [OF ok snd1(2)] .
    have q: "s_sys s1 = [] \<and> (de_hash ?de \<noteq> zero_hash \<longrightarrow> o1 = Some (Inr (''opage'', concat (page_slots table ?s ?de))) \<and> length (concat (page_slots table ?s ?de)) = CAS_OMAP_PAGE_SIZE)"
      if quiet: "s_sys ?s = []"
    proof -
      have "s1 = ?s" using open_object_quiet [OF quiet, of table "cas_hex_encode (de_hash ?de)" "Some (CAS_TYPE_MAX + 1)"] o by simp
      moreover have "o1 = Some (Inr (''opage'', concat (page_slots table ?s ?de))) \<and> length (concat (page_slots table ?s ?de)) = CAS_OMAP_PAGE_SIZE"
        if nz: "de_hash ?de \<noteq> zero_hash"
      proof -
        obtain slots where p: "page_object table ?s (de_hash ?de) slots" using e None nz by (auto simp: entry_ok_def)
        then have "page_slots table ?s ?de = slots" using None nz page_object_slots [OF p] by (simp add: page_slots_def page_object_def)
        with p open_object_quiet_get [OF quiet, of table "cas_hex_encode (de_hash ?de)" "(''opage'', concat slots)"] o
        show ?thesis by (simp add: page_object_def cut_concat)
      qed
      ultimately show ?thesis using quiet by simp
    qed
    show ?thesis
    proof (cases "\<exists>data. o1 = Some (Inr (''opage'', data)) \<and> length data = CAS_OMAP_PAGE_SIZE")
      case False
      obtain rc where "r = Some rc" "om' = ?om1" "rc \<noteq> CAS_OK"
        using run None o False snd1(1,4) by (auto simp: page_load_def Let_def split: option.splits sum.splits prod.splits if_splits)
      with a1 q None False show ?thesis by (intro that [of rc]) auto
    next
      case True
      then obtain data where d: "o1 = Some (Inr (''opage'', data))" "length data = CAS_OMAP_PAGE_SIZE" by blast
      have g: "get_object table ?s (cas_hex_encode (de_hash ?de)) = Some (''opage'', data)" using snd1(3) d(1) by simp
      obtain ok2 om2 where c: "om_sys ?om1 = (ok2, om2)" by fastforce
      then obtain s2 where s2: "same_disk s1 s2" "om2 = om\<lparr>om_store := s2\<rparr>" by (auto elim: om_sys_same)
      have same2: "same_disk ?s s2" using same_disk_trans [OF snd1(2) s2(1)] .
      have a2: "access_ok table om om2" using access_store [OF ok same2] s2(2) by simp
      have quiet2: "s_sys ?s = [] \<Longrightarrow> ok2 \<and> s_sys (om_store om2) = []" using q c by (auto simp: om_sys_def)
      show ?thesis
      proof (cases ok2)
        case False
        then have "r = Some CAS_ENOMEM" "om' = om2" using run None o d c by (simp_all add: page_load_def Let_def)
        with a2 quiet2 False show ?thesis by (intro that [of CAS_ENOMEM]) auto
      next
        case True
        let ?pg = "\<lparr>pg_slots = cut_slots data, pg_pop = de_pop ?de, pg_dirty = False\<rparr>"
        have r: "r = Some CAS_OK" "om' = set_cached om2 pos ?pg" using run None o d c True by (simp_all add: page_load_def Let_def)
        have nz: "de_hash ?de \<noteq> zero_hash" using g omap_okD(6) [OF ok] by auto
        then have sl: "cut_slots data = page_slots table ?s ?de" using None g by (simp add: page_slots_def)
        have same: "page_slots table (om_store om2) = page_slots table ?s" "page_ok table (om_store om2) = page_ok table ?s"
          using same_disk_slots [OF same2] s2(2) by (simp_all add: fun_eq_iff)
        have "page_ok table ?s ?de ?pg"
        proof -
          obtain slots where p: "page_object table ?s (de_hash ?de) slots" "unat (de_pop ?de) = occupied slots"
            using e None nz by (auto simp: entry_ok_def)
          then have "data = concat slots" using g by (simp add: page_object_def)
          with p show ?thesis by (simp add: page_ok_def page_object_def cut_concat)
        qed
        then have "access_ok table om2 (set_cached om2 pos ?pg)"
          using pos sl s2(2) same access_okD(1) [OF a2] by (intro access_cached) simp_all
        with r a2 access_trans have "access_ok table om om'" by blast
        moreover have "de_cached (om_dir om' ! pos) \<noteq> None \<and> pg_slots (the_page om' pos) = page_slots table ?s ?de"
          using r s2(2) pos sl by (simp add: set_cached_def the_page_def)
        moreover have "s_sys ?s = [] \<Longrightarrow> s_sys (om_store om') = []" using quiet2 r by (simp add: set_cached_def)
        ultimately show ?thesis using r by (intro that [of CAS_OK]) simp_all
      qed
    qed
  qed
qed

end
