(* ===== verification/OmapOps.thy ===== *)
theory OmapOps
  imports OmapInv
begin

unbundle bit_operations_syntax

text \<open>
  The operations of a sparse map against the map it stands for: lookup, insertion, deletion, search for a free
  number, iteration and counting. Whatever fails, an operation either does what it promises or leaves the map as it is.
\<close>

section \<open>Numbers, pages and slots\<close>

lemma number_split: "unat oid = unat (page_of oid) * 256 + slot_of oid"
  by (simp add: page_of_def slot_of_def CAS_OMAP_PAGE_SLOTS_def unat_div unat_mod)

lemma number_eq: "a = b \<longleftrightarrow> page_of a = page_of b \<and> slot_of a = slot_of b"
  by (metis number_split word_unat_eq_iff)

lemma number_join:
  assumes "unat n < 2 ^ 56" "k < 256"
  shows "unat (n * of_nat CAS_OMAP_PAGE_SLOTS + of_nat k :: u64) = unat n * 256 + k"
    "page_of (n * of_nat CAS_OMAP_PAGE_SLOTS + of_nat k) = n" "slot_of (n * of_nat CAS_OMAP_PAGE_SLOTS + of_nat k) = k"
proof -
  have k: "unat (of_nat k :: u64) = k" using assms(2) by (simp add: unat_of_nat)
  have m: "unat (n * 256 :: u64) = unat n * 256" using assms(1) by (simp add: unat_mult_lem [THEN iffD1])
  show v: "unat (n * of_nat CAS_OMAP_PAGE_SLOTS + of_nat k :: u64) = unat n * 256 + k"
    using assms k m by (simp add: CAS_OMAP_PAGE_SLOTS_def unat_add_lem [THEN iffD1])
  have "unat (page_of (n * of_nat CAS_OMAP_PAGE_SLOTS + of_nat k)) = (unat n * 256 + k) div 256"
    unfolding page_of_def unat_div v by (simp add: CAS_OMAP_PAGE_SLOTS_def)
  then show "page_of (n * of_nat CAS_OMAP_PAGE_SLOTS + of_nat k) = n" using assms(2) by (simp add: word_unat_eq_iff)
  have "slot_of (n * of_nat CAS_OMAP_PAGE_SLOTS + of_nat k) = (unat n * 256 + k) mod 256"
    unfolding slot_of_def unat_mod v by (simp add: CAS_OMAP_PAGE_SLOTS_def)
  then show "slot_of (n * of_nat CAS_OMAP_PAGE_SLOTS + of_nat k) = k" using assms(2) by simp
qed

section \<open>Runs without failures\<close>

text \<open>No entry was left behind by a page that could not be allocated.\<close>

definition settled :: "cas_omap \<Rightarrow> bool" where
  "settled om \<longleftrightarrow> (\<forall>de \<in> set (om_dir om). de_cached de \<noteq> None \<or> de_hash de \<noteq> zero_hash)"

definition calm :: "cas_omap \<Rightarrow> bool" where
  "calm om \<longleftrightarrow> s_sys (om_store om) = [] \<and> settled om"

lemma settled_cached: "settled om \<Longrightarrow> settled (set_cached om pos pg)"
  using set_update_subset_insert [of "om_dir om" pos] by (fastforce simp: settled_def set_cached_def)

lemma settled_store [simp]: "settled (om\<lparr>om_store := s\<rparr>) = settled om"
  by (simp add: settled_def)

lemma page_load_settled: "settled om \<Longrightarrow> settled (snd (page_load table om pos))"
  by (auto simp: page_load_def Let_def om_sys_def split: option.splits sum.splits prod.splits intro!: settled_cached)

lemma calm_load:
  assumes "omap_ok table om" "pos < length (om_dir om)" "calm om"
  shows "\<exists>om'. page_load table om pos = (Some CAS_OK, om') \<and> calm om' \<and> access_ok table om om' \<and>
    de_cached (om_dir om' ! pos) \<noteq> None \<and> pg_slots (the_page om' pos) = page_slots table (om_store om) (om_dir om ! pos)"
proof -
  obtain r om' where run: "page_load table om pos = (r, om')" by fastforce
  have "settled om'" using page_load_settled [of om table pos] assms(3) run by (simp add: calm_def)
  moreover have "de_cached (om_dir om ! pos) \<noteq> None \<or> de_hash (om_dir om ! pos) \<noteq> zero_hash"
    using assms(2,3) by (simp add: calm_def settled_def)
  moreover have quiet: "s_sys (om_store om) = []" using assms(3) by (simp add: calm_def)
  ultimately show ?thesis
  proof (rule_tac page_load_spec [OF assms(1,2) run])
    fix rc
    assume "settled om'" and e: "de_cached (om_dir om ! pos) \<noteq> None \<or> de_hash (om_dir om ! pos) \<noteq> zero_hash"
      and "r = Some rc" "access_ok table om om'"
      "rc = CAS_OK \<Longrightarrow> de_cached (om_dir om' ! pos) \<noteq> None \<and> pg_slots (the_page om' pos) = page_slots table (om_store om) (om_dir om ! pos)"
      "s_sys (om_store om) = [] \<Longrightarrow> s_sys (om_store om') = []"
      "s_sys (om_store om) = [] \<Longrightarrow> de_cached (om_dir om ! pos) \<noteq> None \<or> de_hash (om_dir om ! pos) \<noteq> zero_hash \<Longrightarrow> rc = CAS_OK"
    moreover from this(7) [OF quiet e] have "rc = CAS_OK" .
    ultimately show ?thesis using run quiet by (simp add: calm_def)
  qed
qed

section \<open>Lookup\<close>

lemma omap_map_at:
  assumes "omap_ok table om" "dir_has om (page_of oid) pos"
  shows "omap_map table om oid = slot_name (page_slots table (om_store om) (om_dir om ! pos) ! slot_of oid)"
  using dir_has_entry [OF omap_okD(3) [OF assms(1)] assms(2)] by (simp add: omap_map_def)

lemma omap_map_absent:
  assumes "omap_ok table om" "\<not> dir_has om (page_of oid) (dir_find om (page_of oid))"
  shows "omap_map table om oid = None"
  using dir_has_none [OF omap_okD(3) [OF assms(1)] assms(2)] by (simp add: omap_map_def)

lemma get_spec:
  assumes ok: "omap_ok table om" and run: "cas_omap_get table om oid = (r, om')"
  shows "\<exists>x. r = Some x \<and> access_ok table om om' \<and> (\<forall>h. x = Inr h \<longrightarrow> omap_map table om oid = Some h) \<and>
    (calm om \<longrightarrow> calm om' \<and> x = (case omap_map table om oid of None \<Rightarrow> Inl CAS_ENOTFOUND | Some h \<Rightarrow> Inr h))"
proof (cases "dir_has om (page_of oid) (dir_find om (page_of oid))")
  case False
  with run access_refl [OF ok] omap_map_absent [OF ok False] show ?thesis by (auto simp: cas_omap_get_def)
next
  case True
  let ?pos = "dir_find om (page_of oid)"
  have pos: "?pos < length (om_dir om)" using True by (simp add: dir_has_def)
  obtain r1 om1 where l: "page_load table om ?pos = (r1, om1)" by fastforce
  note at = omap_map_at [OF ok True]
  show ?thesis
  proof (rule page_load_spec [OF ok pos l])
    fix rc
    assume s: "r1 = Some rc" "access_ok table om om1"
      "rc = CAS_OK \<Longrightarrow> de_cached (om_dir om1 ! ?pos) \<noteq> None \<and> pg_slots (the_page om1 ?pos) = page_slots table (om_store om) (om_dir om ! ?pos)"
    have calm: "calm om \<longrightarrow> calm om1 \<and> rc = CAS_OK" using calm_load [OF ok pos] l s(1) by auto
    show ?thesis
    proof (cases "rc = CAS_OK")
      case False
      with run True l s(1,2) calm show ?thesis by (auto simp: cas_omap_get_def)
    next
      case rc: True
      with run True l s calm at show ?thesis by (auto simp: cas_omap_get_def Let_def slot_name_def)
    qed
  qed
qed

section \<open>Insertion and deletion\<close>

lemma entry_ok_empty: "unat n < 2 ^ 56 \<Longrightarrow> entry_ok table s (empty_entry n)"
  by (simp add: entry_ok_def empty_entry_def)

lemma dir_insert_spec:
  assumes ok: "omap_ok table om" and run: "dir_insert om n = (r, om')" and n: "unat n < 2 ^ 56"
  shows "omap_ok table om' \<and> omap_map table om' = omap_map table om \<and>
    (\<forall>pos. r = Inr pos \<longrightarrow> dir_has om' n pos \<and> (om_dir om' ! pos = empty_entry n \<or> om' = om)) \<and>
    (r \<noteq> Inl CAS_OK) \<and>
    (settled om \<longrightarrow> (\<forall>de \<in> set (om_dir om'). de = empty_entry n \<or> de_cached de \<noteq> None \<or> de_hash de \<noteq> zero_hash)) \<and>
    (s_sys (om_store om) = [] \<longrightarrow> s_sys (om_store om') = [] \<and> (\<exists>pos. r = Inr pos))"
proof (cases "dir_has om n (dir_find om n)")
  case True
  with run ok show ?thesis by (auto simp: dir_insert_def settled_def)
next
  case False
  let ?pos = "dir_find om n" and ?full = "length (om_dir om) \<ge> om_cap om"
  obtain ok1 om1 where c: "(if ?full then om_sys om else (True, om)) = (ok1, om1)" by fastforce
  obtain s where s: "same_disk (om_store om) s" "om1 = om\<lparr>om_store := s\<rparr>"
  proof (cases ?full)
    case True
    then have "om_sys om = (ok1, om1)" using c by simp
    then show ?thesis by (rule om_sys_same) (rule that)
  next
    case False
    then have "om1 = om" using c by simp
    then show ?thesis by (intro that [of "om_store om"]) simp_all
  qed
  have a: "access_ok table om om1" using access_store [OF ok s(1)] s(2) by simp
  have q: "s_sys (om_store om) = [] \<Longrightarrow> ok1 \<and> s_sys (om_store om1) = []" using c by (auto simp: om_sys_def split: if_splits)
  note ds = dir_find_spec [OF omap_okD(3) [OF ok], where n = n] and none = dir_has_none [OF omap_okD(3) [OF ok] False]
  show ?thesis
  proof (cases ok1)
    case False
    then have "r = Inl CAS_ENOMEM" "om' = om1" using run c \<open>\<not> dir_has om n ?pos\<close> by (simp_all add: dir_insert_def Let_def)
    with access_okD(1,2) [OF a] q False s(2) show ?thesis by (auto simp: settled_def)
  next
    case True
    define cap where "cap = (if ?full then (if om_cap om \<noteq> 0 then om_cap om * 2 else 16) else om_cap om)"
    let ?dir = "take ?pos (om_dir om) @ [empty_entry n] @ drop ?pos (om_dir om)"
    have r: "r = Inr ?pos" "om' = om1\<lparr>om_cap := cap, om_dir := ?dir\<rparr>"
      using run c True \<open>\<not> dir_has om n ?pos\<close> s(2) by (simp_all add: dir_insert_def Let_def cap_def)
    have new: "n \<notin> de_page_num ` set (om_dir om)" using none by (simp add: entry_for_none)
    have "n < de_page_num (om_dir om ! j)" if "?pos \<le> j" "j < length (om_dir om)" for j
      using ds(3) [OF that] new that(2) by (metis image_eqI nth_mem order_le_less)
    then have sd: "dir_sorted ?dir"
      using dir_sorted_insert [OF omap_okD(3) [OF ok], of ?pos "empty_entry n"] ds(1,2) by (simp add: empty_entry_def)
    have st: "set ?dir = insert (empty_entry n) (set (om_dir om))"
      by simp (metis append_take_drop_id set_append)
    have "omap_ok table om'"
      using access_okD(1) [OF a] sd st entry_ok_empty [OF n] r s(2) by (simp add: omap_ok_def)
    moreover have "omap_map table om' oid = omap_map table om1 oid" for oid
    proof (cases "page_of oid = n")
      case True
      with entry_for_insert [of "empty_entry n" "om_dir om" ?pos "page_of oid"] new none r s(2) show ?thesis
        by (simp add: omap_map_def empty_entry_def page_slots_def empty_page_def slot_name_def CAS_OMAP_PAGE_SLOTS_def)
    next
      case False
      with entry_for_insert [of "empty_entry n" "om_dir om" ?pos "page_of oid"] new r s(2) show ?thesis
        by (simp add: omap_map_def empty_entry_def split: option.split)
    qed
    moreover have "dir_has om' n ?pos \<and> om_dir om' ! ?pos = empty_entry n"
      using ds(1) r by (simp add: dir_has_def nth_append empty_entry_def)
    ultimately show ?thesis using r q st access_okD(2) [OF a] s(2) True by (auto simp: settled_def fun_eq_iff)
  qed
qed

text \<open>On success the page of the number is in memory, and nothing but that has changed.\<close>

lemma page_ensure_spec:
  assumes ok: "omap_ok table om" and run: "page_ensure table om oid = (r, om')"
  obtains x where "r = Some x" "omap_ok table om'" "omap_map table om' = omap_map table om"
    "\<And>pos. x = Inr pos \<Longrightarrow> dir_has om' (page_of oid) pos \<and> de_cached (om_dir om' ! pos) \<noteq> None"
    "x \<noteq> Inl CAS_OK" "calm om \<Longrightarrow> calm om' \<and> (\<exists>pos. x = Inr pos)"
proof -
  obtain r1 om1 where i: "dir_insert om (page_of oid) = (r1, om1)" by fastforce
  note sp = dir_insert_spec [OF ok i page_of_less]
  show thesis
  proof (cases r1)
    case (Inl rc)
    with sp run i that [of "Inl rc"] show ?thesis by (auto simp: page_ensure_def calm_def)
  next
    case (Inr pos)
    then have has: "dir_has om1 (page_of oid) pos" "omap_ok table om1" "omap_map table om1 = omap_map table om"
      and new: "om_dir om1 ! pos = empty_entry (page_of oid) \<or> om1 = om"
      and quiet: "s_sys (om_store om) = [] \<Longrightarrow> s_sys (om_store om1) = []"
      and rest: "settled om \<Longrightarrow> de \<in> set (om_dir om1) \<Longrightarrow> de = empty_entry (page_of oid) \<or> de_cached de \<noteq> None \<or> de_hash de \<noteq> zero_hash" for de
      using sp by auto
    have pos: "pos < length (om_dir om1)" "de_page_num (om_dir om1 ! pos) = page_of oid" using has(1) by (simp_all add: dir_has_def)
    have only: "de_cached de \<noteq> None \<or> de_hash de \<noteq> zero_hash"
      if "settled om" "de \<in> set (om_dir om1)" "de \<noteq> om_dir om1 ! pos" for de
    proof (cases "de = empty_entry (page_of oid)")
      case True
      then have "de_page_num de = de_page_num (om_dir om1 ! pos)" using pos(2) by (simp add: empty_entry_def)
      then show ?thesis using omap_okD(4) [OF has(2)] that(2,3) pos(1) by (meson distinct_map inj_onD nth_mem)
    qed (use rest that in blast)
    show ?thesis
    proof (cases "de_cached (om_dir om1 ! pos)")
      case (Some pg)
      then have "r = Some (Inr pos)" "om' = om1" using run i Inr by (simp_all add: page_ensure_def)
      moreover have "settled om \<Longrightarrow> settled om1" using only Some unfolding settled_def by fastforce
      ultimately show ?thesis using has quiet Some by (intro that [of "Inr pos"]) (auto simp: calm_def)
    next
      case None
      show ?thesis
      proof (cases "de_hash (om_dir om1 ! pos) = zero_hash")
        case False
        then have "settled om \<Longrightarrow> settled om1" using only unfolding settled_def by fastforce
        then have calm1: "calm om \<Longrightarrow> calm om1" using quiet by (simp add: calm_def)
        obtain r2 om2 where l: "page_load table om1 pos = (r2, om2)" by fastforce
        show ?thesis
        proof (rule page_load_spec [OF has(2) pos(1) l])
          fix rc
          assume s: "r2 = Some rc" "access_ok table om1 om2"
            "rc = CAS_OK \<Longrightarrow> de_cached (om_dir om2 ! pos) \<noteq> None \<and> pg_slots (the_page om2 pos) = page_slots table (om_store om1) (om_dir om1 ! pos)"
          have x: "r = Some (if rc = CAS_OK then Inr pos else Inl rc)" "om' = om2"
            using run i Inr None False l s(1) by (auto simp: page_ensure_def split: if_splits)
          have calm2: "calm om \<Longrightarrow> rc = CAS_OK \<and> calm om2" using calm_load [OF has(2) pos(1) calm1] l s(1) by auto
          have "dir_has om2 (page_of oid) pos" using access_okD(4,5) [OF s(2)] pos by (simp add: dir_has_def)
          with x s(3) calm2 access_okD(1,2) [OF s(2)] has(3) show ?thesis by (intro that) (auto split: if_splits)
        qed
      next
        case True
        obtain ok2 om2 where c: "om_sys om1 = (ok2, om2)" by fastforce
        then obtain s where s: "same_disk (om_store om1) s" "om2 = om1\<lparr>om_store := s\<rparr>" by (rule om_sys_same)
        have a: "access_ok table om1 om2" using access_store [OF has(2) s(1)] s(2) by simp
        have q: "s_sys (om_store om) = [] \<Longrightarrow> ok2 \<and> s_sys (om_store om2) = []" using quiet c by (auto simp: om_sys_def)
        show ?thesis
        proof (cases ok2)
          case False
          then have "r = Some (Inl CAS_ENOMEM)" "om' = om2" using run i Inr None True c by (simp_all add: page_ensure_def)
          with a q False has(3) access_okD(1,2) [OF a] show ?thesis by (intro that) (auto simp: calm_def)
        next
          case ok2: True
          have x: "r = Some (Inr pos)" "om' = set_cached om2 pos empty_page"
            using run i Inr None True c ok2 by (simp_all add: page_ensure_def)
          have e: "entry_ok table (om_store om1) (om_dir om1 ! pos)" using omap_okD(5) [OF has(2)] pos(1) by simp
          then have "de_pop (om_dir om1 ! pos) = 0" using None True by (auto simp: entry_ok_def page_object_def)
          then have "access_ok table om2 om'"
            unfolding x(2) using None True pos(1) s(2) access_okD(1) [OF a]
            by (intro access_cached) (simp_all add: page_slots_def page_ok_def, simp add: empty_page_def)
          with a have a2: "access_ok table om1 om'" by (rule access_trans)
          have "om_dir om' = (om_dir om1)[pos := (om_dir om1 ! pos)\<lparr>de_cached := Some empty_page\<rparr>]"
            using x(2) s(2) by (simp add: set_cached_def)
          moreover from this have "settled om'" if "settled om"
            using only [OF that] omap_okD(4) [OF has(2)] pos(1)
            by (fastforce simp: settled_def distinct_map set_update_distinct)
          ultimately show ?thesis using x a2 q access_okD(1,2) [OF a2] has(3) pos s(2)
            by (intro that [of "Inr pos"]) (auto simp: dir_has_def calm_def set_cached_def)
        qed
      qed
    qed
  qed
qed

text \<open>Writing one slot of a page in memory.\<close>

lemma write_slot_spec:
  assumes ok: "omap_ok table om" and has: "dir_has om (page_of oid) pos" and mem: "de_cached (om_dir om ! pos) \<noteq> None"
    and len: "length bin = CAS_HASH_LEN"
    and pop: "unat (f (de_pop (om_dir om ! pos))) = occupied ((pg_slots (the_page om pos))[slot_of oid := bin])"
  shows "omap_ok table (write_slot om pos (slot_of oid) bin f)"
    "omap_map table (write_slot om pos (slot_of oid) bin f) = (omap_map table om)(oid := slot_name bin)"
    "calm om \<Longrightarrow> calm (write_slot om pos (slot_of oid) bin f)"
proof -
  let ?de = "om_dir om ! pos"
  obtain pg where pg: "de_cached ?de = Some pg" using mem by blast
  have pos: "pos < length (om_dir om)" "de_page_num ?de = page_of oid" using has by (simp_all add: dir_has_def)
  have e: "entry_ok table (om_store om) ?de" using omap_okD(5) [OF ok] pos(1) by simp
  then have so: "slots_ok (pg_slots pg)" and pp: "pg_pop pg = de_pop ?de" using pg by (simp_all add: entry_ok_def page_ok_def)
  define pg1 where "pg1 = pg\<lparr>pg_slots := (pg_slots pg)[slot_of oid := bin], pg_dirty := True, pg_pop := f (pg_pop pg)\<rparr>"
  define de1 where "de1 = ?de\<lparr>de_cached := Some pg1, de_pop := f (de_pop ?de)\<rparr>"
  have tp: "the_page om pos = pg" using pg by (simp add: the_page_def)
  have w: "write_slot om pos (slot_of oid) bin f = om\<lparr>om_dir := (om_dir om)[pos := de1]\<rparr>"
    using tp by (simp add: write_slot_def Let_def de1_def pg1_def)
  have "slots_ok ((pg_slots pg)[slot_of oid := bin])"
    using so len set_update_subset_insert [of "pg_slots pg" "slot_of oid" bin] by (auto simp: slots_ok_def)
  then have e1: "entry_ok table (om_store om) de1"
    using e pop pp tp by (simp add: entry_ok_def page_ok_def de1_def pg1_def)
  have n1: "de_page_num de1 = de_page_num ?de" by (simp add: de1_def)
  note u = omap_update [OF ok pos(1) e1 n1]
  show "omap_ok table (write_slot om pos (slot_of oid) bin f)" unfolding w by (rule u(1))
  show "omap_map table (write_slot om pos (slot_of oid) bin f) = (omap_map table om)(oid := slot_name bin)"
  proof
    fix k
    have at: "omap_map table om k = slot_name (pg_slots pg ! slot_of k)" if "page_of k = page_of oid"
      using omap_map_at [OF ok, of k pos] has pg that by (simp add: page_slots_def)
    show "omap_map table (write_slot om pos (slot_of oid) bin f) k = ((omap_map table om)(oid := slot_name bin)) k"
      unfolding w u(2) using at pos(2) slots_ok_slot [OF so]
      by (auto simp: n1 page_slots_def de1_def pg1_def number_eq [of k] nth_list_update)
  qed
  show "calm om \<Longrightarrow> calm (write_slot om pos (slot_of oid) bin f)"
    unfolding w using set_update_subset_insert [of "om_dir om" pos de1]
    by (fastforce simp: calm_def settled_def de1_def)
qed

lemma unat_inc16: "unat (n :: u16) \<le> 256 \<Longrightarrow> unat (n + 1) = unat n + 1"
  by (simp add: unat_add_lem [THEN iffD1])

lemma unat_dec16: "0 < unat (n :: u16) \<Longrightarrow> unat (n - 1) = unat n - 1"
  by (simp add: unat_sub_if' word_le_nat_alt)

text \<open>The page in memory at a position, and its count.\<close>

lemma page_at:
  assumes "omap_ok table om" "pos < length (om_dir om)" "de_cached (om_dir om ! pos) \<noteq> None"
  shows "slots_ok (pg_slots (the_page om pos))" "unat (de_pop (om_dir om ! pos)) = occupied (pg_slots (the_page om pos))"
    "pg_slots (the_page om pos) = page_slots table (om_store om) (om_dir om ! pos)"
proof -
  obtain pg where pg: "de_cached (om_dir om ! pos) = Some pg" using assms(3) by blast
  have "entry_ok table (om_store om) (om_dir om ! pos)" using omap_okD(5) [OF assms(1)] assms(2) by simp
  with pg show "slots_ok (pg_slots (the_page om pos))" "unat (de_pop (om_dir om ! pos)) = occupied (pg_slots (the_page om pos))"
    "pg_slots (the_page om pos) = page_slots table (om_store om) (om_dir om ! pos)"
    by (simp_all add: entry_ok_def page_ok_def the_page_def page_slots_def)
qed

lemma valid_hash_bin: "cas_valid_hash hash \<Longrightarrow> \<exists>bin. cas_hex_decode hash CAS_HASH_LEN = Some bin \<and> length bin = CAS_HASH_LEN"
  using valid_hash_decodes by (simp add: cas_valid_hash_def)

lemma put_spec:
  assumes ok: "omap_ok table om" and run: "cas_omap_put table om oid hash = (r, om')"
    and bin: "cas_hex_decode hash CAS_HASH_LEN = Some bin" "bin \<noteq> zero_hash"
  shows "\<exists>rc. r = Some rc \<and> omap_ok table om' \<and>
    omap_map table om' = (if rc = CAS_OK then (omap_map table om)(oid \<mapsto> cas_hex_encode bin) else omap_map table om) \<and>
    (calm om \<longrightarrow> calm om' \<and> rc = (if cas_valid_hash hash then CAS_OK else CAS_ERR))"
proof (cases "cas_valid_hash hash")
  case False
  with run ok show ?thesis by (intro exI [of _ CAS_ERR]) (simp add: cas_omap_put_def)
next
  case v: True
  have len: "length bin = CAS_HASH_LEN" using valid_hash_bin [OF v] bin(1) by simp
  obtain r1 om1 where e: "page_ensure table om oid = (r1, om1)" by fastforce
  show ?thesis
  proof (rule page_ensure_spec [OF ok e])
    fix x
    assume s: "r1 = Some x" "omap_ok table om1" "omap_map table om1 = omap_map table om"
      "\<And>pos. x = Inr pos \<Longrightarrow> dir_has om1 (page_of oid) pos \<and> de_cached (om_dir om1 ! pos) \<noteq> None"
      "x \<noteq> Inl CAS_OK" "calm om \<Longrightarrow> calm om1 \<and> (\<exists>pos. x = Inr pos)"
    show ?thesis
    proof (cases x)
      case (Inl rc)
      with run v e s show ?thesis by (auto simp: cas_omap_put_def)
    next
      case (Inr pos)
      let ?old = "pg_slots (the_page om1 pos) ! slot_of oid" and ?f = "\<lambda>n :: u16. if pg_slots (the_page om1 pos) ! slot_of oid = zero_hash then n + 1 else n"
      have has: "dir_has om1 (page_of oid) pos" "de_cached (om_dir om1 ! pos) \<noteq> None" using s(4) Inr by auto
      then have p: "pos < length (om_dir om1)" by (simp add: dir_has_def)
      note pg = page_at [OF s(2) p has(2)]
      have "unat (de_pop (om_dir om1 ! pos)) \<le> 256" using pg(2) occupied_le [OF pg(1)] by simp
      then have "unat (?f (de_pop (om_dir om1 ! pos))) = occupied ((pg_slots (the_page om1 pos))[slot_of oid := bin])"
        using occupied_update [OF slots_ok_slot [OF pg(1)], of oid bin] bin(2) pg(2) by (auto simp: unat_inc16)
      note w = write_slot_spec [where f = ?f, OF s(2) has len this]
      have "(if ?old = zero_hash then (\<lambda>n. n + 1) else (\<lambda>n. n)) = ?f" by (simp add: fun_eq_iff)
      then have x: "r = Some CAS_OK" "om' = write_slot om1 pos (slot_of oid) bin ?f"
        using run v e s(1) Inr bin(1) by (simp_all add: cas_omap_put_def Let_def)
      show ?thesis using w s(3,6) bin(2) v unfolding x by (simp add: slot_name_def)
    qed
  qed
qed

lemma del_spec:
  assumes ok: "omap_ok table om" and run: "cas_omap_del table om oid = (r, om')"
  shows "\<exists>rc. r = Some rc \<and> omap_ok table om' \<and>
    omap_map table om' = (if rc = CAS_OK then (omap_map table om)(oid := None) else omap_map table om) \<and>
    (rc = CAS_OK \<longrightarrow> omap_map table om oid \<noteq> None) \<and>
    (calm om \<longrightarrow> calm om' \<and> rc = (if omap_map table om oid = None then CAS_ENOTFOUND else CAS_OK))"
proof (cases "dir_has om (page_of oid) (dir_find om (page_of oid))")
  case False
  with run ok omap_map_absent [OF ok False] show ?thesis by (intro exI [of _ CAS_ENOTFOUND]) (simp add: cas_omap_del_def)
next
  case True
  let ?pos = "dir_find om (page_of oid)"
  have pos: "?pos < length (om_dir om)" using True by (simp add: dir_has_def)
  obtain r1 om1 where l: "page_load table om ?pos = (r1, om1)" by fastforce
  show ?thesis
  proof (rule page_load_spec [OF ok pos l])
    fix rc
    assume s: "r1 = Some rc" "access_ok table om om1"
      "rc = CAS_OK \<Longrightarrow> de_cached (om_dir om1 ! ?pos) \<noteq> None \<and> pg_slots (the_page om1 ?pos) = page_slots table (om_store om) (om_dir om ! ?pos)"
    note a = access_okD [OF s(2)]
    have calm: "calm om \<longrightarrow> calm om1 \<and> rc = CAS_OK" using calm_load [OF ok pos] l s(1) by auto
    have has: "dir_has om1 (page_of oid) ?pos" using True a(4,5) by (simp add: dir_has_def)
    show ?thesis
    proof (cases "rc = CAS_OK")
      case False
      with run True l s(1) calm a(1,2) show ?thesis by (auto simp: cas_omap_del_def)
    next
      case rc: True
      let ?old = "pg_slots (the_page om1 ?pos) ! slot_of oid"
      have mem: "de_cached (om_dir om1 ! ?pos) \<noteq> None" using s(3) rc by simp
      have at: "omap_map table om oid = slot_name ?old" using omap_map_at [OF ok True] s(3) rc by simp
      show ?thesis
      proof (cases "?old = zero_hash")
        case z: True
        then have "r = Some CAS_ENOTFOUND" "om' = om1" using run True l s(1) rc by (simp_all add: cas_omap_del_def Let_def)
        with a(1,2) at z calm show ?thesis by (simp add: slot_name_def)
      next
        case nz: False
        have x: "r = Some CAS_OK" "om' = write_slot om1 ?pos (slot_of oid) zero_hash (\<lambda>n. n - 1)"
          using run True l s(1) rc nz by (simp_all add: cas_omap_del_def Let_def)
        have p1: "?pos < length (om_dir om1)" using pos a(4) by simp
        note pg = page_at [OF a(1) p1 mem]
        have "0 < unat (de_pop (om_dir om1 ! ?pos))" using pg(2) occupied_pos [OF slots_ok_slot [OF pg(1)] nz] by simp
        then have "unat (de_pop (om_dir om1 ! ?pos) - 1) = occupied ((pg_slots (the_page om1 ?pos))[slot_of oid := zero_hash])"
          using occupied_update [OF slots_ok_slot [OF pg(1)], of oid zero_hash] nz pg(2) by (simp add: unat_dec16)
        note w = write_slot_spec [where f = "\<lambda>n. n - 1", OF a(1) has mem length_zero_hash this]
        show ?thesis using w a(2) calm at nz unfolding x by (simp add: slot_name_def)
      qed
    qed
  qed
qed

lemma clear_spec: "omap_ok table om \<Longrightarrow> omap_ok table (cas_omap_clear om) \<and> omap_map table (cas_omap_clear om) = (\<lambda>_. None) \<and>
    (s_sys (om_store om) = [] \<longrightarrow> calm (cas_omap_clear om))"
  by (auto simp: omap_ok_def cas_omap_clear_def omap_map_def entry_for_def dir_sorted_def calm_def settled_def)

end
