(* ===== verification/OmapAlloc.thy ===== *)
theory OmapAlloc
  imports OmapOps
begin

unbundle bit_operations_syntax

text \<open>
  The search for a free number and the iteration over a sparse map. The search meets a new page of the
  directory in every turn, so that one turn more than there are pages is enough.
\<close>

section \<open>Searching one page\<close>

lemma scan_slots_run:
  "case scan_slots slots base bound ss of
     None \<Rightarrow> \<forall>t \<in> set ss. slots ! t \<noteq> zero_hash \<and> base + of_nat t < bound
   | Some r \<Rightarrow> \<exists>pre t post. ss = pre @ t # post \<and> (\<forall>u \<in> set pre. slots ! u \<noteq> zero_hash) \<and>
       (if bound \<le> base + of_nat t then r = Inl CAS_OMAP_EFULL else slots ! t = zero_hash \<and> r = Inr (base + of_nat t))"
proof (induction ss)
  case (Cons s ss)
  show ?case
  proof (cases "bound \<le> base + of_nat s \<or> slots ! s = zero_hash")
    case True
    then show ?thesis by (intro option.split [THEN iffD2]) (auto simp: Let_def intro!: exI [of _ "[]"])
  next
    case False
    then have step: "scan_slots slots base bound (s # ss) = scan_slots slots base bound ss" by (simp add: Let_def)
    show ?thesis
    proof (cases "scan_slots slots base bound ss")
      case None
      with Cons False step show ?thesis by (simp add: not_le)
    next
      case (Some r)
      with Cons obtain pre t post where "ss = pre @ t # post" "\<forall>u \<in> set pre. slots ! u \<noteq> zero_hash"
        "if bound \<le> base + of_nat t then r = Inl CAS_OMAP_EFULL else slots ! t = zero_hash \<and> r = Inr (base + of_nat t)" by auto
      with False show ?thesis unfolding step Some
        by (simp only: option.case) (intro exI [of _ "s # pre"] exI [of _ t] exI [of _ post], simp)
    qed
  qed
qed simp

lemma upt_cut:
  assumes "[s..<m] = pre @ t # post"
  shows "s \<le> t \<and> t < m \<and> set pre = {s..<t}"
proof -
  have l: "s + length pre < m" using arg_cong [OF assms, of length] by simp
  then have "[s..<m] ! length pre = s + length pre" by simp
  then have "t = s + length pre" unfolding assms by simp
  moreover have "take (length pre) [s..<m] = [s..<s + length pre]" using l by (simp add: take_upt)
  then have "pre = [s..<s + length pre]" unfolding assms by simp
  ultimately show ?thesis using l by (metis atLeastLessThan_upt le_add1)
qed

lemma scan_slots_spec:
  assumes "scan_slots slots base bound [s..<m] = r"
  shows "r = None \<Longrightarrow> s \<le> t \<Longrightarrow> t < m \<Longrightarrow> slots ! t \<noteq> zero_hash \<and> base + of_nat t < bound"
    "r = Some x \<Longrightarrow> \<exists>t. s \<le> t \<and> t < m \<and> (\<forall>u. s \<le> u \<longrightarrow> u < t \<longrightarrow> slots ! u \<noteq> zero_hash) \<and>
      (if bound \<le> base + of_nat t then x = Inl CAS_OMAP_EFULL else slots ! t = zero_hash \<and> x = Inr (base + of_nat t))"
proof -
  note run = scan_slots_run [where slots = slots and base = base and bound = bound and ss = "[s..<m]", unfolded assms]
  show "r = None \<Longrightarrow> s \<le> t \<Longrightarrow> t < m \<Longrightarrow> slots ! t \<noteq> zero_hash \<and> base + of_nat t < bound" using run by simp
  assume "r = Some x"
  with run obtain pre t post where p: "[s..<m] = pre @ t # post" "\<forall>u \<in> set pre. slots ! u \<noteq> zero_hash"
    "if bound \<le> base + of_nat t then x = Inl CAS_OMAP_EFULL else slots ! t = zero_hash \<and> x = Inr (base + of_nat t)" by auto
  from upt_cut [OF p(1)] p(2,3) show "\<exists>t. s \<le> t \<and> t < m \<and> (\<forall>u. s \<le> u \<longrightarrow> u < t \<longrightarrow> slots ! u \<noteq> zero_hash) \<and>
      (if bound \<le> base + of_nat t then x = Inl CAS_OMAP_EFULL else slots ! t = zero_hash \<and> x = Inr (base + of_nat t))"
    by (intro exI [of _ t]) simp
qed

lemma page_number:
  assumes "page_of j = page_of oid"
  shows "j = page_of oid * of_nat CAS_OMAP_PAGE_SLOTS + of_nat (slot_of j)"
  using number_join [OF page_of_less slot_of_less, of oid j] assms by (subst number_eq) simp

text \<open>Where the numbers of a page end.\<close>

lemma next_page:
  assumes "unat (page_of oid) + 1 < 2 ^ 56"
  shows "unat ((page_of oid + 1) * of_nat CAS_OMAP_PAGE_SLOTS) = (unat (page_of oid) + 1) * 256"
    "page_of ((page_of oid + 1) * of_nat CAS_OMAP_PAGE_SLOTS) = page_of oid + 1"
    "oid < (page_of oid + 1) * of_nat CAS_OMAP_PAGE_SLOTS"
    "oid \<le> j \<Longrightarrow> j < (page_of oid + 1) * of_nat CAS_OMAP_PAGE_SLOTS \<Longrightarrow> page_of j = page_of oid"
proof -
  have p1: "unat (page_of oid + 1) = unat (page_of oid) + 1" using assms by (simp add: unat_add_lem [THEN iffD1])
  then have b: "unat (page_of oid + 1) < 2 ^ 56" using assms by simp
  from number_join [OF this, of 0] show v: "unat ((page_of oid + 1) * of_nat CAS_OMAP_PAGE_SLOTS) = (unat (page_of oid) + 1) * 256"
    and "page_of ((page_of oid + 1) * of_nat CAS_OMAP_PAGE_SLOTS) = page_of oid + 1" using p1 by simp_all
  show "oid < (page_of oid + 1) * of_nat CAS_OMAP_PAGE_SLOTS"
    unfolding word_less_nat_alt v using number_split [of oid] slot_of_less [of oid] by simp
  show "page_of j = page_of oid" if "oid \<le> j" "j < (page_of oid + 1) * of_nat CAS_OMAP_PAGE_SLOTS"
  proof -
    have "unat oid div 256 \<le> unat j div 256" using that(1) by (simp add: word_le_nat_alt div_le_mono)
    moreover have "unat j div 256 < unat (page_of oid) + 1" using that(2) unfolding word_less_nat_alt v by (simp add: less_mult_imp_div_less)
    ultimately show ?thesis by (simp add: word_unat_eq_iff page_of_def CAS_OMAP_PAGE_SLOTS_def unat_div)
  qed
qed

text \<open>The numbers from \<open>oid\<close> on that belong to its page.\<close>

definition page_tail_mapped :: "cas_codec list \<Rightarrow> cas_omap \<Rightarrow> u64 \<Rightarrow> bool" where
  "page_tail_mapped table om oid \<longleftrightarrow> (\<forall>j. oid \<le> j \<and> page_of j = page_of oid \<longrightarrow> omap_map table om j \<noteq> None)"

lemma tail_slots:
  assumes "page_of j = page_of oid"
  shows "oid \<le> j \<longleftrightarrow> slot_of oid \<le> slot_of j"
  unfolding word_le_nat_alt number_split [of oid] number_split [of j] assms by simp

lemma occupied_full: "length slots = 256 \<Longrightarrow> occupied slots = 256 \<Longrightarrow> i < 256 \<Longrightarrow> slots ! i \<noteq> zero_hash"
  using length_filter_less [of "slots ! i" slots "\<lambda>h. h \<noteq> zero_hash"] by (auto simp: occupied_def)

text \<open>The condition under which the search does not leave the range at its upper end.\<close>

definition top_page_free :: "cas_omap \<Rightarrow> bool" where
  "top_page_free om \<longleftrightarrow> (\<forall>de \<in> set (om_dir om). unat (de_page_num de) + 1 = 2 ^ 56 \<longrightarrow> de_pop de \<noteq> of_nat CAS_OMAP_PAGE_SLOTS)"

lemma top_page_free_access: "access_ok table om om' \<Longrightarrow> top_page_free om \<Longrightarrow> top_page_free om'"
  unfolding top_page_free_def using access_okD(4-6) [of table om om'] by (metis in_set_conv_nth)

definition found_free :: "(u64 \<Rightarrow> string option) \<Rightarrow> u64 \<Rightarrow> u64 \<Rightarrow> omap_rc + u64 \<Rightarrow> bool" where
  "found_free m oid bound r \<longleftrightarrow>
     (case r of
        Inl e \<Rightarrow> e = CAS_OMAP_EFULL \<and> (\<forall>j. oid \<le> j \<and> j < bound \<longrightarrow> m j \<noteq> None)
      | Inr i \<Rightarrow> oid \<le> i \<and> i < bound \<and> m i = None \<and> (\<forall>j. oid \<le> j \<and> j < i \<longrightarrow> m j \<noteq> None))"

lemma found_free_step:
  assumes "found_free m next bound r" "oid \<le> next" "\<And>j. oid \<le> j \<Longrightarrow> j < next \<Longrightarrow> m j \<noteq> None"
  shows "found_free m oid bound r"
  using assms unfolding found_free_def by (auto split: sum.splits) (metis not_le)+

section \<open>The search\<close>

definition pages_from :: "cas_omap \<Rightarrow> u64 \<Rightarrow> nat" where
  "pages_from om n = length (filter (\<lambda>m. n \<le> m) (map de_page_num (om_dir om)))"

lemma pages_from_access: "access_ok table om om' \<Longrightarrow> pages_from om' n = pages_from om n"
  by (simp add: pages_from_def access_ok_def)

lemma pages_from_next:
  assumes "dir_has om (page_of oid) pos" "unat (page_of oid) + 1 < 2 ^ 56"
  shows "pages_from om (page_of oid + 1) < pages_from om (page_of oid)"
proof -
  let ?l = "filter (\<lambda>m. page_of oid \<le> m) (map de_page_num (om_dir om))"
  have le: "page_of oid + 1 \<le> m \<longleftrightarrow> page_of oid \<le> m \<and> page_of oid < m" for m
    using assms(2) by (auto simp: word_le_nat_alt word_less_nat_alt unat_add_lem [THEN iffD1])
  then have "filter (\<lambda>m. page_of oid + 1 \<le> m) (map de_page_num (om_dir om)) = filter (\<lambda>m. page_of oid < m) ?l"
    by (simp add: conj_commute)
  moreover have "page_of oid \<in> de_page_num ` set (om_dir om)" using assms(1) nth_mem unfolding dir_has_def by (metis imageI)
  then have "page_of oid \<in> set ?l" by simp
  then have "length (filter (\<lambda>m. page_of oid < m) ?l) < length ?l" by (rule length_filter_less) simp
  ultimately show ?thesis by (simp add: pages_from_def)
qed

lemma alloc_loop_spec:
  assumes "omap_ok table om" "calm om" "top_page_free om" "pages_from om (page_of oid) < k"
  shows "\<exists>r om'. alloc_loop k table om bound oid = (Some r, om') \<and> access_ok table om om' \<and> found_free (omap_map table om) oid bound r"
  using assms
proof (induction k arbitrary: om oid)
  case (Suc k)
  note ok = Suc.prems(1)
  let ?n = "page_of oid" and ?m = "omap_map table om"
  let ?pos = "dir_find om ?n" and ?next = "(page_of oid + 1) * of_nat CAS_OMAP_PAGE_SLOTS"
  consider (over) "\<not> oid < bound" | (absent) "oid < bound" "\<not> dir_has om ?n ?pos" | (there) "oid < bound" "dir_has om ?n ?pos" by blast
  then show ?case
  proof cases
    case over
    then show ?thesis using access_refl [OF ok] by (auto simp: found_free_def)
  next
    case absent
    then show ?thesis using access_refl [OF ok] omap_map_absent [OF ok absent(2)] by (auto simp: found_free_def Let_def)
  next
    case there
    have pos: "?pos < length (om_dir om)" "de_page_num (om_dir om ! ?pos) = ?n" using there(2) by (simp_all add: dir_has_def)
    let ?slots = "page_slots table (om_store om) (om_dir om ! ?pos)"
    have e: "entry_ok table (om_store om) (om_dir om ! ?pos)" using omap_okD(5) [OF ok] pos(1) by simp
    note so = entry_ok_slots [OF e]
    have at: "?m j = slot_name (?slots ! slot_of j)" if "page_of j = ?n" for j
      using omap_map_at [OF ok, of j ?pos] there(2) that by simp
    have step: "\<exists>r om'. alloc_loop k table om1 bound ?next = (Some r, om') \<and> access_ok table om om' \<and> found_free ?m oid bound r"
      if a: "access_ok table om om1" and c: "calm om1" and tl: "page_tail_mapped table om oid" and hi: "unat ?n + 1 < 2 ^ 56" for om1
    proof -
      note np = next_page [OF hi]
      have "pages_from om1 (page_of ?next) < k"
        using pages_from_next [OF there(2) hi] Suc.prems(4) pages_from_access [OF a] np(2) by simp
      from Suc.IH [OF access_okD(1) [OF a] c top_page_free_access [OF a Suc.prems(3)] this] obtain r om' where
        r: "alloc_loop k table om1 bound ?next = (Some r, om')" "access_ok table om1 om'" "found_free ?m ?next bound r"
        using access_okD(2) [OF a] by auto
      have "?m j \<noteq> None" if "oid \<le> j" "j < ?next" for j using tl np(4) [OF that] that(1) by (simp add: page_tail_mapped_def)
      then have "found_free ?m oid bound r" using found_free_step [OF r(3)] np(3) by simp
      with r access_trans [OF a] show ?thesis by blast
    qed
    show ?thesis
    proof (cases "de_pop (om_dir om ! ?pos) = of_nat CAS_OMAP_PAGE_SLOTS")
      case True
      then have "occupied ?slots = 256" using so(2) by (simp add: CAS_OMAP_PAGE_SLOTS_def)
      then have "page_tail_mapped table om oid"
        using occupied_full [of ?slots] so(1) at by (simp add: page_tail_mapped_def slot_name_def slots_ok_def CAS_OMAP_PAGE_SLOTS_def)
      moreover have "unat ?n + 1 < 2 ^ 56"
      proof -
        have "unat ?n + 1 \<noteq> 2 ^ 56" using Suc.prems(3) True pos nth_mem [OF pos(1)] unfolding top_page_free_def by metis
        then show ?thesis using page_of_less [of oid] by simp
      qed
      ultimately have "\<exists>r om'. alloc_loop k table om bound ?next = (Some r, om') \<and> access_ok table om om' \<and> found_free ?m oid bound r"
        using step [OF access_refl [OF ok] Suc.prems(2)] by simp
      then show ?thesis using there True by (simp add: Let_def)
    next
      case False
      obtain om1 where l: "page_load table om ?pos = (Some CAS_OK, om1)" "calm om1" "access_ok table om om1"
        "pg_slots (the_page om1 ?pos) = ?slots" using calm_load [OF ok pos(1) Suc.prems(2)] by blast
      let ?base = "?n * of_nat CAS_OMAP_PAGE_SLOTS"
      have slots256: "CAS_OMAP_PAGE_SLOTS = 256" by (simp add: CAS_OMAP_PAGE_SLOTS_def)
      obtain sc where sc: "scan_slots ?slots ?base bound [slot_of oid..<256] = sc" by simp
      note scan = scan_slots_spec [OF sc]
      have run: "alloc_loop (Suc k) table om bound oid = (case sc of Some r \<Rightarrow> (Some r, om1) | None \<Rightarrow> alloc_loop k table om1 bound ?next)"
        using there False l(1,4) sc unfolding slots256 [symmetric] by (simp add: Let_def)
      show ?thesis
      proof (cases sc)
        case None
        have "unat ?n + 1 \<noteq> 2 ^ 56"
        proof
          assume "unat ?n + 1 = 2 ^ 56"
          then have "unat (?base + of_nat 255) = 2 ^ 64 - 1" using number_join(1) [OF page_of_less, of 255 oid] by simp
          moreover have "?base + of_nat 255 < bound" using scan(1) [OF None, of 255] slot_of_less [of oid] by simp
          moreover have "unat bound < 2 ^ 64" using unsigned_less [of bound] by simp
          ultimately show False by (simp add: word_less_nat_alt)
        qed
        then have "unat ?n + 1 < 2 ^ 56" using page_of_less [of oid] by simp
        moreover have "page_tail_mapped table om oid"
          using scan(1) [OF None] at tail_slots slot_of_less by (auto simp: page_tail_mapped_def slot_name_def)
        ultimately show ?thesis using step [OF l(3,2)] run None by simp
      next
        case (Some x)
        then obtain t where t: "slot_of oid \<le> t" "t < 256" "\<And>u. slot_of oid \<le> u \<Longrightarrow> u < t \<Longrightarrow> ?slots ! u \<noteq> zero_hash"
          "if bound \<le> ?base + of_nat t then x = Inl CAS_OMAP_EFULL else ?slots ! t = zero_hash \<and> x = Inr (?base + of_nat t)"
          using scan(2) by blast
        note nj = number_join [OF page_of_less t(2), of oid]
        have before: "?m j \<noteq> None" if "oid \<le> j" "j < ?base + of_nat t" for j
        proof -
          have "unat ?n * 256 \<le> unat j" using that(1) number_split [of oid] by (simp add: word_le_nat_alt)
          moreover have j2: "unat j < unat ?n * 256 + t" using that(2) nj(1) by (simp add: word_less_nat_alt)
          ultimately have "unat j div 256 = unat ?n" using t(2) by (intro div_nat_eqI) simp_all
          then have pj: "page_of j = ?n" by (simp add: word_unat_eq_iff page_of_def CAS_OMAP_PAGE_SLOTS_def unat_div)
          have "slot_of j < t" using j2 number_split [of j] pj by simp
          with t(3) tail_slots [OF pj] that(1) at [OF pj] show ?thesis by (simp add: slot_name_def)
        qed
        have "found_free ?m oid bound x"
        proof (cases "bound \<le> ?base + of_nat t")
          case True
          then show ?thesis using t(4) before by (auto simp: found_free_def)
        next
          case False
          have "oid \<le> ?base + of_nat t" using tail_slots [OF nj(2)] nj(3) t(1) by simp
          then show ?thesis using t(4) before False at [OF nj(2)] nj(3) by (simp add: found_free_def slot_name_def not_le)
        qed
        then show ?thesis using run Some l(3) by auto
      qed
    qed
  qed
qed simp

theorem alloc_spec:
  assumes "omap_ok table om" "calm om" "top_page_free om"
  shows "\<exists>r om'. cas_omap_alloc table om start limit = (Some r, om') \<and> access_ok table om om' \<and>
    found_free (omap_map table om) start (if limit > 0 then start + limit else - 1) r"
proof -
  have "pages_from om (page_of start) < Suc (length (om_dir om))"
    using length_filter_le [of "\<lambda>m. page_of start \<le> m" "map de_page_num (om_dir om)"]
    unfolding pages_from_def length_map less_Suc_eq_le .
  from alloc_loop_spec [OF assms this] show ?thesis by (auto simp: cas_omap_alloc_def)
qed

section \<open>Iteration\<close>

definition page_pairs :: "u64 \<Rightarrow> byte list list \<Rightarrow> nat list \<Rightarrow> (u64 \<times> string) list" where
  "page_pairs n slots ss = map (\<lambda>s. (n * of_nat CAS_OMAP_PAGE_SLOTS + of_nat s, cas_hex_encode (slots ! s))) (filter (\<lambda>s. slots ! s \<noteq> zero_hash) ss)"

text \<open>The visits a callback makes over a list of pairs until it asks to stop.\<close>

fun visit_pairs :: "'c omap_fn \<Rightarrow> (u64 \<times> string) list \<Rightarrow> 'c \<Rightarrow> bool \<times> 'c" where
  "visit_pairs fn [] c = (False, c)"
| "visit_pairs fn (x # xs) c = (let (stop, c') = fn c (fst x) (snd x) in if stop then (True, c') else visit_pairs fn xs c')"

lemma visit_pairs_append:
  "visit_pairs fn (xs @ ys) c = (case visit_pairs fn xs c of (stop, c') \<Rightarrow> if stop then (True, c') else visit_pairs fn ys c')"
  by (induction xs arbitrary: c) (auto simp: Let_def split: prod.splits)

lemma visit_slots_pairs: "visit_slots fn slots n ss c = visit_pairs fn (page_pairs n slots ss) c"
  by (induction ss arbitrary: c) (auto simp: page_pairs_def Let_def split: prod.splits)

definition entry_pairs :: "cas_codec list \<Rightarrow> cas \<Rightarrow> omap_dir_entry \<Rightarrow> (u64 \<times> string) list" where
  "entry_pairs table s de = page_pairs (de_page_num de) (page_slots table s de) [0..<CAS_OMAP_PAGE_SLOTS]"

definition omap_pairs :: "cas_codec list \<Rightarrow> cas_omap \<Rightarrow> (u64 \<times> string) list" where
  "omap_pairs table om = concat (map (entry_pairs table (om_store om)) (om_dir om))"

lemma entry_pairs_spec:
  assumes "entry_ok table s de"
  shows "set (entry_pairs table s de) = {(i, h). page_of i = de_page_num de \<and> slot_name (page_slots table s de ! slot_of i) = Some h}"
    "sorted_wrt (<) (map fst (entry_pairs table s de))" "length (entry_pairs table s de) = unat (de_pop de)"
proof -
  let ?sl = "page_slots table s de" and ?n = "de_page_num de"
  have n: "unat ?n < 2 ^ 56" using assms by (simp add: entry_ok_def)
  note so = entry_ok_slots [OF assms] and nj = number_join [OF n]
  have "(i, h) \<in> set (entry_pairs table s de) \<longleftrightarrow> page_of i = ?n \<and> slot_name (?sl ! slot_of i) = Some h" for i h
  proof
    assume "(i, h) \<in> set (entry_pairs table s de)"
    then obtain k where "k < 256" "?sl ! k \<noteq> zero_hash" "i = ?n * of_nat CAS_OMAP_PAGE_SLOTS + of_nat k" "h = cas_hex_encode (?sl ! k)"
      by (auto simp: entry_pairs_def page_pairs_def CAS_OMAP_PAGE_SLOTS_def)
    with nj(2,3) [of k] show "page_of i = ?n \<and> slot_name (?sl ! slot_of i) = Some h" by (simp add: slot_name_def)
  next
    assume i: "page_of i = ?n \<and> slot_name (?sl ! slot_of i) = Some h"
    then have "i = ?n * of_nat CAS_OMAP_PAGE_SLOTS + of_nat (slot_of i)" using page_number [of i i] by simp
    with i slot_of_less [of i] show "(i, h) \<in> set (entry_pairs table s de)"
      by (force simp: entry_pairs_def page_pairs_def CAS_OMAP_PAGE_SLOTS_def slot_name_def image_iff split: if_splits)
  qed
  then show "set (entry_pairs table s de) = {(i, h). page_of i = ?n \<and> slot_name (?sl ! slot_of i) = Some h}" by auto
  have "sorted_wrt (\<lambda>a b. ?n * of_nat CAS_OMAP_PAGE_SLOTS + of_nat a < (?n * of_nat CAS_OMAP_PAGE_SLOTS + of_nat b :: u64)) [0..<256]"
    using nj(1) by (auto simp: sorted_wrt_iff_nth_less word_less_nat_alt)
  then have "sorted_wrt (\<lambda>a b. ?n * of_nat CAS_OMAP_PAGE_SLOTS + of_nat a < (?n * of_nat CAS_OMAP_PAGE_SLOTS + of_nat b :: u64)) (filter (\<lambda>k. ?sl ! k \<noteq> zero_hash) [0..<256])"
    by (rule sorted_wrt_filter)
  then show "sorted_wrt (<) (map fst (entry_pairs table s de))"
    by (simp add: entry_pairs_def page_pairs_def CAS_OMAP_PAGE_SLOTS_def sorted_wrt_map comp_def)
  have "occupied ?sl = length (filter (\<lambda>k. ?sl ! k \<noteq> zero_hash) [0..<256])"
    using so(1) unfolding occupied_def length_filter_conv_card by (auto simp: slots_ok_def CAS_OMAP_PAGE_SLOTS_def intro!: arg_cong [of _ _ card])
  then show "length (entry_pairs table s de) = unat (de_pop de)"
    using so(2) by (simp add: entry_pairs_def page_pairs_def CAS_OMAP_PAGE_SLOTS_def)
qed

lemma omap_map_entry:
  assumes "omap_ok table om"
  shows "omap_map table om i = Some h \<longleftrightarrow>
    (\<exists>de \<in> set (om_dir om). page_of i = de_page_num de \<and> slot_name (page_slots table (om_store om) de ! slot_of i) = Some h)"
proof -
  note e = entry_for_iff [OF omap_okD(4) [OF assms], of "page_of i"]
  show ?thesis
  proof
    assume "omap_map table om i = Some h"
    then obtain de where "entry_for (om_dir om) (page_of i) = Some de" "slot_name (page_slots table (om_store om) de ! slot_of i) = Some h"
      by (auto simp: omap_map_def split: option.splits)
    moreover from this(1) have "de \<in> set (om_dir om)" "de_page_num de = page_of i" by (simp_all only: e)
    ultimately show "\<exists>de \<in> set (om_dir om). page_of i = de_page_num de \<and> slot_name (page_slots table (om_store om) de ! slot_of i) = Some h" by metis
  next
    assume "\<exists>de \<in> set (om_dir om). page_of i = de_page_num de \<and> slot_name (page_slots table (om_store om) de ! slot_of i) = Some h"
    then obtain de where "entry_for (om_dir om) (page_of i) = Some de" "slot_name (page_slots table (om_store om) de ! slot_of i) = Some h"
      using e by metis
    then show "omap_map table om i = Some h" by (simp add: omap_map_def)
  qed
qed

lemma pairs_sorted:
  assumes "\<forall>de \<in> set dir. entry_ok table s de" "sorted_wrt (<) (map de_page_num dir)"
  shows "sorted_wrt (<) (map fst (concat (map (entry_pairs table s) dir)))"
  using assms
proof (induction dir)
  case (Cons de dir)
  note here = entry_pairs_spec [of table s de]
  have "i < j" if i: "i \<in> fst ` set (entry_pairs table s de)" and j: "j \<in> fst ` set (concat (map (entry_pairs table s) dir))" for i j
  proof -
    have "page_of i = de_page_num de" using i here(1) Cons.prems(1) by auto
    moreover obtain de' where d: "de' \<in> set dir" "page_of j = de_page_num de'"
      using j entry_pairs_spec(1) Cons.prems(1) by fastforce
    ultimately have "page_of i < page_of j" using Cons.prems(2) by simp
    then have "unat i div 256 < unat j div 256" by (simp add: word_less_nat_alt page_of_def CAS_OMAP_PAGE_SLOTS_def unat_div)
    then show ?thesis unfolding word_less_nat_alt by (meson div_le_mono leD leI)
  qed
  with Cons here(2) show ?case by (simp add: sorted_wrt_append)
qed simp

lemma omap_pairs_spec:
  assumes "omap_ok table om"
  shows "set (omap_pairs table om) = {(i, h). omap_map table om i = Some h}" "sorted_wrt (<) (map fst (omap_pairs table om))"
proof -
  have "\<And>de. de \<in> set (om_dir om) \<Longrightarrow> entry_ok table (om_store om) de" using omap_okD(5) [OF assms] .
  then show "set (omap_pairs table om) = {(i, h). omap_map table om i = Some h}"
    using entry_pairs_spec(1) by (auto simp: omap_pairs_def omap_map_entry [OF assms])
  show "sorted_wrt (<) (map fst (omap_pairs table om))"
    unfolding omap_pairs_def using omap_okD(3,5) [OF assms] by (intro pairs_sorted) (simp_all add: dir_sorted_def)
qed

text \<open>Entries without population have no pairs; the others are loaded.\<close>

lemma entry_pairs_empty: "entry_ok table s de \<Longrightarrow> de_pop de = 0 \<Longrightarrow> entry_pairs table s de = []"
  using entry_pairs_spec(3) [of table s de] by simp

lemma access_pairs:
  assumes "omap_ok table om" "access_ok table om om'" "i < length (om_dir om)"
  shows "entry_pairs table (om_store om') (om_dir om' ! i) = entry_pairs table (om_store om) (om_dir om ! i)"
proof -
  note a = access_okD [OF assms(2)]
  have e: "entry_ok table (om_store om) (om_dir om ! i)" "entry_ok table (om_store om') (om_dir om' ! i)"
    using omap_okD(5) assms(1,3) a(1,4) by simp_all
  have at: "omap_map table om j = slot_name (page_slots table (om_store om) (om_dir om ! i) ! slot_of j)"
    "omap_map table om' j = slot_name (page_slots table (om_store om') (om_dir om' ! i) ! slot_of j)"
    if "page_of j = de_page_num (om_dir om ! i)" for j
    using omap_map_at [OF assms(1), of j i] omap_map_at [OF a(1), of j i] that a(4,5) assms(3) by (simp_all add: dir_has_def)
  have "set (entry_pairs table (om_store om') (om_dir om' ! i)) = set (entry_pairs table (om_store om) (om_dir om ! i))"
    using at a(2,5) assms(3) unfolding entry_pairs_spec(1) [OF e(1)] entry_pairs_spec(1) [OF e(2)] by auto
  moreover have "sorted_wrt (<) (map fst xs) \<Longrightarrow> sorted_wrt (<) (map fst ys) \<Longrightarrow> set xs = set ys \<Longrightarrow> xs = ys" for xs ys :: "(u64 \<times> string) list"
    by (rule map_sorted_distinct_set_unique [of fst]) (auto simp: strict_sorted_iff distinct_map)
  ultimately show ?thesis using entry_pairs_spec(2) [OF e(1)] entry_pairs_spec(2) [OF e(2)] by blast
qed

lemma visit_pages_spec:
  assumes "omap_ok table om" "calm om" "\<forall>i \<in> set is. i < length (om_dir om)"
  shows "\<exists>om'. visit_pages table fn is om c =
      (Some CAS_OK, om', snd (visit_pairs fn (concat (map (\<lambda>i. entry_pairs table (om_store om) (om_dir om ! i)) is)) c)) \<and>
    access_ok table om om' \<and> calm om'"
  using assms
proof (induction "is" arbitrary: om c)
  case Nil
  then show ?case using access_refl by auto
next
  case (Cons i "is")
  have i: "i < length (om_dir om)" using Cons.prems(3) by simp
  have e: "entry_ok table (om_store om) (om_dir om ! i)" using omap_okD(5) [OF Cons.prems(1)] i by simp
  show ?case
  proof (cases "de_pop (om_dir om ! i) = 0")
    case True
    with Cons.IH [OF Cons.prems(1,2), of c] Cons.prems(3) entry_pairs_empty [OF e] show ?thesis by simp
  next
    case False
    obtain om1 where l: "page_load table om i = (Some CAS_OK, om1)" "calm om1" "access_ok table om om1"
      "pg_slots (the_page om1 i) = page_slots table (om_store om) (om_dir om ! i)"
      using calm_load [OF Cons.prems(1) i Cons.prems(2)] by blast
    note a = access_okD [OF l(3)]
    let ?rest = "concat (map (\<lambda>i. entry_pairs table (om_store om) (om_dir om ! i)) is)"
    obtain stop c1 where v: "visit_pairs fn (entry_pairs table (om_store om) (om_dir om ! i)) c = (stop, c1)" by fastforce
    then have vs: "visit_slots fn (pg_slots (the_page om1 i)) (de_page_num (om_dir om ! i)) [0..<CAS_OMAP_PAGE_SLOTS] c = (stop, c1)"
      by (simp add: visit_slots_pairs l(4) entry_pairs_def)
    have rest: "concat (map (\<lambda>i. entry_pairs table (om_store om1) (om_dir om1 ! i)) is) = ?rest"
      using access_pairs [OF Cons.prems(1) l(3)] Cons.prems(3) by (intro arg_cong [of _ _ concat] map_cong) simp_all
    show ?thesis
    proof (cases stop)
      case True
      with False l vs v show ?thesis by (auto simp: Let_def visit_pairs_append)
    next
      case nostop: False
      have "\<forall>i \<in> set is. i < length (om_dir om1)" using Cons.prems(3) a(4) by simp
      from Cons.IH [OF a(1) l(2) this, of c1] obtain om2 where
        "visit_pages table fn is om1 c1 = (Some CAS_OK, om2, snd (visit_pairs fn ?rest c1))" "access_ok table om1 om2" "calm om2"
        unfolding rest by blast
      with False l vs v nostop access_trans [OF l(3)] show ?thesis by (auto simp: Let_def visit_pairs_append split: prod.splits)
    qed
  qed
qed

theorem foreach_spec:
  assumes "omap_ok table om" "calm om"
  shows "\<exists>om'. cas_omap_foreach table fn om c = (Some CAS_OK, om', snd (visit_pairs fn (omap_pairs table om) c)) \<and> access_ok table om om' \<and> calm om'"
proof -
  have "map (\<lambda>i. entry_pairs table (om_store om) (om_dir om ! i)) [0..<length (om_dir om)] = map (entry_pairs table (om_store om)) (om_dir om)"
    by (metis (no_types, lifting) map_map map_nth comp_apply map_eq_conv)
  with visit_pages_spec [OF assms, of "[0..<length (om_dir om)]" fn c] show ?thesis by (simp add: cas_omap_foreach_def omap_pairs_def)
qed

theorem count_spec:
  assumes "omap_ok table om"
  shows "cas_omap_count om = of_nat (card (dom (omap_map table om)))"
proof -
  let ?ps = "omap_pairs table om"
  have "distinct (map fst ?ps)" using omap_pairs_spec(2) [OF assms] by (metis strict_sorted_iff)
  moreover have "dom (omap_map table om) = fst ` set ?ps" unfolding omap_pairs_spec(1) [OF assms] by force
  ultimately have "card (dom (omap_map table om)) = length ?ps" using distinct_card [of "map fst ?ps"] by simp
  also have "\<dots> = (\<Sum>de \<leftarrow> om_dir om. unat (de_pop de))"
    using omap_okD(5) [OF assms] by (simp add: omap_pairs_def length_concat comp_def entry_pairs_spec(3) cong: map_cong)
  finally have n: "card (dom (omap_map table om)) = (\<Sum>de \<leftarrow> om_dir om. unat (de_pop de))" .
  have "foldl (\<lambda>total de. total + ucast (de_pop de)) t dir = t + of_nat (\<Sum>de \<leftarrow> dir. unat (de_pop de))" for t :: u64 and dir :: "omap_dir_entry list"
    by (induction dir arbitrary: t) simp_all
  then show ?thesis unfolding n by (simp add: cas_omap_count_def)
qed

end
