(* ===== verification/ObjectClient.thy ===== *)
theory ObjectClient
  imports OpenObject
begin

text \<open>
  What a client of the store can rely on when it puts objects one after the other, some of which may fail:
  the store grows by the object or not at all. Where the names of the objects involved tell them apart from
  each other and from what is there, an object put is the one found under its name.
\<close>

section \<open>Storing one object\<close>

text \<open>How a put may change the store: not at all, or by the object, at its name and if that was free.\<close>

definition grows_by :: "cas_codec list \<Rightarrow> string \<times> byte list \<Rightarrow> cas \<Rightarrow> cas \<Rightarrow> bool" where
  "grows_by table x s s' \<longleftrightarrow> store_inv table s' \<and> (\<forall>k. get_object table s' k = get_object table s k \<or>
     cas_hash_object (fst x) (snd x) = Some k \<and> get_object table s k = None \<and> get_object table s' k = Some x)"

context codec_store
begin

lemma put_step:
  assumes inv: "store_inv table s" and st: "storable t d" and run: "cas_put_object s t d = (r, s')"
  shows "grows_by table (t, d) s s' \<and> (r = Some (Inr h) \<longrightarrow> cas_hash_object t d = Some h \<and> get_object table s' h \<noteq> None)"
proof (cases "cas_hash_object t d")
  case None
  then show ?thesis using run inv by (auto simp: put_object_at_hash grows_by_def)
next
  case (Some k)
  obtain ro where p: "cas_put_object_at s t d k = (ro, s')" and r: "r = map_option (\<lambda>rc. if rc = CAS_OK then Inr k else Inl rc) ro"
    using run Some by (auto simp: put_object_at_hash split: prod.splits)
  have at: "store_at s t d k = (ro = Some CAS_OK, s')" using p by (simp add: store_at_def)
  have i: "store_inv table s'" using put_inv [OF inv st _ at] Some by simp
  have other: "get_object table s' j = get_object table s j" if "j \<noteq> k" for j
    using put_other [OF inv at that] .
  show ?thesis
  proof (cases "ro = Some CAS_OK")
    case True
    then have "store_at s t d k = (True, s')" using at by simp
    note new = put_get [OF inv st this]
    have "get_object table s' j = get_object table s j \<or> j = k \<and> get_object table s j = None \<and> get_object table s' j = Some (t, d)" for j
      using new other [of j] by (cases "j = k") (auto split: option.splits)
    then have "grows_by table (t, d) s s'" using i Some unfolding grows_by_def by (metis fst_conv snd_conv)
    moreover have "get_object table s' k \<noteq> None" using new by (auto split: option.splits)
    ultimately show ?thesis using r True Some by auto
  next
    case False
    then have "store_at s t d k = (False, s')" using at by simp
    from put_fail [OF inv this] i r False show ?thesis by (auto simp: grows_by_def split: if_splits)
  qed
qed

end

lemma put_object_step:
  assumes "codec_ok table" "store_inv table s" "storable t d" "cas_put_object s t d = (r, s')"
  shows "grows_by table (t, d) s s'"
    "r = Some (Inr h) \<Longrightarrow> cas_hash_object t d = Some h \<and> get_object table s' h \<noteq> None"
  using codec_store.put_step [OF codec_store.intro [OF assms(1)] assms(2-4)] by simp_all

lemma put_object_fail_rc: "cas_put_object s t d = (r, s') \<Longrightarrow> r \<noteq> Some (Inl CAS_OK)"
  by (auto simp: put_object_at_hash split: option.splits prod.splits if_splits)

definition extends_store :: "cas_codec list \<Rightarrow> cas \<Rightarrow> cas \<Rightarrow> bool" where
  "extends_store table s s' \<longleftrightarrow> (\<forall>k x. get_object table s k = Some x \<longrightarrow> get_object table s' k = Some x)"

lemma extends_store_refl: "extends_store table s s"
  by (simp add: extends_store_def)

lemma extends_store_trans: "extends_store table a b \<Longrightarrow> extends_store table b c \<Longrightarrow> extends_store table a c"
  by (simp add: extends_store_def)

lemma grows_extends: "grows_by table x s s' \<Longrightarrow> extends_store table s s'"
  unfolding grows_by_def extends_store_def by (metis option.discI)

text \<open>
  The names of the objects of a set tell them apart from each other, from what is in the store, and
  from the hash of zeros.
\<close>

definition names_tell :: "cas_codec list \<Rightarrow> cas \<Rightarrow> (string \<times> byte list) set \<Rightarrow> bool" where
  "names_tell table s A \<longleftrightarrow> (\<forall>x \<in> A. \<forall>h. cas_hash_object (fst x) (snd x) = Some h \<longrightarrow>
     h \<noteq> cas_hex_encode (replicate CAS_HASH_LEN 0) \<and> (\<forall>y. get_object table s h = Some y \<longrightarrow> y = x) \<and>
     (\<forall>y \<in> A. cas_hash_object (fst y) (snd y) = Some h \<longrightarrow> y = x))"

lemma names_tellD:
  assumes "names_tell table s A" "x \<in> A" "cas_hash_object (fst x) (snd x) = Some h"
  shows "h \<noteq> cas_hex_encode (replicate CAS_HASH_LEN 0)" "get_object table s h = Some y \<Longrightarrow> y = x"
    "y \<in> A \<Longrightarrow> cas_hash_object (fst y) (snd y) = Some h \<Longrightarrow> y = x"
  using assms unfolding names_tell_def by blast+

lemma names_tell_grow:
  assumes "names_tell table s A" "grows_by table x s s'" "x \<in> A"
  shows "names_tell table s' A"
  unfolding names_tell_def
proof (intro ballI allI impI)
  fix y h
  assume y: "y \<in> A" "cas_hash_object (fst y) (snd y) = Some h"
  note n = names_tellD [OF assms(1) y]
  have "z = y" if z: "get_object table s' h = Some z" for z
  proof (cases "get_object table s' h = get_object table s h")
    case True
    then show ?thesis using n(2) z by metis
  next
    case False
    then have "cas_hash_object (fst x) (snd x) = Some h" "z = x" using assms(2) z unfolding grows_by_def by (metis, metis option.inject)
    then show ?thesis using n(3) assms(3) by blast
  qed
  with n(1,3) show "h \<noteq> cas_hex_encode (replicate CAS_HASH_LEN 0) \<and> (\<forall>z. get_object table s' h = Some z \<longrightarrow> z = y) \<and>
     (\<forall>z \<in> A. cas_hash_object (fst z) (snd z) = Some h \<longrightarrow> z = y)" by blast
qed

lemma names_tell_zero:
  assumes "names_tell table s A" "grows_by table x s s'" "x \<in> A" "get_object table s (cas_hex_encode (replicate CAS_HASH_LEN 0)) = None"
  shows "get_object table s' (cas_hex_encode (replicate CAS_HASH_LEN 0)) = None"
proof -
  let ?z = "cas_hex_encode (replicate CAS_HASH_LEN 0)"
  have "get_object table s' ?z = get_object table s ?z \<or> cas_hash_object (fst x) (snd x) = Some ?z"
    using assms(2) by (auto simp: grows_by_def)
  then show ?thesis using names_tellD(1) [OF assms(1,3)] assms(4) by auto
qed

text \<open>The object is there under its name, which is the hash of the digest.\<close>

lemma put_object_named:
  assumes "codec_ok table" "store_inv table s" "storable t d" "names_tell table s A" "(t, d) \<in> A"
    and run: "cas_put_object s t d = (Some (Inr h), s')"
  obtains bin where "get_object table s' h = Some (t, d)" "cas_hex_decode h CAS_HASH_LEN = Some bin" "h = cas_hex_encode bin"
    "length bin = CAS_HASH_LEN" "bin \<noteq> (replicate CAS_HASH_LEN 0)"
proof -
  note step = put_object_step [OF assms(1-3) run]
  have h: "cas_hash_object t d = Some h" "get_object table s' h \<noteq> None" using step(2) by simp_all
  have n: "names_tell table s' A" using names_tell_grow [OF assms(4) step(1) assms(5)] .
  then have g: "get_object table s' h = Some (t, d)" and nz: "h \<noteq> cas_hex_encode (replicate CAS_HASH_LEN 0)"
    using names_tellD(1,2) [OF _ assms(5), of table s' h] h by auto
  obtain dg where dg: "h = to_hex (cas_digest dg)" using h(1) by (auto simp: hash_object_eq cas_hash_digest split: option.splits)
  then have "cas_digest dg \<noteq> replicate CAS_HASH_LEN 0" using nz by (auto simp: cas_hex_encode_def)
  then show thesis using that [of "cas_digest dg"] g dg hex_decode_encode [of "cas_digest dg" CAS_HASH_LEN]
    by (simp add: cas_hex_encode_def)
qed

end
