(* ===== verification/OmapSnap.thy ===== *)
theory OmapSnap
  imports OmapAlloc ObjectClient
begin

unbundle bit_operations_syntax

text \<open>
  Snapshots of a sparse map: storing the changed pages and the directory, and loading the map back. The
  names of the objects involved have to tell them apart from what the store already holds.
\<close>

section \<open>Storing the pages\<close>

lemma storable_page: "slots_ok slots \<Longrightarrow> storable ''opage'' (concat slots)"
  using cut_concat(2) by (simp add: storable_def type_ok_def CAS_TYPE_MAX_def CAS_OMAP_PAGE_SIZE_def CAS_OMAP_PAGE_SLOTS_def
      CAS_HASH_LEN_def CAS_PACK_BLOCK_def MAX_FILE_def)

lemma page_object_extends: "extends_store table s s' \<Longrightarrow> page_object table s h slots \<Longrightarrow> page_object table s' h slots"
  by (simp add: page_object_def extends_store_def)

lemma entry_ok_extends:
  assumes "extends_store table s s'" "entry_ok table s de"
  shows "entry_ok table s' de" "page_slots table s' de = page_slots table s de"
proof -
  show "entry_ok table s' de"
    using assms(2) page_object_extends [OF assms(1)] by (fastforce simp: entry_ok_def page_ok_def split: option.splits)
  show "page_slots table s' de = page_slots table s de"
    using assms by (auto simp: entry_ok_def page_slots_def page_object_def extends_store_def split: option.splits)
qed

text \<open>What becomes of an entry: it stands for the same slots, and if the run succeeds it has no changes left.\<close>

definition entry_kept :: "cas_codec list \<Rightarrow> cas \<Rightarrow> cas \<Rightarrow> bool \<Rightarrow> omap_dir_entry \<Rightarrow> omap_dir_entry \<Rightarrow> bool" where
  "entry_kept table s s' done de de' \<longleftrightarrow> entry_ok table s' de' \<and> de_page_num de' = de_page_num de \<and> de_pop de' = de_pop de \<and>
     page_slots table s' de' = page_slots table s de \<and> (done \<longrightarrow> (\<forall>pg. de_cached de' = Some pg \<longrightarrow> \<not> pg_dirty pg))"

lemma entry_kept_extends:
  "extends_store table s s' \<Longrightarrow> entry_ok table s de \<Longrightarrow> entry_kept table s s' False de de"
  by (simp add: entry_kept_def entry_ok_extends)

definition changed_pages :: "omap_dir_entry list \<Rightarrow> (string \<times> byte list) set" where
  "changed_pages dir = {(''opage'', concat (pg_slots pg)) | de pg. de \<in> set dir \<and> de_cached de = Some pg \<and> pg_dirty pg}"

lemma store_pages_spec:
  assumes "codec_ok table" "store_inv table s" "\<forall>de \<in> set dir. entry_ok table s de" "names_tell table s A" "changed_pages dir \<subseteq> A"
    and "store_pages s dir = (r, s', dir')" "get_object table s (cas_hex_encode zero_hash) = None"
  shows "store_inv table s' \<and> extends_store table s s' \<and> names_tell table s' A \<and> get_object table s' (cas_hex_encode zero_hash) = None \<and>
    list_all2 (entry_kept table s s' (r = Some CAS_OK)) dir dir'"
  using assms(2-)
proof (induction dir arbitrary: s r s' dir')
  case Nil
  then show ?case by (simp add: extends_store_refl)
next
  case (Cons de dir)
  have e: "entry_ok table s de" using Cons.prems(2) by simp
  have same: "list_all2 (entry_kept table s t False) (de # dir) (de # dir)" if "extends_store table s t" for t
    using Cons.prems(2) entry_kept_extends [OF that] by (auto simp: list_all2_same)
  show ?case
  proof (cases "\<exists>pg. de_cached de = Some pg \<and> pg_dirty pg")
    case False
    then obtain dir1 where run: "store_pages s dir = (r, s', dir1)" "dir' = de # dir1"
      using Cons.prems(5) by (auto split: option.splits prod.splits if_splits)
    have "changed_pages dir \<subseteq> A" using Cons.prems(4) by (auto simp: changed_pages_def)
    with Cons.IH [OF Cons.prems(1) _ Cons.prems(3) _ run(1) Cons.prems(6)] Cons.prems(2)
    have ih: "store_inv table s' \<and> extends_store table s s' \<and> names_tell table s' A \<and> get_object table s' (cas_hex_encode zero_hash) = None \<and>
      list_all2 (entry_kept table s s' (r = Some CAS_OK)) dir dir1" by simp
    have "entry_kept table s s' (r = Some CAS_OK) de de"
      using ih Cons.prems(2) entry_ok_extends [OF _ e, of s'] False by (auto simp: entry_kept_def)
    with ih run(2) Cons.prems(2) show ?thesis by simp
  next
    case True
    then obtain pg where pg: "de_cached de = Some pg" "pg_dirty pg" by blast
    let ?d = "concat (pg_slots pg)"
    have pok: "page_ok table s de pg" using e pg(1) by (simp add: entry_ok_def)
    then have so: "slots_ok (pg_slots pg)" by (simp add: page_ok_def)
    have inA: "(''opage'', ?d) \<in> A" using Cons.prems(4) pg by (auto simp: changed_pages_def)
    obtain r1 s1 where put: "cas_put_object s ''opage'' ?d = (r1, s1)" by fastforce
    note step = put_object_step [OF assms(1) Cons.prems(1) storable_page [OF so] put]
    have ex: "extends_store table s s1" using grows_extends [OF step(1)] .
    have nt: "names_tell table s1 A" using names_tell_grow [OF Cons.prems(3) step(1) inA] .
    have i1: "store_inv table s1" using step(1) by (simp add: grows_by_def)
    have z1: "get_object table s1 (cas_hex_encode zero_hash) = None"
      using names_tell_zero [OF Cons.prems(3) step(1) inA] Cons.prems(6) unfolding zero_hash_def .
    show ?thesis
    proof (cases "\<exists>h. r1 = Some (Inr h)")
      case False
      then have "s' = s1" "dir' = de # dir" "r \<noteq> Some CAS_OK \<or> r1 = Some (Inl CAS_OK)"
        using Cons.prems(5) pg put by (auto split: option.splits sum.splits)
      moreover have "r1 \<noteq> Some (Inl CAS_OK)" using put_object_fail_rc [OF put] by simp
      ultimately show ?thesis using i1 ex nt z1 same [OF ex] by simp
    next
      case True
      then obtain h where h: "r1 = Some (Inr h)" by blast
      obtain bin where bin: "get_object table s1 h = Some (''opage'', ?d)" "cas_hex_decode h CAS_HASH_LEN = Some bin"
        "h = cas_hex_encode bin" "length bin = CAS_HASH_LEN" "bin \<noteq> zero_hash"
        using put_object_named [OF assms(1) Cons.prems(1) storable_page [OF so] Cons.prems(3) inA put [unfolded h], folded zero_hash_def] by blast
      define de1 where "de1 = de\<lparr>de_hash := bin, de_pop := pg_pop pg, de_cached := Some (pg\<lparr>pg_dirty := False\<rparr>)\<rparr>"
      obtain dir1 where run: "store_pages s1 dir = (r, s', dir1)" "dir' = de1 # dir1"
        using Cons.prems(5) pg put h bin(2) by (auto simp: de1_def split: prod.splits)
      have "\<forall>de \<in> set dir. entry_ok table s1 de" using Cons.prems(2) entry_ok_extends(1) [OF ex] by simp
      moreover have "changed_pages dir \<subseteq> A" using Cons.prems(4) by (auto simp: changed_pages_def)
      ultimately have ih: "store_inv table s' \<and> extends_store table s1 s' \<and> names_tell table s' A \<and> get_object table s' (cas_hex_encode zero_hash) = None \<and>
        list_all2 (entry_kept table s1 s' (r = Some CAS_OK)) dir dir1"
        using Cons.IH [OF i1 _ nt _ run(1) z1] by blast
      have po: "page_object table s' bin (pg_slots pg)"
        using bin so ih by (simp add: page_object_def extends_store_def)
      have "entry_kept table s s' (r = Some CAS_OK) de de1"
        using e pok po bin(4) pg by (simp add: entry_kept_def de1_def entry_ok_def page_ok_def page_slots_def)
      moreover have "list_all2 (entry_kept table s s' (r = Some CAS_OK)) dir dir1"
      proof (rule list.rel_mono_strong)
        show "list_all2 (entry_kept table s1 s' (r = Some CAS_OK)) dir dir1" using ih by blast
        show "entry_kept table s s' (r = Some CAS_OK) x y" if "x \<in> set dir" "entry_kept table s1 s' (r = Some CAS_OK) x y" for x y
          using that entry_ok_extends(2) [OF ex, of x] Cons.prems(2) by (simp add: entry_kept_def)
      qed
      ultimately show ?thesis using ih run(2) extends_store_trans [OF ex] by simp
    qed
  qed
qed

section \<open>The directory object\<close>

lemma length_entry_bytes: "length (de_hash de) = CAS_HASH_LEN \<Longrightarrow> length (entry_bytes de) = OMAP_DIR_ENTRY_LEN"
  by (simp add: entry_bytes_def CAS_HASH_LEN_def OMAP_DIR_ENTRY_LEN_def)

lemma entry_of_bytes:
  assumes "length (de_hash de) = CAS_HASH_LEN"
  shows "entry_of (entry_bytes de @ r) = de\<lparr>de_cached := None\<rparr>"
proof -
  let ?tail = "de_hash de @ store_le16 (de_pop de) @ replicate 6 0 @ r"
  have "drop 8 (entry_bytes de @ r) = ?tail" by (simp add: entry_bytes_def)
  moreover have "drop 40 (entry_bytes de @ r) = store_le16 (de_pop de) @ replicate 6 0 @ r"
    using assms by (simp add: entry_bytes_def CAS_HASH_LEN_def)
  ultimately show ?thesis using assms by (simp add: entry_of_def load_store_le) (simp add: entry_bytes_def load_store_le)
qed

lemma dir_image_entries:
  assumes "\<forall>de \<in> set des. length (de_hash de) = CAS_HASH_LEN"
  shows "map (\<lambda>i. entry_of (drop (i * OMAP_DIR_ENTRY_LEN) (concat (map entry_bytes des)))) [0..<length des] = map (\<lambda>de. de\<lparr>de_cached := None\<rparr>) des"
  using assms
proof (induction des)
  case (Cons de des)
  have d: "drop (Suc i * OMAP_DIR_ENTRY_LEN) (entry_bytes de @ x) = drop (i * OMAP_DIR_ENTRY_LEN) x" for i x
    using length_entry_bytes [of de] Cons.prems by simp
  have "map (\<lambda>i. entry_of (drop (i * OMAP_DIR_ENTRY_LEN) (concat (map entry_bytes (de # des))))) [0..<length (de # des)] =
    entry_of (entry_bytes de @ concat (map entry_bytes des)) #
    map (\<lambda>i. entry_of (drop (Suc i * OMAP_DIR_ENTRY_LEN) (entry_bytes de @ concat (map entry_bytes des)))) [0..<length des]"
    by (simp add: upt_rec [of 0 "Suc (length des)"] map_Suc_upt [symmetric] del: upt_Suc)
  with Cons d entry_of_bytes [of de] show ?case by simp
qed simp

lemma length_dir_image:
  assumes "\<forall>de \<in> set dir. length (de_hash de) = CAS_HASH_LEN"
  shows "length (dir_image dir) = OMAP_DIR_HEADER_LEN + length (live_entries dir) * OMAP_DIR_ENTRY_LEN"
proof -
  have "\<forall>b \<in> set (map entry_bytes (live_entries dir)). length b = OMAP_DIR_ENTRY_LEN"
    using assms length_entry_bytes by (auto simp: live_entries_def)
  from uniform_length [OF this] show ?thesis by (simp add: dir_image_def OMAP_DIR_MAGIC_def OMAP_DIR_HEADER_LEN_def)
qed

text \<open>Loading the image of a directory gives its populated entries, without their pages.\<close>

lemma load_image:
  assumes "cas_open_object table (om_store om) root (Some (CAS_TYPE_MAX + 1)) = (Some (Inr (''omap'', dir_image dir)), om_store om)"
    "s_sys (om_store om) = []" "\<forall>de \<in> set dir. length (de_hash de) = CAS_HASH_LEN" "length dir < 2 ^ 32"
  shows "\<exists>om'. cas_omap_load table om root = (Some CAS_OK, om') \<and> om_store om' = om_store om \<and>
    om_dir om' = map (\<lambda>de. de\<lparr>de_cached := None\<rparr>) (live_entries dir)"
proof -
  let ?live = "live_entries dir" and ?d = "dir_image dir"
  have n: "length ?live < 2 ^ 32" using assms(4) length_filter_le [of _ dir] unfolding live_entries_def by (meson le_less_trans)
  note l = length_dir_image [OF assms(3)]
  have d4: "drop 4 ?d = store_le32 (of_nat (length ?live)) @ concat (map entry_bytes ?live)" by (simp add: dir_image_def OMAP_DIR_MAGIC_def)
  have c: "unat (load_le32 (drop 4 ?d)) = length ?live" using n by (simp add: d4 load_store_le unat_of_nat)
  have d8: "drop (OMAP_DIR_HEADER_LEN + i) ?d = drop i (concat (map entry_bytes ?live))" for i
  proof -
    let ?h = "OMAP_DIR_MAGIC @ store_le32 (of_nat (length ?live))"
    have "length ?h = OMAP_DIR_HEADER_LEN" by (simp add: OMAP_DIR_MAGIC_def OMAP_DIR_HEADER_LEN_def)
    then have "drop (OMAP_DIR_HEADER_LEN + i) (?h @ concat (map entry_bytes ?live)) = drop i (concat (map entry_bytes ?live))" by simp
    then show ?thesis by (simp add: dir_image_def)
  qed
  have live: "\<forall>de \<in> set ?live. length (de_hash de) = CAS_HASH_LEN" using assms(3) by (simp add: live_entries_def)
  have m: "take OMAP_DIR_MAGIC_LEN ?d = OMAP_DIR_MAGIC" by (simp add: dir_image_def OMAP_DIR_MAGIC_def OMAP_DIR_MAGIC_LEN_def)
  have mem: "om_sys (cas_omap_clear om) = (True, cas_omap_clear om)" using assms(2) by (simp add: om_sys_def cas_omap_clear_def)
  have g: "om\<lparr>om_store := om_store om\<rparr> = om" by simp
  have "\<not> length ?d < OMAP_DIR_HEADER_LEN" using l by simp
  with assms(1) m c l mem show ?thesis
    by (auto simp: cas_omap_load_def Let_def d8 dir_image_entries [OF live] cas_omap_clear_def)
qed

section \<open>Store and load\<close>

text \<open>The objects a snapshot consists of.\<close>

definition snapshot_objects :: "cas_omap \<Rightarrow> (string \<times> byte list) set" where
  "snapshot_objects om = insert (''omap'', dir_image (snd (snd (store_pages (om_store om) (om_dir om))))) (changed_pages (om_dir om))"

lemma same_disk_kept: "same_disk a b \<Longrightarrow> entry_kept table s b = entry_kept table s a"
  by (simp add: fun_eq_iff entry_kept_def same_disk_slots same_disk_entry)

lemma kept_map:
  assumes "omap_ok table om" "store_inv table s'" "get_object table s' (cas_hex_encode zero_hash) = None"
    "list_all2 (entry_kept table (om_store om) s' b) (om_dir om) dir'"
  shows "omap_ok table (om\<lparr>om_store := s', om_dir := dir'\<rparr>)" "omap_map table (om\<lparr>om_store := s', om_dir := dir'\<rparr>) = omap_map table om"
proof -
  have nums: "map de_page_num dir' = map de_page_num (om_dir om)"
    using assms(4) by (induction rule: list_all2_induct) (simp_all add: entry_kept_def)
  have each: "\<exists>de \<in> set (om_dir om). entry_kept table (om_store om) s' b de de'" if "de' \<in> set dir'" for de'
    using assms(4) that by (metis in_set_conv_nth list_all2_conv_all_nth)
  have each': "\<exists>de' \<in> set dir'. entry_kept table (om_store om) s' b de de'" if "de \<in> set (om_dir om)" for de
    using assms(4) that by (metis in_set_conv_nth list_all2_conv_all_nth)
  show ok: "omap_ok table (om\<lparr>om_store := s', om_dir := dir'\<rparr>)"
    using assms(1-3) nums each by (fastforce simp: omap_ok_def dir_sorted_def store_inv_def entry_kept_def)
  have "omap_map table (om\<lparr>om_store := s', om_dir := dir'\<rparr>) i = Some h \<longleftrightarrow> omap_map table om i = Some h" for i h
    unfolding omap_map_entry [OF ok] omap_map_entry [OF assms(1)] using each each'
    by (simp add: entry_kept_def) metis
  then show "omap_map table (om\<lparr>om_store := s', om_dir := dir'\<rparr>) = omap_map table om"
    by (intro ext) (metis not_None_eq)
qed

lemma storable_image:
  assumes "\<forall>de \<in> set dir. length (de_hash de) = CAS_HASH_LEN" "48 * length dir + 72 \<le> MAX_FILE"
  shows "storable ''omap'' (dir_image dir)"
proof -
  have "length (live_entries dir) \<le> length dir" by (simp add: live_entries_def)
  then show ?thesis using assms length_dir_image [OF assms(1)]
    by (simp add: storable_def type_ok_def CAS_TYPE_MAX_def OMAP_DIR_HEADER_LEN_def OMAP_DIR_ENTRY_LEN_def CAS_PACK_BLOCK_def)
qed

lemma store_spec:
  assumes ok: "omap_ok table om" and inv: "store_inv table (om_store om)" and fit: "48 * length (om_dir om) + 72 \<le> MAX_FILE"
    and nt: "names_tell table (om_store om) (snapshot_objects om)" and run: "cas_omap_store om = (r, om')"
  shows "omap_ok table om'" "omap_map table om' = omap_map table om" "store_inv table (om_store om')" "extends_store table (om_store om) (om_store om')"
    "r = Some (Inr root) \<Longrightarrow> get_object table (om_store om') root = Some (''omap'', dir_image (om_dir om')) \<and>
      list_all2 (entry_kept table (om_store om) (om_store om') True) (om_dir om) (om_dir om')"
proof -
  let ?A = "snapshot_objects om"
  obtain r1 s1 dir1 where sp: "store_pages (om_store om) (om_dir om) = (r1, s1, dir1)" by (metis prod_cases3)
  have sub: "changed_pages (om_dir om) \<subseteq> ?A" by (auto simp: snapshot_objects_def)
  have inA: "(''omap'', dir_image dir1) \<in> ?A" by (simp add: snapshot_objects_def sp)
  from store_pages_spec [OF omap_okD(1) [OF ok] inv _ nt sub sp omap_okD(6) [OF ok]] omap_okD(5) [OF ok]
  have p: "store_inv table s1" "extends_store table (om_store om) s1" "names_tell table s1 ?A" "get_object table s1 (cas_hex_encode zero_hash) = None"
    "list_all2 (entry_kept table (om_store om) s1 (r1 = Some CAS_OK)) (om_dir om) dir1" by auto
  have hl: "\<forall>de \<in> set dir1. length (de_hash de) = CAS_HASH_LEN"
    using p(5) by (induction rule: list_all2_induct) (auto simp: entry_kept_def entry_ok_def)
  have st: "storable ''omap'' (dir_image dir1)"
    using storable_image [OF hl] fit list_all2_lengthD [OF p(5)] by simp
  let ?om1 = "om\<lparr>om_store := s1, om_dir := dir1\<rparr>"
  note k1 = kept_map [OF ok p(1,4,5)]
  have "omap_ok table om' \<and> omap_map table om' = omap_map table om \<and> store_inv table (om_store om') \<and> extends_store table (om_store om) (om_store om') \<and>
    (r = Some (Inr root) \<longrightarrow> get_object table (om_store om') root = Some (''omap'', dir_image (om_dir om')) \<and>
      list_all2 (entry_kept table (om_store om) (om_store om') True) (om_dir om) (om_dir om'))"
  proof (cases "r1 = Some CAS_OK")
    case False
    then have "om' = ?om1" "\<nexists>root. r = Some (Inr root)" using run sp by (auto simp: cas_omap_store_def split: option.splits)
    with k1 p show ?thesis by simp
  next
    case True
    obtain ok2 om2 where c: "om_sys ?om1 = (ok2, om2)" by fastforce
    then obtain s2 where s2: "same_disk s1 s2" "om2 = om\<lparr>om_store := s2, om_dir := dir1\<rparr>" by (auto elim!: om_sys_same)
    have g2: "get_object table s2 = get_object table s1" using same_disk_get(1) [OF s2(1)] .
    have i2: "store_inv table s2" using same_disk_inv [OF s2(1)] p(1) by simp
    have nt2: "names_tell table s2 ?A" using p(3) g2 by (simp add: names_tell_def)
    obtain r3 s3 where put: "cas_put_object s2 ''omap'' (dir_image dir1) = (r3, s3)" by fastforce
    show ?thesis
    proof (cases ok2)
      case False
      then have "om' = om2" "\<nexists>root. r = Some (Inr root)" using run sp True c by (auto simp: cas_omap_store_def)
      moreover have "list_all2 (entry_kept table (om_store om) s2 (r1 = Some CAS_OK)) (om_dir om) dir1"
        using p(5) unfolding same_disk_kept [OF s2(1)] .
      moreover have "get_object table s2 (cas_hex_encode zero_hash) = None" using p(4) g2 by simp
      ultimately show ?thesis using kept_map [OF ok i2, of "r1 = Some CAS_OK" dir1] i2 s2(2) p(2) g2 by (simp add: extends_store_def)
    next
      case ok2: True
      have r: "r = r3" "om' = om\<lparr>om_store := s3, om_dir := dir1\<rparr>" using run sp True c ok2 put s2(2) by (auto simp: cas_omap_store_def)
      note step = put_object_step [OF omap_okD(1) [OF ok] i2 st put]
      have ex: "extends_store table s1 s3" using grows_extends [OF step(1)] g2 by (simp add: extends_store_def)
      have z3: "get_object table s3 (cas_hex_encode zero_hash) = None"
        using names_tell_zero [OF nt2 step(1) inA] p(4) g2 unfolding zero_hash_def by simp
      have i3: "store_inv table s3" using step(1) by (simp add: grows_by_def)
      have k3: "list_all2 (entry_kept table (om_store om) s3 True) (om_dir om) dir1"
        using p(5) entry_ok_extends [OF ex] True by (elim list.rel_mono_strong) (simp add: entry_kept_def)
      have "get_object table s3 root = Some (''omap'', dir_image dir1)" if "r3 = Some (Inr root)"
        by (rule put_object_named [OF omap_okD(1) [OF ok] i2 st nt2 inA put [unfolded that]])
      with kept_map [OF ok i3 z3 k3] i3 k3 extends_store_trans [OF p(2) ex] r show ?thesis by simp
    qed
  qed
  then show "omap_ok table om'" "omap_map table om' = omap_map table om" "store_inv table (om_store om')" "extends_store table (om_store om) (om_store om')"
    "r = Some (Inr root) \<Longrightarrow> get_object table (om_store om') root = Some (''omap'', dir_image (om_dir om')) \<and>
      list_all2 (entry_kept table (om_store om) (om_store om') True) (om_dir om) (om_dir om')" by simp_all
qed

text \<open>A store that holds the objects of a snapshot gives the map back.\<close>

lemma load_spec:
  assumes cod: "codec_ok table" and pk: "pack_ok (om_store om)" and q: "s_sys (om_store om) = []"
    and z: "get_object table (om_store om) (cas_hex_encode zero_hash) = None"
    and root: "get_object table (om_store om) root = Some (''omap'', dir_image dir)"
    and ent: "\<forall>de \<in> set dir. entry_ok table (om_store om) de \<and> (\<forall>pg. de_cached de = Some pg \<longrightarrow> \<not> pg_dirty pg)"
    and srt: "dir_sorted dir" and len: "length dir < 2 ^ 32"
  shows "\<exists>om'. cas_omap_load table om root = (Some CAS_OK, om') \<and> omap_ok table om' \<and> om_store om' = om_store om \<and>
    omap_map table om' = omap_map table (om\<lparr>om_dir := dir\<rparr>)"
proof -
  let ?s = "om_store om" and ?un = "\<lambda>de :: omap_dir_entry. de\<lparr>de_cached := None\<rparr>"
  have o: "cas_open_object table ?s root (Some (CAS_TYPE_MAX + 1)) = (Some (Inr (''omap'', dir_image dir)), ?s)"
    using open_object_quiet_get [OF q root] .
  have hl: "\<forall>de \<in> set dir. length (de_hash de) = CAS_HASH_LEN" using ent by (simp add: entry_ok_def)
  obtain om' where l: "cas_omap_load table om root = (Some CAS_OK, om')" "om_store om' = ?s"
    "om_dir om' = map ?un (live_entries dir)" using load_image [OF o q hl len] by blast
  have un: "entry_ok table ?s (?un de) \<and> page_slots table ?s (?un de) = page_slots table ?s de"
    if de: "de \<in> set dir" "de_pop de \<noteq> 0" for de
  proof (cases "de_cached de")
    case None
    then have "?un de = de" by simp
    with ent de show ?thesis by metis
  next
    case (Some pg)
    then have po: "page_object table ?s (de_hash de) (pg_slots pg)" and "unat (de_pop de) = occupied (pg_slots pg)"
      using ent de by (auto simp: entry_ok_def page_ok_def)
    with ent de Some page_object_slots [OF po] show ?thesis
      by (auto simp: entry_ok_def page_slots_def page_object_def)
  qed
  have "dir_sorted (live_entries dir)" using srt by (auto simp: dir_sorted_def live_entries_def sorted_wrt_map intro: sorted_wrt_filter)
  then have ok': "omap_ok table om'"
    using cod pk z l(2,3) un by (auto simp: omap_ok_def dir_sorted_def comp_def live_entries_def)
  have okd: "omap_ok table (om\<lparr>om_dir := dir\<rparr>)" using cod pk z srt ent by (simp add: omap_ok_def)
  have "omap_map table om' i = Some h \<longleftrightarrow> omap_map table (om\<lparr>om_dir := dir\<rparr>) i = Some h" for i h
  proof -
    have "de_pop de \<noteq> 0" if "de \<in> set dir" "slot_name (page_slots table ?s de ! slot_of i) = Some h" for de
    proof -
      have e: "entry_ok table ?s de" using ent that(1) by simp
      from occupied_pos [OF slots_ok_slot [OF entry_ok_slots(1) [OF e]], of i] entry_ok_slots(2) [OF e] that(2)
      show ?thesis by (auto simp: slot_name_def split: if_splits)
    qed
    then show ?thesis unfolding omap_map_entry [OF ok'] omap_map_entry [OF okd] using l(2,3) un
      by (auto simp: live_entries_def)
  qed
  then have "omap_map table om' = omap_map table (om\<lparr>om_dir := dir\<rparr>)" by (intro ext) (metis not_None_eq)
  with l ok' show ?thesis by blast
qed

end
