(* ===== verification/OmapSpec.thy ===== *)
theory OmapSpec
  imports OmapSnap
begin

text \<open>
  The contract of a sparse map: a finite map from numbers to names, with one abstract step per operation. The locale
  \<open>simulation\<close> states what relates an implementation to such steps, failures included, and proves what follows for
  runs of operations; it is interpreted twice for the C code, with and without failures of the store.
\<close>

section \<open>Simulation\<close>

fun run_ops :: "('op \<Rightarrow> 's \<Rightarrow> 'r \<times> 's) \<Rightarrow> 'op list \<Rightarrow> 's \<Rightarrow> 'r list \<times> 's" where
  "run_ops step [] s = ([], s)"
| "run_ops step (p # ps) s =
     (case step p s of (r, s1) \<Rightarrow> (case run_ops step ps s1 of (rs, s2) \<Rightarrow> (r # rs, s2)))"

text \<open>An implementation step is the abstract step, or a failure that changes nothing.\<close>

locale simulation =
  fixes step :: "'op \<Rightarrow> 's \<Rightarrow> 'r \<times> 's" and astep :: "'op \<Rightarrow> 'a \<Rightarrow> 'r \<times> 'a" and abs :: "'s \<Rightarrow> 'a"
    and inv :: "'s \<Rightarrow> bool" and failed :: "'r \<Rightarrow> bool" and op_ok :: "'op \<Rightarrow> bool"
  assumes step_sim: "inv s \<Longrightarrow> op_ok p \<Longrightarrow> step p s = (r, s') \<Longrightarrow>
    inv s' \<and> (astep p (abs s) = (r, abs s') \<or> failed r \<and> abs s' = abs s)"
begin

lemma run_sim:
  assumes "inv s" "\<forall>p \<in> set ps. op_ok p" "run_ops step ps s = (rs, s')"
  shows "inv s' \<and> (\<exists>done. length done = length rs \<and> (\<forall>i < length rs. done ! i \<or> failed (rs ! i)) \<and>
    run_ops astep (map fst (filter snd (zip ps done))) (abs s) = (map fst (filter snd (zip rs done)), abs s'))"
  using assms
proof (induction ps arbitrary: s rs)
  case (Cons p ps)
  obtain r s1 rs1 where run: "step p s = (r, s1)" "run_ops step ps s1 = (rs1, s')" "rs = r # rs1"
    using Cons.prems(3) by (auto split: prod.splits)
  have here: "inv s1" "astep p (abs s) = (r, abs s1) \<or> failed r \<and> abs s1 = abs s"
    using step_sim [OF Cons.prems(1) _ run(1)] Cons.prems(2) by auto
  from Cons.IH [OF here(1) _ run(2)] Cons.prems(2) obtain d where d: "inv s'" "length d = length rs1"
    "\<forall>i < length rs1. d ! i \<or> failed (rs1 ! i)"
    "run_ops astep (map fst (filter snd (zip ps d))) (abs s1) = (map fst (filter snd (zip rs1 d)), abs s')" by auto
  have all: "\<forall>i < length rs. (b # d) ! i \<or> failed (rs ! i)" if "b \<or> failed r" for b
    using d(3) that run(3) by (auto simp: nth_Cons split: nat.split)
  show ?case
  proof (cases "astep p (abs s) = (r, abs s1)")
    case True
    with d all [of True] run(3) show ?thesis by (intro conjI exI [of _ "True # d"]) simp_all
  next
    case False
    with d here(2) all [of False] run(3) show ?thesis by (intro conjI exI [of _ "False # d"]) simp_all
  qed
qed simp

lemma run_exact:
  assumes "\<And>r. \<not> failed r" "inv s" "\<forall>p \<in> set ps. op_ok p" "run_ops step ps s = (rs, s')"
  shows "inv s' \<and> run_ops astep ps (abs s) = (rs, abs s')"
  using assms(2-)
proof (induction ps arbitrary: s rs)
  case (Cons p ps)
  obtain r s1 rs1 where run: "step p s = (r, s1)" "run_ops step ps s1 = (rs1, s')" "rs = r # rs1"
    using Cons.prems(3) by (auto split: prod.splits)
  have "inv s1 \<and> astep p (abs s) = (r, abs s1)"
    using step_sim [OF Cons.prems(1) _ run(1)] Cons.prems(2) assms(1) by auto
  with Cons.IH [OF _ _ run(2)] Cons.prems(2) run(3) show ?case by simp
qed simp

end

section \<open>The operations of a sparse map\<close>

datatype omap_op = Get u64 | Exists u64 | Put u64 string | Del u64 | Clear | Count

datatype omap_result = Name "cas_rc + string" | Truth bool | Code cas_rc | Done | Total u64

text \<open>The operation of the C code; \<^const>\<open>None\<close> would be a read outside a mapping.\<close>

fun omap_step :: "cas_codec list \<Rightarrow> omap_op \<Rightarrow> cas_omap \<Rightarrow> omap_result option \<times> cas_omap" where
  "omap_step table (Get i) om = (case cas_omap_get table om i of (r, om') \<Rightarrow> (map_option Name r, om'))"
| "omap_step table (Exists i) om = (case cas_omap_exists table om i of (r, om') \<Rightarrow> (map_option Truth r, om'))"
| "omap_step table (Put i h) om = (case cas_omap_put table om i h of (r, om') \<Rightarrow> (map_option Code r, om'))"
| "omap_step table (Del i) om = (case cas_omap_del table om i of (r, om') \<Rightarrow> (map_option Code r, om'))"
| "omap_step table Clear om = (Some Done, cas_omap_clear om)"
| "omap_step table Count om = (Some (Total (cas_omap_count om)), om)"

text \<open>What the operation does to the map; names are given and returned in lower case digits.\<close>

fun map_step :: "omap_op \<Rightarrow> (u64 \<Rightarrow> string option) \<Rightarrow> omap_result option \<times> (u64 \<Rightarrow> string option)" where
  "map_step (Get i) m = (Some (Name (case m i of None \<Rightarrow> Inl CAS_ENOTFOUND | Some h \<Rightarrow> Inr h)), m)"
| "map_step (Exists i) m = (Some (Truth (m i \<noteq> None)), m)"
| "map_step (Put i h) m = (if valid_hash h then (Some (Code CAS_OK), m(i \<mapsto> canonical h)) else (Some (Code CAS_ERR), m))"
| "map_step (Del i) m = (if m i = None then (Some (Code CAS_ENOTFOUND), m) else (Some (Code CAS_OK), m(i := None)))"
| "map_step Clear m = (Some Done, Map.empty)"
| "map_step Count m = (Some (Total (of_nat (card (dom m)))), m)"

text \<open>The hash of zeros cannot be stored: its slot would read as an empty one.\<close>

fun op_ok :: "omap_op \<Rightarrow> bool" where
  "op_ok (Put i h) \<longleftrightarrow> cas_hex_decode h CAS_HASH_LEN \<noteq> Some zero_hash"
| "op_ok _ \<longleftrightarrow> True"

fun failure :: "omap_result option \<Rightarrow> bool" where
  "failure (Some (Name (Inl rc))) \<longleftrightarrow> True"
| "failure (Some (Truth b)) \<longleftrightarrow> \<not> b"
| "failure (Some (Code rc)) \<longleftrightarrow> rc \<noteq> CAS_OK"
| "failure _ \<longleftrightarrow> False"

lemma put_run:
  assumes "omap_ok table om" "cas_omap_put table om i h = (r, om')" "op_ok (Put i h)"
  shows "\<exists>rc. r = Some rc \<and> omap_ok table om' \<and>
    (if rc = CAS_OK then valid_hash h \<and> omap_map table om' = (omap_map table om)(i \<mapsto> canonical h) else omap_map table om' = omap_map table om) \<and>
    (calm om \<longrightarrow> calm om' \<and> rc = (if valid_hash h then CAS_OK else CAS_ERR))"
proof (cases "valid_hash h")
  case False
  with assms show ?thesis by (auto simp: cas_omap_put_def cas_valid_hash_def)
next
  case True
  then obtain bin where bin: "cas_hex_decode h CAS_HASH_LEN = Some bin" using valid_hash_bin [of h] by (auto simp: cas_valid_hash_def)
  then have "bin \<noteq> zero_hash" using assms(3) by simp
  from put_spec [OF assms(1,2) bin this] obtain rc where "r = Some rc" "omap_ok table om'"
    "omap_map table om' = (if rc = CAS_OK then (omap_map table om)(i \<mapsto> cas_hex_encode bin) else omap_map table om)"
    "calm om \<longrightarrow> calm om' \<and> rc = (if cas_valid_hash h then CAS_OK else CAS_ERR)" by blast
  moreover have "canonical h = cas_hex_encode bin" using bin by (simp add: canonical_def)
  ultimately show ?thesis using True by (intro exI [of _ rc]) (simp add: cas_valid_hash_def)
qed

lemma omap_step_sim:
  assumes ok: "omap_ok table om" and op: "op_ok p" and run: "omap_step table p om = (r, om')"
  shows "omap_ok table om' \<and> r \<noteq> None \<and>
    (map_step p (omap_map table om) = (r, omap_map table om') \<or> failure r \<and> omap_map table om' = omap_map table om) \<and>
    (calm om \<longrightarrow> calm om' \<and> map_step p (omap_map table om) = (r, omap_map table om'))"
proof (cases p)
  case (Get i)
  obtain r1 where g: "cas_omap_get table om i = (r1, om')" "r = map_option Name r1" using run Get by (auto split: prod.splits)
  from get_spec [OF ok g(1)] obtain x where x: "r1 = Some x" "access_ok table om om'"
    "\<forall>h. x = Inr h \<longrightarrow> omap_map table om i = Some h"
    "calm om \<longrightarrow> calm om' \<and> x = (case omap_map table om i of None \<Rightarrow> Inl CAS_ENOTFOUND | Some h \<Rightarrow> Inr h)" by blast
  then show ?thesis using Get g(2) access_okD(1,2) [OF x(2)] by (cases x) (auto split: option.splits)
next
  case (Exists i)
  obtain r1 where g: "cas_omap_get table om i = (r1, om')" "r = map_option Truth (map_option (\<lambda>x. case x of Inr h \<Rightarrow> True | Inl rc \<Rightarrow> rc = CAS_OK) r1)"
    using run Exists by (auto simp: cas_omap_exists_def split: prod.splits)
  have "r1 \<noteq> Some (Inl CAS_OK)" using g(1) by (auto simp: cas_omap_get_def Let_def split: option.splits prod.splits if_splits)
  moreover obtain x where x: "r1 = Some x" "access_ok table om om'" "\<forall>h. x = Inr h \<longrightarrow> omap_map table om i = Some h"
    "calm om \<longrightarrow> calm om' \<and> x = (case omap_map table om i of None \<Rightarrow> Inl CAS_ENOTFOUND | Some h \<Rightarrow> Inr h)"
    using get_spec [OF ok g(1)] by blast
  ultimately show ?thesis using Exists g(2) access_okD(1,2) [OF x(2)] by (cases x) (auto split: option.splits)
next
  case (Put i h)
  obtain r1 where g: "cas_omap_put table om i h = (r1, om')" "r = map_option Code r1" using run Put by (auto split: prod.splits)
  have "op_ok (Put i h)" using op Put by simp
  from put_run [OF ok g(1) this] obtain rc where x: "r1 = Some rc" "omap_ok table om'"
    "if rc = CAS_OK then valid_hash h \<and> omap_map table om' = (omap_map table om)(i \<mapsto> canonical h) else omap_map table om' = omap_map table om"
    "calm om \<longrightarrow> calm om' \<and> rc = (if valid_hash h then CAS_OK else CAS_ERR)" by blast
  show ?thesis
  proof (cases "rc = CAS_OK")
    case True
    then show ?thesis using x(3,4) by (simp add: Put g(2) x(1,2))
  next
    case False
    then have "calm om \<longrightarrow> calm om' \<and> \<not> valid_hash h \<and> rc = CAS_ERR" using x(4) by metis
    then show ?thesis using x(3) False by (auto simp: Put g(2) x(1,2))
  qed
next
  case (Del i)
  obtain r1 where g: "cas_omap_del table om i = (r1, om')" "r = map_option Code r1" using run Del by (auto split: prod.splits)
  from del_spec [OF ok g(1)] obtain rc where x: "r1 = Some rc" "omap_ok table om'"
    "omap_map table om' = (if rc = CAS_OK then (omap_map table om)(i := None) else omap_map table om)"
    "rc = CAS_OK \<longrightarrow> omap_map table om i \<noteq> None"
    "calm om \<longrightarrow> calm om' \<and> rc = (if omap_map table om i = None then CAS_ENOTFOUND else CAS_OK)" by blast
  show ?thesis
  proof (cases "rc = CAS_OK")
    case True
    then show ?thesis using x(3-5) by (simp add: Del g(2) x(1,2))
  next
    case False
    then have "calm om \<longrightarrow> calm om' \<and> omap_map table om i = None \<and> rc = CAS_ENOTFOUND" using x(5) by metis
    then show ?thesis using x(3) False by (auto simp: Del g(2) x(1,2))
  qed
next
  case Clear
  with run clear_spec [OF ok] show ?thesis by (auto simp: calm_def)
next
  case Count
  with run ok count_spec [OF ok] show ?thesis by auto
qed

text \<open>Without failures every operation is its abstract step; with failures, it is that or nothing.\<close>

interpretation omap_calm: simulation "omap_step table" map_step "omap_map table" "\<lambda>om. omap_ok table om \<and> calm om" "\<lambda>_. False" op_ok
  for table
  by unfold_locales (use omap_step_sim in blast)

interpretation omap_any: simulation "omap_step table" map_step "omap_map table" "omap_ok table" failure op_ok
  for table
  by unfold_locales (use omap_step_sim in blast)

end
