(* ===== verification/HashVector.thy ===== *)
theory HashVector
  imports Header
begin

unbundle bit_operations_syntax

text \<open>
  The hash of a message of one block, and of one concrete object, computed round by round with the definitions of the model: the
  snapshot of an empty map, an object of type \<open>omap\<close> with eight bytes. The digest is the one the reference
  implementation of BLAKE2b gives for the fifteen bytes of header and contents.
\<close>

text \<open>A message of one block: its start state, the rounds, and what is read off at the end.\<close>

definition block_start :: "nat \<Rightarrow> u64 list" where
  "block_start n = (b_h (blake2b_init 32) @ blake2b_iv)[12 := blake2b_iv ! 4 XOR of_nat n, 14 := blake2b_iv ! 6 XOR NOT 0]"

definition block_out :: "u64 list \<Rightarrow> byte list" where
  "block_out v = take 32 (concat (map (\<lambda>i. store64 (b_h (blake2b_init 32) ! i XOR (v ! i XOR v ! (i + 8)))) [0..<8]))"

lemma sigma_table: "blake2b_sigma = map ((!) blake2b_sigma) [0, 1, 2, 3, 4, 5, 6, 7, 8, 9, 10, 11 :: nat]"
  by (simp add: blake2b_sigma_def)

lemma one_block_digest:
  assumes "length m = n" "map (\<lambda>i. load64 (drop (i * 8) (m @ replicate (128 - n) 0))) [0..<16] = ws"
    and "block_start n = v0" "foldl (blake2b_round ws) v0 blake2b_sigma = v" "out = block_out v" "n \<le> 128"
  shows "cas_digest m = out"
proof -
  let ?S = "count_bytes (blake2b_init 32) (of_nat n)\<lparr>b_f := (NOT 0, 0)\<rparr>"
  have t: "b_h ?S = b_h (blake2b_init 32)" "b_t ?S = (of_nat n, 0)" "b_f ?S = (NOT 0, 0)"
    by (simp_all add: count_bytes_def blake2b_init_def)
  have bh: "b_h (count_bytes S x) = b_h S" for S x by (simp add: count_bytes_def Let_def)
  have start: "let u = b_h ?S @ blake2b_iv; v1 = u[12 := u ! 12 XOR fst (b_t ?S)]; v2 = v1[13 := v1 ! 13 XOR snd (b_t ?S)];
        v3 = v2[14 := v2 ! 14 XOR fst (b_f ?S)] in v3[15 := v3 ! 15 XOR snd (b_f ?S)] = v0"
    unfolding assms(3) [symmetric] block_start_def Let_def t fst_conv snd_conv
    by (simp add: blake2b_init_def blake2b_iv_def)
  have "b_h (blake2b_compress ?S (m @ replicate (128 - n) 0)) = map (\<lambda>i. b_h (blake2b_init 32) ! i XOR (v ! i XOR v ! (i + 8))) [0..<8]"
    using start bh by (simp add: blake2b_compress_def assms(2,4) Let_def del: drop_append)
  moreover have "b_outlen (blake2b_compress ?S b) = 32" for b by (simp add: blake2b_compress_def Let_def count_bytes_def blake2b_init_def)
  moreover have "snd (b_f (count_bytes (blake2b_init 32) (of_nat n))) = 0" by (simp add: count_bytes_def blake2b_init_def)
  moreover have "cas_digest m = blake2b_close (blake2b_init 32) m"
    using assms(1,6) by (simp add: cas_digest_hash blake2b_hash_def BLAKE2B_BLOCKLEN_def CAS_HASH_LEN_def)
  moreover have "map (\<lambda>i. store64 (map g [0..<8] ! i)) [0..<8] = map (\<lambda>i. store64 (g i)) [0..<8]" for g
    by (rule map_cong) simp_all
  ultimately show ?thesis
    using assms(1) by (simp only: blake2b_close_def BLAKE2B_BLOCKLEN_def Let_def block_out_def assms(5))
qed

definition vector_message :: "byte list" where
  "vector_message = bytes_of ''omap 8'' @ [0] @ bytes_of ''OMv1'' @ [0, 0, 0, 0]"

definition vector_words :: "u64 list" where
  "vector_words = [0x4F00382070616D6F, 0x31764D, 0x0, 0x0, 0x0, 0x0, 0x0, 0x0, 0x0, 0x0, 0x0, 0x0, 0x0, 0x0, 0x0, 0x0]"

definition vector_start :: "u64 list" where
  "vector_start =
     [0x6A09E667F2BDC928, 0xBB67AE8584CAA73B, 0x3C6EF372FE94F82B, 0xA54FF53A5F1D36F1, 0x510E527FADE682D1,
     0x9B05688C2B3E6C1F, 0x1F83D9ABFB41BD6B, 0x5BE0CD19137E2179, 0x6A09E667F3BCC908, 0xBB67AE8584CAA73B,
     0x3C6EF372FE94F82B, 0xA54FF53A5F1D36F1, 0x510E527FADE682DE, 0x9B05688C2B3E6C1F, 0xE07C265404BE4294,
     0x5BE0CD19137E2179]"

text \<open>The twelve rounds.\<close>

lemma vector_round0:
  "blake2b_round vector_words
     vector_start (blake2b_sigma ! 0) =
     [0x13F6C70E8E1C6132, 0xC63C10A9E94B402E, 0xA49F526D32FE011E, 0x66F820C493AF08E5, 0x6ADF24374179D88B,
     0x16ED5EC5AABA05E0, 0xB34A3AFEBF04AF1E, 0x2BB38C16404389DA, 0x65B1E5F300AC96AC, 0x43939432892A8C6F,
     0xE3534BE3133FF87C, 0x9B88D7CCC5CE8065, 0x87BCAC0BD75C5FAA, 0xD7EB17757B962387, 0x514610A77DFB84CE,
     0x76C3A9ECB3460792]"
  by code_simp

lemma vector_round1:
  "blake2b_round vector_words
     [0x13F6C70E8E1C6132, 0xC63C10A9E94B402E, 0xA49F526D32FE011E, 0x66F820C493AF08E5, 0x6ADF24374179D88B,
     0x16ED5EC5AABA05E0, 0xB34A3AFEBF04AF1E, 0x2BB38C16404389DA, 0x65B1E5F300AC96AC, 0x43939432892A8C6F,
     0xE3534BE3133FF87C, 0x9B88D7CCC5CE8065, 0x87BCAC0BD75C5FAA, 0xD7EB17757B962387, 0x514610A77DFB84CE,
     0x76C3A9ECB3460792] (blake2b_sigma ! 1) =
     [0x7AEEA3F92CFD689B, 0xB06D6E44BA2E7695, 0xDBC038269A4C9FD6, 0x9256E76E651B9A30, 0x19A7B6C51D4C7424,
     0xF1EAFAF54024FDDC, 0x882C2CAF01D756EC, 0xF80C3FDEA05B50A0, 0xECFA30481B0FAA2C, 0x9E181C85A974820,
     0x67F2B387246355D7, 0xCCA830FA91D36F93, 0xC31322D55463ADB7, 0x4C1029F6F0126CD5, 0xDA28D2653E83AE11,
     0xDB63A9FD18200D84]"
  by code_simp

lemma vector_round2:
  "blake2b_round vector_words
     [0x7AEEA3F92CFD689B, 0xB06D6E44BA2E7695, 0xDBC038269A4C9FD6, 0x9256E76E651B9A30, 0x19A7B6C51D4C7424,
     0xF1EAFAF54024FDDC, 0x882C2CAF01D756EC, 0xF80C3FDEA05B50A0, 0xECFA30481B0FAA2C, 0x9E181C85A974820,
     0x67F2B387246355D7, 0xCCA830FA91D36F93, 0xC31322D55463ADB7, 0x4C1029F6F0126CD5, 0xDA28D2653E83AE11,
     0xDB63A9FD18200D84] (blake2b_sigma ! 2) =
     [0xA60246B0C49EC3E2, 0x6F9A71155F5346E6, 0x6E7A68DCF779A8A2, 0x563948A7EC79880B, 0xDE9497D0E73B4EDC,
     0x9CD10B5C43DE0300, 0xB548038E7785F7E7, 0x3D483FF8480D19DA, 0x43B0127C06165A83, 0xC5E7B9D6697B1BBE,
     0x85FD570E181C54AB, 0x906B518A42D56CBE, 0x15E6F579446871DD, 0x157276A9EE66DF38, 0x1F840F20611C1DE3,
     0xB9B6C1A38199EB50]"
  by code_simp

lemma vector_round3:
  "blake2b_round vector_words
     [0xA60246B0C49EC3E2, 0x6F9A71155F5346E6, 0x6E7A68DCF779A8A2, 0x563948A7EC79880B, 0xDE9497D0E73B4EDC,
     0x9CD10B5C43DE0300, 0xB548038E7785F7E7, 0x3D483FF8480D19DA, 0x43B0127C06165A83, 0xC5E7B9D6697B1BBE,
     0x85FD570E181C54AB, 0x906B518A42D56CBE, 0x15E6F579446871DD, 0x157276A9EE66DF38, 0x1F840F20611C1DE3,
     0xB9B6C1A38199EB50] (blake2b_sigma ! 3) =
     [0xAEB4C84D638A2FE1, 0xBC1554831F1715B6, 0x94A35C866C4F77ED, 0x214E43DDC677B5F8, 0x2B418D8934163C0E,
     0xDA89F8B3D3928315, 0xF989DD88137E9B44, 0x8CF0239A6AC0DE99, 0xB459490984C3A890, 0x9F9D51472060FC78,
     0x80F3B7AA1DB43C30, 0xF0B0DE481D255A58, 0x9BAC53659AF33960, 0xA78A5B3696831DE2, 0x1D43EDA3B4F5A480,
     0x738A2F15A777037E]"
  by code_simp

lemma vector_round4:
  "blake2b_round vector_words
     [0xAEB4C84D638A2FE1, 0xBC1554831F1715B6, 0x94A35C866C4F77ED, 0x214E43DDC677B5F8, 0x2B418D8934163C0E,
     0xDA89F8B3D3928315, 0xF989DD88137E9B44, 0x8CF0239A6AC0DE99, 0xB459490984C3A890, 0x9F9D51472060FC78,
     0x80F3B7AA1DB43C30, 0xF0B0DE481D255A58, 0x9BAC53659AF33960, 0xA78A5B3696831DE2, 0x1D43EDA3B4F5A480,
     0x738A2F15A777037E] (blake2b_sigma ! 4) =
     [0xFA3DD5888C725447, 0x45C4AECF6BEF51E2, 0xC446406BEADB0C2A, 0x1FACADC68D0ED49D, 0x918DB1480D6F5F6C,
     0x87E44BDFF1C4ABD1, 0x8B9F39F3D572F491, 0xE2CE6917898A30C7, 0x394870D182FCA61B, 0x477061AAF6FC0C03,
     0xB35AED10ECC436F2, 0x4F865A062E7BBA8B, 0x8FF76B86889D3D77, 0xEF215EDE7C145C80, 0xA4E71A28C0B385,
     0x93BD64C53520FAB]"
  by code_simp

lemma vector_round5:
  "blake2b_round vector_words
     [0xFA3DD5888C725447, 0x45C4AECF6BEF51E2, 0xC446406BEADB0C2A, 0x1FACADC68D0ED49D, 0x918DB1480D6F5F6C,
     0x87E44BDFF1C4ABD1, 0x8B9F39F3D572F491, 0xE2CE6917898A30C7, 0x394870D182FCA61B, 0x477061AAF6FC0C03,
     0xB35AED10ECC436F2, 0x4F865A062E7BBA8B, 0x8FF76B86889D3D77, 0xEF215EDE7C145C80, 0xA4E71A28C0B385,
     0x93BD64C53520FAB] (blake2b_sigma ! 5) =
     [0x1FE54A0D5A40ABF1, 0x5243B4D25D31DF7E, 0xFDABA7DEFA02C6AB, 0x27649566DABBD185, 0x8C4D39F3E99E3B48,
     0x7311F9EA72ED8060, 0xDBCF9271F7F0517F, 0x82BAC91851810673, 0x51480479366AB085, 0x8C855BA0C7DB5E91,
     0xC928AF4916D0681, 0x5FD241F689DD9B3F, 0x96932078208154, 0xAF21275E4E44CC7E, 0x11BA92AC03D57269,
     0x2F7565B11ABB80C]"
  by code_simp

lemma vector_round6:
  "blake2b_round vector_words
     [0x1FE54A0D5A40ABF1, 0x5243B4D25D31DF7E, 0xFDABA7DEFA02C6AB, 0x27649566DABBD185, 0x8C4D39F3E99E3B48,
     0x7311F9EA72ED8060, 0xDBCF9271F7F0517F, 0x82BAC91851810673, 0x51480479366AB085, 0x8C855BA0C7DB5E91,
     0xC928AF4916D0681, 0x5FD241F689DD9B3F, 0x96932078208154, 0xAF21275E4E44CC7E, 0x11BA92AC03D57269,
     0x2F7565B11ABB80C] (blake2b_sigma ! 6) =
     [0xB88D8C97CD68B674, 0x5FF93DDD29213EFD, 0xB56B6ECAA29BA3D9, 0x41F0BB91D97BF036, 0xD45A903A7FC80DA7,
     0xD02E030344AEBA46, 0x3D95E52BCCC71267, 0x43CE0D3BE21219E4, 0x95BE0E8D9B9A224E, 0x68AE4599DE8EAEAB,
     0x4BD1E903ABC0632F, 0x58CDF2F4A45D921B, 0x557AD75FD9D5BB1, 0x3CCA5520297FD800, 0x1465EFD45DB4AF3D,
     0xC1327A36A3A29AD1]"
  by code_simp

lemma vector_round7:
  "blake2b_round vector_words
     [0xB88D8C97CD68B674, 0x5FF93DDD29213EFD, 0xB56B6ECAA29BA3D9, 0x41F0BB91D97BF036, 0xD45A903A7FC80DA7,
     0xD02E030344AEBA46, 0x3D95E52BCCC71267, 0x43CE0D3BE21219E4, 0x95BE0E8D9B9A224E, 0x68AE4599DE8EAEAB,
     0x4BD1E903ABC0632F, 0x58CDF2F4A45D921B, 0x557AD75FD9D5BB1, 0x3CCA5520297FD800, 0x1465EFD45DB4AF3D,
     0xC1327A36A3A29AD1] (blake2b_sigma ! 7) =
     [0xE681BA1A4590ECBA, 0x34A22615957DAA07, 0xA5D0848C0E5D9A67, 0x603097E59D597B1B, 0xE232401962B557F7,
     0x5FE29A52FED0E5DA, 0x5CE1387B1D6194C9, 0xBCD54D6D8E12B064, 0x7BDD647CE7639011, 0x734DE074EE55F244,
     0x372CB05FBFAA5410, 0xB67463B80E9A80D3, 0x22FCD13F8E94FE32, 0x1AB3073C84104377, 0x4BAECD3EFCA62A4C,
     0xE0ED92756C407EC]"
  by code_simp

lemma vector_round8:
  "blake2b_round vector_words
     [0xE681BA1A4590ECBA, 0x34A22615957DAA07, 0xA5D0848C0E5D9A67, 0x603097E59D597B1B, 0xE232401962B557F7,
     0x5FE29A52FED0E5DA, 0x5CE1387B1D6194C9, 0xBCD54D6D8E12B064, 0x7BDD647CE7639011, 0x734DE074EE55F244,
     0x372CB05FBFAA5410, 0xB67463B80E9A80D3, 0x22FCD13F8E94FE32, 0x1AB3073C84104377, 0x4BAECD3EFCA62A4C,
     0xE0ED92756C407EC] (blake2b_sigma ! 8) =
     [0xDF08F9FF05875750, 0x321472A582DCE57B, 0x1CC9A0F18E51058E, 0x6F698293A6D5F076, 0x16101ADF2C842576,
     0x68A38F306D17B885, 0x49056BC3DAD9A1AD, 0x8B1E9B69844CCF82, 0x1BCF0FC6C5BD5AB6, 0x1A8A2E176F8FA699,
     0x80A7BAC4E0B92519, 0xA38CB9F53AFDD7D0, 0x7599C7A86C3ADCB2, 0xBA4E55AE04541EEF, 0xD377FA4427945D4E,
     0xFB000FED811F1B2D]"
  by code_simp

lemma vector_round9:
  "blake2b_round vector_words
     [0xDF08F9FF05875750, 0x321472A582DCE57B, 0x1CC9A0F18E51058E, 0x6F698293A6D5F076, 0x16101ADF2C842576,
     0x68A38F306D17B885, 0x49056BC3DAD9A1AD, 0x8B1E9B69844CCF82, 0x1BCF0FC6C5BD5AB6, 0x1A8A2E176F8FA699,
     0x80A7BAC4E0B92519, 0xA38CB9F53AFDD7D0, 0x7599C7A86C3ADCB2, 0xBA4E55AE04541EEF, 0xD377FA4427945D4E,
     0xFB000FED811F1B2D] (blake2b_sigma ! 9) =
     [0x5E329BE75403BB23, 0x66EBA42714F77DD4, 0xFA6E9C77A74E2B09, 0xD9DC356EE875BBE, 0xD87625017C53DF3,
     0x84521B6AC916EFE3, 0x28708F5269702543, 0xD4EE965FD58EA13B, 0x236CCA1C796FE31C, 0x4896A2D0764BC5B8,
     0x470153CBD3A1E22C, 0x890CEEA4BB1DD84B, 0x77D82C84D4FBEF07, 0xF716FA60B21D169B, 0x73B243AF2BE948B6,
     0xEFAE6F404BF9F5E4]"
  by code_simp

lemma vector_round10:
  "blake2b_round vector_words
     [0x5E329BE75403BB23, 0x66EBA42714F77DD4, 0xFA6E9C77A74E2B09, 0xD9DC356EE875BBE, 0xD87625017C53DF3,
     0x84521B6AC916EFE3, 0x28708F5269702543, 0xD4EE965FD58EA13B, 0x236CCA1C796FE31C, 0x4896A2D0764BC5B8,
     0x470153CBD3A1E22C, 0x890CEEA4BB1DD84B, 0x77D82C84D4FBEF07, 0xF716FA60B21D169B, 0x73B243AF2BE948B6,
     0xEFAE6F404BF9F5E4] (blake2b_sigma ! 10) =
     [0x8A80042B8354C841, 0xE6BE68C4CE01323B, 0x8439B3C592C14B20, 0x537C1A5C6859C039, 0x28CF755B7430CFC0,
     0x56E0ED0D665A2425, 0xC545A34A2716B7E2, 0xC9AF1C04674630B6, 0xB42B92A5C2016D29, 0xA6048DA9EFF095E4,
     0x2742B1F5402D86B7, 0xDB8A61C8A364BBF6, 0x4DC72054621F5564, 0xFD0C57C9AC55601F, 0xBA78A782BCA545BC,
     0xCA20C74BE0E2D0F9]"
  by code_simp

lemma vector_round11:
  "blake2b_round vector_words
     [0x8A80042B8354C841, 0xE6BE68C4CE01323B, 0x8439B3C592C14B20, 0x537C1A5C6859C039, 0x28CF755B7430CFC0,
     0x56E0ED0D665A2425, 0xC545A34A2716B7E2, 0xC9AF1C04674630B6, 0xB42B92A5C2016D29, 0xA6048DA9EFF095E4,
     0x2742B1F5402D86B7, 0xDB8A61C8A364BBF6, 0x4DC72054621F5564, 0xFD0C57C9AC55601F, 0xBA78A782BCA545BC,
     0xCA20C74BE0E2D0F9] (blake2b_sigma ! 11) =
     [0xA20731237B9E8C6E, 0xBF74690F9E4E99FC, 0x3ED2667CAD3C3477, 0x286A3F19E7098504, 0x96BFF5B6CED98BB1,
     0xD9E5166C02461105, 0xFCF2F752CE201188, 0x9B15B4374BEB8EEA, 0x99A14FC8DD64E3B8, 0x9B0D51436FAA485E,
     0xBB35E368F02C7F6E, 0xA3900FDCB80A3855, 0x94A779CDFE76CEA3, 0x6B830C3D8FC1BEB7, 0x7EC74D6F8F54CE85,
     0x381FC6BD8A970C86]"
  by code_simp

lemmas vector_rounds = vector_round0 vector_round1 vector_round2 vector_round3 vector_round4 vector_round5 vector_round6 vector_round7 vector_round8 vector_round9 vector_round10 vector_round11

definition vector_name :: "byte list" where
  "vector_name =
     [0xFE, 0xA6, 0x47, 0x54, 0x8C, 0x98, 0xAF, 0x51, 0x99, 0x76, 0x2E, 0x75, 0xC9, 0x96, 0x1E, 0x9F, 0x32, 0xB3,
     0x84, 0xA3, 0x66, 0x76, 0x89, 0xB9, 0xA0, 0x8B, 0x1E, 0x00, 0xFF, 0xC5, 0xB5, 0x2E]"

theorem vector_digest: "cas_digest vector_message = vector_name"
proof (rule one_block_digest)
  show "length vector_message = 15" by code_simp
  show "map (\<lambda>i. load64 (drop (i * 8) (vector_message @ replicate (128 - 15) 0))) [0..<16] = vector_words" by code_simp
  show "block_start 15 = vector_start" by code_simp
  show "foldl (blake2b_round vector_words) vector_start blake2b_sigma =
     [0xA20731237B9E8C6E, 0xBF74690F9E4E99FC, 0x3ED2667CAD3C3477, 0x286A3F19E7098504, 0x96BFF5B6CED98BB1,
     0xD9E5166C02461105, 0xFCF2F752CE201188, 0x9B15B4374BEB8EEA, 0x99A14FC8DD64E3B8, 0x9B0D51436FAA485E,
     0xBB35E368F02C7F6E, 0xA3900FDCB80A3855, 0x94A779CDFE76CEA3, 0x6B830C3D8FC1BEB7, 0x7EC74D6F8F54CE85,
     0x381FC6BD8A970C86]"
    by (subst sigma_table) (simp only: vector_rounds foldl.simps list.map)
  show "vector_name = block_out
     [0xA20731237B9E8C6E, 0xBF74690F9E4E99FC, 0x3ED2667CAD3C3477, 0x286A3F19E7098504, 0x96BFF5B6CED98BB1,
     0xD9E5166C02461105, 0xFCF2F752CE201188, 0x9B15B4374BEB8EEA, 0x99A14FC8DD64E3B8, 0x9B0D51436FAA485E,
     0xBB35E368F02C7F6E, 0xA3900FDCB80A3855, 0x94A779CDFE76CEA3, 0x6B830C3D8FC1BEB7, 0x7EC74D6F8F54CE85,
     0x381FC6BD8A970C86]"
    by code_simp
qed simp

end
