(* ===== verification/OmapProps.thy ===== *)
theory OmapProps
  imports OmapSpec HashVector StoreProgress
begin

unbundle bit_operations_syntax

text \<open>
  The properties of sparse maps: refinement of a finite map, with and without failures, the search for a free
  number, iteration, and snapshots.
\<close>

section \<open>Example maps\<close>

definition demo_omap :: "bool list \<Rightarrow> cas_omap" where
  "demo_omap sys = \<lparr>om_store = demo_store\<lparr>s_sys := sys\<rparr>, om_dir = [], om_cap = 0\<rparr>"

definition demo_name :: string where "demo_name = replicate 64 CHR ''a''"

lemma demo_omap_ok: "omap_ok (codec_table []) (demo_omap sys)" "omap_map table (demo_omap sys) = Map.empty" "calm (demo_omap [])"
proof -
  have "same_disk demo_store (demo_store\<lparr>s_sys := sys\<rparr>)" by (simp add: same_disk_def)
  note g = same_disk_get [OF this]
  show "omap_ok (codec_table []) (demo_omap sys)"
    using g demo_store_facts(3,4) codec_none_ok by (simp add: omap_ok_def demo_omap_def dir_sorted_def)
  show "omap_map table (demo_omap sys) = Map.empty" by (simp add: omap_map_def demo_omap_def entry_for_def fun_eq_iff)
  show "calm (demo_omap [])" by (simp add: calm_def settled_def demo_omap_def demo_store_def)
qed

lemma demo_name_facts: "valid_hash demo_name" "canonical demo_name = demo_name" "cas_hex_decode demo_name CAS_HASH_LEN \<noteq> Some zero_hash"
  by code_simp+

section \<open>Refinement\<close>

text \<open>
  C20. Without failures, a sparse map with its pages and directory is a finite map: every sequence of lookups,
  insertions, deletions, clearings and counts gives the results of the finite map it stands for, and stands for that map's final
  state.
\<close>

theorem omap_refines:
  assumes "omap_ok table om" "calm om" "\<forall>p \<in> set ps. op_ok p" "run_ops (omap_step table) ps om = (rs, om')"
  shows "run_ops map_step ps (omap_map table om) = (rs, omap_map table om') \<and> omap_ok table om' \<and> calm om'"
  using omap_calm.run_exact [OF _ _ assms(3,4)] assms(1,2) by blast

theorem omap_refines_witness:
  "fst (run_ops (omap_step (codec_table [])) [Put 300 demo_name, Get 300, Count, Del 300, Exists 300] (demo_omap [])) =
    [Some (Code CAS_OK), Some (Name (Inr demo_name)), Some (Total 1), Some (Code CAS_OK), Some (Truth False)]"
proof -
  let ?ps = "[Put 300 demo_name, Get 300, Count, Del 300, Exists 300]"
  obtain rs om' where run: "run_ops (omap_step (codec_table [])) ?ps (demo_omap []) = (rs, om')" by fastforce
  have "\<forall>p \<in> set ?ps. op_ok p" using demo_name_facts(3) by simp
  from omap_refines [OF demo_omap_ok(1,3) this run] run show ?thesis using demo_name_facts(1,2) by (auto simp: demo_omap_ok(2))
qed

text \<open>
  C34. Whatever fails (an allocation, opening or reading an object), each operation of a sequence either does what the
  finite map does or reports a failure and leaves the map as it was.
\<close>

theorem omap_failure_atomic:
  assumes "omap_ok table om" "\<forall>p \<in> set ps. op_ok p" "run_ops (omap_step table) ps om = (rs, om')"
  shows "omap_ok table om' \<and> (\<exists>done. length done = length rs \<and> (\<forall>i < length rs. done ! i \<or> failure (rs ! i)) \<and>
    run_ops map_step (map fst (filter snd (zip ps done))) (omap_map table om) = (map fst (filter snd (zip rs done)), omap_map table om'))"
  by (rule omap_any.run_sim [OF assms])

theorem omap_failure_atomic_witness:
  "\<exists>om'. run_ops (omap_step (codec_table [])) [Put 300 demo_name] (demo_omap [False]) = ([Some (Code CAS_ENOMEM)], om') \<and>
    omap_map (codec_table []) om' = Map.empty"
proof -
  let ?om = "demo_omap [False]"
  have p: "\<forall>p \<in> set [Put 300 demo_name]. op_ok p" using demo_name_facts(3) by simp
  obtain om' where run: "run_ops (omap_step (codec_table [])) [Put 300 demo_name] ?om = ([Some (Code CAS_ENOMEM)], om')"
    using demo_name_facts(1)
    by (auto simp: cas_omap_put_def cas_valid_hash_def page_ensure_def dir_insert_def dir_has_def demo_omap_def om_sys_def sys_call_def Let_def)
  from omap_failure_atomic [OF demo_omap_ok(1) p run] obtain d where
    "length d = 1" "run_ops map_step (map fst (filter snd (zip [Put 300 demo_name] d))) Map.empty =
      (map fst (filter snd (zip [Some (Code CAS_ENOMEM)] d)), omap_map (codec_table []) om')"
    by (auto simp: demo_omap_ok(2))
  then have "omap_map (codec_table []) om' = Map.empty"
    using demo_name_facts(1) by (cases d) (auto split: if_splits)
  with run show ?thesis by blast
qed

text \<open>
  The hash of zeros is accepted although its slot reads as an empty one: the count goes up, while the number is not in the map.
\<close>

lemma zero_hash_counted:
  "\<exists>om'. cas_omap_put (codec_table []) (demo_omap []) 7 (replicate 64 CHR ''0'') = (Some CAS_OK, om') \<and>
    cas_omap_count om' = 1 \<and> fst (cas_omap_get (codec_table []) om' 7) = Some (Inl CAS_ENOTFOUND)"
proof -
  obtain om' where run: "cas_omap_put (codec_table []) (demo_omap []) 7 (replicate 64 CHR ''0'') = (Some CAS_OK, om')"
    "om_dir om' = [(empty_entry 0)\<lparr>de_cached := Some (empty_page\<lparr>pg_dirty := True, pg_pop := 1\<rparr>), de_pop := 1\<rparr>]"
  proof -
    have f: "page_of 7 = 0" "slot_of 7 = 7" "cas_valid_hash (replicate 64 CHR ''0'')"
      "cas_hex_decode (replicate 64 CHR ''0'') CAS_HASH_LEN = Some zero_hash" by code_simp+
    have p: "pg_slots empty_page ! 7 = zero_hash" "(pg_slots empty_page)[7 := zero_hash] = pg_slots empty_page" "pg_pop empty_page = 0"
      by (simp_all add: empty_page_def CAS_OMAP_PAGE_SLOTS_def list_update_same_conv)
    show thesis
      by (rule that) (auto simp: cas_omap_put_def f p page_ensure_def dir_insert_def dir_find_def dir_has_def find_pos.simps
          demo_omap_def demo_store_def om_sys_def sys_call_def Let_def empty_entry_def set_cached_def write_slot_def the_page_def)
  qed
  have "cas_omap_count om' = 1" by (simp add: cas_omap_count_def run(2))
  moreover have "fst (cas_omap_get (codec_table []) om' 7) = Some (Inl CAS_ENOTFOUND)"
  proof -
    have f: "page_of 7 = 0" "slot_of 7 = 7" "pg_slots empty_page ! 7 = zero_hash" by code_simp+
    have "dir_find om' 0 = 0" by (simp add: dir_find_def run(2) find_pos.simps empty_entry_def)
    then show ?thesis
      by (simp add: cas_omap_get_def f dir_has_def run(2) empty_entry_def page_load_def the_page_def Let_def)
  qed
  ultimately show ?thesis using run(1) by blast
qed

text \<open>A map with two numbers on two pages.\<close>

definition two_names :: "u64 \<Rightarrow> string option" where "two_names = Map.empty(5 \<mapsto> demo_name, 300 \<mapsto> demo_name)"

lemma demo_filled:
  obtains om where "omap_ok (codec_table []) om" "calm om" "omap_map (codec_table []) om = two_names"
proof -
  let ?ps = "[Put 5 demo_name, Put 300 demo_name]"
  obtain rs om where run: "run_ops (omap_step (codec_table [])) ?ps (demo_omap []) = (rs, om)" by fastforce
  have ops: "\<forall>p \<in> set ?ps. op_ok p" using demo_name_facts(3) by simp
  have "omap_ok (codec_table []) (demo_omap []) \<and> calm (demo_omap [])" using demo_omap_ok by blast
  from omap_calm.run_exact [OF _ this ops run] show thesis
    using that [of om] demo_name_facts(1,2) by (auto simp: demo_omap_ok(2) two_names_def)
qed

section \<open>Free numbers\<close>

lemma free_top_page:
  assumes "omap_ok table om" "page_of i = page_of (- 1)" "omap_map table om i = None"
  shows "top_page_free om"
  unfolding top_page_free_def
proof (intro ballI impI notI)
  fix de
  assume de: "de \<in> set (om_dir om)" "unat (de_page_num de) + 1 = 2 ^ 56" "de_pop de = of_nat CAS_OMAP_PAGE_SLOTS"
  have "unat (page_of (- 1 :: u64)) = 2 ^ 56 - 1"
    by (simp add: page_of_def CAS_OMAP_PAGE_SLOTS_def unat_div unsigned_minus_1_eq_mask mask_eq_exp_minus_1)
  then have n: "page_of i = de_page_num de" using de(2) assms(2) by (simp add: word_unat_eq_iff)
  then have "entry_for (om_dir om) (page_of i) = Some de" using entry_for_iff [OF omap_okD(4) [OF assms(1)]] de(1) by simp
  then have "slot_name (page_slots table (om_store om) de ! slot_of i) = None" using assms(3) by (simp add: omap_map_def)
  moreover have e: "entry_ok table (om_store om) de" using omap_okD(5) [OF assms(1) de(1)] .
  then have "page_slots table (om_store om) de ! slot_of i \<noteq> zero_hash"
    using entry_ok_slots [OF e] de(3) occupied_full [of "page_slots table (om_store om) de" "slot_of i"]
    by (simp add: slots_ok_def CAS_OMAP_PAGE_SLOTS_def)
  ultimately show False by (simp add: slot_name_def)
qed

text \<open>
  C25. The search for a free number ends and finds the least free one of its range, or reports that the range is full,
  which it is then. The range is \<open>[start, start + limit)\<close>, an interval of natural numbers that may not reach
  past the largest number, or, if \<open>limit\<close> is 0, all numbers from \<open>start\<close> that are smaller than the largest one, \<open>2^64 - 1\<close>. The
  search looks at pages but changes no entry. This holds if nothing fails (no system call while pages are loaded) and no
  entry of the directory is one whose page could never be allocated (\<open>calm\<close>), and if the last page of all, which
  holds the 256 largest numbers, is not full, since the search would go on at number 0. Both restrictions on the range are needed: a
  range past the largest number counts as full (\<open>omap_alloc_wraps\<close>), and the largest number is never
  found (\<open>omap_alloc_largest\<close>).
\<close>

theorem omap_alloc_correct:
  assumes "omap_ok table om" "calm om" "page_of i = page_of (- 1)" "omap_map table om i = None"
    and "limit = 0 \<or> unat start + unat limit < 2 ^ 64"
    and "stop = (if limit = 0 then 2 ^ 64 - 1 else unat start + unat limit)"
  shows "\<exists>r om'. cas_omap_alloc table om start limit = (Some r, om') \<and> omap_ok table om' \<and> omap_map table om' = omap_map table om \<and>
    (case r of
        Inl e \<Rightarrow> e = CAS_OMAP_EFULL \<and> (\<forall>j. unat start \<le> unat j \<and> unat j < stop \<longrightarrow> omap_map table om j \<noteq> None)
      | Inr k \<Rightarrow> unat start \<le> unat k \<and> unat k < stop \<and> omap_map table om k = None \<and>
          (\<forall>j. unat start \<le> unat j \<and> unat j < unat k \<longrightarrow> omap_map table om j \<noteq> None))"
proof -
  define b where "b = (if limit > 0 then start + limit else - 1)"
  have b: "unat b = stop"
  proof (cases "limit = 0")
    case False
    then have "unat start + unat limit < 2 ^ 64" using assms(5) by simp
    then have "unat (start + limit) = unat start + unat limit" by (simp add: unat_word_ariths)
    moreover have "limit > 0" using False by (simp add: word_neq_0_conv)
    ultimately show ?thesis using False assms(6) by (simp add: b_def)
  qed (simp add: b_def assms(6) unsigned_minus_1_eq_mask mask_eq_exp_minus_1)
  obtain r om' where r: "cas_omap_alloc table om start limit = (Some r, om')" "access_ok table om om'"
    "found_free (omap_map table om) start b r"
    unfolding b_def using alloc_spec [OF assms(1,2) free_top_page [OF assms(1,3,4)], of start limit] by blast
  show ?thesis
    using r(1) access_okD(1,2) [OF r(2)] r(3) [unfolded found_free_def word_le_nat_alt word_less_nat_alt b]
    by (intro exI conjI) assumption+
qed

text \<open>Whatever the map holds, a range that reaches past the largest number is reported as full, and so is the largest number alone.\<close>

theorem omap_alloc_wraps:
  assumes "2 ^ 64 \<le> unat start + unat limit"
  shows "cas_omap_alloc table om start limit = (Some (Inl CAS_OMAP_EFULL), om)"
proof -
  have "unat limit < 2 ^ 64" "unat start < 2 ^ 64" using unsigned_less [of limit] unsigned_less [of start] by simp_all
  moreover from this have "unat (start + limit) = unat start + unat limit - 2 ^ 64"
    using assms by (simp add: unat_word_ariths mod_if)
  ultimately have "unat (start + limit) < unat start" "0 < unat limit" using assms by simp_all
  then have "\<not> start < start + limit" "limit > 0" by (simp_all add: word_less_nat_alt)
  then show ?thesis by (simp add: cas_omap_alloc_def)
qed

theorem omap_alloc_largest: "cas_omap_alloc table om (- 1) 0 = (Some (Inl CAS_OMAP_EFULL), om)"
  by (simp add: cas_omap_alloc_def)

theorem omap_alloc_correct_witness:
  "\<exists>om om'. omap_map (codec_table []) om = two_names \<and> cas_omap_alloc (codec_table []) om 300 0 = (Some (Inr 301), om') \<and>
    omap_map (codec_table []) om' = two_names"
proof (rule demo_filled)
  fix om
  assume om: "omap_ok (codec_table []) om" "calm om" "omap_map (codec_table []) om = two_names"
  have tn: "two_names j = None \<longleftrightarrow> j \<noteq> 5 \<and> j \<noteq> 300" for j by (simp add: two_names_def)
  have u: "unat (300 :: u64) = 300" "unat (301 :: u64) = 301" by simp_all
  have free: "two_names (- 1) = None" "two_names 301 = None" by (simp_all add: tn)
  from omap_alloc_correct [OF om(1,2) refl _ disjI1 [OF refl] refl, of 300] free(1)
  obtain r om' where r: "cas_omap_alloc (codec_table []) om 300 0 = (Some r, om')" "omap_map (codec_table []) om' = two_names"
    "case r of Inl e \<Rightarrow> e = CAS_OMAP_EFULL \<and> (\<forall>j. 300 \<le> unat j \<and> unat j < 2 ^ 64 - 1 \<longrightarrow> two_names j \<noteq> None)
      | Inr k \<Rightarrow> 300 \<le> unat k \<and> unat k < 2 ^ 64 - 1 \<and> two_names k = None \<and> (\<forall>j. 300 \<le> unat j \<and> unat j < unat k \<longrightarrow> two_names j \<noteq> None)"
    unfolding om(3) u(1) if_P [OF refl] by blast
  obtain k where k: "r = Inr k" "300 \<le> unat k" "two_names k = None" "\<And>j. 300 \<le> unat j \<Longrightarrow> unat j < unat k \<Longrightarrow> two_names j \<noteq> None"
  proof (cases r)
    case (Inl e)
    then have "300 \<le> unat (301 :: u64) \<and> unat (301 :: u64) < 2 ^ 64 - 1 \<longrightarrow> two_names 301 \<noteq> None" using r(3) by simp
    then show ?thesis using free(2) by (simp add: u)
  next
    case (Inr k)
    then show ?thesis using r(3) by (intro that [of k]) simp_all
  qed
  have "\<not> 301 < unat k" using k(4) [of 301] free(2) u(2) by force
  moreover have "k \<noteq> 300" using k(3) tn by simp
  ultimately have "k = 301" using k(2) u by (simp add: word_unat_eq_iff)
  with om r k(1) show ?thesis by blast
qed

section \<open>Iteration\<close>

text \<open>
  Iteration calls the function for every number of the map with its name, once each and in increasing order, until the
  function stops it; the count is how many there are. Pages without entries are passed over, the others come into memory, and the
  map stays as it is.
\<close>

theorem omap_foreach_count:
  assumes "omap_ok table om" "calm om"
  shows "\<exists>ps om'. sorted_wrt (<) (map fst ps) \<and> set ps = {(i, h). omap_map table om i = Some h} \<and>
    cas_omap_foreach table fn om c = (Some CAS_OK, om', snd (visit_pairs fn ps c)) \<and>
    omap_ok table om' \<and> omap_map table om' = omap_map table om \<and> cas_omap_count om = of_nat (length ps)"
proof -
  let ?ps = "omap_pairs table om"
  note ps = omap_pairs_spec [OF assms(1)]
  obtain om' where run: "cas_omap_foreach table fn om c = (Some CAS_OK, om', snd (visit_pairs fn ?ps c))" "access_ok table om om'"
    using foreach_spec [OF assms, where fn = fn and c = c] by blast
  have "distinct (map fst ?ps)" using ps(2) by (metis strict_sorted_iff)
  moreover have "dom (omap_map table om) = fst ` set ?ps" unfolding ps(1) by force
  ultimately have "card (dom (omap_map table om)) = length ?ps" using distinct_card [of "map fst ?ps"] by simp
  then have "cas_omap_count om = of_nat (length ?ps)" using count_spec [OF assms(1)] by simp
  then show ?thesis using ps run(1) access_okD(1,2) [OF run(2)]
    by (intro exI [of _ ?ps] exI [of _ om'] conjI)
qed

definition collect_pairs :: "(u64 \<times> string) list omap_fn" where
  "collect_pairs c i h = (False, c @ [(i, h)])"

theorem omap_foreach_count_witness:
  "\<exists>om om'. cas_omap_foreach (codec_table []) collect_pairs om [] = (Some CAS_OK, om', [(5, demo_name), (300, demo_name)]) \<and> cas_omap_count om = 2"
proof (rule demo_filled)
  fix om
  assume om: "omap_ok (codec_table []) om" "calm om" "omap_map (codec_table []) om = two_names"
  obtain ps om' where ps: "sorted_wrt (<) (map fst ps)" "set ps = {(i, h). two_names i = Some h}"
    "cas_omap_foreach (codec_table []) collect_pairs om [] = (Some CAS_OK, om', snd (visit_pairs collect_pairs ps []))"
    "cas_omap_count om = of_nat (length ps)"
    using omap_foreach_count [OF om(1,2), of collect_pairs "[]"] unfolding om(3) by blast
  have all: "visit_pairs collect_pairs xs c = (False, c @ xs)" for xs c
    by (induction xs arbitrary: c) (simp_all add: collect_pairs_def)
  let ?two = "[(5, demo_name), (300, demo_name)] :: (u64 \<times> string) list"
  have same: "set ps = set ?two" unfolding ps(2) by (auto simp: two_names_def split: if_splits)
  have sorted: "sorted (map fst ps)" "distinct (map fst ps)" using ps(1) by (simp_all add: strict_sorted_iff)
  have "inj_on fst (set ps \<union> set ?two)" unfolding same by simp
  then have "ps = ?two" by (rule map_sorted_distinct_set_unique) (use sorted same in simp_all)
  with ps(3,4) all have "cas_omap_foreach (codec_table []) collect_pairs om [] = (Some CAS_OK, om', ?two)" "cas_omap_count om = 2"
    by (simp_all del: visit_pairs.simps)
  then show ?thesis by blast
qed

section \<open>Snapshots\<close>

lemma empty_image_name: "cas_hash_object ''omap'' (dir_image []) = Some (to_hex vector_name)"
proof -
  have "decimal 8 = ''8''" by (simp add: decimal.simps digit_def, code_simp)
  then have "format_header CAS_HEADER_MAX ''omap'' 8 = Some (bytes_of ''omap 8'' @ [0])"
    by (simp add: format_header_def header_text_def CAS_HEADER_MAX_def CAS_TYPE_MAX_def)
  moreover have "length (dir_image []) = 8" "bytes_of ''omap 8'' @ [0] @ dir_image [] = vector_message" by code_simp+
  ultimately show ?thesis using vector_digest by (simp add: hash_object_eq cas_hash_digest)
qed

text \<open>
  C28. A snapshot gives the map back. Whatever fails while it is stored, the map stays the same and the store only
  gains objects; if storing reports a root, then loading that root, from any sound store that holds at least these objects, in
  place of any other map, succeeds and gives the same map. The names of the objects written must tell them apart from
  each other and from what the store holds.
\<close>

theorem omap_snapshot:
  assumes "omap_ok table om" "store_inv table (om_store om)" "48 * length (om_dir om) + 72 \<le> MAX_FILE"
    "names_tell table (om_store om) (snapshot_objects om)" "cas_omap_store om = (r, om')"
  shows "omap_ok table om' \<and> omap_map table om' = omap_map table om \<and> extends_store table (om_store om) (om_store om') \<and>
    (\<forall>root om2. r = Some (Inr root) \<longrightarrow> pack_ok (om_store om2) \<longrightarrow> s_sys (om_store om2) = [] \<longrightarrow>
      extends_store table (om_store om') (om_store om2) \<longrightarrow> get_object table (om_store om2) (cas_hex_encode zero_hash) = None \<longrightarrow>
      (\<exists>om3. cas_omap_load table om2 root = (Some CAS_OK, om3) \<and> omap_ok table om3 \<and> omap_map table om3 = omap_map table om))"
proof -
  note st = store_spec [OF assms]
  have "\<exists>om3. cas_omap_load table om2 root = (Some CAS_OK, om3) \<and> omap_ok table om3 \<and> omap_map table om3 = omap_map table om"
    if r: "r = Some (Inr root)" and om2: "pack_ok (om_store om2)" "s_sys (om_store om2) = []"
      "extends_store table (om_store om') (om_store om2)" "get_object table (om_store om2) (cas_hex_encode zero_hash) = None" for root om2
  proof -
    let ?dir = "om_dir om'"
    have kept: "list_all2 (entry_kept table (om_store om) (om_store om') True) (om_dir om) ?dir"
      and root: "get_object table (om_store om2) root = Some (''omap'', dir_image ?dir)"
      using st(5) [OF r] om2(3) by (simp_all add: extends_store_def)
    have "\<forall>de' \<in> set ?dir. \<exists>de. entry_kept table (om_store om) (om_store om') True de de'"
      using kept by (metis in_set_conv_nth list_all2_conv_all_nth)
    then have ent: "\<forall>de \<in> set ?dir. entry_ok table (om_store om2) de \<and> (\<forall>pg. de_cached de = Some pg \<longrightarrow> \<not> pg_dirty pg)"
      using entry_ok_extends(1) [OF om2(3)] by (auto simp: entry_kept_def)
    have "length ?dir < 2 ^ 32" using list_all2_lengthD [OF kept] assms(3) by (simp add: MAX_FILE_def)
    from load_spec [OF omap_okD(1) [OF assms(1)] om2(1,2,4) root ent omap_okD(3) [OF st(1)] this] obtain om3 where
      om3: "cas_omap_load table om2 root = (Some CAS_OK, om3)" "omap_ok table om3"
        "omap_map table om3 = omap_map table (om2\<lparr>om_dir := ?dir\<rparr>)" by blast
    have "omap_ok table (om2\<lparr>om_dir := ?dir\<rparr>)"
      using omap_okD(1,3) [OF st(1)] om2(1,4) ent by (simp add: omap_ok_def)
    then have "omap_map table (om2\<lparr>om_dir := ?dir\<rparr>) i = Some h \<longleftrightarrow> omap_map table om' i = Some h" for i h
      using omap_map_entry [OF st(1)] omap_map_entry [of table "om2\<lparr>om_dir := ?dir\<rparr>"]
        entry_ok_extends(2) [OF om2(3) omap_okD(5) [OF st(1)]] by auto
    then have "omap_map table (om2\<lparr>om_dir := ?dir\<rparr>) = omap_map table om'" by (intro ext) (metis not_None_eq)
    with om3 st(2) show ?thesis by auto
  qed
  with st(1,2,4) show ?thesis by blast
qed

theorem omap_snapshot_witness:
  "\<exists>root om' om3. cas_omap_store (demo_omap []) = (Some (Inr root), om') \<and>
    cas_omap_load (codec_table []) om' root = (Some CAS_OK, om3) \<and> omap_map (codec_table []) om3 = Map.empty"
proof -
  let ?tab = "codec_table []" and ?om = "demo_omap []"
  have s: "om_store ?om = demo_store" "om_dir ?om = []" by (simp_all add: demo_omap_def demo_store_def)
  have st: "storable ''omap'' (dir_image [])" using storable_image [of "[]"] by (simp add: MAX_FILE_def)
  obtain root s' where p: "cas_put_object demo_store ''omap'' (dir_image []) = (Some (Inr root), s')" "s_sys s' = []"
    using put_progress [OF demo_store_facts(1,2) st demo_store_facts(3)] by blast
  have run: "cas_omap_store ?om = (Some (Inr root), ?om\<lparr>om_store := s'\<rparr>)"
    using p(1) demo_store_facts(1) s by (simp add: cas_omap_store_def om_sys_def)
  have objs: "snapshot_objects ?om = {(''omap'', dir_image [])}" by (simp add: snapshot_objects_def s changed_pages_def)
  have z: "to_hex vector_name \<noteq> cas_hex_encode (replicate CAS_HASH_LEN 0)" by code_simp
  then have nt: "names_tell ?tab (om_store ?om) (snapshot_objects ?om)"
    by (simp add: names_tell_def objs s demo_store_facts(4) empty_image_name)
  have inv: "store_inv ?tab (om_store ?om)" using demo_store_facts(5) by (simp add: s)
  have fit: "48 * length (om_dir ?om) + 72 \<le> MAX_FILE" by (simp add: s MAX_FILE_def)
  note snap = omap_snapshot [OF demo_omap_ok(1) inv fit nt run]
  then have ok: "omap_ok ?tab (?om\<lparr>om_store := s'\<rparr>)" by blast
  have "\<exists>om3. cas_omap_load ?tab (?om\<lparr>om_store := s'\<rparr>) root = (Some CAS_OK, om3) \<and> omap_ok ?tab om3 \<and> omap_map ?tab om3 = omap_map ?tab ?om"
    using snap omap_okD(2,6) [OF ok] p(2) extends_store_refl by simp
  with run show ?thesis by (auto simp: demo_omap_ok(2))
qed

end
