(* ===== verification/Sign.thy ===== *)
theory Sign
  imports ObjectClient Refs
begin

unbundle bit_operations_syntax

text \<open>
  Signed version records, \<open>cas-sign.c\<close> with the bundled backend of \<open>cas-sign-monocypher.c\<close>: the record of 216
  bytes, its verification, the order of records of a topic, walking a chain back from its head, and key files. The
  three functions of the signature library are an argument; a build without a backend is \<^const>\<open>None\<close>. On an error the
  contents of output buffers are not modelled.
\<close>

section \<open>Error codes\<close>

datatype sign_rc = Cas_rc cas_rc | CAS_SIGN_ENOBACKEND | CAS_SIGN_EBADFORM | CAS_SIGN_EBADBIND | CAS_SIGN_EBADSIG
  | CAS_SIGN_ETOPIC | CAS_SIGN_ESTALE | CAS_SIGN_EFORK | CAS_SIGN_ECHAIN | CAS_SIGN_EGAP | CAS_SIGN_EINCOMPLETE
  | CAS_SIGN_EKEYPERM | CAS_SIGN_EKEYEXISTS | CAS_SIGN_EKEYFORM

fun sign_code :: "sign_rc \<Rightarrow> int" where
  "sign_code (Cas_rc rc) = cas_code rc"
| "sign_code CAS_SIGN_ENOBACKEND = -20"
| "sign_code CAS_SIGN_EBADFORM = -21"
| "sign_code CAS_SIGN_EBADBIND = -22"
| "sign_code CAS_SIGN_EBADSIG = -23"
| "sign_code CAS_SIGN_ETOPIC = -24"
| "sign_code CAS_SIGN_ESTALE = -25"
| "sign_code CAS_SIGN_EFORK = -26"
| "sign_code CAS_SIGN_ECHAIN = -27"
| "sign_code CAS_SIGN_EGAP = -28"
| "sign_code CAS_SIGN_EINCOMPLETE = -29"
| "sign_code CAS_SIGN_EKEYPERM = -30"
| "sign_code CAS_SIGN_EKEYEXISTS = -31"
| "sign_code CAS_SIGN_EKEYFORM = -32"

definition cas_sign_strerror :: "int \<Rightarrow> string" where
  "cas_sign_strerror err =
     (if err = cas_code CAS_OK then ''success''
      else if err = sign_code CAS_SIGN_ENOBACKEND then ''no signing backend compiled in''
      else if err = sign_code CAS_SIGN_EBADFORM then ''malformed version record''
      else if err = sign_code CAS_SIGN_EBADBIND then ''topic id does not match key''
      else if err = sign_code CAS_SIGN_EBADSIG then ''signature does not verify''
      else if err = sign_code CAS_SIGN_ETOPIC then ''record belongs to another topic''
      else if err = sign_code CAS_SIGN_ESTALE then ''record is not newer than the head''
      else if err = sign_code CAS_SIGN_EFORK then ''two records at one seq: key compromise''
      else if err = sign_code CAS_SIGN_ECHAIN then ''prev does not link to the predecessor''
      else if err = sign_code CAS_SIGN_EGAP then ''sequence gap; intermediates unseen''
      else if err = sign_code CAS_SIGN_EINCOMPLETE then ''chain incomplete in this store''
      else if err = sign_code CAS_SIGN_EKEYPERM then ''key file is readable by others''
      else if err = sign_code CAS_SIGN_EKEYEXISTS then ''key file already exists''
      else if err = sign_code CAS_SIGN_EKEYFORM then ''not a key file''
      else cas_strerror err)"

section \<open>The backend\<close>

definition CAS_SIGN_SEED_LEN :: nat where "CAS_SIGN_SEED_LEN = 32"
definition CAS_SIGN_PUBKEY_LEN :: nat where "CAS_SIGN_PUBKEY_LEN = 32"
definition CAS_SIGN_SECKEY_LEN :: nat where "CAS_SIGN_SECKEY_LEN = 64"
definition CAS_SIGN_SIG_LEN :: nat where "CAS_SIGN_SIG_LEN = 64"

text \<open>The signature library: the secret and the public key of a seed, the signature of a message, and its check.\<close>

record eddsa =
  crypto_eddsa_key_pair :: "byte list \<Rightarrow> byte list \<times> byte list"
  crypto_eddsa_sign :: "byte list \<Rightarrow> byte list \<Rightarrow> byte list"
  crypto_eddsa_check :: "byte list \<Rightarrow> byte list \<Rightarrow> byte list \<Rightarrow> int"

text \<open>What the library documents: the lengths of keys and signatures, and that a signature made with the key of a seed verifies.\<close>

definition eddsa_ok :: "eddsa \<Rightarrow> bool" where
  "eddsa_ok lib \<longleftrightarrow> (\<forall>seed msg. length seed = CAS_SIGN_SEED_LEN \<longrightarrow>
     (case crypto_eddsa_key_pair lib seed of (sk, pk) \<Rightarrow>
        length sk = CAS_SIGN_SECKEY_LEN \<and> length pk = CAS_SIGN_PUBKEY_LEN \<and>
        length (crypto_eddsa_sign lib sk msg) = CAS_SIGN_SIG_LEN \<and>
        crypto_eddsa_check lib (crypto_eddsa_sign lib sk msg) pk msg = 0))"

definition cas_sign_eddsa_key_pair :: "eddsa \<Rightarrow> byte list \<Rightarrow> cas_rc \<times> byte list \<times> byte list" where
  "cas_sign_eddsa_key_pair lib seed = (CAS_OK, crypto_eddsa_key_pair lib seed)"

definition cas_sign_eddsa_sign :: "eddsa \<Rightarrow> byte list \<Rightarrow> byte list \<Rightarrow> cas_rc \<times> byte list" where
  "cas_sign_eddsa_sign lib sk msg = (CAS_OK, crypto_eddsa_sign lib sk msg)"

definition cas_sign_eddsa_check :: "eddsa \<Rightarrow> byte list \<Rightarrow> byte list \<Rightarrow> byte list \<Rightarrow> cas_rc" where
  "cas_sign_eddsa_check lib sig pk msg = (if crypto_eddsa_check lib sig pk msg = 0 then CAS_OK else CAS_ERR)"

definition cas_sign_available :: "eddsa option \<Rightarrow> bool" where
  "cas_sign_available backend \<longleftrightarrow> backend \<noteq> None"

definition cas_sign_key_pair :: "eddsa option \<Rightarrow> byte list \<Rightarrow> sign_rc + byte list \<times> byte list" where
  "cas_sign_key_pair backend seed =
     (case backend of
        None \<Rightarrow> Inl CAS_SIGN_ENOBACKEND
      | Some lib \<Rightarrow> (case cas_sign_eddsa_key_pair lib seed of (rc, keys) \<Rightarrow> if rc \<noteq> CAS_OK then Inl (Cas_rc rc) else Inr keys))"

definition cas_sign_topic_id :: "byte list \<Rightarrow> byte list" where
  "cas_sign_topic_id pk = cas_digest pk"

section \<open>Records\<close>

definition CAS_VREC_TYPE :: string where "CAS_VREC_TYPE = ''vrec''"
definition CAS_VREC_LEN :: nat where "CAS_VREC_LEN = 216"
definition CAS_VREC_SIGNED_LEN :: nat where "CAS_VREC_SIGNED_LEN = 152"
definition VREC_MAGIC :: "byte list" where "VREC_MAGIC = bytes_of ''VRv1''"
definition VREC_MAGIC_LEN :: nat where "VREC_MAGIC_LEN = 4"
definition VREC_OFF_MAGIC :: nat where "VREC_OFF_MAGIC = 0"
definition VREC_OFF_RESERVED :: nat where "VREC_OFF_RESERVED = 4"
definition VREC_OFF_TOPIC :: nat where "VREC_OFF_TOPIC = 8"
definition VREC_OFF_PUBKEY :: nat where "VREC_OFF_PUBKEY = 40"
definition VREC_OFF_SEQ :: nat where "VREC_OFF_SEQ = 72"
definition VREC_OFF_TIME :: nat where "VREC_OFF_TIME = 80"
definition VREC_OFF_ROOT :: nat where "VREC_OFF_ROOT = 88"
definition VREC_OFF_PREV :: nat where "VREC_OFF_PREV = 120"
definition VREC_OFF_SIG :: nat where "VREC_OFF_SIG = 152"

definition vrec_zero :: "byte list" where "vrec_zero = replicate CAS_HASH_LEN 0"

text \<open>The time is the bit pattern of an \<open>int64_t\<close>; nothing is computed with it.\<close>

record cas_vrec =
  vr_topic_id :: "byte list"
  vr_pubkey :: "byte list"
  vr_seq :: u64
  vr_timestamp :: u64
  vr_root :: string
  vr_prev :: string

text \<open>\<open>memcpy\<close> of a field into the record under construction.\<close>

definition put_at :: "nat \<Rightarrow> byte list \<Rightarrow> byte list \<Rightarrow> byte list" where
  "put_at off field out = take off out @ field @ drop (off + length field) out"

definition cas_vrec_encode :: "eddsa option \<Rightarrow> cas_vrec \<Rightarrow> byte list \<Rightarrow> (sign_rc + byte list) \<times> cas_vrec" where
  "cas_vrec_encode backend v sk =
     (if \<not> cas_valid_hash (vr_root v) then (Inl (Cas_rc CAS_ERR), v)
      else if vr_prev v \<noteq> [] \<and> \<not> cas_valid_hash (vr_prev v) then (Inl (Cas_rc CAS_ERR), v)
      else
        let out0 = replicate CAS_VREC_LEN 0;
            out1 = put_at VREC_OFF_MAGIC VREC_MAGIC out0;
            v1 = v\<lparr>vr_topic_id := cas_sign_topic_id (vr_pubkey v)\<rparr>;
            out2 = put_at VREC_OFF_TOPIC (vr_topic_id v1) out1;
            out3 = put_at VREC_OFF_PUBKEY (vr_pubkey v1) out2;
            out4 = put_at VREC_OFF_SEQ (store_le64 (vr_seq v1)) out3;
            out5 = put_at VREC_OFF_TIME (store_le64 (vr_timestamp v1)) out4
        in (case cas_hex_decode (vr_root v1) CAS_HASH_LEN of
              None \<Rightarrow> (Inl (Cas_rc CAS_ERR), v1)
            | Some root \<Rightarrow>
                let out6 = put_at VREC_OFF_ROOT root out5 in
                (case (if vr_prev v1 = [] then Some [] else cas_hex_decode (vr_prev v1) CAS_HASH_LEN) of
                   None \<Rightarrow> (Inl (Cas_rc CAS_ERR), v1)
                 | Some prev \<Rightarrow>
                     let out7 = put_at VREC_OFF_PREV prev out6 in
                     (case backend of
                        None \<Rightarrow> (Inl CAS_SIGN_ENOBACKEND, v1)
                      | Some lib \<Rightarrow>
                          let (rc, sig) = cas_sign_eddsa_sign lib sk (take CAS_VREC_SIGNED_LEN out7) in
                          if rc \<noteq> CAS_OK then (Inl (Cas_rc rc), v1) else (Inr (put_at VREC_OFF_SIG sig out7), v1)))))"

definition cas_vrec_decode :: "eddsa option \<Rightarrow> byte list \<Rightarrow> sign_rc + cas_vrec" where
  "cas_vrec_decode backend buf =
     (if length buf \<noteq> CAS_VREC_LEN then Inl CAS_SIGN_EBADFORM
      else if take VREC_MAGIC_LEN (drop VREC_OFF_MAGIC buf) \<noteq> VREC_MAGIC then Inl CAS_SIGN_EBADFORM
      else if list_ex (\<lambda>i. buf ! (VREC_OFF_RESERVED + i) \<noteq> 0) [0..<4] then Inl CAS_SIGN_EBADFORM
      else
        let topic = take CAS_HASH_LEN (drop VREC_OFF_TOPIC buf);
            pk = take CAS_SIGN_PUBKEY_LEN (drop VREC_OFF_PUBKEY buf)
        in
        if cas_sign_topic_id pk \<noteq> topic then Inl CAS_SIGN_EBADBIND
        else
          let prev = take CAS_HASH_LEN (drop VREC_OFF_PREV buf);
              v = \<lparr>vr_topic_id = topic, vr_pubkey = pk, vr_seq = load_le64 (drop VREC_OFF_SEQ buf),
                   vr_timestamp = load_le64 (drop VREC_OFF_TIME buf),
                   vr_root = cas_hex_encode (take CAS_HASH_LEN (drop VREC_OFF_ROOT buf)),
                   vr_prev = (if prev = vrec_zero then [] else cas_hex_encode prev)\<rparr>
          in (case backend of
                None \<Rightarrow> Inl CAS_SIGN_ENOBACKEND
              | Some lib \<Rightarrow>
                  if cas_sign_eddsa_check lib (take CAS_SIGN_SIG_LEN (drop VREC_OFF_SIG buf)) pk (take CAS_VREC_SIGNED_LEN buf) \<noteq> CAS_OK
                  then Inl CAS_SIGN_EBADSIG else Inr v))"

definition cas_vrec_address :: "byte list \<Rightarrow> string option" where
  "cas_vrec_address rec = cas_hash_object CAS_VREC_TYPE rec"

section \<open>Chains\<close>

definition cas_vrec_succeeds :: "cas_vrec option \<Rightarrow> string option \<Rightarrow> cas_vrec \<Rightarrow> sign_rc" where
  "cas_vrec_succeeds cur cur_addr cand =
     (case cur of
        None \<Rightarrow> Cas_rc CAS_OK
      | Some c \<Rightarrow>
          (case cur_addr of
             None \<Rightarrow> Cas_rc CAS_ERR
           | Some addr \<Rightarrow>
               if vr_topic_id c \<noteq> vr_topic_id cand then CAS_SIGN_ETOPIC
               else if vr_seq cand < vr_seq c then CAS_SIGN_ESTALE
               else if vr_seq cand = vr_seq c then
                 if vr_root cand = vr_root c \<and> vr_prev cand = vr_prev c \<and> vr_timestamp cand = vr_timestamp c
                 then CAS_SIGN_ESTALE else CAS_SIGN_EFORK
               else if vr_seq cand = vr_seq c + 1 then
                 if vr_prev cand \<noteq> addr then CAS_SIGN_ECHAIN else Cas_rc CAS_OK
               else CAS_SIGN_EGAP))"

definition vchain_load :: "eddsa option \<Rightarrow> cas_codec list \<Rightarrow> cas \<Rightarrow> string \<Rightarrow> (sign_rc + cas_vrec) option \<times> cas" where
  "vchain_load backend table s addr =
     (case cas_open_object table s addr (Some (CAS_TYPE_MAX + 1)) of
        (None, s1) \<Rightarrow> (None, s1)
      | (Some (Inl rc), s1) \<Rightarrow> (Some (Inl (Cas_rc rc)), s1)
      | (Some (Inr (type, data)), s1) \<Rightarrow>
          if type \<noteq> CAS_VREC_TYPE then (Some (Inl (Cas_rc CAS_ETYPE)), s1) else (Some (cas_vrec_decode backend data), s1))"

type_synonym 'c vchain_fn = "'c \<Rightarrow> cas_vrec \<Rightarrow> string \<Rightarrow> bool \<times> 'c"

lemma seq_falls:
  fixes a b stop :: u64
  assumes "\<not> b \<le> stop" "a + 1 = b"
  shows "unat a < unat b"
proof -
  have "b \<noteq> 0" using assms(1) by auto
  moreover have "a = b - 1" using assms(2) by (simp add: eq_diff_eq)
  ultimately show ?thesis by (simp add: measure_unat)
qed

text \<open>The loop ends because the number of the record falls by one in each turn.\<close>

function walk_loop ::
    "eddsa option \<Rightarrow> cas_codec list \<Rightarrow> u64 \<Rightarrow> 'c vchain_fn \<Rightarrow> cas \<Rightarrow> cas_vrec \<Rightarrow> string \<Rightarrow> 'c \<Rightarrow> sign_rc option \<times> cas \<times> 'c" where
  "walk_loop backend table stop_seq fn s v addr c =
     (case fn c v addr of (halt, c1) \<Rightarrow>
        if halt then (Some (Cas_rc CAS_OK), s, c1)
        else if vr_seq v \<le> stop_seq \<or> vr_prev v = [] then (Some (Cas_rc CAS_OK), s, c1)
        else (case vchain_load backend table s (vr_prev v) of
                (None, s1) \<Rightarrow> (None, s1, c1)
              | (Some (Inl rc), s1) \<Rightarrow> (Some (if rc = Cas_rc CAS_ENOTFOUND then CAS_SIGN_EINCOMPLETE else rc), s1, c1)
              | (Some (Inr prev), s1) \<Rightarrow>
                  if vr_topic_id prev \<noteq> vr_topic_id v then (Some CAS_SIGN_ETOPIC, s1, c1)
                  else if vr_seq prev + 1 \<noteq> vr_seq v then (Some CAS_SIGN_ECHAIN, s1, c1)
                  else walk_loop backend table stop_seq fn s1 prev (vr_prev v) c1))"
  by pat_completeness auto

termination
  by (relation "measure (\<lambda>(backend, table, stop_seq, fn, s, v, addr, c). unat (vr_seq v))") (auto intro: seq_falls)

declare walk_loop.simps [simp del]

definition cas_vchain_walk ::
    "eddsa option \<Rightarrow> cas_codec list \<Rightarrow> u64 \<Rightarrow> 'c vchain_fn \<Rightarrow> cas \<Rightarrow> string \<Rightarrow> 'c \<Rightarrow> sign_rc option \<times> cas \<times> 'c" where
  "cas_vchain_walk backend table stop_seq fn s head_addr c =
     (case vchain_load backend table s head_addr of
        (None, s1) \<Rightarrow> (None, s1, c)
      | (Some (Inl rc), s1) \<Rightarrow> (Some rc, s1, c)
      | (Some (Inr v), s1) \<Rightarrow> walk_loop backend table stop_seq fn s1 v head_addr c)"

section \<open>Key files\<close>

definition CAS_SIGN_KEY_MAGIC :: string where "CAS_SIGN_KEY_MAGIC = ''smolvfs-secret-key-v1''"

text \<open>The file at the path of the key, with its permission bits, and the outcomes of the calls to come.\<close>

record key_disk =
  kd_file :: "(u32 \<times> byte list) option"
  kd_sys :: "bool list"

definition key_sys :: "key_disk \<Rightarrow> bool \<times> key_disk" where
  "key_sys d = (case kd_sys d of [] \<Rightarrow> (True, d) | b # bs \<Rightarrow> (b, d\<lparr>kd_sys := bs\<rparr>))"

definition key_unlink :: "key_disk \<Rightarrow> key_disk" where
  "key_unlink d = (let (ok, d1) = key_sys d in if ok then d1\<lparr>kd_file := None\<rparr> else d1)"

text \<open>What the entropy device delivers, or \<^const>\<open>None\<close> if it cannot be opened.\<close>

definition read_entropy :: "byte list option \<Rightarrow> nat \<Rightarrow> cas_rc + byte list" where
  "read_entropy device len =
     (case device of
        None \<Rightarrow> Inl CAS_EIO
      | Some bytes \<Rightarrow> if length (take len bytes) = len then Inr (take len bytes) else Inl CAS_EIO)"

definition key_text :: "string \<Rightarrow> string" where
  "key_text hex = CAS_SIGN_KEY_MAGIC @ [CHR 0x0A] @ hex @ [CHR 0x0A]"

text \<open>\<open>umask\<close> is that of the process; a write that fails or is short leaves \<open>torn\<close> bytes.\<close>

definition cas_sign_key_generate ::
    "eddsa option \<Rightarrow> byte list option \<Rightarrow> u32 \<Rightarrow> nat \<Rightarrow> key_disk \<Rightarrow> (sign_rc + byte list) \<times> key_disk" where
  "cas_sign_key_generate backend device umask torn d =
     (if \<not> cas_sign_available backend then (Inl CAS_SIGN_ENOBACKEND, d)
      else (case read_entropy device CAS_SIGN_SEED_LEN of
              Inl rc \<Rightarrow> (Inl (Cas_rc rc), d)
            | Inr seed \<Rightarrow>
                (case cas_sign_key_pair backend seed of
                   Inl rc \<Rightarrow> (Inl rc, d)
                 | Inr (sk, pk) \<Rightarrow>
                     let (opened, d1) = key_sys d in
                     if \<not> opened then (Inl (Cas_rc CAS_EIO), d1)
                     else if kd_file d1 \<noteq> None then (Inl CAS_SIGN_EKEYEXISTS, d1)
                     else
                       let mode = 0x180 AND NOT umask; text = key_text (cas_hex_encode seed);
                           d2 = d1\<lparr>kd_file := Some (mode, [])\<rparr> in
                       if length text \<ge> 128 then (Inl (Cas_rc CAS_ERR), key_unlink d2)
                       else
                         let (written, d3) = key_sys d2 in
                         if \<not> written then (Inl (Cas_rc CAS_EIO), key_unlink (d3\<lparr>kd_file := Some (mode, take torn (bytes_of text))\<rparr>))
                         else
                           let d4 = d3\<lparr>kd_file := Some (mode, bytes_of text)\<rparr>; (synced, d5) = key_sys d4 in
                           if \<not> synced then (Inl (Cas_rc CAS_EIO), key_unlink d5)
                           else
                             let (closed, d6) = key_sys d5 in
                             if \<not> closed then (Inl (Cas_rc CAS_EIO), key_unlink d6) else (Inr pk, d6))))"

text \<open>\<open>fgets\<close> with a buffer of \<open>k + 1\<close> bytes, and cutting a line at its end as \<open>strcspn\<close> finds it.\<close>

definition key_gets :: "nat \<Rightarrow> string \<times> key_disk \<Rightarrow> string option \<times> string \<times> key_disk" where
  "key_gets k x =
     (case x of (p, d) \<Rightarrow>
        let (ok, d1) = key_sys d; line = line_of k p in
        if \<not> ok \<or> p = [] then (None, p, d1) else (Some line, drop (length line) p, d1))"

definition cut_line :: "string \<Rightarrow> string" where
  "cut_line line = takeWhile (\<lambda>c. c \<noteq> CHR 0x0D \<and> c \<noteq> CHR 0x0A \<and> c \<noteq> CHR 0x00) line"

definition cas_sign_key_load :: "eddsa option \<Rightarrow> key_disk \<Rightarrow> (sign_rc + byte list \<times> byte list) \<times> key_disk" where
  "cas_sign_key_load backend d =
     (if \<not> cas_sign_available backend then (Inl CAS_SIGN_ENOBACKEND, d)
      else
        let (stated, d1) = key_sys d in
        (case (if stated then kd_file d1 else None) of
           None \<Rightarrow> (Inl (Cas_rc CAS_ENOTFOUND), d1)
         | Some (mode, data) \<Rightarrow>
             if mode AND 0x3F \<noteq> 0 then (Inl CAS_SIGN_EKEYPERM, d1)
             else
               let (opened, d2) = key_sys d1 in
               if \<not> opened then (Inl (Cas_rc CAS_ENOTFOUND), d2)
               else (case key_gets 63 (chars_of data, d2) of
                       (None, p, d3) \<Rightarrow> (Inl CAS_SIGN_EKEYFORM, d3)
                     | (Some magic, p, d3) \<Rightarrow>
                         if cut_line magic \<noteq> CAS_SIGN_KEY_MAGIC then (Inl CAS_SIGN_EKEYFORM, d3)
                         else (case key_gets 127 (p, d3) of
                                 (None, q, d4) \<Rightarrow> (Inl CAS_SIGN_EKEYFORM, d4)
                               | (Some hexline, q, d4) \<Rightarrow>
                                   let hex = cut_line hexline in
                                   if length hex \<noteq> CAS_HASH_HEX then (Inl CAS_SIGN_EKEYFORM, d4)
                                   else (case cas_hex_decode hex CAS_SIGN_SEED_LEN of
                                           None \<Rightarrow> (Inl CAS_SIGN_EKEYFORM, d4)
                                         | Some seed \<Rightarrow> (cas_sign_key_pair backend seed, d4))))))"

end
