(* ===== verification/SignLemmas.thy ===== *)
theory SignLemmas
  imports Sign RefHistory
begin

unbundle bit_operations_syntax

text \<open>
  The layout of a version record and what its verification establishes, the walk along a chain, and key files.
\<close>

section \<open>The layout of a record\<close>

lemma put_at_next: "put_at (length pre) f (pre @ replicate n 0) = (pre @ f) @ replicate (n - length f) 0"
  by (simp add: put_at_def)

text \<open>The bytes the signature covers, and the record.\<close>

definition vrec_signed :: "byte list \<Rightarrow> byte list \<Rightarrow> u64 \<Rightarrow> u64 \<Rightarrow> byte list \<Rightarrow> byte list \<Rightarrow> byte list" where
  "vrec_signed topic pk seq time root prev =
     VREC_MAGIC @ replicate 4 0 @ topic @ pk @ store_le64 seq @ store_le64 time @ root @ prev"

lemmas vrec_offsets = VREC_OFF_MAGIC_def VREC_OFF_RESERVED_def VREC_OFF_TOPIC_def VREC_OFF_PUBKEY_def VREC_OFF_SEQ_def
  VREC_OFF_TIME_def VREC_OFF_ROOT_def VREC_OFF_PREV_def VREC_OFF_SIG_def CAS_VREC_LEN_def CAS_VREC_SIGNED_LEN_def
  VREC_MAGIC_LEN_def CAS_SIGN_PUBKEY_LEN_def CAS_SIGN_SIG_LEN_def CAS_HASH_LEN_def

lemma length_vrec_magic: "length VREC_MAGIC = 4"
  by (simp add: VREC_MAGIC_def)

lemma length_topic_id [simp]: "length (cas_sign_topic_id pk) = CAS_HASH_LEN"
  by (simp add: cas_sign_topic_id_def)

lemma length_vrec_signed:
  assumes "length topic = 32" "length pk = 32" "length root = 32" "length prev = 32"
  shows "length (vrec_signed topic pk seq time root prev) = CAS_VREC_SIGNED_LEN"
  using assms by (simp add: vrec_signed_def length_vrec_magic CAS_VREC_SIGNED_LEN_def)

text \<open>An absent predecessor is 32 zero bytes.\<close>

definition prev_bytes :: "string \<Rightarrow> byte list option" where
  "prev_bytes prev = (if prev = [] then Some vrec_zero else cas_hex_decode prev CAS_HASH_LEN)"

lemma encode_layout:
  assumes "valid_hash (vr_root v)" "vr_prev v = [] \<or> valid_hash (vr_prev v)" "length (vr_pubkey v) = 32"
    "cas_hex_decode (vr_root v) CAS_HASH_LEN = Some root" "prev_bytes (vr_prev v) = Some prev"
    "\<And>msg. length (crypto_eddsa_sign lib sk msg) = 64"
  defines "topic \<equiv> cas_sign_topic_id (vr_pubkey v)"
  defines "body \<equiv> vrec_signed topic (vr_pubkey v) (vr_seq v) (vr_timestamp v) root prev"
  shows "cas_vrec_encode (Some lib) v sk = (Inr (body @ crypto_eddsa_sign lib sk body), v\<lparr>vr_topic_id := topic\<rparr>)"
proof -
  let ?z = "\<lambda>n. replicate n (0 :: byte)"
  have l: "length root = 32" using valid_hash_decodes [OF assms(1)] assms(4) by (auto simp: CAS_HASH_LEN_def)
  have lt: "length topic = 32" by (simp add: topic_def CAS_HASH_LEN_def)
  define p0 where "p0 = VREC_MAGIC @ ?z 4"
  define p1 where "p1 = p0 @ topic"
  define p2 where "p2 = p1 @ vr_pubkey v"
  define p3 where "p3 = p2 @ store_le64 (vr_seq v)"
  define p4 where "p4 = p3 @ store_le64 (vr_timestamp v)"
  define p5 where "p5 = p4 @ root"
  have len: "length p0 = 8" "length p1 = 40" "length p2 = 72" "length p3 = 80" "length p4 = 88" "length p5 = 120"
    using assms(3) l lt by (simp_all add: p0_def p1_def p2_def p3_def p4_def p5_def length_vrec_magic)
  have z: "?z (m + n) = ?z m @ ?z n" for m n by (rule replicate_add)
  have o1: "put_at VREC_OFF_MAGIC VREC_MAGIC (?z CAS_VREC_LEN) = p0 @ ?z 208"
    using put_at_next [of "[]" VREC_MAGIC 216] z [of 4 208] by (simp add: vrec_offsets length_vrec_magic p0_def)
  have o2: "put_at VREC_OFF_TOPIC topic (p0 @ ?z 208) = p1 @ ?z 176"
    using put_at_next [of p0 topic 208] len lt by (simp add: vrec_offsets p1_def)
  have o3: "put_at VREC_OFF_PUBKEY (vr_pubkey v) (p1 @ ?z 176) = p2 @ ?z 144"
    using put_at_next [of p1 "vr_pubkey v" 176] len assms(3) by (simp add: vrec_offsets p2_def)
  have o4: "put_at VREC_OFF_SEQ (store_le64 (vr_seq v)) (p2 @ ?z 144) = p3 @ ?z 136"
    using put_at_next [of p2 "store_le64 (vr_seq v)" 144] len by (simp add: vrec_offsets p3_def)
  have o5: "put_at VREC_OFF_TIME (store_le64 (vr_timestamp v)) (p3 @ ?z 136) = p4 @ ?z 128"
    using put_at_next [of p3 "store_le64 (vr_timestamp v)" 136] len by (simp add: vrec_offsets p4_def)
  have o6: "put_at VREC_OFF_ROOT root (p4 @ ?z 128) = p5 @ ?z 96"
    using put_at_next [of p4 root 128] len l by (simp add: vrec_offsets p5_def)
  obtain f where f: "(if vr_prev v = [] then Some [] else cas_hex_decode (vr_prev v) CAS_HASH_LEN) = Some f"
    "put_at VREC_OFF_PREV f (p5 @ ?z 96) = (p5 @ prev) @ ?z 64" "length prev = 32"
  proof (cases "vr_prev v = []")
    case True
    then have "prev = ?z 32" using assms(5) by (simp add: prev_bytes_def vrec_zero_def CAS_HASH_LEN_def)
    then show ?thesis using that [of "[]"] True len z [of 32 64] by (simp add: put_at_def vrec_offsets)
  next
    case False
    then have "cas_hex_decode (vr_prev v) CAS_HASH_LEN = Some prev" "length prev = 32"
      using assms(2,5) valid_hash_decodes [of "vr_prev v"] by (auto simp: prev_bytes_def CAS_HASH_LEN_def)
    then show ?thesis using that [of prev] False len put_at_next [of p5 prev 96] by (simp add: vrec_offsets)
  qed
  have sg: "body = p5 @ prev" by (simp add: body_def vrec_signed_def p5_def p4_def p3_def p2_def p1_def p0_def)
  have tk: "take CAS_VREC_SIGNED_LEN ((p5 @ prev) @ ?z 64) = body"
    using len f(3) by (simp add: sg vrec_offsets)
  have o7: "put_at VREC_OFF_SIG (crypto_eddsa_sign lib sk body) ((p5 @ prev) @ ?z 64) = body @ crypto_eddsa_sign lib sk body"
    using put_at_next [of "p5 @ prev" "crypto_eddsa_sign lib sk body" 64] len f(3) assms(6) by (simp add: sg vrec_offsets)
  note steps = cas_vrec_encode_def cas_valid_hash_def Let_def topic_def [symmetric] o1 o2 o3 o4 o5 o6 cas_sign_eddsa_sign_def
  show ?thesis
  proof (cases "vr_prev v = []")
    case True
    then have "f = []" using f(1) by simp
    then show ?thesis using assms(1,4) True f(2) tk o7 by (simp add: steps del: append_assoc)
  next
    case False
    then have "cas_hex_decode (vr_prev v) CAS_HASH_LEN = Some f" using f(1) by simp
    then show ?thesis using assms(1,2,4) False f(2) tk o7 by (simp add: steps del: append_assoc)
  qed
qed

lemma cut_front: "length buf = n \<Longrightarrow> k \<le> n \<Longrightarrow> (\<And>a b. buf = a @ b \<Longrightarrow> length a = k \<Longrightarrow> length b = n - k \<Longrightarrow> P) \<Longrightarrow> P"
  by (metis append_take_drop_id length_drop length_take min.absorb2)

text \<open>The pieces of a buffer with the length of a record, and what the reader takes from them.\<close>

lemma vrec_pieces:
  assumes "length buf = CAS_VREC_LEN"
  obtains mg res topic pk sq tm root prev sig where
    "buf = mg @ res @ topic @ pk @ sq @ tm @ root @ prev @ sig" "length mg = 4" "length res = 4" "length topic = 32" "length pk = 32"
    "length sq = 8" "length tm = 8" "length root = 32" "length prev = 32" "length sig = 64"
proof -
  have "length buf = 216" using assms by (simp add: CAS_VREC_LEN_def)
  then obtain mg b1 where 1: "buf = mg @ b1" "length mg = 4" "length b1 = 212" by (rule cut_front [of _ _ 4]) auto
  from 1(3) obtain res b2 where 2: "b1 = res @ b2" "length res = 4" "length b2 = 208" by (rule cut_front [of _ _ 4]) auto
  from 2(3) obtain topic b3 where 3: "b2 = topic @ b3" "length topic = 32" "length b3 = 176" by (rule cut_front [of _ _ 32]) auto
  from 3(3) obtain pk b4 where 4: "b3 = pk @ b4" "length pk = 32" "length b4 = 144" by (rule cut_front [of _ _ 32]) auto
  from 4(3) obtain sq b5 where 5: "b4 = sq @ b5" "length sq = 8" "length b5 = 136" by (rule cut_front [of _ _ 8]) auto
  from 5(3) obtain tm b6 where 6: "b5 = tm @ b6" "length tm = 8" "length b6 = 128" by (rule cut_front [of _ _ 8]) auto
  from 6(3) obtain root b7 where 7: "b6 = root @ b7" "length root = 32" "length b7 = 96" by (rule cut_front [of _ _ 32]) auto
  from 7(3) obtain prev sig where 8: "b7 = prev @ sig" "length prev = 32" "length sig = 64" by (rule cut_front [of _ _ 32]) auto
  show thesis by (rule that [of mg res topic pk sq tm root prev sig]) (use 1 2 3 4 5 6 7 8 in simp_all)
qed

lemma vrec_fields:
  assumes "length mg = 4" "length res = 4" "length topic = 32" "length pk = 32" "length sq = 8" "length tm = 8"
    "length root = 32" "length prev = 32" "length sig = 64"
  defines "buf \<equiv> mg @ res @ topic @ pk @ sq @ tm @ root @ prev @ sig"
  shows "length buf = CAS_VREC_LEN" "take VREC_MAGIC_LEN (drop VREC_OFF_MAGIC buf) = mg"
    "list_ex (\<lambda>i. buf ! (VREC_OFF_RESERVED + i) \<noteq> 0) [0..<4] \<longleftrightarrow> res \<noteq> replicate 4 0"
    "take CAS_HASH_LEN (drop VREC_OFF_TOPIC buf) = topic" "take CAS_SIGN_PUBKEY_LEN (drop VREC_OFF_PUBKEY buf) = pk"
    "load_le64 (drop VREC_OFF_SEQ buf) = load_le64 sq" "load_le64 (drop VREC_OFF_TIME buf) = load_le64 tm"
    "take CAS_HASH_LEN (drop VREC_OFF_ROOT buf) = root" "take CAS_HASH_LEN (drop VREC_OFF_PREV buf) = prev"
    "take CAS_SIGN_SIG_LEN (drop VREC_OFF_SIG buf) = sig"
    "take CAS_VREC_SIGNED_LEN buf = mg @ res @ topic @ pk @ sq @ tm @ root @ prev"
proof -
  note len = assms(1-9) and o = vrec_offsets buf_def
  show "length buf = CAS_VREC_LEN" "take VREC_MAGIC_LEN (drop VREC_OFF_MAGIC buf) = mg"
    "take CAS_HASH_LEN (drop VREC_OFF_TOPIC buf) = topic" "take CAS_SIGN_PUBKEY_LEN (drop VREC_OFF_PUBKEY buf) = pk"
    "take CAS_HASH_LEN (drop VREC_OFF_ROOT buf) = root" "take CAS_HASH_LEN (drop VREC_OFF_PREV buf) = prev"
    "take CAS_SIGN_SIG_LEN (drop VREC_OFF_SIG buf) = sig"
    "take CAS_VREC_SIGNED_LEN buf = mg @ res @ topic @ pk @ sq @ tm @ root @ prev"
    using len by (simp_all add: o)
  have "drop VREC_OFF_SEQ buf = sq @ tm @ root @ prev @ sig" "drop VREC_OFF_TIME buf = tm @ root @ prev @ sig"
    using len by (simp_all add: o)
  then show "load_le64 (drop VREC_OFF_SEQ buf) = load_le64 sq" "load_le64 (drop VREC_OFF_TIME buf) = load_le64 tm"
    using load_store_le(3) [of "load_le64 sq"] load_store_le(3) [of "load_le64 tm"] store_load_le(3) len(5,6) by metis+
  have "buf ! (VREC_OFF_RESERVED + i) = res ! i" if "i < 4" for i
    using len that by (simp add: o nth_append)
  then have "list_ex (\<lambda>i. buf ! (VREC_OFF_RESERVED + i) \<noteq> 0) [0..<4] \<longleftrightarrow> list_ex (\<lambda>i. res ! i \<noteq> 0) [0..<4]"
    by (auto simp: list_ex_iff)
  also have "\<dots> \<longleftrightarrow> res \<noteq> replicate 4 0"
    using len(2) by (auto simp: list_ex_iff list_eq_iff_nth_eq)
  finally show "list_ex (\<lambda>i. buf ! (VREC_OFF_RESERVED + i) \<noteq> 0) [0..<4] \<longleftrightarrow> res \<noteq> replicate 4 0" .
qed

text \<open>The record a layout stands for.\<close>

definition vrec_view :: "byte list \<Rightarrow> byte list \<Rightarrow> u64 \<Rightarrow> u64 \<Rightarrow> byte list \<Rightarrow> byte list \<Rightarrow> cas_vrec" where
  "vrec_view topic pk seq time root prev =
     \<lparr>vr_topic_id = topic, vr_pubkey = pk, vr_seq = seq, vr_timestamp = time, vr_root = cas_hex_encode root,
      vr_prev = (if prev = vrec_zero then [] else cas_hex_encode prev)\<rparr>"

lemma decode_layout:
  assumes "length pk = 32" "length root = 32" "length prev = 32" "length sig = 64"
  shows "cas_vrec_decode (Some lib) (vrec_signed (cas_sign_topic_id pk) pk seq time root prev @ sig) =
    (if crypto_eddsa_check lib sig pk (vrec_signed (cas_sign_topic_id pk) pk seq time root prev) = 0
     then Inr (vrec_view (cas_sign_topic_id pk) pk seq time root prev) else Inl CAS_SIGN_EBADSIG)"
proof -
  have "length (cas_sign_topic_id pk) = 32" by (simp add: CAS_HASH_LEN_def)
  note f = vrec_fields [of VREC_MAGIC "replicate 4 0" "cas_sign_topic_id pk" pk "store_le64 seq" "store_le64 time" root prev sig,
    OF length_vrec_magic _ this assms(1) _ _ assms(2-4), simplified]
  show ?thesis
    by (simp add: cas_vrec_decode_def vrec_signed_def f Let_def vrec_view_def cas_sign_eddsa_check_def)
qed

lemma decode_verified:
  assumes "cas_vrec_decode backend buf = Inr v"
  obtains lib root prev sig where "backend = Some lib"
    "buf = vrec_signed (vr_topic_id v) (vr_pubkey v) (vr_seq v) (vr_timestamp v) root prev @ sig"
    "v = vrec_view (cas_sign_topic_id (vr_pubkey v)) (vr_pubkey v) (vr_seq v) (vr_timestamp v) root prev"
    "length (vr_pubkey v) = 32" "length root = 32" "length prev = 32" "length sig = 64"
    "crypto_eddsa_check lib sig (vr_pubkey v) (take CAS_VREC_SIGNED_LEN buf) = 0"
proof -
  obtain lib where b: "backend = Some lib" using assms by (auto simp: cas_vrec_decode_def Let_def split: if_splits option.splits)
  have "length buf = CAS_VREC_LEN" using assms by (simp add: cas_vrec_decode_def split: if_splits)
  then obtain mg res topic pk sq tm root prev sig where p:
    "buf = mg @ res @ topic @ pk @ sq @ tm @ root @ prev @ sig" "length mg = 4" "length res = 4" "length topic = 32" "length pk = 32"
    "length sq = 8" "length tm = 8" "length root = 32" "length prev = 32" "length sig = 64" by (rule vrec_pieces)
  note f = vrec_fields [OF p(2-10), folded p(1)]
  have d: "mg = VREC_MAGIC" "res = replicate 4 0" "cas_sign_topic_id pk = topic"
    "v = vrec_view topic pk (load_le64 sq) (load_le64 tm) root prev" "crypto_eddsa_check lib sig pk (take CAS_VREC_SIGNED_LEN buf) = 0"
    using assms b by (auto simp: cas_vrec_decode_def f(1-10) Let_def vrec_view_def cas_sign_eddsa_check_def split: if_splits)
  have "store_le64 (load_le64 sq) = sq" "store_le64 (load_le64 tm) = tm" using p(6,7) store_load_le(3) by simp_all
  then have "buf = vrec_signed (vr_topic_id v) (vr_pubkey v) (vr_seq v) (vr_timestamp v) root prev @ sig"
    using d p(1) by (simp add: vrec_signed_def vrec_view_def)
  with b d p show thesis by (intro that [of lib root prev sig]) (simp_all add: vrec_view_def)
qed

section \<open>Chains\<close>

text \<open>A record that verifies, stored under an address.\<close>

definition recorded :: "eddsa option \<Rightarrow> cas_codec list \<Rightarrow> cas \<Rightarrow> cas_vrec \<Rightarrow> string \<Rightarrow> bool" where
  "recorded backend table s v addr \<longleftrightarrow>
     (\<exists>d. get_object table s addr = Some (CAS_VREC_TYPE, d) \<and> cas_vrec_decode backend d = Inr v)"

lemma decode_codes:
  "cas_vrec_decode backend d = Inl rc \<Longrightarrow> rc \<in> {CAS_SIGN_ENOBACKEND, CAS_SIGN_EBADFORM, CAS_SIGN_EBADBIND, CAS_SIGN_EBADSIG}"
  by (auto simp: cas_vrec_decode_def Let_def split: option.splits if_splits)

lemma vchain_load_spec:
  assumes "codec_ok table" "pack_ok s" "vchain_load backend table s addr = (r, s1)"
  shows "r \<noteq> None" "same_disk s s1" "r = Some (Inr v) \<Longrightarrow> recorded backend table s v addr"
    "s_sys s = [] \<Longrightarrow> s1 = s" "s_sys s = [] \<Longrightarrow> r = Some (Inl (Cas_rc CAS_ENOTFOUND)) \<Longrightarrow> get_object table s addr = None"
proof -
  obtain o1 s2 where o: "cas_open_object table s addr (Some (CAS_TYPE_MAX + 1)) = (o1, s2)" by fastforce
  note snd1 = open_object_sound [OF assms(1,2) o]
  have s: "s1 = s2" using assms(3) o by (auto simp: vchain_load_def split: option.splits sum.splits prod.splits if_splits)
  show "r \<noteq> None" "same_disk s s1"
    using assms(3) o snd1(1,2) s by (auto simp: vchain_load_def split: option.splits sum.splits prod.splits if_splits)
  show "recorded backend table s v addr" if "r = Some (Inr v)"
    using assms(3) o snd1(3) that by (auto simp: vchain_load_def recorded_def split: option.splits sum.splits prod.splits if_splits)
  show "s1 = s" if "s_sys s = []" using open_object_quiet [OF that, of table addr "Some (CAS_TYPE_MAX + 1)"] o s by simp
  show "get_object table s addr = None" if "s_sys s = []" "r = Some (Inl (Cas_rc CAS_ENOTFOUND))"
  proof (rule ccontr)
    assume "get_object table s addr \<noteq> None"
    then obtain x where "get_object table s addr = Some x" by blast
    then have "o1 = Some (Inr x)" using open_object_quiet_get [OF that(1), of table addr x] o by simp
    then show False using assms(3) o that(2) decode_codes [of backend "snd x"]
      by (cases x) (auto simp: vchain_load_def split: if_splits)
  qed
qed

lemma vchain_load_codes:
  assumes "codec_ok table" "pack_ok s" "vchain_load backend table s addr = (Some (Inl rc), s1)"
  shows "rc \<noteq> Cas_rc CAS_OK" "rc \<noteq> CAS_SIGN_EINCOMPLETE"
proof -
  obtain o1 s2 where o: "cas_open_object table s addr (Some (CAS_TYPE_MAX + 1)) = (o1, s2)" by fastforce
  have "o1 \<noteq> Some (Inl CAS_OK)" using open_object_sound(4) [OF assms(1,2) o] .
  with assms(3) o have "rc \<noteq> Cas_rc CAS_OK \<and> rc \<noteq> CAS_SIGN_EINCOMPLETE"
    by (auto simp: vchain_load_def split: option.splits sum.splits prod.splits if_splits dest!: decode_codes)
  then show "rc \<noteq> Cas_rc CAS_OK" "rc \<noteq> CAS_SIGN_EINCOMPLETE" by simp_all
qed

text \<open>The order of the records along a chain, and what a visitor sees of it.\<close>

fun linked :: "(cas_vrec \<times> string) list \<Rightarrow> bool" where
  "linked (x # y # r) \<longleftrightarrow> vr_prev (fst x) = snd y \<and> vr_prev (fst x) \<noteq> [] \<and> vr_topic_id (fst y) = vr_topic_id (fst x) \<and>
     vr_seq (fst y) + 1 = vr_seq (fst x) \<and> linked (y # r)"
| "linked _ \<longleftrightarrow> True"

text \<open>All of the records are passed to the function in order, which may stop only at the last one.\<close>

fun visit_chain :: "'c vchain_fn \<Rightarrow> (cas_vrec \<times> string) list \<Rightarrow> 'c \<Rightarrow> (bool \<times> 'c) option" where
  "visit_chain fn [] c = Some (False, c)"
| "visit_chain fn (x # xs) c =
     (case fn c (fst x) (snd x) of (halt, c1) \<Rightarrow>
        if halt then (if xs = [] then Some (True, c1) else None) else visit_chain fn xs c1)"

definition walked ::
    "eddsa option \<Rightarrow> cas_codec list \<Rightarrow> u64 \<Rightarrow> cas \<Rightarrow> sign_rc \<Rightarrow> bool \<Rightarrow> (cas_vrec \<times> string) list \<Rightarrow> bool" where
  "walked backend table stop_seq s rc halt vs \<longleftrightarrow> linked vs \<and> (\<forall>(v, a) \<in> set (tl vs). recorded backend table s v a) \<and>
     (rc = Cas_rc CAS_OK \<longrightarrow> halt \<or> vr_seq (fst (last vs)) \<le> stop_seq \<or> vr_prev (fst (last vs)) = []) \<and>
     (s_sys s = [] \<longrightarrow> rc = CAS_SIGN_EINCOMPLETE \<longrightarrow> get_object table s (vr_prev (fst (last vs))) = None)"

lemma walked_step:
  assumes "walked backend table stop_seq s1 rc halt ((p, vr_prev v) # vs)" "same_disk s s1" "s_sys s = [] \<Longrightarrow> s1 = s"
    "recorded backend table s p (vr_prev v)" "vr_topic_id p = vr_topic_id v" "vr_seq p + 1 = vr_seq v" "vr_prev v \<noteq> []"
  shows "walked backend table stop_seq s rc halt ((v, a) # (p, vr_prev v) # vs)"
proof -
  have "recorded backend table s1 = recorded backend table s"
    using same_disk_get(1) [OF assms(2), of table] by (simp add: recorded_def fun_eq_iff)
  with assms show ?thesis by (auto simp: walked_def)
qed

lemma walk_loop_spec:
  assumes "codec_ok table" "pack_ok s" "walk_loop backend table stop_seq fn s v addr c = (r, s', c')"
  shows "\<exists>rc halt vs. r = Some rc \<and> same_disk s s' \<and> visit_chain fn ((v, addr) # vs) c = Some (halt, c') \<and>
    walked backend table stop_seq s rc halt ((v, addr) # vs)"
  using assms(2-)
proof (induction "unat (vr_seq v)" arbitrary: s v addr c rule: less_induct)
  case less
  obtain halt c1 where f: "fn c v addr = (halt, c1)" by fastforce
  note run = less.prems(2) [unfolded walk_loop.simps [of _ _ _ _ s] f prod.case]
  show ?case
  proof (cases "halt \<or> vr_seq v \<le> stop_seq \<or> vr_prev v = []")
    case True
    then have "r = Some (Cas_rc CAS_OK)" "s' = s" "c' = c1" using run by (auto split: if_splits)
    with True f show ?thesis
      by (intro exI [of _ "Cas_rc CAS_OK"] exI [of _ halt] exI [of _ "[]"]) (simp add: walked_def same_disk_refl)
  next
    case False
    obtain l s1 where load: "vchain_load backend table s (vr_prev v) = (l, s1)" by fastforce
    note ls = vchain_load_spec [OF assms(1) less.prems(1) load]
    have stop: "walked backend table stop_seq s rc False [(v, addr)]"
      if "rc \<noteq> Cas_rc CAS_OK" "rc = CAS_SIGN_EINCOMPLETE \<longrightarrow> l = Some (Inl (Cas_rc CAS_ENOTFOUND))" for rc
      using that ls(5) by (simp add: walked_def)
    show ?thesis
    proof (cases "\<exists>p. l = Some (Inr p) \<and> vr_topic_id p = vr_topic_id v \<and> vr_seq p + 1 = vr_seq v")
      case no: False
      obtain x where x: "l = Some x" using ls(1) by blast
      define rc where "rc = (case x of Inl e \<Rightarrow> if e = Cas_rc CAS_ENOTFOUND then CAS_SIGN_EINCOMPLETE else e
        | Inr p \<Rightarrow> if vr_topic_id p \<noteq> vr_topic_id v then CAS_SIGN_ETOPIC else CAS_SIGN_ECHAIN)"
      have "r = Some rc" "s' = s1" "c' = c1"
        using run False load x no by (auto simp: rc_def split: sum.splits if_splits)
      moreover have "rc \<noteq> Cas_rc CAS_OK" "rc = CAS_SIGN_EINCOMPLETE \<longrightarrow> l = Some (Inl (Cas_rc CAS_ENOTFOUND))"
      proof -
        have "e \<noteq> Cas_rc CAS_OK \<and> e \<noteq> CAS_SIGN_EINCOMPLETE" if "x = Inl e" for e
          using vchain_load_codes [OF assms(1) less.prems(1), of backend "vr_prev v" e s1] load x that by simp
        then show "rc \<noteq> Cas_rc CAS_OK" "rc = CAS_SIGN_EINCOMPLETE \<longrightarrow> l = Some (Inl (Cas_rc CAS_ENOTFOUND))"
          using x by (auto simp: rc_def split: sum.splits if_splits)
      qed
      ultimately show ?thesis using stop ls(2) False f
        by (intro exI [of _ rc] exI [of _ False] exI [of _ "[]"]) simp
    next
      case yes: True
      then obtain p where p: "l = Some (Inr p)" "vr_topic_id p = vr_topic_id v" "vr_seq p + 1 = vr_seq v" by blast
      have go: "walk_loop backend table stop_seq fn s1 p (vr_prev v) c1 = (r, s', c')" using run False load p by simp
      have "unat (vr_seq p) < unat (vr_seq v)" using seq_falls [of "vr_seq v" stop_seq "vr_seq p"] False p(3) by blast
      moreover have "pack_ok s1" using same_disk_get(2) [OF ls(2)] less.prems(1) by simp
      ultimately obtain rc h vs where ih: "r = Some rc" "same_disk s1 s'" "visit_chain fn ((p, vr_prev v) # vs) c1 = Some (h, c')"
        "walked backend table stop_seq s1 rc h ((p, vr_prev v) # vs)" using less.hyps [OF _ _ go] by blast
      have "walked backend table stop_seq s rc h ((v, addr) # (p, vr_prev v) # vs)"
        using walked_step [OF ih(4) ls(2,4) _ p(2,3)] ls(3) p(1) False by simp
      with ih False f same_disk_trans [OF ls(2)] show ?thesis
        by (intro exI [of _ rc] exI [of _ h] exI [of _ "(p, vr_prev v) # vs"]) simp
    qed
  qed
qed

section \<open>Key files\<close>

lemma cut_line_text: "set l \<inter> {CHR 0x0D, CHR 0x0A, CHR 0x00} = {} \<Longrightarrow> cut_line (l @ CHR 0x0A # r) = l"
  unfolding cut_line_def by (subst takeWhile_append2) auto

lemma hex_plain: "set (cas_hex_encode bs) \<inter> {CHR 0x0D, CHR 0x0A, CHR 0x00} = {}"
proof -
  have "between CHR ''0'' CHR ''9'' c \<or> between CHR ''a'' CHR ''f'' c" if "c \<in> set (cas_hex_encode bs)" for c
    using that to_hex_chars by (auto simp: cas_hex_encode_def)
  moreover have "\<forall>c \<in> set [CHR 0x0D, CHR 0x0A, CHR 0x00]. \<not> (between CHR ''0'' CHR ''9'' c \<or> between CHR ''a'' CHR ''f'' c)"
    by code_simp
  ultimately show ?thesis by auto
qed

lemma key_generate_spec:
  assumes "cas_sign_key_generate backend device umask torn d = (r, d')"
  shows "kd_file d \<noteq> None \<Longrightarrow> kd_file d' = kd_file d \<and> (\<exists>rc. r = Inl rc)"
    "r = Inr pk \<Longrightarrow> \<exists>lib seed sk. backend = Some lib \<and> length seed = CAS_SIGN_SEED_LEN \<and> crypto_eddsa_key_pair lib seed = (sk, pk) \<and>
      kd_file d = None \<and> kd_file d' = Some (0x180 AND NOT umask, bytes_of (key_text (cas_hex_encode seed)))"
    "kd_file d' \<noteq> kd_file d \<Longrightarrow> \<exists>mode data. kd_file d' = Some (mode, data) \<and> mode AND 0x3F = 0"
proof -
  have m: "(0x180 AND NOT umask) AND 0x3F = 0"
  proof -
    have "(0x180 :: u32) AND 0x3F = 0" by simp
    then show ?thesis by (metis and.assoc and.commute and_zero_eq)
  qed
  show old: "kd_file d' = kd_file d \<and> (\<exists>rc. r = Inl rc)" if "kd_file d \<noteq> None"
    using assms that by (auto simp: cas_sign_key_generate_def key_sys_def Let_def split: if_splits sum.splits prod.splits list.splits)
  show "\<exists>lib seed sk. backend = Some lib \<and> length seed = CAS_SIGN_SEED_LEN \<and> crypto_eddsa_key_pair lib seed = (sk, pk) \<and>
      kd_file d = None \<and> kd_file d' = Some (0x180 AND NOT umask, bytes_of (key_text (cas_hex_encode seed)))" if "r = Inr pk"
  proof -
    let ?seed = "take CAS_SIGN_SEED_LEN (the device)"
    have n: "kd_file d = None" using old that by (cases "kd_file d") auto
    have "\<exists>lib sk. backend = Some lib \<and> length ?seed = CAS_SIGN_SEED_LEN \<and> crypto_eddsa_key_pair lib ?seed = (sk, pk) \<and>
        kd_file d = None \<and> kd_file d' = Some (0x180 AND NOT umask, bytes_of (key_text (cas_hex_encode ?seed)))"
      using assms that n
      by (auto simp: cas_sign_key_generate_def cas_sign_available_def read_entropy_def cas_sign_key_pair_def cas_sign_eddsa_key_pair_def
          key_sys_def Let_def split: if_splits sum.splits prod.splits list.splits option.splits)
    then show ?thesis by blast
  qed
  show "\<exists>mode data. kd_file d' = Some (mode, data) \<and> mode AND 0x3F = 0" if ch: "kd_file d' \<noteq> kd_file d"
  proof -
    have n: "kd_file d = None" using old ch by (cases "kd_file d") auto
    then have "kd_file d' = None \<or> (\<exists>mode data. kd_file d' = Some (mode, data) \<and> mode AND 0x3F = 0)"
      using assms m
      by (auto simp: cas_sign_key_generate_def key_sys_def key_unlink_def Let_def split: if_splits sum.splits prod.splits list.splits option.splits)
    with n ch show ?thesis by auto
  qed
qed

lemma key_load_text:
  assumes "kd_sys d = []" "kd_file d = Some (mode, bytes_of (key_text (cas_hex_encode seed)))" "mode AND 0x3F = 0"
    "length seed = CAS_SIGN_SEED_LEN"
  shows "cas_sign_key_load (Some lib) d = (Inr (crypto_eddsa_key_pair lib seed), d)"
proof -
  let ?hex = "cas_hex_encode seed"
  have q: "key_sys d = (True, d)" using assms(1) by (simp add: key_sys_def)
  have lh: "length ?hex = 64" using assms(4) by (simp add: cas_hex_encode_def CAS_SIGN_SEED_LEN_def)
  have magic: "set CAS_SIGN_KEY_MAGIC \<inter> {CHR 0x0D, CHR 0x0A, CHR 0x00} = {}" "length CAS_SIGN_KEY_MAGIC = 21"
    by (simp_all add: CAS_SIGN_KEY_MAGIC_def)
  have t: "key_text ?hex = CAS_SIGN_KEY_MAGIC @ CHR 0x0A # ?hex @ [CHR 0x0A]" by (simp add: key_text_def)
  have g1: "key_gets 63 (key_text ?hex, d) = (Some (CAS_SIGN_KEY_MAGIC @ [CHR 0x0A]), ?hex @ [CHR 0x0A], d)"
    using magic by (simp add: key_gets_def q t line_of_line)
  have g2: "key_gets 127 (?hex @ [CHR 0x0A], d) = (Some (?hex @ [CHR 0x0A]), [], d)"
    using line_of_line [of ?hex 127 "[]"] hex_plain [of seed] lh by (simp add: key_gets_def q)
  have c: "cut_line (CAS_SIGN_KEY_MAGIC @ [CHR 0x0A]) = CAS_SIGN_KEY_MAGIC" "cut_line (?hex @ [CHR 0x0A]) = ?hex"
    using cut_line_text magic(1) hex_plain by simp_all
  have "cas_hex_decode ?hex CAS_SIGN_SEED_LEN = Some seed" using hex_decode_encode assms(4) by simp
  then show ?thesis
    using assms(2,3) lh by (simp add: cas_sign_key_load_def cas_sign_available_def q g1 g2 c cas_sign_key_pair_def
        cas_sign_eddsa_key_pair_def CAS_HASH_HEX_def)
qed

end
