(* ===== verification/Topic.thy ===== *)
theory Topic
  imports SignLemmas RefProgress
begin

text \<open>
  Topics, \<open>cas-topic.c\<close>: a reference whose root is the address of the newest version record of a publisher. Each
  resolution of a topic goes through the verification of its head, and a record is published only if it may succeed the
  head. The outcomes of system calls are taken from the store as below.
\<close>

section \<open>Names\<close>

definition CAS_TOPIC_LABEL_MAX :: nat where "CAS_TOPIC_LABEL_MAX = 64"

definition label_ok :: "string \<Rightarrow> bool" where
  "label_ok label =
     (if length label = 0 \<or> length label > CAS_TOPIC_LABEL_MAX then False
      else if hd label = CHR ''.'' \<or> hd label = CHR ''-'' then False
      else list_all (\<lambda>c. between CHR ''A'' CHR ''Z'' c \<or> between CHR ''a'' CHR ''z'' c \<or> between CHR ''0'' CHR ''9'' c \<or>
        c = CHR ''.'' \<or> c = CHR ''_'' \<or> c = CHR ''-'') label)"

definition cas_topic_ref_name :: "nat \<Rightarrow> byte list \<Rightarrow> string option \<Rightarrow> cas_rc + string" where
  "cas_topic_ref_name outsz topic_id label =
     (let hex = cas_hex_encode topic_id in
      (case label of
         None \<Rightarrow> if length hex \<ge> outsz then Inl CAS_ERR else Inr hex
       | Some l \<Rightarrow>
           if l = [] then (if length hex \<ge> outsz then Inl CAS_ERR else Inr hex)
           else if \<not> label_ok l then Inl CAS_ERR
           else if length (hex @ ''-'' @ l) \<ge> outsz then Inl CAS_ERR else Inr (hex @ ''-'' @ l)))"

section \<open>Heads\<close>

definition load_record :: "eddsa option \<Rightarrow> cas_codec list \<Rightarrow> cas_tree \<Rightarrow> string \<Rightarrow> (sign_rc + cas_vrec) option \<times> cas_tree" where
  "load_record backend table ct addr =
     (case cas_open_object table (ct_store ct) addr (Some (CAS_TYPE_MAX + 1)) of
        (None, s) \<Rightarrow> (None, ct\<lparr>ct_store := s\<rparr>)
      | (Some (Inl rc), s) \<Rightarrow> (Some (Inl (Cas_rc rc)), ct\<lparr>ct_store := s\<rparr>)
      | (Some (Inr (type, data)), s) \<Rightarrow>
          if type \<noteq> CAS_VREC_TYPE then (Some (Inl (Cas_rc CAS_ETYPE)), ct\<lparr>ct_store := s\<rparr>)
          else (Some (cas_vrec_decode backend data), ct\<lparr>ct_store := s\<rparr>))"

definition cas_topic_head ::
    "eddsa option \<Rightarrow> cas_codec list \<Rightarrow> cas_tree \<Rightarrow> string \<Rightarrow> (sign_rc + cas_vrec \<times> string) option \<times> cas_tree" where
  "cas_topic_head backend table ct refname =
     (case cas_tree_ref_read ct refname of
        (Inl rc, ct1) \<Rightarrow> (Some (Inl (Cas_rc rc)), ct1)
      | (Inr addr, ct1) \<Rightarrow>
          (case load_record backend table ct1 addr of
             (None, ct2) \<Rightarrow> (None, ct2)
           | (Some (Inl rc), ct2) \<Rightarrow> (Some (Inl rc), ct2)
           | (Some (Inr v), ct2) \<Rightarrow> (Some (Inr (v, addr)), ct2)))"

section \<open>Publishing\<close>

text \<open>
  The clock and the bytes a torn write leaves are those of the commit of the reference. The check of a raw object, unlike
  that of a directory, allocates nothing, so that its outcomes of allocations do not matter.
\<close>

definition cas_topic_publish ::
    "eddsa option \<Rightarrow> cas_codec list \<Rightarrow> nat \<Rightarrow> u64 \<Rightarrow> u32 \<Rightarrow> cas_tree \<Rightarrow> string \<Rightarrow> byte list \<Rightarrow> string option \<Rightarrow> sign_rc option \<times> cas_tree" where
  "cas_topic_publish backend table torn sec nsec ct refname rec note =
     (case cas_vrec_decode backend rec of
        Inl rc \<Rightarrow> (Some rc, ct)
      | Inr cand \<Rightarrow>
          (case cas_topic_head backend table ct refname of
             (None, ct1) \<Rightarrow> (None, ct1)
           | (Some head, ct1) \<Rightarrow>
               (case (case head of
                        Inr (cur, cur_addr) \<Rightarrow> Inr (Some cur, Some cur_addr)
                      | Inl rc \<Rightarrow> if rc \<noteq> Cas_rc CAS_ENOTFOUND then Inl rc else Inr (None, None)) of
                  Inl rc \<Rightarrow> (Some rc, ct1)
                | Inr (cur, cur_addr) \<Rightarrow>
                    let rc = cas_vrec_succeeds cur cur_addr cand in
                    if rc \<noteq> Cas_rc CAS_OK then (Some rc, ct1)
                    else (case cas_vrec_address rec of
                            None \<Rightarrow> (Some (Cas_rc CAS_ERR), ct1)
                          | Some addr \<Rightarrow>
                              (case cas_tree_put_checked [] True True [] ct1 CAS_VREC_TYPE rec addr of
                                 (None, ct2) \<Rightarrow> (None, ct2)
                               | (Some prc, ct2) \<Rightarrow>
                                   if prc \<noteq> CAS_OK then (Some (Cas_rc prc), ct2)
                                   else (case cas_tree_ref_commit torn sec nsec ct2 refname addr note of
                                           (crc, ct3) \<Rightarrow> (Some (Cas_rc crc), ct3)))))))"

section \<open>Reading heads\<close>

lemma ref_read_same:
  assumes "cas_tree_ref_read ct name = (r, ct1)"
  shows "same_disk (ct_store ct) (ct_store ct1)" "ct1 = ct\<lparr>ct_store := ct_store ct1\<rparr>" "quiet ct \<Longrightarrow> ct1 = ct"
  using assms sys_call_same [of "ct_store ct"] sys_call_same same_disk_trans
  by (auto simp: cas_tree_ref_read_def Let_def same_disk_refl quiet_def split: option.splits prod.splits if_splits) blast+

lemma load_record_chain:
  "load_record backend table ct addr = (case vchain_load backend table (ct_store ct) addr of (r, s) \<Rightarrow> (r, ct\<lparr>ct_store := s\<rparr>))"
  by (auto simp: load_record_def vchain_load_def split: option.splits sum.splits prod.splits)

lemma topic_head_spec:
  assumes "codec_ok table" "pack_ok (ct_store ct)" "cas_topic_head backend table ct refname = (r, ct1)"
  shows "r \<noteq> None" "same_disk (ct_store ct) (ct_store ct1)"
    "r = Some (Inr (v, a)) \<Longrightarrow> recorded backend table (ct_store ct) v a \<and> fst (cas_tree_ref_read ct refname) = Inr a" "quiet ct \<Longrightarrow> ct1 = ct"
proof -
  obtain rr ct2 where rd: "cas_tree_ref_read ct refname = (rr, ct2)" by fastforce
  note rs = ref_read_same [OF rd]
  have "r \<noteq> None \<and> same_disk (ct_store ct) (ct_store ct1) \<and>
    (r = Some (Inr (v, a)) \<longrightarrow> recorded backend table (ct_store ct) v a \<and> fst (cas_tree_ref_read ct refname) = Inr a) \<and> (quiet ct \<longrightarrow> ct1 = ct)"
  proof (cases rr)
    case (Inl rc)
    with assms(3) rd rs show ?thesis by (auto simp: cas_topic_head_def)
  next
    case (Inr addr)
    obtain l s where load: "vchain_load backend table (ct_store ct2) addr = (l, s)" by fastforce
    have pk: "pack_ok (ct_store ct2)" using same_disk_get(2) [OF rs(1)] assms(2) by simp
    note ls = vchain_load_spec [OF assms(1) pk load]
    have "recorded backend table (ct_store ct2) = recorded backend table (ct_store ct)"
      using same_disk_get(1) [OF rs(1), of table] by (simp add: recorded_def fun_eq_iff)
    moreover have ct1: "ct1 = ct2\<lparr>ct_store := s\<rparr>" "r = map_option (\<lambda>x. case x of Inl rc \<Rightarrow> Inl rc | Inr v \<Rightarrow> Inr (v, addr)) l"
      using assms(3) rd Inr load by (auto simp: cas_topic_head_def load_record_chain split: option.splits sum.splits)
    moreover have "quiet ct \<longrightarrow> ct1 = ct" using rs(3) ls(4) ct1(1) by (auto simp: quiet_def)
    moreover obtain x where x: "l = Some x" using ls(1) by blast
    moreover have "same_disk (ct_store ct) s" using same_disk_trans [OF rs(1) ls(2)] .
    ultimately show ?thesis using ls(3) rd Inr by (cases x) auto
  qed
  then show "r \<noteq> None" "same_disk (ct_store ct) (ct_store ct1)"
    "r = Some (Inr (v, a)) \<Longrightarrow> recorded backend table (ct_store ct) v a \<and> fst (cas_tree_ref_read ct refname) = Inr a" "quiet ct \<Longrightarrow> ct1 = ct"
    by simp_all
qed

lemma topic_head_not_ok:
  assumes "codec_ok table" "pack_ok (ct_store ct)"
  shows "cas_topic_head backend table ct refname \<noteq> (Some (Inl (Cas_rc CAS_OK)), ct1)"
proof
  assume run: "cas_topic_head backend table ct refname = (Some (Inl (Cas_rc CAS_OK)), ct1)"
  obtain rr ct2 where rd: "cas_tree_ref_read ct refname = (rr, ct2)" by fastforce
  have "rr \<noteq> Inl CAS_OK" using rd by (auto simp: cas_tree_ref_read_def Let_def split: option.splits prod.splits if_splits)
  with run rd obtain addr s where "vchain_load backend table (ct_store ct2) addr = (Some (Inl (Cas_rc CAS_OK)), s)"
    by (auto simp: cas_topic_head_def load_record_chain split: sum.splits option.splits prod.splits)
  moreover have "pack_ok (ct_store ct2)" using same_disk_get(2) [OF ref_read_same(1) [OF rd]] assms(2) by simp
  ultimately show False using vchain_load_codes(1) [OF assms(1)] by blast
qed

section \<open>The succession\<close>

lemma succeeds_ok:
  "cas_vrec_succeeds (Some cur) (Some a) cand = Cas_rc CAS_OK \<longleftrightarrow>
    vr_topic_id cand = vr_topic_id cur \<and> unat (vr_seq cand) = unat (vr_seq cur) + 1 \<and> vr_prev cand = a"
proof -
  have "vr_seq cand = vr_seq cur + 1 \<and> \<not> vr_seq cand < vr_seq cur \<and> vr_seq cand \<noteq> vr_seq cur \<longleftrightarrow> unat (vr_seq cand) = unat (vr_seq cur) + 1"
  proof
    assume n: "unat (vr_seq cand) = unat (vr_seq cur) + 1"
    have "vr_seq cand = of_nat (unat (vr_seq cand))" by simp
    also have "\<dots> = vr_seq cur + 1" unfolding n by simp
    finally have "vr_seq cand = vr_seq cur + 1" .
    then show "vr_seq cand = vr_seq cur + 1 \<and> \<not> vr_seq cand < vr_seq cur \<and> vr_seq cand \<noteq> vr_seq cur"
      using n by (auto simp: word_less_nat_alt)
  next
    assume a: "vr_seq cand = vr_seq cur + 1 \<and> \<not> vr_seq cand < vr_seq cur \<and> vr_seq cand \<noteq> vr_seq cur"
    then have "vr_seq cur + 1 \<noteq> 0" by (metis word_gt_0 word_neq_0_conv word_less_nat_alt unat_0 not_gr_zero)
    with a show "unat (vr_seq cand) = unat (vr_seq cur) + 1" by (simp add: unatSuc add.commute)
  qed
  then show ?thesis by (auto simp: cas_vrec_succeeds_def split: if_splits)
qed

lemma raw_check: "cas_tree_check_object mem mem1 mem2 junk CAS_VREC_TYPE d h = Some CAS_OK \<longleftrightarrow> cas_hash_object CAS_VREC_TYPE d = Some h"
  by (simp add: cas_tree_check_object_def CAS_VREC_TYPE_def)

lemma vrec_storable: "length rec = CAS_VREC_LEN \<Longrightarrow> storable CAS_VREC_TYPE rec"
  by (simp add: storable_def type_ok_def CAS_TYPE_MAX_def CAS_VREC_TYPE_def CAS_VREC_LEN_def CAS_PACK_BLOCK_def MAX_FILE_def)

section \<open>Publishing\<close>

text \<open>A record is stored under its address, or not; no reference changes.\<close>

lemma put_at_keeps_refs:
  assumes "pack_ok s" "cas_put_object_at s t d h = (ro, s')"
  shows "ro \<noteq> None" "s_basedir s' = s_basedir s" "root_of s' name = root_of s name" "log_of s' name = log_of s name"
proof -
  have al: "already_stored s path h \<noteq> None" for path
    using pack_exists_total [OF assms(1)] by (auto simp: already_stored_def split: option.splits)
  show some: "ro \<noteq> None"
  proof
    assume "ro = None"
    then obtain path where "already_stored s path h = None"
      using assms(2) by (auto simp: cas_put_object_at_def Let_def split: if_splits option.splits bool.splits prod.splits)
    then show False using al by blast
  qed
  then obtain rc where rc: "cas_put_object_at s t d h = (Some rc, s')" using assms(2) by blast
  note st = put_object_at_spec [OF rc, unfolded stored_as_def]
  show b: "s_basedir s' = s_basedir s" using st by simp
  have "s_files s' (ref_file (s_basedir s) name e) = s_files s (ref_file (s_basedir s) name e)" if "e \<in> ref_exts" for e
  proof (cases "rc = CAS_OK")
    case True
    then have "length h = CAS_HASH_HEX" using put_at_valid rc by (auto simp: valid_hash_def)
    moreover obtain path where p: "build_path s h CAS_PATH_MAX = Some path"
      "s_files s' = s_files s \<or> (\<exists>c. s_files s' = (s_files s)(path \<mapsto> c))" using st True by blast
    ultimately have "ref_file (s_basedir s) name e \<noteq> path" using object_path_not_ref [OF p(1)] that by (auto simp: ref_files_def)
    then show ?thesis using p(2) by auto
  qed (use st in simp)
  then show "root_of s' name = root_of s name" "log_of s' name = log_of s name"
    using b by (simp_all add: root_of_def log_of_def ref_exts_def)
qed

lemma put_checked_record:
  assumes "codec_ok table" "store_inv table (ct_store ct)" "length rec = CAS_VREC_LEN" "cas_hash_object CAS_VREC_TYPE rec = Some addr"
    "cas_tree_put_checked [] True True [] ct CAS_VREC_TYPE rec addr = (r, ct')"
  shows "r \<noteq> None" "grows_by table (CAS_VREC_TYPE, rec) (ct_store ct) (ct_store ct')" "s_basedir (ct_store ct') = s_basedir (ct_store ct)"
    "root_of (ct_store ct') name = root_of (ct_store ct) name" "log_of (ct_store ct') name = log_of (ct_store ct) name"
    "r = Some CAS_OK \<Longrightarrow> get_object table (ct_store ct') addr \<noteq> None"
proof -
  obtain ro s' where p: "cas_put_object_at (ct_store ct) CAS_VREC_TYPE rec addr = (ro, s')" by fastforce
  then have r: "r = ro" "ct' = ct\<lparr>ct_store := s'\<rparr>"
    using assms(5) raw_check [of "[]" True True "[]" rec addr] assms(4) by (simp_all add: cas_tree_put_checked_def)
  have o: "cas_put_object (ct_store ct) CAS_VREC_TYPE rec = (map_option (\<lambda>rc. if rc = CAS_OK then Inr addr else Inl rc) ro, s')"
    using p assms(4) by (simp add: put_object_at_hash)
  note step = put_object_step [OF assms(1,2) vrec_storable [OF assms(3)] o]
  have "pack_ok (ct_store ct)" using assms(2) by (simp add: store_inv_def)
  note keeps = put_at_keeps_refs [OF this p]
  show "r \<noteq> None" "s_basedir (ct_store ct') = s_basedir (ct_store ct)"
    "root_of (ct_store ct') name = root_of (ct_store ct) name" "log_of (ct_store ct') name = log_of (ct_store ct) name"
    using keeps r by simp_all
  show "grows_by table (CAS_VREC_TYPE, rec) (ct_store ct) (ct_store ct')" using step(1) r(2) by simp
  show "get_object table (ct_store ct') addr \<noteq> None" if "r = Some CAS_OK" using step(2) [of addr] that r by simp
qed

text \<open>
  The head a publication finds: a record that may be succeeded, or \<open>CAS_ENOTFOUND\<close>, which the code takes for a topic
  without a head, also when it stands for a reference or a record that could not be opened.
\<close>

definition may_follow :: "(sign_rc + cas_vrec \<times> string) option \<Rightarrow> cas_vrec \<Rightarrow> bool" where
  "may_follow head cand \<longleftrightarrow>
     (case head of
        Some (Inr (cur, a)) \<Rightarrow> vr_topic_id cand = vr_topic_id cur \<and> unat (vr_seq cand) = unat (vr_seq cur) + 1 \<and> vr_prev cand = a
      | Some (Inl rc) \<Rightarrow> rc = Cas_rc CAS_ENOTFOUND
      | None \<Rightarrow> False)"

lemma verified_length: "cas_vrec_decode backend rec = Inr v \<Longrightarrow> length rec = CAS_VREC_LEN"
  by (simp add: cas_vrec_decode_def split: if_splits)

lemma vrec_address_some: "length rec = CAS_VREC_LEN \<Longrightarrow> \<exists>addr. cas_vrec_address rec = Some addr"
  using format_header_fits(1) storable_fit [OF vrec_storable, of rec] by (auto simp: cas_vrec_address_def hash_object_eq)

text \<open>A publication that is not refused has verified the record and seen such a head, and goes on to store and commit.\<close>

lemma publish_cases:
  assumes "codec_ok table" "pack_ok (ct_store ct)" "cas_topic_publish backend table torn sec nsec ct refname rec note = (r, ct')"
    "cas_topic_head backend table ct refname = (head, ct1)"
  shows "(\<exists>rc. r = Some rc \<and> rc \<noteq> Cas_rc CAS_OK \<and> (ct' = ct \<or> ct' = ct1)) \<or>
    (\<exists>cand addr. cas_vrec_decode backend rec = Inr cand \<and> may_follow head cand \<and> cas_vrec_address rec = Some addr \<and>
      (case cas_tree_put_checked [] True True [] ct1 CAS_VREC_TYPE rec addr of
         (None, ct2) \<Rightarrow> r = None \<and> ct' = ct2
       | (Some prc, ct2) \<Rightarrow>
           if prc \<noteq> CAS_OK then r = Some (Cas_rc prc) \<and> ct' = ct2
           else (case cas_tree_ref_commit torn sec nsec ct2 refname addr note of (crc, ct3) \<Rightarrow> r = Some (Cas_rc crc) \<and> ct' = ct3)))"
proof (cases "cas_vrec_decode backend rec")
  case (Inl rc)
  moreover from this have "rc \<noteq> Cas_rc CAS_OK" using decode_codes by fastforce
  ultimately show ?thesis using assms(3) by (auto simp: cas_topic_publish_def)
next
  case (Inr cand)
  obtain addr where addr: "cas_vrec_address rec = Some addr" using vrec_address_some verified_length [OF Inr] by blast
  obtain h where h: "head = Some h" using topic_head_spec(1) [OF assms(1,2,4)] by blast
  define cur where "cur = (case h of Inr (c, a) \<Rightarrow> Inr (Some c, Some a) | Inl rc \<Rightarrow> if rc \<noteq> Cas_rc CAS_ENOTFOUND then Inl rc else Inr (None, None))"
  note run = assms(3) [unfolded cas_topic_publish_def Inr assms(4) h sum.case prod.case option.case cur_def [symmetric] addr Let_def]
  show ?thesis
  proof (cases "\<exists>rc. h = Inl rc \<and> rc \<noteq> Cas_rc CAS_ENOTFOUND")
    case True
    then obtain rc where rc: "h = Inl rc" "rc \<noteq> Cas_rc CAS_ENOTFOUND" by blast
    then have r: "r = Some rc" "ct' = ct1" using run by (simp_all add: cur_def)
    moreover have "rc \<noteq> Cas_rc CAS_OK" using topic_head_not_ok [OF assms(1,2), of backend refname ct1] assms(4) h rc by auto
    ultimately show ?thesis by blast
  next
    case False
    then obtain c a where ca: "cur = Inr (c, a)" "h = Inl (Cas_rc CAS_ENOTFOUND) \<and> c = None \<or> (\<exists>v w. h = Inr (v, w) \<and> c = Some v \<and> a = Some w)"
      by (cases h) (auto simp: cur_def)
    show ?thesis
    proof (cases "cas_vrec_succeeds c a cand = Cas_rc CAS_OK")
      case False
      then show ?thesis using run ca(1) by auto
    next
      case True
      have "may_follow head cand" using ca(2) True succeeds_ok unfolding h by (auto simp: may_follow_def)
      with run True ca(1) Inr addr show ?thesis by (auto split: prod.splits option.splits if_splits)
    qed
  qed
qed

end
