(* ===== verification/SignProps.thy ===== *)
theory SignProps
  imports Topic RefProps
begin

unbundle bit_operations_syntax

text \<open>
  The properties of version records, chains, key files and topics, with a signature library to run them on.
\<close>

section \<open>An example library\<close>

text \<open>The signature is the public key with the digest of the message; it satisfies the contract and protects nothing.\<close>

definition plain_eddsa :: eddsa where
  "plain_eddsa =
     \<lparr>crypto_eddsa_key_pair = (\<lambda>seed. (seed @ seed, seed)), crypto_eddsa_sign = (\<lambda>sk msg. take 32 sk @ cas_digest msg),
      crypto_eddsa_check = (\<lambda>sig pk msg. if sig = pk @ cas_digest msg then 0 else - 1)\<rparr>"

lemma plain_eddsa_ok: "eddsa_ok plain_eddsa"
  by (simp add: eddsa_ok_def plain_eddsa_def CAS_SIGN_SEED_LEN_def CAS_SIGN_SECKEY_LEN_def CAS_SIGN_PUBKEY_LEN_def CAS_SIGN_SIG_LEN_def CAS_HASH_LEN_def)

definition demo_seed :: "byte list" where "demo_seed = replicate 32 7"

definition demo_hash :: string where "demo_hash = replicate 64 CHR ''a''"

definition demo_vrec :: "u64 \<Rightarrow> cas_vrec" where
  "demo_vrec n = \<lparr>vr_topic_id = [], vr_pubkey = demo_seed, vr_seq = n, vr_timestamp = 0, vr_root = demo_hash, vr_prev = []\<rparr>"

lemma demo_hash_facts: "valid_hash demo_hash" "canonical demo_hash = demo_hash"
  by code_simp+

section \<open>Records\<close>

text \<open>The predecessor as the reader gives it: the name of 32 zero bytes reads as no predecessor.\<close>

definition read_prev :: "string \<Rightarrow> string" where
  "read_prev prev = (if prev_bytes prev = Some vrec_zero then [] else canonical prev)"

text \<open>
  C2. A record survives its encoding. Signing succeeds exactly if the root, and the predecessor if there is one, are
  names of objects; the result has 216 bytes and verifies as the record with the topic of its key, every field as it was given
  up to the case of the digits of the names.
\<close>

theorem vrec_roundtrip:
  assumes "eddsa_ok lib" "length seed = CAS_SIGN_SEED_LEN" "crypto_eddsa_key_pair lib seed = (sk, vr_pubkey v)"
  shows "((\<exists>rec. fst (cas_vrec_encode (Some lib) v sk) = Inr rec) \<longleftrightarrow>
      valid_hash (vr_root v) \<and> (vr_prev v = [] \<or> valid_hash (vr_prev v))) \<and>
    (fst (cas_vrec_encode (Some lib) v sk) = Inr rec \<longrightarrow> length rec = CAS_VREC_LEN \<and>
      cas_vrec_decode (Some lib) rec = Inr (v\<lparr>vr_topic_id := cas_sign_topic_id (vr_pubkey v), vr_root := canonical (vr_root v),
        vr_prev := read_prev (vr_prev v)\<rparr>))"
proof (cases "valid_hash (vr_root v) \<and> (vr_prev v = [] \<or> valid_hash (vr_prev v))")
  case False
  then show ?thesis by (auto simp: cas_vrec_encode_def cas_valid_hash_def)
next
  case True
  have lib: "length (vr_pubkey v) = 32" "\<And>msg. length (crypto_eddsa_sign lib sk msg) = 64"
    "\<And>msg. crypto_eddsa_check lib (crypto_eddsa_sign lib sk msg) (vr_pubkey v) msg = 0"
    using assms unfolding eddsa_ok_def by (force simp: CAS_SIGN_PUBKEY_LEN_def CAS_SIGN_SIG_LEN_def)+
  obtain root where root: "cas_hex_decode (vr_root v) CAS_HASH_LEN = Some root" "length root = 32"
    using valid_hash_decodes True by (auto simp: CAS_HASH_LEN_def)
  obtain prev where prev: "prev_bytes (vr_prev v) = Some prev" "length prev = 32"
  proof (cases "vr_prev v = []")
    case False
    then show ?thesis using that valid_hash_decodes [of "vr_prev v"] True by (auto simp: prev_bytes_def CAS_HASH_LEN_def)
  qed (use that in \<open>simp add: prev_bytes_def vrec_zero_def CAS_HASH_LEN_def\<close>)
  let ?topic = "cas_sign_topic_id (vr_pubkey v)"
  let ?body = "vrec_signed ?topic (vr_pubkey v) (vr_seq v) (vr_timestamp v) root prev"
  have e: "fst (cas_vrec_encode (Some lib) v sk) = Inr (?body @ crypto_eddsa_sign lib sk ?body)"
    using encode_layout [OF _ _ lib(1) root(1) prev(1) lib(2)] True by simp
  have d: "cas_vrec_decode (Some lib) (?body @ crypto_eddsa_sign lib sk ?body) =
      Inr (vrec_view ?topic (vr_pubkey v) (vr_seq v) (vr_timestamp v) root prev)"
    using decode_layout [OF lib(1) root(2) prev(2) lib(2)] lib(3) by simp
  have "canonical (vr_root v) = cas_hex_encode root" using root(1) by (simp add: canonical_def)
  moreover have "read_prev (vr_prev v) = (if prev = vrec_zero then [] else cas_hex_encode prev)"
    using prev(1) by (auto simp: read_prev_def prev_bytes_def canonical_def split: if_splits)
  ultimately have "vrec_view ?topic (vr_pubkey v) (vr_seq v) (vr_timestamp v) root prev =
      v\<lparr>vr_topic_id := ?topic, vr_root := canonical (vr_root v), vr_prev := read_prev (vr_prev v)\<rparr>"
    by (simp add: vrec_view_def)
  moreover have "length (?body @ crypto_eddsa_sign lib sk ?body) = CAS_VREC_LEN"
    using length_vrec_signed [of ?topic "vr_pubkey v" root prev] lib(1,2) root(2) prev(2)
    by (simp add: CAS_HASH_LEN_def CAS_VREC_LEN_def CAS_VREC_SIGNED_LEN_def)
  ultimately show ?thesis using e d True by auto
qed

lemma demo_record:
  obtains rec where "fst (cas_vrec_encode (Some plain_eddsa) (demo_vrec n) (demo_seed @ demo_seed)) = Inr rec"
    "cas_vrec_decode (Some plain_eddsa) rec = Inr ((demo_vrec n)\<lparr>vr_topic_id := cas_sign_topic_id demo_seed\<rparr>)" "length rec = CAS_VREC_LEN"
proof -
  let ?v = "demo_vrec n" and ?sk = "demo_seed @ demo_seed"
  obtain root where root: "cas_hex_decode demo_hash CAS_HASH_LEN = Some root" "length root = 32"
    using valid_hash_decodes demo_hash_facts(1) by (auto simp: CAS_HASH_LEN_def)
  have l: "length demo_seed = 32" "\<And>msg. length (crypto_eddsa_sign plain_eddsa ?sk msg) = 64"
    "\<And>msg. crypto_eddsa_check plain_eddsa (crypto_eddsa_sign plain_eddsa ?sk msg) demo_seed msg = 0"
    by (simp_all add: demo_seed_def plain_eddsa_def CAS_HASH_LEN_def)
  have z: "prev_bytes [] = Some vrec_zero" "length vrec_zero = 32" by (simp_all add: prev_bytes_def vrec_zero_def CAS_HASH_LEN_def)
  let ?body = "vrec_signed (cas_sign_topic_id demo_seed) demo_seed n 0 root vrec_zero"
  have e: "fst (cas_vrec_encode (Some plain_eddsa) ?v ?sk) = Inr (?body @ crypto_eddsa_sign plain_eddsa ?sk ?body)"
    using encode_layout [of ?v root vrec_zero plain_eddsa ?sk] demo_hash_facts(1) l root(1) z(1) by (simp add: demo_vrec_def)
  have "canonical demo_hash = cas_hex_encode root" using root(1) by (simp add: canonical_def)
  then have d: "cas_vrec_decode (Some plain_eddsa) (?body @ crypto_eddsa_sign plain_eddsa ?sk ?body) =
      Inr (?v\<lparr>vr_topic_id := cas_sign_topic_id demo_seed\<rparr>)"
    using decode_layout [of demo_seed root vrec_zero _ plain_eddsa n 0, OF l(1) root(2) z(2) l(2)] l(3) demo_hash_facts(2)
    by (simp add: vrec_view_def demo_vrec_def)
  show thesis using that [OF e d] verified_length [OF d] by blast
qed

theorem vrec_roundtrip_witness:
  "\<exists>rec. fst (cas_vrec_encode (Some plain_eddsa) (demo_vrec 5) (demo_seed @ demo_seed)) = Inr rec \<and>
    cas_vrec_decode (Some plain_eddsa) rec = Inr ((demo_vrec 5)\<lparr>vr_topic_id := cas_sign_topic_id demo_seed\<rparr>)"
proof -
  let ?v = "demo_vrec 5" and ?sk = "demo_seed @ demo_seed"
  have "length demo_seed = CAS_SIGN_SEED_LEN" "crypto_eddsa_key_pair plain_eddsa demo_seed = (?sk, vr_pubkey ?v)"
    by (simp_all add: demo_seed_def CAS_SIGN_SEED_LEN_def plain_eddsa_def demo_vrec_def)
  note rt = vrec_roundtrip [OF plain_eddsa_ok this]
  have "valid_hash (vr_root ?v) \<and> (vr_prev ?v = [] \<or> valid_hash (vr_prev ?v))" using demo_hash_facts(1) by (simp add: demo_vrec_def)
  then obtain rec where rec: "fst (cas_vrec_encode (Some plain_eddsa) ?v ?sk) = Inr rec" using rt by blast
  have "?v\<lparr>vr_topic_id := cas_sign_topic_id (vr_pubkey ?v), vr_root := canonical (vr_root ?v), vr_prev := read_prev (vr_prev ?v)\<rparr> =
      ?v\<lparr>vr_topic_id := cas_sign_topic_id demo_seed\<rparr>"
    using demo_hash_facts(2) by (simp add: demo_vrec_def read_prev_def prev_bytes_def)
  with rt rec show ?thesis by metis
qed

text \<open>
  C12. Whatever verifies is well formed: there is a backend, the buffer has the length of a record, the topic is the digest of the key in the record, the root and the
  predecessor are names of objects, the signature was checked over everything else in the record, and those bytes are
  the only encoding of the fields.
\<close>

theorem vrec_verified:
  assumes "cas_vrec_decode backend buf = Inr v"
  shows "length buf = CAS_VREC_LEN \<and> (\<exists>lib root prev. backend = Some lib \<and> vr_topic_id v = cas_sign_topic_id (vr_pubkey v) \<and> length (vr_pubkey v) = CAS_SIGN_PUBKEY_LEN \<and>
    valid_hash (vr_root v) \<and> (vr_prev v = [] \<or> valid_hash (vr_prev v)) \<and>
    crypto_eddsa_check lib (drop CAS_VREC_SIGNED_LEN buf) (vr_pubkey v) (take CAS_VREC_SIGNED_LEN buf) = 0 \<and>
    cas_hex_decode (vr_root v) CAS_HASH_LEN = Some root \<and> prev_bytes (vr_prev v) = Some prev \<and>
    take CAS_VREC_SIGNED_LEN buf = vrec_signed (vr_topic_id v) (vr_pubkey v) (vr_seq v) (vr_timestamp v) root prev)"
proof (rule decode_verified [OF assms])
  fix lib root prev sig
  assume d: "backend = Some lib" "buf = vrec_signed (vr_topic_id v) (vr_pubkey v) (vr_seq v) (vr_timestamp v) root prev @ sig"
    "v = vrec_view (cas_sign_topic_id (vr_pubkey v)) (vr_pubkey v) (vr_seq v) (vr_timestamp v) root prev"
    "length (vr_pubkey v) = 32" "length root = 32" "length prev = 32" "length sig = 64"
    "crypto_eddsa_check lib sig (vr_pubkey v) (take CAS_VREC_SIGNED_LEN buf) = 0"
  have v: "vr_topic_id v = cas_sign_topic_id (vr_pubkey v)" "vr_root v = cas_hex_encode root"
    "vr_prev v = (if prev = vrec_zero then [] else cas_hex_encode prev)"
    using arg_cong [OF d(3), of vr_topic_id] arg_cong [OF d(3), of vr_root] arg_cong [OF d(3), of vr_prev] by (simp_all add: vrec_view_def)
  have "length (vrec_signed (vr_topic_id v) (vr_pubkey v) (vr_seq v) (vr_timestamp v) root prev) = CAS_VREC_SIGNED_LEN"
    using length_vrec_signed d(4-6) v(1) by (simp add: CAS_HASH_LEN_def)
  then have cut: "drop CAS_VREC_SIGNED_LEN buf = sig"
    "take CAS_VREC_SIGNED_LEN buf = vrec_signed (vr_topic_id v) (vr_pubkey v) (vr_seq v) (vr_timestamp v) root prev" using d(2) by simp_all
  have h: "valid_hash (cas_hex_encode x)" "cas_hex_decode (cas_hex_encode x) CAS_HASH_LEN = Some x" "cas_hex_encode x \<noteq> []" if "length x = 32" for x
    using valid_to_hex [of x] hex_decode_encode [of x CAS_HASH_LEN] length_to_hex [of x] that
    by (auto simp: cas_hex_encode_def CAS_HASH_LEN_def simp del: length_to_hex)
  have "prev_bytes (vr_prev v) = Some prev" "vr_prev v = [] \<or> valid_hash (vr_prev v)"
    using v(3) h [OF d(6)] by (simp_all add: prev_bytes_def)
  with d(1,4,8) v(1,2) cut h [OF d(5)] show ?thesis
    by (intro conjI [OF verified_length [OF assms]] exI [of _ lib] exI [of _ root] exI [of _ prev]) (simp add: CAS_SIGN_PUBKEY_LEN_def)
qed

theorem vrec_verified_witness:
  "\<exists>buf v. cas_vrec_decode (Some plain_eddsa) buf = Inr v \<and> vr_seq v = 5 \<and> vr_topic_id v = cas_sign_topic_id (vr_pubkey v)"
proof (rule demo_record [of 5])
  fix rec
  assume d: "cas_vrec_decode (Some plain_eddsa) rec = Inr ((demo_vrec 5)\<lparr>vr_topic_id := cas_sign_topic_id demo_seed\<rparr>)"
  let ?v = "(demo_vrec 5)\<lparr>vr_topic_id := cas_sign_topic_id demo_seed\<rparr>"
  have "vr_topic_id ?v = cas_sign_topic_id (vr_pubkey ?v)" using vrec_verified [OF d] by blast
  moreover have "vr_seq ?v = 5" by (simp add: demo_vrec_def)
  ultimately show ?thesis using d by blast
qed

section \<open>Chains\<close>

text \<open>
  C15. Walking a chain ends for every store, and what the visitor sees is a chain: the records are verified and stored under the
  addresses it is given, each one names the address of the next, in the same topic with a number one less. The walk reports
  success only if the visitor stopped it, or it reached the number asked for or the first record; in a quiet store it
  reports an incomplete chain only if the predecessor of the last record seen is not there.
\<close>

theorem chain_walk:
  assumes "codec_ok table" "pack_ok s" "cas_vchain_walk backend table stop_seq fn s head_addr c = (r, s', c')"
  shows "\<exists>rc. r = Some rc \<and> get_object table s' = get_object table s \<and> (c' = c \<and> rc \<noteq> Cas_rc CAS_OK \<or>
    (\<exists>vs halt. vs \<noteq> [] \<and> snd (hd vs) = head_addr \<and> visit_chain fn vs c = Some (halt, c') \<and> linked vs \<and>
      (\<forall>(v, a) \<in> set vs. recorded backend table s v a) \<and>
      (rc = Cas_rc CAS_OK \<longrightarrow> halt \<or> vr_seq (fst (last vs)) \<le> stop_seq \<or> vr_prev (fst (last vs)) = []) \<and>
      (s_sys s = [] \<longrightarrow> rc = CAS_SIGN_EINCOMPLETE \<longrightarrow> get_object table s (vr_prev (fst (last vs))) = None)))"
proof -
  obtain l s1 where load: "vchain_load backend table s head_addr = (l, s1)" by fastforce
  note ls = vchain_load_spec [OF assms(1,2) load]
  obtain x where x: "l = Some x" using ls(1) by blast
  show ?thesis
  proof (cases x)
    case (Inl rc)
    then have "r = Some rc" "s' = s1" "c' = c" using assms(3) load x by (simp_all add: cas_vchain_walk_def)
    moreover have "rc \<noteq> Cas_rc CAS_OK" using vchain_load_codes(1) [OF assms(1,2), of backend head_addr rc s1] load x Inl by simp
    ultimately show ?thesis using same_disk_get(1) [OF ls(2)] by simp
  next
    case (Inr v)
    have rv: "recorded backend table s v head_addr" using ls(3) x Inr by simp
    have run: "walk_loop backend table stop_seq fn s1 v head_addr c = (r, s', c')"
      using assms(3) load x Inr by (simp add: cas_vchain_walk_def)
    have "pack_ok s1" using same_disk_get(2) [OF ls(2)] assms(2) by simp
    from walk_loop_spec [OF assms(1) this run] obtain rc halt vs where w: "r = Some rc" "same_disk s1 s'"
      "visit_chain fn ((v, head_addr) # vs) c = Some (halt, c')" "walked backend table stop_seq s1 rc halt ((v, head_addr) # vs)" by blast
    have g: "get_object table s1 = get_object table s" "get_object table s' = get_object table s"
      using same_disk_get(1) [OF ls(2), of table] same_disk_get(1) [OF w(2), of table] by simp_all
    then have "recorded backend table s1 = recorded backend table s" by (simp add: recorded_def fun_eq_iff)
    with w(4) rv ls(4) have k: "linked ((v, head_addr) # vs)" "\<forall>(u, a) \<in> set ((v, head_addr) # vs). recorded backend table s u a"
      "rc = Cas_rc CAS_OK \<longrightarrow> halt \<or> vr_seq (fst (last ((v, head_addr) # vs))) \<le> stop_seq \<or> vr_prev (fst (last ((v, head_addr) # vs))) = []"
      "s_sys s = [] \<longrightarrow> rc = CAS_SIGN_EINCOMPLETE \<longrightarrow> get_object table s (vr_prev (fst (last ((v, head_addr) # vs)))) = None"
      unfolding walked_def by auto
    show ?thesis
      by (intro exI [of _ rc] conjI disjI2 exI [of _ "(v, head_addr) # vs"] exI [of _ halt] w(1) g(2) w(3) k) simp_all
  qed
qed

definition count_records :: "nat vchain_fn" where
  "count_records n v addr = (False, n + 1)"

text \<open>A store that holds one record, the first of its topic.\<close>

lemma demo_recorded:
  obtains s h where "s_sys s = []" "pack_ok s" "recorded (Some plain_eddsa) (codec_table []) s
    ((demo_vrec 5)\<lparr>vr_topic_id := cas_sign_topic_id demo_seed\<rparr>) h"
proof -
  obtain rec where rec: "cas_vrec_decode (Some plain_eddsa) rec = Inr ((demo_vrec 5)\<lparr>vr_topic_id := cas_sign_topic_id demo_seed\<rparr>)"
    "length rec = CAS_VREC_LEN" by (rule demo_record)
  note st = vrec_storable [OF rec(2)]
  obtain h s where run: "cas_put_object demo_store CAS_VREC_TYPE rec = (Some (Inr h), s)" "s_sys s = []"
    using put_progress [OF demo_store_facts(1,2) st demo_store_facts(3)] by blast
  have at: "cas_hash_object CAS_VREC_TYPE rec = Some h" "store_at demo_store CAS_VREC_TYPE rec h = (True, s)"
    using put_object_store_at [OF run(1)] by simp_all
  have "store_inv (codec_table []) s \<and> get_object (codec_table []) s h = Some (CAS_VREC_TYPE, rec)"
    using plain.stored_object [OF demo_store_facts(5) st at] by (simp add: demo_store_facts(4))
  with run(2) rec(1) show thesis by (intro that [of s h]) (auto simp: store_inv_def recorded_def)
qed

theorem chain_walk_witness:
  "\<exists>s h vs. cas_vchain_walk (Some plain_eddsa) (codec_table []) 0 count_records s h 0 = (Some (Cas_rc CAS_OK), s, 1) \<and>
    vs \<noteq> [] \<and> linked vs \<and> (\<forall>(v, a) \<in> set vs. recorded (Some plain_eddsa) (codec_table []) s v a)"
proof (rule demo_recorded)
  fix s h
  let ?v = "(demo_vrec 5)\<lparr>vr_topic_id := cas_sign_topic_id demo_seed\<rparr>" and ?b = "Some plain_eddsa" and ?tab = "codec_table []"
  assume s: "s_sys s = []" "pack_ok s" "recorded ?b ?tab s ?v h"
  then obtain d where d: "get_object ?tab s h = Some (CAS_VREC_TYPE, d)" "cas_vrec_decode ?b d = Inr ?v" by (auto simp: recorded_def)
  have "vchain_load ?b ?tab s h = (Some (Inr ?v), s)"
    using open_object_quiet_get [OF s(1) d(1)] d(2) by (simp add: vchain_load_def)
  moreover have "walk_loop ?b ?tab 0 count_records s ?v h 0 = (Some (Cas_rc CAS_OK), s, 1)"
    by (subst walk_loop.simps) (simp add: count_records_def demo_vrec_def)
  ultimately have run: "cas_vchain_walk ?b ?tab 0 count_records s h 0 = (Some (Cas_rc CAS_OK), s, 1)"
    by (simp add: cas_vchain_walk_def)
  from chain_walk [OF codec_none_ok s(2) run] obtain vs where "vs \<noteq> []" "linked vs" "\<forall>(v, a) \<in> set vs. recorded ?b ?tab s v a" by auto
  with run show ?thesis by blast
qed

section \<open>Key files\<close>

text \<open>
  C17. Generating a key never touches a file that is there, and whatever file it leaves cannot be read by group or others. A key it
  reports is one whose seed is in the file: loading the file again, with nothing failing, gives the pair with that public key.
\<close>

theorem key_file_roundtrip:
  assumes "cas_sign_key_generate backend device umask torn d = (r, d')"
  shows "(kd_file d \<noteq> None \<longrightarrow> kd_file d' = kd_file d \<and> (\<forall>pk. r \<noteq> Inr pk)) \<and>
    (\<forall>mode data. kd_file d = None \<longrightarrow> kd_file d' = Some (mode, data) \<longrightarrow> mode AND 0x3F = 0) \<and>
    (r = Inr pk \<longrightarrow> (\<exists>sk. fst (cas_sign_key_load backend (d'\<lparr>kd_sys := []\<rparr>)) = Inr (sk, pk)))"
proof -
  note g = key_generate_spec [OF assms]
  have "\<exists>sk. fst (cas_sign_key_load backend (d'\<lparr>kd_sys := []\<rparr>)) = Inr (sk, pk)" if r: "r = Inr pk"
  proof -
    obtain lib seed sk where k: "backend = Some lib" "length seed = CAS_SIGN_SEED_LEN" "crypto_eddsa_key_pair lib seed = (sk, pk)"
      "kd_file d = None" "kd_file d' = Some (0x180 AND NOT umask, bytes_of (key_text (cas_hex_encode seed)))" using g(2) [OF r] by blast
    then have "(0x180 AND NOT umask) AND 0x3F = 0" using g(3) by auto
    from key_load_text [of "d'\<lparr>kd_sys := []\<rparr>", OF _ _ this k(2), of lib] k show ?thesis by simp
  qed
  with g(1,3) show ?thesis by auto
qed

theorem key_file_roundtrip_witness:
  "\<exists>d'. cas_sign_key_generate (Some plain_eddsa) (Some demo_seed) 0 0 \<lparr>kd_file = None, kd_sys = []\<rparr> = (Inr demo_seed, d') \<and>
    (\<exists>sk. fst (cas_sign_key_load (Some plain_eddsa) (d'\<lparr>kd_sys := []\<rparr>)) = Inr (sk, demo_seed))"
proof -
  have l: "length (key_text (cas_hex_encode demo_seed)) = 87"
    by (simp add: key_text_def CAS_SIGN_KEY_MAGIC_def cas_hex_encode_def demo_seed_def)
  obtain d' where run: "cas_sign_key_generate (Some plain_eddsa) (Some demo_seed) 0 0 \<lparr>kd_file = None, kd_sys = []\<rparr> = (Inr demo_seed, d')"
    using l by (simp add: cas_sign_key_generate_def cas_sign_available_def read_entropy_def cas_sign_key_pair_def cas_sign_eddsa_key_pair_def
        key_sys_def plain_eddsa_def CAS_SIGN_SEED_LEN_def demo_seed_def Let_def)
  with key_file_roundtrip [OF run, of demo_seed] show ?thesis by simp
qed

section \<open>Topics\<close>

lemma touches_inv:
  assumes "touches (ref_files (s_basedir s) name) s s'"
  shows "store_inv table s' = store_inv table s"
proof -
  have "cas_exists s' h = cas_exists s h" for h
  proof (cases "valid_hash h")
    case True
    then have "s_files s' p = s_files s p" if "build_path s h CAS_PATH_MAX = Some p" for p
      using assms object_path_not_ref [OF that] by (simp add: touches_def valid_hash_def)
    moreover have "build_path s' h CAS_PATH_MAX = build_path s h CAS_PATH_MAX" "s_pack s' = s_pack s"
      using assms by (simp_all add: touches_def build_path_def)
    ultimately show ?thesis by (auto simp: cas_exists_def split: option.split bool.split)
  qed (simp add: cas_exists_def)
  moreover have "pack_ok s' = pack_ok s" using assms by (simp add: touches_def pack_ok_def)
  ultimately show ?thesis using touches_objects [OF assms] by (simp add: store_inv_def)
qed

text \<open>What a publication does, whatever fails.\<close>

lemma publish_outcome:
  assumes "codec_ok table" "store_inv table (ct_store ct)"
    "cas_topic_publish backend table torn sec nsec ct refname rec note = (r, ct')"
  defines "s \<equiv> ct_store ct" and "s' \<equiv> ct_store ct'"
  shows "r \<noteq> None \<and> extends_store table s s' \<and>
    (\<forall>other. other \<noteq> refname \<longrightarrow> root_of s' other = root_of s other \<and> log_of s' other = log_of s other) \<and>
    (r \<noteq> Some (Cas_rc CAS_OK) \<longrightarrow> root_of s' refname = root_of s refname) \<and>
    (r = Some (Cas_rc CAS_OK) \<longrightarrow> (\<exists>cand addr. cas_vrec_decode backend rec = Inr cand \<and> cas_vrec_address rec = Some addr \<and>
      get_object table s' addr \<noteq> None \<and> s_basedir s' = s_basedir s \<and>
      (get_object table s addr = None \<or> get_object table s addr = Some (CAS_VREC_TYPE, rec) \<longrightarrow> get_object table s' addr = Some (CAS_VREC_TYPE, rec)) \<and> root_of s' refname = Some (bytes_of (addr @ [CHR 0x0A])) \<and>
      may_follow (fst (cas_topic_head backend table ct refname)) cand))"
proof -
  have pk: "pack_ok s" using assms(2) by (simp add: store_inv_def s_def)
  obtain head ct1 where head: "cas_topic_head backend table ct refname = (head, ct1)" by fastforce
  note hs = topic_head_spec [OF assms(1) pk [unfolded s_def] head]
  have sd: "same_disk s (ct_store ct1)" using hs(2) by (simp add: s_def)
  have same: "root_of (ct_store ct1) n = root_of s n" "log_of (ct_store ct1) n = log_of s n"
    "get_object table (ct_store ct1) = get_object table s" for n
    using sd same_disk_get(1) [OF sd, of table] by (simp_all add: same_disk_def root_of_def log_of_def)
  have i1: "store_inv table (ct_store ct1)" using same_disk_inv [OF sd] assms(2) by (simp add: s_def)
  from publish_cases [OF assms(1) pk [unfolded s_def] assms(3) head] show ?thesis
  proof (elim disjE exE conjE)
    fix rc
    assume "r = Some rc" "rc \<noteq> Cas_rc CAS_OK" "ct' = ct"
    then show ?thesis by (simp add: s_def s'_def extends_store_refl)
  next
    fix rc
    assume "r = Some rc" "rc \<noteq> Cas_rc CAS_OK" "ct' = ct1"
    then show ?thesis using same by (simp add: s'_def extends_store_def)
  next
    fix cand addr
    assume c: "cas_vrec_decode backend rec = Inr cand" "may_follow head cand" "cas_vrec_address rec = Some addr"
      and run: "case cas_tree_put_checked [] True True [] ct1 CAS_VREC_TYPE rec addr of
         (None, ct2) \<Rightarrow> r = None \<and> ct' = ct2
       | (Some prc, ct2) \<Rightarrow>
           if prc \<noteq> CAS_OK then r = Some (Cas_rc prc) \<and> ct' = ct2
           else (case cas_tree_ref_commit torn sec nsec ct2 refname addr note of (crc, ct3) \<Rightarrow> r = Some (Cas_rc crc) \<and> ct' = ct3)"
    obtain p ct2 where put: "cas_tree_put_checked [] True True [] ct1 CAS_VREC_TYPE rec addr = (p, ct2)" by fastforce
    note ps = put_checked_record [OF assms(1) i1 verified_length [OF c(1)] c(3) [unfolded cas_vrec_address_def] put]
    have ex: "extends_store table s (ct_store ct2)" using grows_extends [OF ps(2)] same(3) by (simp add: extends_store_def)
    obtain prc where prc: "p = Some prc" using ps(1) by blast
    show ?thesis
    proof (cases "prc = CAS_OK")
      case False
      then show ?thesis using run put prc ex same ps(4,5) by (simp add: s'_def)
    next
      case True
      obtain crc ct3 where com: "cas_tree_ref_commit torn sec nsec ct2 refname addr note = (crc, ct3)" by fastforce
      then have r: "r = Some (Cas_rc crc)" "ct' = ct3" using run put prc True by simp_all
      note ef = ref_commit_outcome [OF com]
      have t: "touches (ref_files (s_basedir (ct_store ct2)) refname) (ct_store ct2) s'" using ef r(2) by (simp add: commit_effect_def s'_def)
      note obj = touches_objects [OF t]
      have "ref_file (s_basedir (ct_store ct2)) other e \<notin> ref_files (s_basedir (ct_store ct2)) refname" if "other \<noteq> refname" "e \<in> ref_exts" for other e
        using ref_files_disjoint [OF that(1)] that(2) by (auto dest: ref_file_mem)
      then have "root_of s' other = root_of (ct_store ct2) other \<and> log_of s' other = log_of (ct_store ct2) other" if "other \<noteq> refname" for other
        using that t by (auto simp: root_of_def log_of_def touches_def)
      moreover have "extends_store table s s'" using ex obj by (simp add: extends_store_def)
      moreover have n: "get_object table s' addr \<noteq> None" using ps(6) prc True obj by simp
      moreover have "get_object table s' addr = Some (CAS_VREC_TYPE, rec)"
        if "get_object table s addr = None \<or> get_object table s addr = Some (CAS_VREC_TYPE, rec)"
        using ps(2) that same(3) obj n by (auto simp: grows_by_def dest: spec [of _ addr])
      moreover have "s_basedir s' = s_basedir s" using t ps(3) hs(2) by (simp add: touches_def same_disk_def s_def)
      ultimately show ?thesis using c head same ps(4,5) ef r by (auto simp: commit_effect_def s'_def)
    qed
  qed
qed

text \<open>A failure that a reader has met on its way from one state of the store to another.\<close>

definition call_failed :: "cas \<Rightarrow> cas \<Rightarrow> bool" where
  "call_failed s s' \<longleftrightarrow> (\<exists>used. s_sys s = used @ s_sys s' \<and> False \<in> set used)"

definition calls_left :: "cas \<Rightarrow> cas \<Rightarrow> bool" where
  "calls_left s s' \<longleftrightarrow> (\<exists>used. s_sys s = used @ s_sys s')"

lemma calls_trans:
  assumes "calls_left s s1"
  shows "call_failed s1 s2 \<Longrightarrow> call_failed s s2" "calls_left s1 s2 \<Longrightarrow> calls_left s s2"
  using assms unfolding call_failed_def calls_left_def by (metis Un_iff append_assoc set_append)+

lemma sys_call_left:
  assumes "sys_call s = (ok, s1)"
  shows "calls_left s s1" "\<not> ok \<Longrightarrow> call_failed s s1"
  using assms by (auto simp: sys_call_def calls_left_def call_failed_def split: list.splits)

lemma sys_call_step:
  assumes "sys_call s = (ok, s1)"
  shows "s_files s1 = s_files s \<and> s_basedir s1 = s_basedir s \<and> s_pack s1 = s_pack s \<and> calls_left s s1 \<and> (ok \<or> call_failed s s1)"
  using sys_call_frame [OF assms] sys_call_left [OF assms] by auto

text \<open>An object that is not found is not in the store, or the call that opens its file failed.\<close>

lemma map_loose_miss:
  assumes "map_loose s h = (Inl CAS_ENOTFOUND, s')"
  shows "call_failed s s' \<or> map_loose (s\<lparr>s_sys := []\<rparr>) h = (Inl CAS_ENOTFOUND, s\<lparr>s_sys := []\<rparr>)"
  using assms sys_call_left(2) [of s False s']
  by (auto simp: map_loose_def Let_def build_path_def sys_call_def [of "s\<lparr>s_sys := []\<rparr>"] split: option.splits if_splits prod.splits dest!: sys_call_frame)

lemma open_loose_miss:
  assumes "codec_ok table" "open_loose table s h m = (Inl CAS_ENOTFOUND, s')"
  shows "call_failed s s' \<or> fst (open_loose table (s\<lparr>s_sys := []\<rparr>) h m) = Inl CAS_ENOTFOUND"
proof -
  have "map_loose s h = (Inl CAS_ENOTFOUND, s')"
    using assms(2) region_decode_errors [OF assms(1)]
    by (auto simp: open_loose_def Let_def split: sum.splits option.splits if_splits prod.splits)
  from map_loose_miss [OF this] show ?thesis by (auto simp: open_loose_def)
qed

lemma open_object_miss:
  assumes "codec_ok table" "pack_ok s" "cas_open_object table s h m = (Some (Inl CAS_ENOTFOUND), s')"
  shows "call_failed s s' \<or> fst (cas_open_object table (s\<lparr>s_sys := []\<rparr>) h m) = Some (Inl CAS_ENOTFOUND)"
proof -
  have v: "valid_hash h" using assms(3) by (auto simp: cas_open_object_def split: if_splits)
  show ?thesis
  proof (cases "s_pack s")
    case None
    with assms(3) v have "open_loose table s h m = (Inl CAS_ENOTFOUND, s')" by (auto simp: cas_open_object_def Let_def split: prod.splits)
    from open_loose_miss [OF assms(1) this] show ?thesis using None v by (auto simp: cas_open_object_def Let_def split: prod.splits)
  next
    case (Some p)
    then have pk: "index_fits p" "offsets_fit p" using assms(2) by (simp_all add: pack_ok_def)
    obtain mem s1 where c: "sys_call s = (mem, s1)" by fastforce
    have l: "cas_pack_lookup table mem p h m = Some (Inl CAS_ENOTFOUND)" "open_loose table s1 h m = (Inl CAS_ENOTFOUND, s')"
      using assms(3) v Some c by (auto simp: cas_open_object_def Let_def split: prod.splits option.splits if_splits)
    have q: "cas_pack_lookup table True p h m = Some (Inl CAS_ENOTFOUND)"
      using l(1) pack_lookup_missing [OF assms(1), of mem p h m] pack_lookup_missing [OF assms(1), of True p h m] by simp
    have "s1\<lparr>s_sys := []\<rparr> = s\<lparr>s_sys := []\<rparr>" using sys_call_frame [OF c] by simp
    with open_loose_miss [OF assms(1) l(2)] q v Some calls_trans(1) [OF sys_call_left(1) [OF c], of s'] show ?thesis
      by (auto simp: cas_open_object_def sys_call_def Let_def split: prod.splits)
  qed
qed

lemma vchain_load_miss:
  assumes "codec_ok table" "pack_ok s" "vchain_load backend table s a = (Some (Inl (Cas_rc CAS_ENOTFOUND)), s')"
  shows "call_failed s s' \<or> get_object table s a = None"
proof -
  let ?q = "s\<lparr>s_sys := []\<rparr>"
  have "cas_open_object table s a (Some (CAS_TYPE_MAX + 1)) = (Some (Inl CAS_ENOTFOUND), s')"
    using assms(3) decode_codes [of backend] by (fastforce simp: vchain_load_def split: prod.splits option.splits sum.splits if_splits)
  from open_object_miss [OF assms(1,2) this]
  show ?thesis
  proof
    assume f: "fst (cas_open_object table ?q a (Some (CAS_TYPE_MAX + 1))) = Some (Inl CAS_ENOTFOUND)"
    obtain r s1 where q: "vchain_load backend table ?q a = (r, s1)" by fastforce
    then have "r = Some (Inl (Cas_rc CAS_ENOTFOUND))" using f by (auto simp: vchain_load_def split: prod.splits)
    moreover have sd: "same_disk s ?q" by (simp add: same_disk_def)
    ultimately show ?thesis
      using vchain_load_spec(5) [OF assms(1) _ q] same_disk_get(1) [OF sd, of table] same_disk_get(2) [OF sd] assms(2) by simp
  qed simp
qed

text \<open>
  A head is not found because the reference has no root file, because the record it names is not in the store, or because a
  call failed while it was read.
\<close>

lemma head_not_found:
  assumes "codec_ok table" "pack_ok (ct_store ct)"
    and "cas_topic_head backend table ct refname = (Some (Inl (Cas_rc CAS_ENOTFOUND)), ct1)"
  shows "root_of (ct_store ct) refname = None \<or> call_failed (ct_store ct) (ct_store ct1) \<or>
    (\<exists>a. fst (cas_tree_ref_read ct refname) = Inr a \<and> get_object table (ct_store ct) a = None)"
proof -
  obtain rr ct2 where rd: "cas_tree_ref_read ct refname = (rr, ct2)" by fastforce
  show ?thesis
  proof (cases rr)
    case (Inl rc)
    then have "rc = CAS_ENOTFOUND" "ct2 = ct1" using assms(3) rd by (simp_all add: cas_topic_head_def)
    with rd Inl show ?thesis
      by (auto simp: cas_tree_ref_read_def root_of_def ref_path_file Let_def
          split: if_splits option.splits prod.splits dest!: sys_call_step)
  next
    case (Inr a)
    have "calls_left (ct_store ct) (ct_store ct2)"
      using rd Inr by (auto simp: cas_tree_ref_read_def Let_def split: if_splits option.splits prod.splits
          intro: calls_trans(2) [OF sys_call_left(1) sys_call_left(1)])
    note tr = calls_trans(1) [OF this]
    have sd: "same_disk (ct_store ct) (ct_store ct2)" using ref_read_same(1) [OF rd] .
    obtain s1 where "vchain_load backend table (ct_store ct2) a = (Some (Inl (Cas_rc CAS_ENOTFOUND)), s1)" "ct1 = ct2\<lparr>ct_store := s1\<rparr>"
      using assms(3) rd Inr by (auto simp: cas_topic_head_def load_record_chain split: prod.splits option.splits sum.splits)
    with vchain_load_miss [OF assms(1), of "ct_store ct2" backend a s1] tr [of s1] same_disk_get(1) [OF sd, of table]
      same_disk_get(2) [OF sd] assms(2) rd Inr show ?thesis by auto
  qed
qed

text \<open>
  C18. Whatever fails, publishing a record touches no other reference and loses no object, and the reference moves only on
  success. It then names the address of the record, which has verified and is in the store. If a head was read before, it is
  a verified record of the store under the address the reference named, and the new record is of the same topic, has a
  number one more, and names that address as its predecessor. If none was found, \<open>CAS_ENOTFOUND\<close> was read: the
  reference had no root file, or it named a record that the store does not hold, or a system call failed while the head was
  read. In the last case there may be a head all the same, and any record that verifies replaces it, since the code does not
  tell a head that cannot be opened from one that is not there.
\<close>

theorem topic_publish_safe:
  assumes "codec_ok table" "store_inv table (ct_store ct)"
    "cas_topic_publish backend table torn sec nsec ct refname rec note = (r, ct')"
  shows "r \<noteq> None \<and> extends_store table (ct_store ct) (ct_store ct') \<and>
    (\<forall>other. other \<noteq> refname \<longrightarrow> root_of (ct_store ct') other = root_of (ct_store ct) other \<and> log_of (ct_store ct') other = log_of (ct_store ct) other) \<and>
    (r \<noteq> Some (Cas_rc CAS_OK) \<longrightarrow> root_of (ct_store ct') refname = root_of (ct_store ct) refname) \<and>
    (r = Some (Cas_rc CAS_OK) \<longrightarrow> (\<exists>cand addr. cas_vrec_decode backend rec = Inr cand \<and> cas_vrec_address rec = Some addr \<and>
      get_object table (ct_store ct') addr \<noteq> None \<and> root_of (ct_store ct') refname = Some (bytes_of (addr @ [CHR 0x0A])) \<and>
      ((\<exists>cur a. fst (cas_topic_head backend table ct refname) = Some (Inr (cur, a)) \<and> fst (cas_tree_ref_read ct refname) = Inr a \<and>
          recorded backend table (ct_store ct) cur a \<and>
          vr_topic_id cand = vr_topic_id cur \<and> unat (vr_seq cand) = unat (vr_seq cur) + 1 \<and> vr_prev cand = a) \<or>
       fst (cas_topic_head backend table ct refname) = Some (Inl (Cas_rc CAS_ENOTFOUND)) \<and>
         (root_of (ct_store ct) refname = None \<or>
          (\<exists>a. fst (cas_tree_ref_read ct refname) = Inr a \<and> get_object table (ct_store ct) a = None) \<or>
          call_failed (ct_store ct) (ct_store (snd (cas_topic_head backend table ct refname)))))))"
proof -
  have pk: "pack_ok (ct_store ct)" using assms(2) by (simp add: store_inv_def)
  obtain head ct1 where head: "cas_topic_head backend table ct refname = (head, ct1)" by fastforce
  let ?follows = "\<lambda>cand. (\<exists>cur a. head = Some (Inr (cur, a)) \<and> fst (cas_tree_ref_read ct refname) = Inr a \<and> recorded backend table (ct_store ct) cur a \<and>
        vr_topic_id cand = vr_topic_id cur \<and> unat (vr_seq cand) = unat (vr_seq cur) + 1 \<and> vr_prev cand = a) \<or>
      head = Some (Inl (Cas_rc CAS_ENOTFOUND)) \<and> (root_of (ct_store ct) refname = None \<or>
        (\<exists>a. fst (cas_tree_ref_read ct refname) = Inr a \<and> get_object table (ct_store ct) a = None) \<or> call_failed (ct_store ct) (ct_store ct1))"
  have follow: "?follows cand" if m: "may_follow head cand" for cand
    using m topic_head_spec(3) [OF assms(1) pk head] head_not_found [OF assms(1) pk, of backend refname ct1] head
    by (auto simp: may_follow_def split: option.splits sum.splits prod.splits)
  note out = publish_outcome [OF assms]
  have "\<exists>cand addr. cas_vrec_decode backend rec = Inr cand \<and> cas_vrec_address rec = Some addr \<and>
      get_object table (ct_store ct') addr \<noteq> None \<and> root_of (ct_store ct') refname = Some (bytes_of (addr @ [CHR 0x0A])) \<and>
      ?follows cand" if "r = Some (Cas_rc CAS_OK)"
  proof -
    obtain cand addr where c: "cas_vrec_decode backend rec = Inr cand" "cas_vrec_address rec = Some addr"
      "get_object table (ct_store ct') addr \<noteq> None" "root_of (ct_store ct') refname = Some (bytes_of (addr @ [CHR 0x0A]))"
      "may_follow head cand" using out \<open>r = Some (Cas_rc CAS_OK)\<close> head by auto
    show ?thesis by (intro exI [of _ cand] exI [of _ addr] conjI c(1-4) follow [OF c(5)])
  qed
  with out show ?thesis unfolding head fst_conv snd_conv by blast
qed

lemma publish_progress:
  assumes "codec_ok table" "store_inv table (ct_store ct)" "length (s_basedir (ct_store ct)) \<le> 200" "valid_ref_name refname"
    "cas_vrec_decode backend rec = Inr cand" "cas_vrec_address rec = Some addr"
    "cas_topic_head backend table ct refname = (head, ct1)" "quiet ct1" "may_follow head cand"
  shows "\<exists>ct'. cas_topic_publish backend table torn sec nsec ct refname rec note = (Some (Cas_rc CAS_OK), ct') \<and> quiet ct'"
proof -
  have pk: "pack_ok (ct_store ct)" using assms(2) by (simp add: store_inv_def)
  note hs = topic_head_spec [OF assms(1) pk assms(7)]
  have i1: "store_inv table (ct_store ct1)" "s_basedir (ct_store ct1) = s_basedir (ct_store ct)"
    using same_disk_inv [OF hs(2)] assms(2) hs(2) by (simp_all add: same_disk_def)
  note st = vrec_storable [OF verified_length [OF assms(5)]]
  have ad: "cas_hash_object CAS_VREC_TYPE rec = Some addr" using assms(6) by (simp add: cas_vrec_address_def)
  have v: "valid_hash addr" using hash_object_valid [OF ad] .
  have "length (s_basedir (ct_store ct1)) \<le> 400" "pack_ok (ct_store ct1)" "s_sys (ct_store ct1) = []"
    using i1 assms(3,8) by (simp_all add: store_inv_def quiet_def)
  from put_at_progress [OF this(3,1) st this(2) v] obtain s2 where
    p: "cas_put_object_at (ct_store ct1) CAS_VREC_TYPE rec addr = (Some CAS_OK, s2)" "s_sys s2 = []" by blast
  let ?ct2 = "ct1\<lparr>ct_store := s2\<rparr>"
  have put: "cas_tree_put_checked [] True True [] ct1 CAS_VREC_TYPE rec addr = (Some CAS_OK, ?ct2)"
    using p(1) raw_check [of "[]" True True "[]" rec addr] ad by (simp add: cas_tree_put_checked_def)
  have b2: "s_basedir s2 = s_basedir (ct_store ct)" using put_at_keeps_refs(2) [OF \<open>pack_ok (ct_store ct1)\<close> p(1)] i1(2) by simp
  obtain ct3 where com: "cas_tree_ref_commit torn sec nsec ?ct2 refname addr note = (CAS_OK, ct3)" "quiet ct3"
    using ref_commit_ok [of ?ct2 refname addr torn sec nsec "note"] p(2) b2 assms(3,4) v by (auto simp: quiet_def hex_hash_valid)
  consider (none) "head = Some (Inl (Cas_rc CAS_ENOTFOUND))" "cas_vrec_succeeds None None cand = Cas_rc CAS_OK"
    | (some) cur a where "head = Some (Inr (cur, a))" "cas_vrec_succeeds (Some cur) (Some a) cand = Cas_rc CAS_OK"
    using assms(9) succeeds_ok by (auto simp: may_follow_def cas_vrec_succeeds_def [of None] split: option.splits sum.splits prod.splits)
  then have "cas_topic_publish backend table torn sec nsec ct refname rec note = (Some (Cas_rc CAS_OK), ct3)"
    using assms(5-7) put com(1) by cases (simp_all add: cas_topic_publish_def)
  with com(2) show ?thesis by blast
qed

text \<open>
  With nothing failing, a record that verifies and may follow the head is published, and it is then the head: the next
  resolution of the topic gives this record and its address. The store must not hold another object under that address.
\<close>

theorem topic_published:
  assumes "codec_ok table" "store_inv table (ct_store ct)" "quiet ct" "length (s_basedir (ct_store ct)) \<le> 200" "valid_ref_name refname"
    "cas_vrec_decode backend rec = Inr cand" "cas_vrec_address rec = Some addr"
    "may_follow (fst (cas_topic_head backend table ct refname)) cand"
    "get_object table (ct_store ct) addr = None \<or> get_object table (ct_store ct) addr = Some (CAS_VREC_TYPE, rec)"
  shows "\<exists>ct'. cas_topic_publish backend table torn sec nsec ct refname rec note = (Some (Cas_rc CAS_OK), ct') \<and>
    cas_topic_head backend table ct' refname = (Some (Inr (cand, addr)), ct')"
proof -
  have pk: "pack_ok (ct_store ct)" using assms(2) by (simp add: store_inv_def)
  obtain head ct1 where head: "cas_topic_head backend table ct refname = (head, ct1)" by fastforce
  have "ct1 = ct" using topic_head_spec(4) [OF assms(1) pk head assms(3)] .
  then have q1: "quiet ct1" "may_follow head cand" using assms(3,8) head by simp_all
  obtain ct' where run: "cas_topic_publish backend table torn sec nsec ct refname rec note = (Some (Cas_rc CAS_OK), ct')" "quiet ct'"
    using publish_progress [OF assms(1,2,4-7) head q1] by blast
  note out = publish_outcome [OF assms(1,2) run(1)]
  then have st: "get_object table (ct_store ct') addr = Some (CAS_VREC_TYPE, rec)" "root_of (ct_store ct') refname = Some (bytes_of (addr @ [CHR 0x0A]))"
    "s_basedir (ct_store ct') = s_basedir (ct_store ct)" using assms(7,9) by auto
  have v: "valid_hash addr" using hash_object_valid assms(7) unfolding cas_vrec_address_def by blast
  have rd: "cas_tree_ref_read ct' refname = (Inr addr, ct')"
    using ref_read_root [OF run(2) _ assms(5) _ st(2)] assms(4) st(3) v by (simp add: hex_hash_valid)
  have "vchain_load backend table (ct_store ct') addr = (Some (Inr cand), ct_store ct')"
    using open_object_quiet_get [OF _ st(1)] run(2) assms(6) by (simp add: vchain_load_def quiet_def)
  then show ?thesis using run(1) rd by (simp add: cas_topic_head_def load_record_chain)
qed

text \<open>
  C24. A head that cannot be opened counts as none. If opening the file of the reference fails once, any record that
  verifies is published whatever the head is: one with a lower number, or of another topic, replaces it.
\<close>

theorem topic_rollback:
  assumes "codec_ok table" "store_inv table (ct_store ct)" "s_sys (ct_store ct) = [False]" "length (s_basedir (ct_store ct)) \<le> 200"
    "valid_ref_name refname" "cas_vrec_decode backend rec = Inr cand" "cas_vrec_address rec = Some addr"
  shows "\<exists>ct'. cas_topic_publish backend table torn sec nsec ct refname rec note = (Some (Cas_rc CAS_OK), ct') \<and>
    root_of (ct_store ct') refname = Some (bytes_of (addr @ [CHR 0x0A]))"
proof -
  have "ref_path (ct_store ct) refname ''.root'' REF_PATH_MAX \<noteq> None" using ref_path_some [OF assms(4,5)] by (simp add: ref_exts_def)
  then obtain ct1 where head: "cas_topic_head backend table ct refname = (Some (Inl (Cas_rc CAS_ENOTFOUND)), ct1)" "quiet ct1"
    using assms(3,5) by (auto simp: cas_topic_head_def cas_tree_ref_read_def sys_call_def quiet_def)
  have "may_follow (Some (Inl (Cas_rc CAS_ENOTFOUND))) cand" by (simp add: may_follow_def)
  from publish_progress [OF assms(1,2,4-7) head this] obtain ct' where
    run: "cas_topic_publish backend table torn sec nsec ct refname rec note = (Some (Cas_rc CAS_OK), ct')" by blast
  from publish_outcome [OF assms(1,2) run] assms(7) run show ?thesis by auto
qed

text \<open>A depot with a topic.\<close>

definition topic_depot :: cas_tree where "topic_depot = \<lparr>ct_store = demo_store, ct_flags = 0\<rparr>"

lemma topic_depot_facts:
  "store_inv (codec_table []) (ct_store topic_depot)" "quiet topic_depot" "length (s_basedir (ct_store topic_depot)) \<le> 200"
  "valid_ref_name ''t''" "get_object table (ct_store topic_depot) h = None"
  "cas_topic_head backend table topic_depot ''t'' = (Some (Inl (Cas_rc CAS_ENOTFOUND)), topic_depot)"
proof -
  show q: "store_inv (codec_table []) (ct_store topic_depot)" "quiet topic_depot" "length (s_basedir (ct_store topic_depot)) \<le> 200"
    "valid_ref_name ''t''" "get_object table (ct_store topic_depot) h = None"
    using demo_store_facts(5,4) by (simp_all add: topic_depot_def quiet_def demo_store_def valid_ref_name_def ascii_def)
  show "cas_topic_head backend table topic_depot ''t'' = (Some (Inl (Cas_rc CAS_ENOTFOUND)), topic_depot)"
    using ref_path_some [OF q(3,4), of "''.root''"] q(2,4)
    by (simp add: cas_topic_head_def cas_tree_ref_read_def quiet_def ref_exts_def topic_depot_def demo_store_def)
qed

lemma topic_published_first:
  obtains rec addr ct' where "cas_vrec_decode (Some plain_eddsa) rec = Inr ((demo_vrec n)\<lparr>vr_topic_id := cas_sign_topic_id demo_seed\<rparr>)"
    "cas_vrec_address rec = Some addr"
    "cas_topic_publish (Some plain_eddsa) (codec_table []) 0 0 0 topic_depot ''t'' rec None = (Some (Cas_rc CAS_OK), ct')" "quiet ct'"
proof -
  obtain rec where rec: "cas_vrec_decode (Some plain_eddsa) rec = Inr ((demo_vrec n)\<lparr>vr_topic_id := cas_sign_topic_id demo_seed\<rparr>)"
    "length rec = CAS_VREC_LEN" by (rule demo_record)
  obtain addr where addr: "cas_vrec_address rec = Some addr" using vrec_address_some [OF rec(2)] by blast
  have "may_follow (Some (Inl (Cas_rc CAS_ENOTFOUND))) ((demo_vrec n)\<lparr>vr_topic_id := cas_sign_topic_id demo_seed\<rparr>)" by (simp add: may_follow_def)
  from publish_progress [OF codec_none_ok topic_depot_facts(1,3,4) rec(1) addr topic_depot_facts(6) topic_depot_facts(2) this] that rec addr
  show thesis by blast
qed

theorem topic_publish_safe_witness:
  "\<exists>rec addr ct'. cas_topic_publish (Some plain_eddsa) (codec_table []) 0 0 0 topic_depot ''t'' rec None = (Some (Cas_rc CAS_OK), ct') \<and>
    root_of (ct_store ct') ''t'' = Some (bytes_of (addr @ [CHR 0x0A])) \<and> root_of (ct_store ct') ''u'' = None"
proof (rule topic_published_first [of 0])
  fix rec addr ct'
  assume run: "cas_topic_publish (Some plain_eddsa) (codec_table []) 0 0 0 topic_depot ''t'' rec None = (Some (Cas_rc CAS_OK), ct')"
  have "root_of (ct_store topic_depot) ''u'' = None" by (simp add: root_of_def topic_depot_def demo_store_def)
  moreover note safe = topic_publish_safe [OF codec_none_ok topic_depot_facts(1) run]
  have "root_of (ct_store ct') ''u'' = root_of (ct_store topic_depot) ''u''"
    using safe [THEN conjunct2, THEN conjunct2, THEN conjunct1] by simp
  moreover obtain addr where "root_of (ct_store ct') ''t'' = Some (bytes_of (addr @ [CHR 0x0A]))"
    using safe [THEN conjunct2, THEN conjunct2, THEN conjunct2, THEN conjunct2, THEN mp, OF refl] by metis
  ultimately show ?thesis using run by metis
qed

theorem topic_published_witness:
  "\<exists>rec addr v ct'. cas_topic_publish (Some plain_eddsa) (codec_table []) 0 0 0 topic_depot ''t'' rec None = (Some (Cas_rc CAS_OK), ct') \<and>
    cas_topic_head (Some plain_eddsa) (codec_table []) ct' ''t'' = (Some (Inr (v, addr)), ct') \<and> vr_seq v = 5"
proof (rule topic_published_first [of 5])
  fix rec addr
  assume r: "cas_vrec_decode (Some plain_eddsa) rec = Inr ((demo_vrec 5)\<lparr>vr_topic_id := cas_sign_topic_id demo_seed\<rparr>)"
    "cas_vrec_address rec = Some addr"
  have "may_follow (fst (cas_topic_head (Some plain_eddsa) (codec_table []) topic_depot ''t'')) ((demo_vrec 5)\<lparr>vr_topic_id := cas_sign_topic_id demo_seed\<rparr>)"
    by (simp add: topic_depot_facts(6) may_follow_def)
  from topic_published [OF codec_none_ok topic_depot_facts(1-4) r this] topic_depot_facts(5)
  obtain ct' where "cas_topic_publish (Some plain_eddsa) (codec_table []) 0 0 0 topic_depot ''t'' rec None = (Some (Cas_rc CAS_OK), ct')"
    "cas_topic_head (Some plain_eddsa) (codec_table []) ct' ''t'' = (Some (Inr ((demo_vrec 5)\<lparr>vr_topic_id := cas_sign_topic_id demo_seed\<rparr>, addr)), ct')"
    by blast
  moreover have "vr_seq ((demo_vrec 5)\<lparr>vr_topic_id := cas_sign_topic_id demo_seed\<rparr>) = 5" by (simp add: demo_vrec_def)
  ultimately show ?thesis by blast
qed

text \<open>The head has number 5, and a record with number 0 that names no predecessor replaces it.\<close>

theorem topic_rollback_witness:
  "\<exists>ct rec0 addr0 ct'. root_of (ct_store ct) ''t'' = Some (bytes_of (demo_hash @ [CHR 0x0A])) \<and>
    cas_topic_publish (Some plain_eddsa) (codec_table []) 0 0 0 ct ''t'' rec0 None = (Some (Cas_rc CAS_OK), ct') \<and>
    root_of (ct_store ct') ''t'' = Some (bytes_of (addr0 @ [CHR 0x0A]))"
proof -
  let ?s = "put_file (ref_file ''depot'' ''t'' ''.root'') (bytes_of (demo_hash @ [CHR 0x0A])) demo_store"
  let ?ct = "\<lparr>ct_store = ?s\<lparr>s_sys := [False]\<rparr>, ct_flags = 0\<rparr>"
  obtain rec where rec: "cas_vrec_decode (Some plain_eddsa) rec = Inr ((demo_vrec 0)\<lparr>vr_topic_id := cas_sign_topic_id demo_seed\<rparr>)"
    "length rec = CAS_VREC_LEN" by (rule demo_record)
  obtain addr where addr: "cas_vrec_address rec = Some addr" using vrec_address_some [OF rec(2)] by blast
  have "touches (ref_files (s_basedir demo_store) ''t'') demo_store (?s\<lparr>s_sys := [False]\<rparr>)"
    by (simp add: touches_def put_file_def ref_files_def ref_exts_def demo_store_def)
  from touches_inv [OF this, of "codec_table []"] have inv: "store_inv (codec_table []) (ct_store ?ct)"
    using demo_store_facts(5) by simp
  have b: "length (s_basedir (ct_store ?ct)) \<le> 200" "s_sys (ct_store ?ct) = [False]"
    "root_of (ct_store ?ct) ''t'' = Some (bytes_of (demo_hash @ [CHR 0x0A]))"
    by (simp_all add: put_file_def demo_store_def root_of_def)
  show ?thesis using topic_rollback [OF codec_none_ok inv b(2,1) topic_depot_facts(4) rec(1) addr] b(3) by blast
qed

end
