(* ===== verification/PackWrite.thy ===== *)
theory PackWrite
  imports ObjectClient
begin

unbundle bit_operations_syntax

text \<open>
  Writing and maintaining packs, \<open>cas-pack.c\<close>: iteration over a pack, its check, the import of a pack into a
  depot, building a pack from the loose objects and the pack that is there, and reclaiming the loose copies. Opening
  a depot and reloading its pack, \<open>cas.c\<close>, are here too. As in the rest of the store a temporary file shows only when
  it is renamed into place, what \<open>readdir\<close> returns is an argument, and \<^const>\<open>None\<close> is a read outside the mapping of a
  pack. The syncs of directories are best effort and change nothing in the model.
\<close>

section \<open>Opening\<close>

definition open_pack :: "cas \<Rightarrow> string \<Rightarrow> cas_pack option option \<times> cas" where
  "open_pack s path =
     (let (opened, s1) = sys_call s in
      (case (if opened then s_files s1 path else None) of
         None \<Rightarrow> (Some None, s1)
       | Some mp \<Rightarrow> (let (ok, s2) = sys_call s1 in (cas_pack_open ok (Some mp), s2))))"

definition pack_path :: "cas \<Rightarrow> string" where
  "pack_path s = s_basedir s @ ''/pack.dat''"

definition cas_reload_pack :: "cas \<Rightarrow> cas_rc option \<times> cas" where
  "cas_reload_pack s =
     (if length (pack_path s) \<ge> CAS_PATH_MAX then (Some CAS_ERR, s)
      else (case open_pack s (pack_path s) of
              (None, s1) \<Rightarrow> (None, s1)
            | (Some np, s1) \<Rightarrow> (Some CAS_OK, s1\<lparr>s_pack := np\<rparr>)))"

text \<open>The lock file is created empty if it is not there; \<open>fcntl\<close> waits until it has the lock or fails.\<close>

definition cas_lock_depot :: "cas \<Rightarrow> bool \<times> cas" where
  "cas_lock_depot s =
     (let lockpath = s_basedir s @ ''/.lock'' in
      if length lockpath \<ge> CAS_PATH_MAX then (False, s)
      else let (opened, s1) = sys_call s in
        if \<not> opened then (False, s1)
        else let s2 = (if s_files s1 lockpath = None then s1\<lparr>s_files := (s_files s1)(lockpath \<mapsto> [])\<rparr> else s1) in
          sys_call s2)"

text \<open>
  \<open>exists\<close> and \<open>resolves\<close> describe the depot directory as in \<^const>\<open>validate_basedir\<close>; the disk and the outcomes to come are
  those of the last argument. A depot is delivered with its state, or not at all.
\<close>

definition cas_new :: "bool \<Rightarrow> bool \<Rightarrow> string option \<Rightarrow> cas \<Rightarrow> cas option option \<times> cas" where
  "cas_new exists resolves basedir disk =
     (let (mem1, s1) = sys_call disk in
      if \<not> mem1 then (Some None, s1)
      else let (mem2, s2) = sys_call s1; base = (case basedir of None \<Rightarrow> ''depot'' | Some b \<Rightarrow> b) in
        if \<not> mem2 then (Some None, s2)
        else if \<not> validate_basedir exists resolves base then (Some None, s2)
        else let (locked, s3) = cas_lock_depot (s2\<lparr>s_basedir := base, s_pack := None\<rparr>) in
          if \<not> locked then (Some None, s3)
          else if length (pack_path s3) < CAS_PATH_MAX then
            (case open_pack s3 (pack_path s3) of
               (None, s4) \<Rightarrow> (None, s4)
             | (Some np, s4) \<Rightarrow> (Some (Some (s4\<lparr>s_pack := np\<rparr>)), s4\<lparr>s_pack := np\<rparr>))
          else (Some (Some s3), s3))"

section \<open>Iteration\<close>

definition entry_address :: "cas_pack \<Rightarrow> nat \<Rightarrow> nat" where
  "entry_address pack i = p_index pack + unat (of_nat i * of_nat CAS_PACK_BLOCK :: u64)"

text \<open>The name of an entry, as bytes and in hexadecimal.\<close>

definition index_name :: "cas_pack \<Rightarrow> nat \<Rightarrow> byte list option" where
  "index_name pack i = peek (p_map pack) (entry_address pack i + PACK_IDX_HASH) CAS_HASH_LEN"

fun pack_loop :: "cas_pack \<Rightarrow> 'c visitor \<Rightarrow> nat list \<Rightarrow> cas \<times> 'c \<Rightarrow> (cas \<times> 'c) option" where
  "pack_loop pack fn [] x = Some x"
| "pack_loop pack fn (i # is) x =
     (case index_name pack i of
        None \<Rightarrow> None
      | Some bin \<Rightarrow> let (stop, x') = fn x (cas_hex_encode bin) in if stop then Some x' else pack_loop pack fn is x')"

definition cas_pack_foreach :: "cas_pack \<Rightarrow> 'c visitor \<Rightarrow> cas \<times> 'c \<Rightarrow> (cas \<times> 'c) option" where
  "cas_pack_foreach pack fn x = pack_loop pack fn [0..<unat (p_count pack)] x"

section \<open>Checking a pack\<close>

text \<open>
  The verdict on one entry. An object whose header does not fit its buffer would be compared with a digest that was
  never computed; that is no defined verdict either.
\<close>

definition pack_fsck_entry :: "cas_codec list \<Rightarrow> bool \<Rightarrow> cas_pack \<Rightarrow> nat \<Rightarrow> byte list \<Rightarrow> cas_fsck_status option" where
  "pack_fsck_entry table mem pack e bin =
     (let trailer_off = entry_offset pack e in
      if trailer_off + of_nat CAS_PACK_BLOCK > p_maplen pack then Some CAS_FSCK_IOERR
      else (case peek (p_map pack) (unat trailer_off) CAS_PACK_BLOCK of
        None \<Rightarrow> None
      | Some tr \<Rightarrow>
          let magic = take CAS_PACK_MAGIC_LEN tr in
          if magic \<noteq> CAS_PACK_TRAILER_MAGIC \<and> magic \<noteq> CAS_PACK_TRAILER_MAGIC_V2 then Some CAS_FSCK_CORRUPT
          else let framed = (magic \<noteq> CAS_PACK_TRAILER_MAGIC) in
            (case pack_parse_header (drop CAS_PACK_MAGIC_LEN tr) (CAS_TYPE_MAX + 1) of
               None \<Rightarrow> Some CAS_FSCK_CORRUPT
             | Some (type, content_len) \<Rightarrow>
                 if cas_type_is_reencoded type then Some CAS_FSCK_REENCODED
                 else let stored = entry_stored pack e; region_size = (if stored \<noteq> 0 then stored else content_len) in
                   if region_size > trailer_off then Some CAS_FSCK_CORRUPT
                   else (case peek (p_map pack) (unat (trailer_off - region_size)) (unat region_size) of
                     None \<Rightarrow> None
                   | Some region \<Rightarrow>
                       (case cas_codec_region_decode table mem region framed (unat content_len) of
                          Inl rc \<Rightarrow> Some (if rc = CAS_ETYPE then CAS_FSCK_NOCODEC
                            else if rc = CAS_ENOMEM then CAS_FSCK_IOERR else CAS_FSCK_CORRUPT)
                        | Inr data \<Rightarrow>
                            (case cas_digest_object type data of
                               None \<Rightarrow> None
                             | Some digest \<Rightarrow> Some (if digest \<noteq> bin then CAS_FSCK_CORRUPT else CAS_FSCK_OK)))))))"

text \<open>The errors seen, and the state of the caller's callback.\<close>

fun pack_fsck_loop ::
    "cas_codec list \<Rightarrow> bool list \<Rightarrow> cas_pack \<Rightarrow> ('c \<Rightarrow> string \<Rightarrow> cas_fsck_status \<Rightarrow> bool \<times> 'c) option \<Rightarrow> nat list
      \<Rightarrow> nat \<Rightarrow> 'c \<Rightarrow> (nat \<times> 'c) option" where
  "pack_fsck_loop table mem pack fn [] errors c = Some (errors, c)"
| "pack_fsck_loop table mem pack fn (i # is) errors c =
     (case index_name pack i of
        None \<Rightarrow> None
      | Some bin \<Rightarrow>
          (case pack_fsck_entry table (case mem of [] \<Rightarrow> True | m # ms \<Rightarrow> m) pack (entry_address pack i) bin of
             None \<Rightarrow> None
           | Some status \<Rightarrow>
               let errors' = (if status \<noteq> CAS_FSCK_OK \<and> status \<noteq> CAS_FSCK_NOCODEC \<and> status \<noteq> CAS_FSCK_REENCODED
                              then Suc errors else errors);
                   (stop, c') = (case fn of None \<Rightarrow> (False, c) | Some f \<Rightarrow> f c (cas_hex_encode bin) status)
               in if stop then Some (errors', c') else pack_fsck_loop table (drop 1 mem) pack fn is errors' c'))"

text \<open>\<open>mem\<close> lists the outcomes of the allocations for decoding, one per entry.\<close>

definition cas_pack_fsck ::
    "cas_codec list \<Rightarrow> bool list \<Rightarrow> cas_pack \<Rightarrow> ('c \<Rightarrow> string \<Rightarrow> cas_fsck_status \<Rightarrow> bool \<times> 'c) option \<Rightarrow> 'c \<Rightarrow> (cas_rc \<times> 'c) option" where
  "cas_pack_fsck table mem pack fn c =
     (case pack_fsck_loop table mem pack fn [0..<unat (p_count pack)] 0 c of
        None \<Rightarrow> None
      | Some (errors, c') \<Rightarrow> Some (if errors \<noteq> 0 then CAS_ERR else CAS_OK, c'))"

section \<open>Import\<close>

record import_ctx =
  ic_total :: u64
  ic_stored :: u64
  ic_rc :: cas_rc
  ic_fault :: bool

type_synonym verifier = "string \<Rightarrow> byte list \<Rightarrow> string \<Rightarrow> cas_rc"

text \<open>The test at the trust boundary; \<^const>\<open>None\<close> where a name is compared with one that was never computed.\<close>

definition import_admits :: "verifier option \<Rightarrow> string \<Rightarrow> byte list \<Rightarrow> string \<Rightarrow> bool option" where
  "import_admits verify type data hash =
     (case verify of
        Some v \<Rightarrow> Some (v type data hash = CAS_OK)
      | None \<Rightarrow>
          if cas_type_is_reencoded type then Some False
          else (case cas_hash_object type data of None \<Rightarrow> None | Some computed \<Rightarrow> Some (computed = hash)))"

definition import_one ::
    "cas_codec list \<Rightarrow> cas_compress_config \<Rightarrow> cas_pack \<Rightarrow> compress_policy \<Rightarrow> int \<Rightarrow> verifier option \<Rightarrow> import_ctx visitor" where
  "import_one table cfg pack policy codec verify x hash =
     (let (s, ic) = x; (mem, s1) = sys_call s in
      case cas_pack_lookup table mem pack hash (Some (CAS_TYPE_MAX + 1)) of
        None \<Rightarrow> (True, s1, ic\<lparr>ic_fault := True\<rparr>)
      | Some (Inl rc) \<Rightarrow> (True, s1, ic\<lparr>ic_rc := rc\<rparr>)
      | Some (Inr (type, data)) \<Rightarrow>
          (case import_admits verify type data hash of
             None \<Rightarrow> (True, s1, ic\<lparr>ic_fault := True\<rparr>)
           | Some False \<Rightarrow> (True, s1, ic\<lparr>ic_rc := CAS_ERR\<rparr>)
           | Some True \<Rightarrow>
               (case cas_exists s1 hash of
                  None \<Rightarrow> (True, s1, ic\<lparr>ic_fault := True\<rparr>)
                | Some existed \<Rightarrow>
                    (case (if cas_type_is_reencoded type then cas_put_object_at s1 type data hash
                           else (case cas_put_object_z table cfg s1 type (cas_codec_policy policy codec data) data of
                                   (r, s2) \<Rightarrow> (map_option (\<lambda>y. case y of Inl rc \<Rightarrow> rc | Inr out \<Rightarrow> CAS_OK) r, s2))) of
                       (None, s2) \<Rightarrow> (True, s2, ic\<lparr>ic_fault := True\<rparr>)
                     | (Some rc, s2) \<Rightarrow>
                         if rc \<noteq> CAS_OK then (True, s2, ic\<lparr>ic_rc := rc\<rparr>)
                         else (False, s2, ic\<lparr>ic_total := ic_total ic + 1,
                           ic_stored := (if existed then ic_stored ic else ic_stored ic + 1)\<rparr>)))))"

text \<open>The result is the code of the first failure, or the numbers of objects seen and of objects that were new.\<close>

definition cas_pack_import ::
    "cas_codec list \<Rightarrow> cas_compress_config \<Rightarrow> cas_pack \<Rightarrow> cas \<Rightarrow> compress_policy \<Rightarrow> int \<Rightarrow> verifier option
      \<Rightarrow> (cas_rc + u64 \<times> u64) option \<times> cas" where
  "cas_pack_import table cfg pack s policy codec verify =
     (case cas_pack_foreach pack (import_one table cfg pack policy codec verify)
         (s, \<lparr>ic_total = 0, ic_stored = 0, ic_rc = CAS_OK, ic_fault = False\<rparr>) of
        None \<Rightarrow> (None, s)
      | Some (s', ic) \<Rightarrow>
          (if ic_fault ic then None
           else if ic_rc ic \<noteq> CAS_OK then Some (Inl (ic_rc ic)) else Some (Inr (ic_total ic, ic_stored ic)), s'))"

section \<open>The names to pack\<close>

record hash_list =
  hl_hashes :: "byte list list"
  hl_cap :: nat

definition hash_list_init :: hash_list where
  "hash_list_init = \<lparr>hl_hashes = [], hl_cap = 0\<rparr>"

text \<open>
  The names that reach this visitor are valid, so that they decode. A failing allocation ends the iteration, and no
  caller looks at why it ended.
\<close>

definition collect_hash :: "hash_list visitor" where
  "collect_hash x hash =
     (let (s, hl) = x;
          full = (length (hl_hashes hl) \<ge> hl_cap hl);
          (ok, s1) = (if full then sys_call s else (True, s));
          cap = (if full then (if hl_cap hl \<noteq> 0 then hl_cap hl * 2 else 64) else hl_cap hl)
      in if \<not> ok then (True, s1, hl)
         else (False, s1, \<lparr>hl_hashes = hl_hashes hl @ [the (cas_hex_decode hash CAS_HASH_LEN)], hl_cap = cap\<rparr>))"

text \<open>\<open>qsort\<close> by \<open>memcmp\<close>: on names of one length the order is total, and equal names are interchangeable.\<close>

definition sort_hashes :: "byte list list \<Rightarrow> byte list list" where
  "sort_hashes hashes = sort hashes"

text \<open>The loop that removes repetitions compares each name with the last one it kept.\<close>

fun drop_repeats :: "byte list \<Rightarrow> byte list list \<Rightarrow> byte list list" where
  "drop_repeats last_kept [] = [last_kept]"
| "drop_repeats last_kept (h # hs) =
     (if memcmp h last_kept \<noteq> 0 then last_kept # drop_repeats h hs else drop_repeats last_kept hs)"

definition unique_hashes :: "byte list list \<Rightarrow> byte list list" where
  "unique_hashes hashes = (case sort_hashes hashes of [] \<Rightarrow> [] | h # hs \<Rightarrow> drop_repeats h hs)"

section \<open>Building a pack\<close>

text \<open>The data region and the trailer of an object: of its loose file, or of the pack that is being replaced.\<close>

definition pack_source :: "cas \<Rightarrow> cas_pack option \<Rightarrow> byte list \<Rightarrow> (cas_rc + byte list \<times> byte list) option \<times> cas" where
  "pack_source s old bin =
     (case cas_open_loose_raw s (cas_hex_encode bin) of
        (Inr src, s1) \<Rightarrow> (Some (Inr src), s1)
      | (Inl rc, s1) \<Rightarrow>
          (case (if rc = CAS_ENOTFOUND then old else None) of
             None \<Rightarrow> (Some (Inl rc), s1)
           | Some p \<Rightarrow>
               (case pack_raw_region p bin of
                  None \<Rightarrow> (None, s1)
                | Some (Inl _) \<Rightarrow> (Some (Inl rc), s1)
                | Some (Inr src) \<Rightarrow> (Some (Inr src), s1))))"

text \<open>The bytes to write for an object and its trailer: as they are, or compressed if that saves an eighth.\<close>

definition pack_emit ::
    "cas_codec list \<Rightarrow> compress_policy \<Rightarrow> int \<Rightarrow> cas \<Rightarrow> byte list \<Rightarrow> byte list \<Rightarrow> (byte list \<times> byte list) \<times> cas" where
  "pack_emit table policy codec s src tr =
     (let framed_in = (take CAS_PACK_MAGIC_LEN tr = CAS_PACK_TRAILER_MAGIC_V2);
          use = (if \<not> framed_in \<and> length src > 0 then cas_codec_policy policy codec src else CAS_CODEC_NONE)
      in if use \<noteq> CAS_CODEC_NONE \<and> cas_codec_can_encode table use then
           let (mem, s1) = sys_call s in
           if \<not> mem then ((src, tr), s1)
           else (case cas_codec_encode table use src (length src) of
                   Inl rc \<Rightarrow> ((src, tr), s1)
                 | Inr payload \<Rightarrow>
                     if length payload + 1 < length src - length src div 8
                     then ((word_of_int use # payload, CAS_PACK_TRAILER_MAGIC_V2 @ drop CAS_PACK_MAGIC_LEN tr), s1)
                     else ((src, tr), s1))
         else ((src, tr), s))"

definition index_entry :: "byte list \<Rightarrow> u64 \<Rightarrow> u64 \<Rightarrow> byte list" where
  "index_entry bin offset stored_size = bin @ store_le64 offset @ store_le64 stored_size @ replicate 16 0"

text \<open>The loop over the names: the bytes written and the index that grows beside them.\<close>

fun write_objects ::
    "cas_codec list \<Rightarrow> compress_policy \<Rightarrow> int \<Rightarrow> cas_pack option \<Rightarrow> cas \<Rightarrow> u64 \<Rightarrow> byte list list
      \<Rightarrow> cas_rc option \<times> cas \<times> byte list \<times> byte list" where
  "write_objects table policy codec old s offset [] = (Some CAS_OK, s, [], [])"
| "write_objects table policy codec old s offset (bin # bins) =
     (case pack_source s old bin of
        (None, s1) \<Rightarrow> (None, s1, [], [])
      | (Some (Inl rc), s1) \<Rightarrow> (Some rc, s1, [], [])
      | (Some (Inr (src, tr)), s1) \<Rightarrow>
          (case pack_parse_header (drop CAS_PACK_MAGIC_LEN tr) (CAS_TYPE_MAX + 1) of
             None \<Rightarrow> (Some CAS_ERR, s1, [], [])
           | Some (type, content_len) \<Rightarrow>
               (case pack_emit table policy codec s1 src tr of ((emit, tr'), s2) \<Rightarrow>
                  (case write_chunks s2 (data_chunk emit @ [tr']) of (rc, s3) \<Rightarrow>
                     if rc \<noteq> CAS_OK then (Some rc, s3, [], [])
                     else
                       let emit_size = of_nat (length emit); off = offset + emit_size;
                           e = index_entry bin off (if emit_size = content_len then 0 else emit_size)
                       in (case write_objects table policy codec old s3 (off + of_nat CAS_PACK_BLOCK) bins of
                             (r, s4, out, index) \<Rightarrow> (r, s4, emit @ tr' @ out, e @ index))))))"

definition pack_footer :: "nat \<Rightarrow> byte list \<Rightarrow> byte list" where
  "pack_footer n index =
     (let start = CAS_PACK_FOOTER_MAGIC_V1 @ store_le64 (of_nat n) in
      start @ cas_digest (index @ start) @ replicate 16 0)"

text \<open>From the temporary file to the rename.\<close>

definition write_pack ::
    "cas_codec list \<Rightarrow> compress_policy \<Rightarrow> int \<Rightarrow> cas_pack option \<Rightarrow> cas \<Rightarrow> string \<Rightarrow> byte list list \<Rightarrow> cas_rc option \<times> cas" where
  "write_pack table policy codec old s path bins =
     (if length (path @ ''.XXXXXX'') \<ge> CAS_PATH_MAX then (Some CAS_ERR, s)
      else let (made, s1) = sys_call s in
        if \<not> made then (Some CAS_EIO, s1)
        else let (mem, s2) = sys_call s1 in
          if \<not> mem then (Some CAS_ENOMEM, s2)
          else (case write_objects table policy codec old s2 0 bins of (r, s3, out, index) \<Rightarrow>
            if r \<noteq> Some CAS_OK then (r, s3)
            else (case write_chunks s3 [index] of (rc, s4) \<Rightarrow>
              if rc \<noteq> CAS_OK then (Some rc, s4)
              else let (mem2, s5) = sys_call s4 in
                if \<not> mem2 then (Some CAS_ENOMEM, s5)
                else let ft = pack_footer (length bins) index in
                  (case write_chunks s5 [ft] of (rc, s6) \<Rightarrow>
                    if rc \<noteq> CAS_OK then (Some rc, s6)
                    else let (synced, s7) = sys_call s6 in
                      if \<not> synced then (Some CAS_EIO, s7)
                      else let (renamed, s8) = sys_call s7 in
                        if \<not> renamed then (Some CAS_EIO, s8)
                        else (Some CAS_OK, s8\<lparr>s_files := (s_files s8)(path \<mapsto> out @ index @ ft)\<rparr>)))))"

text \<open>\<open>tdir\<close> is what the depot directory lists.\<close>

definition pack_create ::
    "cas_codec list \<Rightarrow> top_dir \<Rightarrow> cas \<Rightarrow> string \<Rightarrow> compress_policy \<Rightarrow> int \<Rightarrow> (string \<Rightarrow> bool) option \<Rightarrow> cas_rc option \<times> cas" where
  "pack_create table tdir s path policy codec keep =
     (case open_pack s path of
        (None, s1) \<Rightarrow> (None, s1)
      | (Some old, s1) \<Rightarrow>
          (case cas_foreach tdir collect_hash (s1, hash_list_init) of (frc, s2, hl1) \<Rightarrow>
             (case (case old of None \<Rightarrow> Some (s2, hl1) | Some p \<Rightarrow> cas_pack_foreach p collect_hash (s2, hl1)) of
                None \<Rightarrow> (None, s2)
              | Some (s3, hl2) \<Rightarrow>
                  if hl_hashes hl2 = [] then (Some CAS_OK, s3)
                  else
                    let bins = unique_hashes (hl_hashes hl2);
                        kept = (case keep of None \<Rightarrow> bins | Some k \<Rightarrow> filter (\<lambda>bin. k (cas_hex_encode bin)) bins)
                    in if keep \<noteq> None \<and> kept = [] then (Some CAS_OK, s3)
                       else write_pack table policy codec old s3 path kept)))"

definition cas_pack_create :: "cas_codec list \<Rightarrow> top_dir \<Rightarrow> cas \<Rightarrow> string \<Rightarrow> cas_rc option \<times> cas" where
  "cas_pack_create table tdir s path = pack_create table tdir s path CAS_COMPRESS_NEVER CAS_CODEC_NONE None"

definition cas_pack_create_z ::
    "cas_codec list \<Rightarrow> top_dir \<Rightarrow> cas \<Rightarrow> string \<Rightarrow> compress_policy \<Rightarrow> int \<Rightarrow> cas_rc option \<times> cas" where
  "cas_pack_create_z table tdir s path policy codec = pack_create table tdir s path policy codec None"

definition cas_pack_create_filtered ::
    "cas_codec list \<Rightarrow> top_dir \<Rightarrow> cas \<Rightarrow> string \<Rightarrow> compress_policy \<Rightarrow> int \<Rightarrow> (string \<Rightarrow> bool) option \<Rightarrow> cas_rc option \<times> cas" where
  "cas_pack_create_filtered table tdir s path policy codec keep = pack_create table tdir s path policy codec keep"

section \<open>Reclaiming loose copies\<close>

definition reclaimable :: "cas_codec list \<Rightarrow> bool \<Rightarrow> cas_pack \<Rightarrow> string \<Rightarrow> bool option" where
  "reclaimable table mem pack hex =
     (case cas_pack_lookup table mem pack hex (Some (CAS_TYPE_MAX + 1)) of
        None \<Rightarrow> None
      | Some (Inl rc) \<Rightarrow> Some False
      | Some (Inr (type, data)) \<Rightarrow>
          Some (if cas_type_is_reencoded type then True else cas_hash_object type data = Some hex))"

fun reclaim_loop :: "cas_codec list \<Rightarrow> cas_pack \<Rightarrow> cas \<Rightarrow> u64 \<Rightarrow> byte list list \<Rightarrow> u64 option \<times> cas" where
  "reclaim_loop table pack s removed [] = (Some removed, s)"
| "reclaim_loop table pack s removed (bin # bins) =
     (let hex = cas_hex_encode bin; (mem, s1) = sys_call s in
      case reclaimable table mem pack hex of
        None \<Rightarrow> (None, s1)
      | Some False \<Rightarrow> reclaim_loop table pack s1 removed bins
      | Some True \<Rightarrow>
          (case cas_remove s1 hex of (rc, s2) \<Rightarrow>
             reclaim_loop table pack s2 (if rc = CAS_OK then removed + 1 else removed) bins))"

text \<open>The result of \<^const>\<open>cas_reload_pack\<close> is not looked at; the count is that of the copies removed.\<close>

definition cas_pack_reclaim :: "cas_codec list \<Rightarrow> top_dir \<Rightarrow> cas \<Rightarrow> string \<Rightarrow> (cas_rc \<times> u64) option \<times> cas" where
  "cas_pack_reclaim table tdir s path =
     (case open_pack s path of
        (None, s1) \<Rightarrow> (None, s1)
      | (Some None, s1) \<Rightarrow> (Some (CAS_OK, 0), s1)
      | (Some (Some pack), s1) \<Rightarrow>
          (case cas_reload_pack s1 of
             (None, s2) \<Rightarrow> (None, s2)
           | (Some rrc, s2) \<Rightarrow>
               (case cas_foreach tdir collect_hash (s2, hash_list_init) of (frc, s3, hl) \<Rightarrow>
                  (case reclaim_loop table pack s3 0 (hl_hashes hl) of
                     (None, s4) \<Rightarrow> (None, s4)
                   | (Some removed, s4) \<Rightarrow> (Some (CAS_OK, removed), s4)))))"

end
