(* ===== verification/PackLayout.thy ===== *)
theory PackLayout
  imports PackWrite
begin

unbundle bit_operations_syntax

text \<open>
  The image that \<open>pack_create\<close> writes, and what a reader finds in it: the layout of objects, index and footer, and
  that opening the image and looking a name up gives back the object that was put in.
\<close>

section \<open>Objects in a pack\<close>

text \<open>A name, a data region and a trailer; the size as the index records it.\<close>

type_synonym packed = "byte list \<times> byte list \<times> byte list"

fun recorded_size :: "packed \<Rightarrow> u64" where
  "recorded_size (bin, region, tr) =
     (case pack_parse_header (drop CAS_PACK_MAGIC_LEN tr) (CAS_TYPE_MAX + 1) of
        None \<Rightarrow> 0
      | Some (t, n) \<Rightarrow> if of_nat (length region) = n then 0 else of_nat (length region))"

definition pack_data :: "packed list \<Rightarrow> byte list" where
  "pack_data objs = concat (map (\<lambda>(bin, region, tr). region @ tr) objs)"

fun pack_index :: "nat \<Rightarrow> packed list \<Rightarrow> byte list" where
  "pack_index off [] = []"
| "pack_index off ((bin, region, tr) # objs) =
     index_entry bin (of_nat (off + length region)) (recorded_size (bin, region, tr)) @
     pack_index (off + length region + CAS_PACK_BLOCK) objs"

fun packed_ok :: "packed \<Rightarrow> bool" where
  "packed_ok (bin, region, tr) \<longleftrightarrow> length bin = CAS_HASH_LEN \<and> length tr = CAS_PACK_BLOCK \<and>
     pack_parse_header (drop CAS_PACK_MAGIC_LEN tr) (CAS_TYPE_MAX + 1) \<noteq> None"

lemma length_index_entry: "length bin = CAS_HASH_LEN \<Longrightarrow> length (index_entry bin off st) = CAS_PACK_BLOCK"
  by (simp add: index_entry_def pack_consts)

lemma length_pack_index: "list_all packed_ok objs \<Longrightarrow> length (pack_index off objs) = CAS_PACK_BLOCK * length objs"
  by (induction off objs rule: pack_index.induct) (simp_all add: length_index_entry)

text \<open>Where the parts of an object are in a buffer that holds the data and the index.\<close>

definition entry_in :: "byte list \<Rightarrow> nat \<Rightarrow> packed \<Rightarrow> bool" where
  "entry_in buf e ob \<longleftrightarrow> (case ob of (bin, region, tr) \<Rightarrow>
     \<exists>off. seg_at buf e (index_entry bin (of_nat off) (recorded_size ob)) \<and>
       length region \<le> off \<and> seg_at buf (off - length region) region \<and> seg_at buf off tr)"

lemma index_entry_in:
  assumes "seg_at buf k (pack_data objs)" "seg_at buf a (pack_index k objs)" "list_all packed_ok objs" "i < length objs"
  shows "entry_in buf (a + CAS_PACK_BLOCK * i) (objs ! i)"
  using assms
proof (induction objs arbitrary: k a i)
  case (Cons ob objs)
  obtain bin region tr where ob: "ob = (bin, region, tr)" by (cases ob)
  have len: "length bin = CAS_HASH_LEN" "length tr = CAS_PACK_BLOCK" using Cons.prems(3) by (simp_all add: ob)
  have d: "seg_at buf k region" "seg_at buf (k + length region) tr" "seg_at buf (k + length region + CAS_PACK_BLOCK) (pack_data objs)"
    using Cons.prems(1) by (simp_all add: ob pack_data_def seg_at_append len add.assoc)
  have x: "seg_at buf a (index_entry bin (of_nat (k + length region)) (recorded_size ob))"
    "seg_at buf (a + CAS_PACK_BLOCK) (pack_index (k + length region + CAS_PACK_BLOCK) objs)"
    using Cons.prems(2) by (simp_all add: ob seg_at_append length_index_entry len)
  show ?case
  proof (cases i)
    case 0
    have "entry_in buf a ob" using d x unfolding entry_in_def ob prod.case by (intro exI [of _ "k + length region"]) simp
    then show ?thesis by (simp add: 0)
  next
    case (Suc j)
    from Cons.IH [OF d(3) x(2), of j] Cons.prems(3,4) have "entry_in buf (a + CAS_PACK_BLOCK + CAS_PACK_BLOCK * j) (objs ! j)"
      by (simp add: Suc)
    then show ?thesis by (simp add: Suc add.assoc)
  qed
qed simp

section \<open>Reading an entry\<close>

lemma seg_at_peek: "seg_at buf off s \<Longrightarrow> n = length s \<Longrightarrow> peek buf off n = Some s"
  by (auto simp: seg_at_def peek_def)

lemma load_le64_take: "load_le64 (take 8 p) = load_le64 p"
  by (simp add: le_fields(6)) (intro bit_eqI, simp add: bit_le_load)

lemma seg_at_load64: "seg_at buf off (store_le64 v) \<Longrightarrow> load_le64 (drop off buf) = v"
  using load_le64_take [of "drop off buf"] by (simp add: seg_at_def)

lemma entry_fields:
  assumes "entry_in (p_map p) e (bin, region, tr)" "length bin = CAS_HASH_LEN" "length (p_map p) < 2 ^ 64"
  obtains off where "take CAS_HASH_LEN (drop e (p_map p)) = bin" "unat (entry_offset p e) = off"
    "entry_stored p e = recorded_size (bin, region, tr)" "length region \<le> off"
    "seg_at (p_map p) (off - length region) region" "seg_at (p_map p) off tr"
proof -
  obtain off where *: "seg_at (p_map p) e (index_entry bin (of_nat off) (recorded_size (bin, region, tr)))"
    "length region \<le> off" "seg_at (p_map p) (off - length region) region" "seg_at (p_map p) off tr"
    using assms(1) unfolding entry_in_def prod.case by blast
  have "off < 2 ^ 64" using *(4) assms(3) by (simp add: seg_at_def)
  then have u: "unat (of_nat off :: u64) = off" by (simp add: unat_of_nat)
  have s: "seg_at (p_map p) e bin" "seg_at (p_map p) (e + CAS_HASH_LEN) (store_le64 (of_nat off :: u64))"
    "seg_at (p_map p) (e + CAS_HASH_LEN + 8) (store_le64 (recorded_size (bin, region, tr)))"
    using *(1) assms(2) by (simp_all add: index_entry_def seg_at_append add.assoc)
  have o: "entry_offset p e = of_nat off" using seg_at_load64 [OF s(2)] by (simp add: entry_offset_def PACK_IDX_OFFSET_def)
  have st: "entry_stored p e = recorded_size (bin, region, tr)"
    using seg_at_load64 [OF s(3)] by (simp add: entry_stored_def PACK_IDX_STORED_def add.assoc)
  show thesis
    using that [of off] s(1) assms(2) u * o st by (simp add: seg_at_def)
qed

text \<open>The object that a data region and a trailer stand for.\<close>

definition raw_object :: "cas_codec list \<Rightarrow> byte list \<times> byte list \<Rightarrow> (string \<times> byte list) option" where
  "raw_object table src =
     (case src of (region, tr) \<Rightarrow>
        let magic = take CAS_PACK_MAGIC_LEN tr in
        if magic \<noteq> CAS_PACK_TRAILER_MAGIC \<and> magic \<noteq> CAS_PACK_TRAILER_MAGIC_V2 then None
        else (case pack_parse_header (drop CAS_PACK_MAGIC_LEN tr) (CAS_TYPE_MAX + 1) of
                None \<Rightarrow> None
              | Some (t, n) \<Rightarrow>
                  (case cas_codec_region_decode table True region (magic \<noteq> CAS_PACK_TRAILER_MAGIC) (unat n) of
                     Inl rc \<Rightarrow> None
                   | Inr d \<Rightarrow> Some (t, d))))"

definition pack_object :: "cas_codec list \<Rightarrow> cas_pack \<Rightarrow> string \<Rightarrow> (string \<times> byte list) option" where
  "pack_object table p h = (case cas_pack_lookup table True p h None of Some (Inr x) \<Rightarrow> Some x | _ \<Rightarrow> None)"

definition loose_object :: "cas_codec list \<Rightarrow> cas \<Rightarrow> string \<Rightarrow> (string \<times> byte list) option" where
  "loose_object table s h = (case fst (open_loose table (s\<lparr>s_sys := []\<rparr>) h None) of Inl rc \<Rightarrow> None | Inr x \<Rightarrow> Some x)"

text \<open>
  A size of zero in the index stands for the length in the header; that is also what an empty region gets, so that
  it reads back only if the header agrees. For an object that decodes it does.
\<close>

lemma raw_object_region:
  assumes "raw_object table (region, tr) = Some (t, d)"
  obtains n where "pack_parse_header (drop CAS_PACK_MAGIC_LEN tr) (CAS_TYPE_MAX + 1) = Some (t, n)" "region = [] \<longrightarrow> n = 0"
    "take CAS_PACK_MAGIC_LEN tr \<in> {CAS_PACK_TRAILER_MAGIC, CAS_PACK_TRAILER_MAGIC_V2}"
    "cas_codec_region_decode table True region (take CAS_PACK_MAGIC_LEN tr \<noteq> CAS_PACK_TRAILER_MAGIC) (unat n) = Inr d"
proof -
  obtain n where n: "pack_parse_header (drop CAS_PACK_MAGIC_LEN tr) (CAS_TYPE_MAX + 1) = Some (t, n)"
    "take CAS_PACK_MAGIC_LEN tr \<in> {CAS_PACK_TRAILER_MAGIC, CAS_PACK_TRAILER_MAGIC_V2}"
    "cas_codec_region_decode table True region (take CAS_PACK_MAGIC_LEN tr \<noteq> CAS_PACK_TRAILER_MAGIC) (unat n) = Inr d"
    using assms by (auto simp: raw_object_def Let_def split: if_splits option.splits sum.splits)
  moreover have "region = [] \<longrightarrow> n = 0"
    using n(3) by (auto simp: cas_codec_region_decode_def unat_eq_0 split: if_splits)
  ultimately show thesis using that by blast
qed

lemma region_size:
  assumes "pack_parse_header (drop CAS_PACK_MAGIC_LEN tr) (CAS_TYPE_MAX + 1) = Some (t, n)" "length region < 2 ^ 64"
    and "region = [] \<longrightarrow> n = 0"
  shows "(if recorded_size (bin, region, tr) \<noteq> 0 then recorded_size (bin, region, tr) else n) = of_nat (length region)"
  using assms by (auto simp: unat_of_nat word_unat_eq_iff)

text \<open>Looking up a name whose entry is known, and its raw region.\<close>

lemma entry_region:
  assumes "entry_in (p_map p) e (bin, region, tr)" "packed_ok (bin, region, tr)" "length (p_map p) < 2 ^ 64"
    and "decode_name h = Some bin" "find_entry p bin = Some (Some e)"
    and "pack_parse_header (drop CAS_PACK_MAGIC_LEN tr) (CAS_TYPE_MAX + 1) = Some (t, n)" "region = [] \<longrightarrow> n = 0"
    and "take CAS_PACK_MAGIC_LEN tr \<in> {CAS_PACK_TRAILER_MAGIC, CAS_PACK_TRAILER_MAGIC_V2}"
  shows "cas_pack_lookup table mem p h None = Some (map_sum id (Pair t)
      (cas_codec_region_decode table mem region (take CAS_PACK_MAGIC_LEN tr \<noteq> CAS_PACK_TRAILER_MAGIC) (unat n)))"
    "pack_raw_region p bin = Some (Inr (region, tr))"
proof -
  have bl: "length bin = CAS_HASH_LEN" "length tr = CAS_PACK_BLOCK" using assms(2) by simp_all
  obtain off where o: "unat (entry_offset p e) = off" "entry_stored p e = recorded_size (bin, region, tr)" "length region \<le> off"
    "seg_at (p_map p) (off - length region) region" "seg_at (p_map p) off tr"
    using entry_fields [OF assms(1) bl(1) assms(3)] by metis
  note n = assms(6,7,8)
  have le: "off + CAS_PACK_BLOCK \<le> length (p_map p)" using o(5) bl(2) by (simp add: seg_at_def)
  have lr: "length region < 2 ^ 64" using o(3) le assms(3) by simp
  have sz: "(if entry_stored p e \<noteq> 0 then entry_stored p e else n) = of_nat (length region)"
    using region_size [OF n(1) lr n(2), of bin] by (simp only: o(2))
  have "unat (entry_offset p e + of_nat CAS_PACK_BLOCK) = off + CAS_PACK_BLOCK"
    using o(1) le assms(3) by (simp add: unat_word_ariths CAS_PACK_BLOCK_def)
  then have fit: "\<not> entry_offset p e + of_nat CAS_PACK_BLOCK > p_maplen p"
    using le assms(3) by (simp add: word_less_nat_alt unat_of_nat not_less)
  have ul: "unat (of_nat (length region) :: u64) = length region" using lr by (simp add: unat_of_nat)
  have rs: "\<not> (of_nat (length region) :: u64) > entry_offset p e"
    using o(1,3) ul by (simp add: word_less_nat_alt not_less)
  have "unat (entry_offset p e - of_nat (length region)) = off - length region"
    using o(1,3) ul by (simp add: unat_sub word_le_nat_alt)
  then have pr: "peek (p_map p) (unat (entry_offset p e - of_nat (length region))) (unat (of_nat (length region) :: u64)) = Some region"
    using seg_at_peek [OF o(4)] ul by simp
  have pt: "peek (p_map p) (unat (entry_offset p e)) CAS_PACK_BLOCK = Some tr" using seg_at_peek [OF o(5)] bl(2) o(1) by simp
  show "cas_pack_lookup table mem p h None = Some (map_sum id (Pair t)
      (cas_codec_region_decode table mem region (take CAS_PACK_MAGIC_LEN tr \<noteq> CAS_PACK_TRAILER_MAGIC) (unat n)))"
    using n(3) by (auto simp: cas_pack_lookup_def assms(4,5) Let_def if_not_P [OF fit] pt n(1) sz
        if_not_P [OF rs] pr simp del: One_nat_def split: sum.splits)
  show "pack_raw_region p bin = Some (Inr (region, tr))"
    by (simp add: pack_raw_region_def assms(5) Let_def if_not_P [OF fit] pt n(1) sz if_not_P [OF rs] pr
        del: One_nat_def)
qed

lemma entry_lookup:
  assumes "entry_in (p_map p) e (bin, region, tr)" "packed_ok (bin, region, tr)" "length (p_map p) < 2 ^ 64"
    and "decode_name h = Some bin" "find_entry p bin = Some (Some e)" "raw_object table (region, tr) = Some (t, d)"
  shows "pack_object table p h = Some (t, d)"
proof -
  obtain n where n: "pack_parse_header (drop CAS_PACK_MAGIC_LEN tr) (CAS_TYPE_MAX + 1) = Some (t, n)" "region = [] \<longrightarrow> n = 0"
    "take CAS_PACK_MAGIC_LEN tr \<in> {CAS_PACK_TRAILER_MAGIC, CAS_PACK_TRAILER_MAGIC_V2}"
    "cas_codec_region_decode table True region (take CAS_PACK_MAGIC_LEN tr \<noteq> CAS_PACK_TRAILER_MAGIC) (unat n) = Inr d"
    using raw_object_region [OF assms(6)] .
  show ?thesis
    using entry_region(1) [OF assms(1-5) n(1-3), of table True] n(4) by (simp add: pack_object_def del: One_nat_def)
qed

section \<open>The sources of a pack\<close>

text \<open>What a lookup decodes is what the raw region of the entry stands for.\<close>

lemma pack_object_raw:
  assumes "pack_object table p h = Some x" "decode_name h = Some bin"
  obtains src where "pack_raw_region p bin = Some (Inr src)" "raw_object table src = Some x" "length (snd src) = CAS_PACK_BLOCK"
proof -
  obtain t d where x: "x = (t, d)" by fastforce
  have l: "cas_pack_lookup table True p h None = Some (Inr (t, d))"
    using assms(1) by (auto simp: pack_object_def x split: option.splits sum.splits)
  obtain e where e: "find_entry p bin = Some (Some e)"
    using l assms(2) by (auto simp: cas_pack_lookup_def split: option.splits)
  let ?off = "entry_offset p e"
  have fit: "\<not> ?off + of_nat CAS_PACK_BLOCK > p_maplen p" using l by (auto simp: cas_pack_lookup_def assms(2) e Let_def split: if_splits)
  obtain tr where tr: "peek (p_map p) (unat ?off) CAS_PACK_BLOCK = Some tr"
    using l by (auto simp: cas_pack_lookup_def assms(2) e Let_def split: if_splits option.splits)
  obtain n where n: "pack_parse_header (drop CAS_PACK_MAGIC_LEN tr) (CAS_TYPE_MAX + 1) = Some (t, n)"
    using l by (auto simp: cas_pack_lookup_def assms(2) e Let_def tr split: if_splits option.splits sum.splits)
  let ?sz = "if entry_stored p e \<noteq> 0 then entry_stored p e else n"
  have rs: "\<not> ?sz > ?off" using l
    by (auto simp: cas_pack_lookup_def assms(2) e Let_def tr n simp del: One_nat_def split: if_splits)
  obtain region where r: "peek (p_map p) (unat (?off - ?sz)) (unat ?sz) = Some region"
    using l by (auto simp: cas_pack_lookup_def assms(2) e Let_def tr n simp del: One_nat_def split: if_splits option.splits)
  note unf = l [unfolded cas_pack_lookup_def assms(2) e Let_def option.case if_not_P [OF fit] tr n prod.case if_not_P [OF rs] r]
  have "raw_object table (region, tr) = Some (t, d)"
    using unf magic_distinct [THEN not_sym] by (auto simp: raw_object_def Let_def n simp del: One_nat_def split: if_splits sum.splits)
  moreover have "pack_raw_region p bin = Some (Inr (region, tr))"
    by (simp only: pack_raw_region_def e Let_def option.case if_not_P [OF fit] tr n prod.case if_not_P [OF rs] r)
  moreover have "length tr = CAS_PACK_BLOCK" using tr by (auto simp: peek_def split: if_splits)
  ultimately show thesis using that by (simp add: x)
qed

text \<open>Likewise for a loose object.\<close>

lemma loose_object_raw:
  assumes "s_sys s = []" "valid_hash h" "loose_object table s h = Some x"
  obtains src where "cas_open_loose_raw s h = (Inr src, s)" "raw_object table src = Some x" "length (snd src) = CAS_PACK_BLOCK"
proof -
  obtain t d where x: "x = (t, d)" by fastforce
  have s: "s\<lparr>s_sys := []\<rparr> = s" using assms(1) by simp
  obtain s' where l: "open_loose table s h None = (Inr (t, d), s')"
    using assms(3) unfolding loose_object_def s by (cases "open_loose table s h None") (auto simp: x split: sum.splits)
  obtain region tr where m: "map_loose s h = (Inr (region, tr), s)"
    using l map_loose_quiet [OF assms(1), of h] by (auto simp: open_loose_def split: prod.splits sum.splits)
  have "cas_open_loose_raw s h = (Inr (region, tr), s)"
    using assms(1,2) l m by (auto simp: cas_open_loose_raw_def open_loose_def Let_def split: if_splits)
  moreover obtain n where n: "parse_header (drop CAS_PACK_MAGIC_LEN tr) (CAS_TYPE_MAX + 1) = Some (t, n)"
    using l m by (auto simp: open_loose_def Let_def assms(1) split: if_splits option.splits sum.splits)
  have "raw_object table (region, tr) = Some (t, d)"
    using l m assms(1) parse_header_pack [OF n] magic_distinct [THEN not_sym]
    by (auto simp: open_loose_def raw_object_def Let_def n simp del: One_nat_def split: if_splits sum.splits)
  moreover have "length tr = CAS_PACK_BLOCK" using m by (auto simp: map_loose_def Let_def split: option.splits if_splits prod.splits)
  ultimately show thesis using that by (simp add: x)
qed

lemma loose_object_none:
  "s_sys s = [] \<Longrightarrow> (\<And>path. build_path s h CAS_PATH_MAX = Some path \<Longrightarrow> s_files s path = None) \<Longrightarrow> length (s_basedir s) \<le> 400 \<Longrightarrow>
    valid_hash h \<Longrightarrow> cas_open_loose_raw s h = (Inl CAS_ENOTFOUND, s)"
  by (auto simp: cas_open_loose_raw_def map_loose_def build_path_def CAS_PATH_MAX_def valid_hash_def CAS_HASH_HEX_def Let_def)

section \<open>Opening the image\<close>

definition pack_image :: "packed list \<Rightarrow> byte list" where
  "pack_image objs = (let index = pack_index 0 objs in pack_data objs @ index @ pack_footer (length objs) index)"

definition image_pack :: "packed list \<Rightarrow> cas_pack" where
  "image_pack objs = \<lparr>p_map = pack_image objs, p_count = of_nat (length objs), p_index = length (pack_data objs)\<rparr>"

lemma length_pack_footer: "length (pack_footer n index) = CAS_PACK_BLOCK"
  by (simp add: pack_footer_def CAS_PACK_FOOTER_MAGIC_V1_def CAS_HASH_LEN_def CAS_PACK_BLOCK_def Let_def)

lemma length_pack_image:
  "list_all packed_ok objs \<Longrightarrow> length (pack_image objs) = length (pack_data objs) + CAS_PACK_BLOCK * length objs + CAS_PACK_BLOCK"
  by (simp add: pack_image_def Let_def length_pack_index length_pack_footer)

lemma image_open:
  assumes "list_all packed_ok objs" "length (pack_image objs) < 2 ^ 64"
  shows "cas_pack_open True (Some (pack_image objs)) = Some (Some (image_pack objs))"
proof -
  let ?data = "pack_data objs" and ?index = "pack_index 0 objs"
  let ?start = "CAS_PACK_FOOTER_MAGIC_V1 @ store_le64 (of_nat (length objs))"
  let ?ft = "?start @ cas_digest (?index @ ?start) @ replicate 16 0"
  have im: "pack_image objs = ?data @ ?index @ ?ft" by (simp add: pack_image_def pack_footer_def Let_def)
  have li: "length ?index = 64 * length objs" using length_pack_index [OF assms(1)] by (simp add: CAS_PACK_BLOCK_def)
  have m: "length CAS_PACK_FOOTER_MAGIC_V1 = 8" by (simp add: CAS_PACK_FOOTER_MAGIC_V1_def)
  have lf: "length ?ft = 64" by (simp add: m CAS_HASH_LEN_def)
  have len: "length (pack_image objs) = length ?data + 64 * length objs + 64" by (simp add: im li m CAS_HASH_LEN_def)
  have small: "64 * length objs + 64 < 2 ^ 64" using assms(2) len by simp
  have ft: "drop (length (pack_image objs) - CAS_PACK_BLOCK) (pack_image objs) = ?ft"
    by (simp add: len im li m CAS_HASH_LEN_def CAS_PACK_BLOCK_def)
  have c: "load_le64 (drop (length (pack_image objs) - CAS_PACK_BLOCK + PACK_FT_COUNT) (pack_image objs)) = of_nat (length objs)"
  proof -
    have "drop (length (pack_image objs) - CAS_PACK_BLOCK + PACK_FT_COUNT) (pack_image objs) = drop PACK_FT_COUNT ?ft"
      unfolding ft [symmetric] by (simp add: add.commute)
    then show ?thesis by (simp add: PACK_FT_COUNT_def CAS_PACK_MAGIC_LEN_def m)
  qed
  have ck: "take CAS_HASH_LEN (drop (length (pack_image objs) - CAS_PACK_BLOCK + PACK_FT_CKSUM) (pack_image objs)) = cas_digest (?index @ ?start)"
  proof -
    have "drop (length (pack_image objs) - CAS_PACK_BLOCK + PACK_FT_CKSUM) (pack_image objs) = drop PACK_FT_CKSUM ?ft"
      unfolding ft [symmetric] by (simp add: add.commute)
    then show ?thesis by (simp add: PACK_FT_CKSUM_def CAS_PACK_MAGIC_LEN_def m)
  qed
  have mg: "take CAS_PACK_MAGIC_LEN ?ft = CAS_PACK_FOOTER_MAGIC_V1" by (simp add: CAS_PACK_MAGIC_LEN_def m)
  let ?n = "of_nat (length objs) :: u64" and ?sz = "of_nat (length (pack_image objs)) :: u64"
  have un: "unat (?n * of_nat CAS_PACK_BLOCK) = 64 * length objs" using small
    by (simp add: CAS_PACK_BLOCK_def unat_word_ariths unat_of_nat mult.commute)
  then have ut: "unat (?n * of_nat CAS_PACK_BLOCK + of_nat CAS_PACK_BLOCK) = 64 * length objs + 64"
    using small by (simp add: unat_word_ariths(1) CAS_PACK_BLOCK_def)
  have us: "unat ?sz = length (pack_image objs)" using assms(2) by (simp add: unat_of_nat)
  have tail: "\<not> ?n * of_nat CAS_PACK_BLOCK + of_nat CAS_PACK_BLOCK > ?sz"
    using ut us len by (simp add: word_less_nat_alt not_less)
  have ix: "unat (?sz - (?n * of_nat CAS_PACK_BLOCK + of_nat CAS_PACK_BLOCK)) = length ?data"
    using ut us len by (simp add: unat_sub word_le_nat_alt)
  have "unat (?n * of_nat CAS_PACK_BLOCK + 16) = 64 * length objs + 16"
    using un small by (simp add: unat_word_ariths(1))
  then have pk: "peek (pack_image objs) (length ?data) (unat (?n * of_nat CAS_PACK_BLOCK + 16)) = Some (?index @ ?start)"
    by (simp add: peek_def len) (simp add: im li m)
  have big: "\<not> length (pack_image objs) < CAS_PACK_BLOCK" by (simp add: len CAS_PACK_BLOCK_def)
  show ?thesis
    by (simp only: cas_pack_open_def Let_def option.case not_True_eq_False if_False if_not_P [OF big] ft mg c if_not_P [OF tail] ix pk ck
        image_pack_def simp_thms)
qed

section \<open>The index of the image\<close>

lemma memcmp_lex: "length a = length b \<Longrightarrow> memcmp a b < 0 \<longleftrightarrow> a < b"
  by (induction a b rule: list_induct2) auto

lemma image_index:
  assumes "list_all packed_ok objs" "length (pack_image objs) < 2 ^ 64"
  shows "index_fits (image_pack objs)" "unat (p_count (image_pack objs)) = length objs"
    "i < length objs \<Longrightarrow> entry_in (p_map (image_pack objs)) (entry_at (image_pack objs) i) (objs ! i)"
    "i < length objs \<Longrightarrow> entry_hash (image_pack objs) i = fst (objs ! i)"
    "offsets_fit (image_pack objs)"
proof -
  let ?p = "image_pack objs" and ?index = "pack_index 0 objs"
  note len = length_pack_image [OF assms(1)]
  show n: "unat (p_count ?p) = length objs"
    using len assms(2) by (simp add: image_pack_def unat_of_nat CAS_PACK_BLOCK_def)
  show "index_fits ?p" using n len assms(2) by (simp add: index_fits_def image_pack_def)
  have im: "pack_image objs = pack_data objs @ ?index @ pack_footer (length objs) ?index" by (simp add: pack_image_def Let_def)
  have d: "seg_at (pack_image objs) 0 (pack_data objs)" by (simp add: im seg_at_def)
  have x: "seg_at (pack_image objs) (length (pack_data objs)) ?index"
    unfolding im by (rule seg_at_whole) simp
  have ent: "entry_in (p_map ?p) (entry_at ?p i) (objs ! i)" if "i < length objs" for i
    using index_entry_in [OF d x assms(1) that] by (simp add: image_pack_def entry_at_def)
  have lm: "length (p_map ?p) < 2 ^ 64" using assms(2) by (simp add: image_pack_def)
  have each: "entry_hash ?p i = fst (objs ! i) \<and> unat (entry_offset ?p (entry_at ?p i)) + CAS_PACK_BLOCK < 2 ^ 64" if i: "i < length objs" for i
  proof -
    obtain bin region tr where ob: "objs ! i = (bin, region, tr)" by (cases "objs ! i")
    have ok: "packed_ok (bin, region, tr)" using assms(1) i ob by (metis list_all_length)
    then have bl: "length bin = CAS_HASH_LEN" "length tr = CAS_PACK_BLOCK" by simp_all
    obtain off where o: "take CAS_HASH_LEN (drop (entry_at ?p i) (p_map ?p)) = bin" "unat (entry_offset ?p (entry_at ?p i)) = off"
      "seg_at (p_map ?p) off tr"
      using entry_fields [OF ent [OF i, unfolded ob] bl(1) lm] by metis
    then show ?thesis using lm bl(2) ob by (simp add: entry_hash_def seg_at_def)
  qed
  then show "i < length objs \<Longrightarrow> entry_hash ?p i = fst (objs ! i)" by blast
  show "i < length objs \<Longrightarrow> entry_in (p_map ?p) (entry_at ?p i) (objs ! i)" by (rule ent)
  show "offsets_fit ?p" using each n by (simp add: offsets_fit_def)
qed

lemma image_sorted:
  assumes "list_all packed_ok objs" "length (pack_image objs) < 2 ^ 64" "sorted_wrt (<) (map fst objs)"
  shows "index_sorted (image_pack objs)"
  unfolding index_sorted_def
proof (intro allI impI)
  fix i j
  assume ij: "i < j" "j < unat (p_count (image_pack objs))"
  note ix = image_index [OF assms(1,2)]
  have lt: "i < length objs" "j < length objs" using ij ix(2) by simp_all
  have "fst (objs ! i) < fst (objs ! j)" using assms(3) ij(1) lt by (simp add: sorted_wrt_iff_nth_less)
  moreover have "packed_ok (objs ! k)" if "k < length objs" for k using assms(1) that by (simp add: list_all_length)
  then have "length (fst (objs ! k)) = CAS_HASH_LEN" if "k < length objs" for k
    using that by (metis fst_conv packed_ok.elims(2))
  ultimately show "memcmp (entry_hash (image_pack objs) i) (entry_hash (image_pack objs) j) < 0"
    using ix(4) lt memcmp_lex by simp
qed

text \<open>What the pack holds under a name.\<close>

lemma image_lookup:
  assumes "list_all packed_ok objs" "length (pack_image objs) < 2 ^ 64" "sorted_wrt (<) (map fst objs)" "decode_name h = Some bin"
  shows "(bin, region, tr) \<in> set objs \<Longrightarrow> raw_object table (region, tr) = Some x \<Longrightarrow> pack_object table (image_pack objs) h = Some x"
    "cas_pack_exists (image_pack objs) h = Some (bin \<in> fst ` set objs)"
    "bin \<notin> fst ` set objs \<Longrightarrow> pack_object table (image_pack objs) h = None"
proof -
  let ?p = "image_pack objs"
  note ix = image_index [OF assms(1,2)]
  have bl: "length bin = CAS_HASH_LEN" using decode_name_length [OF assms(4)] .
  have names: "entry_hash ?p i = fst (objs ! i)" if "i < unat (p_count ?p)" for i using that ix(2,4) by simp
  obtain r where r: "find_entry ?p bin = Some r"
    "\<And>e. r = Some e \<Longrightarrow> \<exists>i<unat (p_count ?p). e = entry_at ?p i \<and> entry_hash ?p i = bin"
    "r = None \<Longrightarrow> \<forall>i<unat (p_count ?p). entry_hash ?p i \<noteq> bin"
    using find_entry_correct [OF ix(1) bl] image_sorted [OF assms(1-3)] by blast
  have mem: "bin \<in> fst ` set objs \<longleftrightarrow> (\<exists>i<unat (p_count ?p). entry_hash ?p i = bin)"
    using ix(2) names by (force simp: in_set_conv_nth image_iff)
  have found: "r \<noteq> None \<longleftrightarrow> bin \<in> fst ` set objs" using r(2,3) mem by blast
  then show ex: "cas_pack_exists ?p h = Some (bin \<in> fst ` set objs)" by (simp add: cas_pack_exists_def assms(4) r(1))
  show "pack_object table ?p h = None" if "bin \<notin> fst ` set objs"
    using that found by (simp add: pack_object_def cas_pack_lookup_def assms(4) r(1))
  show "pack_object table ?p h = Some x" if ob: "(bin, region, tr) \<in> set objs" and raw: "raw_object table (region, tr) = Some x"
  proof -
    have "bin \<in> fst ` set objs" using ob by force
    then obtain e where e: "r = Some e" using found by blast
    then obtain i where i: "i < length objs" "e = entry_at ?p i" "entry_hash ?p i = bin" using r(2) ix(2) by auto
    have dist: "distinct (map fst objs)" using assms(3) strict_sorted_iff by blast
    have f: "fst (objs ! i) = bin" using i ix(4) by simp
    have oi: "objs ! i = (bin, region, tr)" using eq_key_imp_eq_value [OF dist] f i(1) ob nth_mem [OF i(1)] by (metis surjective_pairing)
    have ok: "packed_ok (bin, region, tr)" using assms(1) ob by (auto simp: list_all_iff)
    obtain t d where x: "x = (t, d)" by fastforce
    have en: "entry_in (p_map ?p) e (bin, region, tr)" using ix(3) [OF i(1)] i(2) oi by simp
    have lm: "length (p_map ?p) < 2 ^ 64" using assms(2) by (simp add: image_pack_def)
    have fe: "find_entry ?p bin = Some (Some e)" using r(1) e by simp
    show ?thesis using entry_lookup [OF en ok lm assms(4) fe] raw by (simp add: x)
  qed
qed

end
