(* ===== verification/PackCreate.thy ===== *)
theory PackCreate
  imports PackLayout
begin

unbundle bit_operations_syntax

text \<open>
  What \<open>pack_create\<close> writes: for every name it was given one object that comes from the loose file or the old pack,
  as it is or compressed; the names in order and without repetition. If anything fails, no file changes.
\<close>

section \<open>The names\<close>

lemma drop_repeats_sorted:
  assumes "sorted (k # hs)" "\<forall>h \<in> set (k # hs). length h = n"
  shows "set (drop_repeats k hs) = set (k # hs) \<and> sorted_wrt (<) (drop_repeats k hs) \<and> hd (drop_repeats k hs) = k"
  using assms
proof (induction hs arbitrary: k)
  case (Cons h hs)
  have le: "k \<le> h" using Cons.prems(1) by simp
  have s: "sorted (h # hs)" "sorted (k # hs)" using Cons.prems(1) by auto
  show ?case
  proof (cases "h = k")
    case True
    then have "memcmp h k = 0" by (induction k arbitrary: h) auto
    with Cons.IH [OF s(2)] Cons.prems(2) True show ?thesis by auto
  next
    case False
    then have m: "memcmp h k \<noteq> 0" using memcmp_0_iff [of h k] Cons.prems(2) by simp
    have ih: "set (drop_repeats h hs) = set (h # hs)" "sorted_wrt (<) (drop_repeats h hs)"
      using Cons.IH [OF s(1)] Cons.prems(2) by simp_all
    have "\<forall>x \<in> set (h # hs). h \<le> x" using s(1) by simp
    moreover have "k < h" using le False by simp
    ultimately have "\<forall>x \<in> set (drop_repeats h hs). k < x" unfolding ih(1) by (metis less_le_trans)
    with m ih show ?thesis by auto
  qed
qed simp

lemma unique_hashes_spec:
  assumes "\<forall>h \<in> set hs. length h = n"
  shows "set (unique_hashes hs) = set hs" "sorted_wrt (<) (unique_hashes hs)"
proof -
  have "set (unique_hashes hs) = set hs \<and> sorted_wrt (<) (unique_hashes hs)"
  proof (cases "sort_hashes hs")
    case Nil
    then have "hs = []" by (metis set_sort set_empty sort_hashes_def)
    then show ?thesis by (simp add: unique_hashes_def sort_hashes_def)
  next
    case (Cons k ks)
    have st: "set (k # ks) = set hs" using Cons by (metis set_sort sort_hashes_def)
    have so: "sorted (k # ks)" using Cons by (metis sorted_sort sort_hashes_def)
    have "\<forall>h \<in> set (k # ks). length h = n" using assms unfolding st .
    from drop_repeats_sorted [OF so this] Cons st show ?thesis by (simp add: unique_hashes_def)
  qed
  then show "set (unique_hashes hs) = set hs" "sorted_wrt (<) (unique_hashes hs)" by simp_all
qed

section \<open>Where an object comes from\<close>

definition is_source :: "cas \<Rightarrow> cas_pack option \<Rightarrow> byte list \<Rightarrow> byte list \<times> byte list \<Rightarrow> bool" where
  "is_source s old bin src \<longleftrightarrow> fst (cas_open_loose_raw (s\<lparr>s_sys := []\<rparr>) (cas_hex_encode bin)) = Inr src \<or>
     (\<exists>p. old = Some p \<and> pack_raw_region p bin = Some (Inr src))"

text \<open>What is written for it.\<close>

definition emitted :: "cas_codec list \<Rightarrow> compress_policy \<Rightarrow> int \<Rightarrow> byte list \<times> byte list \<Rightarrow> byte list \<times> byte list \<Rightarrow> bool" where
  "emitted table policy codec src out \<longleftrightarrow> out = src \<or>
     (let use = cas_codec_policy policy codec (fst src) in
      take CAS_PACK_MAGIC_LEN (snd src) \<noteq> CAS_PACK_TRAILER_MAGIC_V2 \<and> use \<noteq> CAS_CODEC_NONE \<and>
      (\<exists>payload. cas_codec_encode table use (fst src) (length (fst src)) = Inr payload \<and>
         out = (word_of_int use # payload, CAS_PACK_TRAILER_MAGIC_V2 @ drop CAS_PACK_MAGIC_LEN (snd src))))"

lemma same_disk_quiet: "same_disk s s' \<Longrightarrow> s'\<lparr>s_sys := []\<rparr> = s\<lparr>s_sys := []\<rparr>"
  by (cases s; cases s') (simp add: same_disk_def)

lemma open_loose_raw_same: "cas_open_loose_raw s h = (r, s') \<Longrightarrow> same_disk s s'"
  by (auto simp: cas_open_loose_raw_def Let_def split: if_splits prod.splits sum.splits dest: map_loose_same)

lemma open_loose_raw_sound:
  assumes "cas_open_loose_raw s h = (Inr x, s')"
  shows "fst (cas_open_loose_raw (s\<lparr>s_sys := []\<rparr>) h) = Inr x"
proof -
  obtain region tr s1 where m: "map_loose s h = (Inr (region, tr), s1)"
    using assms by (auto simp: cas_open_loose_raw_def split: if_splits prod.splits sum.splits)
  with assms map_loose_sound [OF m] show ?thesis by (auto simp: cas_open_loose_raw_def Let_def split: if_splits)
qed

lemma pack_source_spec:
  assumes "pack_source s old bin = (r, s')"
  shows "same_disk s s'" "r = Some (Inr src) \<Longrightarrow> is_source s old bin src" "r \<noteq> Some (Inl CAS_OK)"
proof -
  obtain l s1 where l: "cas_open_loose_raw s (cas_hex_encode bin) = (l, s1)" by fastforce
  have s1: "s' = s1" using assms l by (auto simp: pack_source_def split: sum.splits option.splits)
  then show "same_disk s s'" using open_loose_raw_same [OF l] by simp
  show "is_source s old bin src" if "r = Some (Inr src)"
    using assms l that open_loose_raw_sound [of s "cas_hex_encode bin"]
    by (auto simp: pack_source_def is_source_def split: sum.splits option.splits if_splits)
  have "l \<noteq> Inl CAS_OK" using l
    by (auto simp: cas_open_loose_raw_def map_loose_def Let_def split: if_splits prod.splits sum.splits option.splits)
  then show "r \<noteq> Some (Inl CAS_OK)"
    using assms l by (auto simp: pack_source_def split: sum.splits option.splits if_splits)
qed

lemma raw_region_trailer: "pack_raw_region p bin = Some (Inr (src, tr)) \<Longrightarrow> length tr = CAS_PACK_BLOCK"
  by (auto simp: pack_raw_region_def peek_def Let_def split: option.split_asm if_split_asm prod.split_asm)

lemma loose_raw_trailer: "cas_open_loose_raw s h = (Inr (src, tr), s') \<Longrightarrow> length tr = CAS_PACK_BLOCK"
  by (auto simp: cas_open_loose_raw_def map_loose_def Let_def split: option.split_asm if_split_asm prod.split_asm sum.split_asm)

lemma source_trailer: "is_source s old bin (src, tr) \<Longrightarrow> length tr = CAS_PACK_BLOCK"
  unfolding is_source_def using raw_region_trailer loose_raw_trailer by (metis prod.collapse)

lemma pack_emit_spec:
  assumes "pack_emit table policy codec s src tr = (out, s')"
  shows "same_disk s s'" "emitted table policy codec (src, tr) out"
  using assms sys_call_same [of s]
  by (auto simp: pack_emit_def emitted_def Let_def split: if_splits prod.splits sum.splits)

lemma source_same: "same_disk s s' \<Longrightarrow> is_source s' old bin src \<longleftrightarrow> is_source s old bin src"
  using same_disk_quiet [of s s'] by (simp add: is_source_def)

lemma emitted_trailer:
  assumes "emitted table policy codec (src, tr) (region, tr')" "length tr = CAS_PACK_BLOCK"
  shows "length tr' = CAS_PACK_BLOCK" "drop CAS_PACK_MAGIC_LEN tr' = drop CAS_PACK_MAGIC_LEN tr"
  using assms by (auto simp: emitted_def Let_def CAS_PACK_BLOCK_def CAS_PACK_MAGIC_LEN_def CAS_PACK_TRAILER_MAGIC_V2_def)

section \<open>The image\<close>

fun packed_from :: "cas_codec list \<Rightarrow> compress_policy \<Rightarrow> int \<Rightarrow> cas \<Rightarrow> cas_pack option \<Rightarrow> packed \<Rightarrow> bool" where
  "packed_from table policy codec s old (bin, out) \<longleftrightarrow>
     (\<exists>src. is_source s old bin src \<and> emitted table policy codec src out)"

lemma packed_from_same: "same_disk s s' \<Longrightarrow> packed_from table policy codec s' old ob \<longleftrightarrow> packed_from table policy codec s old ob"
  by (cases ob) (simp add: source_same)

lemma write_objects_spec:
  assumes "write_objects table policy codec old s (of_nat off) bins = (r, s', out, index)" "list_all (\<lambda>b. length b = CAS_HASH_LEN) bins"
  shows "same_disk s s'" "r = Some CAS_OK \<Longrightarrow> \<exists>objs. map fst objs = bins \<and> list_all packed_ok objs \<and> out = pack_data objs \<and>
    index = pack_index off objs \<and> (\<forall>ob \<in> set objs. packed_from table policy codec s old ob)"
proof -
  have "same_disk s s' \<and> (r = Some CAS_OK \<longrightarrow> (\<exists>objs. map fst objs = bins \<and> list_all packed_ok objs \<and> out = pack_data objs \<and>
    index = pack_index off objs \<and> (\<forall>ob \<in> set objs. packed_from table policy codec s old ob)))"
    using assms
  proof (induction bins arbitrary: s off r s' out index)
    case Nil
    then show ?case by (auto simp: pack_data_def intro: exI [of _ "[]"])
  next
    case (Cons bin bins)
    obtain q s1 where q: "pack_source s old bin = (q, s1)" by fastforce
    note qs = pack_source_spec [OF q]
    show ?case
    proof (cases "\<exists>src tr. q = Some (Inr (src, tr)) \<and> pack_parse_header (drop CAS_PACK_MAGIC_LEN tr) (CAS_TYPE_MAX + 1) \<noteq> None")
      case False
      with Cons.prems(1) q qs show ?thesis by (auto simp del: One_nat_def split: option.splits sum.splits prod.splits)
    next
      case True
      then obtain src tr ty n where src: "q = Some (Inr (src, tr))"
        and hd: "pack_parse_header (drop CAS_PACK_MAGIC_LEN tr) (CAS_TYPE_MAX + 1) = Some (ty, n)" by auto
      obtain emit tr' s2 where em: "pack_emit table policy codec s1 src tr = ((emit, tr'), s2)" by (metis prod.exhaust)
      note es = pack_emit_spec [OF em]
      obtain rc s3 where wr: "write_chunks s2 (data_chunk emit @ [tr']) = (rc, s3)" by fastforce
      have d3: "same_disk s s3" using qs(1) es(1) write_chunks_frame [OF wr] same_disk_trans by blast
      have so: "is_source s old bin (src, tr)" using qs(2) src by simp
      note tl = source_trailer [OF so]
      note et = emitted_trailer [OF es(2) tl]
      show ?thesis
      proof (cases "rc = CAS_OK")
        case False
        with Cons.prems(1) q src hd em wr d3 show ?thesis by (auto simp del: One_nat_def)
      next
        case True
        let ?o = "off + length emit" and ?st = "if of_nat (length emit) = n then 0 else of_nat (length emit) :: u64"
        obtain r4 s4 out4 ix4 where rec: "write_objects table policy codec old s3 (of_nat (?o + CAS_PACK_BLOCK)) bins = (r4, s4, out4, ix4)"
          by (metis prod.exhaust)
        have res: "r = r4" "s' = s4" "out = emit @ tr' @ out4" "index = index_entry bin (of_nat ?o) ?st @ ix4"
          using Cons.prems(1) rec by (simp_all add: q src hd em wr True Let_def del: One_nat_def)
        have ih: "same_disk s3 s4 \<and> (r4 = Some CAS_OK \<longrightarrow> (\<exists>objs. map fst objs = bins \<and> list_all packed_ok objs \<and> out4 = pack_data objs \<and>
            ix4 = pack_index (?o + CAS_PACK_BLOCK) objs \<and> (\<forall>ob \<in> set objs. packed_from table policy codec s3 old ob)))"
          using Cons.IH [OF rec] Cons.prems(2) by simp
        have rs: "recorded_size (bin, emit, tr') = ?st" using hd by (simp add: et(2) del: One_nat_def)
        have ok: "packed_ok (bin, emit, tr')" using Cons.prems(2) et hd by (simp del: One_nat_def)
        have prov: "packed_from table policy codec s old (bin, emit, tr')" using so es(2) by auto
        have "\<exists>objs. map fst objs = bin # bins \<and> list_all packed_ok objs \<and> out = pack_data objs \<and>
          index = pack_index off objs \<and> (\<forall>ob \<in> set objs. packed_from table policy codec s old ob)" if q4: "r4 = Some CAS_OK"
        proof -
          obtain objs where o: "map fst objs = bins" "list_all packed_ok objs" "out4 = pack_data objs"
            "ix4 = pack_index (?o + CAS_PACK_BLOCK) objs" "\<forall>ob \<in> set objs. packed_from table policy codec s old ob"
            using ih q4 unfolding packed_from_same [OF d3] by blast
          show ?thesis
            using o ok prov rs res(3,4) by (intro exI [of _ "(bin, emit, tr') # objs"]) (simp add: pack_data_def)
        qed
        then show ?thesis using res(1,2) ih d3 same_disk_trans by blast
      qed
    qed
  qed
  then show "same_disk s s'" "r = Some CAS_OK \<Longrightarrow> \<exists>objs. map fst objs = bins \<and> list_all packed_ok objs \<and> out = pack_data objs \<and>
    index = pack_index off objs \<and> (\<forall>ob \<in> set objs. packed_from table policy codec s old ob)" by simp_all
qed

text \<open>Compression changes the form of an object, not what it is.\<close>

definition packs_safely :: "cas_codec list \<Rightarrow> compress_policy \<Rightarrow> int \<Rightarrow> byte list \<Rightarrow> bool" where
  "packs_safely table policy codec d \<longleftrightarrow> (let use = cas_codec_policy policy codec d in
     use = CAS_CODEC_NONE \<or> 0 \<le> use \<and> use \<le> 255 \<and>
       (\<forall>payload. cas_codec_encode table use d (length d) = Inr payload \<longrightarrow> inflatable payload (length d)))"

lemma emitted_object:
  assumes "codec_ok table" "raw_object table src = Some (t, d)" "emitted table policy codec src out" "packs_safely table policy codec d"
  shows "raw_object table out = Some (t, d)"
proof (cases "out = src")
  case False
  obtain region tr where src: "src = (region, tr)" by fastforce
  let ?use = "cas_codec_policy policy codec region"
  obtain payload where e: "take CAS_PACK_MAGIC_LEN tr \<noteq> CAS_PACK_TRAILER_MAGIC_V2" "?use \<noteq> CAS_CODEC_NONE"
    "cas_codec_encode table ?use region (length region) = Inr payload"
    "out = (word_of_int ?use # payload, CAS_PACK_TRAILER_MAGIC_V2 @ drop CAS_PACK_MAGIC_LEN tr)"
    using assms(3) False by (auto simp: emitted_def src Let_def)
  obtain n where n: "pack_parse_header (drop CAS_PACK_MAGIC_LEN tr) (CAS_TYPE_MAX + 1) = Some (t, n)"
    "take CAS_PACK_MAGIC_LEN tr \<in> {CAS_PACK_TRAILER_MAGIC, CAS_PACK_TRAILER_MAGIC_V2}"
    "cas_codec_region_decode table True region (take CAS_PACK_MAGIC_LEN tr \<noteq> CAS_PACK_TRAILER_MAGIC) (unat n) = Inr d"
    using raw_object_region [OF assms(2) [unfolded src]] by metis
  have d: "d = region" "unat n = length region"
    using n(2,3) e(1) by (auto simp: cas_codec_region_decode_def split: if_splits)
  have "0 \<le> ?use" "?use \<le> 255" "inflatable payload (length region)"
    using assms(4) e(2,3) by (auto simp: packs_safely_def Let_def d)
  from compressed_region_decode [OF assms(1) e(3) this(1,2) e(2) this(3)]
  show ?thesis using n(1) d by (simp add: raw_object_def e(4) Let_def del: One_nat_def)
qed (use assms in simp)

section \<open>Writing the file\<close>

definition pack_written :: "cas_codec list \<Rightarrow> compress_policy \<Rightarrow> int \<Rightarrow> cas_pack option \<Rightarrow> cas \<Rightarrow> string \<Rightarrow> packed list \<Rightarrow> cas \<Rightarrow> bool" where
  "pack_written table policy codec old s path objs s' \<longleftrightarrow> list_all packed_ok objs \<and>
     (\<forall>ob \<in> set objs. packed_from table policy codec s old ob) \<and>
     s_basedir s' = s_basedir s \<and> s_pack s' = s_pack s \<and> s_files s' = (s_files s)(path \<mapsto> pack_image objs)"

lemma write_pack_spec:
  assumes "write_pack table policy codec old s path bins = (r, s')" "list_all (\<lambda>b. length b = CAS_HASH_LEN) bins"
  shows "r \<noteq> Some CAS_OK \<Longrightarrow> same_disk s s'"
    "r = Some CAS_OK \<Longrightarrow> \<exists>objs. map fst objs = bins \<and> pack_written table policy codec old s path objs s'"
proof -
  obtain b1 s1 where c1: "sys_call s = (b1, s1)" by fastforce
  obtain b2 s2 where c2: "sys_call s1 = (b2, s2)" by fastforce
  obtain r3 s3 out index where w: "write_objects table policy codec old s2 0 bins = (r3, s3, out, index)" by (metis prod.exhaust)
  obtain r4 s4 where c4: "write_chunks s3 [index] = (r4, s4)" by fastforce
  obtain b5 s5 where c5: "sys_call s4 = (b5, s5)" by fastforce
  obtain r6 s6 where c6: "write_chunks s5 [pack_footer (length bins) index] = (r6, s6)" by fastforce
  obtain b7 s7 where c7: "sys_call s6 = (b7, s7)" by fastforce
  obtain b8 s8 where c8: "sys_call s7 = (b8, s8)" by fastforce
  note ws = write_objects_spec [of table policy codec old s2 0, simplified, OF w assms(2)]
  note d1 = sys_call_same [OF c1]
  note d2 = same_disk_trans [OF d1 sys_call_same [OF c2]]
  note d3 = same_disk_trans [OF d2 ws(1)]
  note d4 = same_disk_trans [OF d3 conjunct1 [OF write_chunks_frame [OF c4]]]
  note d5 = same_disk_trans [OF d4 sys_call_same [OF c5]]
  note d6 = same_disk_trans [OF d5 conjunct1 [OF write_chunks_frame [OF c6]]]
  note d7 = same_disk_trans [OF d6 sys_call_same [OF c7]]
  note d8 = same_disk_trans [OF d7 sys_call_same [OF c8]]
  note unf = assms(1) [unfolded write_pack_def c1 c2 w c4 c5 c6 c7 c8 prod.case Let_def]
  show "same_disk s s'" if "r \<noteq> Some CAS_OK"
    using unf that d1 d2 d3 d4 d5 d6 d7 d8 by (auto split: if_splits)
  show "\<exists>objs. map fst objs = bins \<and> pack_written table policy codec old s path objs s'" if ok: "r = Some CAS_OK"
  proof -
    have *: "r3 = Some CAS_OK" "s' = s8\<lparr>s_files := (s_files s8)(path \<mapsto> out @ index @ pack_footer (length bins) index)\<rparr>"
      using unf ok by (auto split: if_splits)
    obtain objs where o: "map fst objs = bins" "list_all packed_ok objs" "out = pack_data objs" "index = pack_index 0 objs"
      "\<forall>ob \<in> set objs. packed_from table policy codec s2 old ob" using ws(2) *(1) by auto
    have "length objs = length bins" using o(1) by (metis length_map)
    with o d8 * show ?thesis unfolding packed_from_same [OF d2]
      by (intro exI [of _ objs]) (simp add: pack_written_def pack_image_def Let_def same_disk_def)
  qed
qed

section \<open>Collecting the names\<close>

definition bin_of :: "string \<Rightarrow> byte list" where
  "bin_of h = the (cas_hex_decode h CAS_HASH_LEN)"

lemma bin_of_valid: "valid_hash h \<Longrightarrow> length (bin_of h) = CAS_HASH_LEN" "valid_hash h \<Longrightarrow> decode_name h = Some (bin_of h)"
  using valid_hash_decodes [of h] by (auto simp: bin_of_def decode_name_def valid_hash_def)

lemma bin_of_to_hex [simp]: "length b = CAS_HASH_LEN \<Longrightarrow> bin_of (to_hex b) = b"
  using hex_decode_encode [of b CAS_HASH_LEN] by (simp add: bin_of_def cas_hex_encode_def)

text \<open>The visitors of an iteration over a depot or a pack see valid names only.\<close>

lemma bucket_loop_names:
  assumes "\<And>x h. valid_hash h \<Longrightarrow> P x \<Longrightarrow> P (snd (fn x h))" "P x"
  shows "P (snd (bucket_loop fn d ents x))"
  using assms(2)
proof (induction ents arbitrary: x)
  case (Cons h ents)
  obtain b x' where f: "fn x h = (b, x')" by (cases "fn x h")
  with assms(1) [of h x] Cons.IH Cons.prems show ?case by simp
qed simp

lemma foreach_names:
  assumes "\<And>x h. valid_hash h \<Longrightarrow> P x \<Longrightarrow> P (snd (fn x h))" "P x"
  shows "P (snd (cas_foreach tdir fn x))"
proof -
  have "P (foreach_loop fn ds x)" for ds
    using assms(2)
  proof (induction ds arbitrary: x)
    case (Cons b ds)
    obtain d sub where b: "b = (d, sub)" by fastforce
    have "P (snd (bucket_loop fn d ents x))" for ents using assms(1) Cons.prems by (rule bucket_loop_names)
    then show ?case using Cons.IH Cons.prems by (auto simp: b split: option.splits prod.splits) (metis snd_conv)+
  qed simp
  then show ?thesis using assms(2) by (simp add: cas_foreach_def split: top_dir.splits)
qed

lemma pack_loop_names:
  assumes "\<And>x h. valid_hash h \<Longrightarrow> P x \<Longrightarrow> P (snd (fn x h))" "P x" "pack_loop p fn is x = Some x'"
  shows "P x'"
  using assms(2,3)
proof (induction "is" arbitrary: x)
  case (Cons i "is")
  obtain bin where b: "index_name p i = Some bin" using Cons.prems(2) by (auto split: option.splits)
  then have v: "valid_hash (cas_hex_encode bin)"
    by (auto simp: index_name_def peek_def cas_hex_encode_def split: if_splits intro!: valid_to_hex)
  obtain st x1 where f: "fn x (cas_hex_encode bin) = (st, x1)" by (metis prod.exhaust)
  with assms(1) [OF v Cons.prems(1)] Cons.IH [of x1] Cons.prems(2) b show ?case by (auto split: if_splits)
qed simp

definition collecting :: "cas \<Rightarrow> cas \<times> hash_list \<Rightarrow> bool" where
  "collecting s x \<longleftrightarrow> same_disk s (fst x) \<and> list_all (\<lambda>b. length b = CAS_HASH_LEN) (hl_hashes (snd x))"

lemma collect_hash_step: "valid_hash h \<Longrightarrow> collecting s x \<Longrightarrow> collecting s (snd (collect_hash x h))"
proof -
  assume v: "valid_hash h" and c: "collecting s x"
  obtain s1 hl where x: "x = (s1, hl)" by fastforce
  have "length (the (cas_hex_decode h CAS_HASH_LEN)) = CAS_HASH_LEN" using bin_of_valid(1) [OF v] by (simp add: bin_of_def)
  moreover have "same_disk s s2" if "sys_call s1 = (b, s2)" for b s2
    using c sys_call_same [OF that] same_disk_trans by (auto simp: collecting_def x)
  ultimately show ?thesis using c by (auto simp: collect_hash_def collecting_def x Let_def split: prod.splits if_splits)
qed

lemma open_pack_same: "open_pack s path = (r, s') \<Longrightarrow> same_disk s s'"
  using sys_call_same same_disk_trans by (auto simp: open_pack_def Let_def split: prod.splits option.splits) blast+

section \<open>The outcome, whatever fails\<close>

definition pack_opened :: "cas \<Rightarrow> string \<Rightarrow> cas_pack option \<Rightarrow> bool" where
  "pack_opened s path old \<longleftrightarrow> (case old of None \<Rightarrow> True
     | Some p \<Rightarrow> (\<exists>mp. s_files s path = Some mp \<and> cas_pack_open True (Some mp) = Some (Some p)))"

lemma pack_open_sys: "cas_pack_open sys f = Some (Some p) \<Longrightarrow> cas_pack_open True f = Some (Some p)"
  by (auto simp: cas_pack_open_def Let_def split: option.splits if_splits)

lemma open_pack_opened: "open_pack s path = (Some old, s') \<Longrightarrow> pack_opened s path old"
  using sys_call_frame [of s]
  by (auto simp: open_pack_def pack_opened_def Let_def split: prod.splits option.splits if_splits dest: pack_open_sys)

lemma pack_create_outcome:
  assumes "pack_create table tdir s path policy codec keep = (r, s')"
  shows "same_disk s s' \<or> r = Some CAS_OK \<and> (\<exists>old objs. pack_opened s path old \<and>
    pack_written table policy codec old s path objs s' \<and> sorted_wrt (<) (map fst objs))"
proof -
  obtain o1 s1 where op: "open_pack s path = (o1, s1)" by fastforce
  have d1: "same_disk s s1" by (rule open_pack_same [OF op])
  show ?thesis
  proof (cases o1)
    case None
    with assms op d1 show ?thesis by (simp add: pack_create_def)
  next
    case (Some old)
    obtain frc s2 hl1 where fe: "cas_foreach tdir collect_hash (s1, hash_list_init) = (frc, s2, hl1)" by (metis prod.exhaust)
    have "collecting s (s1, hash_list_init)" using d1 by (simp add: collecting_def hash_list_init_def)
    from foreach_names [of "collecting s" collect_hash, OF collect_hash_step this, of tdir] fe
    have c2: "collecting s (s2, hl1)" by simp
    show ?thesis
    proof (cases "case old of None \<Rightarrow> Some (s2, hl1) | Some p \<Rightarrow> cas_pack_foreach p collect_hash (s2, hl1)")
      case None
      with assms op Some fe c2 show ?thesis by (simp add: pack_create_def collecting_def)
    next
      case hl: (Some x)
      obtain s3 hl2 where x: "x = (s3, hl2)" by fastforce
      have c3: "collecting s (s3, hl2)"
        using hl c2 pack_loop_names [of "collecting s" collect_hash, OF collect_hash_step c2]
        by (auto simp: x cas_pack_foreach_def split: option.splits)
      then have d3: "same_disk s s3" and len: "\<forall>b \<in> set (hl_hashes hl2). length b = CAS_HASH_LEN"
        by (simp_all add: collecting_def list_all_iff)
      let ?bins = "unique_hashes (hl_hashes hl2)"
      let ?kept = "case keep of None \<Rightarrow> ?bins | Some k \<Rightarrow> filter (\<lambda>bin. k (cas_hex_encode bin)) ?bins"
      note uq = unique_hashes_spec [OF len]
      note unf = assms [unfolded pack_create_def op Some fe prod.case option.case hl x Let_def]
      show ?thesis
      proof (cases "hl_hashes hl2 = [] \<or> keep \<noteq> None \<and> ?kept = []")
        case True
        with unf d3 show ?thesis by (auto split: if_splits)
      next
        case False
        then have run: "write_pack table policy codec old s3 path ?kept = (r, s')"
          using unf by (auto split: if_splits)
        have "list_all (\<lambda>b. length b = CAS_HASH_LEN) ?kept"
          using len uq(1) by (auto simp: list_all_iff split: option.splits)
        note ws = write_pack_spec [OF run this]
        have so: "sorted_wrt (<) ?kept" using uq(2) by (auto simp: sorted_wrt_filter split: option.splits)
        show ?thesis
        proof (cases "r = Some CAS_OK")
          case False
          then show ?thesis using ws(1) d3 same_disk_trans by blast
        next
          case True
          obtain objs where o: "map fst objs = ?kept" "pack_written table policy codec old s3 path objs s'" using ws(2) [OF True] by blast
          have "pack_written table policy codec old s path objs s'"
            using o(2) d3 unfolding pack_written_def packed_from_same [OF d3] by (simp add: same_disk_def)
          moreover have "pack_opened s path old" using open_pack_opened [of s path old s1] op Some by simp
          ultimately show ?thesis using True so o(1) by metis
        qed
      qed
    qed
  qed
qed

section \<open>The names collected when nothing fails\<close>

lemma collect_hash_quiet:
  assumes "s_sys s = []"
  shows "\<exists>hl'. collect_hash (s, hl) h = (False, s, hl') \<and> hl_hashes hl' = hl_hashes hl @ [bin_of h]"
  using assms by (auto simp: collect_hash_def bin_of_def Let_def)

lemma bucket_loop_collect:
  assumes "s_sys s = []"
  shows "\<exists>hl'. bucket_loop collect_hash d ents (s, hl) = (False, s, hl') \<and>
    hl_hashes hl' = hl_hashes hl @ map bin_of (filter (in_bucket d) ents)"
proof (induction ents arbitrary: hl)
  case (Cons h ents)
  obtain hl1 where h1: "collect_hash (s, hl) h = (False, s, hl1)" "hl_hashes hl1 = hl_hashes hl @ [bin_of h]"
    using collect_hash_quiet [OF assms] by blast
  from Cons [of hl1] Cons [of hl] h1 show ?case by (auto simp: in_bucket_def)
qed simp

lemma foreach_collect:
  assumes "s_sys s = []"
  shows "\<exists>hl'. foreach_loop collect_hash ds (s, hl) = (s, hl') \<and> hl_hashes hl' = hl_hashes hl @ map bin_of (visited (s_basedir s) ds)"
proof (induction ds arbitrary: hl)
  case (Cons b ds)
  obtain d sub where b: "b = (d, sub)" by fastforce
  show ?case
  proof (cases "is_bucket d \<and> length (s_basedir s @ ''/'' @ d) < CAS_PATH_MAX \<and> sub \<noteq> None")
    case False
    with Cons [of hl] show ?thesis by (auto simp: b not_le split: option.splits)
  next
    case True
    then obtain ents where e: "sub = Some ents" by blast
    obtain hl1 where h1: "bucket_loop collect_hash d ents (s, hl) = (False, s, hl1)"
      "hl_hashes hl1 = hl_hashes hl @ map bin_of (filter (in_bucket d) ents)" using bucket_loop_collect [OF assms] by blast
    from Cons [of hl1] h1 True show ?thesis by (auto simp: b e not_le)
  qed
qed simp

text \<open>The names in the index of a pack.\<close>

definition pack_bins :: "cas_pack option \<Rightarrow> byte list list" where
  "pack_bins old = (case old of None \<Rightarrow> [] | Some p \<Rightarrow> map (entry_hash p) [0..<unat (p_count p)])"

lemma entry_address_at:
  assumes "index_fits p" "i < unat (p_count p)"
  shows "entry_address p i = entry_at p i" "index_name p i = Some (entry_hash p i)" "length (entry_hash p i) = CAS_HASH_LEN"
proof -
  have "unat (p_count p) < 2 ^ 64" using unsigned_less [of "p_count p"] by simp
  then have u: "unat (of_nat i :: u64) = i" using assms(2) by (simp add: unat_of_nat)
  note e = entry_offset_word [OF assms(1), of "of_nat i", unfolded u, OF assms(2)]
  from e show "entry_address p i = entry_at p i" "index_name p i = Some (entry_hash p i)" "length (entry_hash p i) = CAS_HASH_LEN"
    by (simp_all add: entry_address_def index_name_def)
qed

lemma pack_collect:
  assumes "s_sys s = []" "index_fits p"
  shows "\<exists>hl'. cas_pack_foreach p collect_hash (s, hl) = Some (s, hl') \<and> hl_hashes hl' = hl_hashes hl @ pack_bins (Some p)"
proof -
  have "\<exists>hl'. pack_loop p collect_hash is (s, hl) = Some (s, hl') \<and> hl_hashes hl' = hl_hashes hl @ map (entry_hash p) is"
    if "\<forall>i \<in> set is. i < unat (p_count p)" for "is" hl
    using that
  proof (induction "is" arbitrary: hl)
    case (Cons i "is")
    note e = entry_address_at [OF assms(2), of i]
    obtain hl1 where h1: "collect_hash (s, hl) (cas_hex_encode (entry_hash p i)) = (False, s, hl1)"
      "hl_hashes hl1 = hl_hashes hl @ [bin_of (cas_hex_encode (entry_hash p i))]" using collect_hash_quiet [OF assms(1)] by blast
    have "bin_of (cas_hex_encode (entry_hash p i)) = entry_hash p i" using e(3) Cons.prems by (simp add: cas_hex_encode_def)
    with Cons.IH [of hl1] Cons.prems h1 e(2) show ?case by auto
  qed simp
  from this [of "[0..<unat (p_count p)]"] show ?thesis by (simp add: cas_pack_foreach_def pack_bins_def)
qed

section \<open>Building a pack when nothing fails\<close>

lemma pack_emit_quiet: "s_sys s = [] \<Longrightarrow> snd (pack_emit table policy codec s src tr) = s"
  by (simp add: pack_emit_def Let_def split: sum.splits)

definition sources :: "cas_codec list \<Rightarrow> cas \<Rightarrow> cas_pack option \<Rightarrow> byte list \<Rightarrow> string \<times> byte list \<Rightarrow> bool" where
  "sources table s old bin x \<longleftrightarrow> (\<exists>src. pack_source s old bin = (Some (Inr src), s) \<and> raw_object table src = Some x)"

text \<open>Each object written reads as the object of its source.\<close>

lemma write_objects_quiet:
  assumes "codec_ok table" "s_sys s = []" "\<forall>b \<in> set bins. length b = CAS_HASH_LEN"
    and "\<forall>b \<in> set bins. sources table s old b (obj b) \<and> packs_safely table policy codec (snd (obj b))"
  shows "\<exists>objs. map fst objs = bins \<and> list_all packed_ok objs \<and>
    write_objects table policy codec old s (of_nat off) bins = (Some CAS_OK, s, pack_data objs, pack_index off objs) \<and>
    (\<forall>(b, out) \<in> set objs. raw_object table out = Some (obj b))"
  using assms(3,4)
proof (induction bins arbitrary: off)
  case Nil
  then show ?case by (auto simp: pack_data_def intro: exI [of _ "[]"])
next
  case (Cons bin bins)
  obtain src tr where q: "pack_source s old bin = (Some (Inr (src, tr)), s)" and raw: "raw_object table (src, tr) = Some (obj bin)"
    using Cons.prems(2) by (auto simp: sources_def)
  obtain t d where ob: "obj bin = (t, d)" by fastforce
  obtain n where hd: "pack_parse_header (drop CAS_PACK_MAGIC_LEN tr) (CAS_TYPE_MAX + 1) = Some (t, n)"
    using raw_object_region [OF raw [unfolded ob]] by metis
  obtain emit tr' where em: "pack_emit table policy codec s src tr = ((emit, tr'), s)"
    using pack_emit_quiet [OF assms(2), of table policy codec src tr] by (metis prod.collapse)
  have es: "emitted table policy codec (src, tr) (emit, tr')" using pack_emit_spec(2) [OF em] by simp
  have tl: "length tr = CAS_PACK_BLOCK"
    using source_trailer pack_source_spec(2) [OF q] by blast
  note et = emitted_trailer [OF es tl]
  have wr: "write_chunks s (data_chunk emit @ [tr']) = (CAS_OK, s)" using write_chunks_ok [OF assms(2)] by blast
  let ?o = "off + length emit" and ?st = "if of_nat (length emit) = n then 0 else of_nat (length emit) :: u64"
  obtain objs where ih: "map fst objs = bins" "list_all packed_ok objs"
    "write_objects table policy codec old s (of_nat (?o + CAS_PACK_BLOCK)) bins = (Some CAS_OK, s, pack_data objs, pack_index (?o + CAS_PACK_BLOCK) objs)"
    "\<forall>(b, out) \<in> set objs. raw_object table out = Some (obj b)"
    using Cons.IH [of "?o + CAS_PACK_BLOCK"] Cons.prems by auto
  have rs: "recorded_size (bin, emit, tr') = ?st" using hd by (simp add: et(2) del: One_nat_def)
  have ok: "packed_ok (bin, emit, tr')" using Cons.prems(1) et hd by (simp del: One_nat_def)
  have "raw_object table (emit, tr') = Some (obj bin)"
    using emitted_object [OF assms(1) raw [unfolded ob] es] Cons.prems(2) ob by simp
  moreover have "write_objects table policy codec old s (of_nat off) (bin # bins) =
      (Some CAS_OK, s, pack_data ((bin, emit, tr') # objs), pack_index off ((bin, emit, tr') # objs))"
    using ih(3) rs by (simp add: q hd em wr Let_def pack_data_def del: One_nat_def)
  ultimately show ?case using ih ok by (intro exI [of _ "(bin, emit, tr') # objs"]) simp
qed

lemma write_pack_quiet:
  assumes "codec_ok table" "s_sys s = []" "\<forall>b \<in> set bins. length b = CAS_HASH_LEN" "length path + 7 < CAS_PATH_MAX"
    and "\<forall>b \<in> set bins. sources table s old b (obj b) \<and> packs_safely table policy codec (snd (obj b))"
  shows "\<exists>objs. map fst objs = bins \<and> list_all packed_ok objs \<and>
    write_pack table policy codec old s path bins = (Some CAS_OK, s\<lparr>s_files := (s_files s)(path \<mapsto> pack_image objs)\<rparr>) \<and>
    (\<forall>(b, out) \<in> set objs. raw_object table out = Some (obj b))"
proof -
  from write_objects_quiet [OF assms(1-3,5), of 0] obtain objs where o: "map fst objs = bins" "list_all packed_ok objs"
    "write_objects table policy codec old s 0 bins = (Some CAS_OK, s, pack_data objs, pack_index 0 objs)"
    "\<forall>(b, out) \<in> set objs. raw_object table out = Some (obj b)" by auto
  have "length bins = length objs" using o(1) by (metis length_map)
  then show ?thesis
    using o assms(2,4) by (intro exI [of _ objs]) (simp add: write_pack_def write_chunks_ok pack_image_def Let_def)
qed

end
