(* ===== verification/PackProps.thy ===== *)
theory PackProps
  imports PackCreate
begin

unbundle bit_operations_syntax

text \<open>
  Properties of the maintenance of packs: a new pack holds exactly the objects of the depot, reclaiming removes only
  what the pack delivers, a depot reads the same after both, an import admits only what hashes to its name, and the
  check of a pack is exact. The lemmas before them relate what a depot reads to its two kinds of copies.
\<close>

section \<open>The objects of a depot\<close>

text \<open>What \<open>readdir\<close> returns is exact, and file names are in lower case as the code writes them.\<close>

definition loose_file :: "cas \<Rightarrow> string \<Rightarrow> bool" where
  "loose_file s h \<longleftrightarrow> (\<exists>path. build_path s h CAS_PATH_MAX = Some path \<and> s_files s path \<noteq> None)"

definition lists_depot :: "cas \<Rightarrow> (string \<times> string list option) list \<Rightarrow> bool" where
  "lists_depot s ds \<longleftrightarrow> (\<forall>h. h \<in> set (visited (s_basedir s) ds) \<longleftrightarrow> valid_hash h \<and> loose_file s h) \<and>
     (\<forall>h. valid_hash h \<longrightarrow> loose_file s h \<longrightarrow> canonical h = h)"

definition depot_names :: "cas \<Rightarrow> (string \<times> string list option) list \<Rightarrow> cas_pack option \<Rightarrow> string set" where
  "depot_names s ds old = set (visited (s_basedir s) ds) \<union> to_hex ` set (pack_bins old)"

text \<open>The loose copy, or else the packed one.\<close>

definition depot_object :: "cas_codec list \<Rightarrow> cas \<Rightarrow> cas_pack option \<Rightarrow> string \<Rightarrow> (string \<times> byte list) option" where
  "depot_object table s old h =
     (if loose_file s h then loose_object table s h else (case old of None \<Rightarrow> None | Some p \<Rightarrow> pack_object table p h))"

lemma to_hex_bin_of: "valid_hash h \<Longrightarrow> to_hex (bin_of h) = canonical h"
  using valid_hash_decodes [of h] by (auto simp: canonical_def bin_of_def cas_hex_encode_def)

lemma depot_source:
  assumes "s_sys s = []" "length (s_basedir s) \<le> 400" "valid_hash h" "canonical h = h" "depot_object table s old h = Some x"
  shows "sources table s old (bin_of h) x"
proof -
  have hx: "cas_hex_encode (bin_of h) = h" using to_hex_bin_of [OF assms(3)] assms(4) by (simp add: cas_hex_encode_def)
  show ?thesis
  proof (cases "loose_file s h")
    case True
    then have "loose_object table s h = Some x" using assms(5) by (simp add: depot_object_def)
    from loose_object_raw [OF assms(1,3) this] obtain src where
      src: "cas_open_loose_raw s h = (Inr src, s)" "raw_object table src = Some x" by blast
    then show ?thesis by (simp add: sources_def pack_source_def hx)
  next
    case False
    then have "cas_open_loose_raw s h = (Inl CAS_ENOTFOUND, s)"
      using loose_object_none [OF assms(1) _ assms(2,3)] by (simp add: loose_file_def)
    moreover obtain p where p: "old = Some p" "pack_object table p h = Some x"
      using False assms(5) by (auto simp: depot_object_def split: option.splits)
    moreover obtain src where "pack_raw_region p (bin_of h) = Some (Inr src)" "raw_object table src = Some x"
      using pack_object_raw [OF p(2) bin_of_valid(2) [OF assms(3)]] by metis
    ultimately show ?thesis by (simp add: sources_def pack_source_def hx)
  qed
qed

lemma pack_bins_length: "(\<And>p. old = Some p \<Longrightarrow> index_fits p) \<Longrightarrow> b \<in> set (pack_bins old) \<Longrightarrow> length b = CAS_HASH_LEN"
  using entry_address_at(3) by (auto simp: pack_bins_def split: option.splits)

lemma depot_names_valid:
  assumes "lists_depot s ds" "\<And>p. old = Some p \<Longrightarrow> index_fits p" "h \<in> depot_names s ds old"
  shows "valid_hash h \<and> canonical h = h"
  using assms(1,3) pack_bins_length [OF assms(2)] valid_to_hex by (auto simp: depot_names_def lists_depot_def)

section \<open>A new pack\<close>

lemma pack_create_run:
  assumes "codec_ok table" "s_sys s = []" "length (s_basedir s) \<le> 400" "length path + 7 < CAS_PATH_MAX"
    and "open_pack s path = (Some old, s)" "\<And>p. old = Some p \<Longrightarrow> index_fits p" "lists_depot s ds"
    and "kept = {h \<in> depot_names s ds old. case keep of None \<Rightarrow> True | Some k \<Rightarrow> k h}"
    and "\<And>h. h \<in> kept \<Longrightarrow> \<exists>x. depot_object table s old h = Some x \<and> packs_safely table policy codec (snd x)"
  shows "\<exists>s'. pack_create table (Listing ds) s path policy codec keep = (Some CAS_OK, s') \<and> (kept = {} \<longrightarrow> s' = s) \<and>
    (kept \<noteq> {} \<longrightarrow> (\<exists>img. s' = s\<lparr>s_files := (s_files s)(path \<mapsto> img)\<rparr> \<and> (length img < 2 ^ 64 \<longrightarrow>
       (\<exists>p. cas_pack_open True (Some img) = Some (Some p) \<and> index_fits p \<and> offsets_fit p \<and> index_sorted p \<and>
         (\<forall>h. valid_hash h \<longrightarrow> cas_pack_exists p h = Some (canonical h \<in> kept) \<and>
           pack_object table p h = (if canonical h \<in> kept then depot_object table s old (canonical h) else None))))))"
proof -
  obtain hl1 where f: "foreach_loop collect_hash ds (s, hash_list_init) = (s, hl1)" "hl_hashes hl1 = map bin_of (visited (s_basedir s) ds)"
    using foreach_collect [OF assms(2), of ds hash_list_init] by (auto simp: hash_list_init_def)
  obtain hl2 where g: "(case old of None \<Rightarrow> Some (s, hl1) | Some p \<Rightarrow> cas_pack_foreach p collect_hash (s, hl1)) = Some (s, hl2)"
    "hl_hashes hl2 = map bin_of (visited (s_basedir s) ds) @ pack_bins old"
  proof (cases old)
    case (Some p)
    from pack_collect [OF assms(2) assms(6) [OF Some], of hl1] f(2) Some that show thesis by auto
  qed (use f(2) that in \<open>simp add: pack_bins_def\<close>)
  let ?hs = "hl_hashes hl2" and ?bins = "unique_hashes (hl_hashes hl2)"
  have bv: "length b = CAS_HASH_LEN" if "b \<in> set ?hs" for b
    using that g(2) bin_of_valid(1) visited_valid pack_bins_length [OF assms(6)] by fastforce
  have names: "to_hex ` set ?hs = depot_names s ds old"
  proof -
    have "to_hex (bin_of h) = h" if "h \<in> set (visited (s_basedir s) ds)" for h
      using that assms(7) to_hex_bin_of by (simp add: lists_depot_def)
    then show ?thesis by (force simp: g(2) depot_names_def image_iff)
  qed
  note uq = unique_hashes_spec [of ?hs CAS_HASH_LEN]
  let ?kb = "case keep of None \<Rightarrow> ?bins | Some k \<Rightarrow> filter (\<lambda>bin. k (cas_hex_encode bin)) ?bins"
  have kb: "to_hex ` set ?kb = kept" "\<forall>b \<in> set ?kb. length b = CAS_HASH_LEN" "sorted_wrt (<) ?kb"
    using uq bv names by (auto simp: assms(8) cas_hex_encode_def sorted_wrt_filter split: option.splits)
  have run: "pack_create table (Listing ds) s path policy codec keep =
      (if ?hs = [] then (Some CAS_OK, s) else if keep \<noteq> None \<and> ?kb = [] then (Some CAS_OK, s)
       else write_pack table policy codec old s path ?kb)"
    by (simp only: pack_create_def assms(5) cas_foreach_def f(1) g(1) prod.case option.case top_dir.case Let_def)
  show ?thesis
  proof (cases "kept = {}")
    case True
    then have "?kb = []" using kb(1) by simp
    moreover have "?hs = [] \<or> keep \<noteq> None" using True names by (auto simp: assms(8) split: option.splits)
    ultimately show ?thesis using run True by auto
  next
    case False
    then have ne: "?hs \<noteq> []" "?kb \<noteq> []" using kb(1) names by (auto simp: assms(8))
    define obj where "obj b = the (depot_object table s old (to_hex b))" for b
    have src: "sources table s old b (obj b) \<and> packs_safely table policy codec (snd (obj b)) \<and> depot_object table s old (to_hex b) = Some (obj b)"
      if b: "b \<in> set ?kb" for b
    proof -
      have k: "to_hex b \<in> kept" using b kb(1) by blast
      then obtain x where x: "depot_object table s old (to_hex b) = Some x" "packs_safely table policy codec (snd x)" using assms(9) by blast
      have l: "length b = CAS_HASH_LEN" using kb(2) b by blast
      have "sources table s old (bin_of (to_hex b)) x" using depot_source [OF assms(2,3) _ _ x(1)] valid_to_hex [OF l] l by simp
      with x l show ?thesis by (simp add: obj_def)
    qed
    obtain objs where o: "map fst objs = ?kb" "list_all packed_ok objs"
      "write_pack table policy codec old s path ?kb = (Some CAS_OK, s\<lparr>s_files := (s_files s)(path \<mapsto> pack_image objs)\<rparr>)"
      "\<forall>(b, out) \<in> set objs. raw_object table out = Some (obj b)"
      using write_pack_quiet [OF assms(1,2) kb(2) assms(4)] src by blast
    have fst: "fst ` set objs = set ?kb" using o(1) by (metis list.set_map)
    have res: "cas_pack_exists (image_pack objs) h = Some (canonical h \<in> kept) \<and>
        pack_object table (image_pack objs) h = (if canonical h \<in> kept then depot_object table s old (canonical h) else None)"
      if small: "length (pack_image objs) < 2 ^ 64" and v: "valid_hash h" for h
    proof -
      note look = image_lookup [OF o(2) small kb(3) [folded o(1)] bin_of_valid(2) [OF v]]
      have hx: "to_hex (bin_of h) = canonical h" by (rule to_hex_bin_of [OF v])
      have mem: "bin_of h \<in> fst ` set objs \<longleftrightarrow> canonical h \<in> kept"
        unfolding fst kb(1) [symmetric] hx [symmetric] using to_hex_inj by (auto simp: image_iff)
      show ?thesis
      proof (cases "canonical h \<in> kept")
        case True
        then have "bin_of h \<in> fst ` set objs" using mem by simp
        then obtain region tr where ob: "(bin_of h, region, tr) \<in> set objs" by auto
        then have "raw_object table (region, tr) = Some (obj (bin_of h))" using o(4) by auto
        from look(1) [OF ob this] look(2) src [of "bin_of h"] ob fst hx mem True show ?thesis by force
      qed (use look(2,3) mem in simp)
    qed
    show ?thesis
      using run ne o(3) False image_open [OF o(2)] image_index(1,5) [OF o(2)] image_sorted [OF o(2)] kb(3) o(1) res by auto
  qed
qed

text \<open>
  C14. A new pack holds exactly the objects it is asked to hold. In a depot whose objects all read, where nothing fails and
  compression stays within the bounds of the reader, and from which the filter keeps at least one object, \<open>pack_create\<close>
  replaces the pack by one that opens, whose index is sorted and inside the file, that has an entry for a name exactly if
  the name is in the depot, loose or in the old pack, and the filter keeps it, and that gives every such name the object
  it had. The case that the filter keeps nothing is apart (\<open>pack_create_nothing_kept\<close>), since the code and its
  documentation differ there.
\<close>

theorem pack_create_exact:
  assumes "codec_ok table" "s_sys s = []" "length (s_basedir s) \<le> 400" "length path + 7 < CAS_PATH_MAX"
    and "open_pack s path = (Some old, s)" "\<And>p. old = Some p \<Longrightarrow> index_fits p" "lists_depot s ds"
    and "kept = {h \<in> depot_names s ds old. case keep of None \<Rightarrow> True | Some k \<Rightarrow> k h}" "kept \<noteq> {}"
    and "\<And>h. h \<in> kept \<Longrightarrow> \<exists>x. depot_object table s old h = Some x \<and> packs_safely table policy codec (snd x)"
  shows "\<exists>img. pack_create table (Listing ds) s path policy codec keep = (Some CAS_OK, s\<lparr>s_files := (s_files s)(path \<mapsto> img)\<rparr>) \<and>
    (length img < 2 ^ 64 \<longrightarrow>
       (\<exists>p. cas_pack_open True (Some img) = Some (Some p) \<and> index_fits p \<and> offsets_fit p \<and> index_sorted p \<and>
         (\<forall>h. valid_hash h \<longrightarrow> cas_pack_exists p h = Some (canonical h \<in> kept) \<and>
           pack_object table p h = (if canonical h \<in> kept then depot_object table s old (canonical h) else None))))"
  using pack_create_run [OF assms(1-8,10)] assms(9) by auto

text \<open>
  When the filter keeps nothing the old pack, or its absence, stays as it is, where \<open>cas-pack.h\<close> says that an empty pack
  is written. The comment in the body of the function says so and gives the reason: a missing reference must not
  empty the pack.
\<close>

theorem pack_create_nothing_kept:
  assumes "codec_ok table" "s_sys s = []" "length (s_basedir s) \<le> 400" "length path + 7 < CAS_PATH_MAX"
    and "open_pack s path = (Some old, s)" "\<And>p. old = Some p \<Longrightarrow> index_fits p" "lists_depot s ds"
    and "{h \<in> depot_names s ds old. keep h} = {}"
  shows "pack_create table (Listing ds) s path policy codec (Some keep) = (Some CAS_OK, s)"
  using pack_create_run [OF assms(1-7), where keep = "Some keep" and kept = "{}"] assms(8) by simp

section \<open>Reclaiming\<close>

text \<open>A name the pack delivers, with contents that hash to it or cannot be checked here.\<close>

definition delivers :: "cas_codec list \<Rightarrow> cas_pack \<Rightarrow> string \<Rightarrow> bool" where
  "delivers table p h \<longleftrightarrow> (\<exists>t d. pack_object table p h = Some (t, d) \<and> (t = ''htree'' \<or> cas_hash_object t d = Some h))"

lemma reclaimable_delivers: "reclaimable table mem p h = Some True \<Longrightarrow> delivers table p h"
  unfolding reclaimable_def lookup_type_fits
  using pack_lookup_mem [of table mem p h None]
  by (auto simp: delivers_def pack_object_def cas_type_is_reencoded_def split: option.splits sum.splits if_splits)

lemma reclaimable_iff:
  assumes "delivers table p h"
  shows "reclaimable table True p h = Some True"
proof -
  from assms obtain t d where "cas_pack_lookup table True p h None = Some (Inr (t, d))" "t = ''htree'' \<or> cas_hash_object t d = Some h"
    by (auto simp: delivers_def pack_object_def split: option.splits sum.splits)
  then show ?thesis unfolding reclaimable_def lookup_type_fits by (auto simp: cas_type_is_reencoded_def)
qed

text \<open>Only files of objects the pack delivers may go.\<close>

definition reclaimed :: "cas_codec list \<Rightarrow> cas_pack \<Rightarrow> cas \<Rightarrow> cas \<Rightarrow> bool" where
  "reclaimed table p s s' \<longleftrightarrow> s_basedir s' = s_basedir s \<and> (\<forall>q. s_files s' q = s_files s q \<or> s_files s' q = None \<and>
     (\<exists>h. valid_hash h \<and> build_path s h CAS_PATH_MAX = Some q \<and> delivers table p h))"

lemma reclaimed_same: "same_disk s s' \<Longrightarrow> reclaimed table p s s'"
  by (simp add: reclaimed_def same_disk_def)

lemma reclaimed_trans: "reclaimed table p a b \<Longrightarrow> reclaimed table p b c \<Longrightarrow> reclaimed table p a c"
proof -
  assume ab: "reclaimed table p a b" and bc: "reclaimed table p b c"
  then have "build_path b h CAS_PATH_MAX = build_path a h CAS_PATH_MAX" for h by (simp add: reclaimed_def build_path_def)
  with ab bc show ?thesis unfolding reclaimed_def by metis
qed

lemma remove_reclaimed:
  assumes "cas_remove s h = (rc, s')" "delivers table p h"
  shows "reclaimed table p s s'" "s_pack s' = s_pack s"
proof -
  show "reclaimed table p s s'"
  proof (cases "valid_hash h")
    case True
    then show ?thesis using assms sys_call_frame [of s]
      by (auto simp: cas_remove_def reclaimed_def build_path_def split: option.splits if_splits prod.splits)
  qed (use assms in \<open>simp add: cas_remove_def reclaimed_def\<close>)
  show "s_pack s' = s_pack s"
    using assms sys_call_frame [of s] by (auto simp: cas_remove_def split: option.splits if_splits prod.splits)
qed

lemma reclaim_loop_spec:
  assumes "reclaim_loop table p s n bins = (r, s')"
  shows "reclaimed table p s s' \<and> s_pack s' = s_pack s"
  using assms
proof (induction bins arbitrary: s n)
  case Nil
  then show ?case by (simp add: reclaimed_same)
next
  case (Cons bin bins)
  obtain mem s1 where c: "sys_call s = (mem, s1)" by fastforce
  have d1: "reclaimed table p s s1" "s_pack s1 = s_pack s"
    using sys_call_same [OF c] reclaimed_same by (auto simp: same_disk_def)
  let ?hex = "cas_hex_encode bin"
  show ?case
  proof (cases "reclaimable table mem p ?hex")
    case None
    with Cons.prems c d1 show ?thesis by simp
  next
    case (Some b)
    show ?thesis
    proof (cases b)
      case True
      then have dv: "delivers table p ?hex" using Some by (intro reclaimable_delivers) simp
      obtain rc s2 where rm: "cas_remove s1 ?hex = (rc, s2)" by fastforce
      note rr = remove_reclaimed [OF rm dv]
      have "reclaimed table p s2 s' \<and> s_pack s' = s_pack s2" using Cons.IH Cons.prems c Some True rm by simp
      then show ?thesis using rr d1 reclaimed_trans by metis
    next
      case False
      then have "reclaimed table p s1 s' \<and> s_pack s' = s_pack s1" using Cons.IH Cons.prems c Some by simp
      then show ?thesis using d1 reclaimed_trans by metis
    qed
  qed
qed

lemma reload_pack_frame:
  assumes "cas_reload_pack s = (r, s')"
  shows "s_files s' = s_files s \<and> s_basedir s' = s_basedir s"
proof -
  obtain o1 s1 where "open_pack s (pack_path s) = (o1, s1)" by fastforce
  with assms open_pack_same [OF this] show ?thesis
    by (auto simp: cas_reload_pack_def same_disk_def split: if_splits option.splits)
qed

text \<open>
  C27. Reclaiming never loses an object. Whatever fails, in a run of \<open>cas_pack_reclaim\<close> the only files that change are loose
  objects, these are removed, and each of them is one that the committed pack file at the given path, opened anew,
  delivers under its name, with contents that hash to it; only directories in the \<open>htree\<close> format, whose names are not
  hashes of their bytes, are taken on the word of the pack.
\<close>

theorem reclaim_safe:
  assumes "cas_pack_reclaim table tdir s path = (r, s')"
  shows "s_basedir s' = s_basedir s \<and> (\<forall>q. s_files s' q \<noteq> s_files s q \<longrightarrow> s_files s' q = None \<and>
    (\<exists>h p mp. valid_hash h \<and> build_path s h CAS_PATH_MAX = Some q \<and> s_files s path = Some mp \<and>
       cas_pack_open True (Some mp) = Some (Some p) \<and> delivers table p h))"
proof -
  obtain o1 s1 where op: "open_pack s path = (o1, s1)" by fastforce
  have d1: "same_disk s s1" by (rule open_pack_same [OF op])
  show ?thesis
  proof (cases "\<exists>p. o1 = Some (Some p)")
    case False
    then have "s' = s1" using assms op by (auto simp: cas_pack_reclaim_def split: option.splits)
    with d1 show ?thesis by (simp add: same_disk_def)
  next
    case True
    then obtain p where p: "o1 = Some (Some p)" by blast
    have mp: "pack_opened s path (Some p)" using open_pack_opened [of s path "Some p" s1] op p by simp
    obtain r2 s2 where rl: "cas_reload_pack s1 = (r2, s2)" by fastforce
    note rf = reload_pack_frame [OF rl]
    show ?thesis
    proof (cases r2)
      case None
      with assms op p rl rf d1 show ?thesis by (simp add: cas_pack_reclaim_def same_disk_def)
    next
      case (Some rrc)
      obtain frc s3 hl where fe: "cas_foreach tdir collect_hash (s2, hash_list_init) = (frc, s3, hl)" by (metis prod.exhaust)
      have "collecting s2 (s2, hash_list_init)" by (simp add: collecting_def hash_list_init_def)
      from foreach_names [of "collecting s2" collect_hash, OF collect_hash_step this, of tdir] fe
      have d3: "same_disk s2 s3" by (simp add: collecting_def)
      obtain r4 s4 where lo: "reclaim_loop table p s3 0 (hl_hashes hl) = (r4, s4)" by fastforce
      have s': "s' = s4" using assms op p rl Some fe lo by (auto simp: cas_pack_reclaim_def split: option.splits)
      have eq: "s_files s3 = s_files s" "s_basedir s3 = s_basedir s" using d1 rf d3 by (simp_all add: same_disk_def)
      then have "build_path s3 h CAS_PATH_MAX = build_path s h CAS_PATH_MAX" for h by (simp add: build_path_def)
      with reclaim_loop_spec [OF lo] eq mp show ?thesis unfolding s' by (auto simp: reclaimed_def pack_opened_def)
    qed
  qed
qed

section \<open>Packing and reclaiming\<close>

text \<open>What a depot reads under a name, by its pack and its loose file.\<close>

lemma get_object_copies:
  assumes "valid_hash h"
  shows "get_object table s h = (case s_pack s of None \<Rightarrow> loose_object table s h
    | Some p \<Rightarrow> (case cas_pack_lookup table True p h None of None \<Rightarrow> None | Some (Inr x) \<Rightarrow> Some x
        | Some (Inl rc) \<Rightarrow> if rc = CAS_ENOTFOUND then loose_object table s h else None))"
  using assms
  by (auto simp: get_object_def cas_open_object_def loose_object_def split: option.splits sum.splits prod.splits)

lemma loose_object_file: "loose_object table s h \<noteq> None \<Longrightarrow> loose_file s h"
proof -
  assume "loose_object table s h \<noteq> None"
  then obtain x s' where "open_loose table (s\<lparr>s_sys := []\<rparr>) h None = (Inr x, s')"
    by (cases "open_loose table (s\<lparr>s_sys := []\<rparr>) h None") (auto simp: loose_object_def split: sum.splits)
  from open_loose_file [OF this] show ?thesis by (auto simp: loose_file_def build_path_def)
qed

lemma get_object_packed: "valid_hash h \<Longrightarrow> s_pack s = Some p \<Longrightarrow> pack_object table p h = Some x \<Longrightarrow> get_object table s h = Some x"
  by (auto simp: get_object_copies pack_object_def split: option.splits sum.splits)

lemma get_object_absent:
  assumes "valid_hash h" "\<And>p. s_pack s = Some p \<Longrightarrow> pack_object table p h = None" "\<not> loose_file s h"
  shows "get_object table s h = None"
proof -
  have "loose_object table s h = None" using loose_object_file [of table s h] assms(3) by blast
  with assms(1,2) show ?thesis by (auto simp: get_object_copies pack_object_def split: option.splits sum.splits)
qed

text \<open>\<open>D\<close> tells which objects the pack delivers.\<close>

lemma reclaim_loop_quiet:
  assumes "s_sys s = []" "\<forall>b \<in> set bins. length b = CAS_HASH_LEN \<and> reclaimable table True p (to_hex b) = Some (D (to_hex b))"
  shows "\<exists>n' s'. reclaim_loop table p s n bins = (Some n', s') \<and> s_sys s' = [] \<and> s_pack s' = s_pack s \<and> s_basedir s' = s_basedir s \<and>
    (\<forall>q. s_files s' q = (if \<exists>b \<in> set bins. D (to_hex b) \<and> build_path s (to_hex b) CAS_PATH_MAX = Some q then None else s_files s q))"
  using assms
proof (induction bins arbitrary: s n)
  case (Cons b bins)
  have v: "valid_hash (to_hex b)" and r: "reclaimable table True p (to_hex b) = Some (D (to_hex b))"
    using Cons.prems(2) valid_to_hex by auto
  show ?case
  proof (cases "D (to_hex b)")
    case False
    with r have "reclaim_loop table p s n (b # bins) = reclaim_loop table p s n bins"
      using Cons.prems(1) by (simp add: cas_hex_encode_def)
    with Cons.IH [OF Cons.prems(1), of n] Cons.prems(2) False show ?thesis by auto
  next
    case True
    with v r have b: "valid_hash (to_hex b)" "reclaimable table True p (to_hex b) = Some True" by simp_all
    obtain rc s1 where rm: "cas_remove s (to_hex b) = (rc, s1)" by fastforce
    have s1: "s_sys s1 = []" "s_pack s1 = s_pack s" "s_basedir s1 = s_basedir s"
      "\<forall>q. s_files s1 q = (if build_path s (to_hex b) CAS_PATH_MAX = Some q then None else s_files s q)"
      using rm b(1) Cons.prems(1) by (auto simp: cas_remove_def split: option.splits if_splits)
    let ?n = "if rc = CAS_OK then n + 1 else n"
    have bp: "build_path s1 h CAS_PATH_MAX = build_path s h CAS_PATH_MAX" for h using s1(3) by (simp add: build_path_def)
    have "reclaim_loop table p s n (b # bins) = reclaim_loop table p s1 ?n bins"
      using rm b(2) Cons.prems(1) by (simp add: cas_hex_encode_def)
    with Cons.IH [OF s1(1), of ?n] Cons.prems(2) s1(2-4) True show ?thesis by (auto simp: bp)
  qed
qed simp

text \<open>The file of a pack is none of the files of objects.\<close>

lemma pack_path_not_object: "build_path s h k = Some q \<Longrightarrow> length h = 64 \<Longrightarrow> q \<noteq> pack_path s"
  by (auto simp: build_path_def pack_path_def split: if_splits dest: arg_cong [where f = length])

lemma reclaim_quiet:
  assumes "s_sys s = []" "length (s_basedir s) \<le> 400" "s_files s (pack_path s) = Some mp" "cas_pack_open True (Some mp) = Some (Some p)"
    and "\<forall>h \<in> set (visited (s_basedir s) ds). canonical h = h \<and> reclaimable table True p h = Some (D h)"
  shows "\<exists>n s'. cas_pack_reclaim table (Listing ds) s (pack_path s) = (Some (CAS_OK, n), s') \<and> s_pack s' = Some p \<and>
    s_basedir s' = s_basedir s \<and> s_sys s' = [] \<and>
    (\<forall>q. s_files s' q = (if \<exists>h \<in> set (visited (s_basedir s) ds). D h \<and> build_path s h CAS_PATH_MAX = Some q then None else s_files s q))"
proof -
  let ?s = "s\<lparr>s_pack := Some p\<rparr>" and ?hs = "visited (s_basedir s) ds"
  have op: "open_pack s (pack_path s) = (Some (Some p), s)" using assms(1,3,4) by (simp add: open_pack_def)
  have len: "\<not> length (pack_path s) \<ge> CAS_PATH_MAX" using assms(2) by (simp add: pack_path_def CAS_PATH_MAX_def)
  obtain hl where f: "foreach_loop collect_hash ds (?s, hash_list_init) = (?s, hl)" "hl_hashes hl = map bin_of ?hs"
    using foreach_collect [of ?s ds hash_list_init] assms(1) by (auto simp: hash_list_init_def)
  have hx: "to_hex (bin_of h) = h" "length (bin_of h) = CAS_HASH_LEN" if "h \<in> set ?hs" for h
    using that assms(5) to_hex_bin_of visited_valid bin_of_valid(1) by metis+
  have bins: "\<forall>b \<in> set (hl_hashes hl). length b = CAS_HASH_LEN \<and> reclaimable table True p (to_hex b) = Some (D (to_hex b))"
    using hx assms(5) by (auto simp: f(2))
  have "s_sys ?s = []" using assms(1) by simp
  from reclaim_loop_quiet [OF this bins, of 0] obtain n s' where
    lo: "reclaim_loop table p ?s 0 (hl_hashes hl) = (Some n, s')" "s_pack s' = Some p" "s_basedir s' = s_basedir s" "s_sys s' = []"
    "\<forall>q. s_files s' q = (if \<exists>b \<in> set (hl_hashes hl). D (to_hex b) \<and> build_path ?s (to_hex b) CAS_PATH_MAX = Some q
       then None else s_files ?s q)" by (elim exE conjE) (rule that, simp_all)
  have "(\<exists>b \<in> set (hl_hashes hl). D (to_hex b) \<and> build_path ?s (to_hex b) CAS_PATH_MAX = Some q) \<longleftrightarrow>
      (\<exists>h \<in> set ?hs. D h \<and> build_path s h CAS_PATH_MAX = Some q)"
    for q
  proof -
    have "build_path ?s h k = build_path s h k" for h k by (simp add: build_path_def)
    then show ?thesis using hx(1) by (simp add: f(2))
  qed
  moreover have "cas_pack_reclaim table (Listing ds) s (pack_path s) = (Some (CAS_OK, n), s')"
    using f(1) lo(1) by (simp add: cas_pack_reclaim_def op cas_reload_pack_def if_not_P [OF len] cas_foreach_def)
  ultimately show ?thesis using lo(2-5) by auto
qed

text \<open>The objects a depot reads, with both copies of a name in agreement, each hashing to its name.\<close>

definition depot_sound :: "cas_codec list \<Rightarrow> cas \<Rightarrow> (string \<times> string list option) list \<Rightarrow> bool" where
  "depot_sound table s ds \<longleftrightarrow> (\<forall>h \<in> depot_names s ds (s_pack s). \<exists>t d. get_object table s h = Some (t, d) \<and>
     depot_object table s (s_pack s) h = Some (t, d) \<and> (t = ''htree'' \<or> cas_hash_object t d = Some h))"

lemma unlisted_absent:
  assumes "pack_ok s" "lists_depot s ds" "valid_hash h" "canonical h = h" "h \<notin> depot_names s ds (s_pack s)"
  shows "get_object table s h = None"
proof (rule get_object_absent [OF assms(3)])
  show "\<not> loose_file s h" using assms(2,3,5) by (auto simp: depot_names_def lists_depot_def)
  fix o1
  assume o1: "s_pack s = Some o1"
  then have fits: "index_fits o1" using assms(1) by (simp add: pack_ok_def)
  show "pack_object table o1 h = None"
  proof (rule ccontr)
    assume "pack_object table o1 h \<noteq> None"
    then obtain e where e: "find_entry o1 (bin_of h) = Some (Some e)"
      by (auto simp: pack_object_def cas_pack_lookup_def bin_of_valid(2) [OF assms(3)] split: option.splits)
    with find_entry_correct [OF fits bin_of_valid(1) [OF assms(3)]] have "bin_of h \<in> set (pack_bins (s_pack s))"
      by (force simp: pack_bins_def o1)
    then have "h \<in> depot_names s ds (s_pack s)"
      using to_hex_bin_of [OF assms(3)] assms(4) by (auto simp: depot_names_def image_iff intro!: bexI [of _ "bin_of h"])
    with assms(5) show False by simp
  qed
qed

text \<open>
  C19. Packing and reclaiming change no object. Take a sound depot whose live pack is the one on disk, with nothing failing and
  compression within the bounds of the reader. After \<open>cas_pack_create_z\<close> and \<open>cas_pack_reclaim\<close>, both successful, every name
  reads exactly as before, and no object is left loose: all of them come from the new pack.
\<close>

theorem repack_keeps:
  assumes "codec_ok table" "s_sys s = []" "length (s_basedir s) \<le> 400"
    and "open_pack s (pack_path s) = (Some (s_pack s), s)" "pack_ok s" "lists_depot s ds" "depot_sound table s ds"
    and "\<And>h t d. h \<in> depot_names s ds (s_pack s) \<Longrightarrow> get_object table s h = Some (t, d) \<Longrightarrow> packs_safely table policy codec d"
    and "cas_pack_create_z table (Listing ds) s (pack_path s) policy codec = (rc, s1)"
    and "\<And>img. s_files s1 (pack_path s) = Some img \<Longrightarrow> length img < 2 ^ 64"
    and "cas_pack_reclaim table (Listing ds) s1 (pack_path s1) = (r, s2)"
  shows "rc = Some CAS_OK \<and> (\<exists>n. r = Some (CAS_OK, n)) \<and>
    (\<forall>h. valid_hash h \<and> canonical h = h \<longrightarrow> get_object table s2 h = get_object table s h \<and> \<not> loose_file s2 h)"
proof -
  let ?N = "depot_names s ds (s_pack s)" and ?hs = "visited (s_basedir s) ds"
  have fits: "index_fits p" if "s_pack s = Some p" for p using assms(5) that by (simp add: pack_ok_def)
  have len: "length (pack_path s) + 7 < CAS_PATH_MAX" using assms(3) by (simp add: pack_path_def CAS_PATH_MAX_def)
  have N: "?N = {h \<in> ?N. case None of None \<Rightarrow> True | Some k \<Rightarrow> k h}" by simp
  have each: "\<exists>t d. get_object table s h = Some (t, d) \<and> depot_object table s (s_pack s) h = Some (t, d) \<and>
      (t = ''htree'' \<or> cas_hash_object t d = Some h)" if "h \<in> ?N" for h using assms(7) that by (simp add: depot_sound_def)
  have safe: "\<exists>x. depot_object table s (s_pack s) h = Some x \<and> packs_safely table policy codec (snd x)" if "h \<in> ?N" for h
    using each [OF that] assms(8) [OF that] by fastforce
  from pack_create_run [OF assms(1-3) len assms(4) fits assms(6) N safe]
  have run: "rc = Some CAS_OK" "?N = {} \<longrightarrow> s1 = s" "?N \<noteq> {} \<longrightarrow> (\<exists>img. s1 = s\<lparr>s_files := (s_files s)(pack_path s \<mapsto> img)\<rparr> \<and>
      (length img < 2 ^ 64 \<longrightarrow> (\<exists>p. cas_pack_open True (Some img) = Some (Some p) \<and> index_fits p \<and> offsets_fit p \<and> index_sorted p \<and>
         (\<forall>h. valid_hash h \<longrightarrow> cas_pack_exists p h = Some (canonical h \<in> ?N) \<and>
           pack_object table p h = (if canonical h \<in> ?N then depot_object table s (s_pack s) (canonical h) else None)))))"
    using assms(9) unfolding cas_pack_create_z_def by (auto simp del: fun_upd_apply)
  have names: "h \<in> set ?hs \<longleftrightarrow> valid_hash h \<and> loose_file s h" for h using assms(6) by (simp add: lists_depot_def)
  show ?thesis
  proof (cases "?N = {}")
    case True
    then have e: "?hs = []" "pack_bins (s_pack s) = []" "s1 = s" using run(2) by (auto simp: depot_names_def)
    obtain hl where f: "foreach_loop collect_hash ds (s, hash_list_init) = (s, hl)" "hl_hashes hl = []"
      using foreach_collect [OF assms(2), of ds hash_list_init] e(1) by (auto simp: hash_list_init_def)
    have same: "s\<lparr>s_pack := Some p\<rparr> = s" if "s_pack s = Some p" for p using that by (cases s) simp
    have "\<not> length (pack_path s) \<ge> CAS_PATH_MAX" using len by simp
    then have "s2 = s \<and> r = Some (CAS_OK, 0)"
      using assms(4,11) f same by (cases "s_pack s") (auto simp: cas_pack_reclaim_def e(3) cas_reload_pack_def cas_foreach_def)
    moreover have "\<not> loose_file s h" if "valid_hash h" for h using names e(1) that by simp
    ultimately show ?thesis using run(1) by simp
  next
    case False
    then obtain img p where s1: "s1 = s\<lparr>s_files := (s_files s)(pack_path s \<mapsto> img)\<rparr>" and p: "cas_pack_open True (Some img) = Some (Some p)"
      "\<And>h. valid_hash h \<Longrightarrow> pack_object table p h = (if canonical h \<in> ?N then depot_object table s (s_pack s) (canonical h) else None)"
      using run(3) assms(10) by auto
    have eq: "s_sys s1 = []" "s_basedir s1 = s_basedir s" "pack_path s1 = pack_path s" "s_files s1 (pack_path s) = Some img"
      "\<And>h. build_path s1 h CAS_PATH_MAX = build_path s h CAS_PATH_MAX"
      using assms(2) by (simp_all add: s1 pack_path_def build_path_def)
    have dl: "canonical h = h \<and> delivers table p h" if h: "h \<in> set ?hs" for h
    proof -
      have v: "valid_hash h" "canonical h = h" "h \<in> ?N" using h names assms(6) by (auto simp: lists_depot_def depot_names_def)
      with each [OF v(3)] p(2) [OF v(1)] show ?thesis by (auto simp: delivers_def)
    qed
    obtain n s' where rq: "cas_pack_reclaim table (Listing ds) s1 (pack_path s1) = (Some (CAS_OK, n), s')" "s_pack s' = Some p"
      "s_basedir s' = s_basedir s"
      "\<forall>q. s_files s' q = (if \<exists>h \<in> set ?hs. build_path s h CAS_PATH_MAX = Some q then None else s_files s1 q)"
      using reclaim_quiet [of s1 img p ds table "\<lambda>_. True"] eq p(1) dl reclaimable_iff assms(3) by auto
    have s2: "s2 = s'" "r = Some (CAS_OK, n)" using rq(1) assms(11) by simp_all
    have gone: "\<not> loose_file s2 h" if v: "valid_hash h" for h
    proof
      assume "loose_file s2 h"
      then obtain q where q: "build_path s h CAS_PATH_MAX = Some q" "s_files s2 q \<noteq> None"
        using rq(3) by (auto simp: loose_file_def s2 build_path_def)
      have "q \<noteq> pack_path s" using pack_path_not_object [OF q(1)] v by (simp add: valid_hash_def CAS_HASH_HEX_def)
      then have "s_files s q \<noteq> None" using q(2) rq(4) by (simp add: s2 s1 split: if_splits)
      then have "h \<in> set ?hs" using names v q(1) by (auto simp: loose_file_def)
      then have "s_files s' q = None" using q(1) rq(4) by metis
      with q(2) show False by (simp add: s2)
    qed
    have "get_object table s2 h = get_object table s h" if v: "valid_hash h" "canonical h = h" for h
    proof (cases "h \<in> ?N")
      case True
      then obtain x where x: "get_object table s h = Some x" "depot_object table s (s_pack s) h = Some x" using each by blast
      then have "pack_object table p h = Some x" using p(2) v True by simp
      with get_object_packed [OF v(1) rq(2)] x(1) show ?thesis by (simp add: s2)
    next
      case out: False
      have "get_object table s2 h = None"
        using get_object_absent [OF v(1) _ gone [OF v(1)], of table] rq(2) p(2) v out by (simp add: s2)
      with unlisted_absent [OF assms(5,6) v out, of table] show ?thesis by simp
    qed
    with run(1) gone show ?thesis by (simp add: s2)
  qed
qed

section \<open>Examples\<close>

text \<open>A depot with one small object, as \<open>cas_put_object\<close> leaves it, and the listing of its directory.\<close>

lemma lower_bucket: "canonical h = h \<Longrightarrow> valid_hash h \<Longrightarrow> is_bucket (take 2 h)"
proof -
  assume c: "canonical h = h" and v: "valid_hash h"
  obtain x y zs where h: "h = x # y # zs" using v by (auto simp: valid_hash_def CAS_HASH_HEX_def numeral_eq_Suc length_Suc_conv)
  have "x \<in> set (to_hex (bin_of h))" using to_hex_bin_of [OF v] c h by (metis list.set_intros(1))
  from to_hex_chars [OF this] show "is_bucket (take 2 h)" using h by (auto simp: is_bucket_def)
qed

lemma pack_depot:
  assumes "storable t d"
  obtains h s where "cas_hash_object t d = Some h" "s_sys s = []" "s_basedir s = ''depot''" "s_pack s = None" "valid_hash h" "canonical h = h"
    "get_object (codec_table []) s h = Some (t, d)" "lists_depot s [(take 2 h, Some [h])]"
    "visited (s_basedir s) [(take 2 h, Some [h])] = [h]" "s_files s (pack_path s) = None"
proof -
  obtain h s where run: "cas_put_object demo_store t d = (Some (Inr h), s)" "s_sys s = []" "cas_hash_object t d = Some h"
    using put_progress [OF demo_store_facts(1,2) assms demo_store_facts(3)] by blast
  have at: "store_at demo_store t d h = (True, s)" using put_object_store_at [OF run(1)] by simp
  have g: "get_object (codec_table []) s h = Some (t, d)"
    using plain.stored_object [OF demo_store_facts(5) assms run(3) at] by (simp add: demo_store_facts(4))
  have v: "valid_hash h" "canonical h = h" using hash_object_valid [OF run(3)] hash_object_canonical [OF run(3)] .
  obtain rc where sa: "stored_as demo_store s h (loose_bytes False d t (length d)) rc" "rc = CAS_OK"
    using at by (rule store_at_spec) simp
  then obtain p where p: "build_path demo_store h CAS_PATH_MAX = Some p"
    "s_files s = (s_files demo_store)(p \<mapsto> loose_bytes False d t (length d))"
    "s_basedir s = s_basedir demo_store" "s_pack s = s_pack demo_store"
    by (auto simp: stored_as_def already_stored_def demo_store_def)
  have bp: "build_path s k CAS_PATH_MAX = build_path demo_store k CAS_PATH_MAX" for k using p(3) by (simp add: build_path_def)
  have vis: "visited (s_basedir s) [(take 2 h, Some [h])] = [h]"
    using lower_bucket [OF v(2,1)] v by (simp add: p(3) demo_store_def in_bucket_def CAS_PATH_MAX_def)
  have loose: "loose_file s k \<longleftrightarrow> k = h" if "valid_hash k" for k
  proof -
    have "length k = length h" using that v by (simp add: valid_hash_def)
    from build_path_inj [OF _ p(1) this] p(1,2) show ?thesis by (auto simp: loose_file_def bp demo_store_def)
  qed
  have "pack_path demo_store \<noteq> p" using pack_path_not_object [OF p(1)] v by (auto simp: valid_hash_def CAS_HASH_HEX_def)
  then have "s_files s (pack_path s) = None" using p(2,3) by (simp add: pack_path_def demo_store_def)
  moreover have "lists_depot s [(take 2 h, Some [h])]" unfolding lists_depot_def vis using loose v by auto
  ultimately show thesis using that [OF run(3,2)] p(3,4) v g vis by (simp add: demo_store_def)
qed

lemma pack_depot_facts:
  assumes "s_sys s = []" "s_basedir s = ''depot''" "s_pack s = None" "valid_hash h" "canonical h = h"
    and "get_object table s h = Some (t, d)" "cas_hash_object t d = Some h"
    and "visited (s_basedir s) [(take 2 h, Some [h])] = [h]" "lists_depot s [(take 2 h, Some [h])]" "s_files s (pack_path s) = None"
  shows "length (s_basedir s) \<le> 400" "length (pack_path s) + 7 < CAS_PATH_MAX" "open_pack s (pack_path s) = (Some (s_pack s), s)" "pack_ok s"
    "depot_names s [(take 2 h, Some [h])] (s_pack s) = {h}" "depot_sound table s [(take 2 h, Some [h])]"
    "depot_object table s (s_pack s) h = Some (t, d)" "packs_safely table CAS_COMPRESS_NEVER CAS_CODEC_NONE x"
proof -
  show "length (s_basedir s) \<le> 400" "pack_ok s" "length (pack_path s) + 7 < CAS_PATH_MAX"
    using assms(2,3) by (simp_all add: pack_ok_def pack_path_def CAS_PATH_MAX_def)
  show "open_pack s (pack_path s) = (Some (s_pack s), s)" using assms(1,3,10) by (simp add: open_pack_def)
  show n: "depot_names s [(take 2 h, Some [h])] (s_pack s) = {h}" unfolding depot_names_def assms(8) by (simp add: assms(3) pack_bins_def)
  have "loose_file s h" using assms(8,9) by (auto simp: lists_depot_def)
  then show o: "depot_object table s (s_pack s) h = Some (t, d)"
    using assms(3,6) get_object_copies [OF assms(4), of table s] by (simp add: depot_object_def)
  show "depot_sound table s [(take 2 h, Some [h])]" using n o assms(6,7) by (simp add: depot_sound_def)
  show "packs_safely table CAS_COMPRESS_NEVER CAS_CODEC_NONE x" by (simp add: packs_safely_def)
qed

text \<open>Without codecs a region is at most a tag longer than the data.\<close>

lemma plain_region:
  assumes "raw_object (codec_table []) (region, tr) = Some (t, d)" "d \<noteq> []"
  shows "length region \<le> length d + 1"
proof -
  obtain n :: u64 where dec: "cas_codec_region_decode (codec_table []) True region (take CAS_PACK_MAGIC_LEN tr \<noteq> CAS_PACK_TRAILER_MAGIC) (unat n) = Inr d"
    using raw_object_region [OF assms(1)] by metis
  have nocodec: "c \<noteq> CAS_CODEC_NONE \<Longrightarrow> cas_codec_decode (codec_table []) c inp k = Inl CAS_ETYPE" for c inp k
    by (simp add: cas_codec_decode_def codec_find_def codec_table_def)
  show ?thesis
  proof (cases "take CAS_PACK_MAGIC_LEN tr = CAS_PACK_TRAILER_MAGIC")
    case True
    with dec show ?thesis by (simp add: cas_codec_region_decode_def split: if_splits)
  next
    case False
    show ?thesis
    proof (cases region)
      case (Cons c payload)
      with dec False assms(2) nocodec [of "uint c" payload] show ?thesis
        by (cases "uint c = CAS_CODEC_NONE") (simp_all add: cas_codec_region_decode_def Let_def split: if_splits)
    qed simp
  qed
qed

lemma demo_pack_create:
  assumes "s_sys s = []" "s_basedir s = ''depot''" "s_pack s = None" "valid_hash h" "canonical h = h"
    and "get_object (codec_table []) s h = Some (t, d)" "cas_hash_object t d = Some h" "d \<noteq> []" "length d < 1000"
    and "visited (s_basedir s) [(take 2 h, Some [h])] = [h]" "lists_depot s [(take 2 h, Some [h])]" "s_files s (pack_path s) = None"
    and "\<And>k. keep = Some k \<Longrightarrow> k h"
  obtains img where "length img < 2 ^ 64"
    "pack_create (codec_table []) (Listing [(take 2 h, Some [h])]) s (pack_path s) CAS_COMPRESS_NEVER CAS_CODEC_NONE keep =
      (Some CAS_OK, s\<lparr>s_files := (s_files s)(pack_path s \<mapsto> img)\<rparr>)"
proof -
  note f = pack_depot_facts [OF assms(1-7,10-12)]
  obtain hl where hl: "foreach_loop collect_hash [(take 2 h, Some [h])] (s, hash_list_init) = (s, hl)" "hl_hashes hl = [bin_of h]"
    using foreach_collect [OF assms(1), of "[(take 2 h, Some [h])]" hash_list_init] unfolding assms(10) by (auto simp: hash_list_init_def)
  have src: "sources (codec_table []) s None (bin_of h) (t, d)"
    using depot_source [OF assms(1) f(1) assms(4,5), of _ None] f(7) assms(3) by simp
  have one: "\<forall>b \<in> set [bin_of h]. length b = CAS_HASH_LEN" using bin_of_valid(1) [OF assms(4)] by simp
  define obj where "obj = (\<lambda>b :: byte list. (t, d))"
  have each: "\<forall>b \<in> set [bin_of h]. sources (codec_table []) s None b (obj b) \<and>
      packs_safely (codec_table []) CAS_COMPRESS_NEVER CAS_CODEC_NONE (snd (obj b))" using src f(8) by (simp add: obj_def)
  from write_pack_quiet [OF codec_none_ok assms(1) one f(2) each] obtain objs where all: "map fst objs = [bin_of h] \<and> list_all packed_ok objs \<and>
    write_pack (codec_table []) CAS_COMPRESS_NEVER CAS_CODEC_NONE None s (pack_path s) [bin_of h] =
      (Some CAS_OK, s\<lparr>s_files := (s_files s)(pack_path s \<mapsto> pack_image objs)\<rparr>) \<and>
    (\<forall>(b, out) \<in> set objs. raw_object (codec_table []) out = Some (obj b))"
    by (rule exE)
  note o = all [THEN conjunct1] all [THEN conjunct2, THEN conjunct1] all [THEN conjunct2, THEN conjunct2, THEN conjunct1]
    all [THEN conjunct2, THEN conjunct2, THEN conjunct2]
  obtain region tr where ob: "objs = [(bin_of h, region, tr)]" using o(1) by (cases objs) auto
  have "length region \<le> length d + 1" using plain_region [OF _ assms(8)] o(4) ob by (auto simp: obj_def)
  then have small: "length (pack_image objs) < 2 ^ 64"
    using length_pack_image [OF o(2)] o(2) assms(9) by (simp add: ob pack_data_def CAS_PACK_BLOCK_def)
  have run: "pack_create (codec_table []) (Listing [(take 2 h, Some [h])]) s (pack_path s) CAS_COMPRESS_NEVER CAS_CODEC_NONE keep =
      (Some CAS_OK, s\<lparr>s_files := (s_files s)(pack_path s \<mapsto> pack_image objs)\<rparr>)"
    using f(3) hl o(3) assms(3,13) to_hex_bin_of [OF assms(4)] assms(5)
    by (cases keep) (simp_all add: pack_create_def cas_foreach_def unique_hashes_def sort_hashes_def cas_hex_encode_def)
  show thesis using that [OF small run] .
qed

lemma demo_storable_one: "storable ''blob'' [1, 2, 3]" by (rule demo_storable) simp

theorem pack_create_exact_witness:
  "\<exists>h s img p. pack_create (codec_table []) (Listing [(take 2 h, Some [h])]) s (pack_path s) CAS_COMPRESS_NEVER CAS_CODEC_NONE None =
      (Some CAS_OK, s\<lparr>s_files := (s_files s)(pack_path s \<mapsto> img)\<rparr>) \<and>
    cas_pack_open True (Some img) = Some (Some p) \<and> pack_object (codec_table []) p h = Some (''blob'', [1, 2, 3])"
proof (rule pack_depot [OF demo_storable_one])
  fix h s
  assume a: "cas_hash_object ''blob'' [1, 2, 3] = Some h" "s_sys s = []" "s_basedir s = ''depot''" "s_pack s = None" "valid_hash h" "canonical h = h"
    "get_object (codec_table []) s h = Some (''blob'', [1, 2, 3])" "lists_depot s [(take 2 h, Some [h])]"
    "visited (s_basedir s) [(take 2 h, Some [h])] = [h]" "s_files s (pack_path s) = None"
  note f = pack_depot_facts [OF a(2-7,1,9,8,10)]
  obtain img where img: "length img < 2 ^ 64"
    "pack_create (codec_table []) (Listing [(take 2 h, Some [h])]) s (pack_path s) CAS_COMPRESS_NEVER CAS_CODEC_NONE None =
      (Some CAS_OK, s\<lparr>s_files := (s_files s)(pack_path s \<mapsto> img)\<rparr>)"
    using demo_pack_create [OF a(2-7,1) _ _ a(9,8,10)] by auto
  have kept: "{h} = {k \<in> depot_names s [(take 2 h, Some [h])] (s_pack s). case None of None \<Rightarrow> True | Some f \<Rightarrow> f k}" using f(5) by simp
  have each: "\<exists>x. depot_object (codec_table []) s (s_pack s) k = Some x \<and> packs_safely (codec_table []) CAS_COMPRESS_NEVER CAS_CODEC_NONE (snd x)"
    if "k \<in> {h}" for k using that f(7,8) by auto
  have nofit: "\<And>p. s_pack s = Some p \<Longrightarrow> index_fits p" using a(4) by simp
  from pack_create_exact [OF codec_none_ok a(2) f(1,2,3) nofit a(8) kept insert_not_empty each] img(2)
  obtain img' where eq: "s\<lparr>s_files := (s_files s)(pack_path s \<mapsto> img)\<rparr> = s\<lparr>s_files := (s_files s)(pack_path s \<mapsto> img')\<rparr>" and
    p: "length img' < 2 ^ 64 \<longrightarrow> (\<exists>p. cas_pack_open True (Some img') = Some (Some p) \<and> index_fits p \<and> offsets_fit p \<and> index_sorted p \<and>
      (\<forall>k. valid_hash k \<longrightarrow> cas_pack_exists p k = Some (canonical k \<in> {h}) \<and>
        pack_object (codec_table []) p k = (if canonical k \<in> {h} then depot_object (codec_table []) s (s_pack s) (canonical k) else None)))"
    by (metis (no_types, lifting) prod.inject)
  have "img' = img" using arg_cong [OF eq, of "\<lambda>s. s_files s (pack_path s)"] by (simp add: pack_path_def)
  then obtain p where "cas_pack_open True (Some img) = Some (Some p)" "pack_object (codec_table []) p h = Some (''blob'', [1, 2, 3])"
    using p img(1) a(5,6) f(7) by auto
  with img(2) show ?thesis by blast
qed

text \<open>Packing the small depot and reclaiming its loose object.\<close>

lemma demo_repack:
  obtains h s img r s2 where "cas_hash_object ''blob'' [1, 2, 3] = Some h" "s_sys s = []" "s_basedir s = ''depot''" "s_pack s = None"
    "valid_hash h" "canonical h = h" "get_object (codec_table []) s h = Some (''blob'', [1, 2, 3])" "lists_depot s [(take 2 h, Some [h])]"
    "visited (s_basedir s) [(take 2 h, Some [h])] = [h]" "s_files s (pack_path s) = None" "length img < 2 ^ 64"
    "cas_pack_create_z (codec_table []) (Listing [(take 2 h, Some [h])]) s (pack_path s) CAS_COMPRESS_NEVER CAS_CODEC_NONE =
      (Some CAS_OK, s\<lparr>s_files := (s_files s)(pack_path s \<mapsto> img)\<rparr>)"
    "cas_pack_reclaim (codec_table []) (Listing [(take 2 h, Some [h])]) (s\<lparr>s_files := (s_files s)(pack_path s \<mapsto> img)\<rparr>) (pack_path s) = (r, s2)"
proof (rule pack_depot [OF demo_storable_one])
  fix h s
  assume a: "cas_hash_object ''blob'' [1, 2, 3] = Some h" "s_sys s = []" "s_basedir s = ''depot''" "s_pack s = None" "valid_hash h" "canonical h = h"
    "get_object (codec_table []) s h = Some (''blob'', [1, 2, 3])" "lists_depot s [(take 2 h, Some [h])]"
    "visited (s_basedir s) [(take 2 h, Some [h])] = [h]" "s_files s (pack_path s) = None"
  obtain img where img: "length img < 2 ^ 64"
    "pack_create (codec_table []) (Listing [(take 2 h, Some [h])]) s (pack_path s) CAS_COMPRESS_NEVER CAS_CODEC_NONE None =
      (Some CAS_OK, s\<lparr>s_files := (s_files s)(pack_path s \<mapsto> img)\<rparr>)"
    using demo_pack_create [OF a(2-7,1) _ _ a(9,8,10)] by auto
  obtain r s2 where
    "cas_pack_reclaim (codec_table []) (Listing [(take 2 h, Some [h])]) (s\<lparr>s_files := (s_files s)(pack_path s \<mapsto> img)\<rparr>) (pack_path s) = (r, s2)"
    by fastforce
  from that [OF a img(1) img(2) [folded cas_pack_create_z_def] this] show thesis .
qed

theorem repack_keeps_witness:
  "\<exists>h s s1 s2 n. cas_pack_create_z (codec_table []) (Listing [(take 2 h, Some [h])]) s (pack_path s) CAS_COMPRESS_NEVER CAS_CODEC_NONE = (Some CAS_OK, s1) \<and>
    cas_pack_reclaim (codec_table []) (Listing [(take 2 h, Some [h])]) s1 (pack_path s1) = (Some (CAS_OK, n), s2) \<and>
    loose_file s h \<and> \<not> loose_file s2 h \<and> get_object (codec_table []) s2 h = Some (''blob'', [1, 2, 3])"
proof (rule demo_repack)
  fix h :: string and s :: cas and img r s2
  let ?ds = "[(take 2 h, Some [h])]" and ?s1 = "s\<lparr>s_files := (s_files s)(pack_path s \<mapsto> img)\<rparr>"
  assume a: "cas_hash_object ''blob'' [1, 2, 3] = Some h" "s_sys s = []" "s_basedir s = ''depot''" "s_pack s = None" "valid_hash h" "canonical h = h"
    "get_object (codec_table []) s h = Some (''blob'', [1, 2, 3])" "lists_depot s ?ds"
    "visited (s_basedir s) ?ds = [h]" "s_files s (pack_path s) = None" and img: "length img < 2 ^ 64"
    and run: "cas_pack_create_z (codec_table []) (Listing ?ds) s (pack_path s) CAS_COMPRESS_NEVER CAS_CODEC_NONE = (Some CAS_OK, ?s1)"
    and rec: "cas_pack_reclaim (codec_table []) (Listing ?ds) ?s1 (pack_path s) = (r, s2)"
  note f = pack_depot_facts [OF a(2-7,1,9,8,10)]
  have pp: "pack_path ?s1 = pack_path s" by (simp add: pack_path_def)
  have sz: "length i < 2 ^ 64" if "s_files ?s1 (pack_path s) = Some i" for i using that img by simp
  from repack_keeps [OF codec_none_ok a(2) f(1,3,4) a(8) f(6) f(8) run sz, of r s2] rec a(5,6,7)
  have "\<exists>n. r = Some (CAS_OK, n)" "\<not> loose_file s2 h" "get_object (codec_table []) s2 h = Some (''blob'', [1, 2, 3])" unfolding pp by auto
  moreover have "loose_file s h" using a(8) unfolding lists_depot_def a(9) by (metis list.set_intros(1))
  ultimately show ?thesis using run rec pp by metis
qed

theorem reclaim_safe_witness:
  "\<exists>s path ds r s' q h p. cas_pack_reclaim (codec_table []) (Listing ds) s path = (r, s') \<and> s_files s q \<noteq> None \<and> s_files s' q = None \<and>
    build_path s h CAS_PATH_MAX = Some q \<and> delivers (codec_table []) p h"
proof (rule demo_repack)
  fix h :: string and s :: cas and img r s2
  let ?ds = "[(take 2 h, Some [h])]" and ?s1 = "s\<lparr>s_files := (s_files s)(pack_path s \<mapsto> img)\<rparr>"
  assume a: "cas_hash_object ''blob'' [1, 2, 3] = Some h" "s_sys s = []" "s_basedir s = ''depot''" "s_pack s = None" "valid_hash h" "canonical h = h"
    "get_object (codec_table []) s h = Some (''blob'', [1, 2, 3])" "lists_depot s ?ds"
    "visited (s_basedir s) ?ds = [h]" "s_files s (pack_path s) = None" and img: "length img < 2 ^ 64"
    and run: "cas_pack_create_z (codec_table []) (Listing ?ds) s (pack_path s) CAS_COMPRESS_NEVER CAS_CODEC_NONE = (Some CAS_OK, ?s1)"
    and rec: "cas_pack_reclaim (codec_table []) (Listing ?ds) ?s1 (pack_path s) = (r, s2)"
  note f = pack_depot_facts [OF a(2-7,1,9,8,10)]
  note safe = reclaim_safe [OF rec]
  have "loose_file s h" using a(8) unfolding lists_depot_def a(9) by (metis list.set_intros(1))
  then obtain q where q: "build_path s h CAS_PATH_MAX = Some q" "s_files s q \<noteq> None" by (auto simp: loose_file_def)
  have "q \<noteq> pack_path s" using pack_path_not_object [OF q(1)] a(5) by (simp add: valid_hash_def CAS_HASH_HEX_def)
  then have q1: "s_files ?s1 q \<noteq> None" "build_path ?s1 k CAS_PATH_MAX = build_path s k CAS_PATH_MAX" for k using q(2) by (simp_all add: build_path_def)
  show ?thesis
  proof (cases "s_files s2 q = s_files ?s1 q")
    case False
    with safe obtain h' p where "s_files s2 q = None" "build_path ?s1 h' CAS_PATH_MAX = Some q" "delivers (codec_table []) p h'" by metis
    with rec q1(1) show ?thesis by blast
  next
    case True
    have kept: "{h} = {k \<in> depot_names s ?ds (s_pack s). case None of None \<Rightarrow> True | Some f \<Rightarrow> f k}" using f(5) by simp
    have nofit: "\<And>p. s_pack s = Some p \<Longrightarrow> index_fits p" using a(4) by simp
    have each: "\<exists>x. depot_object (codec_table []) s (s_pack s) k = Some x \<and> packs_safely (codec_table []) CAS_COMPRESS_NEVER CAS_CODEC_NONE (snd x)"
      if "k \<in> {h}" for k using that f(7,8) by auto
    obtain p where p: "cas_pack_open True (Some img) = Some (Some p)" "pack_object (codec_table []) p h = Some (''blob'', [1, 2, 3])"
    proof -
      from pack_create_run [OF codec_none_ok a(2) f(1,2,3) nofit a(8) kept each] run [unfolded cas_pack_create_z_def]
      obtain img' where eq: "?s1 = s\<lparr>s_files := (s_files s)(pack_path s \<mapsto> img')\<rparr>" and
        p: "length img' < 2 ^ 64 \<longrightarrow> (\<exists>p. cas_pack_open True (Some img') = Some (Some p) \<and> index_fits p \<and> offsets_fit p \<and> index_sorted p \<and>
          (\<forall>k. valid_hash k \<longrightarrow> cas_pack_exists p k = Some (canonical k \<in> {h}) \<and>
            pack_object (codec_table []) p k = (if canonical k \<in> {h} then depot_object (codec_table []) s (s_pack s) (canonical k) else None)))"
        by (metis (no_types, lifting) insert_not_empty prod.inject)
      have "img' = img" using arg_cong [OF eq, of "\<lambda>s. s_files s (pack_path s)"] by (simp add: pack_path_def)
      with p img that a(5,6) f(7) show thesis by auto
    qed
    have dl: "\<forall>k \<in> set (visited (s_basedir ?s1) ?ds). canonical k = k \<and> reclaimable (codec_table []) True p k = Some ((\<lambda>_. True) k)"
      using a(1,6,9) p(2) by (simp add: reclaimable_iff delivers_def)
    have pp: "pack_path ?s1 = pack_path s" by (simp add: pack_path_def)
    have "s_sys ?s1 = []" "length (s_basedir ?s1) \<le> 400" "s_files ?s1 (pack_path ?s1) = Some img"
      using a(2) f(1) by (simp_all add: pack_path_def)
    from reclaim_quiet [OF this p(1) dl] obtain n s' where s': "cas_pack_reclaim (codec_table []) (Listing ?ds) ?s1 (pack_path ?s1) = (Some (CAS_OK, n), s')"
      "\<forall>q. s_files s' q = (if \<exists>h \<in> set (visited (s_basedir ?s1) ?ds). build_path ?s1 h CAS_PATH_MAX = Some q then None else s_files ?s1 q)" by auto
    have "s2 = s'" using s'(1) rec unfolding pp by simp
    moreover have "h \<in> set (visited (s_basedir ?s1) ?ds)" using a(9) by (metis cas.select_convs(1) cas.surjective cas.update_convs(3) list.set_intros(1))
    ultimately have "s_files s2 q = None" using s'(2) q(1) q1(2) by metis
    with True q1(1) show ?thesis by simp
  qed
qed

end
