(* ===== verification/GcPack.thy ===== *)
theory GcPack
  imports PackProps RefProps
begin

unbundle bit_operations_syntax

text \<open>
  The collection that rebuilds the pack, \<open>cas_tree_gc_pack\<close> of \<open>cas-gc.c\<close>: marking, a pack of the reachable objects, the
  removal of their loose copies, and the sweep. It is exact, as the plain collection is, also for objects that lie in
  the pack.
\<close>

section \<open>The collection\<close>

definition keep_reachable :: "hash_set \<Rightarrow> string \<Rightarrow> bool" where
  "keep_reachable reachable hash = hash_set_contains reachable hash"

text \<open>The depot is listed three times; a listing is given for each.\<close>

definition cas_tree_gc_pack ::
    "nat \<Rightarrow> cas_codec list \<Rightarrow> (string \<Rightarrow> bool list) \<Rightarrow> (string \<Rightarrow> int) \<Rightarrow> int \<Rightarrow> int \<Rightarrow> compress_policy \<Rightarrow> int \<Rightarrow> string list option \<Rightarrow>
     top_dir \<Rightarrow> top_dir \<Rightarrow> top_dir \<Rightarrow> 'c gc_fn \<Rightarrow> cas_tree \<Rightarrow> 'c \<Rightarrow> (cas_rc + nat \<times> u64) option \<times> cas_tree \<times> 'c" where
  "cas_tree_gc_pack fuel table mem mtime now grace policy codec dirents tdir1 tdir2 tdir3 fn ct c =
     (case cas_tree_ref_foreach dirents (mark_ref fuel table mem) (ct, hash_set_init, Some CAS_OK) of
        (frc, ct1, reachable, mrc) \<Rightarrow>
          (case mrc of
             None \<Rightarrow> (None, ct1, c)
           | Some rc \<Rightarrow>
               if rc \<noteq> CAS_OK then (Some (Inl rc), ct1, c)
               else
                 let store = ct_store ct1; path = pack_path store in
                 if length path \<ge> CAS_PATH_MAX then (Some (Inl CAS_ERR), ct1, c)
                 else (case cas_pack_create_filtered table tdir1 store path policy codec (Some (keep_reachable reachable)) of
                    (None, s1) \<Rightarrow> (None, ct1\<lparr>ct_store := s1\<rparr>, c)
                  | (Some rc1, s1) \<Rightarrow>
                      if rc1 \<noteq> CAS_OK then (Some (Inl rc1), ct1\<lparr>ct_store := s1\<rparr>, c)
                      else (case cas_pack_reclaim table tdir2 s1 path of
                         (None, s2) \<Rightarrow> (None, ct1\<lparr>ct_store := s2\<rparr>, c)
                       | (Some (rc2, rc_count), s2) \<Rightarrow>
                           let cutoff = (if grace > 0 then now - grace else 0) in
                           (case cas_foreach tdir3 (sweep_visitor mtime reachable cutoff fn) (s2, 0, c) of
                              (_, s3, removed, c') \<Rightarrow> (Some (Inr (removed, rc_count)), ct1\<lparr>ct_store := s3\<rparr>, c'))))))"

section \<open>The steps\<close>

text \<open>What a reclaim makes of a pack that holds a part of a sound depot.\<close>

lemma reclaim_part:
  assumes "codec_ok table" "index_fits p" "offsets_fit p" "valid_hash h" "cas_pack_exists p h = Some b"
    and "b \<Longrightarrow> delivers table p h"
  shows "reclaimable table True p h = Some b"
proof (cases b)
  case True
  then show ?thesis using reclaimable_iff [OF assms(6)] by simp
next
  case False
  then have "cas_pack_lookup table True p h (Some (CAS_TYPE_MAX + 1)) = Some (Inl CAS_ENOTFOUND)"
    using assms(4,5) pack_lookup_missing [OF assms(1)] bin_of_valid(2) [OF assms(4)] by simp
  then show ?thesis using False by (simp add: reclaimable_def)
qed

text \<open>A sweep without a grace period over a listing of what is loose leaves nothing loose but the marked objects.\<close>

lemma sweep_loose:
  assumes "s_sys s = []" "\<And>h. valid_hash h \<Longrightarrow> loose_file s h \<Longrightarrow> h \<notin> set (hs_hashes R) \<Longrightarrow> h \<in> set (visited (s_basedir s) ds)"
    and "foreach_loop (sweep_visitor mtime R cutoff None) ds (s, 0, c) = (s', n, c')" "cutoff \<le> 0" "valid_hash h" "h \<notin> set (hs_hashes R)"
  shows "\<not> loose_file s' h"
proof
  have fo: "foldl (\<lambda>x h. snd (sweep_visitor mtime R cutoff None x h)) (s, 0, c) (visited (s_basedir s) ds) = (s', n, c')"
    using assms(3) foreach_loop_fold [of "sweep_visitor mtime R cutoff None" ds "(s, 0, c)", OF sweep_goes_on] by simp
  note sw = sweep_all [OF assms(1,4) fo]
  have "touches (dead_paths s (set (hs_hashes R))) s (fst (foreach_loop (sweep_visitor mtime R cutoff None) ds (s, 0, c)))"
    by (rule foreach_loop_invariant [of "\<lambda>x. touches (dead_paths s (set (hs_hashes R))) s (fst x)"]) (simp_all add: sweep_touches touches_refl)
  then have "s_basedir s' = s_basedir s" by (simp add: assms(3) touches_def)
  then have bp: "build_path s' h CAS_PATH_MAX = build_path s h CAS_PATH_MAX" for h by (rule build_path_frame)
  assume "loose_file s' h"
  then obtain q where q: "build_path s h CAS_PATH_MAX = Some q" "s_files s' q \<noteq> None" by (auto simp: loose_file_def bp)
  then have "s_files s q \<noteq> None" using sw [THEN conjunct1] by metis
  then have "h \<in> set (visited (s_basedir s) ds)" using assms(2,5,6) q(1) by (simp add: loose_file_def)
  then show False using sw [THEN conjunct2] assms(5,6) q by metis
qed

text \<open>The pack of the objects to keep, and the depot without their loose copies.\<close>

definition kept_names :: "cas \<Rightarrow> (string \<times> string list option) list \<Rightarrow> (string \<Rightarrow> bool) \<Rightarrow> string set" where
  "kept_names s ds keep = {h \<in> depot_names s ds (s_pack s). keep h}"

lemma pack_kept:
  assumes "codec_ok table" "s_sys s = []" "length (s_basedir s) \<le> 400"
    and "open_pack s (pack_path s) = (Some (s_pack s), s)" "pack_ok s" "lists_depot s ds" "depot_sound table s ds" "kept_names s ds keep \<noteq> {}"
    and "\<And>h t d. h \<in> kept_names s ds keep \<Longrightarrow> get_object table s h = Some (t, d) \<Longrightarrow> packs_safely table policy codec d"
    and "cas_pack_create_filtered table (Listing ds) s (pack_path s) policy codec (Some keep) = (rc, s1)"
    and "\<And>img. s_files s1 (pack_path s) = Some img \<Longrightarrow> length img < 2 ^ 64"
  shows "rc = Some CAS_OK" "\<exists>n s2 p. cas_pack_reclaim table (Listing ds) s1 (pack_path s) = (Some (CAS_OK, n), s2) \<and> s_pack s2 = Some p \<and>
      s_sys s2 = [] \<and> s_basedir s2 = s_basedir s \<and>
      (\<forall>h. valid_hash h \<longrightarrow> cas_pack_exists p h = Some (canonical h \<in> kept_names s ds keep) \<and>
        pack_object table p h = (if canonical h \<in> kept_names s ds keep then get_object table s (canonical h) else None) \<and>
        (loose_file s2 h \<longrightarrow> h \<in> set (visited (s_basedir s) ds) \<and> h \<notin> kept_names s ds keep))"
proof -
  let ?K = "kept_names s ds keep" and ?hs = "visited (s_basedir s) ds"
  have fits: "index_fits p" if "s_pack s = Some p" for p using assms(5) that by (simp add: pack_ok_def)
  have len: "length (pack_path s) + 7 < CAS_PATH_MAX" using assms(3) by (simp add: pack_path_def CAS_PATH_MAX_def)
  have K: "?K = {h \<in> depot_names s ds (s_pack s). case Some keep of None \<Rightarrow> True | Some k \<Rightarrow> k h}" by (simp add: kept_names_def)
  have each: "\<exists>t d. get_object table s h = Some (t, d) \<and> depot_object table s (s_pack s) h = Some (t, d) \<and>
      (t = ''htree'' \<or> cas_hash_object t d = Some h)" if "h \<in> ?K" for h
    using assms(7) that by (simp add: depot_sound_def kept_names_def)
  have safe: "\<exists>x. depot_object table s (s_pack s) h = Some x \<and> packs_safely table policy codec (snd x)" if "h \<in> ?K" for h
    using each [OF that] assms(9) [OF that] by fastforce
  from pack_create_run [OF assms(1-3) len assms(4) fits assms(6) K safe] assms(8,10)
  obtain img where s1: "rc = Some CAS_OK" "s1 = s\<lparr>s_files := (s_files s)(pack_path s \<mapsto> img)\<rparr>"
    and img: "length img < 2 ^ 64 \<longrightarrow> (\<exists>p. cas_pack_open True (Some img) = Some (Some p) \<and> index_fits p \<and> offsets_fit p \<and> index_sorted p \<and>
      (\<forall>h. valid_hash h \<longrightarrow> cas_pack_exists p h = Some (canonical h \<in> ?K) \<and>
        pack_object table p h = (if canonical h \<in> ?K then depot_object table s (s_pack s) (canonical h) else None)))"
    unfolding cas_pack_create_filtered_def by (auto simp del: fun_upd_apply)
  show "rc = Some CAS_OK" by (rule s1(1))
  obtain p where p: "cas_pack_open True (Some img) = Some (Some p)" "index_fits p" "offsets_fit p"
    "\<And>h. valid_hash h \<Longrightarrow> cas_pack_exists p h = Some (canonical h \<in> ?K)"
    "\<And>h. valid_hash h \<Longrightarrow> pack_object table p h = (if canonical h \<in> ?K then depot_object table s (s_pack s) (canonical h) else None)"
    using img assms(11) s1(2) by auto
  have po: "pack_object table p h = (if canonical h \<in> ?K then get_object table s (canonical h) else None)" if "valid_hash h" for h
    using p(5) [OF that] each [of "canonical h"] by auto
  have eq: "s_sys s1 = []" "s_basedir s1 = s_basedir s" "pack_path s1 = pack_path s" "s_files s1 (pack_path s) = Some img"
    using assms(2) by (simp_all add: s1(2) pack_path_def)
  have names: "h \<in> set ?hs \<longleftrightarrow> valid_hash h \<and> loose_file s h" "h \<in> set ?hs \<Longrightarrow> canonical h = h" for h
    using assms(6) by (auto simp: lists_depot_def)
  have rcl: "canonical h = h \<and> reclaimable table True p h = Some (h \<in> ?K)" if h: "h \<in> set ?hs" for h
  proof -
    have v: "valid_hash h" "canonical h = h" using names h by auto
    have "delivers table p h" if "h \<in> ?K" using po [OF v(1)] each [OF that] v(2) that by (auto simp: delivers_def)
    with reclaim_part [OF assms(1) p(2,3) v(1) p(4) [OF v(1)]] v(2) show ?thesis by simp
  qed
  obtain n s2 where rq: "cas_pack_reclaim table (Listing ds) s1 (pack_path s) = (Some (CAS_OK, n), s2)" "s_pack s2 = Some p"
    "s_basedir s2 = s_basedir s" "s_sys s2 = []"
    "\<forall>q. s_files s2 q = (if \<exists>h \<in> set ?hs. h \<in> ?K \<and> build_path s1 h CAS_PATH_MAX = Some q then None else s_files s1 q)"
    using reclaim_quiet [of s1 img p ds table "\<lambda>h. h \<in> ?K"] eq p(1) rcl assms(3) by auto
  have loose: "h \<in> set ?hs \<and> h \<notin> ?K" if v: "valid_hash h" and l: "loose_file s2 h" for h
  proof -
    have bp: "build_path s2 h CAS_PATH_MAX = build_path s h CAS_PATH_MAX" "build_path s1 h CAS_PATH_MAX = build_path s h CAS_PATH_MAX" for h
      using rq(3) eq(2) by (simp_all add: build_path_def)
    obtain q where q: "build_path s h CAS_PATH_MAX = Some q" "s_files s2 q \<noteq> None" using l by (auto simp: loose_file_def bp)
    have "q \<noteq> pack_path s" using pack_path_not_object [OF q(1)] v by (simp add: valid_hash_def CAS_HASH_HEX_def)
    then have "s_files s q \<noteq> None" using q(2) rq(5) by (simp add: s1(2) split: if_splits)
    then have "h \<in> set ?hs" using names(1) v q(1) by (auto simp: loose_file_def)
    moreover have "h \<notin> ?K" using rq(5) q calculation by (metis bp(2))
    ultimately show ?thesis by blast
  qed
  show "\<exists>n s2 p. cas_pack_reclaim table (Listing ds) s1 (pack_path s) = (Some (CAS_OK, n), s2) \<and> s_pack s2 = Some p \<and>
      s_sys s2 = [] \<and> s_basedir s2 = s_basedir s \<and>
      (\<forall>h. valid_hash h \<longrightarrow> cas_pack_exists p h = Some (canonical h \<in> ?K) \<and>
        pack_object table p h = (if canonical h \<in> ?K then get_object table s (canonical h) else None) \<and>
        (loose_file s2 h \<longrightarrow> h \<in> set ?hs \<and> h \<notin> ?K))"
    using rq(1-4) p(4) po loose by blast
qed

text \<open>
  The collection that rebuilds the pack is exact, for packed objects as for loose ones. In a sound depot (every name reads,
  from both copies alike, and hashes to itself) whose logs can be read, whose live directories load or are absent, where no
  name serves as a directory and as something else, where at least one object is reachable, nothing fails, and
  compression stays within the bounds of the reader, it succeeds. The new pack has an entry for a name exactly if the
  name was in the depot and some log entry reaches it, and every name that is reached reads as before. Without a grace
  period and a callback no other name reads afterwards, whether its object was loose or in the old pack. Names are those in
  lower case: the set of marked names is compared with the spelling of the index, so that an object named in upper
  case by a log would be dropped. The third listing has the loose files that the reclaim left.
\<close>

theorem gc_pack_exact:
  assumes "codec_ok table" "gc_ready fuel table mem ct roots"
    and "\<And>name. name \<in> set (ref_names ents) \<Longrightarrow> valid_ref_name name \<and> has_log (ct_store ct) name (hist name)"
    and "roots = (\<Union>name \<in> set (ref_names ents). fst ` set (hist name))"
  defines "alive \<equiv> live (dir_children table mem ct) roots" and "s \<equiv> ct_store ct"
  assumes "open_pack s (pack_path s) = (Some (s_pack s), s)" "pack_ok s" "lists_depot s ds" "depot_sound table s ds"
    and "\<exists>h \<in> depot_names s ds (s_pack s). alive h"
    and "\<And>h t d. alive h \<Longrightarrow> get_object table s h = Some (t, d) \<Longrightarrow> packs_safely table policy codec d"
    and "\<And>rc s1 img. cas_pack_create_filtered table (Listing ds) s (pack_path s) policy codec (Some alive) = (rc, s1) \<Longrightarrow>
        s_files s1 (pack_path s) = Some img \<Longrightarrow> length img < 2 ^ 64"
    and "set (visited (s_basedir s) ds3) = {h \<in> set (visited (s_basedir s) ds). \<not> alive h}"
  shows "\<exists>n m ct' c' p. cas_tree_gc_pack fuel table mem mtime now grace policy codec (Some ents) (Listing ds) (Listing ds) (Listing ds3) fn ct c =
      (Some (Inr (n, m)), ct', c') \<and> s_pack (ct_store ct') = Some p \<and>
    (\<forall>h. valid_hash h \<and> canonical h = h \<longrightarrow> cas_pack_exists p h = Some (h \<in> depot_names s ds (s_pack s) \<and> alive h) \<and>
      (alive h \<longrightarrow> get_object table (ct_store ct') h = get_object table s h) \<and>
      (\<not> alive h \<and> grace \<le> 0 \<and> fn = None \<longrightarrow> get_object table (ct_store ct') h = None))"
proof -
  obtain R frc where R: "cas_tree_ref_foreach (Some ents) (mark_ref fuel table mem) (ct, hash_set_init, Some CAS_OK) = (frc, ct, R, Some CAS_OK)"
    "\<And>h. h \<in> set (hs_hashes R) \<longleftrightarrow> alive h"
    using gc_marks [OF assms(2-4)] unfolding alive_def by metis
  have keep: "keep_reachable R = alive" using R(2) by (simp add: fun_eq_iff keep_reachable_def hash_set_contains_def list_ex_iff)
  have q: "s_sys s = []" "length (s_basedir s) \<le> 400" using assms(2) by (simp_all add: gc_ready_def quiet_def s_def)
  let ?K = "kept_names s ds alive" and ?cut = "if grace > 0 then now - grace else 0"
  obtain rc s1 where cr: "cas_pack_create_filtered table (Listing ds) s (pack_path s) policy codec (Some alive) = (rc, s1)" by fastforce
  have "?K \<noteq> {}" using assms(11) by (auto simp: kept_names_def)
  moreover have "packs_safely table policy codec d" if "h \<in> ?K" "get_object table s h = Some (t, d)" for h t d
    using assms(12) [of h t d] that by (simp add: kept_names_def)
  ultimately have rc: "rc = Some CAS_OK" and pk: "\<exists>n s2 p. cas_pack_reclaim table (Listing ds) s1 (pack_path s) = (Some (CAS_OK, n), s2) \<and>
      s_pack s2 = Some p \<and> s_sys s2 = [] \<and> s_basedir s2 = s_basedir s \<and>
      (\<forall>h. valid_hash h \<longrightarrow> cas_pack_exists p h = Some (canonical h \<in> ?K) \<and>
        pack_object table p h = (if canonical h \<in> ?K then get_object table s (canonical h) else None) \<and>
        (loose_file s2 h \<longrightarrow> h \<in> set (visited (s_basedir s) ds) \<and> h \<notin> ?K))"
    using pack_kept [OF assms(1) q assms(7-10) _ _ cr assms(13) [OF cr]] by blast+
  obtain m s2 p where rq: "cas_pack_reclaim table (Listing ds) s1 (pack_path s) = (Some (CAS_OK, m), s2)" "s_pack s2 = Some p"
    "s_sys s2 = []" "s_basedir s2 = s_basedir s"
    and h2: "\<And>h. valid_hash h \<Longrightarrow> cas_pack_exists p h = Some (canonical h \<in> ?K)"
    "\<And>h. valid_hash h \<Longrightarrow> pack_object table p h = (if canonical h \<in> ?K then get_object table s (canonical h) else None)"
    "\<And>h. valid_hash h \<Longrightarrow> loose_file s2 h \<Longrightarrow> h \<in> set (visited (s_basedir s) ds) \<and> h \<notin> ?K"
    using pk by blast
  obtain s3 n c' where sw: "foreach_loop (sweep_visitor mtime R ?cut fn) ds3 (s2, 0, c) = (s3, n, c')" by (metis prod_cases3)
  have "length (pack_path s) < CAS_PATH_MAX" using q(2) by (simp add: pack_path_def CAS_PATH_MAX_def)
  then have run: "cas_tree_gc_pack fuel table mem mtime now grace policy codec (Some ents) (Listing ds) (Listing ds) (Listing ds3) fn ct c =
      (Some (Inr (n, m)), ct\<lparr>ct_store := s3\<rparr>, c')"
    using R(1) cr rc rq(1) sw keep by (simp add: cas_tree_gc_pack_def s_def [symmetric] cas_foreach_def)
  have "touches (dead_paths s2 (set (hs_hashes R))) s2 (fst (foreach_loop (sweep_visitor mtime R ?cut fn) ds3 (s2, 0, c)))"
    by (rule foreach_loop_invariant [of "\<lambda>x. touches (dead_paths s2 (set (hs_hashes R))) s2 (fst x)"]) (simp_all add: sweep_touches touches_refl)
  then have t: "touches (dead_paths s2 (set (hs_hashes R))) s2 s3" by (simp add: sw)
  then have p3: "s_pack s3 = Some p" using rq(2) by (simp add: touches_def)
  have inN: "h \<in> set (visited (s_basedir s) ds) \<Longrightarrow> h \<in> depot_names s ds (s_pack s)" for h by (simp add: depot_names_def)
  have "get_object table s3 h = get_object table s h" if v: "valid_hash h" "canonical h = h" and a: "alive h" for h
  proof -
    have k: "get_object table s3 h = get_object table s2 h" using dead_paths_keep [OF t] a R(2) by simp
    show ?thesis
    proof (cases "get_object table s h")
      case (Some x)
      then have "h \<in> ?K" using unlisted_absent [OF assms(8,9) v, of table] a by (auto simp: kept_names_def)
      with h2(2) [OF v(1)] v(2) Some have "pack_object table p h = Some x" by simp
      with get_object_packed [OF v(1) rq(2)] Some k show ?thesis by simp
    next
      case None
      have "h \<notin> depot_names s ds (s_pack s)" using None assms(10) by (auto simp: depot_sound_def)
      then have "h \<notin> ?K" "\<not> loose_file s2 h" using h2(3) [OF v(1)] inN by (auto simp: kept_names_def)
      with get_object_absent [OF v(1), of s2 table] h2(2) [OF v(1)] v(2) rq(2) k None show ?thesis by simp
    qed
  qed
  moreover have "get_object table s3 h = None" if v: "valid_hash h" "canonical h = h" and a: "\<not> alive h" "grace \<le> 0" "fn = None" for h
  proof (rule get_object_absent [OF v(1)])
    show "pack_object table p' h = None" if "s_pack s3 = Some p'" for p'
      using that p3 h2(2) [OF v(1)] v(2) a(1) by (simp add: kept_names_def)
    have "g \<in> set (visited (s_basedir s2) ds3)" if "valid_hash g" "loose_file s2 g" "g \<notin> set (hs_hashes R)" for g
      using h2(3) [OF that(1,2)] that(3) R(2) assms(14) rq(4) by simp
    then show "\<not> loose_file s3 h"
      using sweep_loose [OF rq(3), where R = R and ds = ds3 and mtime = mtime and cutoff = ?cut and c = c and s' = s3 and n = n and c' = c' and h = h]
        sw a v(1) R(2) by simp
  qed
  moreover have "cas_pack_exists p h = Some (h \<in> depot_names s ds (s_pack s) \<and> alive h)" if "valid_hash h" "canonical h = h" for h
    using h2(1) [OF that(1)] that(2) by (simp add: kept_names_def)
  ultimately show ?thesis using run p3 by (intro exI conjI) (auto simp: not_le [symmetric])
qed

section \<open>An example\<close>

text \<open>Writing the file of a log changes neither what is loose in the depot nor the pack.\<close>

lemma with_log_depot:
  assumes "lists_depot s ds" "s_files s (pack_path s) = None" "s_basedir s = ''depot''"
  shows "lists_depot (ct_store (with_log es s)) ds" "s_files (ct_store (with_log es s)) (pack_path (ct_store (with_log es s))) = None"
proof -
  let ?s = "ct_store (with_log es s)" and ?p = "ref_file (s_basedir s) ''main'' ''.log''"
  have f: "s_basedir ?s = s_basedir s" "s_files ?s = (s_files s)(?p \<mapsto> bytes_of (log_text es))" by (simp_all add: with_log_def put_file_def)
  have bp: "build_path ?s h CAS_PATH_MAX = build_path s h CAS_PATH_MAX" for h by (rule build_path_frame) (rule f(1))
  have "?p \<in> ref_files (s_basedir s) ''main''" by (simp add: ref_files_def ref_exts_def)
  then have "loose_file ?s h \<longleftrightarrow> loose_file s h" if "valid_hash h" for h
    using object_path_not_ref [of s h CAS_PATH_MAX _ "''main''"] that by (auto simp: loose_file_def bp f(2) valid_hash_def)
  with assms(1) show "lists_depot ?s ds" by (auto simp: lists_depot_def f(1))
  show "s_files ?s (pack_path ?s) = None" using assms(2,3) by (simp add: pack_path_def f ref_file_def)
qed

theorem gc_pack_exact_witness:
  "\<exists>h ct n m ct'. get_object (codec_table []) (ct_store ct) h = Some (''tree'', dir_text []) \<and> loose_file (ct_store ct) h \<and>
    cas_tree_gc_pack 2 (codec_table []) (\<lambda>_. []) (\<lambda>_. 0) 0 0 CAS_COMPRESS_NEVER CAS_CODEC_NONE (Some [''main.root''])
      (Listing [(take 2 h, Some [h])]) (Listing [(take 2 h, Some [h])]) (Listing []) None ct () = (Some (Inr (n, m)), ct', ()) \<and>
    get_object (codec_table []) (ct_store ct') h = Some (''tree'', dir_text [])"
proof -
  have st: "storable ''tree'' (dir_text [])"
    by (simp add: storable_def type_ok_def CAS_TYPE_MAX_def CAS_PACK_BLOCK_def MAX_FILE_def dir_text_def)
  show ?thesis
  proof (rule pack_depot [OF st])
    fix h and s0 :: cas
    let ?ds = "[(take 2 h, Some [h])]" and ?ct = "with_log [demo_log_entry h] s0" and ?T = "codec_table []"
    let ?s = "ct_store ?ct" and ?mem = "\<lambda>_ :: string. [] :: bool list"
    assume a: "cas_hash_object ''tree'' (dir_text []) = Some h" "s_sys s0 = []" "s_basedir s0 = ''depot''" "s_pack s0 = None" "valid_hash h"
      "canonical h = h" "get_object ?T s0 h = Some (''tree'', dir_text [])" "lists_depot s0 ?ds" "visited (s_basedir s0) ?ds = [h]"
      "s_files s0 (pack_path s0) = None"
    have "list_all log_entry_ok [demo_log_entry h]" using demo_log_entry_ok a(5) by simp
    note f = with_log_facts [OF a(2) this]
    note d = with_log_depot [OF a(8,10,3), of "[demo_log_entry h]"]
    have b: "s_sys ?s = []" "s_basedir ?s = ''depot''" "s_pack ?s = None" "get_object ?T ?s h = Some (''tree'', dir_text [])"
      "visited (s_basedir ?s) ?ds = [h]"
      using f a(3,4,7,9) by (simp_all add: quiet_def)
    note pf = pack_depot_facts [OF b(1-3) a(5,6) b(4) a(1) b(5) d]
    note r = demo_ready [OF f(1) b(2,4)]
    let ?alive = "live (dir_children ?T ?mem ?ct) {h}"
    have roots: "{h} = (\<Union>name \<in> set (ref_names [''main.root'']). fst ` set ((\<lambda>_. [demo_log_entry h]) name))"
      unfolding demo_ref_names by (simp add: demo_log_entry_def)
    have logs: "valid_ref_name name \<and> has_log ?s name ((\<lambda>_. [demo_log_entry h]) name)" if "name \<in> set (ref_names [''main.root''])" for name
      using that f unfolding demo_ref_names by simp
    have reach: "\<exists>k \<in> depot_names ?s ?ds (s_pack ?s). ?alive k" using pf(5) r(2) by simp
    have small: "length img < 2 ^ 64"
      if "cas_pack_create_filtered ?T (Listing ?ds) ?s (pack_path ?s) CAS_COMPRESS_NEVER CAS_CODEC_NONE (Some ?alive) = (rc, s1)"
        "s_files s1 (pack_path ?s) = Some img" for rc s1 img
    proof -
      have ne: "dir_text [] \<noteq> []" "length (dir_text []) < 1000" by (simp_all add: dir_text_def)
      obtain img' where "length img' < 2 ^ 64"
        "pack_create ?T (Listing ?ds) ?s (pack_path ?s) CAS_COMPRESS_NEVER CAS_CODEC_NONE (Some ?alive) =
          (Some CAS_OK, ?s\<lparr>s_files := (s_files ?s)(pack_path ?s \<mapsto> img')\<rparr>)"
        using demo_pack_create [OF b(1-3) a(5,6) b(4) a(1) ne b(5) d, of "Some ?alive"] r(2) by auto
      with that show ?thesis by (auto simp: cas_pack_create_filtered_def)
    qed
    have last: "set (visited (s_basedir ?s) []) = {k \<in> set (visited (s_basedir ?s) ?ds). \<not> ?alive k}" using r(2) by (simp add: b(5))
    have "\<exists>n m ct' c' p. cas_tree_gc_pack 2 ?T ?mem (\<lambda>_. 0) 0 0 CAS_COMPRESS_NEVER CAS_CODEC_NONE (Some [''main.root''])
        (Listing ?ds) (Listing ?ds) (Listing []) None ?ct () = (Some (Inr (n, m)), ct', c') \<and> s_pack (ct_store ct') = Some p \<and>
      (\<forall>k. valid_hash k \<and> canonical k = k \<longrightarrow> cas_pack_exists p k = Some (k \<in> depot_names ?s ?ds (s_pack ?s) \<and> ?alive k) \<and>
        (?alive k \<longrightarrow> get_object ?T (ct_store ct') k = get_object ?T ?s k) \<and>
        (\<not> ?alive k \<and> (0 :: int) \<le> 0 \<and> (None :: unit gc_fn) = None \<longrightarrow> get_object ?T (ct_store ct') k = None))"
      by (rule gc_pack_exact [OF codec_none_ok r(1) logs roots pf(3,4) d(1) pf(6) reach pf(8) small last])
    then obtain n m ct' c' p where run: "cas_tree_gc_pack 2 ?T ?mem (\<lambda>_. 0) 0 0 CAS_COMPRESS_NEVER CAS_CODEC_NONE (Some [''main.root''])
        (Listing ?ds) (Listing ?ds) (Listing []) None ?ct () = (Some (Inr (n, m)), ct', c')"
      and all: "\<forall>k. valid_hash k \<and> canonical k = k \<longrightarrow> ?alive k \<longrightarrow> get_object ?T (ct_store ct') k = get_object ?T ?s k"
      by (elim exE conjE) (rule that, assumption, simp)
    have "get_object ?T (ct_store ct') h = get_object ?T ?s h" using all a(5,6) r(2) by simp
    moreover have "loose_file ?s h" using d(1) unfolding lists_depot_def b(5) by auto
    moreover have "c' = ()" by simp
    ultimately show ?thesis using run b(4) by metis
  qed
qed

end
