(* ===== verification/Snap.thy ===== *)
theory Snap
  imports Vfs Gc
begin

unbundle bit_operations_syntax

text \<open>
  Snapshots, \<open>vfs-snap.c\<close>: storing a filesystem as directories and objects of a depot, restoring it, the shorthands
  with references, finding an entry by its path, and the comparison of a filesystem with a snapshot. The walks over
  directories are given a bound on their depth; \<^const>\<open>None\<close> stands for an exhausted depth or a run without a defined
  result. What the allocations made for a directory deliver, and the clock, are functions of its path, because no path is
  visited twice.
\<close>

section \<open>Children of a directory\<close>

definition SNAP_PATH_MAX :: nat where "SNAP_PATH_MAX = 4096"

record snap_child =
  c_path :: string
  c_type :: vfs_type
  c_mode :: u32
  c_owner :: int
  c_mtime :: int
  c_size :: u64

record snap_ctx =
  sc_children :: "snap_child list"
  sc_cap :: nat
  sc_mem :: "bool list"

text \<open>\<open>snprintf\<close> into a buffer of \<^const>\<open>SNAP_PATH_MAX\<close> bytes.\<close>

definition snap_text :: "string \<Rightarrow> string" where
  "snap_text s = take (SNAP_PATH_MAX - 1) s"

definition collect_child :: "vfs_stat \<Rightarrow> snap_ctx \<Rightarrow> int \<times> snap_ctx" where
  "collect_child st sc =
     (let full = (length (sc_children sc) \<ge> sc_cap sc);
          newcap = (if sc_cap sc \<noteq> 0 then sc_cap sc * 2 else 16);
          (ok, mem) = (if \<not> full then (True, sc_mem sc) else case sc_mem sc of [] \<Rightarrow> (True, []) | b # bs \<Rightarrow> (b, bs))
      in if \<not> ok then (- 1, sc\<lparr>sc_mem := mem\<rparr>)
         else (0, \<lparr>sc_children = sc_children sc @ [\<lparr>c_path = snap_text (st_path st), c_type = st_type st, c_mode = st_mode st,
                      c_owner = st_owner st, c_mtime = st_mtime st, c_size = st_size st\<rparr>],
                   sc_cap = (if full then newcap else sc_cap sc), sc_mem = mem\<rparr>))"

definition new_ctx :: "bool list \<Rightarrow> snap_ctx" where
  "new_ctx mem = \<lparr>sc_children = [], sc_cap = 0, sc_mem = mem\<rparr>"

definition basename_of :: "string \<Rightarrow> string" where
  "basename_of path = rev (takeWhile (\<lambda>c. c \<noteq> slash) (rev path))"

definition snap_path :: "string \<Rightarrow> string \<Rightarrow> string" where
  "snap_path dirpath name = snap_text (if dirpath = root_path then slash # name else dirpath @ slash # name)"

section \<open>Storing\<close>

definition CAS_TREE_S_IFREG :: u32 where "CAS_TREE_S_IFREG = 0x8000"

text \<open>
  The outcomes of the allocations for a directory: of the children, of the entries, of the two encodings, and the
  contents of fresh memory.
\<close>

record snap_env =
  sv_children :: "bool list"
  sv_entries :: "bool list"
  sv_text :: bool
  sv_bin :: bool
  sv_junk :: "byte list"

type_synonym snap_result = "(cas_rc + string) option \<times> cas_tree"

definition snap_entry :: "snap_child \<Rightarrow> string \<Rightarrow> cas_tree_entry" where
  "snap_entry c hash =
     \<lparr>e_mode = (if c_type c = VFS_FILE then CAS_TREE_S_IFREG else CAS_TREE_S_IFDIR) OR (c_mode c AND MODE_MASK),
      e_uid = word_of_int (c_owner c), e_gid = 0, e_mtime_s = word_of_int (c_mtime c), e_mtime_ns = 0,
      e_hash = hash, e_name = basename_of (c_path c)\<rparr>"

definition snap_file ::
    "cas_codec list \<Rightarrow> cas_compress_config \<Rightarrow> compress_policy \<Rightarrow> int \<Rightarrow> vfs \<Rightarrow> vfs_cred \<Rightarrow> cas_tree \<Rightarrow> string \<Rightarrow> snap_result" where
  "snap_file table cfg policy codec fs cred ct path =
     (case vfs_read fs cred path of
        Inl rc \<Rightarrow> (Some (Inl CAS_ERR), ct)
      | Inr (bytes, len) \<Rightarrow>
          let data = take (unat len) bytes in
          (case cas_put_object_z table cfg (ct_store ct) ''blob'' (cas_codec_policy policy codec data) data of
             (r, s) \<Rightarrow> (r, ct\<lparr>ct_store := s\<rparr>)))"

text \<open>The loop over the children; \<open>put\<close> stores one of them.\<close>

fun snap_children ::
    "(cas_tree \<Rightarrow> snap_child \<Rightarrow> snap_result) \<Rightarrow> cas_tree \<Rightarrow> cas_tree_dir \<Rightarrow> snap_child list
      \<Rightarrow> cas_rc option \<times> cas_tree \<times> cas_tree_dir" where
  "snap_children put ct dir [] = (Some CAS_OK, ct, dir)"
| "snap_children put ct dir (c # cs) =
     (let name = basename_of (c_path c) in
      if length name = 0 \<or> length name > CAS_TREE_NAME_MAX then (Some CAS_ERR, ct, dir)
      else (case put ct c of
              (None, ct1) \<Rightarrow> (None, ct1, dir)
            | (Some (Inl rc), ct1) \<Rightarrow> (Some rc, ct1, dir)
            | (Some (Inr hash), ct1) \<Rightarrow>
                (case cas_tree_dir_add dir (snap_entry c hash) of (rc, dir1) \<Rightarrow>
                   if rc \<noteq> CAS_OK then (Some rc, ct1, dir1) else snap_children put ct1 dir1 cs)))"

fun snap_dir ::
    "nat \<Rightarrow> cas_codec list \<Rightarrow> cas_compress_config \<Rightarrow> compress_policy \<Rightarrow> int \<Rightarrow> (string \<Rightarrow> snap_env) \<Rightarrow> vfs \<Rightarrow> vfs_cred
      \<Rightarrow> cas_tree \<Rightarrow> string \<Rightarrow> snap_result" where
  "snap_dir 0 table cfg policy codec env fs cred ct dirpath = (None, ct)"
| "snap_dir (Suc k) table cfg policy codec env fs cred ct dirpath =
     (let ev = env dirpath in
      case vfs_list fs cred dirpath collect_child (new_ctx (sv_children ev)) of (lrc, ctx) \<Rightarrow>
        if lrc \<noteq> rc_code VFS_OK then (Some (Inl CAS_ERR), ct)
        else (case snap_children (\<lambda>ct c. if c_type c = VFS_FILE then snap_file table cfg policy codec fs cred ct (c_path c)
                       else snap_dir k table cfg policy codec env fs cred ct (c_path c))
                     ct (cas_tree_dir_init (new_dir (sv_entries ev))) (sc_children ctx) of
                (rc, ct1, dir) \<Rightarrow>
                  if rc \<noteq> Some CAS_OK then (map_option Inl rc, ct1)
                  else (case cas_tree_store (sv_text ev) (sv_bin ev) (sv_junk ev) ct1 dir of (r, ct2, dir') \<Rightarrow> (r, ct2))))"

definition vfs_snap_store_z ::
    "nat \<Rightarrow> cas_codec list \<Rightarrow> cas_compress_config \<Rightarrow> (string \<Rightarrow> snap_env) \<Rightarrow> vfs \<Rightarrow> vfs_cred \<Rightarrow> cas_tree \<Rightarrow> compress_policy \<Rightarrow> int
      \<Rightarrow> snap_result" where
  "vfs_snap_store_z fuel table cfg env fs cred ct policy codec = snap_dir fuel table cfg policy codec env fs cred ct root_path"

definition vfs_snap_store ::
    "nat \<Rightarrow> cas_codec list \<Rightarrow> cas_compress_config \<Rightarrow> (string \<Rightarrow> snap_env) \<Rightarrow> vfs \<Rightarrow> vfs_cred \<Rightarrow> cas_tree \<Rightarrow> snap_result" where
  "vfs_snap_store fuel table cfg env fs cred ct =
     snap_dir fuel table cfg CAS_COMPRESS_NEVER CAS_CODEC_NONE env fs cred ct root_path"

section \<open>Restoring\<close>

type_synonym mounted = "vfs \<times> cas_tree"

definition restore_file ::
    "cas_codec list \<Rightarrow> (string \<Rightarrow> int) \<Rightarrow> vfs_cred \<Rightarrow> mounted \<Rightarrow> string \<Rightarrow> string \<Rightarrow> cas_rc option \<times> mounted" where
  "restore_file table now cred x path hash =
     (let (fs, ct) = x in
      case cas_open table (ct_store ct) hash of
        (None, s) \<Rightarrow> (None, fs, ct\<lparr>ct_store := s\<rparr>)
      | (Some (Inl rc), s) \<Rightarrow> (Some rc, fs, ct\<lparr>ct_store := s\<rparr>)
      | (Some (Inr data), s) \<Rightarrow>
          (case vfs_write fs cred (now path) path data True of
             (rc, fs1) \<Rightarrow> (Some (if rc \<noteq> VFS_OK then CAS_ERR else CAS_OK), fs1, ct\<lparr>ct_store := s\<rparr>)))"

text \<open>The loop over the entries; \<open>visit\<close> restores a directory. Entries that are neither are passed over.\<close>

fun restore_entries ::
    "(mounted \<Rightarrow> string \<Rightarrow> string \<Rightarrow> cas_rc option \<times> mounted) \<Rightarrow> cas_codec list \<Rightarrow> (string \<Rightarrow> int) \<Rightarrow> vfs_cred \<Rightarrow> string
      \<Rightarrow> mounted \<Rightarrow> cas_tree_entry list \<Rightarrow> cas_rc option \<times> mounted" where
  "restore_entries visit table now cred dirpath x [] = (Some CAS_OK, x)"
| "restore_entries visit table now cred dirpath x (e # es) =
     (let path = snap_path dirpath (e_name e); type = e_mode e AND CAS_TREE_S_IFMT;
          (rc, x1) =
            (if type = CAS_TREE_S_IFREG then restore_file table now cred x path (e_hash e)
             else if type = CAS_TREE_S_IFDIR then
               (case vfs_mkdir (fst x) cred (now path) path True of (mrc, fs1) \<Rightarrow>
                  if mrc \<noteq> VFS_OK then (Some CAS_ERR, fs1, snd x) else visit (fs1, snd x) path (e_hash e))
             else (Some CAS_OK, x))
      in if rc \<noteq> Some CAS_OK then (rc, x1) else restore_entries visit table now cred dirpath x1 es)"

fun restore_dir ::
    "nat \<Rightarrow> cas_codec list \<Rightarrow> (string \<Rightarrow> bool list) \<Rightarrow> (string \<Rightarrow> int) \<Rightarrow> vfs_cred \<Rightarrow> mounted \<Rightarrow> string \<Rightarrow> string
      \<Rightarrow> cas_rc option \<times> mounted" where
  "restore_dir 0 table mem now cred x dirpath tree_hash = (None, x)"
| "restore_dir (Suc k) table mem now cred x dirpath tree_hash =
     (case cas_tree_load table (snd x) tree_hash (new_dir (mem dirpath)) of
        (None, ct1) \<Rightarrow> (None, fst x, ct1)
      | (Some (rc, dir), ct1) \<Rightarrow>
          if rc \<noteq> CAS_OK then (Some rc, fst x, ct1)
          else restore_entries (restore_dir k table mem now cred) table now cred dirpath (fst x, ct1) (d_entries dir))"

definition vfs_snap_restore ::
    "nat \<Rightarrow> cas_codec list \<Rightarrow> (string \<Rightarrow> bool list) \<Rightarrow> (string \<Rightarrow> int) \<Rightarrow> vfs \<Rightarrow> vfs_cred \<Rightarrow> cas_tree \<Rightarrow> string
      \<Rightarrow> cas_rc option \<times> mounted" where
  "vfs_snap_restore fuel table mem now fs cred ct root_hash = restore_dir fuel table mem now cred (fs, ct) root_path root_hash"

text \<open>The slashes at the end of the prefix are stripped, all but the first character.\<close>

definition strip_slashes :: "string \<Rightarrow> string" where
  "strip_slashes base = take 1 base @ rev (dropWhile (\<lambda>c. c = slash) (rev (drop 1 base)))"

definition vfs_snap_restore_at ::
    "nat \<Rightarrow> cas_codec list \<Rightarrow> (string \<Rightarrow> bool list) \<Rightarrow> (string \<Rightarrow> int) \<Rightarrow> vfs \<Rightarrow> vfs_cred \<Rightarrow> cas_tree \<Rightarrow> string option \<Rightarrow> string
      \<Rightarrow> cas_rc option \<times> mounted" where
  "vfs_snap_restore_at fuel table mem now fs cred ct base_path root_hash =
     (case base_path of
        None \<Rightarrow> (Some CAS_ERR, fs, ct)
      | Some base \<Rightarrow>
          if base = [] \<or> hd base \<noteq> slash then (Some CAS_ERR, fs, ct)
          else (case vfs_mkdir fs cred (now base) base True of (rc, fs1) \<Rightarrow>
            if rc \<noteq> VFS_OK then (Some CAS_ERR, fs1, ct)
            else if length (strip_slashes base) \<ge> SNAP_PATH_MAX then (Some CAS_ERR, fs1, ct)
            else restore_dir fuel table mem now cred (fs1, ct) (strip_slashes base) root_hash))"

section \<open>References\<close>

text \<open>\<open>torn\<close>, \<open>sec\<close> and \<open>nsec\<close> are the inputs of \<^const>\<open>cas_tree_ref_commit\<close>.\<close>

definition vfs_snap_commit ::
    "nat \<Rightarrow> cas_codec list \<Rightarrow> cas_compress_config \<Rightarrow> (string \<Rightarrow> snap_env) \<Rightarrow> nat \<Rightarrow> u64 \<Rightarrow> u32 \<Rightarrow> vfs \<Rightarrow> vfs_cred \<Rightarrow> cas_tree
      \<Rightarrow> string \<Rightarrow> string option \<Rightarrow> cas_rc option \<times> cas_tree" where
  "vfs_snap_commit fuel table cfg env torn sec nsec fs cred ct ref note =
     (case vfs_snap_store fuel table cfg env fs cred ct of
        (None, ct1) \<Rightarrow> (None, ct1)
      | (Some (Inl rc), ct1) \<Rightarrow> (Some rc, ct1)
      | (Some (Inr hash), ct1) \<Rightarrow> (case cas_tree_ref_commit torn sec nsec ct1 ref hash note of (rc, ct2) \<Rightarrow> (Some rc, ct2)))"

definition vfs_snap_commit_z ::
    "nat \<Rightarrow> cas_codec list \<Rightarrow> cas_compress_config \<Rightarrow> (string \<Rightarrow> snap_env) \<Rightarrow> nat \<Rightarrow> u64 \<Rightarrow> u32 \<Rightarrow> vfs \<Rightarrow> vfs_cred \<Rightarrow> cas_tree
      \<Rightarrow> string \<Rightarrow> string option \<Rightarrow> compress_policy \<Rightarrow> int \<Rightarrow> cas_rc option \<times> cas_tree" where
  "vfs_snap_commit_z fuel table cfg env torn sec nsec fs cred ct ref note policy codec =
     (case vfs_snap_store_z fuel table cfg env fs cred ct policy codec of
        (None, ct1) \<Rightarrow> (None, ct1)
      | (Some (Inl rc), ct1) \<Rightarrow> (Some rc, ct1)
      | (Some (Inr hash), ct1) \<Rightarrow> (case cas_tree_ref_commit torn sec nsec ct1 ref hash note of (rc, ct2) \<Rightarrow> (Some rc, ct2)))"

definition vfs_snap_checkout ::
    "nat \<Rightarrow> cas_codec list \<Rightarrow> (string \<Rightarrow> bool list) \<Rightarrow> (string \<Rightarrow> int) \<Rightarrow> vfs \<Rightarrow> vfs_cred \<Rightarrow> cas_tree \<Rightarrow> string
      \<Rightarrow> cas_rc option \<times> mounted" where
  "vfs_snap_checkout fuel table mem now fs cred ct ref =
     (case cas_tree_ref_read ct ref of
        (Inl rc, ct1) \<Rightarrow> (Some rc, fs, ct1)
      | (Inr hash, ct1) \<Rightarrow> vfs_snap_restore fuel table mem now fs cred ct1 hash)"

definition vfs_snap_checkout_at ::
    "nat \<Rightarrow> cas_codec list \<Rightarrow> (string \<Rightarrow> bool list) \<Rightarrow> (string \<Rightarrow> int) \<Rightarrow> vfs \<Rightarrow> vfs_cred \<Rightarrow> cas_tree \<Rightarrow> string option \<Rightarrow> string
      \<Rightarrow> cas_rc option \<times> mounted" where
  "vfs_snap_checkout_at fuel table mem now fs cred ct base_path ref =
     (case cas_tree_ref_read ct ref of
        (Inl rc, ct1) \<Rightarrow> (Some rc, fs, ct1)
      | (Inr hash, ct1) \<Rightarrow> vfs_snap_restore_at fuel table mem now fs cred ct1 base_path hash)"

section \<open>Finding an entry by its path\<close>

text \<open>The name up to the next slash, and what follows that slash.\<close>

definition next_name :: "string \<Rightarrow> string \<times> string option" where
  "next_name cur = (takeWhile (\<lambda>c. c \<noteq> slash) cur,
     case dropWhile (\<lambda>c. c \<noteq> slash) cur of [] \<Rightarrow> None | c # r \<Rightarrow> Some r)"

lemma next_name_shorter: "next_name cur = (name, Some r) \<Longrightarrow> length r < length cur"
  using length_dropWhile_le [of "\<lambda>c. c \<noteq> slash" cur] by (auto simp: next_name_def split: list.splits)

function resolve_loop ::
    "cas_codec list \<Rightarrow> (string \<Rightarrow> bool list) \<Rightarrow> cas_tree \<Rightarrow> string \<Rightarrow> string \<Rightarrow> (cas_rc + cas_tree_entry) option \<times> cas_tree" where
  "resolve_loop table mem ct curhash cur =
     (case next_name cur of (name, slash_at) \<Rightarrow>
       (case cas_tree_load table ct curhash (new_dir (mem cur)) of
          (None, ct1) \<Rightarrow> (None, ct1)
        | (Some (rc, dir), ct1) \<Rightarrow>
            if rc \<noteq> CAS_OK then (Some (Inl rc), ct1)
            else (case find (\<lambda>e. e_name e = name) (d_entries dir) of
                    None \<Rightarrow> (Some (Inl CAS_ENOTFOUND), ct1)
                  | Some e \<Rightarrow>
                      (case slash_at of
                         None \<Rightarrow> (Some (Inr e), ct1)
                       | Some r \<Rightarrow>
                           if e_mode e AND CAS_TREE_S_IFMT \<noteq> CAS_TREE_S_IFDIR then (Some (Inl CAS_ETYPE), ct1)
                           else resolve_loop table mem ct1 (e_hash e) r))))"
  by pat_completeness auto
termination
  by (relation "measure (\<lambda>(table, mem, ct, curhash, cur). length cur)") (auto dest!: next_name_shorter [OF sym])

declare resolve_loop.simps [simp del]

definition tree_resolve ::
    "cas_codec list \<Rightarrow> (string \<Rightarrow> bool list) \<Rightarrow> cas_tree \<Rightarrow> string \<Rightarrow> string \<Rightarrow> (cas_rc + cas_tree_entry) option \<times> cas_tree" where
  "tree_resolve table mem ct root_hash path =
     (let buf = snap_text path; cur = (if buf \<noteq> [] \<and> hd buf = slash then tl buf else buf) in
      if cur = [] then (Some (Inl CAS_ENOTFOUND), ct) else resolve_loop table mem ct root_hash cur)"

section \<open>Comparing with a snapshot\<close>

text \<open>The codes of both layers are returned through one integer.\<close>

datatype snap_rc = Snap_vfs vfs_rc | Snap_cas cas_rc

definition snap_code :: "snap_rc \<Rightarrow> int" where
  "snap_code r = (case r of Snap_vfs rc \<Rightarrow> rc_code rc | Snap_cas rc \<Rightarrow> cas_code rc)"

text \<open>The name of the contents of a file; \<^const>\<open>None\<close> where the buffer for it would stay as it was.\<close>

definition blob_name :: "byte list \<times> u64 \<Rightarrow> string option" where
  "blob_name x = cas_hash_object ''blob'' (take (unat (snd x)) (fst x))"

definition vfs_snap_checkfile ::
    "cas_codec list \<Rightarrow> (string \<Rightarrow> bool list) \<Rightarrow> vfs \<Rightarrow> vfs_cred \<Rightarrow> cas_tree \<Rightarrow> string \<Rightarrow> string \<Rightarrow> snap_rc option \<times> cas_tree" where
  "vfs_snap_checkfile table mem fs cred ct root_hash path =
     (case vfs_stat fs cred path of
        Inl rc \<Rightarrow> (Some (Snap_vfs rc), ct)
      | Inr st \<Rightarrow>
          if st_type st = VFS_DIR then (Some (Snap_vfs VFS_EISDIR), ct)
          else (case tree_resolve table mem ct root_hash path of
                  (None, ct1) \<Rightarrow> (None, ct1)
                | (Some (Inl rc), ct1) \<Rightarrow> (Some (Snap_cas rc), ct1)
                | (Some (Inr entry), ct1) \<Rightarrow>
                    if e_mode entry AND CAS_TREE_S_IFMT = CAS_TREE_S_IFDIR then (Some (Snap_cas CAS_ETYPE), ct1)
                    else (case vfs_read fs cred path of
                            Inl rc \<Rightarrow> (Some (Snap_cas CAS_ERR), ct1)
                          | Inr x \<Rightarrow>
                              (case blob_name x of
                                 None \<Rightarrow> (None, ct1)
                               | Some hash \<Rightarrow> (Some (Snap_cas (if hash \<noteq> e_hash entry then CAS_ERR else CAS_OK)), ct1)))))"

datatype snap_status =
  VFS_SNAP_FSCK_OK | VFS_SNAP_FSCK_MODIFIED | VFS_SNAP_FSCK_ADDED | VFS_SNAP_FSCK_MISSING | VFS_SNAP_FSCK_TYPE

type_synonym 'c snap_fn = "('c \<Rightarrow> string \<Rightarrow> snap_status \<Rightarrow> bool \<times> 'c) option"

text \<open>The errors counted so far and the state of the caller; \<open>snap_report\<close> also says whether to stop.\<close>

type_synonym 'c tally = "nat \<times> 'c"

definition snap_report :: "'c snap_fn \<Rightarrow> 'c tally \<Rightarrow> string \<Rightarrow> snap_status \<Rightarrow> bool \<times> 'c tally" where
  "snap_report fn t path status =
     (case fn of None \<Rightarrow> (False, Suc (fst t), snd t)
      | Some f \<Rightarrow> let (stop, c) = f (snd t) path status in (stop, Suc (fst t), c))"

definition fsck_file ::
    "vfs \<Rightarrow> vfs_cred \<Rightarrow> 'c snap_fn \<Rightarrow> 'c tally \<Rightarrow> string \<Rightarrow> string \<Rightarrow> (bool \<times> 'c tally) option" where
  "fsck_file fs cred fn t path hash =
     (case vfs_read fs cred path of
        Inl rc \<Rightarrow> Some (snap_report fn t path VFS_SNAP_FSCK_MODIFIED)
      | Inr x \<Rightarrow>
          (case blob_name x of
             None \<Rightarrow> None
           | Some h \<Rightarrow> Some (if h \<noteq> hash then snap_report fn t path VFS_SNAP_FSCK_MODIFIED else (False, t))))"

text \<open>The loop over the entries of a directory; \<open>visit\<close> compares a subdirectory.\<close>

fun fsck_snap_entries ::
    "(cas_tree \<Rightarrow> 'c tally \<Rightarrow> string \<Rightarrow> string \<Rightarrow> (bool \<times> 'c tally) option \<times> cas_tree) \<Rightarrow> vfs \<Rightarrow> vfs_cred \<Rightarrow> 'c snap_fn
      \<Rightarrow> string \<Rightarrow> snap_child list \<Rightarrow> cas_tree \<Rightarrow> 'c tally \<Rightarrow> cas_tree_entry list \<Rightarrow> (bool \<times> 'c tally) option \<times> cas_tree" where
  "fsck_snap_entries visit fs cred fn dirpath children ct t [] = (Some (False, t), ct)"
| "fsck_snap_entries visit fs cred fn dirpath children ct t (e # es) =
     (let path = snap_path dirpath (e_name e); is_dir = (e_mode e AND CAS_TREE_S_IFMT = CAS_TREE_S_IFDIR);
          (r, ct1) =
            (case find (\<lambda>c. basename_of (c_path c) = e_name e) children of
               None \<Rightarrow> (Some (snap_report fn t path VFS_SNAP_FSCK_MISSING), ct)
             | Some m \<Rightarrow>
                 if is_dir \<noteq> (c_type m = VFS_DIR) then (Some (snap_report fn t path VFS_SNAP_FSCK_TYPE), ct)
                 else if is_dir then visit ct t path (e_hash e)
                 else (fsck_file fs cred fn t path (e_hash e), ct))
      in case r of
           None \<Rightarrow> (None, ct1)
         | Some (stop, t1) \<Rightarrow>
             if stop then (Some (True, t1), ct1) else fsck_snap_entries visit fs cred fn dirpath children ct1 t1 es)"

text \<open>The loop over the children; a path that does not fit the buffer is passed over.\<close>

fun fsck_added :: "'c snap_fn \<Rightarrow> string \<Rightarrow> cas_tree_entry list \<Rightarrow> 'c tally \<Rightarrow> snap_child list \<Rightarrow> bool \<times> 'c tally" where
  "fsck_added fn dirpath es t [] = (False, t)"
| "fsck_added fn dirpath es t (c # cs) =
     (let name = basename_of (c_path c); path = (if dirpath = root_path then slash # name else dirpath @ slash # name) in
      if list_ex (\<lambda>e. e_name e = name) es \<or> length path \<ge> SNAP_PATH_MAX then fsck_added fn dirpath es t cs
      else (case snap_report fn t path VFS_SNAP_FSCK_ADDED of (stop, t1) \<Rightarrow>
              if stop then (True, t1) else fsck_added fn dirpath es t1 cs))"

fun fsck_dir ::
    "nat \<Rightarrow> cas_codec list \<Rightarrow> (string \<Rightarrow> bool list \<times> bool list) \<Rightarrow> vfs \<Rightarrow> vfs_cred \<Rightarrow> 'c snap_fn
      \<Rightarrow> cas_tree \<Rightarrow> 'c tally \<Rightarrow> string \<Rightarrow> string \<Rightarrow> (bool \<times> 'c tally) option \<times> cas_tree" where
  "fsck_dir 0 table mem fs cred fn ct t dirpath tree_hash = (None, ct)"
| "fsck_dir (Suc k) table mem fs cred fn ct t dirpath tree_hash =
     (case cas_tree_load table ct tree_hash (new_dir (fst (mem dirpath))) of
        (None, ct1) \<Rightarrow> (None, ct1)
      | (Some (rc, dir), ct1) \<Rightarrow>
          if rc \<noteq> CAS_OK then (Some (False, t), ct1)
          else (case vfs_list fs cred dirpath collect_child (new_ctx (snd (mem dirpath))) of (lrc, ctx) \<Rightarrow>
            if lrc \<noteq> rc_code VFS_OK then (Some (False, t), ct1)
            else (case fsck_snap_entries (fsck_dir k table mem fs cred fn) fs cred fn dirpath (sc_children ctx) ct1 t (d_entries dir) of
                    (None, ct2) \<Rightarrow> (None, ct2)
                  | (Some (stop, t1), ct2) \<Rightarrow>
                      if stop then (Some (True, t1), ct2)
                      else (Some (fsck_added fn dirpath (d_entries dir) t1 (sc_children ctx)), ct2))))"

definition vfs_snap_fsck ::
    "nat \<Rightarrow> cas_codec list \<Rightarrow> (string \<Rightarrow> bool list \<times> bool list) \<Rightarrow> vfs \<Rightarrow> vfs_cred \<Rightarrow> cas_tree \<Rightarrow> string \<Rightarrow> 'c snap_fn \<Rightarrow> 'c
      \<Rightarrow> (cas_rc \<times> 'c) option \<times> cas_tree" where
  "vfs_snap_fsck fuel table mem fs cred ct root_hash fn c =
     (case fsck_dir fuel table mem fs cred fn ct (0, c) root_path root_hash of
        (None, ct1) \<Rightarrow> (None, ct1)
      | (Some (stop, errors, c'), ct1) \<Rightarrow> (Some (if errors \<noteq> 0 then CAS_ERR else CAS_OK, c'), ct1))"

end
