(* ===== verification/SnapTree.thy ===== *)
theory SnapTree
  imports Snap VfsProps TreeProps ObjectClient
begin

unbundle bit_operations_syntax

text \<open>
  The directories a filesystem stands for, as a function of its nodes alone, and that a snapshot which succeeds reports the
  name of that directory. The listing is defined by recursion over the paths: a child has a longer path than its
  directory, and no path is longer than the longest of the table.
\<close>

section \<open>The children of a directory\<close>

definition kids :: "vfs \<Rightarrow> string \<Rightarrow> vfs_node list" where
  "kids fs p = filter (\<lambda>n. is_child p (n_path n)) (v_nodes fs)"

definition child_of :: "vfs_node \<Rightarrow> snap_child" where
  "child_of n = \<lparr>c_path = snap_text (n_path n), c_type = n_type n, c_mode = n_mode n, c_owner = n_owner n,
     c_mtime = n_mtime n, c_size = n_size n\<rparr>"

lemma is_child_longer: "is_child p q \<Longrightarrow> length p < length q"
  by (cases q) (auto simp: is_child_def split: if_splits)

lemma list_loop_children:
  "list_loop collect_child norm ns sc = (rc, sc') \<Longrightarrow>
    (rc = 0 \<longrightarrow> sc_children sc' = sc_children sc @ map child_of (filter (\<lambda>n. is_child norm (n_path n)) ns)) \<and>
    (sc_mem sc = [] \<longrightarrow> rc = 0)"
proof (induction ns arbitrary: sc)
  case (Cons n ns)
  show ?case
  proof (cases "is_child norm (n_path n)")
    case False
    with Cons show ?thesis by simp
  next
    case True
    obtain r1 sc1 where c: "collect_child (fill_stat n) sc = (r1, sc1)" by fastforce
    have f: "sc_children sc1 = sc_children sc @ [child_of n] \<or> r1 \<noteq> 0" "sc_mem sc = [] \<longrightarrow> r1 = 0 \<and> sc_mem sc1 = []"
      using c by (auto simp: collect_child_def child_of_def fill_stat_def Let_def split: if_splits prod.splits list.splits)
    show ?thesis
    proof (cases "r1 = 0")
      case True
      with Cons.IH [of sc1] Cons.prems c f \<open>is_child norm (n_path n)\<close> show ?thesis by auto
    next
      case False
      with Cons.prems c f \<open>is_child norm (n_path n)\<close> show ?thesis by auto
    qed
  qed
qed simp

text \<open>A listing that succeeds has all children, and it succeeds on a directory the caller may read.\<close>

lemma vfs_list_children:
  assumes "vfs_list fs cred p collect_child (new_ctx mem) = (rc, ctx)" "rc = 0"
  obtains q where "vfs_normalize VFS_PATH_MAX p = Inr q" "dir_at (fs_lookup fs) q" "sc_children ctx = map child_of (kids fs q)"
proof (cases "vfs_normalize VFS_PATH_MAX p")
  case (Inl e)
  then have "e = VFS_EBADPATH" by (auto simp: vfs_normalize_max split: if_splits)
  with Inl assms show thesis by (simp add: vfs_list_def)
next
  case (Inr q)
  have "list_loop collect_child q (v_nodes fs) (new_ctx mem) = (rc, ctx)" "dir_at (fs_lookup fs) q"
    using assms Inr find_node_SomeD [of fs q]
    by (auto simp: vfs_list_def Let_def dir_at_def split: if_splits option.splits)
  with list_loop_children [OF this(1)] assms(2) Inr that show thesis by (simp add: new_ctx_def kids_def)
qed

lemma vfs_list_ready:
  assumes "vfs_normalize VFS_PATH_MAX p = Inr q" "dir_at (fs_lookup fs) q" "is_admin cred"
  obtains ctx where "vfs_list fs cred p collect_child (new_ctx []) = (0, ctx)"
proof -
  obtain rc ctx where l: "list_loop collect_child q (v_nodes fs) (new_ctx []) = (rc, ctx)" by fastforce
  with list_loop_children [OF l] have "rc = 0" by (simp add: new_ctx_def)
  have "vfs_list fs cred p collect_child (new_ctx []) = (rc, ctx)"
  proof (cases "q = root_path")
    case True
    then show ?thesis using assms(1) l by (simp add: vfs_list_def)
  next
    case False
    then obtain n where n: "fs_lookup fs q = Some n" "n_type n = VFS_DIR" using assms(2) by (auto simp: dir_at_def)
    then obtain i where i: "find_node fs q = Some i" using find_node_None [of fs q] by fastforce
    then have "v_nodes fs ! i = n" using find_node_SomeD [OF i] n(1) by simp
    with assms(1,3) False i n l show ?thesis by (simp add: vfs_list_def check_perm_def)
  qed
  with \<open>rc = 0\<close> that show thesis by simp
qed

section \<open>The directory a filesystem stands for\<close>

definition snap_name :: "string \<Rightarrow> byte list \<Rightarrow> string" where
  "snap_name t d = (case cas_hash_object t d of None \<Rightarrow> [] | Some h \<Rightarrow> h)"

function snap_listing :: "vfs \<Rightarrow> string \<Rightarrow> cas_tree_entry list" where
  "snap_listing fs p = sorted_entries (map (\<lambda>n. snap_entry (child_of n)
     (if n_type n = VFS_FILE then snap_name ''blob'' (n_data n)
      else snap_name ''tree'' (dir_text (snap_listing fs (n_path n))))) (kids fs p))"
  by pat_completeness auto
termination
proof (relation "measure (\<lambda>(fs, p). Max (insert 0 ((length \<circ> n_path) ` set (v_nodes fs))) - length p)")
  fix fs :: vfs and p :: string and n :: vfs_node
  assume n: "n \<in> set (kids fs p)"
  then have c: "length p < length (n_path n)" "n \<in> set (v_nodes fs)" by (auto simp: kids_def is_child_longer)
  have "(length \<circ> n_path) n \<in> insert 0 ((length \<circ> n_path) ` set (v_nodes fs))" using c(2) by blast
  then have "length (n_path n) \<le> Max (insert 0 ((length \<circ> n_path) ` set (v_nodes fs)))" using Max_ge by fastforce
  with c(1) show "((fs, n_path n), fs, p) \<in> measure (\<lambda>(fs, p). Max (insert 0 ((length \<circ> n_path) ` set (v_nodes fs))) - length p)"
    by simp
qed simp

declare snap_listing.simps [simp del]

text \<open>The name of the object for a node.\<close>

definition node_name :: "vfs \<Rightarrow> vfs_node \<Rightarrow> string" where
  "node_name fs n = (if n_type n = VFS_FILE then snap_name ''blob'' (n_data n) else snap_name ''tree'' (dir_text (snap_listing fs (n_path n))))"

definition node_entry :: "vfs \<Rightarrow> vfs_node \<Rightarrow> cas_tree_entry" where
  "node_entry fs n = snap_entry (child_of n) (node_name fs n)"

lemma snap_listing_eq: "snap_listing fs p = sorted_entries (map (node_entry fs) (kids fs p))"
  by (subst snap_listing.simps) (simp add: node_entry_def [abs_def] node_name_def [abs_def])

section \<open>What a snapshot reports\<close>

lemma put_object_z_name: "cas_put_object_z table cfg s t codec d = (Some (Inr h), s') \<Longrightarrow> cas_hash_object t d = Some h"
  by (elim put_object_z_cases)

lemma tree_store_name:
  assumes "cas_tree_store mem1 mem2 junk ct dir = (Some (Inr h), ct', dir')"
  shows "cas_hash_object ''tree'' (dir_text (sorted_entries (d_entries dir))) = Some h"
proof -
  let ?es = "sorted_entries (d_entries dir)"
  have e: "(if length (d_entries dir) > 1 then sort_entries (d_entries dir) else d_entries dir) = ?es"
    by (simp add: sorted_entries_def)
  note run = assms [unfolded cas_tree_store_def e Let_def, simplified]
  have m1: mem1 using run by (cases mem1) (auto simp: tree_serialize_def Let_def split: if_splits)
  have tx: "tree_serialize mem1 ?es = Some (CHR ''%'' # concat (map entry_line ?es))" using m1 by (simp add: tree_serialize_text)
  have dt: "bytes_of (CHR ''%'' # concat (map entry_line ?es)) = dir_text ?es" by (simp add: dir_text_def)
  show ?thesis
    using run by (auto simp: tx dt dt [simplified] put_object_at_hash
        split: if_splits option.splits prod.splits bool.splits)
qed

text \<open>A file that is read, and the node behind it.\<close>

lemma node_bytes_read:
  assumes "vfs_inv fs" "vfs_read fs cred p = Inr (d, len)" "vfs_normalize VFS_PATH_MAX p = Inr q" "fs_lookup fs q = Some n"
  shows "take (unat len) d = n_data n"
proof -
  have "node_ok n" using vfs_inv_nodeD(3) [OF assms(1,4)] .
  moreover have "d = n_data n" "len = n_size n" using assms(2-4) by (auto simp: vfs_read_lookup split: if_splits)
  ultimately show ?thesis by (simp add: node_ok_def unat_of_nat)
qed

lemma kid_path:
  assumes "vfs_inv fs" "n \<in> set (kids fs (join_path ds))" "list_all comp_normal ds"
  obtains c where "n_path n = join_path (ds @ [c])" "list_all comp_normal (ds @ [c])" "comp_legal c"
    "fs_lookup fs (n_path n) = Some n"
proof -
  have l: "fs_lookup fs (n_path n) = Some n"
    using nodes_lookup_iff [OF vfs_invD(1) [OF assms(1)]] assms(2) by (auto simp: kids_def)
  have po: "path_ok (n_path n)" using vfs_inv_nodeD(2) [OF assms(1) l] .
  have np: "normal_path (join_path ds)" using assms(3) by (auto simp: normal_path_def)
  have par: "parent_of (n_path n) = join_path ds" using is_child_parent [OF po np] assms(2) by (auto simp: kids_def)
  obtain cs c where c: "list_all comp_normal (cs @ [c])" "list_all comp_legal (cs @ [c])" "n_path n = join_path (cs @ [c])"
    "parent_of (n_path n) = join_path cs" using po by (rule path_okE)
  have "list_all comp_normal cs" using c(1) by simp
  then have "cs = ds" using join_path_inj [of cs ds] assms(3) par c(4) by metis
  then have "n_path n = join_path (ds @ [c])" "list_all comp_normal (ds @ [c])" "comp_legal c" using c(1,2,3) by auto
  from that [OF this l] show thesis .
qed

lemma kids_lookup:
  assumes "vfs_inv fs" "list_all comp_normal (ds @ [c])"
  shows "fs_lookup fs (join_path (ds @ [c])) = Some n \<longleftrightarrow> n \<in> set (kids fs (join_path ds)) \<and> n_path n = join_path (ds @ [c])"
proof
  assume l: "fs_lookup fs (join_path (ds @ [c])) = Some n"
  have np: "normal_path (join_path ds)" using assms(2) by (auto simp: normal_path_def)
  from vfs_inv_nodeD [OF assms(1) l] is_child_parent [OF _ np] parent_of_join [OF assms(2)]
    nodes_lookup_iff [OF vfs_invD(1) [OF assms(1)]] l
  show "n \<in> set (kids fs (join_path ds)) \<and> n_path n = join_path (ds @ [c])" by (auto simp: kids_def)
next
  assume "n \<in> set (kids fs (join_path ds)) \<and> n_path n = join_path (ds @ [c])"
  with nodes_lookup_iff [OF vfs_invD(1) [OF assms(1)]] show "fs_lookup fs (join_path (ds @ [c])) = Some n"
    by (auto simp: kids_def)
qed

lemma normalize_short: "vfs_normalize VFS_PATH_MAX p = Inr q \<Longrightarrow> length p < VFS_PATH_MAX"
  by (auto simp: vfs_normalize_max split: if_splits)

lemma snap_text_short: "length p < VFS_PATH_MAX \<Longrightarrow> snap_text p = p"
  by (simp add: snap_text_def SNAP_PATH_MAX_def VFS_PATH_MAX_def)

text \<open>No path of the table is too long for the calls; only a rename can make one that is.\<close>

definition paths_fit :: "vfs \<Rightarrow> bool" where
  "paths_fit fs \<longleftrightarrow> (\<forall>p n. fs_lookup fs p = Some n \<longrightarrow> length p < VFS_PATH_MAX)"

lemma snap_file_fails: "snap_file table cfg policy codec fs cred ct p \<noteq> (Some (Inl CAS_OK), ct')"
proof -
  have "cas_put_object_z table cfg s t c d \<noteq> (Some (Inl CAS_OK), s')" for s t c d s'
    by (auto simp: cas_put_object_z_def split: option.splits bool.splits prod.splits if_splits)
  then show ?thesis by (auto simp: snap_file_def Let_def split: sum.splits prod.splits)
qed

lemma tree_store_fails: "cas_tree_store mem1 mem2 junk ct dir \<noteq> (Some (Inl CAS_OK), ct', dir')"
  using put_object_fail_rc
  by (fastforce simp: cas_tree_store_def Let_def split: if_splits option.splits bool.splits prod.splits)

lemma snap_dir_fails: "snap_dir k table cfg policy codec env fs cred ct p \<noteq> (Some (Inl CAS_OK), ct')"
  using tree_store_fails
  by (cases k) (fastforce simp: Let_def split: prod.splits if_splits)+

text \<open>The loop over the children, for what is known of one of them.\<close>

lemma snap_children_entries:
  assumes "snap_children put ct dir (map child_of ns) = (Some CAS_OK, ct', dir')"
    and "\<And>n ct h ct'. n \<in> set ns \<Longrightarrow> put ct (child_of n) = (Some (Inr h), ct') \<Longrightarrow> h = node_name fs n"
    and "\<And>n ct ct'. put ct (child_of n) \<noteq> (Some (Inl CAS_OK), ct')"
  shows "d_entries dir' = d_entries dir @ map (node_entry fs) ns"
  using assms
proof (induction ns arbitrary: ct dir)
  case (Cons n ns)
  obtain h ct1 dir1 where *: "put ct (child_of n) = (Some (Inr h), ct1)" "cas_tree_dir_add dir (snap_entry (child_of n) h) = (CAS_OK, dir1)"
    "snap_children put ct1 dir1 (map child_of ns) = (Some CAS_OK, ct', dir')"
    using Cons.prems(1,3) by (auto simp: Let_def split: if_splits option.splits sum.splits prod.splits)
  have "h = node_name fs n" using Cons.prems(2) [OF _ *(1)] by simp
  moreover have "d_entries dir1 = d_entries dir @ [snap_entry (child_of n) h]"
    using *(2) by (auto simp: cas_tree_dir_add_def Let_def split: if_splits prod.splits)
  ultimately show ?case using Cons.IH [OF *(3)] Cons.prems(2,3) by (simp add: node_entry_def)
qed simp

lemma snap_dir_name:
  assumes "vfs_inv fs" "paths_fit fs" "list_all comp_normal ds"
    and "snap_dir k table cfg policy codec env fs cred ct (join_path ds) = (Some (Inr h), ct')"
  shows "cas_hash_object ''tree'' (dir_text (snap_listing fs (join_path ds))) = Some h"
  using assms(3,4)
proof (induction k arbitrary: ds ct h ct')
  case (Suc k)
  let ?p = "join_path ds"
  let ?put = "\<lambda>ct c. if c_type c = VFS_FILE then snap_file table cfg policy codec fs cred ct (c_path c)
                     else snap_dir k table cfg policy codec env fs cred ct (c_path c)"
  obtain ctx where li: "vfs_list fs cred ?p collect_child (new_ctx (sv_children (env ?p))) = (0, ctx)"
    using Suc.prems(2) by (auto simp: Let_def split: prod.splits if_splits)
  obtain q where "vfs_normalize VFS_PATH_MAX ?p = Inr q" "sc_children ctx = map child_of (kids fs q)"
    using vfs_list_children [OF li refl] by metis
  then have ch: "sc_children ctx = map child_of (kids fs ?p)"
    using vfs_normalize_join [OF Suc.prems(1)] normalize_short by (metis sum.inject(2))
  obtain ct1 dir dir2 where sc: "snap_children ?put ct (cas_tree_dir_init (new_dir (sv_entries (env ?p)))) (map child_of (kids fs ?p))
      = (Some CAS_OK, ct1, dir)"
    and st: "cas_tree_store (sv_text (env ?p)) (sv_bin (env ?p)) (sv_junk (env ?p)) ct1 dir = (Some (Inr h), ct', dir2)"
    using Suc.prems(2) li ch by (auto simp: Let_def split: prod.splits if_splits)
  have each: "j = node_name fs n" if n: "n \<in> set (kids fs ?p)" and put: "?put c (child_of n) = (Some (Inr j), c')" for n c j c'
  proof -
    obtain x where x: "n_path n = join_path (ds @ [x])" "list_all comp_normal (ds @ [x])" "fs_lookup fs (n_path n) = Some n"
      using kid_path [OF assms(1) n Suc.prems(1)] by metis
    have len: "length (n_path n) < VFS_PATH_MAX" using x(3) assms(2) by (auto simp: paths_fit_def)
    then have t: "snap_text (n_path n) = n_path n" and nm: "vfs_normalize VFS_PATH_MAX (n_path n) = Inr (n_path n)"
      using snap_text_short vfs_normalize_join [OF x(2)] x(1) by simp_all
    show ?thesis
    proof (cases "n_type n = VFS_FILE")
      case True
      then have "snap_file table cfg policy codec fs cred c (n_path n) = (Some (Inr j), c')"
        using put t by (simp add: child_of_def)
      then obtain d ln s where r: "vfs_read fs cred (n_path n) = Inr (d, ln)"
        "cas_put_object_z table cfg (ct_store c) ''blob'' (cas_codec_policy policy codec (take (unat ln) d)) (take (unat ln) d)
          = (Some (Inr j), s)"
        by (auto simp: snap_file_def Let_def split: sum.splits prod.splits)
      then have "take (unat ln) d = n_data n" using node_bytes_read [OF assms(1) r(1) nm x(3)] by simp
      then show ?thesis using put_object_z_name [OF r(2)] True by (simp add: node_name_def snap_name_def)
    next
      case False
      then have sd: "snap_dir k table cfg policy codec env fs cred c (join_path (ds @ [x])) = (Some (Inr j), c')"
        using put t x(1) by (simp add: child_of_def)
      from Suc.IH [OF x(2) sd] x(1) False show ?thesis by (simp add: node_name_def snap_name_def)
    qed
  qed
  have ok: "?put c (child_of n) \<noteq> (Some (Inl CAS_OK), c')" for n c c' using snap_file_fails snap_dir_fails by simp
  have "d_entries dir = map (node_entry fs) (kids fs ?p)"
    using snap_children_entries [OF sc each ok] by (simp add: cas_tree_dir_init_def)
  then show ?case using tree_store_name [OF st] by (simp add: snap_listing_eq)
qed simp

end
