(* ===== verification/SnapStore.thy ===== *)
theory SnapStore
  imports SnapTree
begin

unbundle bit_operations_syntax

text \<open>
  What a snapshot does to the depot: it adds objects of the filesystem and nothing else, whatever fails, and when it
  succeeds all of the tree below the directory is there, provided the names of its objects tell them apart from each
  other and from what was there before.
\<close>

section \<open>The objects of a snapshot\<close>

datatype snap_obj = Snap_blob "byte list" | Snap_dir "cas_tree_entry list"

fun obj_name :: "snap_obj \<Rightarrow> string option" where
  "obj_name (Snap_blob d) = cas_hash_object ''blob'' d"
| "obj_name (Snap_dir es) = cas_hash_object ''tree'' (dir_text es)"

fun obj_is :: "snap_obj \<Rightarrow> string \<times> byte list \<Rightarrow> bool" where
  "obj_is (Snap_blob d) y \<longleftrightarrow> y = (''blob'', d)"
| "obj_is (Snap_dir es) y \<longleftrightarrow> dir_object (fst y) (snd y) es"

definition snap_objs :: "vfs \<Rightarrow> snap_obj set" where
  "snap_objs fs = {Snap_blob (n_data n) |p n. fs_lookup fs p = Some n \<and> n_type n = VFS_FILE} \<union>
     {Snap_dir (snap_listing fs p) |p. dir_at (fs_lookup fs) p}"

text \<open>What the codec makes of the data expands within the bounds of the reader.\<close>

definition z_fits :: "cas_codec list \<Rightarrow> int \<Rightarrow> byte list \<Rightarrow> bool" where
  "z_fits table codec d \<longleftrightarrow> codec = CAS_CODEC_NONE \<or>
     (\<forall>payload. cas_codec_encode table codec d (length d) = Inr payload \<longrightarrow> inflatable payload (length d))"

text \<open>All of them fit a file that the store reads back.\<close>

definition snap_fits :: "cas_codec list \<Rightarrow> compress_policy \<Rightarrow> int \<Rightarrow> vfs \<Rightarrow> bool" where
  "snap_fits table policy codec fs \<longleftrightarrow> paths_fit fs \<and>
     (\<forall>p n. fs_lookup fs p = Some n \<longrightarrow> n_type n = VFS_FILE \<longrightarrow>
        storable ''blob'' (n_data n) \<and> z_fits table (cas_codec_policy policy codec (n_data n)) (n_data n)) \<and>
     (\<forall>p. dir_at (fs_lookup fs) p \<longrightarrow> dir_fits (snap_listing fs p))"

text \<open>The names of the objects tell them apart from each other and from what is in the store.\<close>

definition tells :: "cas_codec list \<Rightarrow> cas \<Rightarrow> snap_obj set \<Rightarrow> bool" where
  "tells table s A \<longleftrightarrow> (\<forall>ob \<in> A. \<forall>h. obj_name ob = Some h \<longrightarrow> (\<forall>y. get_object table s h = Some y \<longrightarrow> obj_is ob y) \<and>
     (\<forall>ob' \<in> A. obj_name ob' = Some h \<longrightarrow> ob' = ob))"

text \<open>The store grows by objects of the set, under names that were free.\<close>

definition grown :: "cas_codec list \<Rightarrow> snap_obj set \<Rightarrow> cas \<Rightarrow> cas \<Rightarrow> bool" where
  "grown table A s s' \<longleftrightarrow> store_inv table s' \<and> (\<forall>k. get_object table s' k = get_object table s k \<or>
     get_object table s k = None \<and> (\<exists>ob \<in> A. obj_name ob = Some k \<and> (\<exists>y. get_object table s' k = Some y \<and> obj_is ob y)))"

lemma grown_refl: "store_inv table s \<Longrightarrow> grown table A s s"
  by (simp add: grown_def)

lemma grown_same: "store_inv table s \<Longrightarrow> same_disk s s' \<Longrightarrow> grown table A s s'"
  using same_disk_inv [of s s' table] by (simp add: grown_def)

lemma grown_mono: "grown table A s s' \<Longrightarrow> A \<subseteq> B \<Longrightarrow> grown table B s s'"
  unfolding grown_def by (meson subsetD)

lemma grown_trans: "grown table A a b \<Longrightarrow> grown table A b c \<Longrightarrow> grown table A a c"
  unfolding grown_def by (metis (no_types, lifting))

lemma grown_extends: "grown table A s s' \<Longrightarrow> extends_store table s s'"
  unfolding grown_def extends_store_def by (metis option.distinct(1))

lemma grown_inv: "grown table A s s' \<Longrightarrow> store_inv table s'"
  by (simp add: grown_def)

lemma tells_grown:
  assumes "tells table s A" "grown table A s s'"
  shows "tells table s' A"
  unfolding tells_def
proof (intro ballI allI impI conjI)
  fix ob h
  assume ob: "ob \<in> A" "obj_name ob = Some h"
  then have t: "get_object table s h = Some y \<Longrightarrow> obj_is ob y" "ob' \<in> A \<Longrightarrow> obj_name ob' = Some h \<Longrightarrow> ob' = ob" for y ob'
    using assms(1) unfolding tells_def by blast+
  show "ob' = ob" if "ob' \<in> A" "obj_name ob' = Some h" for ob' using t(2) that .
  fix y
  assume y: "get_object table s' h = Some y"
  from assms(2) have "get_object table s' h = get_object table s h \<or>
      (\<exists>ob' \<in> A. obj_name ob' = Some h \<and> (\<exists>y. get_object table s' h = Some y \<and> obj_is ob' y))" unfolding grown_def by blast
  then show "obj_is ob y"
  proof
    assume "get_object table s' h = get_object table s h"
    with y t(1) show ?thesis by metis
  next
    assume "\<exists>ob' \<in> A. obj_name ob' = Some h \<and> (\<exists>y. get_object table s' h = Some y \<and> obj_is ob' y)"
    with y t(2) show ?thesis by (metis option.inject)
  qed
qed

section \<open>Storing one object\<close>

lemma precompressed_fault: "cas_put_precompressed s t c p n h = (None, s') \<Longrightarrow> s' = s"
  by (auto simp: cas_put_precompressed_def split: if_splits option.splits bool.splits prod.splits)

text \<open>Whatever becomes of a put with compression: nothing is stored, or a region that stands for the data.\<close>

lemma put_object_z_any:
  assumes run: "cas_put_object_z table cfg s t codec d = (r, s')"
    and cod: "codec_ok table" and st: "storable t d"
    and infl: "z_fits table codec d"
  obtains (same) "same_disk s s'" "\<And>h. r = Some (Inr h) \<Longrightarrow> cas_hash_object t d = Some h \<and> cas_exists s h = Some True"
  | (stored) s1 h rc framed region where "cas_hash_object t d = Some h" "same_disk s s1"
      "stored_as s1 s' h (loose_bytes framed region t (length d)) rc" "rc = CAS_OK \<longrightarrow> valid_hash h"
      "cas_codec_region_decode table True region framed (length d) = Inr d" "length region + CAS_PACK_BLOCK \<le> MAX_FILE"
      "\<And>h'. r = Some (Inr h') \<Longrightarrow> h' = h \<and> rc = CAS_OK"
proof (cases "cas_hash_object t d")
  case None
  then have "s' = s" "r = Some (Inl CAS_ERR)" using run by (auto simp: cas_put_object_z_def)
  then show thesis by (intro same) simp_all
next
  case (Some h)
  note fit = storable_fit [OF st]
  show thesis
  proof (cases "cas_exists s h")
    case None
    with Some run have "s' = s" "r = None" by (auto simp: cas_put_object_z_def)
    then show thesis by (intro same) simp_all
  next
    case ex: (Some b)
    show thesis
    proof (cases b)
      case True
      with Some ex run have "s' = s" "r = Some (Inr h)" by (auto simp: cas_put_object_z_def)
      with Some ex True show thesis by (intro same) simp_all
    next
      case False
      obtain pl s1 where tc: "try_compress table cfg s codec d = (pl, s1)" by fastforce
      have sd: "same_disk s s1" using try_compress_same [OF tc] .
      show thesis
      proof (cases pl)
        case None
        obtain ro s2 where p: "cas_put_object_at s1 t d h = (ro, s2)" by fastforce
        with run Some ex False tc None have r: "s' = s2" "r = map_option (\<lambda>rc. if rc = CAS_OK then Inr h else Inl rc) ro"
          by (auto simp: cas_put_object_z_def split: option.splits)
        show thesis
        proof (cases ro)
          case None
          then have "s' = s1" "r = None" using put_object_at_fault p r by auto
          with sd show thesis by (intro same) simp_all
        next
          case rc: (Some rc)
          have "rc = CAS_OK \<longrightarrow> valid_hash h" using rc p put_at_valid by blast
          from stored [OF Some sd put_object_at_spec [OF p [unfolded rc], folded r(1)] this raw_region_decode] fit r(2) rc
          show thesis by (auto split: if_splits)
        qed
      next
        case (Some payload)
        note c = try_compressD [OF tc [unfolded Some]]
        obtain ro s2 where p: "cas_put_precompressed s1 t codec payload (length d) h = (ro, s2)" by fastforce
        with run \<open>cas_hash_object t d = Some h\<close> ex False tc Some
        have r: "s' = s2" "r = map_option (\<lambda>rc. if rc = CAS_OK then Inr h else Inl rc) ro"
          by (auto simp: cas_put_object_z_def split: option.splits)
        show thesis
        proof (cases "ro = None \<or> \<not> (0 \<le> codec \<and> codec \<le> 255)")
          case True
          have "s2 = s1 \<and> ro \<noteq> Some CAS_OK"
          proof (cases ro)
            case None
            then show ?thesis using precompressed_fault p by blast
          next
            case (Some rc)
            then show ?thesis using True p by (auto simp: cas_put_precompressed_def split: if_splits)
          qed
          then have nr: "\<And>h'. r \<noteq> Some (Inr h')" and "same_disk s s'" using r sd by (cases ro; auto split: if_splits)+
          then show thesis by (intro same) (simp_all add: nr)
        next
          case False
          then obtain rc where rc: "ro = Some rc" "0 \<le> codec" "codec \<le> 255" by auto
          have "inflatable payload (length d)" using infl c by (simp add: z_fits_def)
          then have dec: "cas_codec_region_decode table True (word_of_int codec # payload) True (length d) = Inr d"
            using compressed_region_decode [OF cod] c rc by blast
          have v: "rc = CAS_OK \<longrightarrow> valid_hash h" using rc(1) p put_precompressed_valid by blast
          have fl: "length (word_of_int codec # payload :: byte list) + CAS_PACK_BLOCK \<le> MAX_FILE" using fit c by simp
          from stored [OF \<open>cas_hash_object t d = Some h\<close> sd put_precompressed_spec [OF p [unfolded rc(1)], folded r(1)] v dec fl]
            r(2) rc(1) show thesis by (auto split: if_splits)
        qed
      qed
    qed
  qed
qed

text \<open>What \<open>stored_as\<close> does to the objects.\<close>

lemma stored_as_grows:
  assumes "codec_ok table" "store_inv table s" "rc = CAS_OK \<longrightarrow> valid_hash h"
    and "stored_as s s' h (loose_bytes framed region t n) rc" "type_ok t" "n \<le> 2 ^ 30" "length region + CAS_PACK_BLOCK \<le> MAX_FILE"
    and "cas_codec_region_decode table True region framed n = Inr d" "t = ''htree'' \<or> cas_hash_object t d = Some h"
  shows "store_inv table s'" "get_object table s' k = get_object table s k \<or>
    k = h \<and> get_object table s k = None \<and> get_object table s' k = Some (t, d)"
    "rc = CAS_OK \<Longrightarrow> get_object table s' h \<noteq> None"
proof -
  show "store_inv table s'" by (rule stored_as_inv [OF assms(1-9)])
  have new: "get_object table s' h = (case get_object table s h of None \<Rightarrow> Some (t, d) | Some x \<Rightarrow> Some x)" if "rc = CAS_OK"
    using stored_as_same [OF assms(1,2) _ assms(4) [unfolded that] assms(5-7)] assms(3,8) that by (simp split: option.splits)
  then show "rc = CAS_OK \<Longrightarrow> get_object table s' h \<noteq> None" by (auto split: option.splits)
  show "get_object table s' k = get_object table s k \<or> k = h \<and> get_object table s k = None \<and> get_object table s' k = Some (t, d)"
  proof (cases "k = h \<and> rc = CAS_OK")
    case True
    with new show ?thesis by (auto split: option.splits)
  next
    case False
    with stored_as_get [OF assms(4,3)] show ?thesis by auto
  qed
qed

lemma put_z_step:
  assumes "codec_ok table" "store_inv table s" "storable t d" "t \<noteq> ''htree''"
    and "z_fits table codec d"
    and run: "cas_put_object_z table cfg s t codec d = (r, s')"
  shows "grows_by table (t, d) s s' \<and> (\<forall>h. r = Some (Inr h) \<longrightarrow> cas_hash_object t d = Some h \<and> get_object table s' h \<noteq> None)"
proof (cases rule: put_object_z_any [OF run assms(1,3,5)])
  case 1
  note same = 1
  have g: "grows_by table (t, d) s s'" using same_disk_inv [OF same(1)] assms(2) by (simp add: grows_by_def)
  have "get_object table s' h \<noteq> None" if "r = Some (Inr h)" for h
    using same(2) [OF that] assms(2) same_disk_inv [OF same(1), of table] by (fastforce simp: store_inv_def)
  with g same(2) show ?thesis by blast
next
  case (2 s1 h rc framed region)
  note stored = 2
  have i: "store_inv table s1" "get_object table s1 = get_object table s" using same_disk_inv [OF stored(2)] assms(2) by simp_all
  note fit = storable_fit [OF assms(3)]
  note sg = stored_as_grows [OF assms(1) i(1) stored(4,3) _ _ stored(6,5)]
  have "grows_by table (t, d) s s'"
    unfolding grows_by_def using sg(1,2) fit stored(1) i(2) by (metis fst_conv snd_conv)
  moreover have "rc = CAS_OK \<Longrightarrow> get_object table s' h \<noteq> None" using sg(3) fit stored(1) by simp
  ultimately show ?thesis using stored(1,7) by blast
qed

lemma snap_blob_grown:
  assumes "codec_ok table" "store_inv table s" "storable ''blob'' d"
    and "z_fits table codec d"
    and "cas_put_object_z table cfg s ''blob'' codec d = (r, s')"
  shows "grown table {Snap_blob d} s s'" "r = Some (Inr h) \<Longrightarrow> get_object table s' h \<noteq> None"
proof -
  note st = put_z_step [OF assms(1-3) _ assms(4,5)]
  then show "r = Some (Inr h) \<Longrightarrow> get_object table s' h \<noteq> None" by simp
  have "grows_by table (''blob'', d) s s'" using st by simp
  then show "grown table {Snap_blob d} s s'" unfolding grows_by_def grown_def by auto
qed

section \<open>Storing a directory\<close>

lemma hash_object_canon: "cas_hash_object t d = Some h \<Longrightarrow> hash_canon h"
proof -
  assume "cas_hash_object t d = Some h"
  then obtain b where "h = cas_hex_encode (cas_digest b)" "length (cas_digest b) = CAS_HASH_LEN"
    by (auto simp: hash_object_eq cas_hash_digest cas_hex_encode_def split: option.splits)
  with encode_canon show ?thesis by simp
qed

lemma tree_store_any:
  assumes "cas_tree_store mem1 mem2 junk ct dir = (r, ct', dir')"
  defines "es \<equiv> sorted_entries (d_entries dir)"
  obtains (same) "ct' = ct" "\<And>h. r = Some (Inr h) \<Longrightarrow> cas_exists (ct_store ct) h = Some True"
  | (textual) "names_sorted es" "cas_put_object (ct_store ct) ''tree'' (dir_text es) = (r, ct_store ct')" "ct_flags ct' = ct_flags ct"
  | (binary) bin h rc where "names_sorted es" "cas_hash_object ''tree'' (dir_text es) = Some h" "htree_build True junk es = Some (Some bin)"
      "cas_put_object_at (ct_store ct) ''htree'' bin h = (rc, ct_store ct')" "ct_flags ct' = ct_flags ct"
      "\<And>h'. r = Some (Inr h') \<Longrightarrow> h' = h \<and> rc = Some CAS_OK"
proof -
  have e: "(if length (d_entries dir) > 1 then sort_entries (d_entries dir) else d_entries dir) = es"
    by (simp add: es_def sorted_entries_def)
  note run = assms(1) [unfolded cas_tree_store_def e Let_def, simplified]
  show thesis
  proof (cases "has_dup es \<or> \<not> mem1")
    case True
    then have "ct' = ct" and nr: "\<And>h. r \<noteq> Some (Inr h)" using run by (auto simp: tree_serialize_def Let_def split: if_splits)
    then show thesis by (intro same) (simp_all add: nr)
  next
    case False
    then have srt: "names_sorted es" unfolding es_def using sorted_entries_names by blast
    have tx: "tree_serialize mem1 es = Some (CHR ''%'' # concat (map entry_line es))" using False by (simp add: tree_serialize_text)
    have dt: "byte_of_char CHR ''%'' # bytes_of (concat (map entry_line es)) = dir_text es" by (simp add: dir_text_def)
    have nd: "\<not> has_dup es" using False by simp
    note run = run [unfolded if_not_P [OF nd]]
    show thesis
    proof (cases "ct_flags ct AND CAS_TREE_USE_HTREE = 0")
      case True
      then have "cas_put_object (ct_store ct) ''tree'' (dir_text es) = (r, ct_store ct')" "ct_flags ct' = ct_flags ct"
        using run by (auto simp: tx dt split: prod.splits)
      with srt show thesis by (rule textual)
    next
      case flag: False
      show thesis
      proof (cases "cas_hash_object ''tree'' (dir_text es)")
        case None
        then have "ct' = ct" and nr: "\<And>h. r \<noteq> Some (Inr h)" using run flag by (auto simp: tx dt)
        then show thesis by (intro same) (simp_all add: nr)
      next
        case h: (Some h)
        show thesis
        proof (cases "cas_exists (ct_store ct) h = Some False \<and> (\<exists>bin. htree_build mem2 junk es = Some (Some bin))")
          case no: False
          then have "ct' = ct" "\<And>h'. r = Some (Inr h') \<Longrightarrow> h' = h \<and> cas_exists (ct_store ct) h = Some True"
            using run flag h by (auto simp: tx dt split: option.splits bool.splits)
          then show thesis by (intro same) auto
        next
          case True
          then obtain bin where b: "htree_build mem2 junk es = Some (Some bin)" "cas_exists (ct_store ct) h = Some False" by blast
          have b1: "htree_build True junk es = Some (Some bin)" using b(1) by (cases mem2) (auto simp: htree_build_def)
          obtain rc s where p: "cas_put_object_at (ct_store ct) ''htree'' bin h = (rc, s)" by fastforce
          have c: "ct' = ct\<lparr>ct_store := s\<rparr>" and rr: "r = map_option (\<lambda>rc. if rc = CAS_OK then Inr h else Inl rc) rc"
            using run flag h b p by (auto simp: tx dt split: option.splits)
          have ok: "r = Some (Inr h') \<Longrightarrow> h' = h \<and> rc = Some CAS_OK" for h' using rr by (cases rc) (auto split: if_splits)
          show thesis by (rule binary [OF srt h b1 _ _ ok]) (simp_all add: p c)
        qed
      qed
    qed
  qed
qed

lemma tree_store_grown:
  assumes cod: "codec_ok table" and inv: "store_inv table (ct_store ct)"
    and c: "list_all entry_canon (d_entries dir)" and fit: "dir_fits (sorted_entries (d_entries dir))"
    and run: "cas_tree_store mem1 mem2 junk ct dir = (r, ct', dir')"
  shows "grown table {Snap_dir (sorted_entries (d_entries dir))} (ct_store ct) (ct_store ct')"
    "r = Some (Inr h) \<Longrightarrow> get_object table (ct_store ct') h \<noteq> None"
proof -
  let ?es = "sorted_entries (d_entries dir)" and ?s = "ct_store ct" and ?s' = "ct_store ct'"
  have ce: "list_all entry_canon ?es" using c by (simp add: list_all_iff)
  have "grown table {Snap_dir ?es} ?s ?s' \<and> (r = Some (Inr h) \<longrightarrow> get_object table ?s' h \<noteq> None)"
  proof (cases rule: tree_store_any [OF run])
    case 1
    then show ?thesis using inv grown_refl by (fastforce simp: store_inv_def)
  next
    case 2
    note st = put_object_step [OF cod inv storable_dir(1) [OF fit] 2(2)]
    have "list_all entry_ok ?es" using ce entry_canon_ok by (auto simp: list_all_iff)
    then have "dir_object ''tree'' (dir_text ?es) ?es" using 2(1) by (simp add: dir_object_def)
    then have "grown table {Snap_dir ?es} ?s ?s'" using st(1) unfolding grows_by_def grown_def by fastforce
    with st(2) show ?thesis by blast
  next
    case (3 bin h' rc)
    have dob: "dir_object ''htree'' bin ?es" using 3(1,3) ce dir_fits_size [OF fit] by (auto simp: dir_object_def)
    have sto: "storable ''htree'' bin" using storable_dir(2) [OF fit] htree_build_length [OF ce 3(3)] by simp
    have "grown table {Snap_dir ?es} ?s ?s' \<and> (rc = Some CAS_OK \<longrightarrow> get_object table ?s' h' \<noteq> None)"
    proof (cases rc)
      case None
      then show ?thesis using put_object_at_fault 3(4) inv grown_refl by fastforce
    next
      case (Some rc')
      note p = 3(4) [unfolded Some] and f = storable_fit [OF sto]
      have v: "rc' = CAS_OK \<longrightarrow> valid_hash h'" using put_at_valid p by blast
      note sg = stored_as_grows [OF cod inv v put_object_at_spec [OF p] _ _ _ raw_region_decode]
      have "grown table {Snap_dir ?es} ?s ?s'"
        unfolding grown_def using sg(1,2) f 3(2) dob by (metis fst_conv insertI1 obj_is.simps(2) obj_name.simps(2) snd_conv)
      moreover have "rc' = CAS_OK \<Longrightarrow> get_object table ?s' h' \<noteq> None" using sg(3) f by simp
      ultimately show ?thesis using Some by simp
    qed
    with 3(6) show ?thesis by auto
  qed
  then show "grown table {Snap_dir ?es} ?s ?s'" "r = Some (Inr h) \<Longrightarrow> get_object table ?s' h \<noteq> None" by simp_all
qed

section \<open>A stored tree\<close>

text \<open>The directory \<open>p\<close> of a filesystem with all that is below it, as it is found in a store.\<close>

inductive stored_tree :: "cas_codec list \<Rightarrow> cas \<Rightarrow> vfs \<Rightarrow> string \<Rightarrow> bool" for table s fs where
  "get_object table s h = Some (t, d) \<Longrightarrow> cas_hash_object ''tree'' (dir_text (snap_listing fs p)) = Some h \<Longrightarrow>
   dir_object t d (snap_listing fs p) \<Longrightarrow>
   (\<And>n. n \<in> set (kids fs p) \<Longrightarrow> entry_canon (node_entry fs n) \<and>
      (n_type n = VFS_FILE \<longrightarrow> get_object table s (node_name fs n) = Some (''blob'', n_data n)) \<and>
      (n_type n = VFS_DIR \<longrightarrow> stored_tree table s fs (n_path n))) \<Longrightarrow>
   stored_tree table s fs p"

inductive_cases stored_treeE: "stored_tree table s fs p"

lemma stored_tree_extends:
  assumes "stored_tree table s fs p" "extends_store table s s'"
  shows "stored_tree table s' fs p"
  using assms(1)
proof (induction rule: stored_tree.induct)
  case (1 h t d p)
  have "get_object table s' h = Some (t, d)" using 1(1) assms(2) by (simp add: extends_store_def)
  from stored_tree.intros [OF this 1(2,3)] 1(4) assms(2) show ?case unfolding extends_store_def by blast
qed

definition node_stored :: "cas_codec list \<Rightarrow> vfs \<Rightarrow> cas \<Rightarrow> vfs_node \<Rightarrow> bool" where
  "node_stored table fs s n \<longleftrightarrow> (n_type n = VFS_FILE \<longrightarrow> get_object table s (node_name fs n) = Some (''blob'', n_data n)) \<and>
      (n_type n = VFS_DIR \<longrightarrow> stored_tree table s fs (n_path n))"

lemma node_stored_extends: "node_stored table fs s n \<Longrightarrow> extends_store table s s' \<Longrightarrow> node_stored table fs s' n"
  using stored_tree_extends unfolding node_stored_def extends_store_def by blast

text \<open>The loop over the children.\<close>

lemma snap_children_grown:
  assumes run: "snap_children put ct dir (map child_of ns) = (r, ct', dir')" and inv: "store_inv table (ct_store ct)"
    and step: "\<And>n c r c'. n \<in> set ns \<Longrightarrow> store_inv table (ct_store c) \<Longrightarrow> put c (child_of n) = (r, c') \<Longrightarrow>
      grown table A (ct_store c) (ct_store c') \<and> (\<forall>h. r = Some (Inr h) \<longrightarrow> h = node_name fs n \<and> hash_canon h \<and>
        (tells table (ct_store c) A \<longrightarrow> node_stored table fs (ct_store c') n))"
    and ok: "\<And>n c c'. put c (child_of n) \<noteq> (Some (Inl CAS_OK), c')"
    and nul: "\<And>n. n \<in> set ns \<Longrightarrow> CHR 0x00 \<notin> set (e_name (node_entry fs n))"
  shows "grown table A (ct_store ct) (ct_store ct') \<and> (r = Some CAS_OK \<longrightarrow> d_entries dir' = d_entries dir @ map (node_entry fs) ns \<and>
    list_all (\<lambda>n. entry_canon (node_entry fs n)) ns \<and> (tells table (ct_store ct) A \<longrightarrow> (\<forall>n \<in> set ns. node_stored table fs (ct_store ct') n)))"
  using assms
proof (induction ns arbitrary: ct dir)
  case Nil
  then show ?case by (simp add: grown_refl)
next
  case (Cons n ns)
  note prems = Cons.prems
  obtain r1 ct1 where p: "put ct (child_of n) = (r1, ct1)" by fastforce
  have st: "grown table A (ct_store ct) (ct_store ct1)" "\<And>h. r1 = Some (Inr h) \<Longrightarrow> h = node_name fs n"
    "\<And>h. r1 = Some (Inr h) \<Longrightarrow> hash_canon h" "\<And>h. r1 = Some (Inr h) \<Longrightarrow> tells table (ct_store ct) A \<Longrightarrow> node_stored table fs (ct_store ct1) n"
    using prems(3) [OF _ prems(2) p] by simp_all
  note g1 = st(1)
  consider (stop) "ct' = ct" "r = Some CAS_ERR" | (failed) "ct' = ct1" "r \<noteq> Some CAS_OK"
    | (goes) h dir1 where "r1 = Some (Inr h)" "cas_tree_dir_add dir (snap_entry (child_of n) h) = (CAS_OK, dir1)"
      "snap_children put ct1 dir1 (map child_of ns) = (r, ct', dir')"
    using prems(1) p prems(4) [of ct n ct1] by (auto simp: Let_def split: if_splits option.splits sum.splits prod.splits)
  then show ?case
  proof cases
    case stop
    with prems(2) show ?thesis by (simp add: grown_refl)
  next
    case failed
    with g1 show ?thesis by simp
  next
    case goes
    have h: "h = node_name fs n" "hash_canon h" "tells table (ct_store ct) A \<Longrightarrow> node_stored table fs (ct_store ct1) n"
      using st(2-4) [OF goes(1)] by blast+
    have e: "snap_entry (child_of n) h = node_entry fs n" using h(1) by (simp add: node_entry_def)
    have nul: "CHR 0x00 \<notin> set (e_name (node_entry fs n))" using prems(5) by simp
    note a = dir_add_name [OF goes(2) [unfolded e] nul]
    have "e_hash (node_entry fs n) = h" using h(1) by (simp add: node_entry_def snap_entry_def)
    then have ec: "entry_canon (node_entry fs n)" using a h(2) by (simp add: entry_canon_def)
    have nul': "CHR 0x00 \<notin> set (e_name (node_entry fs m))" if "m \<in> set ns" for m using prems(5) that by simp
    have IH: "grown table A (ct_store ct1) (ct_store ct') \<and> (r = Some CAS_OK \<longrightarrow> d_entries dir' = d_entries dir1 @ map (node_entry fs) ns \<and>
      list_all (\<lambda>n. entry_canon (node_entry fs n)) ns \<and> (tells table (ct_store ct1) A \<longrightarrow> (\<forall>n \<in> set ns. node_stored table fs (ct_store ct') n)))"
    proof (rule Cons.IH [OF goes(3) grown_inv [OF g1]])
      show "put c (child_of m) \<noteq> (Some (Inl CAS_OK), c')" for m c c' by (rule prems(4))
    qed (rule prems(3), simp_all add: nul')
    then have g2: "grown table A (ct_store ct1) (ct_store ct')" by blast
    have q: "node_stored table fs (ct_store ct') n" if "tells table (ct_store ct) A"
      using node_stored_extends [OF h(3) [OF that] grown_extends [OF g2]] .
    have t: "tells table (ct_store ct1) A" if "tells table (ct_store ct) A" using tells_grown [OF that g1] .
    have d: "d_entries dir1 = d_entries dir @ [node_entry fs n]" using a by simp
    have "\<forall>m \<in> set (n # ns). node_stored table fs (ct_store ct') m" if ok: "r = Some CAS_OK" and tl: "tells table (ct_store ct) A"
    proof -
      have "\<forall>m \<in> set ns. node_stored table fs (ct_store ct') m" using IH ok t [OF tl] by blast
      with q [OF tl] show ?thesis by simp
    qed
    moreover have "d_entries dir' = d_entries dir @ map (node_entry fs) (n # ns) \<and> list_all (\<lambda>n. entry_canon (node_entry fs n)) (n # ns)"
      if ok: "r = Some CAS_OK"
    proof -
      have "d_entries dir' = d_entries dir1 @ map (node_entry fs) ns" "list_all (\<lambda>n. entry_canon (node_entry fs n)) ns"
        using IH ok by blast+
      with d ec show ?thesis by simp
    qed
    ultimately show ?thesis using grown_trans [OF g1 g2] by blast
  qed
qed

section \<open>Storing a tree\<close>

lemma basename_join: "slash \<notin> set c \<Longrightarrow> basename_of (join_path (ds @ [c])) = c"
proof -
  assume "slash \<notin> set c"
  then have "takeWhile (\<lambda>x. x \<noteq> slash) (rev c @ slash # r) = rev c" for r by (subst takeWhile_append2) auto
  moreover have "\<exists>r. join_path (ds @ [c]) = r @ slash # c" by (cases "ds = []") (auto simp: join_path_def)
  ultimately show ?thesis unfolding basename_of_def by (metis rev.simps(2) rev_append append.assoc append_Cons append_Nil rev_rev_ident)
qed

lemma node_entry_name:
  assumes "n_path n = join_path (ds @ [c])" "comp_normal c" "length (n_path n) < VFS_PATH_MAX"
  shows "e_name (node_entry fs n) = c"
  using assms basename_join [of c ds] snap_text_short [OF assms(3)]
  by (simp add: node_entry_def snap_entry_def child_of_def comp_normal_def)

lemma comp_legal_nul: "comp_legal c \<Longrightarrow> CHR 0x00 \<notin> set c"
  by (fastforce simp: comp_legal_def list_all_iff ascii_def)

lemma snap_dir_grown:
  assumes "codec_ok table" "vfs_inv fs" "snap_fits table policy codec fs"
    and "list_all comp_normal ds" "store_inv table (ct_store ct)"
    and "snap_dir k table cfg policy codec env fs cred ct (join_path ds) = (r, ct')"
  shows "grown table (snap_objs fs) (ct_store ct) (ct_store ct') \<and>
    (\<forall>h. r = Some (Inr h) \<longrightarrow> tells table (ct_store ct) (snap_objs fs) \<longrightarrow> stored_tree table (ct_store ct') fs (join_path ds))"
  using assms(4-6)
proof (induction k arbitrary: ds ct r ct')
  case 0
  then show ?case by (simp add: grown_refl)
next
  case (Suc k)
  let ?p = "join_path ds" and ?A = "snap_objs fs"
  let ?put = "\<lambda>ct c. if c_type c = VFS_FILE then snap_file table cfg policy codec fs cred ct (c_path c)
                     else snap_dir k table cfg policy codec env fs cred ct (c_path c)"
  have pf: "paths_fit fs" using assms(3) by (simp add: snap_fits_def)
  obtain lrc ctx where li: "vfs_list fs cred ?p collect_child (new_ctx (sv_children (env ?p))) = (lrc, ctx)" by fastforce
  show ?case
  proof (cases "lrc = 0")
    case False
    then show ?thesis using Suc.prems li by (auto simp: grown_refl Let_def)
  next
    case True
    obtain q where q: "vfs_normalize VFS_PATH_MAX ?p = Inr q" "dir_at (fs_lookup fs) q" "sc_children ctx = map child_of (kids fs q)"
      using vfs_list_children [OF li True] by metis
    then have "q = ?p" using vfs_normalize_join [OF Suc.prems(1)] normalize_short by (metis sum.inject(2))
    then have ch: "sc_children ctx = map child_of (kids fs ?p)" and da: "dir_at (fs_lookup fs) ?p" using q(2,3) by (simp_all only:)
    let ?dir0 = "cas_tree_dir_init (new_dir (sv_entries (env ?p)))"
    obtain rc ct1 dir where sc: "snap_children ?put ct ?dir0 (map child_of (kids fs ?p)) = (rc, ct1, dir)" by (rule prod_cases3)
    have each: "grown table ?A (ct_store c) (ct_store c') \<and> (\<forall>h. r = Some (Inr h) \<longrightarrow> h = node_name fs n \<and> hash_canon h \<and>
        (tells table (ct_store c) ?A \<longrightarrow> node_stored table fs (ct_store c') n))"
      if n: "n \<in> set (kids fs ?p)" and inv: "store_inv table (ct_store c)" and put: "?put c (child_of n) = (r, c')" for n c r c'
    proof -
      obtain x where x: "n_path n = join_path (ds @ [x])" "list_all comp_normal (ds @ [x])" "fs_lookup fs (n_path n) = Some n"
        using kid_path [OF assms(2) n Suc.prems(1)] by metis
      have len: "length (n_path n) < VFS_PATH_MAX" using x(3) pf by (auto simp: paths_fit_def)
      then have t: "snap_text (n_path n) = n_path n" and nm: "vfs_normalize VFS_PATH_MAX (n_path n) = Inr (n_path n)"
        using snap_text_short vfs_normalize_join [OF x(2)] x(1) by simp_all
      show ?thesis
      proof (cases "n_type n = VFS_FILE")
        case True
        have fit: "storable ''blob'' (n_data n)" "z_fits table (cas_codec_policy policy codec (n_data n)) (n_data n)"
          using assms(3) x(3) True by (auto simp: snap_fits_def)
        have run: "snap_file table cfg policy codec fs cred c (n_path n) = (r, c')" using put t True by (simp add: child_of_def)
        show ?thesis
        proof (cases "vfs_read fs cred (n_path n)")
          case (Inl e)
          then show ?thesis using run inv by (auto simp: snap_file_def grown_refl)
        next
          case (Inr dl)
          obtain d ln where dl: "dl = (d, ln)" by fastforce
          have tk: "take (unat ln) d = n_data n" using node_bytes_read [OF assms(2) _ nm x(3)] Inr dl by simp
          obtain s where pz: "cas_put_object_z table cfg (ct_store c) ''blob'' (cas_codec_policy policy codec (n_data n)) (n_data n) = (r, s)"
            and c': "c' = c\<lparr>ct_store := s\<rparr>" using run Inr dl tk by (auto simp: snap_file_def Let_def split: prod.splits)
          note bg = snap_blob_grown [OF assms(1) inv fit pz]
          have ob: "Snap_blob (n_data n) \<in> ?A" using x(3) True by (auto simp: snap_objs_def)
          have g: "grown table ?A (ct_store c) s" using grown_mono [OF bg(1)] ob by simp
          have "h = node_name fs n \<and> hash_canon h \<and> (tells table (ct_store c) ?A \<longrightarrow> node_stored table fs s n)" if h: "r = Some (Inr h)" for h
          proof -
            have hs: "cas_hash_object ''blob'' (n_data n) = Some h" using put_object_z_name pz h by blast
            have nn: "h = node_name fs n" using hs True by (simp add: node_name_def snap_name_def)
            have "get_object table s h = Some (''blob'', n_data n)" if tl: "tells table (ct_store c) ?A"
              using bg(2) [OF h] tells_grown [OF tl g] ob hs unfolding tells_def by (metis not_None_eq obj_is.simps(1) obj_name.simps(1))
            with nn hs hash_object_canon True show ?thesis by (simp add: node_stored_def)
          qed
          with g c' show ?thesis by simp
        qed
      next
        case False
        then have sd: "snap_dir k table cfg policy codec env fs cred c (join_path (ds @ [x])) = (r, c')"
          using put t x(1) by (simp add: child_of_def)
        note IH = Suc.IH [OF x(2) inv sd]
        have "h = node_name fs n \<and> hash_canon h \<and> (tells table (ct_store c) ?A \<longrightarrow> node_stored table fs (ct_store c') n)" if h: "r = Some (Inr h)" for h
        proof -
          have hs: "cas_hash_object ''tree'' (dir_text (snap_listing fs (n_path n))) = Some h"
            using snap_dir_name [OF assms(2) pf x(2)] sd h x(1) by metis
          then show ?thesis using IH h hash_object_canon False x(1) by (simp add: node_name_def snap_name_def node_stored_def)
        qed
        with IH show ?thesis by blast
      qed
    qed
    have ok: "?put c (child_of n) \<noteq> (Some (Inl CAS_OK), c')" for n c c' using snap_file_fails snap_dir_fails by simp
    have nul: "CHR 0x00 \<notin> set (e_name (node_entry fs n))" if n: "n \<in> set (kids fs ?p)" for n
    proof -
      obtain x where x: "n_path n = join_path (ds @ [x])" "list_all comp_normal (ds @ [x])" "comp_legal x" "fs_lookup fs (n_path n) = Some n"
        using kid_path [OF assms(2) n Suc.prems(1)] by metis
      have "length (n_path n) < VFS_PATH_MAX" using x(4) pf by (auto simp: paths_fit_def)
      with node_entry_name [OF x(1)] x(2,3) comp_legal_nul show ?thesis by simp
    qed
    have loop: "grown table ?A (ct_store ct) (ct_store ct1) \<and> (rc = Some CAS_OK \<longrightarrow>
        d_entries dir = d_entries ?dir0 @ map (node_entry fs) (kids fs ?p) \<and> list_all (\<lambda>n. entry_canon (node_entry fs n)) (kids fs ?p) \<and>
        (tells table (ct_store ct) ?A \<longrightarrow> (\<forall>n \<in> set (kids fs ?p). node_stored table fs (ct_store ct1) n)))"
    proof (rule snap_children_grown [OF sc Suc.prems(2)])
      show "?put c (child_of n) \<noteq> (Some (Inl CAS_OK), c')" for n c c' by (rule ok)
    qed (rule each, assumption+, rule nul)
    have g1: "grown table ?A (ct_store ct) (ct_store ct1)" using loop by blast
    show ?thesis
    proof (cases "rc = Some CAS_OK")
      case False
      then have "ct' = ct1" "r \<noteq> Some (Inr h)" for h
        using Suc.prems(3) li True ch sc by (auto simp: Let_def split: option.splits)
      with g1 show ?thesis by blast
    next
      case rok: True
      have de: "d_entries dir = map (node_entry fs) (kids fs ?p)" and ec: "list_all (\<lambda>n. entry_canon (node_entry fs n)) (kids fs ?p)"
        using loop rok by (auto simp: cas_tree_dir_init_def)
      have srt: "sorted_entries (d_entries dir) = snap_listing fs ?p" using de by (simp add: snap_listing_eq)
      obtain dir2 where st: "cas_tree_store (sv_text (env ?p)) (sv_bin (env ?p)) (sv_junk (env ?p)) ct1 dir = (r, ct', dir2)"
        using Suc.prems(3) li True ch sc rok by (auto simp: Let_def split: prod.splits)
      have ce: "list_all entry_canon (d_entries dir)" using de ec by (simp add: list_all_iff)
      have df: "dir_fits (sorted_entries (d_entries dir))" using assms(3) da srt by (simp add: snap_fits_def)
      note tg = tree_store_grown [OF assms(1) grown_inv [OF g1] ce df st, unfolded srt]
      have ob: "Snap_dir (snap_listing fs ?p) \<in> ?A" using da by (auto simp: snap_objs_def)
      have g2: "grown table ?A (ct_store ct1) (ct_store ct')" using grown_mono [OF tg(1)] ob by simp
      have "stored_tree table (ct_store ct') fs ?p" if h: "r = Some (Inr h)" and tl: "tells table (ct_store ct) ?A" for h
      proof -
        have hs: "cas_hash_object ''tree'' (dir_text (snap_listing fs ?p)) = Some h" using tree_store_name st srt h by metis
        obtain y where y: "get_object table (ct_store ct') h = Some y" using tg(2) [OF h] by blast
        have "tells table (ct_store ct') ?A" using tells_grown [OF tells_grown [OF tl g1] g2] .
        then have "obj_is (Snap_dir (snap_listing fs ?p)) y" using ob hs y unfolding tells_def by (metis obj_name.simps(2))
        then have dob: "dir_object (fst y) (snd y) (snap_listing fs ?p)" by simp
        have "\<forall>n \<in> set (kids fs ?p). node_stored table fs (ct_store ct1) n" using loop rok tl by blast
        then have "node_stored table fs (ct_store ct') n" if "n \<in> set (kids fs ?p)" for n
          using that node_stored_extends [OF _ grown_extends [OF g2]] by blast
        moreover have "entry_canon (node_entry fs n)" if "n \<in> set (kids fs ?p)" for n using ec that by (simp add: list_all_iff)
        ultimately show ?thesis using y hs dob by (intro stored_tree.intros [of table _ h "fst y" "snd y"]) (auto simp: node_stored_def)
      qed
      with grown_trans [OF g1 g2] show ?thesis by blast
    qed
  qed
qed

end
