(* ===== verification/SnapRestore.thy ===== *)
theory SnapRestore
  imports SnapStore
begin

unbundle bit_operations_syntax

text \<open>
  Restoring a stored tree: below the target directory the filesystem gets the types and contents of the snapshot, and
  nothing else changes.
\<close>

section \<open>New nodes\<close>

text \<open>A filesystem without a quota in which no allocation fails.\<close>

definition vfs_ready :: "vfs \<Rightarrow> bool" where
  "vfs_ready fs \<longleftrightarrow> vfs_inv fs \<and> v_mem fs = [] \<and> v_quota fs = 0"

lemma vfs_alloc_ready: "v_mem fs = [] \<Longrightarrow> vfs_alloc fs = (True, fs)"
  by (simp add: vfs_alloc_def)

lemma add_node_ready:
  assumes "v_mem fs = []" "add_node fs p ty mode owner now = (n, fs')"
  shows "n \<noteq> None" "v_mem fs' = []"
  using assms by (auto simp: add_node_def grow_nodes_def Let_def vfs_alloc_def split: if_splits)

lemma ensure_parents_present:
  assumes "list_all comp_normal (cs @ [c])" "length (join_path (cs @ [c])) < VFS_PATH_MAX" "dir_at (fs_lookup fs) (join_path cs)"
  shows "ensure_parents fs cred now (join_path (cs @ [c])) = (VFS_OK, fs)"
proof (cases "join_path cs = root_path")
  case True
  then show ?thesis using normalized_parent [OF assms(1,2)] by (subst ensure_parents.simps) simp
next
  case False
  then obtain m where m: "fs_lookup fs (join_path cs) = Some m" "n_type m = VFS_DIR" using assms(3) by (auto simp: dir_at_def)
  then obtain i where i: "find_node fs (join_path cs) = Some i" using find_node_None [of fs "join_path cs"] by fastforce
  with m False normalized_parent [OF assms(1,2)] find_node_SomeD [OF i] show ?thesis by (subst ensure_parents.simps) auto
qed

lemma write_new:
  assumes "vfs_ready fs" "list_all comp_normal (cs @ [c])" "list_all comp_legal (cs @ [c])"
    and "length (join_path (cs @ [c])) < VFS_PATH_MAX" "dir_at (fs_lookup fs) (join_path cs)"
    and "fs_lookup fs (join_path (cs @ [c])) = None" "length data < 2 ^ 64"
  obtains fs' n where "vfs_write fs cred now (join_path (cs @ [c])) data True = (VFS_OK, fs')" "vfs_ready fs'"
    "fs_lookup fs' = (fs_lookup fs)(join_path (cs @ [c]) \<mapsto> n)" "n_type n = VFS_FILE" "n_data n = data"
proof -
  let ?p = "join_path (cs @ [c])"
  have norm: "vfs_normalize VFS_PATH_MAX ?p = Inr ?p" by (rule vfs_normalize_join [OF assms(2,4)])
  have nr: "?p \<noteq> root_path" using assms(2) by simp
  have val: "validate_path_components ?p = VFS_OK" using validate_path_components_join [OF assms(2,4)] assms(3) by simp
  have fn: "find_node fs ?p = None" using assms(6) by (simp add: find_node_None)
  have ep: "ensure_parents fs cred now ?p = (VFS_OK, fs)" by (rule ensure_parents_present [OF assms(2,4,5)])
  have rp: "require_parent fs ?p = VFS_OK" using require_parent_join [OF assms(2,4)] assms(5) by simp
  have mem: "v_mem fs = []" "v_quota fs = 0" "vfs_inv fs" using assms(1) by (simp_all add: vfs_ready_def)
  obtain rc fs' where wc: "write_commit fs cred now ?p data None 0 = (rc, fs')" by fastforce
  have ok: "rc = VFS_OK" "v_mem fs' = []"
    using wc add_node_ready [of _ ?p VFS_FILE _ "uid cred" now] mem(1)
    by (auto simp: write_commit_def Let_def vfs_alloc_ready split: if_splits prod.splits option.splits)
  have run: "vfs_write fs cred now ?p data cp = (rc, fs')" for cp
    using norm nr val fn ep rp mem(2) wc by (cases cp) (simp_all add: vfs_write_def Let_def)
  from vfs_write_spec [OF mem(3) assms(7) run [of False]] ok(1) obtain ds fs1 where
    spec: "vfs_inv fs'" "same_limits fs fs'" "vfs_normalize VFS_PATH_MAX ?p = Inr (join_path ds)" "fs_lookup fs1 = fs_lookup fs"
      "fs_lookup fs' = (fs_lookup fs1)(join_path ds \<mapsto> write_result fs cred now (join_path ds) data)" by auto
  then have lk: "fs_lookup fs' = (fs_lookup fs)(?p \<mapsto> write_result fs cred now ?p data)" using norm by simp
  have "n_type (write_result fs cred now ?p data) = VFS_FILE" using assms(6) by (simp add: write_result_def)
  with lk spec(1,2) ok mem(2) run [of True] that show thesis by (simp add: vfs_ready_def same_limits_def)
qed

lemma mkdir_new:
  assumes "vfs_ready fs" "list_all comp_normal (cs @ [c])" "list_all comp_legal (cs @ [c])"
    and "length (join_path (cs @ [c])) < VFS_PATH_MAX" "dir_at (fs_lookup fs) (join_path cs)"
    and "fs_lookup fs (join_path (cs @ [c])) = None"
  obtains fs' n where "vfs_mkdir fs cred now (join_path (cs @ [c])) True = (VFS_OK, fs')" "vfs_ready fs'"
    "fs_lookup fs' = (fs_lookup fs)(join_path (cs @ [c]) \<mapsto> n)" "n_type n = VFS_DIR" "n_data n = []"
proof -
  let ?p = "join_path (cs @ [c])"
  have norm: "vfs_normalize VFS_PATH_MAX ?p = Inr ?p" by (rule vfs_normalize_join [OF assms(2,4)])
  have nr: "?p \<noteq> root_path" using assms(2) by simp
  have val: "validate_path_components ?p = VFS_OK" using validate_path_components_join [OF assms(2,4)] assms(3) by simp
  have fn: "find_node fs ?p = None" using assms(6) by (simp add: find_node_None)
  have ep: "ensure_parents fs cred now ?p = (VFS_OK, fs)" by (rule ensure_parents_present [OF assms(2,4,5)])
  have mem: "v_mem fs = []" "v_quota fs = 0" "vfs_inv fs" using assms(1) by (simp_all add: vfs_ready_def)
  obtain n fs' where a: "add_node fs ?p VFS_DIR (VFS_MODE_DIR_DEFAULT AND NOT (v_umask fs)) (uid cred) now = (n, fs')" by fastforce
  note ok = add_node_ready [OF mem(1) a]
  have run: "vfs_mkdir fs cred now ?p True = (VFS_OK, fs')"
    using norm nr val fn ep a ok(1) by (simp add: vfs_mkdir_def Let_def)
  have po: "path_ok ?p" unfolding path_ok_def using assms(2,3) by blast
  have da: "dir_at (fs_lookup fs) (parent_of ?p)" using assms(5) parent_of_join [OF assms(2)] by simp
  note ai = add_node_inv [OF mem(3) assms(6) po da a] and ac = add_node_cases [OF a]
  have lk: "fs_lookup fs' = (fs_lookup fs)(?p \<mapsto> new_node ?p VFS_DIR (VFS_MODE_DIR_DEFAULT AND NOT (v_umask fs)) (uid cred) now)"
    using ai ok(1) by blast
  from that [OF run _ lk] ai ok(2) ac mem(2) show thesis by (auto simp: vfs_ready_def same_limits_def)
qed

section \<open>Reading the snapshot\<close>

lemma snap_load_quiet:
  assumes "dir_object t d es" "get_object table (ct_store ct) h = Some (t, d)" "s_sys (ct_store ct) = []"
  obtains dir where "cas_tree_load table ct h (new_dir []) = (Some (CAS_OK, dir), ct)" "d_entries dir = es"
proof -
  obtain dir ct' where l: "cas_tree_load table ct h (new_dir []) = (Some (CAS_OK, dir), ct')" "d_entries dir = es"
    using dir_object_load [OF assms, of "new_dir []"] by auto
  moreover have "snd (cas_tree_load table ct h (new_dir [])) = ct"
    using open_object_quiet_get [OF assms(3,2)] by (auto simp: cas_tree_load_def)
  ultimately show thesis using that by simp
qed

lemma open_blob_quiet:
  assumes "get_object table s h = Some (''blob'', d)" "s_sys s = []"
  shows "cas_open table s h = (Some (Inr d), s)"
  using open_object_quiet_get [OF assms(2,1)] by (simp add: cas_open_def)

text \<open>The entries are those of the children, in some order.\<close>

lemma listing_kids:
  assumes "vfs_inv fs" "paths_fit fs" "list_all comp_normal ds"
  obtains ns where "snap_listing fs (join_path ds) = map (node_entry fs) ns" "set ns = set (kids fs (join_path ds))"
proof -
  let ?K = "kids fs (join_path ds)"
  have "set (snap_listing fs (join_path ds)) = node_entry fs ` set ?K" by (simp add: snap_listing_eq)
  then have "snap_listing fs (join_path ds) \<in> lists (node_entry fs ` set ?K)" by auto
  then obtain ns where ns: "snap_listing fs (join_path ds) = map (node_entry fs) ns" "set ns \<subseteq> set ?K"
    by (auto simp: lists_image)
  have "n \<in> set ns" if n: "n \<in> set ?K" for n
  proof -
    have "node_entry fs n \<in> node_entry fs ` set ns"
      using n arg_cong [OF ns(1), of set] by (simp add: snap_listing_eq) (metis imageI)
    then obtain m where m: "m \<in> set ns" "node_entry fs m = node_entry fs n" by force
    then have mk: "m \<in> set ?K" using ns(2) by blast
    obtain x where x: "n_path n = join_path (ds @ [x])" "list_all comp_normal (ds @ [x])" "fs_lookup fs (n_path n) = Some n"
      using kid_path [OF assms(1) n assms(3)] by metis
    obtain y where y: "n_path m = join_path (ds @ [y])" "list_all comp_normal (ds @ [y])" "fs_lookup fs (n_path m) = Some m"
      using kid_path [OF assms(1) mk assms(3)] by metis
    have "length (n_path n) < VFS_PATH_MAX" "length (n_path m) < VFS_PATH_MAX" using x(3) y(3) assms(2) by (auto simp: paths_fit_def)
    then have "x = y" using node_entry_name [OF x(1)] node_entry_name [OF y(1)] x(2) y(2) m(2) by (metis list_all_append list.pred_inject(2))
    then have "n = m" using x y by simp
    with m(1) show ?thesis by simp
  qed
  then have "set ns = set ?K" using ns(2) by blast
  with ns(1) that show thesis by blast
qed

lemma entry_type:
  "e_mode (node_entry fs n) AND CAS_TREE_S_IFMT = (if n_type n = VFS_FILE then CAS_TREE_S_IFREG else CAS_TREE_S_IFDIR)"
proof -
  have "(b OR (m AND MODE_MASK)) AND CAS_TREE_S_IFMT = b" if "b = CAS_TREE_S_IFREG \<or> b = CAS_TREE_S_IFDIR" for b m :: u32
  proof -
    have "MODE_MASK AND CAS_TREE_S_IFMT = 0" by (simp add: MODE_MASK_def CAS_TREE_S_IFMT_def)
    then have "(m AND MODE_MASK) AND CAS_TREE_S_IFMT = 0" by (simp add: and.assoc)
    moreover have "b AND CAS_TREE_S_IFMT = b"
      using that by (auto simp: CAS_TREE_S_IFREG_def CAS_TREE_S_IFDIR_def CAS_TREE_S_IFMT_def)
    ultimately show ?thesis by (simp add: bit.conj_disj_distrib2)
  qed
  then show ?thesis by (simp add: node_entry_def snap_entry_def child_of_def)
qed

lemma type_bits: "CAS_TREE_S_IFREG \<noteq> CAS_TREE_S_IFDIR" "CAS_TREE_S_IFDIR \<noteq> CAS_TREE_S_IFREG"
  by (simp_all add: CAS_TREE_S_IFREG_def CAS_TREE_S_IFDIR_def)

lemma child_path:
  assumes "list_all comp_normal (bs @ [c])"
  shows "(if join_path bs = root_path then slash # c else join_path bs @ slash # c) = join_path (bs @ [c])"
proof (cases "bs = []")
  case False
  then have "join_path bs \<noteq> root_path" using assms by simp
  with join_path_snoc [OF False] show ?thesis by simp
qed (simp add: join_path_def)

lemma snap_path_join:
  assumes "list_all comp_normal (bs @ [c])" "length (join_path (bs @ [c])) < VFS_PATH_MAX"
  shows "snap_path (join_path bs) c = join_path (bs @ [c])"
  using child_path [OF assms(1)] snap_text_short [OF assms(2)] by (simp add: snap_path_def)

section \<open>What a restored tree looks like\<close>

definition node_kind :: "vfs_node \<Rightarrow> vfs_type \<times> byte list" where
  "node_kind n = (n_type n, n_data n)"

definition kind_at :: "vfs \<Rightarrow> string list \<Rightarrow> (vfs_type \<times> byte list) option" where
  "kind_at fs cs = map_option node_kind (fs_lookup fs (join_path cs))"

abbreviation rel_path :: "string list \<Rightarrow> bool" where
  "rel_path cs \<equiv> cs \<noteq> [] \<and> list_all comp_normal cs"

text \<open>
  Below \<open>bs\<close> the new state has, under the first names in \<open>N\<close>, what the source has below \<open>ds\<close>; everything else is as it was.
\<close>

definition placed :: "vfs \<Rightarrow> string list \<Rightarrow> vfs \<Rightarrow> string list \<Rightarrow> string set \<Rightarrow> vfs \<Rightarrow> bool" where
  "placed fs ds fs1 bs N fs2 \<longleftrightarrow> (\<forall>cs. rel_path cs \<longrightarrow> hd cs \<in> N \<longrightarrow> kind_at fs2 (bs @ cs) = kind_at fs (ds @ cs)) \<and>
     (\<forall>q. (\<forall>cs. rel_path cs \<longrightarrow> hd cs \<in> N \<longrightarrow> q \<noteq> join_path (bs @ cs)) \<longrightarrow> fs_lookup fs2 q = fs_lookup fs1 q)"

lemma placed_empty: "placed fs ds fs1 bs {} fs1"
  by (simp add: placed_def)

lemma join_path_tail:
  "list_all comp_normal bs \<Longrightarrow> list_all comp_normal cs \<Longrightarrow> list_all comp_normal cs' \<Longrightarrow>
    join_path (bs @ cs) = join_path (bs @ cs') \<longleftrightarrow> cs = cs'"
  by (simp add: join_path_inj)

lemma placed_trans:
  assumes "placed fs ds fs1 bs N fs2" "placed fs ds fs2 bs M fs3" "N \<inter> M = {}" "list_all comp_normal bs"
  shows "placed fs ds fs1 bs (N \<union> M) fs3"
  unfolding placed_def
proof (intro conjI allI impI)
  fix cs
  assume cs: "rel_path cs" "hd cs \<in> N \<union> M"
  show "kind_at fs3 (bs @ cs) = kind_at fs (ds @ cs)"
  proof (cases "hd cs \<in> M")
    case True
    with assms(2) cs show ?thesis by (simp add: placed_def)
  next
    case False
    have "join_path (bs @ cs) \<noteq> join_path (bs @ cs')" if "rel_path cs'" "hd cs' \<in> M" for cs'
      using join_path_tail [of bs cs cs'] assms(4) that cs(1) False by auto
    then have "fs_lookup fs3 (join_path (bs @ cs)) = fs_lookup fs2 (join_path (bs @ cs))"
      using assms(2) unfolding placed_def by blast
    moreover have "kind_at fs2 (bs @ cs) = kind_at fs (ds @ cs)" using assms(1) cs False by (simp add: placed_def)
    ultimately show ?thesis by (simp add: kind_at_def)
  qed
next
  fix q
  assume "\<forall>cs. rel_path cs \<longrightarrow> hd cs \<in> N \<union> M \<longrightarrow> q \<noteq> join_path (bs @ cs)"
  with assms(1,2) show "fs_lookup fs3 q = fs_lookup fs1 q" by (simp add: placed_def)
qed

text \<open>Below a file there is nothing.\<close>

lemma below_file:
  assumes "vfs_inv fs" "fs_lookup fs (join_path cs) = Some n" "n_type n = VFS_FILE" "list_all comp_normal (cs @ es)" "es \<noteq> []" "cs \<noteq> []"
  shows "fs_lookup fs (join_path (cs @ es)) = None"
proof (rule ccontr)
  assume "fs_lookup fs (join_path (cs @ es)) \<noteq> None"
  then obtain m where "fs_lookup fs (join_path (cs @ es)) = Some m" by blast
  from tree_ok_ancestor [OF vfs_invD(2) [OF assms(1)] assms(4,5) this] assms(2,3,4,6)
  show False by (auto simp: dir_at_def)
qed

text \<open>Nor below what is not there.\<close>

lemma below_none:
  assumes "vfs_inv fs" "fs_lookup fs (join_path (ds @ [c])) = None" "list_all comp_normal (ds @ c # es)"
  shows "fs_lookup fs (join_path (ds @ c # es)) = None"
proof (cases "es = []")
  case False
  show ?thesis
  proof (rule ccontr)
    assume "fs_lookup fs (join_path (ds @ c # es)) \<noteq> None"
    then obtain m where m: "fs_lookup fs (join_path ((ds @ [c]) @ es)) = Some m" by auto
    have "dir_at (fs_lookup fs) (join_path (ds @ [c]))"
      using tree_ok_ancestor [OF vfs_invD(2) [OF assms(1)] _ False m] assms(3) by simp
    with assms(2,3) show False by (auto simp: dir_at_def)
  qed
qed (use assms(2) in simp)

text \<open>One file, and one directory with what is below it.\<close>

lemma placed_file:
  assumes "vfs_inv fs" "fs_lookup fs (join_path (ds @ [c])) = Some n" "n_type n = VFS_FILE" "list_all comp_normal (ds @ [c])"
    and "list_all comp_normal bs" "\<And>cs. rel_path cs \<Longrightarrow> hd cs = c \<Longrightarrow> fs_lookup fs1 (join_path (bs @ cs)) = None"
    and "fs_lookup fs2 = (fs_lookup fs1)(join_path (bs @ [c]) \<mapsto> m)" "n_type m = VFS_FILE" "n_data m = n_data n"
  shows "placed fs ds fs1 bs {c} fs2"
  unfolding placed_def
proof (intro conjI allI impI)
  have nc: "comp_normal c" using assms(4) by simp
  fix cs
  assume cs: "rel_path cs" "hd cs \<in> {c}"
  then obtain es where es: "cs = c # es" by (cases cs) auto
  show "kind_at fs2 (bs @ cs) = kind_at fs (ds @ cs)"
  proof (cases "es = []")
    case True
    then show ?thesis using assms(2,3,7-9) es by (simp add: kind_at_def node_kind_def)
  next
    case False
    have "join_path (bs @ cs) \<noteq> join_path (bs @ [c])" using join_path_tail [of bs cs "[c]"] assms(5) cs(1) nc es False by auto
    then have "fs_lookup fs2 (join_path (bs @ cs)) = None" using assms(6) cs es assms(7) by simp
    moreover have "fs_lookup fs (join_path ((ds @ [c]) @ es)) = None"
      using below_file [OF assms(1-3) _ False] cs(1) es assms(4) by simp
    ultimately show ?thesis using es by (simp add: kind_at_def)
  qed
next
  fix q
  assume "\<forall>cs. rel_path cs \<longrightarrow> hd cs \<in> {c} \<longrightarrow> q \<noteq> join_path (bs @ cs)"
  then have "q \<noteq> join_path (bs @ [c])" using assms(4) by (auto dest: spec [of _ "[c]"])
  with assms(7) show "fs_lookup fs2 q = fs_lookup fs1 q" by simp
qed

lemma placed_dir:
  assumes "vfs_inv fs" "fs_lookup fs (join_path (ds @ [c])) = Some n" "n_type n = VFS_DIR" "list_all comp_normal (ds @ [c])"
    and "list_all comp_normal bs"
    and "fs_lookup fs2 = (fs_lookup fs1)(join_path (bs @ [c]) \<mapsto> m)" "n_type m = VFS_DIR" "n_data m = []"
    and "placed fs (ds @ [c]) fs2 (bs @ [c]) UNIV fs3"
  shows "placed fs ds fs1 bs {c} fs3"
  unfolding placed_def
proof (intro conjI allI impI)
  have nc: "comp_normal c" using assms(4) by simp
  have nd: "n_data n = []" using vfs_inv_nodeD(3) [OF assms(1,2)] assms(3) by (simp add: node_ok_def)
  have low: "kind_at fs3 (bs @ c # es) = kind_at fs (ds @ c # es)" if "rel_path es" for es
    using assms(9) that unfolding placed_def by (metis UNIV_I append.assoc append_Cons append_Nil)
  have out: "fs_lookup fs3 q = fs_lookup fs2 q" if "\<And>es. rel_path es \<Longrightarrow> q \<noteq> join_path (bs @ c # es)" for q
    using assms(9) that unfolding placed_def by (metis append.assoc append_Cons append_Nil)
  fix cs
  assume cs: "rel_path cs" "hd cs \<in> {c}"
  then obtain es where es: "cs = c # es" by (cases cs) auto
  show "kind_at fs3 (bs @ cs) = kind_at fs (ds @ cs)"
  proof (cases "es = []")
    case True
    have "join_path (bs @ [c]) \<noteq> join_path (bs @ c # fs)" if "rel_path fs" for fs
      using join_path_tail [of bs "[c]" "c # fs"] assms(5) nc that by auto
    then have "fs_lookup fs3 (join_path (bs @ [c])) = Some m" using out assms(6) by simp
    then show ?thesis using True es assms(2,3,7,8) nd by (simp add: kind_at_def node_kind_def)
  next
    case False
    with low [of es] cs(1) es show ?thesis by simp
  qed
next
  have out: "fs_lookup fs3 q = fs_lookup fs2 q" if "\<And>es. rel_path es \<Longrightarrow> q \<noteq> join_path (bs @ c # es)" for q
    using assms(9) that unfolding placed_def by (metis append.assoc append_Cons append_Nil)
  fix q
  assume q: "\<forall>cs. rel_path cs \<longrightarrow> hd cs \<in> {c} \<longrightarrow> q \<noteq> join_path (bs @ cs)"
  then have "q \<noteq> join_path (bs @ [c])" "\<And>es. rel_path es \<Longrightarrow> q \<noteq> join_path (bs @ c # es)"
    using assms(4) by (auto dest: spec [of _ "[c]"] spec [of _ "c # _"])
  with out assms(6) show "fs_lookup fs3 q = fs_lookup fs1 q" by simp
qed

section \<open>Restoring\<close>

text \<open>What the target must offer: a directory with nothing below it, where the paths fit, and enough depth.\<close>

definition room :: "vfs \<Rightarrow> string list \<Rightarrow> string list \<Rightarrow> nat \<Rightarrow> bool" where
  "room fs ds bs k \<longleftrightarrow> (\<forall>cs. rel_path cs \<longrightarrow> fs_lookup fs (join_path (ds @ cs)) \<noteq> None \<longrightarrow>
     length cs < k \<and> length (join_path (bs @ cs)) < VFS_PATH_MAX)"

lemma room_child:
  assumes "room fs ds bs (Suc k)" "fs_lookup fs (join_path (ds @ [c])) \<noteq> None" "comp_normal c"
  shows "0 < k" "room fs (ds @ [c]) (bs @ [c]) k" "length (join_path (bs @ [c])) < VFS_PATH_MAX"
proof -
  show "0 < k" "length (join_path (bs @ [c])) < VFS_PATH_MAX"
    using assms unfolding room_def by (auto dest: spec [of _ "[c]"])
  show "room fs (ds @ [c]) (bs @ [c]) k"
    unfolding room_def
  proof (intro allI impI)
    fix cs
    assume "rel_path cs" "fs_lookup fs (join_path ((ds @ [c]) @ cs)) \<noteq> None"
    then show "length cs < k \<and> length (join_path ((bs @ [c]) @ cs)) < VFS_PATH_MAX"
      using assms(1,3) unfolding room_def by (auto dest: spec [of _ "c # cs"])
  qed
qed

definition restores ::
    "cas_codec list \<Rightarrow> cas_tree \<Rightarrow> vfs \<Rightarrow> string list \<Rightarrow> (mounted \<Rightarrow> string \<Rightarrow> string \<Rightarrow> cas_rc option \<times> mounted)
      \<Rightarrow> string list \<Rightarrow> vfs \<Rightarrow> string \<Rightarrow> bool" where
  "restores table ct fs ds visit bs fs1 h \<longleftrightarrow> (\<exists>fs2. visit (fs1, ct) (join_path bs) h = (Some CAS_OK, fs2, ct) \<and> vfs_ready fs2 \<and>
     placed fs ds fs1 bs UNIV fs2)"

lemma restore_entries_spec:
  assumes src: "vfs_inv fs" "paths_fit fs" "list_all comp_normal ds" and s: "s_sys (ct_store ct) = []"
    and ns: "set ns \<subseteq> set (kids fs (join_path ds))" "distinct (map (\<lambda>n. e_name (node_entry fs n)) ns)"
    and blob: "\<And>n. n \<in> set ns \<Longrightarrow> n_type n = VFS_FILE \<Longrightarrow> get_object table (ct_store ct) (node_name fs n) = Some (''blob'', n_data n)"
    and dirs: "\<And>n c fs1. n \<in> set ns \<Longrightarrow> n_type n = VFS_DIR \<Longrightarrow> n_path n = join_path (ds @ [c]) \<Longrightarrow> comp_normal c \<Longrightarrow> vfs_ready fs1 \<Longrightarrow>
      dir_at (fs_lookup fs1) (join_path (bs @ [c])) \<Longrightarrow>
      (\<And>cs. rel_path cs \<Longrightarrow> fs_lookup fs1 (join_path ((bs @ [c]) @ cs)) = None) \<Longrightarrow>
      restores table ct fs (ds @ [c]) visit (bs @ [c]) fs1 (node_name fs n)"
    and tgt: "vfs_ready fs1" "list_all comp_normal bs" "dir_at (fs_lookup fs1) (join_path bs)" "list_all comp_legal bs"
    and rm: "room fs ds bs (Suc k)"
    and free: "\<And>cs. rel_path cs \<Longrightarrow> hd cs \<in> (\<lambda>n. e_name (node_entry fs n)) ` set ns \<Longrightarrow> fs_lookup fs1 (join_path (bs @ cs)) = None"
  shows "\<exists>fs2. restore_entries visit table now cred (join_path bs) (fs1, ct) (map (node_entry fs) ns) = (Some CAS_OK, fs2, ct) \<and>
    vfs_ready fs2 \<and> placed fs ds fs1 bs ((\<lambda>n. e_name (node_entry fs n)) ` set ns) fs2"
  using ns blob dirs tgt(1,3) free
proof (induction ns arbitrary: fs1)
  case Nil
  then show ?case by (simp add: placed_empty)
next
  case (Cons n ns)
  note prems = Cons.prems
  have nk: "n \<in> set (kids fs (join_path ds))" using prems(1) by simp
  obtain c where c: "n_path n = join_path (ds @ [c])" "list_all comp_normal (ds @ [c])" "comp_legal c" "fs_lookup fs (n_path n) = Some n"
    using kid_path [OF src(1) nk src(3)] by metis
  have nc: "comp_normal c" using c(2) by simp
  have len: "length (n_path n) < VFS_PATH_MAX" using c(4) src(2) by (auto simp: paths_fit_def)
  have en: "e_name (node_entry fs n) = c" using node_entry_name [OF c(1) nc len] .
  have eh: "e_hash (node_entry fs n) = node_name fs n" by (simp add: node_entry_def snap_entry_def)
  have lk: "fs_lookup fs (join_path (ds @ [c])) = Some n" using c(1,4) by simp
  have rc: "length (join_path (bs @ [c])) < VFS_PATH_MAX" using room_child(3) [OF rm _ nc] lk by simp
  have nb: "list_all comp_normal (bs @ [c])" "list_all comp_legal (bs @ [c])" using tgt(2,4) nc c(3) by simp_all
  have sp: "snap_path (join_path bs) c = join_path (bs @ [c])" using snap_path_join [OF nb(1) rc] .
  have fr: "fs_lookup fs1 (join_path (bs @ cs)) = None" if "rel_path cs" "hd cs = c" for cs using prems(7) that en by simp
  have fr1: "fs_lookup fs1 (join_path (bs @ [c])) = None" using fr [of "[c]"] nc by simp
  have "\<exists>fs2. (if n_type n = VFS_FILE then restore_file table now cred (fs1, ct) (join_path (bs @ [c])) (node_name fs n)
      else case vfs_mkdir fs1 cred (now (join_path (bs @ [c]))) (join_path (bs @ [c])) True of (mrc, f1) \<Rightarrow>
        if mrc \<noteq> VFS_OK then (Some CAS_ERR, f1, ct) else visit (f1, ct) (join_path (bs @ [c])) (node_name fs n)) = (Some CAS_OK, fs2, ct) \<and>
      vfs_ready fs2 \<and> placed fs ds fs1 bs {c} fs2"
  proof (cases "n_type n = VFS_FILE")
    case True
    have "length (n_data n) < 2 ^ 64" using vfs_inv_nodeD(3) [OF src(1) c(4)] by (simp add: node_ok_def)
    from write_new [OF prems(5) nb rc prems(6) fr1 this, of cred "now (join_path (bs @ [c]))"] obtain fs2 m where
      w: "vfs_write fs1 cred (now (join_path (bs @ [c]))) (join_path (bs @ [c])) (n_data n) True = (VFS_OK, fs2)" "vfs_ready fs2"
        "fs_lookup fs2 = (fs_lookup fs1)(join_path (bs @ [c]) \<mapsto> m)" "n_type m = VFS_FILE" "n_data m = n_data n" by blast
    have ob: "cas_open table (ct_store ct) (node_name fs n) = (Some (Inr (n_data n)), ct_store ct)"
      using open_blob_quiet [OF _ s] prems(3) True by simp
    have "placed fs ds fs1 bs {c} fs2" by (rule placed_file [OF src(1) lk True c(2) tgt(2) fr w(3-5)])
    with w(1,2) ob True show ?thesis by (simp add: restore_file_def)
  next
    case False
    then have isd: "n_type n = VFS_DIR" by (cases "n_type n") simp_all
    from mkdir_new [OF prems(5) nb rc prems(6) fr1, of cred "now (join_path (bs @ [c]))"] obtain fs2 m where
      w: "vfs_mkdir fs1 cred (now (join_path (bs @ [c]))) (join_path (bs @ [c])) True = (VFS_OK, fs2)" "vfs_ready fs2"
        "fs_lookup fs2 = (fs_lookup fs1)(join_path (bs @ [c]) \<mapsto> m)" "n_type m = VFS_DIR" "n_data m = []" by blast
    have da: "dir_at (fs_lookup fs2) (join_path (bs @ [c]))" using w(3,4) by (simp add: dir_at_def)
    have below: "fs_lookup fs2 (join_path ((bs @ [c]) @ cs)) = None" if "rel_path cs" for cs
      using fr [of "c # cs"] that nc w(3) join_path_tail [of bs "c # cs" "[c]"] tgt(2) by simp
    have "restores table ct fs (ds @ [c]) visit (bs @ [c]) fs2 (node_name fs n)"
      by (rule prems(4) [OF _ isd c(1) nc w(2) da below]) simp_all
    then obtain fs3 where v: "visit (fs2, ct) (join_path (bs @ [c])) (node_name fs n) = (Some CAS_OK, fs3, ct)" "vfs_ready fs3"
      "placed fs (ds @ [c]) fs2 (bs @ [c]) UNIV fs3" unfolding restores_def by blast
    have "placed fs ds fs1 bs {c} fs3" by (rule placed_dir [OF src(1) lk isd c(2) tgt(2) w(3-5) v(3)])
    with w(1) v(1,2) False show ?thesis by simp
  qed
  then obtain fs2 where one: "(if n_type n = VFS_FILE then restore_file table now cred (fs1, ct) (join_path (bs @ [c])) (node_name fs n)
      else case vfs_mkdir fs1 cred (now (join_path (bs @ [c]))) (join_path (bs @ [c])) True of (mrc, f1) \<Rightarrow>
        if mrc \<noteq> VFS_OK then (Some CAS_ERR, f1, ct) else visit (f1, ct) (join_path (bs @ [c])) (node_name fs n)) = (Some CAS_OK, fs2, ct)"
    "vfs_ready fs2" "placed fs ds fs1 bs {c} fs2" by blast
  let ?N = "(\<lambda>n. e_name (node_entry fs n)) ` set ns"
  have cn: "c \<notin> ?N" using prems(2) en by auto
  have same: "fs_lookup fs2 q = fs_lookup fs1 q" if "\<And>cs. rel_path cs \<Longrightarrow> hd cs = c \<Longrightarrow> q \<noteq> join_path (bs @ cs)" for q
    using one(3) that unfolding placed_def by blast
  have "join_path bs \<noteq> join_path (bs @ cs)" if "rel_path cs" for cs using join_path_tail [of bs "[]" cs] that tgt(2) by auto
  then have "fs_lookup fs2 (join_path bs) = fs_lookup fs1 (join_path bs)" using same by blast
  then have da: "dir_at (fs_lookup fs2) (join_path bs)" using prems(6) by (simp add: dir_at_def)
  have free2: "fs_lookup fs2 (join_path (bs @ cs)) = None" if cs: "rel_path cs" "hd cs \<in> ?N" for cs
  proof -
    have "join_path (bs @ cs) \<noteq> join_path (bs @ cs')" if "rel_path cs'" "hd cs' = c" for cs'
      using join_path_tail [of bs cs cs'] that cs cn tgt(2) by auto
    then have "fs_lookup fs2 (join_path (bs @ cs)) = fs_lookup fs1 (join_path (bs @ cs))" using same by blast
    with prems(7) [of cs] cs show ?thesis by simp
  qed
  have "\<exists>fs3. restore_entries visit table now cred (join_path bs) (fs2, ct) (map (node_entry fs) ns) = (Some CAS_OK, fs3, ct) \<and>
      vfs_ready fs3 \<and> placed fs ds fs2 bs ?N fs3"
    by (rule Cons.IH [OF _ _ _ _ one(2) da free2]) (use prems in simp_all)
  then obtain fs3 where rest: "restore_entries visit table now cred (join_path bs) (fs2, ct) (map (node_entry fs) ns) = (Some CAS_OK, fs3, ct)"
    "vfs_ready fs3" "placed fs ds fs2 bs ?N fs3" by blast
  have pl: "placed fs ds fs1 bs ({c} \<union> ?N) fs3" by (rule placed_trans [OF one(3) rest(3) _ tgt(2)]) (use cn in simp)
  have "restore_entries visit table now cred (join_path bs) (fs1, ct) (map (node_entry fs) (n # ns)) = (Some CAS_OK, fs3, ct)"
    using one(1) rest(1)
    by (cases "vfs_mkdir fs1 cred (now (join_path (bs @ [c]))) (join_path (bs @ [c])) True")
      (simp add: Let_def entry_type en eh sp type_bits split: if_splits)
  with rest(2) pl en show ?case by auto
qed

lemma restore_dir_spec:
  assumes "stored_tree table (ct_store ct) fs p" "vfs_inv fs" "paths_fit fs" "s_sys (ct_store ct) = []"
    and "p = join_path ds" "list_all comp_normal ds" "list_all comp_normal bs" "list_all comp_legal bs" "vfs_ready fs1"
    and "dir_at (fs_lookup fs1) (join_path bs)" "\<And>cs. rel_path cs \<Longrightarrow> fs_lookup fs1 (join_path (bs @ cs)) = None"
    and "0 < k" "room fs ds bs k"
  shows "restores table ct fs ds (restore_dir k table (\<lambda>_. []) now cred) bs fs1 (snap_name ''tree'' (dir_text (snap_listing fs p)))"
  using assms(1,5-)
proof (induction arbitrary: ds bs fs1 k rule: stored_tree.induct)
  case (1 h t d p)
  let ?L = "snap_listing fs p"
  obtain k' where k: "k = Suc k'" using 1(12) by (cases k) simp_all
  have nm: "snap_name ''tree'' (dir_text ?L) = h" using 1(2) by (simp add: snap_name_def)
  obtain dir where load: "cas_tree_load table ct h (new_dir []) = (Some (CAS_OK, dir), ct)" "d_entries dir = ?L"
    using snap_load_quiet [OF 1(3,1) assms(4)] by blast
  obtain ns where ns: "?L = map (node_entry fs) ns" "set ns = set (kids fs (join_path ds))"
    using listing_kids [OF assms(2,3) 1(6)] 1(5) by metis
  have "names_sorted ?L" using 1(3) by (simp add: dir_object_def)
  then have dist: "distinct (map (\<lambda>n. e_name (node_entry fs n)) ns)"
    unfolding ns(1) names_sorted_def by (induction ns) auto
  let ?N = "(\<lambda>n. e_name (node_entry fs n)) ` set ns"
  have "\<exists>fs2. restore_entries (restore_dir k' table (\<lambda>_. []) now cred) table now cred (join_path bs) (fs1, ct) (map (node_entry fs) ns) =
      (Some CAS_OK, fs2, ct) \<and> vfs_ready fs2 \<and> placed fs ds fs1 bs ?N fs2"
  proof (rule restore_entries_spec [OF assms(2,3) 1(6) assms(4) _ dist _ _ 1(9,7,10,8)])
    show "set ns \<subseteq> set (kids fs (join_path ds))" using ns(2) by simp
    show "room fs ds bs (Suc k')" using 1(13) k by simp
    show "fs_lookup fs1 (join_path (bs @ cs)) = None" if "rel_path cs" for cs using 1(11) that by blast
    show "get_object table (ct_store ct) (node_name fs n) = Some (''blob'', n_data n)" if "n \<in> set ns" "n_type n = VFS_FILE" for n
      using 1(4) that ns(2) 1(5) by blast
    fix n c f1
    assume n: "n \<in> set ns" "n_type n = VFS_DIR" "n_path n = join_path (ds @ [c])" "comp_normal c"
      and f1: "vfs_ready f1" "dir_at (fs_lookup f1) (join_path (bs @ [c]))"
        "\<And>cs. rel_path cs \<Longrightarrow> fs_lookup f1 (join_path ((bs @ [c]) @ cs)) = None"
    have nk: "n \<in> set (kids fs p)" using n(1) ns(2) 1(5) by simp
    obtain c' where c': "n_path n = join_path (ds @ [c'])" "list_all comp_normal (ds @ [c'])" "comp_legal c'" "fs_lookup fs (n_path n) = Some n"
      using kid_path [OF assms(2) _ 1(6)] nk 1(5) by metis
    have cc: "c' = c" using join_path_tail [of ds "[c']" "[c]"] c'(1,2) n(3,4) by simp
    have rc: "0 < k'" "room fs (ds @ [c]) (bs @ [c]) k'"
      using room_child [OF _ _ n(4), of fs ds bs k'] 1(13) k c'(4) n(3) by simp_all
    have ih: "\<And>ds bs fs1 k. n_path n = join_path ds \<Longrightarrow> list_all comp_normal ds \<Longrightarrow> list_all comp_normal bs \<Longrightarrow> list_all comp_legal bs \<Longrightarrow>
        vfs_ready fs1 \<Longrightarrow> dir_at (fs_lookup fs1) (join_path bs) \<Longrightarrow> (\<And>cs. rel_path cs \<Longrightarrow> fs_lookup fs1 (join_path (bs @ cs)) = None) \<Longrightarrow>
        0 < k \<Longrightarrow> room fs ds bs k \<Longrightarrow>
        restores table ct fs ds (restore_dir k table (\<lambda>_. []) now cred) bs fs1 (snap_name ''tree'' (dir_text (snap_listing fs (n_path n))))"
      using 1(4) [OF nk] n(2) by blast
    have "restores table ct fs (ds @ [c]) (restore_dir k' table (\<lambda>_. []) now cred) (bs @ [c]) f1
        (snap_name ''tree'' (dir_text (snap_listing fs (n_path n))))"
      by (rule ih [OF n(3) _ _ _ f1 rc]) (use c'(2,3) cc 1(7,8) n(4) in simp_all)
    then show "restores table ct fs (ds @ [c]) (restore_dir k' table (\<lambda>_. []) now cred) (bs @ [c]) f1 (node_name fs n)"
      using n(2) by (simp add: node_name_def)
  qed
  then obtain fs2 where r: "restore_entries (restore_dir k' table (\<lambda>_. []) now cred) table now cred (join_path bs) (fs1, ct) (map (node_entry fs) ns) =
      (Some CAS_OK, fs2, ct)" "vfs_ready fs2" "placed fs ds fs1 bs ?N fs2" by blast
  have "placed fs ds fs1 bs UNIV fs2"
    unfolding placed_def
  proof (intro conjI allI impI)
    fix cs
    assume cs: "rel_path cs"
    show "kind_at fs2 (bs @ cs) = kind_at fs (ds @ cs)"
    proof (cases "hd cs \<in> ?N")
      case True
      with r(3) cs show ?thesis by (simp add: placed_def)
    next
      case False
      obtain c es where ce: "cs = c # es" using cs by (cases cs) auto
      have "join_path (bs @ cs) \<noteq> join_path (bs @ cs')" if "rel_path cs'" "hd cs' \<in> ?N" for cs'
        using join_path_tail [of bs cs cs'] that cs False 1(7) by auto
      then have "fs_lookup fs2 (join_path (bs @ cs)) = None" using r(3) 1(11) [OF cs] unfolding placed_def by metis
      moreover have "fs_lookup fs (join_path (ds @ [c])) = None"
      proof (rule ccontr)
        assume "fs_lookup fs (join_path (ds @ [c])) \<noteq> None"
        then obtain n where n: "fs_lookup fs (join_path (ds @ [c])) = Some n" by blast
        have nd: "list_all comp_normal (ds @ [c])" using 1(6) cs ce by simp
        have nn: "n \<in> set ns" "n_path n = join_path (ds @ [c])" using n kids_lookup [OF assms(2) nd] ns(2) by simp_all
        have "length (n_path n) < VFS_PATH_MAX" using n nn(2) assms(3) by (auto simp: paths_fit_def)
        then have "e_name (node_entry fs n) = c" using node_entry_name [OF nn(2)] nd by simp
        with nn(1) False ce show False by force
      qed
      then have "fs_lookup fs (join_path (ds @ cs)) = None" using below_none [OF assms(2)] cs ce 1(6) by simp
      ultimately show ?thesis by (simp add: kind_at_def)
    qed
  next
    fix q
    assume "\<forall>cs. rel_path cs \<longrightarrow> hd cs \<in> UNIV \<longrightarrow> q \<noteq> join_path (bs @ cs)"
    with r(3) show "fs_lookup fs2 q = fs_lookup fs1 q" unfolding placed_def by blast
  qed
  with r(1,2) load k ns(1) nm show ?case by (simp add: restores_def)
qed

end
