(* ===== verification/SnapProgress.thy ===== *)
theory SnapProgress
  imports SnapRestore
begin

unbundle bit_operations_syntax

text \<open>
  Snapshots succeed when nothing fails, and the comparison of a filesystem with a stored tree is exact.
\<close>

section \<open>A depot where nothing fails\<close>

definition depot_ready :: "cas_codec list \<Rightarrow> cas_tree \<Rightarrow> bool" where
  "depot_ready table ct \<longleftrightarrow> store_inv table (ct_store ct) \<and> s_sys (ct_store ct) = [] \<and> length (s_basedir (ct_store ct)) \<le> 400"

lemma store_inv_pack: "store_inv table s \<Longrightarrow> pack_ok s"
  by (simp add: store_inv_def)

lemma put_at_quiet:
  assumes "cas_put_object_at s t d h = (r, s')" "s_sys s = []" "length (s_basedir s) \<le> 400" "storable t d" "pack_ok s" "valid_hash h"
  shows "r = Some CAS_OK" "s_sys s' = []" "s_basedir s' = s_basedir s"
proof -
  show "r = Some CAS_OK" "s_sys s' = []" using put_at_progress [OF assms(2-6)] assms(1) by auto
  obtain rc where "stored_as s s' h (loose_bytes False d t (length d)) rc"
    using store_at_spec [of s t d h "r = Some CAS_OK" s'] assms(1) by (auto simp: store_at_def)
  then show "s_basedir s' = s_basedir s" by (simp add: stored_as_def)
qed

lemma put_blob_quiet:
  assumes "depot_ready table ct" "storable ''blob'' d" "cas_put_object_z table cfg (ct_store ct) ''blob'' CAS_CODEC_NONE d = (r, s')"
  obtains h where "r = Some (Inr h)" "s_sys s' = []" "s_basedir s' = s_basedir (ct_store ct)"
proof -
  let ?s = "ct_store ct"
  have q: "s_sys ?s = []" "length (s_basedir ?s) \<le> 400" "pack_ok ?s" using assms(1) store_inv_pack by (auto simp: depot_ready_def)
  obtain h where h: "cas_hash_object ''blob'' d = Some h" using put_progress [OF q(1,2) assms(2) q(3)] by blast
  have tc: "try_compress table cfg ?s CAS_CODEC_NONE d = (None, ?s)" by (simp add: try_compress_def)
  obtain b where b: "cas_exists ?s h = Some b" using exists_total [OF q(3)] by blast
  obtain r2 s2 where p: "cas_put_object_at ?s ''blob'' d h = (r2, s2)" by fastforce
  note pq = put_at_quiet [OF p q(1,2) assms(2) q(3) hash_object_valid [OF h]]
  show thesis
  proof (cases b)
    case True
    with assms(3) h b q(1) that [of h] show thesis by (simp add: cas_put_object_z_def)
  next
    case False
    with assms(3) h b tc p pq that [of h] show thesis by (simp add: cas_put_object_z_def)
  qed
qed

lemma tree_store_quiet:
  assumes "depot_ready table ct" "list_all entry_canon (d_entries dir)" "\<not> has_dup (sorted_entries (d_entries dir))"
    and "dir_fits (sorted_entries (d_entries dir))" "cas_tree_store True True junk ct dir = (r, ct', dir')"
  obtains h where "r = Some (Inr h)" "s_sys (ct_store ct') = []" "s_basedir (ct_store ct') = s_basedir (ct_store ct)"
proof -
  let ?s = "ct_store ct" and ?es = "sorted_entries (d_entries dir)"
  have q: "s_sys ?s = []" "length (s_basedir ?s) \<le> 400" "pack_ok ?s" using assms(1) store_inv_pack by (auto simp: depot_ready_def)
  obtain h where h: "r = Some (Inr h)" using tree_store_progress [OF assms(2-4) q] assms(5) by (metis prod.inject)
  have c: "list_all entry_canon ?es" using assms(2) by (simp add: list_all_iff)
  from assms(5) show thesis
  proof (cases rule: tree_store_any)
    case same
    with h q that show thesis by simp
  next
    case textual
    have "storable ''tree'' (dir_text ?es)" by (rule storable_dir(1) [OF assms(4)])
    with put_object_store_at [of ?s "''tree''" "dir_text ?es" h "ct_store ct'"] textual(2) h
    have "cas_put_object_at ?s ''tree'' (dir_text ?es) h = (Some CAS_OK, ct_store ct')" "storable ''tree'' (dir_text ?es)"
        "cas_hash_object ''tree'' (dir_text ?es) = Some h"
      by (auto simp: store_at_def split: prod.splits)
    with put_at_quiet [OF this(1) q(1,2) this(2) q(3) hash_object_valid] h that show thesis by blast
  next
    case (binary bin k rc)
    have "length bin = htree_size ?es" by (rule htree_build_length [OF c binary(3)])
    then have "storable ''htree'' bin" by (rule storable_dir(2) [OF assms(4)])
    from put_at_quiet [OF binary(4) q(1,2) this q(3) hash_object_valid [OF binary(2)]] h that show thesis by blast
  qed
qed

section \<open>The names of a directory\<close>

lemma has_dup_names: "has_dup es \<Longrightarrow> \<not> distinct (map e_name es)"
  by (induction es rule: has_dup.induct) (auto simp: name_cmp_sign)

lemma kids_names:
  assumes "vfs_inv fs" "paths_fit fs" "list_all comp_normal ds"
  shows "distinct (map (\<lambda>n. e_name (node_entry fs n)) (kids fs (join_path ds)))"
proof -
  have "distinct (v_nodes fs)" using vfs_invD(1) [OF assms(1)] by (simp add: nodes_distinct_def distinct_map)
  then have "distinct (kids fs (join_path ds))" by (simp add: kids_def)
  moreover have "inj_on (\<lambda>n. e_name (node_entry fs n)) (set (kids fs (join_path ds)))"
  proof (rule inj_onI)
    fix n m
    assume n: "n \<in> set (kids fs (join_path ds))" and m: "m \<in> set (kids fs (join_path ds))"
      and e: "e_name (node_entry fs n) = e_name (node_entry fs m)"
    obtain x where x: "n_path n = join_path (ds @ [x])" "list_all comp_normal (ds @ [x])" "fs_lookup fs (n_path n) = Some n"
      using kid_path [OF assms(1) n assms(3)] by metis
    obtain y where y: "n_path m = join_path (ds @ [y])" "list_all comp_normal (ds @ [y])" "fs_lookup fs (n_path m) = Some m"
      using kid_path [OF assms(1) m assms(3)] by metis
    have "length (n_path n) < VFS_PATH_MAX" "length (n_path m) < VFS_PATH_MAX" using x(3) y(3) assms(2) by (auto simp: paths_fit_def)
    then have "x = y" using node_entry_name [OF x(1)] node_entry_name [OF y(1)] x(2) y(2) e by simp
    with x y show "n = m" by simp
  qed
  ultimately show ?thesis by (simp add: distinct_map)
qed

lemma listing_no_dup:
  assumes "vfs_inv fs" "paths_fit fs" "list_all comp_normal ds"
  shows "\<not> has_dup (snap_listing fs (join_path ds))"
proof
  assume d: "has_dup (snap_listing fs (join_path ds))"
  have "mset (map e_name (snap_listing fs (join_path ds))) = mset (map e_name (map (node_entry fs) (kids fs (join_path ds))))"
    by (simp add: snap_listing_eq sorted_entries_sort sort_entries_def multiset.map_comp)
  then have "distinct (map e_name (snap_listing fs (join_path ds)))"
    using kids_names [OF assms] mset_eq_imp_distinct_iff by (fastforce simp: comp_def)
  with has_dup_names [OF d] show False by simp
qed

section \<open>A snapshot succeeds\<close>

text \<open>Names that a tree accepts, and no allocation that fails.\<close>

definition names_fit :: "vfs \<Rightarrow> bool" where
  "names_fit fs \<longleftrightarrow> (\<forall>p n. fs_lookup fs p = Some n \<longrightarrow> name_ok (basename_of p))"

definition snap_quiet :: "snap_env \<Rightarrow> bool" where
  "snap_quiet ev \<longleftrightarrow> sv_children ev = [] \<and> sv_entries ev = [] \<and> sv_text ev \<and> sv_bin ev"

lemma dir_add_quiet:
  assumes "name_ok (e_name e)" "d_mem dir = []"
  shows "\<exists>dir'. cas_tree_dir_add dir e = (CAS_OK, dir') \<and> d_mem dir' = [] \<and> d_entries dir' = d_entries dir @ [e]"
  using assms by (cases "d_cap dir \<le> length (d_entries dir)") (auto simp: cas_tree_dir_add_def name_ok_def Let_def)

lemma snap_children_quiet:
  assumes "\<And>n c. n \<in> set ns \<Longrightarrow> ready c \<Longrightarrow> \<exists>c'. put c (child_of n) = (Some (Inr (node_name fs n)), c') \<and> ready c'"
    and "\<And>n. n \<in> set ns \<Longrightarrow> name_ok (e_name (node_entry fs n))" "ready ct" "d_mem dir = []"
  shows "\<exists>ct' dir'. snap_children put ct dir (map child_of ns) = (Some CAS_OK, ct', dir') \<and> ready ct' \<and>
    d_entries dir' = d_entries dir @ map (node_entry fs) ns"
  using assms
proof (induction ns arbitrary: ct dir)
  case (Cons n ns)
  obtain c where p: "put ct (child_of n) = (Some (Inr (node_name fs n)), c)" "ready c" using Cons.prems(1) [of n ct] Cons.prems(3) by auto
  have nm: "name_ok (e_name (node_entry fs n))" using Cons.prems(2) by simp
  then have nm': "name_ok (basename_of (c_path (child_of n)))" by (simp add: node_entry_def snap_entry_def)
  have e: "snap_entry (child_of n) (node_name fs n) = node_entry fs n" by (simp add: node_entry_def)
  obtain dir1 where a: "cas_tree_dir_add dir (node_entry fs n) = (CAS_OK, dir1)" "d_mem dir1 = []" "d_entries dir1 = d_entries dir @ [node_entry fs n]"
    using dir_add_quiet [OF nm Cons.prems(4)] by blast
  have "\<exists>ct' dir'. snap_children put c dir1 (map child_of ns) = (Some CAS_OK, ct', dir') \<and> ready ct' \<and>
      d_entries dir' = d_entries dir1 @ map (node_entry fs) ns"
    by (rule Cons.IH [OF _ _ p(2) a(2)]) (use Cons.prems(1,2) in simp_all)
  with p a nm' e show ?case by (auto simp: name_ok_def Let_def)
qed simp

lemma snap_dir_progress:
  assumes "codec_ok table" "vfs_inv fs" "snap_fits table CAS_COMPRESS_NEVER CAS_CODEC_NONE fs" "names_fit fs" "is_admin cred"
    and "\<forall>p. snap_quiet (env p)"
    and "list_all comp_normal ds" "dir_at (fs_lookup fs) (join_path ds)" "length (join_path ds) < VFS_PATH_MAX" "depot_ready table ct"
    and "VFS_PATH_MAX \<le> length (join_path ds) + k"
  shows "\<exists>h ct'. snap_dir k table cfg CAS_COMPRESS_NEVER CAS_CODEC_NONE env fs cred ct (join_path ds) = (Some (Inr h), ct') \<and> depot_ready table ct'"
  using assms(7-)
proof (induction k arbitrary: ds ct)
  case 0
  then show ?case by simp
next
  case (Suc k)
  let ?p = "join_path ds" and ?snap = "snap_dir k table cfg CAS_COMPRESS_NEVER CAS_CODEC_NONE env fs cred"
  let ?put = "\<lambda>ct c. if c_type c = VFS_FILE then snap_file table cfg CAS_COMPRESS_NEVER CAS_CODEC_NONE fs cred ct (c_path c) else ?snap ct (c_path c)"
  have pf: "paths_fit fs" using assms(3) by (simp add: snap_fits_def)
  have ev: "sv_children (env ?p) = []" "sv_entries (env ?p) = []" "sv_text (env ?p)" "sv_bin (env ?p)"
    using assms(6) by (simp_all add: snap_quiet_def)
  have nm: "vfs_normalize VFS_PATH_MAX ?p = Inr ?p" by (rule vfs_normalize_join [OF Suc.prems(1,3)])
  obtain ctx where li: "vfs_list fs cred ?p collect_child (new_ctx (sv_children (env ?p))) = (0, ctx)"
    using vfs_list_ready [OF nm Suc.prems(2) assms(5)] ev(1) by metis
  have ch: "sc_children ctx = map child_of (kids fs ?p)" using vfs_list_children [OF li refl] nm by (metis sum.inject(2))
  have kid: "\<exists>x. n_path n = join_path (ds @ [x]) \<and> list_all comp_normal (ds @ [x]) \<and> fs_lookup fs (n_path n) = Some n \<and>
      length (n_path n) < VFS_PATH_MAX \<and> c_path (child_of n) = n_path n \<and> c_type (child_of n) = n_type n" if n: "n \<in> set (kids fs ?p)" for n
  proof -
    obtain x where x: "n_path n = join_path (ds @ [x])" "list_all comp_normal (ds @ [x])" "fs_lookup fs (n_path n) = Some n"
      using kid_path [OF assms(2) n Suc.prems(1)] by metis
    then have len: "length (n_path n) < VFS_PATH_MAX" using pf by (auto simp: paths_fit_def)
    with x snap_text_short [OF len] show ?thesis by (auto simp: child_of_def)
  qed
  have each: "hash_canon (node_name fs n) \<and> (\<exists>c'. ?put c (child_of n) = (Some (Inr (node_name fs n)), c') \<and> depot_ready table c')" if n: "n \<in> set (kids fs ?p)" and r: "depot_ready table c" for n c
  proof -
    obtain x where x: "n_path n = join_path (ds @ [x])" "list_all comp_normal (ds @ [x])" "fs_lookup fs (n_path n) = Some n"
      "length (n_path n) < VFS_PATH_MAX" "c_path (child_of n) = n_path n" "c_type (child_of n) = n_type n" using kid [OF n] by blast
    show ?thesis
    proof (cases "n_type n = VFS_FILE")
      case True
      have "vfs_normalize VFS_PATH_MAX (n_path n) = Inr (n_path n)" using vfs_normalize_join [OF x(2)] x(1,4) by simp
      then have rd: "vfs_read fs cred (n_path n) = Inr (n_data n, n_size n)"
        using x(3) True assms(5) by (simp add: vfs_read_lookup check_perm_def)
      have tk: "take (unat (n_size n)) (n_data n) = n_data n"
        using node_bytes_read [OF assms(2) rd _ x(3)] vfs_normalize_join [OF x(2)] x(1,4) by simp
      have st: "storable ''blob'' (n_data n)" using assms(3) x(3) True by (auto simp: snap_fits_def)
      have ob: "Snap_blob (n_data n) \<in> snap_objs fs" using x(3) True by (auto simp: snap_objs_def)
      obtain rr s where p: "cas_put_object_z table cfg (ct_store c) ''blob'' CAS_CODEC_NONE (n_data n) = (rr, s)" by fastforce
      obtain h where q: "rr = Some (Inr h)" "s_sys s = []" "s_basedir s = s_basedir (ct_store c)" using put_blob_quiet [OF r st p] by blast
      have "store_inv table s"
        using grown_inv [OF snap_blob_grown(1) [OF assms(1) _ st _ p]] r by (simp add: depot_ready_def z_fits_def)
      with q r have "depot_ready table (c\<lparr>ct_store := s\<rparr>)" by (simp add: depot_ready_def)
      moreover have "cas_hash_object ''blob'' (n_data n) = Some h" using put_object_z_name p q(1) by blast
      ultimately show ?thesis using True rd tk p q(1) x(5,6) hash_object_canon by (auto simp: snap_file_def node_name_def snap_name_def)
    next
      case False
      then have isd: "n_type n = VFS_DIR" by (cases "n_type n") simp_all
      have "length (join_path ds) < length (join_path (ds @ [x]))" using is_child_longer [of ?p "n_path n"] n x(1) by (simp add: kids_def)
      then have fu: "VFS_PATH_MAX \<le> length (join_path (ds @ [x])) + k" using Suc.prems(5) by simp
      have da: "dir_at (fs_lookup fs) (join_path (ds @ [x]))" using x(1,3) isd by (simp add: dir_at_def)
      obtain h c' where sd: "?snap c (join_path (ds @ [x])) = (Some (Inr h), c')" "depot_ready table c'"
        using Suc.IH [OF x(2) da _ r fu] x(1,4) by auto
      have "cas_hash_object ''tree'' (dir_text (snap_listing fs (n_path n))) = Some h"
        using snap_dir_name [OF assms(2) pf x(2) sd(1)] x(1) by simp
      with sd x(1,5,6) False hash_object_canon show ?thesis by (auto simp: node_name_def snap_name_def)
    qed
  qed
  have nok: "name_ok (e_name (node_entry fs n))" if n: "n \<in> set (kids fs ?p)" for n
    using kid [OF n] assms(4) unfolding names_fit_def node_entry_def snap_entry_def by fastforce
  have hc: "hash_canon (node_name fs n)" if n: "n \<in> set (kids fs ?p)" for n using each [OF n Suc.prems(4)] by blast
  let ?dir0 = "cas_tree_dir_init (new_dir (sv_entries (env ?p)))"
  have d0: "d_mem ?dir0 = []" using ev(2) by (simp add: cas_tree_dir_init_def)
  have "\<exists>ct' dir'. snap_children ?put ct ?dir0 (map child_of (kids fs ?p)) = (Some CAS_OK, ct', dir') \<and> depot_ready table ct' \<and>
      d_entries dir' = d_entries ?dir0 @ map (node_entry fs) (kids fs ?p)"
    by (rule snap_children_quiet [where ready = "depot_ready table", OF _ nok Suc.prems(4) d0]) (use each in blast)
  then obtain ct1 dir where sc: "snap_children ?put ct ?dir0 (map child_of (kids fs ?p)) = (Some CAS_OK, ct1, dir)" and r1: "depot_ready table ct1"
    and de: "d_entries dir = map (node_entry fs) (kids fs ?p)" by (auto simp: cas_tree_dir_init_def)
  obtain rr ct2 dir2 where ts: "cas_tree_store True True (sv_junk (env ?p)) ct1 dir = (rr, ct2, dir2)" by (rule prod_cases3)
  have srt: "sorted_entries (d_entries dir) = snap_listing fs ?p" using de by (simp add: snap_listing_eq)
  have ce: "list_all entry_canon (d_entries dir)"
    using de nok hc by (auto simp: list_all_iff entry_canon_def node_entry_def snap_entry_def)
  have df: "dir_fits (sorted_entries (d_entries dir))" using assms(3) Suc.prems(2) srt by (simp add: snap_fits_def)
  have nd: "\<not> has_dup (sorted_entries (d_entries dir))" using listing_no_dup [OF assms(2) pf Suc.prems(1)] srt by simp
  obtain h where h: "rr = Some (Inr h)" "s_sys (ct_store ct2) = []" "s_basedir (ct_store ct2) = s_basedir (ct_store ct1)"
    using tree_store_quiet [OF r1 ce nd df ts] by blast
  have "store_inv table (ct_store ct2)"
    using grown_inv [OF tree_store_grown(1) [OF assms(1) _ ce df ts]] r1 by (simp add: depot_ready_def)
  with h(2,3) r1 have "depot_ready table ct2" by (simp add: depot_ready_def)
  with li ch sc ts h(1) ev show ?case by (simp add: Let_def)
qed

end
