(* ===== verification/SnapFsck.thy ===== *)
theory SnapFsck
  imports SnapProgress
begin

unbundle bit_operations_syntax

text \<open>
  The comparison of a filesystem with a stored tree counts no error exactly if both have the same types and contents
  under the same paths.
\<close>

section \<open>Children by name\<close>

lemma kid_named:
  assumes "vfs_inv fs" "paths_fit fs" "list_all comp_normal ds" "n \<in> set (kids fs (join_path ds))"
  obtains c where "n_path n = join_path (ds @ [c])" "list_all comp_normal (ds @ [c])" "fs_lookup fs (join_path (ds @ [c])) = Some n"
    "length (join_path (ds @ [c])) < VFS_PATH_MAX" "c_path (child_of n) = join_path (ds @ [c])" "basename_of (c_path (child_of n)) = c"
    "e_name (node_entry fs n) = c"
proof -
  obtain c where c: "n_path n = join_path (ds @ [c])" "list_all comp_normal (ds @ [c])" "fs_lookup fs (n_path n) = Some n"
    using kid_path [OF assms(1,4,3)] by metis
  have len: "length (n_path n) < VFS_PATH_MAX" using c(3) assms(2) by (auto simp: paths_fit_def)
  have "c_path (child_of n) = n_path n" using snap_text_short [OF len] by (simp add: child_of_def)
  moreover have "basename_of (join_path (ds @ [c])) = c" using basename_join c(2) by (simp add: comp_normal_def)
  ultimately show thesis using that c len by (simp add: node_entry_def snap_entry_def)
qed

lemma find_child:
  assumes "vfs_inv fs" "paths_fit fs" "list_all comp_normal (ds @ [x])"
  shows "find (\<lambda>c. basename_of (c_path c) = x) (map child_of (kids fs (join_path ds))) =
    map_option child_of (fs_lookup fs (join_path (ds @ [x])))"
proof -
  let ?P = "\<lambda>n. basename_of (c_path (child_of n)) = x" and ?K = "kids fs (join_path ds)"
  have nd: "list_all comp_normal ds" using assms(3) by simp
  have iff: "?P n \<longleftrightarrow> fs_lookup fs (join_path (ds @ [x])) = Some n" if n: "n \<in> set ?K" for n
  proof -
    obtain c where c: "n_path n = join_path (ds @ [c])" "list_all comp_normal (ds @ [c])" "fs_lookup fs (join_path (ds @ [c])) = Some n"
      "basename_of (c_path (child_of n)) = c" using kid_named [OF assms(1,2) nd n] by metis
    then show ?thesis using kids_lookup [OF assms(1,3)] join_path_tail [of ds "[c]" "[x]"] assms(3) by auto
  qed
  have m: "find (\<lambda>c. basename_of (c_path c) = x) (map child_of ns) = map_option child_of (find ?P ns)" for ns
    by (induction ns) simp_all
  have "find ?P ?K = fs_lookup fs (join_path (ds @ [x]))"
  proof (cases "find ?P ?K")
    case None
    then have "\<forall>n \<in> set ?K. fs_lookup fs (join_path (ds @ [x])) \<noteq> Some n" using iff by (auto simp: find_None_iff)
    then have "fs_lookup fs (join_path (ds @ [x])) \<noteq> Some n" for n using kids_lookup [OF assms(1,3)] by blast
    then have "fs_lookup fs (join_path (ds @ [x])) = None" by (metis not_None_eq)
    with None show ?thesis by simp
  next
    case (Some n)
    then have "n \<in> set ?K" "?P n" by (auto simp: find_Some_iff)
    with iff Some show ?thesis by simp
  qed
  with m show ?thesis by simp
qed

section \<open>Agreement\<close>

text \<open>The same types and contents below a path, and under one name.\<close>

definition same_below :: "vfs \<Rightarrow> vfs \<Rightarrow> string list \<Rightarrow> bool" where
  "same_below fs fs0 ds \<longleftrightarrow> (\<forall>cs. rel_path cs \<longrightarrow> kind_at fs (ds @ cs) = kind_at fs0 (ds @ cs))"

definition same_under :: "vfs \<Rightarrow> vfs \<Rightarrow> string list \<Rightarrow> string \<Rightarrow> bool" where
  "same_under fs fs0 ds c \<longleftrightarrow> kind_at fs (ds @ [c]) = kind_at fs0 (ds @ [c]) \<and> same_below fs fs0 (ds @ [c])"

lemma same_below_names:
  assumes "vfs_inv fs" "vfs_inv fs0" "list_all comp_normal ds" "paths_fit fs" "paths_fit fs0"
  shows "same_below fs fs0 ds \<longleftrightarrow>
    (\<forall>n \<in> set (kids fs0 (join_path ds)). same_under fs fs0 ds (e_name (node_entry fs0 n))) \<and>
    (\<forall>m \<in> set (kids fs (join_path ds)). \<exists>n \<in> set (kids fs0 (join_path ds)). e_name (node_entry fs0 n) = e_name (node_entry fs m))"
    (is "_ \<longleftrightarrow> ?E \<and> ?A")
proof
  assume s: "same_below fs fs0 ds"
  have u: "same_under fs fs0 ds c" if "comp_normal c" for c
    using s that unfolding same_under_def same_below_def by (auto dest: spec [of _ "[c]"] spec [of _ "c # _"])
  show "?E \<and> ?A"
  proof (intro conjI ballI)
    fix n
    assume "n \<in> set (kids fs0 (join_path ds))"
    then obtain c where "e_name (node_entry fs0 n) = c" "list_all comp_normal (ds @ [c])" using kid_named [OF assms(2,5,3)] by metis
    with u show "same_under fs fs0 ds (e_name (node_entry fs0 n))" by simp
  next
    fix m
    assume "m \<in> set (kids fs (join_path ds))"
    then obtain c where c: "e_name (node_entry fs m) = c" "list_all comp_normal (ds @ [c])" "fs_lookup fs (join_path (ds @ [c])) = Some m"
      using kid_named [OF assms(1,4,3)] by metis
    have "kind_at fs (ds @ [c]) \<noteq> None" using c(3) by (simp add: kind_at_def)
    then have "kind_at fs0 (ds @ [c]) \<noteq> None" using u [of c] c(2) by (simp add: same_under_def)
    then obtain n where n: "fs_lookup fs0 (join_path (ds @ [c])) = Some n" by (auto simp: kind_at_def)
    then have "n \<in> set (kids fs0 (join_path ds))" "n_path n = join_path (ds @ [c])" using kids_lookup [OF assms(2) c(2)] by simp_all
    moreover have "length (n_path n) < VFS_PATH_MAX" using n calculation(2) assms(5) by (auto simp: paths_fit_def)
    ultimately show "\<exists>n \<in> set (kids fs0 (join_path ds)). e_name (node_entry fs0 n) = e_name (node_entry fs m)"
      using node_entry_name [of n ds c fs0] c(1,2) by auto
  qed
next
  assume EA: "?E \<and> ?A"
  show "same_below fs fs0 ds"
    unfolding same_below_def
  proof (intro allI impI)
    fix cs
    assume cs: "rel_path cs"
    then obtain c es where ce: "cs = c # es" by (cases cs) auto
    have n: "list_all comp_normal (ds @ [c])" "list_all comp_normal (ds @ c # es)" using cs ce assms(3) by simp_all
    show "kind_at fs (ds @ cs) = kind_at fs0 (ds @ cs)"
    proof (cases "fs_lookup fs0 (join_path (ds @ [c]))")
      case (Some m)
      then have m: "m \<in> set (kids fs0 (join_path ds))" "n_path m = join_path (ds @ [c])" using kids_lookup [OF assms(2) n(1)] by simp_all
      have "length (n_path m) < VFS_PATH_MAX" using Some m(2) assms(5) by (auto simp: paths_fit_def)
      then have "same_under fs fs0 ds c" using EA m node_entry_name [OF m(2)] n(1) by auto
      then show ?thesis using cs ce unfolding same_under_def same_below_def by (cases "es = []") (auto dest: spec [of _ es])
    next
      case None
      have "fs_lookup fs (join_path (ds @ [c])) = None"
      proof (rule ccontr)
        assume "fs_lookup fs (join_path (ds @ [c])) \<noteq> None"
        then obtain m where m: "fs_lookup fs (join_path (ds @ [c])) = Some m" by blast
        then have mk: "m \<in> set (kids fs (join_path ds))" "n_path m = join_path (ds @ [c])" using kids_lookup [OF assms(1) n(1)] by simp_all
        have "length (n_path m) < VFS_PATH_MAX" using m mk(2) assms(4) by (auto simp: paths_fit_def)
        then have "e_name (node_entry fs m) = c" using node_entry_name [OF mk(2)] n(1) by simp
        with EA mk(1) obtain k where k: "k \<in> set (kids fs0 (join_path ds))" "e_name (node_entry fs0 k) = c" by blast
        with kid_named [OF assms(2,5,3) k(1)] None show False by (metis option.distinct(1))
      qed
      with None below_none [OF assms(1) _ n(2)] below_none [OF assms(2) _ n(2)] ce show ?thesis by (simp add: kind_at_def)
    qed
  qed
qed

section \<open>The walk\<close>

text \<open>What the comparison needs of the files: their contents have names, which tell them apart at the same path.\<close>

definition blobs_tell :: "vfs \<Rightarrow> vfs \<Rightarrow> bool" where
  "blobs_tell fs fs0 \<longleftrightarrow> (\<forall>p n m. fs_lookup fs p = Some n \<longrightarrow> n_type n = VFS_FILE \<longrightarrow> cas_hash_object ''blob'' (n_data n) \<noteq> None \<and>
     (fs_lookup fs0 p = Some m \<longrightarrow> n_type m = VFS_FILE \<longrightarrow> cas_hash_object ''blob'' (n_data n) = cas_hash_object ''blob'' (n_data m) \<longrightarrow>
       n_data n = n_data m))"

text \<open>A part of the walk is exact: no error is counted if \<open>ok\<close>, and one at least otherwise.\<close>

definition exact :: "bool \<Rightarrow> 'c tally \<Rightarrow> bool \<times> 'c tally \<Rightarrow> bool" where
  "exact ok t x \<longleftrightarrow> (ok \<longrightarrow> x = (False, t)) \<and> (\<not> ok \<longrightarrow> fst t < fst (snd x))"

lemma exact_report: "exact False t (snap_report fn t path status)"
  by (simp add: exact_def snap_report_def Let_def split: option.splits prod.splits)

lemma exact_quiet [simp]: "exact True t (False, t)"
  by (simp add: exact_def)

lemma exact_seq:
  assumes "exact a t (stop, t1)" "stop \<Longrightarrow> x = (True, t1)" "\<not> stop \<Longrightarrow> exact b t1 x"
  shows "exact (a \<and> b) t x"
  using assms by (cases stop) (auto simp: exact_def)

lemma fsck_added_exact:
  assumes "\<And>c. c \<in> set cs \<Longrightarrow> length (if dirpath = root_path then slash # basename_of (c_path c) else dirpath @ slash # basename_of (c_path c)) < SNAP_PATH_MAX"
  shows "exact (\<forall>c \<in> set cs. \<exists>e \<in> set es. e_name e = basename_of (c_path c)) t (fsck_added fn dirpath es t cs)"
  using assms
proof (induction cs arbitrary: t)
  case (Cons c cs)
  let ?in = "\<exists>e \<in> set es. e_name e = basename_of (c_path c)"
  have IH: "exact (\<forall>c \<in> set cs. \<exists>e \<in> set es. e_name e = basename_of (c_path c)) t1 (fsck_added fn dirpath es t1 cs)" for t1
    using Cons by simp
  have len: "\<not> SNAP_PATH_MAX \<le> length (if dirpath = root_path then slash # basename_of (c_path c) else dirpath @ slash # basename_of (c_path c))"
    using Cons.prems [of c] by (simp add: not_le)
  show ?case
  proof (cases ?in)
    case True
    then have "fsck_added fn dirpath es t (c # cs) = fsck_added fn dirpath es t cs" by (simp add: list_ex_iff Let_def)
    with IH [of t] True show ?thesis by simp
  next
    case False
    let ?path = "if dirpath = root_path then slash # basename_of (c_path c) else dirpath @ slash # basename_of (c_path c)"
    obtain stop t1 where r: "snap_report fn t ?path VFS_SNAP_FSCK_ADDED = (stop, t1)" by (rule prod.exhaust)
    have step: "fsck_added fn dirpath es t (c # cs) = (if stop then (True, t1) else fsck_added fn dirpath es t1 cs)"
      using False len r by (auto simp: list_ex_iff Let_def)
    have "exact False t (stop, t1)" using exact_report [of t fn ?path VFS_SNAP_FSCK_ADDED] r by simp
    then have "exact (False \<and> (\<forall>c \<in> set cs. \<exists>e \<in> set es. e_name e = basename_of (c_path c))) t (fsck_added fn dirpath es t (c # cs))"
      by (rule exact_seq) (use step IH in simp_all)
    with False show ?thesis by (auto simp: exact_def)
  qed
qed simp

lemma blob_name_node: "node_ok n \<Longrightarrow> blob_name (n_data n, n_size n) = cas_hash_object ''blob'' (n_data n)"
  by (simp add: blob_name_def node_ok_def unat_of_nat)

lemma entry_is_dir: "e_mode (node_entry fs n) AND CAS_TREE_S_IFMT = CAS_TREE_S_IFDIR \<longleftrightarrow> n_type n = VFS_DIR"
  by (cases "n_type n") (simp_all add: entry_type type_bits)

text \<open>Two files agree exactly if their contents do, two directories exactly if what is below them does.\<close>

lemma same_under_files:
  assumes "vfs_inv fs" "vfs_inv fs0" "list_all comp_normal (ds @ [c])"
    and "fs_lookup fs (join_path (ds @ [c])) = Some m" "n_type m = VFS_FILE"
    and "fs_lookup fs0 (join_path (ds @ [c])) = Some n" "n_type n = VFS_FILE"
  shows "same_under fs fs0 ds c \<longleftrightarrow> n_data m = n_data n"
proof -
  have "same_below fs fs0 (ds @ [c])"
    unfolding same_below_def
  proof (intro allI impI)
    fix cs
    assume "rel_path cs"
    then show "kind_at fs ((ds @ [c]) @ cs) = kind_at fs0 ((ds @ [c]) @ cs)"
      using below_file [OF assms(1,4,5), of cs] below_file [OF assms(2,6,7), of cs] assms(3) by (simp add: kind_at_def)
  qed
  with assms(4-7) show ?thesis by (simp add: same_under_def kind_at_def node_kind_def)
qed

lemma same_under_dirs:
  assumes "vfs_inv fs" "vfs_inv fs0"
    and "fs_lookup fs (join_path (ds @ [c])) = Some m" "n_type m = VFS_DIR"
    and "fs_lookup fs0 (join_path (ds @ [c])) = Some n" "n_type n = VFS_DIR"
  shows "same_under fs fs0 ds c \<longleftrightarrow> same_below fs fs0 (ds @ [c])"
  using assms(3-6) vfs_inv_nodeD(3) [OF assms(1,3)] vfs_inv_nodeD(3) [OF assms(2,5)]
  by (simp add: same_under_def kind_at_def node_kind_def node_ok_def)

lemma same_under_types:
  assumes "fs_lookup fs0 (join_path (ds @ [c])) = Some n" "\<And>m. fs_lookup fs (join_path (ds @ [c])) = Some m \<Longrightarrow> n_type m \<noteq> n_type n"
  shows "\<not> same_under fs fs0 ds c"
  using assms by (cases "fs_lookup fs (join_path (ds @ [c]))") (auto simp: same_under_def kind_at_def node_kind_def)

lemma fsck_file_exact:
  assumes "vfs_inv fs" "vfs_inv fs0" "list_all comp_normal (ds @ [c])" "length (join_path (ds @ [c])) < VFS_PATH_MAX" "is_admin cred" "blobs_tell fs fs0"
    and "fs_lookup fs (join_path (ds @ [c])) = Some m" "n_type m = VFS_FILE"
    and "fs_lookup fs0 (join_path (ds @ [c])) = Some n" "n_type n = VFS_FILE" "cas_hash_object ''blob'' (n_data n) = Some h"
  obtains x where "fsck_file fs cred fn t (join_path (ds @ [c])) h = Some x" "exact (same_under fs fs0 ds c) t x"
proof -
  have rd: "vfs_read fs cred (join_path (ds @ [c])) = Inr (n_data m, n_size m)"
    using vfs_normalize_join [OF assms(3,4)] assms(5,7,8) by (simp add: vfs_read_lookup check_perm_def)
  obtain k where k: "cas_hash_object ''blob'' (n_data m) = Some k" "k = h \<Longrightarrow> n_data m = n_data n"
    using assms(6-11) unfolding blobs_tell_def by (metis not_None_eq)
  have bn: "blob_name (n_data m, n_size m) = Some k" using blob_name_node [OF vfs_inv_nodeD(3) [OF assms(1,7)]] k(1) by simp
  have "k = h \<longleftrightarrow> same_under fs fs0 ds c" using same_under_files [OF assms(1-3,7-10)] k assms(11) by auto
  with rd bn that exact_report [of t fn "join_path (ds @ [c])" VFS_SNAP_FSCK_MODIFIED] show thesis
    by (cases "k = h") (simp_all add: fsck_file_def)
qed

lemma fsck_entries_exact:
  assumes fss: "vfs_inv fs" "vfs_inv fs0" "paths_fit fs" "paths_fit fs0" "list_all comp_normal ds" "is_admin cred" "blobs_tell fs fs0"
    and ns: "set ns \<subseteq> set (kids fs0 (join_path ds))"
    and blob: "\<And>n. n \<in> set ns \<Longrightarrow> n_type n = VFS_FILE \<Longrightarrow> cas_hash_object ''blob'' (n_data n) \<noteq> None"
    and visit: "\<And>n c t. n \<in> set ns \<Longrightarrow> n_type n = VFS_DIR \<Longrightarrow> n_path n = join_path (ds @ [c]) \<Longrightarrow> list_all comp_normal (ds @ [c]) \<Longrightarrow>
      length (join_path (ds @ [c])) < VFS_PATH_MAX \<Longrightarrow> dir_at (fs_lookup fs) (join_path (ds @ [c])) \<Longrightarrow>
      \<exists>x. visit ct t (join_path (ds @ [c])) (node_name fs0 n) = (Some x, ct) \<and> exact (same_below fs fs0 (ds @ [c])) t x"
  shows "\<exists>x. fsck_snap_entries visit fs cred fn (join_path ds) (map child_of (kids fs (join_path ds))) ct t (map (node_entry fs0) ns) = (Some x, ct) \<and>
    exact (\<forall>n \<in> set ns. same_under fs fs0 ds (e_name (node_entry fs0 n))) t x"
  using ns blob visit
proof (induction ns arbitrary: t)
  case Nil
  then show ?case by simp
next
  case (Cons n ns)
  note prems = Cons.prems
  have nk: "n \<in> set (kids fs0 (join_path ds))" using prems(1) by simp
  obtain c where c: "n_path n = join_path (ds @ [c])" "list_all comp_normal (ds @ [c])" "fs_lookup fs0 (join_path (ds @ [c])) = Some n"
    "length (join_path (ds @ [c])) < VFS_PATH_MAX" "e_name (node_entry fs0 n) = c" using kid_named [OF fss(2,4,5) nk] by metis
  have sp: "snap_path (join_path ds) c = join_path (ds @ [c])" by (rule snap_path_join [OF c(2,4)])
  have eh: "e_hash (node_entry fs0 n) = node_name fs0 n" by (simp add: node_entry_def snap_entry_def)
  note fc = find_child [OF fss(1,3) c(2)]
  let ?step = "case find (\<lambda>k. basename_of (c_path k) = c) (map child_of (kids fs (join_path ds))) of
      None \<Rightarrow> (Some (snap_report fn t (join_path (ds @ [c])) VFS_SNAP_FSCK_MISSING), ct)
    | Some m \<Rightarrow> if (n_type n = VFS_DIR) \<noteq> (c_type m = VFS_DIR) then (Some (snap_report fn t (join_path (ds @ [c])) VFS_SNAP_FSCK_TYPE), ct)
        else if n_type n = VFS_DIR then visit ct t (join_path (ds @ [c])) (node_name fs0 n)
        else (fsck_file fs cred fn t (join_path (ds @ [c])) (node_name fs0 n), ct)"
  have "\<exists>x. ?step = (Some x, ct) \<and> exact (same_under fs fs0 ds c) t x"
  proof (cases "fs_lookup fs (join_path (ds @ [c]))")
    case None
    with fc same_under_types [OF c(3)] exact_report show ?thesis by fastforce
  next
    case (Some m)
    have ct: "c_type (child_of m) = n_type m" by (simp add: child_of_def)
    consider (types) "n_type m \<noteq> n_type n" | (dirs) "n_type m = VFS_DIR" "n_type n = VFS_DIR" | (files) "n_type m = VFS_FILE" "n_type n = VFS_FILE"
      by (cases "n_type m"; cases "n_type n") simp_all
    then show ?thesis
    proof cases
      case types
      then have "(n_type n = VFS_DIR) \<noteq> (n_type m = VFS_DIR)" by (cases "n_type m"; cases "n_type n") simp_all
      moreover have "\<not> same_under fs fs0 ds c" using same_under_types [OF c(3), of fs] Some types by simp
      ultimately show ?thesis using fc Some ct exact_report by simp
    next
      case dirs
      have "dir_at (fs_lookup fs) (join_path (ds @ [c]))" using Some dirs by (simp add: dir_at_def)
      then have "\<exists>x. visit ct t (join_path (ds @ [c])) (node_name fs0 n) = (Some x, ct) \<and> exact (same_below fs fs0 (ds @ [c])) t x"
        using prems(3) [of n c t] dirs(2) c(1,2,4) by simp
      with same_under_dirs [OF fss(1,2) Some dirs(1) c(3) dirs(2)] fc Some ct dirs show ?thesis by simp
    next
      case files
      obtain h where h: "cas_hash_object ''blob'' (n_data n) = Some h" using prems(2) files by auto
      then have nn: "node_name fs0 n = h" using files by (simp add: node_name_def snap_name_def)
      obtain x where "fsck_file fs cred fn t (join_path (ds @ [c])) h = Some x" "exact (same_under fs fs0 ds c) t x"
        by (rule fsck_file_exact [OF fss(1,2) c(2,4) fss(6,7) Some files(1) c(3) files(2) h])
      with nn fc Some ct files show ?thesis by simp
    qed
  qed
  then obtain stop t1 where st: "?step = (Some (stop, t1), ct)" "exact (same_under fs fs0 ds c) t (stop, t1)" by auto
  obtain y where y: "fsck_snap_entries visit fs cred fn (join_path ds) (map child_of (kids fs (join_path ds))) ct t1 (map (node_entry fs0) ns) = (Some y, ct)"
    "exact (\<forall>n \<in> set ns. same_under fs fs0 ds (e_name (node_entry fs0 n))) t1 y"
    using Cons.IH [of t1] prems by auto
  have "fsck_snap_entries visit fs cred fn (join_path ds) (map child_of (kids fs (join_path ds))) ct t (map (node_entry fs0) (n # ns)) =
      (Some (if stop then (True, t1) else y), ct)"
    unfolding list.map fsck_snap_entries.simps Let_def c(5) sp eh entry_is_dir st(1) using y(1) by simp
  moreover have "exact (same_under fs fs0 ds c \<and> (\<forall>n \<in> set ns. same_under fs fs0 ds (e_name (node_entry fs0 n)))) t (if stop then (True, t1) else y)"
    by (rule exact_seq [OF st(2)]) (use y(2) in simp_all)
  ultimately show ?case using c(5) by auto
qed

lemma fsck_dir_exact:
  assumes "stored_tree table (ct_store ct) fs0 p" "vfs_inv fs" "vfs_inv fs0" "paths_fit fs" "paths_fit fs0" "is_admin cred" "blobs_tell fs fs0"
    and "s_sys (ct_store ct) = []" "\<forall>p. mem p = ([], [])" "\<forall>q n. fs_lookup fs0 q = Some n \<longrightarrow> n_type n = VFS_FILE \<longrightarrow> cas_hash_object ''blob'' (n_data n) \<noteq> None"
    and "p = join_path ds" "list_all comp_normal ds" "length (join_path ds) < VFS_PATH_MAX" "dir_at (fs_lookup fs) (join_path ds)"
    and "VFS_PATH_MAX \<le> length (join_path ds) + k"
  shows "\<exists>x. fsck_dir k table mem fs cred fn ct t (join_path ds) (snap_name ''tree'' (dir_text (snap_listing fs0 p))) = (Some x, ct) \<and>
    exact (same_below fs fs0 ds) t x"
  using assms(1,11-)
proof (induction arbitrary: ds k t rule: stored_tree.induct)
  case (1 h ty d p)
  let ?L = "snap_listing fs0 p"
  obtain k' where k: "k = Suc k'" using 1(7,9) by (cases k) simp_all
  have nm: "snap_name ''tree'' (dir_text ?L) = h" using 1(2) by (simp add: snap_name_def)
  obtain dir where load: "cas_tree_load table ct h (new_dir []) = (Some (CAS_OK, dir), ct)" "d_entries dir = ?L"
    using snap_load_quiet [OF 1(3,1) assms(8)] by blast
  obtain ns where ns: "?L = map (node_entry fs0) ns" "set ns = set (kids fs0 (join_path ds))"
    using listing_kids [OF assms(3,5) 1(6)] 1(5) by metis
  have norm: "vfs_normalize VFS_PATH_MAX (join_path ds) = Inr (join_path ds)" by (rule vfs_normalize_join [OF 1(6,7)])
  obtain ctx where li: "vfs_list fs cred (join_path ds) collect_child (new_ctx []) = (0, ctx)"
    using vfs_list_ready [OF norm 1(8) assms(6)] by blast
  have ch: "sc_children ctx = map child_of (kids fs (join_path ds))" using vfs_list_children [OF li refl] norm by (metis sum.inject(2))
  have "\<exists>x. fsck_snap_entries (fsck_dir k' table mem fs cred fn) fs cred fn (join_path ds) (map child_of (kids fs (join_path ds))) ct t
      (map (node_entry fs0) ns) = (Some x, ct) \<and> exact (\<forall>n \<in> set ns. same_under fs fs0 ds (e_name (node_entry fs0 n))) t x"
  proof (rule fsck_entries_exact [OF assms(2-5) 1(6) assms(6,7)])
    show "set ns \<subseteq> set (kids fs0 (join_path ds))" using ns(2) by simp
    show "cas_hash_object ''blob'' (n_data n) \<noteq> None" if "n \<in> set ns" "n_type n = VFS_FILE" for n
      using kid_named [OF assms(3,5) 1(6), of n] that ns(2) assms(10) by metis
    fix n c t
    assume n: "n \<in> set ns" "n_type n = VFS_DIR" "n_path n = join_path (ds @ [c])" "list_all comp_normal (ds @ [c])"
      "length (join_path (ds @ [c])) < VFS_PATH_MAX" "dir_at (fs_lookup fs) (join_path (ds @ [c]))"
    have nk: "n \<in> set (kids fs0 p)" using n(1) ns(2) 1(5) by simp
    then have "length (join_path ds) < length (join_path (ds @ [c]))" using is_child_longer [of p "n_path n"] n(3) 1(5) by (simp add: kids_def)
    then have fu: "VFS_PATH_MAX \<le> length (join_path (ds @ [c])) + k'" using 1(9) k by simp
    have ih: "\<And>ds k t. n_path n = join_path ds \<Longrightarrow> list_all comp_normal ds \<Longrightarrow> length (join_path ds) < VFS_PATH_MAX \<Longrightarrow>
        dir_at (fs_lookup fs) (join_path ds) \<Longrightarrow> VFS_PATH_MAX \<le> length (join_path ds) + k \<Longrightarrow>
        \<exists>x. fsck_dir k table mem fs cred fn ct t (join_path ds) (snap_name ''tree'' (dir_text (snap_listing fs0 (n_path n)))) = (Some x, ct) \<and>
          exact (same_below fs fs0 ds) t x"
      using 1(4) [OF nk] n(2) by blast
    from ih [OF n(3-6) fu] n(2)
    show "\<exists>x. fsck_dir k' table mem fs cred fn ct t (join_path (ds @ [c])) (node_name fs0 n) = (Some x, ct) \<and> exact (same_below fs fs0 (ds @ [c])) t x"
      by (simp add: node_name_def)
  qed
  then obtain stop t1 where en: "fsck_snap_entries (fsck_dir k' table mem fs cred fn) fs cred fn (join_path ds) (map child_of (kids fs (join_path ds))) ct t
      (map (node_entry fs0) ns) = (Some (stop, t1), ct)" "exact (\<forall>n \<in> set ns. same_under fs fs0 ds (e_name (node_entry fs0 n))) t (stop, t1)" by auto
  have len: "length (if join_path ds = root_path then slash # basename_of (c_path c) else join_path ds @ slash # basename_of (c_path c)) < SNAP_PATH_MAX"
    if ch: "c \<in> set (map child_of (kids fs (join_path ds)))" for c
  proof -
    obtain m where m: "m \<in> set (kids fs (join_path ds))" "c = child_of m" using ch by auto
    obtain x where x: "list_all comp_normal (ds @ [x])" "length (join_path (ds @ [x])) < VFS_PATH_MAX" "basename_of (c_path c) = x"
      using kid_named [OF assms(2,4) 1(6) m(1)] m(2) by metis
    show ?thesis unfolding x(3) child_path [OF x(1)] using x(2) by (simp add: SNAP_PATH_MAX_def VFS_PATH_MAX_def)
  qed
  let ?y = "fsck_added fn (join_path ds) ?L t1 (map child_of (kids fs (join_path ds)))"
  have ad: "exact (\<forall>m \<in> set (kids fs (join_path ds)). \<exists>n \<in> set (kids fs0 (join_path ds)). e_name (node_entry fs0 n) = e_name (node_entry fs m)) t1 ?y"
    using fsck_added_exact [OF len, of "map child_of (kids fs (join_path ds))" ?L t1 fn] ns
    by (simp add: node_entry_def snap_entry_def)
  have "fsck_dir k table mem fs cred fn ct t (join_path ds) h = (Some (if stop then (True, t1) else ?y), ct)"
    using k load li ch en(1) ns(1) assms(9) by simp
  moreover have "exact (same_below fs fs0 ds) t (if stop then (True, t1) else ?y)"
    unfolding same_below_names [OF assms(2,3) 1(6) assms(4,5)] ns(2) [symmetric]
    by (rule exact_seq [OF en(2)]) (use ad ns(2) in simp_all)
  ultimately show ?case using nm by simp
qed

end
