(* ===== verification/SnapVector.thy ===== *)
theory SnapVector
  imports HashVector
begin

text \<open>
  The hashes of two more objects, a file of three bytes and the directory with that file as its one entry, computed in
  the same way.
\<close>

section \<open>The file\<close>

definition blob_message :: "byte list" where
  "blob_message =
     bytes_of ''blob 3'' @ [0, 1, 2, 3]"

definition blob_words :: "u64 list" where
  "blob_words =
     [0x1003320626F6C62, 0x302, 0x0, 0x0, 0x0, 0x0, 0x0, 0x0, 0x0, 0x0, 0x0, 0x0, 0x0, 0x0, 0x0, 0x0]"

definition blob_start :: "u64 list" where
  "blob_start =
     [0x6A09E667F2BDC928, 0xBB67AE8584CAA73B, 0x3C6EF372FE94F82B, 0xA54FF53A5F1D36F1, 0x510E527FADE682D1,
     0x9B05688C2B3E6C1F, 0x1F83D9ABFB41BD6B, 0x5BE0CD19137E2179, 0x6A09E667F3BCC908, 0xBB67AE8584CAA73B,
     0x3C6EF372FE94F82B, 0xA54FF53A5F1D36F1, 0x510E527FADE682DB, 0x9B05688C2B3E6C1F, 0xE07C265404BE4294,
     0x5BE0CD19137E2179]"

lemma blob_round0:
  "blake2b_round blob_words
     blob_start (blake2b_sigma ! 0) =
     [0x13BBEFE0C1383038, 0xD78CFDADE4B0F0E8, 0xB01A30C1335A0FB4, 0xFF07B8BD523A6BF9, 0xE0F51589FC17C7BF,
     0x60303C09A8F76C3B, 0xA28E71E972DF111B, 0xD1C958E61962F5E0, 0x1307AE3F2C581A27, 0xF9C7DD15D645B1BF,
     0x84CC0C852DDBBE9D, 0x2398F432CDD0029, 0xEA75B9A38C798C63, 0xD94103F0193A2223, 0x482DCAAC54A0DFED,
     0x181BA980DAB6BD81]"
  by code_simp

lemma blob_round1:
  "blake2b_round blob_words
     [0x13BBEFE0C1383038, 0xD78CFDADE4B0F0E8, 0xB01A30C1335A0FB4, 0xFF07B8BD523A6BF9, 0xE0F51589FC17C7BF,
     0x60303C09A8F76C3B, 0xA28E71E972DF111B, 0xD1C958E61962F5E0, 0x1307AE3F2C581A27, 0xF9C7DD15D645B1BF,
     0x84CC0C852DDBBE9D, 0x2398F432CDD0029, 0xEA75B9A38C798C63, 0xD94103F0193A2223, 0x482DCAAC54A0DFED,
     0x181BA980DAB6BD81] (blake2b_sigma ! 1) =
     [0x95222E5A318643A0, 0xCF86C69824E5FB8C, 0x6CC742F6E3561A09, 0x7046DDAC41B8AC9C, 0xD2D1D2124E6EFAA8,
     0x93A2B8716D13D560, 0x158063BDC6DFF473, 0xEAE86A42F04D5A0F, 0x6AAE5F2F141078EC, 0xFD659D7E3E820ED,
     0x842D5ECBEF625872, 0xD5045C395C15D2EA, 0x6DC884768269A540, 0xB84E137D101C696D, 0x6228A83D07794F3F,
     0x4FF320E6619E9146]"
  by code_simp

lemma blob_round2:
  "blake2b_round blob_words
     [0x95222E5A318643A0, 0xCF86C69824E5FB8C, 0x6CC742F6E3561A09, 0x7046DDAC41B8AC9C, 0xD2D1D2124E6EFAA8,
     0x93A2B8716D13D560, 0x158063BDC6DFF473, 0xEAE86A42F04D5A0F, 0x6AAE5F2F141078EC, 0xFD659D7E3E820ED,
     0x842D5ECBEF625872, 0xD5045C395C15D2EA, 0x6DC884768269A540, 0xB84E137D101C696D, 0x6228A83D07794F3F,
     0x4FF320E6619E9146] (blake2b_sigma ! 2) =
     [0xBFC78E4159315B8D, 0x75DFE030D8BF465F, 0x8DA784FFC5A602F2, 0x80427124ACA5C6A9, 0x716E07910929CEA7,
     0xAEF6829251A1BA6B, 0x38169E6FC7322A61, 0x4C459436523E89E5, 0x4331185E94146966, 0x32AEAFE1F7CDE3C3,
     0x624072D3A7B620DD, 0x4F22CD36DDC3B43E, 0x6C17DB9454409D8B, 0xF12C8F909ED06761, 0x3FC7D694F5AB9481,
     0x4820A551619C5F9F]"
  by code_simp

lemma blob_round3:
  "blake2b_round blob_words
     [0xBFC78E4159315B8D, 0x75DFE030D8BF465F, 0x8DA784FFC5A602F2, 0x80427124ACA5C6A9, 0x716E07910929CEA7,
     0xAEF6829251A1BA6B, 0x38169E6FC7322A61, 0x4C459436523E89E5, 0x4331185E94146966, 0x32AEAFE1F7CDE3C3,
     0x624072D3A7B620DD, 0x4F22CD36DDC3B43E, 0x6C17DB9454409D8B, 0xF12C8F909ED06761, 0x3FC7D694F5AB9481,
     0x4820A551619C5F9F] (blake2b_sigma ! 3) =
     [0x232E5E7569ADDD96, 0x55B3197985B30B6D, 0xD3C904FF67411DE1, 0x2282058474EB575F, 0xEE7E204A21970821,
     0x5BC266C68B8096AA, 0xD1199D47E602A0CE, 0xA67AAEA4C45CF530, 0xB88F4453BB0B6255, 0xD040C7F552E30609,
     0x357E6C48194579B8, 0x65565D668FB7CCCF, 0xE86C4A2AAFAC3B01, 0x99CC7FC289414E6C, 0xC46274C105318CAA,
     0xA2C190EAAE580D96]"
  by code_simp

lemma blob_round4:
  "blake2b_round blob_words
     [0x232E5E7569ADDD96, 0x55B3197985B30B6D, 0xD3C904FF67411DE1, 0x2282058474EB575F, 0xEE7E204A21970821,
     0x5BC266C68B8096AA, 0xD1199D47E602A0CE, 0xA67AAEA4C45CF530, 0xB88F4453BB0B6255, 0xD040C7F552E30609,
     0x357E6C48194579B8, 0x65565D668FB7CCCF, 0xE86C4A2AAFAC3B01, 0x99CC7FC289414E6C, 0xC46274C105318CAA,
     0xA2C190EAAE580D96] (blake2b_sigma ! 4) =
     [0x3E7481F212AE8BE4, 0xDA9758773D4C111B, 0xF6466798B6FB7D31, 0x134F223D99D552FA, 0xEE61D66A3E157BDE,
     0xCFFE0716C5A90FB2, 0xECF69C879B653984, 0x6D9BC9B9CD237C2F, 0x6B4363D283A5621A, 0x94C26B4A9888DAAA,
     0xCE2BACA0CEDC6119, 0x2E8556381F6EC01C, 0x6543135CE63D1AEE, 0xCAC1EA886D0308C9, 0xD2E5A1EC9F4EA941,
     0xBF334F4B1C94853E]"
  by code_simp

lemma blob_round5:
  "blake2b_round blob_words
     [0x3E7481F212AE8BE4, 0xDA9758773D4C111B, 0xF6466798B6FB7D31, 0x134F223D99D552FA, 0xEE61D66A3E157BDE,
     0xCFFE0716C5A90FB2, 0xECF69C879B653984, 0x6D9BC9B9CD237C2F, 0x6B4363D283A5621A, 0x94C26B4A9888DAAA,
     0xCE2BACA0CEDC6119, 0x2E8556381F6EC01C, 0x6543135CE63D1AEE, 0xCAC1EA886D0308C9, 0xD2E5A1EC9F4EA941,
     0xBF334F4B1C94853E] (blake2b_sigma ! 5) =
     [0x59F6E861F6E728C6, 0x19952744DDCC1A21, 0xB5394B7DCF9326F7, 0xF5E58F76A7810932, 0xF5868953AEF3D81D,
     0x23AA224E3FB6CE06, 0xF774CB8CEBD866A3, 0x3AA7F378B989A3C7, 0xA439A98F441998A3, 0xA75B08D56235D3CE,
     0xA56AAC6022B5AFB3, 0x679EFC718BF13274, 0x7DF9C63ED8377709, 0xAD5E49D1BF177851, 0xD65EF5D281A63AD5,
     0x95B3492566CC32D7]"
  by code_simp

lemma blob_round6:
  "blake2b_round blob_words
     [0x59F6E861F6E728C6, 0x19952744DDCC1A21, 0xB5394B7DCF9326F7, 0xF5E58F76A7810932, 0xF5868953AEF3D81D,
     0x23AA224E3FB6CE06, 0xF774CB8CEBD866A3, 0x3AA7F378B989A3C7, 0xA439A98F441998A3, 0xA75B08D56235D3CE,
     0xA56AAC6022B5AFB3, 0x679EFC718BF13274, 0x7DF9C63ED8377709, 0xAD5E49D1BF177851, 0xD65EF5D281A63AD5,
     0x95B3492566CC32D7] (blake2b_sigma ! 6) =
     [0x95C2D68A9F3FB721, 0x695579D6B4BA3A7C, 0x95632E6BB93F0C85, 0xA4C048BFD5DF139B, 0xE555428F34E0E71F,
     0xE7D5FFD6777E3C19, 0x9071DD65BA0D88C2, 0x1A053F4316D26F9F, 0xBCE555B3862F94BA, 0xD4BD8857457EC3B0,
     0x55D7171010B88100, 0x3E2BB17ABA063B37, 0xE09BF68B36F7DBC8, 0x9710F21EAF5A34F0, 0x1D5ADA7D5900F8BE,
     0x8B83039148D53EF0]"
  by code_simp

lemma blob_round7:
  "blake2b_round blob_words
     [0x95C2D68A9F3FB721, 0x695579D6B4BA3A7C, 0x95632E6BB93F0C85, 0xA4C048BFD5DF139B, 0xE555428F34E0E71F,
     0xE7D5FFD6777E3C19, 0x9071DD65BA0D88C2, 0x1A053F4316D26F9F, 0xBCE555B3862F94BA, 0xD4BD8857457EC3B0,
     0x55D7171010B88100, 0x3E2BB17ABA063B37, 0xE09BF68B36F7DBC8, 0x9710F21EAF5A34F0, 0x1D5ADA7D5900F8BE,
     0x8B83039148D53EF0] (blake2b_sigma ! 7) =
     [0xD5FDFC321F87062, 0x7A20D6691307B223, 0x78DD982336EC26FA, 0xC925E3A6FEBA54FC, 0xFF86CC84729F1F7F,
     0x9AC8E1941305A48, 0x77725C9AA0B1EE89, 0xFC33C98C2E58CBDA, 0x6FE44617ABC64803, 0xB036BAC40FC31996,
     0x36544D0D493AA405, 0xFA17BE4EAE7F7E8C, 0xD8EA47DCD84B95B2, 0x4557B4D551793991, 0x123F1510A05F531A,
     0x2BC8B888125BF885]"
  by code_simp

lemma blob_round8:
  "blake2b_round blob_words
     [0xD5FDFC321F87062, 0x7A20D6691307B223, 0x78DD982336EC26FA, 0xC925E3A6FEBA54FC, 0xFF86CC84729F1F7F,
     0x9AC8E1941305A48, 0x77725C9AA0B1EE89, 0xFC33C98C2E58CBDA, 0x6FE44617ABC64803, 0xB036BAC40FC31996,
     0x36544D0D493AA405, 0xFA17BE4EAE7F7E8C, 0xD8EA47DCD84B95B2, 0x4557B4D551793991, 0x123F1510A05F531A,
     0x2BC8B888125BF885] (blake2b_sigma ! 8) =
     [0xA3269F28C069232C, 0x75D8601DFBB20204, 0x1B7124548A5EEE69, 0x7A8905506336176C, 0xD9915587A2111B0C,
     0xBEBD6E1C96CCDBED, 0x3C48B7E456A63246, 0x8F2C699E55C574B4, 0x81AECAC197F7D09E, 0x43179263BFBC202A,
     0xBE482718010FD6D4, 0x9096A41F14439659, 0x77FB5EA01DDF89E2, 0x3CECE9FD4EDDBB33, 0xA6B9F806B18D9B3C,
     0xBF913EDB4833D748]"
  by code_simp

lemma blob_round9:
  "blake2b_round blob_words
     [0xA3269F28C069232C, 0x75D8601DFBB20204, 0x1B7124548A5EEE69, 0x7A8905506336176C, 0xD9915587A2111B0C,
     0xBEBD6E1C96CCDBED, 0x3C48B7E456A63246, 0x8F2C699E55C574B4, 0x81AECAC197F7D09E, 0x43179263BFBC202A,
     0xBE482718010FD6D4, 0x9096A41F14439659, 0x77FB5EA01DDF89E2, 0x3CECE9FD4EDDBB33, 0xA6B9F806B18D9B3C,
     0xBF913EDB4833D748] (blake2b_sigma ! 9) =
     [0xAB74638C3F23A9AC, 0x7721C612A1F3CE03, 0xA88C665D412C2EE9, 0xB101E687ACA9F1B1, 0x9369EBC357DABE97,
     0xE3E742E281B780B0, 0x545E2522FFB46768, 0xA6240D63033BFD5C, 0xA2946973B7616875, 0x72CE10ADB9C585B2,
     0xF4697CA12FC548AE, 0x992E1EBA44F82E97, 0xDA5831A355EF95FA, 0x2AE02EBA6C3CC6A1, 0x6EA102E8C48B0C42,
     0x70988BE6DE8EEC0E]"
  by code_simp

lemma blob_round10:
  "blake2b_round blob_words
     [0xAB74638C3F23A9AC, 0x7721C612A1F3CE03, 0xA88C665D412C2EE9, 0xB101E687ACA9F1B1, 0x9369EBC357DABE97,
     0xE3E742E281B780B0, 0x545E2522FFB46768, 0xA6240D63033BFD5C, 0xA2946973B7616875, 0x72CE10ADB9C585B2,
     0xF4697CA12FC548AE, 0x992E1EBA44F82E97, 0xDA5831A355EF95FA, 0x2AE02EBA6C3CC6A1, 0x6EA102E8C48B0C42,
     0x70988BE6DE8EEC0E] (blake2b_sigma ! 10) =
     [0x3EDC61B99EEBE3A2, 0xD9F093B8D89EF49A, 0xD64BA3AB9855BDE6, 0x55CF462D46773547, 0xA11F06F210222E64,
     0xE395423E888DEFE9, 0x479852AD61CE1137, 0x3F4A94702AAAF0BC, 0x87A24DCD1E224A80, 0x6FD115F949FE03B4,
     0x3A6E9CFA232F4056, 0x52527D1EC4B53E37, 0x15E9A5AFB37E6B72, 0x1DF26891FFCFF103, 0xBF21C2F838B3F5E1,
     0x549CF9CA071658A3]"
  by code_simp

lemma blob_round11:
  "blake2b_round blob_words
     [0x3EDC61B99EEBE3A2, 0xD9F093B8D89EF49A, 0xD64BA3AB9855BDE6, 0x55CF462D46773547, 0xA11F06F210222E64,
     0xE395423E888DEFE9, 0x479852AD61CE1137, 0x3F4A94702AAAF0BC, 0x87A24DCD1E224A80, 0x6FD115F949FE03B4,
     0x3A6E9CFA232F4056, 0x52527D1EC4B53E37, 0x15E9A5AFB37E6B72, 0x1DF26891FFCFF103, 0xBF21C2F838B3F5E1,
     0x549CF9CA071658A3] (blake2b_sigma ! 11) =
     [0xBD19B7CAE260A1B1, 0x12FA3422B5FF2F84, 0x1D29424311CDE54C, 0xD67DBB97B0AED045, 0x769A66183D8C32E9,
     0xE1B11968B8F1E2F2, 0x5140E642ADC7336D, 0xC22B496AE5F56D2B, 0x41172A69341F20FA, 0x87273BF2546A4617,
     0x7B69A8140A577E06, 0xBC99B96622D92405, 0xAD1A62FA332E43C5, 0x7D7D0BA52E7FFA68, 0xFD053297091E34DC,
     0x6104421D59EC85F0]"
  by code_simp

lemmas blob_rounds = blob_round0 blob_round1 blob_round2 blob_round3 blob_round4 blob_round5 blob_round6 blob_round7 blob_round8 blob_round9 blob_round10 blob_round11

definition blob_sum :: "byte list" where
  "blob_sum =
     [0x63, 0x48, 0xC2, 0x24, 0xC4, 0x7B, 0x07, 0x96, 0xA8, 0xCE, 0x5F, 0x65, 0x55, 0xA1, 0xBA, 0x2E, 0x61, 0x63,
     0x0E, 0xE5, 0x25, 0x19, 0x2E, 0x5A, 0xB1, 0xC2, 0x6A, 0xCD, 0xCB, 0xF7, 0xAB, 0xCF]"

theorem blob_digest: "cas_digest blob_message = blob_sum"
proof (rule one_block_digest)
  show "length blob_message = 10" by code_simp
  show "map (\<lambda>i. load64 (drop (i * 8) (blob_message @ replicate (128 - 10) 0))) [0..<16] = blob_words" by code_simp
  show "block_start 10 = blob_start" by code_simp
  show "foldl (blake2b_round blob_words) blob_start blake2b_sigma =
     [0xBD19B7CAE260A1B1, 0x12FA3422B5FF2F84, 0x1D29424311CDE54C, 0xD67DBB97B0AED045, 0x769A66183D8C32E9,
     0xE1B11968B8F1E2F2, 0x5140E642ADC7336D, 0xC22B496AE5F56D2B, 0x41172A69341F20FA, 0x87273BF2546A4617,
     0x7B69A8140A577E06, 0xBC99B96622D92405, 0xAD1A62FA332E43C5, 0x7D7D0BA52E7FFA68, 0xFD053297091E34DC,
     0x6104421D59EC85F0]"
    by (subst sigma_table) (simp only: blob_rounds foldl.simps list.map)
  show "blob_sum = block_out
     [0xBD19B7CAE260A1B1, 0x12FA3422B5FF2F84, 0x1D29424311CDE54C, 0xD67DBB97B0AED045, 0x769A66183D8C32E9,
     0xE1B11968B8F1E2F2, 0x5140E642ADC7336D, 0xC22B496AE5F56D2B, 0x41172A69341F20FA, 0x87273BF2546A4617,
     0x7B69A8140A577E06, 0xBC99B96622D92405, 0xAD1A62FA332E43C5, 0x7D7D0BA52E7FFA68, 0xFD053297091E34DC,
     0x6104421D59EC85F0]"
    by code_simp
qed simp

section \<open>The directory\<close>

definition root_message :: "byte list" where
  "root_message =
     bytes_of (''tree 83'' @ [CHR 0x00] @ ''%100666 0 0 7 0 6348c224c47b0796a8ce5f6555a1ba2e61630ee525192e5ab1c26acdcbf7abcf f'' @ [CHR 0x0A])"

definition root_words :: "u64 list" where
  "root_words =
     [0x33382065657274, 0x2036363630303125, 0x2030203720302030, 0x3432326338343336, 0x3639373062373463,
     0x3536663565633861, 0x6532616231613535, 0x3565653033363136, 0x6135653239313532, 0x6463613632633162,
     0x6663626137666263, 0xA6620, 0x0, 0x0, 0x0, 0x0]"

definition root_start :: "u64 list" where
  "root_start =
     [0x6A09E667F2BDC928, 0xBB67AE8584CAA73B, 0x3C6EF372FE94F82B, 0xA54FF53A5F1D36F1, 0x510E527FADE682D1,
     0x9B05688C2B3E6C1F, 0x1F83D9ABFB41BD6B, 0x5BE0CD19137E2179, 0x6A09E667F3BCC908, 0xBB67AE8584CAA73B,
     0x3C6EF372FE94F82B, 0xA54FF53A5F1D36F1, 0x510E527FADE6828A, 0x9B05688C2B3E6C1F, 0xE07C265404BE4294,
     0x5BE0CD19137E2179]"

lemma root_round0:
  "blake2b_round root_words
     root_start (blake2b_sigma ! 0) =
     [0x295A19B33167DAD7, 0x8587F725A8F4412B, 0x1817A814D69EAEAA, 0x6CFBB79A7426F742, 0xA72E834AC7F31FD7,
     0x50AC4D374A8A3DDD, 0xB367CB77281D98D4, 0x4114E95C8A70659A, 0x64448BA6D315B2A9, 0x25B347EA69AC794A,
     0x3ED71C4077D0ECF6, 0xCA69AB7160A0752F, 0x806E58D8110D5A2B, 0xF49B4E2A1919A40B, 0x72B33648A7D34D0F,
     0x6D39C5269ACC09DA]"
  by code_simp

lemma root_round1:
  "blake2b_round root_words
     [0x295A19B33167DAD7, 0x8587F725A8F4412B, 0x1817A814D69EAEAA, 0x6CFBB79A7426F742, 0xA72E834AC7F31FD7,
     0x50AC4D374A8A3DDD, 0xB367CB77281D98D4, 0x4114E95C8A70659A, 0x64448BA6D315B2A9, 0x25B347EA69AC794A,
     0x3ED71C4077D0ECF6, 0xCA69AB7160A0752F, 0x806E58D8110D5A2B, 0xF49B4E2A1919A40B, 0x72B33648A7D34D0F,
     0x6D39C5269ACC09DA] (blake2b_sigma ! 1) =
     [0x9A105F03478FE465, 0x732A104354DA86C3, 0xFFF1A4DAEA1255AB, 0xEAC40795041D0E28, 0x7D56EA916AFA62B4,
     0xE15A2D5F2A56500, 0xC7529D7EC753C5E, 0x4A37E7B17C47CCA0, 0xC12B8EDC0C149FCB, 0xC0E60AE030A0638D,
     0x5BE83299E0D2F47A, 0x4B02EE69145FD01D, 0x5D4898A0BBB456CB, 0x4D97E0D7770F5D2B, 0xA257B00827678F0E,
     0x362C86D000A0A9C8]"
  by code_simp

lemma root_round2:
  "blake2b_round root_words
     [0x9A105F03478FE465, 0x732A104354DA86C3, 0xFFF1A4DAEA1255AB, 0xEAC40795041D0E28, 0x7D56EA916AFA62B4,
     0xE15A2D5F2A56500, 0xC7529D7EC753C5E, 0x4A37E7B17C47CCA0, 0xC12B8EDC0C149FCB, 0xC0E60AE030A0638D,
     0x5BE83299E0D2F47A, 0x4B02EE69145FD01D, 0x5D4898A0BBB456CB, 0x4D97E0D7770F5D2B, 0xA257B00827678F0E,
     0x362C86D000A0A9C8] (blake2b_sigma ! 2) =
     [0x6F8FE0018FA9648C, 0xF44C0C2DCC10C2AB, 0x4E75559A13C360D1, 0x920A8BFB5E237809, 0x51008D8DB4FB5B6,
     0xC0BBAD5FB890DE39, 0x3B5370C8ABDB6583, 0x4558584B873F1117, 0xA3381A44A16E8B20, 0x8569E899D09C4073,
     0xA3F5BB1256C8105, 0x8655233FFB710C6E, 0xF24A19D28EE32F9E, 0xD6E63F07457B17E1, 0x4943B04D9CB61AEE,
     0x135B88C3E44ED021]"
  by code_simp

lemma root_round3:
  "blake2b_round root_words
     [0x6F8FE0018FA9648C, 0xF44C0C2DCC10C2AB, 0x4E75559A13C360D1, 0x920A8BFB5E237809, 0x51008D8DB4FB5B6,
     0xC0BBAD5FB890DE39, 0x3B5370C8ABDB6583, 0x4558584B873F1117, 0xA3381A44A16E8B20, 0x8569E899D09C4073,
     0xA3F5BB1256C8105, 0x8655233FFB710C6E, 0xF24A19D28EE32F9E, 0xD6E63F07457B17E1, 0x4943B04D9CB61AEE,
     0x135B88C3E44ED021] (blake2b_sigma ! 3) =
     [0xA8C7E855415E38BD, 0xEFD2E604194CF279, 0x24F6A0E5A38A1354, 0xAC0913BF03A40D5F, 0xE538A610CF8E026A,
     0x5C4AABB9CA85D1F2, 0xF49F98F6E4976CCF, 0x9FAF799E175119CB, 0x2823F7B9A51A376D, 0xED9B302CCF415B42,
     0x1AF8DC43DAD0BC71, 0x67617D8800DDD795, 0x33A519957565CC28, 0x18F1D9AEA658455, 0xD3442C275465B7E5,
     0xA8008EC597CBFA14]"
  by code_simp

lemma root_round4:
  "blake2b_round root_words
     [0xA8C7E855415E38BD, 0xEFD2E604194CF279, 0x24F6A0E5A38A1354, 0xAC0913BF03A40D5F, 0xE538A610CF8E026A,
     0x5C4AABB9CA85D1F2, 0xF49F98F6E4976CCF, 0x9FAF799E175119CB, 0x2823F7B9A51A376D, 0xED9B302CCF415B42,
     0x1AF8DC43DAD0BC71, 0x67617D8800DDD795, 0x33A519957565CC28, 0x18F1D9AEA658455, 0xD3442C275465B7E5,
     0xA8008EC597CBFA14] (blake2b_sigma ! 4) =
     [0x46C4EE559C37FC60, 0x5FFFB3C1ADBC03F3, 0xE55099BBEE301749, 0xAFA20C7E9A447984, 0x76CE58B250F6ACA7,
     0x8FEC38A6B9644BDE, 0xEFC4C0DD244D27A0, 0xFD7646169D008DFD, 0x121F6309E45750F8, 0xCEEA189A1E5A39E3,
     0x7A2AEF0692B942E2, 0x4EF62FAD1B047019, 0x37E19FBF4CDE57F8, 0x12D3211EC8193EB3, 0x6656201052DB36B3,
     0xA70563D020845D67]"
  by code_simp

lemma root_round5:
  "blake2b_round root_words
     [0x46C4EE559C37FC60, 0x5FFFB3C1ADBC03F3, 0xE55099BBEE301749, 0xAFA20C7E9A447984, 0x76CE58B250F6ACA7,
     0x8FEC38A6B9644BDE, 0xEFC4C0DD244D27A0, 0xFD7646169D008DFD, 0x121F6309E45750F8, 0xCEEA189A1E5A39E3,
     0x7A2AEF0692B942E2, 0x4EF62FAD1B047019, 0x37E19FBF4CDE57F8, 0x12D3211EC8193EB3, 0x6656201052DB36B3,
     0xA70563D020845D67] (blake2b_sigma ! 5) =
     [0x609FB8DAD7077097, 0x7AA7623AFDCA5EB, 0x486F74C68DA68A16, 0x39CB4E7DEC6194D8, 0xB57DB43C9E352E9F,
     0x2BD5F56B77BC1D34, 0x5C1A09B5C1A80896, 0x4DD339FBDB2DE52C, 0x7C8CEB2381B70C64, 0x2478C128E0485EB9,
     0x943DA522908215DA, 0x1F86C6EAFACD5CF2, 0xC37CEF61F368C361, 0xD909CBE286FBDE33, 0x13EA0AA47C40B7B7,
     0xE96F1D6D0347DA9A]"
  by code_simp

lemma root_round6:
  "blake2b_round root_words
     [0x609FB8DAD7077097, 0x7AA7623AFDCA5EB, 0x486F74C68DA68A16, 0x39CB4E7DEC6194D8, 0xB57DB43C9E352E9F,
     0x2BD5F56B77BC1D34, 0x5C1A09B5C1A80896, 0x4DD339FBDB2DE52C, 0x7C8CEB2381B70C64, 0x2478C128E0485EB9,
     0x943DA522908215DA, 0x1F86C6EAFACD5CF2, 0xC37CEF61F368C361, 0xD909CBE286FBDE33, 0x13EA0AA47C40B7B7,
     0xE96F1D6D0347DA9A] (blake2b_sigma ! 6) =
     [0xEAA54A800E3B562A, 0x7FBE97CF4033D8D9, 0x6739542463C37D0B, 0x2321FF7CADC2BE7C, 0x111A5444B4BA9A45,
     0xBAA2C4455EC22250, 0x14167D3F638F0361, 0xAC1AFB8D488B8A26, 0xA925BDEF7B74D0AC, 0x186BF1FD6D445FE3,
     0x49D350525E7DDF0, 0x5D6F132B7995DA74, 0x11CE05407CE2A90D, 0xD0775F8F4C60F164, 0x5CE4D3B2AC965513,
     0x3ED679357A0BD3D1]"
  by code_simp

lemma root_round7:
  "blake2b_round root_words
     [0xEAA54A800E3B562A, 0x7FBE97CF4033D8D9, 0x6739542463C37D0B, 0x2321FF7CADC2BE7C, 0x111A5444B4BA9A45,
     0xBAA2C4455EC22250, 0x14167D3F638F0361, 0xAC1AFB8D488B8A26, 0xA925BDEF7B74D0AC, 0x186BF1FD6D445FE3,
     0x49D350525E7DDF0, 0x5D6F132B7995DA74, 0x11CE05407CE2A90D, 0xD0775F8F4C60F164, 0x5CE4D3B2AC965513,
     0x3ED679357A0BD3D1] (blake2b_sigma ! 7) =
     [0x99A175197B94BEDF, 0x2564A2A61F2910B6, 0x2F451729D465D01D, 0x1BF99152CFE0AD15, 0x44C1343CC29CE6B3,
     0xDAFAB255B5FA009E, 0x1F99EE2F7E2FA70D, 0xE24C4F6104ADACD1, 0x9A53CB8AAB7C19A7, 0xC15F1EF06D66BEBA,
     0x381C8D1541494A52, 0x4EEC466ED8E4D48F, 0x4FEB3CC277DEC7C7, 0x207F34F78FB6BCE3, 0xD5BBE529A1CCF3D8,
     0xAE98331209C80CF9]"
  by code_simp

lemma root_round8:
  "blake2b_round root_words
     [0x99A175197B94BEDF, 0x2564A2A61F2910B6, 0x2F451729D465D01D, 0x1BF99152CFE0AD15, 0x44C1343CC29CE6B3,
     0xDAFAB255B5FA009E, 0x1F99EE2F7E2FA70D, 0xE24C4F6104ADACD1, 0x9A53CB8AAB7C19A7, 0xC15F1EF06D66BEBA,
     0x381C8D1541494A52, 0x4EEC466ED8E4D48F, 0x4FEB3CC277DEC7C7, 0x207F34F78FB6BCE3, 0xD5BBE529A1CCF3D8,
     0xAE98331209C80CF9] (blake2b_sigma ! 8) =
     [0xBF541DD57AB857F4, 0x668B7AB586B14F0F, 0xC102BFDE45DC6F50, 0x22333E1D54C12340, 0x72D67BD24C997F18,
     0x37BDFA8BD58163A4, 0xA3C442CF6D2A0EB4, 0x2FAFDE5CBC584B13, 0x6C3CD2894D01A284, 0x5F55FF335D274B9,
     0xC29A4370E46DE930, 0x55442F77E0794ACB, 0xFA7C1AAB68EC0D77, 0x9F22B2313A1B9FE0, 0xA141D1EF3BFA9DCD,
     0x93FD368E44BBE018]"
  by code_simp

lemma root_round9:
  "blake2b_round root_words
     [0xBF541DD57AB857F4, 0x668B7AB586B14F0F, 0xC102BFDE45DC6F50, 0x22333E1D54C12340, 0x72D67BD24C997F18,
     0x37BDFA8BD58163A4, 0xA3C442CF6D2A0EB4, 0x2FAFDE5CBC584B13, 0x6C3CD2894D01A284, 0x5F55FF335D274B9,
     0xC29A4370E46DE930, 0x55442F77E0794ACB, 0xFA7C1AAB68EC0D77, 0x9F22B2313A1B9FE0, 0xA141D1EF3BFA9DCD,
     0x93FD368E44BBE018] (blake2b_sigma ! 9) =
     [0x4BB65A9D87ABAC1A, 0x48779D01073E6AB6, 0x7DCB2CB909EA454A, 0x4B763AD6774D268F, 0x8B306B3D2D99615B,
     0x360541128D01BA84, 0xCD1A448FE2A8AB4, 0xAEDF3C0722555FE8, 0x7B702137B73B74CE, 0xCA1E12E98930EBB9,
     0xD9F3A36BC4BB55A2, 0x993F0D4D46DCDE79, 0x62C1EAAB56068500, 0x62C19730E13DBF88, 0xD0871729E36E7122,
     0x5260E2E9467E3707]"
  by code_simp

lemma root_round10:
  "blake2b_round root_words
     [0x4BB65A9D87ABAC1A, 0x48779D01073E6AB6, 0x7DCB2CB909EA454A, 0x4B763AD6774D268F, 0x8B306B3D2D99615B,
     0x360541128D01BA84, 0xCD1A448FE2A8AB4, 0xAEDF3C0722555FE8, 0x7B702137B73B74CE, 0xCA1E12E98930EBB9,
     0xD9F3A36BC4BB55A2, 0x993F0D4D46DCDE79, 0x62C1EAAB56068500, 0x62C19730E13DBF88, 0xD0871729E36E7122,
     0x5260E2E9467E3707] (blake2b_sigma ! 10) =
     [0xCB7EFFEAB8F6388D, 0x1F2F6CF65CF7A9E, 0xB6A7BCA9902AB3D5, 0xDF25520AB7D8017D, 0x6F09F0CC072C898A,
     0x60A6F776BD91197A, 0xABB39ED4F07850B0, 0xA98BC8FBE58CA8FA, 0x95449B49C99FCF7B, 0x50C0F54899FDCD92,
     0x3256C0FB63194FA1, 0x4D02AE4EC0093788, 0x21A52FE0CFE856C6, 0xA923FF430DFA5ADE, 0xD189C0DDAD11FDCF,
     0x70B7EBECD7DD0B6D]"
  by code_simp

lemma root_round11:
  "blake2b_round root_words
     [0xCB7EFFEAB8F6388D, 0x1F2F6CF65CF7A9E, 0xB6A7BCA9902AB3D5, 0xDF25520AB7D8017D, 0x6F09F0CC072C898A,
     0x60A6F776BD91197A, 0xABB39ED4F07850B0, 0xA98BC8FBE58CA8FA, 0x95449B49C99FCF7B, 0x50C0F54899FDCD92,
     0x3256C0FB63194FA1, 0x4D02AE4EC0093788, 0x21A52FE0CFE856C6, 0xA923FF430DFA5ADE, 0xD189C0DDAD11FDCF,
     0x70B7EBECD7DD0B6D] (blake2b_sigma ! 11) =
     [0x6B4CE36741CF6CCD, 0xA75C9547120E1709, 0x4C870D5F6E6BAB8B, 0xFCA9722B555E0F23, 0x62A40F365848A647,
     0x1B0FEAC1E44D3CB1, 0xF0DBBFA6A0E199F1, 0xC33D860110697238, 0x7A1A3C8B5E4DC41F, 0x9330FF4ACD8F8F4,
     0x8C8C836C47EEAA27, 0x297ACA62B316D37, 0x9B4AEBF02529BA37, 0xF282F2FB86C4D6E1, 0xC937DF1CC5141450,
     0xC14A42F62562A96D]"
  by code_simp

lemmas root_rounds = root_round0 root_round1 root_round2 root_round3 root_round4 root_round5 root_round6 root_round7 root_round8 root_round9 root_round10 root_round11

definition root_sum :: "byte list" where
  "root_sum =
     [0xFA, 0x61, 0x3F, 0xED, 0x8B, 0x39, 0x5F, 0x7B, 0xC6, 0x48, 0x1C, 0x3A, 0x36, 0x34, 0x08, 0x15, 0x87, 0xF9,
     0x11, 0xD7, 0x41, 0x7D, 0x65, 0xFC, 0xE5, 0x54, 0x72, 0x21, 0xB7, 0x2B, 0x71, 0x5B]"

theorem root_digest: "cas_digest root_message = root_sum"
proof (rule one_block_digest)
  show "length root_message = 91" by code_simp
  show "map (\<lambda>i. load64 (drop (i * 8) (root_message @ replicate (128 - 91) 0))) [0..<16] = root_words" by code_simp
  show "block_start 91 = root_start" by code_simp
  show "foldl (blake2b_round root_words) root_start blake2b_sigma =
     [0x6B4CE36741CF6CCD, 0xA75C9547120E1709, 0x4C870D5F6E6BAB8B, 0xFCA9722B555E0F23, 0x62A40F365848A647,
     0x1B0FEAC1E44D3CB1, 0xF0DBBFA6A0E199F1, 0xC33D860110697238, 0x7A1A3C8B5E4DC41F, 0x9330FF4ACD8F8F4,
     0x8C8C836C47EEAA27, 0x297ACA62B316D37, 0x9B4AEBF02529BA37, 0xF282F2FB86C4D6E1, 0xC937DF1CC5141450,
     0xC14A42F62562A96D]"
    by (subst sigma_table) (simp only: root_rounds foldl.simps list.map)
  show "root_sum = block_out
     [0x6B4CE36741CF6CCD, 0xA75C9547120E1709, 0x4C870D5F6E6BAB8B, 0xFCA9722B555E0F23, 0x62A40F365848A647,
     0x1B0FEAC1E44D3CB1, 0xF0DBBFA6A0E199F1, 0xC33D860110697238, 0x7A1A3C8B5E4DC41F, 0x9330FF4ACD8F8F4,
     0x8C8C836C47EEAA27, 0x297ACA62B316D37, 0x9B4AEBF02529BA37, 0xF282F2FB86C4D6E1, 0xC937DF1CC5141450,
     0xC14A42F62562A96D]"
    by code_simp
qed simp

end
