(* ===== verification/SnapProps.thy ===== *)
theory SnapProps
  imports SnapFsck SnapVector TreeProps
begin

unbundle bit_operations_syntax

text \<open>
  The properties of the snapshots: what is stored, what is restored, and what the comparison with a snapshot finds.
\<close>

section \<open>An example\<close>

text \<open>One file of three bytes in the root directory.\<close>

definition snap_demo :: vfs where
  "snap_demo = snd (vfs_write demo0 root_cred 7 ''/f'' [1, 2, 3] True)"

definition snap_node :: vfs_node where
  "snap_node = \<lparr>n_path = ''/f'', n_type = VFS_FILE, n_mode = 0x1B6, n_owner = 0, n_size = 3, n_ctime = 7, n_mtime = 7, n_data = [1, 2, 3]\<rparr>"

definition snap_demo_env :: "string \<Rightarrow> snap_env" where
  "snap_demo_env p = \<lparr>sv_children = [], sv_entries = [], sv_text = True, sv_bin = True, sv_junk = []\<rparr>"

lemma snap_demo_nodes: "v_nodes snap_demo = [snap_node]"
  unfolding snap_demo_def snap_node_def by code_simp

lemma snap_demo_write: "vfs_write demo0 root_cred 7 ''/f'' [1, 2, 3] True = (VFS_OK, snap_demo)"
proof (rule prod_eqI)
  show "fst (vfs_write demo0 root_cred 7 ''/f'' [1, 2, 3] True) = fst (VFS_OK, snap_demo)" by code_simp
qed (simp add: snap_demo_def)

lemma snap_demo_inv: "vfs_inv snap_demo" "v_quota snap_demo = 16"
proof -
  have "vfs_reach (Some demo_opts) (2 ^ 64) snap_demo"
    by (rule reach_step [OF reach_new [OF demo0_new], of _ "Write root_cred 7 ''/f'' [1, 2, 3] True" VFS_OK]) (simp_all add: snap_demo_write)
  from reach_inv [OF this] show "vfs_inv snap_demo" "v_quota snap_demo = 16" by (simp_all add: demo_opts_def)
qed

lemma snap_demo_lookup: "fs_lookup snap_demo p = (if p = ''/f'' then Some snap_node else None)"
  by (simp add: snap_demo_nodes snap_node_def nodes_lookup_def)

lemma root_join: "join_path [] = root_path"
  by (simp add: join_path_def)

text \<open>The names of the file and of the directory.\<close>

lemma snap_demo_blob: "cas_hash_object ''blob'' [1, 2, 3] = Some (to_hex blob_sum)"
proof -
  have "format_header CAS_HEADER_MAX ''blob'' 3 = Some (bytes_of ''blob 3'' @ [0])" by code_simp
  moreover have "(bytes_of ''blob 3'' @ [0]) @ [1, 2, 3] = blob_message" by (simp add: blob_message_def)
  ultimately show ?thesis using blob_digest by (simp add: hash_object_eq cas_hash_digest numeral_3_eq_3)
qed

lemma snap_demo_kids: "kids snap_demo root_path = [snap_node]"
  by (simp add: kids_def snap_demo_nodes snap_node_def is_child_def)

definition snap_demo_entry :: cas_tree_entry where
  "snap_demo_entry = \<lparr>e_mode = 0x81B6, e_uid = 0, e_gid = 0, e_mtime_s = 7, e_mtime_ns = 0, e_hash = to_hex blob_sum, e_name = ''f''\<rparr>"

lemma snap_demo_node_entry: "node_entry snap_demo snap_node = snap_demo_entry"
proof -
  have "node_name snap_demo snap_node = to_hex blob_sum"
    using snap_demo_blob by (simp add: node_name_def snap_name_def snap_node_def)
  moreover have "basename_of (snap_text ''/f'') = ''f''" by code_simp
  moreover have "CAS_TREE_S_IFREG OR (0x1B6 AND MODE_MASK) = 0x81B6" by code_simp
  ultimately show ?thesis by (simp add: node_entry_def snap_entry_def child_of_def snap_demo_entry_def snap_node_def)
qed

lemma snap_demo_listing: "snap_listing snap_demo root_path = [snap_demo_entry]"
  by (simp add: snap_listing_eq snap_demo_kids snap_demo_node_entry sorted_entries_def)

lemma snap_demo_hex: "to_hex blob_sum = ''6348c224c47b0796a8ce5f6555a1ba2e61630ee525192e5ab1c26acdcbf7abcf''"
  by code_simp

lemma snap_demo_text:
  "dir_text [snap_demo_entry] = bytes_of (''%100666 0 0 7 0 6348c224c47b0796a8ce5f6555a1ba2e61630ee525192e5ab1c26acdcbf7abcf f'' @ [CHR 0x0A])"
proof -
  have n: "octal06 (unat (0x81B6 :: u32)) = ''100666''" "int_dec (sint (0 :: u32)) = ''0''" "int_dec (sint (7 :: u64)) = ''7''"
    by (simp add: octal06_def octal.simps digit_def, code_simp) (simp add: int_dec_def decimal.simps digit_def, code_simp)+
  have "entry_line snap_demo_entry = octal06 (unat (0x81B6 :: u32)) @ '' '' @ int_dec (sint (0 :: u32)) @ '' '' @ int_dec (sint (0 :: u32)) @ '' '' @
      int_dec (sint (7 :: u64)) @ '' '' @ int_dec (sint (0 :: u32)) @ '' '' @ ''6348c224c47b0796a8ce5f6555a1ba2e61630ee525192e5ab1c26acdcbf7abcf'' @ '' '' @ ''f'' @ [CHR 0x0A]"
    unfolding entry_line_def snap_demo_entry_def snap_demo_hex cas_tree_entry.simps by (rule refl)
  also have "\<dots> = ''100666 0 0 7 0 6348c224c47b0796a8ce5f6555a1ba2e61630ee525192e5ab1c26acdcbf7abcf f'' @ [CHR 0x0A]" unfolding n by (simp only: append_Cons append_Nil)
  finally show ?thesis unfolding dir_text_def list.map concat.simps by (simp only: append_Nil2 append_Cons append_Nil list.map)
qed

lemma snap_demo_tree: "cas_hash_object ''tree'' (dir_text [snap_demo_entry]) = Some (to_hex root_sum)"
proof -
  let ?t = "bytes_of (''%100666 0 0 7 0 6348c224c47b0796a8ce5f6555a1ba2e61630ee525192e5ab1c26acdcbf7abcf f'' @ [CHR 0x0A])"
  have l: "length ?t = 83" by code_simp
  have f: "format_header CAS_HEADER_MAX ''tree'' 83 = Some (bytes_of ''tree 83'' @ [0])" by code_simp
  have m: "(bytes_of ''tree 83'' @ [0]) @ ?t = root_message" unfolding root_message_def by code_simp
  show ?thesis unfolding hash_object_eq snap_demo_text l f option.case cas_hash_digest m root_digest by (rule refl)
qed

lemma snap_demo_dir: "dir_at (fs_lookup snap_demo) p \<longleftrightarrow> p = root_path"
  by (auto simp: dir_at_def snap_demo_lookup snap_node_def)

lemma snap_demo_fits: "snap_fits table CAS_COMPRESS_NEVER CAS_CODEC_NONE snap_demo" "names_fit snap_demo" "paths_fit snap_demo"
proof -
  have "htree_size [snap_demo_entry] \<le> 10000"
    by (simp add: htree_size_def record_len_def htree_consts snap_demo_entry_def)
  then have "dir_fits [snap_demo_entry]"
    unfolding dir_fits_def snap_demo_text by (simp add: MAX_FILE_def CAS_PACK_BLOCK_def)
  moreover have pf: "paths_fit snap_demo" by (simp add: paths_fit_def snap_demo_lookup VFS_PATH_MAX_def)
  ultimately show "snap_fits table CAS_COMPRESS_NEVER CAS_CODEC_NONE snap_demo" "paths_fit snap_demo"
    by (simp_all add: snap_fits_def snap_demo_lookup snap_demo_dir snap_demo_listing snap_node_def demo_storable z_fits_def)
  have "name_ok (basename_of ''/f'')" by code_simp
  then show "names_fit snap_demo" by (simp add: names_fit_def snap_demo_lookup)
qed

lemma snap_demo_objs: "snap_objs snap_demo = {Snap_blob [1, 2, 3], Snap_dir [snap_demo_entry]}"
  by (auto simp: snap_objs_def snap_demo_lookup snap_demo_dir snap_demo_listing snap_node_def)

lemma snap_demo_tells: "tells table demo_store (snap_objs snap_demo)"
proof -
  have "to_hex blob_sum \<noteq> to_hex root_sum" by code_simp
  then show ?thesis by (simp add: tells_def snap_demo_objs demo_store_facts snap_demo_blob snap_demo_tree)
qed

lemma snap_demo_ready:
  "codec_ok (codec_table [])" "depot_ready (codec_table []) (demo_tree flags)" "is_admin root_cred" "snap_quiet (snap_demo_env p)"
  "store_inv (codec_table []) (ct_store (demo_tree flags))" "tells table (ct_store (demo_tree flags)) (snap_objs snap_demo)"
  using codec_none_ok demo_store_facts snap_demo_tells
  by (simp_all add: depot_ready_def demo_tree_def snap_quiet_def snap_demo_env_def root_cred_def)

section \<open>Storing\<close>

text \<open>
  A snapshot succeeds: when the caller is the administrator, nothing fails, the depot path is not too long, the objects
  fit, and the names are ones a directory object accepts. A depth of 4096 is enough, because paths are shorter.
\<close>

theorem snapshot_succeeds:
  assumes "codec_ok table" "vfs_inv fs" "snap_fits table CAS_COMPRESS_NEVER CAS_CODEC_NONE fs" "names_fit fs" "is_admin cred"
    and "\<forall>p. snap_quiet (env p)" "store_inv table (ct_store ct)" "s_sys (ct_store ct) = []" "length (s_basedir (ct_store ct)) \<le> 400"
    and "VFS_PATH_MAX \<le> fuel"
  shows "\<exists>h ct'. vfs_snap_store fuel table cfg env fs cred ct = (Some (Inr h), ct') \<and> s_sys (ct_store ct') = [] \<and>
    cas_hash_object ''tree'' (dir_text (snap_listing fs root_path)) = Some h"
proof -
  have r: "depot_ready table ct" using assms(7-9) by (simp add: depot_ready_def)
  have d: "dir_at (fs_lookup fs) (join_path [])" by (simp add: dir_at_def root_join)
  have "\<exists>h ct'. snap_dir fuel table cfg CAS_COMPRESS_NEVER CAS_CODEC_NONE env fs cred ct (join_path []) = (Some (Inr h), ct') \<and>
      depot_ready table ct'"
    by (rule snap_dir_progress [OF assms(1-6) _ d _ r]) (use assms(10) in \<open>simp_all add: root_join VFS_PATH_MAX_def\<close>)
  then obtain h ct' where
    run: "snap_dir fuel table cfg CAS_COMPRESS_NEVER CAS_CODEC_NONE env fs cred ct (join_path []) = (Some (Inr h), ct')" "depot_ready table ct'"
    by blast
  moreover have "paths_fit fs" using assms(3) by (simp add: snap_fits_def)
  ultimately show ?thesis
    using snap_dir_name [OF assms(2) _ _ run(1)] by (auto simp: vfs_snap_store_def root_join depot_ready_def)
qed

theorem snapshot_succeeds_witness:
  "\<exists>ct'. vfs_snap_store 4096 (codec_table []) default_compress_cfg snap_demo_env snap_demo root_cred (demo_tree 0) =
    (Some (Inr (to_hex root_sum)), ct')"
proof -
  have "VFS_PATH_MAX \<le> 4096" by (simp add: VFS_PATH_MAX_def)
  from snapshot_succeeds [where env = snap_demo_env and ct = "demo_tree 0" and cfg = default_compress_cfg,
      OF snap_demo_ready(1) snap_demo_inv(1) snap_demo_fits(1,2) snap_demo_ready(3) _ snap_demo_ready(5) _ _ this] snap_demo_ready(4)
  obtain h ct' where "vfs_snap_store 4096 (codec_table []) default_compress_cfg snap_demo_env snap_demo root_cred (demo_tree 0) = (Some (Inr h), ct')"
    "cas_hash_object ''tree'' (dir_text (snap_listing snap_demo root_path)) = Some h" by (auto simp: demo_tree_def demo_store_facts)
  then show ?thesis by (simp add: snap_demo_listing snap_demo_tree)
qed

text \<open>The run that the examples share, with either format of directories.\<close>

lemma snap_demo_run:
  obtains ct' where "vfs_snap_store_z 4096 (codec_table []) default_compress_cfg snap_demo_env snap_demo root_cred (demo_tree flags)
      CAS_COMPRESS_NEVER CAS_CODEC_NONE = (Some (Inr (to_hex root_sum)), ct')" "s_sys (ct_store ct') = []"
proof -
  have d: "dir_at (fs_lookup snap_demo) (join_path [])" by (simp add: dir_at_def root_join)
  have "\<exists>h ct'. snap_dir 4096 (codec_table []) default_compress_cfg CAS_COMPRESS_NEVER CAS_CODEC_NONE snap_demo_env snap_demo root_cred
      (demo_tree flags) (join_path []) = (Some (Inr h), ct') \<and> depot_ready (codec_table []) ct'"
    by (rule snap_dir_progress [OF snap_demo_ready(1) snap_demo_inv(1) snap_demo_fits(1,2) snap_demo_ready(3) _ _ d _ snap_demo_ready(2)])
      (simp_all add: root_join VFS_PATH_MAX_def snap_demo_ready(4))
  then obtain h ct' where r: "snap_dir 4096 (codec_table []) default_compress_cfg CAS_COMPRESS_NEVER CAS_CODEC_NONE snap_demo_env snap_demo root_cred
      (demo_tree flags) (join_path []) = (Some (Inr h), ct')" "depot_ready (codec_table []) ct'" by blast
  from snap_dir_name [OF snap_demo_inv(1) snap_demo_fits(3) _ r(1)] have "h = to_hex root_sum"
    by (simp add: root_join snap_demo_listing snap_demo_tree)
  with r that show thesis by (simp add: vfs_snap_store_z_def root_join depot_ready_def)
qed

text \<open>
  The name of a snapshot depends on nothing but the filesystem: it is the hash of the text of its root directory, whatever
  the depot, the caller, the format of directories, the compression, the allocations, and the calls that failed and were
  made good.
\<close>

theorem snapshot_name:
  assumes "vfs_inv fs" "paths_fit fs"
    and "vfs_snap_store_z fuel table cfg env fs cred ct policy codec = (Some (Inr h), ct')"
    and "vfs_snap_store_z fuel2 table2 cfg2 env2 fs cred2 ct2 policy2 codec2 = (Some (Inr h2), ct2')"
  shows "cas_hash_object ''tree'' (dir_text (snap_listing fs root_path)) = Some h \<and> h2 = h"
proof -
  have "cas_hash_object ''tree'' (dir_text (snap_listing fs (join_path []))) = Some h"
    using snap_dir_name [OF assms(1,2), of "[]"] assms(3) by (simp add: vfs_snap_store_z_def root_join)
  moreover have "cas_hash_object ''tree'' (dir_text (snap_listing fs (join_path []))) = Some h2"
    using snap_dir_name [OF assms(1,2), of "[]"] assms(4) by (simp add: vfs_snap_store_z_def root_join)
  ultimately show ?thesis by (simp add: root_join)
qed

theorem snapshot_name_witness:
  "\<exists>h ct1 ct2. vfs_snap_store_z 4096 (codec_table []) default_compress_cfg snap_demo_env snap_demo root_cred (demo_tree 0)
      CAS_COMPRESS_NEVER CAS_CODEC_NONE = (Some (Inr h), ct1) \<and>
    vfs_snap_store_z 4096 (codec_table []) default_compress_cfg snap_demo_env snap_demo root_cred (demo_tree CAS_TREE_USE_HTREE)
      CAS_COMPRESS_NEVER CAS_CODEC_NONE = (Some (Inr h), ct2)"
proof -
  obtain ct1 where 1: "vfs_snap_store_z 4096 (codec_table []) default_compress_cfg snap_demo_env snap_demo root_cred (demo_tree 0)
      CAS_COMPRESS_NEVER CAS_CODEC_NONE = (Some (Inr (to_hex root_sum)), ct1)" by (rule snap_demo_run)
  obtain ct2 where 2: "vfs_snap_store_z 4096 (codec_table []) default_compress_cfg snap_demo_env snap_demo root_cred (demo_tree CAS_TREE_USE_HTREE)
      CAS_COMPRESS_NEVER CAS_CODEC_NONE = (Some (Inr (to_hex root_sum)), ct2)" by (rule snap_demo_run)
  from snapshot_name [OF snap_demo_inv(1) snap_demo_fits(3) 1 2] 1 2 show ?thesis by blast
qed

text \<open>
  C32. Whatever fails and wherever the snapshot stops, the depot keeps its integrity and every object it had, and it only
  gains files and directories of the filesystem, under their names. The filesystem must fit a depot (\<open>snap_fits\<close>): paths
  are shorter than \<open>VFS_PATH_MAX\<close>, contents and listings stay below the 1 GiB that a reader accepts, and what
  the codec makes of a file inflates within the bounds of the reader.
\<close>

theorem snapshot_grows:
  assumes "codec_ok table" "vfs_inv fs" "snap_fits table policy codec fs" "store_inv table (ct_store ct)"
    and "vfs_snap_store_z fuel table cfg env fs cred ct policy codec = (r, ct')"
  shows "store_inv table (ct_store ct') \<and> (\<forall>k. get_object table (ct_store ct') k = get_object table (ct_store ct) k \<or>
    get_object table (ct_store ct) k = None \<and> (\<exists>ob \<in> snap_objs fs. obj_name ob = Some k \<and>
      (\<exists>y. get_object table (ct_store ct') k = Some y \<and> obj_is ob y)))"
  using snap_dir_grown [OF assms(1-3) _ assms(4), of "[]"] assms(5)
  by (simp add: vfs_snap_store_z_def root_join grown_def)

theorem snapshot_grows_witness:
  "\<exists>ct'. vfs_snap_store_z 4096 (codec_table []) default_compress_cfg snap_demo_env snap_demo root_cred (demo_tree 0)
      CAS_COMPRESS_NEVER CAS_CODEC_NONE = (Some (Inr (to_hex root_sum)), ct') \<and> store_inv (codec_table []) (ct_store ct')"
proof -
  obtain ct' where r: "vfs_snap_store_z 4096 (codec_table []) default_compress_cfg snap_demo_env snap_demo root_cred (demo_tree 0)
      CAS_COMPRESS_NEVER CAS_CODEC_NONE = (Some (Inr (to_hex root_sum)), ct')" by (rule snap_demo_run)
  from snapshot_grows [OF snap_demo_ready(1) snap_demo_inv(1) snap_demo_fits(1) snap_demo_ready(5) r] r show ?thesis by blast
qed

section \<open>Restoring\<close>

lemma stored_snapshot:
  assumes "codec_ok table" "vfs_inv fs" "snap_fits table policy codec fs" "store_inv table (ct_store ct)" "tells table (ct_store ct) (snap_objs fs)"
    and "vfs_snap_store_z fuel table cfg env fs cred ct policy codec = (Some (Inr h), ct1)" "extends_store table (ct_store ct1) (ct_store ct2)"
  shows "stored_tree table (ct_store ct2) fs (join_path [])" "snap_name ''tree'' (dir_text (snap_listing fs (join_path []))) = h" "paths_fit fs"
proof -
  have run: "snap_dir fuel table cfg policy codec env fs cred ct (join_path []) = (Some (Inr h), ct1)"
    using assms(6) by (simp add: vfs_snap_store_z_def root_join)
  have "stored_tree table (ct_store ct1) fs (join_path [])" using snap_dir_grown [OF assms(1-3) _ assms(4) run] assms(5) by simp
  then show "stored_tree table (ct_store ct2) fs (join_path [])" by (rule stored_tree_extends [OF _ assms(7)])
  show "paths_fit fs" using assms(3) by (simp add: snap_fits_def)
  with snap_dir_name [OF assms(2) _ _ run] show "snap_name ''tree'' (dir_text (snap_listing fs (join_path []))) = h" by (simp add: snap_name_def)
qed

lemma depth_le_length: "list_all comp_normal cs \<Longrightarrow> length cs \<le> length (join_path cs)"
  using count_le_plen [of cs] by (auto simp: length_join_path comp_normal_def list_all_iff)

lemma strip_slashes_join:
  assumes "list_all comp_normal (bs @ [b])"
  shows "strip_slashes (join_path (bs @ [b])) = join_path (bs @ [b])"
proof -
  obtain u x where b: "b = u @ [x]" "x \<noteq> slash" using assms by (cases b rule: rev_cases) (auto simp: comp_normal_def)
  obtain t where t: "join_path (bs @ [b]) = slash # t" using join_path_nonempty [of "bs @ [b]"] by (cases "join_path (bs @ [b])") auto
  moreover have "last (join_path (bs @ [b])) = x" using b by (simp add: join_path_def)
  ultimately have "t \<noteq> [] \<Longrightarrow> last t \<noteq> slash" using b(2) by (auto split: if_splits)
  then have "dropWhile (\<lambda>c. c = slash) (rev t) = rev t" by (cases t rule: rev_cases) simp_all
  with t show ?thesis by (simp add: strip_slashes_def)
qed

text \<open>
  C8. What was stored can be restored below a new directory, from the same depot or one that holds more: the run succeeds,
  below the directory there are exactly the paths of the snapshot with their types and contents, and nothing else is
  changed. Modes, owners and times are not restored by the code and not claimed. The snapshot may have been made under any
  failures that it survived, with any format of directories and any compression; while it is restored no call fails. The
  filesystem that is filled has no quota, its new directory is a legal path that is free and whose parent exists, and the
  longer paths stay below \<open>VFS_PATH_MAX\<close>. The stored filesystem fits a depot (\<open>snap_fits\<close>), and no two of its objects, and no
  object of the depot, share a name with different contents (\<open>tells\<close>).
\<close>

theorem snapshot_roundtrip:
  assumes "codec_ok table" "vfs_inv fs" "snap_fits table policy codec fs" "store_inv table (ct_store ct0)" "tells table (ct_store ct0) (snap_objs fs)"
    and "vfs_snap_store_z k table cfg env fs cred0 ct0 policy codec = (Some (Inr h), ct1)"
    and "extends_store table (ct_store ct1) (ct_store ct)" "s_sys (ct_store ct) = []"
    and "vfs_ready fs1" "list_all comp_normal (bs @ [b])" "list_all comp_legal (bs @ [b])" "dir_at (fs_lookup fs1) (join_path bs)"
    and "fs_lookup fs1 (join_path (bs @ [b])) = None" "length (join_path (bs @ [b])) < VFS_PATH_MAX"
    and "\<forall>cs. rel_path cs \<longrightarrow> fs_lookup fs (join_path cs) \<noteq> None \<longrightarrow> length (join_path ((bs @ [b]) @ cs)) < VFS_PATH_MAX"
    and "VFS_PATH_MAX \<le> fuel"
  shows "\<exists>fs2. vfs_snap_restore_at fuel table (\<lambda>_. []) now fs1 cred ct (Some (join_path (bs @ [b]))) h = (Some CAS_OK, fs2, ct) \<and>
    (\<forall>cs. rel_path cs \<longrightarrow> kind_at fs2 ((bs @ [b]) @ cs) = kind_at fs cs) \<and>
    (\<forall>q. (\<forall>cs. list_all comp_normal cs \<longrightarrow> q \<noteq> join_path ((bs @ [b]) @ cs)) \<longrightarrow> fs_lookup fs2 q = fs_lookup fs1 q)"
proof -
  let ?B = "bs @ [b]"
  note st = stored_snapshot [OF assms(1-7)]
  obtain fsm n where m: "vfs_mkdir fs1 cred (now (join_path ?B)) (join_path ?B) True = (VFS_OK, fsm)" "vfs_ready fsm"
    "fs_lookup fsm = (fs_lookup fs1)(join_path ?B \<mapsto> n)" "n_type n = VFS_DIR" "n_data n = []"
    using mkdir_new [OF assms(9,10,11,14,12,13)] by blast
  have da: "dir_at (fs_lookup fsm) (join_path ?B)" using m(3,4) by (simp add: dir_at_def)
  have inv: "vfs_inv fs1" using assms(9) by (simp add: vfs_ready_def)
  have empty: "fs_lookup fsm (join_path (?B @ cs)) = None" if cs: "rel_path cs" for cs
  proof -
    have "fs_lookup fs1 (join_path (?B @ cs)) = None" using below_none [OF inv assms(13), of cs] assms(10) cs by simp
    moreover have "join_path (?B @ cs) \<noteq> join_path ?B" using join_path_tail [of ?B cs "[]"] assms(10) cs by auto
    ultimately show ?thesis using m(3) by simp
  qed
  have fu: "0 < fuel" using assms(16) by (simp add: VFS_PATH_MAX_def)
  have "room fs [] ?B fuel"
    unfolding room_def
  proof (intro allI impI)
    fix cs
    assume cs: "rel_path cs" "fs_lookup fs (join_path ([] @ cs)) \<noteq> None"
    have "length cs \<le> length (join_path (?B @ cs))" using depth_le_length [of "?B @ cs"] cs(1) assms(10) by simp
    moreover have "length (join_path (?B @ cs)) < VFS_PATH_MAX" using assms(15) cs by simp
    ultimately show "length cs < fuel \<and> length (join_path (?B @ cs)) < VFS_PATH_MAX" using assms(16) by simp
  qed
  from restore_dir_spec [OF st(1) assms(2) st(3) assms(8) refl _ assms(10,11) m(2) da empty fu this]
  have "restores table ct fs [] (restore_dir fuel table (\<lambda>_. []) now cred) ?B fsm h" using st(2) by simp
  then obtain fs2 where r: "restore_dir fuel table (\<lambda>_. []) now cred (fsm, ct) (join_path ?B) h = (Some CAS_OK, fs2, ct)"
    "placed fs [] fsm ?B UNIV fs2" unfolding restores_def by blast
  have len: "\<not> SNAP_PATH_MAX \<le> length (join_path ?B)" using assms(14) by (simp add: VFS_PATH_MAX_def SNAP_PATH_MAX_def)
  have "vfs_snap_restore_at fuel table (\<lambda>_. []) now fs1 cred ct (Some (join_path ?B)) h = (Some CAS_OK, fs2, ct)"
    using m(1) r(1) len strip_slashes_join [OF assms(10)] by (simp add: vfs_snap_restore_at_def)
  moreover have "kind_at fs2 (?B @ cs) = kind_at fs cs" if "rel_path cs" for cs using r(2) that by (simp add: placed_def)
  moreover have "fs_lookup fs2 q = fs_lookup fs1 q" if q: "\<forall>cs. list_all comp_normal cs \<longrightarrow> q \<noteq> join_path (?B @ cs)" for q
  proof -
    have "q \<noteq> join_path ?B" using q by (auto dest: spec [of _ "[]"])
    moreover have "fs_lookup fs2 q = fs_lookup fsm q" using r(2) q unfolding placed_def by simp
    ultimately show ?thesis using m(3) by simp
  qed
  ultimately show ?thesis by blast
qed

definition empty_vfs :: vfs where
  "empty_vfs = \<lparr>v_nodes = [], v_cap = 64, v_usage = 0, v_quota = 0, v_umask = 0, v_mem = []\<rparr>"

lemma empty_vfs_facts: "vfs_ready empty_vfs" "fs_lookup empty_vfs p = None"
proof -
  have "vfs_new None [] = Some empty_vfs" by code_simp
  from reach_inv [OF reach_new [OF this], of "2 ^ 64"] show "vfs_ready empty_vfs" by (simp add: vfs_ready_def empty_vfs_def)
  show "fs_lookup empty_vfs p = None" by (simp add: empty_vfs_def nodes_lookup_def)
qed

theorem snapshot_roundtrip_witness:
  "\<exists>h ct fs2. vfs_snap_store_z 4096 (codec_table []) default_compress_cfg snap_demo_env snap_demo root_cred (demo_tree 0)
      CAS_COMPRESS_NEVER CAS_CODEC_NONE = (Some (Inr h), ct) \<and>
    vfs_snap_restore_at 4096 (codec_table []) (\<lambda>_. []) (\<lambda>_. 9) empty_vfs root_cred ct (Some ''/r'') h = (Some CAS_OK, fs2, ct) \<and>
    kind_at fs2 [''r'', ''f''] = Some (VFS_FILE, [1, 2, 3])"
proof -
  obtain ct where r: "vfs_snap_store_z 4096 (codec_table []) default_compress_cfg snap_demo_env snap_demo root_cred (demo_tree 0)
      CAS_COMPRESS_NEVER CAS_CODEC_NONE = (Some (Inr (to_hex root_sum)), ct)" "s_sys (ct_store ct) = []" by (rule snap_demo_run)
  have p: "list_all comp_normal ([] @ [''r''])" "list_all comp_legal ([] @ [''r''])" "length (join_path ([] @ [''r''])) < VFS_PATH_MAX"
    "dir_at (fs_lookup empty_vfs) (join_path [])" "VFS_PATH_MAX \<le> 4096" "join_path [''r''] = ''/r''"
    by (simp_all add: comp_normal_def comp_legal_def illegal_chars_def join_path_def VFS_PATH_MAX_def dir_at_def ascii_def)
  have l: "\<forall>cs. rel_path cs \<longrightarrow> fs_lookup snap_demo (join_path cs) \<noteq> None \<longrightarrow> length (join_path (([] @ [''r'']) @ cs)) < VFS_PATH_MAX"
  proof (intro allI impI)
    fix cs
    assume cs: "rel_path cs" "fs_lookup snap_demo (join_path cs) \<noteq> None"
    then have "join_path cs = join_path [''f'']" by (simp add: snap_demo_lookup join_path_def split: if_splits)
    then have "cs = [''f'']" using cs(1) join_path_inj [of cs "[''f'']"] by (simp add: comp_normal_def)
    then show "length (join_path (([] @ [''r'']) @ cs)) < VFS_PATH_MAX" by (simp add: join_path_def VFS_PATH_MAX_def)
  qed
  from snapshot_roundtrip [OF snap_demo_ready(1) snap_demo_inv(1) snap_demo_fits(1) snap_demo_ready(5,6) r(1) extends_store_refl r(2)
      empty_vfs_facts(1) p(1,2,4) empty_vfs_facts(2) p(3) l p(5), of "\<lambda>_. 9" root_cred] obtain fs2 where
    f: "vfs_snap_restore_at 4096 (codec_table []) (\<lambda>_. []) (\<lambda>_. 9) empty_vfs root_cred ct (Some ''/r'') (to_hex root_sum) = (Some CAS_OK, fs2, ct)"
      "\<And>cs. rel_path cs \<Longrightarrow> kind_at fs2 ([''r''] @ cs) = kind_at snap_demo cs" using p(6) by auto
  have "kind_at snap_demo [''f''] = Some (VFS_FILE, [1, 2, 3])"
    by (simp add: kind_at_def snap_demo_lookup join_path_def node_kind_def snap_node_def)
  with f(2) [of "[''f'']"] f(1) r(1) show ?thesis by (auto simp: comp_normal_def)
qed

section \<open>Comparing\<close>

lemma storable_hash: "storable t d \<Longrightarrow> \<exists>h. cas_hash_object t d = Some h"
  using format_header_fits(1) [of t "length d"] storable_fit [of t d] by (auto simp: hash_object_eq)

text \<open>
  C11. The comparison of a filesystem with a snapshot is exact: when nothing fails and the caller is the administrator, it
  reports \<open>CAS_OK\<close> exactly if both have the same paths with the same types and contents, and then the caller's function was
  not called once; otherwise it reports \<open>CAS_ERR\<close>, also if that function stops it early. The snapshot is one of a filesystem
  that fits a depot, stored there or in a depot that holds more since, and names tell objects apart: those stored
  (\<open>tells\<close>), and the files compared under one path (\<open>blobs_tell\<close>).
\<close>

theorem snapshot_fsck_exact:
  assumes "codec_ok table" "vfs_inv fs0" "snap_fits table policy codec fs0" "store_inv table (ct_store ct0)" "tells table (ct_store ct0) (snap_objs fs0)"
    and "vfs_snap_store_z k table cfg env fs0 cred0 ct0 policy codec = (Some (Inr h), ct1)"
    and "extends_store table (ct_store ct1) (ct_store ct)" "s_sys (ct_store ct) = []"
    and "vfs_inv fs" "paths_fit fs" "is_admin cred" "blobs_tell fs fs0" "\<forall>p. mem p = ([], [])" "VFS_PATH_MAX \<le> fuel"
  shows "\<exists>rc c'. vfs_snap_fsck fuel table mem fs cred ct h fn c = (Some (rc, c'), ct) \<and>
    (rc = CAS_OK \<longleftrightarrow> (\<forall>cs. rel_path cs \<longrightarrow> kind_at fs cs = kind_at fs0 cs)) \<and> (rc = CAS_OK \<longrightarrow> c' = c) \<and> rc \<in> {CAS_OK, CAS_ERR}"
proof -
  note st = stored_snapshot [OF assms(1-7)]
  have hb: "\<forall>q n. fs_lookup fs0 q = Some n \<longrightarrow> n_type n = VFS_FILE \<longrightarrow> cas_hash_object ''blob'' (n_data n) \<noteq> None"
    using assms(3) storable_hash unfolding snap_fits_def by (metis option.distinct(1))
  have d: "dir_at (fs_lookup fs) (join_path [])" by (simp add: dir_at_def root_join)
  have "\<exists>x. fsck_dir fuel table mem fs cred fn ct (0, c) (join_path []) (snap_name ''tree'' (dir_text (snap_listing fs0 (join_path [])))) = (Some x, ct) \<and>
      exact (same_below fs fs0 []) (0, c) x"
    by (rule fsck_dir_exact [OF st(1) assms(9,2,10) st(3) assms(11,12,8,13) hb refl _ _ d])
      (use assms(14) in \<open>simp_all add: root_join VFS_PATH_MAX_def\<close>)
  then obtain stop e c' where x: "fsck_dir fuel table mem fs cred fn ct (0, c) root_path h = (Some (stop, e, c'), ct)"
    "exact (same_below fs fs0 []) (0, c) (stop, e, c')" using st(2) by (auto simp: root_join)
  have "e = 0 \<longleftrightarrow> same_below fs fs0 []" "e = 0 \<Longrightarrow> c' = c" using x(2) by (auto simp: exact_def)
  with x(1) show ?thesis by (cases "e = 0") (auto simp: vfs_snap_fsck_def same_below_def)
qed

theorem snapshot_fsck_exact_witness:
  "\<exists>h ct rc. vfs_snap_store_z 4096 (codec_table []) default_compress_cfg snap_demo_env snap_demo root_cred (demo_tree 0)
      CAS_COMPRESS_NEVER CAS_CODEC_NONE = (Some (Inr h), ct) \<and>
    vfs_snap_fsck 4096 (codec_table []) (\<lambda>_. ([], [])) snap_demo root_cred ct h None () = (Some (CAS_OK, ()), ct) \<and>
    vfs_snap_fsck 4096 (codec_table []) (\<lambda>_. ([], [])) empty_vfs root_cred ct h None () = (Some (CAS_ERR, ()), ct)"
proof -
  obtain ct where r: "vfs_snap_store_z 4096 (codec_table []) default_compress_cfg snap_demo_env snap_demo root_cred (demo_tree 0)
      CAS_COMPRESS_NEVER CAS_CODEC_NONE = (Some (Inr (to_hex root_sum)), ct)" "s_sys (ct_store ct) = []" by (rule snap_demo_run)
  have m: "\<forall>p. (\<lambda>_ :: string. ([] :: bool list, [] :: bool list)) p = ([], [])" "VFS_PATH_MAX \<le> 4096" by (simp_all add: VFS_PATH_MAX_def)
  have b: "blobs_tell snap_demo snap_demo" "blobs_tell empty_vfs snap_demo" "vfs_inv empty_vfs" "paths_fit empty_vfs"
    using empty_vfs_facts by (simp_all add: blobs_tell_def snap_demo_lookup snap_node_def snap_demo_blob vfs_ready_def paths_fit_def)
  note base = snapshot_fsck_exact [OF snap_demo_ready(1) snap_demo_inv(1) snap_demo_fits(1) snap_demo_ready(5,6) r(1) extends_store_refl r(2)]
  have 1: "vfs_snap_fsck 4096 (codec_table []) (\<lambda>_. ([], [])) snap_demo root_cred ct (to_hex root_sum) None () = (Some (CAS_OK, ()), ct)"
    using base [OF snap_demo_inv(1) snap_demo_fits(3) snap_demo_ready(3) b(1) m, of None "()"] by auto
  have "kind_at empty_vfs [''f''] \<noteq> kind_at snap_demo [''f'']" "rel_path [''f'']"
    by (simp_all add: kind_at_def empty_vfs_facts(2) snap_demo_lookup join_path_def comp_normal_def)
  then have 2: "vfs_snap_fsck 4096 (codec_table []) (\<lambda>_. ([], [])) empty_vfs root_cred ct (to_hex root_sum) None () = (Some (CAS_ERR, ()), ct)"
    using base [OF b(3,4) snap_demo_ready(3) b(2) m, of None "()"] by fastforce
  from 1 2 r(1) show ?thesis by blast
qed

text \<open>
  A snapshot that cannot be read is not a difference: the comparison with a root that does not load, or is not there,
  reports success without a look at the filesystem.
\<close>

theorem fsck_unreadable_passes:
  assumes "cas_tree_load table ct h (new_dir (fst (mem root_path))) = (Some (rc, dir), ct1)" "rc \<noteq> CAS_OK"
  shows "vfs_snap_fsck (Suc k) table mem fs cred ct h fn c = (Some (CAS_OK, c), ct1)"
  using assms by (simp add: vfs_snap_fsck_def)

text \<open>A caller cannot tell which of the two has no such file.\<close>

theorem checkfile_codes_coincide:
  "snap_code (Snap_vfs VFS_ENOTFOUND) = snap_code (Snap_cas CAS_ENOTFOUND)"
  by (simp add: snap_code_def)

section \<open>Entries named by two dots\<close>

text \<open>The paths made for such an entry lead to the parent directory.\<close>

lemma dots_normalize:
  assumes "list_all comp_normal (bs @ [b])" "list_all comp_normal (bs @ [c])" "length (join_path (bs @ [b])) + length c + 4 < VFS_PATH_MAX"
  shows "vfs_normalize VFS_PATH_MAX (join_path (bs @ [b]) @ slash # ''..'') = Inr (join_path bs)"
    "vfs_normalize VFS_PATH_MAX ((join_path (bs @ [b]) @ slash # ''..'') @ slash # c) = Inr (join_path (bs @ [c]))"
proof -
  have j: "join_path (bs @ [b]) = concat (map ((#) slash) (bs @ [b]))" by (simp add: join_path_def)
  have c: "components (join_path (bs @ [b]) @ slash # r) = (bs @ [b]) @ components r" for r
    unfolding j using components_join_append [OF assms(1), of r] .
  have dd: "components ''..'' = [''..'']" "components (''..'' @ slash # c) = [''..'', c]"
    using components_single [of "''..''"] components_append [of "''..''" c] components_single [of c] assms(2)
    by (simp_all add: comp_normal_def)
  have n: "list_all comp_normal bs" "comp_normal b" "comp_normal c" using assms(1,2) by simp_all
  have pp: "push_part b bs = bs @ [b]" "push_part ''..'' (bs @ [b]) = bs" "push_part c bs = bs @ [c]"
    using n(2,3) by (simp_all add: push_part_def comp_normal_def)
  have r: "resolve_parts ((bs @ [b]) @ [''..'']) = bs" "resolve_parts ((bs @ [b]) @ [''..'', c]) = bs @ [c]"
    by (simp_all add: resolve_parts_def foldl_push_id [OF n(1)] pp)
  have h: "hd (join_path (bs @ [b]) @ x) = slash" "join_path (bs @ [b]) @ x \<noteq> []" for x
    using join_path_nonempty [of "bs @ [b]"] by (simp_all add: hd_append)
  show "vfs_normalize VFS_PATH_MAX (join_path (bs @ [b]) @ slash # ''..'') = Inr (join_path bs)"
    unfolding vfs_normalize_max c dd r using h assms(3) by simp
  have a: "(join_path (bs @ [b]) @ slash # ''..'') @ slash # c = join_path (bs @ [b]) @ slash # (''..'' @ slash # c)" by simp
  show "vfs_normalize VFS_PATH_MAX ((join_path (bs @ [b]) @ slash # ''..'') @ slash # c) = Inr (join_path (bs @ [c]))"
    unfolding a vfs_normalize_max c dd r using h assms(3) by simp
qed

lemma mkdir_existing:
  assumes "vfs_normalize VFS_PATH_MAX p = Inr (join_path bs)" "list_all comp_normal bs" "list_all comp_legal bs" "length (join_path bs) < VFS_PATH_MAX"
    and "dir_at (fs_lookup fs) (join_path bs)"
  shows "vfs_mkdir fs cred now p True = (VFS_OK, fs)"
proof (cases "join_path bs = root_path")
  case False
  then obtain n where n: "fs_lookup fs (join_path bs) = Some n" "n_type n = VFS_DIR" using assms(5) by (auto simp: dir_at_def)
  then obtain i where i: "find_node fs (join_path bs) = Some i" using find_node_None [of fs "join_path bs"] by fastforce
  have "validate_path_components (join_path bs) = VFS_OK" using validate_path_components_join [OF assms(2,4)] assms(3) by simp
  with False assms(1) i n find_node_SomeD [OF i] show ?thesis by (auto simp: vfs_mkdir_def)
qed (simp add: vfs_mkdir_def assms(1))

lemma write_normalized: "vfs_normalize VFS_PATH_MAX p = vfs_normalize VFS_PATH_MAX q \<Longrightarrow> vfs_write fs cred now p d cp = vfs_write fs cred now q d cp"
  by (simp add: vfs_write_def)

text \<open>
  A restore is not confined to the directory it is given: two dots pass as the name of an entry, in both formats and in
  the check of a tree, and such an entry leads out of the directory. The depot may hold any snapshot whose root has one
  entry, a directory named by two dots, with a file in it: restoring it below a new directory creates the file next to
  that directory.
\<close>

theorem restore_escapes:
  assumes "s_sys (ct_store ct) = []"
    and "get_object table (ct_store ct) h = Some (t1, d1)" "dir_object t1 d1 [e1]" "e_name e1 = ''..''" "e_mode e1 AND CAS_TREE_S_IFMT = CAS_TREE_S_IFDIR"
    and "get_object table (ct_store ct) (e_hash e1) = Some (t2, d2)" "dir_object t2 d2 [e2]" "e_mode e2 AND CAS_TREE_S_IFMT = CAS_TREE_S_IFREG"
    and "get_object table (ct_store ct) (e_hash e2) = Some (''blob'', data)" "length data < 2 ^ 64"
    and "vfs_ready fs" "list_all comp_normal (bs @ [b])" "list_all comp_legal (bs @ [b])" "dir_at (fs_lookup fs) (join_path bs)"
    and "fs_lookup fs (join_path (bs @ [b])) = None" "comp_normal (e_name e2)" "comp_legal (e_name e2)" "e_name e2 \<noteq> b"
    and "fs_lookup fs (join_path (bs @ [e_name e2])) = None" "length (join_path (bs @ [b])) + length (e_name e2) + 4 < VFS_PATH_MAX"
  shows "\<exists>fs2. vfs_snap_restore_at (Suc (Suc k)) table (\<lambda>_. []) now fs cred ct (Some (join_path (bs @ [b]))) h = (Some CAS_OK, fs2, ct) \<and>
    kind_at fs2 (bs @ [e_name e2]) = Some (VFS_FILE, data)"
proof -
  let ?B = "bs @ [b]" and ?c = "e_name e2"
  let ?P = "join_path ?B @ slash # ''..''"
  have nb: "list_all comp_normal bs" "list_all comp_legal bs" "list_all comp_normal (bs @ [?c])" "list_all comp_legal (bs @ [?c])"
    using assms(12,13,16,17) by simp_all
  have lB: "length (join_path ?B) < VFS_PATH_MAX" using assms(20) by simp
  have lc: "length (join_path (bs @ [?c])) < VFS_PATH_MAX" using assms(20) by (auto simp: length_join_path split: if_splits)
  have lb: "length (join_path bs) < VFS_PATH_MAX" using lB by (auto simp: length_join_path VFS_PATH_MAX_def split: if_splits)
  obtain f n where m: "vfs_mkdir fs cred (now (join_path ?B)) (join_path ?B) True = (VFS_OK, f)" "vfs_ready f"
    "fs_lookup f = (fs_lookup fs)(join_path ?B \<mapsto> n)"
    using mkdir_new [OF assms(11-13) lB assms(14,15)] by blast
  have ne: "join_path bs \<noteq> join_path ?B" "join_path (bs @ [?c]) \<noteq> join_path ?B" "join_path ?B \<noteq> root_path"
    using join_path_tail [of bs "[]" "[b]"] join_path_tail [of bs "[?c]" "[b]"] assms(12,16,18) by auto
  have da: "dir_at (fs_lookup f) (join_path bs)" using assms(14) m(3) ne(1) by (simp add: dir_at_def)
  note dn = dots_normalize [OF assms(12) nb(3) assms(20)]
  have md: "vfs_mkdir f cred (now ?P) ?P True = (VFS_OK, f)" by (rule mkdir_existing [OF dn(1) nb(1,2) lb da])
  have nc: "fs_lookup f (join_path (bs @ [?c])) = None" using m(3) ne(2) assms(19) by simp
  obtain f2 w where wr: "vfs_write f cred (now (?P @ slash # ?c)) (join_path (bs @ [?c])) data True = (VFS_OK, f2)"
    "fs_lookup f2 = (fs_lookup f)(join_path (bs @ [?c]) \<mapsto> w)" "n_type w = VFS_FILE" "n_data w = data"
    using write_new [OF m(2) nb(3,4) lc da nc assms(10)] by metis
  have wp: "vfs_write f cred (now (?P @ slash # ?c)) (?P @ slash # ?c) data True = (VFS_OK, f2)"
    using write_normalized [of "?P @ slash # ?c" "join_path (bs @ [?c])"] dn(2) vfs_normalize_join [OF nb(3) lc] wr(1) by simp
  have p1: "snap_path (join_path ?B) ''..'' = ?P" using ne(3) assms(20) snap_text_short [of ?P] by (simp add: snap_path_def)
  have p2: "snap_path ?P ?c = ?P @ slash # ?c"
    using assms(20) snap_text_short [of "?P @ slash # ?c"] ne(3) by (cases "join_path ?B") (auto simp: snap_path_def)
  obtain dir1 where l1: "cas_tree_load table ct h (new_dir []) = (Some (CAS_OK, dir1), ct)" "d_entries dir1 = [e1]"
    using snap_load_quiet [OF assms(3,2,1)] by blast
  obtain dir2 where l2: "cas_tree_load table ct (e_hash e1) (new_dir []) = (Some (CAS_OK, dir2), ct)" "d_entries dir2 = [e2]"
    using snap_load_quiet [OF assms(7,6,1)] by blast
  have rf: "restore_file table now cred (f, ct) (?P @ slash # ?c) (e_hash e2) = (Some CAS_OK, f2, ct)"
    using open_blob_quiet [OF assms(9,1)] wp by (simp add: restore_file_def)
  have inner: "restore_dir (Suc k) table (\<lambda>_. []) now cred (f, ct) ?P (e_hash e1) = (Some CAS_OK, f2, ct)"
    using l2 p2 rf assms(8) by (simp add: Let_def type_bits)
  have "restore_dir (Suc (Suc k)) table (\<lambda>_. []) now cred (f, ct) (join_path ?B) h = (Some CAS_OK, f2, ct)"
    by (subst restore_dir.simps) (simp add: l1 Let_def p1 assms(4,5) type_bits md inner del: restore_dir.simps)
  moreover have "\<not> SNAP_PATH_MAX \<le> length (join_path ?B)" using lB by (simp add: VFS_PATH_MAX_def SNAP_PATH_MAX_def)
  ultimately have "vfs_snap_restore_at (Suc (Suc k)) table (\<lambda>_. []) now fs cred ct (Some (join_path ?B)) h = (Some CAS_OK, f2, ct)"
    using m(1) strip_slashes_join [OF assms(12)] by (simp add: vfs_snap_restore_at_def)
  moreover have "kind_at f2 (bs @ [?c]) = Some (VFS_FILE, data)" using wr(2-4) by (simp add: kind_at_def node_kind_def)
  ultimately show ?thesis by blast
qed

text \<open>A depot with such a snapshot, placed object by object.\<close>

lemma place_object:
  assumes "store_inv (codec_table []) s" "s_sys s = []" "length (s_basedir s) \<le> 400" "storable t d" "t = ''htree'' \<or> cas_hash_object t d = Some h"
    and "valid_hash h" "get_object (codec_table []) s h = None"
  obtains s' where "store_inv (codec_table []) s'" "s_sys s' = []" "s_basedir s' = s_basedir s"
    "get_object (codec_table []) s' = (get_object (codec_table []) s)(h \<mapsto> (t, d))"
proof -
  obtain r s' where run: "cas_put_object_at s t d h = (r, s')" by fastforce
  note q = put_at_quiet [OF run assms(2,3,4) store_inv_pack [OF assms(1)] assms(6)]
  then have st: "store_at s t d h = (True, s')" using run by (simp add: store_at_def)
  note sd = plain.stored_directory [OF assms(1,4,5) st]
  obtain rc where sa: "stored_as s s' h (loose_bytes False d t (length d)) rc" "rc = CAS_OK \<longrightarrow> valid_hash h" using st by (rule store_at_spec)
  have "get_object (codec_table []) s' k = ((get_object (codec_table []) s)(h \<mapsto> (t, d))) k" for k
    using sd assms(7) stored_as_get [OF sa, of k "codec_table []"] by auto
  then show thesis using that sd q by blast
qed

definition dots_entry :: cas_tree_entry where
  "dots_entry = \<lparr>e_mode = 0x41FF, e_uid = 0, e_gid = 0, e_mtime_s = 7, e_mtime_ns = 0, e_hash = replicate 64 CHR ''b'', e_name = ''..''\<rparr>"

lemma one_entry_object:
  assumes "entry_canon e"
  obtains d where "dir_object ''htree'' d [e]" "storable ''htree'' d"
proof -
  have "htree_size [e] \<le> 10000" using assms by (simp add: htree_size_def record_len_def htree_consts entry_canon_def name_ok_def CAS_TREE_NAME_MAX_def)
  moreover obtain d where d: "htree_build True [] [e] = Some (Some d)" using build_laid [of "[e]" "[]"] assms calculation by fastforce
  moreover have "length d = htree_size [e]" by (rule htree_build_length [OF _ d]) (use assms in simp)
  ultimately have "dir_object ''htree'' d [e]" "storable ''htree'' d"
    using assms by (auto simp: dir_object_def names_sorted_def storable_def type_ok_def CAS_TYPE_MAX_def CAS_PACK_BLOCK_def MAX_FILE_def)
  then show thesis by (rule that)
qed

lemma dots_depot:
  obtains ct :: cas_tree and d1 d2 where "s_sys (ct_store ct) = []" "get_object (codec_table []) (ct_store ct) (replicate 64 CHR ''a'') = Some (''htree'', d1)"
    "dir_object ''htree'' d1 [dots_entry]" "get_object (codec_table []) (ct_store ct) (e_hash dots_entry) = Some (''htree'', d2)"
    "dir_object ''htree'' d2 [snap_demo_entry]" "get_object (codec_table []) (ct_store ct) (e_hash snap_demo_entry) = Some (''blob'', [1, 2, 3])"
proof -
  let ?a = "replicate 64 CHR ''a''" and ?b = "replicate 64 CHR ''b''" and ?h = "to_hex blob_sum" and ?tab = "codec_table []"
  have v: "valid_hash ?a" "valid_hash ?b" "hash_canon ?b" by code_simp+
  have ne: "?a \<noteq> ?b" "?a \<noteq> ?h" "?b \<noteq> ?h" unfolding snap_demo_hex by code_simp+
  have "name_ok ''..''" "name_ok ''f''" by code_simp+
  then have "entry_canon dots_entry" "entry_canon snap_demo_entry"
    using v(3) hash_object_canon [OF snap_demo_blob] by (simp_all add: entry_canon_def dots_entry_def snap_demo_entry_def)
  then obtain d1 d2 where d: "dir_object ''htree'' d1 [dots_entry]" "storable ''htree'' d1" "dir_object ''htree'' d2 [snap_demo_entry]" "storable ''htree'' d2"
    by (metis one_entry_object)
  note g0 = demo_store_facts(4) [of ?tab]
  obtain s1 where s1: "store_inv ?tab s1" "s_sys s1 = []" "s_basedir s1 = s_basedir demo_store"
    "get_object ?tab s1 = (get_object ?tab demo_store)(?h \<mapsto> (''blob'', [1, 2, 3]))"
    by (rule place_object [OF demo_store_facts(5,1,2) _ disjI2 [OF snap_demo_blob] hash_object_valid [OF snap_demo_blob] g0]) (simp add: demo_storable)
  obtain s2 where s2: "store_inv ?tab s2" "s_sys s2 = []" "s_basedir s2 = s_basedir s1"
    "get_object ?tab s2 = (get_object ?tab s1)(?b \<mapsto> (''htree'', d2))"
    by (rule place_object [OF s1(1,2) _ d(4) disjI1 [OF refl] v(2)]) (use s1(3,4) ne g0 demo_store_facts(2) in simp_all)
  obtain s3 where s3: "s_sys s3 = []" "get_object ?tab s3 = (get_object ?tab s2)(?a \<mapsto> (''htree'', d1))"
    by (rule place_object [OF s2(1,2) _ d(2) disjI1 [OF refl] v(1)]) (use s2(3,4) s1(3,4) ne g0 demo_store_facts(2) in simp_all)
  have e: "e_hash dots_entry = ?b" "e_hash snap_demo_entry = ?h" by (simp_all add: dots_entry_def snap_demo_entry_def)
  show thesis
    by (rule that [of "\<lparr>ct_store = s3, ct_flags = 0\<rparr>" d1 d2])
      (use s3 s2(4) s1(4) ne d(1,3) e in simp_all)
qed

theorem restore_escapes_witness:
  "\<exists>ct fs2. vfs_snap_restore_at 2 (codec_table []) (\<lambda>_. []) (\<lambda>_. 9) empty_vfs root_cred ct (Some ''/r'') (replicate 64 CHR ''a'') =
      (Some CAS_OK, fs2, ct) \<and> kind_at fs2 [''f''] = Some (VFS_FILE, [1, 2, 3])"
proof (rule dots_depot)
  fix ct :: cas_tree and d1 d2
  assume d: "s_sys (ct_store ct) = []" "get_object (codec_table []) (ct_store ct) (replicate 64 CHR ''a'') = Some (''htree'', d1)"
    "dir_object ''htree'' d1 [dots_entry]" "get_object (codec_table []) (ct_store ct) (e_hash dots_entry) = Some (''htree'', d2)"
    "dir_object ''htree'' d2 [snap_demo_entry]" "get_object (codec_table []) (ct_store ct) (e_hash snap_demo_entry) = Some (''blob'', [1, 2, 3])"
  have t: "e_name dots_entry = ''..''" "e_mode dots_entry AND CAS_TREE_S_IFMT = CAS_TREE_S_IFDIR" "e_mode snap_demo_entry AND CAS_TREE_S_IFMT = CAS_TREE_S_IFREG"
    "e_name snap_demo_entry = ''f''"
    by (simp_all add: dots_entry_def snap_demo_entry_def CAS_TREE_S_IFMT_def CAS_TREE_S_IFDIR_def CAS_TREE_S_IFREG_def)
  have "\<exists>fs2. vfs_snap_restore_at (Suc (Suc 0)) (codec_table []) (\<lambda>_. []) (\<lambda>_. 9) empty_vfs root_cred ct (Some (join_path ([] @ [''r'']))) (replicate 64 CHR ''a'') =
      (Some CAS_OK, fs2, ct) \<and> kind_at fs2 ([] @ [e_name snap_demo_entry]) = Some (VFS_FILE, [1, 2, 3])"
    by (rule restore_escapes [OF d(1-3) t(1,2) d(4,5) t(3) d(6) _ empty_vfs_facts(1) _ _ _ empty_vfs_facts(2) _ _ _ empty_vfs_facts(2)])
      (simp_all add: t(4) comp_normal_def comp_legal_def illegal_chars_def join_path_def VFS_PATH_MAX_def dir_at_def ascii_def)
  then show ?thesis by (auto simp: t(4) join_path_def numeral_2_eq_2)
qed

end
