(* ===== verification/Spec2Isabelle.thy ===== *)
theory Spec2Isabelle
  imports VfsProps CasProps TreeProps RefProps OmapProps SignProps PackProps GcPack SnapProps
begin

text \<open>
  \<^bold>\<open>Verification of smolvfs.\<close>

  The repository is a C library in layers. \<open>vfs.c\<close> is a virtual file system held in memory.
  \<open>cas.c\<close> is a content-addressed store on disk: an object is a type and bytes, its name is the BLAKE2b hash of
  both, and it lies in a file of its own or in a pack (\<open>cas-pack.c\<close>), possibly compressed (\<open>cas-codec.c\<close>).
  \<open>cas-tree.c\<close> puts directories on top: an object of type \<open>tree\<close> (text) or \<open>htree\<close> (hash tables) lists names
  with modes, times and the names of further objects; references with logs name root directories.
  \<open>cas-gc.c\<close> collects what no log reaches. \<open>cas-omap.c\<close> keeps a sparse map from numbers to names of objects in
  pages that it loads from the store and writes back as snapshots. \<open>cas-sign.c\<close> binds a root to a topic, a number
  and its predecessor in a signed record, and \<open>cas-topic.c\<close> publishes such records under a reference. Packs are
  built, imported, checked and cleared of loose copies in \<open>cas-pack.c\<close>. \<open>vfs-snap.c\<close> joins both halves: it stores a virtual
  file system as directories of a depot, restores it, and compares the two. The development follows these layers.

  \<^bold>\<open>Conventions.\<close> A C string is a \<open>string\<close> without its terminator, a buffer a list of bytes, an
  integer of fixed width a word; \<open>size_t\<close> is a natural number where the code cannot overflow it and a 64-bit
  word where it can. An error code is a value of \<open>vfs_rc\<close> or \<open>cas_rc\<close>; an operation that delivers something
  returns a sum. The result \<open>None\<close> around a sum always stands for a run without a defined result, such as a
  read outside a buffer or a conversion that overflows, never for an error code; theorems that exclude it
  say so. The outcome of each allocation and system call is an input: the VFS takes lists of booleans, the
  store carries the field \<open>s_sys\<close>, where the empty list means that everything succeeds from there on.
  A failing write leaves any prefix of its data (\<open>torn\<close>). Files are a map from paths to bytes; directories
  of the operating system are not modelled. Contents of freshly allocated memory (\<open>junk\<close>), clocks,
  modification times and what \<open>readdir\<close> returns are arguments. Decompressors are entries of the codec table,
  an argument, and enter theorems through \<open>codec_ok\<close>, the documented contract of a codec.
  Counters and capacities of type \<open>int\<close> that grow by one or double with an allocation (the capacity of the node array, of
  a directory of pages, of a list of hashes or of children, and their counts) are natural numbers: their overflow, which
  takes more than \<open>2 ^ 30\<close> elements in memory, is not modelled. A commit of a file writes under a temporary name and renames;
  the temporary file and the removal of one that failed are not visible in the map of files. A number in a text
  directory that \<open>sscanf\<close> cannot represent has no defined result (\<open>None\<close>).

  \<^bold>\<open>Files.\<close>
  \<^item> \<open>Prelude\<close>: machine types, characters and bytes, first match in an array, removal by swapping.
  \<^item> \<open>VfsPath\<close>: \<open>vfs_normalize\<close>, \<open>vfs_resolve\<close>, \<open>path_parent\<close>, \<open>validate_path_components\<close>. \<open>Vfs\<close>: the node array
    and every operation of \<open>vfs.c\<close> on it. \<open>VfsTable\<close>, \<open>VfsInv\<close>, \<open>VfsOps\<close>, \<open>VfsRename\<close>: the array as a finite map
    and the tree invariant each operation keeps. \<open>VfsState\<close>: the calls of the interface as requests, runs of
    requests, and the states they reach while no rename runs out of memory. \<open>VfsMatch\<close>: \<open>vfs_fnmatch\<close> against the language of its patterns. \<open>VfsProps\<close>: the properties.
  \<^item> \<open>Bytes\<close>: little-endian fields. \<open>Blake2b\<close>: the hash of \<open>cas.c\<close>, block buffer and counter included. \<open>Hex\<close>,
    \<open>Header\<close>: names of objects, object headers with the parsers of \<open>cas.c\<close> and \<open>cas-pack.c\<close>.
    \<open>Codec\<close>: \<open>cas-codec.c\<close>. \<open>Pack\<close>: opening a pack and looking objects up in it.
  \<^item> \<open>Store\<close>: paths, opening, storing, removing objects, compression settings. \<open>StoreInv\<close>, \<open>ObjectStore\<close>,
    \<open>StoreProgress\<close>: which files an operation touches, what a stored object reads as, and that storing
    succeeds. \<open>CasProps\<close>: the properties. \<open>Fsck\<close>: iteration over a depot and \<open>cas_fsck\<close>.
  \<^item> \<open>TreeName\<close>, \<open>Utf8\<close>: entries and the check of names. \<open>TreeText\<close>: the text format, with \<open>sscanf\<close>.
    \<open>Htree\<close>, \<open>HtreeInv\<close>, \<open>HtreeBuild\<close>, \<open>HtreeLookup\<close>: the binary format. \<open>Tree\<close>, \<open>TreeLemmas\<close>: storing, loading,
    looking up and checking directories. \<open>TreeProps\<close>: the properties.
  \<^item> \<open>Refs\<close>, \<open>RefLog\<close>: references, commits, the log and its pruning. \<open>RefInv\<close>, \<open>RefHistory\<close>, \<open>RefProgress\<close>: the files
    an operation touches, the log as a list of entries, and that operations succeed. \<open>Gc\<close>: \<open>cas-gc.c\<close>.
    \<open>GcInv\<close>, \<open>GcRun\<close>: marking computes reachability. \<open>TreeFsck\<close>: \<open>cas_tree_fsck\<close>. \<open>RefProps\<close>: the properties.
  \<^item> \<open>OpenObject\<close>, \<open>ObjectClient\<close>: what a client of the store relies on, under failures and when it stores objects in
    sequence. \<open>Omap\<close>: \<open>cas-omap.c\<close>. \<open>OmapInv\<close>, \<open>OmapOps\<close>, \<open>OmapAlloc\<close>, \<open>OmapSnap\<close>: the map a directory of pages stands
    for, and each operation against it. \<open>OmapSpec\<close>: the locale \<open>simulation\<close> and the abstract steps.
    \<open>HashVector\<close>: the digest of a message of one block, and of one object, computed with the model. \<open>OmapProps\<close>: the properties.
  \<^item> \<open>Sign\<close>: the records of \<open>cas-sign.c\<close>, their verification, the walk along a chain, key files. \<open>Topic\<close>: \<open>cas-topic.c\<close>.
    \<open>SignLemmas\<close>: the fields of a record, what a walk visits, heads under failures. \<open>SignProps\<close>: the properties.
  \<^item> \<open>PackWrite\<close>: opening a depot, and the part of \<open>cas-pack.c\<close> that iterates over packs, checks, imports and writes them.
    \<open>PackLayout\<close>: the image of a pack and what a reader finds in it. \<open>PackCreate\<close>: \<open>pack_create\<close> under every failure.
    \<open>PackProps\<close>: the properties. \<open>GcPack\<close>: \<open>cas_tree_gc_pack\<close>, the collection that rebuilds the pack, which is exact too.
  \<^item> \<open>Snap\<close>: \<open>vfs-snap.c\<close>. \<open>SnapTree\<close>: the directories a filesystem stands for, as a function of its nodes. \<open>SnapStore\<close>: what a
    snapshot adds to a depot. \<open>SnapRestore\<close>, \<open>SnapProgress\<close>, \<open>SnapFsck\<close>: restoring, success, and the comparison. \<open>SnapVector\<close>: two
    more digests. \<open>SnapProps\<close>: the properties.

  \<^bold>\<open>What the properties show.\<close>
  The VFS: normalisation yields the canonical path or an error; every state reached without a rename that ran out of memory is a
  tree of directories and files whose usage counter is exact and within the quota; reading, writing, listing, copying,
  renaming and deleting do what they promise and nothing else; the matcher decides its pattern language.
  The store: hashing in pieces is hashing the whole; names and headers are read back; a stored object, compressed
  or not, is read back under its name, and storing another or failing to store disturbs no object; the
  search in a pack index is an exact membership test inside the mapping.
  Directories: the check of names is UTF-8; both formats round-trip and answer every lookup from the
  same listing; whatever a reader accepts is sorted with valid names; building terminates, reading stays inside the
  object; an object that passes the check has one listing and hashes to its address; \<open>cas_fsck\<close> is exact.
  References: a commit is atomic under every failure and is read back, pruning keeps exactly the documented
  entries, and collection, with or without a new pack, keeps exactly what the logs reach; the check of trees is exact.
  Sparse maps: without failures they refine a finite map, with failures each operation is its abstract step or changes
  nothing; the search for a free number is exact in a range that does not wrap, iteration visits every number once in order, and a snapshot gives
  the map back.
  Signed records: what verifies is bound to the digest of its key; records and key files are read back; a walk visits
  verified records of one topic with falling numbers; publishing, whatever fails, loses no object and moves a
  reference only to a verified, stored record; it follows the head, if one was read, and otherwise there was none, it was not
  in the store, or a call failed while it was read.
  Packs: a new pack, unless nothing is to be kept, is sorted and holds exactly the objects asked for; reclaiming removes only loose files whose
  objects the committed pack delivers; after both a depot reads as before.
  Snapshots: whatever fails, a depot gains only objects of the filesystem; the name of a snapshot depends on the filesystem
  alone; a snapshot succeeds when nothing fails, is restored as it was, and the comparison with it is exact.
  Where the code departs from this, a property or a theorem of the same files states the departure: the matcher stepping
  past the terminator, a torn rename, objects stored that cannot be opened, wrap-around in pack headers and pack sizes,
  directories with unchecked hash fields, the sweep of a tree whose log cannot be read, the hash of zeros in a sparse map,
  the head of a topic replaced by an older record when the file of the reference cannot be opened, an old pack kept where
  an empty one is documented, ranges of numbers that wrap, snapshots that are restored outside the directory given, and a
  comparison that passes when the snapshot cannot be read.

  \<^bold>\<open>Bounds and fuel.\<close> \<open>VFS_PATH_MAX\<close> is 4096 and a path that does not fit is an error. Objects of more than
  1 GiB are not opened (\<open>MAX_FILE\<close>), so that text and binary directories stay below \<open>2 ^ 32\<close> bytes, the range of
  the 32-bit positions of the binary format. \<open>insert_slot\<close> probes at most as often as its table has slots; a
  table has twice as many slots as records, so a free one is always met. \<open>probe_loop\<close> counts the slots, as
  the code does. \<open>mark_tree\<close> and \<open>fsck_tree\<close> descend to a bounded depth; for \<open>mark_tree\<close> more than the number of live
  directories is enough, because a marked directory is not entered again, and for \<open>fsck_tree\<close> every sound tree
  has a depth that suffices, whatever the size of the bound above it. The search for a free number of a sparse map
  meets another page of the directory in each turn, so that one turn more than there are pages is enough. The walks over
  snapshots descend to a bounded depth, for which \<open>VFS_PATH_MAX\<close> is enough, because every level makes the path longer.

  \<^bold>\<open>Not modelled.\<close> The log hook is a callback for diagnostics. \<open>cas-codec-miniz.c\<close> and \<open>cas-sign-monocypher.c\<close> only call
  the libraries under \<open>third_party\<close>. The command line tool parses arguments and prints.
\<close>

end
